(* ===== verification/Scorep_Prelude.thy ===== *)
theory Scorep_Prelude
  imports Main "HOL-Library.Word" "HOL-Library.Monad_Syntax" "HOL-Library.Multiset"
begin

text \<open>
  Shared vocabulary of the development: the C integer types, array cells, assertions and the
  conventions for effects.

  \<^item> A C function that can stop the process (a failed \<open>assert\<close>, \<open>UTILS_ASSERT\<close> or
    \<open>UTILS_BUG_ON\<close>) or that leaves the defined behaviour of C (an access outside an array, a
    null dereference) returns an \<open>option\<close>: \<open>None\<close> is that stop, \<open>Some r\<close> a normal return.
  \<^item> An error code or a null pointer that the C code returns to its caller is a value inside the
    \<open>Some\<close>.
  \<^item> \<open>uint32_t\<close> values that are only compared, added and subtracted are words; positions and
    sizes are \<open>nat\<close> with the 32-bit wrap-around of an addition written out
    (\<open>u32_add\<close>).
\<close>

unbundle bit_operations_syntax

type_synonym u8 = "8 word"
type_synonym u16 = "16 word"
type_synonym u32 = "32 word"
type_synonym u64 = "64 word"

section \<open>Lemma collections\<close>

named_theorems abort_simps "inversion of the option monad at a normal return"
named_theorems mask_simps "bits of the masks built by shifts"

section \<open>Assertions and array cells\<close>

definition assertC :: "bool \<Rightarrow> unit option" where
  "assertC b = (if b then Some () else None)"

definition arr_get :: "'a list \<Rightarrow> nat \<Rightarrow> 'a option" where
  "arr_get xs i = (if i < length xs then Some (xs ! i) else None)"

definition arr_set :: "'a list \<Rightarrow> nat \<Rightarrow> 'a \<Rightarrow> 'a list option" where
  "arr_set xs i x = (if i < length xs then Some (xs[i := x]) else None)"

lemma assertC_bind [simp]: "(assertC b \<bind> f) = (if b then f () else None)"
  by (simp add: assertC_def)

lemma assertC_Some [abort_simps]: "assertC b = Some u \<longleftrightarrow> b"
  by (simp add: assertC_def)

lemma arr_get_Some [abort_simps]: "arr_get xs i = Some x \<longleftrightarrow> i < length xs \<and> x = xs ! i"
  by (auto simp: arr_get_def)

lemma arr_set_Some [abort_simps]:
  "arr_set xs i x = Some ys \<longleftrightarrow> i < length xs \<and> ys = xs[i := x]"
  by (auto simp: arr_set_def)

lemma arr_get_in [simp]: "i < length xs \<Longrightarrow> arr_get xs i = Some (xs ! i)"
  by (simp add: arr_get_def)

lemma arr_set_in [simp]: "i < length xs \<Longrightarrow> arr_set xs i x = Some (xs[i := x])"
  by (simp add: arr_set_def)

lemma bind_Some_iff [abort_simps]:
  "(m \<bind> f) = Some y \<longleftrightarrow> (\<exists>x. m = Some x \<and> f x = Some y)"
  by (cases m) auto

section \<open>Unsigned 32-bit addition on naturals\<close>

definition u32_add :: "nat \<Rightarrow> nat \<Rightarrow> nat" where
  "u32_add a b = (a + b) mod 2 ^ 32"

lemma u32_add_small: "a + b < 2 ^ 32 \<Longrightarrow> u32_add a b = a + b"
  by (simp add: u32_add_def)

section \<open>Masks\<close>

lemma bit_shifted_one [mask_simps]:
  "bit (2 ^ n :: 'a::len word) k \<longleftrightarrow> k = n \<and> n < LENGTH('a)"
  by (auto simp: bit_exp_iff)

lemma bit_low_mask [mask_simps]:
  "bit (2 ^ n - 1 :: 'a::len word) k \<longleftrightarrow> k < n \<and> k < LENGTH('a)"
  by (auto simp: mask_eq_exp_minus_1 [symmetric] bit_mask_iff)

lemma bit_high_mask [mask_simps]:
  "bit (- (2 ^ n) :: 'a::len word) k \<longleftrightarrow> n \<le> k \<and> k < LENGTH('a)"
  by (auto simp: minus_exp_eq_not_mask bit_not_iff bit_mask_iff)

lemma word_eq_by_bits:
  "(\<And>k. k < LENGTH('a) \<Longrightarrow> bit v k = bit w k) \<Longrightarrow> v = (w :: 'a::len word)"
  by (rule bit_word_eqI) 

lemma word_nonzero_bit:
  assumes "w \<noteq> (0 :: 'a::len word)"
  shows "\<exists>k < LENGTH('a). bit w k"
proof (rule ccontr)
  assume "\<not> ?thesis"
  then have "w = 0" by (intro word_eq_by_bits) auto
  with assms show False ..
qed

end
