(* ===== verification/Scorep_Bitset.thy ===== *)
theory Scorep_Bitset
  imports Scorep_Prelude
begin

text \<open>
  The page bitmap of the allocator, \<open>src/src/utils/memory/scorep_bitset.h\<close>. A bitset is
  an array of 64-bit words; the C code passes its address and the number of members. Every
  operation is translated with its assertions; the abstraction \<open>bits\<close> reads the set of members
  off the words, and the lemmas show that the word-wise code performs the set operation.
\<close>

section \<open>The code\<close>

abbreviation (input) BITSET_WORDSIZE :: nat where "BITSET_WORDSIZE \<equiv> 64"

type_synonym bitset = "u64 list"

definition bitset_size :: "nat \<Rightarrow> nat" where
  "bitset_size numberOfMembers =
     (numberOfMembers div BITSET_WORDSIZE + of_bool (numberOfMembers mod BITSET_WORDSIZE \<noteq> 0))
     * (BITSET_WORDSIZE div 8)"

definition bitset_mark_invalid :: "bitset \<Rightarrow> nat \<Rightarrow> bitset option" where
  "bitset_mark_invalid words numberOfMembers =
     (let last_bit = numberOfMembers mod BITSET_WORDSIZE
      in if last_bit = 0 then Some words
         else arr_set words (numberOfMembers div BITSET_WORDSIZE) (- push_bit last_bit 1))"

definition bitset_set :: "bitset \<Rightarrow> nat \<Rightarrow> nat \<Rightarrow> bitset option" where
  "bitset_set words numberOfMembers pos = do {
     assertC (pos < numberOfMembers);
     word \<leftarrow> arr_get words (pos div BITSET_WORDSIZE);
     arr_set words (pos div BITSET_WORDSIZE) (word OR push_bit (pos mod BITSET_WORDSIZE) 1)
   }"

definition bitset_clear :: "bitset \<Rightarrow> nat \<Rightarrow> nat \<Rightarrow> bitset option" where
  "bitset_clear words numberOfMembers pos = do {
     assertC (pos < numberOfMembers);
     word \<leftarrow> arr_get words (pos div BITSET_WORDSIZE);
     arr_set words (pos div BITSET_WORDSIZE) (word AND NOT (push_bit (pos mod BITSET_WORDSIZE) 1))
   }"

text \<open>The loop over the full words; \<open>chk\<close> is its assertion on the old word.\<close>

function full_words :: "(u64 \<Rightarrow> bool) \<Rightarrow> u64 \<Rightarrow> bitset \<Rightarrow> nat \<Rightarrow> nat \<Rightarrow> bitset option" where
  "full_words chk v words i last_word =
     (if i < last_word then do {
        word \<leftarrow> arr_get words i;
        assertC (chk word);
        words' \<leftarrow> arr_set words i v;
        full_words chk v words' (Suc i) last_word
      } else Some words)"
  by pat_completeness auto
termination
  by (relation "measure (\<lambda>(chk, v, words, i, last_word). last_word - i)") auto

declare full_words.simps [simp del]

definition bitset_set_range :: "bitset \<Rightarrow> nat \<Rightarrow> nat \<Rightarrow> nat \<Rightarrow> bitset option" where
  "bitset_set_range words numberOfMembers offset len = do {
     assertC (offset < numberOfMembers);
     assertC (len > 0);
     assertC (len \<le> numberOfMembers);
     assertC (u32_add offset len \<le> numberOfMembers);
     let first_word = offset div BITSET_WORDSIZE;
     let first_bit_pos = offset mod BITSET_WORDSIZE;
     let last_word = u32_add offset len div BITSET_WORDSIZE;
     let last_bit_pos = u32_add offset len mod BITSET_WORDSIZE;
     (words, i) \<leftarrow>
       (if first_bit_pos \<noteq> 0 then do {
          let mask = - push_bit first_bit_pos 1;
          let mask = (if first_word = last_word \<and> last_bit_pos \<noteq> 0
                      then mask AND (push_bit last_bit_pos 1 - 1) else mask);
          word \<leftarrow> arr_get words first_word;
          assertC (word AND mask = 0);
          words \<leftarrow> arr_set words first_word (word OR mask);
          Some (words, Suc first_word)
        } else Some (words, first_word));
     words \<leftarrow> full_words (\<lambda>word. word AND NOT 0 = 0) (NOT 0) words i last_word;
     if last_bit_pos \<noteq> 0 \<and> \<not> (first_word = last_word \<and> first_bit_pos \<noteq> 0) then do {
       let mask = push_bit last_bit_pos 1 - 1;
       word \<leftarrow> arr_get words last_word;
       assertC (word AND mask = 0);
       arr_set words last_word (word OR mask)
     } else Some words
   }"

definition bitset_clear_range :: "bitset \<Rightarrow> nat \<Rightarrow> nat \<Rightarrow> nat \<Rightarrow> bitset option" where
  "bitset_clear_range words numberOfMembers offset len = do {
     assertC (offset < numberOfMembers);
     assertC (len > 0);
     assertC (len \<le> numberOfMembers);
     assertC (u32_add offset len \<le> numberOfMembers);
     let first_word = offset div BITSET_WORDSIZE;
     let first_bit_pos = offset mod BITSET_WORDSIZE;
     let last_word = u32_add offset len div BITSET_WORDSIZE;
     let last_bit_pos = u32_add offset len mod BITSET_WORDSIZE;
     (words, i) \<leftarrow>
       (if first_bit_pos \<noteq> 0 then do {
          let mask = - push_bit first_bit_pos 1;
          let mask = (if first_word = last_word \<and> last_bit_pos \<noteq> 0
                      then mask AND (push_bit last_bit_pos 1 - 1) else mask);
          word \<leftarrow> arr_get words first_word;
          assertC (word AND mask = mask);
          words \<leftarrow> arr_set words first_word (word AND NOT mask);
          Some (words, Suc first_word)
        } else Some (words, first_word));
     words \<leftarrow> full_words (\<lambda>word. word AND 0 = 0) 0 words i last_word;
     if last_bit_pos \<noteq> 0 \<and> \<not> (first_word = last_word \<and> first_bit_pos \<noteq> 0) then do {
       let mask = push_bit last_bit_pos 1 - 1;
       word \<leftarrow> arr_get words last_word;
       assertC (word AND mask = mask);
       arr_set words last_word (word AND NOT mask)
     } else Some words
   }"

text \<open>The shift loop of \<open>_find_first_zero\<close>.\<close>

function shift_count :: "u64 \<Rightarrow> nat \<Rightarrow> nat" where
  "shift_count word pos = (if word \<noteq> 0 then shift_count (drop_bit 1 word) (Suc pos) else pos)"
  by pat_completeness auto
termination
proof (relation "measure (\<lambda>(word, pos). unat word)", goal_cases)
  case (2 word pos)
  then have "unat word > 0" by (simp add: unat_gt_0)
  then show ?case by (simp add: drop_bit_Suc unat_div_distrib)
qed simp

declare shift_count.simps [simp del]

definition find_first_zero :: "u64 \<Rightarrow> nat" where
  "find_first_zero word = shift_count (drop_bit 1 (NOT word XOR (NOT word - 1))) 0"

definition find_first_set :: "u64 \<Rightarrow> nat" where
  "find_first_set word = find_first_zero (NOT word)"

text \<open>The search loop over the words, from \<open>i\<close> up to \<open>n_words\<close>.\<close>

function find_word :: "(u64 \<Rightarrow> bool) \<Rightarrow> bitset \<Rightarrow> nat \<Rightarrow> nat \<Rightarrow> nat option" where
  "find_word p words i n_words =
     (if i < n_words then do {
        word \<leftarrow> arr_get words i;
        if p word then Some i else find_word p words (Suc i) n_words
      } else Some i)"
  by pat_completeness auto
termination
  by (relation "measure (\<lambda>(p, words, i, n_words). n_words - i)") auto

declare find_word.simps [simp del]

definition n_words_of :: "nat \<Rightarrow> nat" where
  "n_words_of numberOfMembers =
     numberOfMembers div BITSET_WORDSIZE + of_bool (numberOfMembers mod BITSET_WORDSIZE \<noteq> 0)"

definition next_free_scan :: "bitset \<Rightarrow> nat \<Rightarrow> nat \<Rightarrow> nat option" where
  "next_free_scan words numberOfMembers i = do {
     i \<leftarrow> find_word (\<lambda>word. NOT word \<noteq> 0) words i (n_words_of numberOfMembers);
     if i = n_words_of numberOfMembers then Some numberOfMembers
     else do {
       word \<leftarrow> arr_get words i;
       Some (i * BITSET_WORDSIZE + find_first_zero word)
     }
   }"

definition bitset_next_free :: "bitset \<Rightarrow> nat \<Rightarrow> nat \<Rightarrow> nat option" where
  "bitset_next_free words numberOfMembers offset =
     (let i = offset div BITSET_WORDSIZE;
          first_bit_pos = offset mod BITSET_WORDSIZE
      in if offset \<ge> numberOfMembers then Some numberOfMembers
         else if first_bit_pos \<noteq> 0 then do {
           word \<leftarrow> arr_get words i;
           let word = word OR (push_bit first_bit_pos 1 - 1);
           if NOT word \<noteq> 0 then Some (i * BITSET_WORDSIZE + find_first_zero word)
           else next_free_scan words numberOfMembers (Suc i)
         }
         else next_free_scan words numberOfMembers i)"

definition bitset_find_and_set :: "bitset \<Rightarrow> nat \<Rightarrow> (nat \<times> bitset) option" where
  "bitset_find_and_set words numberOfMembers = do {
     bit \<leftarrow> bitset_next_free words numberOfMembers 0;
     if bit < numberOfMembers then do {
       words \<leftarrow> bitset_set words numberOfMembers bit;
       Some (bit, words)
     } else Some (bit, words)
   }"

definition next_used_scan :: "bitset \<Rightarrow> nat \<Rightarrow> nat \<Rightarrow> nat option" where
  "next_used_scan words numberOfMembers i = do {
     i \<leftarrow> find_word (\<lambda>word. word \<noteq> 0) words i (n_words_of numberOfMembers);
     if i = n_words_of numberOfMembers then Some numberOfMembers
     else do {
       word \<leftarrow> arr_get words i;
       Some (i * BITSET_WORDSIZE + find_first_set word)
     }
   }"

definition bitset_next_used :: "bitset \<Rightarrow> nat \<Rightarrow> nat \<Rightarrow> nat option" where
  "bitset_next_used words numberOfMembers offset =
     (let i = offset div BITSET_WORDSIZE;
          first_bit_pos = offset mod BITSET_WORDSIZE
      in if first_bit_pos \<noteq> 0 then do {
           word \<leftarrow> arr_get words i;
           let word = word AND NOT (push_bit first_bit_pos 1 - 1);
           if word \<noteq> 0 then Some (i * BITSET_WORDSIZE + find_first_set word)
           else next_used_scan words numberOfMembers (Suc i)
         }
         else next_used_scan words numberOfMembers i)"

text \<open>The outer loop; \<open>None\<close> is also a loop that does not end.\<close>

partial_function (option) find_range_loop ::
  "bitset \<Rightarrow> nat \<Rightarrow> nat \<Rightarrow> nat \<Rightarrow> (nat \<times> bitset) option" where
  "find_range_loop words numberOfMembers rangeLength pos =
     (if pos < numberOfMembers then
        Option.bind (bitset_next_used words numberOfMembers pos) (\<lambda>next_used.
          if next_used - pos \<ge> rangeLength then
            Option.bind (bitset_set_range words numberOfMembers pos rangeLength) (\<lambda>words'.
              Some (pos, words'))
          else
            Option.bind (bitset_next_free words numberOfMembers (u32_add pos (next_used - pos)))
              (\<lambda>pos'. find_range_loop words numberOfMembers rangeLength pos'))
      else Some (numberOfMembers, words))"

definition bitset_find_and_set_range :: "bitset \<Rightarrow> nat \<Rightarrow> nat \<Rightarrow> (nat \<times> bitset) option" where
  "bitset_find_and_set_range words numberOfMembers rangeLength = do {
     pos \<leftarrow> bitset_next_free words numberOfMembers 0;
     find_range_loop words numberOfMembers rangeLength pos
   }"

section \<open>The set of members\<close>

definition bits :: "bitset \<Rightarrow> nat set" where
  "bits ws = {i. i div 64 < length ws \<and> bit (ws ! (i div 64)) (i mod 64)}"

definition holds :: "bitset \<Rightarrow> nat \<Rightarrow> bool" where
  "holds ws n \<longleftrightarrow> n \<le> 64 * length ws \<and> n < 2 ^ 31"

lemma word_interval_arith:
  fixes q w lo hi r :: nat
  assumes "hi \<le> 64" "r < 64"
  shows "64 * w + lo \<le> 64 * q + r \<and> 64 * q + r < 64 * w + hi \<longleftrightarrow> q = w \<and> lo \<le> r \<and> r < hi"
  using assms by (cases q w rule: linorder_cases) auto

lemma word_interval:
  assumes "hi \<le> 64"
  shows "{64 * w + lo..<64 * w + hi} = {j::nat. j div 64 = w \<and> lo \<le> j mod 64 \<and> j mod 64 < hi}"
proof (rule set_eqI)
  fix j :: nat
  show "j \<in> {64 * w + lo..<64 * w + hi}
      \<longleftrightarrow> j \<in> {j. j div 64 = w \<and> lo \<le> j mod 64 \<and> j mod 64 < hi}"
    using word_interval_arith [OF assms, of "j mod 64" w lo "j div 64"] by simp
qed

lemma bits_or_mask:
  assumes "w < length ws" and "hi \<le> 64"
    and "\<And>b. b < 64 \<Longrightarrow> bit m b \<longleftrightarrow> lo \<le> b \<and> b < hi"
  shows "bits (ws[w := ws ! w OR m]) = bits ws \<union> {64 * w + lo..<64 * w + hi}"
  unfolding word_interval [OF assms(2)]
  using assms(1,3) by (auto simp: bits_def nth_list_update bit_or_iff split: if_splits)

lemma bits_clear_mask:
  assumes "w < length ws" and "hi \<le> 64"
    and "\<And>b. b < 64 \<Longrightarrow> bit m b \<longleftrightarrow> lo \<le> b \<and> b < hi"
  shows "bits (ws[w := ws ! w AND NOT m]) = bits ws - {64 * w + lo..<64 * w + hi}"
  unfolding word_interval [OF assms(2)]
  using assms(1,3)
  by (auto simp: bits_def nth_list_update bit_and_iff bit_not_iff split: if_splits)

lemma in_bits_word: "b < 64 \<Longrightarrow> w < length ws \<Longrightarrow> bit (ws ! w) b \<longleftrightarrow> 64 * w + b \<in> bits ws"
  by (simp add: bits_def)

lemma mask_disjoint:
  assumes "w < length ws" and "hi \<le> 64"
    and m: "\<And>b. b < 64 \<Longrightarrow> bit m b \<longleftrightarrow> lo \<le> b \<and> b < hi"
    and "{64 * w + lo..<64 * w + hi} \<inter> bits ws = {}"
  shows "(ws ! w) AND m = 0"
proof (rule word_eq_by_bits)
  fix k assume "k < LENGTH(64)"
  then show "bit (ws ! w AND m) k = bit 0 k"
    using assms(4) m [of k] in_bits_word [of k w ws] assms(1)
    by (auto simp: bit_and_iff disjoint_iff)
qed

lemma mask_subset:
  assumes "w < length ws" and "hi \<le> 64"
    and m: "\<And>b. b < 64 \<Longrightarrow> bit m b \<longleftrightarrow> lo \<le> b \<and> b < hi"
    and sub: "{64 * w + lo..<64 * w + hi} \<subseteq> bits ws"
  shows "(ws ! w) AND m = m"
proof (rule word_eq_by_bits)
  fix k assume k: "k < LENGTH(64)"
  show "bit (ws ! w AND m) k = bit m k"
  proof (cases "bit m k")
    case True
    with m k have "64 * w + k \<in> {64 * w + lo..<64 * w + hi}" by simp
    with sub k assms(1) True show ?thesis by (simp add: in_bits_word bit_and_iff subset_iff)
  qed (simp add: bit_and_iff)
qed

subsection \<open>The loop over full words\<close>

lemma full_words_spec:
  assumes "last_word \<le> length ws"
    and "\<And>k. i \<le> k \<Longrightarrow> k < last_word \<Longrightarrow> chk (ws ! k)"
  shows "\<exists>ws'. full_words chk v ws i last_word = Some ws' \<and> length ws' = length ws \<and>
           (\<forall>k. ws' ! k = (if i \<le> k \<and> k < last_word then v else ws ! k))"
  using assms
proof (induction chk v ws i last_word rule: full_words.induct)
  case (1 chk v ws i last_word)
  show ?case
  proof (cases "i < last_word")
    case True
    then have get: "arr_get ws i = Some (ws ! i)" and set: "arr_set ws i v = Some (ws[i := v])"
      using "1.prems" by auto
    have "\<exists>ws'. full_words chk v (ws[i := v]) (Suc i) last_word = Some ws' \<and>
        length ws' = length (ws[i := v]) \<and>
        (\<forall>k. ws' ! k = (if Suc i \<le> k \<and> k < last_word then v else ws[i := v] ! k))"
      using "1.prems" True
      by (intro "1.IH" [OF True get _ set]) (auto simp: assertC_def)
    then obtain ws' where "full_words chk v (ws[i := v]) (Suc i) last_word = Some ws'"
      and len: "length ws' = length ws"
      and nth: "\<And>k. ws' ! k = (if Suc i \<le> k \<and> k < last_word then v else ws[i := v] ! k)"
      by auto
    then have "full_words chk v ws i last_word = Some ws'"
      using True get set "1.prems"(2) [of i] by (simp add: full_words.simps [of chk v ws])
    moreover have "ws' ! k = (if i \<le> k \<and> k < last_word then v else ws ! k)" for k
      using nth [of k] True "1.prems"(1) by (auto simp: nth_list_update)
    ultimately show ?thesis using len by blast
  qed (auto simp: full_words.simps [of chk v ws])
qed

lemma full_words_bits:
  assumes "full_words chk v ws i last_word = Some ws'" and "last_word \<le> length ws"
    and nth: "\<forall>k. ws' ! k = (if i \<le> k \<and> k < last_word then v else ws ! k)"
    and "length ws' = length ws"
  shows "bits ws' = {j \<in> bits ws. j < 64 * i \<or> 64 * last_word \<le> j}
           \<union> {j. 64 * i \<le> j \<and> j < 64 * last_word \<and> bit v (j mod 64)}"
proof (rule set_eqI)
  fix j :: nat
  have "i \<le> j div 64 \<longleftrightarrow> 64 * i \<le> j" and "j div 64 < last_word \<longleftrightarrow> j < 64 * last_word"
    by (simp_all add: less_eq_div_iff_mult_less_eq div_less_iff_less_mult mult.commute)
  then show "j \<in> bits ws' \<longleftrightarrow> j \<in> {j \<in> bits ws. j < 64 * i \<or> 64 * last_word \<le> j}
           \<union> {j. 64 * i \<le> j \<and> j < 64 * last_word \<and> bit v (j mod 64)}"
    using assms(2,4) by (auto simp: bits_def nth [rule_format, of "j div 64"])
qed

lemma full_words_set:
  assumes "last_word \<le> length ws" and "{64 * i..<64 * last_word} \<inter> bits ws = {}"
  shows "\<exists>ws'. full_words (\<lambda>word. word AND NOT 0 = 0) (NOT 0) ws i last_word = Some ws'
    \<and> length ws' = length ws \<and> bits ws' = bits ws \<union> {64 * i..<64 * last_word}"
proof -
  have zero: "ws ! k = 0" if "i \<le> k" "k < last_word" for k
  proof (rule word_eq_by_bits)
    fix b assume "b < LENGTH(64)"
    then show "bit (ws ! k) b = bit 0 b"
      using in_bits_word [of b k ws] assms that by (auto simp: disjoint_iff)
  qed
  have "\<exists>ws'. full_words (\<lambda>word. word AND NOT 0 = 0) (NOT 0) ws i last_word = Some ws'
      \<and> length ws' = length ws
      \<and> (\<forall>k. ws' ! k = (if i \<le> k \<and> k < last_word then NOT 0 else ws ! k))"
    by (rule full_words_spec) (simp_all add: assms(1) zero)
  then obtain ws' where
    *: "full_words (\<lambda>word. word AND NOT 0 = 0) (NOT 0) ws i last_word = Some ws'"
      "length ws' = length ws"
      "\<forall>k. ws' ! k = (if i \<le> k \<and> k < last_word then NOT 0 else ws ! k)"
    by blast
  have "bits ws' = bits ws \<union> {64 * i..<64 * last_word}"
    unfolding full_words_bits [OF *(1) assms(1) *(3,2)] using assms(2) by auto
  with * show ?thesis by blast
qed

lemma full_words_clear:
  assumes "last_word \<le> length ws"
  shows "\<exists>ws'. full_words (\<lambda>word. word AND 0 = 0) 0 ws i last_word = Some ws'
    \<and> length ws' = length ws \<and> bits ws' = bits ws - {64 * i..<64 * last_word}"
proof -
  have "\<exists>ws'. full_words (\<lambda>word. word AND 0 = 0) 0 ws i last_word = Some ws'
      \<and> length ws' = length ws
      \<and> (\<forall>k. ws' ! k = (if i \<le> k \<and> k < last_word then 0 else ws ! k))"
    by (rule full_words_spec) (simp_all add: assms(1))
  then obtain ws' where *: "full_words (\<lambda>word. word AND 0 = 0) 0 ws i last_word = Some ws'"
    "length ws' = length ws"
    "\<forall>k. ws' ! k = (if i \<le> k \<and> k < last_word then 0 else ws ! k)"
    by blast
  have "bits ws' = bits ws - {64 * i..<64 * last_word}"
    unfolding full_words_bits [OF *(1) assms(1) *(3,2)] by auto
  with * show ?thesis by blast
qed

subsection \<open>Setting and clearing a range\<close>

text \<open>The first, partial word of a range and the last one, as intervals of members.\<close>

lemma range_pieces:
  fixes offset len :: nat
  assumes "0 < len"
  defines "fw \<equiv> offset div 64" and "fb \<equiv> offset mod 64"
    and "lw \<equiv> (offset + len) div 64" and "lb \<equiv> (offset + len) mod 64"
  shows "fw \<le> lw" "fw = lw \<Longrightarrow> lb \<noteq> 0"
    "fw = lw \<Longrightarrow> {offset..<offset + len} = {64 * fw + fb..<64 * fw + lb}"
    "fw < lw \<Longrightarrow> {offset..<offset + len}
        = {64 * fw + fb..<64 * fw + 64} \<union> {64 * Suc fw..<64 * lw} \<union> {64 * lw..<64 * lw + lb}"
    "fb = 0 \<Longrightarrow> {offset..<offset + len} = {64 * fw..<64 * lw} \<union> {64 * lw..<64 * lw + lb}"
    "lb < 64" "fb < 64"
proof -
  have o: "offset = 64 * fw + fb" "fb < 64" and e: "offset + len = 64 * lw + lb" "lb < 64"
    by (simp_all add: fw_def fb_def lw_def lb_def)
  show "fw \<le> lw" unfolding fw_def lw_def by (simp add: div_le_mono)
  show "lb \<noteq> 0" if "fw = lw" using o e that assms(1) by linarith
  show "{offset..<offset + len} = {64 * fw + fb..<64 * fw + lb}" if "fw = lw"
    unfolding e(1) using o(1) that by simp
  show "{offset..<offset + len}
      = {64 * fw + fb..<64 * fw + 64} \<union> {64 * Suc fw..<64 * lw} \<union> {64 * lw..<64 * lw + lb}"
    if "fw < lw"
    unfolding e(1) unfolding o(1) using that o(2) by auto
  show "{offset..<offset + len} = {64 * fw..<64 * lw} \<union> {64 * lw..<64 * lw + lb}" if "fb = 0"
    unfolding e(1) unfolding o(1) using that \<open>fw \<le> lw\<close> by auto
  show "lb < 64" "fb < 64" using o e by simp_all
qed

lemma word_below: "x < n \<Longrightarrow> n \<le> 64 * length ws \<Longrightarrow> x div 64 < length (ws :: bitset)"
  by (simp add: div_less_iff_less_mult mult.commute)

lemma bit_first_mask:
  "b < 64 \<Longrightarrow> bit (- (2 ^ fb) AND (2 ^ lb - 1) :: u64) b \<longleftrightarrow> fb \<le> b \<and> b < lb"
  by (simp add: bit_and_iff mask_simps)

lemma range_bounds:
  assumes "holds ws n" "0 < len" "offset + len \<le> n"
  shows "u32_add offset len = offset + len" "offset < n" "len \<le> n"
    "offset div 64 < length ws" "(offset + len) div 64 \<le> length ws"
    "(offset + len) mod 64 \<noteq> 0 \<Longrightarrow> (offset + len) div 64 < length ws"
proof -
  have e: "offset + len = 64 * ((offset + len) div 64) + (offset + len) mod 64" by simp
  show "u32_add offset len = offset + len"
    using assms by (intro u32_add_small) (simp add: holds_def)
  show "offset < n" "len \<le> n" using assms by auto
  then show "offset div 64 < length ws" using word_below [of offset n ws] assms(1)
    by (simp add: holds_def)
  show "(offset + len) div 64 \<le> length ws"
    "(offset + len) mod 64 \<noteq> 0 \<Longrightarrow> (offset + len) div 64 < length ws"
    using assms(1,3) e unfolding holds_def by linarith+
qed

text \<open>
  \<open>bitset_set_range\<close> and \<open>bitset_clear_range\<close> visit the same words with the same masks and
  differ in the assertion on a word and in how they write it. The locale states what one partial
  word and the loop over the full words must do; the walk over the range is proved once.
\<close>

locale word_range =
  fixes ok :: "u64 \<Rightarrow> u64 \<Rightarrow> bool" and upd :: "u64 \<Rightarrow> u64 \<Rightarrow> u64"
    and chk :: "u64 \<Rightarrow> bool" and v :: u64
    and pre :: "nat set \<Rightarrow> nat set \<Rightarrow> bool" and eff :: "nat set \<Rightarrow> nat set \<Rightarrow> nat set"
  assumes word_ok: "w < length ws \<Longrightarrow> hi \<le> 64
      \<Longrightarrow> (\<And>b. b < 64 \<Longrightarrow> bit m b \<longleftrightarrow> lo \<le> b \<and> b < hi)
      \<Longrightarrow> pre (bits ws) {64 * w + lo..<64 * w + hi} \<Longrightarrow> ok (ws ! w) m"
    and word_upd: "w < length ws \<Longrightarrow> hi \<le> 64
      \<Longrightarrow> (\<And>b. b < 64 \<Longrightarrow> bit m b \<longleftrightarrow> lo \<le> b \<and> b < hi)
      \<Longrightarrow> bits (ws[w := upd (ws ! w) m]) = eff (bits ws) {64 * w + lo..<64 * w + hi}"
    and full: "last_word \<le> length ws \<Longrightarrow> pre (bits ws) {64 * i..<64 * last_word}
      \<Longrightarrow> \<exists>ws'. full_words chk v ws i last_word = Some ws' \<and> length ws' = length ws
            \<and> bits ws' = eff (bits ws) {64 * i..<64 * last_word}"
    and pre_mono: "pre B S \<Longrightarrow> T \<subseteq> S \<Longrightarrow> pre B T"
    and pre_eff: "pre B S \<Longrightarrow> S \<inter> T = {} \<Longrightarrow> pre (eff B T) S"
    and eff_union: "eff (eff B S) T = eff B (S \<union> T)"
    and eff_empty: "eff B {} = B"
begin

lemma last_part:
  assumes "lb \<noteq> 0 \<Longrightarrow> lw < length ws" "lb < 64" and "pre (bits ws) {64 * lw..<64 * lw + lb}"
  obtains ws' where
    "(if lb \<noteq> 0 then do {
       let mask = push_bit lb 1 - 1;
       word \<leftarrow> arr_get ws lw;
       assertC (ok word mask);
       arr_set ws lw (upd word mask) } else Some ws) = Some ws'"
    "length ws' = length ws" "bits ws' = eff (bits ws) {64 * lw..<64 * lw + lb}"
proof (cases "lb = 0")
  case False
  have m: "bit (2 ^ lb - 1 :: u64) b \<longleftrightarrow> 0 \<le> b \<and> b < lb" if "b < 64" for b
    using that by (simp add: mask_simps)
  have lw: "lw < length ws" "lb \<le> 64" using assms(1,2) False by simp_all
  have "pre (bits ws) {64 * lw + 0..<64 * lw + lb}" using assms(3) by simp
  note zero = word_ok [OF lw m this]
  note w = word_upd [OF lw m]
  show thesis
    using that [of "ws[lw := upd (ws ! lw) (2 ^ lb - 1)]"] False lw zero w
    by (simp add: Let_def)
qed (use that in \<open>auto simp: eff_empty\<close>)

lemma range_walk:
  assumes n: "holds ws n" and len: "0 < len" "offset + len \<le> n"
    and free: "pre (bits ws) {offset..<offset + len}"
  defines "fw \<equiv> offset div 64" and "fb \<equiv> offset mod 64"
    and "lw \<equiv> (offset + len) div 64" and "lb \<equiv> (offset + len) mod 64"
  obtains ws' where "do {
     (words, i) \<leftarrow>
       (if fb \<noteq> 0 then do {
          let mask = - push_bit fb 1;
          let mask = (if fw = lw \<and> lb \<noteq> 0 then mask AND (push_bit lb 1 - 1) else mask);
          word \<leftarrow> arr_get ws fw;
          assertC (ok word mask);
          words \<leftarrow> arr_set ws fw (upd word mask);
          Some (words, Suc fw)
        } else Some (ws, fw));
     words \<leftarrow> full_words chk v words i lw;
     if lb \<noteq> 0 \<and> \<not> (fw = lw \<and> fb \<noteq> 0) then do {
       let mask = push_bit lb 1 - 1;
       word \<leftarrow> arr_get words lw;
       assertC (ok word mask);
       arr_set words lw (upd word mask)
     } else Some words } = Some ws'"
    "length ws' = length ws" "bits ws' = eff (bits ws) {offset..<offset + len}"
proof -
  note p = range_pieces [OF len(1), of offset, folded fw_def fb_def lw_def lb_def]
  note r = range_bounds [OF n len, folded fw_def fb_def lw_def lb_def]
  consider (one) "fb \<noteq> 0" "fw = lw" | (many) "fb \<noteq> 0" "fw < lw" | (aligned) "fb = 0"
    using p(1) by linarith
  then show thesis
  proof cases
    case one
    note m = bit_first_mask [of _ fb lb]
    have pre: "pre (bits ws) {64 * fw + fb..<64 * fw + lb}" using free p(3) [OF one(2)] by simp
    have lb: "lb \<le> 64" using p(6) by simp
    show thesis
      using that [of "ws[fw := upd (ws ! fw) (- (2 ^ fb) AND (2 ^ lb - 1))]"] one r(4)
        word_ok [OF r(4) lb m pre] word_upd [OF r(4) lb m] p(2,3) [OF one(2)]
      by (simp add: Let_def full_words.simps)
  next
    case many
    have m: "bit (- (2 ^ fb) :: u64) b \<longleftrightarrow> fb \<le> b \<and> b < 64" if "b < 64" for b
      using that by (simp add: mask_simps)
    let ?A = "{64 * fw + fb..<64 * fw + 64}" and ?B = "{64 * Suc fw..<64 * lw}"
      and ?C = "{64 * lw..<64 * lw + lb}"
    note whole = p(4) [OF many(2)]
    have pre: "pre (bits ws) ?A" "pre (bits ws) ?B" "pre (bits ws) ?C"
      using pre_mono [OF free] whole by blast+
    define ws1 where "ws1 = ws[fw := upd (ws ! fw) (- (2 ^ fb))]"
    have b1: "bits ws1 = eff (bits ws) ?A" "length ws1 = length ws"
      unfolding ws1_def by (simp_all add: word_upd [OF r(4) order_refl m])
    have "?B \<inter> ?A = {}" "?C \<inter> (?A \<union> ?B) = {}" using many(2) by auto
    with pre b1 have preB: "pre (bits ws1) ?B" by (simp add: pre_eff)
    obtain ws2 where w2: "full_words chk v ws1 (Suc fw) lw = Some ws2"
      "length ws2 = length ws" "bits ws2 = eff (bits ws) (?A \<union> ?B)"
      using full [OF _ preB] r(5) b1 eff_union by auto
    have preC: "pre (bits ws2) ?C" unfolding w2(3) using pre(3) many(2) by (intro pre_eff) auto
    obtain ws3 where
      w3: "(if lb \<noteq> 0 then do {
         let mask = push_bit lb 1 - 1;
         word \<leftarrow> arr_get ws2 lw;
         assertC (ok word mask);
         arr_set ws2 lw (upd word mask) } else Some ws2) = Some ws3"
      "length ws3 = length ws2" "bits ws3 = eff (bits ws2) ?C"
      by (rule last_part [OF _ p(6) preC]) (use r(6) w2(2) in simp_all)
    have "bits ws3 = eff (bits ws) {offset..<offset + len}"
      unfolding w3(3) w2(3) whole by (simp only: eff_union)
    then show thesis
      using that [of ws3] many r(4) word_ok [OF r(4) order_refl m pre(1)] w2 w3
      by (simp add: Let_def ws1_def)
  next
    case aligned
    let ?B = "{64 * fw..<64 * lw}" and ?C = "{64 * lw..<64 * lw + lb}"
    note whole = p(5) [OF aligned]
    have pre: "pre (bits ws) ?B" "pre (bits ws) ?C" using pre_mono [OF free] whole by blast+
    obtain ws2 where w2: "full_words chk v ws fw lw = Some ws2"
      "length ws2 = length ws" "bits ws2 = eff (bits ws) ?B"
      using full [OF _ pre(1)] r(5) by auto
    have preC: "pre (bits ws2) ?C" unfolding w2(3) using pre(2) by (intro pre_eff) auto
    obtain ws3 where
      w3: "(if lb \<noteq> 0 then do {
         let mask = push_bit lb 1 - 1;
         word \<leftarrow> arr_get ws2 lw;
         assertC (ok word mask);
         arr_set ws2 lw (upd word mask) } else Some ws2) = Some ws3"
      "length ws3 = length ws2" "bits ws3 = eff (bits ws2) ?C"
      by (rule last_part [OF _ p(6) preC]) (use r(6) w2(2) in simp_all)
    have "bits ws3 = eff (bits ws) {offset..<offset + len}"
      unfolding w3(3) w2(3) whole by (simp only: eff_union)
    then show thesis using that [of ws3] aligned w2 w3 by (simp add: Let_def)
  qed
qed

end

interpretation setr: word_range "\<lambda>word mask. word AND mask = 0" "(OR)"
  "\<lambda>word. word AND NOT 0 = 0" "NOT 0" "\<lambda>B S. S \<inter> B = {}" "(\<union>)"
proof (unfold_locales, goal_cases)
  case (1 w ws hi m lo) then show ?case by (rule mask_disjoint)
next
  case (2 w ws hi m lo) then show ?case by (rule bits_or_mask)
next
  case (3 last_word ws i) then show ?case by (rule full_words_set)
qed auto

interpretation clearr: word_range "\<lambda>word mask. word AND mask = mask" "\<lambda>word mask. word AND NOT mask"
  "\<lambda>word. word AND 0 = 0" "0" "\<lambda>B S. S \<subseteq> B" "(-)"
proof (unfold_locales, goal_cases)
  case (1 w ws hi m lo) then show ?case by (rule mask_subset)
next
  case (2 w ws hi m lo) then show ?case by (rule bits_clear_mask)
next
  case (3 last_word ws i) then show ?case by (intro full_words_clear)
qed auto

lemma bitset_set_range_bits:
  assumes n: "holds ws n" and len: "0 < len" "offset + len \<le> n"
    and free: "{offset..<offset + len} \<inter> bits ws = {}"
  obtains ws' where "bitset_set_range ws n offset len = Some ws'" "length ws' = length ws"
    "bits ws' = bits ws \<union> {offset..<offset + len}"
  using setr.range_walk [OF n len free] range_bounds(1-3) [OF n len] len
  unfolding bitset_set_range_def by (auto simp: Let_def)

lemma bitset_clear_range_bits:
  assumes n: "holds ws n" and len: "0 < len" "offset + len \<le> n"
    and used: "{offset..<offset + len} \<subseteq> bits ws"
  obtains ws' where "bitset_clear_range ws n offset len = Some ws'" "length ws' = length ws"
    "bits ws' = bits ws - {offset..<offset + len}"
  using clearr.range_walk [OF n len used] range_bounds(1-3) [OF n len] len
  unfolding bitset_clear_range_def by (auto simp: Let_def)

subsection \<open>Single members\<close>

lemma holds_word: "holds ws n \<Longrightarrow> pos < n \<Longrightarrow> pos div 64 < length ws"
  using word_below [of pos n ws] by (simp add: holds_def)

lemma insert_word: "{64 * (pos div 64) + pos mod 64..<64 * (pos div 64) + Suc (pos mod 64)} = {pos}"
  for pos :: nat
  by auto

lemma bitset_set_bits:
  assumes "holds ws n" "pos < n"
  shows "\<exists>ws'. bitset_set ws n pos = Some ws' \<and> length ws' = length ws
    \<and> bits ws' = insert pos (bits ws)"
proof -
  note w = holds_word [OF assms]
  have m: "bit (2 ^ (pos mod 64) :: u64) b \<longleftrightarrow> pos mod 64 \<le> b \<and> b < Suc (pos mod 64)"
    if "b < 64" for b using that by (auto simp: mask_simps)
  have "bits (ws[pos div 64 := ws ! (pos div 64) OR 2 ^ (pos mod 64)]) = bits ws \<union> {pos}"
    using bits_or_mask [OF w _ m] unfolding insert_word by (simp add: Suc_le_eq)
  with w assms(2) show ?thesis by (simp add: bitset_set_def Let_def)
qed

lemma bitset_clear_bits:
  assumes "holds ws n" "pos < n"
  shows "\<exists>ws'. bitset_clear ws n pos = Some ws' \<and> length ws' = length ws
    \<and> bits ws' = bits ws - {pos}"
proof -
  note w = holds_word [OF assms]
  have m: "bit (2 ^ (pos mod 64) :: u64) b \<longleftrightarrow> pos mod 64 \<le> b \<and> b < Suc (pos mod 64)"
    if "b < 64" for b using that by (auto simp: mask_simps)
  have "bits (ws[pos div 64 := ws ! (pos div 64) AND NOT (2 ^ (pos mod 64))]) = bits ws - {pos}"
    using bits_clear_mask [OF w _ m] unfolding insert_word by (simp add: Suc_le_eq)
  with w assms(2) show ?thesis by (simp add: bitset_clear_def Let_def)
qed

subsection \<open>The lowest zero of a word\<close>

lemma shift_count_mask: "n \<le> 64 \<Longrightarrow> shift_count (mask n) pos = pos + n"
proof (induction n arbitrary: pos)
  case 0
  then show ?case by (simp add: shift_count.simps)
next
  case (Suc n)
  have "bit (mask (Suc n) :: u64) 0" using Suc.prems by (simp only: bit_mask_iff) simp
  then have nz: "mask (Suc n) \<noteq> (0 :: u64)" by auto
  have drop: "drop_bit 1 (mask (Suc n)) = (mask n :: u64)"
    using Suc.prems by (intro word_eq_by_bits) (simp only: bit_drop_bit_eq bit_mask_iff o_apply, auto)
  show ?case
    using Suc.IH [of "Suc pos"] Suc.prems nz drop by (subst shift_count.simps) simp
qed

lemma minus_one_lowest:
  fixes x :: "'a::len word"
  assumes "bit x k" and low: "\<And>b. b < k \<Longrightarrow> \<not> bit x b"
  shows "x XOR (x - 1) = mask (Suc k)"
proof -
  have k: "k < LENGTH('a)" using assms(1) by (rule bit_imp_le_length)
  define hi where "hi = x AND NOT (mask (Suc k))"
  have hib: "bit hi b \<longleftrightarrow> k < b \<and> bit x b" for b
    by (auto simp: hi_def bit_and_iff bit_not_iff bit_mask_iff dest: bit_imp_le_length)
  have "hi AND 2 ^ k = 0" and m: "hi AND mask k = 0"
    by (rule word_eq_by_bits; simp add: bit_and_iff hib bit_exp_iff bit_mask_iff)+
  moreover have "x = hi OR 2 ^ k"
  proof (rule word_eq_by_bits)
    fix b show "bit x b = bit (hi OR 2 ^ k) b"
      using assms k by (cases b k rule: linorder_cases) (auto simp: bit_or_iff hib bit_exp_iff)
  qed
  ultimately have "x = hi + 2 ^ k" by (simp add: disjunctive_add_eq_or)
  then have "x - 1 = hi + mask k" by (simp add: mask_eq_exp_minus_1 algebra_simps)
  then have e: "x - 1 = hi OR mask k" using m by (simp add: disjunctive_add_eq_or)
  show ?thesis
  proof (rule word_eq_by_bits)
    fix b assume "b < LENGTH('a)"
    then show "bit (x XOR (x - 1)) b = bit (mask (Suc k) :: 'a word) b"
      unfolding e using assms
      by (cases b k rule: linorder_cases) (auto simp: bit_xor_iff bit_or_iff hib bit_mask_iff)
  qed
qed

lemma find_first_zero_least:
  assumes "\<not> bit word k" "k < 64" and below: "\<And>b. b < k \<Longrightarrow> bit word b"
  shows "find_first_zero word = k"
proof -
  have "NOT word XOR (NOT word - 1) = mask (Suc k)"
    using assms by (intro minus_one_lowest) (auto simp: bit_not_iff)
  moreover have "drop_bit 1 (mask (Suc k)) = (mask k :: u64)"
    using assms(2) by (intro word_eq_by_bits) (simp only: bit_drop_bit_eq bit_mask_iff o_apply, auto)
  ultimately show ?thesis
    using shift_count_mask [of k 0] assms(2) by (simp add: find_first_zero_def)
qed

lemma find_first_zero_spec:
  assumes "NOT word \<noteq> 0"
  shows "find_first_zero word < 64" "\<not> bit word (find_first_zero word)"
    "b < find_first_zero word \<Longrightarrow> bit word b"
proof -
  obtain k0 where "k0 < 64 \<and> \<not> bit word k0"
    using word_nonzero_bit [OF assms] by (auto simp: bit_not_iff)
  then obtain k where k: "k < 64" "\<not> bit word k" "\<And>b. b < k \<Longrightarrow> bit word b"
    using exists_least_iff [of "\<lambda>k. k < 64 \<and> \<not> bit word k"] by (metis less_trans)
  with find_first_zero_least [OF k(2,1) k(3)]
  show "find_first_zero word < 64" "\<not> bit word (find_first_zero word)"
    "b < find_first_zero word \<Longrightarrow> bit word b" by auto
qed

lemma find_first_set_spec:
  assumes "word \<noteq> 0"
  shows "find_first_set word < 64" "bit word (find_first_set word)"
    "b < find_first_set word \<Longrightarrow> \<not> bit word b"
proof -
  have nz: "NOT (NOT word) \<noteq> 0" using assms by simp
  note s = find_first_zero_spec [OF nz]
  show "find_first_set word < 64" "bit word (find_first_set word)"
    "b < find_first_set word \<Longrightarrow> \<not> bit word b"
    using s(1,2) s(3) [of b] by (auto simp: find_first_set_def bit_not_iff)
qed

subsection \<open>Searching\<close>

definition first_hit :: "(nat \<Rightarrow> bool) \<Rightarrow> nat \<Rightarrow> nat \<Rightarrow> nat \<Rightarrow> nat \<Rightarrow> bool" where
  "first_hit P lo hi none r \<longleftrightarrow>
     (r = none \<and> (\<forall>j. lo \<le> j \<and> j < hi \<longrightarrow> \<not> P j)) \<or>
     (lo \<le> r \<and> r < hi \<and> P r \<and> (\<forall>j. lo \<le> j \<and> j < r \<longrightarrow> \<not> P j))"

lemma first_hit_extend:
  "first_hit P mid hi none r \<Longrightarrow> (\<And>j. lo \<le> j \<Longrightarrow> j < mid \<Longrightarrow> \<not> P j) \<Longrightarrow> lo \<le> mid
    \<Longrightarrow> first_hit P lo hi none r"
  unfolding first_hit_def by (meson leI order_trans)

text \<open>
  Both searches walk the words until the test \<open>p\<close> holds and then take the position \<open>f\<close> inside
  the word. The locale asks that \<open>p\<close> and \<open>f\<close> find the lowest bit with \<open>Q\<close>, and that the
  mask of the first word hides the bits before the offset.
\<close>

locale word_search =
  fixes p :: "u64 \<Rightarrow> bool" and f :: "u64 \<Rightarrow> nat" and Q :: "u64 \<Rightarrow> nat \<Rightarrow> bool"
    and hide :: "nat \<Rightarrow> u64 \<Rightarrow> u64"
  assumes found: "p w \<Longrightarrow> f w < 64" "p w \<Longrightarrow> Q w (f w)" "p w \<Longrightarrow> b < f w \<Longrightarrow> \<not> Q w b"
    and not_found: "\<not> p w \<Longrightarrow> b < 64 \<Longrightarrow> \<not> Q w b"
    and hide: "b < 64 \<Longrightarrow> Q (hide k w) b \<longleftrightarrow> k \<le> b \<and> Q w b"
begin

definition at :: "bitset \<Rightarrow> nat \<Rightarrow> bool" where
  "at ws j \<longleftrightarrow> Q (ws ! (j div 64)) (j mod 64)"

lemma find_word_first:
  "i \<le> nw \<Longrightarrow> nw \<le> length ws \<Longrightarrow>
    \<exists>k. find_word p ws i nw = Some k \<and> i \<le> k \<and> k \<le> nw
      \<and> (\<forall>j. i \<le> j \<and> j < k \<longrightarrow> \<not> p (ws ! j)) \<and> (k < nw \<longrightarrow> p (ws ! k))"
proof (induction p ws i nw rule: find_word.induct)
  case (1 p ws i nw)
  show ?case
  proof (cases "i < nw \<and> \<not> p (ws ! i)")
    case True
    then have get: "arr_get ws i = Some (ws ! i)" using "1.prems" by simp
    obtain k where "find_word p ws (Suc i) nw = Some k" "Suc i \<le> k" "k \<le> nw"
      "\<forall>j. Suc i \<le> j \<and> j < k \<longrightarrow> \<not> p (ws ! j)" "k < nw \<longrightarrow> p (ws ! k)"
      using "1.IH" [OF _ get] True "1.prems" by auto
    then show ?thesis using True get
      by (intro exI [of _ k]) (auto simp: find_word.simps [of p ws i] le_less_Suc_eq
          dest: le_antisym simp flip: not_less_eq_eq)
  next
    case False
    then show ?thesis using "1.prems"
      by (intro exI [of _ i]) (auto simp: find_word.simps [of p ws i])
  qed
qed

lemma scan:
  assumes "i \<le> nw" "nw \<le> length ws"
  shows "\<exists>r. (do {
       i \<leftarrow> find_word p ws i nw;
       if i = nw then Some none
       else do { word \<leftarrow> arr_get ws i; Some (i * 64 + f word) } }) = Some r
     \<and> first_hit (at ws) (64 * i) (64 * nw) none r"
proof -
  obtain k where k: "find_word p ws i nw = Some k" "i \<le> k" "k \<le> nw"
    "\<And>j. i \<le> j \<Longrightarrow> j < k \<Longrightarrow> \<not> p (ws ! j)" "k < nw \<Longrightarrow> p (ws ! k)"
    using find_word_first [OF assms] by blast
  have before: "\<not> at ws j" if "64 * i \<le> j" "j < 64 * k" for j
  proof -
    from that have "i \<le> j div 64" "j div 64 < k"
      by (simp_all add: less_eq_div_iff_mult_less_eq div_less_iff_less_mult mult.commute)
    then show ?thesis unfolding at_def by (intro not_found k(4)) simp_all
  qed
  show ?thesis
  proof (cases "k = nw")
    case True
    then show ?thesis using k(1) before by (auto simp: first_hit_def)
  next
    case False
    then have pk: "p (ws ! k)" and kl: "k < length ws" and kn: "k < nw" using k assms by auto
    let ?r = "64 * k + f (ws ! k)"
    have "\<not> at ws j" if "64 * k \<le> j" "j < ?r" for j
    proof -
      from that found(1) [OF pk] have "j div 64 = k" "j mod 64 = j - 64 * k" "j - 64 * k < f (ws ! k)"
        by (simp_all add: div_nat_eqI mult.commute modulo_nat_def)
      then show ?thesis using found(3) [OF pk] by (simp add: at_def)
    qed
    then have "\<not> at ws j" if "64 * i \<le> j" "j < ?r" for j
      using before [of j] that by (cases "j < 64 * k") simp_all
    moreover have "at ws ?r" "64 * i \<le> ?r" "?r < 64 * nw"
      using found(1,2) [OF pk] k(2) kn by (simp_all add: at_def)
    ultimately have "first_hit (at ws) (64 * i) (64 * nw) none ?r"
      unfolding first_hit_def by blast
    then show ?thesis using k(1) False kl by (simp add: mult.commute)
  qed
qed

lemma search:
  assumes off: "off div 64 < nw" and nw: "nw \<le> length ws"
  shows "\<exists>r. (if off mod 64 \<noteq> 0 then do {
           word \<leftarrow> arr_get ws (off div 64);
           let word = hide (off mod 64) word;
           if p word then Some (off div 64 * 64 + f word)
           else do {
             i \<leftarrow> find_word p ws (Suc (off div 64)) nw;
             if i = nw then Some none
             else do { word \<leftarrow> arr_get ws i; Some (i * 64 + f word) } } }
         else do {
           i \<leftarrow> find_word p ws (off div 64) nw;
           if i = nw then Some none
           else do { word \<leftarrow> arr_get ws i; Some (i * 64 + f word) } }) = Some r
     \<and> first_hit (at ws) off (64 * nw) none r"
proof (cases "off mod 64 = 0")
  case True
  then have "64 * (off div 64) = off" by auto
  with scan [of "off div 64" nw ws none] assms True show ?thesis by simp
next
  case False
  let ?i = "off div 64" and ?k = "off mod 64"
  let ?w = "hide ?k (ws ! ?i)"
  have j: "j div 64 = ?i \<and> ?k \<le> j mod 64" if "off \<le> j" "j < 64 * Suc ?i" for j
  proof -
    from that have "j div 64 = ?i" by (intro div_nat_eqI) auto
    with that(1) show ?thesis by (metis add_le_cancel_left mult_div_mod_eq)
  qed
  show ?thesis
  proof (cases "p ?w")
    case True
    let ?r = "64 * ?i + f ?w"
    have Q: "?k \<le> f ?w" "Q (ws ! ?i) (f ?w)" using found(1,2) [OF True] hide by auto
    have "\<not> at ws j" if "off \<le> j" "j < ?r" for j
    proof -
      have "j < 64 * Suc ?i" using that(2) found(1) [OF True] by simp
      note jj = j [OF that(1) this]
      have "j = 64 * ?i + j mod 64" using jj by (metis mult_div_mod_eq)
      then have "j mod 64 < f ?w" using that(2) by linarith
      then show ?thesis using found(3) [OF True] hide [of "j mod 64" ?k "ws ! ?i"] jj
        by (simp add: at_def)
    qed
    moreover have "off \<le> ?r" using add_left_mono [OF Q(1), of "64 * ?i"] by simp
    moreover have "?r < 64 * nw" "at ws ?r" using Q found(1) [OF True] off by (simp_all add: at_def)
    ultimately have "first_hit (at ws) off (64 * nw) none ?r" unfolding first_hit_def by simp
    then show ?thesis using False True assms by (simp add: Let_def mult.commute)
  next
    case no: False
    have "\<not> at ws j" if "off \<le> j" "j < 64 * Suc ?i" for j
      using not_found [OF no, of "j mod 64"] hide [of "j mod 64" ?k "ws ! ?i"] j [OF that]
      by (simp add: at_def)
    moreover have "off \<le> 64 * Suc ?i" by (simp add: order_less_imp_le)
    moreover obtain r where "(do {
             i \<leftarrow> find_word p ws (Suc ?i) nw;
             if i = nw then Some none
             else do { word \<leftarrow> arr_get ws i; Some (i * 64 + f word) } }) = Some r"
      "first_hit (at ws) (64 * Suc ?i) (64 * nw) none r"
      using scan [of "Suc ?i" nw ws none] assms by auto
    ultimately show ?thesis
      using False no assms first_hit_extend [of "at ws" "64 * Suc ?i" "64 * nw" none r off]
      by (auto simp: Let_def)
  qed
qed

end

interpretation free_search: word_search "\<lambda>word. NOT word \<noteq> 0" find_first_zero
  "\<lambda>w b. \<not> bit w b" "\<lambda>k word. word OR (push_bit k 1 - 1)"
proof (unfold_locales, goal_cases)
  case (3 w b) then show ?case using find_first_zero_spec(3) by blast
next
  case (4 w b)
  then have "w = NOT 0" by (metis bit.double_compl)
  then show ?case using 4(2) by simp
qed (auto simp: find_first_zero_spec bit_or_iff mask_simps)

interpretation used_search: word_search "\<lambda>word. word \<noteq> 0" find_first_set
  "bit" "\<lambda>k word. word AND NOT (push_bit k 1 - 1)"
  by unfold_locales (auto simp: find_first_set_spec bit_and_iff bit_not_iff mask_simps)

text \<open>A bitset prepared by \<open>bitset_mark_invalid\<close>: the bits from \<open>n\<close> to the end of its last
  word are set.\<close>

definition bitset_ok :: "bitset \<Rightarrow> nat \<Rightarrow> bool" where
  "bitset_ok ws n \<longleftrightarrow> holds ws n \<and> {n..<64 * n_words_of n} \<subseteq> bits ws"

lemma bits_replicate_0 [simp]: "bits (replicate k 0) = {}"
  by (auto simp: bits_def)

lemma bitset_mark_invalid_fresh:
  assumes "n \<le> 64 * k" "n < 2 ^ 31"
  shows "\<exists>ws. bitset_mark_invalid (replicate k 0) n = Some ws \<and> length ws = k
    \<and> bits ws = {n..<64 * n_words_of n} \<and> bitset_ok ws n"
proof (cases "n mod 64 = 0")
  case True
  then have "64 * n_words_of n = n"
    using div_mult_mod_eq [of n 64] by (simp add: n_words_of_def of_bool_def)
  with True assms show ?thesis
    by (simp add: bitset_mark_invalid_def bitset_ok_def holds_def)
next
  case False
  have "n div 64 < k" using assms(1) False div_mult_mod_eq [of n 64] by linarith
  then have w: "n div 64 < length (replicate k (0 :: u64))" by simp
  have m: "bit (- (2 ^ (n mod 64)) :: u64) b \<longleftrightarrow> n mod 64 \<le> b \<and> b < 64"
    if "b < 64" for b using that by (simp add: mask_simps)
  have e: "64 * (n div 64) + n mod 64 = n" "64 * (n div 64) + 64 = 64 * n_words_of n"
    using False by (auto simp: n_words_of_def of_bool_def)
  have "bits ((replicate k 0)[n div 64 := replicate k 0 ! (n div 64) OR - (2 ^ (n mod 64))])
      = bits (replicate k 0) \<union> {n..<64 * n_words_of n}"
    using bits_or_mask [OF w _ m] unfolding e by simp
  with w False assms show ?thesis
    by (simp add: bitset_mark_invalid_def bitset_ok_def holds_def)
qed

lemma n_words_bounds: "n \<le> 64 * n_words_of n" "n div 64 \<le> n_words_of n"
  "off < n \<Longrightarrow> off div 64 < n_words_of n" "holds ws n \<Longrightarrow> n_words_of n \<le> length ws"
proof -
  have e: "n = 64 * (n div 64) + n mod 64" "n mod 64 < 64" by simp_all
  show "n \<le> 64 * n_words_of n" "n div 64 \<le> n_words_of n"
    using e by (auto simp: n_words_of_def of_bool_def)
  show "off div 64 < n_words_of n" if "off < n"
    using that e div_le_mono [of off n 64] by (auto simp: n_words_of_def of_bool_def)
  show "n_words_of n \<le> length ws" if "holds ws n"
  proof -
    have "n div 64 \<le> length ws" "0 < n mod 64 \<Longrightarrow> Suc (n div 64) \<le> length ws"
      using that e unfolding holds_def by linarith+
    then show ?thesis by (simp add: n_words_of_def of_bool_def)
  qed
qed

lemma bitset_next_free_spec:
  assumes "bitset_ok ws n"
  shows "\<exists>p. bitset_next_free ws n off = Some p \<and> p \<le> n \<and> (off \<le> n \<longrightarrow> off \<le> p)
    \<and> (\<forall>j. off \<le> j \<and> j < p \<longrightarrow> j \<in> bits ws) \<and> (p < n \<longrightarrow> p \<notin> bits ws)"
proof (cases "off < n")
  case True
  have nw: "off div 64 < n_words_of n" "n_words_of n \<le> length ws"
    and h: "holds ws n" and inv: "{n..<64 * n_words_of n} \<subseteq> bits ws"
    using assms n_words_bounds True by (auto simp: bitset_ok_def)
  obtain p where p: "bitset_next_free ws n off = Some p"
    and hit: "first_hit (free_search.at ws) off (64 * n_words_of n) n p"
    using free_search.search [OF nw, of n] True
    unfolding bitset_next_free_def next_free_scan_def Let_def by auto
  have at: "free_search.at ws j \<longleftrightarrow> j \<notin> bits ws" if "j < 64 * n_words_of n" for j
    using that nw(2) by (simp add: free_search.at_def bits_def div_less_iff_less_mult mult.commute)
  have n: "n \<le> 64 * n_words_of n" by (rule n_words_bounds)
  from hit have "p \<le> n \<and> off \<le> p \<and> (\<forall>j. off \<le> j \<and> j < p \<longrightarrow> j \<in> bits ws)
      \<and> (p < n \<longrightarrow> p \<notin> bits ws)"
    unfolding first_hit_def
  proof (elim disjE conjE)
    assume "p = n" "\<forall>j. off \<le> j \<and> j < 64 * n_words_of n \<longrightarrow> \<not> free_search.at ws j"
    with n at True show ?thesis by auto
  next
    assume *: "off \<le> p" "p < 64 * n_words_of n" "free_search.at ws p"
      "\<forall>j. off \<le> j \<and> j < p \<longrightarrow> \<not> free_search.at ws j"
    then have "p \<notin> bits ws" using at by simp
    then have "p < n" using inv *(2) by (cases "p < n") (auto dest: subsetD [of _ _ p])
    with * at show ?thesis by auto
  qed
  with p show ?thesis by blast
next
  case False
  then show ?thesis by (auto simp: bitset_next_free_def)
qed

lemma bitset_next_used_spec:
  assumes "bitset_ok ws n" "off < n"
  shows "\<exists>p. bitset_next_used ws n off = Some p \<and> off \<le> p \<and> p \<le> n
    \<and> (\<forall>j. off \<le> j \<and> j < p \<longrightarrow> j \<notin> bits ws) \<and> (p < n \<longrightarrow> p \<in> bits ws)"
proof -
  have nw: "off div 64 < n_words_of n" "n_words_of n \<le> length ws"
    and h: "holds ws n" and inv: "{n..<64 * n_words_of n} \<subseteq> bits ws"
    using assms n_words_bounds by (auto simp: bitset_ok_def)
  obtain p where p: "bitset_next_used ws n off = Some p"
    and hit: "first_hit (used_search.at ws) off (64 * n_words_of n) n p"
    using used_search.search [OF nw, of n]
    unfolding bitset_next_used_def next_used_scan_def Let_def by auto
  have at: "used_search.at ws j \<longleftrightarrow> j \<in> bits ws" if "j < 64 * n_words_of n" for j
    using that nw(2) by (simp add: used_search.at_def bits_def div_less_iff_less_mult mult.commute)
  have n: "n \<le> 64 * n_words_of n" by (rule n_words_bounds)
  from hit have "p \<le> n \<and> off \<le> p \<and> (\<forall>j. off \<le> j \<and> j < p \<longrightarrow> j \<notin> bits ws)
      \<and> (p < n \<longrightarrow> p \<in> bits ws)"
    unfolding first_hit_def
  proof (elim disjE conjE)
    assume "p = n" "\<forall>j. off \<le> j \<and> j < 64 * n_words_of n \<longrightarrow> \<not> used_search.at ws j"
    with n at assms(2) show ?thesis by auto
  next
    assume *: "off \<le> p" "p < 64 * n_words_of n" "used_search.at ws p"
      "\<forall>j. off \<le> j \<and> j < p \<longrightarrow> \<not> used_search.at ws j"
    have "p \<le> n"
    proof (rule ccontr)
      assume "\<not> p \<le> n"
      then have "n \<in> bits ws" "n < 64 * n_words_of n" using inv *(2) by auto
      with at * \<open>\<not> p \<le> n\<close> assms(2) show False by auto
    qed
    with * at show ?thesis by auto
  qed
  with p show ?thesis by blast
qed

section \<open>Allocation of a member and of a range\<close>

theorem bitset_find_and_set_spec:
  assumes ok: "bitset_ok ws n"
  shows "\<exists>p ws'. bitset_find_and_set ws n = Some (p, ws') \<and> length ws' = length ws
    \<and> (p < n \<and> p \<notin> bits ws \<and> bits ws' = insert p (bits ws)
       \<or> p = n \<and> ws' = ws \<and> {..<n} \<subseteq> bits ws)"
proof -
  obtain p where p: "bitset_next_free ws n 0 = Some p" "p \<le> n"
    "\<And>j. j < p \<Longrightarrow> j \<in> bits ws" "p < n \<Longrightarrow> p \<notin> bits ws"
    using bitset_next_free_spec [OF ok, of 0] by auto
  show ?thesis
  proof (cases "p < n")
    case True
    then obtain ws' where "bitset_set ws n p = Some ws'" "length ws' = length ws"
      "bits ws' = insert p (bits ws)"
      using bitset_set_bits [of ws n p] ok by (auto simp: bitset_ok_def)
    with p True show ?thesis by (simp add: bitset_find_and_set_def)
  next
    case False
    with p show ?thesis by (auto simp: bitset_find_and_set_def)
  qed
qed

definition free_range :: "bitset \<Rightarrow> nat \<Rightarrow> nat \<Rightarrow> nat \<Rightarrow> bool" where
  "free_range ws n len p \<longleftrightarrow> p + len \<le> n \<and> {p..<p + len} \<inter> bits ws = {}"

lemma find_range_loop_spec:
  assumes ok: "bitset_ok ws n" and len: "0 < len"
  shows "pos \<le> n \<Longrightarrow> (pos < n \<Longrightarrow> pos \<notin> bits ws)
    \<Longrightarrow> (\<And>q. q < pos \<Longrightarrow> \<not> free_range ws n len q) \<Longrightarrow>
    \<exists>p ws'. find_range_loop ws n len pos = Some (p, ws') \<and> length ws' = length ws
      \<and> (\<forall>q<p. \<not> free_range ws n len q)
      \<and> (free_range ws n len p \<and> bits ws' = bits ws \<union> {p..<p + len} \<or> p = n \<and> ws' = ws)"
proof (induction "n - pos" arbitrary: pos rule: less_induct)
  case less
  show ?case
  proof (cases "pos < n")
    case False
    then have "find_range_loop ws n len pos = Some (n, ws)"
      by (subst find_range_loop.simps) simp
    moreover have "pos = n" using False less.prems(1) by simp
    ultimately show ?thesis using less.prems(3) by (intro exI [of _ n] exI [of _ ws]) auto
  next
    case pos: True
    obtain nu where nu: "bitset_next_used ws n pos = Some nu" "pos \<le> nu" "nu \<le> n"
      "\<And>j. pos \<le> j \<Longrightarrow> j < nu \<Longrightarrow> j \<notin> bits ws" "nu < n \<Longrightarrow> nu \<in> bits ws"
      using bitset_next_used_spec [OF ok pos] by auto
    show ?thesis
    proof (cases "nu - pos \<ge> len")
      case True
      then have free: "free_range ws n len pos" using nu by (auto simp: free_range_def)
      obtain ws' where "bitset_set_range ws n pos len = Some ws'" "length ws' = length ws"
        "bits ws' = bits ws \<union> {pos..<pos + len}"
        using bitset_set_range_bits [of ws n len pos] ok len free
        by (auto simp: bitset_ok_def free_range_def)
      with free less.prems(3) nu(1) True pos show ?thesis
        by (simp add: find_range_loop.simps [of ws n len pos])
    next
      case False
      have lt: "pos < nu" using nu(2,5) pos less.prems(2) by (cases "pos = nu") auto
      have add: "u32_add pos (nu - pos) = nu"
        using nu(2,3) ok by (simp add: u32_add_def bitset_ok_def holds_def)
      obtain pos' where pos': "bitset_next_free ws n nu = Some pos'" "pos' \<le> n" "nu \<le> pos'"
        "\<And>j. nu \<le> j \<Longrightarrow> j < pos' \<Longrightarrow> j \<in> bits ws" "pos' < n \<Longrightarrow> pos' \<notin> bits ws"
        using bitset_next_free_spec [OF ok, of nu] nu(3) by auto
      have none: "\<not> free_range ws n len q" if "q < pos'" for q
      proof (cases "q < pos")
        case False
        show ?thesis
        proof
          assume f: "free_range ws n len q"
          show False
          proof (cases "q < nu")
            case True
            then have "nu \<in> {q..<q + len}" "nu < n"
              using \<open>\<not> nu - pos \<ge> len\<close> \<open>\<not> q < pos\<close> f lt by (auto simp: free_range_def)
            with nu(5) f show False by (auto simp: free_range_def)
          next
            case False
            then have "q \<in> bits ws" using pos'(4) that by simp
            with f len show False by (auto simp: free_range_def disjoint_iff)
          qed
        qed
      qed (use less.prems(3) in simp)
      have "find_range_loop ws n len pos = find_range_loop ws n len pos'"
        using pos nu(1) False add pos'(1) by (simp add: find_range_loop.simps [of ws n len pos])
      with less.hyps [of pos'] pos' lt pos none show ?thesis by auto
    qed
  qed
qed

lemma bitset_find_and_set_range_spec:
  assumes ok: "bitset_ok ws n" and len: "0 < len"
  shows "\<exists>p ws'. bitset_find_and_set_range ws n len = Some (p, ws') \<and> length ws' = length ws
    \<and> (\<forall>q<p. \<not> free_range ws n len q)
    \<and> (free_range ws n len p \<and> bits ws' = bits ws \<union> {p..<p + len} \<or> p = n \<and> ws' = ws)"
proof -
  obtain pos where pos: "bitset_next_free ws n 0 = Some pos" "pos \<le> n"
    "\<And>j. j < pos \<Longrightarrow> j \<in> bits ws" "pos < n \<Longrightarrow> pos \<notin> bits ws"
    using bitset_next_free_spec [OF ok, of 0] by auto
  have "\<not> free_range ws n len q" if "q < pos" for q
    using pos(3) [OF that] len by (auto simp: free_range_def disjoint_iff)
  then show ?thesis
    using find_range_loop_spec [OF ok len pos(2,4)] pos(1)
    by (simp add: bitset_find_and_set_range_def)
qed

lemma bits_inject:
  assumes "length ws = length ws'" "bits ws = bits ws'"
  shows "ws = ws'"
proof (rule nth_equalityI)
  fix i assume i: "i < length ws"
  show "ws ! i = ws' ! i"
  proof (rule word_eq_by_bits)
    fix b assume "b < LENGTH(64)"
    then show "bit (ws ! i) b = bit (ws' ! i) b"
      using i assms in_bits_word [of b i ws] in_bits_word [of b i ws'] by simp
  qed
qed (rule assms(1))

section \<open>Properties\<close>

text \<open>
  C15. On a prepared bitset \<open>bitset_find_and_set_range\<close> returns (its outer loop ends): either
  the lowest position at which \<open>len\<close> consecutive members are free, and exactly these
  members are added; or the number of members, no such position exists, and the words are
  unchanged.
\<close>

theorem bitset_find_and_set_range_first_fit:
  assumes "bitset_ok ws n" and "0 < len"
  shows "\<exists>p ws'. bitset_find_and_set_range ws n len = Some (p, ws') \<and> length ws' = length ws
    \<and> (\<forall>q<p. \<not> free_range ws n len q)
    \<and> (free_range ws n len p \<and> bits ws' = bits ws \<union> {p..<p + len} \<or> p = n \<and> ws' = ws)"
  using assms by (rule bitset_find_and_set_range_spec)

theorem bitset_find_and_set_range_first_fit_witness:
  "\<exists>ws p ws'. bitset_mark_invalid [0, 0] 70 = Some ws
    \<and> bitset_find_and_set_range ws 70 5 = Some (p, ws')
    \<and> (\<forall>q<p. \<not> free_range ws 70 5 q)"
proof -
  obtain ws where "bitset_mark_invalid (replicate 2 0) 70 = Some ws" "bitset_ok ws 70"
    using bitset_mark_invalid_fresh [of 70 2] by auto
  then show ?thesis
    using bitset_find_and_set_range_first_fit [of ws 70 5] by (auto simp: numeral_2_eq_2)
qed

text \<open>
  Setting a free range adds exactly its members, passes every assertion of the word loop, and
  clearing the same range afterwards restores every word.
\<close>

theorem bitset_range_roundtrip:
  assumes "holds ws n" "0 < len" "offset + len \<le> n" "{offset..<offset + len} \<inter> bits ws = {}"
  shows "\<exists>ws'. bitset_set_range ws n offset len = Some ws'
    \<and> bits ws' = bits ws \<union> {offset..<offset + len}
    \<and> bitset_clear_range ws' n offset len = Some ws"
proof -
  obtain ws' where s: "bitset_set_range ws n offset len = Some ws'" "length ws' = length ws"
    "bits ws' = bits ws \<union> {offset..<offset + len}"
    using bitset_set_range_bits [OF assms] .
  have "holds ws' n" "{offset..<offset + len} \<subseteq> bits ws'"
    using s assms(1) by (auto simp: holds_def)
  from bitset_clear_range_bits [OF this(1) assms(2,3) this(2)] obtain ws'' where
    c: "bitset_clear_range ws' n offset len = Some ws''" "length ws'' = length ws'"
    "bits ws'' = bits ws' - {offset..<offset + len}" .
  have "ws'' = ws" using c s assms(4) by (intro bits_inject) auto
  with s c show ?thesis by auto
qed

theorem bitset_range_roundtrip_witness:
  "\<exists>ws'. bitset_set_range [0, 0, 0] 170 60 90 = Some ws'
    \<and> bits ws' = bits [0, 0, 0] \<union> {60..<60 + 90}
    \<and> bitset_clear_range ws' 170 60 90 = Some [0, 0, 0]"
proof -
  have "bits [0, 0, 0] = {}" using bits_replicate_0 [of 3] by (simp add: numeral_3_eq_3)
  then show ?thesis by (intro bitset_range_roundtrip) (auto simp: holds_def)
qed

end
