(* ===== verification/Scorep_Allocator.thy ===== *)
theory Scorep_Allocator
  imports Scorep_Bitset
begin

text \<open>
  The page allocator of the measurement core, \<open>src/src/utils/memory/SCOREP_Allocator.c\<close> with
  \<open>scorep_page.h\<close> and \<open>scorep_allocator.h\<close>, on a 64-bit machine.

  \<^item> Addresses and sizes are \<open>nat\<close>; \<open>uint32_t\<close> arithmetic that may wrap is reduced modulo
    \<open>2 ^ 32\<close>, and the three counters are 32-bit words.
  \<^item> A page or manager object carries the address of the union object that holds it; the linked
    lists through \<open>next\<close> (pages of a manager, free objects) are HOL lists, head first.
  \<^item> The lock is a flag: \<open>lock_allocator\<close> of a held lock does not return (\<open>None\<close>).
  \<^item> \<open>SCOREP_ROUNDUPTO\<close> and \<open>SCOREP_ALLOCATOR_ALIGNMENT\<close> are defined outside the repository;
    they are the record \<open>build\<close>, and \<open>build_ok\<close> states what the allocator relies on.
  \<^item> \<open>calloc\<close> is an argument of the constructor: the address it returns, if any.
\<close>

section \<open>Data\<close>

record build =
  ROUNDUPTO :: "nat \<Rightarrow> nat \<Rightarrow> nat"
  ALLOCATOR_ALIGNMENT :: nat

record page =
  page_object :: nat
  memory_start_address :: nat
  memory_end_address :: nat
  memory_current_address :: nat
  memory_alignment_loss :: nat

record page_manager =
  manager_object :: nat
  pages_in_use_list :: "page list"
  moved_page_id_mapping_page :: "page option"
  moved_page_id_mapping :: "nat list"
  last_allocation :: nat

record allocator =
  allocator_address :: nat
  allocated_memory :: nat
  page_shift :: nat
  n_pages_bits :: nat
  n_pages_capacity :: nat
  n_pages_maintenance :: u32
  n_pages_high_watermark :: u32
  n_pages_allocated :: u32
  free_objects :: "nat list"
  page_bitset :: bitset
  locked :: bool

section \<open>Pages\<close>

definition u32_shl :: "nat \<Rightarrow> nat \<Rightarrow> nat" where
  "u32_shl x k = push_bit k x mod 2 ^ 32"

definition page_size :: "allocator \<Rightarrow> nat" where
  "page_size a = u32_shl 1 (page_shift a)"

definition total_memory :: "allocator \<Rightarrow> nat" where
  "total_memory a = u32_shl (n_pages_capacity a) (page_shift a)"

definition page_mask :: "allocator \<Rightarrow> nat" where
  "page_mask a = page_size a - 1"

definition get_page_id :: "allocator \<Rightarrow> page \<Rightarrow> nat" where
  "get_page_id a p = drop_bit (page_shift a) (memory_start_address p - allocator_address a) mod 2 ^ 32"

definition get_order :: "allocator \<Rightarrow> nat \<Rightarrow> nat" where
  "get_order a len = u32_add (drop_bit (page_shift a) len) (of_bool (len AND page_mask a \<noteq> 0))"

definition set_page_order :: "allocator \<Rightarrow> page \<Rightarrow> nat \<Rightarrow> page" where
  "set_page_order a p order =
     p\<lparr>memory_end_address := memory_start_address p + u32_shl order (page_shift a)\<rparr>"

definition set_page_usage :: "page \<Rightarrow> nat \<Rightarrow> page" where
  "set_page_usage p usage = p\<lparr>memory_current_address := memory_start_address p + usage\<rparr>"

definition init_page :: "allocator \<Rightarrow> nat \<Rightarrow> nat \<Rightarrow> nat \<Rightarrow> page" where
  "init_page a object page_id order =
     (let p = \<lparr>page_object = object,
               memory_start_address = allocator_address a + u32_shl page_id (page_shift a),
               memory_end_address = 0, memory_current_address = 0, memory_alignment_loss = 0\<rparr>;
          p = set_page_usage p 0
      in (set_page_order a p order)\<lparr>memory_alignment_loss := 0\<rparr>)"

definition get_page_length :: "page \<Rightarrow> nat" where
  "get_page_length p = (memory_end_address p - memory_start_address p) mod 2 ^ 32"

definition get_page_order :: "allocator \<Rightarrow> page \<Rightarrow> nat" where
  "get_page_order a p = drop_bit (page_shift a) (get_page_length p)"

definition get_page_usage :: "page \<Rightarrow> nat" where
  "get_page_usage p = (memory_current_address p - memory_start_address p) mod 2 ^ 32"

definition get_page_avail :: "page \<Rightarrow> nat" where
  "get_page_avail p = (memory_end_address p - memory_current_address p) mod 2 ^ 32"

text \<open>The result is the memory and the page after the grab, or \<open>None\<close> for \<open>false\<close>.\<close>

definition grab_page_memory :: "build \<Rightarrow> page \<Rightarrow> nat \<Rightarrow> nat \<Rightarrow> (nat \<times> page) option" where
  "grab_page_memory B p requestedSize alignment =
     (let memory = ROUNDUPTO B (memory_current_address p) alignment;
          avail = int (memory_end_address p) - int memory
      in if avail < 0 \<or> requestedSize > nat avail then None
         else Some (memory,
           p\<lparr>memory_alignment_loss := memory_alignment_loss p + (memory - memory_current_address p),
             memory_current_address := memory + requestedSize\<rparr>))"

section \<open>The allocator and its objects\<close>

definition npot :: "u32 \<Rightarrow> u32" where
  "npot v =
     (let v = v - 1;
          v = v OR drop_bit 1 v;
          v = v OR drop_bit 2 v;
          v = v OR drop_bit 4 v;
          v = v OR drop_bit 8 v;
          v = v OR drop_bit 16 v
      in v + 1)"

text \<open>\<open>sizeof( SCOREP_Allocator_Object )\<close> is 48 on a 64-bit machine.\<close>

definition union_size :: nat where
  "union_size = unat (npot 48)"

definition lock_allocator :: "allocator \<Rightarrow> allocator option" where
  "lock_allocator a = (if locked a then None else Some (a\<lparr>locked := True\<rparr>))"

definition unlock_allocator :: "allocator \<Rightarrow> allocator option" where
  "unlock_allocator a = (if locked a then Some (a\<lparr>locked := False\<rparr>) else None)"

definition track_update_high_watermark :: "allocator \<Rightarrow> allocator" where
  "track_update_high_watermark a =
     (if n_pages_allocated a > n_pages_high_watermark a
      then a\<lparr>n_pages_high_watermark := n_pages_allocated a\<rparr> else a)"

definition track_bitset_set_range :: "allocator \<Rightarrow> nat \<Rightarrow> nat \<Rightarrow> allocator option" where
  "track_bitset_set_range a offset len = do {
     ws \<leftarrow> bitset_set_range (page_bitset a) (n_pages_capacity a) offset len;
     Some (track_update_high_watermark
       (a\<lparr>page_bitset := ws, n_pages_allocated := n_pages_allocated a + of_nat len\<rparr>))
   }"

definition track_bitset_clear :: "allocator \<Rightarrow> nat \<Rightarrow> allocator option" where
  "track_bitset_clear a pos = do {
     ws \<leftarrow> bitset_clear (page_bitset a) (n_pages_capacity a) pos;
     Some (a\<lparr>page_bitset := ws, n_pages_allocated := n_pages_allocated a - 1\<rparr>)
   }"

definition track_bitset_clear_range :: "allocator \<Rightarrow> nat \<Rightarrow> nat \<Rightarrow> allocator option" where
  "track_bitset_clear_range a offset len = do {
     ws \<leftarrow> bitset_clear_range (page_bitset a) (n_pages_capacity a) offset len;
     Some (a\<lparr>page_bitset := ws, n_pages_allocated := n_pages_allocated a - of_nat len\<rparr>)
   }"

definition track_bitset_find_and_set :: "allocator \<Rightarrow> (nat \<times> allocator) option" where
  "track_bitset_find_and_set a =
     (let a = track_update_high_watermark (a\<lparr>n_pages_allocated := n_pages_allocated a + 1\<rparr>)
      in do {
        (pos, ws) \<leftarrow> bitset_find_and_set (page_bitset a) (n_pages_capacity a);
        Some (pos, a\<lparr>page_bitset := ws\<rparr>)
      })"

definition track_bitset_find_and_set_range :: "allocator \<Rightarrow> nat \<Rightarrow> (nat \<times> allocator) option" where
  "track_bitset_find_and_set_range a rangeLength =
     (let a = track_update_high_watermark
                (a\<lparr>n_pages_allocated := n_pages_allocated a + of_nat rangeLength\<rparr>)
      in do {
        (pos, ws) \<leftarrow> bitset_find_and_set_range (page_bitset a) (n_pages_capacity a) rangeLength;
        Some (pos, a\<lparr>page_bitset := ws\<rparr>)
      })"

function fill_with_union_objects :: "allocator \<Rightarrow> nat \<Rightarrow> nat \<Rightarrow> allocator" where
  "fill_with_union_objects a freeMemory startAddr =
     (if freeMemory > union_size
      then fill_with_union_objects (a\<lparr>free_objects := startAddr # free_objects a\<rparr>)
             (freeMemory - union_size) (startAddr + union_size)
      else a)"
  by pat_completeness auto
termination
  by (relation "measure (\<lambda>(a, freeMemory, startAddr). freeMemory)")
    (auto simp: union_size_def npot_def Let_def)

declare fill_with_union_objects.simps [simp del]

definition get_union_object :: "allocator \<Rightarrow> (nat option \<times> allocator) option" where
  "get_union_object a = do {
     (ok, a) \<leftarrow>
       (if free_objects a = [] then do {
          (page_id, a) \<leftarrow> track_bitset_find_and_set a;
          if page_id \<ge> n_pages_capacity a then Some (False, a)
          else let a = fill_with_union_objects a (page_size a)
                         (allocator_address a + u32_shl page_id (page_shift a))
               in Some (True, a\<lparr>n_pages_maintenance := n_pages_maintenance a + 1\<rparr>)
        } else Some (True, a));
     if \<not> ok then Some (None, a)
     else case free_objects a of
       [] \<Rightarrow> None
     | obj # rest \<Rightarrow> Some (Some obj, a\<lparr>free_objects := rest\<rparr>)
   }"

definition put_union_object :: "allocator \<Rightarrow> nat \<Rightarrow> allocator" where
  "put_union_object a obj = a\<lparr>free_objects := obj # free_objects a\<rparr>"

definition put_page :: "allocator \<Rightarrow> page \<Rightarrow> allocator option" where
  "put_page a p =
     (let order = get_page_order a p; page_id = get_page_id a p
      in do {
        a \<leftarrow> (if order = 1 then track_bitset_clear a page_id
              else track_bitset_clear_range a page_id order);
        Some (put_union_object a (page_object p))
      })"

definition get_page :: "allocator \<Rightarrow> nat \<Rightarrow> (page option \<times> allocator) option" where
  "get_page a order = do {
     (obj, a) \<leftarrow> get_union_object a;
     case obj of
       None \<Rightarrow> Some (None, a)
     | Some obj \<Rightarrow> do {
         (page_id, a) \<leftarrow> (if order = 1 then track_bitset_find_and_set a
                           else track_bitset_find_and_set_range a order);
         if page_id \<ge> n_pages_capacity a then Some (None, put_union_object a obj)
         else Some (Some (init_page a obj page_id order), a)
       }
   }"

section \<open>Page managers\<close>

text \<open>The new page, when there is one, is the head of the list of the returned manager.\<close>

definition page_manager_get_new_page ::
  "allocator \<Rightarrow> page_manager \<Rightarrow> nat \<Rightarrow> (page option \<times> allocator \<times> page_manager) option" where
  "page_manager_get_new_page a m minPageSize =
     (let order = get_order a minPageSize
      in do {
        a \<leftarrow> lock_allocator a;
        (p, a) \<leftarrow> get_page a order;
        a \<leftarrow> unlock_allocator a;
        case p of
          None \<Rightarrow> Some (None, a, m)
        | Some p \<Rightarrow> Some (Some p, a, m\<lparr>pages_in_use_list := p # pages_in_use_list m\<rparr>)
      })"

fun search_pages :: "build \<Rightarrow> page list \<Rightarrow> nat \<Rightarrow> nat \<Rightarrow> (nat \<times> page list) option" where
  "search_pages B [] requestedSize alignment = None"
| "search_pages B (p # ps) requestedSize alignment =
     (case grab_page_memory B p requestedSize alignment of
        Some (memory, p') \<Rightarrow> Some (memory, p' # ps)
      | None \<Rightarrow>
          (case search_pages B ps requestedSize alignment of
             None \<Rightarrow> None
           | Some (memory, ps') \<Rightarrow> Some (memory, p # ps')))"

definition page_manager_alloc ::
  "build \<Rightarrow> allocator \<Rightarrow> page_manager \<Rightarrow> nat \<Rightarrow> nat \<Rightarrow> (nat option \<times> allocator \<times> page_manager) option"
  where
  "page_manager_alloc B a m requestedSize alignment = do {
     assertC (moved_page_id_mapping_page m = None);
     assertC (requestedSize > 0);
     assertC (alignment \<le> page_size a);
     if requestedSize > total_memory a then Some (None, a, m)
     else case search_pages B (pages_in_use_list m) requestedSize alignment of
       Some (memory, ps) \<Rightarrow> Some (Some memory, a, m\<lparr>pages_in_use_list := ps\<rparr>)
     | None \<Rightarrow> do {
         (p, a, m) \<leftarrow> page_manager_get_new_page a m (requestedSize mod 2 ^ 32);
         case p of
           None \<Rightarrow> Some (None, a, m)
         | Some p \<Rightarrow>
             (case grab_page_memory B p requestedSize alignment of
                None \<Rightarrow> Some (None, a, m)
              | Some (memory, p') \<Rightarrow>
                  Some (Some memory, a, m\<lparr>pages_in_use_list := p' # tl (pages_in_use_list m)\<rparr>))
       }
   }"

definition get_page_manager :: "allocator \<Rightarrow> (page_manager option \<times> allocator) option" where
  "get_page_manager a = do {
     a \<leftarrow> lock_allocator a;
     (obj, a) \<leftarrow> get_union_object a;
     a \<leftarrow> unlock_allocator a;
     case obj of
       None \<Rightarrow> Some (None, a)
     | Some obj \<Rightarrow> Some (Some \<lparr>manager_object = obj, pages_in_use_list = [],
           moved_page_id_mapping_page = None, moved_page_id_mapping = [], last_allocation = 0\<rparr>, a)
   }"

definition CreatePageManager :: "allocator \<Rightarrow> (page_manager option \<times> allocator) option" where
  "CreatePageManager a = do {
     (m, a) \<leftarrow> get_page_manager a;
     case m of
       None \<Rightarrow> Some (None, a)
     | Some m \<Rightarrow> do {
         (p, a, m) \<leftarrow> page_manager_get_new_page a m (page_size a);
         Some (Some m, a)
       }
   }"

text \<open>The mapping is the array of \<open>n_pages_capacity\<close> cells at the start of the mapping page;
  a grab that fails leaves the pointer \<open>mapping\<close> uninitialised.\<close>

definition CreateMovedPageManager ::
  "build \<Rightarrow> allocator \<Rightarrow> (page_manager option \<times> allocator) option" where
  "CreateMovedPageManager B a = do {
     (m, a) \<leftarrow> get_page_manager a;
     case m of
       None \<Rightarrow> Some (None, a)
     | Some m \<Rightarrow>
         (let mapping_size = 4 * n_pages_capacity a;
              order = get_order a (mapping_size mod 2 ^ 32)
          in do {
            a \<leftarrow> lock_allocator a;
            (p, a) \<leftarrow> get_page a order;
            case p of
              None \<Rightarrow> do {
                let a = put_union_object a (manager_object m);
                a \<leftarrow> unlock_allocator a;
                Some (None, a)
              }
            | Some p \<Rightarrow> do {
                a \<leftarrow> unlock_allocator a;
                (memory, p) \<leftarrow> grab_page_memory B p mapping_size (ALLOCATOR_ALIGNMENT B);
                Some (Some (m\<lparr>moved_page_id_mapping_page := Some p,
                              moved_page_id_mapping := replicate (n_pages_capacity a) 0\<rparr>), a)
              }
          })
   }"

fun put_pages :: "allocator \<Rightarrow> page list \<Rightarrow> allocator option" where
  "put_pages a [] = Some a"
| "put_pages a (p # ps) = put_page a p \<bind> (\<lambda>a. put_pages a ps)"

definition DeletePageManager :: "allocator \<Rightarrow> page_manager \<Rightarrow> allocator option" where
  "DeletePageManager a m = do {
     a \<leftarrow> lock_allocator a;
     a \<leftarrow> put_pages a (pages_in_use_list m);
     a \<leftarrow> (case moved_page_id_mapping_page m of None \<Rightarrow> Some a | Some p \<Rightarrow> put_page a p);
     unlock_allocator (put_union_object a (manager_object m))
   }"

definition Allocator_Alloc ::
  "build \<Rightarrow> allocator \<Rightarrow> page_manager \<Rightarrow> nat \<Rightarrow> (nat option \<times> allocator \<times> page_manager) option" where
  "Allocator_Alloc B a m memorySize = page_manager_alloc B a m memorySize (ALLOCATOR_ALIGNMENT B)"

definition AlignedAlloc ::
  "build \<Rightarrow> allocator \<Rightarrow> page_manager \<Rightarrow> nat \<Rightarrow> nat \<Rightarrow> (nat option \<times> allocator \<times> page_manager) option"
  where
  "AlignedAlloc B a m alignment memorySize = do {
     assertC (alignment \<ge> ALLOCATOR_ALIGNMENT B);
     assertC (alignment AND (alignment - 1) = 0);
     page_manager_alloc B a m memorySize alignment
   }"

definition clear_mapping :: "page_manager \<Rightarrow> page_manager" where
  "clear_mapping m =
     (case moved_page_id_mapping_page m of
        None \<Rightarrow> m
      | Some p \<Rightarrow> let n = get_page_usage p div 4
                  in m\<lparr>moved_page_id_mapping := replicate n 0 @ drop n (moved_page_id_mapping m)\<rparr>)"

definition Allocator_Free :: "allocator \<Rightarrow> page_manager \<Rightarrow> (allocator \<times> page_manager) option" where
  "Allocator_Free a m = do {
     a \<leftarrow> lock_allocator a;
     a \<leftarrow> put_pages a (pages_in_use_list m);
     a \<leftarrow> unlock_allocator a;
     Some (a, (clear_mapping (m\<lparr>pages_in_use_list := []\<rparr>))\<lparr>last_allocation := 0\<rparr>)
   }"

definition AllocMovable ::
  "build \<Rightarrow> allocator \<Rightarrow> page_manager \<Rightarrow> nat \<Rightarrow> (nat \<times> allocator \<times> page_manager) option" where
  "AllocMovable B a m memorySize = do {
     (memory, a, m) \<leftarrow> page_manager_alloc B a m memorySize (ALLOCATOR_ALIGNMENT B);
     case memory of
       None \<Rightarrow> Some (0, a, m)
     | Some memory \<Rightarrow>
         let movable = (memory - allocator_address a) mod 2 ^ 32
         in Some (movable, a, m\<lparr>last_allocation := movable\<rparr>)
   }"

fun map_pages :: "nat list \<Rightarrow> nat \<Rightarrow> nat \<Rightarrow> nat \<Rightarrow> nat list option" where
  "map_pages mapping movedPageId local_page_id 0 = Some mapping"
| "map_pages mapping movedPageId local_page_id (Suc order) = do {
     mapping \<leftarrow> arr_set mapping movedPageId local_page_id;
     map_pages mapping (Suc movedPageId) (Suc local_page_id) order
   }"

definition AllocMovedPage ::
  "allocator \<Rightarrow> page_manager \<Rightarrow> nat \<Rightarrow> nat \<Rightarrow> (nat option \<times> allocator \<times> page_manager) option" where
  "AllocMovedPage a m movedPageId pageUsage = do {
     assertC (moved_page_id_mapping_page m \<noteq> None);
     assertC (movedPageId \<noteq> 0);
     assertC (movedPageId < n_pages_capacity a);
     cell \<leftarrow> arr_get (moved_page_id_mapping m) movedPageId;
     assertC (cell = 0);
     (p, a, m) \<leftarrow> page_manager_get_new_page a m pageUsage;
     case p of
       None \<Rightarrow> Some (None, a, m)
     | Some p \<Rightarrow> do {
         mapping \<leftarrow> map_pages (moved_page_id_mapping m) movedPageId
                     (get_page_id a p) (get_page_order a p);
         let p = set_page_usage p pageUsage;
         Some (Some (memory_start_address p), a,
           m\<lparr>moved_page_id_mapping := mapping,
             pages_in_use_list := p # tl (pages_in_use_list m)\<rparr>)
       }
   }"

definition GetAddressFromMovedMemory :: "allocator \<Rightarrow> page_manager \<Rightarrow> nat \<Rightarrow> nat option" where
  "GetAddressFromMovedMemory a m movableMemory = do {
     assertC (movableMemory \<ge> page_size a);
     assertC (movableMemory < total_memory a);
     assertC (moved_page_id_mapping_page m \<noteq> None);
     let page_id = drop_bit (page_shift a) movableMemory;
     let page_offset = movableMemory AND page_mask a;
     page_id \<leftarrow> arr_get (moved_page_id_mapping m) page_id;
     assertC (page_id \<noteq> 0);
     Some (allocator_address a + (u32_shl page_id (page_shift a) OR page_offset))
   }"

definition GetAddressFromMovableMemory :: "allocator \<Rightarrow> page_manager \<Rightarrow> nat \<Rightarrow> nat option" where
  "GetAddressFromMovableMemory a m movableMemory =
     (if moved_page_id_mapping_page m \<noteq> None then GetAddressFromMovedMemory a m movableMemory
      else Some (allocator_address a + movableMemory))"

fun rollback_pages :: "page list \<Rightarrow> nat \<Rightarrow> page list option" where
  "rollback_pages [] memory = None"
| "rollback_pages (p # ps) memory =
     (if memory_start_address p \<le> memory \<and> memory < memory_current_address p
      then Some (p\<lparr>memory_current_address := memory\<rparr> # ps)
      else rollback_pages ps memory \<bind> (\<lambda>ps. Some (p # ps)))"

definition RollbackAllocMovable :: "allocator \<Rightarrow> page_manager \<Rightarrow> nat \<Rightarrow> page_manager option" where
  "RollbackAllocMovable a m movableMemory = do {
     assertC (moved_page_id_mapping_page m = None);
     assertC (movableMemory \<ge> page_size a);
     assertC (last_allocation m = movableMemory);
     memory \<leftarrow> GetAddressFromMovableMemory a m movableMemory;
     ps \<leftarrow> rollback_pages (pages_in_use_list m) memory;
     Some (m\<lparr>pages_in_use_list := ps, last_allocation := 0\<rparr>)
   }"

section \<open>Statistics\<close>

record manager_stats =
  pages_allocated :: nat
  pages_used :: nat
  memory_allocated :: nat
  memory_used :: nat
  memory_available :: nat
  memory_loss :: nat

definition GetNumberOfUsedPages :: "page_manager \<Rightarrow> nat" where
  "GetNumberOfUsedPages m =
     fold (\<lambda>p n. if get_page_usage p \<noteq> 0 then u32_add n 1 else n) (pages_in_use_list m) 0"

text \<open>The triples (page id, usage, start address) stored at positions 0, 1, ... of the arrays.\<close>

definition GetPageInfos :: "allocator \<Rightarrow> page_manager \<Rightarrow> (nat \<times> nat \<times> nat) list" where
  "GetPageInfos a m =
     map (\<lambda>p. (get_page_id a p, get_page_usage p, memory_start_address p))
       (filter (\<lambda>p. get_page_usage p \<noteq> 0) (pages_in_use_list m))"

definition GetStats ::
  "allocator \<Rightarrow> manager_stats \<Rightarrow> manager_stats \<Rightarrow> (manager_stats \<times> manager_stats \<times> allocator) option"
  where
  "GetStats a pageStats maintStats = do {
     a \<leftarrow> lock_allocator a;
     let pageStats = pageStats\<lparr>pages_allocated := unat (n_pages_high_watermark a),
                               pages_used := unat (n_pages_allocated a)\<rparr>;
     let maintStats = maintStats\<lparr>pages_allocated := unat (n_pages_maintenance a),
                                 pages_used := unat (n_pages_maintenance a),
                                 memory_allocated := unat (n_pages_maintenance a) * page_size a mod 2 ^ 32,
                                 memory_loss := allocator_address a - allocated_memory a\<rparr>;
     let maintStats = maintStats\<lparr>memory_available :=
           fold (\<lambda>obj n. n + union_size) (free_objects a) (memory_available maintStats)\<rparr>;
     let maintStats = maintStats\<lparr>memory_used :=
           memory_allocated maintStats - memory_available maintStats\<rparr>;
     a \<leftarrow> unlock_allocator a;
     Some (pageStats, maintStats, a)
   }"

definition update_page_stats :: "allocator \<Rightarrow> page \<Rightarrow> manager_stats \<Rightarrow> manager_stats option" where
  "update_page_stats a p stats =
     (let page_multiple = get_order a (get_page_length p); usage = get_page_usage p
      in do {
        assertC (page_multiple > 0);
        let stats = stats\<lparr>pages_allocated := u32_add (pages_allocated stats) page_multiple,
              memory_allocated := memory_allocated stats + get_page_length p,
              memory_used := memory_used stats + usage,
              memory_available := memory_available stats + get_page_avail p,
              memory_loss := memory_loss stats + memory_alignment_loss p\<rparr>;
        Some (if usage \<noteq> 0
              then stats\<lparr>pages_used := u32_add (pages_used stats) page_multiple\<rparr> else stats)
      })"

fun update_stats :: "allocator \<Rightarrow> page list \<Rightarrow> manager_stats \<Rightarrow> manager_stats option" where
  "update_stats a [] stats = Some stats"
| "update_stats a (p # ps) stats = update_page_stats a p stats \<bind> update_stats a ps"

definition GetPageManagerStats ::
  "allocator \<Rightarrow> page_manager \<Rightarrow> manager_stats \<Rightarrow> (manager_stats \<times> allocator) option" where
  "GetPageManagerStats a m stats = do {
     a \<leftarrow> lock_allocator a;
     stats \<leftarrow> update_stats a (pages_in_use_list m) stats;
     stats \<leftarrow> (case moved_page_id_mapping_page m of
                 None \<Rightarrow> Some stats | Some p \<Rightarrow> update_page_stats a p stats);
     a \<leftarrow> unlock_allocator a;
     Some (stats, a)
   }"

section \<open>Creation\<close>

function page_shift_loop :: "nat \<Rightarrow> nat \<Rightarrow> nat" where
  "page_shift_loop pageSize shift =
     (if drop_bit (Suc shift) pageSize \<noteq> 0 then page_shift_loop pageSize (Suc shift) else shift)"
  by pat_completeness auto
termination
proof (relation "measure (\<lambda>(pageSize, shift). pageSize - shift)", goal_cases)
  case (2 pageSize shift)
  then have "2 ^ Suc shift \<le> pageSize" by (simp add: drop_bit_eq_div div_eq_0_iff not_less)
  then have "shift < pageSize" using less_exp [of "Suc shift"] by linarith
  then show ?case by simp
qed simp

function n_pages_bits_loop :: "nat \<Rightarrow> nat \<Rightarrow> nat" where
  "n_pages_bits_loop n_pages nbits =
     (if drop_bit nbits n_pages \<noteq> 0 then n_pages_bits_loop n_pages (Suc nbits) else nbits)"
  by pat_completeness auto
termination
proof (relation "measure (\<lambda>(n_pages, nbits). n_pages - nbits)", goal_cases)
  case (2 n_pages nbits)
  then have "2 ^ nbits \<le> n_pages" by (simp add: drop_bit_eq_div div_eq_0_iff not_less)
  then have "nbits < n_pages" using less_exp [of nbits] by linarith
  then show ?case by simp
qed simp

declare page_shift_loop.simps [simp del] n_pages_bits_loop.simps [simp del]

text \<open>The loop that reserves union objects for half a percent of the pages; with the wrap-around of
  the 32-bit sum it is not obvious that it ends.\<close>

partial_function (option) reserve_loop :: "nat \<Rightarrow> nat \<Rightarrow> nat \<Rightarrow> nat \<Rightarrow> (nat \<times> nat) option" where
  "reserve_loop n_pages pageSize used_pages free_memory =
     (if free_memory div union_size < n_pages div 200
      then reserve_loop n_pages pageSize (u32_add used_pages 1) (u32_add free_memory pageSize)
      else Some (used_pages, free_memory))"

definition MIN_NUMBER_OF_OBJECTS_PER_PAGE :: nat where
  "MIN_NUMBER_OF_OBJECTS_PER_PAGE = 8"

text \<open>The arguments \<open>totalMemory\<close> and \<open>pageSize\<close> are the values the caller passes in; the result
  holds the two values passed back. \<open>calloc_result\<close> is the address \<open>calloc\<close> returns.\<close>

definition CreateAllocator ::
  "build \<Rightarrow> nat option \<Rightarrow> u32 \<Rightarrow> u32 \<Rightarrow> (allocator option \<times> nat \<times> nat) option" where
  "CreateAllocator B calloc_result total_in page_in =
     (let pageSize = unat (npot page_in); totalMemory = unat total_in
      in if totalMemory \<le> pageSize \<or> totalMemory = 0 \<or> pageSize = 0
            \<or> pageSize < ALLOCATOR_ALIGNMENT B
         then Some (None, totalMemory, pageSize)
         else if pageSize div union_size < MIN_NUMBER_OF_OBJECTS_PER_PAGE
         then Some (None, totalMemory, pageSize)
         else
           (let shift = page_shift_loop pageSize 0;
                n_pages = totalMemory div pageSize;
                totalMemory = n_pages * pageSize mod 2 ^ 32;
                nbits = n_pages_bits_loop n_pages 1;
                maint = ROUNDUPTO B ((union_size + bitset_size n_pages) mod 2 ^ 32) 64 mod 2 ^ 32
            in if totalMemory \<le> maint then Some (None, totalMemory, pageSize)
               else
                 (let used_pages = u32_add (drop_bit shift maint)
                                     (of_bool (maint AND (pageSize - 1) \<noteq> 0));
                      free_memory = u32_shl used_pages shift - maint
                  in do {
                    (used_pages, free_memory) \<leftarrow> reserve_loop n_pages pageSize used_pages free_memory;
                    if used_pages \<ge> n_pages - 1 then Some (None, totalMemory, pageSize)
                    else case calloc_result of
                      None \<Rightarrow> Some (None, totalMemory, pageSize)
                    | Some raw \<Rightarrow> do {
                        let address = ROUNDUPTO B raw pageSize;
                        let capacity = (if address \<noteq> raw then n_pages - 1 else n_pages);
                        let totalMemory = u32_shl capacity shift;
                        ws \<leftarrow> bitset_mark_invalid (replicate (bitset_size n_pages div 8) 0) capacity;
                        a \<leftarrow> track_bitset_set_range
                          \<lparr>allocator_address = address, allocated_memory = raw, page_shift = shift,
                           n_pages_bits = nbits, n_pages_capacity = capacity,
                           n_pages_maintenance = of_nat used_pages, n_pages_high_watermark = 0,
                           n_pages_allocated = 0, free_objects = [], page_bitset = ws,
                           locked = False\<rparr> 0 used_pages;
                        Some (Some (fill_with_union_objects a free_memory (address + maint)),
                              totalMemory, pageSize)
                      }
                  })))"

end
