(* ===== verification/Scorep_Allocator_Pages.thy ===== *)
theory Scorep_Allocator_Pages
  imports Scorep_Allocator
begin

text \<open>
  The lemmas on pages and union objects of the allocator model. Every page of the memory is a
  maintenance page (\<open>Mt\<close>), a page of a manager (\<open>L\<close>) or free, and every union object is free or
  has one owner (\<open>Ob\<close>): \<open>alloc_inv\<close> states both as multiset equations, so that a claim or a
  release is an addition or a subtraction. The locale \<open>page_source\<close> is the contract the
  allocator has with the bitset; it is interpreted for the single page and for the page range.
\<close>

section \<open>The contract with the bitset\<close>

definition members :: "bitset \<Rightarrow> nat \<Rightarrow> nat multiset" where
  "members ws n = mset_set (bits ws \<inter> {..<n})"

definition claimed :: "nat \<Rightarrow> bitset \<Rightarrow> nat \<Rightarrow> nat \<Rightarrow> bitset \<Rightarrow> bool" where
  "claimed len ws n p ws' \<longleftrightarrow> p + len \<le> n \<and> {p..<p + len} \<inter> bits ws = {}
     \<and> bits ws' = bits ws \<union> {p..<p + len} \<and> bitset_ok ws' n"

locale page_source =
  fixes claim :: "bitset \<Rightarrow> nat \<Rightarrow> (nat \<times> bitset) option"
    and release :: "bitset \<Rightarrow> nat \<Rightarrow> nat \<Rightarrow> bitset option"
    and len :: nat
  assumes len_pos: "0 < len"
    and claim: "bitset_ok ws n \<Longrightarrow> \<exists>p ws'. claim ws n = Some (p, ws')
          \<and> (claimed len ws n p ws' \<or> p = n \<and> ws' = ws \<and> (\<forall>q. \<not> free_range ws n len q))"
    and release: "bitset_ok ws n \<Longrightarrow> p + len \<le> n \<Longrightarrow> {p..<p + len} \<subseteq> bits ws \<Longrightarrow>
          \<exists>ws'. release ws n p = Some ws' \<and> bits ws' = bits ws - {p..<p + len} \<and> bitset_ok ws' n"
begin

lemma claim_members:
  assumes "bitset_ok ws n"
  obtains (full) "claim ws n = Some (n, ws)" "\<And>q. \<not> free_range ws n len q"
  | (page) p ws' where "claim ws n = Some (p, ws')" "p < n" "p + len \<le> n"
      "members ws' n = members ws n + mset_set {p..<p + len}" "bitset_ok ws' n"
      "{p..<p + len} \<inter> bits ws = {}"
proof -
  obtain p ws' where c: "claim ws n = Some (p, ws')"
    "claimed len ws n p ws' \<or> p = n \<and> ws' = ws \<and> (\<forall>q. \<not> free_range ws n len q)"
    using claim [OF assms] by blast
  show thesis
  proof (cases "claimed len ws n p ws'")
    case True
    then have r: "p + len \<le> n" "{p..<p + len} \<inter> bits ws = {}" "bitset_ok ws' n"
      "bits ws' = bits ws \<union> {p..<p + len}"
      by (simp_all add: claimed_def)
    then have "bits ws' \<inter> {..<n} = bits ws \<inter> {..<n} \<union> {p..<p + len}" by auto
    then have "members ws' n = members ws n + mset_set {p..<p + len}"
      unfolding members_def using r(2) by (subst mset_set_Union [symmetric]) auto
    with c r len_pos show thesis by (intro page [of p ws']) auto
  qed (use c full in blast)
qed

lemma release_members:
  assumes ok: "bitset_ok ws n" and p: "p + len \<le> n"
    and m: "members ws n = M + mset_set {p..<p + len}"
  shows "\<exists>ws'. release ws n p = Some ws' \<and> members ws' n = M \<and> bitset_ok ws' n"
proof -
  have "set_mset (mset_set {p..<p + len}) \<subseteq> set_mset (members ws n)" unfolding m by simp
  then have sub: "{p..<p + len} \<subseteq> bits ws" by (simp add: members_def)
  then obtain ws' where r: "release ws n p = Some ws'" "bits ws' = bits ws - {p..<p + len}"
    "bitset_ok ws' n"
    using release [OF ok p] by blast
  have "bits ws \<inter> {..<n} = bits ws' \<inter> {..<n} \<union> {p..<p + len}" using r(2) sub p by auto
  then have "members ws n = members ws' n + mset_set {p..<p + len}"
    unfolding members_def using r(2) by (subst mset_set_Union [symmetric]) auto
  with m r show ?thesis by auto
qed

end

lemma bitset_ok_grow:
  "bitset_ok ws n \<Longrightarrow> length ws' = length ws \<Longrightarrow> bits ws \<subseteq> bits ws' \<Longrightarrow> bitset_ok ws' n"
  unfolding bitset_ok_def holds_def by auto

lemma bitset_ok_shrink:
  assumes "bitset_ok ws n" "length ws' = length ws" "bits ws' = bits ws - {p..<q}" "q \<le> n"
  shows "bitset_ok ws' n"
  using assms unfolding bitset_ok_def holds_def by (auto dest: subsetD)

interpretation one_page: page_source bitset_find_and_set bitset_clear 1
proof
  fix ws n
  assume ok: "bitset_ok ws n"
  then obtain p ws' where c: "bitset_find_and_set ws n = Some (p, ws')" "length ws' = length ws"
    "p < n \<and> p \<notin> bits ws \<and> bits ws' = insert p (bits ws)
     \<or> p = n \<and> ws' = ws \<and> {..<n} \<subseteq> bits ws"
    using bitset_find_and_set_spec [OF ok] by blast
  have "p < n \<Longrightarrow> bitset_ok ws' n"
    using c by (intro bitset_ok_grow [OF ok]) auto
  with c show "\<exists>p ws'. bitset_find_and_set ws n = Some (p, ws')
     \<and> (claimed 1 ws n p ws' \<or> p = n \<and> ws' = ws \<and> (\<forall>q. \<not> free_range ws n 1 q))"
    by (auto simp: claimed_def free_range_def disjoint_iff subset_iff)
next
  fix ws n p
  assume ok: "bitset_ok ws n" and "p + 1 \<le> n" "{p..<p + 1} \<subseteq> bits ws"
  then show "\<exists>ws'. bitset_clear ws n p = Some ws' \<and> bits ws' = bits ws - {p..<p + 1}
      \<and> bitset_ok ws' n"
    using bitset_clear_bits [of ws n p] bitset_ok_shrink [OF ok, of _ p "p + 1"]
    by (auto simp: bitset_ok_def)
qed simp

interpretation page_run: page_source "\<lambda>ws n. bitset_find_and_set_range ws n (Suc k)"
  "\<lambda>ws n p. bitset_clear_range ws n p (Suc k)" "Suc k" for k
proof
  fix ws n
  assume ok: "bitset_ok ws n"
  then obtain p ws' where "bitset_find_and_set_range ws n (Suc k) = Some (p, ws')"
    "length ws' = length ws" "\<forall>q<p. \<not> free_range ws n (Suc k) q"
    "free_range ws n (Suc k) p \<and> bits ws' = bits ws \<union> {p..<p + Suc k} \<or> p = n \<and> ws' = ws"
    using bitset_find_and_set_range_spec [OF ok, of "Suc k"] by auto
  then show "\<exists>p ws'. bitset_find_and_set_range ws n (Suc k) = Some (p, ws')
     \<and> (claimed (Suc k) ws n p ws'
        \<or> p = n \<and> ws' = ws \<and> (\<forall>q. \<not> free_range ws n (Suc k) q))"
    by (auto simp: claimed_def free_range_def intro: bitset_ok_grow [OF ok])
next
  fix ws n p
  assume ok: "bitset_ok ws n" and p: "p + Suc k \<le> n" "{p..<p + Suc k} \<subseteq> bits ws"
  then obtain ws' where "bitset_clear_range ws n p (Suc k) = Some ws'" "length ws' = length ws"
    "bits ws' = bits ws - {p..<p + Suc k}"
    using bitset_clear_range_bits [of ws n "Suc k" p] by (auto simp: bitset_ok_def)
  then show "\<exists>ws'. bitset_clear_range ws n p (Suc k) = Some ws'
      \<and> bits ws' = bits ws - {p..<p + Suc k} \<and> bitset_ok ws' n"
    using bitset_ok_shrink [OF ok _ _ p(1)] by blast
qed simp

section \<open>Geometry of the memory\<close>

definition geometry :: "allocator \<Rightarrow> bool" where
  "geometry a \<longleftrightarrow> 7 \<le> page_shift a \<and> page_shift a < 32
     \<and> n_pages_capacity a * 2 ^ page_shift a < 2 ^ 32 \<and> 2 ^ page_shift a dvd allocator_address a"

definition same_memory :: "allocator \<Rightarrow> allocator \<Rightarrow> bool" where
  "same_memory a a' \<longleftrightarrow> allocator_address a' = allocator_address a \<and> page_shift a' = page_shift a
     \<and> n_pages_capacity a' = n_pages_capacity a \<and> locked a' = locked a"

lemma same_memory_refl [simp]: "same_memory a a"
  by (simp add: same_memory_def)

lemma same_memory_trans: "same_memory a b \<Longrightarrow> same_memory b c \<Longrightarrow> same_memory a c"
  by (simp add: same_memory_def)

lemma union_size_64 [simp]: "union_size = 64"
  by (simp add: union_size_def npot_def Let_def)

lemma page_size_eq: "geometry a \<Longrightarrow> page_size a = 2 ^ page_shift a"
  using power_strict_increasing [of "page_shift a" 32 "2 :: nat"]
  by (simp add: geometry_def page_size_def u32_shl_def)

lemma page_mask_eq: "geometry a \<Longrightarrow> page_mask a = mask (page_shift a)"
  by (simp add: page_mask_def page_size_eq mask_eq_exp_minus_1)

lemma u32_shl_page:
  assumes "geometry a" "n \<le> n_pages_capacity a"
  shows "u32_shl n (page_shift a) = n * 2 ^ page_shift a"
proof -
  have "n * 2 ^ page_shift a \<le> n_pages_capacity a * 2 ^ page_shift a" using assms(2) by simp
  also have "\<dots> < 2 ^ 32" using assms(1) by (simp add: geometry_def)
  finally show ?thesis by (simp add: u32_shl_def push_bit_eq_mult)
qed

lemma total_memory_eq: "geometry a \<Longrightarrow> total_memory a = n_pages_capacity a * 2 ^ page_shift a"
  by (simp add: total_memory_def u32_shl_page)

lemma get_order_eq:
  assumes "geometry a" "len < 2 ^ 32"
  shows "get_order a len = len div 2 ^ page_shift a + of_bool (len mod 2 ^ page_shift a \<noteq> 0)"
proof -
  have s: "7 \<le> page_shift a" using assms(1) by (simp add: geometry_def)
  have "len div 2 ^ page_shift a \<le> len div 2 ^ 7"
    using s by (intro div_le_mono2 power_increasing) auto
  also have "\<dots> < 2 ^ 25" using assms(2) by (simp add: less_mult_imp_div_less)
  finally have "len div 2 ^ page_shift a + of_bool (len mod 2 ^ page_shift a \<noteq> 0) < 2 ^ 32"
    by (simp add: of_bool_def)
  then show ?thesis
    using assms(1)
    by (simp add: get_order_def page_mask_eq u32_add_small drop_bit_eq_div
        take_bit_eq_mask [symmetric] take_bit_eq_mod)
qed

lemma get_order_covers:
  assumes "geometry a" "0 < len" "len < 2 ^ 32"
  shows "len \<le> get_order a len * 2 ^ page_shift a" "0 < get_order a len"
proof -
  define q r where "q = len div 2 ^ page_shift a" and "r = len mod 2 ^ page_shift a"
  have l: "len = q * 2 ^ page_shift a + r" "r < 2 ^ page_shift a"
    unfolding q_def r_def by (simp_all only: div_mult_mod_eq mod_less_divisor zero_less_power zero_less_numeral)
  have o: "get_order a len = q + of_bool (r \<noteq> 0)"
    using get_order_eq [OF assms(1,3)] by (simp add: q_def r_def)
  show "len \<le> get_order a len * 2 ^ page_shift a" "0 < get_order a len"
    unfolding o using l assms(2) by (cases "r = 0"; simp)+
qed

section \<open>Well-formed pages\<close>

definition page_at :: "allocator \<Rightarrow> page \<Rightarrow> nat \<Rightarrow> nat \<Rightarrow> bool" where
  "page_at a p page_id order \<longleftrightarrow> page_id + order \<le> n_pages_capacity a \<and> 0 < order
     \<and> memory_start_address p = allocator_address a + page_id * 2 ^ page_shift a
     \<and> memory_end_address p = allocator_address a + (page_id + order) * 2 ^ page_shift a
     \<and> memory_start_address p \<le> memory_current_address p
     \<and> memory_current_address p \<le> memory_end_address p"

definition page_wf :: "allocator \<Rightarrow> page \<Rightarrow> bool" where
  "page_wf a p \<longleftrightarrow> page_at a p (get_page_id a p) (get_page_order a p)"

definition page_ids :: "allocator \<Rightarrow> page \<Rightarrow> nat multiset" where
  "page_ids a p = mset_set {get_page_id a p..<get_page_id a p + get_page_order a p}"

lemma page_bytes_bound:
  assumes "geometry a" "n \<le> n_pages_capacity a"
  shows "n * 2 ^ page_shift a < 2 ^ 32" "n < 2 ^ 32"
proof -
  have "n * 2 ^ page_shift a \<le> n_pages_capacity a * 2 ^ page_shift a" using assms(2) by simp
  also have "\<dots> < 2 ^ 32" using assms(1) by (simp add: geometry_def)
  finally show b: "n * 2 ^ page_shift a < 2 ^ 32" .
  have "n * 1 \<le> n * 2 ^ page_shift a" by (intro mult_le_mono) auto
  with b show "n < 2 ^ 32" by (simp only: mult_1_right le_less_trans)
qed

lemma page_at_id_order:
  assumes g: "geometry a" and p: "page_at a p page_id order"
  shows "get_page_id a p = page_id" "get_page_order a p = order"
proof -
  let ?s = "2 ^ page_shift a :: nat"
  have b: "page_id + order \<le> n_pages_capacity a" "memory_start_address p = allocator_address a + page_id * ?s"
    "memory_end_address p = allocator_address a + (page_id + order) * ?s"
    using p by (simp_all add: page_at_def)
  have "page_id < 2 ^ 32" "order * ?s < 2 ^ 32"
    using page_bytes_bound [OF g, of page_id] page_bytes_bound [OF g, of order] b(1) by auto
  then show "get_page_id a p = page_id" "get_page_order a p = order"
    using b(2,3)
    by (simp_all add: get_page_id_def get_page_order_def get_page_length_def drop_bit_eq_div
        algebra_simps)
qed

lemma page_at_wf: "geometry a \<Longrightarrow> page_at a p page_id order \<Longrightarrow> page_wf a p"
  by (simp add: page_wf_def page_at_id_order)

lemma init_page_at:
  assumes g: "geometry a" and "page_id + order \<le> n_pages_capacity a" "0 < order"
  shows "page_at a (init_page a obj page_id order) page_id order"
    and "memory_current_address (init_page a obj page_id order)
       = memory_start_address (init_page a obj page_id order)"
  using assms
  by (simp_all add: init_page_def set_page_usage_def set_page_order_def page_at_def
      u32_shl_page algebra_simps Let_def)

lemma page_object_init [simp]: "page_object (init_page a obj page_id order) = obj"
  by (simp add: init_page_def set_page_usage_def set_page_order_def Let_def)

lemma same_memory_pages:
  assumes "same_memory a a'"
  shows "get_page_id a' p = get_page_id a p" "get_page_order a' p = get_page_order a p"
    "page_wf a' p = page_wf a p" "page_ids a' p = page_ids a p" "geometry a' = geometry a"
  using assms
  by (simp_all add: same_memory_def get_page_id_def get_page_order_def page_wf_def page_at_def
      page_ids_def geometry_def)

section \<open>Ownership of pages and union objects\<close>

definition used_pages :: "allocator \<Rightarrow> nat multiset" where
  "used_pages a = members (page_bitset a) (n_pages_capacity a)"

text \<open>A union object lies in a maintenance page, at a multiple of its size.\<close>

definition object_slot :: "allocator \<Rightarrow> nat multiset \<Rightarrow> nat \<Rightarrow> bool" where
  "object_slot a Mt obj \<longleftrightarrow> allocator_address a \<le> obj \<and> 64 dvd obj - allocator_address a
     \<and> (obj - allocator_address a) div 2 ^ page_shift a \<in># Mt"

definition objects_ok :: "allocator \<Rightarrow> nat multiset \<Rightarrow> nat multiset \<Rightarrow> bool" where
  "objects_ok a Mt Ob \<longleftrightarrow> (\<forall>obj. count Ob obj \<le> 1) \<and> (\<forall>obj \<in># Ob. object_slot a Mt obj)"

definition alloc_inv :: "allocator \<Rightarrow> nat multiset \<Rightarrow> nat multiset \<Rightarrow> nat multiset \<Rightarrow> bool" where
  "alloc_inv a Mt L Ob \<longleftrightarrow> geometry a \<and> bitset_ok (page_bitset a) (n_pages_capacity a)
     \<and> used_pages a = Mt + L \<and> n_pages_maintenance a = of_nat (size Mt)
     \<and> objects_ok a Mt (mset (free_objects a) + Ob)"

lemma alloc_invD:
  assumes "alloc_inv a Mt L Ob"
  shows "geometry a" "bitset_ok (page_bitset a) (n_pages_capacity a)" "used_pages a = Mt + L"
    "objects_ok a Mt (mset (free_objects a) + Ob)"
  using assms by (simp_all add: alloc_inv_def)

lemma object_slot_mono: "object_slot a Mt obj \<Longrightarrow> Mt \<subseteq># Mt' \<Longrightarrow> object_slot a Mt' obj"
  by (auto simp: object_slot_def dest: mset_subset_eqD)

lemma fill_objects:
  "\<exists>objs. fill_with_union_objects a n s = a\<lparr>free_objects := objs @ free_objects a\<rparr>
     \<and> distinct objs \<and> (64 < n \<longrightarrow> objs \<noteq> [])
     \<and> (\<forall>obj \<in> set objs. s \<le> obj \<and> obj + 64 < s + n \<and> 64 dvd obj - s)"
proof (induction n arbitrary: a s rule: less_induct)
  case (less n)
  show ?case
  proof (cases "64 < n")
    case True
    define b where "b = a\<lparr>free_objects := s # free_objects a\<rparr>"
    obtain objs where o: "fill_with_union_objects b (n - 64) (s + 64)
        = b\<lparr>free_objects := objs @ free_objects b\<rparr>" "distinct objs"
      "\<forall>obj \<in> set objs. s + 64 \<le> obj \<and> obj + 64 < s + 64 + (n - 64) \<and> 64 dvd obj - (s + 64)"
      using less.IH [of "n - 64" b "s + 64"] True by auto
    have in_objs: "s \<le> obj \<and> obj + 64 < s + n \<and> 64 dvd obj - s \<and> obj \<noteq> s" if "obj \<in> set objs" for obj
    proof -
      note r = bspec [OF o(3) that, THEN conjunct1]
        bspec [OF o(3) that, THEN conjunct2, THEN conjunct1]
        bspec [OF o(3) that, THEN conjunct2, THEN conjunct2]
      have "obj - s = (obj - (s + 64)) + 64" using r(1) by simp
      moreover have "64 dvd (obj - (s + 64)) + 64" using r(3) by (rule dvd_add) simp
      ultimately have "64 dvd obj - s" by metis
      moreover have "s \<le> obj" "obj + 64 < s + n" "obj \<noteq> s" using r(1,2) True by linarith+
      ultimately show ?thesis by blast
    qed
    then have "\<forall>obj \<in> set (objs @ [s]). s \<le> obj \<and> obj + 64 < s + n \<and> 64 dvd obj - s"
      using True by simp
    moreover have "distinct (objs @ [s])" using o(2) in_objs by auto
    moreover have "fill_with_union_objects a n s
        = a\<lparr>free_objects := (objs @ [s]) @ free_objects a\<rparr>"
      using True o(1) by (simp add: fill_with_union_objects.simps [of a n s] b_def)
    ultimately show ?thesis by (intro exI [of _ "objs @ [s]"]) simp
  qed (auto simp: fill_with_union_objects.simps [of a n s] intro!: exI [of _ "[]"])
qed

lemma track_high_watermark_same:
  "track_update_high_watermark a = a\<lparr>n_pages_high_watermark := n_pages_high_watermark
     (track_update_high_watermark a)\<rparr>"
  by (simp add: track_update_high_watermark_def)

lemma track_update_sel [simp]:
  "allocator_address (track_update_high_watermark a) = allocator_address a"
  "page_shift (track_update_high_watermark a) = page_shift a"
  "n_pages_capacity (track_update_high_watermark a) = n_pages_capacity a"
  "n_pages_maintenance (track_update_high_watermark a) = n_pages_maintenance a"
  "free_objects (track_update_high_watermark a) = free_objects a"
  "page_bitset (track_update_high_watermark a) = page_bitset a"
  "locked (track_update_high_watermark a) = locked a"
  by (simp_all add: track_update_high_watermark_def)

text \<open>The counters have no influence on the page and object accounting.\<close>

definition same_objects :: "allocator \<Rightarrow> allocator \<Rightarrow> bool" where
  "same_objects a a' \<longleftrightarrow> same_memory a a' \<and> free_objects a' = free_objects a
     \<and> n_pages_maintenance a' = n_pages_maintenance a"

lemma alloc_inv_transfer:
  assumes "alloc_inv a Mt L Ob" "same_objects a a'"
    "bitset_ok (page_bitset a') (n_pages_capacity a)"
    "members (page_bitset a') (n_pages_capacity a) = Mt + L'"
  shows "alloc_inv a' Mt L' Ob"
  using assms unfolding alloc_inv_def used_pages_def objects_ok_def object_slot_def
    same_objects_def same_memory_def geometry_def
  by simp

definition claim_pages :: "allocator \<Rightarrow> nat \<Rightarrow> (nat \<times> allocator) option" where
  "claim_pages a order = (if order = 1 then track_bitset_find_and_set a
                          else track_bitset_find_and_set_range a order)"

definition release_pages :: "allocator \<Rightarrow> nat \<Rightarrow> nat \<Rightarrow> allocator option" where
  "release_pages a page_id order = (if order = 1 then track_bitset_clear a page_id
                                    else track_bitset_clear_range a page_id order)"

lemma claim_pages_cases:
  assumes inv: "alloc_inv a Mt L Ob" and order: "0 < order"
  obtains (full) a' where "claim_pages a order = Some (n_pages_capacity a, a')"
      "same_objects a a'" "alloc_inv a' Mt L Ob" "page_bitset a' = page_bitset a"
      "\<And>q. \<not> free_range (page_bitset a) (n_pages_capacity a) order q"
  | (page) a' page_id where "claim_pages a order = Some (page_id, a')" "same_objects a a'"
      "page_id < n_pages_capacity a" "page_id + order \<le> n_pages_capacity a"
      "alloc_inv a' Mt (L + mset_set {page_id..<page_id + order}) Ob"
      "{page_id..<page_id + order} \<inter> bits (page_bitset a) = {}"
proof -
  define n ws where "n = n_pages_capacity a" and "ws = page_bitset a"
  note d = alloc_invD [OF inv]
  have ok: "bitset_ok ws n" and used: "members ws n = Mt + L"
    using d(2,3) by (simp_all add: n_def ws_def used_pages_def)
  define claim where "claim = (if order = 1 then bitset_find_and_set ws n
      else bitset_find_and_set_range ws n order)"
  define b where "b = track_update_high_watermark
      (a\<lparr>n_pages_allocated := n_pages_allocated a + of_nat order\<rparr>)"
  have c: "claim_pages a order = claim \<bind> (\<lambda>(pos, ws'). Some (pos, b\<lparr>page_bitset := ws'\<rparr>))"
    by (simp add: claim_pages_def claim_def b_def track_bitset_find_and_set_def
        track_bitset_find_and_set_range_def Let_def n_def ws_def)
  have same: "same_objects a (b\<lparr>page_bitset := ws'\<rparr>)" for ws'
    by (simp add: same_objects_def same_memory_def b_def)
  have "(claim = Some (n, ws) \<and> (\<forall>q. \<not> free_range ws n order q))
    \<or> (\<exists>p ws'. claim = Some (p, ws') \<and> p < n \<and> p + order \<le> n
        \<and> members ws' n = members ws n + mset_set {p..<p + order} \<and> bitset_ok ws' n
        \<and> {p..<p + order} \<inter> bits ws = {})"
  proof (cases "order = 1")
    case True
    then have c: "claim = bitset_find_and_set ws n" by (simp add: claim_def)
    show ?thesis
      unfolding c True by (cases rule: one_page.claim_members [OF ok]) (blast, metis)
  next
    case False
    obtain k where k: "order = Suc k" using order by (cases order) auto
    then have c: "claim = bitset_find_and_set_range ws n (Suc k)"
      using False by (simp add: claim_def)
    show ?thesis
      unfolding c k by (cases rule: page_run.claim_members [OF ok, of k]) (blast, metis)
  qed
  then show thesis
  proof (elim disjE exE conjE)
    assume "claim = Some (n, ws)" and f: "\<forall>q. \<not> free_range ws n order q"
    then have "claim_pages a order = Some (n_pages_capacity a, b\<lparr>page_bitset := ws\<rparr>)"
      by (simp add: c n_def)
    moreover have "alloc_inv (b\<lparr>page_bitset := ws\<rparr>) Mt L Ob"
      using ok used by (intro alloc_inv_transfer [OF inv same]) (auto simp: n_def)
    ultimately show thesis
      using f by (intro full [of "b\<lparr>page_bitset := ws\<rparr>"]) (auto simp: same n_def ws_def)
  next
    fix p ws'
    assume *: "claim = Some (p, ws')" "p < n" "p + order \<le> n" "bitset_ok ws' n"
      "members ws' n = members ws n + mset_set {p..<p + order}"
      "{p..<p + order} \<inter> bits ws = {}"
    have "alloc_inv (b\<lparr>page_bitset := ws'\<rparr>) Mt (L + mset_set {p..<p + order}) Ob"
      using * used by (intro alloc_inv_transfer [OF inv same]) (auto simp: n_def)
    with * show thesis by (intro page) (auto simp: c n_def ws_def same)
  qed
qed

section \<open>Union objects\<close>

text \<open>A new maintenance page brings objects that no one owns yet.\<close>

lemma slot_in_page:
  assumes g: "geometry a" and "page_id \<in># Mt"
    and obj: "allocator_address a + page_id * 2 ^ page_shift a \<le> obj"
      "obj < allocator_address a + page_id * 2 ^ page_shift a + 2 ^ page_shift a"
      "64 dvd obj - (allocator_address a + page_id * 2 ^ page_shift a)"
  shows "object_slot a Mt obj" "(obj - allocator_address a) div 2 ^ page_shift a = page_id"
proof -
  let ?s = "2 ^ page_shift a :: nat"
  define r where "r = obj - (allocator_address a + page_id * ?s)"
  have o: "obj = allocator_address a + (page_id * ?s + r)" "r < ?s" "64 dvd r"
    using obj by (simp_all add: r_def)
  show q: "(obj - allocator_address a) div ?s = page_id" using o by simp
  have "(64 :: nat) dvd ?s" using g le_imp_power_dvd [of 6 "page_shift a" "2 :: nat"]
    by (simp add: geometry_def)
  then have "64 dvd page_id * ?s + r" using o(3) by simp
  with q o(1) assms(2) show "object_slot a Mt obj" by (simp add: object_slot_def)
qed

lemma objects_ok_new_page:
  assumes ok: "objects_ok a Mt M" and g: "geometry a" and new: "page_id \<notin># Mt"
    and objs: "distinct objs" "\<forall>obj \<in> set objs. s \<le> obj \<and> obj + 64 < s + 2 ^ page_shift a \<and> 64 dvd obj - s"
    and s: "s = allocator_address a + page_id * 2 ^ page_shift a"
  shows "objects_ok a (add_mset page_id Mt) (mset objs + M)"
proof -
  have slot: "object_slot a (add_mset page_id Mt) obj"
    "(obj - allocator_address a) div 2 ^ page_shift a = page_id" if "obj \<in> set objs" for obj
    using slot_in_page [OF g, of page_id "add_mset page_id Mt" obj] objs(2) that s by auto
  have "obj \<notin># M" if "obj \<in> set objs" for obj
    using slot(2) [OF that] ok new by (auto simp: objects_ok_def object_slot_def)
  then have "count (mset objs + M) obj \<le> 1" for obj
    using ok objs(1) by (cases "obj \<in> set objs")
      (auto simp: objects_ok_def distinct_count_atmost_1 count_eq_zero_iff not_in_iff [symmetric])
  moreover have "object_slot a (add_mset page_id Mt) obj" if "obj \<in># M" for obj
    using ok that by (auto simp: objects_ok_def intro: object_slot_mono)
  ultimately show ?thesis using slot(1) by (auto simp: objects_ok_def)
qed

lemma get_union_object_cases:
  assumes inv: "alloc_inv a Mt L Ob"
  obtains (full) a' where "get_union_object a = Some (None, a')" "same_memory a a'"
      "alloc_inv a' Mt L Ob" "page_bitset a' = page_bitset a"
      "\<And>q. \<not> free_range (page_bitset a) (n_pages_capacity a) 1 q"
  | (object) a' Mt' obj where "get_union_object a = Some (Some obj, a')" "same_memory a a'"
      "Mt \<subseteq># Mt'" "alloc_inv a' Mt' L (add_mset obj Ob)"
proof (cases "free_objects a")
  case (Cons obj rest)
  then have "alloc_inv (a\<lparr>free_objects := rest\<rparr>) Mt L (add_mset obj Ob)"
    using inv by (simp add: alloc_inv_def used_pages_def geometry_def objects_ok_def object_slot_def)
  then show thesis
    using Cons by (intro object [of obj _ Mt]) (auto simp: get_union_object_def same_memory_def)
next
  case Nil
  have claim: "track_bitset_find_and_set a = claim_pages a 1" by (simp add: claim_pages_def)
  show thesis
  proof (cases rule: claim_pages_cases [OF inv, of 1])
    case none: (2 a')
    then show thesis
      by (intro full [of a']) (auto simp: get_union_object_def Nil claim same_objects_def same_memory_def)
  next
    case page: (3 a' page_id)
    define s where "s = allocator_address a' + page_id * 2 ^ page_shift a'"
    define f where "f = fill_with_union_objects a' (page_size a') s"
    have sm: "same_memory a a'" and free: "free_objects a' = []"
      using page(2) Nil by (simp_all add: same_objects_def)
    note d = alloc_invD [OF page(5)]
    have g: "geometry a'" by (rule d)
    have ps: "page_size a' = 2 ^ page_shift a'" "64 < page_size a'"
      using page_size_eq [OF g] g power_increasing [of 7 "page_shift a'" "2 :: nat"]
      by (auto simp: geometry_def)
    obtain objs where objs: "f = a'\<lparr>free_objects := objs @ free_objects a'\<rparr>" "distinct objs" "objs \<noteq> []"
      "\<forall>obj \<in> set objs. s \<le> obj \<and> obj + 64 < s + 2 ^ page_shift a' \<and> 64 dvd obj - s"
      using fill_objects [of a' "page_size a'" s] ps unfolding f_def by auto
    have new: "page_id \<notin># Mt"
    proof
      assume "page_id \<in># Mt"
      then have "page_id \<in># used_pages a" using alloc_invD(3) [OF inv] by simp
      then show False using page(6) by (simp add: used_pages_def members_def)
    qed
    obtain obj rest where ob: "objs = obj # rest" using objs(3) by (cases objs) auto
    define b where "b = f\<lparr>n_pages_maintenance := n_pages_maintenance f + 1, free_objects := rest\<rparr>"
    have "u32_shl page_id (page_shift a') = page_id * 2 ^ page_shift a'"
      using u32_shl_page [OF g, of page_id] page(3) sm by (simp add: same_memory_def)
    then have "get_union_object a = Some (Some obj, b)"
      using page(1,3) sm objs(1) ob
      by (simp add: get_union_object_def Nil claim same_memory_def f_def s_def b_def free Let_def)
    moreover have "same_memory a b" using sm objs(1) by (simp add: b_def same_memory_def)
    moreover have "alloc_inv b (add_mset page_id Mt) L (add_mset obj Ob)"
      using page(5) objects_ok_new_page [OF d(4) g new objs(2,4) s_def] ob
      by (simp add: alloc_inv_def b_def objs(1) used_pages_def geometry_def objects_ok_def
          object_slot_def free)
    ultimately show thesis by (intro object [of obj b "add_mset page_id Mt"]) auto
  qed simp
qed

lemma put_union_object_inv:
  "alloc_inv a Mt L (add_mset obj Ob) \<Longrightarrow> alloc_inv (put_union_object a obj) Mt L Ob"
  by (simp add: alloc_inv_def put_union_object_def used_pages_def geometry_def objects_ok_def
      object_slot_def)

lemma put_union_object_same [simp]: "same_memory a (put_union_object a' obj) = same_memory a a'"
  by (simp add: same_memory_def put_union_object_def)

lemma put_union_object_sel [simp]: "page_bitset (put_union_object a obj) = page_bitset a"
  "allocator_address (put_union_object a obj) = allocator_address a"
  "page_shift (put_union_object a obj) = page_shift a"
  "n_pages_capacity (put_union_object a obj) = n_pages_capacity a"
  "locked (put_union_object a obj) = locked a"
  by (simp_all add: put_union_object_def)

section \<open>Pages\<close>

lemma free_range_one: "free_range ws n order q \<Longrightarrow> 0 < order \<Longrightarrow> free_range ws n 1 q"
  by (auto simp: free_range_def disjoint_iff)

lemma get_page_cases:
  assumes inv: "alloc_inv a Mt L Ob" and order: "0 < order"
  obtains (full) a' Mt' where "get_page a order = Some (None, a')" "same_memory a a'"
      "Mt \<subseteq># Mt'" "alloc_inv a' Mt' L Ob"
      "\<And>q. \<not> free_range (page_bitset a') (n_pages_capacity a) order q"
  | (page) a' Mt' p where "get_page a order = Some (Some p, a')" "same_memory a a'" "Mt \<subseteq># Mt'"
      "alloc_inv a' Mt' (L + page_ids a' p) (add_mset (page_object p) Ob)" "page_wf a' p"
      "get_page_order a' p = order" "memory_current_address p = memory_start_address p"
proof (cases rule: get_union_object_cases [OF inv])
  case none: (1 a')
  show thesis
  proof (rule full [of a' Mt])
    show "\<not> free_range (page_bitset a') (n_pages_capacity a) order q" for q
      using none(4,5) free_range_one [OF _ order] by auto
  qed (use none in \<open>auto simp: get_page_def\<close>)
next
  case object: (2 b Mt' obj)
  have gp: "get_page a order = claim_pages b order \<bind> (\<lambda>(page_id, c).
      if page_id \<ge> n_pages_capacity c then Some (None, put_union_object c obj)
      else Some (Some (init_page c obj page_id order), c))"
    by (simp add: get_page_def object(1) claim_pages_def)
  show thesis
  proof (cases rule: claim_pages_cases [OF object(4) order])
    case none: (1 c)
    have "same_memory a c" using object(2) none(2) by (auto simp: same_objects_def same_memory_def)
    then show thesis
      using none object(2,3)
      by (intro full [of "put_union_object c obj" Mt'])
        (auto simp: gp same_memory_def intro: put_union_object_inv)
  next
    case claimed: (2 c page_id)
    have sm: "same_memory b c" "same_memory a c"
      using object(2) claimed(2) by (auto simp: same_objects_def same_memory_def)
    then have cap: "page_id + order \<le> n_pages_capacity c" "page_id < n_pages_capacity c"
      using claimed(3,4) by (simp_all add: same_memory_def)
    have g: "geometry c" using alloc_invD(1) [OF claimed(5)] .
    define p where "p = init_page c obj page_id order"
    note at = init_page_at [OF g cap(1) order, of obj, folded p_def]
    have ids: "get_page_id c p = page_id" "get_page_order c p = order"
      using page_at_id_order [OF g at(1)] .
    then have "alloc_inv c Mt' (L + page_ids c p) (add_mset (page_object p) Ob)"
      using claimed(5) by (simp add: page_ids_def p_def)
    moreover have "get_page a order = Some (Some p, c)" using gp claimed(1) cap by (simp add: p_def)
    ultimately show thesis using sm(2) object(3) page_at_wf [OF g at(1)] ids(2) at(2) by (intro page)
  qed
qed

lemma put_page_inv:
  assumes inv: "alloc_inv a Mt (L + page_ids a p) (add_mset (page_object p) Ob)"
    and wf: "page_wf a p"
  obtains a' where "put_page a p = Some a'" "same_memory a a'" "alloc_inv a' Mt L Ob"
proof -
  define n i order where "n = n_pages_capacity a" and "i = get_page_id a p"
    and "order = get_page_order a p"
  note d = alloc_invD [OF inv]
  have ok: "bitset_ok (page_bitset a) n" using d(2) by (simp add: n_def)
  have used: "members (page_bitset a) n = (Mt + L) + mset_set {i..<i + order}"
    using d(3) by (simp add: used_pages_def page_ids_def n_def i_def order_def)
  have b: "i + order \<le> n" "0 < order"
    using wf by (simp_all add: page_wf_def page_at_def n_def i_def order_def)
  define release where "release = (if order = 1 then bitset_clear (page_bitset a) n i
      else bitset_clear_range (page_bitset a) n i order)"
  have "\<exists>ws'. release = Some ws' \<and> members ws' n = Mt + L \<and> bitset_ok ws' n"
  proof (cases "order = 1")
    case True
    then show ?thesis using one_page.release_members [OF ok, of i "Mt + L"] b used
      by (simp add: release_def)
  next
    case False
    obtain k where "order = Suc k" using b(2) by (cases order) auto
    with False show ?thesis
      using page_run.release_members [OF ok, of i k "Mt + L"] b used by (simp add: release_def)
  qed
  then obtain ws' where ws': "release = Some ws'" "members ws' n = Mt + L" "bitset_ok ws' n" by blast
  define c where "c = a\<lparr>page_bitset := ws', n_pages_allocated := n_pages_allocated a - of_nat order\<rparr>"
  have "put_page a p = Some (put_union_object c (page_object p))"
    using ws'(1) by (auto simp: put_page_def release_def c_def track_bitset_clear_def
        track_bitset_clear_range_def i_def order_def n_def Let_def split: if_splits)
  moreover have "same_objects a c" by (simp add: same_objects_def same_memory_def c_def)
  then have "alloc_inv c Mt L (add_mset (page_object p) Ob)" "same_memory a c"
    using ws' by (auto intro: alloc_inv_transfer [OF inv] simp: c_def n_def same_objects_def)
  ultimately show thesis by (intro that [of "put_union_object c (page_object p)"])
    (simp_all add: put_union_object_inv)
qed

definition list_ids :: "allocator \<Rightarrow> page list \<Rightarrow> nat multiset" where
  "list_ids a ps = sum_list (map (page_ids a) ps)"

lemma list_ids_simps [simp]: "list_ids a [] = {#}" "list_ids a (p # ps) = page_ids a p + list_ids a ps"
  "list_ids a (ps @ qs) = list_ids a ps + list_ids a qs"
  by (simp_all add: list_ids_def)

lemma same_memory_list_ids:
  assumes "same_memory a b"
  shows "list_ids b ps = list_ids a ps"
proof -
  have "page_ids b = page_ids a" by (rule ext) (rule same_memory_pages(4) [OF assms])
  then show ?thesis by (simp add: list_ids_def)
qed

lemma put_pages_inv:
  assumes "alloc_inv a Mt (L + list_ids a ps) (mset (map page_object ps) + Ob)"
    and "\<forall>p \<in> set ps. page_wf a p"
  shows "\<exists>a'. put_pages a ps = Some a' \<and> same_memory a a' \<and> alloc_inv a' Mt L Ob"
  using assms
proof (induction ps arbitrary: a)
  case (Cons p ps)
  have "alloc_inv a Mt ((L + list_ids a ps) + page_ids a p)
      (add_mset (page_object p) (mset (map page_object ps) + Ob))"
    using Cons.prems(1) by (simp add: ac_simps)
  then obtain b where b: "put_page a p = Some b" "same_memory a b"
    "alloc_inv b Mt (L + list_ids a ps) (mset (map page_object ps) + Ob)"
    using Cons.prems(2) by (auto elim: put_page_inv)
  have "list_ids b ps = list_ids a ps" "\<forall>p \<in> set ps. page_wf b p"
    using Cons.prems(2) by (simp_all add: same_memory_list_ids [OF b(2)] same_memory_pages [OF b(2)])
  then obtain a' where "put_pages b ps = Some a'" "same_memory b a'" "alloc_inv a' Mt L Ob"
    using Cons.IH [of b] b(3) by auto
  then show ?case using b same_memory_trans by auto
qed auto

end
