(* ===== verification/Scorep_Allocator_Managers.thy ===== *)
theory Scorep_Allocator_Managers
  imports Scorep_Allocator_Pages
begin

text \<open>
  The lemmas on page managers. \<open>manager_ok Mt L Ob a m\<close> is the invariant of one manager \<open>m\<close> of
  the allocator \<open>a\<close>, where \<open>L\<close> and \<open>Ob\<close> are the pages and objects of all the other
  managers; every operation keeps it with the same \<open>L\<close> and \<open>Ob\<close>, which is what the other
  managers need.
\<close>

section \<open>What the allocator relies on from the build\<close>

definition build_ok :: "build \<Rightarrow> bool" where
  "build_ok B \<longleftrightarrow>
     (\<forall>x k. x \<le> ROUNDUPTO B x (2 ^ k) \<and> ROUNDUPTO B x (2 ^ k) < x + 2 ^ k
        \<and> 2 ^ k dvd ROUNDUPTO B x (2 ^ k))
     \<and> (\<exists>k \<le> 6. ALLOCATOR_ALIGNMENT B = 2 ^ k)"

definition roundup_build :: build where
  "roundup_build = \<lparr>ROUNDUPTO = \<lambda>x to. (x + (to - 1)) div to * to, ALLOCATOR_ALIGNMENT = 8\<rparr>"

lemma roundup_build_ok: "build_ok roundup_build"
proof -
  have "x \<le> (x + (n - 1)) div n * n \<and> (x + (n - 1)) div n * n < x + n" if "0 < n" for x n :: nat
  proof -
    have e: "(x + (n - 1)) div n * n + (x + (n - 1)) mod n = x + (n - 1)" by simp
    have "(x + (n - 1)) mod n < n" using that by simp
    with e show ?thesis using that by linarith
  qed
  then show ?thesis
    by (auto simp: build_ok_def roundup_build_def intro!: exI [of _ 3])
qed

text \<open>A power of two, as the code tests it.\<close>

lemma power_of_two_test:
  assumes "0 < x" "x AND (x - 1) = (0 :: nat)"
  shows "\<exists>k. x = 2 ^ k"
  using assms
proof (induction x rule: less_induct)
  case (less x)
  consider "x = 1" | y where "x = 2 * y" "0 < y" | y where "x = 2 * y + 1" "0 < y"
    using less.prems(1) by (cases "even x") (auto elim!: evenE oddE, metis gr0I)
  then show ?case
  proof cases
    case 1
    then show ?thesis by (intro exI [of _ 0]) simp
  next
    case (2 y)
    have p: "x - 1 = 2 * (y - 1) + 1" using 2 by simp
    have "x AND (x - 1) = x AND (2 * (y - 1) + 1)" by (simp only: p)
    also have "\<dots> = 2 * y AND (2 * (y - 1) + 1)" by (simp only: 2(1))
    also have "\<dots> = 2 * (y AND (y - 1))"
      by (simp only: and_rec [of "2 * y" "2 * (y - 1) + 1"]) simp
    finally have "x AND (x - 1) = 2 * (y AND (y - 1))" .
    with less.prems(2) have "y AND (y - 1) = 0" by simp
    then obtain k where "y = 2 ^ k" using less.IH [of y] 2 by auto
    with 2 show ?thesis by (intro exI [of _ "Suc k"]) simp
  next
    case (3 y)
    have "x AND (x - 1) = 2 * y" unfolding 3(1) by (simp add: and_rec [of "Suc (2 * y)"])
    with less.prems(2) 3(2) show ?thesis by simp
  qed
qed

section \<open>Managers\<close>

definition manager_pages :: "page_manager \<Rightarrow> page list" where
  "manager_pages m = pages_in_use_list m
     @ (case moved_page_id_mapping_page m of None \<Rightarrow> [] | Some p \<Rightarrow> [p])"

definition manager_objects :: "page_manager \<Rightarrow> nat multiset" where
  "manager_objects m = add_mset (manager_object m) (mset (map page_object (manager_pages m)))"

definition in_use :: "page_manager \<Rightarrow> nat set" where
  "in_use m = (\<Union>p \<in> set (manager_pages m). {memory_start_address p..<memory_current_address p})"

definition manager_wf :: "allocator \<Rightarrow> page_manager \<Rightarrow> bool" where
  "manager_wf a m \<longleftrightarrow> (\<forall>p \<in> set (manager_pages m). page_wf a p)
     \<and> (\<forall>p. moved_page_id_mapping_page m = Some p \<longrightarrow>
          length (moved_page_id_mapping m) = n_pages_capacity a
          \<and> get_page_usage p = 4 * n_pages_capacity a)
     \<and> (last_allocation m \<noteq> 0
          \<longrightarrow> (\<exists>p \<in> set (pages_in_use_list m).
                memory_start_address p \<le> allocator_address a + last_allocation m
                \<and> allocator_address a + last_allocation m < memory_current_address p))"

definition manager_ok ::
  "nat multiset \<Rightarrow> nat multiset \<Rightarrow> nat multiset \<Rightarrow> allocator \<Rightarrow> page_manager \<Rightarrow> bool" where
  "manager_ok Mt L Ob a m \<longleftrightarrow>
     alloc_inv a Mt (list_ids a (manager_pages m) + L) (manager_objects m + Ob)
     \<and> manager_wf a m \<and> 0 \<in># Mt"

lemma manager_pages_simps [simp]:
  "manager_pages (m\<lparr>pages_in_use_list := p # pages_in_use_list m\<rparr>) = p # manager_pages m"
  "manager_pages (m\<lparr>last_allocation := x\<rparr>) = manager_pages m"
  by (simp_all add: manager_pages_def)

subsection \<open>Distinct pages do not overlap\<close>

lemma used_pages_count:
  assumes "alloc_inv a Mt L Ob"
  shows "count (Mt + L) x \<le> 1"
proof -
  have "Mt + L = mset_set (bits (page_bitset a) \<inter> {..<n_pages_capacity a})"
    using alloc_invD(3) [OF assms] by (simp add: used_pages_def members_def)
  then show ?thesis by (simp add: count_mset_set')
qed

lemma page_range:
  "page_wf a p \<Longrightarrow> memory_start_address p = allocator_address a + get_page_id a p * 2 ^ page_shift a
    \<and> memory_end_address p
      = allocator_address a + (get_page_id a p + get_page_order a p) * 2 ^ page_shift a
    \<and> memory_start_address p \<le> memory_current_address p
    \<and> memory_current_address p \<le> memory_end_address p
    \<and> get_page_id a p + get_page_order a p \<le> n_pages_capacity a \<and> 0 < get_page_order a p"
  by (simp add: page_wf_def page_at_def)

lemma page_id_set [simp]:
  "set_mset (page_ids a p) = {get_page_id a p..<get_page_id a p + get_page_order a p}"
  by (simp add: page_ids_def)

lemma pages_disjoint:
  assumes inv: "alloc_inv a Mt L Ob" and sub: "page_ids a p + page_ids a q \<subseteq># L"
    and wf: "page_wf a p" "page_wf a q"
  shows "{memory_start_address p..<memory_end_address p}
    \<inter> {memory_start_address q..<memory_end_address q} = {}"
proof (rule ccontr)
  assume "\<not> ?thesis"
  then obtain x where x: "memory_start_address p \<le> x" "x < memory_end_address p"
    "memory_start_address q \<le> x" "x < memory_end_address q"
    by (auto simp del: Int_atLeastLessThan)
  define y where "y = (x - allocator_address a) div 2 ^ page_shift a"
  have "y \<in># page_ids a r" if "page_wf a r" "memory_start_address r \<le> x" "x < memory_end_address r" for r
  proof -
    have "get_page_id a r * 2 ^ page_shift a \<le> x - allocator_address a"
      "x - allocator_address a < (get_page_id a r + get_page_order a r) * 2 ^ page_shift a"
      using page_range [OF that(1)] that(2,3) by linarith+
    then show ?thesis
      by (simp add: y_def less_eq_div_iff_mult_less_eq div_less_iff_less_mult)
  qed
  then have "y \<in># page_ids a p" "y \<in># page_ids a q" using x wf by blast+
  then have "2 \<le> count (page_ids a p + page_ids a q) y"
    using count_greater_zero_iff [of "page_ids a p" y] count_greater_zero_iff [of "page_ids a q" y]
    by (simp del: count_greater_zero_iff page_id_set)
  also have "\<dots> \<le> count (Mt + L) y" using mset_subset_eq_count [OF sub, of y] by simp
  finally show False using used_pages_count [OF inv, of y] by simp
qed

lemma live_page_id_pos:
  assumes "alloc_inv a Mt L Ob" "0 \<in># Mt" "page_ids a p \<subseteq># L" "page_wf a p"
  shows "0 < get_page_id a p"
proof (rule ccontr)
  assume "\<not> 0 < get_page_id a p"
  then have "0 \<in># page_ids a p" using page_range [OF assms(4)] by simp
  then have "0 \<in># L" using assms(3) by (rule mset_subset_eqD [rotated])
  then show False using used_pages_count [OF assms(1), of 0] assms(2)
    using count_greater_zero_iff [of L 0] count_greater_zero_iff [of Mt 0]
    by (simp del: count_greater_zero_iff)
qed

lemma list_ids_mem: "p \<in> set ps \<Longrightarrow> page_ids a p \<subseteq># list_ids a ps"
  by (induction ps) (auto intro: subset_mset.add_increasing subset_mset.add_increasing2)

section \<open>Grabbing memory from a page\<close>

definition grabbed :: "page \<Rightarrow> nat \<Rightarrow> nat \<Rightarrow> nat \<Rightarrow> page \<Rightarrow> bool" where
  "grabbed p n alignment memory p' \<longleftrightarrow> alignment dvd memory
     \<and> memory_current_address p \<le> memory \<and> memory_current_address p' = memory + n
     \<and> memory + n \<le> memory_end_address p
     \<and> page_object p' = page_object p \<and> memory_start_address p' = memory_start_address p
     \<and> memory_end_address p' = memory_end_address p"

lemma grab_page_memory_grabbed:
  assumes "build_ok B" "grab_page_memory B p n (2 ^ k) = Some (memory, p')"
  shows "grabbed p n (2 ^ k) memory p'"
proof -
  have "2 ^ k dvd ROUNDUPTO B (memory_current_address p) (2 ^ k)"
    "memory_current_address p \<le> ROUNDUPTO B (memory_current_address p) (2 ^ k)"
    using assms(1) by (auto simp: build_ok_def)
  then show ?thesis
    using assms(2) by (auto simp: grab_page_memory_def grabbed_def Let_def split: if_splits)
qed

text \<open>A fresh page satisfies any request that its order covers: its start is aligned.\<close>

lemma roundup_aligned:
  assumes "build_ok B" "2 ^ k dvd x"
  shows "ROUNDUPTO B x (2 ^ k) = x"
proof -
  define y where "y = ROUNDUPTO B x (2 ^ k)"
  have r: "x \<le> y" "y < x + 2 ^ k" "2 ^ k dvd y" using assms(1) by (auto simp: build_ok_def y_def)
  have "2 ^ k dvd y - x" using r(3) assms(2) by (rule dvd_diff_nat)
  moreover have "y - x < 2 ^ k" using r(1,2) by simp
  ultimately have "y - x = 0" by (meson gr0I nat_dvd_not_less)
  with r(1) show ?thesis by (simp add: y_def)
qed

lemma grab_fresh_page:
  assumes "build_ok B" "geometry a" "page_wf a p"
    and "memory_current_address p = memory_start_address p" "k \<le> page_shift a"
    and n: "n \<le> get_page_order a p * 2 ^ page_shift a"
  shows "\<exists>p'. grab_page_memory B p n (2 ^ k) = Some (memory_start_address p, p')"
proof -
  note r = page_range [OF assms(3)]
  have "(2 :: nat) ^ k dvd 2 ^ page_shift a" using assms(5) by (rule le_imp_power_dvd)
  moreover have "2 ^ page_shift a dvd memory_start_address p"
    using assms(2) r by (auto simp: geometry_def)
  ultimately have "ROUNDUPTO B (memory_start_address p) (2 ^ k) = memory_start_address p"
    by (intro roundup_aligned [OF assms(1)]) (rule dvd_trans)
  moreover have "memory_start_address p + n \<le> memory_end_address p"
    using n r by (simp add: algebra_simps)
  ultimately show ?thesis
    using assms(4) by (simp add: grab_page_memory_def Let_def)
qed

lemma grabbed_ids:
  assumes "grabbed p n alignment memory p'" "page_wf a p"
  shows "page_ids a p' = page_ids a p" "page_wf a p'" "get_page_order a p' = get_page_order a p"
proof -
  have id: "get_page_id a p' = get_page_id a p" "get_page_order a p' = get_page_order a p"
    using assms(1) by (simp_all add: grabbed_def get_page_id_def get_page_order_def get_page_length_def)
  then show "page_ids a p' = page_ids a p" "get_page_order a p' = get_page_order a p"
    by (simp_all add: page_ids_def)
  show "page_wf a p'"
    unfolding page_wf_def id using assms by (auto simp: page_wf_def page_at_def grabbed_def)
qed

lemma search_pages_Some:
  assumes "build_ok B" "search_pages B ps n (2 ^ k) = Some (memory, ps')"
  obtains pre p post p' where "ps = pre @ p # post" "ps' = pre @ p' # post"
    "grabbed p n (2 ^ k) memory p'"
  using assms(2)
proof (induction ps arbitrary: ps' thesis)
  case (Cons q qs)
  show ?case
  proof (cases "grab_page_memory B q n (2 ^ k)")
    case None
    then obtain qs' where qs': "search_pages B qs n (2 ^ k) = Some (memory, qs')" "ps' = q # qs'"
      using Cons.prems(2) by (auto split: option.splits)
    obtain pre p post p' where "qs = pre @ p # post" "qs' = pre @ p' # post"
      "grabbed p n (2 ^ k) memory p'"
      using Cons.IH [OF _ qs'(1)] .
    then show ?thesis using qs'(2) by (intro Cons.prems(1) [of "q # pre"]) auto
  next
    case (Some x)
    then obtain q' where "grab_page_memory B q n (2 ^ k) = Some (memory, q')" "ps' = q' # qs"
      using Cons.prems(2) by (cases x) auto
    then show ?thesis
      using grab_page_memory_grabbed [OF assms(1)] by (intro Cons.prems(1) [of "[]"]) auto
  qed
qed simp

section \<open>The effect of a grab on a manager\<close>

definition allocated_block :: "allocator \<Rightarrow> page_manager \<Rightarrow> nat \<Rightarrow> nat \<Rightarrow> nat \<Rightarrow> page_manager \<Rightarrow> bool"
  where
  "allocated_block a m n alignment memory m' \<longleftrightarrow> alignment dvd memory
     \<and> {memory..<memory + n} \<inter> in_use m = {} \<and> in_use m \<union> {memory..<memory + n} \<subseteq> in_use m'
     \<and> (\<exists>p \<in> set (pages_in_use_list m'). memory_start_address p \<le> memory
          \<and> memory_current_address p = memory + n)"

lemma manager_ok_grab:
  assumes ok: "manager_ok Mt L Ob a m" and m: "pages_in_use_list m = pre @ p # post"
    and g: "grabbed p n alignment memory p'"
    and m': "m' = m\<lparr>pages_in_use_list := pre @ p' # post\<rparr>"
  shows "manager_ok Mt L Ob a m'" "allocated_block a m n alignment memory m'"
    "list_ids a (manager_pages m') = list_ids a (manager_pages m)"
proof -
  define rest where "rest = pre @ post @ (case moved_page_id_mapping_page m of None \<Rightarrow> [] | Some p \<Rightarrow> [p])"
  have pages: "set (manager_pages m) = insert p (set rest)" "set (manager_pages m') = insert p' (set rest)"
    by (auto simp: manager_pages_def m m' rest_def)
  have ids: "list_ids a (manager_pages m) = page_ids a p + list_ids a rest"
    by (simp add: manager_pages_def m rest_def ac_simps)
  have wf: "page_wf a p" "\<forall>q \<in> set rest. page_wf a q" and inv:
    "alloc_inv a Mt (list_ids a (manager_pages m) + L) (manager_objects m + Ob)"
    using ok pages(1) by (auto simp: manager_ok_def manager_wf_def)
  note gi = grabbed_ids [OF g wf(1)]
  show same_ids: "list_ids a (manager_pages m') = list_ids a (manager_pages m)"
    by (simp add: manager_pages_def m m' gi(1))
  have "manager_objects m' = manager_objects m"
    using g by (simp add: manager_objects_def manager_pages_def m m' grabbed_def)
  moreover have cur: "memory_start_address p' = memory_start_address p"
    "memory_current_address p \<le> memory_current_address p'"
    using g by (auto simp: grabbed_def)
  have "manager_wf a m'"
    using ok wf gi(2) pages cur unfolding manager_ok_def manager_wf_def m'
    by (auto simp: m intro: order_less_le_trans)
  ultimately show "manager_ok Mt L Ob a m'"
    using ok same_ids by (simp add: manager_ok_def)
  have "{memory..<memory + n} \<subseteq> {memory_start_address p..<memory_end_address p}"
    using g page_range [OF wf(1)] by (auto simp: grabbed_def)
  moreover have "{memory_start_address p..<memory_end_address p}
      \<inter> {memory_start_address q..<memory_end_address q} = {}" if "q \<in> set rest" for q
  proof (rule pages_disjoint [OF inv _ wf(1)])
    show "page_ids a p + page_ids a q \<subseteq># list_ids a (manager_pages m) + L"
      unfolding ids using list_ids_mem [OF that] by (simp add: subset_mset.add_increasing2)
  qed (use wf(2) that in simp)
  moreover have "{memory_start_address q..<memory_current_address q}
      \<subseteq> {memory_start_address q..<memory_end_address q}" if "q \<in> set rest" for q
    using page_range [of a q] wf(2) that by auto
  ultimately have "{memory..<memory + n} \<inter> {memory_start_address q..<memory_current_address q} = {}"
    if "q \<in> set rest" for q using that by blast
  moreover have "{memory..<memory + n} \<inter> {memory_start_address p..<memory_current_address p} = {}"
    using g by (auto simp: grabbed_def)
  ultimately have "{memory..<memory + n} \<inter> in_use m = {}"
    by (auto simp: in_use_def pages simp del: Int_atLeastLessThan)
  moreover have "in_use m \<union> {memory..<memory + n} \<subseteq> in_use m'"
    using g page_range [OF wf(1)] by (auto simp: in_use_def pages grabbed_def)
  ultimately show "allocated_block a m n alignment memory m'"
    using g page_range [OF wf(1)] by (auto simp: allocated_block_def m' grabbed_def)
qed

section \<open>Requesting a page\<close>

lemma same_memory_manager_wf: "same_memory a a' \<Longrightarrow> manager_wf a' m = manager_wf a m"
  using same_memory_pages(3) [of a a'] by (simp add: manager_wf_def same_memory_def)

lemma same_memory_lock [simp]:
  "lock_allocator a = Some b \<Longrightarrow> same_memory b c \<Longrightarrow> same_memory a (c\<lparr>locked := locked a\<rparr>)"
  by (auto simp: lock_allocator_def same_memory_def split: if_splits)

lemma alloc_inv_locked [simp]: "alloc_inv (a\<lparr>locked := x\<rparr>) Mt L Ob = alloc_inv a Mt L Ob"
  by (simp add: alloc_inv_def geometry_def used_pages_def objects_ok_def object_slot_def)

lemma page_locked [simp]:
  "page_wf (a\<lparr>locked := x\<rparr>) p = page_wf a p" "page_ids (a\<lparr>locked := x\<rparr>) p = page_ids a p"
  "get_page_order (a\<lparr>locked := x\<rparr>) p = get_page_order a p"
  "get_page_id (a\<lparr>locked := x\<rparr>) p = get_page_id a p"
  by (simp_all add: page_wf_def page_at_def get_page_id_def get_page_order_def page_ids_def)

lemma list_ids_locked [simp]: "list_ids (a\<lparr>locked := x\<rparr>) ps = list_ids a ps"
proof -
  have "page_ids (a\<lparr>locked := x\<rparr>) = page_ids a" by (rule ext) simp
  then show ?thesis by (simp add: list_ids_def)
qed

text \<open>What a locked call of \<open>get_page\<close> does.\<close>

lemma locked_get_page_cases:
  assumes inv: "alloc_inv a Mt L Ob" and un: "\<not> locked a" and order: "0 < order"
  obtains (full) b a' Mt' where "lock_allocator a = Some b" "get_page b order = Some (None, a')"
      "unlock_allocator a' = Some (a'\<lparr>locked := False\<rparr>)"
      "same_memory a (a'\<lparr>locked := False\<rparr>)" "Mt \<subseteq># Mt'" "alloc_inv a' Mt' L Ob" "locked a'"
      "\<And>q. \<not> free_range (page_bitset a') (n_pages_capacity a) order q"
  | (page) b a' Mt' p where "lock_allocator a = Some b" "get_page b order = Some (Some p, a')"
      "unlock_allocator a' = Some (a'\<lparr>locked := False\<rparr>)"
      "same_memory a (a'\<lparr>locked := False\<rparr>)" "Mt \<subseteq># Mt'"
      "alloc_inv a' Mt' (L + page_ids a' p) (add_mset (page_object p) Ob)" "page_wf a' p"
      "get_page_order a' p = order" "memory_current_address p = memory_start_address p"
proof -
  define b where "b = a\<lparr>locked := True\<rparr>"
  have lock: "lock_allocator a = Some b" using un by (simp add: lock_allocator_def b_def)
  have b: "alloc_inv b Mt L Ob" using inv by (simp add: b_def)
  have un': "unlock_allocator a' = Some (a'\<lparr>locked := False\<rparr>)"
    "same_memory a (a'\<lparr>locked := False\<rparr>)" "locked a'" if "same_memory b a'" for a'
    using that un by (simp_all add: unlock_allocator_def same_memory_def b_def)
  show thesis
  proof (cases rule: get_page_cases [OF b order])
    case none: (1 a' Mt')
    show thesis using none un' [OF none(2)] by (intro full [OF lock]) (auto simp: b_def)
  next
    case p: (2 a' Mt' p)
    show thesis using p un' [OF p(2)] by (intro page [OF lock]) auto
  qed
qed

lemma get_order_same: "same_memory a b \<Longrightarrow> get_order b n = get_order a n"
  by (simp add: get_order_def page_mask_def page_size_def same_memory_def)

lemma new_page_cases:
  assumes ok: "manager_ok Mt L Ob a m" and un: "\<not> locked a" and n: "0 < n" "n < 2 ^ 32"
  obtains (full) a' Mt' where "page_manager_get_new_page a m n = Some (None, a', m)"
      "same_memory a a'" "Mt \<subseteq># Mt'" "manager_ok Mt' L Ob a' m"
      "\<And>q. \<not> free_range (page_bitset a') (n_pages_capacity a) (get_order a n) q"
  | (page) a' Mt' p m' where "page_manager_get_new_page a m n = Some (Some p, a', m')"
      "m' = m\<lparr>pages_in_use_list := p # pages_in_use_list m\<rparr>"
      "same_memory a a'" "Mt \<subseteq># Mt'" "manager_ok Mt' L Ob a' m'" "page_wf a' p"
      "get_page_order a' p = get_order a n" "memory_current_address p = memory_start_address p"
proof -
  have inv: "alloc_inv a Mt (list_ids a (manager_pages m) + L) (manager_objects m + Ob)"
    and wf: "manager_wf a m" and z: "0 \<in># Mt"
    using ok by (simp_all add: manager_ok_def)
  have order: "0 < get_order a n" by (rule get_order_covers [OF alloc_invD(1) [OF inv] n])
  show thesis
  proof (cases rule: locked_get_page_cases [OF inv un order])
    case none: (1 b a' Mt')
    have "manager_ok Mt' L Ob (a'\<lparr>locked := False\<rparr>) m"
      using none(6) wf z mset_subset_eqD [OF none(5)] same_memory_list_ids [OF none(4)]
        same_memory_manager_wf [OF none(4)]
      by (simp add: manager_ok_def)
    then show thesis
      using none by (intro full [of "a'\<lparr>locked := False\<rparr>" Mt'])
        (auto simp: page_manager_get_new_page_def)
  next
    case p: (2 b a' Mt' p)
    define m' where "m' = m\<lparr>pages_in_use_list := p # pages_in_use_list m\<rparr>"
    have "manager_wf (a'\<lparr>locked := False\<rparr>) m'"
      using wf p(7) same_memory_manager_wf [OF p(4), of m] by (auto simp: manager_wf_def m'_def)
    then have "manager_ok Mt' L Ob (a'\<lparr>locked := False\<rparr>) m'"
      using p(6) z mset_subset_eqD [OF p(5)] same_memory_list_ids [OF p(4)]
      by (simp add: manager_ok_def m'_def manager_objects_def ac_simps add_mset_commute)
    then show thesis
      using p by (intro page [of p "a'\<lparr>locked := False\<rparr>" m' Mt'])
        (auto simp: page_manager_get_new_page_def m'_def)
  qed
qed

section \<open>Allocation\<close>

lemma in_use_fresh_page:
  "memory_current_address p = memory_start_address p \<Longrightarrow>
    in_use (m\<lparr>pages_in_use_list := p # pages_in_use_list m\<rparr>) = in_use m"
  by (simp add: in_use_def)

lemma page_manager_alloc_cases:
  assumes B: "build_ok B" and ok: "manager_ok Mt L Ob a m" and un: "\<not> locked a"
    and mapping: "moved_page_id_mapping_page m = None" and n: "0 < n" and k: "k \<le> page_shift a"
  obtains (null) a' Mt' where "page_manager_alloc B a m n (2 ^ k) = Some (None, a', m)"
      "same_memory a a'" "Mt \<subseteq># Mt'" "manager_ok Mt' L Ob a' m"
      "total_memory a < n
        \<or> (\<forall>q. \<not> free_range (page_bitset a') (n_pages_capacity a) (get_order a n) q)"
  | (block) memory a' m' Mt' where "page_manager_alloc B a m n (2 ^ k) = Some (Some memory, a', m')"
      "same_memory a a'" "Mt \<subseteq># Mt'" "manager_ok Mt' L Ob a' m'"
      "allocated_block a' m n (2 ^ k) memory m'" "m' = m\<lparr>pages_in_use_list := pages_in_use_list m'\<rparr>"
proof -
  have g: "geometry a" using ok by (auto simp: manager_ok_def dest: alloc_invD(1))
  have "(2 :: nat) ^ k \<le> page_size a" using k by (simp add: page_size_eq [OF g])
  then have pma: "page_manager_alloc B a m n (2 ^ k) =
     (if n > total_memory a then Some (None, a, m)
      else case search_pages B (pages_in_use_list m) n (2 ^ k) of
       Some (memory, ps) \<Rightarrow> Some (Some memory, a, m\<lparr>pages_in_use_list := ps\<rparr>)
     | None \<Rightarrow> page_manager_get_new_page a m (n mod 2 ^ 32) \<bind> (\<lambda>(p, a, m).
         case p of
           None \<Rightarrow> Some (None, a, m)
         | Some p \<Rightarrow>
             (case grab_page_memory B p n (2 ^ k) of
                None \<Rightarrow> Some (None, a, m)
              | Some (memory, p') \<Rightarrow>
                  Some (Some memory, a, m\<lparr>pages_in_use_list := p' # tl (pages_in_use_list m)\<rparr>))))"
    using mapping n by (simp add: page_manager_alloc_def)
  show thesis
  proof (cases "n > total_memory a")
    case True
    then show thesis using ok by (intro null [of a Mt]) (auto simp: pma)
  next
    case small: False
    show thesis
    proof (cases "search_pages B (pages_in_use_list m) n (2 ^ k)")
      case (Some x)
      then obtain memory ps where s: "search_pages B (pages_in_use_list m) n (2 ^ k) = Some (memory, ps)"
        by (cases x) auto
      obtain pre p post p' where m: "pages_in_use_list m = pre @ p # post"
        "ps = pre @ p' # post" "grabbed p n (2 ^ k) memory p'"
        using search_pages_Some [OF B s] .
      note r = manager_ok_grab [OF ok m(1,3) refl, folded m(2)]
      show thesis
        using small s r(1,2)
        by (intro block [of memory a "m\<lparr>pages_in_use_list := ps\<rparr>" Mt]) (auto simp: pma)
    next
      case None
      have n32: "n < 2 ^ 32"
        using small total_memory_eq [OF g] page_bytes_bound(1) [OF g order_refl] by simp
      then have nmod: "n mod 4294967296 = n" by simp
      show thesis
      proof (cases rule: new_page_cases [OF ok un n n32])
        case full: (1 a' Mt')
        then show thesis using small None by (intro null [of a' Mt']) (auto simp: pma nmod)
      next
        case page: (2 a' Mt' p m1)
        have g': "geometry a'" using same_memory_pages(5) [OF page(3)] g by simp
        have fits: "n \<le> get_page_order a' p * 2 ^ page_shift a'"
          using get_order_covers(1) [OF g n n32] page(3,7) by (simp add: same_memory_def)
        have k': "k \<le> page_shift a'" using k page(3) by (simp add: same_memory_def)
        obtain p' where gp: "grab_page_memory B p n (2 ^ k) = Some (memory_start_address p, p')"
          using grab_fresh_page [OF B g' page(6,8) k' fits] by blast
        note gr = grab_page_memory_grabbed [OF B gp]
        have m1: "pages_in_use_list m1 = [] @ p # pages_in_use_list m" by (simp add: page(2))
        define m' where "m' = m1\<lparr>pages_in_use_list := [] @ p' # pages_in_use_list m\<rparr>"
        note r = manager_ok_grab [OF page(5) m1 gr m'_def]
        have "allocated_block a' m n (2 ^ k) (memory_start_address p) m'"
          using r(2) in_use_fresh_page [OF page(8), of m] by (simp add: allocated_block_def page(2))
        moreover have "page_manager_alloc B a m n (2 ^ k) = Some (Some (memory_start_address p), a', m')"
          using small None page(1) gp by (simp add: pma nmod m'_def page(2))
        ultimately show thesis
          using page(3,4) r(1) by (intro block) (auto simp: m'_def page(2))
      qed
    qed
  qed
qed

section \<open>Creating a manager\<close>

lemma get_page_manager_cases:
  assumes inv: "alloc_inv a Mt L Ob" and un: "\<not> locked a" and z: "0 \<in># Mt"
  obtains (full) a' where "get_page_manager a = Some (None, a')" "same_memory a a'"
      "alloc_inv a' Mt L Ob"
  | (manager) a' Mt' m where "get_page_manager a = Some (Some m, a')" "same_memory a a'"
      "Mt \<subseteq># Mt'" "manager_ok Mt' L Ob a' m" "manager_pages m = []"
      "moved_page_id_mapping_page m = None"
proof -
  define b where "b = a\<lparr>locked := True\<rparr>"
  have lock: "lock_allocator a = Some b" using un by (simp add: lock_allocator_def b_def)
  have b: "alloc_inv b Mt L Ob" using inv by (simp add: b_def)
  have un': "unlock_allocator c = Some (c\<lparr>locked := False\<rparr>) \<and> same_memory a (c\<lparr>locked := False\<rparr>)"
    if "same_memory b c" for c
    using that un by (simp add: unlock_allocator_def same_memory_def b_def)
  show thesis
  proof (cases rule: get_union_object_cases [OF b])
    case none: (1 c)
    then show thesis using un' [OF none(2)] lock
      by (intro full [of "c\<lparr>locked := False\<rparr>"]) (auto simp: get_page_manager_def)
  next
    case obj: (2 c Mt' obj)
    define m where "m = \<lparr>manager_object = obj, pages_in_use_list = [],
        moved_page_id_mapping_page = None, moved_page_id_mapping = [], last_allocation = 0\<rparr>"
    have "manager_pages m = []" "manager_objects m = {#obj#}" "manager_wf c m"
      by (simp_all add: m_def manager_pages_def manager_objects_def manager_wf_def)
    then have "manager_ok Mt' L Ob (c\<lparr>locked := False\<rparr>) m" "manager_pages m = []"
      using obj(4) mset_subset_eqD [OF obj(3) z]
      by (simp_all add: manager_ok_def manager_wf_def m_def)
    then show thesis using obj un' [OF obj(2)] lock
      by (intro manager [of m "c\<lparr>locked := False\<rparr>" Mt'])
        (auto simp: get_page_manager_def m_def)
  qed
qed

text \<open>The outcome of the two constructors: no manager and no page is lost, or a manager that
  owns its object and pages.\<close>

definition created ::
  "nat multiset \<Rightarrow> nat multiset \<Rightarrow> nat multiset \<Rightarrow> allocator \<Rightarrow> (page_manager option \<times> allocator) \<Rightarrow> bool"
  where
  "created Mt L Ob a r \<longleftrightarrow> (case r of (res, a') \<Rightarrow> same_memory a a' \<and> (\<exists>Mt'. Mt \<subseteq># Mt'
     \<and> (case res of None \<Rightarrow> alloc_inv a' Mt' L Ob | Some m \<Rightarrow> manager_ok Mt' L Ob a' m)))"

lemma CreatePageManager_created:
  assumes inv: "alloc_inv a Mt L Ob" and un: "\<not> locked a" and z: "0 \<in># Mt"
  shows "\<exists>r. CreatePageManager a = Some r \<and> created Mt L Ob a r"
proof (cases rule: get_page_manager_cases [OF inv un z])
  case (1 a')
  then show ?thesis by (auto simp: CreatePageManager_def created_def intro: exI [of _ Mt])
next
  case m: (2 a' Mt' m)
  have g: "geometry a'" using m(4) by (auto simp: manager_ok_def dest: alloc_invD(1))
  have ps: "0 < page_size a'" "page_size a' < 2 ^ 32"
    using page_size_eq [OF g] g power_strict_increasing [of "page_shift a'" 32 "2 :: nat"]
    by (auto simp: geometry_def)
  have un': "\<not> locked a'" using m(2) un by (simp add: same_memory_def)
  have ps_eq: "page_size a' = page_size a" using m(2) by (simp add: page_size_def same_memory_def)
  show ?thesis
  proof (cases rule: new_page_cases [OF m(4) un' ps])
    case (1 b Mt'')
    then show ?thesis using m same_memory_trans [OF m(2)] subset_mset.trans [OF m(3)]
      by (auto simp: CreatePageManager_def created_def)
  next
    case (2 b Mt'' p m')
    then show ?thesis using m same_memory_trans [OF m(2)] subset_mset.trans [OF m(3)]
      by (auto simp: CreatePageManager_def created_def)
  qed
qed

lemma CreateMovedPageManager_created:
  assumes B: "build_ok B" and inv: "alloc_inv a Mt L Ob" and un: "\<not> locked a" and z: "0 \<in># Mt"
    and cap: "0 < n_pages_capacity a"
  shows "\<exists>r. CreateMovedPageManager B a = Some r \<and> created Mt L Ob a r"
proof (cases rule: get_page_manager_cases [OF inv un z])
  case (1 a')
  then show ?thesis by (auto simp: CreateMovedPageManager_def created_def intro: exI [of _ Mt])
next
  case m: (2 a' Mt' m)
  have inv': "alloc_inv a' Mt' L (manager_objects m + Ob)" and wf: "manager_wf a' m"
    using m(4,5) by (simp_all add: manager_ok_def)
  have mobj: "manager_objects m = {#manager_object m#}" using m(5) by (simp add: manager_objects_def)
  have cap': "n_pages_capacity a' = n_pages_capacity a" using m(2) by (simp add: same_memory_def)
  define n where "n = 4 * n_pages_capacity a'"
  have g: "geometry a'" using inv' by (rule alloc_invD(1))
  have "n_pages_capacity a' * 2 ^ 7 \<le> n_pages_capacity a' * 2 ^ page_shift a'"
    using g by (intro mult_le_mono power_increasing) (auto simp: geometry_def)
  also have "\<dots> < 2 ^ 32" using g by (simp add: geometry_def)
  finally have n: "0 < n" "n < 2 ^ 32" using cap cap' by (simp_all add: n_def)
  have un': "\<not> locked a'" using m(2) un by (simp add: same_memory_def)
  have order: "0 < get_order a' n" by (rule get_order_covers [OF g n])
  have unfold: "CreateMovedPageManager B a = lock_allocator a' \<bind> (\<lambda>b.
      get_page b (get_order a' n) \<bind> (\<lambda>(p, c). case p of
         None \<Rightarrow> unlock_allocator (put_union_object c (manager_object m)) \<bind> (\<lambda>c. Some (None, c))
       | Some p \<Rightarrow> unlock_allocator c \<bind> (\<lambda>c.
           grab_page_memory B p n (ALLOCATOR_ALIGNMENT B) \<bind> (\<lambda>(memory, p).
             Some (Some (m\<lparr>moved_page_id_mapping_page := Some p,
                         moved_page_id_mapping := replicate (n_pages_capacity c) 0\<rparr>), c)))))"
    using n(2) by (simp add: CreateMovedPageManager_def m(1) n_def Let_def cong: option.case_cong)
  show ?thesis
  proof (cases rule: locked_get_page_cases [OF inv' un' order])
    case none: (1 b c Mt'')
    define d where "d = (put_union_object c (manager_object m))\<lparr>locked := False\<rparr>"
    have "alloc_inv d Mt'' L Ob"
      using none(6) by (simp add: d_def mobj put_union_object_inv)
    moreover have "same_memory a d" using same_memory_trans [OF m(2) none(4)]
      by (simp add: d_def same_memory_def)
    moreover have "CreateMovedPageManager B a = Some (None, d)"
      using none by (simp add: unfold d_def unlock_allocator_def)
    ultimately show ?thesis using subset_mset.trans [OF m(3) none(5)] by (auto simp: created_def)
  next
    case p: (2 b c Mt'' p)
    obtain k where k: "ALLOCATOR_ALIGNMENT B = 2 ^ k" "k \<le> 6" using B by (auto simp: build_ok_def)
    have sm: "same_memory a' (c\<lparr>locked := False\<rparr>)" by (rule p(4))
    have gc: "geometry c" using alloc_invD(1) [OF p(6)] .
    have "n \<le> get_page_order c p * 2 ^ page_shift c"
      using get_order_covers(1) [OF g n] p(8) sm by (simp add: same_memory_def)
    then obtain p' where gp: "grab_page_memory B p n (2 ^ k) = Some (memory_start_address p, p')"
      using grab_fresh_page [OF B gc p(7,9), of k n] k(2) gc by (auto simp: geometry_def)
    note gr = grab_page_memory_grabbed [OF B gp]
    define c' where "c' = c\<lparr>locked := False\<rparr>"
    define m' where "m' = m\<lparr>moved_page_id_mapping_page := Some p',
        moved_page_id_mapping := replicate (n_pages_capacity c') 0\<rparr>"
    have "pages_in_use_list m = []" using m(5) by (simp add: manager_pages_def)
    then have pages: "manager_pages m' = [p']" by (simp add: manager_pages_def m'_def)
    have "manager_objects m' = {#manager_object m, page_object p#}"
      using gr by (simp add: manager_objects_def pages grabbed_def) (simp add: m'_def)
    then have "alloc_inv c' Mt'' (page_ids c p' + L) (manager_objects m' + Ob)"
      using p(6) grabbed_ids(1) [OF gr p(7)]
      by (simp add: c'_def mobj ac_simps add_mset_commute)
    moreover have "get_page_usage p' = 4 * n_pages_capacity c'"
      using gr n(2) sm by (simp add: grabbed_def get_page_usage_def n_def c'_def same_memory_def)
    then have "manager_wf c' m'"
      using wf grabbed_ids(2) [OF gr p(7)] m(5)
      by (auto simp: manager_wf_def pages c'_def) (auto simp: m'_def c'_def manager_pages_def)
    ultimately have "manager_ok Mt'' L Ob c' m'"
      using mset_subset_eqD [OF p(5) mset_subset_eqD [OF m(3) z]]
      by (simp add: manager_ok_def pages c'_def)
    moreover have "CreateMovedPageManager B a = Some (Some m', c')"
      using p(1-3) gp by (simp add: unfold k(1) m'_def c'_def)
    ultimately show ?thesis
      using same_memory_trans [OF m(2) sm] subset_mset.trans [OF m(3) p(5)]
      by (auto simp: created_def c'_def)
  qed
qed

section \<open>Releasing pages\<close>

lemma locked_put_pages:
  assumes inv: "alloc_inv a Mt (L + list_ids a ps) (mset (map page_object ps) + Ob)"
    and wf: "\<forall>p \<in> set ps. page_wf a p" and un: "\<not> locked a"
  obtains b c where "lock_allocator a = Some b" "put_pages b ps = Some c" "same_memory b c"
    "alloc_inv c Mt L Ob" "locked c" "same_memory a (c\<lparr>locked := False\<rparr>)"
proof -
  define b where "b = a\<lparr>locked := True\<rparr>"
  have "alloc_inv b Mt (L + list_ids b ps) (mset (map page_object ps) + Ob)" "\<forall>p \<in> set ps. page_wf b p"
    using inv wf by (simp_all add: b_def)
  then obtain c where "put_pages b ps = Some c" "same_memory b c" "alloc_inv c Mt L Ob"
    using put_pages_inv by blast
  moreover have "lock_allocator a = Some b" using un by (simp add: lock_allocator_def b_def)
  moreover have "locked c" "same_memory a (c\<lparr>locked := False\<rparr>)"
    using \<open>same_memory b c\<close> un by (simp_all add: same_memory_def b_def)
  ultimately show thesis by (intro that)
qed

lemma DeletePageManager_releases:
  assumes ok: "manager_ok Mt L Ob a m" and un: "\<not> locked a"
  shows "\<exists>a'. DeletePageManager a m = Some a' \<and> same_memory a a' \<and> alloc_inv a' Mt L Ob"
proof -
  define ps where "ps = manager_pages m"
  have inv: "alloc_inv a Mt (L + list_ids a ps) (mset (map page_object ps) + add_mset (manager_object m) Ob)"
    and wf: "\<forall>p \<in> set ps. page_wf a p"
    using ok by (simp_all add: manager_ok_def manager_wf_def ps_def manager_objects_def ac_simps)
  obtain b c where c: "lock_allocator a = Some b" "put_pages b ps = Some c"
    "alloc_inv c Mt L (add_mset (manager_object m) Ob)" "locked c" "same_memory a (c\<lparr>locked := False\<rparr>)"
    using locked_put_pages [OF inv wf un] .
  have split: "put_pages x (qs @ rs) = put_pages x qs \<bind> (\<lambda>x. put_pages x rs)" for x qs rs
    by (induction qs arbitrary: x) (auto simp: bind_assoc split: option.splits)
  have "(put_pages b (pages_in_use_list m) \<bind> (\<lambda>a.
      case moved_page_id_mapping_page m of None \<Rightarrow> Some a | Some p \<Rightarrow> put_page a p)) = Some c"
    using c(2) unfolding ps_def manager_pages_def split by (simp split: option.splits)
  then have "DeletePageManager a m = Some ((put_union_object c (manager_object m))\<lparr>locked := False\<rparr>)"
    using c(1,4) by (auto simp: DeletePageManager_def unlock_allocator_def abort_simps)
  then show ?thesis
    using put_union_object_inv [OF c(3)] c(5) by (auto simp: same_memory_def)
qed

lemma Allocator_Free_releases:
  assumes ok: "manager_ok Mt L Ob a m" and un: "\<not> locked a"
  obtains a' m' where "Allocator_Free a m = Some (a', m')" "same_memory a a'"
    "manager_ok Mt L Ob a' m'" "pages_in_use_list m' = []" "manager_object m' = manager_object m"
proof -
  define ps where "ps = pages_in_use_list m"
  define qs where "qs = (case moved_page_id_mapping_page m of None \<Rightarrow> [] | Some p \<Rightarrow> [p])"
  have pages: "manager_pages m = ps @ qs" by (simp add: manager_pages_def ps_def qs_def)
  have inv: "alloc_inv a Mt ((list_ids a qs + L) + list_ids a ps)
      (mset (map page_object ps) + (add_mset (manager_object m) (mset (map page_object qs)) + Ob))"
    and wf: "\<forall>p \<in> set ps. page_wf a p"
    using ok by (simp_all add: manager_ok_def manager_wf_def pages manager_objects_def ac_simps)
  obtain b c where c: "lock_allocator a = Some b" "put_pages b ps = Some c"
    "alloc_inv c Mt (list_ids a qs + L) (add_mset (manager_object m) (mset (map page_object qs)) + Ob)"
    "locked c" "same_memory a (c\<lparr>locked := False\<rparr>)"
    using locked_put_pages [OF inv wf un] by blast
  define m' where "m' = (clear_mapping (m\<lparr>pages_in_use_list := []\<rparr>))\<lparr>last_allocation := 0\<rparr>"
  have m': "pages_in_use_list m' = []" "manager_object m' = manager_object m" "last_allocation m' = 0"
    "moved_page_id_mapping_page m' = moved_page_id_mapping_page m"
    by (simp_all add: m'_def clear_mapping_def Let_def split: option.splits)
  then have pages': "manager_pages m' = qs" by (simp add: manager_pages_def qs_def)
  have len: "length (moved_page_id_mapping m') = n_pages_capacity a"
    if "moved_page_id_mapping_page m = Some p" for p
    using ok that by (simp add: m'_def clear_mapping_def Let_def manager_ok_def manager_wf_def)
  have "manager_wf a m'"
    using ok m' len by (simp add: manager_ok_def manager_wf_def pages pages' m'(4))
  then have "manager_wf (c\<lparr>locked := False\<rparr>) m'"
    using same_memory_manager_wf [OF c(5)] by simp
  then have "manager_ok Mt L Ob (c\<lparr>locked := False\<rparr>) m'"
    using c(3) ok same_memory_list_ids [OF c(5)] m'(2)
    by (simp add: manager_ok_def pages' manager_objects_def)
  moreover have "Allocator_Free a m = Some (c\<lparr>locked := False\<rparr>, m')"
    using c(1,2,4) by (simp add: Allocator_Free_def ps_def m'_def unlock_allocator_def)
  ultimately show thesis using c(5) m' by (intro that)
qed

section \<open>Moved pages and movable memory\<close>

lemma map_pages_result:
  "movedPageId + order \<le> length mapping \<Longrightarrow> \<exists>mapping'. map_pages mapping movedPageId local order
      = Some mapping' \<and> length mapping' = length mapping
     \<and> (\<forall>i < length mapping. mapping' ! i =
          (if movedPageId \<le> i \<and> i < movedPageId + order then local + (i - movedPageId) else mapping ! i))"
proof (induction order arbitrary: mapping movedPageId local)
  case (Suc order)
  define mapping1 where "mapping1 = mapping[movedPageId := local]"
  obtain mapping' where *: "map_pages mapping1 (Suc movedPageId) (Suc local) order = Some mapping'"
    "length mapping' = length mapping"
    "\<forall>i < length mapping. mapping' ! i = (if Suc movedPageId \<le> i \<and> i < Suc movedPageId + order
        then Suc local + (i - Suc movedPageId) else mapping1 ! i)"
    using Suc.IH [of "Suc movedPageId" mapping1 "Suc local"] Suc.prems by (auto simp: mapping1_def)
  have "\<forall>i < length mapping. mapping' ! i =
      (if movedPageId \<le> i \<and> i < movedPageId + Suc order then local + (i - movedPageId) else mapping ! i)"
    using *(3) Suc.prems by (auto simp: mapping1_def nth_list_update)
  with * Suc.prems show ?case by (auto simp: mapping1_def)
qed simp

lemma usage_set:
  "memory_object = page_object p \<Longrightarrow> page_object (set_page_usage p u) = page_object p"
  "memory_start_address (set_page_usage p u) = memory_start_address p"
  "memory_end_address (set_page_usage p u) = memory_end_address p"
  "memory_current_address (set_page_usage p u) = memory_start_address p + u"
  "get_page_id a (set_page_usage p u) = get_page_id a p"
  "get_page_order a (set_page_usage p u) = get_page_order a p"
  "page_ids a (set_page_usage p u) = page_ids a p"
  by (simp_all add: set_page_usage_def get_page_id_def get_page_order_def get_page_length_def
      page_ids_def)

lemma AllocMovedPage_cases:
  assumes ok: "manager_ok Mt L Ob a m" and un: "\<not> locked a"
    and mp: "moved_page_id_mapping_page m \<noteq> None"
    and id: "0 < movedPageId" "movedPageId + get_order a usage \<le> n_pages_capacity a"
    and cell: "moved_page_id_mapping m ! movedPageId = 0" and u: "0 < usage" "usage < 2 ^ 32"
  obtains (null) a' Mt' where "AllocMovedPage a m movedPageId usage = Some (None, a', m)"
      "same_memory a a'" "Mt \<subseteq># Mt'" "manager_ok Mt' L Ob a' m"
  | (moved) p a' m' Mt' where
      "AllocMovedPage a m movedPageId usage = Some (Some (memory_start_address p), a', m')"
      "same_memory a a'" "Mt \<subseteq># Mt'" "manager_ok Mt' L Ob a' m'"
      "pages_in_use_list m' = p # pages_in_use_list m" "memory_current_address p = memory_start_address p + usage"
      "manager_object m' = manager_object m" "moved_page_id_mapping_page m' = moved_page_id_mapping_page m"
      "length (moved_page_id_mapping m') = n_pages_capacity a"
      "\<forall>i < get_order a usage. moved_page_id_mapping m' ! (movedPageId + i) = get_page_id a p + i"
      "0 < get_page_id a p" "get_page_order a p = get_order a usage"
proof -
  have g: "geometry a" using ok by (auto simp: manager_ok_def dest: alloc_invD(1))
  note gc = get_order_covers [OF g u]
  have len: "length (moved_page_id_mapping m) = n_pages_capacity a"
    using ok mp by (auto simp: manager_ok_def manager_wf_def)
  have lt: "movedPageId < n_pages_capacity a" using id(2) gc(2) by simp
  have unfold: "AllocMovedPage a m movedPageId usage = page_manager_get_new_page a m usage \<bind>
     (\<lambda>(p, a, m). case p of
       None \<Rightarrow> Some (None, a, m)
     | Some p \<Rightarrow> map_pages (moved_page_id_mapping m) movedPageId (get_page_id a p) (get_page_order a p)
         \<bind> (\<lambda>mapping. let p = set_page_usage p usage in
           Some (Some (memory_start_address p), a, m\<lparr>moved_page_id_mapping := mapping,
              pages_in_use_list := p # tl (pages_in_use_list m)\<rparr>)))"
    using mp id(1) lt cell len by (simp add: AllocMovedPage_def)
  show thesis
  proof (cases rule: new_page_cases [OF ok un u])
    case (1 a' Mt')
    then show thesis by (intro null [of a' Mt']) (auto simp: unfold)
  next
    case page: (2 a' Mt' p m1)
    define order where "order = get_order a usage"
    have order: "get_page_order a' p = order" using page(7) by (simp add: order_def)
    obtain mapping where mapping: "map_pages (moved_page_id_mapping m) movedPageId (get_page_id a' p) order
        = Some mapping" "length mapping = n_pages_capacity a"
      "\<forall>i < n_pages_capacity a. mapping ! i = (if movedPageId \<le> i \<and> i < movedPageId + order
         then get_page_id a' p + (i - movedPageId) else moved_page_id_mapping m ! i)"
      using map_pages_result [of movedPageId order "moved_page_id_mapping m"] id(2) len
      by (auto simp: order_def)
    define q where "q = set_page_usage p usage"
    define m' where "m' = m\<lparr>moved_page_id_mapping := mapping, pages_in_use_list := q # pages_in_use_list m\<rparr>"
    have pages: "manager_pages m' = q # manager_pages m" "manager_pages m1 = p # manager_pages m"
      by (simp_all add: m'_def manager_pages_def page(2))
    have obj: "manager_objects m' = manager_objects m1"
      by (simp add: manager_objects_def pages q_def usage_set) (simp add: m'_def page(2))
    note r = page_range [OF page(6)]
    have fits: "usage \<le> order * 2 ^ page_shift a'"
      using gc(1) page(3) by (simp add: order_def same_memory_def)
    have "page_at a' q (get_page_id a' q) (get_page_order a' q)"
      using r fits order by (simp add: page_at_def q_def usage_set algebra_simps)
    then have "page_wf a' q" by (simp add: page_wf_def)
    then have wf: "manager_wf a' m'"
      using page(5,3) mapping(2) by (auto simp: manager_ok_def manager_wf_def pages)
        (auto simp: m'_def page(2,8) same_memory_def)
    then have ok': "manager_ok Mt' L Ob a' m'"
      using page(5) by (simp add: manager_ok_def pages obj q_def usage_set)
    have "page_ids a' p \<subseteq># list_ids a' (manager_pages m1) + L" by (simp add: pages(2))
    then have pos: "0 < get_page_id a' p"
      using page(5,6) live_page_id_pos [of a' Mt' _ _ p] by (auto simp: manager_ok_def)
    have same_id: "get_page_id a' p = get_page_id a p" "get_page_order a p = order"
      using same_memory_pages(1,2) [OF page(3), of p] order by simp_all
    have "AllocMovedPage a m movedPageId usage = Some (Some (memory_start_address q), a', m')"
      using page(1,2) mapping(1) by (simp add: unfold order q_def m'_def Let_def)
    then show thesis
      using page(3,4) ok' mapping(2,3) id(2) pos
      by (intro moved [of q a' m' Mt'])
        (auto simp: m'_def q_def usage_set same_id order_def)
  qed
qed

lemma rollback_pages_result:
  assumes "\<exists>p \<in> set ps. memory_start_address p \<le> x \<and> x < memory_current_address p"
  obtains pre p post where "ps = pre @ p # post" "memory_start_address p \<le> x"
    "x < memory_current_address p"
    "rollback_pages ps x = Some (pre @ p\<lparr>memory_current_address := x\<rparr> # post)"
  using assms
proof (induction ps arbitrary: thesis)
  case (Cons q qs)
  show ?case
  proof (cases "memory_start_address q \<le> x \<and> x < memory_current_address q")
    case True
    then show ?thesis by (intro Cons.prems(1) [of "[]" q qs]) auto
  next
    case False
    then have "\<exists>p \<in> set qs. memory_start_address p \<le> x \<and> x < memory_current_address p"
      using Cons.prems(2) by auto
    then obtain pre p post where "qs = pre @ p # post" "memory_start_address p \<le> x"
      "x < memory_current_address p"
      "rollback_pages qs x = Some (pre @ p\<lparr>memory_current_address := x\<rparr> # post)"
      using Cons.IH by blast
    then show ?thesis using False by (intro Cons.prems(1) [of "q # pre" p post]) auto
  qed
qed simp

lemma RollbackAllocMovable_ok:
  assumes ok: "manager_ok Mt L Ob a m" and mp: "moved_page_id_mapping_page m = None"
    and x: "last_allocation m = x" "page_size a \<le> x"
  obtains m' where "RollbackAllocMovable a m x = Some m'" "manager_ok Mt L Ob a m'"
    "manager_object m' = manager_object m" "last_allocation m' = 0" "in_use m' \<subseteq> in_use m"
    "allocator_address a + x \<notin> in_use m'"
    "\<And>q. q \<in> set (pages_in_use_list m) \<Longrightarrow> memory_start_address q \<le> allocator_address a + x \<Longrightarrow>
       allocator_address a + x < memory_current_address q \<Longrightarrow>
       in_use m \<subseteq> in_use m' \<union> {allocator_address a + x..<memory_current_address q}"
proof -
  have inv: "alloc_inv a Mt (list_ids a (manager_pages m) + L) (manager_objects m + Ob)"
    and wf: "manager_wf a m" using ok by (simp_all add: manager_ok_def)
  have "0 < page_size a" using page_size_eq [OF alloc_invD(1) [OF inv]] by simp
  then have nz: "last_allocation m \<noteq> 0" using x by simp
  define y where "y = allocator_address a + x"
  obtain pre p post where m: "pages_in_use_list m = pre @ p # post" and
    y: "memory_start_address p \<le> y" "y < memory_current_address p" and
    rb: "rollback_pages (pages_in_use_list m) y
      = Some (pre @ p\<lparr>memory_current_address := y\<rparr> # post)"
  proof (rule rollback_pages_result)
    show "\<exists>p \<in> set (pages_in_use_list m). memory_start_address p \<le> y \<and> y < memory_current_address p"
      using wf nz x(1) by (auto simp: manager_wf_def y_def)
  qed
  define p' where "p' = p\<lparr>memory_current_address := y\<rparr>"
  define m' where "m' = m\<lparr>pages_in_use_list := pre @ p' # post, last_allocation := 0\<rparr>"
  have pages: "manager_pages m = pre @ p # post" "manager_pages m' = pre @ p' # post"
    using mp by (simp_all add: manager_pages_def m m'_def)
  have ids: "page_ids a p' = page_ids a p" "get_page_id a p' = get_page_id a p"
    "get_page_order a p' = get_page_order a p"
    by (simp_all add: p'_def page_ids_def get_page_id_def get_page_order_def get_page_length_def)
  have wfp: "page_wf a p" using wf pages(1) by (simp add: manager_wf_def)
  then have "page_wf a p'" using y unfolding page_wf_def ids by (simp add: page_at_def p'_def)
  then have wf': "manager_wf a m'"
    using wf mp by (auto simp: manager_wf_def pages) (auto simp: m'_def)
  have "manager_objects m' = manager_objects m"
    by (simp add: manager_objects_def pages) (simp add: m'_def p'_def)
  then have ok': "manager_ok Mt L Ob a m'"
    using ok wf' by (simp add: manager_ok_def pages ids(1))
  have alone: "y \<notin> {memory_start_address q..<memory_current_address q}"
    if "q \<in> set pre \<union> set post" for q
  proof -
    have "page_ids a p + page_ids a q \<subseteq># list_ids a (manager_pages m) + L"
      using subset_mset.add_increasing2 [OF _ list_ids_mem [of q "pre @ post" a], of L] that
      by (simp add: pages(1) ac_simps)
    then have "{memory_start_address p..<memory_end_address p}
        \<inter> {memory_start_address q..<memory_end_address q} = {}"
      using pages_disjoint [OF inv] wfp wf that pages(1) by (auto simp: manager_wf_def simp del: Int_atLeastLessThan)
    moreover have "y \<in> {memory_start_address p..<memory_end_address p}"
      using y page_range [OF wfp] by auto
    moreover have "memory_current_address q \<le> memory_end_address q"
      using page_range [of a q] wf that pages(1) by (auto simp: manager_wf_def)
    ultimately show ?thesis by (auto simp del: Int_atLeastLessThan)
  qed
  then have "y \<notin> in_use m'" by (auto simp: in_use_def pages p'_def)
  moreover have "in_use m' \<subseteq> in_use m" using y by (auto simp: in_use_def pages p'_def)
  moreover have "in_use m \<subseteq> in_use m' \<union> {y..<memory_current_address q}"
    if "q \<in> set (pages_in_use_list m)" "memory_start_address q \<le> y" "y < memory_current_address q" for q
  proof -
    have "q = p" using alone [of q] that m by auto
    then show ?thesis by (auto simp: in_use_def pages p'_def)
  qed
  moreover have "RollbackAllocMovable a m x = Some m'"
    using mp x rb by (simp add: RollbackAllocMovable_def GetAddressFromMovableMemory_def
        y_def m'_def p'_def)
  ultimately show thesis using ok' by (intro that [of m']) (auto simp: y_def m'_def)
qed

end
