(* ===== verification/Scorep_Allocator_World.thy ===== *)
theory Scorep_Allocator_World
  imports Scorep_Allocator_Managers
begin

text \<open>
  The allocator with all its page managers. A request names a public function of
  \<open>SCOREP_Allocator.c\<close> with its arguments, managers by the address of their object; \<open>execute\<close>
  dispatches it, \<open>valid\<close> is what the interface asks of the caller, and \<open>reachable\<close> are the states
  any sequence of valid requests leads to. The properties of the allocator hold in all of them.
\<close>

section \<open>Requests\<close>

record world =
  heap :: allocator
  managers :: "nat \<rightharpoonup> page_manager"

datatype request =
    Create
  | CreateMoved
  | Delete nat
  | Alloc nat nat
  | Aligned nat nat nat
  | Free nat
  | Movable nat nat
  | MovedPage nat nat nat
  | Rollback nat nat

definition put_manager :: "world \<Rightarrow> allocator \<Rightarrow> page_manager \<Rightarrow> world" where
  "put_manager w a m = w\<lparr>heap := a, managers := (managers w)(manager_object m \<mapsto> m)\<rparr>"

text \<open>The result of a request is the pointer or offset the function returns (\<open>None\<close> for a null
  pointer) and the new state.\<close>

definition execute :: "build \<Rightarrow> world \<Rightarrow> request \<Rightarrow> (nat option \<times> world) option" where
  "execute B w r = (case r of
     Create \<Rightarrow> CreatePageManager (heap w) \<bind> (\<lambda>(m, a). Some (case m of
       None \<Rightarrow> (None, w\<lparr>heap := a\<rparr>) | Some m \<Rightarrow> (Some (manager_object m), put_manager w a m)))
   | CreateMoved \<Rightarrow> CreateMovedPageManager B (heap w) \<bind> (\<lambda>(m, a). Some (case m of
       None \<Rightarrow> (None, w\<lparr>heap := a\<rparr>) | Some m \<Rightarrow> (Some (manager_object m), put_manager w a m)))
   | Delete h \<Rightarrow> managers w h \<bind> (\<lambda>m. DeletePageManager (heap w) m \<bind> (\<lambda>a.
       Some (None, w\<lparr>heap := a, managers := (managers w)(h := None)\<rparr>)))
   | Alloc h n \<Rightarrow> managers w h \<bind> (\<lambda>m. Allocator_Alloc B (heap w) m n \<bind> (\<lambda>(res, a, m).
       Some (res, put_manager w a m)))
   | Aligned h al n \<Rightarrow> managers w h \<bind> (\<lambda>m. AlignedAlloc B (heap w) m al n \<bind> (\<lambda>(res, a, m).
       Some (res, put_manager w a m)))
   | Free h \<Rightarrow> managers w h \<bind> (\<lambda>m. Allocator_Free (heap w) m \<bind> (\<lambda>(a, m).
       Some (None, put_manager w a m)))
   | Movable h n \<Rightarrow> managers w h \<bind> (\<lambda>m. AllocMovable B (heap w) m n \<bind> (\<lambda>(res, a, m).
       Some (if res = 0 then None else Some res, put_manager w a m)))
   | MovedPage h i u \<Rightarrow> managers w h \<bind> (\<lambda>m. AllocMovedPage (heap w) m i u \<bind> (\<lambda>(res, a, m).
       Some (res, put_manager w a m)))
   | Rollback h x \<Rightarrow> managers w h \<bind> (\<lambda>m. RollbackAllocMovable (heap w) m x \<bind> (\<lambda>m.
       Some (None, put_manager w (heap w) m))))"

text \<open>What the interface asks of the caller: a live manager of the right kind, a positive size, an
  alignment that is a power of two, at least the default one and at most a page, a moved page that
  fits and is not mapped yet, a rollback of the last movable allocation.\<close>

definition valid :: "build \<Rightarrow> world \<Rightarrow> request \<Rightarrow> bool" where
  "valid B w r = (case r of
     Create \<Rightarrow> True
   | CreateMoved \<Rightarrow> True
   | Delete h \<Rightarrow> managers w h \<noteq> None
   | Free h \<Rightarrow> managers w h \<noteq> None
   | Alloc h n \<Rightarrow> (case managers w h of None \<Rightarrow> False | Some m \<Rightarrow>
       moved_page_id_mapping_page m = None \<and> 0 < n)
   | Movable h n \<Rightarrow> (case managers w h of None \<Rightarrow> False | Some m \<Rightarrow>
       moved_page_id_mapping_page m = None \<and> 0 < n)
   | Aligned h al n \<Rightarrow> (case managers w h of None \<Rightarrow> False | Some m \<Rightarrow>
       moved_page_id_mapping_page m = None \<and> 0 < n \<and> ALLOCATOR_ALIGNMENT B \<le> al
       \<and> al \<le> page_size (heap w) \<and> al AND (al - 1) = 0)
   | MovedPage h i u \<Rightarrow> (case managers w h of None \<Rightarrow> False | Some m \<Rightarrow>
       moved_page_id_mapping_page m \<noteq> None \<and> 0 < i \<and> 0 < u \<and> u < 2 ^ 32
       \<and> i + get_order (heap w) u \<le> n_pages_capacity (heap w)
       \<and> moved_page_id_mapping m ! i = 0)
   | Rollback h x \<Rightarrow> (case managers w h of None \<Rightarrow> False | Some m \<Rightarrow>
       moved_page_id_mapping_page m = None \<and> last_allocation m = x \<and> x \<noteq> 0))"

inductive reachable :: "build \<Rightarrow> allocator \<Rightarrow> world \<Rightarrow> bool" for B a0 where
  start: "reachable B a0 \<lparr>heap = a0, managers = Map.empty\<rparr>"
| step: "reachable B a0 w \<Longrightarrow> valid B w r \<Longrightarrow> execute B w r = Some (res, w') \<Longrightarrow> reachable B a0 w'"

section \<open>Sums over the managers\<close>

definition over :: "(page_manager \<Rightarrow> nat multiset) \<Rightarrow> (nat \<rightharpoonup> page_manager) \<Rightarrow> nat multiset" where
  "over f M = (\<Sum>h \<in> dom M. f (the (M h)))"

lemma over_update:
  assumes "finite (dom M)"
  shows "over f (M(h \<mapsto> m)) = f m + over f (M(h := None))"
proof -
  have "over f (M(h \<mapsto> m)) = f m + (\<Sum>h' \<in> dom M - {h}. f (the ((M(h \<mapsto> m)) h')))"
    unfolding over_def using assms by (subst sum.remove [of _ h]) (auto simp: insert_Diff_if)
  also have "(\<Sum>h' \<in> dom M - {h}. f (the ((M(h \<mapsto> m)) h'))) = over f (M(h := None))"
    unfolding over_def by (intro sum.cong) auto
  finally show ?thesis .
qed

lemma over_focus:
  assumes "finite (dom M)" "M h = Some m"
  shows "over f M = f m + over f (M(h := None))"
  using over_update [OF assms(1), of f h m] assms(2) by (simp add: map_upd_triv)

lemma over_empty [simp]: "over f Map.empty = {#}"
  by (simp add: over_def)

lemma over_absent: "M h = None \<Longrightarrow> M(h := None) = M"
  by auto

section \<open>The invariant\<close>

definition ids_of :: "allocator \<Rightarrow> page_manager \<Rightarrow> nat multiset" where
  "ids_of a m = list_ids a (manager_pages m)"

definition world_inv :: "nat multiset \<Rightarrow> world \<Rightarrow> bool" where
  "world_inv Mt w \<longleftrightarrow> finite (dom (managers w)) \<and> \<not> locked (heap w) \<and> 0 \<in># Mt
     \<and> alloc_inv (heap w) Mt (over (ids_of (heap w)) (managers w)) (over manager_objects (managers w))
     \<and> (\<forall>h m. managers w h = Some m \<longrightarrow> manager_wf (heap w) m \<and> manager_object m = h)"

lemma ids_of_same: "same_memory a b \<Longrightarrow> ids_of b = ids_of a"
  by (auto simp: ids_of_def same_memory_list_ids)

lemma world_focus:
  assumes "world_inv Mt w" "managers w h = Some m"
  shows "manager_ok Mt (over (ids_of (heap w)) ((managers w)(h := None)))
    (over manager_objects ((managers w)(h := None))) (heap w) m"
    "manager_object m = h" "\<not> locked (heap w)"
  using assms over_focus [of "managers w" h m]
  by (simp_all add: world_inv_def manager_ok_def ids_of_def [symmetric])

lemma world_put:
  assumes w: "world_inv Mt w" and m: "manager_object m = h"
    and ok: "manager_ok Mt' (over (ids_of (heap w)) ((managers w)(h := None)))
      (over manager_objects ((managers w)(h := None))) a m"
    and sm: "same_memory (heap w) a"
  shows "world_inv Mt' (put_manager w a m)"
  using assms over_update [of "managers w"] ids_of_same [OF sm] same_memory_manager_wf [OF sm]
  by (auto simp: world_inv_def put_manager_def manager_ok_def ids_of_def [symmetric] same_memory_def
      ac_simps)

lemma world_remove:
  assumes w: "world_inv Mt w" and sm: "same_memory (heap w) a" and z: "Mt \<subseteq># Mt'"
    and inv: "alloc_inv a Mt' (over (ids_of (heap w)) ((managers w)(h := None)))
      (over manager_objects ((managers w)(h := None)))"
  shows "world_inv Mt' (w\<lparr>heap := a, managers := (managers w)(h := None)\<rparr>)"
  using w inv ids_of_same [OF sm] same_memory_manager_wf [OF sm] sm mset_subset_eqD [OF z]
  by (auto simp: world_inv_def same_memory_def)

lemma world_heap:
  assumes w: "world_inv Mt w" and sm: "same_memory (heap w) a" and z: "Mt \<subseteq># Mt'"
    and inv: "alloc_inv a Mt' (over (ids_of (heap w)) (managers w)) (over manager_objects (managers w))"
  shows "world_inv Mt' (w\<lparr>heap := a\<rparr>)"
  using w inv ids_of_same [OF sm] same_memory_manager_wf [OF sm] sm mset_subset_eqD [OF z]
  by (auto simp: world_inv_def same_memory_def)

text \<open>A new manager is not one of the live ones: its object is in no other hand.\<close>

lemma new_manager_absent:
  assumes w: "world_inv Mt w"
    and ok: "manager_ok Mt' L (over manager_objects (managers w)) a m"
  shows "managers w (manager_object m) = None"
proof (rule ccontr)
  assume "managers w (manager_object m) \<noteq> None"
  then obtain m2 where m2: "managers w (manager_object m) = Some m2" by auto
  have o: "manager_object m2 = manager_object m" using w m2 by (simp add: world_inv_def)
  have "over manager_objects (managers w)
      = manager_objects m2 + over manager_objects ((managers w)(manager_object m := None))"
    using w m2 by (intro over_focus) (simp_all add: world_inv_def)
  then have "2 \<le> count (manager_objects m + over manager_objects (managers w)) (manager_object m)"
    using o by (simp add: manager_objects_def)
  moreover have "count (mset (free_objects a) + (manager_objects m + over manager_objects (managers w)))
      (manager_object m) \<le> 1"
    using ok unfolding manager_ok_def alloc_inv_def objects_ok_def by blast
  ultimately show False by simp
qed

lemma world_created:
  assumes w: "world_inv Mt w"
    and c: "created Mt (over (ids_of (heap w)) (managers w)) (over manager_objects (managers w))
      (heap w) (res, a)"
  shows "\<exists>Mt'. Mt \<subseteq># Mt' \<and> (case res of None \<Rightarrow> world_inv Mt' (w\<lparr>heap := a\<rparr>)
     | Some m \<Rightarrow> world_inv Mt' (put_manager w a m) \<and> managers w (manager_object m) = None)"
proof (cases res)
  case None
  then show ?thesis using c world_heap [OF w] by (auto simp: created_def)
next
  case (Some m)
  then obtain Mt' where m: "same_memory (heap w) a" "Mt \<subseteq># Mt'"
    "manager_ok Mt' (over (ids_of (heap w)) (managers w)) (over manager_objects (managers w)) a m"
    using c by (auto simp: created_def)
  have "managers w (manager_object m) = None" by (rule new_manager_absent [OF w m(3)])
  then show ?thesis
    using world_put [OF w refl, of Mt' m a] m Some by (auto simp: over_absent)
qed

section \<open>Every valid request returns and keeps the invariant\<close>

definition stays :: "build \<Rightarrow> nat multiset \<Rightarrow> world \<Rightarrow> request \<Rightarrow> bool" where
  "stays B Mt w r \<longleftrightarrow> (\<exists>res w' Mt'. execute B w r = Some (res, w') \<and> Mt \<subseteq># Mt' \<and> world_inv Mt' w'
     \<and> same_memory (heap w) (heap w'))"

lemma put_manager_sel [simp]: "heap (put_manager w a m) = a"
  "managers (put_manager w a m) = (managers w)(manager_object m \<mapsto> m)"
  by (simp_all add: put_manager_def)

lemma page_manager_alloc_world:
  assumes B: "build_ok B" and w: "world_inv Mt w" and h: "managers w h = Some m"
    and mapping: "moved_page_id_mapping_page m = None" and n: "0 < n"
    and k: "k \<le> page_shift (heap w)"
  obtains (null) a' Mt' where "page_manager_alloc B (heap w) m n (2 ^ k) = Some (None, a', m)"
      "same_memory (heap w) a'" "Mt \<subseteq># Mt'" "world_inv Mt' (put_manager w a' m)"
      "total_memory (heap w) < n \<or> (\<forall>q. \<not> free_range (page_bitset a')
         (n_pages_capacity (heap w)) (get_order (heap w) n) q)"
  | (block) memory a' m' Mt' where "page_manager_alloc B (heap w) m n (2 ^ k) = Some (Some memory, a', m')"
      "same_memory (heap w) a'" "Mt \<subseteq># Mt'" "world_inv Mt' (put_manager w a' m')"
      "allocated_block a' m n (2 ^ k) memory m'" "manager_object m' = h"
      "m' = m\<lparr>pages_in_use_list := pages_in_use_list m'\<rparr>"
proof -
  note f = world_focus [OF w h]
  show thesis
  proof (cases rule: page_manager_alloc_cases [OF B f(1,3) mapping n k])
    case (1 a' Mt')
    then show thesis using world_put [OF w f(2), of Mt' a'] by (intro null [of a' Mt']) auto
  next
    case b: (2 memory a' m' Mt')
    have "manager_object m' = h" by (subst b(6)) (simp add: f(2))
    then show thesis using b world_put [OF w, of m' h Mt' a'] by (intro block [of memory a' m' Mt']) auto
  qed
qed

lemma default_alignment:
  assumes "build_ok B" "world_inv Mt w"
  obtains k where "ALLOCATOR_ALIGNMENT B = 2 ^ k" "k \<le> page_shift (heap w)"
proof -
  obtain k where k: "ALLOCATOR_ALIGNMENT B = 2 ^ k" "k \<le> 6" using assms(1) by (auto simp: build_ok_def)
  moreover have "7 \<le> page_shift (heap w)"
    using assms(2) by (simp add: world_inv_def alloc_inv_def geometry_def)
  ultimately show thesis by (intro that [of k]) auto
qed

lemma live_page_range:
  assumes w: "world_inv Mt w" and h: "managers w h = Some m" and p: "p \<in> set (manager_pages m)"
  shows "allocator_address (heap w) + 2 ^ page_shift (heap w) \<le> memory_start_address p"
    "memory_start_address p \<le> memory_current_address p" "memory_current_address p \<le> memory_end_address p"
    "memory_end_address p \<le> allocator_address (heap w)
       + n_pages_capacity (heap w) * 2 ^ page_shift (heap w)"
    "0 < get_page_id (heap w) p"
proof -
  let ?a = "heap w"
  define L where "L = list_ids ?a (manager_pages m) + over (ids_of ?a) ((managers w)(h := None))"
  note f = world_focus [OF w h]
  have wf: "page_wf ?a p" using f(1) p by (auto simp: manager_ok_def manager_wf_def)
  note r = page_range [OF wf]
  have "page_ids ?a p \<subseteq># L"
    unfolding L_def by (rule subset_mset.add_increasing2 [OF _ list_ids_mem [OF p]]) simp
  moreover have "alloc_inv ?a Mt L (manager_objects m + over manager_objects ((managers w)(h := None)))"
    "0 \<in># Mt"
    using f(1) by (simp_all add: manager_ok_def L_def)
  ultimately show pos: "0 < get_page_id ?a p" using wf by (intro live_page_id_pos)
  then have "1 * 2 ^ page_shift ?a \<le> get_page_id ?a p * 2 ^ page_shift ?a"
    by (intro mult_le_mono) auto
  then show "allocator_address ?a + 2 ^ page_shift ?a \<le> memory_start_address p" using r by simp
  have "(get_page_id ?a p + get_page_order ?a p) * 2 ^ page_shift ?a
      \<le> n_pages_capacity ?a * 2 ^ page_shift ?a"
    using r by (intro mult_le_mono) auto
  then show "memory_end_address p \<le> allocator_address ?a + n_pages_capacity ?a * 2 ^ page_shift ?a"
    using r by simp
qed (use page_range [of "heap w" p] assms in \<open>auto simp: world_inv_def manager_wf_def\<close>)

lemma world_geometry: "world_inv Mt w \<Longrightarrow> geometry (heap w)"
  by (auto simp: world_inv_def dest: alloc_invD(1))

lemma world_capacity_pos:
  assumes "world_inv Mt w"
  shows "0 < n_pages_capacity (heap w)"
proof -
  have "used_pages (heap w) = Mt + over (ids_of (heap w)) (managers w)" "0 \<in># Mt"
    using assms by (auto simp: world_inv_def alloc_inv_def)
  then have "0 \<in># used_pages (heap w)" by simp
  then show ?thesis by (simp add: used_pages_def members_def)
qed

lemma execute_create:
  assumes B: "build_ok B" and w: "world_inv Mt w" and r: "r = Create \<or> r = CreateMoved"
  shows "stays B Mt w r"
proof -
  define L Ob where "L = over (ids_of (heap w)) (managers w)" and "Ob = over manager_objects (managers w)"
  have inv: "alloc_inv (heap w) Mt L Ob" "\<not> locked (heap w)" "0 \<in># Mt"
    using w by (simp_all add: world_inv_def L_def Ob_def)
  define op where "op = (if r = Create then CreatePageManager (heap w) else CreateMovedPageManager B (heap w))"
  obtain res a where ra: "op = Some (res, a)" "created Mt L Ob (heap w) (res, a)"
    using CreatePageManager_created [OF inv] CreateMovedPageManager_created [OF B inv world_capacity_pos [OF w]]
    by (cases "r = Create") (auto simp: op_def)
  have e: "execute B w r = op \<bind> (\<lambda>(m, a). Some (case m of
       None \<Rightarrow> (None, w\<lparr>heap := a\<rparr>) | Some m \<Rightarrow> (Some (manager_object m), put_manager w a m)))"
    using r by (auto simp: execute_def op_def)
  have "same_memory (heap w) a" using ra(2) by (simp add: created_def)
  then show ?thesis
    using world_created [OF w ra(2) [unfolded L_def Ob_def]] ra(1)
    by (auto simp: stays_def e split: option.splits)
qed

lemma execute_release:
  assumes w: "world_inv Mt w" and h: "managers w h = Some m" and r: "r = Delete h \<or> r = Free h"
  shows "stays B Mt w r"
  using r
proof
  assume r: "r = Delete h"
  note f = world_focus [OF w h]
  obtain a' where a': "DeletePageManager (heap w) m = Some a'" "same_memory (heap w) a'"
    "alloc_inv a' Mt (over (ids_of (heap w)) ((managers w)(h := None)))
      (over manager_objects ((managers w)(h := None)))"
    using DeletePageManager_releases [OF f(1,3)] by blast
  then show ?thesis using world_remove [OF w a'(2) _ a'(3)] h r by (auto simp: stays_def execute_def)
next
  assume r: "r = Free h"
  note f = world_focus [OF w h]
  obtain a' m' where "Allocator_Free (heap w) m = Some (a', m')" "same_memory (heap w) a'"
    "manager_ok Mt (over (ids_of (heap w)) ((managers w)(h := None)))
      (over manager_objects ((managers w)(h := None))) a' m'" "manager_object m' = h"
    using Allocator_Free_releases [OF f(1,3)] f(2) by metis
  then show ?thesis using world_put [OF w, of m' h Mt a'] h r by (auto simp: stays_def execute_def)
qed

lemma execute_alloc:
  assumes B: "build_ok B" and w: "world_inv Mt w" and h: "managers w h = Some m"
    and mapping: "moved_page_id_mapping_page m = None" and n: "0 < n"
    and r: "r = Alloc h n \<or> r = Aligned h al n \<and> ALLOCATOR_ALIGNMENT B \<le> al
       \<and> al \<le> page_size (heap w) \<and> al AND (al - 1) = 0"
  obtains k where "execute B w r = page_manager_alloc B (heap w) m n (2 ^ k)
      \<bind> (\<lambda>(res, a, m). Some (res, put_manager w a m))" "k \<le> page_shift (heap w)"
    "2 ^ k = (case r of Aligned _ al _ \<Rightarrow> al | _ \<Rightarrow> ALLOCATOR_ALIGNMENT B)"
proof -
  obtain k0 where k0: "ALLOCATOR_ALIGNMENT B = 2 ^ k0" "k0 \<le> page_shift (heap w)"
    by (rule default_alignment [OF B w])
  show thesis
  proof (cases "r = Alloc h n")
    case True
    then show thesis using k0 h by (intro that [of k0]) (auto simp: execute_def Allocator_Alloc_def)
  next
    case False
    then have al: "r = Aligned h al n" "ALLOCATOR_ALIGNMENT B \<le> al" "al \<le> page_size (heap w)"
      "al AND (al - 1) = 0" using r by auto
    have "0 < al" using al(2) k0 by (cases al) auto
    then obtain k where k: "al = 2 ^ k" using power_of_two_test al(4) by blast
    have "(2 :: nat) ^ k \<le> 2 ^ page_shift (heap w)"
      using al(3) page_size_eq [OF world_geometry [OF w]] k by simp
    then have "k \<le> page_shift (heap w)" by simp
    then show thesis using al h k
      by (intro that [of k]) (simp_all add: execute_def AlignedAlloc_def)
  qed
qed

lemma execute_alloc_stays:
  assumes B: "build_ok B" and w: "world_inv Mt w" and h: "managers w h = Some m"
    and mapping: "moved_page_id_mapping_page m = None" and n: "0 < n"
    and r: "r = Alloc h n \<or> r = Aligned h al n \<and> ALLOCATOR_ALIGNMENT B \<le> al
       \<and> al \<le> page_size (heap w) \<and> al AND (al - 1) = 0"
  shows "stays B Mt w r"
proof -
  obtain k where e: "execute B w r = page_manager_alloc B (heap w) m n (2 ^ k)
      \<bind> (\<lambda>(res, a, m). Some (res, put_manager w a m))" and k: "k \<le> page_shift (heap w)"
    using execute_alloc [OF assms] by blast
  show ?thesis
  proof (cases rule: page_manager_alloc_world [OF B w h mapping n k])
    case (1 a' Mt')
    then show ?thesis by (auto simp: stays_def e)
  next
    case (2 memory a' m' Mt')
    then show ?thesis by (auto simp: stays_def e)
  qed
qed

lemma allocated_block_range:
  assumes w: "world_inv Mt (put_manager w a m')" and b: "allocated_block a m n al memory m'"
  shows "allocator_address a + 2 ^ page_shift a \<le> memory"
    "memory + n \<le> allocator_address a + n_pages_capacity a * 2 ^ page_shift a"
proof -
  obtain p where p: "p \<in> set (pages_in_use_list m')" "memory_start_address p \<le> memory"
    "memory_current_address p = memory + n"
    using b by (auto simp: allocated_block_def)
  then have "p \<in> set (manager_pages m')" by (simp add: manager_pages_def)
  from live_page_range [OF w _ this, of "manager_object m'"] p(2,3)
  show "allocator_address a + 2 ^ page_shift a \<le> memory"
    "memory + n \<le> allocator_address a + n_pages_capacity a * 2 ^ page_shift a" by simp_all
qed

lemma execute_movable:
  assumes B: "build_ok B" and w: "world_inv Mt w" and h: "managers w h = Some m"
    and mapping: "moved_page_id_mapping_page m = None" and n: "0 < n"
  obtains (null) a' Mt' where "execute B w (Movable h n) = Some (None, put_manager w a' m)"
      "same_memory (heap w) a'" "Mt \<subseteq># Mt'" "world_inv Mt' (put_manager w a' m)"
      "total_memory (heap w) < n \<or> (\<forall>q. \<not> free_range (page_bitset a')
         (n_pages_capacity (heap w)) (get_order (heap w) n) q)"
  | (block) memory a' m' Mt' where
      "execute B w (Movable h n) = Some (Some (memory - allocator_address a'), put_manager w a' m')"
      "same_memory (heap w) a'" "Mt \<subseteq># Mt'" "world_inv Mt' (put_manager w a' m')"
      "allocated_block a' m n (ALLOCATOR_ALIGNMENT B) memory m'"
      "last_allocation m' = memory - allocator_address a'"
      "manager_object m' = h" "moved_page_id_mapping_page m' = None"
proof -
  obtain k where k: "ALLOCATOR_ALIGNMENT B = 2 ^ k" "k \<le> page_shift (heap w)"
    by (rule default_alignment [OF B w])
  show thesis
  proof (cases rule: page_manager_alloc_world [OF B w h mapping n k(2)])
    case (1 a' Mt')
    then show thesis using h k(1)
      by (intro null [of a' Mt']) (simp_all add: execute_def AllocMovable_def)
  next
    case b: (2 memory a' m' Mt')
    note r = allocated_block_range [OF b(4,5)]
    have g: "geometry a'" using world_geometry [OF b(4)] by simp
    define x where "x = memory - allocator_address a'"
    have "n_pages_capacity a' * 2 ^ page_shift a' < 2 ^ 32" using g by (simp add: geometry_def)
    then have "x < 2 ^ 32" using r(2) n unfolding x_def by linarith
    then have x: "x mod 2 ^ 32 = x" by simp
    have "0 < x"
      using r(1) zero_less_power [of "2 :: nat" "page_shift a'"] unfolding x_def by linarith
    note x = x this
    define m2 where "m2 = m'\<lparr>last_allocation := x\<rparr>"
    have obj: "manager_object m2 = h" using b(6) by (simp add: m2_def)
    have mp: "moved_page_id_mapping_page m2 = None"
      unfolding m2_def by (subst b(7)) (simp add: mapping)
    have h': "managers (put_manager w a' m') h = Some m'" using b(6) by simp
    note f = world_focus [OF b(4) h']
    have pages: "manager_pages m2 = manager_pages m'" by (simp add: m2_def)
    obtain p where p: "p \<in> set (pages_in_use_list m')" "memory_start_address p \<le> memory"
      "memory_current_address p = memory + n"
      using b(5) by (auto simp: allocated_block_def)
    have "allocator_address a' + x = memory" using r(1) by (simp add: x_def)
    then have "manager_wf a' m2"
      using f(1) p n unfolding manager_ok_def manager_wf_def pages
      by (auto simp: m2_def intro!: bexI [of _ p])
    moreover have "manager_objects m2 = manager_objects m'"
      by (simp add: manager_objects_def pages) (simp add: m2_def)
    ultimately have "world_inv Mt' (put_manager (put_manager w a' m') a' m2)"
      using f(1) by (intro world_put [OF b(4) obj]) (auto simp: manager_ok_def pages)
    moreover have "put_manager (put_manager w a' m') a' m2 = put_manager w a' m2"
      using obj b(6) by (simp add: put_manager_def)
    ultimately have "world_inv Mt' (put_manager w a' m2)" by simp
    moreover have "in_use m2 = in_use m'" by (simp add: in_use_def pages)
    then have "allocated_block a' m n (2 ^ k) memory m2"
      using b(5) by (simp add: allocated_block_def) (simp add: m2_def)
    moreover have "execute B w (Movable h n) = Some (Some x, put_manager w a' m2)"
      using b(1) h x by (simp add: execute_def AllocMovable_def k(1) x_def [symmetric] m2_def Let_def)
    ultimately show thesis
      using b(2,3) obj mp by (intro block [of memory a' m2 Mt']) (auto simp: x_def m2_def k(1))
  qed
qed

lemma rollback_bound:
  assumes "world_inv Mt w" "managers w h = Some m" "last_allocation m \<noteq> 0"
    "moved_page_id_mapping_page m = None"
  shows "page_size (heap w) \<le> last_allocation m"
proof -
  obtain p where p: "p \<in> set (pages_in_use_list m)"
    "memory_start_address p \<le> allocator_address (heap w) + last_allocation m"
    using world_focus(1) [OF assms(1,2)] assms(3) by (auto simp: manager_ok_def manager_wf_def)
  then have "p \<in> set (manager_pages m)" by (simp add: manager_pages_def)
  from live_page_range(1) [OF assms(1,2) this] p(2)
  show ?thesis by (simp add: page_size_eq [OF world_geometry [OF assms(1)]])
qed

theorem execute_stays:
  assumes B: "build_ok B" and w: "world_inv Mt w" and v: "valid B w r"
  shows "stays B Mt w r"
proof (cases r)
  case (Alloc h n)
  then show ?thesis using v by (auto simp: valid_def split: option.splits intro: execute_alloc_stays [OF B w])
next
  case (Aligned h al n)
  then show ?thesis using v
    by (auto simp: valid_def split: option.splits intro: execute_alloc_stays [OF B w, of h _ n _ al])
next
  case (Movable h n)
  then obtain m where m: "managers w h = Some m" "moved_page_id_mapping_page m = None" "0 < n"
    using v by (auto simp: valid_def split: option.splits)
  show ?thesis
    by (cases rule: execute_movable [OF B w m]) (auto simp: stays_def Movable)
next
  case (MovedPage h i u)
  then obtain m where m: "managers w h = Some m" "moved_page_id_mapping_page m \<noteq> None" "0 < i"
    "i + get_order (heap w) u \<le> n_pages_capacity (heap w)" "moved_page_id_mapping m ! i = 0"
    "0 < u" "u < 2 ^ 32"
    using v by (auto simp: valid_def split: option.splits)
  note f = world_focus [OF w m(1)]
  show ?thesis
  proof (cases rule: AllocMovedPage_cases [OF f(1,3) m(2-7)])
    case (1 a' Mt')
    then show ?thesis using world_put [OF w f(2), of Mt' a'] m(1)
      by (auto simp: stays_def MovedPage execute_def)
  next
    case (2 p a' m' Mt')
    then show ?thesis using world_put [OF w, of m' h Mt' a'] m(1) f(2)
      by (auto simp: stays_def MovedPage execute_def)
  qed
next
  case (Rollback h x)
  then obtain m where m: "managers w h = Some m" "moved_page_id_mapping_page m = None"
    "last_allocation m = x" "x \<noteq> 0"
    using v by (auto simp: valid_def split: option.splits)
  note f = world_focus [OF w m(1)]
  have "page_size (heap w) \<le> x" using rollback_bound [OF w m(1)] m by simp
  then obtain m' where "RollbackAllocMovable (heap w) m x = Some m'" "manager_object m' = h"
    "manager_ok Mt (over (ids_of (heap w)) ((managers w)(h := None)))
      (over manager_objects ((managers w)(h := None))) (heap w) m'"
    using RollbackAllocMovable_ok [OF f(1) m(2,3)] f(2) by metis
  then show ?thesis using world_put [OF w, of m' h Mt "heap w"] m(1)
    by (auto simp: stays_def Rollback execute_def)
qed (use v B w execute_create execute_release in \<open>auto simp: valid_def\<close>)

end
