(* ===== verification/Scorep_Allocator_Create.thy ===== *)
theory Scorep_Allocator_Create
  imports Scorep_Allocator_World
begin

text \<open>
  The constructor of the allocator: the power-of-two page size, the shift and reservation loops and
  the state \<open>CreateAllocator\<close> leaves, which is the start of every run.
\<close>

section \<open>The next power of two\<close>

definition smear :: "nat \<Rightarrow> u32 \<Rightarrow> u32" where
  "smear k w = w OR drop_bit k w"

definition smeared :: "nat \<Rightarrow> u32 \<Rightarrow> u32 \<Rightarrow> bool" where
  "smeared d v w \<longleftrightarrow> (\<forall>i. bit w i \<longleftrightarrow> (\<exists>j < d. bit v (i + j)))"

lemma smeared_step:
  assumes "smeared d v w"
  shows "smeared (d + d) v (smear d w)"
  unfolding smeared_def
proof
  fix i
  have "bit (smear d w) i \<longleftrightarrow> (\<exists>j < d. bit v (i + j)) \<or> (\<exists>j < d. bit v (d + i + j))"
    using assms by (simp add: smear_def bit_or_iff bit_drop_bit_eq smeared_def)
  also have "\<dots> \<longleftrightarrow> (\<exists>j < d + d. bit v (i + j))"
  proof (intro iffI; elim disjE exE conjE)
    fix j assume "j < d" "bit v (d + i + j)"
    then show "\<exists>j < d + d. bit v (i + j)" by (intro exI [of _ "d + j"]) (simp add: ac_simps)
  next
    fix j assume j: "j < d + d" "bit v (i + j)"
    show "(\<exists>j < d. bit v (i + j)) \<or> (\<exists>j < d. bit v (d + i + j))"
    proof (cases "j < d")
      case False
      then have "j - d < d" "bit v (d + i + (j - d))" using j by (simp_all add: ac_simps)
      then show ?thesis by blast
    qed (use j in blast)
  qed (meson add_lessD1 less_add_same_cancel1 trans_less_add1)
  finally show "bit (smear d w) i \<longleftrightarrow> (\<exists>j < d + d. bit v (i + j))" .
qed

lemma npot_smear:
  "npot v = smear 16 (smear 8 (smear 4 (smear 2 (smear 1 (v - 1))))) + 1"
  by (simp add: npot_def smear_def Let_def)

lemma npot_pos:
  assumes "v \<noteq> 1" "v \<noteq> 0"
  obtains h where "h < 32" "bit (v - 1) h" "npot v = 2 ^ Suc h" "unat (v - 1) < 2 ^ Suc h"
proof -
  define w where "w = smear 16 (smear 8 (smear 4 (smear 2 (smear 1 (v - 1)))))"
  have "smeared 1 (v - 1) (v - 1)" by (simp add: smeared_def)
  from smeared_step [OF smeared_step [OF smeared_step [OF smeared_step [OF smeared_step [OF this]]]]]
  have sm: "smeared 32 (v - 1) w" by (simp add: w_def numeral_eq_Suc)
  have "v - 1 \<noteq> 0" using assms(1) by simp
  then have ne: "{k. bit (v - 1) k} \<noteq> {}" using word_nonzero_bit [of "v - 1"] by auto
  have sub: "{k. bit (v - 1) k} \<subseteq> {..<32}" by (auto dest: bit_imp_le_length)
  then have fin: "finite {k. bit (v - 1) k}" by (rule finite_subset) simp
  define h where "h = Max {k. bit (v - 1) k}"
  have h: "bit (v - 1) h" using Max_in [OF fin ne] by (simp add: h_def)
  have h32: "h < 32" using h sub by auto
  have top: "k \<le> h" if "bit (v - 1) k" for k using Max_ge [OF fin, of k] that by (simp add: h_def)
  have "w = mask (Suc h)"
  proof (rule word_eq_by_bits)
    fix i assume "i < LENGTH(32)"
    have "bit w i \<longleftrightarrow> i \<le> h"
    proof
      assume "bit w i"
      then obtain j where "bit (v - 1) (i + j)" using sm by (auto simp: smeared_def)
      then show "i \<le> h" using top by fastforce
    next
      assume "i \<le> h"
      then have "h - i < 32 \<and> bit (v - 1) (i + (h - i))" using h h32 by simp
      then show "bit w i" using sm unfolding smeared_def by blast
    qed
    then show "bit w i = bit (mask (Suc h) :: u32) i"
      using h32 by (auto simp: bit_mask_iff)
  qed
  then have "npot v = 2 ^ Suc h"
    unfolding npot_smear w_def [symmetric] by (simp add: mask_eq_exp_minus_1)
  moreover have "take_bit (Suc h) (v - 1) = v - 1"
  proof (rule word_eq_by_bits)
    fix i assume "i < LENGTH(32)"
    show "bit (take_bit (Suc h) (v - 1)) i = bit (v - 1) i"
      using top [of i] by (auto simp: bit_take_bit_iff)
  qed
  then have "unat (v - 1) < 2 ^ Suc h"
    by (metis take_bit_nat_less_exp unsigned_take_bit_eq)
  ultimately show thesis using h h32 by (intro that) auto
qed

lemma unat_power:
  assumes "k < 32"
  shows "unat (2 ^ k :: u32) = 2 ^ k"
proof -
  have "(2 :: nat) ^ k < 2 ^ 32" using assms by (rule power_strict_increasing) simp
  with unat_of_nat [of "2 ^ k", where 'a = 32] show ?thesis by simp
qed

lemma npot_power_of_two:
  assumes "npot v \<noteq> 0"
  shows "\<exists>k < 32. unat (npot v) = 2 ^ k"
proof (cases "v = 1 \<or> v = 0")
  case True
  then show ?thesis using assms by (auto simp: npot_def intro!: exI [of _ 0])
next
  case False
  then obtain h where h: "h < 32" "npot v = 2 ^ Suc h" using npot_pos by metis
  have "Suc h < 32"
  proof (rule ccontr)
    assume "\<not> Suc h < 32"
    then have "Suc h = 32" using h(1) by simp
    then have "npot v = 2 ^ 32" using h(2) by metis
    with assms show False by simp
  qed
  moreover have "unat (2 ^ Suc h :: u32) = 2 ^ Suc h"
    using \<open>Suc h < 32\<close> by (rule unat_power)
  ultimately show ?thesis using h(2) by (intro exI [of _ "Suc h"]) (simp del: power_Suc)
qed

section \<open>The loops of the constructor\<close>

lemma page_shift_loop_power: "s \<le> k \<Longrightarrow> page_shift_loop (2 ^ k) s = k"
proof (induction "k - s" arbitrary: s)
  case 0
  then show ?case by (simp add: page_shift_loop.simps [of _ s] drop_bit_eq_div)
next
  case (Suc d)
  then have "(2 :: nat) ^ Suc s \<le> 2 ^ k" by (intro power_increasing) auto
  then have "drop_bit (Suc s) (2 ^ k :: nat) \<noteq> 0"
    by (simp add: drop_bit_eq_div div_eq_0_iff del: power_Suc)
  then show ?case using Suc by (simp add: page_shift_loop.simps [of _ s])
qed

lemma reserve_loop_ends:
  assumes "512 \<le> ps" "n * ps < 2 ^ 32" "maint < n * ps"
  shows "u * ps = maint + f \<Longrightarrow> f < n + ps \<Longrightarrow> \<exists>u' f'. reserve_loop n ps u f = Some (u', f')
     \<and> u' * ps = maint + f' \<and> u \<le> u' \<and> f \<le> f'"
proof (induction "64 * (n div 200) - f" arbitrary: u f rule: less_induct)
  case less
  show ?case
  proof (cases "f div union_size < n div 200")
    case False
    then have "reserve_loop n ps u f = Some (u, f)" by (subst reserve_loop.simps) simp
    with less.prems show ?thesis by auto
  next
    case True
    then have f: "f < 64 * (n div 200)" by (simp add: div_less_iff_less_mult mult.commute)
    then have fn: "f < n" using div_times_less_eq_dividend [of n 200] by linarith
    have "n + ps \<le> n * ps"
    proof -
      have "2 \<le> n" using True by (cases "n < 2") auto
      then obtain x where "n = 2 + x" using le_Suc_ex by blast
      moreover obtain y where "ps = 2 + y" using assms(1) le_Suc_ex [of 2 ps] by auto
      ultimately show ?thesis by simp
    qed
    then have sum: "f + ps < 2 ^ 32" "n + ps < 2 ^ 32" using fn assms(2) by linarith+
    have "u * 512 \<le> u * ps" using assms(1) by simp
    then have "u * 512 < 2 ^ 33" using less.prems assms(2,3) sum(2) by simp
    then have u: "u32_add u 1 = Suc u" "u32_add f ps = f + ps"
      using sum(1) by (simp_all add: u32_add_def)
    have "\<exists>u' f'. reserve_loop n ps (Suc u) (f + ps) = Some (u', f')
        \<and> u' * ps = maint + f' \<and> Suc u \<le> u' \<and> f + ps \<le> f'"
      using less.prems f fn assms(1) by (intro less.hyps) auto
    moreover have "reserve_loop n ps u f = reserve_loop n ps (Suc u) (f + ps)"
      using True u by (subst reserve_loop.simps) simp
    ultimately show ?thesis by auto
  qed
qed

section \<open>The state after creation\<close>

lemma fresh_objects:
  assumes inv: "alloc_inv a Mt {#} {#}" and free: "free_objects a = []"
    and Mt: "Mt = mset_set {0..<used}"
    and s: "s = allocator_address a + maint" "64 dvd maint" "maint + n = used * 2 ^ page_shift a"
  shows "alloc_inv (fill_with_union_objects a n s) Mt {#} {#}"
    "same_memory a (fill_with_union_objects a n s)"
proof -
  obtain objs where o: "fill_with_union_objects a n s = a\<lparr>free_objects := objs @ free_objects a\<rparr>"
    "distinct objs" "\<forall>obj \<in> set objs. s \<le> obj \<and> obj + 64 < s + n \<and> 64 dvd obj - s"
    using fill_objects by blast
  have slot: "object_slot a Mt obj" if obj: "obj \<in> set objs" for obj
  proof -
    define r where "r = obj - s"
    have r: "obj = s + r" "64 dvd r" "maint + r < used * 2 ^ page_shift a"
      using o(3) obj s by (auto simp: r_def)
    then have "obj - allocator_address a = maint + r" using s(1) by simp
    then show ?thesis using r s by (simp add: object_slot_def Mt div_less_iff_less_mult)
  qed
  have "count (mset objs) x \<le> 1" for x using o(2) by (simp add: distinct_count_atmost_1)
  then have "objects_ok a Mt (mset objs)" using slot by (auto simp: objects_ok_def)
  then show "alloc_inv (fill_with_union_objects a n s) Mt {#} {#}"
    using inv free by (simp add: o(1) alloc_inv_def geometry_def used_pages_def objects_ok_def object_slot_def)
  show "same_memory a (fill_with_union_objects a n s)" by (simp add: o(1) same_memory_def)
qed

lemma prepared_bitset:
  assumes cap: "cap \<le> n" "n < 2 ^ 31" and used: "0 < used" "used \<le> cap"
  obtains ws ws' where "bitset_mark_invalid (replicate (bitset_size n div 8) 0) cap = Some ws"
    "bitset_set_range ws cap 0 used = Some ws'" "members ws' cap = mset_set {0..<used}"
    "bitset_ok ws' cap"
proof -
  have "bitset_size n div 8 = n_words_of n" by (simp add: bitset_size_def n_words_of_def)
  then have "cap \<le> 64 * (bitset_size n div 8)" using n_words_bounds(1) [of n] cap(1) by simp
  then obtain ws where ws: "bitset_mark_invalid (replicate (bitset_size n div 8) 0) cap = Some ws"
    "bits ws = {cap..<64 * n_words_of cap}" "bitset_ok ws cap"
    using bitset_mark_invalid_fresh [of cap "bitset_size n div 8"] cap by auto
  have "{0..<0 + used} \<inter> bits ws = {}" using used ws(2) by auto
  then obtain ws' where ws': "bitset_set_range ws cap 0 used = Some ws'" "length ws' = length ws"
    "bits ws' = bits ws \<union> {0..<0 + used}"
    using bitset_set_range_bits [of ws cap used 0] ws(3) used by (auto simp: bitset_ok_def)
  have "bits ws' \<inter> {..<cap} = {0..<used}" using ws'(3) ws(2) used by auto
  then show thesis
    using ws ws' bitset_ok_grow [OF ws(3) ws'(2)] by (intro that [of ws ws']) (auto simp: members_def)
qed

lemma started_world:
  assumes B: "build_ok B" and k: "9 \<le> k" "k < 32" and n: "n * 2 ^ k < 2 ^ 32" "n < 2 ^ 31"
    and cap: "cap \<le> n" and used: "0 < used" "used \<le> cap"
    and maint: "64 dvd maint" "maint + free = used * 2 ^ k"
  obtains ws a where "bitset_mark_invalid (replicate (bitset_size n div 8) 0) cap = Some ws"
    "track_bitset_set_range
       \<lparr>allocator_address = ROUNDUPTO B raw (2 ^ k), allocated_memory = raw, page_shift = k,
        n_pages_bits = nbits, n_pages_capacity = cap, n_pages_maintenance = of_nat used,
        n_pages_high_watermark = 0, n_pages_allocated = 0, free_objects = [], page_bitset = ws,
        locked = False\<rparr> 0 used = Some a"
    "world_inv (mset_set {0..<used}) \<lparr>heap = fill_with_union_objects a free (ROUNDUPTO B raw (2 ^ k) + maint),
       managers = Map.empty\<rparr>"
    "same_memory a (fill_with_union_objects a free (ROUNDUPTO B raw (2 ^ k) + maint))"
    "page_shift a = k" "n_pages_capacity a = cap"
proof -
  obtain ws ws' where ws: "bitset_mark_invalid (replicate (bitset_size n div 8) 0) cap = Some ws"
    "bitset_set_range ws cap 0 used = Some ws'" "members ws' cap = mset_set {0..<used}"
    "bitset_ok ws' cap"
    using prepared_bitset [OF cap n(2) used] .
  define a0 where "a0 = \<lparr>allocator_address = ROUNDUPTO B raw (2 ^ k), allocated_memory = raw,
      page_shift = k, n_pages_bits = nbits, n_pages_capacity = cap, n_pages_maintenance = of_nat used,
      n_pages_high_watermark = 0, n_pages_allocated = 0, free_objects = [], page_bitset = ws,
      locked = False\<rparr>"
  define a where "a = track_update_high_watermark
      (a0\<lparr>page_bitset := ws', n_pages_allocated := of_nat used\<rparr>)"
  have sel: "allocator_address a = ROUNDUPTO B raw (2 ^ k)" "page_shift a = k" "n_pages_capacity a = cap"
    "page_bitset a = ws'" "free_objects a = []" "n_pages_maintenance a = of_nat used" "\<not> locked a"
    by (simp_all add: a_def a0_def)
  have tr: "track_bitset_set_range a0 0 used = Some a"
    using ws(2) by (simp add: track_bitset_set_range_def a_def a0_def)
  have "cap * 2 ^ k \<le> n * 2 ^ k" using cap by simp
  then have "cap * 2 ^ k < 2 ^ 32" using n(1) by (rule le_less_trans)
  moreover have "2 ^ k dvd ROUNDUPTO B raw (2 ^ k)" using B by (auto simp: build_ok_def)
  ultimately have "geometry a" using k by (simp add: geometry_def sel)
  then have inv: "alloc_inv a (mset_set {0..<used}) {#} {#}"
    using ws(3,4) by (simp add: alloc_inv_def used_pages_def objects_ok_def sel)
  note f = fresh_objects [OF inv sel(5) refl _ maint(1), unfolded sel, OF refl maint(2)]
  have "world_inv (mset_set {0..<used}) \<lparr>heap = fill_with_union_objects a free (ROUNDUPTO B raw (2 ^ k) + maint),
       managers = Map.empty\<rparr>"
    using f used(1) sel(7) by (simp add: world_inv_def same_memory_def)
  with ws(1) tr [unfolded a0_def] f(2) sel show thesis by (intro that) auto
qed

lemma maintenance_size:
  assumes B: "build_ok B" and n: "n < 2 ^ 23"
  defines "maint \<equiv> ROUNDUPTO B ((union_size + bitset_size n) mod 2 ^ 32) 64 mod 2 ^ 32"
  shows "64 dvd maint" "0 < maint"
proof -
  define x where "x = union_size + bitset_size n"
  have "n div 64 < 2 ^ 17" using n by (simp add: div_less_iff_less_mult)
  then have x: "64 \<le> x" "x < 2 ^ 22" by (simp_all add: x_def bitset_size_def of_bool_def)
  have "x mod 2 ^ 32 = x" using x(2) by simp
  then have m: "maint = ROUNDUPTO B x (2 ^ 6) mod 2 ^ 32" by (simp add: maint_def x_def)
  have r: "x \<le> ROUNDUPTO B x (2 ^ 6)" "ROUNDUPTO B x (2 ^ 6) < x + 2 ^ 6" "2 ^ 6 dvd ROUNDUPTO B x (2 ^ 6)"
    using B unfolding build_ok_def by blast+
  then have "maint = ROUNDUPTO B x (2 ^ 6)" using x(2) by (simp add: m)
  with r x(1) show "64 dvd maint" "0 < maint" by simp_all
qed

lemma first_pages:
  assumes k: "9 \<le> k" "k < 32" and n: "n * 2 ^ k < 2 ^ 32" and maint: "0 < maint" "maint < n * 2 ^ k"
  defines "used \<equiv> u32_add (drop_bit k maint) (of_bool (maint AND (2 ^ k - 1) \<noteq> 0))"
  shows "used * 2 ^ k = maint + (u32_shl used k - maint)" "u32_shl used k - maint < 2 ^ k" "0 < used"
proof -
  define q r where "q = maint div 2 ^ k" and "r = maint mod 2 ^ k"
  have m: "q * 2 ^ k + r = maint" "r < 2 ^ k" unfolding q_def r_def by (simp_all only: div_mult_mod_eq) simp
  have "q * 2 ^ k \<le> maint" using m(1) by simp
  also have "\<dots> < n * 2 ^ k" by (rule maint(2))
  finally have qn: "q < n" by simp
  have "n * 1 \<le> n * 2 ^ k" by (intro mult_le_mono) auto
  then have n32: "n < 2 ^ 32" using n by (simp only: mult_1_right le_less_trans)
  have "maint AND (2 ^ k - 1) = r"
    unfolding r_def take_bit_eq_mod [symmetric] take_bit_eq_mask mask_eq_exp_minus_1 ..
  then have "used = u32_add q (of_bool (r \<noteq> 0))"
    by (simp only: used_def drop_bit_eq_div q_def)
  then have u: "used = q + of_bool (r \<noteq> 0)"
    using qn n32 by (simp add: u32_add_def)
  then have "used \<le> n" using qn by simp
  then have "used * 2 ^ k \<le> n * 2 ^ k" by (rule mult_le_mono1)
  then have shl: "u32_shl used k = used * 2 ^ k"
    using n unfolding u32_shl_def push_bit_eq_mult by (intro mod_less) (rule le_less_trans)
  have "maint \<le> used * 2 ^ k" "used * 2 ^ k < maint + 2 ^ k"
    unfolding u using m by (cases "r = 0"; simp)+
  with shl show "used * 2 ^ k = maint + (u32_shl used k - maint)" "u32_shl used k - maint < 2 ^ k"
    by simp_all
  show "0 < used" using u m maint(1) by (cases "r = 0") (auto intro: gr0I)
qed

section \<open>The constructor\<close>

definition initial_world :: "allocator \<Rightarrow> world" where
  "initial_world a = \<lparr>heap = a, managers = Map.empty\<rparr>"

definition creation_ok :: "u32 \<Rightarrow> (allocator option \<times> nat \<times> nat) \<Rightarrow> bool" where
  "creation_ok page_in r \<longleftrightarrow> (case r of (None, t, p) \<Rightarrow> True
     | (Some a, t, p) \<Rightarrow> (\<exists>Mt. world_inv Mt (initial_world a)) \<and> t = total_memory a \<and> p = page_size a
         \<and> p = unat (npot page_in))"

lemma CreateAllocator_returns:
  assumes B: "build_ok B"
  shows "\<exists>r. CreateAllocator B c total_in page_in = Some r \<and> creation_ok page_in r"
proof -
  define ps T where "ps = unat (npot page_in)" and "T = unat total_in"
  show ?thesis
  proof (cases "T \<le> ps \<or> T = 0 \<or> ps = 0 \<or> ps < ALLOCATOR_ALIGNMENT B
      \<or> ps div union_size < MIN_NUMBER_OF_OBJECTS_PER_PAGE")
    case True
    then show ?thesis
      by (simp add: CreateAllocator_def ps_def [symmetric] T_def [symmetric] creation_ok_def Let_def)
        auto
  next
    case False
    then have ps: "ps \<noteq> 0" "512 \<le> ps" "ps < T"
      by (auto simp: MIN_NUMBER_OF_OBJECTS_PER_PAGE_def less_eq_div_iff_mult_less_eq not_less)
    have "npot page_in \<noteq> 0" using ps(1) by (auto simp: ps_def)
    then obtain k where k: "k < 32" "ps = 2 ^ k" using npot_power_of_two [of page_in] by (auto simp: ps_def)
    have k9: "9 \<le> k"
    proof (rule ccontr)
      assume "\<not> 9 \<le> k"
      then have "(2 :: nat) ^ k \<le> 2 ^ 8" by (intro power_increasing) auto
      with ps(2) k(2) show False by simp
    qed
    define n where "n = T div ps"
    have "n * ps \<le> T" by (simp add: n_def)
    also have "T < 2 ^ 32" unfolding T_def by (rule order_less_le_trans [OF unsigned_less]) simp
    finally have n: "n * ps < 2 ^ 32" .
    have "n * 512 \<le> n * ps" using ps(2) by (rule mult_le_mono2)
    then have "n * 512 < 2 ^ 32" using n by (rule le_less_trans)
    then have n23: "n < 2 ^ 23" by simp
    have shift: "page_shift_loop ps 0 = k" using page_shift_loop_power [of 0 k] by (simp add: k(2))
    define maint where "maint = ROUNDUPTO B ((union_size + bitset_size n) mod 2 ^ 32) 64 mod 2 ^ 32"
    note ms = maintenance_size [OF B n23, folded maint_def]
    define used free where "used = u32_add (drop_bit k maint) (of_bool (maint AND (ps - 1) \<noteq> 0))"
      and "free = u32_shl used k - maint"
    define nbits where "nbits = n_pages_bits_loop n 1"
    have f: "(T \<le> ps \<or> T = 0 \<or> ps = 0 \<or> ps < ALLOCATOR_ALIGNMENT B) = False"
      "(ps div union_size < MIN_NUMBER_OF_OBJECTS_PER_PAGE) = False" using False by blast+
    have nmod: "n * ps mod 2 ^ 32 = n * ps" using n by (rule mod_less)
    have unfold: "CreateAllocator B c total_in page_in = (if n * ps \<le> maint then Some (None, n * ps, ps)
        else reserve_loop n ps used free \<bind> (\<lambda>(used_pages, free_memory).
          if used_pages \<ge> n - 1 then Some (None, n * ps, ps)
          else case c of None \<Rightarrow> Some (None, n * ps, ps)
          | Some raw \<Rightarrow>
             let cap = (if ROUNDUPTO B raw ps \<noteq> raw then n - 1 else n) in
             bitset_mark_invalid (replicate (bitset_size n div 8) 0) cap \<bind> (\<lambda>ws.
             track_bitset_set_range
              \<lparr>allocator_address = ROUNDUPTO B raw ps, allocated_memory = raw, page_shift = k,
               n_pages_bits = nbits, n_pages_capacity = cap,
               n_pages_maintenance = of_nat used_pages, n_pages_high_watermark = 0,
               n_pages_allocated = 0, free_objects = [], page_bitset = ws, locked = False\<rparr>
              0 used_pages \<bind> (\<lambda>a.
             Some (Some (fill_with_union_objects a free_memory (ROUNDUPTO B raw ps + maint)),
                   u32_shl cap k, ps)))))"
      unfolding CreateAllocator_def Let_def ps_def [symmetric] T_def [symmetric] n_def [symmetric]
        shift nmod maint_def [symmetric] used_def [symmetric] free_def [symmetric] nbits_def [symmetric]
      by (simp only: f if_False)
    show ?thesis
    proof (cases "n * ps \<le> maint")
      case True
      then show ?thesis by (simp add: unfold creation_ok_def)
    next
      case big: False
      have fp: "used * 2 ^ k = maint + free" "free < 2 ^ k" "0 < used"
        using first_pages [OF k9 k(1) n [unfolded k(2)] ms(2)] big by (simp_all add: used_def free_def k(2))
      obtain used' free' where rl: "reserve_loop n ps used free = Some (used', free')"
        "used' * ps = maint + free'" "used \<le> used'"
        using reserve_loop_ends [OF ps(2) n _ fp(1) [folded k(2)]] fp(2) big by (auto simp: k(2))
      show ?thesis
      proof (cases "used' \<ge> n - 1 \<or> c = None")
        case True
        then show ?thesis using big by (auto simp: unfold rl(1) creation_ok_def)
      next
        case False
        then obtain raw where raw: "c = Some raw" "used' < n - 1" by auto
        define cap where "cap = (if ROUNDUPTO B raw ps \<noteq> raw then n - 1 else n)"
        have cap: "cap \<le> n" "used' \<le> cap" "0 < used'" using raw(2) fp(3) rl(3) by (auto simp: cap_def)
        have n31: "n < 2 ^ 31" using n23 by simp
        have sum: "maint + free' = used' * 2 ^ k" using rl(2) by (simp add: k(2))
        obtain ws a where st: "bitset_mark_invalid (replicate (bitset_size n div 8) 0) cap = Some ws"
          "track_bitset_set_range
             \<lparr>allocator_address = ROUNDUPTO B raw (2 ^ k), allocated_memory = raw, page_shift = k,
              n_pages_bits = nbits, n_pages_capacity = cap, n_pages_maintenance = of_nat used',
              n_pages_high_watermark = 0, n_pages_allocated = 0, free_objects = [], page_bitset = ws,
              locked = False\<rparr> 0 used' = Some a"
          "world_inv (mset_set {0..<used'}) (initial_world
             (fill_with_union_objects a free' (ROUNDUPTO B raw (2 ^ k) + maint)))"
          "same_memory a (fill_with_union_objects a free' (ROUNDUPTO B raw (2 ^ k) + maint))"
          "page_shift a = k" "n_pages_capacity a = cap"
          using started_world [OF B k9 k(1) n [unfolded k(2)] n31 cap(1,3,2) ms(1) sum, of raw nbits]
          unfolding initial_world_def by blast
        define b where "b = fill_with_union_objects a free' (ROUNDUPTO B raw (2 ^ k) + maint)"
        have e: "CreateAllocator B c total_in page_in = Some (Some b, u32_shl cap k, ps)"
          unfolding unfold unfolding Let_def raw(1) option.case unfolding cap_def [symmetric] unfolding k(2) b_def
          using big [unfolded k(2)] raw(2) st(1,2) rl(1) [unfolded k(2)] by simp
        have sel: "page_shift b = k" "n_pages_capacity b = cap"
          using st(4-6) by (simp_all add: b_def same_memory_def)
        have "page_size b = ps"
          using page_size_eq [of b] world_geometry [OF st(3), folded b_def]
          by (simp add: sel k(2) initial_world_def)
        then show ?thesis
          using st(3) unfolding e creation_ok_def
          by (auto simp: b_def [symmetric] total_memory_def sel ps_def)
      qed
    qed
  qed
qed

end
