(* ===== verification/Scorep_Allocator_Props.thy ===== *)
theory Scorep_Allocator_Props
  imports Scorep_Allocator_Create
begin

text \<open>
  The properties of the allocator in every state that creation and valid requests can reach.
\<close>

section \<open>States of a running allocator\<close>

definition allocator_state :: "build \<Rightarrow> world \<Rightarrow> bool" where
  "allocator_state B w \<longleftrightarrow> (\<exists>c total page a0 t p.
     CreateAllocator B c total page = Some (Some a0, t, p) \<and> reachable B a0 w)"

lemma reachable_inv:
  assumes "reachable B a0 w" "build_ok B" "world_inv Mt0 (initial_world a0)"
  shows "\<exists>Mt. world_inv Mt w"
  using assms(1)
proof (induction rule: reachable.induct)
  case start
  then show ?case using assms(3) by (auto simp: initial_world_def)
next
  case (step w r res w')
  then obtain Mt where "world_inv Mt w" by blast
  then show ?case using execute_stays [OF assms(2) _ step(2)] step(3) by (auto simp: stays_def)
qed

lemma allocator_state_inv:
  assumes "build_ok B" "allocator_state B w"
  obtains Mt where "world_inv Mt w"
proof -
  obtain c total page a0 t p where a0: "CreateAllocator B c total page = Some (Some a0, t, p)"
    "reachable B a0 w" using assms(2) by (auto simp: allocator_state_def)
  obtain r where "CreateAllocator B c total page = Some r" "creation_ok page r"
    using CreateAllocator_returns [OF assms(1)] by blast
  then have "\<exists>Mt. world_inv Mt (initial_world a0)" using a0(1) by (auto simp: creation_ok_def)
  then show thesis using reachable_inv [OF a0(2) assms(1)] that by blast
qed

lemma allocator_state_step:
  "allocator_state B w \<Longrightarrow> valid B w r \<Longrightarrow> execute B w r = Some (res, w') \<Longrightarrow> allocator_state B w'"
  unfolding allocator_state_def using reachable.step by blast

section \<open>A concrete allocator\<close>

text \<open>64 KiB in pages of 512 bytes, its first manager, and a manager of moved pages.\<close>

definition sample_allocator :: allocator where
  "sample_allocator = \<lparr>allocator_address = 4096, allocated_memory = 4096, page_shift = 9,
     n_pages_bits = 8, n_pages_capacity = 128, n_pages_maintenance = 1, n_pages_high_watermark = 1,
     n_pages_allocated = 1, free_objects = [4480, 4416, 4352, 4288, 4224], page_bitset = [1, 0],
     locked = False\<rparr>"

definition sample_taken :: allocator where
  "sample_taken = sample_allocator\<lparr>free_objects := [4352, 4288, 4224], page_bitset := [3, 0],
     n_pages_allocated := 2, n_pages_high_watermark := 2\<rparr>"

definition sample_page :: page where
  "sample_page = \<lparr>page_object = 4416, memory_start_address = 4608, memory_end_address = 5120,
     memory_current_address = 4608, memory_alignment_loss = 0\<rparr>"

definition sample_manager :: page_manager where
  "sample_manager = \<lparr>manager_object = 4480, pages_in_use_list = [sample_page],
     moved_page_id_mapping_page = None, moved_page_id_mapping = [], last_allocation = 0\<rparr>"

definition sample_moved :: page_manager where
  "sample_moved = \<lparr>manager_object = 4480, pages_in_use_list = [],
     moved_page_id_mapping_page = Some (sample_page\<lparr>memory_current_address := 5120\<rparr>),
     moved_page_id_mapping = replicate 128 0, last_allocation = 0\<rparr>"

lemmas page_eval = u32_add_def u32_shl_def drop_bit_eq_div push_bit_eq_mult Let_def
  bitset_size_def n_words_of_def bitset_mark_invalid_def bitset_set_range_def full_words.simps
  bitset_find_and_set_def bitset_next_free_def next_free_scan_def find_word.simps
  find_first_zero_def shift_count.simps bitset_set_def fill_with_union_objects.simps
  track_bitset_set_range_def track_bitset_find_and_set_def track_update_high_watermark_def
  get_page_def get_union_object_def put_union_object_def init_page_def set_page_usage_def
  set_page_order_def lock_allocator_def unlock_allocator_def get_page_manager_def
  page_manager_get_new_page_def get_order_def page_mask_def page_size_def grab_page_memory_def
  roundup_build_def

lemmas sample_defs = sample_allocator_def sample_taken_def sample_page_def sample_manager_def
  sample_moved_def

lemma sample_created:
  "CreateAllocator roundup_build (Some 4096) 65536 512 = Some (Some sample_allocator, 65536, 512)"
proof -
  have np: "npot 512 = 512" by (simp add: npot_def Let_def)
  have sh: "page_shift_loop 512 0 = 9" using page_shift_loop_power [of 0 9] by simp
  have rl: "reserve_loop 128 512 (Suc 0) 384 = Some (Suc 0, 384)" by (subst reserve_loop.simps) simp
  have rep: "replicate 2 0 = [0, 0 :: u64]" by (simp add: numeral_2_eq_2)
  have bs: "bitset_size 128 = 16" by (simp add: bitset_size_def)
  have mi: "bitset_mark_invalid [0, 0] 128 = Some [0, 0]" by (simp add: bitset_mark_invalid_def)
  have st: "bitset_set_range [0, 0] 128 0 (Suc 0) = Some [1, 0]"
    by (simp add: bitset_set_range_def u32_add_def full_words.simps)
  have nb: "n_pages_bits_loop 128 (Suc 0) = 8" by (simp add: n_pages_bits_loop.simps drop_bit_eq_div)
  have ua: "u32_add 0 (Suc 0) = Suc 0" by (simp add: u32_add_def)
  have shl: "u32_shl (Suc 0) 9 = 512" "u32_shl 128 9 = 65536"
    by (simp_all add: u32_shl_def push_bit_eq_mult)
  show ?thesis
    unfolding CreateAllocator_def Let_def
    by (simp add: np sh rl rep bs mi st nb ua shl MIN_NUMBER_OF_OBJECTS_PER_PAGE_def roundup_build_def
        track_bitset_set_range_def track_update_high_watermark_def sample_allocator_def
        fill_with_union_objects.simps)
qed

lemma sample_created_manager:
  "execute roundup_build (initial_world sample_allocator) Create
     = Some (Some 4480, put_manager (initial_world sample_allocator) sample_taken sample_manager)"
  by (simp add: execute_def initial_world_def CreatePageManager_def sample_defs page_eval)

lemma sample_created_moved:
  "execute roundup_build (initial_world sample_allocator) CreateMoved
     = Some (Some 4480, put_manager (initial_world sample_allocator) sample_taken sample_moved)"
  by (simp add: execute_def initial_world_def CreateMovedPageManager_def sample_defs page_eval)

definition sample_world :: "page_manager \<Rightarrow> world" where
  "sample_world m = put_manager (initial_world sample_allocator) sample_taken m"

lemma sample_states:
  "allocator_state roundup_build (initial_world sample_allocator)"
  "allocator_state roundup_build (sample_world sample_manager)"
  "allocator_state roundup_build (sample_world sample_moved)"
proof -
  show s: "allocator_state roundup_build (initial_world sample_allocator)"
    unfolding allocator_state_def initial_world_def
    using sample_created reachable.start by blast
  show "allocator_state roundup_build (sample_world sample_manager)"
    unfolding sample_world_def
    by (rule allocator_state_step [OF s _ sample_created_manager]) (simp add: valid_def)
  show "allocator_state roundup_build (sample_world sample_moved)"
    unfolding sample_world_def
    by (rule allocator_state_step [OF s _ sample_created_moved]) (simp add: valid_def)
qed

lemma sample_world_sel [simp]: "heap (sample_world m) = sample_taken"
  "managers (sample_world m) = [manager_object m \<mapsto> m]"
  by (simp_all add: sample_world_def initial_world_def)

section \<open>Memory in use\<close>

definition world_in_use :: "world \<Rightarrow> nat set" where
  "world_in_use w = (\<Union>m \<in> ran (managers w). in_use m)"

lemma managers_disjoint:
  assumes w: "world_inv Mt w" and m1: "managers w h1 = Some m1" and m2: "managers w h2 = Some m2"
    and ne: "h1 \<noteq> h2" and p: "p \<in> set (manager_pages m1)" and q: "q \<in> set (manager_pages m2)"
  shows "{memory_start_address p..<memory_end_address p}
    \<inter> {memory_start_address q..<memory_end_address q} = {}"
proof -
  let ?f = "ids_of (heap w)"
  have fin: "finite (dom (managers w))" using w by (simp add: world_inv_def)
  have "over ?f (managers w) = ?f m1 + over ?f ((managers w)(h1 := None))"
    by (rule over_focus [OF fin m1])
  moreover have "over ?f ((managers w)(h1 := None))
      = ?f m2 + over ?f ((managers w)(h1 := None, h2 := None))"
    using fin m2 ne by (intro over_focus) auto
  moreover have "page_ids (heap w) p + page_ids (heap w) q \<subseteq># ?f m1 + ?f m2"
    using list_ids_mem [OF p] list_ids_mem [OF q] unfolding ids_of_def by (rule subset_mset.add_mono)
  ultimately have "page_ids (heap w) p + page_ids (heap w) q \<subseteq># over ?f (managers w)"
    by (simp add: subset_mset.add_increasing2 add.assoc [symmetric])
  moreover have "page_wf (heap w) p" "page_wf (heap w) q"
    using w m1 m2 p q by (auto simp: world_inv_def manager_wf_def)
  ultimately show ?thesis using w by (intro pages_disjoint) (auto simp: world_inv_def)
qed

lemma block_fresh_world:
  assumes w: "world_inv Mt w" and h: "managers w h = Some m" and sm: "same_memory (heap w) a'"
    and w': "world_inv Mt' (put_manager w a' m')" and h': "manager_object m' = h"
    and b: "allocated_block a' m n al memory m'"
  shows "al dvd memory" "{memory..<memory + n} \<inter> world_in_use w = {}"
    "world_in_use w \<union> {memory..<memory + n} \<subseteq> world_in_use (put_manager w a' m')"
proof -
  show "al dvd memory" using b by (simp add: allocated_block_def)
  have m': "managers (put_manager w a' m') h = Some m'" using h' by simp
  obtain p where p: "p \<in> set (pages_in_use_list m')" "memory_start_address p \<le> memory"
    "memory_current_address p = memory + n"
    using b by (auto simp: allocated_block_def)
  then have pm: "p \<in> set (manager_pages m')" by (simp add: manager_pages_def)
  have "{memory..<memory + n} \<inter> in_use m2 = {}" if m2: "m2 \<in> ran (managers w)" for m2
  proof -
    obtain h2 where h2: "managers w h2 = Some m2" using m2 by (auto simp: ran_def)
    show ?thesis
    proof (cases "h2 = h")
      case True
      then show ?thesis using b h h2 by (auto simp: allocated_block_def)
    next
      case False
      then have m2': "managers (put_manager w a' m') h2 = Some m2" using h' h2 by simp
      have "{memory..<memory + n} \<inter> {memory_start_address q..<memory_current_address q} = {}"
        if q: "q \<in> set (manager_pages m2)" for q
      proof -
        have "{memory_start_address p..<memory_end_address p}
            \<inter> {memory_start_address q..<memory_end_address q} = {}"
          using managers_disjoint [OF w' m' m2' _ pm q] False by blast
        moreover have "{memory..<memory + n} \<subseteq> {memory_start_address p..<memory_end_address p}"
          using p(2,3) live_page_range(3) [OF w' m' pm] by auto
        moreover have "{memory_start_address q..<memory_current_address q}
            \<subseteq> {memory_start_address q..<memory_end_address q}"
          using live_page_range(3) [OF w' m2' q] by auto
        ultimately show ?thesis by blast
      qed
      then show ?thesis by (auto simp: in_use_def simp del: Int_atLeastLessThan)
    qed
  qed
  then show "{memory..<memory + n} \<inter> world_in_use w = {}" by (auto simp: world_in_use_def)
  have "in_use m2 \<subseteq> world_in_use (put_manager w a' m')" if m2: "m2 \<in> ran (managers w)" for m2
  proof -
    obtain h2 where h2: "managers w h2 = Some m2" using m2 by (auto simp: ran_def)
    show ?thesis
    proof (cases "h2 = h")
      case True
      then show ?thesis using b h h2 m' by (auto simp: allocated_block_def world_in_use_def ran_def)
    next
      case False
      then show ?thesis using h' h2 by (auto simp: world_in_use_def ran_def)
    qed
  qed
  moreover have "{memory..<memory + n} \<subseteq> world_in_use (put_manager w a' m')"
    using b m' by (auto simp: allocated_block_def world_in_use_def ran_def)
  ultimately show "world_in_use w \<union> {memory..<memory + n} \<subseteq> world_in_use (put_manager w a' m')"
    by (auto simp: world_in_use_def)
qed

text \<open>The address range a successful request hands out, and the alignment it asks for.\<close>

definition handed_out :: "world \<Rightarrow> request \<Rightarrow> nat \<Rightarrow> nat set" where
  "handed_out w r x = (case r of
     Alloc h n \<Rightarrow> {x..<x + n} | Aligned h al n \<Rightarrow> {x..<x + n}
   | Movable h n \<Rightarrow> {allocator_address (heap w) + x..<allocator_address (heap w) + x + n} | _ \<Rightarrow> {})"

definition asked_alignment :: "build \<Rightarrow> request \<Rightarrow> nat" where
  "asked_alignment B r = (case r of Aligned h al n \<Rightarrow> al | _ \<Rightarrow> ALLOCATOR_ALIGNMENT B)"

definition is_alloc :: "request \<Rightarrow> bool" where
  "is_alloc r = (case r of Alloc h n \<Rightarrow> True | Aligned h al n \<Rightarrow> True | Movable h n \<Rightarrow> True | _ \<Rightarrow> False)"

section \<open>Properties\<close>

text \<open>
  \<open>SCOREP_Allocator_CreateAllocator\<close> returns for all arguments (its reservation loop ends in
  spite of the 32-bit sum). When it returns an allocator, the page size is the next power of two of
  the one asked for, the allocator is aligned to it, the memory announced to the caller is the number
  of pages times the page size, and exactly the maintenance pages are in use.
\<close>

theorem allocator_creation:
  assumes "build_ok B"
  shows "\<exists>res t p. CreateAllocator B c total_in page = Some (res, t, p) \<and> (\<forall>a. res = Some a \<longrightarrow>
     p = unat (npot page) \<and> p = page_size a \<and> p dvd allocator_address a
     \<and> t = n_pages_capacity a * p \<and> \<not> locked a
     \<and> of_nat (card (bits (page_bitset a) \<inter> {..<n_pages_capacity a})) = n_pages_maintenance a)"
proof -
  obtain res t p where r: "CreateAllocator B c total_in page = Some (res, t, p)"
    "creation_ok page (res, t, p)"
    using CreateAllocator_returns [OF assms] by (metis prod_cases3)
  have "p = unat (npot page) \<and> p = page_size a \<and> p dvd allocator_address a
      \<and> t = n_pages_capacity a * p \<and> \<not> locked a
      \<and> of_nat (card (bits (page_bitset a) \<inter> {..<n_pages_capacity a})) = n_pages_maintenance a"
    if a: "res = Some a" for a
  proof -
    obtain Mt where w: "world_inv Mt (initial_world a)" and p: "t = total_memory a" "p = page_size a"
      "p = unat (npot page)"
      using r(2) a by (auto simp: creation_ok_def)
    have g: "geometry a" using world_geometry [OF w] by (simp add: initial_world_def)
    have u: "used_pages a = Mt" "n_pages_maintenance a = of_nat (size Mt)" "\<not> locked a"
      using w by (simp_all add: world_inv_def alloc_inv_def initial_world_def)
    have "size Mt = card (bits (page_bitset a) \<inter> {..<n_pages_capacity a})"
      unfolding u(1) [symmetric] used_pages_def members_def by simp
    moreover have "page_size a dvd allocator_address a" "t = n_pages_capacity a * page_size a"
      using g total_memory_eq [OF g] page_size_eq [OF g] p(1) by (simp_all add: geometry_def)
    ultimately show ?thesis using u(2,3) p(2,3) by simp
  qed
  with r(1) show ?thesis by blast
qed

theorem allocator_creation_witness:
  "\<exists>a. CreateAllocator roundup_build (Some 4096) 65536 512 = Some (Some a, 65536, 512)
    \<and> 512 dvd allocator_address a \<and> n_pages_capacity a * 512 = 65536"
  using allocator_creation [OF roundup_build_ok, of "Some 4096" 65536 512] sample_created by auto

text \<open>
  C1. In every reachable state every valid request returns: no assertion of the allocator, its
  pages or its bitset fails, no lock is taken twice, no index is out of range, and afterwards the
  lock is free and the state is again a reachable one.
\<close>

theorem allocator_requests_return:
  assumes B: "build_ok B" and w: "allocator_state B w" and v: "valid B w r"
  shows "\<exists>res w'. execute B w r = Some (res, w') \<and> \<not> locked (heap w') \<and> allocator_state B w'"
proof -
  obtain Mt where "world_inv Mt w" by (rule allocator_state_inv [OF B w])
  then have "stays B Mt w r" using execute_stays [OF B _ v] by blast
  then obtain res w' Mt' where e: "execute B w r = Some (res, w')" "world_inv Mt' w'"
    by (auto simp: stays_def)
  moreover have "\<not> locked (heap w')" using e(2) by (simp add: world_inv_def)
  ultimately show ?thesis using allocator_state_step [OF w v] by blast
qed

theorem allocator_requests_return_witness:
  "\<exists>res w'. execute roundup_build (sample_world sample_manager) (Aligned 4480 64 100) = Some (res, w')
     \<and> \<not> locked (heap w') \<and> allocator_state roundup_build w'"
  using allocator_requests_return [OF roundup_build_ok sample_states(2), of "Aligned 4480 64 100"]
  by (simp add: valid_def sample_defs roundup_build_def page_size_def u32_shl_def)

text \<open>The two outcomes of an allocation request.\<close>

definition null_outcome :: "world \<Rightarrow> nat \<Rightarrow> world \<Rightarrow> bool" where
  "null_outcome w n w' \<longleftrightarrow> world_in_use w' = world_in_use w \<and> (total_memory (heap w) < n
     \<or> (\<forall>q. \<not> free_range (page_bitset (heap w')) (n_pages_capacity (heap w)) (get_order (heap w) n) q))"

definition block_outcome :: "world \<Rightarrow> nat \<Rightarrow> nat \<Rightarrow> nat \<Rightarrow> world \<Rightarrow> bool" where
  "block_outcome w n al memory w' \<longleftrightarrow> al dvd memory
     \<and> {memory..<memory + n} \<inter> world_in_use w = {}
     \<and> world_in_use w \<union> {memory..<memory + n} \<subseteq> world_in_use w'
     \<and> allocator_address (heap w) + page_size (heap w) \<le> memory
     \<and> memory + n \<le> allocator_address (heap w) + total_memory (heap w)"

lemma same_manager_in_use:
  assumes "world_inv Mt w" "managers w h = Some m"
  shows "world_in_use (put_manager w a' m) = world_in_use w"
proof -
  have "manager_object m = h" using assms by (simp add: world_inv_def)
  then have "managers (put_manager w a' m) = managers w" using assms(2) by (simp add: map_upd_triv)
  then show ?thesis by (simp add: world_in_use_def)
qed

lemma block_outcome_put:
  assumes w: "world_inv Mt w" and h: "managers w h = Some m" and sm: "same_memory (heap w) a'"
    and w': "world_inv Mt' (put_manager w a' m')" and h': "manager_object m' = h"
    and b: "allocated_block a' m n al memory m'"
  shows "block_outcome w n al memory (put_manager w a' m')"
  using block_fresh_world [OF assms] allocated_block_range [OF w' b] sm
    page_size_eq [OF world_geometry [OF w]] total_memory_eq [OF world_geometry [OF w]]
  by (simp add: block_outcome_def same_memory_def)



text \<open>
  A movable allocation that is rolled back leaves no trace in the memory in use: the block
  \<open>SCOREP_Allocator_AllocMovable\<close> handed out is fresh, \<open>SCOREP_Allocator_RollbackAllocMovable\<close> of
  its offset succeeds, and the block is not in use any more.
\<close>

theorem allocator_rollback:
  assumes "build_ok B" and "allocator_state B w" and "valid B w (Movable h n)"
    and "execute B w (Movable h n) = Some (Some x, w')"
  shows "block_outcome w n (ALLOCATOR_ALIGNMENT B) (allocator_address (heap w) + x) w'
    \<and> x \<noteq> 0 \<and> (\<exists>w''. execute B w' (Rollback h x) = Some (None, w'')
      \<and> world_in_use w \<subseteq> world_in_use w'' \<and> world_in_use w'' \<subseteq> world_in_use w'
      \<and> allocator_address (heap w) + x \<notin> world_in_use w'')"
proof -
  obtain Mt where inv: "world_inv Mt w" by (rule allocator_state_inv [OF assms(1,2)])
  obtain m where m: "managers w h = Some m" "moved_page_id_mapping_page m = None" "0 < n"
    using assms(3) by (auto simp: valid_def split: option.splits)
  show ?thesis
  proof (cases rule: execute_movable [OF assms(1) inv m])
    case (1 a' Mt')
    then show ?thesis using assms(4) by simp
  next
    case b: (2 memory a' m' Mt')
    have w': "w' = put_manager w a' m'" "x = memory - allocator_address a'"
      using b(1) assms(4) by simp_all
    note r = allocated_block_range [OF b(4,5)]
    have base: "allocator_address (heap w) = allocator_address a'" using b(2) by (simp add: same_memory_def)
    have x: "allocator_address a' + x = memory" using r(1) by (simp add: w'(2))
    have pos: "0 < x"
      using r(1) zero_less_power [of "2 :: nat" "page_shift a'"] unfolding w'(2) by linarith
    have m': "managers w' h = Some m'" using w'(1) b(7) by simp
    have inv': "world_inv Mt' w'" using b(4) w'(1) by simp
    have heap': "heap w' = a'" by (simp add: w'(1))
    note f = world_focus [OF inv' m', unfolded heap']
    have mp: "moved_page_id_mapping_page m' = None" by (rule b(8))
    have la: "last_allocation m' = x" using b(6) w'(2) by simp
    have bound: "page_size a' \<le> x" using rollback_bound [OF inv' m' _ mp] la pos by (simp add: heap')
    obtain m'' where rb: "RollbackAllocMovable a' m' x = Some m''" "manager_object m'' = manager_object m'"
      "in_use m'' \<subseteq> in_use m'" "memory \<notin> in_use m''" and
      keep: "\<And>q. q \<in> set (pages_in_use_list m') \<Longrightarrow> memory_start_address q \<le> memory \<Longrightarrow>
         memory < memory_current_address q \<Longrightarrow> in_use m' \<subseteq> in_use m'' \<union> {memory..<memory_current_address q}"
      by (rule RollbackAllocMovable_ok [OF f(1) mp la bound, unfolded x]) (rule that, assumption+)
    define w'' where "w'' = put_manager w' a' m''"
    have "execute B w' (Rollback h x) = Some (None, w'')"
      using m' rb(1) by (simp add: execute_def heap' w''_def)
    moreover have out: "block_outcome w n (ALLOCATOR_ALIGNMENT B) memory w'"
      using block_outcome_put [OF inv m(1) b(2,4,7,5)] by (simp add: w'(1))
    moreover have m'': "managers w'' = (managers w')(h \<mapsto> m'')" using rb(2) b(7) by (simp add: w''_def)
    obtain p where p: "p \<in> set (pages_in_use_list m')" "memory_start_address p \<le> memory"
      "memory_current_address p = memory + n" using b(5) by (auto simp: allocated_block_def)
    have sub: "in_use m' \<subseteq> in_use m'' \<union> {memory..<memory + n}" using keep [OF p(1,2)] p(3) m(3) by simp
    have others: "ran (managers w'') = insert m'' (ran ((managers w')(h := None)))"
      "ran (managers w') = insert m' (ran ((managers w')(h := None)))"
      unfolding m'' using m' by (auto simp: ran_def split: if_splits) (metis option.inject)
    have "world_in_use w' \<subseteq> world_in_use w'' \<union> {memory..<memory + n}" "world_in_use w'' \<subseteq> world_in_use w'"
      using sub rb(3) unfolding world_in_use_def others by auto
    moreover have "memory \<notin> world_in_use w''"
    proof -
      have "memory \<notin> in_use m2" if m2: "m2 \<in> ran ((managers w')(h := None))" for m2
      proof -
        obtain h2 where h2: "managers w' h2 = Some m2" "h2 \<noteq> h"
          using m2 by (auto simp: ran_def split: if_splits)
        then have "managers w h2 = Some m2" using w'(1) b(7) by simp
        then have "in_use m2 \<subseteq> world_in_use w" by (auto simp: world_in_use_def ran_def)
        then show ?thesis using out m(3) by (auto simp: block_outcome_def disjoint_iff)
      qed
      then show ?thesis using rb(4) unfolding world_in_use_def others by auto
    qed
    ultimately show ?thesis
      using pos unfolding base x by (auto simp: block_outcome_def)
  qed
qed

lemma sample_movable:
  "\<exists>w'. execute roundup_build (sample_world sample_manager) (Movable 4480 24) = Some (Some 512, w')"
  by (simp add: execute_def AllocMovable_def page_manager_alloc_def total_memory_def sample_defs page_eval)

theorem allocator_rollback_witness:
  "\<exists>w' w''. execute roundup_build (sample_world sample_manager) (Movable 4480 24) = Some (Some 512, w')
    \<and> execute roundup_build w' (Rollback 4480 512) = Some (None, w'')
    \<and> world_in_use (sample_world sample_manager) \<subseteq> world_in_use w''"
proof -
  have v: "valid roundup_build (sample_world sample_manager) (Movable 4480 24)"
    by (simp add: valid_def sample_defs)
  obtain w' where w': "execute roundup_build (sample_world sample_manager) (Movable 4480 24) = Some (Some 512, w')"
    using sample_movable by blast
  then show ?thesis using allocator_rollback [OF roundup_build_ok sample_states(2) v w'] by blast
qed

text \<open>
  C12. The set bits of the page bitset are accounted for one by one: each is a page of exactly one
  page of exactly one manager, or one of the \<open>n_pages_maintenance\<close> maintenance pages. So pages
  of different managers never overlap, and when all managers are deleted, every page that is not a
  maintenance page is free again.
\<close>

theorem allocator_page_accounting:
  assumes B: "build_ok B" and w: "allocator_state B w"
  shows "\<exists>Mt. mset_set (bits (page_bitset (heap w)) \<inter> {..<n_pages_capacity (heap w)})
      = Mt + (\<Sum>h \<in> dom (managers w). \<Sum>p \<leftarrow> manager_pages (the (managers w h)).
          mset_set {get_page_id (heap w) p..<get_page_id (heap w) p + get_page_order (heap w) p})
    \<and> n_pages_maintenance (heap w) = of_nat (size Mt)"
proof -
  obtain Mt where inv: "world_inv Mt w" by (rule allocator_state_inv [OF B w])
  have "over (ids_of (heap w)) (managers w)
      = (\<Sum>h \<in> dom (managers w). \<Sum>p \<leftarrow> manager_pages (the (managers w h)).
          mset_set {get_page_id (heap w) p..<get_page_id (heap w) p + get_page_order (heap w) p})"
    unfolding over_def ids_of_def list_ids_def by (simp add: page_ids_def [abs_def])
  with inv show ?thesis
    by (intro exI [of _ Mt]) (auto simp: world_inv_def alloc_inv_def used_pages_def members_def)
qed

theorem allocator_page_accounting_witness:
  "\<exists>Mt. mset_set (bits (page_bitset sample_taken) \<inter> {..<n_pages_capacity sample_taken}) = Mt + {#1#}
    \<and> n_pages_maintenance sample_taken = of_nat (size Mt)"
proof -
  have "get_page_id sample_taken sample_page = 1" "get_page_order sample_taken sample_page = 1"
    by (simp_all add: sample_defs get_page_id_def get_page_order_def get_page_length_def drop_bit_eq_div)
  then show ?thesis
    using allocator_page_accounting [OF roundup_build_ok sample_states(2)]
    by (simp add: manager_pages_def sample_manager_def)
qed

lemma page_or_offset:
  assumes "r < (2 :: nat) ^ k"
  shows "x * 2 ^ k OR r = x * 2 ^ k + r"
proof -
  have "push_bit k x AND r = 0"
  proof (rule bit_eqI)
    fix n
    have "\<not> bit r n" if "k \<le> n"
      using assms that by (metis bit_take_bit_iff not_le take_bit_nat_eq_self)
    then show "bit (push_bit k x AND r) n = bit 0 n" by (auto simp: bit_simps)
  qed
  then show ?thesis by (simp add: push_bit_eq_mult disjunctive_add_eq_or)
qed

text \<open>
  The address translation for moved pages. When \<open>SCOREP_Allocator_AllocMovedPage\<close> has placed
  the pages from \<open>i\<close> on of another process at the local address \<open>start\<close>, every movable offset
  into these pages translates to the same offset behind \<open>start\<close>.
\<close>

theorem allocator_moved_address:
  assumes "build_ok B" and "allocator_state B w" and "valid B w (MovedPage h i usage)"
    and "execute B w (MovedPage h i usage) = Some (Some start, w')" and "off < usage"
  shows "\<exists>m. managers w' h = Some m \<and> GetAddressFromMovedMemory (heap w') m
      (i * page_size (heap w') + off) = Some (start + off)"
proof -
  obtain Mt where inv: "world_inv Mt w" by (rule allocator_state_inv [OF assms(1,2)])
  obtain m where m: "managers w h = Some m" "moved_page_id_mapping_page m \<noteq> None" "0 < i"
    "i + get_order (heap w) usage \<le> n_pages_capacity (heap w)" "moved_page_id_mapping m ! i = 0"
    "0 < usage" "usage < 2 ^ 32"
    using assms(3) by (auto simp: valid_def split: option.splits)
  note f = world_focus [OF inv m(1)]
  show ?thesis
  proof (cases rule: AllocMovedPage_cases [OF f(1,3) m(2-7)])
    case (1 a' Mt')
    then show ?thesis using assms(4) m(1) by (simp add: execute_def)
  next
    case p: (2 p a' m' Mt')
    have w': "w' = put_manager w a' m'" "start = memory_start_address p"
      using p(1) assms(4) m(1) by (simp_all add: execute_def)
    have ok: "world_inv Mt' w'" using world_put [OF inv _ p(4,2)] p(7) f(2) by (simp add: w'(1))
    have m': "managers w' h = Some m'" using p(7) f(2) by (simp add: w'(1))
    have "p \<in> set (manager_pages m')" using p(5) by (simp add: manager_pages_def)
    moreover have "manager_wf a' m'" using p(4) by (simp add: manager_ok_def)
    ultimately have wf: "page_wf a' p" by (simp add: manager_wf_def)
    note r = page_range [OF wf]
    have g: "geometry a'" using world_geometry [OF ok] by (simp add: w'(1))
    have g0: "geometry (heap w)" by (rule world_geometry [OF inv])
    define s where "s = (2 :: nat) ^ page_shift a'"
    have s: "page_size a' = s" "0 < s" "2 ^ page_shift (heap w) = s"
      using page_size_eq [OF g] p(2) by (simp_all add: s_def same_memory_def)
    define j where "j = off div s"
    have "off < get_order (heap w) usage * s"
      using get_order_covers(1) [OF g0 m(6,7)] assms(5) unfolding s(3) by simp
    then have j: "j < get_order (heap w) usage"
      by (simp add: j_def div_less_iff_less_mult s(2))
    have off: "off = j * s + off mod s" by (simp add: j_def)
    define movable where "movable = i * s + off"
    have div: "drop_bit (page_shift a') movable = i + j"
      using s(2) by (simp add: drop_bit_eq_div s_def [symmetric] movable_def j_def)
    have mask: "movable AND page_mask a' = off mod s"
      by (simp add: page_mask_eq [OF g] take_bit_eq_mask [symmetric] take_bit_eq_mod s_def [symmetric]
          movable_def)
    have cap: "n_pages_capacity a' = n_pages_capacity (heap w)" using p(2) by (simp add: same_memory_def)
    have ij: "i + j < n_pages_capacity a'" using j m(4) cap by simp
    have "(i + j + 1) * s \<le> n_pages_capacity a' * s" using ij by (intro mult_le_mono) auto
    then have total: "movable < total_memory a'"
      unfolding total_memory_eq [OF g] s_def [symmetric] movable_def
      using off mod_less_divisor [OF s(2), of off] by (simp add: algebra_simps)
    have "s \<le> i * s" using m(3) by (cases i) auto
    then have low: "page_size a' \<le> movable" unfolding s(1) movable_def by (rule trans_le_add1)
    have id: "get_page_id (heap w) p = get_page_id a' p" using same_memory_pages(1) [OF p(2), of p] by simp
    then have cell: "moved_page_id_mapping m' ! (i + j) = get_page_id a' p + j" "get_page_id a' p + j \<noteq> 0"
      using p(10,11) j by auto
    have "get_page_order a' p = get_order (heap w) usage"
      using same_memory_pages(2) [OF p(2), of p] p(12) by simp
    then have ord: "get_page_id a' p + j \<le> n_pages_capacity a'" using r j by simp
    have "u32_shl (get_page_id a' p + j) (page_shift a') OR off mod s
        = (get_page_id a' p + j) * s + off mod s"
      using page_or_offset [of "off mod s" "page_shift a'" "get_page_id a' p + j"] s(2)
      by (simp add: u32_shl_page [OF g ord] s_def)
    then have "allocator_address a' + (u32_shl (get_page_id a' p + j) (page_shift a') OR off mod s)
        = memory_start_address p + off"
      using r off by (simp add: s_def [symmetric] algebra_simps)
    moreover have "moved_page_id_mapping_page m' \<noteq> None" using p(8) m(2) by simp
    ultimately show ?thesis
      using m' low total cell ij p(9) cap div mask
      by (simp add: GetAddressFromMovedMemory_def w' s(1) movable_def [symmetric])
  qed
qed

lemma sample_moved_page:
  "\<exists>w'. execute roundup_build (sample_world sample_moved) (MovedPage 4480 5 300) = Some (Some 5120, w')"
  by (simp add: execute_def AllocMovedPage_def sample_defs page_eval get_page_id_def
      get_page_order_def get_page_length_def)

theorem allocator_moved_address_witness:
  "\<exists>w' m. execute roundup_build (sample_world sample_moved) (MovedPage 4480 5 300) = Some (Some 5120, w')
    \<and> managers w' 4480 = Some m
    \<and> GetAddressFromMovedMemory (heap w') m (5 * page_size (heap w') + 200) = Some (5120 + 200)"
proof -
  have v: "valid roundup_build (sample_world sample_moved) (MovedPage 4480 5 300)"
    by (simp add: valid_def sample_defs get_order_def u32_add_def drop_bit_eq_div page_mask_def
        page_size_def u32_shl_def)
  obtain w' where "execute roundup_build (sample_world sample_moved) (MovedPage 4480 5 300) = Some (Some 5120, w')"
    using sample_moved_page by blast
  then show ?thesis
    using allocator_moved_address [OF roundup_build_ok sample_states(3) v, of 5120 w' 200] by auto
qed

end
