(* ===== verification/Scorep_Hashtab.thy ===== *)
theory Scorep_Hashtab
  imports Scorep_Prelude "HOL-Library.Char_ord"
begin

text \<open>
  The chained hash table, \<open>src/src/utils/hashtab/\<close>. A bucket is the list of its collision items,
  head first; the hash and comparison functions are fields of the table, as in the C structure.
  A key is the data the C pointer refers to. \<open>malloc\<close> may fail: whether it succeeds is an argument
  of the constructor and of the insertion.

  \<^item> The locale \<open>hash_key\<close> states what a table needs from its two functions (the comparison is
    an equivalence and equal keys have equal hashes); it is interpreted for the functions of
    \<open>SCOREP_Hashtab_HashFuncs.c\<close> and \<open>SCOREP_Hashtab_CompareFuncs.c\<close>.
  \<^item> The locale \<open>dictionary\<close> is the contract of the clients, a finite map; \<open>hash_key\<close> is a
    sublocale of it.
\<close>

section \<open>Data\<close>

record ('k, 'v) listitem =
  item_key :: 'k
  item_value :: 'v
  hash_value :: u64

record ('k, 'v) hashtab =
  table :: "('k, 'v) listitem list list"
  tabsize :: nat
  tab_items :: u64
  hash_fn :: "'k \<Rightarrow> u64"
  kcmp_fn :: "'k \<Rightarrow> 'k \<Rightarrow> int"

section \<open>Operations\<close>

definition Hashtab_CreateSize ::
  "bool \<Rightarrow> nat \<Rightarrow> ('k \<Rightarrow> u64) \<Rightarrow> ('k \<Rightarrow> 'k \<Rightarrow> int) \<Rightarrow> ('k, 'v) hashtab option option" where
  "Hashtab_CreateSize mem_ok sz hashfunc kcmpfunc = do {
     assertC (sz > 0);
     Some (if mem_ok
           then Some \<lparr>table = replicate sz [], tabsize = sz, tab_items = 0, hash_fn = hashfunc,
                      kcmp_fn = kcmpfunc\<rparr>
           else None)
   }"

text \<open>The items in the order in which \<open>SCOREP_Hashtab_Free\<close> releases them.\<close>

fun Hashtab_Free_from :: "('k, 'v) hashtab \<Rightarrow> nat \<Rightarrow> nat \<Rightarrow> ('k, 'v) listitem list option" where
  "Hashtab_Free_from t index 0 = Some []"
| "Hashtab_Free_from t index (Suc n) = do {
     items \<leftarrow> arr_get (table t) index;
     rest \<leftarrow> Hashtab_Free_from t (Suc index) n;
     Some (items @ rest)
   }"

definition Hashtab_Free :: "('k, 'v) hashtab \<Rightarrow> ('k, 'v) listitem list option" where
  "Hashtab_Free t = Hashtab_Free_from t 0 (tabsize t)"

definition Hashtab_Size :: "('k, 'v) hashtab \<Rightarrow> u64" where
  "Hashtab_Size t = tab_items t"

definition Hashtab_Empty :: "('k, 'v) hashtab \<Rightarrow> bool" where
  "Hashtab_Empty t \<longleftrightarrow> tab_items t = 0"

definition Hashtab_Insert ::
  "bool \<Rightarrow> ('k, 'v) hashtab \<Rightarrow> 'k \<Rightarrow> 'v \<Rightarrow> u64 option
   \<Rightarrow> (('k, 'v) listitem option \<times> ('k, 'v) hashtab) option" where
  "Hashtab_Insert mem_ok t key val hashValPtr =
     (let hashval = (case hashValPtr of Some h \<Rightarrow> h | None \<Rightarrow> hash_fn t key);
          index = unat hashval mod tabsize t
      in if \<not> mem_ok then Some (None, t)
         else do {
           items \<leftarrow> arr_get (table t) index;
           let item = \<lparr>item_key = key, item_value = val, hash_value = hashval\<rparr>;
           tab \<leftarrow> arr_set (table t) index (item # items);
           Some (Some item, t\<lparr>table := tab, tab_items := tab_items t + 1\<rparr>)
         })"

definition item_matches :: "('k, 'v) hashtab \<Rightarrow> 'k \<Rightarrow> u64 \<Rightarrow> ('k, 'v) listitem \<Rightarrow> bool" where
  "item_matches t key hashval item \<longleftrightarrow>
     hashval = hash_value item \<and> kcmp_fn t key (item_key item) = 0"

text \<open>The walk of a bucket in \<open>SCOREP_Hashtab_Remove\<close>: the unlinked item and the items left.\<close>

fun unlink :: "('a \<Rightarrow> bool) \<Rightarrow> 'a list \<Rightarrow> ('a \<times> 'a list) option" where
  "unlink p [] = None"
| "unlink p (item # items) =
     (if p item then Some (item, items)
      else case unlink p items of None \<Rightarrow> None | Some (x, rest) \<Rightarrow> Some (x, item # rest))"

text \<open>The result is the item whose key and value the delete functions get, and the table.\<close>

definition Hashtab_Remove ::
  "('k, 'v) hashtab \<Rightarrow> 'k \<Rightarrow> u64 option \<Rightarrow> (('k, 'v) listitem option \<times> ('k, 'v) hashtab) option" where
  "Hashtab_Remove t key hashValPtr =
     (let hashval = (case hashValPtr of Some h \<Rightarrow> h | None \<Rightarrow> hash_fn t key);
          index = unat hashval mod tabsize t
      in do {
        items \<leftarrow> arr_get (table t) index;
        case unlink (item_matches t key hashval) items of
          None \<Rightarrow> Some (None, t)
        | Some (item, rest) \<Rightarrow> do {
            tab \<leftarrow> arr_set (table t) index rest;
            Some (Some item, t\<lparr>table := tab\<rparr>)
          }
      })"

text \<open>The result is the entry and the hash value stored through \<open>hashValPtr\<close>.\<close>

definition Hashtab_Find ::
  "('k, 'v) hashtab \<Rightarrow> 'k \<Rightarrow> (('k, 'v) listitem option \<times> u64) option" where
  "Hashtab_Find t key =
     (let hashval = hash_fn t key; index = unat hashval mod tabsize t
      in do {
        items \<leftarrow> arr_get (table t) index;
        Some (find (item_matches t key hashval) items, hashval)
      })"

section \<open>Iteration\<close>

text \<open>\<open>iter_item\<close> is the rest of the collision list that starts with the current item; an empty
  list is the null pointer.\<close>

record ('k, 'v) hashtab_iter =
  iter_table :: "('k, 'v) hashtab"
  iter_index :: nat
  iter_item :: "('k, 'v) listitem list"

definition IteratorCreate :: "bool \<Rightarrow> ('k, 'v) hashtab \<Rightarrow> ('k, 'v) hashtab_iter option" where
  "IteratorCreate mem_ok t =
     (if mem_ok then Some \<lparr>iter_table = t, iter_index = 0, iter_item = []\<rparr> else None)"

text \<open>The loop of \<open>SCOREP_Hashtab_IteratorFirst\<close> reads the field before it compares the index.\<close>

function first_field :: "('k, 'v) hashtab \<Rightarrow> nat \<Rightarrow> nat option" where
  "first_field t index =
     (case arr_get (table t) index of
        None \<Rightarrow> None
      | Some items \<Rightarrow>
          if items = [] \<and> index < tabsize t then first_field t (Suc index) else Some index)"
  by pat_completeness auto
termination
  by (relation "measure (\<lambda>(t, index). length (table t) - index)")
    (auto simp: arr_get_def split: if_splits)

declare first_field.simps [simp del]

definition IteratorFirst ::
  "('k, 'v) hashtab_iter \<Rightarrow> (('k, 'v) listitem option \<times> ('k, 'v) hashtab_iter) option" where
  "IteratorFirst it =
     (if tab_items (iter_table it) = 0 then Some (None, it)
      else do {
        index \<leftarrow> first_field (iter_table it) 0;
        items \<leftarrow> arr_get (table (iter_table it)) index;
        case items of
          [] \<Rightarrow> None
        | item # _ \<Rightarrow> Some (Some item, it\<lparr>iter_index := index, iter_item := items\<rparr>)
      })"

function next_field ::
  "('k, 'v) hashtab \<Rightarrow> nat \<Rightarrow> ('k, 'v) listitem list \<Rightarrow> (nat \<times> ('k, 'v) listitem list) option" where
  "next_field t index items =
     (if items = [] then
        (let index = Suc index
         in if index = tabsize t then Some (index, [])
            else case arr_get (table t) index of
                   None \<Rightarrow> None
                 | Some items \<Rightarrow> next_field t index items)
      else Some (index, items))"
  by pat_completeness auto
termination
  by (relation "measure (\<lambda>(t, index, items). length (table t) - index)")
    (auto simp: arr_get_def split: if_splits)

declare next_field.simps [simp del]

definition IteratorNext ::
  "('k, 'v) hashtab_iter \<Rightarrow> (('k, 'v) listitem option \<times> ('k, 'v) hashtab_iter) option" where
  "IteratorNext it =
     (case iter_item it of
        [] \<Rightarrow> Some (None, it)
      | _ # items \<Rightarrow> do {
          (index, items) \<leftarrow> next_field (iter_table it) (iter_index it) items;
          let it = it\<lparr>iter_index := index, iter_item := items\<rparr>;
          Some (case items of [] \<Rightarrow> None | item # _ \<Rightarrow> Some item, it)
        })"

text \<open>The loop of \<open>SCOREP_Hashtab_Foreach\<close>: the entries in the order the function gets them.\<close>

partial_function (option) foreach_loop ::
  "('k, 'v) listitem option \<Rightarrow> ('k, 'v) hashtab_iter \<Rightarrow> ('k, 'v) listitem list option" where
  "foreach_loop entry it =
     (case entry of
        None \<Rightarrow> Some []
      | Some item \<Rightarrow>
          Option.bind (IteratorNext it) (\<lambda>(entry, it).
          Option.bind (foreach_loop entry it) (\<lambda>rest. Some (item # rest))))"

definition Hashtab_Foreach :: "('k, 'v) hashtab \<Rightarrow> ('k, 'v) listitem list option" where
  "Hashtab_Foreach t = do {
     it \<leftarrow> IteratorCreate True t;
     (entry, it) \<leftarrow> IteratorFirst it;
     foreach_loop entry it
   }"

text \<open>\<open>SCOREP_Hashtab_FreeAll\<close>: the entries whose keys and values are deleted, in order, and the
  items released.\<close>

definition Hashtab_FreeAll ::
  "('k, 'v) hashtab \<Rightarrow> (('k, 'v) listitem list \<times> ('k, 'v) listitem list) option" where
  "Hashtab_FreeAll t = do {
     it \<leftarrow> IteratorCreate True t;
     (entry, it) \<leftarrow> IteratorFirst it;
     deleted \<leftarrow> foreach_loop entry it;
     released \<leftarrow> Hashtab_Free t;
     Some (deleted, released)
   }"

section \<open>Hash and comparison functions\<close>

fun strcmp :: "string \<Rightarrow> string \<Rightarrow> int" where
  "strcmp [] [] = 0"
| "strcmp [] (d # ds) = - of_char d"
| "strcmp (c # cs) [] = of_char c"
| "strcmp (c # cs) (d # ds) = (if c = d then strcmp cs ds else of_char c - of_char d)"

text \<open>The characters of a C string are those before the first null character.\<close>

definition c_str :: "string \<Rightarrow> string" where
  "c_str s = takeWhile (\<lambda>c. c \<noteq> CHR 0x00) s"

definition CompareStrings :: "string \<Rightarrow> string \<Rightarrow> int" where
  "CompareStrings key ikey = strcmp (c_str key) (c_str ikey)"

definition CompareInt8 :: "8 word \<Rightarrow> 8 word \<Rightarrow> int" where
  "CompareInt8 key ikey = (if key = ikey then 0 else 1)"

definition CompareInt16 :: "16 word \<Rightarrow> 16 word \<Rightarrow> int" where
  "CompareInt16 key ikey = (if key = ikey then 0 else 1)"

definition CompareInt32 :: "32 word \<Rightarrow> 32 word \<Rightarrow> int" where
  "CompareInt32 key ikey = (if key = ikey then 0 else 1)"

definition CompareInt64 :: "64 word \<Rightarrow> 64 word \<Rightarrow> int" where
  "CompareInt64 key ikey = (if key = ikey then 0 else 1)"

definition CompareUint32 :: "u32 \<Rightarrow> u32 \<Rightarrow> int" where
  "CompareUint32 key ikey = of_bool (key \<noteq> ikey)"

definition CompareUint64 :: "u64 \<Rightarrow> u64 \<Rightarrow> int" where
  "CompareUint64 key ikey = of_bool (key \<noteq> ikey)"

definition ComparePointer :: "u64 \<Rightarrow> u64 \<Rightarrow> int" where
  "ComparePointer key ikey = (if key = ikey then 0 else 1)"

definition hash_char :: "char \<Rightarrow> u64 \<Rightarrow> u64" where
  "hash_char c h =
     (let h = h + of_char c; h = h + push_bit 10 h in h XOR drop_bit 6 h)"

definition HashString :: "string \<Rightarrow> u64" where
  "HashString str =
     (let h = fold hash_char (c_str str) 0;
          h = h + push_bit 3 h;
          h = h XOR drop_bit 11 h
      in h + push_bit 15 h)"

definition HashInt64 :: "u64 \<Rightarrow> u64" where
  "HashInt64 key = key * 11400714819323199488"

definition HashInt32 :: "u32 \<Rightarrow> u64" where
  "HashInt32 key = ucast (key * 2654435761)"

definition HashPointer :: "u64 \<Rightarrow> u64" where
  "HashPointer key = (key div 8) * 11400714819323199488"

section \<open>The table as a list of items\<close>

definition items_of :: "('k, 'v) hashtab \<Rightarrow> ('k, 'v) listitem list" where
  "items_of t = concat (table t)"

definition tab_ok :: "('k, 'v) hashtab \<Rightarrow> bool" where
  "tab_ok t \<longleftrightarrow> 0 < tabsize t \<and> length (table t) = tabsize t
     \<and> (\<forall>i < tabsize t. \<forall>item \<in> set (table t ! i).
          hash_value item = hash_fn t (item_key item) \<and> unat (hash_value item) mod tabsize t = i)"

definition hashtab_lookup :: "('k, 'v) hashtab \<Rightarrow> 'k \<Rightarrow> 'v option" where
  "hashtab_lookup t k = (case Hashtab_Find t k of Some (Some item, _) \<Rightarrow> Some (item_value item) | _ \<Rightarrow> None)"

definition tab_insert :: "('k, 'v) hashtab \<Rightarrow> 'k \<Rightarrow> 'v \<Rightarrow> ('k, 'v) hashtab option" where
  "tab_insert t k v = (case Hashtab_Insert True t k v None of Some (Some _, t') \<Rightarrow> Some t' | _ \<Rightarrow> None)"

definition tab_remove :: "('k, 'v) hashtab \<Rightarrow> 'k \<Rightarrow> ('k, 'v) hashtab option" where
  "tab_remove t k = map_option snd (Hashtab_Remove t k None)"

lemma find_concat_single:
  assumes "i < length xss" "\<And>j x. j < length xss \<Longrightarrow> x \<in> set (xss ! j) \<Longrightarrow> p x \<Longrightarrow> j = i"
  shows "find p (concat xss) = find p (xss ! i)"
proof -
  have app: "find p (xs @ ys) = (case find p xs of None \<Rightarrow> find p ys | Some x \<Rightarrow> Some x)" for xs ys
    by (induction xs) auto
  have none: "find p (concat yss) = None" if "\<And>ys x. ys \<in> set yss \<Longrightarrow> x \<in> set ys \<Longrightarrow> \<not> p x" for yss
    using that by (auto simp: find_None_iff)
  have split: "xss = take i xss @ xss ! i # drop (Suc i) xss" using assms(1) by (rule id_take_nth_drop)
  have "find p (concat (take i xss)) = None"
  proof (rule none)
    fix ys x assume "ys \<in> set (take i xss)" "x \<in> set ys"
    then obtain j where j: "j < i" "ys = xss ! j" by (auto simp: in_set_conv_nth)
    then have "j < length xss" "x \<in> set (xss ! j)" using assms(1) \<open>x \<in> set ys\<close> by auto
    then show "\<not> p x" using assms(2) [of j x] j(1) by auto
  qed
  moreover have "find p (concat (drop (Suc i) xss)) = None"
  proof (rule none)
    fix ys x assume "ys \<in> set (drop (Suc i) xss)" "x \<in> set ys"
    then obtain j where j: "j < length xss - Suc i" "ys = xss ! (Suc i + j)" by (auto simp: in_set_conv_nth)
    then have "Suc i + j < length xss" by simp
    with j \<open>x \<in> set ys\<close> show "\<not> p x" using assms(2) [of "Suc i + j" x] by auto
  qed
  ultimately show ?thesis
    by (subst split) (simp add: app split: option.splits)
qed

lemma unlink_None: "unlink p xs = None \<longleftrightarrow> (\<forall>x \<in> set xs. \<not> p x)"
  by (induction xs) (auto split: option.splits)

lemma unlink_Some:
  "unlink p xs = Some (x, ys) \<Longrightarrow> \<exists>us vs. xs = us @ x # vs \<and> ys = us @ vs \<and> p x \<and> (\<forall>u \<in> set us. \<not> p u)"
proof (induction xs arbitrary: ys)
  case (Cons z zs)
  show ?case
  proof (cases "p z")
    case False
    then obtain ws where "unlink p zs = Some (x, ws)" "ys = z # ws"
      using Cons.prems by (auto split: option.splits)
    then obtain us vs where "zs = us @ x # vs" "ws = us @ vs" "p x" "\<forall>u \<in> set us. \<not> p u"
      using Cons.IH by blast
    then show ?thesis using False \<open>ys = z # ws\<close> by (intro exI [of _ "z # us"] exI [of _ vs]) auto
  next
    case True
    then have "x = z" "ys = zs" using Cons.prems by auto
    then show ?thesis using True by (intro exI [of _ "[]"] exI [of _ zs]) auto
  qed
qed simp

section \<open>The contract of the clients\<close>

locale dictionary =
  fixes lookup :: "'s \<Rightarrow> 'k \<Rightarrow> 'v option"
    and insert :: "'s \<Rightarrow> 'k \<Rightarrow> 'v \<Rightarrow> 's option"
    and remove :: "'s \<Rightarrow> 'k \<Rightarrow> 's option"
    and inv :: "'s \<Rightarrow> bool"
    and same :: "'k \<Rightarrow> 'k \<Rightarrow> bool"
  assumes same_refl: "same k k"
    and insert_law: "inv t \<Longrightarrow> lookup t k = None \<Longrightarrow> \<exists>t'. insert t k v = Some t' \<and> inv t'
          \<and> (\<forall>k'. lookup t' k' = (if same k' k then Some v else lookup t k'))"
    and remove_law: "inv t \<Longrightarrow> \<exists>t'. remove t k = Some t' \<and> inv t'
          \<and> (\<forall>k'. lookup t' k' = (if same k' k then None else lookup t k'))"
    and lookup_same: "inv t \<Longrightarrow> same k' k \<Longrightarrow> lookup t k' = lookup t k"
begin

text \<open>The clients look a key up and insert it when it is missing; doing so never hides a binding,
  and a second lookup finds what the first call left.\<close>

lemma get_or_insert:
  assumes "inv t"
  obtains t' where "(if lookup t k = None then insert t k v else Some t) = Some t'" "inv t'"
    "lookup t' k = Some (case lookup t k of None \<Rightarrow> v | Some x \<Rightarrow> x)"
    "\<And>k' x. lookup t k' = Some x \<Longrightarrow> lookup t' k' = Some x"
proof (cases "lookup t k")
  case None
  then obtain t' where t': "insert t k v = Some t'" "inv t'"
    "\<forall>k'. lookup t' k' = (if same k' k then Some v else lookup t k')"
    using insert_law [OF assms] by blast
  have "lookup t' k' = Some x" if "lookup t k' = Some x" for k' x
    using t'(3) that None lookup_same [OF assms] by fastforce
  then show thesis using t' None same_refl by (intro that [of t']) auto
next
  case (Some x)
  then show thesis using assms by (intro that [of t]) auto
qed

lemma insert_remove:
  assumes "inv t" "lookup t k = None"
  obtains t' t'' where "insert t k v = Some t'" "remove t' k = Some t''" "inv t''" "lookup t'' = lookup t"
proof -
  obtain t' where t': "insert t k v = Some t'" "inv t'"
    "\<forall>k'. lookup t' k' = (if same k' k then Some v else lookup t k')"
    using insert_law [OF assms] by blast
  obtain t'' where t'': "remove t' k = Some t''" "inv t''"
    "\<forall>k'. lookup t'' k' = (if same k' k then None else lookup t' k')"
    using remove_law [OF t'(2)] by blast
  have "lookup t'' k' = lookup t k'" for k'
    using t'(3) t''(3) lookup_same [OF assms(1), of k' k] assms(2) by simp
  then have "lookup t'' = lookup t" by (rule ext)
  with t' t'' show thesis by (intro that)
qed

end

section \<open>Tables over a hash function and a comparison\<close>

definition tab_inv :: "('k \<Rightarrow> u64) \<Rightarrow> ('k \<Rightarrow> 'k \<Rightarrow> int) \<Rightarrow> ('k, 'v) hashtab \<Rightarrow> bool" where
  "tab_inv hash kcmp t \<longleftrightarrow> tab_ok t \<and> hash_fn t = hash \<and> kcmp_fn t = kcmp
     \<and> sorted_wrt (\<lambda>a b. kcmp (item_key a) (item_key b) \<noteq> 0) (items_of t)"

lemma tab_okD:
  assumes "tab_ok t"
  shows "length (table t) = tabsize t" "unat h mod tabsize t < length (table t)"
    "i < tabsize t \<Longrightarrow> item \<in> set (table t ! i) \<Longrightarrow> hash_value item = hash_fn t (item_key item)"
    "i < tabsize t \<Longrightarrow> item \<in> set (table t ! i) \<Longrightarrow> unat (hash_value item) mod tabsize t = i"
  using assms unfolding tab_ok_def by (simp, simp, blast, blast)

lemma items_of_update:
  assumes "i < length (table t)"
  shows "items_of (t\<lparr>table := (table t)[i := xs], tab_items := n\<rparr>)
      = concat (take i (table t)) @ xs @ concat (drop (Suc i) (table t))"
    "items_of t = concat (take i (table t)) @ table t ! i @ concat (drop (Suc i) (table t))"
proof -
  show "items_of (t\<lparr>table := (table t)[i := xs], tab_items := n\<rparr>)
      = concat (take i (table t)) @ xs @ concat (drop (Suc i) (table t))"
    using assms by (simp add: items_of_def upd_conv_take_nth_drop)
  show "items_of t = concat (take i (table t)) @ table t ! i @ concat (drop (Suc i) (table t))"
    unfolding items_of_def by (subst id_take_nth_drop [OF assms]) simp
qed

locale hash_key =
  fixes hash :: "'k \<Rightarrow> u64" and kcmp :: "'k \<Rightarrow> 'k \<Rightarrow> int"
  assumes kcmp_refl: "kcmp k k = 0"
    and kcmp_sym: "kcmp k l = 0 \<Longrightarrow> kcmp l k = 0"
    and kcmp_trans: "kcmp k l = 0 \<Longrightarrow> kcmp l m = 0 \<Longrightarrow> kcmp k m = 0"
    and hash_equal: "kcmp k l = 0 \<Longrightarrow> hash k = hash l"
begin

lemma find_items:
  assumes "tab_ok t" "hash_fn t = hash" "kcmp_fn t = kcmp"
  shows "Hashtab_Find t k = Some (find (\<lambda>item. kcmp k (item_key item) = 0) (items_of t), hash k)"
proof -
  define i where "i = unat (hash k) mod tabsize t"
  note d = tab_okD [OF assms(1)]
  have i: "i < length (table t)" unfolding i_def by (rule d(2))
  have hv: "hash_value item = hash (item_key item)" "unat (hash_value item) mod tabsize t = j"
    if "j < length (table t)" "item \<in> set (table t ! j)" for j item
    using d(1) d(3,4) [of j item] that assms(2) by simp_all
  have "find (\<lambda>item. kcmp k (item_key item) = 0) (items_of t)
      = find (\<lambda>item. kcmp k (item_key item) = 0) (table t ! i)"
    unfolding items_of_def using i hv hash_equal
    by (intro find_concat_single) (auto simp: i_def)
  also have "\<dots> = find (item_matches t k (hash k)) (table t ! i)"
    using hv(1) [OF i] hash_equal assms(3) by (intro find_cong) (auto simp: item_matches_def)
  finally show ?thesis using i assms(2) by (simp add: Hashtab_Find_def i_def [symmetric] Let_def)
qed

lemma lookup_items:
  assumes "tab_inv hash kcmp t"
  shows "hashtab_lookup t k = map_option item_value (find (\<lambda>item. kcmp k (item_key item) = 0) (items_of t))"
  using assms find_items [of t k] by (simp add: hashtab_lookup_def tab_inv_def split: option.splits)

lemma kcmp_cong: "kcmp k l = 0 \<Longrightarrow> (kcmp k m = 0) = (kcmp l m = 0)"
  using kcmp_sym kcmp_trans by blast

lemma lookup_split:
  assumes "tab_inv hash kcmp t" "items_of t = us @ item # vs"
  shows "hashtab_lookup t k = (if kcmp k (item_key item) = 0 then Some (item_value item)
     else map_option item_value (find (\<lambda>item. kcmp k (item_key item) = 0) (us @ vs)))"
proof -
  have app: "find p (xs @ ys) = (case find p xs of None \<Rightarrow> find p ys | Some x \<Rightarrow> Some x)"
    for p :: "('k, 'v) listitem \<Rightarrow> bool" and xs ys by (induction xs) auto
  have "find (\<lambda>item. kcmp k (item_key item) = 0) us = None" if "kcmp k (item_key item) = 0"
  proof -
    have "kcmp (item_key x) (item_key item) \<noteq> 0" if "x \<in> set us" for x
      using assms that by (auto simp: tab_inv_def sorted_wrt_append)
    then show ?thesis using that kcmp_sym kcmp_trans unfolding find_None_iff by blast
  qed
  then show ?thesis
    by (auto simp: lookup_items [OF assms(1)] assms(2) app split: option.splits)
qed

lemma tab_update_ok:
  assumes "tab_ok t" "i < length (table t)"
    and "\<forall>item \<in> set xs. hash_value item = hash_fn t (item_key item)
          \<and> unat (hash_value item) mod tabsize t = i"
  shows "tab_ok (t\<lparr>table := (table t)[i := xs], tab_items := n\<rparr>)"
proof -
  have "hash_value item = hash_fn t (item_key item) \<and> unat (hash_value item) mod tabsize t = j"
    if "j < tabsize t" "item \<in> set ((table t)[i := xs] ! j)" for j item
  proof (cases "j = i")
    case True
    then have "item \<in> set xs" using that assms(2) by simp
    with assms(3) True show ?thesis by blast
  next
    case False
    then have "item \<in> set (table t ! j)" using that by simp
    with assms(1) that(1) show ?thesis unfolding tab_ok_def by blast
  qed
  then have "\<forall>j < tabsize t. \<forall>item \<in> set ((table t)[i := xs] ! j).
      hash_value item = hash_fn t (item_key item) \<and> unat (hash_value item) mod tabsize t = j" by blast
  with assms(1) show ?thesis by (simp add: tab_ok_def) metis
qed

lemma tab_insert_law:
  assumes inv: "tab_inv hash kcmp t" and hint: "hint = None \<or> hint = Some (hash k)"
    and new: "hashtab_lookup t k = None"
  obtains t' item where "Hashtab_Insert True t k v hint = Some (Some item, t')" "tab_inv hash kcmp t'"
    "tab_items t' = tab_items t + 1" "mset (items_of t') = add_mset item (mset (items_of t))"
    "\<And>k'. hashtab_lookup t' k' = (if kcmp k' k = 0 then Some v else hashtab_lookup t k')"
proof -
  define i where "i = unat (hash k) mod tabsize t"
  define item where "item = \<lparr>item_key = k, item_value = v, hash_value = hash k\<rparr>"
  have ok: "tab_ok t" "hash_fn t = hash" "kcmp_fn t = kcmp" using inv by (simp_all add: tab_inv_def)
  note d = tab_okD [OF ok(1)]
  have i: "i < length (table t)" unfolding i_def by (rule d(2))
  define t' where "t' = t\<lparr>table := (table t)[i := item # table t ! i], tab_items := tab_items t + 1\<rparr>"
  note u = items_of_update(1) [OF i, where xs = "item # table t ! i" and n = "tab_items t + 1", folded t'_def]
    items_of_update(2) [OF i]
  define us vs where "us = concat (take i (table t))"
    and "vs = table t ! i @ concat (drop (Suc i) (table t))"
  have split: "items_of t' = us @ item # vs" "items_of t = us @ vs" using u by (simp_all add: us_def vs_def)
  have "find (\<lambda>item. kcmp k (item_key item) = 0) (items_of t) = None"
    using new lookup_items [OF inv] by simp
  then have fresh: "\<forall>x \<in> set (us @ vs). kcmp k (item_key x) \<noteq> 0"
    unfolding split(2) find_None_iff by blast
  then have "\<forall>x \<in> set us. kcmp (item_key x) k \<noteq> 0" using kcmp_sym by auto
  then have "sorted_wrt (\<lambda>a b. kcmp (item_key a) (item_key b) \<noteq> 0) (items_of t')"
    using inv fresh by (auto simp: tab_inv_def split sorted_wrt_append item_def)
  moreover have "tab_ok t'"
    unfolding t'_def using ok i d(1) d(3,4) [of i]
    by (intro tab_update_ok) (auto simp: item_def i_def)
  ultimately have inv': "tab_inv hash kcmp t'" using ok by (simp add: tab_inv_def t'_def)
  have h: "(case hint of Some h \<Rightarrow> h | None \<Rightarrow> hash_fn t k) = hash k" using hint ok(2) by auto
  have "Hashtab_Insert True t k v hint = Some (Some item, t')"
    unfolding Hashtab_Insert_def h Let_def i_def [symmetric] item_def [symmetric]
    using i by (simp add: t'_def)
  moreover have "hashtab_lookup t' k' = (if kcmp k' k = 0 then Some v else hashtab_lookup t k')" for k'
    using lookup_split [OF inv' split(1), of k'] lookup_items [OF inv, of k'] by (simp add: split(2) item_def)
  ultimately show thesis using inv' by (intro that [of item t']) (simp_all add: split, simp add: t'_def)
qed

lemma tab_remove_law:
  assumes inv: "tab_inv hash kcmp t" and hint: "hint = None \<or> hint = Some (hash k)"
  obtains t' item where "Hashtab_Remove t k hint = Some (item, t')" "tab_inv hash kcmp t'"
    "tab_items t' = tab_items t" "mset (items_of t) = mset (items_of t') + (case item of None \<Rightarrow> {#} | Some x \<Rightarrow> {#x#})"
    "item = find (\<lambda>item. kcmp k (item_key item) = 0) (items_of t)"
    "\<And>k'. hashtab_lookup t' k' = (if kcmp k' k = 0 then None else hashtab_lookup t k')"
proof -
  define i where "i = unat (hash k) mod tabsize t"
  have ok: "tab_ok t" "hash_fn t = hash" "kcmp_fn t = kcmp" using inv by (simp_all add: tab_inv_def)
  note d = tab_okD [OF ok(1)]
  have i: "i < length (table t)" unfolding i_def by (rule d(2))
  define p where "p = item_matches t k (hash k)"
  have fi: "find p (table t ! i) = find (\<lambda>item. kcmp k (item_key item) = 0) (items_of t)"
    using find_items [OF ok, of k] i
    by (simp add: Hashtab_Find_def Let_def ok(2) i_def [symmetric] p_def)
  have h: "(case hint of Some h \<Rightarrow> h | None \<Rightarrow> hash_fn t k) = hash k" using hint ok(2) by auto
  have rm: "Hashtab_Remove t k hint = (case unlink p (table t ! i) of None \<Rightarrow> Some (None, t)
      | Some (item, rest) \<Rightarrow> Some (Some item, t\<lparr>table := (table t)[i := rest]\<rparr>))"
    unfolding Hashtab_Remove_def h Let_def i_def [symmetric] p_def [symmetric]
    using i by (simp split: option.splits)
  show thesis
  proof (cases "unlink p (table t ! i)")
    case None
    then have none: "find (\<lambda>item. kcmp k (item_key item) = 0) (items_of t) = None"
    proof -
      have "find p (table t ! i) = None" using None by (auto simp: unlink_None find_None_iff)
      then show ?thesis using fi by simp
    qed
    have "hashtab_lookup t k' = (if kcmp k' k = 0 then None else hashtab_lookup t k')" for k'
      using none kcmp_cong [of k' k] by (auto simp: lookup_items [OF inv] find_None_iff)
    then show thesis using None inv none by (intro that [of None t]) (auto simp: rm)
  next
    case (Some x)
    then obtain item us0 vs0 where x: "unlink p (table t ! i) = Some (item, us0 @ vs0)"
      "table t ! i = us0 @ item # vs0" "p item" "\<forall>u \<in> set us0. \<not> p u"
      using unlink_Some [of p "table t ! i" "fst x" "snd x"] by (cases x) auto
    define t' where "t' = t\<lparr>table := (table t)[i := us0 @ vs0], tab_items := tab_items t\<rparr>"
    note u = items_of_update(1) [OF i, where xs = "us0 @ vs0" and n = "tab_items t", folded t'_def]
      items_of_update(2) [OF i]
    define us vs where "us = concat (take i (table t)) @ us0" and "vs = vs0 @ concat (drop (Suc i) (table t))"
    have split: "items_of t' = us @ vs" "items_of t = us @ item # vs"
      using u x(2) by (simp_all add: us_def vs_def)
    have "sorted_wrt (\<lambda>a b. kcmp (item_key a) (item_key b) \<noteq> 0) (items_of t')"
      using inv by (auto simp: tab_inv_def split sorted_wrt_append)
    moreover have "tab_ok t'"
      unfolding t'_def using ok i d(1) d(3,4) [of i] x(2) by (intro tab_update_ok) auto
    ultimately have inv': "tab_inv hash kcmp t'" using ok by (simp add: tab_inv_def t'_def)
    have match: "kcmp k (item_key item) = 0" using x(3) ok(3) by (simp add: p_def item_matches_def)
    have app: "find p (us0 @ ys) = find p ys" if "\<forall>u \<in> set us0. \<not> p u" for ys
      using that by (induction us0) auto
    have "find p (table t ! i) = Some item" using app [OF x(4)] x(3) by (simp add: x(2))
    then have found: "find (\<lambda>item. kcmp k (item_key item) = 0) (items_of t) = Some item" using fi by simp
    have "hashtab_lookup t' k' = (if kcmp k' k = 0 then None else hashtab_lookup t k')" for k'
    proof -
      have "kcmp k' k = 0 \<longleftrightarrow> kcmp k' (item_key item) = 0"
        using match kcmp_sym kcmp_trans by blast
      moreover have "find (\<lambda>item. kcmp k' (item_key item) = 0) (us @ vs) = None"
        if k': "kcmp k' (item_key item) = 0"
      proof -
        have "kcmp (item_key x) (item_key item) \<noteq> 0 \<or> kcmp (item_key item) (item_key x) \<noteq> 0"
          if "x \<in> set (us @ vs)" for x
          using inv that by (auto simp: tab_inv_def split(2) sorted_wrt_append)
        then show ?thesis using k' kcmp_sym kcmp_trans unfolding find_None_iff by blast
      qed
      ultimately show ?thesis
        using lookup_split [OF inv split(2), of k'] lookup_items [OF inv', of k'] by (simp add: split(1))
    qed
    then show thesis
      using inv' x(1) found by (intro that [of "Some item" t']) (simp_all add: rm split, simp_all add: t'_def)
  qed
qed

lemma insert_result:
  assumes "tab_inv hash kcmp t" "hint = None \<or> hint = Some (hash k)" "hashtab_lookup t k = None"
  shows "\<exists>item t'. Hashtab_Insert True t k v hint = Some (Some item, t') \<and> tab_inv hash kcmp t'
    \<and> tab_items t' = tab_items t + 1 \<and> mset (items_of t') = add_mset item (mset (items_of t))
    \<and> (\<forall>k'. hashtab_lookup t' k' = (if kcmp k' k = 0 then Some v else hashtab_lookup t k'))"
  by (rule tab_insert_law [OF assms, of v]) blast

lemma remove_result:
  assumes "tab_inv hash kcmp t" "hint = None \<or> hint = Some (hash k)"
  shows "\<exists>item t'. Hashtab_Remove t k hint = Some (item, t') \<and> tab_inv hash kcmp t'
    \<and> tab_items t' = tab_items t
    \<and> mset (items_of t) = mset (items_of t') + (case item of None \<Rightarrow> {#} | Some x \<Rightarrow> {#x#})
    \<and> item = find (\<lambda>item. kcmp k (item_key item) = 0) (items_of t)
    \<and> (\<forall>k'. hashtab_lookup t' k' = (if kcmp k' k = 0 then None else hashtab_lookup t k'))"
  by (rule tab_remove_law [OF assms]) blast

end

sublocale hash_key \<subseteq> dictionary hashtab_lookup tab_insert tab_remove "tab_inv hash kcmp"
  "\<lambda>k' k. kcmp k' k = 0"
proof
  fix t k v
  assume t: "tab_inv hash kcmp t" "hashtab_lookup t k = None"
  show "\<exists>t'. tab_insert t k v = Some t' \<and> tab_inv hash kcmp t'
      \<and> (\<forall>k'. hashtab_lookup t' k' = (if kcmp k' k = 0 then Some v else hashtab_lookup t k'))"
    by (rule tab_insert_law [OF t(1) _ t(2), of None v]) (auto simp: tab_insert_def)
next
  fix t k
  assume t: "tab_inv hash kcmp t"
  show "\<exists>t'. tab_remove t k = Some t' \<and> tab_inv hash kcmp t'
      \<and> (\<forall>k'. hashtab_lookup t' k' = (if kcmp k' k = 0 then None else hashtab_lookup t k'))"
    by (rule tab_remove_law [OF t, of None k]) (auto simp: tab_remove_def)
next
  fix t k' k
  assume t: "tab_inv hash kcmp t" and eq: "kcmp k' k = 0"
  from eq have "(kcmp k' m = 0) = (kcmp k m = 0)" for m by (rule kcmp_cong)
  then show "hashtab_lookup t k' = hashtab_lookup t k" by (simp add: lookup_items [OF t])
qed (rule kcmp_refl)

section \<open>Iteration\<close>

lemma first_field_split:
  assumes "i \<le> length (table t)" "tabsize t = length (table t)" "concat (drop i (table t)) \<noteq> []"
  shows "\<exists>j. first_field t i = Some j \<and> j < length (table t) \<and> table t ! j \<noteq> []
    \<and> concat (drop i (table t)) = table t ! j @ concat (drop (Suc j) (table t))"
  using assms
proof (induction "length (table t) - i" arbitrary: i)
  case 0
  then show ?case by simp
next
  case (Suc n)
  then have i: "i < length (table t)" by simp
  have split: "concat (drop i (table t)) = table t ! i @ concat (drop (Suc i) (table t))"
    using i by (simp add: Cons_nth_drop_Suc [symmetric])
  show ?case
  proof (cases "table t ! i = []")
    case True
    then have "first_field t i = first_field t (Suc i)" using i Suc.prems(2) by (simp add: first_field.simps [of t i])
    then show ?thesis using Suc.hyps(1) [of "Suc i"] Suc.hyps(2) Suc.prems split True i by auto
  next
    case False
    then show ?thesis using i split by (simp add: first_field.simps [of t i])
  qed
qed

lemma next_field_split:
  assumes "i < length (table t)" "tabsize t = length (table t)"
  shows "\<exists>j xs'. next_field t i xs = Some (j, xs')
    \<and> xs @ concat (drop (Suc i) (table t)) = xs' @ concat (drop (Suc j) (table t))
    \<and> (if xs' = [] then concat (drop (Suc j) (table t)) = [] else j < length (table t))"
  using assms
proof (induction "length (table t) - i" arbitrary: i xs rule: less_induct)
  case less
  show ?case
  proof (cases "xs = []")
    case False
    then show ?thesis using less.prems by (simp add: next_field.simps [of t i xs])
  next
    case empty: True
    show ?thesis
    proof (cases "Suc i = tabsize t")
      case True
      then have "next_field t i xs = Some (Suc i, [])" using empty by (subst next_field.simps) simp
      then show ?thesis using True less.prems empty by simp
    next
      case False
      then have i: "Suc i < length (table t)" using less.prems by simp
      have "next_field t i xs = next_field t (Suc i) (table t ! Suc i)"
        using empty False i by (subst next_field.simps) simp
      moreover have "concat (drop (Suc i) (table t))
          = table t ! Suc i @ concat (drop (Suc (Suc i)) (table t))"
        using i by (simp add: Cons_nth_drop_Suc [symmetric])
      ultimately show ?thesis
        using less.hyps [of "Suc i" "table t ! Suc i"] i less.prems(2) empty by auto
    qed
  qed
qed

lemma foreach_loop_items:
  assumes "tabsize t = length (table t)"
  shows "i < length (table t) \<Longrightarrow> foreach_loop (Some item)
      \<lparr>iter_table = t, iter_index = i, iter_item = item # xs\<rparr>
    = Some (item # xs @ concat (drop (Suc i) (table t)))"
proof (induction "length (xs @ concat (drop (Suc i) (table t)))" arbitrary: i item xs)
  case 0
  obtain j xs' where n: "next_field t i xs = Some (j, xs')"
    "xs @ concat (drop (Suc i) (table t)) = xs' @ concat (drop (Suc j) (table t))"
    using next_field_split [OF 0(2) assms, of xs] by blast
  then have "xs' = []" using 0(1) by simp
  then show ?case
    using n 0(1) by (subst foreach_loop.simps) (simp add: IteratorNext_def foreach_loop.simps [of None])
next
  case (Suc n)
  obtain j xs' where n: "next_field t i xs = Some (j, xs')"
    "xs @ concat (drop (Suc i) (table t)) = xs' @ concat (drop (Suc j) (table t))"
    "if xs' = [] then concat (drop (Suc j) (table t)) = [] else j < length (table t)"
    using next_field_split [OF Suc.prems assms, of xs] by blast
  have "xs' \<noteq> []" using n(2,3) Suc.hyps(2) by (auto split: if_splits)
  then obtain y ys where y: "xs' = y # ys" by (cases xs') auto
  have "foreach_loop (Some y) \<lparr>iter_table = t, iter_index = j, iter_item = y # ys\<rparr>
      = Some (y # ys @ concat (drop (Suc j) (table t)))"
    using Suc.hyps n(2,3) y by (intro Suc.hyps(1)) auto
  then show ?case
    using n(1,2) y by (subst foreach_loop.simps) (simp add: IteratorNext_def)
qed

definition size_ok :: "('k, 'v) hashtab \<Rightarrow> bool" where
  "size_ok t \<longleftrightarrow> tab_items t = of_nat (length (items_of t)) \<and> length (items_of t) < 2 ^ 64"

lemma Hashtab_Foreach_items:
  assumes "tab_ok t" "size_ok t"
  shows "Hashtab_Foreach t = Some (items_of t)"
proof (cases "items_of t = []")
  case True
  then show ?thesis
    using assms(2) by (simp add: Hashtab_Foreach_def IteratorCreate_def IteratorFirst_def size_ok_def
        foreach_loop.simps [of None])
next
  case False
  have len: "tabsize t = length (table t)" using assms(1) by (simp add: tab_ok_def)
  have "tab_items t \<noteq> 0"
  proof
    assume "tab_items t = 0"
    then have "unat (of_nat (length (items_of t)) :: u64) = 0" using assms(2) by (simp add: size_ok_def)
    then show False using False assms(2) by (simp add: unat_of_nat size_ok_def)
  qed
  moreover obtain j where j: "first_field t 0 = Some j" "j < length (table t)" "table t ! j \<noteq> []"
    "items_of t = table t ! j @ concat (drop (Suc j) (table t))"
    using first_field_split [of 0 t] len False by (auto simp: items_of_def)
  moreover obtain y ys where "table t ! j = y # ys" using j(3) by (cases "table t ! j") auto
  ultimately show ?thesis
    using foreach_loop_items [OF len j(2), of y ys]
    by (simp add: Hashtab_Foreach_def IteratorCreate_def IteratorFirst_def)
qed

lemma Hashtab_Free_items:
  "tab_ok t \<Longrightarrow> Hashtab_Free t = Some (items_of t)"
proof -
  assume t: "tab_ok t"
  have "Hashtab_Free_from t i n = Some (concat (take n (drop i (table t))))"
    if "i + n \<le> length (table t)" for i n
    using that by (induction n arbitrary: i) (simp_all add: Cons_nth_drop_Suc [symmetric])
  from this [of 0 "tabsize t"] show ?thesis
    using t by (simp add: Hashtab_Free_def items_of_def tab_ok_def)
qed

section \<open>The functions of the library\<close>

lemma of_char_0: "(of_char c :: int) = 0 \<longleftrightarrow> c = CHR 0x00"
proof -
  have "(of_char c :: int) = of_char (CHR 0x00) \<longleftrightarrow> c = CHR 0x00" by (rule of_char_eq_iff)
  then show ?thesis by simp
qed

lemma strcmp_0: "CHR 0x00 \<notin> set s \<Longrightarrow> CHR 0x00 \<notin> set t \<Longrightarrow> strcmp s t = 0 \<longleftrightarrow> s = t"
  by (induction s t rule: strcmp.induct) (auto simp: of_char_0)

lemma c_str_no_null [simp]: "CHR 0x00 \<notin> set (c_str s)"
  by (auto simp: c_str_def dest: set_takeWhileD)

lemma CompareStrings_0: "CompareStrings s t = 0 \<longleftrightarrow> c_str s = c_str t"
  by (simp add: CompareStrings_def strcmp_0)

interpretation string_table: hash_key HashString CompareStrings
  by unfold_locales (auto simp: CompareStrings_0 HashString_def)

interpretation int32_table: hash_key HashInt32 CompareUint32
  by unfold_locales (auto simp: CompareUint32_def)

interpretation int64_table: hash_key HashInt64 CompareUint64
  by unfold_locales (auto simp: CompareUint64_def)

interpretation pointer_table: hash_key HashPointer ComparePointer
  by unfold_locales (auto simp: ComparePointer_def split: if_splits)

section \<open>Properties\<close>

lemma created_table:
  assumes "Hashtab_CreateSize True n hash kcmp = Some (Some t)"
  shows "tab_inv hash kcmp t" "items_of t = []" "tab_items t = 0" "tabsize t = n" "0 < n"
proof -
  have t: "0 < n" "t = \<lparr>table = replicate n [], tabsize = n, tab_items = 0, hash_fn = hash, kcmp_fn = kcmp\<rparr>"
    using assms by (auto simp: Hashtab_CreateSize_def split: if_splits)
  then show "tab_inv hash kcmp t" "items_of t = []" "tab_items t = 0" "tabsize t = n" "0 < n"
    by (auto simp: tab_inv_def tab_ok_def items_of_def)
qed

definition sample_table :: "(string, nat) hashtab" where
  "sample_table = \<lparr>table = replicate 4 [], tabsize = 4, tab_items = 0, hash_fn = HashString,
     kcmp_fn = CompareStrings\<rparr>"

lemma sample_table: "Hashtab_CreateSize True 4 HashString CompareStrings = Some (Some sample_table)"
  by (simp add: Hashtab_CreateSize_def sample_table_def)

lemma sample_lookup: "hashtab_lookup sample_table k = None"
  using string_table.lookup_items [OF created_table(1) [OF sample_table]] created_table(2) [OF sample_table]
  by simp



text \<open>
  \<open>SCOREP_Hashtab_Foreach\<close> on a table whose size counter is right returns and calls the
  function once per stored entry, and \<open>SCOREP_Hashtab_FreeAll\<close> deletes each entry once and then
  releases the same items.
\<close>

theorem hashtab_foreach_complete:
  assumes "tab_ok t" and "tab_items t = of_nat (length (concat (table t)))"
    and "length (concat (table t)) < 2 ^ 64"
  shows "Hashtab_Foreach t = Some (concat (table t))
    \<and> Hashtab_FreeAll t = Some (concat (table t), concat (table t))"
proof -
  have "size_ok t" using assms(2,3) by (simp add: size_ok_def items_of_def)
  then have f: "Hashtab_Foreach t = Some (items_of t)" using assms(1) by (intro Hashtab_Foreach_items)
  then have "Hashtab_FreeAll t = Some (items_of t, items_of t)"
    using Hashtab_Free_items [OF assms(1)]
    by (auto simp: Hashtab_Foreach_def Hashtab_FreeAll_def abort_simps split: prod.splits)
  with f show ?thesis by (simp add: items_of_def)
qed

theorem hashtab_foreach_complete_witness:
  "\<exists>item t'. Hashtab_Insert True sample_table ''main'' (7 :: nat) None = Some (Some item, t')
    \<and> Hashtab_Foreach t' = Some [item]"
proof -
  obtain t' item where t': "Hashtab_Insert True sample_table ''main'' (7 :: nat) None = Some (Some item, t')"
    "tab_inv HashString CompareStrings t'" "tab_items t' = tab_items sample_table + 1"
    "mset (items_of t') = add_mset item (mset (items_of sample_table))"
    using string_table.insert_result [OF created_table(1) [OF sample_table] disjI1 sample_lookup] by blast
  then have "mset (items_of t') = {#item#}" using created_table(2) [OF sample_table] by simp
  then have "concat (table t') = [item]" by (simp add: items_of_def)
  with t' show ?thesis
    using hashtab_foreach_complete [of t'] created_table(3) [OF sample_table] by (auto simp: tab_inv_def)
qed

text \<open>
  \<open>SCOREP_Hashtab_Remove\<close> does not decrement the size counter. After inserting one entry into
  a new table and removing it again, the table has no item but is not empty, and
  \<open>SCOREP_Hashtab_Foreach\<close> runs over the end of the table.
\<close>

theorem hashtab_remove_keeps_size:
  assumes "hash_key hash kcmp" and "Hashtab_CreateSize True n hash kcmp = Some (Some t0)"
    and "Hashtab_Insert True t0 k v None = Some (Some item, t1)"
    and "Hashtab_Remove t1 k None = Some (gone, t2)"
  shows "gone = Some item \<and> concat (table t2) = [] \<and> Hashtab_Size t2 = 1 \<and> \<not> Hashtab_Empty t2
    \<and> Hashtab_Foreach t2 = None"
proof -
  note c = created_table [OF assms(2)]
  have "hashtab_lookup t0 k = None" using hash_key.lookup_items [OF assms(1) c(1)] c(2) by simp
  then obtain item' t' where r1: "Hashtab_Insert True t0 k v None = Some (Some item', t')"
    "tab_inv hash kcmp t'" "tab_items t' = tab_items t0 + 1"
    "mset (items_of t') = add_mset item' (mset (items_of t0))"
    using hash_key.insert_result [OF assms(1) c(1) disjI1 [OF refl], of k v] by blast
  then have t1: "tab_inv hash kcmp t1" "tab_items t1 = 1" "mset (items_of t1) = {#item#}"
    using c(2,3) assms(3) by simp_all
  have t1': "items_of t1 = [item]" using t1(3) by simp
  have "item_key item = k"
    using assms(3) by (auto simp: Hashtab_Insert_def Let_def abort_simps split: if_splits)
  then have "find (\<lambda>item. kcmp k (item_key item) = 0) (items_of t1) = Some item"
    by (simp add: t1' hash_key.kcmp_refl [OF assms(1)])
  moreover obtain gone' t' where r2: "Hashtab_Remove t1 k None = Some (gone', t')"
    "tab_inv hash kcmp t'" "tab_items t' = tab_items t1"
    "mset (items_of t1) = mset (items_of t') + (case gone' of None \<Rightarrow> {#} | Some x \<Rightarrow> {#x#})"
    "gone' = find (\<lambda>item. kcmp k (item_key item) = 0) (items_of t1)"
    using hash_key.remove_result [OF assms(1) t1(1) disjI1 [OF refl], of k] by blast
  ultimately have t2: "tab_inv hash kcmp t2" "tab_items t2 = 1" "items_of t2 = []" "gone = Some item"
    using t1(2,3) assms(4) by simp_all
  have len: "length (table t2) = tabsize t2" "\<forall>i < length (table t2). table t2 ! i = []"
    using t2(1,3) by (auto simp: tab_inv_def tab_ok_def items_of_def)
  have "first_field t2 i = None" if "i \<le> length (table t2)" for i
    using that
  proof (induction "length (table t2) - i" arbitrary: i)
    case 0
    then show ?case by (subst first_field.simps) (simp add: arr_get_def)
  next
    case (Suc m)
    then show ?case using len by (subst first_field.simps) simp
  qed
  from this [of 0] have "Hashtab_Foreach t2 = None"
    using t2(2) by (simp add: Hashtab_Foreach_def IteratorCreate_def IteratorFirst_def)
  with t2 show ?thesis by (simp add: Hashtab_Size_def Hashtab_Empty_def items_of_def)
qed

theorem hashtab_remove_keeps_size_witness:
  "\<exists>item t1 gone t2. Hashtab_Insert True sample_table ''main'' (7 :: nat) None = Some (Some item, t1)
    \<and> Hashtab_Remove t1 ''main'' None = Some (gone, t2) \<and> Hashtab_Foreach t2 = None"
proof -
  obtain t1 item where t1: "Hashtab_Insert True sample_table ''main'' (7 :: nat) None = Some (Some item, t1)"
    "tab_inv HashString CompareStrings t1"
    using string_table.insert_result [OF created_table(1) [OF sample_table] disjI1 sample_lookup] by blast
  obtain t2 gone where "Hashtab_Remove t1 ''main'' None = Some (gone, t2)"
    using string_table.remove_result [OF t1(2) disjI1] by blast
  with t1(1) show ?thesis
    using hashtab_remove_keeps_size [OF string_table.hash_key_axioms sample_table] by blast
qed

text \<open>
  The multiplier of \<open>SCOREP_Hashtab_HashInt64\<close> and \<open>SCOREP_Hashtab_HashPointer\<close> ends in 15
  zero bits, so these hashes do too: all keys share the first bucket of a table whose size is a power
  of two up to \<open>2 ^ 15\<close>. The 32-bit hash is injective.
\<close>

theorem hash_low_bits:
  assumes "j \<le> 15"
  shows "unat (HashInt64 k) mod 2 ^ j = 0 \<and> unat (HashPointer k) mod 2 ^ j = 0 \<and> inj HashInt32"
proof -
  have "unat (x * 11400714819323199488 :: u64) mod 2 ^ j = 0" for x
  proof -
    have "x * 11400714819323199488 = push_bit 15 (x * 347922205179541)" by (simp add: push_bit_eq_mult)
    then have "take_bit j (x * 11400714819323199488) = 0"
      using assms by (simp add: take_bit_push_bit)
    then have "take_bit j (unat (x * 11400714819323199488)) = unat (0 :: u64)"
      by (subst unsigned_take_bit_eq [symmetric]) (rule arg_cong [of _ _ unat])
    then show ?thesis by (simp add: take_bit_eq_mod)
  qed
  moreover have "inj HashInt32"
  proof (rule injI)
    fix x y assume "HashInt32 x = HashInt32 y"
    then have "bit (HashInt32 x) k = bit (HashInt32 y) k" for k by simp
    then have bits: "k < 64 \<and> bit (x * 2654435761) k \<longleftrightarrow> k < 64 \<and> bit (y * 2654435761) k" for k
      by (simp add: HashInt32_def bit_ucast_iff)
    have "x * 2654435761 = y * (2654435761 :: u32)"
    proof (rule word_eq_by_bits)
      fix k assume "k < LENGTH(32)"
      then show "bit (x * 2654435761) k = bit (y * 2654435761) k" using bits [of k] by simp
    qed
    then have "x * (2654435761 * 244002641) = y * (2654435761 * (244002641 :: u32))"
      by (simp only: mult.assoc [symmetric])
    moreover have "2654435761 * (244002641 :: u32) = 1" by code_simp
    ultimately show "x = y" by (simp only: mult_1_right)
  qed
  ultimately show ?thesis by (simp add: HashInt64_def HashPointer_def)
qed

theorem hash_low_bits_witness:
  "unat (HashInt64 12345) mod 2 ^ 5 = 0"
  using hash_low_bits [of 5 12345] by simp

end
