(* ===== verification/Scorep_Vector.thy ===== *)
theory Scorep_Vector
  imports Scorep_Prelude
begin

text \<open>
  The dynamic array, \<open>src/src/utils/vector/SCOREP_Vector.c\<close>. The allocated cells are a list of
  optional items: \<open>None\<close> is a cell the code has not written yet. Sizes are \<open>size_t\<close>: the
  number of bytes handed to \<open>realloc\<close>, the doubled capacity and the size after a pop are taken
  modulo \<open>2 ^ 64\<close>. Whether \<open>calloc\<close> and \<open>realloc\<close> succeed is an argument; the comparison
  function is an argument that returns the value of its \<open>int8_t\<close>.
\<close>

section \<open>Operations\<close>

record 'a vector =
  vec_items :: "'a option list"
  vec_capacity :: nat
  vec_size :: nat

definition DEFAULT_CAPACITY :: nat where
  "DEFAULT_CAPACITY = 16"

definition Vector_Create :: "bool \<Rightarrow> 'a vector option" where
  "Vector_Create calloc_ok =
     (if calloc_ok then Some \<lparr>vec_items = [], vec_capacity = 0, vec_size = 0\<rparr> else None)"

text \<open>The cells of the block \<open>realloc\<close> returns for \<open>n\<close> items.\<close>

definition realloc_cells :: "'a option list \<Rightarrow> nat \<Rightarrow> 'a option list" where
  "realloc_cells items n =
     (let cells = (n * 8) mod 2 ^ 64 div 8
      in take cells items @ replicate (cells - length items) None)"

definition Vector_Reserve :: "bool \<Rightarrow> 'a vector \<Rightarrow> nat \<Rightarrow> bool \<times> 'a vector" where
  "Vector_Reserve realloc_ok v capacity =
     (if capacity < vec_capacity v then (True, v)
      else if \<not> realloc_ok then (False, v)
      else (True, v\<lparr>vec_items := realloc_cells (vec_items v) capacity, vec_capacity := capacity\<rparr>))"

definition Vector_CreateSize :: "bool \<Rightarrow> bool \<Rightarrow> nat \<Rightarrow> 'a vector option" where
  "Vector_CreateSize calloc_ok realloc_ok capacity =
     (case Vector_Create calloc_ok of
        None \<Rightarrow> None
      | Some v \<Rightarrow> (case Vector_Reserve realloc_ok v capacity of
                     (True, v) \<Rightarrow> Some v
                   | (False, v) \<Rightarrow> None))"

definition Vector_Size :: "'a vector \<Rightarrow> nat" where
  "Vector_Size v = vec_size v"

definition Vector_Empty :: "'a vector \<Rightarrow> bool" where
  "Vector_Empty v \<longleftrightarrow> vec_size v = 0"

definition Vector_Capacity :: "'a vector \<Rightarrow> nat" where
  "Vector_Capacity v = vec_capacity v"

text \<open>\<open>null\<close> is the null pointer that \<open>memset\<close> leaves in the new entries.\<close>

definition Vector_Resize :: "bool \<Rightarrow> 'a \<Rightarrow> 'a vector \<Rightarrow> nat \<Rightarrow> (bool \<times> 'a vector) option" where
  "Vector_Resize realloc_ok null v sz =
     (if sz < vec_size v then Some (True, v)
      else if vec_capacity v < sz \<and> \<not> realloc_ok then Some (False, v)
      else
        (let v1 = (if vec_capacity v < sz
                   then v\<lparr>vec_capacity := sz, vec_items := realloc_cells (vec_items v) sz\<rparr> else v)
         in do {
           assertC (vec_size v < sz \<longrightarrow> sz \<le> length (vec_items v1));
           Some (True, v1\<lparr>vec_size := sz,
             vec_items := take (vec_size v) (vec_items v1) @ replicate (sz - vec_size v) (Some null)
                          @ drop sz (vec_items v1)\<rparr>)
         }))"

definition cell :: "'a vector \<Rightarrow> nat \<Rightarrow> 'a option" where
  "cell v i = arr_get (vec_items v) i \<bind> (\<lambda>c. c)"

definition Vector_At :: "'a vector \<Rightarrow> nat \<Rightarrow> 'a option" where
  "Vector_At v index = do { assertC (index < vec_size v); cell v index }"

definition Vector_Set :: "'a vector \<Rightarrow> nat \<Rightarrow> 'a \<Rightarrow> 'a vector option" where
  "Vector_Set v index item = do {
     assertC (index < vec_size v);
     items \<leftarrow> arr_set (vec_items v) index (Some item);
     Some (v\<lparr>vec_items := items\<rparr>)
   }"

definition Vector_Front :: "'a vector \<Rightarrow> 'a option" where
  "Vector_Front v = do { assertC (vec_size v > 0); cell v 0 }"

definition Vector_Back :: "'a vector \<Rightarrow> 'a option" where
  "Vector_Back v = do { assertC (vec_size v > 0); cell v (vec_size v - 1) }"

text \<open>The growth step of \<open>PushBack\<close> and \<open>Insert\<close>.\<close>

definition grow :: "bool \<Rightarrow> 'a vector \<Rightarrow> bool \<times> 'a vector" where
  "grow realloc_ok v =
     (if vec_size v = vec_capacity v
      then Vector_Reserve realloc_ok v
             (if vec_capacity v = 0 then DEFAULT_CAPACITY else (vec_capacity v * 2) mod 2 ^ 64)
      else (True, v))"

definition Vector_PushBack :: "bool \<Rightarrow> 'a vector \<Rightarrow> 'a \<Rightarrow> (bool \<times> 'a vector) option" where
  "Vector_PushBack realloc_ok v item =
     (case grow realloc_ok v of
        (False, v) \<Rightarrow> Some (False, v)
      | (True, v) \<Rightarrow> do {
          items \<leftarrow> arr_set (vec_items v) (vec_size v) (Some item);
          Some (True, v\<lparr>vec_items := items, vec_size := vec_size v + 1\<rparr>)
        })"

definition memmove :: "'a list \<Rightarrow> nat \<Rightarrow> nat \<Rightarrow> nat \<Rightarrow> 'a list option" where
  "memmove xs dst source n =
     (if dst + n \<le> length xs \<and> source + n \<le> length xs
      then Some (take dst xs @ take n (drop source xs) @ drop (dst + n) xs) else None)"

definition Vector_Insert :: "bool \<Rightarrow> 'a vector \<Rightarrow> nat \<Rightarrow> 'a \<Rightarrow> (bool \<times> 'a vector) option" where
  "Vector_Insert realloc_ok v index item = do {
     assertC (index \<le> vec_size v);
     case grow realloc_ok v of
       (False, v) \<Rightarrow> Some (False, v)
     | (True, v) \<Rightarrow> do {
         items \<leftarrow> memmove (vec_items v) (index + 1) index (vec_size v - index);
         items \<leftarrow> arr_set items index (Some item);
         Some (True, v\<lparr>vec_items := items, vec_size := vec_size v + 1\<rparr>)
       }
   }"

definition Vector_PopBack :: "'a vector \<Rightarrow> 'a vector" where
  "Vector_PopBack v = v\<lparr>vec_size := (vec_size v + (2 ^ 64 - 1)) mod 2 ^ 64\<rparr>"

definition Vector_Erase :: "'a vector \<Rightarrow> nat \<Rightarrow> 'a vector option" where
  "Vector_Erase v index = do {
     assertC (index < vec_size v);
     let size' = vec_size v - 1;
     items \<leftarrow> memmove (vec_items v) index (index + 1) (size' - index);
     Some (v\<lparr>vec_size := size', vec_items := items\<rparr>)
   }"

definition Vector_Clear :: "'a vector \<Rightarrow> 'a vector" where
  "Vector_Clear v = v\<lparr>vec_size := 0\<rparr>"

function find_from :: "('v \<Rightarrow> 'a \<Rightarrow> int) \<Rightarrow> 'v \<Rightarrow> 'a vector \<Rightarrow> nat \<Rightarrow> nat option option" where
  "find_from cmp val v i =
     (if i < vec_size v then
        (case cell v i of
           None \<Rightarrow> None
         | Some item \<Rightarrow> if cmp val item = 0 then Some (Some i) else find_from cmp val v (Suc i))
      else Some None)"
  by pat_completeness auto
termination
  by (relation "measure (\<lambda>(cmp, val, v, i). vec_size v - i)") auto

declare find_from.simps [simp del]

text \<open>\<open>Some None\<close> is the return value 0.\<close>

definition Vector_Find :: "('v \<Rightarrow> 'a \<Rightarrow> int) \<Rightarrow> 'v \<Rightarrow> 'a vector \<Rightarrow> nat option option" where
  "Vector_Find cmp val v = find_from cmp val v 0"

text \<open>The bisection loop: \<open>right item\<close> is the condition under which the code continues behind the
  middle item (\<open>compareFunc > 0\<close> for the lower bound, not \<open>compareFunc < 0\<close> for the upper).\<close>

function bisect :: "('a \<Rightarrow> bool) \<Rightarrow> 'a vector \<Rightarrow> nat \<Rightarrow> nat \<Rightarrow> nat option" where
  "bisect right v left sz =
     (if sz > 0 then
        (let half = sz div 2
         in case cell v (left + half) of
              None \<Rightarrow> None
            | Some item \<Rightarrow>
                if right item then bisect right v (left + (half + 1)) (sz - (half + 1))
                else bisect right v left half)
      else Some left)"
  by pat_completeness auto
termination
  by (relation "measure (\<lambda>(right, v, left, sz). sz)") auto

declare bisect.simps [simp del]

text \<open>The result is the index stored and whether a matching item was found.\<close>

definition Vector_LowerBound :: "('v \<Rightarrow> 'a \<Rightarrow> int) \<Rightarrow> 'v \<Rightarrow> 'a vector \<Rightarrow> (nat \<times> bool) option" where
  "Vector_LowerBound cmp val v = do {
     left \<leftarrow> bisect (\<lambda>item. cmp val item > 0) v 0 (vec_size v);
     if left < vec_size v then do {
       item \<leftarrow> cell v left;
       Some (left, cmp val item = 0)
     } else Some (left, False)
   }"

definition Vector_UpperBound :: "('v \<Rightarrow> 'a \<Rightarrow> int) \<Rightarrow> 'v \<Rightarrow> 'a vector \<Rightarrow> (nat \<times> bool) option" where
  "Vector_UpperBound cmp val v = do {
     left \<leftarrow> bisect (\<lambda>item. \<not> cmp val item < 0) v 0 (vec_size v);
     if left > 0 then do {
       item \<leftarrow> cell v (left - 1);
       Some (left, cmp val item = 0)
     } else Some (left, False)
   }"

text \<open>The items in the order in which the function gets them.\<close>

fun foreach_from :: "'a vector \<Rightarrow> nat \<Rightarrow> nat \<Rightarrow> 'a list option" where
  "foreach_from v index 0 = Some []"
| "foreach_from v index (Suc n) = do {
     item \<leftarrow> cell v index;
     rest \<leftarrow> foreach_from v (Suc index) n;
     Some (item # rest)
   }"

definition Vector_Foreach :: "'a vector \<Rightarrow> 'a list option" where
  "Vector_Foreach v = foreach_from v 0 (vec_size v)"

section \<open>The list of the items\<close>

definition vec_ok :: "'a vector \<Rightarrow> bool" where
  "vec_ok v \<longleftrightarrow> vec_size v \<le> vec_capacity v \<and> length (vec_items v) = vec_capacity v
     \<and> vec_capacity v < 2 ^ 60 \<and> None \<notin> set (take (vec_size v) (vec_items v))"

definition contents :: "'a vector \<Rightarrow> 'a list" where
  "contents v = map the (take (vec_size v) (vec_items v))"

lemma length_contents: "vec_ok v \<Longrightarrow> length (contents v) = vec_size v"
  by (simp add: contents_def vec_ok_def)

lemma cell_contents:
  assumes "vec_ok v" "i < vec_size v"
  shows "cell v i = Some (contents v ! i)"
proof -
  have "vec_items v ! i \<in> set (take (vec_size v) (vec_items v))"
    using assms by (auto simp: vec_ok_def in_set_conv_nth intro!: exI [of _ i])
  then have "vec_items v ! i \<noteq> None" using assms(1) unfolding vec_ok_def by metis
  then show ?thesis using assms by (auto simp: cell_def contents_def vec_ok_def)
qed

lemma cells_map_Some: "None \<notin> set xs \<Longrightarrow> xs = map Some (map the xs)"
  by (induction xs) auto

lemma vec_cells:
  assumes "vec_ok v"
  shows "vec_items v = map Some (contents v) @ drop (vec_size v) (vec_items v)"
proof -
  have "take (vec_size v) (vec_items v) = map Some (contents v)"
    unfolding contents_def using assms by (intro cells_map_Some) (simp add: vec_ok_def)
  then show ?thesis using append_take_drop_id [of "vec_size v" "vec_items v"] by simp
qed

lemma vec_okI:
  assumes "vec_items v = map Some xs @ rest" "vec_size v = length xs"
    "vec_capacity v = length xs + length rest" "vec_capacity v < 2 ^ 60"
  shows "vec_ok v" "contents v = xs"
  using assms by (auto simp: vec_ok_def contents_def)


lemma foreach_from_contents:
  "vec_ok v \<Longrightarrow> i + n = vec_size v \<Longrightarrow> foreach_from v i n = Some (drop i (contents v))"
proof (induction n arbitrary: i)
  case 0
  then show ?case by (simp add: length_contents)
next
  case (Suc n)
  then show ?case
    by (simp add: cell_contents length_contents Cons_nth_drop_Suc)
qed

lemma Vector_Foreach_contents: "vec_ok v \<Longrightarrow> Vector_Foreach v = Some (contents v)"
  by (simp add: Vector_Foreach_def foreach_from_contents)

section \<open>Operations that change the vector\<close>

lemma Vector_Reserve_ok:
  assumes "vec_ok v" "c < 2 ^ 60" "Vector_Reserve r v c = (b, v')"
  shows "vec_ok v'" "contents v' = contents v" "vec_size v' = vec_size v"
    "b \<Longrightarrow> c \<le> vec_capacity v'"
proof -
  have *: "vec_ok v' \<and> contents v' = contents v \<and> vec_size v' = vec_size v
    \<and> (b \<longrightarrow> c \<le> vec_capacity v')"
  proof (cases "c < vec_capacity v \<or> \<not> r")
    case True
    then show ?thesis using assms by (auto simp: Vector_Reserve_def split: if_splits)
  next
    case False
    have len: "length (vec_items v) = vec_capacity v" using assms(1) by (simp add: vec_ok_def)
    have "(c * 8) mod 2 ^ 64 div 8 = c" using assms(2) by simp
    then have v': "v' = v\<lparr>vec_items := vec_items v @ replicate (c - vec_capacity v) None,
        vec_capacity := c\<rparr>" and b: "b"
      using False assms(3) len by (auto simp: Vector_Reserve_def realloc_cells_def)
    have "vec_items v' = map Some (contents v)
        @ (drop (vec_size v) (vec_items v) @ replicate (c - vec_capacity v) None)"
      using vec_cells [OF assms(1)] by (simp add: v')
    moreover have "vec_size v' = length (contents v)"
      by (simp add: v' length_contents [OF assms(1)])
    moreover have "vec_capacity v' = length (contents v)
        + length (drop (vec_size v) (vec_items v) @ replicate (c - vec_capacity v) None)"
      using False assms(1) by (simp add: v' length_contents) (simp add: vec_ok_def)
    moreover have "vec_capacity v' < 2 ^ 60" using assms(2) by (simp add: v')
    ultimately have "vec_ok v'" "contents v' = contents v" by (rule vec_okI)+
    then show ?thesis by (simp add: v')
  qed
  then show "vec_ok v'" "contents v' = contents v" "vec_size v' = vec_size v"
    "b \<Longrightarrow> c \<le> vec_capacity v'" by auto
qed

lemma grow_ok:
  assumes "vec_ok v" "vec_capacity v < 2 ^ 59" "grow r v = (b, v')"
  shows "vec_ok v'" "contents v' = contents v" "vec_size v' = vec_size v"
    "b \<Longrightarrow> vec_size v' < vec_capacity v'" "r \<Longrightarrow> b"
proof -
  let ?c = "if vec_capacity v = 0 then DEFAULT_CAPACITY else (vec_capacity v * 2) mod 2 ^ 64"
  have c: "?c < 2 ^ 60" "vec_capacity v < ?c" using assms(2) by (auto simp: DEFAULT_CAPACITY_def)
  consider "vec_size v \<noteq> vec_capacity v" | "vec_size v = vec_capacity v" "Vector_Reserve r v ?c = (b, v')"
    using assms(3) by (auto simp: grow_def split: if_splits)
  then have "vec_ok v' \<and> contents v' = contents v \<and> vec_size v' = vec_size v
    \<and> (b \<longrightarrow> vec_size v' < vec_capacity v') \<and> (r \<longrightarrow> b)"
  proof cases
    case 1
    then show ?thesis using assms by (auto simp: grow_def vec_ok_def)
  next
    case 2
    have "r \<longrightarrow> b" using 2(2) c(2) by (auto simp: Vector_Reserve_def split: if_splits)
    then show ?thesis using Vector_Reserve_ok [OF assms(1) c(1) 2(2)] c(2) 2(1)
      by (metis (lifting) order_less_le_trans)
  qed
  then show "vec_ok v'" "contents v' = contents v" "vec_size v' = vec_size v"
    "b \<Longrightarrow> vec_size v' < vec_capacity v'" "r \<Longrightarrow> b" by auto
qed

lemma Vector_Create_ok: "Vector_Create True = Some v \<Longrightarrow> vec_ok v \<and> contents v = []"
  by (auto simp: Vector_Create_def vec_ok_def contents_def)

lemma spare_cell:
  assumes "vec_ok v" "vec_size v < vec_capacity v"
  obtains c rest where "vec_items v = map Some (contents v) @ c # rest"
    "vec_capacity v = Suc (length (contents v) + length rest)"
proof -
  have "drop (vec_size v) (vec_items v) \<noteq> []" using assms by (simp add: vec_ok_def)
  then obtain c rest where d: "drop (vec_size v) (vec_items v) = c # rest"
    by (cases "drop (vec_size v) (vec_items v)") auto
  have "vec_items v = map Some (contents v) @ c # rest" using vec_cells [OF assms(1)] d by simp
  moreover from this have "length (vec_items v) = Suc (length (contents v) + length rest)" by simp
  then have "vec_capacity v = Suc (length (contents v) + length rest)"
    using assms(1) by (simp add: vec_ok_def)
  ultimately show thesis by (rule that)
qed

lemma Vector_Insert_refines:
  assumes "vec_ok v" "vec_capacity v < 2 ^ 59" "i \<le> vec_size v"
  shows "\<exists>b v'. Vector_Insert r v i x = Some (b, v') \<and> vec_ok v' \<and> (r \<longrightarrow> b)
    \<and> contents v' = (if b then take i (contents v) @ x # drop i (contents v) else contents v)"
proof -
  obtain b w where g: "grow r v = (b, w)" by (cases "grow r v") auto
  note w = grow_ok [OF assms(1,2) g]
  show ?thesis
  proof (cases b)
    case False
    then show ?thesis using assms(3) g w by (auto simp: Vector_Insert_def)
  next
    case True
    obtain c rest where it: "vec_items w = map Some (contents w) @ c # rest"
      and cap: "vec_capacity w = Suc (length (contents w) + length rest)"
      using spare_cell [OF w(1) w(4) [OF True]] .
    define xs where "xs = contents w"
    have len: "vec_size w = length xs" using length_contents [OF w(1)] by (simp add: xs_def)
    have i: "i \<le> length xs" using assms(3) w(3) len by simp
    define items where "items = map Some (take i xs @ x # drop i xs) @ rest"
    have mv: "memmove (vec_items w) (i + 1) i (vec_size w - i)
        = Some (take (i + 1) (vec_items w) @ map Some (drop i xs) @ rest)"
      using i by (simp add: memmove_def it len xs_def [symmetric] Let_def drop_map)
    have tk: "take (i + 1) (vec_items w) = map Some (take i xs) @ [(map Some xs @ [c]) ! i]"
      using i by (simp add: it xs_def [symmetric] take_map nth_append take_Suc_conv_app_nth)
    have st: "arr_set (take (i + 1) (vec_items w) @ map Some (drop i xs) @ rest) i (Some x)
        = Some items"
      unfolding tk using i by (simp add: items_def arr_set_def list_update_append min_def take_map drop_map)
    let ?v' = "w\<lparr>vec_items := items, vec_size := vec_size w + 1\<rparr>"
    have "Vector_Insert r v i x = Some (True, ?v')"
      using assms(3) g True mv st by (simp add: Vector_Insert_def)
    moreover have "vec_ok ?v'" "contents ?v' = take i xs @ x # drop i xs"
      using vec_okI [of ?v' "take i xs @ x # drop i xs" rest] cap len i w(1)
      by (simp_all add: items_def xs_def [symmetric] vec_ok_def)
    ultimately show ?thesis using w(2) True xs_def by auto
  qed
qed

lemma Vector_PushBack_Insert:
  assumes "vec_ok v" "vec_capacity v < 2 ^ 59"
  shows "Vector_PushBack r v x = Vector_Insert r v (vec_size v) x"
proof -
  obtain b w where g: "grow r v = (b, w)" by (cases "grow r v") auto
  note w = grow_ok [OF assms g]
  have "memmove (vec_items w) (vec_size w + 1) (vec_size w) 0 = Some (vec_items w)" if b
    using w(1) w(4) [OF that] by (simp add: memmove_def vec_ok_def Suc_leI)
  then show ?thesis using g w(3)
    by (cases b) (simp_all add: Vector_PushBack_def Vector_Insert_def)
qed

lemma Vector_PushBack_refines:
  assumes "vec_ok v" "vec_capacity v < 2 ^ 59"
  shows "\<exists>b v'. Vector_PushBack r v x = Some (b, v') \<and> vec_ok v' \<and> (r \<longrightarrow> b)
    \<and> contents v' = (if b then contents v @ [x] else contents v)"
proof -
  have e: "take (vec_size v) (contents v) = contents v" "drop (vec_size v) (contents v) = []"
    using length_contents [OF assms(1)] by simp_all
  show ?thesis
    using Vector_Insert_refines [OF assms order_refl, of r x]
    by (simp only: Vector_PushBack_Insert [OF assms] e)
qed

lemma Vector_Erase_refines:
  assumes "vec_ok v" "i < vec_size v"
  shows "\<exists>v'. Vector_Erase v i = Some v' \<and> vec_ok v'
    \<and> contents v' = take i (contents v) @ drop (Suc i) (contents v)"
proof -
  define xs where "xs = contents v"
  define rest where "rest = drop (vec_size v) (vec_items v)"
  have it: "vec_items v = map Some xs @ rest" and len: "vec_size v = length xs"
    using vec_cells [OF assms(1)] length_contents [OF assms(1)] by (simp_all add: xs_def rest_def)
  have i: "i < length xs" using assms(2) len by simp
  have cap: "vec_capacity v = length xs + length rest"
    using assms(1) it by (simp add: vec_ok_def)
  let ?ys = "take i xs @ drop (Suc i) xs"
  let ?n = "length xs - 1 - i"
  have "drop (Suc i) (vec_items v) = map Some (drop (Suc i) xs) @ rest"
    using i by (simp add: it drop_map)
  moreover have "length (drop (Suc i) xs) = ?n" by simp
  ultimately have "take ?n (drop (Suc i) (vec_items v)) = map Some (drop (Suc i) xs)" by simp
  then have mv: "memmove (vec_items v) i (i + 1) ?n
      = Some (map Some ?ys @ drop (length xs - 1) (vec_items v))"
    using i by (simp add: memmove_def it take_map) arith
  let ?rest = "drop (length xs - 1) (vec_items v)"
  let ?v' = "v\<lparr>vec_size := length xs - 1, vec_items := map Some ?ys @ ?rest\<rparr>"
  have e: "Vector_Erase v i = Some ?v'"
    using assms(2) len mv by (simp add: Vector_Erase_def Let_def)
  have "vec_items ?v' = map Some ?ys @ ?rest" "vec_size ?v' = length ?ys"
    "vec_capacity ?v' = length ?ys + length ?rest" "vec_capacity ?v' < 2 ^ 60"
    using i it cap assms(1) by (auto simp: vec_ok_def)
  then have "vec_ok ?v'" "contents ?v' = ?ys" by (rule vec_okI)+
  then show ?thesis using e by (auto simp: xs_def)
qed

lemma Vector_Set_refines:
  assumes "vec_ok v" "i < vec_size v"
  shows "\<exists>v'. Vector_Set v i x = Some v' \<and> vec_ok v' \<and> contents v' = (contents v)[i := x]"
proof -
  have len: "vec_size v = length (contents v)" using length_contents [OF assms(1)] by simp
  have i: "i < length (vec_items v)" using assms by (simp add: vec_ok_def)
  let ?rest = "drop (vec_size v) (vec_items v)"
  let ?v' = "v\<lparr>vec_items := (vec_items v)[i := Some x]\<rparr>"
  have "(vec_items v)[i := Some x] = map Some ((contents v)[i := x]) @ ?rest"
    by (subst vec_cells [OF assms(1)])
       (use assms(2) len in \<open>simp add: list_update_append map_update\<close>)
  moreover have "vec_size v = length ((contents v)[i := x])" using len by simp
  moreover have "vec_capacity v = length ((contents v)[i := x]) + length ?rest"
    using assms(1) len by (auto simp: vec_ok_def)
  moreover have "vec_capacity v < 2 ^ 60" using assms(1) by (simp add: vec_ok_def)
  ultimately have "vec_ok ?v'" "contents ?v' = (contents v)[i := x]"
    using vec_okI [of ?v' "(contents v)[i := x]" ?rest] by simp_all
  then show ?thesis using assms(2) i by (simp add: Vector_Set_def)
qed

lemma Vector_Clear_refines: "vec_ok v \<Longrightarrow> vec_ok (Vector_Clear v) \<and> contents (Vector_Clear v) = []"
  by (simp add: Vector_Clear_def vec_ok_def contents_def)

lemma Vector_PopBack_refines:
  assumes "vec_ok v" "contents v \<noteq> []"
  shows "vec_ok (Vector_PopBack v) \<and> contents (Vector_PopBack v) = butlast (contents v)"
proof -
  have pos: "0 < vec_size v" "vec_size v < 2 ^ 60"
    using assms length_contents [OF assms(1), symmetric] by (simp_all add: vec_ok_def)
  then obtain n where n: "vec_size v = Suc n" "n < 2 ^ 60" by (cases "vec_size v") auto
  have "Suc n + (2 ^ 64 - 1) = n + 2 ^ 64" by simp
  then have "(Suc n + (2 ^ 64 - 1)) mod 2 ^ 64 = n" using n(2) by (simp only: mod_add_self2) simp
  then have s: "vec_size (Vector_PopBack v) = vec_size v - 1"
    unfolding Vector_PopBack_def n(1) by simp
  have "vec_items (Vector_PopBack v) = vec_items v" "vec_capacity (Vector_PopBack v) = vec_capacity v"
    by (simp_all add: Vector_PopBack_def)
  moreover have "take (vec_size v - 1) (vec_items v) = butlast (take (vec_size v) (vec_items v))"
    using assms(1) pos by (simp add: butlast_take vec_ok_def)
  ultimately show ?thesis using assms(1) s
    by (auto simp: vec_ok_def contents_def map_butlast dest: in_set_butlastD)
qed

section \<open>Searching\<close>

lemma find_from_first:
  assumes "vec_ok v" "i \<le> vec_size v"
  shows "\<exists>r. find_from cmp val v i = Some r
    \<and> (case r of None \<Rightarrow> \<forall>x \<in> set (drop i (contents v)). cmp val x \<noteq> 0
       | Some k \<Rightarrow> i \<le> k \<and> k < vec_size v \<and> cmp val (contents v ! k) = 0
           \<and> (\<forall>j. i \<le> j \<and> j < k \<longrightarrow> cmp val (contents v ! j) \<noteq> 0))"
  using assms
proof (induction cmp val v i rule: find_from.induct)
  case (1 cmp val v i)
  show ?case
  proof (cases "i < vec_size v")
    case False
    then show ?thesis using 1 by (subst find_from.simps) (simp add: length_contents)
  next
    case i: True
    note c = cell_contents [OF 1(2) i]
    have d: "drop i (contents v) = contents v ! i # drop (Suc i) (contents v)"
      using i 1(2) by (simp add: Cons_nth_drop_Suc length_contents)
    show ?thesis
    proof (cases "cmp val (contents v ! i) = 0")
      case True
      then show ?thesis using i c by (subst find_from.simps) simp
    next
      case False
      obtain r where r: "find_from cmp val v (Suc i) = Some r"
        and rr: "case r of None \<Rightarrow> \<forall>x \<in> set (drop (Suc i) (contents v)). cmp val x \<noteq> 0
          | Some k \<Rightarrow> Suc i \<le> k \<and> k < vec_size v \<and> cmp val (contents v ! k) = 0
              \<and> (\<forall>j. Suc i \<le> j \<and> j < k \<longrightarrow> cmp val (contents v ! j) \<noteq> 0)"
        using 1(1) [OF i c False 1(2)] i by auto
      have "find_from cmp val v i = Some r"
        using i c False r by (subst find_from.simps) simp
      moreover have "cmp val (contents v ! j) \<noteq> 0" if "i \<le> j" "j < k" "r = Some k" for j k
        using that rr False by (cases "j = i") auto
      ultimately show ?thesis using rr d False by (cases r) auto
    qed
  qed
qed

text \<open>The bisection stops at the border of a prefix-closed condition.\<close>

lemma bisect_border:
  assumes "vec_ok v"
    and closed: "\<forall>i j. i \<le> j \<longrightarrow> j < vec_size v \<longrightarrow> R (contents v ! j) \<longrightarrow> R (contents v ! i)"
    and "l + n \<le> vec_size v"
    and before: "\<And>i. i < l \<Longrightarrow> R (contents v ! i)"
    and after: "\<And>i. l + n \<le> i \<Longrightarrow> i < vec_size v \<Longrightarrow> \<not> R (contents v ! i)"
  shows "\<exists>p. bisect R v l n = Some p \<and> p \<le> vec_size v \<and> (\<forall>i<p. R (contents v ! i))
    \<and> (\<forall>i. p \<le> i \<and> i < vec_size v \<longrightarrow> \<not> R (contents v ! i))"
  using assms(3-5)
proof (induction n arbitrary: l rule: less_induct)
  case (less n)
  show ?case
  proof (cases "n = 0")
    case True
    then show ?thesis using less.prems by (subst bisect.simps) auto
  next
    case False
    define h where "h = n div 2"
    have h: "h < n" "l + h < vec_size v" using False less.prems(1) by (auto simp: h_def)
    note c = cell_contents [OF assms(1) h(2)]
    show ?thesis
    proof (cases "R (contents v ! (l + h))")
      case True
      have "bisect R v l n = bisect R v (l + (h + 1)) (n - (h + 1))"
        by (subst bisect.simps) (use False c True in \<open>simp add: h_def Let_def\<close>)
      moreover have "\<exists>p. bisect R v (l + (h + 1)) (n - (h + 1)) = Some p \<and> p \<le> vec_size v
        \<and> (\<forall>i<p. R (contents v ! i)) \<and> (\<forall>i. p \<le> i \<and> i < vec_size v \<longrightarrow> \<not> R (contents v ! i))"
      proof (rule less.IH)
        show "R (contents v ! i)" if "i < l + (h + 1)" for i
          using closed [rule_format, of i "l + h"] that h True by auto
      qed (use h less.prems in auto)
      ultimately show ?thesis by simp
    next
      case nR: False
      have "bisect R v l n = bisect R v l h"
        by (subst bisect.simps) (use False c nR in \<open>simp add: h_def Let_def\<close>)
      moreover have "\<exists>p. bisect R v l h = Some p \<and> p \<le> vec_size v
        \<and> (\<forall>i<p. R (contents v ! i)) \<and> (\<forall>i. p \<le> i \<and> i < vec_size v \<longrightarrow> \<not> R (contents v ! i))"
      proof (rule less.IH)
        show "\<not> R (contents v ! i)" if "l + h \<le> i" "i < vec_size v" for i
          using closed [rule_format, of "l + h" i] that nR by auto
      qed (use h less.prems in auto)
      ultimately show ?thesis by simp
    qed
  qed
qed

text \<open>What a comparison function promises the bisections: on the items it may be given (\<open>dom\<close>),
  the items below the value form a prefix of every sorted vector, and so do those not above it.\<close>

locale ordered_search =
  fixes cmp :: "'v \<Rightarrow> 'a \<Rightarrow> int" and le :: "'a \<Rightarrow> 'a \<Rightarrow> bool" and dom :: "'v \<Rightarrow> 'a \<Rightarrow> bool"
  assumes above: "le x y \<Longrightarrow> dom val x \<Longrightarrow> dom val y \<Longrightarrow> cmp val y > 0 \<Longrightarrow> cmp val x > 0"
    and not_below: "le x y \<Longrightarrow> dom val x \<Longrightarrow> dom val y \<Longrightarrow> \<not> cmp val y < 0 \<Longrightarrow> \<not> cmp val x < 0"
begin

lemma lower_bound:
  assumes "vec_ok v" "sorted_wrt le (contents v)" "\<forall>x \<in> set (contents v). dom val x"
  shows "\<exists>p b. Vector_LowerBound cmp val v = Some (p, b) \<and> p \<le> vec_size v
    \<and> (\<forall>i<p. cmp val (contents v ! i) > 0)
    \<and> (\<forall>i. p \<le> i \<and> i < vec_size v \<longrightarrow> \<not> cmp val (contents v ! i) > 0)
    \<and> (b \<longleftrightarrow> (\<exists>x \<in> set (contents v). cmp val x = 0))"
proof -
  note len = length_contents [OF assms(1)]
  have srt: "le (contents v ! i) (contents v ! j)" if "i < j" "j < vec_size v" for i j
    using sorted_wrt_nth_less [OF assms(2)] that len by simp
  have dom: "dom val (contents v ! i)" if "i < vec_size v" for i using that assms(3) len by simp
  have "cmp val (contents v ! i) > 0" if "i \<le> j" "j < vec_size v" "cmp val (contents v ! j) > 0" for i j
    using that above [OF srt dom dom, of i j] by (cases "i = j") auto
  then have cl: "\<forall>i j. i \<le> j \<longrightarrow> j < vec_size v \<longrightarrow> cmp val (contents v ! j) > 0
    \<longrightarrow> cmp val (contents v ! i) > 0" by blast
  obtain p where p: "bisect (\<lambda>item. cmp val item > 0) v 0 (vec_size v) = Some p" "p \<le> vec_size v"
      "\<forall>i<p. cmp val (contents v ! i) > 0"
      "\<forall>i. p \<le> i \<and> i < vec_size v \<longrightarrow> \<not> cmp val (contents v ! i) > 0"
    using bisect_border [where R = "\<lambda>item. cmp val item > 0", OF assms(1) cl,
        where l = 0 and n = "vec_size v"] by auto
  have ex: "(\<exists>x \<in> set (contents v). cmp val x = 0)
      \<longleftrightarrow> p < vec_size v \<and> cmp val (contents v ! p) = 0"
  proof
    assume "\<exists>x \<in> set (contents v). cmp val x = 0"
    then obtain k where k: "k < vec_size v" "cmp val (contents v ! k) = 0"
      using len by (auto simp: in_set_conv_nth)
    have pk: "p \<le> k" using p(3) k(2) by (metis less_irrefl not_less)
    then have "\<not> cmp val (contents v ! p) < 0"
      using k not_below [OF srt dom dom, of p k] by (cases "p = k") auto
    then show "p < vec_size v \<and> cmp val (contents v ! p) = 0" using p(4) pk k(1) by force
  qed (use len in auto)
  show ?thesis
  proof (cases "p < vec_size v")
    case True
    then show ?thesis using p ex cell_contents [OF assms(1) True]
      by (simp add: Vector_LowerBound_def)
  next
    case False
    then show ?thesis using p ex
      by (intro exI [of _ p] exI [of _ False]) (simp add: Vector_LowerBound_def)
  qed
qed

lemma upper_bound:
  assumes "vec_ok v" "sorted_wrt le (contents v)" "\<forall>x \<in> set (contents v). dom val x"
  shows "\<exists>p b. Vector_UpperBound cmp val v = Some (p, b) \<and> p \<le> vec_size v
    \<and> (\<forall>i<p. \<not> cmp val (contents v ! i) < 0)
    \<and> (\<forall>i. p \<le> i \<and> i < vec_size v \<longrightarrow> cmp val (contents v ! i) < 0)
    \<and> (b \<longleftrightarrow> (\<exists>x \<in> set (contents v). cmp val x = 0))"
proof -
  note len = length_contents [OF assms(1)]
  have srt: "le (contents v ! i) (contents v ! j)" if "i < j" "j < vec_size v" for i j
    using sorted_wrt_nth_less [OF assms(2)] that len by simp
  have dom: "dom val (contents v ! i)" if "i < vec_size v" for i using that assms(3) len by simp
  have "\<not> cmp val (contents v ! i) < 0"
    if "i \<le> j" "j < vec_size v" "\<not> cmp val (contents v ! j) < 0" for i j
    using that not_below [OF srt dom dom, of i j] by (cases "i = j") auto
  then have cl: "\<forall>i j. i \<le> j \<longrightarrow> j < vec_size v \<longrightarrow> \<not> cmp val (contents v ! j) < 0
    \<longrightarrow> \<not> cmp val (contents v ! i) < 0" by blast
  obtain p where p: "bisect (\<lambda>item. \<not> cmp val item < 0) v 0 (vec_size v) = Some p" "p \<le> vec_size v"
      "\<forall>i<p. \<not> cmp val (contents v ! i) < 0"
      "\<forall>i. p \<le> i \<and> i < vec_size v \<longrightarrow> cmp val (contents v ! i) < 0"
    using bisect_border [where R = "\<lambda>item. \<not> cmp val item < 0", OF assms(1) cl,
        where l = 0 and n = "vec_size v"] by auto
  have ex: "(\<exists>x \<in> set (contents v). cmp val x = 0)
      \<longleftrightarrow> p > 0 \<and> cmp val (contents v ! (p - 1)) = 0"
  proof
    assume "\<exists>x \<in> set (contents v). cmp val x = 0"
    then obtain k where k: "k < vec_size v" "cmp val (contents v ! k) = 0"
      using len by (auto simp: in_set_conv_nth)
    have pk: "k < p" using p(4) k by (metis less_irrefl not_less)
    then have "k = p - 1 \<or> k < p - 1" "p - 1 < vec_size v" using p(2) by auto
    then have "\<not> cmp val (contents v ! (p - 1)) > 0"
      using k above [OF srt dom dom, of k "p - 1"] by auto
    moreover have "\<not> cmp val (contents v ! (p - 1)) < 0" using p(3) pk by simp
    ultimately show "p > 0 \<and> cmp val (contents v ! (p - 1)) = 0" using pk by simp
  next
    assume "p > 0 \<and> cmp val (contents v ! (p - 1)) = 0"
    then show "\<exists>x \<in> set (contents v). cmp val x = 0"
      using p(2) len by (intro bexI [of _ "contents v ! (p - 1)"]) auto
  qed
  show ?thesis
  proof (cases "p > 0")
    case True
    then have "cell v (p - 1) = Some (contents v ! (p - 1))"
      using p(2) by (intro cell_contents [OF assms(1)]) simp
    then show ?thesis using True p ex by (simp add: Vector_UpperBound_def)
  next
    case False
    then show ?thesis using p ex
      by (intro exI [of _ p] exI [of _ False]) (simp add: Vector_UpperBound_def)
  qed
qed

end

section \<open>Properties\<close>

text \<open>
  C16. On a well-formed vector with room to double its capacity in 60 bits, the operations act on
  the list of its items: \<open>PushBack\<close> appends, \<open>Insert\<close> inserts at the index, \<open>Erase\<close> removes,
  \<open>Set\<close> replaces, \<open>Foreach\<close> visits the items in order; the two growing operations leave the list
  as it was when they report that \<open>realloc\<close> failed, and every result is well formed.
\<close>

theorem vector_refines_list:
  assumes "vec_ok v" "vec_capacity v < 2 ^ 59"
  shows "(\<exists>b v'. Vector_PushBack r v x = Some (b, v') \<and> vec_ok v' \<and> (r \<longrightarrow> b)
      \<and> contents v' = (if b then contents v @ [x] else contents v))
    \<and> (\<forall>i \<le> vec_size v. \<exists>b v'. Vector_Insert r v i x = Some (b, v') \<and> vec_ok v' \<and> (r \<longrightarrow> b)
      \<and> contents v' = (if b then take i (contents v) @ x # drop i (contents v) else contents v))
    \<and> (\<forall>i < vec_size v. Vector_At v i = Some (contents v ! i)
      \<and> (\<exists>v'. Vector_Erase v i = Some v' \<and> vec_ok v'
          \<and> contents v' = take i (contents v) @ drop (Suc i) (contents v))
      \<and> (\<exists>v'. Vector_Set v i x = Some v' \<and> vec_ok v' \<and> contents v' = (contents v)[i := x]))
    \<and> Vector_Foreach v = Some (contents v)"
  using Vector_PushBack_refines [OF assms] Vector_Insert_refines [OF assms]
    Vector_Erase_refines [OF assms(1)] Vector_Set_refines [OF assms(1)]
    cell_contents [OF assms(1)] Vector_Foreach_contents [OF assms(1)]
  by (simp add: Vector_At_def)

theorem vector_refines_list_witness:
  "\<exists>b v'. Vector_PushBack True \<lparr>vec_items = [Some (7::nat), Some 8], vec_capacity = 2, vec_size = 2\<rparr> 9
     = Some (b, v') \<and> contents v' = [7, 8, 9]"
  using vector_refines_list [of "\<lparr>vec_items = [Some (7::nat), Some 8], vec_capacity = 2, vec_size = 2\<rparr>" True 9]
  by (auto simp: vec_ok_def contents_def)

text \<open>
  \<open>Vector_Find\<close> returns the first matching index or reports that no item matches. On a sorted
  vector \<open>Vector_LowerBound\<close> stores the number of items below the value, \<open>Vector_UpperBound\<close> the
  number of items not above it, and both report exactly whether an item matches. Sorted means
  that along the vector the comparison with the value does not increase.
\<close>

theorem vector_searches:
  fixes cmp :: "'b \<Rightarrow> 'c \<Rightarrow> int"
  assumes "vec_ok v" "sorted_wrt (\<lambda>x y. cmp val y \<le> cmp val x) (contents v)"
  shows "(\<exists>r. Vector_Find cmp val v = Some r
      \<and> (case r of None \<Rightarrow> \<forall>x \<in> set (contents v). cmp val x \<noteq> 0
         | Some k \<Rightarrow> k < vec_size v \<and> cmp val (contents v ! k) = 0
             \<and> (\<forall>j<k. cmp val (contents v ! j) \<noteq> 0)))
    \<and> Vector_LowerBound cmp val v
      = Some (length (filter (\<lambda>x. cmp val x > 0) (contents v)), \<exists>x \<in> set (contents v). cmp val x = 0)
    \<and> Vector_UpperBound cmp val v
      = Some (length (filter (\<lambda>x. cmp val x \<ge> 0) (contents v)), \<exists>x \<in> set (contents v). cmp val x = 0)"
proof -
  have cut: "length (filter P xs) = p"
    if "p \<le> length xs" "\<forall>i<p. P (xs ! i)" "\<forall>i. p \<le> i \<and> i < length xs \<longrightarrow> \<not> P (xs ! i)"
    for P p and xs :: "'c list"
  proof -
    have "{i. i < length xs \<and> P (xs ! i)} = {..<p}"
      using that by (auto simp: not_less [symmetric])
    then show ?thesis by (simp add: length_filter_conv_card)
  qed
  note len = length_contents [OF assms(1)]
  have loc: "ordered_search (\<lambda>_. cmp val) (\<lambda>x y. cmp val y \<le> cmp val x) (\<lambda>_ _. True)"
    by unfold_locales auto
  have bounds: "Vector_LowerBound (\<lambda>_. cmp val) val v = Vector_LowerBound cmp val v"
    "Vector_UpperBound (\<lambda>_. cmp val) val v = Vector_UpperBound cmp val v"
    by (simp_all add: Vector_LowerBound_def Vector_UpperBound_def)
  show ?thesis
  proof (intro conjI)
    show "\<exists>r. Vector_Find cmp val v = Some r
      \<and> (case r of None \<Rightarrow> \<forall>x \<in> set (contents v). cmp val x \<noteq> 0
         | Some k \<Rightarrow> k < vec_size v \<and> cmp val (contents v ! k) = 0
             \<and> (\<forall>j<k. cmp val (contents v ! j) \<noteq> 0))"
      using find_from_first [OF assms(1), of 0 cmp val] unfolding Vector_Find_def
      by (auto split: option.splits)
    obtain p b where p: "Vector_LowerBound cmp val v = Some (p, b)" "p \<le> length (contents v)"
      "\<forall>i<p. cmp val (contents v ! i) > 0"
      "\<forall>i. p \<le> i \<and> i < length (contents v) \<longrightarrow> \<not> cmp val (contents v ! i) > 0"
      "b \<longleftrightarrow> (\<exists>x \<in> set (contents v). cmp val x = 0)"
      using ordered_search.lower_bound [OF loc assms, of val] unfolding bounds len by auto
    show "Vector_LowerBound cmp val v
      = Some (length (filter (\<lambda>x. cmp val x > 0) (contents v)), \<exists>x \<in> set (contents v). cmp val x = 0)"
      using cut [OF p(2-4)] p(1,5) by simp
    obtain q c where q: "Vector_UpperBound cmp val v = Some (q, c)" "q \<le> length (contents v)"
      "\<forall>i<q. cmp val (contents v ! i) \<ge> 0"
      "\<forall>i. q \<le> i \<and> i < length (contents v) \<longrightarrow> \<not> cmp val (contents v ! i) \<ge> 0"
      "c \<longleftrightarrow> (\<exists>x \<in> set (contents v). cmp val x = 0)"
      using ordered_search.upper_bound [OF loc assms, of val] unfolding bounds len by (auto simp: not_less not_le)
    show "Vector_UpperBound cmp val v
      = Some (length (filter (\<lambda>x. cmp val x \<ge> 0) (contents v)), \<exists>x \<in> set (contents v). cmp val x = 0)"
      using cut [OF q(2-4)] q(1,5) by simp
  qed
qed

theorem vector_searches_witness:
  "Vector_LowerBound (\<lambda>v x. v - x) 5 \<lparr>vec_items = [Some 3, Some (5::int)], vec_capacity = 2, vec_size = 2\<rparr>
     = Some (1, True)"
  using vector_searches [of "\<lparr>vec_items = [Some 3, Some (5::int)], vec_capacity = 2, vec_size = 2\<rparr>"
      "\<lambda>v x. v - x" 5]
  by (simp add: vec_ok_def contents_def)

end
