(* ===== verification/Scorep_Bitstring.thy ===== *)
theory Scorep_Bitstring
  imports Scorep_Prelude
begin

text \<open>
  Bit strings over a byte array, \<open>src/src/utils/bitstring/SCOREP_Bitstring.c\<close>: bit \<open>i\<close> is the
  bit with weight \<open>128 >> (i mod 8)\<close> of byte \<open>i div 8\<close>. Indices and lengths are \<open>uint32_t\<close>
  values; the rounding \<open>length + 7\<close> wraps at 32 bits.
\<close>

section \<open>Operations\<close>

definition Bitstring_mask :: "nat \<Rightarrow> u8" where
  "Bitstring_mask index = drop_bit (index mod 8) 0x80"

definition Bitstring_Set :: "u8 list \<Rightarrow> nat \<Rightarrow> u8 list option" where
  "Bitstring_Set bitstring index = do {
     byte \<leftarrow> arr_get bitstring (index div 8);
     arr_set bitstring (index div 8) (byte OR Bitstring_mask index)
   }"

definition Bitstring_IsSet :: "u8 list \<Rightarrow> nat \<Rightarrow> bool option" where
  "Bitstring_IsSet bitstring index = do {
     byte \<leftarrow> arr_get bitstring (index div 8);
     Some (byte AND Bitstring_mask index \<noteq> 0)
   }"

definition Bitstring_GetByteSize :: "nat \<Rightarrow> nat" where
  "Bitstring_GetByteSize len = u32_add len 7 div 8"

text \<open>\<open>memset\<close> of the first \<open>n\<close> bytes; writing past the array is undefined.\<close>

definition memset_bytes :: "u8 list \<Rightarrow> u8 \<Rightarrow> nat \<Rightarrow> u8 list option" where
  "memset_bytes bytes v n =
     (if n \<le> length bytes then Some (replicate n v @ drop n bytes) else None)"

definition Bitstring_Clear :: "u8 list \<Rightarrow> nat \<Rightarrow> u8 list option" where
  "Bitstring_Clear bitstring len = memset_bytes bitstring 0 (u32_add len 7 div 8)"

definition Bitstring_SetAll :: "u8 list \<Rightarrow> nat \<Rightarrow> u8 list option" where
  "Bitstring_SetAll bitstring len = memset_bytes bitstring 0xFF (u32_add len 7 div 8)"

section \<open>The mask\<close>

lemma bit_Bitstring_mask: "bit (Bitstring_mask i) k \<longleftrightarrow> k = 7 - i mod 8"
proof -
  have "(0x80 :: u8) = 2 ^ 7" by simp
  then have "bit (Bitstring_mask i) k \<longleftrightarrow> i mod 8 + k = 7"
    unfolding Bitstring_mask_def bit_drop_bit_eq by (simp only: o_def bit_shifted_one) simp
  also have "\<dots> \<longleftrightarrow> k = 7 - i mod 8" by (auto simp: less_Suc_eq_le [symmetric])
  finally show ?thesis .
qed

lemma and_Bitstring_mask: "byte AND Bitstring_mask i \<noteq> 0 \<longleftrightarrow> bit byte (7 - i mod 8)"
proof
  assume "byte AND Bitstring_mask i \<noteq> 0"
  then obtain k where "bit (byte AND Bitstring_mask i) k" by (auto dest: word_nonzero_bit)
  then show "bit byte (7 - i mod 8)" by (auto simp: bit_and_iff bit_Bitstring_mask)
next
  assume "bit byte (7 - i mod 8)"
  then have "bit (byte AND Bitstring_mask i) (7 - i mod 8)"
    by (simp add: bit_and_iff bit_Bitstring_mask)
  then show "byte AND Bitstring_mask i \<noteq> 0" by auto
qed

lemma IsSet_in: "i div 8 < length bs \<Longrightarrow> Bitstring_IsSet bs i = Some (bit (bs ! (i div 8)) (7 - i mod 8))"
  by (simp add: Bitstring_IsSet_def and_Bitstring_mask)

lemma position_eq: "i div 8 = j div 8 \<Longrightarrow> 7 - i mod 8 = 7 - j mod 8 \<Longrightarrow> i = (j :: nat)"
proof -
  assume a: "i div 8 = j div 8" and b: "7 - i mod 8 = 7 - j mod 8"
  have "i mod 8 < 8" "j mod 8 < 8" by simp_all
  then have "i mod 8 = j mod 8" using b by linarith
  then show "i = j" using a by (metis div_mult_mod_eq)
qed

section \<open>Properties\<close>

text \<open>
  Setting a bit returns when its byte exists, makes exactly that bit read as set and keeps
  every other bit.
\<close>

theorem bitstring_set_isset:
  assumes "i div 8 < length bs"
  shows "\<exists>bs'. Bitstring_Set bs i = Some bs' \<and> length bs' = length bs
    \<and> (\<forall>j. Bitstring_IsSet bs' j = (if j = i then Some True else Bitstring_IsSet bs j))"
proof -
  let ?bs = "bs[i div 8 := bs ! (i div 8) OR Bitstring_mask i]"
  have "Bitstring_IsSet ?bs j = (if j = i then Some True else Bitstring_IsSet bs j)" for j
  proof (cases "j div 8 < length bs")
    case True
    then show ?thesis using assms position_eq [of j i]
      by (auto simp: IsSet_in nth_list_update bit_or_iff bit_Bitstring_mask)
  next
    case False
    then show ?thesis using assms by (auto simp: Bitstring_IsSet_def arr_get_def)
  qed
  then show ?thesis using assms by (simp add: Bitstring_Set_def)
qed

theorem bitstring_set_isset_witness:
  "\<exists>bs'. Bitstring_Set [0, 0] 9 = Some bs' \<and> Bitstring_IsSet bs' 9 = Some True
    \<and> Bitstring_IsSet bs' 8 = Some False"
proof -
  have "Bitstring_IsSet [0, 0] 8 = Some False" by (simp add: IsSet_in)
  then show ?thesis using bitstring_set_isset [of 9 "[0, 0]"] by auto
qed

text \<open>
  With \<open>GetByteSize\<close> bytes for \<open>len\<close> bits, every index below \<open>len\<close> has its byte, and after
  \<open>Clear\<close> all of them read as unset, after \<open>SetAll\<close> all of them as set.
\<close>

theorem bitstring_clear_set_all:
  assumes "len < 2 ^ 32 - 7" "length bs = Bitstring_GetByteSize len"
  shows "\<exists>c s. Bitstring_Clear bs len = Some c \<and> Bitstring_SetAll bs len = Some s
    \<and> (\<forall>i < len. Bitstring_IsSet c i = Some False \<and> Bitstring_IsSet s i = Some True)"
proof -
  have n: "length bs = (len + 7) div 8" "u32_add len 7 = len + 7"
    using assms by (simp_all add: Bitstring_GetByteSize_def u32_add_def)
  let ?n = "(len + 7) div 8"
  have c: "Bitstring_Clear bs len = Some (replicate ?n 0)"
    and s: "Bitstring_SetAll bs len = Some (replicate ?n 0xFF)"
    using n by (simp_all add: Bitstring_Clear_def Bitstring_SetAll_def memset_bytes_def)
  have m: "(0xFF :: u8) = 2 ^ 8 - 1" by simp
  have "Bitstring_IsSet (replicate ?n 0) i = Some False
      \<and> Bitstring_IsSet (replicate ?n 0xFF) i = Some True" if "i < len" for i
  proof -
    have i: "i div 8 < ?n" using that by linarith
    have "bit (0xFF :: u8) (7 - i mod 8)" unfolding m bit_low_mask by simp
    then show ?thesis using i by (simp add: IsSet_in)
  qed
  then show ?thesis using c s by blast
qed

theorem bitstring_clear_set_all_witness:
  "\<exists>c s. Bitstring_Clear [0x55, 0xAA] 11 = Some c \<and> Bitstring_SetAll [0x55, 0xAA] 11 = Some s
    \<and> Bitstring_IsSet c 10 = Some False \<and> Bitstring_IsSet s 10 = Some True"
proof -
  have "length [0x55, 0xAA :: u8] = Bitstring_GetByteSize 11"
    by (simp add: Bitstring_GetByteSize_def u32_add_def)
  then show ?thesis using bitstring_clear_set_all [of 11 "[0x55, 0xAA]"] by force
qed

end
