(* ===== verification/Scorep_Rewind.thy ===== *)
theory Scorep_Rewind
  imports Scorep_Prelude
begin

text \<open>
  The stack of open rewind regions of a location,
  \<open>src/src/measurement/tracing/scorep_rewind_stack_management.c\<close>, and its two users
  \<open>store_rewind_point\<close> and \<open>exit_rewind_point\<close> of \<open>SCOREP_Tracing_Events.c\<close>.

  The items are linked through \<open>prev\<close> and move between the stack and a free list, so the model
  keeps the memory: \<open>items\<close> holds all items allocated so far and a pointer is an index into it.
  The loops that follow \<open>prev\<close> are partial functions, because nothing in the code bounds them;
  that they end is part of what is proved. The calls into the trace writer and the property
  management are recorded as a list of actions.
\<close>

section \<open>Data\<close>

datatype rewind_paradigm =
  REWIND_PARADIGM_MPI | REWIND_PARADIGM_THREAD_FORK_JOIN
| REWIND_PARADIGM_THREAD_CREATE_WAIT | REWIND_PARADIGM_THREAD_LOCKING

fun paradigm_index :: "rewind_paradigm \<Rightarrow> nat" where
  "paradigm_index REWIND_PARADIGM_MPI = 0"
| "paradigm_index REWIND_PARADIGM_THREAD_FORK_JOIN = 1"
| "paradigm_index REWIND_PARADIGM_THREAD_CREATE_WAIT = 2"
| "paradigm_index REWIND_PARADIGM_THREAD_LOCKING = 3"

record rewind_item =
  item_id :: u32
  entertimestamp :: u64
  prev :: "nat option"
  paradigm_affected :: "bool list"

record tracing_data =
  items :: "rewind_item list"
  rewind_stack :: "nat option"
  rewind_free_list :: "nat option"

datatype trace_action =
  StoreRewindPoint u32 | ClearRewindPoint u32 | RewindBuffer u32
| DisableRecording u64 u32 | EnableRecording u64 u32 | InvalidateProperty rewind_paradigm

section \<open>Operations\<close>

text \<open>The loops return the last item seen and the item found, if any.\<close>

partial_function (option) rewind_search ::
    "rewind_item list \<Rightarrow> u32 \<Rightarrow> nat option \<Rightarrow> nat option \<Rightarrow> (nat option \<times> nat option) option" where
  "rewind_search mem i lst item =
     (if item = None then Some (lst, None)
      else do {
        n \<leftarrow> arr_get mem (the item);
        if item_id n \<noteq> i then rewind_search mem i item (prev n) else Some (lst, item)
      })"

definition rewind_stack_find :: "tracing_data \<Rightarrow> u32 \<Rightarrow> bool option" where
  "rewind_stack_find td i = do {
     (lst, item) \<leftarrow> rewind_search (items td) i (rewind_stack td) (rewind_stack td);
     Some (item \<noteq> None)
   }"

definition update_item :: "rewind_item list \<Rightarrow> nat \<Rightarrow> (rewind_item \<Rightarrow> rewind_item) \<Rightarrow> rewind_item list option" where
  "update_item mem a f = do { n \<leftarrow> arr_get mem a; arr_set mem a (f n) }"

text \<open>\<open>SCOREP_Location_AllocForMisc\<close> hands out a new item (it aborts when out of memory).\<close>

definition new_item :: "tracing_data \<Rightarrow> (nat \<times> tracing_data) option" where
  "new_item td =
     (case rewind_free_list td of
        Some a \<Rightarrow> do { n \<leftarrow> arr_get (items td) a; Some (a, td\<lparr>rewind_free_list := prev n\<rparr>) }
      | None \<Rightarrow> Some (length (items td),
          td\<lparr>items := items td @ [\<lparr>item_id = 0, entertimestamp = 0, prev = None, paradigm_affected = []\<rparr>]\<rparr>))"

definition rewind_stack_push :: "tracing_data \<Rightarrow> u32 \<Rightarrow> u64 \<Rightarrow> tracing_data option" where
  "rewind_stack_push td i timestamp = do {
     let stack_head = rewind_stack td;
     found \<leftarrow> rewind_stack_find td i;
     if found then do {
       (last_item, item) \<leftarrow> rewind_search (items td) i stack_head stack_head;
       (mem, stack_head) \<leftarrow>
         (if last_item \<noteq> stack_head then
            (case (last_item, item) of
               (Some l, Some a) \<Rightarrow> do {
                 n \<leftarrow> arr_get (items td) a;
                 mem \<leftarrow> update_item (items td) l (prev_update (\<lambda>_. prev n));
                 mem \<leftarrow> update_item mem a (prev_update (\<lambda>_. stack_head));
                 Some (mem, Some a)
               }
             | _ \<Rightarrow> None)
          else Some (items td, stack_head));
       (case stack_head of
          None \<Rightarrow> None
        | Some h \<Rightarrow> do {
            mem \<leftarrow> update_item mem h (entertimestamp_update (\<lambda>_. timestamp));
            Some (td\<lparr>items := mem, rewind_stack := stack_head\<rparr>)
          })
     } else do {
       (a, td) \<leftarrow> new_item td;
       mem \<leftarrow> update_item (items td) a (\<lambda>_. \<lparr>item_id = i, entertimestamp = timestamp,
         prev = stack_head, paradigm_affected = replicate 4 False\<rparr>);
       Some (td\<lparr>items := mem, rewind_stack := Some a\<rparr>)
     }
   }"

text \<open>The values stored through the output pointers; \<open>None\<close> when the stack is empty.\<close>

definition rewind_stack_pop ::
    "tracing_data \<Rightarrow> ((u32 \<times> u64 \<times> bool list) option \<times> tracing_data) option" where
  "rewind_stack_pop td =
     (case rewind_stack td of
        None \<Rightarrow> Some (None, td)
      | Some a \<Rightarrow> do {
          n \<leftarrow> arr_get (items td) a;
          mem \<leftarrow> update_item (items td) a (prev_update (\<lambda>_. rewind_free_list td));
          Some (Some (item_id n, entertimestamp n, paradigm_affected n),
            td\<lparr>items := mem, rewind_stack := prev n, rewind_free_list := Some a\<rparr>)
        })"

partial_function (option) delete_loop :: "tracing_data \<Rightarrow> nat option \<Rightarrow> tracing_data option" where
  "delete_loop td stack_head =
     (case stack_head of
        None \<Rightarrow> Some td
      | Some a \<Rightarrow> do {
          n \<leftarrow> arr_get (items td) a;
          mem \<leftarrow> update_item (items td) a (prev_update (\<lambda>_. rewind_free_list td));
          delete_loop (td\<lparr>items := mem, rewind_free_list := Some a\<rparr>) (prev n)
        })"

definition rewind_stack_delete :: "tracing_data \<Rightarrow> tracing_data option" where
  "rewind_stack_delete td = do {
     td \<leftarrow> delete_loop td (rewind_stack td);
     Some (td\<lparr>rewind_stack := None\<rparr>)
   }"

partial_function (option) affect_loop ::
    "nat \<Rightarrow> rewind_item list \<Rightarrow> nat option \<Rightarrow> rewind_item list option" where
  "affect_loop p mem item =
     (case item of
        None \<Rightarrow> Some mem
      | Some a \<Rightarrow> do {
          n \<leftarrow> arr_get mem a;
          flags \<leftarrow> arr_set (paradigm_affected n) p True;
          mem \<leftarrow> arr_set mem a (n\<lparr>paradigm_affected := flags\<rparr>);
          affect_loop p mem (prev n)
        })"

definition rewind_set_affected_paradigm :: "tracing_data \<Rightarrow> rewind_paradigm \<Rightarrow> tracing_data option" where
  "rewind_set_affected_paradigm td p = do {
     mem \<leftarrow> affect_loop (paradigm_index p) (items td) (rewind_stack td);
     Some (td\<lparr>items := mem\<rparr>)
   }"

definition store_rewind_point ::
    "tracing_data \<Rightarrow> u64 \<Rightarrow> u32 \<Rightarrow> (trace_action list \<times> tracing_data) option" where
  "store_rewind_point td timestamp region_id = do {
     td \<leftarrow> rewind_stack_push td region_id timestamp;
     Some ([StoreRewindPoint region_id], td)
   }"

text \<open>The loop of \<open>exit_rewind_point\<close>. On an empty stack \<open>pop\<close> stores nothing, so the output
  variables of the caller keep their values \<open>out\<close>.\<close>

partial_function (option) pop_until ::
    "u32 \<Rightarrow> (u32 \<times> u64 \<times> bool list) \<Rightarrow> trace_action list \<Rightarrow> tracing_data
     \<Rightarrow> (trace_action list \<times> (u32 \<times> u64 \<times> bool list) \<times> tracing_data) option" where
  "pop_until i out acts td = do {
     r \<leftarrow> rewind_stack_pop td;
     let td = snd r;
     let out = (if fst r = None then out else the (fst r));
     if i \<noteq> fst out then pop_until i out (acts @ [ClearRewindPoint (fst out)]) td
     else Some (acts, out, td)
   }"

definition exit_rewind_point ::
    "tracing_data \<Rightarrow> u32 \<Rightarrow> bool \<Rightarrow> (trace_action list \<times> tracing_data) option" where
  "exit_rewind_point td region_id do_rewind = do {
     found \<leftarrow> rewind_stack_find td region_id;
     if \<not> found then Some ([], td)
     else do {
       (cleared, (id_pop, entertime, affected), td) \<leftarrow> pop_until region_id (0, 0, replicate 4 False) [] td;
       flags \<leftarrow> Some (filter (\<lambda>p. affected ! paradigm_index p)
         [REWIND_PARADIGM_MPI, REWIND_PARADIGM_THREAD_FORK_JOIN,
          REWIND_PARADIGM_THREAD_CREATE_WAIT, REWIND_PARADIGM_THREAD_LOCKING]);
       Some (cleared
         @ (if do_rewind
            then [RewindBuffer region_id, DisableRecording entertime region_id,
                  EnableRecording entertime region_id] @ map InvalidateProperty flags
            else [])
         @ [ClearRewindPoint region_id], td)
     }
   }"

section \<open>Linked lists in the item memory\<close>

fun lseg :: "rewind_item list \<Rightarrow> nat option \<Rightarrow> nat list \<Rightarrow> nat option \<Rightarrow> bool" where
  "lseg mem p [] q \<longleftrightarrow> p = q"
| "lseg mem p (a # as) q \<longleftrightarrow> p = Some a \<and> a < length mem \<and> lseg mem (prev (mem ! a)) as q"

lemma lseg_append: "lseg mem p (xs @ ys) q \<longleftrightarrow> (\<exists>r. lseg mem p xs r \<and> lseg mem r ys q)"
  by (induction xs arbitrary: p) auto

lemma lseg_bound: "lseg mem p as q \<Longrightarrow> a \<in> set as \<Longrightarrow> a < length mem"
  by (induction as arbitrary: p) auto

lemma lseg_cong:
  "lseg mem p as q \<Longrightarrow> length mem \<le> length mem'
   \<Longrightarrow> (\<And>a. a \<in> set as \<Longrightarrow> prev (mem' ! a) = prev (mem ! a)) \<Longrightarrow> lseg mem' p as q"
  by (induction as arbitrary: p) (auto intro: order_less_le_trans)

lemma item_other: "b \<in> set as \<Longrightarrow> a \<notin> set as \<Longrightarrow> mem[a := n] ! b = mem ! b"
  by (metis nth_list_update_neq)

lemma lseg_None: "lseg mem None as None \<longleftrightarrow> as = []"
  by (cases as) auto

type_synonym rewind_entry = "u32 \<times> u64 \<times> bool list"

definition entry_of :: "rewind_item \<Rightarrow> rewind_entry" where
  "entry_of n = (item_id n, entertimestamp n, paradigm_affected n)"

definition view :: "rewind_item list \<Rightarrow> nat list \<Rightarrow> rewind_entry list" where
  "view mem as = map (\<lambda>a. entry_of (mem ! a)) as"

lemma view_cong:
  "(\<And>a. a \<in> set as \<Longrightarrow> entry_of (mem' ! a) = entry_of (mem ! a)) \<Longrightarrow> view mem' as = view mem as"
  by (simp add: view_def)

lemma view_simps [simp]:
  "view mem [] = []" "view mem (a # as) = entry_of (mem ! a) # view mem as"
  "view mem (as @ bs) = view mem as @ view mem bs"
  by (simp_all add: view_def)

text \<open>The addresses \<open>ss\<close> of the stack and \<open>fs\<close> of the free list, top first.\<close>

definition rewind_ok :: "tracing_data \<Rightarrow> nat list \<Rightarrow> nat list \<Rightarrow> bool" where
  "rewind_ok td ss fs \<longleftrightarrow>
     lseg (items td) (rewind_stack td) ss None \<and> lseg (items td) (rewind_free_list td) fs None
     \<and> distinct (ss @ fs) \<and> distinct (map fst (view (items td) ss))
     \<and> (\<forall>a \<in> set ss. length (paradigm_affected (items td ! a)) = 4)"

definition rewind_holds :: "tracing_data \<Rightarrow> rewind_entry list \<Rightarrow> bool" where
  "rewind_holds td es \<longleftrightarrow> (\<exists>ss fs. rewind_ok td ss fs \<and> es = view (items td) ss)"

lemma rewind_holdsI: "rewind_ok td ss fs \<Longrightarrow> view (items td) ss = es \<Longrightarrow> rewind_holds td es"
  by (auto simp: rewind_holds_def)

section \<open>Searching\<close>

lemma rewind_search_absent:
  assumes "lseg mem p ss None" "\<forall>a \<in> set ss. item_id (mem ! a) \<noteq> i"
  shows "\<exists>l'. rewind_search mem i l p = Some (l', None)"
  using assms
proof (induction ss arbitrary: p l)
  case Nil
  then show ?case by (simp add: rewind_search.simps)
next
  case (Cons a ss)
  have "rewind_search mem i l p = rewind_search mem i p (prev (mem ! a))"
    using Cons.prems by (subst rewind_search.simps) auto
  then show ?case using Cons.IH [of "prev (mem ! a)" p] Cons.prems by simp
qed

lemma rewind_search_found:
  assumes "lseg mem p (xs @ a # ys) None" "item_id (mem ! a) = i" "\<forall>b \<in> set xs. item_id (mem ! b) \<noteq> i"
  shows "rewind_search mem i l p = Some (if xs = [] then l else Some (last xs), Some a)"
  using assms
proof (induction xs arbitrary: p l)
  case Nil
  then show ?case by (subst rewind_search.simps) auto
next
  case (Cons b xs)
  have "rewind_search mem i l p = rewind_search mem i p (prev (mem ! b))"
    using Cons.prems by (subst rewind_search.simps) auto
  then show ?case using Cons.IH [of "prev (mem ! b)" p] Cons.prems by auto
qed

lemma ids_view: "fst ` set (view mem ss) = (\<lambda>a. item_id (mem ! a)) ` set ss"
  by (simp add: view_def entry_of_def image_image)

lemma split_at_id:
  assumes "i \<in> fst ` set (view mem ss)" "distinct (map fst (view mem ss))"
  obtains xs a ys where "ss = xs @ a # ys" "item_id (mem ! a) = i"
    "\<forall>b \<in> set xs. item_id (mem ! b) \<noteq> i" "\<forall>b \<in> set ys. item_id (mem ! b) \<noteq> i"
proof -
  obtain a where a: "a \<in> set ss" "item_id (mem ! a) = i" using assms(1) by (auto simp: ids_view)
  then obtain xs ys where s: "ss = xs @ a # ys" by (auto dest: split_list)
  have "\<forall>b \<in> set xs \<union> set ys. item_id (mem ! b) \<noteq> i"
    using assms(2) a(2) unfolding s
    by (auto simp: view_def entry_of_def image_iff)
  then show thesis using that [OF s a(2)] by blast
qed

lemma rewind_stack_find_holds:
  assumes "rewind_holds td es"
  shows "rewind_stack_find td i = Some (i \<in> fst ` set es)"
proof -
  obtain ss fs where ok: "rewind_ok td ss fs" and es: "es = view (items td) ss"
    using assms by (auto simp: rewind_holds_def)
  have l: "lseg (items td) (rewind_stack td) ss None" and d: "distinct (map fst (view (items td) ss))"
    using ok by (simp_all add: rewind_ok_def)
  show ?thesis
  proof (cases "i \<in> fst ` set es")
    case True
    then obtain xs a ys where "ss = xs @ a # ys" "item_id (items td ! a) = i"
      "\<forall>b \<in> set xs. item_id (items td ! b) \<noteq> i"
      using split_at_id [OF _ d, of i] es by metis
    then show ?thesis using rewind_search_found [of "items td" _ xs a ys i] l True
      by (simp add: rewind_stack_find_def)
  next
    case False
    then have "\<forall>a \<in> set ss. item_id (items td ! a) \<noteq> i" by (auto simp: es ids_view)
    then obtain l' where "rewind_search (items td) i (rewind_stack td) (rewind_stack td) = Some (l', None)"
      using rewind_search_absent [OF l] by blast
    then show ?thesis using False by (simp add: rewind_stack_find_def)
  qed
qed

section \<open>The operations on the list of entries\<close>

lemma update_item_in: "a < length mem \<Longrightarrow> update_item mem a f = Some (mem[a := f (mem ! a)])"
  by (simp add: update_item_def)

lemma ok_bound: "rewind_ok td ss fs \<Longrightarrow> a \<in> set ss \<union> set fs \<Longrightarrow> a < length (items td)"
  by (auto simp: rewind_ok_def dest: lseg_bound)

lemma rewind_stack_pop_holds:
  assumes "rewind_holds td (e # es)"
  shows "\<exists>td'. rewind_stack_pop td = Some (Some e, td') \<and> rewind_holds td' es"
proof -
  obtain ss fs where ok: "rewind_ok td ss fs" and es: "view (items td) ss = e # es"
    using assms by (auto simp: rewind_holds_def)
  obtain a as where ss: "ss = a # as" using es by (cases ss) auto
  have a: "a < length (items td)" using ok_bound [OF ok, of a] ss by simp
  let ?mem = "(items td)[a := (items td ! a)\<lparr>prev := rewind_free_list td\<rparr>]"
  let ?td = "td\<lparr>items := ?mem, rewind_stack := prev (items td ! a), rewind_free_list := Some a\<rparr>"
  have d: "a \<notin> set as" "a \<notin> set fs" using ok ss by (auto simp: rewind_ok_def)
  have "rewind_stack_pop td = Some (Some e, ?td)"
    using ok es a by (simp add: ss rewind_stack_pop_def rewind_ok_def update_item_in entry_of_def)
  moreover have "view ?mem as = es"
  proof -
    have "view ?mem as = view (items td) as" using d by (intro view_cong) (auto simp: item_other)
    then show ?thesis using es ss by simp
  qed
  moreover have "rewind_ok ?td as (a # fs)"
    unfolding rewind_ok_def
  proof (intro conjI)
    show "lseg (items ?td) (rewind_stack ?td) as None"
      using ok d by (simp add: ss rewind_ok_def) (rule lseg_cong, auto simp: nth_list_update)
    show "lseg (items ?td) (rewind_free_list ?td) (a # fs) None"
      using ok d a by (simp add: rewind_ok_def) (rule lseg_cong, auto simp: nth_list_update)
    show "distinct (map fst (view (items ?td) as))"
      using \<open>view ?mem as = es\<close> ok es by (simp add: rewind_ok_def)
    show "\<forall>b \<in> set as. length (paradigm_affected (items ?td ! b)) = 4"
      using ok ss by (auto simp: rewind_ok_def nth_list_update)
  qed (use ok ss in \<open>auto simp: rewind_ok_def\<close>)
  ultimately show ?thesis using rewind_holdsI by fastforce
qed

lemma rewind_stack_pop_empty:
  assumes "rewind_holds td []"
  shows "rewind_stack_pop td = Some (None, td)"
proof -
  obtain ss fs where ok: "rewind_ok td ss fs" and es: "view (items td) ss = []"
    using assms by (auto simp: rewind_holds_def)
  have "ss = []" using es by (simp add: view_def)
  then show ?thesis using ok by (simp add: rewind_ok_def rewind_stack_pop_def)
qed

lemma delete_loop_ok:
  assumes "rewind_ok td ss fs" "rewind_stack td = p"
  shows "\<exists>td' fs'. delete_loop td p = Some td' \<and> rewind_ok (td'\<lparr>rewind_stack := None\<rparr>) [] fs'"
proof -
  have gen: "lseg (items td) p as None \<Longrightarrow> lseg (items td) (rewind_free_list td) fs None
      \<Longrightarrow> distinct (as @ fs)
      \<Longrightarrow> \<exists>td' fs'. delete_loop td p = Some td' \<and> rewind_ok (td'\<lparr>rewind_stack := None\<rparr>) [] fs'" for as
  proof (induction as arbitrary: td p fs)
    case Nil
    then show ?case by (auto simp: delete_loop.simps rewind_ok_def)
  next
    case (Cons a as)
    let ?mem = "(items td)[a := (items td ! a)\<lparr>prev := rewind_free_list td\<rparr>]"
    let ?td = "td\<lparr>items := ?mem, rewind_free_list := Some a\<rparr>"
    have "delete_loop td p = delete_loop ?td (prev (items td ! a))"
      using Cons.prems by (subst delete_loop.simps) (simp add: update_item_in)
    moreover have s: "lseg (items ?td) (prev (items td ! a)) as None"
      using Cons.prems by simp (rule lseg_cong, auto simp: nth_list_update)
    moreover have f: "lseg (items ?td) (rewind_free_list ?td) (a # fs) None"
      using Cons.prems by simp (rule lseg_cong, auto simp: nth_list_update)
    moreover have "distinct (as @ a # fs)" using Cons.prems by auto
    ultimately show ?case using Cons.IH [OF s f] by presburger
  qed
  show ?thesis using gen [of ss] assms by (simp add: rewind_ok_def)
qed

lemma rewind_stack_delete_holds:
  assumes "rewind_holds td es"
  shows "\<exists>td'. rewind_stack_delete td = Some td' \<and> rewind_holds td' []"
proof -
  obtain ss fs where ok: "rewind_ok td ss fs" using assms by (auto simp: rewind_holds_def)
  obtain td' fs' where "delete_loop td (rewind_stack td) = Some td'"
    "rewind_ok (td'\<lparr>rewind_stack := None\<rparr>) [] fs'"
    using delete_loop_ok [OF ok refl] by blast
  then show ?thesis by (auto simp: rewind_stack_delete_def intro: rewind_holdsI)
qed

text \<open>\<open>push\<close> as the code does it: an id below the second position is moved to the top with the
  new time stamp; an id at the second position stays there and the top gets the time stamp.\<close>

definition push_entries :: "u32 \<Rightarrow> u64 \<Rightarrow> rewind_entry list \<Rightarrow> rewind_entry list" where
  "push_entries i timestamp es =
     (let tops = takeWhile (\<lambda>e. fst e \<noteq> i) es
      in case dropWhile (\<lambda>e. fst e \<noteq> i) es of
           [] \<Rightarrow> (i, timestamp, replicate 4 False) # es
         | (j, t, f) # below \<Rightarrow>
             (case tops of
                [] \<Rightarrow> (i, timestamp, f) # below
              | [(k, u, g)] \<Rightarrow> (k, timestamp, g) # (i, t, f) # below
              | _ \<Rightarrow> (i, timestamp, f) # tops @ below))"

lemma push_entries_new:
  "i \<notin> fst ` set es \<Longrightarrow> push_entries i ts es = (i, ts, replicate 4 False) # es"
proof -
  assume "i \<notin> fst ` set es"
  then have d: "dropWhile (\<lambda>e. fst e \<noteq> i) es = []" by (auto simp: dropWhile_eq_Nil_conv)
  show ?thesis by (simp only: push_entries_def Let_def d list.case)
qed

lemma push_entries_old:
  assumes "\<forall>e \<in> set tops. fst e \<noteq> i"
  shows "push_entries i ts (tops @ (i, t, f) # below) =
    (case tops of
       [] \<Rightarrow> (i, ts, f) # below
     | [(k, u, g)] \<Rightarrow> (k, ts, g) # (i, t, f) # below
     | _ \<Rightarrow> (i, ts, f) # tops @ below)"
proof -
  have w: "takeWhile (\<lambda>e. fst e \<noteq> i) (tops @ (i, t, f) # below) = tops"
    "dropWhile (\<lambda>e. fst e \<noteq> i) (tops @ (i, t, f) # below) = (i, t, f) # below"
    using assms by (simp_all add: takeWhile_append2 dropWhile_append2)
  show ?thesis by (simp only: push_entries_def Let_def w list.case prod.case)
qed

lemma new_item_ok:
  assumes "rewind_ok td ss fs"
  shows "\<exists>a td1 fs1. new_item td = Some (a, td1) \<and> rewind_stack td1 = rewind_stack td
    \<and> a < length (items td1) \<and> a \<notin> set ss \<and> rewind_ok td1 ss fs1 \<and> a \<notin> set fs1
    \<and> view (items td1) ss = view (items td) ss"
proof (cases fs)
  case Nil
  let ?x = "\<lparr>item_id = 0, entertimestamp = 0, prev = None, paradigm_affected = []\<rparr>"
  let ?td = "td\<lparr>items := items td @ [?x]\<rparr>"
  have b: "a < length (items td)" if "a \<in> set ss" for a using ok_bound [OF assms] that by simp
  then have k: "(items td @ [?x]) ! a = items td ! a" if "a \<in> set ss" for a
    using that by (simp add: nth_append)
  have v: "view (items ?td) ss = view (items td) ss" using k by (simp add: view_def)
  have o: "lseg (items td) (rewind_stack td) ss None" "rewind_free_list td = None" "distinct ss"
    "distinct (map fst (view (items td) ss))" "\<forall>a \<in> set ss. length (paradigm_affected (items td ! a)) = 4"
    using assms Nil by (simp_all add: rewind_ok_def)
  have "lseg (items td @ [?x]) (rewind_stack td) ss None"
    using o(1) by (rule lseg_cong) (simp_all add: k)
  then have "rewind_ok ?td ss []"
    using o(2-5) v k by (simp add: rewind_ok_def)
  moreover have "new_item td = Some (length (items td), ?td)"
    using assms Nil by (simp add: new_item_def rewind_ok_def)
  moreover have "length (items td) \<notin> set ss" using b by blast
  ultimately show ?thesis using v
    by (intro exI [of _ "length (items td)"] exI [of _ ?td] exI [of _ "[]"]) simp
next
  case (Cons a fs1)
  let ?td = "td\<lparr>rewind_free_list := prev (items td ! a)\<rparr>"
  have "new_item td = Some (a, ?td)" "a < length (items td)"
    using assms Cons by (auto simp: new_item_def rewind_ok_def)
  moreover have "rewind_ok ?td ss fs1" "a \<notin> set ss" "a \<notin> set fs1"
    using assms Cons by (auto simp: rewind_ok_def)
  ultimately show ?thesis by (intro exI [of _ a] exI [of _ ?td] exI [of _ fs1]) simp
qed

lemma push_new:
  assumes "rewind_ok td ss fs" "i \<notin> fst ` set (view (items td) ss)"
  shows "\<exists>td' ss' fs'. rewind_stack_push td i ts = Some td' \<and> rewind_ok td' ss' fs'
    \<and> view (items td') ss' = (i, ts, replicate 4 False) # view (items td) ss"
proof -
  have f: "rewind_stack_find td i = Some False"
    using rewind_stack_find_holds [OF rewind_holdsI [OF assms(1) refl]] assms(2) by simp
  obtain a td1 fs1 where n: "new_item td = Some (a, td1)" "rewind_stack td1 = rewind_stack td"
    and a: "a < length (items td1)" "a \<notin> set ss" "a \<notin> set fs1" and ok: "rewind_ok td1 ss fs1"
    and v: "view (items td1) ss = view (items td) ss"
    using new_item_ok [OF assms(1)] by blast
  let ?n = "\<lparr>item_id = i, entertimestamp = ts, prev = rewind_stack td, paradigm_affected = replicate 4 False\<rparr>"
  let ?mem = "(items td1)[a := ?n]"
  let ?td = "td1\<lparr>items := ?mem, rewind_stack := Some a\<rparr>"
  have p: "rewind_stack_push td i ts = Some ?td"
    using f n a(1) by (simp add: rewind_stack_push_def Let_def update_item_in)
  have view_ss: "view ?mem ss = view (items td) ss"
    using a(2) v by (subst v [symmetric], intro view_cong) (simp add: item_other)
  have o: "lseg (items td1) (rewind_stack td) ss None" "lseg (items td1) (rewind_free_list td1) fs1 None"
    "distinct (ss @ fs1)" "distinct (map fst (view (items td) ss))"
    "\<forall>b \<in> set ss. length (paradigm_affected (items td1 ! b)) = 4"
    using ok n(2) v by (simp_all add: rewind_ok_def)
  have view: "view ?mem (a # ss) = (i, ts, replicate 4 False) # view (items td) ss"
    using a(1) view_ss by (simp add: entry_of_def)
  have "lseg ?mem (rewind_stack td) ss None"
    using o(1) by (rule lseg_cong) (simp_all add: item_other [OF _ a(2)])
  moreover have "lseg ?mem (rewind_free_list td1) fs1 None"
    using o(2) by (rule lseg_cong) (simp_all add: item_other [OF _ a(3)])
  moreover have "\<forall>b \<in> set ss. length (paradigm_affected (?mem ! b)) = 4"
    using o(5) by (simp add: item_other [OF _ a(2)])
  moreover have "distinct (map fst (view ?mem (a # ss)))"
    unfolding view using o(4) assms(2) by auto
  ultimately have "rewind_ok ?td (a # ss) fs1"
    using a o(3) by (simp add: rewind_ok_def)
  then show ?thesis using p view by (intro exI [of _ ?td] exI [of _ "a # ss"] exI [of _ fs1]) simp
qed

text \<open>Changing time stamps only.\<close>

lemma rewind_ok_timestamp:
  assumes "rewind_ok td (a # ss) fs" "mem = (items td)[a := (items td ! a)\<lparr>entertimestamp := ts\<rparr>]"
  shows "rewind_ok (td\<lparr>items := mem\<rparr>) (a # ss) fs"
    "view mem (a # ss) = (item_id (items td ! a), ts, paradigm_affected (items td ! a)) # view (items td) ss"
proof -
  have a: "a < length (items td)" using ok_bound [OF assms(1), of a] by simp
  have d: "a \<notin> set ss" "a \<notin> set fs" using assms(1) by (auto simp: rewind_ok_def)
  have k: "prev (mem ! b) = prev (items td ! b)" "paradigm_affected (mem ! b) = paradigm_affected (items td ! b)"
    "item_id (mem ! b) = item_id (items td ! b)" for b
    using assms(2) a by (cases "b = a"; simp)+
  show v: "view mem (a # ss) = (item_id (items td ! a), ts, paradigm_affected (items td ! a)) # view (items td) ss"
  proof -
    have "view mem ss = view (items td) ss"
      unfolding assms(2) by (intro view_cong) (simp add: item_other [OF _ d(1)])
    then show ?thesis using a assms(2) by (simp add: entry_of_def)
  qed
  have len: "length mem = length (items td)" using assms(2) by simp
  have sel: "items (td\<lparr>items := mem\<rparr>) = mem" "rewind_stack (td\<lparr>items := mem\<rparr>) = rewind_stack td"
    "rewind_free_list (td\<lparr>items := mem\<rparr>) = rewind_free_list td" by simp_all
  have o: "lseg (items td) (rewind_stack td) (a # ss) None" "lseg (items td) (rewind_free_list td) fs None"
    "distinct ((a # ss) @ fs)" "distinct (map fst (view (items td) (a # ss)))"
    "\<forall>b \<in> set (a # ss). length (paradigm_affected (items td ! b)) = 4"
    using assms(1) unfolding rewind_ok_def by blast+
  have "lseg mem (rewind_stack td) (a # ss) None"
    using o(1) by (rule lseg_cong) (simp_all only: len k order_refl)
  moreover have "lseg mem (rewind_free_list td) fs None"
    using o(2) by (rule lseg_cong) (simp_all only: len k order_refl)
  moreover have "map fst (view mem (a # ss)) = map fst (view (items td) (a # ss))"
    unfolding v by (simp add: entry_of_def)
  ultimately show "rewind_ok (td\<lparr>items := mem\<rparr>) (a # ss) fs"
    using o(3,5) o(4) sel unfolding rewind_ok_def by (simp only: k)
qed

text \<open>Unlinking the item behind \<open>l\<close> and putting it on top.\<close>

lemma rewind_ok_move:
  assumes ok: "rewind_ok td (h # xs @ l # a # ys) fs"
    and mem: "mem = ((items td)[l := (items td ! l)\<lparr>prev := prev (items td ! a)\<rparr>])
      [a := (items td ! a)\<lparr>prev := Some h\<rparr>]"
  shows "rewind_ok (td\<lparr>items := mem, rewind_stack := Some a\<rparr>) (a # h # xs @ l # ys) fs"
    "entry_of (mem ! b) = entry_of (items td ! b)"
proof -
  have bl: "l < length (items td)" and ba: "a < length (items td)" and bh: "h < length (items td)"
    using ok_bound [OF ok] by simp_all
  have d: "distinct ((h # xs @ l # a # ys) @ fs)" using ok by (simp add: rewind_ok_def)
  have la: "l \<noteq> a" using d by auto
  have pl: "prev (mem ! l) = prev (items td ! a)" "prev (mem ! a) = Some h"
    using bl ba la by (simp_all add: mem)
  have po: "prev (mem ! b) = prev (items td ! b)" if "b \<noteq> l" "b \<noteq> a" for b
    using that by (simp add: mem)
  have keep: "lseg mem p as q" if "lseg (items td) p as q" "l \<notin> set as" "a \<notin> set as" for p as q
    using that(1)
  proof (rule lseg_cong)
    show "prev (mem ! b) = prev (items td ! b)" if b: "b \<in> set as" for b
      using b \<open>l \<notin> set as\<close> \<open>a \<notin> set as\<close> by (intro po) auto
  qed (simp add: mem)
  have e: "entry_of (mem ! b) = entry_of (items td ! b)" for b
    using bl ba la by (cases "b = l"; cases "b = a") (simp_all add: mem entry_of_def)
  then show "entry_of (mem ! b) = entry_of (items td ! b)" .
  have fl: "paradigm_affected (mem ! b) = paradigm_affected (items td ! b)" for b
    using e [of b] by (simp add: entry_of_def)
  have v: "view mem as = view (items td) as" for as by (intro view_cong e)
  have len: "length mem = length (items td)" by (simp add: mem)
  have st: "lseg (items td) (Some h) ((h # xs) @ l # a # ys) None"
    and fr: "lseg (items td) (rewind_free_list td) fs None"
    using ok by (auto simp: rewind_ok_def)
  obtain r where r: "lseg (items td) (Some h) (h # xs) r" "lseg (items td) r (l # a # ys) None"
    using st unfolding lseg_append by blast
  then have rl: "r = Some l" and ry: "lseg (items td) (prev (items td ! a)) ys None" by simp_all
  have "lseg mem (Some h) (h # xs) (Some l)"
    using r(1) d unfolding rl by (intro keep) auto
  moreover have "lseg mem (prev (items td ! a)) ys None"
    using ry d by (intro keep) auto
  then have "lseg mem (Some l) (l # ys) None" using bl pl len by simp
  ultimately have "lseg mem (Some h) ((h # xs) @ l # ys) None" unfolding lseg_append by blast
  then have 1: "lseg mem (Some a) (a # h # xs @ l # ys) None" using ba pl len by simp
  have 2: "lseg mem (rewind_free_list td) fs None"
    using fr d by (intro keep) auto
  have 3: "distinct ((a # h # xs @ l # ys) @ fs)" using d by auto
  have "distinct (map fst (view (items td) (h # xs @ l # a # ys)))"
    using ok by (simp only: rewind_ok_def)
  then have 4: "distinct (map fst (view mem (a # h # xs @ l # ys)))"
    unfolding v by auto
  have 5: "\<forall>b \<in> set (a # h # xs @ l # ys). length (paradigm_affected (mem ! b)) = 4"
    using ok by (simp add: rewind_ok_def fl)
  show "rewind_ok (td\<lparr>items := mem, rewind_stack := Some a\<rparr>) (a # h # xs @ l # ys) fs"
    using 1 2 3 4 5 unfolding rewind_ok_def by simp
qed

lemma push_old:
  assumes ok: "rewind_ok td ss fs" and i: "i \<in> fst ` set (view (items td) ss)"
  shows "\<exists>td' ss'. rewind_stack_push td i ts = Some td' \<and> rewind_ok td' ss' fs
    \<and> view (items td') ss' = push_entries i ts (view (items td) ss)"
proof -
  have f: "rewind_stack_find td i = Some True"
    using rewind_stack_find_holds [OF rewind_holdsI [OF ok refl]] i by simp
  have st: "lseg (items td) (rewind_stack td) ss None" and d: "distinct (map fst (view (items td) ss))"
    using ok by (simp_all add: rewind_ok_def)
  obtain xs a ys where ss: "ss = xs @ a # ys" and a: "item_id (items td ! a) = i"
    and xs: "\<forall>b \<in> set xs. item_id (items td ! b) \<noteq> i"
    using split_at_id [OF i d] by metis
  have bnd: "\<And>b. b \<in> set ss \<Longrightarrow> b < length (items td)" using ok_bound [OF ok] by blast
  have srch: "rewind_search (items td) i l (rewind_stack td) = Some (if xs = [] then l else Some (last xs), Some a)" for l
    using rewind_search_found [OF _ a xs] st ss by simp
  have tops: "\<forall>e \<in> set (view (items td) xs). fst e \<noteq> i" using xs by (simp add: view_def entry_of_def)
  have ea: "entry_of (items td ! a) = (i, entertimestamp (items td ! a), paradigm_affected (items td ! a))"
    using a by (simp add: entry_of_def)
  have spec: "push_entries i ts (view (items td) ss) =
     (case view (items td) xs of
       [] \<Rightarrow> (i, ts, paradigm_affected (items td ! a)) # view (items td) ys
     | [(k, u, g)] \<Rightarrow> (k, ts, g) # entry_of (items td ! a) # view (items td) ys
     | _ \<Rightarrow> (i, ts, paradigm_affected (items td ! a)) # view (items td) xs @ view (items td) ys)"
    using push_entries_old [OF tops, of ts "entertimestamp (items td ! a)" "paradigm_affected (items td ! a)"
        "view (items td) ys"] by (simp only: ss view_simps ea)
  consider "xs = []" | h where "xs = [h]" | h zs l where "xs = h # zs @ [l]"
    by (metis neq_Nil_conv rev_exhaust)
  then show ?thesis
  proof cases
    case 1
    let ?mem = "(items td)[a := (items td ! a)\<lparr>entertimestamp := ts\<rparr>]"
    have ok': "rewind_ok td (a # ys) fs" and top: "rewind_stack td = Some a"
      using ok st ss 1 by simp_all
    have "rewind_stack_push td i ts = Some (td\<lparr>items := ?mem\<rparr>)"
      using f srch bnd [of a] ss top 1 by (simp add: rewind_stack_push_def Let_def update_item_in)
    then show ?thesis
      using rewind_ok_timestamp [OF ok' refl, of ts] spec a 1
      by (intro exI [of _ "td\<lparr>items := ?mem\<rparr>"] exI [of _ "a # ys"]) simp
  next
    case 2
    let ?mem = "(items td)[h := (items td ! h)\<lparr>entertimestamp := ts\<rparr>]"
    have ok': "rewind_ok td (h # a # ys) fs" and top: "rewind_stack td = Some h"
      using ok st ss 2 by simp_all
    have "rewind_stack_push td i ts = Some (td\<lparr>items := ?mem\<rparr>)"
      using f srch bnd [of h] ss top 2 by (simp add: rewind_stack_push_def Let_def update_item_in)
    then show ?thesis
      using rewind_ok_timestamp [OF ok' refl, of ts] spec 2
      by (intro exI [of _ "td\<lparr>items := ?mem\<rparr>"] exI [of _ "h # a # ys"]) (simp add: entry_of_def)
  next
    case 3
    define mem where "mem = ((items td)[l := (items td ! l)\<lparr>prev := prev (items td ! a)\<rparr>])
      [a := (items td ! a)\<lparr>prev := Some h\<rparr>]"
    define td1 where "td1 = td\<lparr>items := mem, rewind_stack := Some a\<rparr>"
    have ok1: "rewind_ok td (h # zs @ l # a # ys) fs" using ok ss 3 by simp
    note mv = rewind_ok_move [OF ok1 mem_def]
    have ok2: "rewind_ok td1 (a # h # zs @ l # ys) fs" using mv(1) by (simp add: td1_def)
    let ?mem = "mem[a := (mem ! a)\<lparr>entertimestamp := ts\<rparr>]"
    have ids: "item_id (mem ! a) = i" "paradigm_affected (mem ! a) = paradigm_affected (items td ! a)"
      using mv(2) [of a] a by (simp_all add: entry_of_def)
    have vw: "view mem as = view (items td) as" for as by (intro view_cong mv(2))
    have top: "rewind_stack td = Some h" using st ss 3 by simp
    have hl: "h \<noteq> l" "l \<noteq> a" using ok1 by (auto simp: rewind_ok_def)
    have "update_item (items td) l (prev_update (\<lambda>_. prev (items td ! a)))
        = Some ((items td)[l := (items td ! l)\<lparr>prev := prev (items td ! a)\<rparr>])"
      using bnd [of l] ss 3 by (simp add: update_item_in)
    moreover have "update_item ((items td)[l := (items td ! l)\<lparr>prev := prev (items td ! a)\<rparr>]) a
        (prev_update (\<lambda>_. Some h)) = Some mem"
      using bnd [of a] ss hl by (simp add: update_item_in mem_def)
    moreover have "update_item mem a (entertimestamp_update (\<lambda>_. ts)) = Some ?mem"
      using bnd [of a] ss by (simp add: update_item_in mem_def)
    ultimately have "rewind_stack_push td i ts = Some (td1\<lparr>items := ?mem\<rparr>)"
      using f srch bnd [of a] ss top 3 hl
      by (simp add: rewind_stack_push_def Let_def td1_def)
    moreover have "rewind_ok (td1\<lparr>items := ?mem\<rparr>) (a # h # zs @ l # ys) fs"
      "view ?mem (a # h # zs @ l # ys) = (i, ts, paradigm_affected (items td ! a)) # view mem (h # zs @ l # ys)"
      using rewind_ok_timestamp [OF ok2, of ?mem ts] ids by (simp_all add: td1_def)
    moreover have "push_entries i ts (view (items td) ss)
        = (i, ts, paradigm_affected (items td ! a)) # view (items td) (h # zs @ l # ys)"
      unfolding spec by (cases zs) (simp_all add: 3 split: prod.split)
    ultimately show ?thesis
      by (intro exI [of _ "td1\<lparr>items := ?mem\<rparr>"] exI [of _ "a # h # zs @ l # ys"]) (simp add: vw mv(2))
  qed
qed

lemma rewind_stack_push_holds:
  assumes "rewind_holds td es"
  shows "\<exists>td'. rewind_stack_push td i ts = Some td' \<and> rewind_holds td' (push_entries i ts es)"
proof -
  obtain ss fs where ok: "rewind_ok td ss fs" and es: "es = view (items td) ss"
    using assms by (auto simp: rewind_holds_def)
  show ?thesis
  proof (cases "i \<in> fst ` set es")
    case True
    then show ?thesis using push_old [OF ok] rewind_holdsI es by metis
  next
    case False
    then show ?thesis using push_new [OF ok] rewind_holdsI es push_entries_new [OF False] by metis
  qed
qed

definition affect :: "nat \<Rightarrow> rewind_item \<Rightarrow> rewind_item" where
  "affect p n = n\<lparr>paradigm_affected := (paradigm_affected n)[p := True]\<rparr>"

lemma affect_loop_ok:
  assumes "lseg mem q ss None" "distinct ss" "\<forall>a \<in> set ss. p < length (paradigm_affected (mem ! a))"
  shows "\<exists>mem'. affect_loop p mem q = Some mem' \<and> length mem' = length mem
    \<and> (\<forall>a < length mem. mem' ! a = (if a \<in> set ss then affect p (mem ! a) else mem ! a))"
  using assms
proof (induction ss arbitrary: q mem)
  case Nil
  then show ?case by (simp add: affect_loop.simps)
next
  case (Cons a ss)
  let ?mem = "mem[a := affect p (mem ! a)]"
  have d: "a \<notin> set ss" and b: "a < length mem" using Cons.prems by simp_all
  have "affect_loop p mem q = affect_loop p ?mem (prev (mem ! a))"
    using Cons.prems by (subst affect_loop.simps) (simp add: affect_def)
  moreover have "lseg ?mem (prev (mem ! a)) ss None"
    using Cons.prems(1) by simp (rule lseg_cong, auto simp: item_other [OF _ d])
  moreover have "\<forall>c \<in> set ss. p < length (paradigm_affected (?mem ! c))"
    using Cons.prems(3) by (simp add: item_other [OF _ d])
  ultimately obtain mem' where m: "affect_loop p mem q = Some mem'" "length mem' = length mem"
    "\<forall>c < length mem. mem' ! c = (if c \<in> set ss then affect p (?mem ! c) else ?mem ! c)"
    using Cons.IH [of ?mem "prev (mem ! a)"] Cons.prems(2) by auto
  have "mem' ! c = (if c \<in> set (a # ss) then affect p (mem ! c) else mem ! c)" if "c < length mem" for c
    using m(3) that d b by (cases "c = a") (simp_all add: nth_list_update)
  then show ?case using m(1,2) by blast
qed

definition affect_entry :: "nat \<Rightarrow> rewind_entry \<Rightarrow> rewind_entry" where
  "affect_entry p e = (fst e, fst (snd e), (snd (snd e))[p := True])"

lemma paradigm_index_4: "paradigm_index p < 4"
  by (cases p) simp_all

lemma rewind_set_affected_paradigm_holds:
  assumes "rewind_holds td es"
  shows "\<exists>td'. rewind_set_affected_paradigm td p = Some td'
    \<and> rewind_holds td' (map (affect_entry (paradigm_index p)) es)"
proof -
  let ?p = "paradigm_index p"
  obtain ss fs where ok: "rewind_ok td ss fs" and es: "es = view (items td) ss"
    using assms by (auto simp: rewind_holds_def)
  have st: "lseg (items td) (rewind_stack td) ss None" "distinct ss"
    and fl: "\<forall>a \<in> set ss. length (paradigm_affected (items td ! a)) = 4"
    and fr: "lseg (items td) (rewind_free_list td) fs None"
    using ok by (simp_all add: rewind_ok_def)
  obtain mem where m: "affect_loop ?p (items td) (rewind_stack td) = Some mem"
    "length mem = length (items td)"
    "\<forall>a < length (items td). mem ! a = (if a \<in> set ss then affect ?p (items td ! a) else items td ! a)"
    using affect_loop_ok [OF st, of ?p] fl paradigm_index_4 by fastforce
  have k: "prev (mem ! a) = prev (items td ! a)" if "a \<in> set ss \<union> set fs" for a
    using m(3) ok_bound [OF ok that] by (simp add: affect_def)
  have v: "view mem ss = map (affect_entry ?p) es"
    unfolding es view_def
    using m(3) ok_bound [OF ok] by (simp add: affect_def affect_entry_def entry_of_def)
  have "lseg mem (rewind_stack td) ss None"
    using st(1) by (rule lseg_cong) (simp_all add: m(2) k)
  moreover have "lseg mem (rewind_free_list td) fs None"
    using fr by (rule lseg_cong) (simp_all add: m(2) k)
  moreover have "map fst (view mem ss) = map fst es"
    unfolding v by (simp add: affect_entry_def)
  moreover have "\<forall>a \<in> set ss. length (paradigm_affected (mem ! a)) = 4"
    using fl m(3) ok_bound [OF ok] by (simp add: affect_def)
  ultimately have "rewind_ok (td\<lparr>items := mem\<rparr>) ss fs"
    using ok es by (simp add: rewind_ok_def)
  then show ?thesis using m(1) v rewind_holdsI [of "td\<lparr>items := mem\<rparr>" ss fs]
    by (simp add: rewind_set_affected_paradigm_def)
qed

section \<open>Leaving a rewind region\<close>

lemma pop_until_holds:
  assumes "rewind_holds td (tops @ (i, t, f) # below)" "\<forall>e \<in> set tops. fst e \<noteq> i"
  shows "\<exists>td'. pop_until i out acts td = Some (acts @ map (\<lambda>e. ClearRewindPoint (fst e)) tops, (i, t, f), td')
    \<and> rewind_holds td' below"
  using assms
proof (induction tops arbitrary: td acts out)
  case Nil
  then obtain td' where "rewind_stack_pop td = Some (Some (i, t, f), td')" "rewind_holds td' below"
    using rewind_stack_pop_holds [of td "(i, t, f)" below] by auto
  then show ?case by (subst pop_until.simps) (simp add: Let_def)
next
  case (Cons e tops)
  obtain td1 where p: "rewind_stack_pop td = Some (Some e, td1)" "rewind_holds td1 (tops @ (i, t, f) # below)"
    using rewind_stack_pop_holds [of td e] Cons.prems(1) by auto
  have ne: "i \<noteq> fst e" using Cons.prems(2) by auto
  have "pop_until i out acts td = pop_until i e (acts @ [ClearRewindPoint (fst e)]) td1"
    using p(1) ne by (subst pop_until.simps) (simp add: Let_def)
  then show ?case using Cons.IH [OF p(2), of e "acts @ [ClearRewindPoint (fst e)]"] Cons.prems(2) by simp
qed

lemma exit_rewind_point_holds:
  assumes "rewind_holds td (tops @ (i, t, f) # below)" "\<forall>e \<in> set tops. fst e \<noteq> i"
  shows "\<exists>td'. exit_rewind_point td i do_rewind
      = Some (map (\<lambda>e. ClearRewindPoint (fst e)) tops
          @ (if do_rewind
             then [RewindBuffer i, DisableRecording t i, EnableRecording t i]
               @ map InvalidateProperty (filter (\<lambda>p. f ! paradigm_index p)
                   [REWIND_PARADIGM_MPI, REWIND_PARADIGM_THREAD_FORK_JOIN,
                    REWIND_PARADIGM_THREAD_CREATE_WAIT, REWIND_PARADIGM_THREAD_LOCKING])
             else [])
          @ [ClearRewindPoint i], td')
    \<and> rewind_holds td' below"
proof -
  have "rewind_stack_find td i = Some True"
    using rewind_stack_find_holds [OF assms(1), of i] by simp
  moreover obtain td' where "pop_until i (0, 0, replicate 4 False) [] td
      = Some (map (\<lambda>e. ClearRewindPoint (fst e)) tops, (i, t, f), td')" "rewind_holds td' below"
    using pop_until_holds [OF assms, of "(0, 0, replicate 4 False)" "[]"] by auto
  ultimately show ?thesis by (simp add: exit_rewind_point_def)
qed

section \<open>Runs\<close>

text \<open>What the tracing substrate does to the stack of one location: it enters and leaves rewind
  regions, marks the open ones on an event of a paradigm and forgets all of them on a flush.\<close>

datatype rewind_event = Enter u32 u64 | Leave u32 bool | Affected rewind_paradigm | Flushed

fun rewind_step :: "tracing_data \<Rightarrow> rewind_event \<Rightarrow> (trace_action list \<times> tracing_data) option" where
  "rewind_step td (Enter i ts) = store_rewind_point td ts i"
| "rewind_step td (Leave i do_rewind) = exit_rewind_point td i do_rewind"
| "rewind_step td (Affected p) = do { td \<leftarrow> rewind_set_affected_paradigm td p; Some ([], td) }"
| "rewind_step td Flushed = do { td \<leftarrow> rewind_stack_delete td; Some ([], td) }"

fun rewind_run :: "tracing_data \<Rightarrow> rewind_event list \<Rightarrow> (trace_action list \<times> tracing_data) option" where
  "rewind_run td [] = Some ([], td)"
| "rewind_run td (ev # evs) = do {
     (acts, td) \<leftarrow> rewind_step td ev;
     (rest, td) \<leftarrow> rewind_run td evs;
     Some (acts @ rest, td)
   }"

text \<open>The same events on the list of open regions.\<close>

fun entries_step :: "rewind_entry list \<Rightarrow> rewind_event \<Rightarrow> rewind_entry list" where
  "entries_step es (Enter i ts) = push_entries i ts es"
| "entries_step es (Leave i do_rewind) =
     (if i \<in> fst ` set es then tl (dropWhile (\<lambda>e. fst e \<noteq> i) es) else es)"
| "entries_step es (Affected p) = map (affect_entry (paradigm_index p)) es"
| "entries_step es Flushed = []"

definition no_rewinds :: tracing_data where
  "no_rewinds = \<lparr>items = [], rewind_stack = None, rewind_free_list = None\<rparr>"

lemma no_rewinds_holds: "rewind_holds no_rewinds []"
  by (rule rewind_holdsI [of _ "[]" "[]"]) (simp_all add: no_rewinds_def rewind_ok_def)

lemma leave_split:
  assumes "i \<in> fst ` set es"
  obtains tops t f below where "es = tops @ (i, t, f) # below" "\<forall>e \<in> set tops. fst e \<noteq> i"
    "tl (dropWhile (\<lambda>e. fst e \<noteq> i) es) = below"
proof -
  have "dropWhile (\<lambda>e. fst e \<noteq> i) es \<noteq> []" using assms by (auto simp: dropWhile_eq_Nil_conv)
  then obtain e below where d: "dropWhile (\<lambda>e. fst e \<noteq> i) es = e # below"
    by (cases "dropWhile (\<lambda>e. fst e \<noteq> i) es") auto
  then have "fst e = i" using hd_dropWhile [of "\<lambda>e. fst e \<noteq> i" es] by simp
  then obtain t f where e: "e = (i, t, f)" by (cases e) auto
  have "es = takeWhile (\<lambda>e. fst e \<noteq> i) es @ (i, t, f) # below"
    using takeWhile_dropWhile_id [of "\<lambda>e. fst e \<noteq> i" es] d e by simp
  then show thesis using that [of "takeWhile (\<lambda>e. fst e \<noteq> i) es" t f below] d
    by (auto dest: set_takeWhileD)
qed

lemma rewind_step_holds:
  assumes "rewind_holds td es"
  shows "\<exists>acts td'. rewind_step td ev = Some (acts, td') \<and> rewind_holds td' (entries_step es ev)"
proof (cases ev)
  case (Enter i ts)
  then show ?thesis using rewind_stack_push_holds [OF assms, of i ts]
    by (auto simp: store_rewind_point_def)
next
  case (Leave i r)
  show ?thesis
  proof (cases "i \<in> fst ` set es")
    case True
    obtain tops t f below where "es = tops @ (i, t, f) # below" "\<forall>e \<in> set tops. fst e \<noteq> i"
      "tl (dropWhile (\<lambda>e. fst e \<noteq> i) es) = below" using leave_split [OF True] .
    then show ?thesis using exit_rewind_point_holds [of td tops i t f below r] assms True Leave by auto
  next
    case False
    then show ?thesis using rewind_stack_find_holds [OF assms, of i] assms Leave
      by (simp add: exit_rewind_point_def)
  qed
next
  case (Affected p)
  then show ?thesis using rewind_set_affected_paradigm_holds [OF assms, of p] by auto
next
  case Flushed
  then show ?thesis using rewind_stack_delete_holds [OF assms] by auto
qed

lemma rewind_run_holds:
  "rewind_holds td es
   \<Longrightarrow> \<exists>acts td'. rewind_run td evs = Some (acts, td') \<and> rewind_holds td' (foldl entries_step es evs)"
proof (induction evs arbitrary: td es)
  case (Cons ev evs)
  obtain acts td1 where s: "rewind_step td ev = Some (acts, td1)" "rewind_holds td1 (entries_step es ev)"
    using rewind_step_holds [OF Cons.prems] by blast
  show ?case using Cons.IH [OF s(2)] s(1) by auto
qed simp

section \<open>Properties\<close>


text \<open>
  C17. Leaving an open rewind region closes it and every region above it: the trace writer forgets
  the rewind points of the regions above from the top down, the buffer is rewound to the region
  and marked with the time stamp kept for it when a rewind is asked for, every property whose
  paradigm had an event in the region is invalidated, and the regions below stay open.
\<close>

theorem rewind_exit_closes_nested:
  assumes "rewind_holds td (tops @ (i, t, f) # below)" "\<forall>e \<in> set tops. fst e \<noteq> i"
  shows "\<exists>td'. exit_rewind_point td i do_rewind
      = Some (map (\<lambda>e. ClearRewindPoint (fst e)) tops
          @ (if do_rewind
             then [RewindBuffer i, DisableRecording t i, EnableRecording t i]
               @ map InvalidateProperty (filter (\<lambda>p. f ! paradigm_index p)
                   [REWIND_PARADIGM_MPI, REWIND_PARADIGM_THREAD_FORK_JOIN,
                    REWIND_PARADIGM_THREAD_CREATE_WAIT, REWIND_PARADIGM_THREAD_LOCKING])
             else [])
          @ [ClearRewindPoint i], td')
    \<and> rewind_holds td' below"
  using exit_rewind_point_holds [OF assms] .

definition two_rewinds :: tracing_data where
  "two_rewinds =
     \<lparr>items = [\<lparr>item_id = 5, entertimestamp = 10, prev = None, paradigm_affected = [True, False, False, False]\<rparr>,
              \<lparr>item_id = 6, entertimestamp = 20, prev = Some 0, paradigm_affected = replicate 4 False\<rparr>],
      rewind_stack = Some 1, rewind_free_list = None\<rparr>"

lemma two_rewinds_holds:
  "rewind_holds two_rewinds ([(6, 20, replicate 4 False)] @ (5, 10, [True, False, False, False]) # [])"
  by (rule rewind_holdsI [of _ "[1, 0]" "[]"])
     (simp_all add: two_rewinds_def rewind_ok_def entry_of_def)

theorem rewind_exit_closes_nested_witness:
  "\<exists>td'. exit_rewind_point two_rewinds 5 True
    = Some ([ClearRewindPoint 6, RewindBuffer 5, DisableRecording 10 5, EnableRecording 10 5,
        InvalidateProperty REWIND_PARADIGM_MPI, ClearRewindPoint 5], td') \<and> rewind_holds td' []"
  using rewind_exit_closes_nested [OF two_rewinds_holds, of True] by simp

text \<open>
  Entering an open region again moves it to the top with the new time stamp, unless it is the
  second region from the top: then the order stays, the region keeps its old time stamp and the
  region on top gets the new one.
\<close>

theorem rewind_push_again:
  assumes "rewind_holds td (tops @ (i, t, f) # below)" "\<forall>e \<in> set tops. fst e \<noteq> i"
  shows "\<exists>td'. rewind_stack_push td i ts = Some td'
    \<and> rewind_holds td'
        (case tops of
           [] \<Rightarrow> (i, ts, f) # below
         | [(k, u, g)] \<Rightarrow> (k, ts, g) # (i, t, f) # below
         | _ \<Rightarrow> (i, ts, f) # tops @ below)"
  using rewind_stack_push_holds [OF assms(1), of i ts] unfolding push_entries_old [OF assms(2)] .

theorem rewind_push_again_witness:
  "\<exists>td'. rewind_stack_push two_rewinds 5 99 = Some td'
    \<and> rewind_holds td' [(6, 99, replicate 4 False), (5, 10, [True, False, False, False])]"
  using rewind_push_again [OF two_rewinds_holds, of 99] by simp

end
