(* ===== verification/Scorep_Profile_Metric.thy ===== *)
theory Scorep_Profile_Metric
  imports Scorep_Prelude
begin

text \<open>
  The metric records of the profile, \<open>src/src/measurement/profiling/scorep_profile_metric.c\<close>, and
  the integer trigger event of \<open>scorep_profile_event_base.c\<close>. All values are \<open>uint64_t\<close> words.
  The linked list of the sparse integer metrics of a node is a list. The metrics with \<open>double\<close>
  values are not modelled.
\<close>

definition UINT64_MAX :: u64 where
  "UINT64_MAX = - 1"

section \<open>Dense metrics\<close>

record dense_metric =
  dm_sum :: u64
  dm_min :: u64
  dm_max :: u64
  dm_squares :: u64
  dm_start_value :: u64
  dm_intermediate_sum :: u64

definition init_dense_metric :: dense_metric where
  "init_dense_metric = \<lparr>dm_sum = 0, dm_min = UINT64_MAX, dm_max = 0, dm_squares = 0,
     dm_start_value = 0, dm_intermediate_sum = 0\<rparr>"

definition init_dense_metric_array :: "nat \<Rightarrow> dense_metric list" where
  "init_dense_metric_array number = replicate number init_dense_metric"

definition update_dense_metric :: "dense_metric \<Rightarrow> u64 \<Rightarrow> dense_metric" where
  "update_dense_metric metric end_value =
     (let diff = end_value - dm_start_value metric + dm_intermediate_sum metric
      in metric\<lparr>dm_intermediate_sum := 0, dm_sum := dm_sum metric + diff,
           dm_min := (if dm_min metric > diff then diff else dm_min metric),
           dm_max := (if dm_max metric < diff then diff else dm_max metric),
           dm_squares := dm_squares metric + diff * diff\<rparr>)"

text \<open>The start value of the destination stays.\<close>

definition copy_dense_metric :: "dense_metric \<Rightarrow> dense_metric \<Rightarrow> dense_metric" where
  "copy_dense_metric destination source =
     destination\<lparr>dm_sum := dm_sum source, dm_min := dm_min source, dm_max := dm_max source,
       dm_squares := dm_squares source, dm_intermediate_sum := dm_intermediate_sum source\<rparr>"

definition merge_dense_metric :: "dense_metric \<Rightarrow> dense_metric \<Rightarrow> dense_metric" where
  "merge_dense_metric destination source =
     destination\<lparr>dm_sum := dm_sum destination + dm_sum source,
       dm_min := (if dm_min destination > dm_min source then dm_min source else dm_min destination),
       dm_max := (if dm_max destination < dm_max source then dm_max source else dm_max destination),
       dm_squares := dm_squares destination + dm_squares source,
       dm_intermediate_sum := dm_intermediate_sum destination + dm_intermediate_sum source\<rparr>"

section \<open>Sparse integer metrics\<close>

datatype trigger_update_scheme =
  TRIGGER_UPDATE_BEGIN_VALUE | TRIGGER_UPDATE_END_VALUE | TRIGGER_UPDATE_VALUE_AS_IS | TRIGGER_UPDATE_INVALID

record sparse_metric_int =
  sm_metric :: u32
  sm_start_value_set :: bool
  sm_count :: u64
  sm_start_value :: u64
  sm_sum :: u64
  sm_min :: u64
  sm_max :: u64
  sm_squares :: u64

definition create_sparse_int :: "u32 \<Rightarrow> u64 \<Rightarrow> trigger_update_scheme \<Rightarrow> sparse_metric_int option" where
  "create_sparse_int metric value scheme =
     (case scheme of
        TRIGGER_UPDATE_BEGIN_VALUE \<Rightarrow>
          Some \<lparr>sm_metric = metric, sm_start_value_set = True, sm_count = 0, sm_start_value = value,
            sm_sum = 0, sm_min = UINT64_MAX, sm_max = 0, sm_squares = 0\<rparr>
      | TRIGGER_UPDATE_VALUE_AS_IS \<Rightarrow>
          Some \<lparr>sm_metric = metric, sm_start_value_set = False, sm_count = 1, sm_start_value = 0,
            sm_sum = value, sm_min = value, sm_max = value, sm_squares = value * value\<rparr>
      | _ \<Rightarrow> None)"

definition copy_sparse_int :: "sparse_metric_int \<Rightarrow> sparse_metric_int" where
  "copy_sparse_int source =
     \<lparr>sm_metric = sm_metric source, sm_start_value_set = sm_start_value_set source,
      sm_count = sm_count source, sm_start_value = sm_start_value source, sm_sum = sm_sum source,
      sm_min = sm_min source, sm_max = sm_max source, sm_squares = sm_squares source\<rparr>"

definition add_sparse_value :: "sparse_metric_int \<Rightarrow> u64 \<Rightarrow> sparse_metric_int" where
  "add_sparse_value metric value =
     metric\<lparr>sm_count := sm_count metric + 1, sm_sum := sm_sum metric + value,
       sm_min := (if sm_min metric > value then value else sm_min metric),
       sm_max := (if sm_max metric < value then value else sm_max metric),
       sm_squares := sm_squares metric + value * value\<rparr>"

definition update_sparse_int ::
    "sparse_metric_int \<Rightarrow> u64 \<Rightarrow> trigger_update_scheme \<Rightarrow> sparse_metric_int option" where
  "update_sparse_int metric value scheme =
     (case scheme of
        TRIGGER_UPDATE_BEGIN_VALUE \<Rightarrow> do {
          assertC (\<not> sm_start_value_set metric);
          Some (metric\<lparr>sm_start_value_set := True, sm_start_value := value\<rparr>)
        }
      | TRIGGER_UPDATE_END_VALUE \<Rightarrow> do {
          assertC (sm_start_value_set metric);
          assertC (\<not> value < sm_start_value metric);
          Some (add_sparse_value (metric\<lparr>sm_start_value_set := False\<rparr>) (value - sm_start_value metric))
        }
      | TRIGGER_UPDATE_VALUE_AS_IS \<Rightarrow> do {
          assertC (\<not> (sm_start_value_set metric \<or> sm_start_value metric \<noteq> 0));
          Some (add_sparse_value metric value)
        }
      | TRIGGER_UPDATE_INVALID \<Rightarrow> None)"

definition merge_sparse_metric_int :: "sparse_metric_int \<Rightarrow> sparse_metric_int \<Rightarrow> sparse_metric_int" where
  "merge_sparse_metric_int destination source =
     destination\<lparr>sm_count := sm_count destination + sm_count source,
       sm_sum := sm_sum destination + sm_sum source,
       sm_min := (if sm_min destination > sm_min source then sm_min source else sm_min destination),
       sm_max := (if sm_max destination < sm_max source then sm_max source else sm_max destination),
       sm_squares := sm_squares destination + sm_squares source\<rparr>"

text \<open>The metrics of a node; a new one is appended at the end.\<close>

fun trigger_int64 ::
    "sparse_metric_int list \<Rightarrow> u32 \<Rightarrow> u64 \<Rightarrow> trigger_update_scheme \<Rightarrow> sparse_metric_int list option" where
  "trigger_int64 [] metric value scheme = do {
     new \<leftarrow> create_sparse_int metric value scheme;
     Some [new]
   }"
| "trigger_int64 (current # next) metric value scheme =
     (if sm_metric current = metric then do {
        current \<leftarrow> update_sparse_int current value scheme;
        Some (current # next)
      } else do {
        next \<leftarrow> trigger_int64 next metric value scheme;
        Some (current # next)
      })"

section \<open>Samples\<close>

text \<open>The effect of one complete sample \<open>d\<close> on a dense metric.\<close>

definition add_sample :: "dense_metric \<Rightarrow> u64 \<Rightarrow> dense_metric" where
  "add_sample m d = m\<lparr>dm_sum := dm_sum m + d, dm_min := min (dm_min m) d, dm_max := max (dm_max m) d,
     dm_squares := dm_squares m + d * d\<rparr>"

lemma update_dense_sample:
  "dm_intermediate_sum m = 0
   \<Longrightarrow> update_dense_metric m e = add_sample m (e - dm_start_value m)"
  by (cases m) (auto simp: update_dense_metric_def add_sample_def Let_def min_def max_def)

lemma add_sample_fields [simp]:
  "dm_start_value (add_sample m d) = dm_start_value m"
  "dm_intermediate_sum (add_sample m d) = dm_intermediate_sum m"
  by (simp_all add: add_sample_def)

lemma foldl_add_sample_fields [simp]:
  "dm_intermediate_sum (foldl add_sample m ds) = dm_intermediate_sum m"
  "dm_start_value (foldl add_sample m ds) = dm_start_value m"
  by (induction ds arbitrary: m) simp_all

lemma foldl_add_sample_sums:
  "dm_sum (foldl add_sample m ds) = dm_sum m + sum_list ds"
  "dm_squares (foldl add_sample m ds) = dm_squares m + sum_list (map (\<lambda>d. d * d) ds)"
  by (induction ds arbitrary: m) (simp_all add: add_sample_def add.assoc)

lemma foldl_add_sample_min:
  "dm_min (foldl add_sample m ds) = fold min ds (dm_min m)"
  "dm_max (foldl add_sample m ds) = fold max ds (dm_max m)"
  by (induction ds arbitrary: m) (simp_all add: add_sample_def min.commute max.commute)

lemma UINT64_MAX_top [simp]: "x \<le> UINT64_MAX" "min UINT64_MAX x = x" "min x UINT64_MAX = x"
proof -
  show le: "x \<le> UINT64_MAX" by (simp add: UINT64_MAX_def)
  show "min UINT64_MAX x = x" "min x UINT64_MAX = x" using le by (simp_all add: min_absorb1 min_absorb2)
qed

definition samples :: "u64 list \<Rightarrow> dense_metric" where
  "samples ds = foldl add_sample init_dense_metric ds"

lemma fold_min_start: "fold min ds (a :: u64) = min a (fold min ds UINT64_MAX)"
proof (induction ds arbitrary: a)
  case (Cons d ds)
  show ?case using Cons.IH [of "min d a"] Cons.IH [of d] by (simp add: ac_simps)
qed simp

lemma max_zero [simp]: "max (x :: u64) 0 = x" "max 0 (x :: u64) = x"
  by (simp_all add: max_def)

lemma fold_max_start: "fold max ds (a :: u64) = max a (fold max ds 0)"
proof (induction ds arbitrary: a)
  case (Cons d ds)
  show ?case using Cons.IH [of "max d a"] Cons.IH [of d] by (simp add: ac_simps)
qed simp

lemma merge_samples: "merge_dense_metric (samples xs) (samples ys) = samples (xs @ ys)"
proof -
  have s: "samples (xs @ ys) = foldl add_sample (samples xs) ys" by (simp add: samples_def)
  have i: "dm_sum (samples zs) = sum_list zs" "dm_squares (samples zs) = sum_list (map (\<lambda>d. d * d) zs)"
    "dm_min (samples zs) = fold min zs UINT64_MAX" "dm_max (samples zs) = fold max zs 0"
    "dm_intermediate_sum (samples zs) = 0" for zs
    by (simp_all add: samples_def foldl_add_sample_sums foldl_add_sample_min init_dense_metric_def)
  have m: "dm_min (merge_dense_metric m n) = min (dm_min m) (dm_min n)"
    "dm_max (merge_dense_metric m n) = max (dm_max m) (dm_max n)" for m n
    by (auto simp: merge_dense_metric_def min_def max_def)
  show ?thesis
  proof (rule dense_metric.equality)
    show "dm_min (merge_dense_metric (samples xs) (samples ys)) = dm_min (samples (xs @ ys))"
      unfolding m i using fold_min_start [of ys "fold min xs UINT64_MAX"] by simp
    show "dm_max (merge_dense_metric (samples xs) (samples ys)) = dm_max (samples (xs @ ys))"
      unfolding m i using fold_max_start [of ys "fold max xs 0"] by simp
  qed (simp_all add: merge_dense_metric_def i, simp_all add: samples_def init_dense_metric_def)
qed

section \<open>The metrics of a node\<close>

text \<open>The statistics of a list of values, as the code keeps them in a sparse metric.\<close>

definition sparse_samples :: "u32 \<Rightarrow> u64 list \<Rightarrow> sparse_metric_int" where
  "sparse_samples metric vs =
     \<lparr>sm_metric = metric, sm_start_value_set = False, sm_count = of_nat (length vs),
      sm_start_value = 0, sm_sum = sum_list vs, sm_min = fold min vs UINT64_MAX,
      sm_max = fold max vs 0, sm_squares = sum_list (map (\<lambda>v. v * v) vs)\<rparr>"

lemma add_sparse_value_samples:
  "add_sparse_value (sparse_samples m vs) v = sparse_samples m (vs @ [v])"
  by (auto simp: add_sparse_value_def sparse_samples_def min_def max_def)

lemma create_sparse_samples:
  "create_sparse_int m v TRIGGER_UPDATE_VALUE_AS_IS = Some (sparse_samples m [v])"
  by (simp add: create_sparse_int_def sparse_samples_def)

lemma update_sparse_samples:
  "update_sparse_int (sparse_samples m vs) v TRIGGER_UPDATE_VALUE_AS_IS = Some (sparse_samples m (vs @ [v]))"
  by (simp add: update_sparse_int_def add_sparse_value_samples) (simp add: sparse_samples_def)

text \<open>The metrics seen so far, in the order of their first value, with their values.\<close>

definition values_of :: "u32 \<Rightarrow> (u32 \<times> u64) list \<Rightarrow> u64 list" where
  "values_of m tr = map snd (filter (\<lambda>e. fst e = m) tr)"

definition handles_of :: "(u32 \<times> u64) list \<Rightarrow> u32 list" where
  "handles_of tr = rev (remdups (rev (map fst tr)))"

definition sparse_of :: "(u32 \<times> u64) list \<Rightarrow> sparse_metric_int list" where
  "sparse_of tr = map (\<lambda>m. sparse_samples m (values_of m tr)) (handles_of tr)"

lemma handles_of_snoc:
  "handles_of (tr @ [e]) = (if fst e \<in> set (handles_of tr) then handles_of tr else handles_of tr @ [fst e])"
  by (simp add: handles_of_def)

lemma set_handles_of [simp]: "set (handles_of tr) = fst ` set tr"
  by (simp add: handles_of_def)

lemma distinct_handles_of [simp]: "distinct (handles_of tr)"
  by (simp add: handles_of_def)

lemma sm_metric_samples [simp]: "sm_metric (sparse_samples m vs) = m"
  by (simp add: sparse_samples_def)

lemma trigger_samples:
  "distinct ms \<Longrightarrow> trigger_int64 (map (\<lambda>m. sparse_samples m (f m)) ms) m v TRIGGER_UPDATE_VALUE_AS_IS
     = Some (if m \<in> set ms then map (\<lambda>k. sparse_samples k ((f(m := f m @ [v])) k)) ms
             else map (\<lambda>m. sparse_samples m (f m)) ms @ [sparse_samples m [v]])"
proof (induction ms)
  case Nil
  then show ?case by (simp add: create_sparse_samples)
next
  case (Cons k ms)
  then show ?case by (auto simp: update_sparse_samples)
qed

lemma trigger_trace:
  "trigger_int64 (sparse_of tr) m v TRIGGER_UPDATE_VALUE_AS_IS = Some (sparse_of (tr @ [(m, v)]))"
proof -
  have v: "values_of k (tr @ [(m, v)]) = (if k = m then values_of m tr @ [v] else values_of k tr)" for k
    by (simp add: values_of_def)
  have n: "values_of m tr = []" if "m \<notin> fst ` set tr"
    using that by (auto simp: values_of_def filter_empty_conv image_iff)
  have s: "sparse_of (tr @ [(m, v)]) = (if m \<in> fst ` set tr
      then map (\<lambda>k. sparse_samples k (values_of k (tr @ [(m, v)]))) (handles_of tr)
      else map (\<lambda>k. sparse_samples k (values_of k (tr @ [(m, v)]))) (handles_of tr @ [m]))"
    by (simp add: sparse_of_def handles_of_snoc)
  have "map (\<lambda>k. sparse_samples k (values_of k (tr @ [(m, v)]))) (handles_of tr)
      = map (\<lambda>k. sparse_samples k (((\<lambda>k. values_of k tr)(m := values_of m tr @ [v])) k)) (handles_of tr)"
    by (simp add: v)
  moreover have "map (\<lambda>k. sparse_samples k (values_of k (tr @ [(m, v)]))) (handles_of tr @ [m])
      = map (\<lambda>k. sparse_samples k (values_of k tr)) (handles_of tr) @ [sparse_samples m [v]]"
    if "m \<notin> fst ` set tr"
    using that by (auto simp: v n)
  ultimately show ?thesis
    unfolding s using trigger_samples [of "handles_of tr" "\<lambda>k. values_of k tr" m v]
    by (auto simp: sparse_of_def)
qed

fun trigger_run :: "sparse_metric_int list \<Rightarrow> (u32 \<times> u64) list \<Rightarrow> sparse_metric_int list option" where
  "trigger_run ms [] = Some ms"
| "trigger_run ms ((m, v) # tr) = do {
     ms \<leftarrow> trigger_int64 ms m v TRIGGER_UPDATE_VALUE_AS_IS;
     trigger_run ms tr
   }"

lemma trigger_run_trace: "trigger_run (sparse_of tr) tr' = Some (sparse_of (tr @ tr'))"
proof (induction tr' arbitrary: tr)
  case (Cons e tr')
  then show ?case using Cons.IH [of "tr @ [e]"] by (cases e) (simp add: trigger_trace)
qed simp

section \<open>Properties\<close>

text \<open>
  Merging the dense metric of one sequence of samples into that of another gives the metric of
  the two sequences one after the other: sum, minimum, maximum, squares.
\<close>

theorem dense_metric_merge:
  "merge_dense_metric (foldl add_sample init_dense_metric xs) (foldl add_sample init_dense_metric ys)
     = foldl add_sample init_dense_metric (xs @ ys)"
  using merge_samples by (simp add: samples_def)

text \<open>
  Any sequence of integer triggers that take the value as it is runs without a failed assertion
  on a node without metrics and leaves one record per metric, in the order of the first triggers,
  with the count, sum, minimum, maximum and sum of squares of the values of that metric.
\<close>

theorem sparse_triggers:
  "trigger_run [] tr = Some (map (\<lambda>m. sparse_samples m (values_of m tr)) (handles_of tr))
    \<and> distinct (handles_of tr) \<and> set (handles_of tr) = fst ` set tr"
proof -
  have "sparse_of [] = []" by (simp add: sparse_of_def handles_of_def)
  then show ?thesis using trigger_run_trace [of "[]" tr] by (simp add: sparse_of_def)
qed

text \<open>
  A begin trigger followed by an end trigger with a value that is not smaller counts the
  difference of the two values and consumes the start value; a second begin, an end without a
  begin and an end below its begin stop the program.
\<close>

theorem sparse_begin_end:
  assumes "\<not> sm_start_value_set m"
  shows "update_sparse_int m v TRIGGER_UPDATE_END_VALUE = None
    \<and> (\<exists>m1. update_sparse_int m b TRIGGER_UPDATE_BEGIN_VALUE = Some m1
        \<and> update_sparse_int m1 v TRIGGER_UPDATE_BEGIN_VALUE = None
        \<and> update_sparse_int m1 e TRIGGER_UPDATE_END_VALUE
          = (if e < b then None
             else Some ((add_sparse_value m (e - b))\<lparr>sm_start_value_set := False, sm_start_value := b\<rparr>)))"
  using assms by (cases m) (auto simp: update_sparse_int_def add_sparse_value_def)

theorem sparse_begin_end_witness:
  "update_sparse_int (sparse_samples 3 []) 9 TRIGGER_UPDATE_END_VALUE = None"
  using sparse_begin_end [of "sparse_samples 3 []" 9 4 7] by (simp add: sparse_samples_def)

end
