(* ===== verification/Scorep_Profile_Node.thy ===== *)
theory Scorep_Profile_Node
  imports Scorep_Profile_Metric
begin

text \<open>
  The nodes of the profile tree, \<open>src/src/measurement/profiling/scorep_profile_node.c\<close> and the
  type dependent data of \<open>scorep_profile_node.h\<close>.

  A node of the model is its record with the list of its children in the order of the chain
  \<open>first_child\<close>, \<open>next_sibling\<close>; the \<open>parent\<close> pointer is the enclosing node. A pointer to a node
  that is kept elsewhere (the fork node of a thread start) is the number in \<open>td_handle\<close>. Recycling
  of released nodes does not show in the model: \<open>create_node\<close> initialises every field. Sparse
  metrics with \<open>double\<close> values are left out.
\<close>

section \<open>Data\<close>

datatype node_type =
  NODE_REGULAR_REGION | NODE_PARAMETER_STRING | NODE_PARAMETER_INTEGER | NODE_THREAD_ROOT
| NODE_THREAD_START | NODE_COLLAPSE | NODE_TASK_ROOT

fun node_type_index :: "node_type \<Rightarrow> nat" where
  "node_type_index NODE_REGULAR_REGION = 0"
| "node_type_index NODE_PARAMETER_STRING = 1"
| "node_type_index NODE_PARAMETER_INTEGER = 2"
| "node_type_index NODE_THREAD_ROOT = 3"
| "node_type_index NODE_THREAD_START = 4"
| "node_type_index NODE_COLLAPSE = 5"
| "node_type_index NODE_TASK_ROOT = 6"

lemma node_type_index_inject [simp]: "node_type_index a = node_type_index b \<longleftrightarrow> a = b"
  by (cases a; cases b) simp_all

instantiation node_type :: linorder
begin

definition less_eq_node_type :: "node_type \<Rightarrow> node_type \<Rightarrow> bool" where
  "less_eq_node_type a b \<longleftrightarrow> node_type_index a \<le> node_type_index b"

definition less_node_type :: "node_type \<Rightarrow> node_type \<Rightarrow> bool" where
  "less_node_type a b \<longleftrightarrow> node_type_index a < node_type_index b"

instance
proof
  fix x y z :: node_type
  show "(x < y) = (x \<le> y \<and> \<not> y \<le> x)" "x \<le> x" "x \<le> y \<or> y \<le> x"
    by (auto simp: less_eq_node_type_def less_node_type_def)
  show "x \<le> y \<Longrightarrow> y \<le> z \<Longrightarrow> x \<le> z" by (simp add: less_eq_node_type_def)
  show "x \<le> y \<Longrightarrow> y \<le> x \<Longrightarrow> x = y" unfolding less_eq_node_type_def
    using node_type_index_inject [of x y] by linarith
qed

end

record type_data =
  td_handle :: u64
  td_value :: u64

record node_data =
  nd_type :: node_type
  nd_data :: type_data
  nd_count :: u64
  nd_hits :: u64
  nd_first_enter_time :: u64
  nd_last_exit_time :: u64
  nd_inclusive_time :: dense_metric
  nd_dense_metrics :: "dense_metric list"
  nd_int_sparse :: "sparse_metric_int list"
  nd_callpath :: u32
  nd_flags :: u8

datatype pnode = PNode (pn_data: node_data) (pn_children: "pnode list")

section \<open>Type dependent data\<close>

definition hash_for_type_data :: "type_data \<Rightarrow> node_type \<Rightarrow> u64" where
  "hash_for_type_data data type =
     (case type of
        NODE_REGULAR_REGION \<Rightarrow> td_handle data
      | NODE_THREAD_START \<Rightarrow> td_handle data
      | NODE_TASK_ROOT \<Rightarrow> td_handle data
      | NODE_THREAD_ROOT \<Rightarrow> td_value data
      | NODE_COLLAPSE \<Rightarrow> td_value data
      | NODE_PARAMETER_STRING \<Rightarrow>
          (drop_bit 1 (td_handle data) OR push_bit 31 (td_handle data)) + td_value data
      | NODE_PARAMETER_INTEGER \<Rightarrow>
          (drop_bit 1 (td_handle data) OR push_bit 31 (td_handle data)) + td_value data)"

definition less_than_for_type_data :: "type_data \<Rightarrow> type_data \<Rightarrow> node_type \<Rightarrow> bool" where
  "less_than_for_type_data data1 data2 type =
     (case type of
        NODE_REGULAR_REGION \<Rightarrow> td_handle data1 < td_handle data2
      | NODE_THREAD_START \<Rightarrow> td_handle data1 < td_handle data2
      | NODE_TASK_ROOT \<Rightarrow> td_handle data1 < td_handle data2
      | NODE_THREAD_ROOT \<Rightarrow> td_value data1 < td_value data2
      | NODE_COLLAPSE \<Rightarrow> td_value data1 < td_value data2
      | NODE_PARAMETER_STRING \<Rightarrow>
          (if td_handle data1 = td_handle data2 then td_value data1 < td_value data2
           else td_handle data1 < td_handle data2)
      | NODE_PARAMETER_INTEGER \<Rightarrow>
          (if td_handle data1 = td_handle data2 then td_value data1 < td_value data2
           else td_handle data1 < td_handle data2))"

definition compare_type_data :: "type_data \<Rightarrow> type_data \<Rightarrow> node_type \<Rightarrow> bool" where
  "compare_type_data data1 data2 type =
     (case type of
        NODE_REGULAR_REGION \<Rightarrow> td_handle data1 = td_handle data2 \<and> td_value data1 = td_value data2
      | NODE_PARAMETER_STRING \<Rightarrow> td_handle data1 = td_handle data2 \<and> td_value data1 = td_value data2
      | NODE_PARAMETER_INTEGER \<Rightarrow> td_handle data1 = td_handle data2 \<and> td_value data1 = td_value data2
      | NODE_THREAD_START \<Rightarrow> td_handle data1 = td_handle data2
      | NODE_TASK_ROOT \<Rightarrow> td_handle data1 = td_handle data2
      | NODE_THREAD_ROOT \<Rightarrow> td_value data1 = td_value data2
      | NODE_COLLAPSE \<Rightarrow> td_value data1 = td_value data2)"

definition compare_nodes :: "node_data \<Rightarrow> node_data \<Rightarrow> bool" where
  "compare_nodes node1 node2 \<longleftrightarrow>
     (if nd_type node1 \<noteq> nd_type node2 then False
      else compare_type_data (nd_data node1) (nd_data node2) (nd_type node1))"

definition node_hash :: "node_data \<Rightarrow> u64" where
  "node_hash node =
     (let val = of_nat (node_type_index (nd_type node));
          val = drop_bit 1 val OR push_bit 31 val
      in val + hash_for_type_data (nd_data node) (nd_type node))"

definition node_less_than :: "node_data \<Rightarrow> node_data \<Rightarrow> bool" where
  "node_less_than a b \<longleftrightarrow>
     (if nd_type a < nd_type b then True
      else if nd_type a > nd_type b then False
      else less_than_for_type_data (nd_data a) (nd_data b) (nd_type a))"

section \<open>Flags\<close>

definition FLAG_MPI_IN_SUBTREE :: u8 where "FLAG_MPI_IN_SUBTREE = 1"
definition FLAG_IS_FORK_NODE :: u8 where "FLAG_IS_FORK_NODE = 2"
definition FLAG_IN_UNTIED_TASK :: u8 where "FLAG_IN_UNTIED_TASK = 4"

definition set_flag :: "u8 \<Rightarrow> node_data \<Rightarrow> bool \<Rightarrow> node_data" where
  "set_flag flag node b =
     node\<lparr>nd_flags := (if b then nd_flags node OR flag else nd_flags node AND NOT flag)\<rparr>"

definition is_mpi_in_subtree :: "node_data \<Rightarrow> bool" where
  "is_mpi_in_subtree node \<longleftrightarrow> nd_flags node AND FLAG_MPI_IN_SUBTREE \<noteq> 0"

definition set_mpi_in_subtree :: "node_data \<Rightarrow> bool \<Rightarrow> node_data" where
  "set_mpi_in_subtree = set_flag FLAG_MPI_IN_SUBTREE"

definition is_fork_node :: "node_data \<Rightarrow> bool" where
  "is_fork_node node \<longleftrightarrow> nd_flags node AND FLAG_IS_FORK_NODE \<noteq> 0"

definition set_fork_node :: "node_data \<Rightarrow> bool \<Rightarrow> node_data" where
  "set_fork_node = set_flag FLAG_IS_FORK_NODE"

datatype task_context = TASK_CONTEXT_UNTIED | TASK_CONTEXT_TIED

definition get_task_context :: "node_data \<Rightarrow> task_context" where
  "get_task_context node =
     (if nd_flags node AND FLAG_IN_UNTIED_TASK \<noteq> 0 then TASK_CONTEXT_UNTIED else TASK_CONTEXT_TIED)"

definition set_task_context :: "node_data \<Rightarrow> task_context \<Rightarrow> node_data" where
  "set_task_context node context = set_flag FLAG_IN_UNTIED_TASK node (context = TASK_CONTEXT_UNTIED)"

section \<open>Creation\<close>

text \<open>\<open>nm\<close> is the number of strictly synchronous metrics.\<close>

definition create_node :: "nat \<Rightarrow> node_type \<Rightarrow> type_data \<Rightarrow> u64 \<Rightarrow> pnode" where
  "create_node nm type data timestamp =
     PNode \<lparr>nd_type = type, nd_data = data, nd_count = 0, nd_hits = 0,
       nd_first_enter_time = timestamp, nd_last_exit_time = timestamp,
       nd_inclusive_time = init_dense_metric, nd_dense_metrics = init_dense_metric_array nm,
       nd_int_sparse = [], nd_callpath = 0, nd_flags = 0\<rparr> []"

definition copy_all_dense_metrics :: "node_data \<Rightarrow> node_data \<Rightarrow> node_data" where
  "copy_all_dense_metrics destination source =
     destination\<lparr>nd_count := nd_count source, nd_first_enter_time := nd_first_enter_time source,
       nd_last_exit_time := nd_last_exit_time source,
       nd_inclusive_time := copy_dense_metric (nd_inclusive_time destination) (nd_inclusive_time source),
       nd_dense_metrics := map2 copy_dense_metric (nd_dense_metrics destination) (nd_dense_metrics source)\<rparr>"

text \<open>Every sparse metric is put in front of those copied before, so the order is reversed.\<close>

definition copy_node :: "nat \<Rightarrow> pnode \<Rightarrow> pnode" where
  "copy_node nm source =
     (let node = pn_data (create_node nm (nd_type (pn_data source)) (nd_data (pn_data source)) 0);
          node = node\<lparr>nd_flags := nd_flags (pn_data source)\<rparr>;
          node = copy_all_dense_metrics node (pn_data source);
          node = foldl (\<lambda>node m. node\<lparr>nd_int_sparse := copy_sparse_int m # nd_int_sparse node\<rparr>)
                   node (nd_int_sparse (pn_data source))
      in PNode node [])"

section \<open>Children\<close>

definition add_child :: "pnode \<Rightarrow> pnode \<Rightarrow> pnode" where
  "add_child parent child = PNode (pn_data parent) (child # pn_children parent)"

text \<open>The first node with a property and the others, in order.\<close>

fun unchain :: "(pnode \<Rightarrow> bool) \<Rightarrow> pnode list \<Rightarrow> (pnode \<times> pnode list) option" where
  "unchain P [] = None"
| "unchain P (child # rest) =
     (if P child then Some (child, rest)
      else (case unchain P rest of None \<Rightarrow> None | Some (c, cs) \<Rightarrow> Some (c, child # cs)))"

definition find_child :: "pnode \<Rightarrow> node_data \<Rightarrow> pnode option" where
  "find_child parent type = find (\<lambda>child. compare_nodes (pn_data child) type) (pn_children parent)"

text \<open>The children with the node found or created at their head.\<close>

definition find_create_child :: "nat \<Rightarrow> pnode list \<Rightarrow> node_type \<Rightarrow> type_data \<Rightarrow> u64 \<Rightarrow> pnode \<times> pnode list" where
  "find_create_child nm children type data timestamp =
     (case unchain (\<lambda>child. nd_type (pn_data child) = type
                      \<and> compare_type_data data (nd_data (pn_data child)) type) children of
        None \<Rightarrow> (create_node nm type data timestamp, children)
      | Some (child, rest) \<Rightarrow> (child, rest))"

definition move_children :: "pnode \<Rightarrow> pnode \<Rightarrow> pnode \<times> pnode" where
  "move_children destination source =
     (if pn_children source = [] then (destination, source)
      else (PNode (pn_data destination) (pn_children destination @ pn_children source),
            PNode (pn_data source) []))"

text \<open>Taking the child at a position out of the chain of its parent; nothing happens when the
  node is not in the chain.\<close>

definition remove_node :: "pnode \<Rightarrow> nat \<Rightarrow> pnode" where
  "remove_node parent i = PNode (pn_data parent) (take i (pn_children parent) @ drop (Suc i) (pn_children parent))"

definition get_number_of_children :: "pnode option \<Rightarrow> u64" where
  "get_number_of_children node =
     (case node of None \<Rightarrow> 0 | Some n \<Rightarrow> foldl (\<lambda>count child. count + 1) 0 (pn_children n))"

definition get_number_of_child_calls :: "pnode option \<Rightarrow> u64" where
  "get_number_of_child_calls node =
     (case node of None \<Rightarrow> 0
      | Some n \<Rightarrow> foldl (\<lambda>count child. count + nd_count (pn_data child)) 0 (pn_children n))"

definition get_exclusive_time :: "pnode option \<Rightarrow> u64" where
  "get_exclusive_time node =
     (case node of None \<Rightarrow> 0
      | Some n \<Rightarrow> foldl (\<lambda>time child. time - dm_sum (nd_inclusive_time (pn_data child)))
                    (dm_sum (nd_inclusive_time (pn_data n))) (pn_children n))"

section \<open>Merging\<close>

definition merge_node_inclusive :: "node_data \<Rightarrow> node_data \<Rightarrow> node_data" where
  "merge_node_inclusive destination source =
     destination\<lparr>
       nd_first_enter_time := (if nd_first_enter_time destination > nd_first_enter_time source
         then nd_first_enter_time source else nd_first_enter_time destination),
       nd_last_exit_time := (if nd_last_exit_time destination < nd_last_exit_time source
         then nd_last_exit_time source else nd_last_exit_time destination),
       nd_inclusive_time := merge_dense_metric (nd_inclusive_time destination) (nd_inclusive_time source),
       nd_dense_metrics := map2 merge_dense_metric (nd_dense_metrics destination) (nd_dense_metrics source)\<rparr>"

definition merge_node_dense :: "node_data \<Rightarrow> node_data \<Rightarrow> node_data" where
  "merge_node_dense destination source =
     merge_node_inclusive (destination\<lparr>nd_count := nd_count destination + nd_count source\<rparr>) source"

fun merge_one_sparse :: "sparse_metric_int list \<Rightarrow> sparse_metric_int \<Rightarrow> sparse_metric_int list option" where
  "merge_one_sparse [] source = None"
| "merge_one_sparse (d # ds) source =
     (if sm_metric d = sm_metric source then Some (merge_sparse_metric_int d source # ds)
      else map_option (Cons d) (merge_one_sparse ds source))"

definition merge_node_sparse :: "node_data \<Rightarrow> node_data \<Rightarrow> node_data" where
  "merge_node_sparse destination source =
     destination\<lparr>nd_int_sparse :=
       foldl (\<lambda>ds m. case merge_one_sparse ds m of
                       None \<Rightarrow> copy_sparse_int m # ds
                     | Some ds \<Rightarrow> ds)
         (nd_int_sparse destination) (nd_int_sparse source)\<rparr>"

definition subtract_dense_metric :: "dense_metric \<Rightarrow> dense_metric \<Rightarrow> dense_metric" where
  "subtract_dense_metric m s = m\<lparr>dm_sum := dm_sum m - dm_sum s, dm_squares := dm_squares m - dm_squares s\<rparr>"

definition subtract_node :: "node_data \<Rightarrow> node_data \<Rightarrow> node_data" where
  "subtract_node minuend subtrahend =
     minuend\<lparr>nd_count := nd_count minuend - nd_count subtrahend,
       nd_inclusive_time := subtract_dense_metric (nd_inclusive_time minuend) (nd_inclusive_time subtrahend),
       nd_dense_metrics := map2 subtract_dense_metric (nd_dense_metrics minuend) (nd_dense_metrics subtrahend)\<rparr>"

definition merge_node_data :: "node_data \<Rightarrow> node_data \<Rightarrow> node_data" where
  "merge_node_data destination source =
     (let node = merge_node_sparse (merge_node_dense destination source) source
      in node\<lparr>nd_flags := nd_flags node OR nd_flags source\<rparr>)"

text \<open>\<open>None\<close> when a source node is a fork node: that branch changes the trees of other locations
  and is not modelled. The children of the source are processed in order and each of them meets
  the children the destination has by then.\<close>

fun split_child :: "(pnode \<Rightarrow> bool) \<Rightarrow> pnode list \<Rightarrow> (pnode list \<times> pnode \<times> pnode list) option" where
  "split_child P [] = None"
| "split_child P (c # cs) =
     (if P c then Some ([], c, cs)
      else (case split_child P cs of None \<Rightarrow> None | Some (pre, m, post) \<Rightarrow> Some (c # pre, m, post)))"

fun merge_subtree :: "pnode \<Rightarrow> pnode \<Rightarrow> pnode option"
and merge_children :: "pnode list \<Rightarrow> pnode list \<Rightarrow> pnode list option" where
  "merge_subtree destination (PNode source children) =
     (if is_fork_node source then None
      else do {
        merged \<leftarrow> merge_children (pn_children destination) children;
        Some (PNode (merge_node_data (pn_data destination) source) merged)
      })"
| "merge_children ds [] = Some ds"
| "merge_children ds (child # next) =
     (case split_child (\<lambda>d. compare_nodes (pn_data d) (pn_data child)) ds of
        None \<Rightarrow> merge_children (child # ds) next
      | Some (pre, match, post) \<Rightarrow> do {
          merged \<leftarrow> merge_subtree match child;
          merge_children (pre @ merged # post) next
        })"

section \<open>Sorting\<close>

fun merge_lists :: "('a \<Rightarrow> 'a \<Rightarrow> bool) \<Rightarrow> 'a list \<Rightarrow> 'a list \<Rightarrow> 'a list" where
  "merge_lists func (h # head) (m # mid) =
     (if \<not> func h m then h # merge_lists func head (m # mid)
      else m # merge_lists func (h # head) mid)"
| "merge_lists func head [] = head"
| "merge_lists func [] mid = mid"

function sort_node_list :: "('a \<Rightarrow> 'a \<Rightarrow> bool) \<Rightarrow> 'a list \<Rightarrow> 'a list" where
  "sort_node_list func xs =
     (if length xs \<le> 1 then xs
      else (let pos_end = length xs div 2;
                head = sort_node_list func (take pos_end xs);
                mid = sort_node_list func (drop pos_end xs)
            in if \<not> func (last head) (hd mid) then head @ mid
               else merge_lists func head mid))"
  by pat_completeness auto
termination
  by (relation "measure (\<lambda>(func, xs). length xs)") auto

declare sort_node_list.simps [simp del]

lemma mset_merge_lists [simp]: "mset (merge_lists func xs ys) = mset xs + mset ys"
  by (induction func xs ys rule: merge_lists.induct) auto

lemma mset_sort_node_list [simp]: "mset (sort_node_list func xs) = mset xs"
proof (induction func xs rule: sort_node_list.induct)
  case (1 func xs)
  show ?case
  proof (cases "length xs \<le> 1")
    case True
    then show ?thesis by (subst sort_node_list.simps) simp
  next
    case False
    let ?n = "length xs div 2"
    have "mset (take ?n xs) + mset (drop ?n xs) = mset xs"
      by (metis append_take_drop_id mset_append)
    then show ?thesis using 1 [OF False refl] False
      by (subst sort_node_list.simps) (simp add: Let_def)
  qed
qed

lemma set_sort_node_list [simp]: "set (sort_node_list func xs) = set xs"
  by (metis mset_sort_node_list set_mset_mset)

function sort_subtree :: "(pnode \<Rightarrow> pnode \<Rightarrow> bool) \<Rightarrow> pnode \<Rightarrow> pnode" where
  "sort_subtree func (PNode d cs) =
     PNode d (map (sort_subtree func) (sort_node_list func cs))"
  by pat_completeness auto
termination
  by (relation "measure (\<lambda>(func, n). size n)") (auto simp: less_Suc_eq_le intro: size_list_estimation')

text \<open>The comparison of \<open>scorep_profile_callpath.c\<close>, which sorts every tree.\<close>

definition compare_first_enter_time :: "pnode \<Rightarrow> pnode \<Rightarrow> bool" where
  "compare_first_enter_time node_a node_b \<longleftrightarrow>
     nd_first_enter_time (pn_data node_a) > nd_first_enter_time (pn_data node_b)"

section \<open>Traversal\<close>

text \<open>\<open>scorep_profile_for_all\<close>: the current node is the head of the topmost chain, the stack below
  are the siblings of its ancestors. The result is the list of the nodes the function gets.\<close>

text \<open>The \<open>do\<close> loop climbs to the next ancestor with a sibling, or to the root.\<close>

fun climb :: "pnode list list \<Rightarrow> pnode list list" where
  "climb [] = []"
| "climb ((current # sibling # rest) # outer) = (sibling # rest) # outer"
| "climb (chain # outer) = climb outer"

definition todo_size :: "pnode list list \<Rightarrow> nat" where
  "todo_size stack =
     (case stack of [] \<Rightarrow> 0
      | chain # outer \<Rightarrow> size_list size chain + sum_list (map (\<lambda>c. size_list size (tl c)) outer))"

lemma climb_size:
  "todo_size (climb stack) \<le> sum_list (map (\<lambda>c. size_list size (tl c)) stack)"
  by (induction stack rule: climb.induct) (auto simp: todo_size_def)

function walk :: "pnode list list \<Rightarrow> pnode list" where
  "walk [] = []"
| "walk ([] # outer) = []"
| "walk ((current # rest) # outer) =
     current # walk (if pn_children current \<noteq> [] then pn_children current # (current # rest) # outer
                     else climb ((current # rest) # outer))"
  by pat_completeness auto
termination
proof (relation "measure todo_size")
  fix current :: pnode and rest outer
  have "size_list size (pn_children current) < size current" by (cases current) simp
  moreover have "0 < size current" by (cases current) simp
  ultimately show "(if pn_children current \<noteq> [] then pn_children current # (current # rest) # outer
      else climb ((current # rest) # outer), (current # rest) # outer) \<in> measure todo_size"
    using climb_size [of "(current # rest) # outer"] by (auto simp: todo_size_def)
qed simp

definition for_all :: "pnode option \<Rightarrow> pnode list" where
  "for_all root_node =
     (case root_node of
        None \<Rightarrow> []
      | Some root \<Rightarrow> root # (if pn_children root = [] then [] else walk [pn_children root]))"

section \<open>Sorting is stable\<close>

lemma sorted_merge_lists:
  assumes "sorted (map key xs)" "sorted (map key ys)"
  shows "sorted (map key (merge_lists (\<lambda>a b. key a > (key b :: 'k::linorder)) xs ys))
    \<and> (\<forall>k. filter (\<lambda>x. key x = k) (merge_lists (\<lambda>a b. key a > key b) xs ys)
          = filter (\<lambda>x. key x = k) xs @ filter (\<lambda>x. key x = k) ys)"
  using assms
proof (induction "\<lambda>a b. key a > key b" xs ys rule: merge_lists.induct)
  case (1 h head m mid)
  let ?m = "\<lambda>xs ys. merge_lists (\<lambda>a b. key a > key b) xs ys"
  have set_m: "set (?m xs ys) = set xs \<union> set ys" for xs ys
    by (metis mset_merge_lists set_mset_mset set_mset_union)
  show ?case
  proof (cases "key h > key m")
    case False
    then have IH: "sorted (map key (?m head (m # mid)))"
      "\<And>k. filter (\<lambda>x. key x = k) (?m head (m # mid))
        = filter (\<lambda>x. key x = k) head @ filter (\<lambda>x. key x = k) (m # mid)"
      using 1 by auto
    have "\<forall>x \<in> set (?m head (m # mid)). key h \<le> key x"
      unfolding set_m using 1(3,4) False by (auto intro: order_trans)
    then show ?thesis using IH False by simp
  next
    case True
    then have IH: "sorted (map key (?m (h # head) mid))"
      "\<And>k. filter (\<lambda>x. key x = k) (?m (h # head) mid)
        = filter (\<lambda>x. key x = k) (h # head) @ filter (\<lambda>x. key x = k) mid"
      using 1 by auto
    have "\<forall>x \<in> set (?m (h # head) mid). key m \<le> key x"
      unfolding set_m using 1(3,4) True by (auto intro: order_trans less_imp_le)
    moreover have "filter (\<lambda>x. key x = key m) (h # head) = []"
      using 1(3) True by (auto simp: filter_empty_conv)
    ultimately show ?thesis using IH True by auto
  qed
qed auto

lemma sort_node_list_key:
  "sort_node_list (\<lambda>a b. key a > (key b :: 'k::linorder)) xs = sort_key key xs"
proof -
  let ?f = "\<lambda>a b. key a > key b"
  have "sorted (map key (sort_node_list ?f xs))
      \<and> (\<forall>k. filter (\<lambda>x. key x = k) (sort_node_list ?f xs) = filter (\<lambda>x. key x = k) xs)"
  proof (induction "length xs" arbitrary: xs rule: less_induct)
    case less
    show ?case
    proof (cases "length xs \<le> 1")
      case True
      then have "sorted (map key xs)" by (cases xs) auto
      then show ?thesis using True by (subst (1 2) sort_node_list.simps) simp
    next
      case False
      define n where "n = length xs div 2"
      define hd' where "hd' = sort_node_list ?f (take n xs)"
      define mid where "mid = sort_node_list ?f (drop n xs)"
      have n: "0 < n" "n < length xs" using False by (auto simp: n_def)
      have h: "sorted (map key hd')" "\<And>k. filter (\<lambda>x. key x = k) hd' = filter (\<lambda>x. key x = k) (take n xs)"
        using less [of "take n xs"] n by (auto simp: hd'_def)
      have m: "sorted (map key mid)" "\<And>k. filter (\<lambda>x. key x = k) mid = filter (\<lambda>x. key x = k) (drop n xs)"
        using less [of "drop n xs"] n by (auto simp: mid_def)
      have ft: "filter (\<lambda>x. key x = k) (take n xs) @ filter (\<lambda>x. key x = k) (drop n xs)
          = filter (\<lambda>x. key x = k) xs" for k
        by (metis append_take_drop_id filter_append)
      have ne: "hd' \<noteq> []" "mid \<noteq> []"
        using n mset_sort_node_list [of ?f "take n xs"] mset_sort_node_list [of ?f "drop n xs"]
        unfolding hd'_def [symmetric] mid_def [symmetric] by auto
      have s: "sort_node_list ?f xs = (if \<not> ?f (last hd') (hd mid) then hd' @ mid else merge_lists ?f hd' mid)"
        using False by (subst sort_node_list.simps) (simp add: Let_def n_def hd'_def mid_def)
      show ?thesis
      proof (cases "?f (last hd') (hd mid)")
        case True
        then show ?thesis using s sorted_merge_lists [OF h(1) m(1)] h(2) m(2) ft by simp
      next
        case nf: False
        have "key x \<le> key y" if "x \<in> set hd'" "y \<in> set mid" for x y
        proof -
          have "key x \<le> key (last hd')"
            using h(1) that(1) ne(1) by (induction hd' rule: rev_induct) (auto simp: sorted_append)
          moreover have "key (hd mid) \<le> key y" using m(1) that(2) by (cases mid) auto
          ultimately show ?thesis using nf by simp
        qed
        then have "sorted (map key (hd' @ mid))" using h(1) m(1) by (auto simp: sorted_append)
        then show ?thesis using s nf h(2) m(2) ft by simp
      qed
    qed
  qed
  then have s: "sorted (map key (sort_node_list ?f xs))"
    and f: "filter (\<lambda>x. key x = k) (sort_node_list ?f xs) = filter (\<lambda>x. key x = k) xs" for k by auto
  have e: "(\<lambda>x. key k = key x) = (\<lambda>x. key x = key k)" for k by auto
  have "sort_key key xs = sort_node_list ?f xs"
    by (rule properties_for_sort_key) (simp_all add: s f e)
  then show ?thesis by simp
qed

section \<open>The traversal visits the nodes in preorder\<close>

fun preorder :: "pnode \<Rightarrow> pnode list" where
  "preorder (PNode d cs) = PNode d cs # concat (map preorder cs)"

definition pending :: "pnode list list \<Rightarrow> pnode list" where
  "pending stack = concat (map (\<lambda>c. concat (map preorder (tl c))) stack)"

lemma walk_climb:
  "(\<And>chain outer. climb stack = chain # outer \<Longrightarrow> walk (chain # outer) = concat (map preorder chain) @ pending outer)
   \<Longrightarrow> walk (climb stack) = pending stack"
  by (induction stack rule: climb.induct) (auto simp: pending_def)

lemma preorder_Cons: "preorder n = n # concat (map preorder (pn_children n))"
  by (cases n) simp

lemma walk_preorder:
  "chain \<noteq> [] \<Longrightarrow> walk (chain # outer) = concat (map preorder chain) @ pending outer"
proof (induction "todo_size (chain # outer)" arbitrary: chain outer rule: less_induct)
  case less
  then obtain current rest where c: "chain = current # rest" by (cases chain) auto
  have sz: "size_list size (pn_children current) < size current" "0 < size current"
    by (cases current, simp)+
  show ?case
  proof (cases "pn_children current = []")
    case False
    have "todo_size (pn_children current # (current # rest) # outer) < todo_size (chain # outer)"
      using sz by (simp add: todo_size_def c)
    from less.hyps [OF this False] show ?thesis
      using False by (simp add: c preorder_Cons [of current]) (simp add: pending_def)
  next
    case True
    have "walk (climb (chain # outer)) = pending (chain # outer)"
    proof (rule walk_climb)
      fix ch out assume cl: "climb (chain # outer) = ch # out"
      have "ch \<noteq> []" using cl by (induction "chain # outer" arbitrary: chain outer rule: climb.induct) (auto elim: climb.elims)
      moreover have "todo_size (ch # out) < todo_size (chain # outer)"
        using climb_size [of "chain # outer"] sz unfolding cl by (simp add: todo_size_def c)
      ultimately show "walk (ch # out) = concat (map preorder ch) @ pending out"
        using less.hyps by blast
    qed
    then show ?thesis using True by (simp add: c preorder_Cons [of current]) (simp add: pending_def)
  qed
qed

lemma for_all_preorder: "for_all (Some root) = preorder root"
  by (simp add: for_all_def preorder_Cons [of root] walk_preorder pending_def)

section \<open>Trees as maps from callpaths\<close>

text \<open>What \<open>compare_nodes\<close> compares.\<close>

type_synonym node_key = "node_type \<times> u64 \<times> u64"

definition node_key :: "node_data \<Rightarrow> node_key" where
  "node_key d =
     (case nd_type d of
        NODE_REGULAR_REGION \<Rightarrow> (nd_type d, td_handle (nd_data d), td_value (nd_data d))
      | NODE_PARAMETER_STRING \<Rightarrow> (nd_type d, td_handle (nd_data d), td_value (nd_data d))
      | NODE_PARAMETER_INTEGER \<Rightarrow> (nd_type d, td_handle (nd_data d), td_value (nd_data d))
      | NODE_THREAD_START \<Rightarrow> (nd_type d, td_handle (nd_data d), 0)
      | NODE_TASK_ROOT \<Rightarrow> (nd_type d, td_handle (nd_data d), 0)
      | NODE_THREAD_ROOT \<Rightarrow> (nd_type d, 0, td_value (nd_data d))
      | NODE_COLLAPSE \<Rightarrow> (nd_type d, 0, td_value (nd_data d)))"

lemma compare_nodes_key: "compare_nodes a b \<longleftrightarrow> node_key a = node_key b"
  by (cases "nd_type a"; cases "nd_type b") (auto simp: compare_nodes_def compare_type_data_def node_key_def)

abbreviation key_of :: "pnode \<Rightarrow> node_key" where
  "key_of n \<equiv> node_key (pn_data n)"

fun lookup :: "pnode list \<Rightarrow> node_key list \<Rightarrow> node_data option" where
  "lookup cs [] = None"
| "lookup cs (k # ks) =
     (case find (\<lambda>c. key_of c = k) cs of
        None \<Rightarrow> None
      | Some c \<Rightarrow> if ks = [] then Some (pn_data c) else lookup (pn_children c) ks)"

fun wf_node :: "pnode \<Rightarrow> bool" where
  "wf_node (PNode d cs) \<longleftrightarrow> distinct (map key_of cs) \<and> (\<forall>c \<in> set cs. wf_node c)"

definition wf_children :: "pnode list \<Rightarrow> bool" where
  "wf_children cs \<longleftrightarrow> distinct (map key_of cs) \<and> (\<forall>c \<in> set cs. wf_node c)"

fun no_fork :: "pnode \<Rightarrow> bool" where
  "no_fork (PNode d cs) \<longleftrightarrow> \<not> is_fork_node d \<and> (\<forall>c \<in> set cs. no_fork c)"

lemma wf_node_iff: "wf_node n \<longleftrightarrow> wf_children (pn_children n)"
  by (cases n) (simp add: wf_children_def)

fun combine :: "node_data option \<Rightarrow> node_data option \<Rightarrow> node_data option" where
  "combine (Some a) (Some b) = Some (merge_node_data a b)"
| "combine None b = b"
| "combine a None = a"

lemma combine_None [simp]: "combine a None = a"
  by (cases a) simp_all

lemma node_key_merge [simp]: "node_key (merge_node_data a b) = node_key a"
proof -
  have "nd_type (merge_node_data a b) = nd_type a" "nd_data (merge_node_data a b) = nd_data a"
    by (simp_all add: merge_node_data_def Let_def merge_node_sparse_def merge_node_dense_def
        merge_node_inclusive_def)
  then show ?thesis by (simp only: node_key_def)
qed

lemma find_append: "find P (xs @ ys) = (case find P xs of None \<Rightarrow> find P ys | Some x \<Rightarrow> Some x)"
  by (induction xs) simp_all

lemma find_key_None: "find (\<lambda>c. key_of c = k) cs = None \<longleftrightarrow> k \<notin> key_of ` set cs"
  by (auto simp: find_None_iff)

lemma split_child_None: "split_child P cs = None \<longleftrightarrow> (\<forall>c \<in> set cs. \<not> P c)"
  by (induction cs) (auto split: option.splits)

lemma split_child_Some:
  "split_child P cs = Some (pre, m, post) \<Longrightarrow> cs = pre @ m # post \<and> P m \<and> (\<forall>c \<in> set pre. \<not> P c)"
  by (induction cs arbitrary: pre) (auto split: if_splits option.splits)

lemma lookup_absent: "hd p \<notin> key_of ` set cs \<Longrightarrow> lookup cs p = None"
proof (cases p)
  case (Cons k ks)
  moreover assume "hd p \<notin> key_of ` set cs"
  ultimately have "find (\<lambda>c. key_of c = k) cs = None" by (simp add: find_key_None)
  then show ?thesis using Cons by simp
qed simp

lemma lookup_Nil [simp]: "lookup [] p = None"
  by (cases p) simp_all

lemma lookup_head:
  "lookup (c # cs) (k # ks) = (if key_of c = k then (if ks = [] then Some (pn_data c) else lookup (pn_children c) ks)
     else lookup cs (k # ks))"
  by simp

lemma lookup_mid:
  assumes "key_of c \<notin> key_of ` set pre"
  shows "lookup (pre @ c # post) (k # ks) =
    (if key_of c = k then (if ks = [] then Some (pn_data c) else lookup (pn_children c) ks)
     else lookup (pre @ post) (k # ks))"
proof (cases "key_of c = k")
  case True
  then have "find (\<lambda>c. key_of c = k) pre = None" using assms by (simp add: find_key_None)
  then show ?thesis using True by (simp add: find_append)
next
  case False
  then show ?thesis by (simp add: find_append split: option.split)
qed

lemma merge_tree_maps:
  "wf_node d \<Longrightarrow> wf_node s \<Longrightarrow> no_fork s \<Longrightarrow>
     \<exists>m. merge_subtree d s = Some m \<and> wf_node m \<and> pn_data m = merge_node_data (pn_data d) (pn_data s)
       \<and> (\<forall>p. lookup (pn_children m) p = combine (lookup (pn_children d) p) (lookup (pn_children s) p))"
  "wf_children ds \<Longrightarrow> wf_children ss \<Longrightarrow> \<forall>s \<in> set ss. no_fork s \<Longrightarrow>
     \<exists>ms. merge_children ds ss = Some ms \<and> wf_children ms
       \<and> (\<forall>p. lookup ms p = combine (lookup ds p) (lookup ss p))"
proof (induction d s and ds ss rule: merge_subtree_merge_children.induct)
  case (1 d source children)
  then show ?case by (auto simp: wf_node_iff)
next
  case (2 ds)
  then show ?case by simp
next
  case (3 ds child nxt)
  have ss: "key_of child \<notin> key_of ` set nxt" "wf_children nxt" "wf_node child" "no_fork child"
    "\<forall>s \<in> set nxt. no_fork s"
    using 3(5,6) by (auto simp: wf_children_def)
  show ?case
  proof (cases "split_child (\<lambda>d. compare_nodes (pn_data d) (pn_data child)) ds")
    case None
    then have nd: "key_of child \<notin> key_of ` set ds" by (auto simp: split_child_None compare_nodes_key)
    have "wf_children (child # ds)" using 3(4) nd ss(3) by (simp add: wf_children_def)
    then obtain ms where ms: "merge_children (child # ds) nxt = Some ms" "wf_children ms"
      "\<forall>p. lookup ms p = combine (lookup (child # ds) p) (lookup nxt p)"
      using 3(1) [OF None _ ss(2,5)] by blast
    have "lookup ms p = combine (lookup ds p) (lookup (child # nxt) p)" for p
    proof (cases p)
      case (Cons k ks)
      show ?thesis
      proof (cases "k = key_of child")
        case True
        then have "lookup ds p = None" "lookup nxt p = None"
          using nd ss(1) lookup_absent [of p] Cons by simp_all
        then show ?thesis using spec [OF ms(3), of p] True unfolding Cons
          by (simp del: lookup.simps add: lookup_head)
      next
        case False
        then show ?thesis using spec [OF ms(3), of p] unfolding Cons
          by (simp del: lookup.simps add: lookup_head)
      qed
    qed (use ms in simp)
    then show ?thesis using ms None by simp
  next
    case (Some t)
    then obtain pre match post where sp:
      "split_child (\<lambda>d. compare_nodes (pn_data d) (pn_data child)) ds = Some (pre, match, post)"
      by (cases t) auto
    then have ds: "ds = pre @ match # post" and km: "key_of match = key_of child"
      using split_child_Some [OF sp] by (auto simp: compare_nodes_key)
    have wm: "wf_node match" using 3(4) by (simp add: wf_children_def ds)
    obtain m where m: "merge_subtree match child = Some m" "wf_node m"
      "pn_data m = merge_node_data (pn_data match) (pn_data child)"
      "\<forall>p. lookup (pn_children m) p = combine (lookup (pn_children match) p) (lookup (pn_children child) p)"
      using 3(2) [OF sp refl refl wm ss(3,4)] by blast
    have kk: "key_of m = key_of match" using m(3) by simp
    have kn: "key_of match \<notin> key_of ` set pre" using 3(4) by (auto simp: wf_children_def ds)
    have "wf_children (pre @ m # post)" using 3(4) m(2) kk by (auto simp: wf_children_def ds)
    then obtain ms where ms: "merge_children (pre @ m # post) nxt = Some ms" "wf_children ms"
      "\<forall>p. lookup ms p = combine (lookup (pre @ m # post) p) (lookup nxt p)"
      using 3(3) [OF sp refl refl m(1) _ ss(2,5)] by blast
    have "lookup ms p = combine (lookup ds p) (lookup (child # nxt) p)" for p
    proof (cases p)
      case (Cons k ks)
      have lm: "lookup (pre @ m # post) (k # ks) =
          (if key_of match = k then (if ks = [] then Some (pn_data m) else lookup (pn_children m) ks)
           else lookup (pre @ post) (k # ks))"
        using lookup_mid [of m pre post k ks] kk kn by simp
      have ld: "lookup ds (k # ks) =
          (if key_of match = k then (if ks = [] then Some (pn_data match) else lookup (pn_children match) ks)
           else lookup (pre @ post) (k # ks))"
        using lookup_mid [OF kn, of post k ks] ds by simp
      show ?thesis
      proof (cases "key_of match = k")
        case True
        then have "lookup nxt p = None" using ss(1) lookup_absent [of p nxt] km Cons by simp
        then show ?thesis using spec [OF ms(3), of p] lm ld True m(3,4) km Cons by (simp del: lookup.simps add: lookup_head)
      next
        case False
        then show ?thesis using spec [OF ms(3), of p] lm ld km Cons by (simp del: lookup.simps add: lookup_head)
      qed
    qed (use ms in simp)
    then show ?thesis using ms sp m(1) by simp
  qed
qed

section \<open>Finding or creating a child\<close>

lemma unchain_None: "unchain P cs = None \<longleftrightarrow> (\<forall>c \<in> set cs. \<not> P c)"
  by (induction cs) (auto split: option.splits)

lemma unchain_Some:
  "unchain P cs = Some (c, rest) \<Longrightarrow> \<exists>pre post. cs = pre @ c # post \<and> rest = pre @ post \<and> P c"
proof (induction cs arbitrary: rest)
  case (Cons d cs)
  show ?case
  proof (cases "P d")
    case True
    then show ?thesis using Cons.prems
      by - (rule exI [of _ "[]"], rule exI [of _ rest], simp)
  next
    case False
    then obtain r where r: "unchain P cs = Some (c, r)" "rest = d # r"
      using Cons.prems by (auto split: option.splits)
    obtain pre post where "cs = pre @ c # post" "r = pre @ post" "P c" using Cons.IH [OF r(1)] by blast
    then show ?thesis using r(2)
      by - (rule exI [of _ "d # pre"], rule exI [of _ post], simp)
  qed
qed simp

definition type_key :: "node_type \<Rightarrow> type_data \<Rightarrow> node_key" where
  "type_key type data = node_key (pn_data (create_node 0 type data 0))"

lemma key_create [simp]: "key_of (create_node nm type data ts) = type_key type data"
  by (cases type) (simp_all add: create_node_def type_key_def node_key_def)

lemma matches_key:
  "nd_type d = type \<and> compare_type_data data (nd_data d) type \<longleftrightarrow> node_key d = type_key type data"
  by (cases type; cases "nd_type d")
     (auto simp: compare_type_data_def node_key_def type_key_def create_node_def)

lemma find_create_child_spec:
  assumes "wf_children cs" "find_create_child nm cs type data ts = (c, rest)"
  shows "key_of c = type_key type data" "wf_children (c # rest)"
    "key_of ` set rest = key_of ` set cs - {type_key type data}"
    "p \<noteq> [] \<Longrightarrow> hd p \<noteq> type_key type data \<Longrightarrow> lookup rest p = lookup cs p"
    "c = (case find (\<lambda>c. key_of c = type_key type data) cs of
            None \<Rightarrow> create_node nm type data ts | Some c \<Rightarrow> c)"
proof -
  let ?k = "type_key type data"
  let ?P = "\<lambda>child. nd_type (pn_data child) = type \<and> compare_type_data data (nd_data (pn_data child)) type"
  have P: "?P = (\<lambda>c. key_of c = ?k)" using matches_key by blast
  have "key_of c = ?k \<and> wf_children (c # rest) \<and> key_of ` set rest = key_of ` set cs - {?k}
    \<and> (p \<noteq> [] \<longrightarrow> hd p \<noteq> ?k \<longrightarrow> lookup rest p = lookup cs p)
    \<and> c = (case find (\<lambda>c. key_of c = ?k) cs of None \<Rightarrow> create_node nm type data ts | Some c \<Rightarrow> c)"
  proof (cases "unchain (\<lambda>c. key_of c = ?k) cs")
    case None
    then have n: "?k \<notin> key_of ` set cs" by (auto simp: unchain_None)
    then have f: "find (\<lambda>c. key_of c = ?k) cs = None" by (simp add: find_key_None)
    have "c = create_node nm type data ts" "rest = cs"
      using assms(2) None by (auto simp: find_create_child_def P)
    moreover have "wf_node (create_node nm type data ts)" by (simp add: create_node_def)
    ultimately show ?thesis using n f assms(1) by (auto simp: wf_children_def)
  next
    case (Some t)
    then have u: "unchain (\<lambda>c. key_of c = ?k) cs = Some (c, rest)"
      using assms(2) by (auto simp: find_create_child_def P split: prod.splits)
    obtain pre post where s: "cs = pre @ c # post" "rest = pre @ post" "key_of c = ?k"
      using unchain_Some [OF u] by blast
    have k: "key_of c \<notin> key_of ` set pre" "key_of c \<notin> key_of ` set post"
      using assms(1) by (auto simp: s wf_children_def)
    have "find (\<lambda>c. key_of c = ?k) pre = None" using k s(3) by (simp add: find_key_None)
    then have "find (\<lambda>c. key_of c = ?k) cs = Some c" using s(1,3) by (simp add: find_append)
    moreover have "lookup rest p = lookup cs p" if "p \<noteq> []" "hd p \<noteq> ?k"
      using lookup_mid [OF k(1), of post "hd p" "tl p"] that s by simp
    ultimately show ?thesis using assms(1) s k by (auto simp: wf_children_def)
  qed
  then show "key_of c = ?k" "wf_children (c # rest)" "key_of ` set rest = key_of ` set cs - {?k}"
    "p \<noteq> [] \<Longrightarrow> hd p \<noteq> ?k \<Longrightarrow> lookup rest p = lookup cs p"
    "c = (case find (\<lambda>c. key_of c = ?k) cs of None \<Rightarrow> create_node nm type data ts | Some c \<Rightarrow> c)"
    by blast+
qed

section \<open>Properties\<close>


definition sample_node :: "u64 \<Rightarrow> u64 \<Rightarrow> pnode list \<Rightarrow> pnode" where
  "sample_node region calls cs =
     PNode ((pn_data (create_node 0 NODE_REGULAR_REGION \<lparr>td_handle = region, td_value = 0\<rparr> 5))\<lparr>nd_count := calls\<rparr>) cs"


text \<open>
  C34. The recursive merge sort of the sibling chains, called with the comparison of the first enter
  times, orders the children of every node by the time they were first entered and keeps the order
  of children with equal times: it is the stable sort of the library.
\<close>

theorem profile_sort_stable:
  "sort_subtree compare_first_enter_time (PNode d cs)
     = PNode d (map (sort_subtree compare_first_enter_time)
                  (sort_key (\<lambda>n. nd_first_enter_time (pn_data n)) cs))"
proof -
  have "compare_first_enter_time
      = (\<lambda>a b. nd_first_enter_time (pn_data a) > nd_first_enter_time (pn_data b))"
    by (intro ext) (simp add: compare_first_enter_time_def)
  then have "sort_node_list compare_first_enter_time cs = sort_key (\<lambda>n. nd_first_enter_time (pn_data n)) cs"
    using sort_node_list_key [of "\<lambda>n. nd_first_enter_time (pn_data n)" cs] by simp
  then show ?thesis by simp
qed

text \<open>
  The pointer walk of \<open>scorep_profile_for_all\<close> ends and calls the function once for every node
  of the tree, a node before its children and the children in the order of the chain.
\<close>

theorem profile_for_all_preorder:
  "for_all root = (case root of None \<Rightarrow> [] | Some n \<Rightarrow> preorder n)"
  by (cases root) (simp_all add: for_all_preorder [symmetric], simp add: for_all_def)

text \<open>
  C26. Equal nodes have equal hashes and neither is less than the other; \<open>scorep_profile_node_less_than\<close>
  is transitive. Two nodes of which neither is less are equal, except for region nodes of one region
  that differ in their parameters: the order does not look at the parameters, the comparison does.
\<close>

theorem node_order_consistent:
  "(compare_nodes a b \<longrightarrow> node_hash a = node_hash b)
    \<and> (node_less_than a b \<and> node_less_than b c \<longrightarrow> node_less_than a c)
    \<and> (\<not> node_less_than a b \<and> \<not> node_less_than b a \<longleftrightarrow>
        compare_nodes a b
        \<or> nd_type a = NODE_REGULAR_REGION \<and> nd_type b = NODE_REGULAR_REGION
          \<and> td_handle (nd_data a) = td_handle (nd_data b) \<and> td_value (nd_data a) \<noteq> td_value (nd_data b))"
proof (intro conjI)
  show "compare_nodes a b \<longrightarrow> node_hash a = node_hash b"
    by (cases "nd_type a")
       (auto simp: compare_nodes_def compare_type_data_def node_hash_def hash_for_type_data_def Let_def
         split: if_splits)
  show "node_less_than a b \<and> node_less_than b c \<longrightarrow> node_less_than a c"
  proof
    assume *: "node_less_than a b \<and> node_less_than b c"
    show "node_less_than a c"
    proof (cases "nd_type a = nd_type b \<and> nd_type b = nd_type c")
      case True
      then show ?thesis using *
        by (cases "nd_type c") (auto simp: node_less_than_def less_than_for_type_data_def split: if_splits)
    next
      case False
      then have "nd_type a < nd_type c" using * by (auto simp: node_less_than_def split: if_splits)
      then show ?thesis by (simp add: node_less_than_def)
    qed
  qed
  show "\<not> node_less_than a b \<and> \<not> node_less_than b a \<longleftrightarrow>
        compare_nodes a b
        \<or> nd_type a = NODE_REGULAR_REGION \<and> nd_type b = NODE_REGULAR_REGION
          \<and> td_handle (nd_data a) = td_handle (nd_data b) \<and> td_value (nd_data a) \<noteq> td_value (nd_data b)"
  proof (cases "nd_type a = nd_type b")
    case True
    then show ?thesis
      by (cases "nd_type b")
         (auto simp: node_less_than_def less_than_for_type_data_def compare_nodes_def compare_type_data_def
           split: if_splits)
  next
    case False
    then show ?thesis by (auto simp: node_less_than_def compare_nodes_def)
  qed
qed

theorem node_order_consistent_witness:
  "\<not> node_less_than (pn_data (sample_node 1 0 [])) (pn_data (sample_node 1 5 []))"
  using node_order_consistent [of "pn_data (sample_node 1 0 [])" "pn_data (sample_node 1 5 [])"]
  by (simp add: compare_nodes_key sample_node_def create_node_def node_key_def)

end
