(* ===== verification/Scorep_Profile_Events.thy ===== *)
theory Scorep_Profile_Events
  imports Scorep_Profile_Node
begin

text \<open>
  The events that build the profile of one location: enter, exit, parameter and integer trigger,
  from \<open>src/src/measurement/profiling/scorep_profile_event_base.c\<close> and \<open>SCOREP_Profile.c\<close>.

  The current node of a location is a position in its tree: the node with its subtree, and for
  every ancestor its record with the siblings of the node below it that follow in the chain. The
  code only moves the current node to the first child and to the parent, so nothing precedes it in
  its chain. When the current node pointer is null the position stays, with \<open>loc_valid\<close> false.

  Not modelled: clustering of dynamic regions, which is off unless configured, and the metrics of
  tasks that the exit of a parallel region stores.
\<close>

section \<open>State\<close>

record profile_definition =
  pr_initialized :: bool
  pr_has_collapse_node :: bool
  pr_reached_depth :: nat
  pr_max_callpath_depth :: nat

record profile_location =
  loc_node :: pnode
  loc_path :: "(node_data \<times> pnode list) list"
  loc_valid :: bool
  loc_depth :: nat

definition u32_dec :: "nat \<Rightarrow> nat" where
  "u32_dec n = (n + (2 ^ 32 - 1)) mod 2 ^ 32"

text \<open>Making the child at the head of the chain the current node.\<close>

definition descend :: "profile_location \<Rightarrow> pnode \<times> pnode list \<Rightarrow> profile_location" where
  "descend loc cr = loc\<lparr>loc_node := fst cr, loc_path := (pn_data (loc_node loc), snd cr) # loc_path loc\<rparr>"

text \<open>Making the parent the current node; a root has none.\<close>

definition ascend :: "profile_location \<Rightarrow> profile_location" where
  "ascend loc =
     (case loc_path loc of
        [] \<Rightarrow> loc\<lparr>loc_valid := False\<rparr>
      | (d, siblings) # path \<Rightarrow> loc\<lparr>loc_node := PNode d (loc_node loc # siblings), loc_path := path\<rparr>)"

definition update_node :: "profile_location \<Rightarrow> (node_data \<Rightarrow> node_data) \<Rightarrow> profile_location" where
  "update_node loc f = loc\<lparr>loc_node := PNode (f (pn_data (loc_node loc))) (pn_children (loc_node loc))\<rparr>"

definition metric_value :: "u64 list option \<Rightarrow> nat \<Rightarrow> u64" where
  "metric_value metrics i = (case metrics of None \<Rightarrow> 0 | Some ms \<Rightarrow> ms ! i)"

text \<open>The array has one value per metric; a shorter one would be read out of bounds.\<close>

definition metrics_ok :: "nat \<Rightarrow> u64 list option \<Rightarrow> bool" where
  "metrics_ok nm metrics \<longleftrightarrow> (case metrics of None \<Rightarrow> True | Some ms \<Rightarrow> nm \<le> length ms)"

section \<open>Enter\<close>

definition start_metrics :: "nat \<Rightarrow> u64 \<Rightarrow> u64 list option \<Rightarrow> node_data \<Rightarrow> node_data" where
  "start_metrics nm timestamp metrics d =
     d\<lparr>nd_count := nd_count d + 1,
       nd_inclusive_time := (nd_inclusive_time d)\<lparr>dm_start_value := timestamp\<rparr>,
       nd_dense_metrics := map (\<lambda>i. (nd_dense_metrics d ! i)\<lparr>dm_start_value := metric_value metrics i\<rparr>) [0..<nm]\<rparr>"

definition profile_enter ::
    "nat \<Rightarrow> profile_definition \<Rightarrow> profile_location \<Rightarrow> u64 \<Rightarrow> u64 \<Rightarrow> u64 list option
     \<Rightarrow> (profile_definition \<times> profile_location) option" where
  "profile_enter nm pr loc region timestamp metrics =
     (let reach = (\<lambda>pr. pr\<lparr>pr_reached_depth := max (pr_reached_depth pr) (loc_depth loc)\<rparr>)
      in if loc_valid loc \<and> nd_type (pn_data (loc_node loc)) = NODE_COLLAPSE
         then Some (reach pr, loc)
         else do {
           assertC (loc_valid loc);
           assertC (metrics_ok nm metrics);
           let collapse = loc_depth loc > pr_max_callpath_depth pr;
           let (type, data) =
             (if collapse then (NODE_COLLAPSE, \<lparr>td_handle = 0, td_value = of_nat (loc_depth loc)\<rparr>)
              else (NODE_REGULAR_REGION, \<lparr>td_handle = region, td_value = 0\<rparr>));
           let pr = (if collapse then reach (pr\<lparr>pr_has_collapse_node := True\<rparr>) else pr);
           let loc = descend loc (find_create_child nm (pn_children (loc_node loc)) type data timestamp);
           Some (pr, update_node loc (start_metrics nm timestamp metrics))
         })"

section \<open>Parameters\<close>

text \<open>The time stamp \<open>-1\<close> marks a node whose first enter time is still to be set.\<close>

definition setup_start_from_parent :: "nat \<Rightarrow> profile_location \<Rightarrow> profile_location" where
  "setup_start_from_parent nm loc =
     (case loc_path loc of
        [] \<Rightarrow> update_node loc (\<lambda>d. d\<lparr>nd_count := nd_count d + 1\<rparr>)
      | (parent, siblings) # path \<Rightarrow>
          update_node loc (\<lambda>d. d\<lparr>
            nd_first_enter_time := (if nd_first_enter_time d = - 1
              then dm_start_value (nd_inclusive_time parent) else nd_first_enter_time d),
            nd_count := nd_count d + 1,
            nd_inclusive_time := (nd_inclusive_time d)\<lparr>dm_start_value := dm_start_value (nd_inclusive_time parent)\<rparr>,
            nd_dense_metrics := map (\<lambda>i. (nd_dense_metrics d ! i)
              \<lparr>dm_start_value := dm_start_value (nd_dense_metrics parent ! i)\<rparr>) [0..<nm]\<rparr>))"

text \<open>\<open>instance\<close> is the handle of the parameter \<open>scorep_profile_param_instance\<close>.\<close>

definition parameter_uint64 ::
    "nat \<Rightarrow> u64 \<Rightarrow> profile_definition \<Rightarrow> profile_location \<Rightarrow> u64 \<Rightarrow> u64 \<Rightarrow> profile_location option" where
  "parameter_uint64 nm instance_param pr loc param value =
     (if \<not> pr_initialized pr then Some loc
      else if loc_depth loc \<ge> pr_max_callpath_depth pr then Some loc
      else do {
        let loc = loc\<lparr>loc_depth := u32_add (loc_depth loc) 1\<rparr>;
        let data = \<lparr>td_handle = param, td_value = value\<rparr>;
        assertC (loc_valid loc);
        let children = pn_children (loc_node loc);
        let loc = descend loc
          (if param = instance_param
           then (create_node nm NODE_PARAMETER_INTEGER data (- 1), children)
           else find_create_child nm children NODE_PARAMETER_INTEGER data (- 1));
        Some (setup_start_from_parent nm loc)
      })"

definition parameter_string ::
    "nat \<Rightarrow> profile_definition \<Rightarrow> profile_location \<Rightarrow> u64 \<Rightarrow> u64 \<Rightarrow> profile_location option" where
  "parameter_string nm pr loc param string_handle =
     (if \<not> pr_initialized pr then Some loc
      else if loc_depth loc \<ge> pr_max_callpath_depth pr then Some loc
      else do {
        let loc = loc\<lparr>loc_depth := u32_add (loc_depth loc) 1\<rparr>;
        assertC (loc_valid loc);
        let loc = descend loc
          (find_create_child nm (pn_children (loc_node loc)) NODE_PARAMETER_STRING
             \<lparr>td_handle = param, td_value = string_handle\<rparr> (- 1));
        Some (setup_start_from_parent nm loc)
      })"

text \<open>\<open>dynamic\<close> is true for the region types that get an instance parameter.\<close>

definition Profile_Enter ::
    "nat \<Rightarrow> u64 \<Rightarrow> profile_definition \<Rightarrow> profile_location \<Rightarrow> u64 \<Rightarrow> u64 \<Rightarrow> bool \<Rightarrow> u64 list option
     \<Rightarrow> (profile_definition \<times> profile_location) option" where
  "Profile_Enter nm instance_param pr loc timestamp region dynamic metrics =
     (if \<not> pr_initialized pr then Some (pr, loc)
      else do {
        let loc = loc\<lparr>loc_depth := u32_add (loc_depth loc) 1\<rparr>;
        (pr, loc) \<leftarrow> profile_enter nm pr loc region timestamp metrics;
        if dynamic then do {
          loc \<leftarrow> parameter_uint64 nm instance_param pr loc instance_param (nd_count (pn_data (loc_node loc)));
          Some (pr, loc)
        } else Some (pr, loc)
      })"

section \<open>Exit\<close>

definition stop_metrics :: "nat \<Rightarrow> u64 \<Rightarrow> u64 list option \<Rightarrow> node_data \<Rightarrow> node_data" where
  "stop_metrics nm timestamp metrics d =
     d\<lparr>nd_last_exit_time := timestamp,
       nd_inclusive_time := update_dense_metric (nd_inclusive_time d) timestamp,
       nd_dense_metrics := map (\<lambda>i. update_dense_metric (nd_dense_metrics d ! i) (metric_value metrics i)) [0..<nm]\<rparr>"

text \<open>The loop leaves all parameter nodes and the region; the result stands at the last node left.\<close>

function exit_loop :: "nat \<Rightarrow> profile_location \<Rightarrow> u64 \<Rightarrow> u64 list option \<Rightarrow> profile_location" where
  "exit_loop nm loc timestamp metrics =
     (let loc = update_node (loc\<lparr>loc_depth := u32_dec (loc_depth loc)\<rparr>) (stop_metrics nm timestamp metrics);
          type = nd_type (pn_data (loc_node loc))
      in if type \<noteq> NODE_REGULAR_REGION \<and> type \<noteq> NODE_COLLAPSE \<and> loc_path loc \<noteq> []
         then exit_loop nm (ascend loc) timestamp metrics
         else loc)"
  by pat_completeness auto
termination
  by (relation "measure (\<lambda>(nm, loc, timestamp, metrics). length (loc_path loc))")
     (auto simp: ascend_def update_node_def neq_Nil_conv)

declare exit_loop.simps [simp del]

definition profile_exit ::
    "nat \<Rightarrow> profile_definition \<Rightarrow> profile_location \<Rightarrow> u64 \<Rightarrow> u64 \<Rightarrow> u64 list option
     \<Rightarrow> (profile_definition \<times> profile_location) option" where
  "profile_exit nm pr loc region timestamp metrics =
     (let d = pn_data (loc_node loc)
      in if nd_type d = NODE_COLLAPSE \<and> of_nat (loc_depth loc) > td_value (nd_data d)
         then Some (pr, loc\<lparr>loc_depth := u32_dec (loc_depth loc)\<rparr>)
         else do {
           assertC (metrics_ok nm metrics);
           let loc = exit_loop nm loc timestamp metrics;
           let d = pn_data (loc_node loc);
           if nd_type d = NODE_REGULAR_REGION \<and> td_handle (nd_data d) \<noteq> region
           then Some (pr\<lparr>pr_initialized := False\<rparr>, loc\<lparr>loc_valid := False\<rparr>)
           else Some (pr, ascend loc)
         })"

definition Profile_Exit ::
    "nat \<Rightarrow> profile_definition \<Rightarrow> profile_location \<Rightarrow> u64 \<Rightarrow> u64 \<Rightarrow> u64 list option
     \<Rightarrow> (profile_definition \<times> profile_location) option" where
  "Profile_Exit nm pr loc timestamp region metrics =
     (if \<not> pr_initialized pr then Some (pr, loc)
      else do {
        assertC (loc_valid loc);
        profile_exit nm pr loc region timestamp metrics
      })"

section \<open>Triggers\<close>

definition Profile_TriggerInteger ::
    "profile_definition \<Rightarrow> profile_location \<Rightarrow> u32 \<Rightarrow> u64 \<Rightarrow> (profile_definition \<times> profile_location) option" where
  "Profile_TriggerInteger pr loc metric value =
     (if \<not> pr_initialized pr then Some (pr, loc)
      else if \<not> loc_valid loc then Some (pr\<lparr>pr_initialized := False\<rparr>, loc)
      else do {
        ms \<leftarrow> trigger_int64 (nd_int_sparse (pn_data (loc_node loc))) metric value TRIGGER_UPDATE_VALUE_AS_IS;
        Some (pr, update_node loc (\<lambda>d. d\<lparr>nd_int_sparse := ms\<rparr>))
      })"

section \<open>Event sequences\<close>

datatype profile_event =
  Enter_Region u64 u64 "u64 list option"
| Exit_Region u64 u64 "u64 list option"

fun profile_step :: "nat \<Rightarrow> profile_event \<Rightarrow> profile_definition \<times> profile_location
    \<Rightarrow> (profile_definition \<times> profile_location) option" where
  "profile_step nm (Enter_Region region t ms) (pr, loc) = Profile_Enter nm 0 pr loc t region False ms"
| "profile_step nm (Exit_Region region t ms) (pr, loc) = Profile_Exit nm pr loc t region ms"

fun profile_run :: "nat \<Rightarrow> profile_event list \<Rightarrow> profile_definition \<times> profile_location
    \<Rightarrow> (profile_definition \<times> profile_location) option" where
  "profile_run nm [] st = Some st"
| "profile_run nm (e # es) st = do { st \<leftarrow> profile_step nm e st; profile_run nm es st }"

lemma profile_run_append:
  "profile_run nm (es @ fs) st = do { st \<leftarrow> profile_run nm es st; profile_run nm fs st }"
  by (induction es arbitrary: st) (auto split: Option.bind_split)

text \<open>A properly nested call: region, enter time and metric values, the calls it makes, exit time
  and values.\<close>

datatype call = Call u64 u64 "u64 list option" "call list" u64 "u64 list option"

fun call_events :: "call \<Rightarrow> profile_event list" where
  "call_events (Call r t0 m0 calls t1 m1) =
     Enter_Region r t0 m0 # concat (map call_events calls) @ [Exit_Region r t1 m1]"

fun call_height :: "call \<Rightarrow> nat" where
  "call_height (Call r t0 m0 calls t1 m1) = Suc (fold max (map call_height calls) 0)"

fun call_metrics_ok :: "nat \<Rightarrow> call \<Rightarrow> bool" where
  "call_metrics_ok nm (Call r t0 m0 calls t1 m1) \<longleftrightarrow>
     metrics_ok nm m0 \<and> metrics_ok nm m1 \<and> (\<forall>c \<in> set calls. call_metrics_ok nm c)"

text \<open>What is measured: the time or one of the synchronous metrics.\<close>

datatype channel = Time | Metric nat

fun call_value :: "channel \<Rightarrow> call \<Rightarrow> u64" where
  "call_value Time (Call r t0 m0 calls t1 m1) = t1 - t0"
| "call_value (Metric i) (Call r t0 m0 calls t1 m1) = metric_value m1 i - metric_value m0 i"

fun node_channel :: "channel \<Rightarrow> node_data \<Rightarrow> dense_metric" where
  "node_channel Time d = nd_inclusive_time d"
| "node_channel (Metric i) d = nd_dense_metrics d ! i"

fun call_region :: "call \<Rightarrow> u64" where
  "call_region (Call r t0 m0 calls t1 m1) = r"

fun call_calls :: "call \<Rightarrow> call list" where
  "call_calls (Call r t0 m0 calls t1 m1) = calls"

definition region_key :: "u64 \<Rightarrow> node_key" where
  "region_key r = (NODE_REGULAR_REGION, r, 0)"

text \<open>The values of the calls with a callpath, in the order in which they end.\<close>

fun call_samples :: "channel \<Rightarrow> call list \<Rightarrow> node_key list \<Rightarrow> u64 list" where
  "call_samples ch calls [] = []"
| "call_samples ch calls (k # ks) =
     concat (map (\<lambda>c. if region_key (call_region c) = k
                      then (if ks = [] then [call_value ch c] else call_samples ch (call_calls c) ks)
                      else []) calls)"

text \<open>The count and the statistics of a callpath; a callpath without node has none.\<close>

fun summary :: "channel \<Rightarrow> node_data option \<Rightarrow> u64 \<times> dense_metric" where
  "summary ch None = (0, init_dense_metric)"
| "summary ch (Some d) = (nd_count d, (node_channel ch d)\<lparr>dm_start_value := 0\<rparr>)"

section \<open>Well-formed trees\<close>

definition data_ok :: "nat \<Rightarrow> node_data \<Rightarrow> bool" where
  "data_ok nm d \<longleftrightarrow> length (nd_dense_metrics d) = nm \<and> dm_intermediate_sum (nd_inclusive_time d) = 0
     \<and> (\<forall>i < nm. dm_intermediate_sum (nd_dense_metrics d ! i) = 0)"

fun node_ok :: "nat \<Rightarrow> pnode \<Rightarrow> bool" where
  "node_ok nm (PNode d cs) \<longleftrightarrow> data_ok nm d \<and> (\<forall>c \<in> set cs. node_ok nm c)"

definition children_ok :: "nat \<Rightarrow> pnode list \<Rightarrow> bool" where
  "children_ok nm cs \<longleftrightarrow> wf_children cs \<and> (\<forall>c \<in> set cs. node_ok nm c)"

lemma node_ok_iff: "node_ok nm n \<longleftrightarrow> data_ok nm (pn_data n) \<and> (\<forall>c \<in> set (pn_children n). node_ok nm c)"
  by (cases n) simp

lemma children_ok_pn: "wf_node n \<Longrightarrow> node_ok nm n \<Longrightarrow> children_ok nm (pn_children n)"
  using wf_node_iff [of n] node_ok_iff [of nm n] unfolding children_ok_def by blast

lemma create_node_ok: "node_ok nm (create_node nm type data ts)"
  by (simp add: create_node_def data_ok_def init_dense_metric_def init_dense_metric_array_def)

lemma region_type_key: "type_key NODE_REGULAR_REGION \<lparr>td_handle = r, td_value = 0\<rparr> = region_key r"
  by (simp add: type_key_def create_node_def node_key_def region_key_def)

lemma find_create_ok:
  assumes "children_ok nm cs" "find_create_child nm cs type data ts = (c, rest)"
  shows "wf_node c" "node_ok nm c" "children_ok nm rest"
proof -
  have wf: "wf_children cs" and ok: "\<forall>c \<in> set cs. node_ok nm c" using assms(1) by (simp_all add: children_ok_def)
  note s = find_create_child_spec [OF wf assms(2)]
  show "wf_node c" using s(2) by (simp add: wf_children_def)
  have fr: "find (\<lambda>c. key_of c = type_key type data) cs = Some c' \<Longrightarrow> c' \<in> set cs" for c'
    by (auto simp: find_Some_iff)
  show "node_ok nm c"
    using ok fr by (subst s(5)) (auto simp: create_node_ok split: option.split)
  have "set rest \<subseteq> set cs"
  proof (cases "unchain (\<lambda>child. nd_type (pn_data child) = type
      \<and> compare_type_data data (nd_data (pn_data child)) type) cs")
    case None
    then show ?thesis using assms(2) by (simp add: find_create_child_def)
  next
    case (Some cr)
    then have "unchain (\<lambda>child. nd_type (pn_data child) = type
        \<and> compare_type_data data (nd_data (pn_data child)) type) cs = Some (c, rest)"
      using assms(2) by (cases cr) (simp add: find_create_child_def)
    from unchain_Some [OF this] show ?thesis by auto
  qed
  then show "children_ok nm rest"
    using s(2) ok by (auto simp: children_ok_def wf_children_def)
qed

lemma enter_step:
  assumes "pr_initialized pr" "loc_valid loc" "nd_type (pn_data (loc_node loc)) \<noteq> NODE_COLLAPSE"
    "loc_depth loc < pr_max_callpath_depth pr" "loc_depth loc + 1 < 2 ^ 32" "metrics_ok nm m"
    "find_create_child nm (pn_children (loc_node loc)) NODE_REGULAR_REGION \<lparr>td_handle = r, td_value = 0\<rparr> t = (c, rest)"
  shows "profile_step nm (Enter_Region r t m) (pr, loc) = Some (pr,
    \<lparr>loc_node = PNode (start_metrics nm t m (pn_data c)) (pn_children c),
     loc_path = (pn_data (loc_node loc), rest) # loc_path loc, loc_valid = True, loc_depth = loc_depth loc + 1\<rparr>)"
  using assms
  by (simp add: Profile_Enter_def profile_enter_def u32_add_def Let_def descend_def update_node_def)

lemma u32_dec_Suc: "n + 1 < 2 ^ 32 \<Longrightarrow> u32_dec (n + 1) = n"
proof -
  assume "n + 1 < 2 ^ 32"
  have "n + 1 + (2 ^ 32 - 1) = n + 2 ^ 32" by simp
  then have "u32_dec (n + 1) = (n + 2 ^ 32) mod 2 ^ 32" by (simp only: u32_dec_def)
  then show ?thesis using \<open>n + 1 < 2 ^ 32\<close> by (simp only: mod_add_self2) simp
qed

lemma exit_step:
  assumes "pr_initialized pr" "nd_type d = NODE_REGULAR_REGION" "td_handle (nd_data d) = r" "metrics_ok nm m"
    "n + 1 < 2 ^ 32"
  shows "profile_step nm (Exit_Region r t m) (pr,
      \<lparr>loc_node = PNode d cs, loc_path = (pd, rest) # path, loc_valid = True, loc_depth = n + 1\<rparr>)
    = Some (pr, \<lparr>loc_node = PNode pd (PNode (stop_metrics nm t m d) cs # rest), loc_path = path,
        loc_valid = True, loc_depth = n\<rparr>)"
proof -
  have "nd_type (stop_metrics nm t m d) = nd_type d" "nd_data (stop_metrics nm t m d) = nd_data d"
    by (simp_all add: stop_metrics_def)
  then show ?thesis
    using assms u32_dec_Suc [of n]
    by (simp add: Profile_Exit_def profile_exit_def Let_def exit_loop.simps update_node_def ascend_def)
qed

section \<open>Statistics of a sequence of calls\<close>

definition extend :: "u64 \<times> dense_metric \<Rightarrow> u64 list \<Rightarrow> u64 \<times> dense_metric" where
  "extend s ds = (fst s + of_nat (length ds), foldl add_sample (snd s) ds)"

lemma extend_Nil [simp]: "extend s [] = s"
  by (simp add: extend_def)

lemma extend_append: "extend s (xs @ ys) = extend (extend s xs) ys"
  by (simp add: extend_def add.assoc)

fun channel_ok :: "nat \<Rightarrow> channel \<Rightarrow> bool" where
  "channel_ok nm Time \<longleftrightarrow> True"
| "channel_ok nm (Metric i) \<longleftrightarrow> i < nm"

text \<open>One start and stop of a node adds one sample.\<close>

definition visit :: "nat \<Rightarrow> u64 \<Rightarrow> u64 list option \<Rightarrow> u64 \<Rightarrow> u64 list option \<Rightarrow> node_data \<Rightarrow> node_data" where
  "visit nm t0 m0 t1 m1 d = stop_metrics nm t1 m1 (start_metrics nm t0 m0 d)"

lemma add_sample_start: "(add_sample m v)\<lparr>dm_start_value := s\<rparr> = add_sample (m\<lparr>dm_start_value := s\<rparr>) v"
  by (simp add: add_sample_def)

lemma visit_summary:
  assumes "data_ok nm d" "channel_ok nm ch"
  shows "summary ch (Some (visit nm t0 m0 t1 m1 d))
      = extend (summary ch (Some d)) [call_value ch (Call r t0 m0 cs t1 m1)]"
    "data_ok nm (visit nm t0 m0 t1 m1 d)" "node_key (visit nm t0 m0 t1 m1 d) = node_key d"
    "nd_type (visit nm t0 m0 t1 m1 d) = nd_type d"
proof -
  have i: "dm_intermediate_sum (nd_inclusive_time d) = 0"
    "\<And>i. i < nm \<Longrightarrow> dm_intermediate_sum (nd_dense_metrics d ! i) = 0"
    using assms(1) by (simp_all add: data_ok_def)
  have t: "update_dense_metric ((nd_inclusive_time d)\<lparr>dm_start_value := t0\<rparr>) t1
      = add_sample ((nd_inclusive_time d)\<lparr>dm_start_value := t0\<rparr>) (t1 - t0)"
    using i(1) by (subst update_dense_sample) simp_all
  have m: "update_dense_metric ((nd_dense_metrics d ! i)\<lparr>dm_start_value := a\<rparr>) b
      = add_sample ((nd_dense_metrics d ! i)\<lparr>dm_start_value := a\<rparr>) (b - a)" if "i < nm" for i a b
    using i(2) [OF that] by (subst update_dense_sample) simp_all
  show "summary ch (Some (visit nm t0 m0 t1 m1 d))
      = extend (summary ch (Some d)) [call_value ch (Call r t0 m0 cs t1 m1)]"
    using assms(2)
    by (cases ch) (simp_all add: visit_def stop_metrics_def start_metrics_def extend_def t m add_sample_start)
  show "data_ok nm (visit nm t0 m0 t1 m1 d)"
    using i by (simp add: data_ok_def visit_def stop_metrics_def start_metrics_def t m)
  have k: "nd_type (visit nm t0 m0 t1 m1 d) = nd_type d" "nd_data (visit nm t0 m0 t1 m1 d) = nd_data d"
    by (simp_all add: visit_def stop_metrics_def start_metrics_def)
  then show "node_key (visit nm t0 m0 t1 m1 d) = node_key d" "nd_type (visit nm t0 m0 t1 m1 d) = nd_type d"
    by (simp_all only: node_key_def)
qed

text \<open>The children after a sequence of calls.\<close>

definition recorded :: "nat \<Rightarrow> pnode list \<Rightarrow> call list \<Rightarrow> pnode list \<Rightarrow> bool" where
  "recorded nm cs calls cs' \<longleftrightarrow> children_ok nm cs'
     \<and> (\<forall>ch p. channel_ok nm ch \<longrightarrow> p \<noteq> []
          \<longrightarrow> summary ch (lookup cs' p) = extend (summary ch (lookup cs p)) (call_samples ch calls p))"

lemma call_samples_Cons: "call_samples ch (c # calls) p = call_samples ch [c] p @ call_samples ch calls p"
  by (cases p) simp_all

lemma call_samples_Nil [simp]: "call_samples ch [] p = []"
  by (cases p) simp_all

lemma recorded_trans:
  "recorded nm cs [c] cs1 \<Longrightarrow> recorded nm cs1 calls cs2 \<Longrightarrow> recorded nm cs (c # calls) cs2"
  unfolding recorded_def by (subst call_samples_Cons) (simp add: extend_append)

definition can_record :: "nat \<Rightarrow> profile_definition \<Rightarrow> profile_location \<Rightarrow> nat \<Rightarrow> bool" where
  "can_record nm pr loc h \<longleftrightarrow> pr_initialized pr \<and> loc_valid loc
     \<and> nd_type (pn_data (loc_node loc)) \<noteq> NODE_COLLAPSE
     \<and> loc_depth loc + h \<le> pr_max_callpath_depth pr \<and> loc_depth loc + h < 2 ^ 32
     \<and> children_ok nm (pn_children (loc_node loc))"

definition with_children :: "profile_location \<Rightarrow> pnode list \<Rightarrow> profile_location" where
  "with_children loc cs = loc\<lparr>loc_node := PNode (pn_data (loc_node loc)) cs\<rparr>"

lemma with_children_simps [simp]:
  "pn_children (loc_node (with_children loc cs)) = cs"
  "with_children (with_children loc cs) cs' = with_children loc cs'"
  "can_record nm pr (with_children loc cs) h
     \<longleftrightarrow> pr_initialized pr \<and> loc_valid loc \<and> nd_type (pn_data (loc_node loc)) \<noteq> NODE_COLLAPSE
       \<and> loc_depth loc + h \<le> pr_max_callpath_depth pr \<and> loc_depth loc + h < 2 ^ 32 \<and> children_ok nm cs"
  by (simp_all add: with_children_def can_record_def)

lemma with_children_same [simp]: "with_children loc (pn_children (loc_node loc)) = loc"
  by (simp add: with_children_def)

lemma recorded_one:
  assumes ok: "children_ok nm cs"
    and fc: "find_create_child nm cs NODE_REGULAR_REGION \<lparr>td_handle = r, td_value = 0\<rparr> t0 = (c, rest)"
    and sub: "recorded nm (pn_children c) calls cs2"
  shows "recorded nm cs [Call r t0 m0 calls t1 m1]
    (PNode (visit nm t0 m0 t1 m1 (pn_data c)) cs2 # rest)"
proof -
  have wf: "wf_children cs" using ok by (simp add: children_ok_def)
  note s = find_create_child_spec [OF wf fc, unfolded region_type_key]
  note c = find_create_ok [OF ok fc]
  have dok: "data_ok nm (pn_data c)" using c(2) node_ok_iff by blast
  have v': "data_ok nm (visit nm t0 m0 t1 m1 (pn_data c))" "node_key (visit nm t0 m0 t1 m1 (pn_data c)) = key_of c"
    using visit_summary(2,3) [OF dok, of Time] by simp_all
  let ?n = "PNode (visit nm t0 m0 t1 m1 (pn_data c)) cs2"
  have kn: "key_of ?n = region_key r" using v'(2) s(1) by simp
  have "children_ok nm cs2" using sub by (simp add: recorded_def)
  then have "wf_node ?n" "node_ok nm ?n" using v'(1) by (auto simp: children_ok_def wf_children_def)
  moreover have "children_ok nm rest" by (rule c(3))
  moreover have "region_key r \<notin> key_of ` set rest" using s(3) by simp
  ultimately have "children_ok nm (?n # rest)"
    using kn by (auto simp: children_ok_def wf_children_def)
  moreover have "summary ch (lookup (?n # rest) p)
      = extend (summary ch (lookup cs p)) (call_samples ch [Call r t0 m0 calls t1 m1] p)"
    if ch: "channel_ok nm ch" and p: "p \<noteq> []" for ch p
  proof -
    obtain k ks where pk: "p = k # ks" using p by (cases p) auto
    show ?thesis
    proof (cases "k = region_key r")
      case False
      then have "lookup (?n # rest) p = lookup cs p" using s(4) [of p] kn pk by simp
      then show ?thesis using False pk by simp
    next
      case True
      have lc: "lookup cs (k # ks) = (case find (\<lambda>c. key_of c = region_key r) cs of None \<Rightarrow> None
          | Some c \<Rightarrow> if ks = [] then Some (pn_data c) else lookup (pn_children c) ks)"
        using True by simp
      have cs_eq: "summary ch (lookup cs p) =
          (if ks = [] then summary ch (Some (pn_data c)) else summary ch (lookup (pn_children c) ks))"
      proof (cases "find (\<lambda>c. key_of c = region_key r) cs")
        case None
        then have "c = create_node nm NODE_REGULAR_REGION \<lparr>td_handle = r, td_value = 0\<rparr> t0" using s(5) by simp
        then show ?thesis using lc None ch pk
          by (cases ch) (simp_all add: create_node_def init_dense_metric_def init_dense_metric_array_def)
      next
        case (Some c')
        then show ?thesis using lc s(5) pk by simp
      qed
      show ?thesis
      proof (cases "ks = []")
        case True
        have "summary ch (Some (visit nm t0 m0 t1 m1 (pn_data c)))
            = extend (summary ch (Some (pn_data c))) [call_value ch (Call r t0 m0 calls t1 m1)]"
          by (rule visit_summary(1) [OF dok ch])
        then show ?thesis using True cs_eq kn pk \<open>k = region_key r\<close> by simp
      next
        case False
        have "summary ch (lookup cs2 ks) = extend (summary ch (lookup (pn_children c) ks)) (call_samples ch calls ks)"
          using sub ch False by (simp add: recorded_def)
        then show ?thesis using cs_eq kn pk False \<open>k = region_key r\<close> by simp
      qed
    qed
  qed
  ultimately show ?thesis by (simp add: recorded_def)
qed

lemma run_calls:
  assumes "\<And>c loc. c \<in> set calls \<Longrightarrow> can_record nm pr loc (call_height c) \<Longrightarrow> call_metrics_ok nm c \<Longrightarrow>
      \<exists>cs'. profile_run nm (call_events c) (pr, loc) = Some (pr, with_children loc cs')
        \<and> recorded nm (pn_children (loc_node loc)) [c] cs'"
    and "can_record nm pr loc (fold max (map call_height calls) 0)" "\<forall>c \<in> set calls. call_metrics_ok nm c"
  shows "\<exists>cs'. profile_run nm (concat (map call_events calls)) (pr, loc) = Some (pr, with_children loc cs')
    \<and> recorded nm (pn_children (loc_node loc)) calls cs'"
  using assms
proof (induction calls arbitrary: loc)
  case Nil
  then have "recorded nm (pn_children (loc_node loc)) [] (pn_children (loc_node loc))"
    by (simp add: recorded_def can_record_def)
  then show ?case by (intro exI [of _ "pn_children (loc_node loc)"]) simp
next
  case (Cons c calls)
  have h: "call_height c \<le> fold max (map call_height (c # calls)) 0"
    "fold max (map call_height calls) 0 \<le> fold max (map call_height (c # calls)) 0"
  proof -
    have f: "fold max ns (n :: nat) = max n (fold max ns 0)" for ns n
      by (induction ns arbitrary: n) (simp, metis fold_simps(2) max.assoc max.commute max_0R)
    show "call_height c \<le> fold max (map call_height (c # calls)) 0"
      "fold max (map call_height calls) 0 \<le> fold max (map call_height (c # calls)) 0"
      using f [of "map call_height calls" "call_height c"] by simp_all
  qed
  have r: "can_record nm pr loc (call_height c)" "call_metrics_ok nm c"
    using Cons.prems(2,3) h(1) by (auto simp: can_record_def)
  obtain cs1 where 1: "profile_run nm (call_events c) (pr, loc) = Some (pr, with_children loc cs1)"
    "recorded nm (pn_children (loc_node loc)) [c] cs1"
    using Cons.prems(1) [OF _ r] by auto
  have "can_record nm pr (with_children loc cs1) (fold max (map call_height calls) 0)"
    using Cons.prems(2) h(2) 1(2) unfolding with_children_simps(3) by (auto simp: can_record_def recorded_def)
  then obtain cs2 where 2: "profile_run nm (concat (map call_events calls)) (pr, with_children loc cs1)
      = Some (pr, with_children (with_children loc cs1) cs2)" "recorded nm cs1 calls cs2"
    using Cons.IH [of "with_children loc cs1"] Cons.prems(1,3) by auto
  show ?case using 1 2 recorded_trans [OF 1(2) 2(2)] by (auto simp: profile_run_append)
qed

lemma run_call:
  "can_record nm pr loc (call_height c) \<Longrightarrow> call_metrics_ok nm c \<Longrightarrow>
     \<exists>cs'. profile_run nm (call_events c) (pr, loc) = Some (pr, with_children loc cs')
       \<and> recorded nm (pn_children (loc_node loc)) [c] cs'"
proof (induction c arbitrary: loc)
  case (Call r t0 m0 calls t1 m1)
  let ?cs = "pn_children (loc_node loc)"
  obtain c rest where fc: "find_create_child nm ?cs NODE_REGULAR_REGION \<lparr>td_handle = r, td_value = 0\<rparr> t0 = (c, rest)"
    by (cases "find_create_child nm ?cs NODE_REGULAR_REGION \<lparr>td_handle = r, td_value = 0\<rparr> t0") auto
  have ok: "children_ok nm ?cs" using Call.prems(1) by (simp add: can_record_def)
  note c = find_create_ok [OF ok fc]
  have "key_of c = region_key r"
    using find_create_child_spec(1) [OF _ fc] ok by (simp add: children_ok_def region_type_key)
  then have cd: "nd_type (pn_data c) = NODE_REGULAR_REGION" "td_handle (nd_data (pn_data c)) = r"
    by (auto simp: node_key_def region_key_def split: node_type.splits)
  define d1 where "d1 = start_metrics nm t0 m0 (pn_data c)"
  have d1: "nd_type d1 = NODE_REGULAR_REGION" "td_handle (nd_data d1) = r"
    using cd by (simp_all add: d1_def start_metrics_def)
  define loc1 where "loc1 = \<lparr>loc_node = PNode d1 (pn_children c),
     loc_path = (pn_data (loc_node loc), rest) # loc_path loc, loc_valid = True, loc_depth = loc_depth loc + 1\<rparr>"
  have e: "profile_step nm (Enter_Region r t0 m0) (pr, loc) = Some (pr, loc1)"
    using enter_step [of pr loc nm m0 r t0 c rest] Call.prems fc
    by (simp add: can_record_def loc1_def d1_def)
  have "children_ok nm (pn_children c)" using children_ok_pn c(1,2) by blast
  then have "can_record nm pr loc1 (fold max (map call_height calls) 0)"
    using Call.prems(1) d1(1) by (simp add: can_record_def loc1_def)
  then obtain cs2 where r2: "profile_run nm (concat (map call_events calls)) (pr, loc1) = Some (pr, with_children loc1 cs2)"
    "recorded nm (pn_children c) calls cs2"
    using run_calls [of calls nm pr loc1] Call.IH Call.prems(2) by (auto simp: loc1_def)
  let ?cs' = "PNode (visit nm t0 m0 t1 m1 (pn_data c)) cs2 # rest"
  have x: "profile_step nm (Exit_Region r t1 m1) (pr, with_children loc1 cs2) = Some (pr, with_children loc ?cs')"
    using exit_step [OF _ d1, of pr nm m1 "loc_depth loc" t1 cs2] Call.prems
    by (simp add: can_record_def loc1_def with_children_def visit_def d1_def)
  have "profile_run nm (call_events (Call r t0 m0 calls t1 m1)) (pr, loc) = Some (pr, with_children loc ?cs')"
    using e r2(1) x by (simp add: profile_run_append del: profile_step.simps)
  moreover have "recorded nm ?cs [Call r t0 m0 calls t1 m1] ?cs'"
    using recorded_one [OF ok fc r2(2)] .
  ultimately show ?case by blast
qed

section \<open>Calls beyond the depth limit\<close>

text \<open>What a callpath of \<open>n\<close> nodes leaves in the profile definition.\<close>

definition note_depth :: "profile_definition \<Rightarrow> nat \<Rightarrow> profile_definition" where
  "note_depth pr n =
     (if n > pr_max_callpath_depth pr
      then pr\<lparr>pr_has_collapse_node := True, pr_reached_depth := max (pr_reached_depth pr) n\<rparr> else pr)"

lemma note_depth_fields [simp]:
  "pr_initialized (note_depth pr n) = pr_initialized pr"
  "pr_max_callpath_depth (note_depth pr n) = pr_max_callpath_depth pr"
  by (simp_all add: note_depth_def)

lemma note_depth_twice: "note_depth (note_depth pr m) n = note_depth pr (max m n)"
  by (auto simp: note_depth_def max_def)

lemma note_depth_same: "pr_has_collapse_node pr \<Longrightarrow> n \<le> pr_reached_depth pr \<Longrightarrow> note_depth pr n = pr"
  by (cases pr) (simp add: note_depth_def)

definition calls_height :: "call list \<Rightarrow> nat" where
  "calls_height calls = fold max (map call_height calls) 0"

lemma calls_height_simps [simp]:
  "calls_height [] = 0" "calls_height (c # calls) = max (call_height c) (calls_height calls)"
  "call_height (Call r t0 m0 calls t1 m1) = Suc (calls_height calls)"
proof -
  have f: "fold max ns (n :: nat) = max n (fold max ns 0)" for ns n
    by (induction ns arbitrary: n) (simp, metis fold_simps(2) max.assoc max.commute max_0R)
  show "calls_height (c # calls) = max (call_height c) (calls_height calls)"
    using f [of "map call_height calls" "call_height c"] by (simp add: calls_height_def)
qed (simp_all add: calls_height_def)

declare call_height.simps [simp del]

lemma of_nat_u64_less: "a < 2 ^ 32 \<Longrightarrow> b < 2 ^ 32 \<Longrightarrow> (of_nat a :: u64) < of_nat b \<longleftrightarrow> a < b"
  by (simp add: word_less_nat_alt unat_of_nat take_bit_eq_mod)

text \<open>Inside a collapse node only the depth changes.\<close>

definition in_collapse :: "profile_definition \<Rightarrow> profile_location \<Rightarrow> nat \<Rightarrow> bool" where
  "in_collapse pr loc h \<longleftrightarrow> pr_initialized pr \<and> pr_has_collapse_node pr \<and> loc_valid loc
     \<and> (\<exists>n. nd_type (pn_data (loc_node loc)) = NODE_COLLAPSE
          \<and> td_value (nd_data (pn_data (loc_node loc))) = of_nat n \<and> n \<le> loc_depth loc \<and> n < 2 ^ 32)
     \<and> pr_max_callpath_depth pr < loc_depth loc \<and> loc_depth loc \<le> pr_reached_depth pr
     \<and> loc_depth loc + h < 2 ^ 32"

lemma collapse_call:
  "in_collapse pr loc (call_height c)
   \<Longrightarrow> profile_run nm (call_events c) (pr, loc) = Some (note_depth pr (loc_depth loc + call_height c), loc)"
proof (induction c arbitrary: pr loc)
  case (Call r t0 m0 calls t1 m1)
  let ?h = "call_height (Call r t0 m0 calls t1 m1)"
  let ?loc = "loc\<lparr>loc_depth := loc_depth loc + 1\<rparr>"
  have dep: "loc_depth loc + 1 < 2 ^ 32" and lim: "pr_max_callpath_depth pr < loc_depth loc"
    using Call.prems by (simp_all add: in_collapse_def)
  have enter: "profile_step nm (Enter_Region r t0 m0) (pr, loc) = Some (note_depth pr (loc_depth loc + 1), ?loc)"
    using Call.prems dep
    by (auto simp: in_collapse_def Profile_Enter_def profile_enter_def u32_add_def note_depth_def Let_def)
  have sub: "profile_run nm (concat (map call_events cs)) (pr', ?loc)
      = Some (note_depth pr' (loc_depth loc + 1 + calls_height cs), ?loc)"
    if "set cs \<subseteq> set calls" "in_collapse pr' ?loc (calls_height cs)" for cs pr'
    using that
  proof (induction cs arbitrary: pr')
    case Nil
    then show ?case by (simp add: note_depth_same in_collapse_def)
  next
    case (Cons c cs)
    have "in_collapse pr' ?loc (call_height c)" using Cons.prems(2) by (auto simp: in_collapse_def)
    then have 1: "profile_run nm (call_events c) (pr', ?loc)
        = Some (note_depth pr' (loc_depth loc + 1 + call_height c), ?loc)"
      using Call.IH [of c pr' ?loc] Cons.prems(1) by simp
    have "in_collapse (note_depth pr' (loc_depth loc + 1 + call_height c)) ?loc (calls_height cs)"
      using Cons.prems(2) by (auto simp: in_collapse_def note_depth_def)
    then show ?case using Cons.IH Cons.prems(1) 1
      by (simp add: profile_run_append note_depth_twice nat_add_max_right)
  qed
  have "in_collapse (note_depth pr (loc_depth loc + 1)) ?loc (calls_height calls)"
    using Call.prems by (auto simp: in_collapse_def note_depth_def)
  then have run: "profile_run nm (concat (map call_events calls)) (note_depth pr (loc_depth loc + 1), ?loc)
      = Some (note_depth pr (loc_depth loc + ?h), ?loc)"
    using sub [OF order_refl] by (simp add: note_depth_twice)
  have "of_nat (loc_depth loc + 1) > td_value (nd_data (pn_data (loc_node loc)))"
    using Call.prems dep of_nat_u64_less unfolding in_collapse_def by fastforce
  then have exit: "profile_step nm (Exit_Region r t1 m1) (pr', ?loc) = Some (pr', loc)" if "pr_initialized pr'" for pr'
    using that Call.prems u32_dec_Suc [OF dep]
    by (auto simp: Profile_Exit_def profile_exit_def in_collapse_def Let_def)
  have "pr_initialized pr" using Call.prems by (simp add: in_collapse_def)
  then show ?case using enter run exit by (simp add: profile_run_append del: profile_step.simps)
qed

lemma collapse_calls:
  "in_collapse pr loc (calls_height calls)
   \<Longrightarrow> profile_run nm (concat (map call_events calls)) (pr, loc)
     = Some (note_depth pr (loc_depth loc + calls_height calls), loc)"
proof (induction calls arbitrary: pr)
  case Nil
  then show ?case by (simp add: note_depth_same in_collapse_def)
next
  case (Cons c calls)
  have "in_collapse pr loc (call_height c)" using Cons.prems by (auto simp: in_collapse_def)
  note 1 = collapse_call [OF this]
  have "in_collapse (note_depth pr (loc_depth loc + call_height c)) loc (calls_height calls)"
    using Cons.prems by (auto simp: in_collapse_def note_depth_def)
  then show ?case using Cons.IH 1 by (simp add: profile_run_append note_depth_twice nat_add_max_right)
qed

text \<open>Outside of collapse nodes, with or without reaching the limit.\<close>

definition can_run :: "nat \<Rightarrow> profile_definition \<Rightarrow> profile_location \<Rightarrow> nat \<Rightarrow> bool" where
  "can_run nm pr loc h \<longleftrightarrow> pr_initialized pr \<and> loc_valid loc
     \<and> nd_type (pn_data (loc_node loc)) \<noteq> NODE_COLLAPSE \<and> loc_depth loc + h < 2 ^ 32
     \<and> loc_depth loc \<le> pr_max_callpath_depth pr \<and> children_ok nm (pn_children (loc_node loc))"

lemma collapse_type_key:
  "type_key NODE_COLLAPSE \<lparr>td_handle = 0, td_value = v\<rparr> = (NODE_COLLAPSE, 0, v)"
  by (simp add: type_key_def create_node_def node_key_def)

lemma key_collapse: "node_key d = (NODE_COLLAPSE, 0, v) \<Longrightarrow> nd_type d = NODE_COLLAPSE \<and> td_value (nd_data d) = v"
  by (cases "nd_type d") (simp_all add: node_key_def)

lemma replace_child_ok:
  assumes "children_ok nm cs" "find_create_child nm cs type data ts = (c, rest)" "children_ok nm cs2"
  shows "children_ok nm (PNode (visit nm t0 m0 t1 m1 (pn_data c)) cs2 # rest)"
proof -
  have wf: "wf_children cs" using assms(1) by (simp add: children_ok_def)
  note s = find_create_child_spec [OF wf assms(2)]
  note c = find_create_ok [OF assms(1,2)]
  have dok: "data_ok nm (pn_data c)" using c(2) node_ok_iff by blast
  have v: "data_ok nm (visit nm t0 m0 t1 m1 (pn_data c))" "node_key (visit nm t0 m0 t1 m1 (pn_data c)) = key_of c"
    using visit_summary(2,3) [OF dok, of Time] by simp_all
  let ?n = "PNode (visit nm t0 m0 t1 m1 (pn_data c)) cs2"
  have "wf_node ?n" "node_ok nm ?n" using v(1) assms(3) by (auto simp: children_ok_def wf_children_def)
  moreover have "key_of ?n \<notin> key_of ` set rest" using s(1,3) v(2) by simp
  ultimately show ?thesis using c(3) by (auto simp: children_ok_def wf_children_def)
qed

lemma balanced_collapse:
  assumes run: "can_run nm pr loc (call_height (Call r t0 m0 calls t1 m1))"
    and lim: "\<not> loc_depth loc < pr_max_callpath_depth pr" and m: "metrics_ok nm m0" "metrics_ok nm m1"
  shows "\<exists>cs'. profile_run nm (call_events (Call r t0 m0 calls t1 m1)) (pr, loc)
      = Some (note_depth pr (loc_depth loc + call_height (Call r t0 m0 calls t1 m1)), with_children loc cs')
    \<and> children_ok nm cs'"
proof -
  let ?cs = "pn_children (loc_node loc)" and ?n = "loc_depth loc + 1"
  let ?data = "\<lparr>td_handle = 0, td_value = of_nat ?n\<rparr> :: type_data"
  obtain c rest where fc: "find_create_child nm ?cs NODE_COLLAPSE ?data t0 = (c, rest)"
    by (cases "find_create_child nm ?cs NODE_COLLAPSE ?data t0") auto
  have ok: "children_ok nm ?cs" and dep: "?n < 2 ^ 32" and pri: "pr_initialized pr"
    using run by (simp_all add: can_run_def)
  note c = find_create_ok [OF ok fc]
  have "key_of c = (NODE_COLLAPSE, 0, of_nat ?n)"
    using find_create_child_spec(1) [OF _ fc] ok by (simp add: children_ok_def collapse_type_key)
  then have cd: "nd_type (pn_data c) = NODE_COLLAPSE" "td_value (nd_data (pn_data c)) = of_nat ?n"
    using key_collapse by blast+
  define d1 where "d1 = start_metrics nm t0 m0 (pn_data c)"
  have d1: "nd_type d1 = NODE_COLLAPSE" "td_value (nd_data d1) = of_nat ?n"
    using cd by (simp_all add: d1_def start_metrics_def)
  define loc1 where "loc1 = \<lparr>loc_node = PNode d1 (pn_children c),
     loc_path = (pn_data (loc_node loc), rest) # loc_path loc, loc_valid = True, loc_depth = ?n\<rparr>"
  have e: "profile_step nm (Enter_Region r t0 m0) (pr, loc) = Some (note_depth pr ?n, loc1)"
    using run lim m(1) fc
    by (simp add: can_run_def Profile_Enter_def profile_enter_def u32_add_def Let_def descend_def
        update_node_def loc1_def d1_def note_depth_def)
  have "\<exists>n. td_value (nd_data d1) = of_nat n \<and> n \<le> ?n \<and> n < 2 ^ 32"
    using d1(2) dep by (intro exI [of _ ?n]) simp
  then have "in_collapse (note_depth pr ?n) loc1 (calls_height calls)"
    using run lim d1(1) by (auto simp: in_collapse_def loc1_def note_depth_def can_run_def)
  then have sub: "profile_run nm (concat (map call_events calls)) (note_depth pr ?n, loc1)
      = Some (note_depth pr (?n + calls_height calls), loc1)"
    using collapse_calls [of _ loc1 calls nm] by (simp add: loc1_def note_depth_twice)
  let ?cs' = "PNode (visit nm t0 m0 t1 m1 (pn_data c)) (pn_children c) # rest"
  have st: "nd_type (stop_metrics nm t1 m1 d1) = NODE_COLLAPSE" using d1 by (simp add: stop_metrics_def)
  have x: "profile_step nm (Exit_Region r t1 m1) (pr', loc1) = Some (pr', with_children loc ?cs')"
    if "pr_initialized pr'" for pr'
    using that m(2) d1 dep st u32_dec_Suc [OF dep] run
    by (simp add: Profile_Exit_def profile_exit_def loc1_def Let_def exit_loop.simps update_node_def
        ascend_def with_children_def visit_def d1_def [symmetric] can_run_def)
  have "profile_run nm (call_events (Call r t0 m0 calls t1 m1)) (pr, loc)
      = Some (note_depth pr (?n + calls_height calls), with_children loc ?cs')"
    using e sub x pri by (simp add: profile_run_append del: profile_step.simps)
  moreover have "children_ok nm ?cs'"
    using replace_child_ok [OF ok fc] children_ok_pn [OF c(1,2)] by blast
  ultimately show ?thesis by auto
qed

lemma balanced_call:
  "can_run nm pr loc (call_height c) \<Longrightarrow> call_metrics_ok nm c \<Longrightarrow>
     \<exists>cs'. profile_run nm (call_events c) (pr, loc)
         = Some (note_depth pr (loc_depth loc + call_height c), with_children loc cs')
       \<and> children_ok nm cs'"
proof (induction c arbitrary: pr loc)
  case (Call r t0 m0 calls t1 m1)
  show ?case
  proof (cases "loc_depth loc < pr_max_callpath_depth pr")
    case False
    then show ?thesis using balanced_collapse [OF Call.prems(1) False] Call.prems(2) by simp
  next
    case True
    let ?cs = "pn_children (loc_node loc)"
    obtain c rest where fc: "find_create_child nm ?cs NODE_REGULAR_REGION \<lparr>td_handle = r, td_value = 0\<rparr> t0 = (c, rest)"
      by (cases "find_create_child nm ?cs NODE_REGULAR_REGION \<lparr>td_handle = r, td_value = 0\<rparr> t0") auto
    have ok: "children_ok nm ?cs" and dep: "loc_depth loc + 1 < 2 ^ 32" and pri: "pr_initialized pr"
      using Call.prems(1) by (simp_all add: can_run_def)
    note c = find_create_ok [OF ok fc]
    have "key_of c = region_key r"
      using find_create_child_spec(1) [OF _ fc] ok by (simp add: children_ok_def region_type_key)
    then have cd: "nd_type (pn_data c) = NODE_REGULAR_REGION" "td_handle (nd_data (pn_data c)) = r"
      by (auto simp: node_key_def region_key_def split: node_type.splits)
    define d1 where "d1 = start_metrics nm t0 m0 (pn_data c)"
    have d1: "nd_type d1 = NODE_REGULAR_REGION" "td_handle (nd_data d1) = r"
      using cd by (simp_all add: d1_def start_metrics_def)
    define loc1 where "loc1 = \<lparr>loc_node = PNode d1 (pn_children c),
       loc_path = (pn_data (loc_node loc), rest) # loc_path loc, loc_valid = True, loc_depth = loc_depth loc + 1\<rparr>"
    have e: "profile_step nm (Enter_Region r t0 m0) (pr, loc) = Some (pr, loc1)"
      using enter_step [of pr loc nm m0 r t0 c rest] Call.prems fc True
      by (simp add: can_run_def loc1_def d1_def)
    have sub: "\<exists>cs2. profile_run nm (concat (map call_events cs)) (pr', with_children loc1 cs1)
          = Some (note_depth pr' (loc_depth loc + 1 + calls_height cs), with_children loc1 cs2) \<and> children_ok nm cs2"
      if "set cs \<subseteq> set calls" "can_run nm pr' (with_children loc1 cs1) (calls_height cs)" for cs pr' cs1
      using that
    proof (induction cs arbitrary: pr' cs1)
      case Nil
      then have "note_depth pr' (loc_depth loc + 1) = pr'"
        by (simp add: note_depth_def can_run_def with_children_def loc1_def)
      then show ?case using Nil by (auto simp: can_run_def with_children_def)
    next
      case (Cons c' cs)
      have d: "loc_depth (with_children loc1 cs0) = loc_depth loc + 1" for cs0
        by (simp add: with_children_def loc1_def)
      have "can_run nm pr' (with_children loc1 cs1) (call_height c')"
        using Cons.prems(2) by (auto simp: can_run_def)
      then obtain cs3 where 1: "profile_run nm (call_events c') (pr', with_children loc1 cs1)
          = Some (note_depth pr' (loc_depth loc + 1 + call_height c'), with_children loc1 cs3)" "children_ok nm cs3"
        using Call.IH [of c' pr' "with_children loc1 cs1"] Cons.prems(1) Call.prems(2) d by auto
      have 2: "can_run nm (note_depth pr' (loc_depth loc + 1 + call_height c')) (with_children loc1 cs3) (calls_height cs)"
        using Cons.prems(2) 1(2) by (auto simp: can_run_def with_children_def)
      have "set cs \<subseteq> set calls" using Cons.prems(1) by simp
      from Cons.IH [OF this 2] obtain cs2 where "profile_run nm (concat (map call_events cs))
            (note_depth pr' (loc_depth loc + 1 + call_height c'), with_children loc1 cs3)
          = Some (note_depth (note_depth pr' (loc_depth loc + 1 + call_height c')) (loc_depth loc + 1 + calls_height cs),
              with_children loc1 cs2)" "children_ok nm cs2"
        by blast
      then show ?case using 1(1)
        by (auto simp: profile_run_append note_depth_twice nat_add_max_right simp del: with_children_simps)
    qed
    have "can_run nm pr (with_children loc1 (pn_children c)) (calls_height calls)"
      using Call.prems(1) d1(1) True children_ok_pn [OF c(1,2)]
      by (simp add: can_run_def loc1_def with_children_def)
    moreover have "with_children loc1 (pn_children c) = loc1" by (simp add: with_children_def loc1_def)
    ultimately obtain cs2 where s: "profile_run nm (concat (map call_events calls)) (pr, loc1)
        = Some (note_depth pr (loc_depth loc + 1 + calls_height calls), with_children loc1 cs2)" "children_ok nm cs2"
      using sub [OF order_refl] by metis
    let ?cs' = "PNode (visit nm t0 m0 t1 m1 (pn_data c)) cs2 # rest"
    have x: "profile_step nm (Exit_Region r t1 m1) (pr', with_children loc1 cs2) = Some (pr', with_children loc ?cs')"
      if "pr_initialized pr'" for pr'
      using that exit_step [OF _ d1, of pr' nm m1 "loc_depth loc" t1 cs2] Call.prems
      by (simp add: can_run_def loc1_def with_children_def visit_def d1_def)
    have "profile_run nm (call_events (Call r t0 m0 calls t1 m1)) (pr, loc)
        = Some (note_depth pr (loc_depth loc + 1 + calls_height calls), with_children loc ?cs')"
      using e s(1) x pri by (simp add: profile_run_append del: profile_step.simps)
    moreover have "children_ok nm ?cs'" using replace_child_ok [OF ok fc s(2)] .
    ultimately show ?thesis by auto
  qed
qed

section \<open>Properties\<close>

text \<open>
  C2. Within the depth limit, properly nested calls can always be recorded: the location returns to
  the node and depth it had, and for every callpath below it and every channel, time or metric, the
  count, sum, sum of squares, minimum and maximum are the previous ones extended by exactly the
  values of the calls with this callpath, in order.
\<close>

lemma profile_statistics:
  assumes "pr_initialized pr" "loc_valid loc" "nd_type (pn_data (loc_node loc)) \<noteq> NODE_COLLAPSE"
    and "loc_depth loc + calls_height calls \<le> pr_max_callpath_depth pr" "pr_max_callpath_depth pr < 2 ^ 32"
    and "children_ok nm (pn_children (loc_node loc))" "\<forall>c \<in> set calls. call_metrics_ok nm c"
  shows "\<exists>cs'. profile_run nm (concat (map call_events calls)) (pr, loc) = Some (pr, with_children loc cs')
    \<and> (\<forall>ch p. channel_ok nm ch \<longrightarrow> p \<noteq> []
         \<longrightarrow> summary ch (lookup cs' p)
           = extend (summary ch (lookup (pn_children (loc_node loc)) p)) (call_samples ch calls p))"
proof -
  have "can_record nm pr loc (fold max (map call_height calls) 0)"
    using assms(1-6) by (simp add: can_record_def calls_height_def)
  from run_calls [OF run_call this assms(7)] show ?thesis by (auto simp: recorded_def)
qed

text \<open>A fresh location with one metric; region 7 calls region 8 twice.\<close>

definition fresh_location :: profile_location where
  "fresh_location = \<lparr>loc_node = create_node 1 NODE_THREAD_ROOT \<lparr>td_handle = 0, td_value = 0\<rparr> 5,
     loc_path = [], loc_valid = True, loc_depth = 0\<rparr>"

definition fresh_profile :: "nat \<Rightarrow> profile_definition" where
  "fresh_profile limit = \<lparr>pr_initialized = True, pr_has_collapse_node = False, pr_reached_depth = 0,
     pr_max_callpath_depth = limit\<rparr>"

definition example_calls :: "call list" where
  "example_calls = [Call 7 10 None [Call 8 11 None [] 13 None, Call 8 15 (Some [3]) [] 20 (Some [9])] 30 None]"

lemma fresh_location_ok: "children_ok 1 (pn_children (loc_node fresh_location))"
  by (simp add: fresh_location_def create_node_def children_ok_def wf_children_def)

lemma example_calls_ok: "\<forall>c \<in> set example_calls. call_metrics_ok 1 c" "calls_height example_calls = 2"
  by (simp_all add: example_calls_def metrics_ok_def)

theorem profile_statistics_witness:
  "\<exists>cs'. profile_run 1 (concat (map call_events example_calls)) (fresh_profile 30, fresh_location)
      = Some (fresh_profile 30, with_children fresh_location cs')
    \<and> summary Time (lookup cs' [region_key 7, region_key 8])
      = (2, foldl add_sample init_dense_metric [2, 5])"
proof -
  obtain cs' where 1: "profile_run 1 (concat (map call_events example_calls)) (fresh_profile 30, fresh_location)
      = Some (fresh_profile 30, with_children fresh_location cs')"
    and 2: "\<forall>ch p. channel_ok 1 ch \<longrightarrow> p \<noteq> [] \<longrightarrow> summary ch (lookup cs' p)
      = extend (summary ch (lookup (pn_children (loc_node fresh_location)) p)) (call_samples ch example_calls p)"
    using profile_statistics [OF _ _ _ _ _ fresh_location_ok example_calls_ok(1), of "fresh_profile 30"] example_calls_ok(2)
    by (auto simp: fresh_profile_def fresh_location_def create_node_def)
  have "summary Time (lookup cs' [region_key 7, region_key 8])
      = extend (summary Time (lookup (pn_children (loc_node fresh_location)) [region_key 7, region_key 8]))
          (call_samples Time example_calls [region_key 7, region_key 8])"
    using 2 by (simp del: lookup.simps call_samples.simps)
  also have "lookup (pn_children (loc_node fresh_location)) [region_key 7, region_key 8] = None"
    by (simp add: fresh_location_def create_node_def)
  also have "extend (summary Time None) (call_samples Time example_calls [region_key 7, region_key 8])
      = (2, foldl add_sample init_dense_metric [2, 5])"
    by (simp add: extend_def example_calls_def region_key_def)
  finally show ?thesis using 1 by blast
qed

text \<open>
  C18. Properly nested calls of any depth return the location to its node and depth. Callpaths above
  the limit end in collapse nodes: the profile notes the greatest depth reached, and in the tree
  that results siblings still differ in type or data.
\<close>

lemma profile_calls_balanced:
  assumes "pr_initialized pr" "loc_valid loc" "nd_type (pn_data (loc_node loc)) \<noteq> NODE_COLLAPSE"
    and "loc_depth loc \<le> pr_max_callpath_depth pr" "loc_depth loc + call_height c < 2 ^ 32"
    and "children_ok nm (pn_children (loc_node loc))" "call_metrics_ok nm c"
  shows "\<exists>cs'. profile_run nm (call_events c) (pr, loc)
      = Some (note_depth pr (loc_depth loc + call_height c), with_children loc cs')
    \<and> children_ok nm cs'"
  using balanced_call [of nm pr loc c] assms by (simp add: can_run_def)

theorem profile_calls_balanced_witness:
  "\<exists>cs'. profile_run 1 (call_events (hd example_calls)) (fresh_profile 1, fresh_location)
      = Some (\<lparr>pr_initialized = True, pr_has_collapse_node = True, pr_reached_depth = 2,
          pr_max_callpath_depth = 1\<rparr>, with_children fresh_location cs')
    \<and> children_ok 1 cs'"
proof -
  have "call_height (hd example_calls) = 2" "call_metrics_ok 1 (hd example_calls)"
    by (simp_all add: example_calls_def metrics_ok_def)
  moreover have "note_depth (fresh_profile 1) (loc_depth fresh_location + 2)
      = \<lparr>pr_initialized = True, pr_has_collapse_node = True, pr_reached_depth = 2, pr_max_callpath_depth = 1\<rparr>"
    by (simp add: note_depth_def fresh_profile_def fresh_location_def)
  moreover have "pr_initialized (fresh_profile 1)" "loc_valid fresh_location"
    "nd_type (pn_data (loc_node fresh_location)) \<noteq> NODE_COLLAPSE"
    "loc_depth fresh_location \<le> pr_max_callpath_depth (fresh_profile 1)" "loc_depth fresh_location + 2 < 2 ^ 32"
    by (simp_all add: fresh_profile_def fresh_location_def create_node_def)
  ultimately show ?thesis
    using profile_calls_balanced [of "fresh_profile 1" fresh_location "hd example_calls" 1, OF _ _ _ _ _ fresh_location_ok]
    by metis
qed



end
