(* ===== verification/Scorep_Jenkins.thy ===== *)
theory Scorep_Jenkins
  imports Scorep_Prelude
begin

text \<open>
  The hash functions for byte and word arrays, \<open>src/common/hash/jenkins_hash.c\<close> and
  \<open>jenkins_hash.h\<close>, on a little-endian machine (\<open>WORDS_BIGENDIAN\<close> not defined).

  A byte pointer is the function of the bytes that follow it: \<open>k i\<close> is \<open>k[i]\<close>, and
  \<open>k + 12\<close> is \<open>\<lambda>i. k (i + 12)\<close>. A read of two or four bytes at an aligned address is
  \<open>read16\<close> and \<open>read32\<close>. The fall-through cases of a \<open>switch\<close> are additions under
  a condition on the remaining length.
\<close>

section \<open>Mixing\<close>

definition rot :: "u32 \<Rightarrow> nat \<Rightarrow> u32" where
  "rot x k = push_bit k x OR drop_bit (32 - k) x"

definition mix :: "u32 \<times> u32 \<times> u32 \<Rightarrow> u32 \<times> u32 \<times> u32" where
  "mix = (\<lambda>(a, b, c).
     let a = a - c; a = a XOR rot c 4; c = c + b;
         b = b - a; b = b XOR rot a 6; a = a + c;
         c = c - b; c = c XOR rot b 8; b = b + a;
         a = a - c; a = a XOR rot c 16; c = c + b;
         b = b - a; b = b XOR rot a 19; a = a + c;
         c = c - b; c = c XOR rot b 4; b = b + a
     in (a, b, c))"

definition final_mix :: "u32 \<times> u32 \<times> u32 \<Rightarrow> u32 \<times> u32 \<times> u32" where
  "final_mix = (\<lambda>(a, b, c).
     let c = c XOR b; c = c - rot b 14;
         a = a XOR c; a = a - rot c 11;
         b = b XOR a; b = b - rot a 25;
         c = c XOR b; c = c - rot b 16;
         a = a XOR c; a = a - rot c 4;
         b = b XOR a; b = b - rot a 14;
         c = c XOR b; c = c - rot b 24
     in (a, b, c))"

section \<open>Hashing bytes\<close>

type_synonym bytes = "nat \<Rightarrow> u8"

definition byte :: "bytes \<Rightarrow> nat \<Rightarrow> u32" where
  "byte k i = ucast (k i)"

definition shifted_byte :: "bytes \<Rightarrow> nat \<Rightarrow> nat \<Rightarrow> u32" where
  "shifted_byte k i n = push_bit n (byte k i)"

definition advance :: "bytes \<Rightarrow> nat \<Rightarrow> bytes" where
  "advance k n = (\<lambda>i. k (i + n))"

definition block8 :: "bytes \<Rightarrow> u32 \<times> u32 \<times> u32 \<Rightarrow> u32 \<times> u32 \<times> u32" where
  "block8 k = (\<lambda>(a, b, c).
     let a = a + byte k 0; a = a + shifted_byte k 1 8; a = a + shifted_byte k 2 16; a = a + shifted_byte k 3 24;
         b = b + byte k 4; b = b + shifted_byte k 5 8; b = b + shifted_byte k 6 16; b = b + shifted_byte k 7 24;
         c = c + byte k 8; c = c + shifted_byte k 9 8; c = c + shifted_byte k 10 16; c = c + shifted_byte k 11 24
     in (a, b, c))"

definition tail8 :: "bytes \<Rightarrow> nat \<Rightarrow> u32 \<times> u32 \<times> u32 \<Rightarrow> u32 \<times> u32 \<times> u32" where
  "tail8 k len = (\<lambda>(a, b, c).
     let c = (if len \<ge> 12 then c + shifted_byte k 11 24 else c);
         c = (if len \<ge> 11 then c + shifted_byte k 10 16 else c);
         c = (if len \<ge> 10 then c + shifted_byte k 9 8 else c);
         c = (if len \<ge> 9 then c + byte k 8 else c);
         b = (if len \<ge> 8 then b + shifted_byte k 7 24 else b);
         b = (if len \<ge> 7 then b + shifted_byte k 6 16 else b);
         b = (if len \<ge> 6 then b + shifted_byte k 5 8 else b);
         b = (if len \<ge> 5 then b + byte k 4 else b);
         a = (if len \<ge> 4 then a + shifted_byte k 3 24 else a);
         a = (if len \<ge> 3 then a + shifted_byte k 2 16 else a);
         a = (if len \<ge> 2 then a + shifted_byte k 1 8 else a);
         a = (if len \<ge> 1 then a + byte k 0 else a)
     in (a, b, c))"

text \<open>The loop over the blocks of twelve bytes, for any way to read one.\<close>

function block_loop ::
    "(bytes \<Rightarrow> u32 \<times> u32 \<times> u32 \<Rightarrow> u32 \<times> u32 \<times> u32) \<Rightarrow> bytes \<Rightarrow> nat \<Rightarrow> u32 \<times> u32 \<times> u32
     \<Rightarrow> bytes \<times> nat \<times> u32 \<times> u32 \<times> u32" where
  "block_loop block k len s =
     (if len > 12 then block_loop block (advance k 12) (len - 12) (mix (block k s)) else (k, len, s))"
  by pat_completeness auto
termination by (relation "measure (\<lambda>(block, k, len, s). len)") auto

declare block_loop.simps [simp del]

definition jenkins_hashlittle :: "bytes \<Rightarrow> nat \<Rightarrow> u32 \<Rightarrow> u32" where
  "jenkins_hashlittle key len initval =
     (let a = 0xdeadbeef + of_nat len + initval;
          (k, len, a, b, c) = block_loop block8 key len (a, a, a)
      in if len = 0 then c
         else (let (a, b, c) = final_mix (tail8 k len (a, b, c)) in c))"

definition jenkins_hash :: "u8 list \<Rightarrow> u32 \<Rightarrow> u32" where
  "jenkins_hash key initval = jenkins_hashlittle (\<lambda>i. key ! i) (length key) initval"

section \<open>Two hashes, with reads by alignment\<close>

definition read16 :: "bytes \<Rightarrow> nat \<Rightarrow> u32" where
  "read16 k i = byte k (2 * i) OR push_bit 8 (byte k (2 * i + 1))"

definition read32 :: "bytes \<Rightarrow> nat \<Rightarrow> u32" where
  "read32 k i = byte k (4 * i) OR push_bit 8 (byte k (4 * i + 1)) OR push_bit 16 (byte k (4 * i + 2))
     OR push_bit 24 (byte k (4 * i + 3))"

definition block32 :: "bytes \<Rightarrow> u32 \<times> u32 \<times> u32 \<Rightarrow> u32 \<times> u32 \<times> u32" where
  "block32 k = (\<lambda>(a, b, c). (a + read32 k 0, b + read32 k 1, c + read32 k 2))"

definition tail32 :: "bytes \<Rightarrow> nat \<Rightarrow> u32 \<times> u32 \<times> u32 \<Rightarrow> u32 \<times> u32 \<times> u32" where
  "tail32 k len = (\<lambda>(a, b, c).
     if len = 12 then (a + read32 k 0, b + read32 k 1, c + read32 k 2)
     else if len = 11 then (a + read32 k 0, b + read32 k 1, c + (read32 k 2 AND 0xffffff))
     else if len = 10 then (a + read32 k 0, b + read32 k 1, c + (read32 k 2 AND 0xffff))
     else if len = 9 then (a + read32 k 0, b + read32 k 1, c + (read32 k 2 AND 0xff))
     else if len = 8 then (a + read32 k 0, b + read32 k 1, c)
     else if len = 7 then (a + read32 k 0, b + (read32 k 1 AND 0xffffff), c)
     else if len = 6 then (a + read32 k 0, b + (read32 k 1 AND 0xffff), c)
     else if len = 5 then (a + read32 k 0, b + (read32 k 1 AND 0xff), c)
     else if len = 4 then (a + read32 k 0, b, c)
     else if len = 3 then (a + (read32 k 0 AND 0xffffff), b, c)
     else if len = 2 then (a + (read32 k 0 AND 0xffff), b, c)
     else if len = 1 then (a + (read32 k 0 AND 0xff), b, c)
     else (a, b, c))"

definition two16 :: "bytes \<Rightarrow> nat \<Rightarrow> u32" where
  "two16 k i = read16 k i + push_bit 16 (read16 k (i + 1))"

definition block16 :: "bytes \<Rightarrow> u32 \<times> u32 \<times> u32 \<Rightarrow> u32 \<times> u32 \<times> u32" where
  "block16 k = (\<lambda>(a, b, c). (a + two16 k 0, b + two16 k 2, c + two16 k 4))"

definition tail16 :: "bytes \<Rightarrow> nat \<Rightarrow> u32 \<times> u32 \<times> u32 \<Rightarrow> u32 \<times> u32 \<times> u32" where
  "tail16 k len = (\<lambda>(a, b, c).
     if len = 12 then (a + two16 k 0, b + two16 k 2, c + two16 k 4)
     else if len = 11 then (a + two16 k 0, b + two16 k 2, c + shifted_byte k 10 16 + read16 k 4)
     else if len = 10 then (a + two16 k 0, b + two16 k 2, c + read16 k 4)
     else if len = 9 then (a + two16 k 0, b + two16 k 2, c + byte k 8)
     else if len = 8 then (a + two16 k 0, b + two16 k 2, c)
     else if len = 7 then (a + two16 k 0, b + shifted_byte k 6 16 + read16 k 2, c)
     else if len = 6 then (a + two16 k 0, b + read16 k 2, c)
     else if len = 5 then (a + two16 k 0, b + byte k 4, c)
     else if len = 4 then (a + two16 k 0, b, c)
     else if len = 3 then (a + shifted_byte k 2 16 + read16 k 0, b, c)
     else if len = 2 then (a + read16 k 0, b, c)
     else if len = 1 then (a + byte k 0, b, c)
     else (a, b, c))"

text \<open>\<open>address\<close> is the address of the key; the result is \<open>*pc\<close> and \<open>*pb\<close>.\<close>

definition jenkins_hashlittle2 :: "nat \<Rightarrow> bytes \<Rightarrow> nat \<Rightarrow> u32 \<Rightarrow> u32 \<Rightarrow> u32 \<times> u32" where
  "jenkins_hashlittle2 address key len pc pb =
     (let a = 0xdeadbeef + of_nat len + pc;
          block = (if address mod 4 = 0 then block32 else if address mod 2 = 0 then block16 else block8);
          tail = (if address mod 4 = 0 then tail32 else if address mod 2 = 0 then tail16 else tail8);
          (k, len, a, b, c) = block_loop block key len (a, a, a + pb)
      in if len = 0 then (c, b)
         else (let (a, b, c) = final_mix (tail k len (a, b, c)) in (c, b)))"

section \<open>Hashing words\<close>

fun word_loop :: "u32 list \<Rightarrow> u32 \<times> u32 \<times> u32 \<Rightarrow> u32 list \<times> u32 \<times> u32 \<times> u32" where
  "word_loop (k0 # k1 # k2 # k3 # ks) (a, b, c) = word_loop (k3 # ks) (mix (a + k0, b + k1, c + k2))"
| "word_loop ks (a, b, c) = (ks, a, b, c)"

definition word_tail :: "u32 list \<Rightarrow> u32 \<times> u32 \<times> u32 \<Rightarrow> u32 \<times> u32 \<times> u32" where
  "word_tail ks = (\<lambda>(a, b, c).
     let c = (if length ks \<ge> 3 then c + ks ! 2 else c);
         b = (if length ks \<ge> 2 then b + ks ! 1 else b);
         a = (if length ks \<ge> 1 then a + ks ! 0 else a)
     in if ks = [] then (a, b, c) else final_mix (a, b, c))"

definition jenkins_hashword :: "u32 list \<Rightarrow> u32 \<Rightarrow> u32" where
  "jenkins_hashword k initval =
     (let a = 0xdeadbeef + push_bit 2 (of_nat (length k)) + initval;
          (ks, s) = word_loop k (a, a, a); (a, b, c) = word_tail ks s in c)"

definition jenkins_hashword2 :: "u32 list \<Rightarrow> u32 \<Rightarrow> u32 \<Rightarrow> u32 \<times> u32" where
  "jenkins_hashword2 k pc pb =
     (let a = 0xdeadbeef + of_nat (push_bit 2 (length k)) + pc;
          (ks, s) = word_loop k (a, a, a + pb); (a, b, c) = word_tail ks s in (c, b))"

section \<open>Equal reads\<close>

lemma bit_byte: "bit (byte k i) n \<longleftrightarrow> n < 8 \<and> bit (k i) n"
  by (auto simp: byte_def bit_ucast_iff dest: bit_imp_le_length)

lemma plus_disjoint: "(\<And>n. \<not> bit x n \<or> \<not> bit y n) \<Longrightarrow> x + y = x OR (y :: u32)"
  by (rule disjunctive_add) auto

lemmas byte_bits = bit_byte bit_or_iff bit_and_iff bit_push_bit_iff

lemma read16_sum: "read16 k i = byte k (2 * i) + shifted_byte k (2 * i + 1) 8"
  unfolding read16_def shifted_byte_def by (rule plus_disjoint [symmetric]) (auto simp: byte_bits)

lemma read16_le: "bit (read16 k i) n \<Longrightarrow> n < 16"
  by (auto simp: read16_def byte_bits)

lemma read32_split: "read32 k i = read16 k (2 * i) + push_bit 16 (read16 k (2 * i + 1))"
proof -
  have "read16 k (2 * i) + push_bit 16 (read16 k (2 * i + 1))
      = read16 k (2 * i) OR push_bit 16 (read16 k (2 * i + 1))"
    by (rule plus_disjoint) (auto simp: bit_push_bit_iff dest: read16_le)
  also have "\<dots> = read32 k i"
    by (simp add: read16_def read32_def push_bit_or or.assoc numeral_3_eq_3)
  finally show ?thesis by simp
qed

lemma read32_low:
  "read32 k i AND 0xff = byte k (4 * i)"
  "read32 k i AND 0xffff = read16 k (2 * i)"
  "read32 k i AND 0xffffff = read16 k (2 * i) + shifted_byte k (4 * i + 2) 16"
proof -
  have m: "(0xff :: u32) = mask 8" "(0xffff :: u32) = mask 16" "(0xffffff :: u32) = mask 24"
    by (simp_all add: mask_eq_exp_minus_1)
  show "read32 k i AND 0xff = byte k (4 * i)" "read32 k i AND 0xffff = read16 k (2 * i)"
    unfolding m by (rule bit_word_eqI; auto simp: read32_def read16_def byte_bits bit_mask_iff)+
  have "read16 k (2 * i) + shifted_byte k (4 * i + 2) 16 = read16 k (2 * i) OR shifted_byte k (4 * i + 2) 16"
    by (rule plus_disjoint) (auto simp: shifted_byte_def byte_bits dest: read16_le)
  moreover have "read32 k i AND 0xffffff = read16 k (2 * i) OR shifted_byte k (4 * i + 2) 16"
    unfolding m shifted_byte_def
    by (rule bit_word_eqI; auto simp: read32_def read16_def byte_bits bit_mask_iff)
  ultimately show "read32 k i AND 0xffffff = read16 k (2 * i) + shifted_byte k (4 * i + 2) 16" by simp
qed

lemma push_plus: "push_bit n (x + y) = push_bit n x + push_bit n (y :: u32)"
  by (simp add: push_bit_eq_mult distrib_right)

lemma two16_sum: "two16 k (2 * i) = read32 k i"
  by (simp add: two16_def read32_split)

lemma read32_sum: "read32 k i = byte k (4 * i) + shifted_byte k (4 * i + 1) 8 + shifted_byte k (4 * i + 2) 16
     + shifted_byte k (4 * i + 3) 24"
  by (simp add: read32_split read16_sum shifted_byte_def push_plus push_bit_push_bit add.assoc numeral_3_eq_3)

lemmas keep_numerals = One_nat_def add_2_eq_Suc add_2_eq_Suc'

lemma reads_sum:
  "read32 k 0 = byte k 0 + shifted_byte k 1 8 + shifted_byte k 2 16 + shifted_byte k 3 24"
  "read32 k 1 = byte k 4 + shifted_byte k 5 8 + shifted_byte k 6 16 + shifted_byte k 7 24"
  "read32 k 2 = byte k 8 + shifted_byte k 9 8 + shifted_byte k 10 16 + shifted_byte k 11 24"
  "read16 k 0 = byte k 0 + shifted_byte k 1 8"
  "read16 k 2 = byte k 4 + shifted_byte k 5 8"
  "read16 k 4 = byte k 8 + shifted_byte k 9 8"
  using read32_sum [of k 0] read32_sum [of k 1] read32_sum [of k 2] read16_sum [of k 0] read16_sum [of k 2]
    read16_sum [of k 4] by (simp_all del: keep_numerals)

lemma two16_reads: "two16 k 0 = read32 k 0" "two16 k 2 = read32 k 1" "two16 k 4 = read32 k 2"
  using two16_sum [of k 0] two16_sum [of k 1] two16_sum [of k 2] by (simp_all del: keep_numerals)

lemma low_reads:
  "read32 k 0 AND 0xff = byte k 0" "read32 k 0 AND 0xffff = read16 k 0"
  "read32 k 0 AND 0xffffff = read16 k 0 + shifted_byte k 2 16"
  "read32 k 1 AND 0xff = byte k 4" "read32 k 1 AND 0xffff = read16 k 2"
  "read32 k 1 AND 0xffffff = read16 k 2 + shifted_byte k 6 16"
  "read32 k 2 AND 0xff = byte k 8" "read32 k 2 AND 0xffff = read16 k 4"
  "read32 k 2 AND 0xffffff = read16 k 4 + shifted_byte k 10 16"
  using read32_low [of k 0] read32_low [of k 1] read32_low [of k 2] by (simp_all del: keep_numerals)

lemma block32_bytes: "block32 k = block8 k"
  by (rule ext) (simp add: block32_def block8_def Let_def split_beta reads_sum add.assoc del: keep_numerals)

lemma block16_32: "block16 k = block32 k"
  by (simp add: block16_def block32_def two16_reads del: keep_numerals)

lemma len_cases: "len \<le> 12 \<Longrightarrow> len \<in> {0, 1, 2, 3, 4, 5, 6, 7, 8, 9, 10, 11, 12::nat}"
  by simp presburger

lemma tail32_bytes: "len \<le> 12 \<Longrightarrow> tail32 k len s = tail8 k len s"
  by (cases s; drule len_cases; elim insertE emptyE; simp only:;
    simp add: tail32_def tail8_def Let_def low_reads del: keep_numerals;
    simp add: reads_sum ac_simps del: keep_numerals)

lemma tail16_bytes: "len \<le> 12 \<Longrightarrow> tail16 k len s = tail8 k len s"
  by (cases s; drule len_cases; elim insertE emptyE; simp only:;
    simp add: tail16_def tail8_def Let_def two16_reads del: keep_numerals;
    simp add: reads_sum ac_simps del: keep_numerals)

lemma block_loop_len: "block_loop block k len s = (k', len', s') \<Longrightarrow> len' \<le> 12 \<and> (len' = 0 \<longleftrightarrow> len = 0)"
proof (induction block k len s rule: block_loop.induct)
  case (1 block k len s)
  then show ?case by (cases "len > 12") (auto simp: block_loop.simps [of block k len])
qed

section \<open>Words are bytes\<close>

definition word_bytes :: "u32 list \<Rightarrow> bytes" where
  "word_bytes ws i = ucast (drop_bit (8 * (i mod 4)) (ws ! (i div 4)))"

lemma read32_word_bytes: "read32 (word_bytes ws) i = ws ! i"
proof (rule bit_word_eqI)
  fix n :: nat
  assume "n < LENGTH(32)"
  then have n: "n < 32" by simp
  have d: "(4 * i) mod 4 = 0" "(4 * i) div 4 = i" "(4 * i + 1) mod 4 = 1" "(4 * i + 1) div 4 = i"
    "(4 * i + 2) mod 4 = 2" "(4 * i + 2) div 4 = i" "(4 * i + 3) mod 4 = 3" "(4 * i + 3) div 4 = i" by presburger+
  have b: "bit (byte (word_bytes ws) j) m \<longleftrightarrow> m < 8 \<and> bit (ws ! (j div 4)) (8 * (j mod 4) + m)" for j m
    by (auto simp: byte_def word_bytes_def bit_ucast_iff bit_drop_bit_eq dest: bit_imp_le_length)
  consider "n < 8" | "8 \<le> n" "n < 16" | "16 \<le> n" "n < 24" | "24 \<le> n" using n by linarith
  then show "bit (read32 (word_bytes ws) i) n \<longleftrightarrow> bit (ws ! i) n"
    using n by cases (auto simp: read32_def bit_or_iff bit_push_bit_iff b d simp del: keep_numerals)
qed

lemma advance_word_bytes: "3 \<le> length ws \<Longrightarrow> advance (word_bytes ws) 12 = word_bytes (drop 3 ws)"
proof (rule ext)
  fix i :: nat
  assume "3 \<le> length ws"
  moreover have "(i + 12) div 4 = i div 4 + 3" "(i + 12) mod 4 = i mod 4" by presburger+
  ultimately show "advance (word_bytes ws) 12 i = word_bytes (drop 3 ws) i"
    by (simp add: advance_def word_bytes_def add.commute)
qed

lemma word_loop_blocks:
  "block_loop block32 (word_bytes ws) (4 * length ws) s =
     (let (ks, s') = word_loop ws s in (word_bytes ks, 4 * length ks, s'))"
proof (induction ws s rule: word_loop.induct)
  case (1 k0 k1 k2 k3 ks a b c)
  have "block32 (word_bytes (k0 # k1 # k2 # k3 # ks)) (a, b, c) = (a + k0, b + k1, c + k2)"
    by (simp add: block32_def read32_word_bytes)
  then show ?case
    using 1 advance_word_bytes [of "k0 # k1 # k2 # k3 # ks"]
    by (subst block_loop.simps) (simp add: split_beta Let_def)
qed (simp_all add: block_loop.simps)

lemma word_loop_length: "length (fst (word_loop ws s)) \<le> 3 \<and> (fst (word_loop ws s) = [] \<longleftrightarrow> ws = [])"
  by (induction ws s rule: word_loop.induct) auto

lemma word_tail_bytes:
  assumes "length ks \<le> 3" "ks \<noteq> []"
  shows "word_tail ks s = final_mix (tail32 (word_bytes ks) (4 * length ks) s)"
proof -
  have "length ks \<noteq> 0" using assms(2) by simp
  then have "length ks \<in> {1, 2, 3}" using assms(1) by (simp only: insert_iff empty_iff) linarith
  then show ?thesis
    using assms(2) by (cases s) (auto simp: word_tail_def tail32_def read32_word_bytes Let_def)
qed

lemma jenkins_hashlittle2_bytes:
  "jenkins_hashlittle2 address k len pc pb = jenkins_hashlittle2 1 k len pc pb"
proof -
  let ?a = "0xdeadbeef + of_nat len + pc"
  obtain k' len' s where l: "block_loop block8 k len (?a, ?a, ?a + pb) = (k', len', s)"
    by (cases "block_loop block8 k len (?a, ?a, ?a + pb)") auto
  have "len' \<le> 12" using block_loop_len [OF l] by simp
  then have "tail32 k' len' s = tail8 k' len' s" "tail16 k' len' s = tail8 k' len' s"
    using tail32_bytes tail16_bytes by blast+
  moreover have "block32 = block8" "block16 = block8"
    using block32_bytes block16_32 by (auto intro!: ext simp: fun_eq_iff)
  ultimately show ?thesis using l by (cases s) (simp add: jenkins_hashlittle2_def Let_def)
qed

lemma jenkins_hashlittle2_first: "jenkins_hashlittle k len initval = fst (jenkins_hashlittle2 1 k len initval 0)"
  by (simp add: jenkins_hashlittle_def jenkins_hashlittle2_def Let_def split: prod.splits)

lemma block_loop_bytes_only:
  assumes "\<forall>i < len. k i = k' i"
  shows "block_loop block8 k len s = (j, n, t) \<Longrightarrow> \<exists>j'. block_loop block8 k' len s = (j', n, t) \<and> n \<le> len \<and> (\<forall>i < n. j i = j' i)"
  using assms
proof (induction block8 k len s arbitrary: k' rule: block_loop.induct)
  case (1 k len s)
  show ?case
  proof (cases "len > 12")
    case True
    have "byte k i = byte k' i" if "i < 12" for i using 1(3) True that by (simp add: byte_def)
    then have "block8 k s = block8 k' s"
      by (cases s) (simp add: block8_def shifted_byte_def Let_def)
    moreover have "\<forall>i < len - 12. advance k 12 i = advance k' 12 i" using 1(3) True by (simp add: advance_def)
    ultimately show ?thesis using 1(1) [OF True, of "advance k' 12"] 1(2) True
      by (fastforce simp: block_loop.simps [of _ k] block_loop.simps [of _ k'])
  next
    case False
    then show ?thesis using 1 by (auto simp: block_loop.simps)
  qed
qed

section \<open>Properties\<close>

text \<open>
  C39. On a little-endian machine the three ways \<open>jenkins_hashlittle2\<close> reads its key, chosen by the
  alignment of the address, give the same two hashes, and with a zero second seed the first one is the hash of
  \<open>jenkins_hashlittle\<close>; it depends on the bytes of the key only, although the aligned reads
  load bytes behind its end.
\<close>

theorem hash_alignment_irrelevant:
  assumes "\<forall>i < len. k i = k' i"
  shows "jenkins_hashlittle2 address k len pc pb = jenkins_hashlittle2 address' k' len pc pb
    \<and> fst (jenkins_hashlittle2 address k len pc 0) = jenkins_hashlittle k' len pc"
proof -
  have *: "jenkins_hashlittle2 1 k len pc q = jenkins_hashlittle2 1 k' len pc q" for q
  proof -
    let ?a = "0xdeadbeef + of_nat len + pc"
    obtain j n a b c where l: "block_loop block8 k len (?a, ?a, ?a + q) = (j, n, a, b, c)"
      by (cases "block_loop block8 k len (?a, ?a, ?a + q)") auto
    obtain j' where r: "block_loop block8 k' len (?a, ?a, ?a + q) = (j', n, a, b, c)" "\<forall>i < n. j i = j' i"
      using block_loop_bytes_only [OF assms l] by auto
    have "tail8 j n (a, b, c) = tail8 j' n (a, b, c)"
      using r(2) by (simp add: tail8_def shifted_byte_def byte_def Let_def)
    then show ?thesis using l r(1) by (simp add: jenkins_hashlittle2_def Let_def)
  qed
  show ?thesis
    using jenkins_hashlittle2_bytes [of address k] jenkins_hashlittle2_bytes [of address' k']
    by (simp add: * jenkins_hashlittle2_first del: One_nat_def)
qed

theorem hash_alignment_irrelevant_witness:
  "jenkins_hashlittle2 64 (\<lambda>i. of_nat i) 7 3 5 = jenkins_hashlittle2 66 (\<lambda>i. if i < 7 then of_nat i else 9) 7 3 5"
  by (rule hash_alignment_irrelevant [THEN conjunct1]) simp

text \<open>
  Hashing an array of 32-bit words with \<open>jenkins_hashword\<close> gives the hash of its bytes by
  \<open>jenkins_hashlittle\<close>, and \<open>jenkins_hashword2\<close> with a zero second seed gives the same value.
\<close>

theorem hashword_is_hashlittle:
  "jenkins_hashword ws initval = jenkins_hashlittle (word_bytes ws) (4 * length ws) initval
    \<and> fst (jenkins_hashword2 ws initval 0) = jenkins_hashword ws initval"
proof -
  let ?a = "0xdeadbeef + of_nat (4 * length ws) + initval"
  have init: "push_bit 2 (of_nat (length ws)) = (of_nat (4 * length ws) :: u32)"
    "of_nat (push_bit 2 (length ws)) = (of_nat (4 * length ws) :: u32)"
    by (simp_all add: push_bit_eq_mult)
  obtain ks s where l: "word_loop ws (?a, ?a, ?a) = (ks, s)"
    by (cases "word_loop ws (?a, ?a, ?a)") auto
  then have kl: "length ks \<le> 3" "ks = [] \<longleftrightarrow> ws = []" using word_loop_length [of ws "(?a, ?a, ?a)"] by simp_all
  have "block_loop block32 (word_bytes ws) (4 * length ws) (?a, ?a, ?a) = (word_bytes ks, 4 * length ks, s)"
    using word_loop_blocks [of ws "(?a, ?a, ?a)"] l by simp
  then have "fst (jenkins_hashlittle2 4 (word_bytes ws) (4 * length ws) initval 0) = jenkins_hashword ws initval"
    using l kl word_tail_bytes [OF kl(1), of s] unfolding jenkins_hashword_def jenkins_hashlittle2_def init
    by (cases s) (auto simp: Let_def word_tail_def split: prod.splits)
  then show ?thesis
    using jenkins_hashlittle2_bytes [of 4 "word_bytes ws"] unfolding jenkins_hashlittle2_first
    by (simp add: jenkins_hashword_def jenkins_hashword2_def init Let_def split: prod.splits)
qed

end
