(* ===== verification/Scorep_Definitions.thy ===== *)
theory Scorep_Definitions
  imports Scorep_Jenkins
begin

text \<open>
  The definitions of a process, \<open>src/src/measurement/definitions\<close>: their types, the managers that
  hold them and the macros that add one, with the duplicate detection.

  A handle (\<open>SCOREP_AnyHandle\<close>, a movable offset) is a position in the memory of a page manager;
  0 is \<open>SCOREP_MOVABLE_NULL\<close>. The memory of a page manager is the list of the definitions allocated
  in it, so rolling back the last allocation drops the last item. Running out of memory ends the process
  and is not modelled. Page manager 0 is the one of this process, in which both of its definition managers
  live. The chain of a manager entry (\<open>head\<close>, \<open>next\<close>, \<open>tail\<close>) and the chains of its
  hash table (\<open>hash_next\<close>) are lists of handles. The lock around every operation makes it atomic.

  Enumerations and line numbers are 32-bit words, \<open>bool\<close> is \<open>bool\<close>. \<open>None\<close> is a failed
  assertion or an access through an invalid handle.
\<close>

section \<open>The definition types\<close>

text \<open>The handles of a definition are its type argument, so that \<open>map_\<dots>\<close> replaces them.\<close>

datatype 'h string_def = StringDef (string_data: string)

datatype 'h source_file_def = SourceFileDef (source_name: 'h)

datatype 'h parameter_def = ParameterDef (parameter_name: 'h) (parameter_type: u32)

datatype 'h attribute_def = AttributeDef (attribute_name: 'h) (attribute_description: 'h) (attribute_type: u32)

datatype 'h source_code_location_def = SourceCodeLocationDef (scl_file: 'h) (scl_line: u32)

datatype 'h system_tree_node_def = SystemTreeNodeDef (node_parent: 'h) (node_domains: u32) (node_name: 'h) (node_class: 'h)

datatype 'h node_property_def = NodePropertyDef (np_node: 'h) (np_name: 'h) (np_value: 'h)

datatype 'h location_group_def = LocationGroupDef (group_name: 'h) (group_tree_parent: 'h) (location_group_type: u32)
  (creating_group: 'h)

datatype 'h location_def = LocationDef (global_location_id: u64) (location_name: 'h) (location_type: u32)
  (location_paradigm: u32) (location_group: 'h) (number_of_events: u64)

datatype 'h location_property_def = LocationPropertyDef (lp_location: 'h) (lp_name: 'h) (lp_value: 'h)

datatype 'h region_def = RegionDef (region_name: 'h) (region_canonical_name: 'h) (region_description: 'h)
  (region_file: 'h) (begin_line: u32) (end_line: u32) (region_paradigm: u32) (region_type: u32) (region_group: 'h)

datatype 'h group_def = GroupDef (group_type: u32) (group_label: 'h) (group_members: "u64 list")

datatype 'h metric_def = MetricDef (metric_name: 'h) (metric_description: 'h) (source_type: u32) (metric_mode: u32)
  (value_type: u32) (metric_base: u32) (metric_exponent: u64) (metric_unit: 'h) (profiling_type: u32) (metric_parent: 'h)

datatype 'h sampling_set_def =
  SamplingSetDef (set_metrics: "'h list") (occurrence: u32) (set_class: u32)
| ScopedSamplingSetDef (scoped_set: 'h) (scoped_recorder: 'h) (scope_type: u32) (scope_handle: 'h)

datatype 'h recorder_def = RecorderDef (recorder_set: 'h) (recorder_location: 'h)

datatype 'h parameter_value = StringValue 'h | IntegerValue u64

datatype 'h callpath_parameter = CallpathParameter (parameter_handle: 'h) (parameter_value: "'h parameter_value")

datatype 'h callpath_def = CallpathDef (callpath_parent: 'h) (callpath_region: 'h)
  (callpath_parameters: "'h callpath_parameter list")

datatype 'h property_def = PropertyDef (property: u32) (condition: u32) (initial_value: bool) (invalidated: bool)

datatype 'h calling_context_def = CallingContextDef (ip: u64) (ip_offset: u64) (cc_file: 'h) (cc_region: 'h) (cc_scl: 'h)
  (cc_parent: 'h)

datatype 'h interrupt_generator_def = InterruptGeneratorDef (ig_name: 'h) (ig_mode: u32) (ig_base: u32) (ig_exponent: u64)
  (ig_period: u64)

datatype 'h interim_communicator_def = InterimCommunicatorDef (interim_name: 'h) (interim_parent: 'h) (interim_paradigm: u32)
  (rma_window_creation_counter: u32)

datatype 'h communicator_def = CommunicatorDef (group_a: 'h) (group_b: 'h) (communicator_name: 'h) (communicator_parent: 'h)
  (unify_key: u32) (communicator_flags: u32)

datatype 'h rma_window_def = RmaWindowDef (window_name: 'h) (window_communicator: 'h) (creation_id: u32)
  (has_default_name: bool) (window_flags: u32)

datatype 'h dimension = Dimension (n_processes: u32) (periodic: bool) (dimension_name: 'h)

datatype 'h topology_def = TopologyDef (topology_name: 'h) (topology_communicator: 'h) (topology_type: u32)
  (dimensions: "'h dimension list")

datatype 'h coords_def = CoordsDef (coords_topology: 'h) (coords_rank: u32) (coords_thread: u32) (coords: "u32 list")

datatype 'h io_file_def = IoFileDef (io_file_name: 'h) (io_scope: 'h)

datatype 'h io_file_property_def = IoFilePropertyDef (ifp_file: 'h) (ifp_name: 'h) (ifp_value: 'h)

datatype 'h io_handle_def = IoHandleDef (ioh_name: 'h) (ioh_file: 'h) (ioh_paradigm: u32) (ioh_flags: u32) (ioh_scope: 'h)
  (ioh_parent: 'h) (ioh_unify_key: u32) (ioh_access_mode: u32) (ioh_status_flags: u32) (is_completed: bool)

datatype 'h def_content =
  String "'h string_def" | SystemTreeNode "'h system_tree_node_def" | SystemTreeNodeProperty "'h node_property_def"
| LocationGroup "'h location_group_def" | Location "'h location_def" | LocationProperty "'h location_property_def"
| SourceFile "'h source_file_def" | Region "'h region_def" | Group "'h group_def"
| InterimCommunicator "'h interim_communicator_def" | Communicator "'h communicator_def" | RmaWindow "'h rma_window_def"
| Metric "'h metric_def" | SamplingSet "'h sampling_set_def" | SamplingSetRecorder "'h recorder_def"
| Parameter "'h parameter_def" | Callpath "'h callpath_def" | Property "'h property_def" | Attribute "'h attribute_def"
| CartesianTopology "'h topology_def" | CartesianCoords "'h coords_def"
| SourceCodeLocation "'h source_code_location_def" | CallingContext "'h calling_context_def"
| InterruptGenerator "'h interrupt_generator_def" | IoFile "'h io_file_def" | IoFileProperty "'h io_file_property_def"
| IoHandle "'h io_handle_def"

datatype def_kind =
  KString | KSystemTreeNode | KSystemTreeNodeProperty | KLocationGroup | KLocation | KLocationProperty | KSourceFile
| KRegion | KGroup | KInterimCommunicator | KCommunicator | KRmaWindow | KMetric | KSamplingSet | KSamplingSetRecorder
| KParameter | KCallpath | KProperty | KAttribute | KCartesianTopology | KCartesianCoords | KSourceCodeLocation
| KCallingContext | KInterruptGenerator | KIoFile | KIoFileProperty | KIoHandle

definition kind_of :: "'h def_content \<Rightarrow> def_kind" where
  "kind_of c = (case c of
     String _ \<Rightarrow> KString | SystemTreeNode _ \<Rightarrow> KSystemTreeNode | SystemTreeNodeProperty _ \<Rightarrow> KSystemTreeNodeProperty
   | LocationGroup _ \<Rightarrow> KLocationGroup | Location _ \<Rightarrow> KLocation | LocationProperty _ \<Rightarrow> KLocationProperty
   | SourceFile _ \<Rightarrow> KSourceFile | Region _ \<Rightarrow> KRegion | Group _ \<Rightarrow> KGroup
   | InterimCommunicator _ \<Rightarrow> KInterimCommunicator | Communicator _ \<Rightarrow> KCommunicator | RmaWindow _ \<Rightarrow> KRmaWindow
   | Metric _ \<Rightarrow> KMetric | SamplingSet _ \<Rightarrow> KSamplingSet | SamplingSetRecorder _ \<Rightarrow> KSamplingSetRecorder
   | Parameter _ \<Rightarrow> KParameter | Callpath _ \<Rightarrow> KCallpath | Property _ \<Rightarrow> KProperty | Attribute _ \<Rightarrow> KAttribute
   | CartesianTopology _ \<Rightarrow> KCartesianTopology | CartesianCoords _ \<Rightarrow> KCartesianCoords
   | SourceCodeLocation _ \<Rightarrow> KSourceCodeLocation | CallingContext _ \<Rightarrow> KCallingContext
   | InterruptGenerator _ \<Rightarrow> KInterruptGenerator | IoFile _ \<Rightarrow> KIoFile | IoFileProperty _ \<Rightarrow> KIoFileProperty
   | IoHandle _ \<Rightarrow> KIoHandle)"

type_synonym handle = nat

record def_object =
  content :: "handle def_content"
  unified :: handle
  def_hash :: u32
  sequence_number :: u32
  has_children :: bool
  chained :: "handle list"

record manager_entry =
  chain :: "handle list"
  hash_table :: "(u32 \<Rightarrow> handle list) option"
  hash_table_mask :: u32
  counter :: u32
  mapping :: "u32 list"

type_synonym manager = "def_kind \<Rightarrow> manager_entry"

datatype which_manager = LocalManager | UnifiedManager

record defs =
  memory :: "nat \<Rightarrow> def_object list"
  local_manager :: manager
  unified_manager :: "manager option"
  announced :: "(handle \<times> def_kind) list"
  location_mapping :: "u64 list"

end
