(* ===== verification/Scorep_Definitions_Manager.thy ===== *)
theory Scorep_Definitions_Manager
  imports Scorep_Definitions
begin

text \<open>
  Adding definitions to a manager: memory, hash values, equality and duplicate detection of every kind of
  definition, \<open>scorep_definitions_private.h\<close>, \<open>SCOREP_Definitions.c\<close> and the
  \<open>define_\<dots>\<close> functions of \<open>scorep_definitions_\<dots>.c\<close>.
\<close>

section \<open>Memory\<close>

definition deref :: "defs \<Rightarrow> nat \<Rightarrow> handle \<Rightarrow> def_object option" where
  "deref w pm h = (if h = 0 then None else arr_get (memory w pm) (h - 1))"

definition update_object :: "defs \<Rightarrow> nat \<Rightarrow> handle \<Rightarrow> (def_object \<Rightarrow> def_object) \<Rightarrow> defs" where
  "update_object w pm h f =
     w\<lparr>memory := (memory w)(pm := (memory w pm)[h - 1 := f (memory w pm ! (h - 1))])\<rparr>"

definition init_header :: "handle def_content \<Rightarrow> def_object" where
  "init_header c = \<lparr>content = c, unified = 0, def_hash = 0, sequence_number = -1, has_children = False, chained = []\<rparr>"

definition definition_alloc :: "defs \<Rightarrow> def_object \<Rightarrow> handle \<times> defs" where
  "definition_alloc w d = (length (memory w 0) + 1, w\<lparr>memory := (memory w)(0 := memory w 0 @ [d])\<rparr>)"

definition rollback_alloc :: "defs \<Rightarrow> defs" where
  "rollback_alloc w = w\<lparr>memory := (memory w)(0 := butlast (memory w 0))\<rparr>"

definition get_manager :: "defs \<Rightarrow> which_manager \<Rightarrow> manager option" where
  "get_manager w m = (case m of LocalManager \<Rightarrow> Some (local_manager w) | UnifiedManager \<Rightarrow> unified_manager w)"

definition set_manager :: "defs \<Rightarrow> which_manager \<Rightarrow> manager \<Rightarrow> defs" where
  "set_manager w m x =
     (case m of LocalManager \<Rightarrow> w\<lparr>local_manager := x\<rparr> | UnifiedManager \<Rightarrow> w\<lparr>unified_manager := Some x\<rparr>)"

section \<open>Manager entries\<close>

definition init_entry :: manager_entry where
  "init_entry = \<lparr>chain = [], hash_table = None, hash_table_mask = 0, counter = 0, mapping = []\<rparr>"

definition alloc_hash_table :: "manager_entry \<Rightarrow> nat \<Rightarrow> manager_entry option" where
  "alloc_hash_table e hashTablePower = do {
     assertC (hashTablePower \<le> 15);
     Some (e\<lparr>hash_table := Some (\<lambda>_. []), hash_table_mask := push_bit hashTablePower 1 - 1\<rparr>)
   }"

definition always_hashed :: "def_kind set" where
  "always_hashed = {KString, KSourceFile, KRegion, KParameter, KAttribute, KSourceCodeLocation}"

definition hashed_on_demand :: "def_kind set" where
  "hashed_on_demand = {KSystemTreeNode, KSystemTreeNodeProperty, KGroup, KCartesianTopology, KCartesianCoords,
     KCommunicator, KRmaWindow, KMetric, KSamplingSet, KSamplingSetRecorder, KIoHandle, KIoFile, KIoFileProperty,
     KCallpath, KProperty, KLocationProperty, KCallingContext, KInterruptGenerator}"

definition DEFAULT_HASH_TABLE_POWER :: nat where "DEFAULT_HASH_TABLE_POWER = 8"

definition hashed_entry :: manager_entry where
  "hashed_entry = (case alloc_hash_table init_entry DEFAULT_HASH_TABLE_POWER of Some e \<Rightarrow> e | None \<Rightarrow> init_entry)"

definition InitializeDefinitionManager :: "bool \<Rightarrow> manager" where
  "InitializeDefinitionManager allocHashTables =
     (\<lambda>k. if k \<in> always_hashed \<or> allocHashTables \<and> k \<in> hashed_on_demand then hashed_entry else init_entry)"

definition alloc_mapping :: "manager_entry \<Rightarrow> manager_entry" where
  "alloc_mapping e = e\<lparr>mapping := replicate (unat (counter e)) (-1)\<rparr>"

definition free_mapping :: "manager_entry \<Rightarrow> manager_entry" where
  "free_mapping e = e\<lparr>mapping := []\<rparr>"

section \<open>Hash values\<close>

text \<open>What a hash value is computed from, in this order: the bytes of a member, the hash value of a
  referenced definition, or the plain hash value of the name of a source file.\<close>

datatype hash_item = Pod "u8 list" | Sub handle | Copy handle

definition le_bytes :: "nat \<Rightarrow> nat \<Rightarrow> u8 list" where
  "le_bytes n x = map (\<lambda>i. of_nat (x div 256 ^ i)) [0..<n]"

definition pod8 :: "bool \<Rightarrow> hash_item" where "pod8 b = Pod (le_bytes 1 (of_bool b))"
definition pod32 :: "u32 \<Rightarrow> hash_item" where "pod32 x = Pod (le_bytes 4 (unat x))"
definition pod64 :: "u64 \<Rightarrow> hash_item" where "pod64 x = Pod (le_bytes 8 (unat x))"
definition pod_handle :: "handle \<Rightarrow> hash_item" where "pod_handle h = Pod (le_bytes 4 h)"

definition sub_if_valid :: "handle \<Rightarrow> hash_item list" where
  "sub_if_valid h = (if h \<noteq> 0 then [Sub h] else [])"

fun hash_items_from :: "defs \<Rightarrow> hash_item list \<Rightarrow> u32 \<Rightarrow> u32 option" where
  "hash_items_from w [] v = Some v"
| "hash_items_from w (Pod bs # xs) v = hash_items_from w xs (jenkins_hash bs v)"
| "hash_items_from w (Sub h # xs) v = do {
     d \<leftarrow> deref w 0 h;
     hash_items_from w xs (jenkins_hashword [def_hash d] v)
   }"
| "hash_items_from w (Copy h # xs) v = do {
     d \<leftarrow> deref w 0 h;
     hash_items_from w xs (def_hash d)
   }"

definition hash_string :: "'h string_def \<Rightarrow> hash_item list" where
  "hash_string d = [Pod (map of_char (string_data d))]"

definition hash_source_file :: "handle source_file_def \<Rightarrow> hash_item list" where
  "hash_source_file d = [Copy (source_name d)]"

definition hash_parameter :: "handle parameter_def \<Rightarrow> hash_item list" where
  "hash_parameter d = [Sub (parameter_name d), pod32 (parameter_type d)]"

definition initialize_attribute :: "handle attribute_def \<Rightarrow> hash_item list" where
  "initialize_attribute d = [Sub (attribute_name d), Sub (attribute_description d), pod32 (attribute_type d)]"

definition initialize_source_code_location :: "handle source_code_location_def \<Rightarrow> hash_item list" where
  "initialize_source_code_location d = [Sub (scl_file d), pod32 (scl_line d)]"

definition hash_system_tree_node :: "handle system_tree_node_def \<Rightarrow> hash_item list" where
  "hash_system_tree_node d =
     sub_if_valid (node_parent d) @ [pod32 (node_domains d), Sub (node_name d), Sub (node_class d)]"

definition hash_node_property :: "handle node_property_def \<Rightarrow> hash_item list" where
  "hash_node_property d = [Sub (np_node d), Sub (np_name d), Sub (np_value d)]"

definition initialize_region :: "handle region_def \<Rightarrow> hash_item list" where
  "initialize_region d =
     [Sub (region_name d), Sub (region_canonical_name d), Sub (region_description d), pod32 (region_type d)]
     @ sub_if_valid (region_file d) @ [pod32 (begin_line d), pod32 (end_line d), pod32 (region_paradigm d)]"

definition hash_group :: "handle group_def \<Rightarrow> hash_item list" where
  "hash_group d =
     [pod32 (group_type d), Sub (group_label d), pod64 (of_nat (length (group_members d))),
      Pod (concat (map (\<lambda>m. le_bytes 8 (unat m)) (group_members d)))]"

definition initialize_metric :: "handle metric_def \<Rightarrow> hash_item list" where
  "initialize_metric d =
     [Sub (metric_name d), Sub (metric_description d), pod32 (source_type d), pod32 (metric_mode d), pod32 (value_type d),
      pod32 (metric_base d), pod64 (metric_exponent d), Sub (metric_unit d), pod32 (profiling_type d)]
     @ sub_if_valid (metric_parent d)"

definition initialize_sampling_set :: "handle sampling_set_def \<Rightarrow> hash_item list" where
  "initialize_sampling_set d = (case d of
     SamplingSetDef ms occ cls \<Rightarrow>
       [pod8 False, Pod (le_bytes 1 (length ms))] @ map Sub ms @ [pod32 occ, pod32 cls]
   | ScopedSamplingSetDef s r t sc \<Rightarrow> [pod8 True, Sub s, Sub r, pod32 t, Sub sc])"

definition PARAMETER_STRING :: u32 where "PARAMETER_STRING = 2"

definition get_parameter_type :: "defs \<Rightarrow> nat \<Rightarrow> handle \<Rightarrow> u32 option" where
  "get_parameter_type w pm h = do {
     d \<leftarrow> deref w pm h;
     case content d of Parameter p \<Rightarrow> Some (parameter_type p) | _ \<Rightarrow> None
   }"

definition hash_callpath_parameter :: "defs \<Rightarrow> handle callpath_parameter \<Rightarrow> hash_item list option" where
  "hash_callpath_parameter w p = do {
     t \<leftarrow> get_parameter_type w 0 (parameter_handle p);
     if t = PARAMETER_STRING
     then (case parameter_value p of StringValue s \<Rightarrow> Some [Sub (parameter_handle p), Sub s] | IntegerValue _ \<Rightarrow> None)
     else (case parameter_value p of IntegerValue i \<Rightarrow> Some [Sub (parameter_handle p), pod64 i] | StringValue _ \<Rightarrow> None)
   }"

fun hash_callpath_parameters :: "defs \<Rightarrow> handle callpath_parameter list \<Rightarrow> hash_item list option" where
  "hash_callpath_parameters w [] = Some []"
| "hash_callpath_parameters w (p # ps) = do {
     x \<leftarrow> hash_callpath_parameter w p;
     xs \<leftarrow> hash_callpath_parameters w ps;
     Some (x @ xs)
   }"

definition initialize_callpath :: "defs \<Rightarrow> handle callpath_def \<Rightarrow> hash_item list option" where
  "initialize_callpath w d = do {
     xs \<leftarrow> hash_callpath_parameters w (callpath_parameters d);
     Some (sub_if_valid (callpath_parent d) @ sub_if_valid (callpath_region d)
       @ [pod32 (of_nat (length (callpath_parameters d)))] @ xs)
   }"

definition hash_property :: "'h property_def \<Rightarrow> hash_item list" where
  "hash_property d = [pod32 (property d), pod32 (condition d), pod8 (initial_value d)]"

definition hash_calling_context :: "handle calling_context_def \<Rightarrow> hash_item list" where
  "hash_calling_context d =
     [pod64 (ip_offset d)] @ sub_if_valid (cc_file d) @ [Sub (cc_region d)] @ sub_if_valid (cc_scl d)
     @ sub_if_valid (cc_parent d)"

definition hash_interrupt_generator :: "handle interrupt_generator_def \<Rightarrow> hash_item list" where
  "hash_interrupt_generator d =
     [Sub (ig_name d), pod32 (ig_mode d), pod32 (ig_base d), pod64 (ig_exponent d), pod64 (ig_period d)]"

definition hash_interim_communicator :: "handle interim_communicator_def \<Rightarrow> hash_item list" where
  "hash_interim_communicator d = sub_if_valid (interim_parent d) @ [pod32 (interim_paradigm d)]"

definition hash_communicator :: "handle communicator_def \<Rightarrow> hash_item list" where
  "hash_communicator d = [Sub (group_a d), Sub (group_b d), pod32 (unify_key d)]"

definition hash_rma_window :: "handle rma_window_def \<Rightarrow> hash_item list" where
  "hash_rma_window d = [Sub (window_communicator d), pod32 (creation_id d)]"

definition hash_cartesian_topology :: "handle topology_def \<Rightarrow> hash_item list" where
  "hash_cartesian_topology d =
     [Sub (topology_name d), pod32 (of_nat (length (dimensions d))), pod32 (topology_type d)]"

definition initialize_io_file :: "handle io_file_def \<Rightarrow> hash_item list" where
  "initialize_io_file d = [Sub (io_file_name d), pod_handle (io_scope d)]"

definition hash_io_file_property :: "handle io_file_property_def \<Rightarrow> hash_item list" where
  "hash_io_file_property d = [Sub (ifp_file d), Sub (ifp_name d), Sub (ifp_value d)]"

definition hash_io_handle :: "handle io_handle_def \<Rightarrow> hash_item list" where
  "hash_io_handle d =
     sub_if_valid (ioh_name d) @ (if ioh_file d \<noteq> 0 then [pod_handle (ioh_file d)] else [])
     @ [pod32 (ioh_paradigm d), pod32 (ioh_flags d)] @ sub_if_valid (ioh_scope d) @ sub_if_valid (ioh_parent d)
     @ [pod32 (ioh_access_mode d), pod32 (ioh_status_flags d), pod32 (ioh_unify_key d)]"

text \<open>Location groups, locations, their properties, topology coordinates and recorders have no hash value.\<close>

definition hash_items :: "defs \<Rightarrow> handle def_content \<Rightarrow> hash_item list option" where
  "hash_items w c = (case c of
     String d \<Rightarrow> Some (hash_string d) | SystemTreeNode d \<Rightarrow> Some (hash_system_tree_node d)
   | SystemTreeNodeProperty d \<Rightarrow> Some (hash_node_property d)
   | LocationGroup d \<Rightarrow> Some [] | Location d \<Rightarrow> Some [] | LocationProperty d \<Rightarrow> Some []
   | SourceFile d \<Rightarrow> Some (hash_source_file d) | Region d \<Rightarrow> Some (initialize_region d) | Group d \<Rightarrow> Some (hash_group d)
   | InterimCommunicator d \<Rightarrow> Some (hash_interim_communicator d) | Communicator d \<Rightarrow> Some (hash_communicator d)
   | RmaWindow d \<Rightarrow> Some (hash_rma_window d) | Metric d \<Rightarrow> Some (initialize_metric d)
   | SamplingSet d \<Rightarrow> Some (initialize_sampling_set d) | SamplingSetRecorder d \<Rightarrow> Some []
   | Parameter d \<Rightarrow> Some (hash_parameter d) | Callpath d \<Rightarrow> initialize_callpath w d
   | Property d \<Rightarrow> Some (hash_property d) | Attribute d \<Rightarrow> Some (initialize_attribute d)
   | CartesianTopology d \<Rightarrow> Some (hash_cartesian_topology d) | CartesianCoords d \<Rightarrow> Some []
   | SourceCodeLocation d \<Rightarrow> Some (initialize_source_code_location d) | CallingContext d \<Rightarrow> Some (hash_calling_context d)
   | InterruptGenerator d \<Rightarrow> Some (hash_interrupt_generator d) | IoFile d \<Rightarrow> Some (initialize_io_file d)
   | IoFileProperty d \<Rightarrow> Some (hash_io_file_property d) | IoHandle d \<Rightarrow> Some (hash_io_handle d))"

definition hash_content :: "defs \<Rightarrow> handle def_content \<Rightarrow> u32 option" where
  "hash_content w c = do { xs \<leftarrow> hash_items w c; hash_items_from w xs 0 }"

section \<open>Equality\<close>

definition equal_string :: "'h string_def \<Rightarrow> 'h string_def \<Rightarrow> bool" where
  "equal_string e n \<longleftrightarrow> length (string_data e) = length (string_data n) \<and> string_data e = string_data n"

definition equal_source_file :: "'h source_file_def \<Rightarrow> 'h source_file_def \<Rightarrow> bool" where
  "equal_source_file e n \<longleftrightarrow> source_name e = source_name n"

definition equal_parameter :: "'h parameter_def \<Rightarrow> 'h parameter_def \<Rightarrow> bool" where
  "equal_parameter e n \<longleftrightarrow> parameter_name e = parameter_name n \<and> parameter_type e = parameter_type n"

definition equal_attribute :: "'h attribute_def \<Rightarrow> 'h attribute_def \<Rightarrow> bool" where
  "equal_attribute e n \<longleftrightarrow> attribute_name e = attribute_name n
     \<and> attribute_description e = attribute_description n \<and> attribute_type e = attribute_type n"

definition equal_source_code_location :: "'h source_code_location_def \<Rightarrow> 'h source_code_location_def \<Rightarrow> bool" where
  "equal_source_code_location e n \<longleftrightarrow> scl_file e = scl_file n \<and> scl_line e = scl_line n"

definition equal_system_tree_node :: "'h system_tree_node_def \<Rightarrow> 'h system_tree_node_def \<Rightarrow> bool" where
  "equal_system_tree_node e n \<longleftrightarrow> node_parent e = node_parent n \<and> node_domains e = node_domains n
     \<and> node_class e = node_class n \<and> node_name e = node_name n"

definition equal_system_tree_node_property :: "'h node_property_def \<Rightarrow> 'h node_property_def \<Rightarrow> bool" where
  "equal_system_tree_node_property e n \<longleftrightarrow> np_node e = np_node n \<and> np_name e = np_name n \<and> np_value e = np_value n"

definition equal_location_group :: "'h location_group_def \<Rightarrow> 'h location_group_def \<Rightarrow> bool" where
  "equal_location_group e n \<longleftrightarrow> False"

definition equal_location :: "'h location_def \<Rightarrow> 'h location_def \<Rightarrow> bool" where
  "equal_location e n \<longleftrightarrow> False"

definition equal_location_property :: "'h location_property_def \<Rightarrow> 'h location_property_def \<Rightarrow> bool" where
  "equal_location_property e n \<longleftrightarrow> lp_location e = lp_location n \<and> lp_name e = lp_name n"

definition equal_region :: "'h region_def \<Rightarrow> 'h region_def \<Rightarrow> bool" where
  "equal_region e n \<longleftrightarrow> region_name e = region_name n \<and> region_canonical_name e = region_canonical_name n
     \<and> region_description e = region_description n \<and> region_type e = region_type n \<and> region_file e = region_file n
     \<and> begin_line e = begin_line n \<and> end_line e = end_line n \<and> region_paradigm e = region_paradigm n"

definition equal_group :: "'h group_def \<Rightarrow> 'h group_def \<Rightarrow> bool" where
  "equal_group e n \<longleftrightarrow> group_type e = group_type n \<and> group_label e = group_label n
     \<and> length (group_members e) = length (group_members n) \<and> group_members e = group_members n"

definition equal_metric :: "'h metric_def \<Rightarrow> 'h metric_def \<Rightarrow> bool" where
  "equal_metric e n \<longleftrightarrow> metric_name e = metric_name n \<and> metric_description e = metric_description n
     \<and> source_type e = source_type n \<and> metric_mode e = metric_mode n \<and> value_type e = value_type n
     \<and> metric_base e = metric_base n \<and> metric_exponent e = metric_exponent n \<and> metric_unit e = metric_unit n
     \<and> metric_parent e = metric_parent n"

definition equal_sampling_set :: "'h sampling_set_def \<Rightarrow> 'h sampling_set_def \<Rightarrow> bool" where
  "equal_sampling_set e n = (case (e, n) of
     (ScopedSamplingSetDef s r t sc, ScopedSamplingSetDef s' r' t' sc') \<Rightarrow> s = s' \<and> r = r' \<and> t = t' \<and> sc = sc'
   | (SamplingSetDef ms occ cls, SamplingSetDef ms' occ' cls') \<Rightarrow> length ms = length ms' \<and> ms = ms' \<and> occ = occ'
   | _ \<Rightarrow> False)"

definition equal_callpath :: "'h callpath_def \<Rightarrow> 'h callpath_def \<Rightarrow> bool" where
  "equal_callpath e n \<longleftrightarrow> callpath_parent e = callpath_parent n \<and> callpath_region e = callpath_region n
     \<and> length (callpath_parameters e) = length (callpath_parameters n) \<and> callpath_parameters e = callpath_parameters n"

definition equal_property :: "'h property_def \<Rightarrow> 'h property_def \<Rightarrow> bool" where
  "equal_property e n \<longleftrightarrow> property e = property n"

definition equal_calling_context :: "'h calling_context_def \<Rightarrow> 'h calling_context_def \<Rightarrow> bool" where
  "equal_calling_context e n \<longleftrightarrow> ip_offset e = ip_offset n \<and> cc_file e = cc_file n \<and> cc_region e = cc_region n
     \<and> cc_scl e = cc_scl n \<and> cc_parent e = cc_parent n"

definition equal_interrupt_generator :: "'h interrupt_generator_def \<Rightarrow> 'h interrupt_generator_def \<Rightarrow> bool" where
  "equal_interrupt_generator e n \<longleftrightarrow> ig_name e = ig_name n \<and> ig_mode e = ig_mode n \<and> ig_base e = ig_base n
     \<and> ig_exponent e = ig_exponent n \<and> ig_period e = ig_period n"

definition TOPOLOGIES_MPI :: u32 where "TOPOLOGIES_MPI = 0"

definition equal_cartesian_topology :: "'h topology_def \<Rightarrow> 'h topology_def \<Rightarrow> bool" where
  "equal_cartesian_topology e n \<longleftrightarrow>
     (if topology_type e \<noteq> topology_type n then False
      else if topology_type n \<noteq> TOPOLOGIES_MPI
      then topology_name e = topology_name n \<and> length (dimensions e) = length (dimensions n)
      else topology_name e = topology_name n \<and> topology_communicator e = topology_communicator n
        \<and> length (dimensions e) = length (dimensions n))"

definition equal_cartesian_coords :: "'h coords_def \<Rightarrow> 'h coords_def \<Rightarrow> bool" where
  "equal_cartesian_coords e n \<longleftrightarrow> coords_topology e = coords_topology n \<and> length (coords e) = length (coords n)
     \<and> coords_rank e = coords_rank n \<and> coords_thread e = coords_thread n \<and> coords e = coords n"

definition equal_io_file :: "'h io_file_def \<Rightarrow> 'h io_file_def \<Rightarrow> bool" where
  "equal_io_file e n \<longleftrightarrow> io_file_name e = io_file_name n \<and> io_scope e = io_scope n"

definition equal_io_file_property :: "'h io_file_property_def \<Rightarrow> 'h io_file_property_def \<Rightarrow> bool" where
  "equal_io_file_property e n \<longleftrightarrow> ifp_file e = ifp_file n \<and> ifp_name e = ifp_name n \<and> ifp_value e = ifp_value n"

definition equal_io_handle :: "'h io_handle_def \<Rightarrow> 'h io_handle_def \<Rightarrow> bool" where
  "equal_io_handle e n \<longleftrightarrow>
     (if ioh_unify_key e OR ioh_unify_key n = 0 then False
      else ioh_name e = ioh_name n \<and> ioh_file e = ioh_file n \<and> ioh_paradigm e = ioh_paradigm n
        \<and> ioh_flags e = ioh_flags n \<and> ioh_scope e = ioh_scope n \<and> ioh_parent e = ioh_parent n
        \<and> ioh_access_mode e = ioh_access_mode n \<and> ioh_status_flags e = ioh_status_flags n
        \<and> ioh_unify_key e = ioh_unify_key n \<and> is_completed e = is_completed n)"

text \<open>The kinds added by the macro; the others are searched by code of their own below.\<close>

definition equal_content :: "'h def_content \<Rightarrow> 'h def_content \<Rightarrow> bool" where
  "equal_content e n = (case e of
     String a \<Rightarrow> (case n of String b \<Rightarrow> equal_string a b | _ \<Rightarrow> False)
   | SystemTreeNode a \<Rightarrow> (case n of SystemTreeNode b \<Rightarrow> equal_system_tree_node a b | _ \<Rightarrow> False)
   | SystemTreeNodeProperty a \<Rightarrow> (case n of SystemTreeNodeProperty b \<Rightarrow> equal_system_tree_node_property a b | _ \<Rightarrow> False)
   | LocationGroup a \<Rightarrow> (case n of LocationGroup b \<Rightarrow> equal_location_group a b | _ \<Rightarrow> False)
   | Location a \<Rightarrow> (case n of Location b \<Rightarrow> equal_location a b | _ \<Rightarrow> False)
   | LocationProperty a \<Rightarrow> (case n of LocationProperty b \<Rightarrow> equal_location_property a b | _ \<Rightarrow> False)
   | SourceFile a \<Rightarrow> (case n of SourceFile b \<Rightarrow> equal_source_file a b | _ \<Rightarrow> False)
   | Region a \<Rightarrow> (case n of Region b \<Rightarrow> equal_region a b | _ \<Rightarrow> False)
   | Group a \<Rightarrow> (case n of Group b \<Rightarrow> equal_group a b | _ \<Rightarrow> False)
   | Metric a \<Rightarrow> (case n of Metric b \<Rightarrow> equal_metric a b | _ \<Rightarrow> False)
   | SamplingSet a \<Rightarrow> (case n of SamplingSet b \<Rightarrow> equal_sampling_set a b | _ \<Rightarrow> False)
   | Parameter a \<Rightarrow> (case n of Parameter b \<Rightarrow> equal_parameter a b | _ \<Rightarrow> False)
   | Callpath a \<Rightarrow> (case n of Callpath b \<Rightarrow> equal_callpath a b | _ \<Rightarrow> False)
   | Attribute a \<Rightarrow> (case n of Attribute b \<Rightarrow> equal_attribute a b | _ \<Rightarrow> False)
   | CartesianTopology a \<Rightarrow> (case n of CartesianTopology b \<Rightarrow> equal_cartesian_topology a b | _ \<Rightarrow> False)
   | CartesianCoords a \<Rightarrow> (case n of CartesianCoords b \<Rightarrow> equal_cartesian_coords a b | _ \<Rightarrow> False)
   | SourceCodeLocation a \<Rightarrow> (case n of SourceCodeLocation b \<Rightarrow> equal_source_code_location a b | _ \<Rightarrow> False)
   | CallingContext a \<Rightarrow> (case n of CallingContext b \<Rightarrow> equal_calling_context a b | _ \<Rightarrow> False)
   | InterruptGenerator a \<Rightarrow> (case n of InterruptGenerator b \<Rightarrow> equal_interrupt_generator a b | _ \<Rightarrow> False)
   | IoFile a \<Rightarrow> (case n of IoFile b \<Rightarrow> equal_io_file a b | _ \<Rightarrow> False)
   | IoFileProperty a \<Rightarrow> (case n of IoFileProperty b \<Rightarrow> equal_io_file_property a b | _ \<Rightarrow> False)
   | IoHandle a \<Rightarrow> (case n of IoHandle b \<Rightarrow> equal_io_handle a b | _ \<Rightarrow> False)
   | _ \<Rightarrow> False)"

section \<open>Adding a definition\<close>

fun search_chain :: "defs \<Rightarrow> (def_object \<Rightarrow> bool) \<Rightarrow> handle list \<Rightarrow> handle option option" where
  "search_chain w same [] = Some None"
| "search_chain w same (h # hs) = do {
     d \<leftarrow> deref w 0 h;
     if same d then Some (Some h) else search_chain w same hs
   }"

definition bucket_of :: "manager_entry \<Rightarrow> u32 \<Rightarrow> handle list" where
  "bucket_of e v = (case hash_table e of None \<Rightarrow> [] | Some t \<Rightarrow> t (v AND hash_table_mask e))"

definition push_bucket :: "u32 \<Rightarrow> handle \<Rightarrow> manager_entry \<Rightarrow> manager_entry" where
  "push_bucket v h e = (case hash_table e of None \<Rightarrow> e
     | Some t \<Rightarrow> e\<lparr>hash_table := Some (t(v AND hash_table_mask e := h # t (v AND hash_table_mask e)))\<rparr>)"

definition link_definition :: "defs \<Rightarrow> which_manager \<Rightarrow> def_kind \<Rightarrow> handle \<Rightarrow> defs option" where
  "link_definition w m k h = do {
     mgr \<leftarrow> get_manager w m;
     let e = mgr k;
     let w = update_object w 0 h (\<lambda>d. d\<lparr>sequence_number := counter e\<rparr>);
     Some (set_manager w m (mgr(k := e\<lparr>chain := chain e @ [h], counter := counter e + 1\<rparr>)))
   }"

text \<open>The result says whether the definition is new. \<open>same\<close> compares an existing definition with
  the new one.\<close>

definition add_to_entry ::
    "defs \<Rightarrow> which_manager \<Rightarrow> def_kind \<Rightarrow> (def_object \<Rightarrow> def_object \<Rightarrow> bool) \<Rightarrow> def_object \<Rightarrow> (handle \<times> bool \<times> defs) option" where
  "add_to_entry w m k same d = do {
     let (new_handle, w) = definition_alloc w d;
     mgr \<leftarrow> get_manager w m;
     old \<leftarrow> search_chain w (\<lambda>e. same e d) (bucket_of (mgr k) (def_hash d));
     case old of
       Some h \<Rightarrow> Some (h, False, rollback_alloc w)
     | None \<Rightarrow> do {
         let w = set_manager w m (mgr(k := push_bucket (def_hash d) new_handle (mgr k)));
         w \<leftarrow> link_definition w m k new_handle;
         Some (new_handle, True, w)
       }
   }"

definition same_definition :: "def_object \<Rightarrow> def_object \<Rightarrow> bool" where
  "same_definition e n \<longleftrightarrow> def_hash e = def_hash n \<and> equal_content (content e) (content n)"

definition add_definition :: "defs \<Rightarrow> which_manager \<Rightarrow> handle def_content \<Rightarrow> (handle \<times> bool \<times> defs) option" where
  "add_definition w m c = do {
     v \<leftarrow> hash_content w c;
     add_to_entry w m (kind_of c) same_definition ((init_header c)\<lparr>def_hash := v\<rparr>)
   }"

text \<open>The substrates are told of a new definition of the local manager.\<close>

definition announce :: "handle \<Rightarrow> def_kind \<Rightarrow> defs \<Rightarrow> defs" where
  "announce h k w = w\<lparr>announced := announced w @ [(h, k)]\<rparr>"

definition define_announced :: "defs \<Rightarrow> which_manager \<Rightarrow> handle def_content \<Rightarrow> (handle \<times> defs) option" where
  "define_announced w m c = do {
     (h, fresh, w) \<leftarrow> add_definition w m c;
     Some (h, if fresh \<and> m = LocalManager then announce h (kind_of c) w else w)
   }"

definition define_silent :: "defs \<Rightarrow> which_manager \<Rightarrow> handle def_content \<Rightarrow> (handle \<times> defs) option" where
  "define_silent w m c = do {
     (h, fresh, w) \<leftarrow> add_definition w m c;
     Some (h, w)
   }"

end
