(* ===== verification/Scorep_IO.thy ===== *)
theory Scorep_IO
  imports Scorep_Hashtab "HOL-Library.Sublist"
begin

text \<open>
  Duplicating and searching strings (\<open>src/common/utils/src/cstr/UTILS_CStr.c\<close>) and reading lines
  of a file (\<open>UTILS_IO_GetLine\<close> in \<open>src/common/utils/src/io/UTILS_IO_Tools.c\<close>).

  A C string that is only read is the list of its characters before the terminator. Memory requests
  are answered by \<open>mem\<close>, which tells for a size whether \<open>malloc\<close> or \<open>realloc\<close>
  succeeds. A stream is what is left to read, the end-of-file flag and a flag that makes every read
  fail.
\<close>

abbreviation NUL :: char where "NUL \<equiv> CHR 0x00"
abbreviation NEWLINE :: char where "NEWLINE \<equiv> CHR 0x0A"
abbreviation SLASH :: char where "SLASH \<equiv> CHR 0x2F"
abbreviation DOT :: char where "DOT \<equiv> CHR 0x2E"

section \<open>Strings\<close>

definition strncmp_eq :: "string \<Rightarrow> string \<Rightarrow> nat \<Rightarrow> bool" where
  "strncmp_eq s t n \<longleftrightarrow> take n (s @ [NUL]) = take n (t @ [NUL])"

definition CStr_npos :: nat where
  "CStr_npos = 2 ^ 64 - 1"

definition CStr_dup :: "(nat \<Rightarrow> bool) \<Rightarrow> string option \<Rightarrow> string option" where
  "CStr_dup mem source =
     (case source of None \<Rightarrow> None
      | Some s \<Rightarrow> if mem (length s + 1) then Some s else None)"

text \<open>\<open>str\<close> is what is left from \<open>pos\<close> on.\<close>

fun find_pattern :: "string \<Rightarrow> string \<Rightarrow> nat \<Rightarrow> nat" where
  "find_pattern [] pattern pos = CStr_npos"
| "find_pattern (c # str) pattern pos =
     (if strncmp_eq (c # str) pattern (length pattern) then pos else find_pattern str pattern (pos + 1))"

definition CStr_find :: "string \<Rightarrow> string \<Rightarrow> nat \<Rightarrow> nat option" where
  "CStr_find str pattern pos = do {
     assertC (pos \<le> length str);
     Some (find_pattern (drop pos str) pattern pos)
   }"

section \<open>Reading lines\<close>

record stream =
  st_rest :: string
  st_eof :: bool
  st_error :: bool

datatype io_result = IO_SUCCESS | IO_MEM_ALLOC_FAILED | IO_END_OF_BUFFER | IO_FILE_INTERACTION

fun line_prefix :: "nat \<Rightarrow> string \<Rightarrow> string" where
  "line_prefix 0 cs = []"
| "line_prefix (Suc n) [] = []"
| "line_prefix (Suc n) (c # cs) = (if c = NEWLINE then [c] else c # line_prefix n cs)"

text \<open>The standard's \<open>fgets\<close>, for a size of at least two.\<close>

definition fgets :: "nat \<Rightarrow> stream \<Rightarrow> string option \<times> stream" where
  "fgets bsize f =
     (if st_error f then (None, f)
      else let s = line_prefix (bsize - 1) (st_rest f)
           in if s = [] then (None, f\<lparr>st_eof := True\<rparr>)
              else (Some s, f\<lparr>st_rest := drop (length s) (st_rest f),
                st_eof := (st_eof f \<or> length s < bsize - 1 \<and> List.last s \<noteq> NEWLINE)\<rparr>))"

lemma fgets_shrinks: "fgets bsize f = (Some s, f') \<Longrightarrow> length (st_rest f') < length (st_rest f)"
proof -
  have "n > 0 \<Longrightarrow> cs \<noteq> [] \<Longrightarrow> line_prefix n cs \<noteq> []" for n cs
    by (cases n; cases cs) auto
  moreover have "cs = [] \<Longrightarrow> line_prefix n cs = []" for n cs by (cases n) auto
  moreover assume "fgets bsize f = (Some s, f')"
  ultimately show ?thesis by (cases "st_rest f") (auto simp: fgets_def Let_def split: if_splits)
qed

definition BUFFER_SIZE :: nat where
  "BUFFER_SIZE = 1024"

text \<open>The buffer is the string in it, if it is allocated, and its size.\<close>

function get_line_loop :: "(nat \<Rightarrow> bool) \<Rightarrow> string \<Rightarrow> nat \<Rightarrow> stream \<Rightarrow> io_result \<times> (string option \<times> nat) \<times> stream" where
  "get_line_loop mem buf bsize f =
     (if length buf = bsize - 1 then
        let bsize = bsize + BUFFER_SIZE
        in if \<not> mem bsize then (IO_MEM_ALLOC_FAILED, (None, 0), f)
           else case fgets (BUFFER_SIZE + 1) f of
             (None, f) \<Rightarrow> (if st_eof f then IO_END_OF_BUFFER else IO_FILE_INTERACTION, (Some buf, bsize), f)
           | (Some s, f) \<Rightarrow> get_line_loop mem (buf @ c_str s) bsize f
      else (IO_SUCCESS, (Some buf, bsize), f))"
  by pat_completeness auto
termination
  by (relation "measure (\<lambda>(mem, buf, bsize, f). length (st_rest f))") (auto intro: fgets_shrinks [OF sym])

declare get_line_loop.simps [simp del]

definition IO_GetLine :: "(nat \<Rightarrow> bool) \<Rightarrow> string option \<times> nat \<Rightarrow> stream
    \<Rightarrow> io_result \<times> (string option \<times> nat) \<times> stream" where
  "IO_GetLine mem buffer f =
     (let fresh = (fst buffer = None \<or> snd buffer = 0); bsize = (if fresh then BUFFER_SIZE else snd buffer)
      in if fresh \<and> \<not> mem BUFFER_SIZE then (IO_MEM_ALLOC_FAILED, (None, 0), f)
         else case fgets bsize f of
           (None, f) \<Rightarrow> (if st_eof f then IO_END_OF_BUFFER else IO_FILE_INTERACTION, (Some [], bsize), f)
         | (Some s, f) \<Rightarrow> get_line_loop mem (c_str s) bsize f)"

lemma strncmp_prefix: "NUL \<notin> set t \<Longrightarrow> strncmp_eq s t (length t) \<longleftrightarrow> prefix t s"
proof (induction t arbitrary: s)
  case (Cons c t)
  then show ?case by (cases s) (auto simp: strncmp_eq_def)
qed (simp add: strncmp_eq_def)

lemma find_pattern_spec:
  assumes "NUL \<notin> set t"
  shows "find_pattern s t pos =
    (if \<exists>k < length s. prefix t (drop k s) then pos + (LEAST k. k < length s \<and> prefix t (drop k s)) else CStr_npos)"
proof (induction s arbitrary: pos)
  case (Cons c s)
  show ?case
  proof (cases "prefix t (c # s)")
    case True
    then have "(LEAST k. k < length (c # s) \<and> prefix t (drop k (c # s))) = 0" by (intro Least_equality) auto
    then show ?thesis using True strncmp_prefix [OF assms] by auto
  next
    case False
    have e: "(\<exists>k < length (c # s). prefix t (drop k (c # s))) \<longleftrightarrow> (\<exists>k < length s. prefix t (drop k s))"
      using False by (metis Suc_less_eq drop0 drop_Suc_Cons length_Cons not0_implies_Suc)
    have "(LEAST k. k < length (c # s) \<and> prefix t (drop k (c # s)))
        = Suc (LEAST k. Suc k < length (c # s) \<and> prefix t (drop (Suc k) (c # s)))"
      if "\<exists>k < length s. prefix t (drop k s)"
    proof -
      from that obtain k where "Suc k < length (c # s) \<and> prefix t (drop (Suc k) (c # s))" by auto
      then show ?thesis by (rule Least_Suc) (use False in auto)
    qed
    then show ?thesis using False strncmp_prefix [OF assms] Cons.IH e by auto
  qed
qed simp

section \<open>Lines\<close>

fun line :: "string \<Rightarrow> string" where
  "line [] = []"
| "line (c # cs) = (if c = NEWLINE then [c] else c # line cs)"

lemma line_prefix_take: "line_prefix n cs = take n (line cs)"
  by (induction n cs rule: line_prefix.induct) auto

lemma line_drop: "n < length (line cs) \<Longrightarrow> line (drop n cs) = drop n (line cs)"
proof (induction cs arbitrary: n)
  case (Cons c cs)
  then show ?case by (cases n) (auto split: if_splits)
qed simp

lemma line_Nil [simp]: "line cs = [] \<longleftrightarrow> cs = []"
  by (cases cs) auto

lemma line_subset: "set (line cs) \<subseteq> set cs"
  by (induction cs) auto

lemma line_newline: "NEWLINE \<notin> set a \<Longrightarrow> line (a @ NEWLINE # b) = a @ [NEWLINE]"
  by (induction a) auto

lemma c_str_id: "NUL \<notin> set s \<Longrightarrow> c_str s = s"
  unfolding c_str_def by (rule takeWhile_eq_all_conv [THEN iffD2]) auto

definition after_line :: "stream \<Rightarrow> stream" where
  "after_line f = f\<lparr>st_rest := drop (length (line (st_rest f))) (st_rest f),
     st_eof := (st_eof f \<or> last (line (st_rest f)) \<noteq> NEWLINE)\<rparr>"

definition skip_chars :: "nat \<Rightarrow> stream \<Rightarrow> stream" where
  "skip_chars n f = f\<lparr>st_rest := drop n (st_rest f)\<rparr>"

lemma fgets_line:
  assumes "\<not> st_error f" "st_rest f \<noteq> []"
  shows "length (line (st_rest f)) < n \<Longrightarrow> fgets (n + 1) f = (Some (line (st_rest f)), after_line f)"
    "0 < n \<Longrightarrow> n \<le> length (line (st_rest f)) \<Longrightarrow> fgets (n + 1) f = (Some (take n (line (st_rest f))), skip_chars n f)"
  using assms
  by (auto simp: fgets_def line_prefix_take Let_def after_line_def skip_chars_def)

lemma get_line_loop_line:
  assumes "\<And>n. mem n" "\<not> st_error f" "NUL \<notin> set (st_rest f)" "st_rest f \<noteq> []" "0 < n" "length b = n - 1"
    and "length (line (st_rest f)) mod 1024 \<noteq> 0"
  shows "\<exists>n'. get_line_loop mem b n f = (IO_SUCCESS, (Some (b @ line (st_rest f)), n'), after_line f)
    \<and> length (b @ line (st_rest f)) < n'"
  using assms(2-)
proof (induction "length (line (st_rest f))" arbitrary: f b n rule: less_induct)
  case less
  let ?L = "line (st_rest f)"
  have nul: "c_str (take k ?L) = take k ?L" for k
    using less.prems(2) line_subset [of "st_rest f"] set_take_subset [of k ?L] by (intro c_str_id) blast
  show ?case
  proof (cases "length ?L < 1024")
    case True
    have "get_line_loop mem b n f = get_line_loop mem (b @ ?L) (n + 1024) (after_line f)"
      using less.prems fgets_line(1) [of f 1024] True nul [of "length ?L"] assms(1)
      by (subst get_line_loop.simps) (simp add: BUFFER_SIZE_def Let_def)
    also have "\<dots> = (IO_SUCCESS, (Some (b @ ?L), n + 1024), after_line f)"
    proof -
      have "length (b @ ?L) \<noteq> n + 1024 - 1" using less.prems True by auto
      then show ?thesis by (subst get_line_loop.simps) simp
    qed
    finally show ?thesis using True less.prems by auto
  next
    case False
    let ?f = "skip_chars 1024 f" and ?b = "b @ take 1024 ?L"
    have ne: "length ?L \<noteq> 1024" using less.prems(6) by auto
    have l: "line (st_rest ?f) = drop 1024 ?L"
      using line_drop [of 1024 "st_rest f"] False ne by (simp add: skip_chars_def)
    have "get_line_loop mem b n f = get_line_loop mem ?b (n + 1024) ?f"
      using less.prems fgets_line(2) [of f 1024] False nul [of 1024] assms(1)
      by (subst get_line_loop.simps) (simp add: BUFFER_SIZE_def Let_def)
    moreover have "line (st_rest ?f) \<noteq> []" using l False ne by simp
    then have r: "st_rest ?f \<noteq> []" by auto
    have "\<exists>n'. get_line_loop mem ?b (n + 1024) ?f
        = (IO_SUCCESS, (Some (?b @ line (st_rest ?f)), n'), after_line ?f) \<and> length (?b @ line (st_rest ?f)) < n'"
    proof (rule less.hyps)
      show "length (line (st_rest ?f)) < length ?L" using l False by simp
      show "length (line (st_rest ?f)) mod 1024 \<noteq> 0"
        using l False less.prems(6) le_mod_geq [of 1024 "length ?L"] by simp
      show "NUL \<notin> set (st_rest ?f)" using less.prems(2) set_drop_subset [of 1024 "st_rest f"]
        by (auto simp: skip_chars_def)
      show "st_rest ?f \<noteq> []" by (rule r)
    qed (use less.prems False in \<open>auto simp: skip_chars_def\<close>)
    moreover have "after_line ?f = after_line f"
      using l False ne by (simp add: after_line_def skip_chars_def)
    moreover have "?b @ line (st_rest ?f) = b @ ?L" using l by simp
    ultimately show ?thesis by metis
  qed
qed

lemma IO_GetLine_fgets:
  assumes "\<And>n. mem n" "n = (if fst buf = None \<or> snd buf = 0 then 1024 else snd buf)"
  shows "IO_GetLine mem buf f = (case fgets n f of
      (None, f) \<Rightarrow> (if st_eof f then IO_END_OF_BUFFER else IO_FILE_INTERACTION, (Some [], n), f)
    | (Some s, f) \<Rightarrow> get_line_loop mem (c_str s) n f)"
  unfolding IO_GetLine_def BUFFER_SIZE_def using assms by (auto simp: Let_def)

text \<open>A line that fits leaves the buffer as large as it is.\<close>

lemma IO_GetLine_short:
  assumes "\<And>n. mem n" "\<not> st_error f" "NUL \<notin> set (st_rest f)" "st_rest f \<noteq> []"
    and "n = (if fst buf = None \<or> snd buf = 0 then 1024 else snd buf)" "length (line (st_rest f)) + 1 < n"
  shows "IO_GetLine mem buf f = (IO_SUCCESS, (Some (line (st_rest f)), n), after_line f)"
proof -
  let ?L = "line (st_rest f)"
  have "c_str ?L = ?L" using assms(3) line_subset [of "st_rest f"] by (intro c_str_id) blast
  moreover have "n = n - 1 + 1" "length ?L < n - 1" using assms(6) by simp_all
  ultimately have "IO_GetLine mem buf f = get_line_loop mem ?L n (after_line f)"
    using fgets_line(1) [OF assms(2,4), of "n - 1"] by (simp add: IO_GetLine_fgets [OF assms(1,5)])
  moreover have "length ?L \<noteq> n - 1" using assms(6) by simp
  ultimately show ?thesis by (subst (asm) get_line_loop.simps) simp
qed

lemma IO_GetLine_line:
  assumes "\<And>n. mem n" "\<not> st_error f" "NUL \<notin> set (st_rest f)" "st_rest f \<noteq> []"
    and "n = (if fst buf = None \<or> snd buf = 0 then 1024 else snd buf)" "2 \<le> n"
    and "length (line (st_rest f)) + 1 < n \<or> (length (line (st_rest f)) + 1 - n) mod 1024 \<noteq> 0"
  shows "\<exists>n'. IO_GetLine mem buf f = (IO_SUCCESS, (Some (line (st_rest f)), n'), after_line f)
    \<and> length (line (st_rest f)) < n'"
proof -
  let ?L = "line (st_rest f)"
  have nul: "c_str (take k ?L) = take k ?L" for k
    using assms(3) line_subset [of "st_rest f"] set_take_subset [of k ?L] by (intro c_str_id) blast
  have n: "n = n - 1 + 1" "0 < n - 1" using assms(6) by simp_all
  show ?thesis
  proof (cases "length ?L < n - 1")
    case True
    then have "length ?L + 1 < n" by simp
    from IO_GetLine_short [OF assms(1-5) this] show ?thesis using True by auto
  next
    case False
    let ?f = "skip_chars (n - 1) f"
    have more: "n - 1 < length ?L" "(length ?L + 1 - n) mod 1024 \<noteq> 0"
      using False assms(6,7) by (auto intro: ccontr)
    have l: "line (st_rest ?f) = drop (n - 1) ?L" using line_drop [OF more(1)] by (simp add: skip_chars_def)
    then have r: "st_rest ?f \<noteq> []" using more(1) by auto
    have "IO_GetLine mem buf f = get_line_loop mem (take (n - 1) ?L) n ?f"
      using fgets_line(2) [OF assms(2,4) n(2)] more(1) n(1) nul [of "n - 1"]
      by (simp add: IO_GetLine_fgets [OF assms(1,5)])
    moreover have "\<exists>n'. get_line_loop mem (take (n - 1) ?L) n ?f
        = (IO_SUCCESS, (Some (take (n - 1) ?L @ line (st_rest ?f)), n'), after_line ?f)
        \<and> length (take (n - 1) ?L @ line (st_rest ?f)) < n'"
    proof (rule get_line_loop_line [OF assms(1)])
      show "NUL \<notin> set (st_rest ?f)" using assms(3) set_drop_subset [of "n - 1" "st_rest f"]
        by (auto simp: skip_chars_def)
      show "length (line (st_rest ?f)) mod 1024 \<noteq> 0" using more l assms(6) by simp
      show "st_rest ?f \<noteq> []" by (rule r)
    qed (use assms more in \<open>auto simp: skip_chars_def\<close>)
    moreover have "after_line ?f = after_line f"
      using l more(1) by (simp add: after_line_def skip_chars_def)
    moreover have "take (n - 1) ?L @ line (st_rest ?f) = ?L" using l by simp
    ultimately show ?thesis by metis
  qed
qed


lemma IO_GetLine_glued:
  assumes "\<And>n. mem n" "\<not> st_error f" "st_rest f = a @ NEWLINE # b @ NEWLINE # c" "NUL \<notin> set (st_rest f)"
    and "length a = 1022" "NEWLINE \<notin> set a" "NEWLINE \<notin> set b" "length b < 1023"
  shows "IO_GetLine mem (None, 0) f = (IO_SUCCESS, (Some (a @ NEWLINE # b @ [NEWLINE]), 2048),
    f\<lparr>st_rest := c\<rparr>)"
proof -
  let ?f = "f\<lparr>st_rest := b @ NEWLINE # c\<rparr>"
  have l: "line (st_rest f) = a @ [NEWLINE]" "line (st_rest ?f) = b @ [NEWLINE]"
    using assms(3,6,7) by (simp_all add: line_newline)
  have n: "c_str (a @ [NEWLINE]) = a @ [NEWLINE]" "c_str (b @ [NEWLINE]) = b @ [NEWLINE]"
    using assms(3,4) by (intro c_str_id, simp)+
  have 1: "fgets 1024 f = (Some (a @ [NEWLINE]), ?f)"
    using fgets_line(2) [of f 1023] assms(2,3,5) l(1) by (simp add: skip_chars_def)
  have "fgets 1025 ?f = (Some (b @ [NEWLINE]), after_line ?f)"
    using fgets_line(1) [of ?f 1024] assms(2,8) l(2) by simp
  moreover have "after_line ?f = f\<lparr>st_rest := c\<rparr>" using l(2) by (simp add: after_line_def)
  moreover have "get_line_loop mem ((a @ [NEWLINE]) @ (b @ [NEWLINE])) 2048 (f\<lparr>st_rest := c\<rparr>)
      = (IO_SUCCESS, (Some (a @ NEWLINE # b @ [NEWLINE]), 2048), f\<lparr>st_rest := c\<rparr>)"
    using assms(5,8) by (subst get_line_loop.simps) simp
  ultimately have "get_line_loop mem (a @ [NEWLINE]) 1024 ?f
      = (IO_SUCCESS, (Some (a @ NEWLINE # b @ [NEWLINE]), 2048), f\<lparr>st_rest := c\<rparr>)"
    using assms(1,5) n(2) by (subst get_line_loop.simps) (simp add: BUFFER_SIZE_def Let_def)
  then show ?thesis using 1 n(1) IO_GetLine_fgets [of mem 1024 "(None, 0)" f] assms(1) by simp
qed

text \<open>Every line read brings the end of the file closer.\<close>

definition left_to_read :: "stream \<Rightarrow> nat" where
  "left_to_read f = length (st_rest f) + (if st_eof f then 0 else 1)"

lemma fgets_reads: "fgets n f = (r, f') \<Longrightarrow> length (st_rest f') \<le> length (st_rest f) \<and> (st_eof f \<longrightarrow> st_eof f')"
  by (auto simp: fgets_def Let_def split: if_splits)

lemma get_line_loop_reads:
  "get_line_loop mem buf n f = (r, b, f') \<Longrightarrow>
     length (st_rest f') \<le> length (st_rest f) \<and> (st_eof f \<longrightarrow> st_eof f') \<and> (r = IO_END_OF_BUFFER \<longrightarrow> st_eof f')"
proof (induction mem buf n f arbitrary: r b f' rule: get_line_loop.induct)
  case (1 mem buf n f)
  obtain s g where g: "fgets (BUFFER_SIZE + 1) f = (s, g)" by (cases "fgets (BUFFER_SIZE + 1) f")
  note le = fgets_reads [OF g]
  show ?case
  proof (cases "length buf = n - 1 \<and> mem (n + BUFFER_SIZE)")
    case False
    then show ?thesis using "1.prems" by (subst (asm) get_line_loop.simps) (auto simp: Let_def split: if_splits)
  next
    case True
    show ?thesis
    proof (cases s)
      case None
      then show ?thesis using "1.prems" True le g
        by (subst (asm) get_line_loop.simps) (auto simp: Let_def split: if_splits)
    next
      case (Some t)
      have "get_line_loop mem (buf @ c_str t) (n + BUFFER_SIZE) g = (r, b, f')"
        using "1.prems" True Some g by (subst (asm) get_line_loop.simps) (simp add: Let_def)
      then show ?thesis
        using "1.IH" [OF _ refl _ g [symmetric] Some] True le by fastforce
    qed
  qed
qed

lemma IO_GetLine_reads:
  assumes "IO_GetLine mem buf f = (r, b, f')" "r = IO_SUCCESS \<or> r = IO_END_OF_BUFFER" "\<not> st_eof f"
  shows "left_to_read f' < left_to_read f"
proof -
  define n where "n = (if fst buf = None \<or> snd buf = 0 then BUFFER_SIZE else snd buf)"
  obtain s g where g: "fgets n f = (s, g)" by (cases "fgets n f")
  show ?thesis
  proof (cases s)
    case None
    then have "f' = g" "st_eof g"
      using assms(1,2) g by (auto simp: IO_GetLine_def Let_def n_def [symmetric] split: if_splits)
    then show ?thesis using fgets_reads [OF g] assms(3) by (simp add: left_to_read_def)
  next
    case (Some t)
    then have "get_line_loop mem (c_str t) n g = (r, b, f')"
      using assms(1,2) g by (auto simp: IO_GetLine_def Let_def n_def [symmetric] split: if_splits)
    from get_line_loop_reads [OF this] show ?thesis
      using fgets_shrinks g Some assms(3) by (fastforce simp: left_to_read_def)
  qed
qed

section \<open>Properties\<close>

text \<open>
  From a position in the string, the search returns the first index at which the pattern starts,
  and \<open>npos\<close> when there is none before the terminator.
\<close>

theorem cstr_find_first:
  assumes "NUL \<notin> set t" "pos \<le> length s" "length s < CStr_npos"
  shows "CStr_find s t pos = Some (if \<exists>k. pos \<le> k \<and> k < length s \<and> prefix t (drop k s)
      then LEAST k. pos \<le> k \<and> k < length s \<and> prefix t (drop k s) else CStr_npos)"
proof -
  let ?P = "\<lambda>k. k < length (drop pos s) \<and> prefix t (drop k (drop pos s))"
  let ?Q = "\<lambda>k. pos \<le> k \<and> k < length s \<and> prefix t (drop k s)"
  have PQ: "?P k \<longleftrightarrow> ?Q (pos + k)" for k by (auto simp: add.commute)
  have ex: "(\<exists>k. ?P k) \<longleftrightarrow> (\<exists>k. ?Q k)" using PQ by (metis le_iff_add)
  have "pos + (LEAST k. ?P k) = (LEAST k. ?Q k)" if "\<exists>k. ?P k"
  proof (rule Least_equality [symmetric])
    show "?Q (pos + (LEAST k. ?P k))" using LeastI_ex [OF that] PQ by blast
    show "pos + (LEAST k. ?P k) \<le> y" if "?Q y" for y
    proof -
      have "?P (y - pos)" using that PQ [of "y - pos"] by simp
      then have "(LEAST k. ?P k) \<le> y - pos" by (rule Least_le)
      then show ?thesis using that by linarith
    qed
  qed
  then show ?thesis using assms(2) find_pattern_spec [OF assms(1), of "drop pos s" pos] ex
    by (auto simp: CStr_find_def)
qed

theorem cstr_find_first_witness: "CStr_find ''abcabc'' ''bc'' 2 = Some 4"
proof -
  let ?Q = "\<lambda>k. 2 \<le> k \<and> k < length ''abcabc'' \<and> prefix ''bc'' (drop k ''abcabc'')"
  have 4: "?Q 4" by simp
  have "(LEAST k. ?Q k) = 4"
  proof (rule Least_equality)
    show "?Q 4" by (rule 4)
  next
    fix y assume y: "?Q y"
    show "4 \<le> y"
    proof (rule ccontr)
      assume "\<not> 4 \<le> y"
      then have "y = 2 \<or> y = 3" using y by auto
      then show False using y by auto
    qed
  qed
  moreover have "CStr_find ''abcabc'' ''bc'' 2 = Some (if \<exists>k. ?Q k then LEAST k. ?Q k else CStr_npos)"
    by (rule cstr_find_first) (simp_all add: CStr_npos_def)
  moreover have "\<exists>k. ?Q k" using 4 by blast
  ultimately show ?thesis by (simp only: if_True)
qed

text \<open>
  With memory and without read errors, \<open>UTILS_IO_GetLine\<close> returns exactly the next line with
  its newline, whatever its length, in a buffer that holds it, and leaves the stream behind it, except
  when the line and its terminator exactly fill the buffer at its first or at an enlarged size.
\<close>

theorem getline_returns_line:
  assumes "\<forall>n. mem n" "\<not> st_error f" "NUL \<notin> set (st_rest f)" "st_rest f \<noteq> []"
    and "n = (if fst buf = None \<or> snd buf = 0 then 1024 else snd buf)" "2 \<le> n"
    and "length (line (st_rest f)) + 1 < n \<or> (length (line (st_rest f)) + 1 - n) mod 1024 \<noteq> 0"
  shows "\<exists>n'. IO_GetLine mem buf f = (IO_SUCCESS, (Some (line (st_rest f)), n'), after_line f)
    \<and> length (line (st_rest f)) < n'"
  using IO_GetLine_line [of mem f n buf] assms by blast

definition two_lines :: stream where
  "two_lines = \<lparr>st_rest = ''ab'' @ [NEWLINE] @ ''c'', st_eof = False, st_error = False\<rparr>"

theorem getline_returns_line_witness:
  "\<exists>n'. IO_GetLine (\<lambda>_. True) (None, 0) two_lines = (IO_SUCCESS, (Some (''ab'' @ [NEWLINE]), n'),
      \<lparr>st_rest = ''c'', st_eof = False, st_error = False\<rparr>) \<and> Suc (Suc (Suc 0)) < n'"
  using getline_returns_line [of "\<lambda>_. True" two_lines 1024 "(None, 0)"]
  by (simp add: two_lines_def after_line_def)

text \<open>
  A line whose length with its newline is 1023, one less than the size of a fresh buffer, is
  returned together with the line that follows it, as if they were one.
\<close>

theorem getline_glues_lines:
  assumes "\<forall>n. mem n" "\<not> st_error f" "st_rest f = a @ NEWLINE # b @ NEWLINE # c" "NUL \<notin> set (st_rest f)"
    and "length a = 1022" "NEWLINE \<notin> set a" "NEWLINE \<notin> set b" "length b < 1023"
  shows "IO_GetLine mem (None, 0) f = (IO_SUCCESS, (Some (a @ NEWLINE # b @ [NEWLINE]), 2048), f\<lparr>st_rest := c\<rparr>)"
  using IO_GetLine_glued [of mem f a b c] assms by blast

theorem getline_glues_lines_witness:
  "IO_GetLine (\<lambda>_. True) (None, 0)
      \<lparr>st_rest = replicate 1022 CHR ''x'' @ NEWLINE # ''y'' @ NEWLINE # ''z'', st_eof = False, st_error = False\<rparr>
    = (IO_SUCCESS, (Some (replicate 1022 CHR ''x'' @ NEWLINE # ''y'' @ [NEWLINE]), 2048),
       \<lparr>st_rest = ''z'', st_eof = False, st_error = False\<rparr>)"
  by (subst getline_glues_lines [of "\<lambda>_. True" _ "replicate 1022 CHR ''x''" "''y''" "''z''"]) simp_all

end
