(* ===== verification/Scorep_Path.thy ===== *)
theory Scorep_Path
  imports Scorep_IO
begin

text \<open>
  The path functions of \<open>src/common/utils/src/io/UTILS_IO_Tools.c\<close>.

  A path that is only read is a string; the buffer that \<open>UTILS_IO_JoinPath\<close> fills and the
  argument of \<open>UTILS_IO_SimplifyPath\<close>, which is changed in place, are the list of all their
  cells, the terminator included: an access outside of them is \<open>None\<close>. Lengths are below
  \<open>2 ^ 31\<close>, so positions of type \<open>int\<close> are not wrapped. Host name, working directory, file
  copy and the search of the executable only pass on system calls and are not modelled.
\<close>

section \<open>Paths that are only read\<close>

definition HasPath :: "string \<Rightarrow> bool" where
  "HasPath path \<longleftrightarrow> length (takeWhile (\<lambda>c. c \<noteq> SLASH) path) < length path"

text \<open>\<open>n\<close> counts the positions that are left; the result is the string behind the last slash.\<close>

fun without_path :: "string \<Rightarrow> nat \<Rightarrow> string" where
  "without_path path 0 = path"
| "without_path path (Suc pos) = (if path ! pos = SLASH then drop (pos + 1) path else without_path path pos)"

definition GetWithoutPath :: "string \<Rightarrow> string" where
  "GetWithoutPath path = without_path path (length path)"

section \<open>Joining paths\<close>

text \<open>\<open>strcpy\<close> into the cells from an offset on.\<close>

definition copy_string :: "string \<Rightarrow> nat \<Rightarrow> string \<Rightarrow> string option" where
  "copy_string cells off s =
     (if off + length s < length cells
      then Some (take off cells @ s @ [NUL] @ drop (off + length s + 1) cells) else None)"

fun join_measure :: "string list \<Rightarrow> nat \<Rightarrow> nat \<Rightarrow> string \<Rightarrow> nat \<Rightarrow> nat \<times> nat" where
  "join_measure [] i len sep last_absolute = (len, last_absolute)"
| "join_measure (path # paths) i len sep last_absolute =
     (if length path = 0 then join_measure paths (i + 1) len sep last_absolute
      else let (len, sep, last_absolute) =
             (if path ! 0 = SLASH then (0, [], i) else (len, sep, last_absolute))
           in join_measure paths (i + 1) (len + (length sep + length path)) [SLASH] last_absolute)"

fun join_copy :: "string list \<Rightarrow> nat \<Rightarrow> nat \<Rightarrow> string \<Rightarrow> nat \<Rightarrow> string \<Rightarrow> (string \<times> nat) option" where
  "join_copy [] i len sep last_absolute cells = Some (cells, len)"
| "join_copy (path # paths) i len sep last_absolute cells =
     (if i < last_absolute \<or> length path = 0 then join_copy paths (i + 1) len sep last_absolute cells
      else do {
        cells \<leftarrow> copy_string cells len sep;
        let len = len + length sep;
        cells \<leftarrow> copy_string cells len path;
        join_copy paths (i + 1) (len + length path) [SLASH] last_absolute cells
      })"

text \<open>A null argument ends the first loop with the result null; \<open>junk\<close> fills the new memory.\<close>

definition JoinPath :: "(nat \<Rightarrow> bool) \<Rightarrow> char \<Rightarrow> string option list \<Rightarrow> string option option" where
  "JoinPath mem junk args =
     (if None \<in> set args then Some None
      else let paths = map the args; (len, last_absolute) = join_measure paths 0 0 [] 0
           in if \<not> mem (len + 1) then Some None
              else do {
                (cells, n) \<leftarrow> join_copy paths 0 0 [] last_absolute (replicate (len + 1) junk);
                cells \<leftarrow> arr_set cells n NUL;
                Some (Some (c_str cells))
              })"

section \<open>Simplifying a path in place\<close>

definition char_at :: "string \<Rightarrow> int \<Rightarrow> char option" where
  "char_at p i = (if i < 0 then None else arr_get p (nat i))"

definition set_char :: "string \<Rightarrow> int \<Rightarrow> char \<Rightarrow> string option" where
  "set_char p i c = (if i < 0 then None else arr_set p (nat i) c)"

definition char_is :: "string \<Rightarrow> int \<Rightarrow> char \<Rightarrow> bool option" where
  "char_is p i c = do { x \<leftarrow> char_at p i; Some (x = c) }"

text \<open>The operators \<open>&&\<close> and \<open>||\<close>: the second operand is evaluated only if needed.\<close>

definition andC :: "bool option \<Rightarrow> bool option \<Rightarrow> bool option" where
  "andC a b = do { x \<leftarrow> a; if x then b else Some False }"

definition orC :: "bool option \<Rightarrow> bool option \<Rightarrow> bool option" where
  "orC a b = do { x \<leftarrow> a; if x then Some True else b }"

text \<open>The size of \<open>memmove\<close> is unsigned: a negative number is larger than any buffer.\<close>

definition move_cells :: "string \<Rightarrow> int \<Rightarrow> int \<Rightarrow> int \<Rightarrow> string option" where
  "move_cells p dst src n =
     (if n < 0 \<or> (n > 0 \<and> (dst < 0 \<or> src < 0 \<or> dst + n > int (length p) \<or> src + n > int (length p))) then None
      else if n = 0 then Some p
      else Some (take (nat dst) p @ take (nat n) (drop (nat src) p) @ drop (nat (dst + n)) p))"

lemma length_move_cells: "move_cells p dst src n = Some q \<Longrightarrow> length q = length p"
  by (auto simp: move_cells_def split: if_splits)

text \<open>Removing double slashes and \<open>/./\<close>: the cells, \<open>len\<close>, \<open>level\<close> and \<open>has_slashes\<close> at the end.\<close>

function squeeze_loop :: "string \<Rightarrow> int \<Rightarrow> int \<Rightarrow> bool \<Rightarrow> (string \<times> int \<times> int \<times> bool) option" where
  "squeeze_loop p len level has_slashes = do {
     c \<leftarrow> char_at p len;
     if c = NUL then Some (p, len, level, has_slashes)
     else do {
       p \<leftarrow> set_char p (len - level) c;
       s \<leftarrow> char_is p len SLASH;
       let has_slashes = (has_slashes \<or> s);
       double \<leftarrow> andC (char_is p len SLASH) (char_is p (len + 1) SLASH);
       let level = (if double then level + 1 else level);
       dot \<leftarrow> andC (char_is p len SLASH) (andC (char_is p (len + 1) DOT) (char_is p (len + 2) SLASH));
       if dot then squeeze_loop p (len + 2) (level + 2) has_slashes
       else squeeze_loop p (len + 1) level has_slashes
     }
   }"
  by pat_completeness auto
termination
  by (relation "measure (\<lambda>(p, len, level, b). nat (int (length p) - len))")
     (auto simp: char_at_def set_char_def abort_simps split: if_splits)

declare squeeze_loop.simps [simp del]

text \<open>Removing \<open>name/..\<close> from the end to the start: the cells, \<open>len\<close>, \<open>cut_end\<close> and \<open>level\<close>.\<close>

function dotdot_loop :: "int \<Rightarrow> string \<Rightarrow> int \<Rightarrow> int \<Rightarrow> int \<Rightarrow> (string \<times> int \<times> int \<times> int) option" where
  "dotdot_loop pos p len cut_end level =
     (if pos < 0 then Some (p, len, cut_end, level)
      else do {
        dd \<leftarrow> andC (Some (pos \<ge> 3)) (andC (orC (char_is p (pos + 1) SLASH) (char_is p (pos + 1) NUL))
               (andC (char_is p pos DOT) (andC (char_is p (pos - 1) DOT) (char_is p (pos - 2) SLASH))));
        if dd then dotdot_loop (pos - 3) p len (if level = 0 then pos + 1 else cut_end) (level + 1)
        else do {
          s \<leftarrow> char_is p pos SLASH;
          if \<not> s then dotdot_loop (pos - 1) p len cut_end level
          else if \<not> level > 0 then dotdot_loop (pos - 1) p len pos level
          else if level - 1 \<noteq> 0 then dotdot_loop (pos - 1) p len cut_end (level - 1)
          else do {
            let diff = cut_end - pos;
            let len = len - diff;
            p \<leftarrow> move_cells p pos (pos + diff) (len - pos + 1);
            dotdot_loop (pos - 1) p len pos 0
          }
        }
      })"
  by pat_completeness auto
termination
  by (relation "measure (\<lambda>(pos, p, len, cut_end, level). nat (pos + 1))")
     (auto simp: andC_def split: if_splits bind_splits)

declare dotdot_loop.simps [simp del]

text \<open>Writing \<open>../\<close> \<open>n\<close> times from \<open>pos\<close> on.\<close>

fun put_dotdots :: "nat \<Rightarrow> int \<Rightarrow> string \<Rightarrow> string option" where
  "put_dotdots 0 pos p = Some p"
| "put_dotdots (Suc n) pos p = do {
     p \<leftarrow> set_char p pos DOT;
     p \<leftarrow> set_char p (pos + 1) DOT;
     p \<leftarrow> set_char p (pos + 2) SLASH;
     put_dotdots n (pos + 3) p
   }"

text \<open>The cells before the first terminator; without one, reading leaves the buffer.\<close>

definition string_of :: "string \<Rightarrow> string option" where
  "string_of p = (if NUL \<in> set p then Some (c_str p) else None)"

text \<open>The first path item of a relative path, when levels are left: the cells and \<open>len\<close>.\<close>

definition cut_first_item :: "string \<Rightarrow> int \<Rightarrow> int \<Rightarrow> int \<Rightarrow> (string \<times> int) option" where
  "cut_first_item p len cut_end level = do {
     up \<leftarrow> andC (char_is p 0 DOT) (andC (char_is p 1 DOT) (char_is p 2 SLASH));
     here \<leftarrow> (if up then Some False else andC (char_is p 0 DOT) (char_is p 1 SLASH));
     let level = (if up then level + 1 else if \<not> here then level - 1 else level);
     p \<leftarrow> put_dotdots (nat level) 0 p;
     let pos = 3 * level;
     let cut_end = cut_end + 1;
     let diff = cut_end - pos;
     let len = len - diff;
     p \<leftarrow> move_cells p pos (pos + diff) (len - pos + 1);
     p \<leftarrow> (if len < 0 then set_char p 0 NUL else Some p);
     Some (p, len)
   }"

definition SimplifyPath :: "string \<Rightarrow> string option" where
  "SimplifyPath p = do {
     has_starting_slash \<leftarrow> char_is p 0 SLASH;
     (p, len, level, has_slashes) \<leftarrow> squeeze_loop p 0 0 False;
     let len = len - level;
     has_trailing_slash \<leftarrow> andC (Some (len > 0)) (char_is p (len - 1) SLASH);
     let len = (if has_trailing_slash then len - 1 else len);
     p \<leftarrow> set_char p len NUL;
     (p, len, cut_end, level) \<leftarrow> dotdot_loop (len - 1) p len len 0;
     slash \<leftarrow> char_is p 0 SLASH;
     (p, len) \<leftarrow> (if \<not> slash \<and> level > 0 then cut_first_item p len cut_end level else Some (p, len));
     p \<leftarrow> (if has_trailing_slash then do { p \<leftarrow> set_char p len SLASH; set_char p (len + 1) NUL } else Some p);
     empty \<leftarrow> char_is p 0 NUL;
     p \<leftarrow> (if has_starting_slash \<and> empty then do { p \<leftarrow> set_char p 0 SLASH; set_char p 1 NUL } else Some p);
     bare \<leftarrow> (if has_slashes then do { s \<leftarrow> string_of p; Some (\<not> HasPath s) } else Some False);
     bare \<leftarrow> andC (Some bare) (do { e \<leftarrow> char_is p 0 NUL; Some (\<not> e) });
     if bare then do {
       p \<leftarrow> move_cells p 2 0 (len + 1);
       p \<leftarrow> set_char p 0 DOT;
       set_char p 1 SLASH
     } else Some p
   }"

lemma without_path_spec:
  "n \<le> length p \<Longrightarrow> SLASH \<notin> set (drop n p) \<Longrightarrow>
     without_path p n = rev (takeWhile (\<lambda>c. c \<noteq> SLASH) (rev p))"
proof (induction n)
  case 0
  then have e: "takeWhile (\<lambda>c. c \<noteq> SLASH) (rev p) = rev p" by (auto simp: takeWhile_eq_all_conv)
  show ?case unfolding without_path.simps e by simp
next
  case (Suc n)
  have d: "drop n p = p ! n # drop (Suc n) p" using Suc.prems by (simp add: Cons_nth_drop_Suc)
  show ?case
  proof (cases "p ! n = SLASH")
    case True
    have "rev p = rev (drop (Suc n) p) @ SLASH # rev (take n p)"
      using d True by (metis append.assoc append_Cons append_Nil append_take_drop_id rev.simps(2) rev_append)
    moreover have "SLASH \<notin> set (rev (drop (Suc n) p))" using Suc.prems by simp
    ultimately have "takeWhile (\<lambda>c. c \<noteq> SLASH) (rev p) = rev (drop (Suc n) p)"
      by (auto simp: takeWhile_append)
    then show ?thesis using True by simp
  next
    case False
    then show ?thesis using Suc d by auto
  qed
qed

section \<open>Joining\<close>

text \<open>The components from the last absolute one on, without the empty ones.\<close>

fun live :: "string list \<Rightarrow> string list" where
  "live [] = []"
| "live (p # ps) = (if \<exists>q \<in> set ps. prefix [SLASH] q then live ps else p # ps)"

fun joined :: "string \<Rightarrow> string list \<Rightarrow> string" where
  "joined sep [] = []"
| "joined sep (p # ps) = (if p = [] then joined sep ps else sep @ p @ joined [SLASH] ps)"

lemma absolute_nth: "prefix [SLASH] p \<longleftrightarrow> p \<noteq> [] \<and> p ! 0 = SLASH"
  by (cases p) auto

lemma live_suffix: "\<exists>k \<le> length ps. live ps = drop k ps"
proof (induction ps)
  case (Cons p ps)
  then show ?case by (auto intro: exI [of _ 0] exI [of _ "Suc k" for k])
qed simp

lemma join_measure_spec:
  "join_measure ps i len sep la =
     (if \<exists>q \<in> set ps. prefix [SLASH] q then (length (joined [] (live ps)), i + (length ps - length (live ps)))
      else (len + length (joined sep ps), la))"
proof (induction ps arbitrary: i len sep la)
  case (Cons p ps)
  have "length (live ps) \<le> length ps" using live_suffix [of ps] by auto
  moreover have "\<not> prefix [SLASH] (p :: string) \<Longrightarrow> p \<noteq> [] \<Longrightarrow> p ! 0 \<noteq> SLASH" by (cases p) auto
  ultimately show ?case
    using Cons.IH by (auto simp: absolute_nth Let_def Suc_diff_le)
qed simp

lemma copy_string_app:
  "length xs = length (s @ [NUL]) \<Longrightarrow> copy_string (pre @ xs @ r) (length pre) s = Some (pre @ s @ NUL # r)"
  by (simp add: copy_string_def)

lemma join_copy_skip: "i + k \<le> la \<Longrightarrow> k \<le> length ps \<Longrightarrow>
    join_copy ps i len sep la cells = join_copy (drop k ps) (i + k) len sep la cells"
proof (induction k arbitrary: ps i)
  case (Suc k)
  then obtain p ps' where "ps = p # ps'" by (cases ps) auto
  then show ?case using Suc.IH [of "Suc i" ps'] Suc.prems by simp
qed simp

lemma join_copy_spec:
  "la \<le> i \<Longrightarrow> length pre + length (joined sep ps) < length cells \<Longrightarrow> take (length pre) cells = pre \<Longrightarrow>
     \<exists>cells'. join_copy ps i (length pre) sep la cells = Some (cells', length (pre @ joined sep ps))
       \<and> length cells' = length cells \<and> take (length (pre @ joined sep ps)) cells' = pre @ joined sep ps"
proof (induction ps arbitrary: i pre sep cells)
  case (Cons p ps)
  show ?case
  proof (cases "p = []")
    case True
    then show ?thesis using Cons.IH [of "i + 1" pre sep cells] Cons.prems by simp
  next
    case False
    define c1 where "c1 = take (length pre) cells @ sep @ [NUL] @ drop (length pre + length sep + 1) cells"
    have c1: "copy_string cells (length pre) sep = Some c1" "length c1 = length cells"
      "take (length (pre @ sep)) c1 = pre @ sep"
      using Cons.prems False by (auto simp: copy_string_def c1_def)
    define c2 where "c2 = take (length (pre @ sep)) c1 @ p @ [NUL] @ drop (length (pre @ sep) + length p + 1) c1"
    have c2: "copy_string c1 (length pre + length sep) p = Some c2" "length c2 = length cells"
      "take (length (pre @ sep @ p)) c2 = pre @ sep @ p"
      using Cons.prems False c1(2,3) by (auto simp: copy_string_def c2_def)
    have "\<exists>cells'. join_copy ps (i + 1) (length (pre @ sep @ p)) [SLASH] la c2
        = Some (cells', length ((pre @ sep @ p) @ joined [SLASH] ps))
        \<and> length cells' = length c2 \<and> take (length ((pre @ sep @ p) @ joined [SLASH] ps)) cells'
          = (pre @ sep @ p) @ joined [SLASH] ps"
      by (rule Cons.IH) (use Cons.prems False c2 in auto)
    then show ?thesis using False Cons.prems(1) c1(1) c2(1,2) by (auto simp: Let_def add.assoc)
  qed
qed simp

lemma JoinPath_joined:
  assumes "None \<notin> set args" "mem (length (joined [] (live (map the args))) + 1)"
    and "\<forall>p \<in> set (map the args). NUL \<notin> set p"
  shows "JoinPath mem junk args = Some (Some (joined [] (live (map the args))))"
proof -
  let ?ps = "map the args" let ?j = "joined [] (live ?ps)"
  have nul: "NUL \<notin> set (joined s qs)" if "set qs \<subseteq> set ?ps" "NUL \<notin> set s" for s qs
    using that assms(3) by (induction qs arbitrary: s) (auto)
  obtain k where k: "k \<le> length ?ps" "live ?ps = drop k ?ps" using live_suffix by blast
  have nolive: "live ps = ps" if "\<not> (\<exists>q \<in> set ps. prefix [SLASH] q)" for ps
    using that by (cases ps) auto
  let ?la = "length ?ps - length (live ?ps)"
  have ms: "join_measure ?ps 0 0 [] 0 = (length ?j, ?la)"
    using nolive [of ?ps] by (auto simp: join_measure_spec)
  have "?la = k" using k by simp
  then have "join_copy ?ps 0 0 [] ?la cells = join_copy (live ?ps) k 0 [] k cells" for cells
    using join_copy_skip [of 0 k k ?ps 0 "[]" cells] k by simp
  moreover obtain cells' where c: "join_copy (live ?ps) k (length []) [] k (replicate (length ?j + 1) junk)
      = Some (cells', length ([] @ ?j))" "length cells' = length ?j + 1" "take (length ?j) cells' = ?j"
    using join_copy_spec [of k k "[]" "[]" "live ?ps" "replicate (length ?j + 1) junk"] by auto
  moreover have "c_str (cells'[length ?j := NUL]) = ?j"
  proof -
    have "cells'[length ?j := NUL] = ?j @ [NUL]" using c(2,3) by (simp add: upd_conv_take_nth_drop)
    moreover have "NUL \<notin> set ?j" using nul [of "live ?ps" "[]"] k(2) set_drop_subset [of k ?ps] by simp
    ultimately show ?thesis by (auto simp: c_str_def takeWhile_append)
  qed
  ultimately show ?thesis using assms(1,2) ms c(2) by (simp add: JoinPath_def Let_def)
qed

section \<open>What the in-place loops compute\<close>

text \<open>Where a character is dropped because the same one follows at once or behind a dot.\<close>

definition doubled :: "char \<Rightarrow> string \<Rightarrow> bool" where
  "doubled c cs \<longleftrightarrow> c = SLASH \<and> take 1 cs = [SLASH]"

definition dotted :: "char \<Rightarrow> string \<Rightarrow> bool" where
  "dotted c cs \<longleftrightarrow> c = SLASH \<and> take 2 cs = [DOT, SLASH]"

function squeeze :: "string \<Rightarrow> string" where
  "squeeze [] = []"
| "squeeze (c # cs) =
     (if doubled c cs then squeeze cs else if dotted c cs then squeeze (tl cs) else c # squeeze cs)"
  by pat_completeness auto
termination by (relation "measure length") auto

declare squeeze.simps(2) [simp del]

lemma squeeze_slash [simp]: "squeeze (SLASH # SLASH # cs) = squeeze (SLASH # cs)"
  by (simp add: squeeze.simps(2) [of SLASH "SLASH # cs"] doubled_def)

lemma squeeze_dot [simp]: "squeeze (SLASH # DOT # SLASH # cs) = squeeze (SLASH # cs)"
  by (simp add: squeeze.simps(2) [of SLASH "DOT # SLASH # cs"] doubled_def dotted_def)

lemma squeeze_other [simp]: "\<not> doubled c cs \<Longrightarrow> \<not> dotted c cs \<Longrightarrow> squeeze (c # cs) = c # squeeze cs"
  by (simp add: squeeze.simps(2))

lemma doubled_iff: "doubled c cs \<longleftrightarrow> c = SLASH \<and> (\<exists>r. cs = SLASH # r)"
  by (cases cs) (auto simp: doubled_def)

lemma dotted_iff: "dotted c cs \<longleftrightarrow> c = SLASH \<and> (\<exists>r. cs = DOT # SLASH # r)"
  by (cases cs; cases "tl cs") (auto simp: dotted_def)

lemma squeeze_induct [case_names Nil slash dot other]:
  assumes "P []" "\<And>r. P (SLASH # r) \<Longrightarrow> P (SLASH # SLASH # r)" "\<And>r. P (SLASH # r) \<Longrightarrow> P (SLASH # DOT # SLASH # r)"
    and "\<And>c cs. \<not> doubled c cs \<Longrightarrow> \<not> dotted c cs \<Longrightarrow> P cs \<Longrightarrow> P (c # cs)"
  shows "P s"
proof (induction s rule: squeeze.induct)
  case (2 c cs)
  show ?case
  proof (cases "doubled c cs \<or> dotted c cs")
    case True
    then show ?thesis
    proof
      assume "doubled c cs"
      then show ?thesis using 2(1) assms(2) by (auto simp: doubled_iff)
    next
      assume d: "dotted c cs"
      then have "\<not> doubled c cs" by (auto simp: doubled_iff dotted_iff)
      with d show ?thesis using 2(2) assms(3) by (auto simp: dotted_iff)
    qed
  next
    case False
    then show ?thesis using 2(3) assms(4) by blast
  qed
qed (rule assms(1))

lemma length_squeeze: "length (squeeze s) \<le> length s"
  by (induction s rule: squeeze_induct) simp_all

lemma slash_squeeze: "SLASH \<in> set (squeeze s) \<longleftrightarrow> SLASH \<in> set s"
  by (induction s rule: squeeze_induct) auto

lemma set_squeeze: "set (squeeze s) \<subseteq> set s"
  by (induction s rule: squeeze_induct) auto

lemma hd_squeeze: "s \<noteq> [] \<Longrightarrow> squeeze s \<noteq> [] \<and> hd (squeeze s) = hd s"
  by (induction s rule: squeeze_induct) auto

definition updir :: "string \<Rightarrow> bool" where
  "updir s \<longleftrightarrow> sublist [SLASH, DOT, DOT] s"

lemma updir_Cons: "updir (c # s) \<longleftrightarrow> c = SLASH \<and> prefix [DOT, DOT] s \<or> updir s"
  by (auto simp: updir_def sublist_Cons_right)

lemma prefix_squeeze: "prefix [DOT, DOT] (squeeze s) \<Longrightarrow> prefix [DOT, DOT] s"
proof -
  assume *: "prefix [DOT, DOT] (squeeze s)"
  then have "s \<noteq> []" by auto
  then obtain s' where s: "s = DOT # s'"
    using hd_squeeze [of s] * by (cases s; cases "squeeze s") auto
  then have d: "prefix [DOT] (squeeze s')" using * by (simp add: doubled_def dotted_def)
  then have "s' \<noteq> []" by auto
  then show ?thesis using s hd_squeeze [of s'] d by (cases s'; cases "squeeze s'") auto
qed

lemma updir_squeeze: "updir (squeeze s) \<Longrightarrow> updir s"
  by (induction s rule: squeeze_induct) (auto simp: updir_Cons dest: prefix_squeeze)

lemma char_at_nth: "0 \<le> i \<Longrightarrow> i < int (length p) \<Longrightarrow> char_at p i = Some (p ! nat i)"
  by (simp add: char_at_def arr_get_def nat_less_iff)

lemma char_at_app: "char_at (p @ q) (int (length p) + int n) = char_at q (int n)"
  by (simp add: char_at_def arr_get_def nth_append nat_add_distrib)

lemma set_char_app: "set_char (p @ c # q) (int (length p)) d = Some (p @ d # q)"
  by (simp add: set_char_def arr_set_def)

lemma char_at_app_simps:
  "char_at (p @ c # q) (int (length p)) = Some c"
  "char_at (p @ c # c1 # q) (int (length p) + 1) = Some c1"
  "char_at (p @ c # c1 # c2 # q) (int (length p) + 2) = Some c2"
  using char_at_app [of p "c # q" 0] char_at_app [of p "c # c1 # q" 1] char_at_app [of p "c # c1 # c2 # q" 2]
  by (simp_all add: char_at_def arr_get_def)

text \<open>One pass of the loop; \<open>p @ gap\<close> is what it has written and skipped.\<close>

lemma squeeze_step:
  assumes "c \<noteq> NUL" "NUL \<notin> set cs"
  shows "squeeze_loop (p @ gap @ c # cs @ NUL # junk) (int (length (p @ gap))) (int (length gap)) hs
    = (let q = p @ c # tl (gap @ [c]) @ cs @ NUL # junk; len = int (length (p @ gap)); hs' = (hs \<or> c = SLASH)
       in if dotted c cs then squeeze_loop q (len + 2) (int (length gap) + 2) hs'
          else squeeze_loop q (len + 1) (int (length gap) + (if doubled c cs then 1 else 0)) hs')"
proof -
  let ?q = "p @ c # tl (gap @ [c]) @ cs @ NUL # junk" and ?len = "int (length (p @ gap))"
  have w: "set_char (p @ gap @ c # cs @ NUL # junk) (?len - int (length gap)) c = Some ?q"
    using set_char_app [of p "hd (gap @ [c])" "tl (gap @ [c]) @ cs @ NUL # junk" c] by (cases gap) simp_all
  define f where "f = butlast (c # tl (gap @ [c]))"
  have "last (c # tl (gap @ [c])) = c" by (cases gap) simp_all
  then have fc: "c # tl (gap @ [c]) = f @ [c]" unfolding f_def by (metis append_butlast_last_id list.discI)
  have "?q = p @ (c # tl (gap @ [c])) @ cs @ NUL # junk" by simp
  also have "\<dots> = (p @ f) @ c # cs @ NUL # junk" by (simp only: fc append_assoc append_Cons append_Nil)
  finally have q: "?q = (p @ f) @ c # cs @ NUL # junk" .
  have f: "length f = length gap" by (cases gap) (simp_all add: f_def)
  have l: "?len = int (length (p @ f))" using f by simp
  have "char_at (p @ gap @ c # cs @ NUL # junk) ?len = Some c"
    using char_at_app_simps(1) [of "p @ gap" c] by simp
  moreover have "char_is ?q ?len SLASH = Some (c = SLASH)"
    unfolding q l char_is_def by (simp only: char_at_app_simps) simp
  moreover have "andC (char_is ?q ?len SLASH) (char_is ?q (?len + 1) SLASH) = Some (doubled c cs)"
    unfolding q l char_is_def doubled_def
    by (cases cs) (simp_all only: char_at_app_simps append_Cons append_Nil, simp_all add: andC_def)
  moreover have "andC (char_is ?q ?len SLASH) (andC (char_is ?q (?len + 1) DOT) (char_is ?q (?len + 2) SLASH))
      = Some (dotted c cs)"
    unfolding q l char_is_def dotted_def
    by (cases cs; cases "tl cs") (simp_all only: char_at_app_simps append_Cons append_Nil list.sel, simp_all add: andC_def)
  moreover have "\<not> (doubled c cs \<and> dotted c cs)" by (auto simp: doubled_iff dotted_iff)
  ultimately show ?thesis
    using w assms(1) by (subst squeeze_loop.simps) (auto simp: Let_def simp del: append_assoc length_append of_nat_add)
qed


lemma squeeze_loop_spec:
  assumes "NUL \<notin> set s"
  shows "\<exists>gap'. squeeze_loop (p @ gap @ s @ NUL # junk) (int (length (p @ gap))) (int (length gap)) hs
     = Some (p @ squeeze s @ gap' @ NUL # junk, int (length (p @ gap @ s)), int (length gap'), hs \<or> SLASH \<in> set s)
    \<and> length (squeeze s @ gap') = length (gap @ s)"
  using assms
proof (induction s arbitrary: p gap hs rule: squeeze_induct)
  case Nil
  have "char_at (p @ gap @ NUL # junk) (int (length (p @ gap))) = Some NUL"
    using char_at_app_simps(1) [of "p @ gap" NUL junk] by simp
  then show ?case by (subst squeeze_loop.simps) (auto intro: exI [of _ gap])
next
  case (slash r)
  let ?gap = "SLASH # tl (gap @ [SLASH])"
  have "squeeze_loop (p @ gap @ (SLASH # SLASH # r) @ NUL # junk) (int (length (p @ gap))) (int (length gap)) hs
      = squeeze_loop (p @ ?gap @ (SLASH # r) @ NUL # junk) (int (length (p @ ?gap))) (int (length ?gap)) True"
    using squeeze_step [of SLASH "SLASH # r" p gap junk hs] slash.prems
    by (simp add: doubled_def dotted_def add.commute)
  moreover obtain gap' where "squeeze_loop (p @ ?gap @ (SLASH # r) @ NUL # junk) (int (length (p @ ?gap)))
       (int (length ?gap)) True
     = Some (p @ squeeze (SLASH # r) @ gap' @ NUL # junk, int (length (p @ ?gap @ SLASH # r)), int (length gap'), True)"
    "length (squeeze (SLASH # r) @ gap') = length (?gap @ SLASH # r)"
    using slash.IH [of p ?gap True] slash.prems by auto
  ultimately show ?case by (intro exI [of _ gap']) simp
next
  case (dot r)
  let ?gap = "SLASH # tl (gap @ [SLASH]) @ [DOT]"
  have "squeeze_loop (p @ gap @ (SLASH # DOT # SLASH # r) @ NUL # junk) (int (length (p @ gap))) (int (length gap)) hs
      = squeeze_loop (p @ ?gap @ (SLASH # r) @ NUL # junk) (int (length (p @ ?gap))) (int (length ?gap)) True"
    using squeeze_step [of SLASH "DOT # SLASH # r" p gap junk hs] dot.prems
    by (simp add: doubled_def dotted_def add.commute)
  moreover obtain gap' where "squeeze_loop (p @ ?gap @ (SLASH # r) @ NUL # junk) (int (length (p @ ?gap)))
       (int (length ?gap)) True
     = Some (p @ squeeze (SLASH # r) @ gap' @ NUL # junk, int (length (p @ ?gap @ SLASH # r)), int (length gap'), True)"
    "length (squeeze (SLASH # r) @ gap') = length (?gap @ SLASH # r)"
    using dot.IH [of p ?gap True] dot.prems by auto
  ultimately show ?case by (intro exI [of _ gap']) simp
next
  case (other c cs)
  let ?gap = "tl (gap @ [c])"
  have "squeeze_loop (p @ gap @ (c # cs) @ NUL # junk) (int (length (p @ gap))) (int (length gap)) hs
      = squeeze_loop ((p @ [c]) @ ?gap @ cs @ NUL # junk) (int (length ((p @ [c]) @ ?gap))) (int (length ?gap)) (hs \<or> c = SLASH)"
    using squeeze_step [of c cs p gap junk hs] other.prems other.hyps by (auto simp: add.commute)
  moreover obtain gap' where "squeeze_loop ((p @ [c]) @ ?gap @ cs @ NUL # junk) (int (length ((p @ [c]) @ ?gap)))
       (int (length ?gap)) (hs \<or> c = SLASH)
     = Some ((p @ [c]) @ squeeze cs @ gap' @ NUL # junk, int (length ((p @ [c]) @ ?gap @ cs)), int (length gap'),
         (hs \<or> c = SLASH) \<or> SLASH \<in> set cs)"
    "length (squeeze cs @ gap') = length (?gap @ cs)"
    using other.IH [of "p @ [c]" ?gap "hs \<or> c = SLASH"] other.prems by auto
  ultimately show ?case using other.hyps by (intro exI [of _ gap']) auto
qed

text \<open>Without \<open>/..\<close> the second loop only moves \<open>cut_end\<close>.\<close>

lemma char_is_nth: "0 \<le> i \<Longrightarrow> i < int (length p) \<Longrightarrow> char_is p i c = Some (p ! nat i = c)"
  by (simp add: char_is_def char_at_nth)

lemma andC_simps [simp]:
  "andC (Some False) b = Some False" "andC (Some True) b = b"
  by (simp_all add: andC_def)

lemma orC_Some [simp]: "orC (Some x) (Some y) = Some (x \<or> y)"
  by (simp add: orC_def)

lemma dotdot_step:
  assumes "0 \<le> pos" "pos + 1 < int (length p)"
    and no: "pos \<ge> 3 \<Longrightarrow> p ! nat pos = DOT \<Longrightarrow> p ! nat (pos - 1) = DOT \<Longrightarrow> p ! nat (pos - 2) \<noteq> SLASH"
  shows "dotdot_loop pos p len cut_end level =
     (if p ! nat pos \<noteq> SLASH then dotdot_loop (pos - 1) p len cut_end level
      else if \<not> level > 0 then dotdot_loop (pos - 1) p len pos level
      else if level - 1 \<noteq> 0 then dotdot_loop (pos - 1) p len cut_end (level - 1)
      else do {
        p \<leftarrow> move_cells p pos cut_end (len - (cut_end - pos) - pos + 1);
        dotdot_loop (pos - 1) p (len - (cut_end - pos)) pos 0
      })"
proof -
  have c: "char_is p (pos + 1) SLASH = Some (p ! nat (pos + 1) = SLASH)"
    "char_is p (pos + 1) NUL = Some (p ! nat (pos + 1) = NUL)"
    "char_is p pos DOT = Some (p ! nat pos = DOT)" "char_is p pos SLASH = Some (p ! nat pos = SLASH)"
    using assms(1,2) by (simp_all add: char_is_nth)
  have d: "char_is p (pos - 1) DOT = Some (p ! nat (pos - 1) = DOT)"
    "char_is p (pos - 2) SLASH = Some (p ! nat (pos - 2) = SLASH)" if "pos \<ge> 3"
    using assms(2) that by (simp_all add: char_is_nth)
  have "andC (Some (pos \<ge> 3)) (andC (orC (char_is p (pos + 1) SLASH) (char_is p (pos + 1) NUL))
       (andC (char_is p pos DOT) (andC (char_is p (pos - 1) DOT) (char_is p (pos - 2) SLASH)))) = Some False"
    using no by (cases "pos \<ge> 3") (auto simp: c d andC_def)
  then show ?thesis
    using assms(1) by (subst dotdot_loop.simps) (simp add: c Let_def del: andC_simps)
qed


lemma dotdot_none:
  assumes "n < length p" "\<And>i. 3 \<le> i \<Longrightarrow> i < n \<Longrightarrow> p ! i = DOT \<Longrightarrow> p ! (i - 1) = DOT \<Longrightarrow> p ! (i - 2) \<noteq> SLASH"
  shows "\<exists>ce. dotdot_loop (int n - 1) p len cut_end 0 = Some (p, len, ce, 0)"
  using assms
proof (induction n arbitrary: cut_end)
  case 0
  then show ?case by (subst dotdot_loop.simps) simp
next
  case (Suc n)
  have no: "p ! nat (int n) = DOT \<Longrightarrow> p ! nat (int n - 1) = DOT \<Longrightarrow> p ! nat (int n - 2) \<noteq> SLASH" if "int n \<ge> 3"
    using Suc.prems(2) [of n] that by (simp add: nat_diff_distrib)
  have "dotdot_loop (int n) p len cut_end 0
      = dotdot_loop (int n - 1) p len (if p ! n \<noteq> SLASH then cut_end else int n) 0"
    using dotdot_step [of "int n" p len cut_end 0] no Suc.prems(1) by auto
  then show ?case using Suc.IH Suc.prems by simp
qed

text \<open>Within a name the loop finds nothing to do.\<close>

lemma dotdot_name:
  assumes "n < length p" "\<And>i. i < n \<Longrightarrow> p ! i \<noteq> SLASH"
  shows "dotdot_loop (int n - 1) p len cut_end level = Some (p, len, cut_end, level)"
  using assms
proof (induction n)
  case 0
  then show ?case by (subst dotdot_loop.simps) simp
next
  case (Suc n)
  have "p ! nat (int n - 2) \<noteq> SLASH" if "int n \<ge> 3" using Suc.prems(2) [of "n - 2"] that by (simp add: nat_diff_distrib)
  then show ?case
    using dotdot_step [of "int n" p len cut_end level] Suc by simp
qed

lemma updir_nth: "3 \<le> i \<Longrightarrow> i < length q \<Longrightarrow> q ! i = DOT \<Longrightarrow> q ! (i - 1) = DOT \<Longrightarrow> q ! (i - 2) = SLASH \<Longrightarrow> updir q"
proof -
  assume i: "3 \<le> i" "i < length q" "q ! i = DOT" "q ! (i - 1) = DOT" "q ! (i - 2) = SLASH"
  have "q = take (i - 2) q @ [q ! (i - 2), q ! (i - 1), q ! i] @ drop (i + 1) q"
    using i(1,2) id_take_nth_drop [of "i - 2" q] Cons_nth_drop_Suc [of "i - 1" q] Cons_nth_drop_Suc [of i q]
    by (simp add: Suc_diff_le numeral_2_eq_2 Suc_diff_Suc)
  then show ?thesis unfolding updir_def sublist_def using i(3-5) by metis
qed


lemma HasPath_iff: "HasPath s \<longleftrightarrow> SLASH \<in> set s"
  unfolding HasPath_def by (induction s) auto

lemma string_of_app: "NUL \<notin> set q \<Longrightarrow> string_of (q @ NUL # r) = Some q"
  by (auto simp: string_of_def c_str_def takeWhile_append)

lemma set_char_nat: "i < length p \<Longrightarrow> set_char p (int i) c = Some (p[i := c])"
  by (simp add: set_char_def)

text \<open>Cutting a trailing slash and appending it again terminates the string behind it.\<close>

lemma trailing_slash:
  assumes "p = q @ z # r" "t \<longleftrightarrow> q \<noteq> [] \<and> last q = SLASH" "n = (if t then length q - 1 else length q)"
  shows "(if t then do { p \<leftarrow> set_char (p[n := NUL]) (int n) SLASH; set_char p (int n + 1) NUL } else Some (p[n := NUL]))
    = Some (q @ NUL # r)"
proof (cases t)
  case True
  then obtain ys where q: "q = ys @ [SLASH]" using assms(2) by (metis append_butlast_last_id)
  then have n: "n = length ys" using assms(3) True by simp
  have l: "n < length (p[n := NUL])" "Suc n < length (p[n := NUL, n := SLASH])" using n q assms(1) by simp_all
  have "p[n := NUL, n := SLASH, Suc n := NUL] = q @ NUL # r"
    using n q assms(1) by (simp add: list_update_append)
  moreover have "set_char (p[n := NUL, n := SLASH]) (int n + 1) NUL = Some (p[n := NUL, n := SLASH, Suc n := NUL])"
    using set_char_nat [OF l(2), of NUL] by (simp add: add.commute)
  ultimately show ?thesis using True set_char_nat [OF l(1)] by simp
qed (use assms in \<open>auto simp: list_update_append\<close>)

lemma plain_tail:
  assumes "NUL \<notin> set q" "q \<noteq> [] \<Longrightarrow> hd q \<noteq> NUL" "p1 = q @ NUL # r"
    and "start \<Longrightarrow> q \<noteq> []" "slashes \<longleftrightarrow> SLASH \<in> set q"
  shows "do {
      empty \<leftarrow> char_is p1 0 NUL;
      p \<leftarrow> (if start \<and> empty then do { p \<leftarrow> set_char p1 0 SLASH; set_char p 1 NUL } else Some p1);
      bare \<leftarrow> (if slashes then do { s \<leftarrow> string_of p; Some (\<not> HasPath s) } else Some False);
      bare \<leftarrow> andC (Some bare) (do { e \<leftarrow> char_is p 0 NUL; Some (\<not> e) });
      if bare then f p else Some p
    } = Some p1"
proof -
  have e: "char_is p1 0 NUL = Some (q = [])"
    using assms(1,2,3) by (cases q) (simp_all add: char_is_def char_at_def)
  show ?thesis using e assms by (cases "q = []") (auto simp: string_of_app HasPath_iff)
qed

lemma simplify_plain:
  assumes "NUL \<notin> set s" "\<not> updir s"
  shows "\<exists>r. SimplifyPath (s @ NUL # junk) = Some (squeeze s @ NUL # r) \<and> length (squeeze s @ r) = length (s @ junk)"
proof -
  let ?q = "squeeze s"
  obtain gap where sq: "squeeze_loop (s @ NUL # junk) 0 0 False
      = Some (?q @ gap @ NUL # junk, int (length s), int (length gap), SLASH \<in> set s)"
    and len: "length ?q + length gap = length s"
    using squeeze_loop_spec [OF assms(1), of "[]" "[]" junk False] by auto
  define p1 where "p1 = ?q @ gap @ NUL # junk"
  have lp: "length p1 = Suc (length s + length junk)" using len by (simp add: p1_def)
  have q: "NUL \<notin> set ?q" using set_squeeze assms(1) by blast
  have start: "char_is (s @ NUL # junk) 0 SLASH = Some (s \<noteq> [] \<and> hd s = SLASH)"
    by (cases s) (simp_all add: char_is_def char_at_def)
  have lq: "int (length s) - int (length gap) = int (length ?q)" using len by simp
  let ?t = "?q \<noteq> [] \<and> last ?q = SLASH"
  have t: "andC (Some (int (length ?q) > 0)) (char_is p1 (int (length ?q) - 1) SLASH) = Some ?t"
  proof (cases ?q rule: rev_cases)
    case (snoc ys y)
    then have "char_at p1 (int (length ys)) = Some y" using char_at_app_simps(1) [of ys y] by (simp add: p1_def)
    then show ?thesis using snoc by (simp add: char_is_def)
  qed simp
  define n where "n = (if ?t then length ?q - 1 else length ?q)"
  have n: "(if ?t then int (length ?q) - 1 else int (length ?q)) = int n" "n \<le> length ?q" "n < length p1"
    using lp len by (auto simp: n_def of_nat_diff Suc_le_eq)
  define p2 where "p2 = p1[n := NUL]"
  have p2: "set_char p1 (int n) NUL = Some p2" "length p2 = length p1"
    using set_char_nat [OF n(3)] by (simp_all add: p2_def)
  have nth: "p2 ! i = ?q ! i" if "i < n" for i
    using that n(2,3) by (simp add: p2_def p1_def nth_append)
  have "p2 ! i = DOT \<Longrightarrow> p2 ! (i - 1) = DOT \<Longrightarrow> p2 ! (i - 2) \<noteq> SLASH" if "3 \<le> i" "i < n" for i
    using updir_nth [of i ?q] updir_squeeze [of s] assms(2) nth that n(2) by auto
  moreover have "n < length p2" using n(3) p2(2) by simp
  ultimately have "\<exists>ce. dotdot_loop (int n - 1) p2 (int n) (int n) 0 = Some (p2, int n, ce, 0)"
    by (intro dotdot_none)
  then obtain ce where dd: "dotdot_loop (int n - 1) p2 (int n) (int n) 0 = Some (p2, int n, ce, 0)" ..
  obtain b where sl: "char_is p2 0 SLASH = Some b"
    using n(3) p2(2) by (cases p2) (auto simp: char_is_def char_at_def)
  define r where "r = tl (gap @ NUL # junk)"
  have "p1 = ?q @ hd (gap @ NUL # junk) # r" by (simp add: p1_def r_def)
  from trailing_slash [OF this refl n_def]
  have tr: "(if ?t then do { p \<leftarrow> set_char p2 (int n) SLASH; set_char p (int n + 1) NUL } else Some p2) = Some (?q @ NUL # r)"
    by (simp only: p2_def)
  note tail = plain_tail [OF q _ refl, of "s \<noteq> [] \<and> hd s = SLASH" "SLASH \<in> set s" r
        "\<lambda>p. do { p \<leftarrow> move_cells p 2 0 (int n + 1); p \<leftarrow> set_char p 0 DOT; set_char p 1 SLASH }"]
  have start_q: "s \<noteq> [] \<and> hd s = SLASH \<Longrightarrow> ?q \<noteq> []" using hd_squeeze [of s] by blast
  have hdq: "?q \<noteq> [] \<Longrightarrow> hd ?q \<noteq> NUL" using q by (metis list.set_sel(1))
  have "SimplifyPath (s @ NUL # junk) = Some (?q @ NUL # r)"
    unfolding SimplifyPath_def
    by (simp only: start sq [folded p1_def] Option.bind_lunit prod.case Let_def lq t n(1) p2(1) dd sl less_irrefl
        simp_thms if_False tr tail [OF hdq start_q slash_squeeze [symmetric]])
  moreover have "length (?q @ r) = length (s @ junk)" using len by (simp add: r_def)
  ultimately show ?thesis by blast
qed


lemma squeeze_name: "SLASH \<notin> set s \<Longrightarrow> squeeze (s @ t) = s @ squeeze t"
  by (induction s) (auto simp: doubled_def dotted_def)

lemma cut_first_name:
  assumes "SLASH \<notin> set s" "s \<noteq> []" "s \<noteq> [DOT]" "s \<noteq> [DOT, DOT]"
  shows "cut_first_item (s @ SLASH # r) (int (length s) + 3) (int (length s) + 3) 1
    = Some ((s @ SLASH # r)[0 := NUL], - 1)"
proof -
  have up: "andC (char_is (s @ SLASH # r) 0 DOT) (andC (char_is (s @ SLASH # r) 1 DOT) (char_is (s @ SLASH # r) 2 SLASH)) = Some False"
    and here: "andC (char_is (s @ SLASH # r) 0 DOT) (char_is (s @ SLASH # r) 1 SLASH) = Some False"
    using assms by (cases s; cases "tl s"; cases "tl (tl s)", auto simp: char_is_def char_at_def arr_get_def andC_def)+
  have "set_char (s @ SLASH # r) 0 NUL = Some ((s @ SLASH # r)[0 := NUL])"
    using set_char_nat [of 0 "s @ SLASH # r" NUL] by simp
  then show ?thesis by (simp add: cut_first_item_def up here move_cells_def)
qed

lemma simplify_underflow:
  assumes "NUL \<notin> set s" "SLASH \<notin> set s" "s \<noteq> []" "s \<noteq> [DOT]" "s \<noteq> [DOT, DOT]"
  shows "SimplifyPath (s @ [SLASH, DOT, DOT, SLASH, NUL]) = None"
proof -
  let ?t = "[SLASH, DOT, DOT, SLASH]" and ?p = "s @ [SLASH, DOT, DOT, SLASH, NUL]"
  let ?p2 = "s @ [SLASH, DOT, DOT, NUL, NUL]"
  have u: "squeeze (s @ ?t) = s @ ?t" using assms(2) by (simp add: squeeze_name doubled_def dotted_def)
  have "NUL \<notin> set (s @ ?t)" using assms(1) by simp
  from squeeze_loop_spec [OF this, of "[]" "[]" "[]" False] obtain gap where
    "squeeze_loop ?p 0 0 False = Some (s @ ?t @ gap @ [NUL], int (length s) + 4, int (length gap), True)"
    "length gap = 0" unfolding u by (auto simp del: length_0_conv)
  then have sq: "squeeze_loop ?p 0 0 False = Some (?p, int (length s) + 4, 0, True)" by simp
  have c0: "char_is (s @ x) 0 SLASH = Some False" for x
    using assms(2,3) by (cases s) (auto simp: char_is_def char_at_def)
  have t: "char_is ?p (int (length s) + 4 - 1) SLASH = Some True"
    using char_at_app [of s "[SLASH, DOT, DOT, SLASH, NUL]" 3] by (simp add: char_is_def char_at_def arr_get_def add.commute)
  have p2: "set_char ?p (int (length s) + 4 - 1) NUL = Some ?p2"
    using set_char_nat [of "length s + 3" ?p NUL] by (simp add: list_update_append add.commute)
  have dd: "dotdot_loop (int (length s) + 4 - 1 - 1) ?p2 (int (length s) + 3) (int (length s) + 3) 0
      = Some (?p2, int (length s) + 3, int (length s) + 3, 1)"
  proof -
    have "Suc 0 \<le> length s" using assms(3) by (cases s) simp_all
    then have "dotdot_loop (int (length s) + 2) ?p2 (int (length s) + 3) (int (length s) + 3) 0
        = dotdot_loop (int (length s) - 1) ?p2 (int (length s) + 3) (int (length s) + 3) 1"
      by (subst dotdot_loop.simps) (simp add: char_is_nth nth_append nat_add_distrib nat_diff_distrib add.commute)
    moreover have "?p2 ! i \<noteq> SLASH" if "i < length s" for i
      using assms(2) nth_mem [OF that] that by (metis nth_append)
    ultimately show ?thesis using dotdot_name [of "length s" ?p2] by (simp add: add.commute)
  qed
  define m where "m = int (length s) + 4"
  have m: "int (length s) + 3 = m - 1" by (simp add: m_def)
  note cut = cut_first_name [OF assms(2-5), of "[DOT, DOT, NUL, NUL]", unfolded m]
  have "m > 0" by (simp add: m_def)
  then have pos: "(m > 0) = True" by simp
  show ?thesis
    unfolding SimplifyPath_def
    by (simp only: c0 sq [folded m_def] t [folded m_def] p2 [folded m_def] dd [unfolded m, folded m_def] cut pos
        Option.bind_lunit Option.bind_lzero prod.case Let_def if_True simp_thms andC_simps diff_zero zero_less_one)
       (simp add: set_char_def)
qed

lemma simplify_unterminated: "SimplifyPath [DOT, DOT, SLASH, DOT, DOT, NUL] = None"
  by code_simp

lemma simplify_wrong_dir:
  "SimplifyPath (''a/../..'' @ [NUL]) = Some ([DOT, DOT, SLASH, DOT, SLASH, DOT, DOT, NUL])"
  by code_simp

section \<open>Properties\<close>

text \<open>
  The joined path consists of the non-empty elements from the last absolute one on, separated by
  slashes; the first pass measures exactly the memory that the second pass fills.
\<close>

theorem joinpath_joined:
  assumes "None \<notin> set args" "mem (length (joined [] (live (map the args))) + 1)"
    and "\<forall>p \<in> set (map the args). NUL \<notin> set p"
  shows "JoinPath mem junk args = Some (Some (joined [] (live (map the args))))"
  using JoinPath_joined [of args mem junk] assms by blast

theorem joinpath_joined_witness:
  "JoinPath (\<lambda>n. n \<le> 9) CHR ''?'' [Some ''x'', Some ''/usr'', Some [], Some ''lib''] = Some (Some ''/usr/lib'')"
  using joinpath_joined [of "[Some ''x'', Some ''/usr'', Some [], Some ''lib'']" "\<lambda>n. n \<le> 9" "CHR ''?''"]
  by simp

text \<open>
  A path without a \<open>/..\<close> is simplified inside its buffer to the path without doubled slashes
  and \<open>/./\<close>; a slash at its start or end stays.
\<close>

theorem simplify_path_plain:
  assumes "NUL \<notin> set s" "\<not> updir s"
  shows "\<exists>r. SimplifyPath (s @ NUL # junk) = Some (squeeze s @ NUL # r) \<and> length (squeeze s @ r) = length (s @ junk)"
  by (rule simplify_plain [OF assms])

theorem simplify_path_plain_witness:
  "\<exists>r. SimplifyPath (''a//b/./c/'' @ [NUL]) = Some (''a/b/c/'' @ NUL # r) \<and> length r = Suc (Suc (Suc 0))"
proof -
  have "\<not> updir ''a//b/./c/''" by (simp add: updir_def sublist_Cons_right)
  then show ?thesis using simplify_path_plain [of "''a//b/./c/''" "[]"]
    by (simp add: squeeze.simps(2) doubled_def dotted_def)
qed

text \<open>
  For \<open>name/../\<close> the function stores the trailing slash in front of the buffer: the string is
  cut to length \<open>-1\<close>, and the slash is written at that index.
\<close>

theorem simplify_path_underflow:
  assumes "NUL \<notin> set s" "SLASH \<notin> set s" "s \<noteq> []" "s \<noteq> [DOT]" "s \<noteq> [DOT, DOT]"
  shows "SimplifyPath (s @ [SLASH, DOT, DOT, SLASH, NUL]) = None"
  by (rule simplify_underflow [OF assms])

theorem simplify_path_underflow_witness: "SimplifyPath (''src'' @ [SLASH, DOT, DOT, SLASH, NUL]) = None"
  by (rule simplify_path_underflow) simp_all

end
