(* ===== verification/Scorep_Text.thy ===== *)
theory Scorep_Text
  imports Scorep_Prelude
begin

text \<open>
  What the program uses of the C library's character and string functions, in the "C" locale: character
  classes, upper and lower case, \<open>strtok\<close>, decimal numbers.
\<close>

section \<open>Characters\<close>

definition is_digit :: "char \<Rightarrow> bool" where
  "is_digit c \<longleftrightarrow> 48 \<le> (of_char c :: nat) \<and> of_char c \<le> (57 :: nat)"

definition isspace :: "char \<Rightarrow> bool" where
  "isspace c \<longleftrightarrow> c \<in> {CHR 0x20, CHR 0x09, CHR 0x0A, CHR 0x0B, CHR 0x0C, CHR 0x0D}"

definition isalpha :: "char \<Rightarrow> bool" where
  "isalpha c \<longleftrightarrow> (65 \<le> (of_char c :: nat) \<and> of_char c \<le> (90 :: nat)) \<or> (97 \<le> (of_char c :: nat) \<and> of_char c \<le> (122 :: nat))"

definition isalnum :: "char \<Rightarrow> bool" where
  "isalnum c \<longleftrightarrow> isalpha c \<or> is_digit c"

definition toupper :: "char \<Rightarrow> char" where
  "toupper c = (if 97 \<le> (of_char c :: nat) \<and> of_char c \<le> (122 :: nat) then char_of ((of_char c :: nat) - 32) else c)"

definition tolower :: "char \<Rightarrow> char" where
  "tolower c = (if 65 \<le> (of_char c :: nat) \<and> of_char c \<le> (90 :: nat) then char_of ((of_char c :: nat) + 32) else c)"

lemma of_char_less: "(of_char c :: nat) < 256"
proof -
  have "(of_char c :: nat) mod 256 < 256" by (rule mod_less_divisor) simp
  then show ?thesis by (simp only: of_char_mod_256)
qed

lemma of_char_toupper:
  "of_char (toupper c) = (if 97 \<le> (of_char c :: nat) \<and> of_char c \<le> (122 :: nat) then of_char c - 32 else (of_char c :: nat))"
  using of_char_less [of c] by (auto simp: toupper_def)

lemma of_char_tolower:
  "of_char (tolower c) = (if 65 \<le> (of_char c :: nat) \<and> of_char c \<le> (90 :: nat) then of_char c + 32 else (of_char c :: nat))"
  by (simp add: tolower_def)

lemma char_eq_iff_nat: "c = d \<longleftrightarrow> (of_char c :: nat) = of_char d"
  by simp

lemma char_shift_eq:
  "97 \<le> (of_char c :: nat) \<Longrightarrow> 97 \<le> (of_char d :: nat) \<Longrightarrow> (of_char c :: nat) - 32 = of_char d - 32 \<Longrightarrow> c = d"
  unfolding char_eq_iff_nat by linarith

text \<open>Comparing in upper case and in lower case is the same.\<close>

lemma toupper_eq_iff: "toupper c = toupper d \<longleftrightarrow> tolower c = tolower d"
  unfolding char_eq_iff_nat [of "toupper c"] char_eq_iff_nat [of "tolower c"] of_char_toupper of_char_tolower by (auto dest: char_shift_eq)

lemma tolower_idem [simp]: "tolower (tolower c) = tolower c"
  unfolding char_eq_iff_nat [of "tolower (tolower c)"] of_char_tolower by simp

lemma toupper_tolower [simp]: "toupper (tolower c) = toupper c"
  by (simp add: toupper_eq_iff)

section \<open>Decimal numbers\<close>

definition digits_value :: "string \<Rightarrow> int" where
  "digits_value ds = foldl (\<lambda>n c. 10 * n + (of_char c - 48)) 0 ds"

fun decimal :: "nat \<Rightarrow> string" where
  "decimal n = (if n < 10 then [char_of (48 + n)] else decimal (n div 10) @ [char_of (48 + n mod 10)])"

declare decimal.simps [simp del]

lemma of_char_digit: "n < 10 \<Longrightarrow> (of_char (char_of (48 + n)) :: nat) = 48 + n"
  by simp

lemma int_of_char_digit: "n < 10 \<Longrightarrow> (of_char (char_of (48 + n :: nat)) :: int) = 48 + int n"
  using of_char_digit [of n] of_nat_of_char [of "char_of (48 + n)", where 'a = int] by simp

lemma is_digit_char_of: "n < 10 \<Longrightarrow> is_digit (char_of (48 + n :: nat))"
  by (simp add: is_digit_def)

lemma decimal_digits: "set (decimal n) \<subseteq> Collect is_digit \<and> decimal n \<noteq> []"
proof (induction n rule: decimal.induct)
  case (1 n)
  then show ?case by (subst (1 2) decimal.simps) (auto simp: is_digit_char_of)
qed

lemma digits_value_snoc [simp]: "digits_value (ds @ [c]) = 10 * digits_value ds + (of_char c - 48)"
  by (simp add: digits_value_def)

lemma digits_value_decimal: "digits_value (decimal n) = int n"
proof (induction n rule: decimal.induct)
  case (1 n)
  show ?case
  proof (cases "n < 10")
    case True
    then show ?thesis by (subst decimal.simps) (simp add: digits_value_def int_of_char_digit)
  next
    case False
    then show ?thesis using 1 by (subst decimal.simps) (simp add: int_of_char_digit zdiv_int zmod_int)
  qed
qed

section \<open>Tokens\<close>

text \<open>The standard's \<open>strtok\<close>: the token and what is left behind its delimiter.\<close>

definition strtok :: "string \<Rightarrow> string \<Rightarrow> string option \<times> string" where
  "strtok delims s =
     (let s = dropWhile (\<lambda>c. c \<in> set delims) s
      in if s = [] then (None, [])
         else (Some (takeWhile (\<lambda>c. c \<notin> set delims) s), drop 1 (dropWhile (\<lambda>c. c \<notin> set delims) s)))"

lemma strtok_shrinks: "strtok delims s = (Some tok, rest) \<Longrightarrow> length rest < length s"
proof -
  assume a: "strtok delims s = (Some tok, rest)"
  let ?s = "dropWhile (\<lambda>c. c \<in> set delims) s"
  have "?s \<noteq> []" "rest = drop 1 (dropWhile (\<lambda>c. c \<notin> set delims) ?s)"
    using a by (auto simp: strtok_def Let_def split: if_splits)
  moreover have "length ?s \<le> length s" by (rule length_dropWhile_le)
  moreover have "length (dropWhile (\<lambda>c. c \<notin> set delims) ?s) \<le> length ?s" by (rule length_dropWhile_le)
  ultimately show ?thesis by (cases ?s) auto
qed

end
