(* ===== verification/Scorep_Definitions_New.thy ===== *)
theory Scorep_Definitions_New
  imports Scorep_Definitions_Manager Scorep_Path Scorep_Text
begin

text \<open>
  Defining each kind of definition in a given manager, and the interface with which the adapters make and change
  definitions of this process, \<open>scorep_definitions_\<dots>.c\<close>. A null \<open>const char*\<close> is
  \<open>None\<close>. The payload of locations and interim communicators and the tracing cache of sampling
  sets are memory behind a definition that these functions do not read.
\<close>

section \<open>Strings\<close>

text \<open>\<open>contents\<close> is what the generator wrote.\<close>

definition new_string_generator :: "defs \<Rightarrow> which_manager \<Rightarrow> string \<Rightarrow> (handle \<times> defs) option" where
  "new_string_generator w m contents = define_announced w m (String (StringDef contents))"

definition new_string :: "defs \<Rightarrow> which_manager \<Rightarrow> string \<Rightarrow> (handle \<times> defs) option" where
  "new_string w m s = new_string_generator w m s"

definition string_or :: "string option \<Rightarrow> string \<Rightarrow> string" where
  "string_or s alternative = (case s of None \<Rightarrow> alternative | Some s \<Rightarrow> s)"

definition StringHandle_Get :: "defs \<Rightarrow> nat \<Rightarrow> handle \<Rightarrow> string option" where
  "StringHandle_Get w pm h = do {
     d \<leftarrow> deref w pm h;
     case content d of String s \<Rightarrow> Some (string_data s) | _ \<Rightarrow> None
   }"

fun string_with_id :: "defs \<Rightarrow> u32 \<Rightarrow> handle list \<Rightarrow> string option option" where
  "string_with_id w i [] = Some None"
| "string_with_id w i (h # hs) = do {
     d \<leftarrow> deref w 0 h;
     if i = sequence_number d then map_option Some (StringHandle_Get w 0 h) else string_with_id w i hs
   }"

definition StringHandle_GetById :: "defs \<Rightarrow> u32 \<Rightarrow> string option option" where
  "StringHandle_GetById w i = string_with_id w i (chain (local_manager w KString))"

definition simplified :: "string \<Rightarrow> string option" where
  "simplified s = do { p \<leftarrow> SimplifyPath (s @ [NUL]); string_of p }"

section \<open>Defining in a manager\<close>

definition define_source_file :: "defs \<Rightarrow> which_manager \<Rightarrow> handle \<Rightarrow> (handle \<times> defs) option" where
  "define_source_file w m name = define_announced w m (SourceFile (SourceFileDef name))"

definition define_parameter :: "defs \<Rightarrow> which_manager \<Rightarrow> handle \<Rightarrow> u32 \<Rightarrow> (handle \<times> defs) option" where
  "define_parameter w m name t = define_announced w m (Parameter (ParameterDef name t))"

definition define_attribute :: "defs \<Rightarrow> which_manager \<Rightarrow> handle \<Rightarrow> handle \<Rightarrow> u32 \<Rightarrow> (handle \<times> defs) option" where
  "define_attribute w m name description t = define_silent w m (Attribute (AttributeDef name description t))"

definition define_source_code_location :: "defs \<Rightarrow> which_manager \<Rightarrow> handle \<Rightarrow> u32 \<Rightarrow> (handle \<times> defs) option" where
  "define_source_code_location w m file line_no =
     define_announced w m (SourceCodeLocation (SourceCodeLocationDef file line_no))"

definition define_system_tree_node ::
    "defs \<Rightarrow> which_manager \<Rightarrow> handle \<Rightarrow> u32 \<Rightarrow> handle \<Rightarrow> handle \<Rightarrow> (handle \<times> defs) option" where
  "define_system_tree_node w m parent domains name cls =
     define_announced w m (SystemTreeNode (SystemTreeNodeDef parent domains name cls))"

definition append_chained :: "handle \<Rightarrow> def_object \<Rightarrow> def_object" where
  "append_chained h d = d\<lparr>chained := chained d @ [h]\<rparr>"

definition add_system_tree_node_property ::
    "defs \<Rightarrow> which_manager \<Rightarrow> handle \<Rightarrow> handle \<Rightarrow> handle \<Rightarrow> (handle \<times> defs) option" where
  "add_system_tree_node_property w m node name val = do {
     (h, fresh, w) \<leftarrow> add_definition w m (SystemTreeNodeProperty (NodePropertyDef node name val));
     if fresh then do {
       let w = update_object w 0 node (append_chained h);
       Some (h, if m = LocalManager then announce h KSystemTreeNodeProperty w else w)
     } else Some (h, w)
   }"

definition define_location_group ::
    "defs \<Rightarrow> which_manager \<Rightarrow> handle \<Rightarrow> handle \<Rightarrow> u32 \<Rightarrow> handle \<Rightarrow> (handle \<times> defs) option" where
  "define_location_group w m name parent t creating =
     define_announced w m (LocationGroup (LocationGroupDef name parent t creating))"

definition mark_object :: "defs \<Rightarrow> nat \<Rightarrow> handle \<Rightarrow> defs" where
  "mark_object w pm h = update_object w pm h (\<lambda>d. d\<lparr>has_children := True\<rparr>)"

partial_function (option) system_tree_node_mark_used :: "defs \<Rightarrow> nat \<Rightarrow> handle \<Rightarrow> defs option" where
  "system_tree_node_mark_used w pm h =
     (if h = 0 then Some w
      else do {
        d \<leftarrow> deref w pm h;
        if has_children d then Some w
        else (case content d of
            SystemTreeNode n \<Rightarrow> system_tree_node_mark_used (mark_object w pm h) pm (node_parent n)
          | _ \<Rightarrow> None)
      })"

partial_function (option) location_group_mark_used :: "defs \<Rightarrow> nat \<Rightarrow> handle \<Rightarrow> defs option" where
  "location_group_mark_used w pm h =
     (if h = 0 then Some w
      else do {
        d \<leftarrow> deref w pm h;
        case content d of
          LocationGroup g \<Rightarrow> do {
            w \<leftarrow> location_group_mark_used (mark_object w pm h) pm (creating_group g);
            system_tree_node_mark_used w pm (group_tree_parent g)
          }
        | _ \<Rightarrow> None
      })"

definition define_location ::
    "defs \<Rightarrow> which_manager \<Rightarrow> u64 \<Rightarrow> handle \<Rightarrow> u32 \<Rightarrow> u32 \<Rightarrow> handle \<Rightarrow> u64 \<Rightarrow> (handle \<times> defs) option" where
  "define_location w m global_id name t paradigm parent events = do {
     (h, w) \<leftarrow> define_announced w m (Location (LocationDef global_id name t paradigm parent events));
     w \<leftarrow> location_group_mark_used w 0 parent;
     Some (h, w)
   }"

definition define_location_property :: "defs \<Rightarrow> which_manager \<Rightarrow> handle \<Rightarrow> handle \<Rightarrow> handle \<Rightarrow> (handle \<times> defs) option" where
  "define_location_property w m location name val =
     define_announced w m (LocationProperty (LocationPropertyDef location name val))"

definition define_region :: "defs \<Rightarrow> which_manager \<Rightarrow> handle \<Rightarrow> handle \<Rightarrow> handle \<Rightarrow> handle \<Rightarrow> u32 \<Rightarrow> u32 \<Rightarrow> u32 \<Rightarrow> u32 \<Rightarrow> handle
     \<Rightarrow> (handle \<times> defs) option" where
  "define_region w m name canonical description file first_line last_line paradigm t grp =
     define_announced w m (Region (RegionDef name canonical description file first_line last_line paradigm t grp))"

text \<open>The conversion from 32-bit members reads them as \<open>int32_t\<close>, so it extends the sign.\<close>

definition define_group ::
    "defs \<Rightarrow> which_manager \<Rightarrow> u32 \<Rightarrow> u64 list + u32 list \<Rightarrow> handle \<Rightarrow> (handle \<times> defs) option" where
  "define_group w m t members label =
     define_announced w m (Group (GroupDef t label
       (case members of Inl members \<Rightarrow> members | Inr members \<Rightarrow> map scast members)))"

definition define_metric ::
    "defs \<Rightarrow> which_manager \<Rightarrow> handle \<Rightarrow> handle \<Rightarrow> u32 \<Rightarrow> u32 \<Rightarrow> u32 \<Rightarrow> u32 \<Rightarrow> u64 \<Rightarrow> handle \<Rightarrow> u32 \<Rightarrow> handle \<Rightarrow> (handle \<times> defs) option" where
  "define_metric w m name description source mode vtype base exponent unit_name profiling parent =
     define_announced w m (Metric (MetricDef name description source mode vtype base exponent unit_name profiling parent))"

definition define_sampling_set :: "defs \<Rightarrow> which_manager \<Rightarrow> handle list \<Rightarrow> u32 \<Rightarrow> u32 \<Rightarrow> (handle \<times> defs) option" where
  "define_sampling_set w m metrics occ cls = do {
     assertC (0 \<notin> set metrics);
     define_announced w m (SamplingSet (SamplingSetDef metrics occ cls))
   }"

definition define_scoped_sampling_set ::
    "defs \<Rightarrow> which_manager \<Rightarrow> handle \<Rightarrow> handle \<Rightarrow> u32 \<Rightarrow> handle \<Rightarrow> (handle \<times> defs) option" where
  "define_scoped_sampling_set w m sampling_set recorder t scope =
     define_announced w m (SamplingSet (ScopedSamplingSetDef sampling_set recorder t scope))"

text \<open>The substrates are handed the location instead of the new recorder definition.\<close>

definition sampling_set_add_recorder :: "defs \<Rightarrow> which_manager \<Rightarrow> handle \<Rightarrow> handle \<Rightarrow> defs option" where
  "sampling_set_add_recorder w m sampling_set recorder = do {
     s \<leftarrow> deref w 0 sampling_set;
     let (h, w) = definition_alloc w (init_header (SamplingSetRecorder (RecorderDef sampling_set recorder)));
     let w = update_object w 0 sampling_set (append_chained h);
     w \<leftarrow> link_definition w m KSamplingSetRecorder h;
     Some (if m = LocalManager then announce recorder KSamplingSetRecorder w else w)
   }"

definition define_callpath ::
    "defs \<Rightarrow> which_manager \<Rightarrow> handle \<Rightarrow> handle \<Rightarrow> handle callpath_parameter list \<Rightarrow> (handle \<times> defs) option" where
  "define_callpath w m parent region parameters = define_silent w m (Callpath (CallpathDef parent region parameters))"

definition CONDITION_ALL :: u32 where "CONDITION_ALL = 0"
definition CONDITION_ANY :: u32 where "CONDITION_ANY = 1"

definition same_property :: "def_object \<Rightarrow> def_object \<Rightarrow> bool" where
  "same_property e n = (case (content e, content n) of (Property a, Property b) \<Rightarrow> equal_property a b | _ \<Rightarrow> False)"

definition merge_invalidated :: "'h property_def \<Rightarrow> bool \<Rightarrow> 'h property_def option" where
  "merge_invalidated e inval =
     (if condition e = CONDITION_ALL then Some (PropertyDef (property e) (condition e) (initial_value e) (invalidated e \<and> inval))
      else if condition e = CONDITION_ANY then Some (PropertyDef (property e) (condition e) (initial_value e) (invalidated e \<or> inval))
      else None)"

definition define_property :: "defs \<Rightarrow> which_manager \<Rightarrow> u32 \<Rightarrow> u32 \<Rightarrow> bool \<Rightarrow> bool \<Rightarrow> (handle \<times> defs) option" where
  "define_property w m prop cond start inval = do {
     let c = Property (PropertyDef prop cond start inval);
     v \<leftarrow> hash_content w c;
     (h, fresh, w) \<leftarrow> add_to_entry w m KProperty same_property ((init_header c)\<lparr>def_hash := v\<rparr>);
     if fresh then Some (h, w)
     else do {
       d \<leftarrow> deref w 0 h;
       case content d of
         Property e \<Rightarrow> do {
           e \<leftarrow> merge_invalidated e inval;
           Some (h, update_object w 0 h (\<lambda>d. d\<lparr>content := Property e\<rparr>))
         }
       | _ \<Rightarrow> None
     }
   }"

definition define_calling_context ::
    "defs \<Rightarrow> which_manager \<Rightarrow> u64 \<Rightarrow> u64 \<Rightarrow> handle \<Rightarrow> handle \<Rightarrow> handle \<Rightarrow> handle \<Rightarrow> (handle \<times> defs) option" where
  "define_calling_context w m ip0 offset file region scl parent =
     define_announced w m (CallingContext (CallingContextDef ip0 offset file region scl parent))"

definition define_interrupt_generator ::
    "defs \<Rightarrow> which_manager \<Rightarrow> handle \<Rightarrow> u32 \<Rightarrow> u32 \<Rightarrow> u64 \<Rightarrow> u64 \<Rightarrow> (handle \<times> defs) option" where
  "define_interrupt_generator w m name mode base exponent period =
     define_announced w m (InterruptGenerator (InterruptGeneratorDef name mode base exponent period))"

definition same_communicator :: "def_object \<Rightarrow> def_object \<Rightarrow> bool" where
  "same_communicator e n = (def_hash e = def_hash n \<and> (case (content e, content n) of
     (Communicator a, Communicator b) \<Rightarrow>
       group_a a = group_a b \<and> group_b a = group_b b \<and> unify_key a = unify_key b
       \<and> (communicator_parent a = communicator_parent b \<or> group_a b \<noteq> group_b b)
   | _ \<Rightarrow> False))"

definition merge_communicator :: "handle communicator_def \<Rightarrow> handle communicator_def \<Rightarrow> handle communicator_def" where
  "merge_communicator e n =
     CommunicatorDef (group_a e) (group_b e)
       (if communicator_name n \<noteq> 0 then communicator_name n else communicator_name e)
       (if group_a n \<noteq> group_b n \<and> communicator_parent e = 0 \<and> communicator_parent n \<noteq> 0 then communicator_parent n
        else communicator_parent e)
       (unify_key e) (communicator_flags e)"

definition define_communicator ::
    "defs \<Rightarrow> which_manager \<Rightarrow> handle \<Rightarrow> handle \<Rightarrow> handle \<Rightarrow> handle \<Rightarrow> u32 \<Rightarrow> u32 \<Rightarrow> (handle \<times> defs) option" where
  "define_communicator w m a b name parent key flags = do {
     let new = CommunicatorDef a b name parent key flags;
     v \<leftarrow> hash_content w (Communicator new);
     (h, fresh, w) \<leftarrow> add_to_entry w m KCommunicator same_communicator ((init_header (Communicator new))\<lparr>def_hash := v\<rparr>);
     if fresh then Some (h, w)
     else do {
       d \<leftarrow> deref w 0 h;
       case content d of
         Communicator e \<Rightarrow> Some (h, update_object w 0 h (\<lambda>d. d\<lparr>content := Communicator (merge_communicator e new)\<rparr>))
       | _ \<Rightarrow> None
     }
   }"

definition same_rma_window :: "def_object \<Rightarrow> def_object \<Rightarrow> bool" where
  "same_rma_window e n = (def_hash e = def_hash n \<and> (case (content e, content n) of
     (RmaWindow a, RmaWindow b) \<Rightarrow> window_communicator a = window_communicator b \<and> creation_id a = creation_id b
   | _ \<Rightarrow> False))"

definition merge_rma_window :: "handle rma_window_def \<Rightarrow> handle rma_window_def \<Rightarrow> handle rma_window_def" where
  "merge_rma_window e n =
     (if has_default_name e \<and> window_name n \<noteq> 0
      then RmaWindowDef (window_name n) (window_communicator e) (creation_id e) False (window_flags e)
      else e)"

definition define_rma_window ::
    "defs \<Rightarrow> which_manager \<Rightarrow> handle \<Rightarrow> handle \<Rightarrow> u32 \<Rightarrow> u32 \<Rightarrow> (handle \<times> defs) option" where
  "define_rma_window w m name communicator creation flags = do {
     let new = RmaWindowDef name communicator creation True flags;
     v \<leftarrow> hash_content w (RmaWindow new);
     (h, fresh, w) \<leftarrow> add_to_entry w m KRmaWindow same_rma_window ((init_header (RmaWindow new))\<lparr>def_hash := v\<rparr>);
     if fresh then Some (h, if m = LocalManager then announce h KRmaWindow w else w)
     else do {
       d \<leftarrow> deref w 0 h;
       case content d of
         RmaWindow e \<Rightarrow> Some (h, update_object w 0 h (\<lambda>d. d\<lparr>content := RmaWindow (merge_rma_window e new)\<rparr>))
       | _ \<Rightarrow> None
     }
   }"

definition define_topology ::
    "defs \<Rightarrow> which_manager \<Rightarrow> handle \<Rightarrow> u32 \<Rightarrow> handle dimension list \<Rightarrow> handle \<Rightarrow> (handle \<times> defs) option" where
  "define_topology w m communicator t dims name =
     define_silent w m (CartesianTopology (TopologyDef name communicator t dims))"

definition define_coords ::
    "defs \<Rightarrow> which_manager \<Rightarrow> handle \<Rightarrow> u32 \<Rightarrow> u32 \<Rightarrow> u32 list \<Rightarrow> (handle \<times> defs) option" where
  "define_coords w m topology rank thread cs = define_silent w m (CartesianCoords (CoordsDef topology rank thread cs))"

definition define_io_file :: "defs \<Rightarrow> which_manager \<Rightarrow> handle \<Rightarrow> handle \<Rightarrow> (handle \<times> defs) option" where
  "define_io_file w m name scope = define_silent w m (IoFile (IoFileDef name scope))"

definition add_io_file_property ::
    "defs \<Rightarrow> which_manager \<Rightarrow> handle \<Rightarrow> handle \<Rightarrow> handle \<Rightarrow> (handle \<times> defs) option" where
  "add_io_file_property w m file name val = do {
     (h, fresh, w) \<leftarrow> add_definition w m (IoFileProperty (IoFilePropertyDef file name val));
     Some (h, if fresh then update_object w 0 file (append_chained h) else w)
   }"

definition define_io_handle ::
    "defs \<Rightarrow> which_manager \<Rightarrow> handle \<Rightarrow> handle \<Rightarrow> u32 \<Rightarrow> u32 \<Rightarrow> handle \<Rightarrow> handle \<Rightarrow> u32 \<Rightarrow> u32 \<Rightarrow> u32 \<Rightarrow> bool
     \<Rightarrow> (handle \<times> defs) option" where
  "define_io_handle w m name file paradigm flags scope parent key access status completed =
     define_silent w m (IoHandle (IoHandleDef name file paradigm flags scope parent key access status completed))"

text \<open>\<open>residue\<close> is what the memory of the new definition holds at the counter of its windows,
  which is not initialised.\<close>

definition define_interim_communicator :: "u32 \<Rightarrow> defs \<Rightarrow> handle \<Rightarrow> u32 \<Rightarrow> (handle \<times> defs) option" where
  "define_interim_communicator residue w parent paradigm = do {
     let c = InterimCommunicator (InterimCommunicatorDef 0 parent paradigm residue);
     v \<leftarrow> hash_content w c;
     let (h, w) = definition_alloc w ((init_header c)\<lparr>def_hash := v\<rparr>);
     w \<leftarrow> link_definition w LocalManager KInterimCommunicator h;
     Some (h, announce h KInterimCommunicator w)
   }"

section \<open>The interface of the adapters\<close>

text \<open>Where C leaves the order of the arguments of a call open, the strings are defined from left to right.\<close>

definition Definitions_Initialize :: "defs \<Rightarrow> defs option" where
  "Definitions_Initialize w = do {
     let w = w\<lparr>local_manager := InitializeDefinitionManager False\<rparr>;
     (h, w) \<leftarrow> new_string w LocalManager [];
     Some w
   }"

definition NewString :: "defs \<Rightarrow> string option \<Rightarrow> (handle \<times> defs) option" where
  "NewString w str = do { str \<leftarrow> str; new_string w LocalManager str }"

definition NewSourceFile :: "defs \<Rightarrow> string option \<Rightarrow> (handle \<times> defs) option" where
  "NewSourceFile w fileName = do {
     contents \<leftarrow> simplified (string_or fileName ''<unknown source file>'');
     (s, w) \<leftarrow> new_string_generator w LocalManager contents;
     define_source_file w LocalManager s
   }"

definition NewSourceCodeLocation :: "defs \<Rightarrow> string option \<Rightarrow> u32 \<Rightarrow> (handle \<times> defs) option" where
  "NewSourceCodeLocation w file lineNumber = do {
     contents \<leftarrow> simplified (string_or file []);
     (s, w) \<leftarrow> new_string_generator w LocalManager contents;
     define_source_code_location w LocalManager s lineNumber
   }"

definition NewParameter :: "defs \<Rightarrow> string option \<Rightarrow> u32 \<Rightarrow> (handle \<times> defs) option" where
  "NewParameter w name t = do {
     (s, w) \<leftarrow> new_string w LocalManager (string_or name ''<unknown parameter>'');
     define_parameter w LocalManager s t
   }"

definition NewAttribute :: "defs \<Rightarrow> string option \<Rightarrow> string option \<Rightarrow> u32 \<Rightarrow> (handle \<times> defs) option" where
  "NewAttribute w name description t = do {
     (s, w) \<leftarrow> new_string w LocalManager (string_or name ''<unknown attribute>'');
     (d, w) \<leftarrow> new_string w LocalManager (string_or description []);
     define_attribute w LocalManager s d t
   }"

definition NewSystemTreeNode :: "defs \<Rightarrow> handle \<Rightarrow> u32 \<Rightarrow> string option \<Rightarrow> string option \<Rightarrow> (handle \<times> defs) option" where
  "NewSystemTreeNode w parent domains cls name = do {
     (n, w) \<leftarrow> new_string w LocalManager (string_or name ''<unnamed system tree node>'');
     (c, w) \<leftarrow> new_string w LocalManager (string_or cls ''<unnamed system tree class>'');
     define_system_tree_node w LocalManager parent domains n c
   }"

definition SystemTreeNodeHandle_AddProperty :: "defs \<Rightarrow> handle \<Rightarrow> string option \<Rightarrow> string option \<Rightarrow> defs option" where
  "SystemTreeNodeHandle_AddProperty w node propertyName propertyValue = do {
     assertC (node \<noteq> 0);
     name \<leftarrow> propertyName;
     val \<leftarrow> propertyValue;
     (n, w) \<leftarrow> new_string w LocalManager name;
     (v, w) \<leftarrow> new_string w LocalManager val;
     (h, w) \<leftarrow> add_system_tree_node_property w LocalManager node n v;
     Some w
   }"

definition NewLocationGroup :: "defs \<Rightarrow> string option \<Rightarrow> handle \<Rightarrow> u32 \<Rightarrow> handle \<Rightarrow> (handle \<times> defs) option" where
  "NewLocationGroup w name parent t creating = do {
     (n, w) \<leftarrow> new_string w LocalManager (string_or name ''<unknown location group>'');
     define_location_group w LocalManager n parent t creating
   }"

definition LocationGroupHandle_SetName :: "defs \<Rightarrow> handle \<Rightarrow> string option \<Rightarrow> defs option" where
  "LocationGroupHandle_SetName w h name = do {
     (n, w) \<leftarrow> NewString w name;
     d \<leftarrow> deref w 0 h;
     case content d of
       LocationGroup (LocationGroupDef _ parent t creating) \<Rightarrow>
         Some (update_object w 0 h (\<lambda>d. d\<lparr>content := LocationGroup (LocationGroupDef n parent t creating)\<rparr>))
     | _ \<Rightarrow> None
   }"

definition NewLocation :: "defs \<Rightarrow> u32 \<Rightarrow> u32 \<Rightarrow> string option \<Rightarrow> handle \<Rightarrow> (handle \<times> defs) option" where
  "NewLocation w locationType paradigm name parent = do {
     (n, w) \<leftarrow> new_string w LocalManager (string_or name []);
     define_location w LocalManager (-1) n locationType paradigm parent 0
   }"

text \<open>\<open>val\<close> is the formatted value, cut to its announced length.\<close>

definition NewLocationProperty :: "defs \<Rightarrow> handle \<Rightarrow> string option \<Rightarrow> string \<Rightarrow> (handle \<times> defs) option" where
  "NewLocationProperty w location name val = do {
     (n, w) \<leftarrow> new_string w LocalManager (string_or name []);
     (v, w) \<leftarrow> new_string_generator w LocalManager val;
     define_location_property w LocalManager location n v
   }"

definition NewRegion ::
    "defs \<Rightarrow> string option \<Rightarrow> string option \<Rightarrow> handle \<Rightarrow> u32 \<Rightarrow> u32 \<Rightarrow> u32 \<Rightarrow> u32 \<Rightarrow> (handle \<times> defs) option" where
  "NewRegion w regionName canonicalName fileHandle beginLine endLine paradigm regionType = do {
     file \<leftarrow> (if fileHandle \<noteq> 0
       then do { d \<leftarrow> deref w 0 fileHandle; case content d of SourceFile f \<Rightarrow> Some (source_name f) | _ \<Rightarrow> None }
       else Some 0);
     (n, w) \<leftarrow> new_string w LocalManager (string_or regionName ''<unknown region>'');
     (c, w) \<leftarrow> new_string w LocalManager (string_or canonicalName (string_or regionName ''<unknown region>''));
     (d, w) \<leftarrow> new_string w LocalManager [];
     define_region w LocalManager n c d file beginLine endLine paradigm regionType 0
   }"

definition RegionHandle_SetGroup :: "defs \<Rightarrow> handle \<Rightarrow> string \<Rightarrow> defs option" where
  "RegionHandle_SetGroup w h groupName = do {
     (g, w) \<leftarrow> new_string w LocalManager groupName;
     d \<leftarrow> deref w 0 h;
     case content d of
       Region (RegionDef n c ds f b e p t _) \<Rightarrow>
         Some (update_object w 0 h (\<lambda>d. d\<lparr>content := Region (RegionDef n c ds f b e p t g)\<rparr>))
     | _ \<Rightarrow> None
   }"

definition NewGroup :: "defs \<Rightarrow> u32 \<Rightarrow> string option \<Rightarrow> u64 list \<Rightarrow> (handle \<times> defs) option" where
  "NewGroup w t name members = do {
     (n, w) \<leftarrow> new_string w LocalManager (string_or name []);
     define_group w LocalManager t (Inl members) n
   }"

definition NewGroupFrom32 :: "defs \<Rightarrow> u32 \<Rightarrow> string option \<Rightarrow> u32 list \<Rightarrow> (handle \<times> defs) option" where
  "NewGroupFrom32 w t name members = do {
     (n, w) \<leftarrow> new_string w LocalManager (string_or name []);
     define_group w LocalManager t (Inr members) n
   }"

definition NewUnifiedGroup :: "defs \<Rightarrow> u32 \<Rightarrow> string \<Rightarrow> u64 list \<Rightarrow> (handle \<times> defs) option" where
  "NewUnifiedGroup w t name members = do {
     (n, w) \<leftarrow> new_string w UnifiedManager name;
     define_group w UnifiedManager t (Inl members) n
   }"

definition NewUnifiedGroupFrom32 :: "defs \<Rightarrow> u32 \<Rightarrow> string option \<Rightarrow> u32 list \<Rightarrow> (handle \<times> defs) option" where
  "NewUnifiedGroupFrom32 w t name members = do {
     (n, w) \<leftarrow> new_string w UnifiedManager (string_or name []);
     define_group w UnifiedManager t (Inr members) n
   }"

definition NewMetric ::
    "defs \<Rightarrow> string option \<Rightarrow> string option \<Rightarrow> u32 \<Rightarrow> u32 \<Rightarrow> u32 \<Rightarrow> u32 \<Rightarrow> u64 \<Rightarrow> string option \<Rightarrow> u32 \<Rightarrow> handle
     \<Rightarrow> (handle \<times> defs) option" where
  "NewMetric w name description source mode vtype base exponent unit_name profiling parent = do {
     (n, w) \<leftarrow> new_string w LocalManager (string_or name ''<unknown metric>'');
     (d, w) \<leftarrow> new_string w LocalManager (string_or description []);
     (u, w) \<leftarrow> new_string w LocalManager (string_or unit_name ''#'');
     define_metric w LocalManager n d source mode vtype base exponent u profiling parent
   }"

definition NewSamplingSet :: "defs \<Rightarrow> handle list \<Rightarrow> u32 \<Rightarrow> u32 \<Rightarrow> (handle \<times> defs) option" where
  "NewSamplingSet w metrics occ cls = define_sampling_set w LocalManager metrics occ cls"

definition NewScopedSamplingSet :: "defs \<Rightarrow> handle \<Rightarrow> handle \<Rightarrow> u32 \<Rightarrow> handle \<Rightarrow> (handle \<times> defs) option" where
  "NewScopedSamplingSet w sampling_set recorder t scope =
     define_scoped_sampling_set w LocalManager sampling_set recorder t scope"

definition LOCATION_TYPE_CPU_THREAD :: u32 where "LOCATION_TYPE_CPU_THREAD = 0"
definition LOCATION_TYPE_GPU :: u32 where "LOCATION_TYPE_GPU = 1"
definition SAMPLING_SET_CPU :: u32 where "SAMPLING_SET_CPU = 1"
definition SAMPLING_SET_GPU :: u32 where "SAMPLING_SET_GPU = 2"

definition SamplingSet_AddRecorder :: "defs \<Rightarrow> handle \<Rightarrow> handle \<Rightarrow> defs option" where
  "SamplingSet_AddRecorder w sampling_set recorder = do {
     s \<leftarrow> deref w 0 sampling_set;
     cls \<leftarrow> (case content s of SamplingSet (SamplingSetDef _ _ cls) \<Rightarrow> Some cls | _ \<Rightarrow> None);
     assertC (cls \<noteq> 0);
     r \<leftarrow> deref w 0 recorder;
     t \<leftarrow> (case content r of Location l \<Rightarrow> Some (location_type l) | _ \<Rightarrow> None);
     assertC (t = LOCATION_TYPE_CPU_THREAD \<and> cls = SAMPLING_SET_CPU \<or> t = LOCATION_TYPE_GPU \<and> cls = SAMPLING_SET_GPU);
     sampling_set_add_recorder w LocalManager sampling_set recorder
   }"

definition NewCallpath :: "defs \<Rightarrow> handle \<Rightarrow> handle \<Rightarrow> handle callpath_parameter list \<Rightarrow> (handle \<times> defs) option" where
  "NewCallpath w parent region parameters = define_callpath w LocalManager parent region parameters"

definition PROPERTY_MAX :: u32 where "PROPERTY_MAX = 5"

definition NewProperty :: "defs \<Rightarrow> u32 \<Rightarrow> u32 \<Rightarrow> bool \<Rightarrow> (handle \<times> defs) option" where
  "NewProperty w prop cond start = do {
     assertC (prop < PROPERTY_MAX);
     define_property w LocalManager prop cond start False
   }"

definition NewCallingContext :: "defs \<Rightarrow> u64 \<Rightarrow> handle \<Rightarrow> handle \<Rightarrow> handle \<Rightarrow> (handle \<times> defs) option" where
  "NewCallingContext w ip0 region scl parent = define_calling_context w LocalManager ip0 0 0 region scl parent"

definition NewInterruptGenerator ::
    "defs \<Rightarrow> string option \<Rightarrow> u32 \<Rightarrow> u32 \<Rightarrow> u64 \<Rightarrow> u64 \<Rightarrow> (handle \<times> defs) option" where
  "NewInterruptGenerator w name mode base exponent period = do {
     (n, w) \<leftarrow> new_string w LocalManager (string_or name ''<unknown interrupt generator>'');
     define_interrupt_generator w LocalManager n mode base exponent period
   }"

definition NewInterimCommunicator :: "u32 \<Rightarrow> defs \<Rightarrow> handle \<Rightarrow> u32 \<Rightarrow> (handle \<times> defs) option" where
  "NewInterimCommunicator residue w parent paradigm = define_interim_communicator residue w parent paradigm"

definition InterimCommunicatorHandle_SetName :: "defs \<Rightarrow> handle \<Rightarrow> string option \<Rightarrow> defs option" where
  "InterimCommunicatorHandle_SetName w h name = do {
     assertC (h \<noteq> 0);
     d \<leftarrow> deref w 0 h;
     case content d of
       InterimCommunicator (InterimCommunicatorDef n parent paradigm windows) \<Rightarrow>
         (if n = 0 then do {
            (n, w) \<leftarrow> new_string w LocalManager (string_or name []);
            Some (update_object w 0 h
              (\<lambda>d. d\<lparr>content := InterimCommunicator (InterimCommunicatorDef n parent paradigm windows)\<rparr>))
          } else Some w)
     | _ \<Rightarrow> None
   }"

definition get_rma_window_creation_counter :: "defs \<Rightarrow> handle \<Rightarrow> (u32 \<times> defs) option" where
  "get_rma_window_creation_counter w h = do {
     d \<leftarrow> deref w 0 h;
     case content d of
       InterimCommunicator (InterimCommunicatorDef n parent paradigm windows) \<Rightarrow>
         Some (windows, update_object w 0 h
           (\<lambda>d. d\<lparr>content := InterimCommunicator (InterimCommunicatorDef n parent paradigm (windows + 1))\<rparr>))
     | _ \<Rightarrow> None
   }"

definition NewCommunicator :: "defs \<Rightarrow> handle \<Rightarrow> handle \<Rightarrow> handle \<Rightarrow> u32 \<Rightarrow> u32 \<Rightarrow> (handle \<times> defs) option" where
  "NewCommunicator w grp name parent key flags = define_communicator w LocalManager grp grp name parent key flags"

definition NewInterCommunicator ::
    "defs \<Rightarrow> handle \<Rightarrow> handle \<Rightarrow> handle \<Rightarrow> handle \<Rightarrow> u32 \<Rightarrow> u32 \<Rightarrow> (handle \<times> defs) option" where
  "NewInterCommunicator w a b name parent key flags = define_communicator w LocalManager a b name parent key flags"

definition NewRmaWindow :: "defs \<Rightarrow> string option \<Rightarrow> handle \<Rightarrow> u32 \<Rightarrow> (handle \<times> defs) option" where
  "NewRmaWindow w name communicator flags = do {
     (n, w) \<leftarrow> (case name of Some s \<Rightarrow> new_string w LocalManager s | None \<Rightarrow> Some (0, w));
     (creation, w) \<leftarrow> get_rma_window_creation_counter w communicator;
     define_rma_window w LocalManager n communicator creation flags
   }"

definition RmaWindowHandle_SetName :: "defs \<Rightarrow> handle \<Rightarrow> string option \<Rightarrow> defs option" where
  "RmaWindowHandle_SetName w h name = do {
     assertC (h \<noteq> 0);
     d \<leftarrow> deref w 0 h;
     case content d of
       RmaWindow (RmaWindowDef _ communicator creation unnamed flags) \<Rightarrow>
         (if unnamed then do {
            (n, w) \<leftarrow> new_string w LocalManager (string_or name []);
            Some (update_object w 0 h
              (\<lambda>d. d\<lparr>content := RmaWindow (RmaWindowDef n communicator creation False flags)\<rparr>))
          } else Some w)
     | _ \<Rightarrow> None
   }"

definition NewIoFile :: "defs \<Rightarrow> string option \<Rightarrow> handle \<Rightarrow> (handle \<times> defs) option" where
  "NewIoFile w fileName scope = do {
     (n, w) \<leftarrow> new_string w LocalManager (string_or fileName ''<unknown file>'');
     (h, w) \<leftarrow> define_io_file w LocalManager n scope;
     Some (h, announce h KIoFile w)
   }"

definition IoFileHandle_AddProperty :: "defs \<Rightarrow> handle \<Rightarrow> string option \<Rightarrow> string option \<Rightarrow> defs option" where
  "IoFileHandle_AddProperty w file propertyName propertyValue = do {
     assertC (file \<noteq> 0);
     name \<leftarrow> propertyName;
     val \<leftarrow> propertyValue;
     (n, w) \<leftarrow> new_string w LocalManager name;
     (v, w) \<leftarrow> new_string w LocalManager val;
     (h, w) \<leftarrow> add_io_file_property w LocalManager file n v;
     Some (announce h KIoFileProperty w)
   }"

definition IO_HANDLE_FLAG_PRE_CREATED :: u32 where "IO_HANDLE_FLAG_PRE_CREATED = 1"

definition NewIoHandle ::
    "defs \<Rightarrow> string option \<Rightarrow> handle \<Rightarrow> u32 \<Rightarrow> u32 \<Rightarrow> handle \<Rightarrow> handle \<Rightarrow> u32 \<Rightarrow> bool \<Rightarrow> u32 \<Rightarrow> u32 \<Rightarrow> (handle \<times> defs) option" where
  "NewIoHandle w name file paradigm flags scope parent key completed access status = do {
     let (access, status) = (if flags AND IO_HANDLE_FLAG_PRE_CREATED \<noteq> 0 then (access, status) else (0, 0));
     (n, w) \<leftarrow> new_string w LocalManager (string_or name []);
     (h, w) \<leftarrow> define_io_handle w LocalManager n file paradigm flags scope parent key access status completed;
     Some (h, if completed then announce h KIoHandle w else w)
   }"

definition IoHandleHandle_Complete :: "defs \<Rightarrow> handle \<Rightarrow> handle \<Rightarrow> u32 \<Rightarrow> defs option" where
  "IoHandleHandle_Complete w h file key = do {
     d \<leftarrow> deref w 0 h;
     case content d of
       IoHandle (IoHandleDef n _ paradigm flags scope parent old_key access status completed) \<Rightarrow> do {
         assertC (\<not> completed);
         let c = IoHandle (IoHandleDef n file paradigm flags scope parent (if old_key = 0 then key else old_key)
           access status True);
         Some (announce h KIoHandle (update_object w 0 h (\<lambda>d. d\<lparr>content := c\<rparr>)))
       }
     | _ \<Rightarrow> None
   }"

definition default_dimension_name :: "nat \<Rightarrow> string" where
  "default_dimension_name i = take 19 (''dimension '' @ decimal i)"

text \<open>A dimension is given by its number of processes, its periodicity and its name.\<close>

fun new_dimensions :: "defs \<Rightarrow> nat \<Rightarrow> (u32 \<times> bool \<times> string option) list \<Rightarrow> (handle dimension list \<times> defs) option" where
  "new_dimensions w i [] = Some ([], w)"
| "new_dimensions w i ((n, p, name) # ds) = do {
     (s, w) \<leftarrow> new_string w LocalManager (string_or name (default_dimension_name i));
     (dims, w) \<leftarrow> new_dimensions w (i + 1) ds;
     Some (Dimension n p s # dims, w)
   }"

definition NewCartesianTopology ::
    "defs \<Rightarrow> string option \<Rightarrow> handle \<Rightarrow> (u32 \<times> bool \<times> string option) list \<Rightarrow> u32 \<Rightarrow> (handle \<times> defs) option" where
  "NewCartesianTopology w topologyName communicator ds t = do {
     (dims, w) \<leftarrow> new_dimensions w 0 ds;
     (n, w) \<leftarrow> new_string w LocalManager (string_or topologyName ''unnamed topology'');
     (h, w) \<leftarrow> define_topology w LocalManager communicator t dims n;
     Some (h, announce h KCartesianTopology w)
   }"

definition NewCartesianCoords :: "defs \<Rightarrow> handle \<Rightarrow> u32 \<Rightarrow> u32 \<Rightarrow> u32 list \<Rightarrow> defs option" where
  "NewCartesianCoords w topology rank thread cs = do {
     (h, w) \<leftarrow> define_coords w LocalManager topology rank thread cs;
     Some (announce h KCartesianCoords w)
   }"

definition NewUnifiedCartesianCoords :: "defs \<Rightarrow> handle \<Rightarrow> u32 \<Rightarrow> u32 \<Rightarrow> u32 list \<Rightarrow> defs option" where
  "NewUnifiedCartesianCoords w topology rank thread cs = do {
     (h, w) \<leftarrow> define_coords w UnifiedManager topology rank thread cs;
     Some w
   }"

end
