(* ===== verification/Scorep_Definitions_Props.thy ===== *)
theory Scorep_Definitions_Props
  imports Scorep_Definitions_New
begin

text \<open>
  The invariant of the definition managers and the operations that keep it: the chain of a kind enumerates the
  sequence numbers, the buckets hold the definitions by hash value, no definition repeats an earlier one.
\<close>

section \<open>Memory and managers\<close>

lemma deref_valid: "deref w pm h = Some d \<longleftrightarrow> 0 < h \<and> h \<le> length (memory w pm) \<and> d = memory w pm ! (h - 1)"
  by (cases h) (auto simp: deref_def arr_get_def)

lemma deref_update:
  assumes "deref w pm h = Some d"
  shows "deref (update_object w pm h f) pm' h' = (if pm' = pm \<and> h' = h then Some (f d) else deref w pm' h')"
  using assms by (cases h; cases h') (auto simp: deref_def arr_get_def update_object_def)

lemma deref_append:
  "deref (w\<lparr>memory := (memory w)(0 := memory w 0 @ [d])\<rparr>) pm h =
     (if pm = 0 \<and> h = Suc (length (memory w 0)) then Some d else deref w pm h)"
  by (cases h) (auto simp: deref_def arr_get_def nth_append)

lemma rollback_append [simp]: "rollback_alloc (w\<lparr>memory := (memory w)(0 := memory w 0 @ [d])\<rparr>) = w"
  by (simp add: rollback_alloc_def)

lemma update_append [simp]:
  "update_object (w\<lparr>memory := (memory w)(0 := memory w 0 @ [d])\<rparr>) 0 (Suc (length (memory w 0))) f =
     w\<lparr>memory := (memory w)(0 := memory w 0 @ [f d])\<rparr>"
  by (simp add: update_object_def)

lemma get_manager_simps [simp]:
  "get_manager (w\<lparr>memory := x\<rparr>) m = get_manager w m" "get_manager (w\<lparr>announced := y\<rparr>) m = get_manager w m"
  "get_manager (update_object w pm h f) m = get_manager w m"
  by (auto simp: get_manager_def update_object_def split: which_manager.splits)

lemma get_set_manager:
  "get_manager (set_manager w m x) m' = (if m' = m then Some x else get_manager w m')"
  by (cases m; cases m') (auto simp: get_manager_def set_manager_def)

lemma deref_set_manager [simp]:
  "deref (set_manager w m x) pm h = deref w pm h" "deref (w\<lparr>announced := y\<rparr>) pm h = deref w pm h"
  by (cases m; simp add: deref_def set_manager_def)+

lemma search_chain_None:
  "search_chain w P hs = Some None \<longleftrightarrow> (\<forall>h\<in>set hs. \<exists>d. deref w 0 h = Some d \<and> \<not> P d)"
  by (induction hs) (auto simp: bind_Some_iff)

lemma search_chain_Some:
  "search_chain w P hs = Some (Some h) \<Longrightarrow> h \<in> set hs \<and> (\<exists>d. deref w 0 h = Some d \<and> P d)"
  by (induction hs) (auto simp: bind_Some_iff split: if_splits)

lemma search_chain_total:
  "\<forall>h\<in>set hs. \<exists>d. deref w 0 h = Some d \<Longrightarrow> \<exists>r. search_chain w P hs = Some r"
  by (induction hs) auto

text \<open>The state in which a definition has been put behind the others, with a new entry for its kind.\<close>

definition linked :: "defs \<Rightarrow> which_manager \<Rightarrow> def_kind \<Rightarrow> manager \<Rightarrow> def_object \<Rightarrow> manager_entry \<Rightarrow> defs" where
  "linked w m k mgr d e =
     set_manager (w\<lparr>memory := (memory w)(0 := memory w 0 @ [d\<lparr>sequence_number := counter (mgr k)\<rparr>])\<rparr>) m
       (mgr(k := e\<lparr>chain := chain (mgr k) @ [Suc (length (memory w 0))], counter := counter (mgr k) + 1\<rparr>))"

abbreviation (input) added :: "defs \<Rightarrow> which_manager \<Rightarrow> def_kind \<Rightarrow> manager \<Rightarrow> def_object \<Rightarrow> defs" where
  "added w m k mgr d \<equiv> linked w m k mgr d (push_bucket (def_hash d) (Suc (length (memory w 0))) (mgr k))"

lemma push_bucket_simps [simp]:
  "chain (push_bucket v h e) = chain e" "counter (push_bucket v h e) = counter e"
  "hash_table_mask (push_bucket v h e) = hash_table_mask e"
  "hash_table (push_bucket v h e) = map_option (\<lambda>t. t(v AND hash_table_mask e := h # t (v AND hash_table_mask e))) (hash_table e)"
  by (auto simp: push_bucket_def split: option.splits)

lemma set_manager_twice: "set_manager (set_manager w m x) m y = set_manager w m y"
  by (cases m) (auto simp: set_manager_def)

lemma update_set_manager: "update_object (set_manager w m x) pm h f = set_manager (update_object w pm h f) m x"
  by (cases m) (auto simp: set_manager_def update_object_def)

lemma add_to_entry_new:
  assumes "get_manager w m = Some mgr"
    and "\<forall>h\<in>set (bucket_of (mgr k) (def_hash d)). \<exists>e. deref w 0 h = Some e \<and> \<not> same e d"
  shows "add_to_entry w m k same d = Some (Suc (length (memory w 0)), True, added w m k mgr d)"
proof -
  let ?w = "w\<lparr>memory := (memory w)(0 := memory w 0 @ [d])\<rparr>"
  have "search_chain ?w (\<lambda>e. same e d) (bucket_of (mgr k) (def_hash d)) = Some None"
    using assms(2) by (auto simp: search_chain_None deref_append deref_valid)
  then show ?thesis
    using assms(1)
    by (simp add: add_to_entry_def definition_alloc_def link_definition_def get_set_manager linked_def Let_def
        set_manager_twice update_set_manager)
qed

lemma add_to_entry_cases:
  assumes add: "add_to_entry w m k same d = Some (h, fresh, w')"
    and valid: "\<And>mgr. get_manager w m = Some mgr \<Longrightarrow> \<forall>h\<in>set (bucket_of (mgr k) (def_hash d)). \<exists>e. deref w 0 h = Some e"
  obtains mgr where "get_manager w m = Some mgr" "fresh" "h = Suc (length (memory w 0))" "w' = added w m k mgr d"
      "\<forall>h\<in>set (bucket_of (mgr k) (def_hash d)). \<exists>e. deref w 0 h = Some e \<and> \<not> same e d"
  | mgr e where "get_manager w m = Some mgr" "\<not> fresh" "w' = w" "h \<in> set (bucket_of (mgr k) (def_hash d))"
      "deref w 0 h = Some e" "same e d"
proof -
  let ?w = "w\<lparr>memory := (memory w)(0 := memory w 0 @ [d])\<rparr>"
  obtain mgr where mgr: "get_manager w m = Some mgr"
    using add by (auto simp: add_to_entry_def definition_alloc_def bind_Some_iff)
  note v = valid [OF mgr]
  obtain old where old: "search_chain ?w (\<lambda>e. same e d) (bucket_of (mgr k) (def_hash d)) = Some old"
    using add mgr by (auto simp: add_to_entry_def definition_alloc_def bind_Some_iff)
  show thesis
  proof (cases old)
    case None
    then have none: "\<forall>h\<in>set (bucket_of (mgr k) (def_hash d)). \<exists>e. deref w 0 h = Some e \<and> \<not> same e d"
      using old v by (fastforce simp: search_chain_None deref_append deref_valid)
    show thesis
      using that(1) [OF mgr _ _ _ none] add add_to_entry_new [OF mgr, where same = same, OF none] by auto
  next
    case (Some h')
    then have s: "h' \<in> set (bucket_of (mgr k) (def_hash d))" "\<exists>e. deref w 0 h' = Some e \<and> same e d"
      using search_chain_Some [of ?w _ _ h'] old v by (fastforce simp: deref_append deref_valid)+
    moreover have "h = h'" "\<not> fresh" "w' = w"
      using add mgr old Some by (auto simp: add_to_entry_def definition_alloc_def bind_Some_iff)
    ultimately show thesis using that(2) [OF mgr] by auto
  qed
qed

section \<open>The invariant\<close>

text \<open>What makes a definition of a kind a repetition of an existing one.\<close>

definition same_for :: "def_kind \<Rightarrow> def_object \<Rightarrow> def_object \<Rightarrow> bool" where
  "same_for k = (if k = KProperty then same_property else if k = KCommunicator then same_communicator
     else if k = KRmaWindow then same_rma_window else same_definition)"

definition holds_definition :: "defs \<Rightarrow> def_kind \<Rightarrow> nat \<Rightarrow> handle \<Rightarrow> bool" where
  "holds_definition w k i h \<longleftrightarrow> (\<exists>d. deref w 0 h = Some d \<and> kind_of (content d) = k \<and> sequence_number d = of_nat i)"

definition enumerates :: "defs \<Rightarrow> def_kind \<Rightarrow> manager_entry \<Rightarrow> bool" where
  "enumerates w k e \<longleftrightarrow> distinct (chain e) \<and> counter e = of_nat (length (chain e))
     \<and> (\<forall>i<length (chain e). holds_definition w k i (chain e ! i))"

definition in_bucket :: "defs \<Rightarrow> u32 \<Rightarrow> u32 \<Rightarrow> handle \<Rightarrow> bool" where
  "in_bucket w low v h \<longleftrightarrow> (\<exists>d. deref w 0 h = Some d \<and> def_hash d AND low = v AND low)"

definition buckets_ok :: "defs \<Rightarrow> manager_entry \<Rightarrow> bool" where
  "buckets_ok w e \<longleftrightarrow> (\<forall>v. set (bucket_of e v) = {h \<in> set (chain e). in_bucket w (hash_table_mask e) v h})"

text \<open>Definitions with equal low bits of the hash value are no repetitions of each other.\<close>

definition no_repetition :: "defs \<Rightarrow> def_kind \<Rightarrow> manager_entry \<Rightarrow> bool" where
  "no_repetition w k e \<longleftrightarrow> (\<forall>i j a b. i < j \<and> j < length (chain e)
     \<and> deref w 0 (chain e ! i) = Some a \<and> deref w 0 (chain e ! j) = Some b
     \<and> def_hash a AND hash_table_mask e = def_hash b AND hash_table_mask e \<longrightarrow> \<not> same_for k a b)"

text \<open>Recorders are never put into their hash table.\<close>

definition entry_ok :: "defs \<Rightarrow> def_kind \<Rightarrow> manager_entry \<Rightarrow> bool" where
  "entry_ok w k e \<longleftrightarrow> enumerates w k e
     \<and> (hash_table e \<noteq> None \<and> k \<noteq> KSamplingSetRecorder \<longrightarrow> buckets_ok w e \<and> no_repetition w k e)"

definition defs_ok :: "defs \<Rightarrow> bool" where
  "defs_ok w \<longleftrightarrow> (\<forall>m mgr k. get_manager w m = Some mgr \<longrightarrow> entry_ok w k (mgr k))"

lemma defs_okD: "defs_ok w \<Longrightarrow> get_manager w m = Some mgr \<Longrightarrow> entry_ok w k (mgr k)"
  by (simp add: defs_ok_def)

lemma enumerates_deref:
  assumes "enumerates w k e" "h \<in> set (chain e)"
  shows "\<exists>d. deref w 0 h = Some d \<and> kind_of (content d) = k"
  using assms by (auto simp: enumerates_def holds_definition_def in_set_conv_nth)

lemma bucket_valid:
  assumes "entry_ok w k e" "k \<noteq> KSamplingSetRecorder" "h \<in> set (bucket_of e v)"
  shows "h \<in> set (chain e)" "\<exists>d. deref w 0 h = Some d \<and> kind_of (content d) = k"
proof -
  show "h \<in> set (chain e)"
    using assms by (cases "hash_table e") (auto simp: entry_ok_def buckets_ok_def bucket_of_def)
  then show "\<exists>d. deref w 0 h = Some d \<and> kind_of (content d) = k"
    using enumerates_deref assms(1) by (auto simp: entry_ok_def)
qed

subsection \<open>Changes that keep it\<close>

text \<open>\<open>d'\<close> is \<open>d\<close> after a change the managers do not see.\<close>

definition alike :: "def_object \<Rightarrow> def_object \<Rightarrow> bool" where
  "alike d d' \<longleftrightarrow> kind_of (content d') = kind_of (content d) \<and> def_hash d' = def_hash d
     \<and> sequence_number d' = sequence_number d
     \<and> (kind_of (content d) \<in> always_hashed \<longrightarrow> (\<forall>w. hash_items w (content d') = hash_items w (content d)))"

definition compared_alike :: "def_object \<Rightarrow> def_object \<Rightarrow> bool" where
  "compared_alike d d' \<longleftrightarrow> (\<forall>e. same_for (kind_of (content d)) d' e = same_for (kind_of (content d)) d e
     \<and> same_for (kind_of (content d)) e d' = same_for (kind_of (content d)) e d)"

definition kept :: "bool \<Rightarrow> def_object \<Rightarrow> def_object \<Rightarrow> bool" where
  "kept hashed d d' \<longleftrightarrow> alike d d' \<and> (hashed \<longrightarrow> compared_alike d d')"

lemma kept_refl [simp]: "kept b d d"
  by (simp add: kept_def alike_def compared_alike_def)

lemma entry_ok_kept:
  assumes ok: "entry_ok w k e"
    and kept: "\<And>h d. h \<in> set (chain e) \<Longrightarrow> deref w 0 h = Some d
      \<Longrightarrow> \<exists>d'. deref w' 0 h = Some d' \<and> kept (hash_table e \<noteq> None) d d'"
  shows "entry_ok w' k e"
proof -
  have en: "enumerates w k e" using ok by (simp add: entry_ok_def)
  have old: "\<exists>d. deref w 0 h = Some d \<and> kind_of (content d) = k \<and> kept (hash_table e \<noteq> None) d d'"
    if "h \<in> set (chain e)" "deref w' 0 h = Some d'" for h d'
    using enumerates_deref [OF en that(1)] kept [OF that(1)] that(2) by fastforce
  have "enumerates w' k e"
    unfolding enumerates_def holds_definition_def
  proof (intro conjI allI impI)
    fix i assume i: "i < length (chain e)"
    then obtain d where d: "deref w 0 (chain e ! i) = Some d" "kind_of (content d) = k" "sequence_number d = of_nat i"
      using en by (auto simp: enumerates_def holds_definition_def)
    then show "\<exists>d. deref w' 0 (chain e ! i) = Some d \<and> kind_of (content d) = k \<and> sequence_number d = of_nat i"
      using kept [of "chain e ! i" d] i by (auto simp: kept_def alike_def)
  qed (use en in \<open>auto simp: enumerates_def\<close>)
  moreover have "buckets_ok w' e" if "buckets_ok w e"
  proof -
    have "in_bucket w' (hash_table_mask e) v h = in_bucket w (hash_table_mask e) v h" if "h \<in> set (chain e)" for v h
      using old [OF that] kept [OF that] by (fastforce simp: in_bucket_def kept_def alike_def)
    then show ?thesis using that by (auto simp: buckets_ok_def)
  qed
  moreover have "no_repetition w' k e" if "hash_table e \<noteq> None" "no_repetition w k e"
    unfolding no_repetition_def
  proof (intro allI impI, elim conjE)
    fix i j a' b'
    assume ij: "i < j" "j < length (chain e)" and da: "deref w' 0 (chain e ! i) = Some a'" "deref w' 0 (chain e ! j) = Some b'"
      and v: "def_hash a' AND hash_table_mask e = def_hash b' AND hash_table_mask e"
    have ht: "(hash_table e \<noteq> None) = True" using that(1) by simp
    obtain a b where ab: "deref w 0 (chain e ! i) = Some a" "kind_of (content a) = k" "kept True a a'"
        "deref w 0 (chain e ! j) = Some b" "kind_of (content b) = k" "kept True b b'"
      using old [of "chain e ! i" a', unfolded ht] old [of "chain e ! j" b', unfolded ht] ij da by auto
    then have "\<not> same_for k a b"
      using that(2) ij v unfolding no_repetition_def kept_def alike_def by metis
    then show "\<not> same_for k a' b'"
      using ab by (auto simp: kept_def compared_alike_def)
  qed
  ultimately show ?thesis using ok by (auto simp: entry_ok_def)
qed

definition hashes :: "defs \<Rightarrow> def_kind \<Rightarrow> bool" where
  "hashes w k \<longleftrightarrow> (\<exists>m mgr. get_manager w m = Some mgr \<and> hash_table (mgr k) \<noteq> None)"

definition changed :: "defs \<Rightarrow> defs \<Rightarrow> bool" where
  "changed w w' \<longleftrightarrow> (\<forall>m. get_manager w' m = get_manager w m) \<and> (\<forall>h d. deref w 0 h = Some d
     \<longrightarrow> (\<exists>d'. deref w' 0 h = Some d' \<and> kept (hashes w (kind_of (content d))) d d'))"

lemma defs_ok_changed:
  assumes ok: "defs_ok w" and ch: "changed w w'"
  shows "defs_ok w'"
  unfolding defs_ok_def
proof (intro allI impI)
  fix m mgr k assume "get_manager w' m = Some mgr"
  then have mgr: "get_manager w m = Some mgr" using ch by (simp add: changed_def)
  note e = defs_okD [OF ok mgr, of k]
  show "entry_ok w' k (mgr k)"
  proof (rule entry_ok_kept [OF e])
    fix h d assume h: "h \<in> set (chain (mgr k))" "deref w 0 h = Some d"
    then have "kind_of (content d) = k" using e enumerates_deref by (fastforce simp: entry_ok_def)
    then have "hash_table (mgr k) \<noteq> None \<longrightarrow> hashes w (kind_of (content d))" using mgr by (auto simp: hashes_def)
    then show "\<exists>d'. deref w' 0 h = Some d' \<and> kept (hash_table (mgr k) \<noteq> None) d d'"
      using ch h(2) unfolding changed_def kept_def by blast
  qed
qed

lemma changed_update:
  assumes "deref w pm h = Some d" "pm = 0 \<Longrightarrow> kept (hashes w (kind_of (content d))) d (f d)"
  shows "changed w (update_object w pm h f)"
  unfolding changed_def
proof (intro conjI allI impI)
  fix h' d' assume "deref w 0 h' = Some d'"
  then show "\<exists>d''. deref (update_object w pm h f) 0 h' = Some d'' \<and> kept (hashes w (kind_of (content d'))) d' d''"
    using assms deref_update [OF assms(1), of f 0 h'] by (cases "pm = 0 \<and> h' = h") auto
qed simp

lemma deref_announce [simp]: "deref (announce h k w) pm h' = deref w pm h'"
  by (simp add: announce_def)

lemma get_manager_announce [simp]: "get_manager (announce h k w) m = get_manager w m"
  by (simp add: announce_def)

lemma changed_announce: "changed w (announce h k w)"
  by (simp add: changed_def)

subsection \<open>Adding a definition keeps it\<close>

lemma same_for_sequence [simp]: "same_for k a (d\<lparr>sequence_number := n\<rparr>) = same_for k a d"
  by (simp add: same_for_def same_property_def same_communicator_def same_rma_window_def same_definition_def)

lemma deref_linked:
  "deref (linked w m k mgr d e) pm h = (if pm = 0 \<and> h = Suc (length (memory w 0))
     then Some (d\<lparr>sequence_number := counter (mgr k)\<rparr>) else deref w pm h)"
  by (simp add: linked_def deref_append)

lemma get_manager_linked:
  "get_manager (linked w m k mgr d e) m' = (if m' = m
     then Some (mgr(k := e\<lparr>chain := chain (mgr k) @ [Suc (length (memory w 0))], counter := counter (mgr k) + 1\<rparr>))
     else get_manager w m')"
  by (simp add: linked_def get_set_manager)

lemma bucket_of_push:
  "bucket_of (push_bucket v h e\<lparr>chain := c, counter := n\<rparr>) x =
     (if hash_table e \<noteq> None \<and> x AND hash_table_mask e = v AND hash_table_mask e then h # bucket_of e x else bucket_of e x)"
  by (auto simp: bucket_of_def split: option.splits)

lemma enumerates_linked:
  assumes en: "enumerates w k (mgr k)" and kd: "kind_of (content d) = k" and e': "chain e' = chain (mgr k) @ [Suc (length (memory w 0))]"
    "counter e' = counter (mgr k) + 1"
  shows "enumerates (linked w m k mgr d e) k e'"
  unfolding enumerates_def
proof (intro conjI allI impI)
  have old: "h \<noteq> Suc (length (memory w 0))" if "h \<in> set (chain (mgr k))" for h
    using enumerates_deref [OF en that] by (auto simp: deref_valid)
  then show "distinct (chain e')" using en e' by (auto simp: enumerates_def)
  show "counter e' = of_nat (length (chain e'))" using en e' by (simp add: enumerates_def)
  fix i assume i: "i < length (chain e')"
  show "holds_definition (linked w m k mgr d e) k i (chain e' ! i)"
  proof (cases "i < length (chain (mgr k))")
    case True
    then have "holds_definition w k i (chain (mgr k) ! i)" "chain (mgr k) ! i \<noteq> Suc (length (memory w 0))"
      using en old by (auto simp: enumerates_def)
    then show ?thesis using True e' by (auto simp: holds_definition_def deref_linked nth_append)
  next
    case False
    then have "i = length (chain (mgr k))" using i e' by simp
    then show ?thesis using en kd e' by (auto simp: holds_definition_def deref_linked enumerates_def)
  qed
qed

lemma entry_ok_linked:
  assumes ok: "entry_ok w k (mgr k)" and kd: "kind_of (content d) = k"
    and e: "hash_table e \<noteq> None \<and> k \<noteq> KSamplingSetRecorder \<Longrightarrow> e = push_bucket (def_hash d) (Suc (length (memory w 0))) (mgr k)
      \<and> (\<forall>h\<in>set (bucket_of (mgr k) (def_hash d)). \<exists>a. deref w 0 h = Some a \<and> \<not> same_for k a d)"
  defines "e' \<equiv> e\<lparr>chain := chain (mgr k) @ [Suc (length (memory w 0))], counter := counter (mgr k) + 1\<rparr>"
  shows "entry_ok (linked w m k mgr d e) k e'"
proof -
  let ?n = "Suc (length (memory w 0))" and ?w = "linked w m k mgr d e"
  have en: "enumerates w k (mgr k)" using ok by (simp add: entry_ok_def)
  have old: "h \<noteq> ?n" if "h \<in> set (chain (mgr k))" for h
    using enumerates_deref [OF en that] by (auto simp: deref_valid)
  have "buckets_ok ?w e' \<and> no_repetition ?w k e'" if t: "hash_table e' \<noteq> None \<and> k \<noteq> KSamplingSetRecorder"
  proof -
    have e1: "e = push_bucket (def_hash d) ?n (mgr k)"
      and new: "\<forall>h\<in>set (bucket_of (mgr k) (def_hash d)). \<exists>a. deref w 0 h = Some a \<and> \<not> same_for k a d"
      using e t by (auto simp: e'_def)
    have t0: "hash_table (mgr k) \<noteq> None" using t by (auto simp: e'_def e1)
    then have b: "buckets_ok w (mgr k)" and r: "no_repetition w k (mgr k)" using ok t by (auto simp: entry_ok_def)
    have msk: "hash_table_mask e' = hash_table_mask (mgr k)" by (simp add: e'_def e1)
    have "set (bucket_of e' v) = {h \<in> set (chain e'). in_bucket ?w (hash_table_mask e') v h}" for v
    proof -
      have ib: "in_bucket ?w (hash_table_mask e') v h = in_bucket w (hash_table_mask (mgr k)) v h"
        if "h \<in> set (chain (mgr k))" for h
        using old [OF that] by (simp add: in_bucket_def deref_linked msk)
      have "in_bucket ?w (hash_table_mask e') v ?n \<longleftrightarrow> v AND hash_table_mask (mgr k) = def_hash d AND hash_table_mask (mgr k)"
        by (auto simp: in_bucket_def deref_linked msk)
      moreover have "set (bucket_of (mgr k) v) = {h \<in> set (chain (mgr k)). in_bucket w (hash_table_mask (mgr k)) v h}"
        using b by (simp add: buckets_ok_def)
      ultimately show ?thesis using t0 ib by (auto simp: e'_def e1 bucket_of_push)
    qed
    moreover have "no_repetition ?w k e'"
      unfolding no_repetition_def
    proof (intro allI impI, elim conjE)
      fix i j a b'
      assume ij: "i < j" "j < length (chain e')" and da: "deref ?w 0 (chain e' ! i) = Some a" "deref ?w 0 (chain e' ! j) = Some b'"
        and v: "def_hash a AND hash_table_mask e' = def_hash b' AND hash_table_mask e'"
      have i: "i < length (chain (mgr k))" using ij by (simp add: e'_def)
      then have a: "deref w 0 (chain (mgr k) ! i) = Some a"
        using da(1) old [of "chain (mgr k) ! i"] by (auto simp: e'_def nth_append deref_linked)
      show "\<not> same_for k a b'"
      proof (cases "j < length (chain (mgr k))")
        case True
        then have "deref w 0 (chain (mgr k) ! j) = Some b'"
          using da(2) old [of "chain (mgr k) ! j"] by (auto simp: e'_def nth_append deref_linked)
        then show ?thesis using r a ij(1) True v by (auto simp: no_repetition_def msk)
      next
        case False
        then have "b' = d\<lparr>sequence_number := counter (mgr k)\<rparr>"
          using ij da(2) by (auto simp: e'_def nth_append deref_linked)
        moreover have "chain (mgr k) ! i \<in> set (bucket_of (mgr k) (def_hash d))"
          using b i a v calculation by (auto simp: buckets_ok_def in_bucket_def msk)
        ultimately show ?thesis using new a by auto
      qed
    qed
    ultimately show ?thesis by (simp add: buckets_ok_def)
  qed
  moreover have "enumerates ?w k e'" by (rule enumerates_linked [where mgr = mgr]) (use en kd in \<open>auto simp: e'_def\<close>)
  ultimately show ?thesis by (simp add: entry_ok_def)
qed

text \<open>The entry with which a definition is linked: that of its kind, with the definition in its bucket when
  the kind has a hash table that holds no repetition.\<close>

definition fresh_entry :: "defs \<Rightarrow> def_kind \<Rightarrow> manager \<Rightarrow> def_object \<Rightarrow> manager_entry \<Rightarrow> bool" where
  "fresh_entry w k mgr d e \<longleftrightarrow> e = mgr k \<and> (hash_table e = None \<or> k = KSamplingSetRecorder)
     \<or> e = push_bucket (def_hash d) (Suc (length (memory w 0))) (mgr k)
       \<and> (\<forall>h\<in>set (bucket_of (mgr k) (def_hash d)). \<exists>a. deref w 0 h = Some a \<and> \<not> same_for k a d)"

lemma defs_ok_linked:
  assumes ok: "defs_ok w" and mgr: "get_manager w m = Some mgr" and kd: "kind_of (content d) = k"
    and e: "fresh_entry w k mgr d e"
  shows "defs_ok (linked w m k mgr d e)"
  unfolding defs_ok_def
proof (intro allI impI)
  fix m' mgr' k' assume m': "get_manager (linked w m k mgr d e) m' = Some mgr'"
  have same: "entry_ok (linked w m k mgr d e) k' en" if en: "entry_ok w k' en" for en
  proof (rule entry_ok_kept [OF en])
    fix h a assume "h \<in> set (chain en)" "deref w 0 h = Some a"
    then show "\<exists>d'. deref (linked w m k mgr d e) 0 h = Some d' \<and> kept (hash_table en \<noteq> None) a d'"
      by (auto simp: deref_linked deref_valid)
  qed
  show "entry_ok (linked w m k mgr d e) k' (mgr' k')"
  proof (cases "m' = m \<and> k' = k")
    case True
    have "entry_ok (linked w m k mgr d e) k
        (e\<lparr>chain := chain (mgr k) @ [Suc (length (memory w 0))], counter := counter (mgr k) + 1\<rparr>)"
      using defs_okD [OF ok mgr] kd by (rule entry_ok_linked) (use e in \<open>auto simp: fresh_entry_def\<close>)
    then show ?thesis using m' True by (auto simp: get_manager_linked)
  next
    case False
    then show ?thesis
      using m' defs_okD [OF ok, of m' _ k'] mgr by (auto simp: get_manager_linked intro!: same split: if_splits)
  qed
qed

lemma add_to_entry_linked:
  assumes ok: "defs_ok w" and add: "add_to_entry w m k (same_for k) d = Some (h, fresh, w')"
    and kd: "k \<noteq> KSamplingSetRecorder"
  obtains mgr where "get_manager w m = Some mgr" "fresh" "h = Suc (length (memory w 0))" "w' = added w m k mgr d"
      "fresh_entry w k mgr d (push_bucket (def_hash d) h (mgr k))"
  | mgr e where "get_manager w m = Some mgr" "\<not> fresh" "w' = w" "h \<in> set (chain (mgr k))"
      "deref w 0 h = Some e" "kind_of (content e) = k" "same_for k e d"
proof -
  have v: "\<forall>h\<in>set (bucket_of (mgr k) (def_hash d)). \<exists>e. deref w 0 h = Some e" if "get_manager w m = Some mgr" for mgr
    using bucket_valid [OF defs_okD [OF ok that] kd] by blast
  show thesis
  proof (rule add_to_entry_cases [OF add])
    fix mgr assume "get_manager w m = Some mgr"
    then show "\<forall>h\<in>set (bucket_of (mgr k) (def_hash d)). \<exists>e. deref w 0 h = Some e" by (rule v)
  next
    fix mgr assume a: "get_manager w m = Some mgr" "fresh" "h = Suc (length (memory w 0))" "w' = added w m k mgr d"
      "\<forall>h\<in>set (bucket_of (mgr k) (def_hash d)). \<exists>e. deref w 0 h = Some e \<and> \<not> same_for k e d"
    show thesis by (rule that(1) [OF a(1-4)]) (use a in \<open>simp add: fresh_entry_def\<close>)
  next
    fix mgr e assume a: "get_manager w m = Some mgr" "\<not> fresh" "w' = w" "h \<in> set (bucket_of (mgr k) (def_hash d))"
      "deref w 0 h = Some e" "same_for k e d"
    show thesis
      using that(2) [OF a(1-3) _ a(5) _ a(6)] bucket_valid [OF defs_okD [OF ok a(1)] kd a(4)] a(5) by auto
  qed
qed

subsection \<open>Hash values\<close>

text \<open>The hash value of a definition of an always hashed kind is that of its content.\<close>

definition hashes_ok :: "defs \<Rightarrow> bool" where
  "hashes_ok w \<longleftrightarrow> (\<forall>h d. deref w 0 h = Some d \<and> kind_of (content d) \<in> always_hashed
     \<longrightarrow> hash_content w (content d) = Some (def_hash d))"

lemma hash_items_static:
  "kind_of c \<in> always_hashed \<Longrightarrow> hash_items w' c = hash_items w c"
  by (cases c) (auto simp: hash_items_def kind_of_def always_hashed_def)

lemma hash_items_from_kept:
  assumes "\<And>h d. deref w 0 h = Some d \<Longrightarrow> \<exists>d'. deref w' 0 h = Some d' \<and> def_hash d' = def_hash d"
  shows "hash_items_from w xs v = Some r \<Longrightarrow> hash_items_from w' xs v = Some r"
proof (induction xs arbitrary: v)
  case (Cons x xs)
  then show ?case using assms by (cases x) (fastforce simp: bind_Some_iff)+
qed simp

lemma hash_content_kept:
  assumes "\<And>h d. deref w 0 h = Some d \<Longrightarrow> \<exists>d'. deref w' 0 h = Some d' \<and> def_hash d' = def_hash d"
    and "kind_of c \<in> always_hashed" "hash_content w c = Some v"
  shows "hash_content w' c = Some v"
proof -
  obtain xs where xs: "hash_items w c = Some xs" "hash_items_from w xs 0 = Some v"
    using assms(3) by (auto simp: hash_content_def bind_Some_iff)
  moreover have "hash_items w' c = Some xs" using xs(1) hash_items_static [OF assms(2), of w' w] by simp
  ultimately show ?thesis using hash_items_from_kept [OF assms(1)] by (auto simp: hash_content_def)
qed

lemma hashes_ok_changed:
  assumes ok: "hashes_ok w" and ch: "changed w w'" and new: "\<And>h d. deref w' 0 h = Some d \<Longrightarrow> deref w 0 h \<noteq> None"
  shows "hashes_ok w'"
  unfolding hashes_ok_def
proof (intro allI impI, elim conjE)
  fix h d' assume d': "deref w' 0 h = Some d'" "kind_of (content d') \<in> always_hashed"
  obtain d where d: "deref w 0 h = Some d" "kept (hashes w (kind_of (content d))) d d'"
    using new [OF d'(1)] ch d'(1) unfolding changed_def by fastforce
  then have k: "kind_of (content d) \<in> always_hashed" using d'(2) by (simp add: kept_def alike_def)
  then have "hash_content w (content d) = Some (def_hash d)" using ok d(1) by (simp add: hashes_ok_def)
  then have "hash_content w (content d') = Some (def_hash d)"
    using d(2) k by (simp add: kept_def alike_def hash_content_def)
  then have "hash_content w' (content d') = Some (def_hash d)"
  proof (rule hash_content_kept [rotated 2])
    fix g a assume "deref w 0 g = Some a"
    then show "\<exists>b. deref w' 0 g = Some b \<and> def_hash b = def_hash a"
      using ch by (fastforce simp: changed_def kept_def alike_def)
  qed (rule d'(2))
  then show "hash_content w' (content d') = Some (def_hash d')" using d(2) by (simp add: kept_def alike_def)
qed

lemma hashes_ok_linked:
  assumes ok: "hashes_ok w" and h: "kind_of (content d) \<in> always_hashed \<Longrightarrow> hash_content w (content d) = Some (def_hash d)"
  shows "hashes_ok (linked w m k mgr d e)"
  unfolding hashes_ok_def
proof (intro allI impI, elim conjE)
  fix h d' assume d': "deref (linked w m k mgr d e) 0 h = Some d'" "kind_of (content d') \<in> always_hashed"
  have hd: "hash_content w (content d') = Some (def_hash d')"
    using ok h d' by (auto simp: deref_linked hashes_ok_def split: if_splits)
  show "hash_content (linked w m k mgr d e) (content d') = Some (def_hash d')"
    by (rule hash_content_kept [OF _ d'(2) hd]) (auto simp: deref_linked deref_valid)
qed


section \<open>What the operations keep\<close>

lemma same_for_cong:
  assumes "content a' = content a" "def_hash a' = def_hash a"
  shows "same_for k a' b = same_for k a b" "same_for k b a' = same_for k b a"
proof -
  show "same_for k a' b = same_for k a b"
    by (simp add: same_for_def same_property_def same_communicator_def same_rma_window_def same_definition_def assms)
  show "same_for k b a' = same_for k b a"
    by (simp add: same_for_def same_property_def same_communicator_def same_rma_window_def same_definition_def assms)
qed

lemma kept_fields:
  "content d' = content d \<Longrightarrow> def_hash d' = def_hash d \<Longrightarrow> sequence_number d' = sequence_number d \<Longrightarrow> kept b d d'"
  using same_for_cong [of d' d] by (simp add: kept_def alike_def compared_alike_def)

lemma kept_fieldwise [simp]:
  "kept b d (d\<lparr>has_children := x\<rparr>)" "kept b d (d\<lparr>unified := u\<rparr>)" "kept b d (append_chained h d)"
  by (auto intro!: kept_fields simp: append_chained_def)

text \<open>A change of the content that neither the hash value nor the comparison reads.\<close>

lemma kept_content:
  assumes "kind_of c = kind_of (content d)" "\<And>w. hash_items w c = hash_items w (content d)"
    and "\<And>a b :: def_object. content b = c \<Longrightarrow> def_hash b = def_hash d
      \<Longrightarrow> same_for (kind_of c) b a = same_for (kind_of c) d a \<and> same_for (kind_of c) a b = same_for (kind_of c) a d"
  shows "kept b d (d\<lparr>content := c\<rparr>)"
  using assms(1,2) assms(3) [of "d\<lparr>content := c\<rparr>"] by (simp add: kept_def alike_def compared_alike_def)

lemma equal_content_kinds:
  "equal_content (Region x) e \<longleftrightarrow> (\<exists>y. e = Region y \<and> equal_region x y)"
  "equal_content e (Region x) \<longleftrightarrow> (\<exists>y. e = Region y \<and> equal_region y x)"
  "\<not> equal_content (LocationGroup g) e" "\<not> equal_content e (LocationGroup g)"
  "\<not> equal_content (InterimCommunicator i) e" "\<not> equal_content e (InterimCommunicator i)"
  by (cases e; simp add: equal_content_def equal_location_group_def)+

lemma kept_region_group:
  "content d = Region (RegionDef n c ds f l e p t g') \<Longrightarrow> kept b d (d\<lparr>content := Region (RegionDef n c ds f l e p t g)\<rparr>)"
  by (rule kept_content)
    (simp_all add: kind_of_def hash_items_def initialize_region_def same_for_def same_definition_def equal_content_kinds
      equal_region_def)

lemma kept_location_group: "content d = LocationGroup y \<Longrightarrow> kept b d (d\<lparr>content := LocationGroup x\<rparr>)"
  by (rule kept_content) (simp_all add: kind_of_def hash_items_def same_for_def same_definition_def equal_content_kinds)

lemma kept_interim:
  "content d = InterimCommunicator y \<Longrightarrow> interim_parent x = interim_parent y \<Longrightarrow> interim_paradigm x = interim_paradigm y
    \<Longrightarrow> kept b d (d\<lparr>content := InterimCommunicator x\<rparr>)"
  by (rule kept_content)
    (simp_all add: kind_of_def hash_items_def hash_interim_communicator_def same_for_def same_definition_def equal_content_kinds)

lemma kept_rma_window:
  "content d = RmaWindow y \<Longrightarrow> window_communicator x = window_communicator y \<Longrightarrow> creation_id x = creation_id y
    \<Longrightarrow> kept b d (d\<lparr>content := RmaWindow x\<rparr>)"
  by (rule kept_content)
    (simp_all add: kind_of_def hash_items_def hash_rma_window_def same_for_def same_rma_window_def split: def_content.split)

lemma kept_property:
  "content d = Property y \<Longrightarrow> property x = property y \<Longrightarrow> condition x = condition y \<Longrightarrow> initial_value x = initial_value y
    \<Longrightarrow> kept b d (d\<lparr>content := Property x\<rparr>)"
  by (rule kept_content)
    (simp_all add: kind_of_def hash_items_def hash_property_def same_for_def same_property_def equal_property_def split: def_content.split)

lemma kept_communicator:
  "content d = Communicator y \<Longrightarrow> group_a n = group_a y \<Longrightarrow> group_b n = group_b y
    \<Longrightarrow> kept b d (d\<lparr>content := Communicator (merge_communicator y n)\<rparr>)"
  by (rule kept_content)
    (auto simp: kind_of_def hash_items_def hash_communicator_def same_for_def same_communicator_def merge_communicator_def
      split: def_content.split)

lemma kept_io_handle: "content d = IoHandle y \<Longrightarrow> kept False d (d\<lparr>content := IoHandle x\<rparr>)"
  by (simp add: kept_def alike_def kind_of_def always_hashed_def)

end
