(* ===== verification/Scorep_Definitions_Interface.thy ===== *)
theory Scorep_Definitions_Interface
  imports Scorep_Definitions_Props
begin

text \<open>
  Every operation with which the adapters make and change definitions keeps an invariant that adding and
  changing single definitions keeps: a locale states these two laws, and the operations are shown to keep the
  invariant from them alone.
\<close>

section \<open>The laws of an invariant\<close>

definition same_handles :: "defs \<Rightarrow> defs \<Rightarrow> bool" where
  "same_handles w w' \<longleftrightarrow> length (memory w' 0) = length (memory w 0)"

text \<open>The definition is hashed by its content when its kind is always hashed.\<close>

definition hashed_definition :: "defs \<Rightarrow> def_object \<Rightarrow> bool" where
  "hashed_definition w d \<longleftrightarrow> (kind_of (content d) \<in> always_hashed \<longrightarrow> hash_content w (content d) = Some (def_hash d))"

text \<open>The kinds that the macro adds; the others are searched by code of their own.\<close>

definition added_by_macro :: "def_kind \<Rightarrow> bool" where
  "added_by_macro k \<longleftrightarrow> k \<noteq> KProperty \<and> k \<noteq> KCommunicator \<and> k \<noteq> KRmaWindow \<and> k \<noteq> KSamplingSetRecorder"

lemma added_by_macro_kind [simp]:
  "added_by_macro (kind_of c) = (case c of Property _ \<Rightarrow> False | Communicator _ \<Rightarrow> False | RmaWindow _ \<Rightarrow> False
     | SamplingSetRecorder _ \<Rightarrow> False | _ \<Rightarrow> True)"
  by (cases c) (simp_all add: kind_of_def added_by_macro_def)

text \<open>A definition that is read as one of a kind is of that kind.\<close>

lemma content_of_kind:
  "(case c of SystemTreeNode x \<Rightarrow> f1 x | _ \<Rightarrow> None) = Some y \<longleftrightarrow> (\<exists>x. c = SystemTreeNode x \<and> f1 x = Some y)"
  "(case c of LocationGroup x \<Rightarrow> f2 x | _ \<Rightarrow> None) = Some y \<longleftrightarrow> (\<exists>x. c = LocationGroup x \<and> f2 x = Some y)"
  "(case c of Location x \<Rightarrow> f3 x | _ \<Rightarrow> None) = Some y \<longleftrightarrow> (\<exists>x. c = Location x \<and> f3 x = Some y)"
  "(case c of SourceFile x \<Rightarrow> f4 x | _ \<Rightarrow> None) = Some y \<longleftrightarrow> (\<exists>x. c = SourceFile x \<and> f4 x = Some y)"
  "(case c of Region x \<Rightarrow> f5 x | _ \<Rightarrow> None) = Some y \<longleftrightarrow> (\<exists>x. c = Region x \<and> f5 x = Some y)"
  "(case c of InterimCommunicator x \<Rightarrow> f6 x | _ \<Rightarrow> None) = Some y \<longleftrightarrow> (\<exists>x. c = InterimCommunicator x \<and> f6 x = Some y)"
  "(case c of Communicator x \<Rightarrow> f7 x | _ \<Rightarrow> None) = Some y \<longleftrightarrow> (\<exists>x. c = Communicator x \<and> f7 x = Some y)"
  "(case c of RmaWindow x \<Rightarrow> f8 x | _ \<Rightarrow> None) = Some y \<longleftrightarrow> (\<exists>x. c = RmaWindow x \<and> f8 x = Some y)"
  "(case c of SamplingSet x \<Rightarrow> f9 x | _ \<Rightarrow> None) = Some y \<longleftrightarrow> (\<exists>x. c = SamplingSet x \<and> f9 x = Some y)"
  "(case c of Property x \<Rightarrow> f10 x | _ \<Rightarrow> None) = Some y \<longleftrightarrow> (\<exists>x. c = Property x \<and> f10 x = Some y)"
  "(case c of IoHandle x \<Rightarrow> f11 x | _ \<Rightarrow> None) = Some y \<longleftrightarrow> (\<exists>x. c = IoHandle x \<and> f11 x = Some y)"
  by (cases c; simp)+

lemma content_parts:
  "(case r of RegionDef a b c d e f g h i \<Rightarrow> f1 a b c d e f g h i) = Some y \<longleftrightarrow>
     (\<exists>a b c d e f g h i. r = RegionDef a b c d e f g h i \<and> f1 a b c d e f g h i = Some y)"
  "(case l of LocationGroupDef a b c d \<Rightarrow> f2 a b c d) = Some y \<longleftrightarrow> (\<exists>a b c d. l = LocationGroupDef a b c d \<and> f2 a b c d = Some y)"
  "(case i of InterimCommunicatorDef a b c d \<Rightarrow> f3 a b c d) = Some y
     \<longleftrightarrow> (\<exists>a b c d. i = InterimCommunicatorDef a b c d \<and> f3 a b c d = Some y)"
  "(case u of RmaWindowDef a b c d e \<Rightarrow> f4 a b c d e) = Some y \<longleftrightarrow> (\<exists>a b c d e. u = RmaWindowDef a b c d e \<and> f4 a b c d e = Some y)"
  "(case k of IoHandleDef a b c d e f g h i j \<Rightarrow> f5 a b c d e f g h i j) = Some y \<longleftrightarrow>
     (\<exists>a b c d e f g h i j. k = IoHandleDef a b c d e f g h i j \<and> f5 a b c d e f g h i j = Some y)"
  by (cases r, simp, cases l, simp, cases i, simp, cases u, simp, cases k, simp)

lemma system_tree_node_mark_used_keeps:
  assumes mark: "\<And>w h d. P w \<Longrightarrow> deref w pm h = Some d \<Longrightarrow> P (mark_object w pm h)"
    and step: "system_tree_node_mark_used w pm h = Some w'" and P: "P w"
  shows "P w'"
proof -
  have "pm = pm \<longrightarrow> P w \<longrightarrow> P w'"
    using step
  proof (rule system_tree_node_mark_used.raw_induct [where P = "\<lambda>w pm' h w'. pm' = pm \<longrightarrow> P w \<longrightarrow> P w'", rotated])
  qed (auto simp: bind_Some_iff content_of_kind split: if_splits dest: mark)
  then show ?thesis using P by simp
qed

lemma location_group_mark_used_keeps:
  assumes mark: "\<And>w h d. P w \<Longrightarrow> deref w pm h = Some d \<Longrightarrow> P (mark_object w pm h)"
    and step: "location_group_mark_used w pm h = Some w'" and P: "P w"
  shows "P w'"
proof -
  have node: "P w'" if "system_tree_node_mark_used w pm h = Some w'" "P w" for w h w'
    using mark that by (rule system_tree_node_mark_used_keeps)
  have "pm = pm \<longrightarrow> P w \<longrightarrow> P w'"
    using step
  proof (rule location_group_mark_used.raw_induct [where P = "\<lambda>w pm' h w'. pm' = pm \<longrightarrow> P w \<longrightarrow> P w'", rotated])
  qed (auto simp: bind_Some_iff content_of_kind split: if_splits, metis mark node)
  then show ?thesis using P by simp
qed

locale definition_invariant =
  fixes I :: "defs \<Rightarrow> bool"
  assumes I_ok: "I w \<Longrightarrow> defs_ok w"
    and I_changed: "I w \<Longrightarrow> changed w w' \<Longrightarrow> same_handles w w' \<Longrightarrow> I w'"
    and I_linked: "I w \<Longrightarrow> get_manager w m = Some mgr \<Longrightarrow> hashed_definition w d
      \<Longrightarrow> fresh_entry w (kind_of (content d)) mgr d e \<Longrightarrow> I (linked w m (kind_of (content d)) mgr d e)"
begin

lemma add_to_entry_keeps:
  assumes I: "I w" and add: "add_to_entry w m k (same_for k) d = Some (h, fresh, w')"
    and k: "k = kind_of (content d)" "k \<noteq> KSamplingSetRecorder" and hd: "hashed_definition w d"
  shows "I w'"
  by (rule add_to_entry_linked [OF I_ok [OF I] add k(2)]) (use I I_linked hd k in auto)

lemma update_keeps:
  assumes I: "I w" and d: "deref w pm h = Some d" and k: "pm = 0 \<Longrightarrow> kept (hashes w (kind_of (content d))) d (f d)"
  shows "I (update_object w pm h f)"
proof (rule I_changed [OF I])
  show "changed w (update_object w pm h f)" by (rule changed_update [where f = f, OF d k])
  show "same_handles w (update_object w pm h f)" by (auto simp: same_handles_def update_object_def)
qed

lemma announce_keeps: "I w \<Longrightarrow> I (announce h k w)"
  by (rule I_changed [OF _ changed_announce]) (auto simp: same_handles_def announce_def)

lemma add_definition_keeps:
  assumes I: "I w" and add: "add_definition w m c = Some (h, fresh, w')" and k: "added_by_macro (kind_of c)"
  shows "I w'"
proof -
  have s: "same_for (kind_of c) = same_definition"
    using k by (simp add: same_for_def added_by_macro_def)
  obtain v where v: "hash_content w c = Some v"
      "add_to_entry w m (kind_of c) (same_for (kind_of c)) ((init_header c)\<lparr>def_hash := v\<rparr>) = Some (h, fresh, w')"
    using add by (auto simp: add_definition_def bind_Some_iff s)
  show ?thesis
    by (rule add_to_entry_keeps [OF I v(2)])
      (use k v(1) in \<open>simp_all add: init_header_def hashed_definition_def added_by_macro_def\<close>)
qed

lemma define_announced_keeps:
  assumes I: "I w" and d: "define_announced w m c = Some (h, w')" and k: "added_by_macro (kind_of c)"
  shows "I w'"
proof -
  obtain fresh w1 where w1: "add_definition w m c = Some (h, fresh, w1)"
      "w' = (if fresh \<and> m = LocalManager then announce h (kind_of c) w1 else w1)"
    using d by (auto simp: define_announced_def bind_Some_iff)
  then show ?thesis using add_definition_keeps [OF I w1(1) k] announce_keeps by simp
qed

lemma define_silent_keeps:
  assumes I: "I w" and d: "define_silent w m c = Some (h, w')" and k: "added_by_macro (kind_of c)"
  shows "I w'"
proof -
  obtain fresh where "add_definition w m c = Some (h, fresh, w')"
    using d by (auto simp: define_silent_def bind_Some_iff)
  then show ?thesis using add_definition_keeps [OF I _ k] by blast
qed

lemma new_string_keeps: "new_string w m s = Some (h, w') \<Longrightarrow> I w \<Longrightarrow> I w'"
  unfolding new_string_def new_string_generator_def by (erule define_announced_keeps [rotated]) simp_all

lemma generator_keeps: "new_string_generator w m s = Some (h, w') \<Longrightarrow> I w \<Longrightarrow> I w'"
  unfolding new_string_generator_def by (erule define_announced_keeps [rotated]) simp_all

lemmas string_keeps = new_string_keeps generator_keeps

text \<open>The kinds that are only added.\<close>

lemma define_keeps:
  "define_source_file w m n = Some (h, w') \<Longrightarrow> I w \<Longrightarrow> I w'"
  "define_parameter w m n t = Some (h, w') \<Longrightarrow> I w \<Longrightarrow> I w'"
  "define_attribute w m n ds t = Some (h, w') \<Longrightarrow> I w \<Longrightarrow> I w'"
  "define_source_code_location w m n l = Some (h, w') \<Longrightarrow> I w \<Longrightarrow> I w'"
  "define_system_tree_node w m p dm n c = Some (h, w') \<Longrightarrow> I w \<Longrightarrow> I w'"
  "define_location_group w m n p t cr = Some (h, w') \<Longrightarrow> I w \<Longrightarrow> I w'"
  "define_location_property w m lo n v = Some (h, w') \<Longrightarrow> I w \<Longrightarrow> I w'"
  "define_region w m n cn ds f b e pa t g = Some (h, w') \<Longrightarrow> I w \<Longrightarrow> I w'"
  "define_group w m t ms n = Some (h, w') \<Longrightarrow> I w \<Longrightarrow> I w'"
  "define_metric w m n ds so mo vt b ex u pr p = Some (h, w') \<Longrightarrow> I w \<Longrightarrow> I w'"
  "define_scoped_sampling_set w m ss r t sc = Some (h, w') \<Longrightarrow> I w \<Longrightarrow> I w'"
  "define_callpath w m p r ps = Some (h, w') \<Longrightarrow> I w \<Longrightarrow> I w'"
  "define_calling_context w m i off f r scl p = Some (h, w') \<Longrightarrow> I w \<Longrightarrow> I w'"
  "define_interrupt_generator w m n mo b ex per = Some (h, w') \<Longrightarrow> I w \<Longrightarrow> I w'"
  "define_topology w m cm t dims n = Some (h, w') \<Longrightarrow> I w \<Longrightarrow> I w'"
  "define_coords w m tp rk th cs = Some (h, w') \<Longrightarrow> I w \<Longrightarrow> I w'"
  "define_io_file w m n sc = Some (h, w') \<Longrightarrow> I w \<Longrightarrow> I w'"
  "define_io_handle w m n f pa fl sc p ke ac st co = Some (h, w') \<Longrightarrow> I w \<Longrightarrow> I w'"
  unfolding define_source_file_def define_parameter_def define_attribute_def define_source_code_location_def
    define_system_tree_node_def define_location_group_def define_location_property_def define_region_def
    define_group_def define_metric_def define_scoped_sampling_set_def define_callpath_def define_calling_context_def
    define_interrupt_generator_def define_topology_def define_coords_def define_io_file_def define_io_handle_def
  by (erule define_announced_keeps [rotated] define_silent_keeps [rotated]; simp)+

lemma define_sampling_set_keeps: "define_sampling_set w m ms oc cl = Some (h, w') \<Longrightarrow> I w \<Longrightarrow> I w'"
  by (auto simp: define_sampling_set_def split: if_splits elim!: define_announced_keeps [rotated])

lemma mark_keeps: "I w \<Longrightarrow> deref w pm h = Some d \<Longrightarrow> I (mark_object w pm h)"
  unfolding mark_object_def by (rule update_keeps) simp_all

lemma define_location_keeps: "define_location w m g n t pa lg ev = Some (h, w') \<Longrightarrow> I w \<Longrightarrow> I w'"
  by (auto simp: define_location_def bind_Some_iff
      elim!: location_group_mark_used_keeps [rotated] define_announced_keeps [rotated] intro: mark_keeps)

lemma append_chained_keeps: "I w \<Longrightarrow> deref w pm h = Some d \<Longrightarrow> I (update_object w pm h (append_chained g))"
  by (rule update_keeps) simp_all

lemma define_property_keeps: "define_property w m p c st gone = Some (h, w') \<Longrightarrow> I w \<Longrightarrow> I w'"
proof -
  assume d: "define_property w m p c st gone = Some (h, w')" and I: "I w"
  let ?c = "Property (PropertyDef p c st gone) :: handle def_content"
  obtain v fresh w1 where v: "hash_content w ?c = Some v"
      "add_to_entry w m KProperty (same_for KProperty) ((init_header ?c)\<lparr>def_hash := v\<rparr>) = Some (h, fresh, w1)"
      and r: "fresh \<and> w' = w1 \<or> (\<exists>d e e'. deref w1 0 h = Some d \<and> content d = Property e
        \<and> merge_invalidated e gone = Some e' \<and> w' = update_object w1 0 h (\<lambda>d. d\<lparr>content := Property e'\<rparr>))"
    using d by (auto simp: define_property_def bind_Some_iff content_of_kind same_for_def Let_def split: if_splits)
  have I1: "I w1"
    by (rule add_to_entry_keeps [OF I v(2)])
      (simp_all add: init_header_def hashed_definition_def kind_of_def always_hashed_def)
  show "I w'"
    using r
  proof (elim disjE exE conjE)
    fix d e e' assume d: "deref w1 0 h = Some d" "content d = Property e" "merge_invalidated e gone = Some e'"
      "w' = update_object w1 0 h (\<lambda>d. d\<lparr>content := Property e'\<rparr>)"
    have "kept b d (d\<lparr>content := Property e'\<rparr>)" for b
      by (rule kept_property [OF d(2)]) (use d(3) in \<open>auto simp: merge_invalidated_def split: if_splits\<close>)
    then show ?thesis unfolding d(4) by (intro update_keeps [OF I1 d(1)])
  qed (use I1 in simp)
qed

lemma define_communicator_keeps: "define_communicator w m a b n p ke fl = Some (h, w') \<Longrightarrow> I w \<Longrightarrow> I w'"
proof -
  assume d: "define_communicator w m a b n p ke fl = Some (h, w')" and I: "I w"
  let ?new = "CommunicatorDef a b n p ke fl"
  obtain v fresh w1 where v: "hash_content w (Communicator ?new) = Some v"
      "add_to_entry w m KCommunicator (same_for KCommunicator) ((init_header (Communicator ?new))\<lparr>def_hash := v\<rparr>) = Some (h, fresh, w1)"
      and r: "fresh \<and> w' = w1 \<or> \<not> fresh \<and> (\<exists>d e. deref w1 0 h = Some d \<and> content d = Communicator e
        \<and> w' = update_object w1 0 h (\<lambda>d. d\<lparr>content := Communicator (merge_communicator e ?new)\<rparr>))"
    using d by (auto simp: define_communicator_def bind_Some_iff content_of_kind same_for_def Let_def split: if_splits)
  have I1: "I w1"
    by (rule add_to_entry_keeps [OF I v(2)])
      (simp_all add: init_header_def hashed_definition_def kind_of_def always_hashed_def)
  show "I w'"
    using r
  proof (elim disjE exE conjE)
    fix d e assume d: "\<not> fresh" "deref w1 0 h = Some d" "content d = Communicator e"
      "w' = update_object w1 0 h (\<lambda>d. d\<lparr>content := Communicator (merge_communicator e ?new)\<rparr>)"
    have "group_a ?new = group_a e \<and> group_b ?new = group_b e"
      by (rule add_to_entry_linked [OF I_ok [OF I] v(2)])
        (use d in \<open>auto simp: same_for_def same_communicator_def init_header_def\<close>)
    then have "kept c d (d\<lparr>content := Communicator (merge_communicator e ?new)\<rparr>)" for c
      by (intro kept_communicator [OF d(3)]) auto
    then show ?thesis unfolding d(4) by (intro update_keeps [OF I1 d(2)])
  qed (use I1 in simp)
qed

lemma rma_merge_keeps:
  "I w \<Longrightarrow> deref w 0 h = Some d \<Longrightarrow> content d = RmaWindow e
    \<Longrightarrow> I (update_object w 0 h (\<lambda>d. d\<lparr>content := RmaWindow (merge_rma_window e new)\<rparr>))"
  by (erule update_keeps, assumption) (rule kept_rma_window [where y = e]; simp add: merge_rma_window_def)

lemma define_rma_window_keeps: "define_rma_window w m n c cr fl = Some (h, w') \<Longrightarrow> I w \<Longrightarrow> I w'"
proof -
  assume d: "define_rma_window w m n c cr fl = Some (h, w')" and I: "I w"
  let ?new = "RmaWindowDef n c cr True fl"
  obtain v fresh w1 where v: "hash_content w (RmaWindow ?new) = Some v"
      "add_to_entry w m KRmaWindow (same_for KRmaWindow) ((init_header (RmaWindow ?new))\<lparr>def_hash := v\<rparr>) = Some (h, fresh, w1)"
      and r: "w' = w1 \<or> w' = announce h KRmaWindow w1 \<or> (\<exists>d e. deref w1 0 h = Some d \<and> content d = RmaWindow e
        \<and> w' = update_object w1 0 h (\<lambda>d. d\<lparr>content := RmaWindow (merge_rma_window e ?new)\<rparr>))"
    using d by (auto simp: define_rma_window_def bind_Some_iff content_of_kind same_for_def Let_def split: if_splits)
  have I1: "I w1"
    by (rule add_to_entry_keeps [OF I v(2)])
      (simp_all add: init_header_def hashed_definition_def kind_of_def always_hashed_def)
  then show "I w'"
    using r by (auto intro: rma_merge_keeps announce_keeps)
qed

text \<open>Definitions that are linked without a search.\<close>

lemma link_keeps:
  assumes I: "I w" and l: "link_definition (snd (definition_alloc w d)) m (kind_of (content d)) (fst (definition_alloc w d)) = Some w'"
    and k: "kind_of (content d) = KSamplingSetRecorder \<or> \<not> hashes w (kind_of (content d))" "kind_of (content d) \<notin> always_hashed"
  shows "I w'"
proof -
  obtain mgr where mgr: "get_manager w m = Some mgr"
      "w' = linked w m (kind_of (content d)) mgr d (mgr (kind_of (content d)))"
    using l by (auto simp: link_definition_def definition_alloc_def bind_Some_iff linked_def Let_def)
  show ?thesis unfolding mgr(2)
    by (rule I_linked [OF I mgr(1)]) (use k mgr(1) in \<open>auto simp: hashed_definition_def fresh_entry_def hashes_def\<close>)
qed

lemma add_recorder_keeps: "sampling_set_add_recorder w m ss r = Some w' \<Longrightarrow> I w \<Longrightarrow> I w'"
proof -
  assume a: "sampling_set_add_recorder w m ss r = Some w'" and I: "I w"
  let ?d = "init_header (SamplingSetRecorder (RecorderDef ss r))"
  obtain s where s: "deref w 0 ss = Some s" using a by (auto simp: sampling_set_add_recorder_def bind_Some_iff)
  let ?w = "update_object w 0 ss (append_chained (Suc (length (memory w 0))))"
  have I1: "I ?w" using I s by (rule append_chained_keeps)
  have swap: "update_object (snd (definition_alloc w ?d)) 0 ss f = snd (definition_alloc (update_object w 0 ss f) ?d)"
    and fst: "fst (definition_alloc (update_object w 0 ss f) ?d) = Suc (length (memory w 0))" for f
    using s by (auto simp: definition_alloc_def update_object_def deref_valid nth_append list_update_append)
  obtain w2 where w2: "link_definition (snd (definition_alloc ?w ?d)) m KSamplingSetRecorder (fst (definition_alloc ?w ?d)) = Some w2"
      "w' = w2 \<or> w' = announce r KSamplingSetRecorder w2"
    using a s swap fst by (auto simp: sampling_set_add_recorder_def bind_Some_iff definition_alloc_def split: if_splits)
  have "I w2"
    by (rule link_keeps [OF I1, of ?d])
      (use w2(1) in \<open>simp_all add: init_header_def kind_of_def always_hashed_def\<close>)
  then show "I w'" using w2(2) announce_keeps by auto
qed

lemma define_interim_keeps:
  assumes I: "I w" and d: "define_interim_communicator res w p t = Some (h, w')" and nh: "\<not> hashes w KInterimCommunicator"
  shows "I w'"
proof -
  let ?d = "\<lambda>v. (init_header (InterimCommunicator (InterimCommunicatorDef 0 p t res)))\<lparr>def_hash := v\<rparr>"
  obtain v w2 where v: "link_definition (snd (definition_alloc w (?d v))) LocalManager KInterimCommunicator
        (fst (definition_alloc w (?d v))) = Some w2"
      "w' = announce h KInterimCommunicator w2"
    using d by (auto simp: define_interim_communicator_def bind_Some_iff Let_def case_prod_unfold)
  have "I w2"
    by (rule link_keeps [OF I, of "?d v"]) (use v(1) nh in \<open>simp_all add: init_header_def kind_of_def always_hashed_def\<close>)
  then show ?thesis unfolding v(2) by (rule announce_keeps)
qed

lemma add_definition_old:
  assumes I: "I w" and add: "add_definition w m c = Some (h, fresh, w')" and k: "added_by_macro (kind_of c)"
    and d: "deref w 0 g = Some d"
  shows "deref w' 0 g = Some d"
proof -
  have s: "same_for (kind_of c) = same_definition"
    using k by (simp add: same_for_def added_by_macro_def)
  obtain v where v: "add_to_entry w m (kind_of c) (same_for (kind_of c)) ((init_header c)\<lparr>def_hash := v\<rparr>) = Some (h, fresh, w')"
    using add by (auto simp: add_definition_def bind_Some_iff s)
  show ?thesis
    by (rule add_to_entry_linked [OF I_ok [OF I] v]) (use k d in \<open>auto simp: added_by_macro_def deref_linked deref_valid\<close>)
qed

lemma add_node_property_keeps: "add_system_tree_node_property w m node n v = Some (h, w') \<Longrightarrow> I w \<Longrightarrow> I w'"
proof -
  assume a: "add_system_tree_node_property w m node n v = Some (h, w')" and I: "I w"
  let ?c = "SystemTreeNodeProperty (NodePropertyDef node n v)"
  obtain fresh w1 where w1: "add_definition w m ?c = Some (h, fresh, w1)"
      "w' \<in> {w1, update_object w1 0 node (append_chained h), announce h KSystemTreeNodeProperty (update_object w1 0 node (append_chained h))}"
    using a by (auto simp: add_system_tree_node_property_def bind_Some_iff Let_def split: if_splits)
  obtain d where "deref w 0 node = Some d"
    using w1(1) by (auto simp: add_definition_def hash_content_def hash_items_def hash_node_property_def bind_Some_iff)
  then have "deref w1 0 node = Some d" by (rule add_definition_old [OF I w1(1), rotated]) simp
  moreover have "I w1" by (rule add_definition_keeps [OF I w1(1)]) simp
  ultimately show "I w'" using w1(2) by (auto intro: announce_keeps append_chained_keeps)
qed

lemma add_file_property_keeps: "add_io_file_property w m file n v = Some (h, w') \<Longrightarrow> I w \<Longrightarrow> I w'"
proof -
  assume a: "add_io_file_property w m file n v = Some (h, w')" and I: "I w"
  let ?c = "IoFileProperty (IoFilePropertyDef file n v)"
  obtain fresh w1 where w1: "add_definition w m ?c = Some (h, fresh, w1)"
      "w' \<in> {w1, update_object w1 0 file (append_chained h)}"
    using a by (auto simp: add_io_file_property_def bind_Some_iff split: if_splits)
  obtain d where "deref w 0 file = Some d"
    using w1(1) by (auto simp: add_definition_def hash_content_def hash_items_def hash_io_file_property_def bind_Some_iff)
  then have "deref w1 0 file = Some d" by (rule add_definition_old [OF I w1(1), rotated]) simp
  moreover have "I w1" by (rule add_definition_keeps [OF I w1(1)]) simp
  ultimately show "I w'" using w1(2) by (auto intro: append_chained_keeps)
qed

lemmas operation_keeps = string_keeps define_keeps define_sampling_set_keeps define_location_keeps define_property_keeps
  define_communicator_keeps define_rma_window_keeps add_recorder_keeps add_node_property_keeps add_file_property_keeps

text \<open>Changes of the content.\<close>

lemma region_group_keeps:
  "I w \<Longrightarrow> deref w 0 h = Some d \<Longrightarrow> content d = Region (RegionDef n c ds f b e p t g') \<Longrightarrow>
    I (update_object w 0 h (\<lambda>d. d\<lparr>content := Region (RegionDef n c ds f b e p t g)\<rparr>))"
  by (erule update_keeps, assumption) (erule kept_region_group)

lemma location_group_name_keeps:
  "I w \<Longrightarrow> deref w 0 h = Some d \<Longrightarrow> content d = LocationGroup x \<Longrightarrow>
    I (update_object w 0 h (\<lambda>d. d\<lparr>content := LocationGroup y\<rparr>))"
  by (erule update_keeps, assumption) (erule kept_location_group)

lemma interim_keeps:
  "I w \<Longrightarrow> deref w 0 h = Some d \<Longrightarrow> content d = InterimCommunicator (InterimCommunicatorDef n p t c) \<Longrightarrow>
    I (update_object w 0 h (\<lambda>d. d\<lparr>content := InterimCommunicator (InterimCommunicatorDef n' p t c')\<rparr>))"
  by (erule update_keeps, assumption) (erule kept_interim; simp)

lemma rma_name_keeps:
  "I w \<Longrightarrow> deref w 0 h = Some d \<Longrightarrow> content d = RmaWindow (RmaWindowDef n c i df fl) \<Longrightarrow>
    I (update_object w 0 h (\<lambda>d. d\<lparr>content := RmaWindow (RmaWindowDef n' c i df' fl)\<rparr>))"
  by (erule update_keeps, assumption) (erule kept_rma_window; simp)

lemma io_handle_keeps:
  "I w \<Longrightarrow> deref w 0 h = Some d \<Longrightarrow> content d = IoHandle x \<Longrightarrow> \<not> hashes w KIoHandle \<Longrightarrow>
    I (update_object w 0 h (\<lambda>d. d\<lparr>content := IoHandle y\<rparr>))"
  by (erule update_keeps, assumption) (simp add: kind_of_def kept_io_handle)

lemmas content_keeps = region_group_keeps location_group_name_keeps interim_keeps rma_name_keeps

lemma get_counter_keeps: "get_rma_window_creation_counter w c = Some (n, w') \<Longrightarrow> I w \<Longrightarrow> I w'"
  by (auto simp: get_rma_window_creation_counter_def bind_Some_iff content_of_kind content_parts intro: content_keeps)

lemma new_dimensions_keeps: "new_dimensions w i ds = Some (dims, w') \<Longrightarrow> I w \<Longrightarrow> I w'"
proof (induction w i ds arbitrary: dims w' rule: new_dimensions.induct)
  case (2 w i n p name ds)
  then obtain h w1 dims1 where "new_string w LocalManager (string_or name (default_dimension_name i)) = Some (h, w1)"
      "new_dimensions w1 (Suc i) ds = Some (dims1, w')"
    by (auto simp: bind_Some_iff)
  then show ?case using 2 by (auto dest: new_string_keeps)
qed simp

lemma new_string_old: "new_string w m s = Some (h, w') \<Longrightarrow> I w \<Longrightarrow> deref w 0 g = Some d \<Longrightarrow> deref w' 0 g = Some d"
  by (auto simp: new_string_def new_string_generator_def define_announced_def bind_Some_iff split: if_splits
      dest: add_definition_old)

lemma new_string_step:
  "new_string w m s = Some (h, w') \<Longrightarrow> I w \<Longrightarrow> I w' \<and> (\<forall>g d. deref w 0 g = Some d \<longrightarrow> deref w' 0 g = Some d)"
  using new_string_old new_string_keeps by blast

text \<open>The interface.\<close>

lemma NewString_keeps: "NewString w s = Some (h, w') \<Longrightarrow> I w \<Longrightarrow> I w'"
  by (auto simp: NewString_def bind_Some_iff content_of_kind Let_def content_parts split: if_splits option.splits
      dest!: operation_keeps get_counter_keeps new_dimensions_keeps intro: announce_keeps content_keeps)

lemma NewSourceFile_keeps: "NewSourceFile w s = Some (h, w') \<Longrightarrow> I w \<Longrightarrow> I w'"
  by (auto simp: NewSourceFile_def bind_Some_iff content_of_kind Let_def content_parts split: if_splits option.splits
      dest!: operation_keeps get_counter_keeps new_dimensions_keeps intro: announce_keeps content_keeps)

lemma NewSourceCodeLocation_keeps: "NewSourceCodeLocation w s l = Some (h, w') \<Longrightarrow> I w \<Longrightarrow> I w'"
  by (auto simp: NewSourceCodeLocation_def bind_Some_iff content_of_kind Let_def content_parts split: if_splits option.splits
      dest!: operation_keeps get_counter_keeps new_dimensions_keeps intro: announce_keeps content_keeps)

lemma NewParameter_keeps: "NewParameter w n t = Some (h, w') \<Longrightarrow> I w \<Longrightarrow> I w'"
  by (auto simp: NewParameter_def bind_Some_iff content_of_kind Let_def content_parts split: if_splits option.splits
      dest!: operation_keeps get_counter_keeps new_dimensions_keeps intro: announce_keeps content_keeps)

lemma NewAttribute_keeps: "NewAttribute w n ds t = Some (h, w') \<Longrightarrow> I w \<Longrightarrow> I w'"
  by (auto simp: NewAttribute_def bind_Some_iff content_of_kind Let_def content_parts split: if_splits option.splits
      dest!: operation_keeps get_counter_keeps new_dimensions_keeps intro: announce_keeps content_keeps)

lemma NewSystemTreeNode_keeps: "NewSystemTreeNode w p dm cl n = Some (h, w') \<Longrightarrow> I w \<Longrightarrow> I w'"
  by (auto simp: NewSystemTreeNode_def bind_Some_iff content_of_kind Let_def content_parts split: if_splits option.splits
      dest!: operation_keeps get_counter_keeps new_dimensions_keeps intro: announce_keeps content_keeps)

lemma SystemTreeNodeHandle_AddProperty_keeps: "SystemTreeNodeHandle_AddProperty w nd n v = Some w' \<Longrightarrow> I w \<Longrightarrow> I w'"
  by (auto simp: SystemTreeNodeHandle_AddProperty_def bind_Some_iff content_of_kind Let_def content_parts split: if_splits option.splits
      dest!: operation_keeps get_counter_keeps new_dimensions_keeps intro: announce_keeps content_keeps)

lemma NewLocationGroup_keeps: "NewLocationGroup w n p t cr = Some (h, w') \<Longrightarrow> I w \<Longrightarrow> I w'"
  by (auto simp: NewLocationGroup_def bind_Some_iff content_of_kind Let_def content_parts split: if_splits option.splits
      dest!: operation_keeps get_counter_keeps new_dimensions_keeps intro: announce_keeps content_keeps)

lemma LocationGroupHandle_SetName_keeps: "LocationGroupHandle_SetName w g n = Some w' \<Longrightarrow> I w \<Longrightarrow> I w'"
  by (auto simp: LocationGroupHandle_SetName_def bind_Some_iff content_of_kind Let_def content_parts split: if_splits option.splits
      dest!: operation_keeps NewString_keeps get_counter_keeps new_dimensions_keeps intro: announce_keeps content_keeps)

lemma NewLocation_keeps: "NewLocation w t pa n g = Some (h, w') \<Longrightarrow> I w \<Longrightarrow> I w'"
  by (auto simp: NewLocation_def bind_Some_iff content_of_kind Let_def content_parts split: if_splits option.splits
      dest!: operation_keeps get_counter_keeps new_dimensions_keeps intro: announce_keeps content_keeps)

lemma NewLocationProperty_keeps: "NewLocationProperty w lo n v = Some (h, w') \<Longrightarrow> I w \<Longrightarrow> I w'"
  by (auto simp: NewLocationProperty_def bind_Some_iff content_of_kind Let_def content_parts split: if_splits option.splits
      dest!: operation_keeps get_counter_keeps new_dimensions_keeps intro: announce_keeps content_keeps)

lemma NewRegion_keeps: "NewRegion w n cn f b e pa t = Some (h, w') \<Longrightarrow> I w \<Longrightarrow> I w'"
  by (auto simp: NewRegion_def bind_Some_iff content_of_kind Let_def content_parts split: if_splits option.splits
      dest!: operation_keeps get_counter_keeps new_dimensions_keeps intro: announce_keeps content_keeps)

lemma RegionHandle_SetGroup_keeps: "RegionHandle_SetGroup w r g = Some w' \<Longrightarrow> I w \<Longrightarrow> I w'"
  by (auto simp: RegionHandle_SetGroup_def bind_Some_iff content_of_kind Let_def content_parts split: if_splits option.splits
      dest!: operation_keeps get_counter_keeps new_dimensions_keeps intro: announce_keeps content_keeps)

lemma NewGroup_keeps: "NewGroup w t n ms = Some (h, w') \<Longrightarrow> I w \<Longrightarrow> I w'"
  by (auto simp: NewGroup_def bind_Some_iff content_of_kind Let_def content_parts split: if_splits option.splits
      dest!: operation_keeps get_counter_keeps new_dimensions_keeps intro: announce_keeps content_keeps)

lemma NewGroupFrom32_keeps: "NewGroupFrom32 w t n ms = Some (h, w') \<Longrightarrow> I w \<Longrightarrow> I w'"
  by (auto simp: NewGroupFrom32_def bind_Some_iff content_of_kind Let_def content_parts split: if_splits option.splits
      dest!: operation_keeps get_counter_keeps new_dimensions_keeps intro: announce_keeps content_keeps)

lemma NewMetric_keeps: "NewMetric w n ds so mo vt b ex u pr p = Some (h, w') \<Longrightarrow> I w \<Longrightarrow> I w'"
  by (auto simp: NewMetric_def bind_Some_iff content_of_kind Let_def content_parts split: if_splits option.splits
      dest!: operation_keeps get_counter_keeps new_dimensions_keeps intro: announce_keeps content_keeps)

lemma NewSamplingSet_keeps: "NewSamplingSet w ms oc cl = Some (h, w') \<Longrightarrow> I w \<Longrightarrow> I w'"
  by (auto simp: NewSamplingSet_def bind_Some_iff content_of_kind Let_def content_parts split: if_splits option.splits
      dest!: operation_keeps get_counter_keeps new_dimensions_keeps intro: announce_keeps content_keeps)

lemma NewScopedSamplingSet_keeps: "NewScopedSamplingSet w ss r t sc = Some (h, w') \<Longrightarrow> I w \<Longrightarrow> I w'"
  by (auto simp: NewScopedSamplingSet_def bind_Some_iff content_of_kind Let_def content_parts split: if_splits option.splits
      dest!: operation_keeps get_counter_keeps new_dimensions_keeps intro: announce_keeps content_keeps)

lemma SamplingSet_AddRecorder_keeps: "SamplingSet_AddRecorder w ss r = Some w' \<Longrightarrow> I w \<Longrightarrow> I w'"
  by (auto simp: SamplingSet_AddRecorder_def bind_Some_iff content_of_kind Let_def content_parts split: if_splits option.splits
      dest!: operation_keeps get_counter_keeps new_dimensions_keeps intro: announce_keeps content_keeps)

lemma NewCallpath_keeps: "NewCallpath w p r ps = Some (h, w') \<Longrightarrow> I w \<Longrightarrow> I w'"
  by (auto simp: NewCallpath_def bind_Some_iff content_of_kind Let_def content_parts split: if_splits option.splits
      dest!: operation_keeps get_counter_keeps new_dimensions_keeps intro: announce_keeps content_keeps)

lemma NewProperty_keeps: "NewProperty w pr c st = Some (h, w') \<Longrightarrow> I w \<Longrightarrow> I w'"
  by (auto simp: NewProperty_def bind_Some_iff content_of_kind Let_def content_parts split: if_splits option.splits
      dest!: operation_keeps get_counter_keeps new_dimensions_keeps intro: announce_keeps content_keeps)

lemma NewCallingContext_keeps: "NewCallingContext w i r scl p = Some (h, w') \<Longrightarrow> I w \<Longrightarrow> I w'"
  by (auto simp: NewCallingContext_def bind_Some_iff content_of_kind Let_def content_parts split: if_splits option.splits
      dest!: operation_keeps get_counter_keeps new_dimensions_keeps intro: announce_keeps content_keeps)

lemma NewInterruptGenerator_keeps: "NewInterruptGenerator w n mo b ex per = Some (h, w') \<Longrightarrow> I w \<Longrightarrow> I w'"
  by (auto simp: NewInterruptGenerator_def bind_Some_iff content_of_kind Let_def content_parts split: if_splits option.splits
      dest!: operation_keeps get_counter_keeps new_dimensions_keeps intro: announce_keeps content_keeps)

lemma InterimCommunicatorHandle_SetName_keeps: "InterimCommunicatorHandle_SetName w c n = Some w' \<Longrightarrow> I w \<Longrightarrow> I w'"
  by (auto simp: InterimCommunicatorHandle_SetName_def bind_Some_iff content_of_kind Let_def content_parts split: if_splits option.splits
      dest!: new_string_step get_counter_keeps new_dimensions_keeps intro: announce_keeps content_keeps)

lemma NewCommunicator_keeps: "NewCommunicator w g n p ke fl = Some (h, w') \<Longrightarrow> I w \<Longrightarrow> I w'"
  by (auto simp: NewCommunicator_def bind_Some_iff content_of_kind Let_def content_parts split: if_splits option.splits
      dest!: operation_keeps get_counter_keeps new_dimensions_keeps intro: announce_keeps content_keeps)

lemma NewInterCommunicator_keeps: "NewInterCommunicator w a b n p ke fl = Some (h, w') \<Longrightarrow> I w \<Longrightarrow> I w'"
  by (auto simp: NewInterCommunicator_def bind_Some_iff content_of_kind Let_def content_parts split: if_splits option.splits
      dest!: operation_keeps get_counter_keeps new_dimensions_keeps intro: announce_keeps content_keeps)

lemma NewRmaWindow_keeps: "NewRmaWindow w n c fl = Some (h, w') \<Longrightarrow> I w \<Longrightarrow> I w'"
  by (auto simp: NewRmaWindow_def bind_Some_iff content_of_kind Let_def content_parts split: if_splits option.splits
      dest!: operation_keeps get_counter_keeps new_dimensions_keeps intro: announce_keeps content_keeps)

lemma RmaWindowHandle_SetName_keeps: "RmaWindowHandle_SetName w c n = Some w' \<Longrightarrow> I w \<Longrightarrow> I w'"
  by (auto simp: RmaWindowHandle_SetName_def bind_Some_iff content_of_kind Let_def content_parts split: if_splits option.splits
      dest!: new_string_step get_counter_keeps new_dimensions_keeps intro: announce_keeps content_keeps)

lemma NewIoFile_keeps: "NewIoFile w n sc = Some (h, w') \<Longrightarrow> I w \<Longrightarrow> I w'"
  by (auto simp: NewIoFile_def bind_Some_iff content_of_kind Let_def content_parts split: if_splits option.splits
      dest!: operation_keeps get_counter_keeps new_dimensions_keeps intro: announce_keeps content_keeps)

lemma IoFileHandle_AddProperty_keeps: "IoFileHandle_AddProperty w f n v = Some w' \<Longrightarrow> I w \<Longrightarrow> I w'"
  by (auto simp: IoFileHandle_AddProperty_def bind_Some_iff content_of_kind Let_def content_parts split: if_splits option.splits
      dest!: operation_keeps get_counter_keeps new_dimensions_keeps intro: announce_keeps content_keeps)

lemma NewIoHandle_keeps: "NewIoHandle w n f pa fl sc p ke co ac st = Some (h, w') \<Longrightarrow> I w \<Longrightarrow> I w'"
  by (auto simp: NewIoHandle_def bind_Some_iff content_of_kind Let_def content_parts split: if_splits option.splits
      dest!: operation_keeps get_counter_keeps new_dimensions_keeps intro: announce_keeps content_keeps)

lemma NewCartesianTopology_keeps: "NewCartesianTopology w n c ds t = Some (h, w') \<Longrightarrow> I w \<Longrightarrow> I w'"
  by (auto simp: NewCartesianTopology_def bind_Some_iff content_of_kind Let_def content_parts split: if_splits option.splits
      dest!: operation_keeps get_counter_keeps new_dimensions_keeps intro: announce_keeps content_keeps)

lemma NewCartesianCoords_keeps: "NewCartesianCoords w tp rk th cs = Some w' \<Longrightarrow> I w \<Longrightarrow> I w'"
  by (auto simp: NewCartesianCoords_def bind_Some_iff content_of_kind Let_def content_parts split: if_splits option.splits
      dest!: operation_keeps get_counter_keeps new_dimensions_keeps intro: announce_keeps content_keeps)

lemma NewInterimCommunicator_keeps:
  "NewInterimCommunicator res w p t = Some (h, w') \<Longrightarrow> I w \<Longrightarrow> \<not> hashes w KInterimCommunicator \<Longrightarrow> I w'"
  unfolding NewInterimCommunicator_def by (rule define_interim_keeps)

lemma IoHandleHandle_Complete_keeps:
  "IoHandleHandle_Complete w g f ke = Some w' \<Longrightarrow> I w \<Longrightarrow> \<not> hashes w KIoHandle \<Longrightarrow> I w'"
  by (auto simp: IoHandleHandle_Complete_def bind_Some_iff content_of_kind content_parts Let_def
      intro!: announce_keeps io_handle_keeps split: if_splits)

lemmas interface_keeps =
  NewString_keeps NewSourceFile_keeps NewSourceCodeLocation_keeps NewParameter_keeps
  NewAttribute_keeps NewSystemTreeNode_keeps SystemTreeNodeHandle_AddProperty_keeps NewLocationGroup_keeps
  LocationGroupHandle_SetName_keeps NewLocation_keeps NewLocationProperty_keeps NewRegion_keeps
  RegionHandle_SetGroup_keeps NewGroup_keeps NewGroupFrom32_keeps NewMetric_keeps
  NewSamplingSet_keeps NewScopedSamplingSet_keeps SamplingSet_AddRecorder_keeps NewCallpath_keeps
  NewProperty_keeps NewCallingContext_keeps NewInterruptGenerator_keeps NewInterimCommunicator_keeps
  InterimCommunicatorHandle_SetName_keeps NewCommunicator_keeps NewInterCommunicator_keeps NewRmaWindow_keeps
  RmaWindowHandle_SetName_keeps NewIoFile_keeps IoFileHandle_AddProperty_keeps NewIoHandle_keeps
  IoHandleHandle_Complete_keeps NewCartesianTopology_keeps NewCartesianCoords_keeps

end

section \<open>Histories of the interface\<close>

inductive def_call :: "defs \<Rightarrow> defs \<Rightarrow> bool" where
  "NewString w s = Some (h, w') \<Longrightarrow> def_call w w'"
| "NewSourceFile w s = Some (h, w') \<Longrightarrow> def_call w w'"
| "NewSourceCodeLocation w s l = Some (h, w') \<Longrightarrow> def_call w w'"
| "NewParameter w n t = Some (h, w') \<Longrightarrow> def_call w w'"
| "NewAttribute w n ds t = Some (h, w') \<Longrightarrow> def_call w w'"
| "NewSystemTreeNode w p dm cl n = Some (h, w') \<Longrightarrow> def_call w w'"
| "SystemTreeNodeHandle_AddProperty w nd n v = Some w' \<Longrightarrow> def_call w w'"
| "NewLocationGroup w n p t cr = Some (h, w') \<Longrightarrow> def_call w w'"
| "LocationGroupHandle_SetName w g n = Some w' \<Longrightarrow> def_call w w'"
| "NewLocation w t pa n g = Some (h, w') \<Longrightarrow> def_call w w'"
| "NewLocationProperty w lo n v = Some (h, w') \<Longrightarrow> def_call w w'"
| "NewRegion w n cn f b e pa t = Some (h, w') \<Longrightarrow> def_call w w'"
| "RegionHandle_SetGroup w r g = Some w' \<Longrightarrow> def_call w w'"
| "NewGroup w t n ms = Some (h, w') \<Longrightarrow> def_call w w'"
| "NewGroupFrom32 w t n ms = Some (h, w') \<Longrightarrow> def_call w w'"
| "NewMetric w n ds so mo vt b ex u pr p = Some (h, w') \<Longrightarrow> def_call w w'"
| "NewSamplingSet w ms oc cl = Some (h, w') \<Longrightarrow> def_call w w'"
| "NewScopedSamplingSet w ss r t sc = Some (h, w') \<Longrightarrow> def_call w w'"
| "SamplingSet_AddRecorder w ss r = Some w' \<Longrightarrow> def_call w w'"
| "NewCallpath w p r ps = Some (h, w') \<Longrightarrow> def_call w w'"
| "NewProperty w pr c st = Some (h, w') \<Longrightarrow> def_call w w'"
| "NewCallingContext w i r scl p = Some (h, w') \<Longrightarrow> def_call w w'"
| "NewInterruptGenerator w n mo b ex per = Some (h, w') \<Longrightarrow> def_call w w'"
| "NewInterimCommunicator res w p t = Some (h, w') \<Longrightarrow> def_call w w'"
| "InterimCommunicatorHandle_SetName w c n = Some w' \<Longrightarrow> def_call w w'"
| "NewCommunicator w g n p ke fl = Some (h, w') \<Longrightarrow> def_call w w'"
| "NewInterCommunicator w a b n p ke fl = Some (h, w') \<Longrightarrow> def_call w w'"
| "NewRmaWindow w n c fl = Some (h, w') \<Longrightarrow> def_call w w'"
| "RmaWindowHandle_SetName w c n = Some w' \<Longrightarrow> def_call w w'"
| "NewIoFile w n sc = Some (h, w') \<Longrightarrow> def_call w w'"
| "IoFileHandle_AddProperty w f n v = Some w' \<Longrightarrow> def_call w w'"
| "NewIoHandle w n f pa fl sc p ke co ac st = Some (h, w') \<Longrightarrow> def_call w w'"
| "IoHandleHandle_Complete w g f ke = Some w' \<Longrightarrow> def_call w w'"
| "NewCartesianTopology w n c ds t = Some (h, w') \<Longrightarrow> def_call w w'"
| "NewCartesianCoords w tp rk th cs = Some w' \<Longrightarrow> def_call w w'"

inductive def_history :: "defs \<Rightarrow> defs \<Rightarrow> bool" for w where
  start: "def_history w w"
| call: "def_history w w1 \<Longrightarrow> def_call w1 w2 \<Longrightarrow> def_history w w2"

section \<open>The invariant of the interface\<close>

definition tables_of :: "which_manager \<Rightarrow> def_kind set" where
  "tables_of m = (case m of LocalManager \<Rightarrow> always_hashed | UnifiedManager \<Rightarrow> always_hashed \<union> hashed_on_demand)"

definition tables_ok :: "defs \<Rightarrow> bool" where
  "tables_ok w \<longleftrightarrow> (\<forall>m mgr k. get_manager w m = Some mgr \<longrightarrow> (hash_table (mgr k) \<noteq> None \<longleftrightarrow> k \<in> tables_of m))"

definition defs_inv :: "defs \<Rightarrow> bool" where
  "defs_inv w \<longleftrightarrow> defs_ok w \<and> hashes_ok w \<and> tables_ok w"

lemma tables_ok_linked:
  assumes t: "tables_ok w" and m: "get_manager w m = Some mgr" and e: "fresh_entry w k mgr d e"
  shows "tables_ok (linked w m k mgr d e)"
proof -
  have h: "hash_table e \<noteq> None \<longleftrightarrow> hash_table (mgr k) \<noteq> None"
    using e by (auto simp: fresh_entry_def)
  have tm: "hash_table (mgr k') \<noteq> None \<longleftrightarrow> k' \<in> tables_of m" for k'
    using t m by (simp add: tables_ok_def)
  show ?thesis
    unfolding tables_ok_def
  proof (intro allI impI)
    fix m' mgr' k' assume "get_manager (linked w m k mgr d e) m' = Some mgr'"
    then show "hash_table (mgr' k') \<noteq> None \<longleftrightarrow> k' \<in> tables_of m'"
      using t h tm [of k'] unfolding tables_ok_def get_manager_linked by (cases "m' = m"; cases "k' = k") auto
  qed
qed

lemma same_handles_deref: "same_handles w w' \<Longrightarrow> deref w' 0 h = Some d \<Longrightarrow> deref w 0 h \<noteq> None"
  by (auto simp: same_handles_def deref_def arr_get_def split: if_splits)

interpretation managers: definition_invariant defs_inv
proof
  fix w w' assume I: "defs_inv w" and ch: "changed w w'" and sh: "same_handles w w'"
  have "tables_ok w'" using I ch unfolding defs_inv_def tables_ok_def changed_def by simp
  moreover have "hashes_ok w'"
    by (rule hashes_ok_changed [OF _ ch]) (use I sh same_handles_deref in \<open>auto simp: defs_inv_def\<close>)
  ultimately show "defs_inv w'" using I defs_ok_changed [OF _ ch] by (simp add: defs_inv_def)
next
  fix w m mgr d e
  assume I: "defs_inv w" and m: "get_manager w m = Some mgr" and hd: "hashed_definition w d"
    and e: "fresh_entry w (kind_of (content d)) mgr d e"
  show "defs_inv (linked w m (kind_of (content d)) mgr d e)"
    using I hd defs_ok_linked [OF _ m refl e] hashes_ok_linked tables_ok_linked [OF _ m e]
    by (auto simp: defs_inv_def hashed_definition_def)
qed (simp add: defs_inv_def)

text \<open>While the adapters define there is no unified manager.\<close>

interpretation measurement: definition_invariant "\<lambda>w. defs_inv w \<and> unified_manager w = None"
proof
  fix w w' assume "defs_inv w \<and> unified_manager w = None" "changed w w'" "same_handles w w'"
  then show "defs_inv w' \<and> unified_manager w' = None"
    using managers.I_changed [of w w'] by (auto simp: changed_def get_manager_def dest: spec [of _ UnifiedManager])
next
  fix w m mgr d e
  assume "defs_inv w \<and> unified_manager w = None" and m: "get_manager w m = Some mgr"
    and "hashed_definition w d" "fresh_entry w (kind_of (content d)) mgr d e"
  then show "defs_inv (linked w m (kind_of (content d)) mgr d e) \<and> unified_manager (linked w m (kind_of (content d)) mgr d e) = None"
    using managers.I_linked [of w m mgr d e] by (cases m) (auto simp: get_manager_def linked_def set_manager_def)
qed (simp add: managers.I_ok)

lemma measurement_tables:
  assumes "defs_inv w \<and> unified_manager w = None"
  shows "\<not> hashes w KInterimCommunicator" "\<not> hashes w KIoHandle"
proof -
  have "k \<in> always_hashed" if hk: "hashes w k" for k
  proof -
    obtain m mgr where m: "get_manager w m = Some mgr" "hash_table (mgr k) \<noteq> None" using hk by (auto simp: hashes_def)
    then have "k \<in> tables_of m" using assms by (simp add: defs_inv_def tables_ok_def)
    then show ?thesis using m(1) assms by (cases m) (simp_all add: tables_of_def get_manager_def)
  qed
  then show "\<not> hashes w KInterimCommunicator" "\<not> hashes w KIoHandle" by (auto simp: always_hashed_def)
qed

context definition_invariant
begin

lemma def_call_keeps:
  assumes "def_call w w'" "I w" "\<not> hashes w KInterimCommunicator" "\<not> hashes w KIoHandle"
  shows "I w'"
  using assms by (cases rule: def_call.cases) (erule interface_keeps; assumption)+

end

lemma def_call_measurement:
  assumes "def_call w w'" "defs_inv w \<and> unified_manager w = None"
  shows "defs_inv w' \<and> unified_manager w' = None"
  by (rule measurement.def_call_keeps [OF assms measurement_tables [OF assms(2)]])

lemma def_history_keeps:
  "def_history w w' \<Longrightarrow> defs_inv w \<and> unified_manager w = None \<Longrightarrow> defs_inv w' \<and> unified_manager w' = None"
  by (induction rule: def_history.induct) (auto dest: def_call_measurement)

section \<open>Initialisation\<close>

lemma initial_defs_inv:
  assumes "memory w 0 = []" "unified_manager w = None"
  shows "defs_inv (w\<lparr>local_manager := InitializeDefinitionManager False\<rparr>)" (is "defs_inv ?w")
proof -
  have e: "InitializeDefinitionManager False k =
      init_entry\<lparr>hash_table := (if k \<in> always_hashed then Some (\<lambda>_. []) else None),
        hash_table_mask := (if k \<in> always_hashed then 255 else 0)\<rparr>" for k
    by (simp add: InitializeDefinitionManager_def hashed_entry_def alloc_hash_table_def DEFAULT_HASH_TABLE_POWER_def
        init_entry_def)
  have d: "deref ?w 0 h = None" for h
    using assms(1) by (simp add: deref_def arr_get_def)
  have g: "get_manager ?w m = Some mgr \<Longrightarrow> m = LocalManager \<and> mgr = InitializeDefinitionManager False" for m mgr
    using assms(2) by (cases m) (auto simp: get_manager_def)
  have "entry_ok ?w k (InitializeDefinitionManager False k)" for k
    by (auto simp: entry_ok_def enumerates_def buckets_ok_def no_repetition_def bucket_of_def e init_entry_def)
  then have "defs_ok ?w" using g unfolding defs_ok_def by blast
  moreover have "hashes_ok ?w" using d by (simp add: hashes_ok_def)
  moreover have "tables_ok ?w"
    unfolding tables_ok_def
  proof (intro allI impI)
    fix m mgr k assume "get_manager ?w m = Some mgr"
    then show "hash_table (mgr k) \<noteq> None \<longleftrightarrow> k \<in> tables_of m"
      using g [of m mgr] by (simp add: e init_entry_def tables_of_def)
  qed
  ultimately show ?thesis by (simp add: defs_inv_def)
qed

lemma initialized_defs_inv:
  assumes "memory w0 0 = []" "unified_manager w0 = None" "Definitions_Initialize w0 = Some w"
  shows "defs_inv w \<and> unified_manager w = None"
proof -
  let ?w = "w0\<lparr>local_manager := InitializeDefinitionManager False\<rparr>"
  obtain h where "new_string ?w LocalManager [] = Some (h, w)"
    using assms(3) by (auto simp: Definitions_Initialize_def bind_Some_iff Let_def)
  then show ?thesis
    by (rule measurement.new_string_keeps) (use initial_defs_inv [OF assms(1,2)] assms(2) in simp)
qed

section \<open>Equal definitions are one\<close>

lemma equal_content_of:
  "equal_content (String x0) c \<longleftrightarrow> (\<exists>y. c = String y \<and> equal_string x0 y)"
  "equal_content (SourceFile x1) c \<longleftrightarrow> (\<exists>y. c = SourceFile y \<and> equal_source_file x1 y)"
  "equal_content (Region x2) c \<longleftrightarrow> (\<exists>y. c = Region y \<and> equal_region x2 y)"
  "equal_content (Parameter x3) c \<longleftrightarrow> (\<exists>y. c = Parameter y \<and> equal_parameter x3 y)"
  "equal_content (Attribute x4) c \<longleftrightarrow> (\<exists>y. c = Attribute y \<and> equal_attribute x4 y)"
  "equal_content (SourceCodeLocation x5) c \<longleftrightarrow> (\<exists>y. c = SourceCodeLocation y \<and> equal_source_code_location x5 y)"
  by (cases c; simp add: equal_content_def)+

lemma equal_content_hashed:
  assumes "kind_of c \<in> always_hashed" "equal_content c c'"
  shows "hash_items w c = hash_items w c' \<and> equal_content c' c \<and> kind_of c' = kind_of c"
proof -
  have k: "(\<exists>x. c = String x) \<or> (\<exists>x. c = SourceFile x) \<or> (\<exists>x. c = Region x) \<or> (\<exists>x. c = Parameter x)
    \<or> (\<exists>x. c = Attribute x) \<or> (\<exists>x. c = SourceCodeLocation x)"
    using assms(1) by (cases c) (auto simp: kind_of_def always_hashed_def)
  show ?thesis
    using k assms(2)
    by (elim disjE exE) (auto simp: equal_content_of kind_of_def hash_items_def equal_string_def equal_source_file_def
      equal_region_def equal_parameter_def equal_attribute_def equal_source_code_location_def
      hash_string_def hash_source_file_def initialize_region_def hash_parameter_def initialize_attribute_def
      initialize_source_code_location_def)
qed

lemma equal_definitions_same_handle:
  assumes inv: "defs_inv w" and m: "get_manager w m = Some mgr" and k: "k \<in> always_hashed"
    and h: "h \<in> set (chain (mgr k))" "h' \<in> set (chain (mgr k))"
    and d: "deref w 0 h = Some a" "deref w 0 h' = Some b" and eq: "equal_content (content a) (content b)"
  shows "h = h'"
proof -
  have ok: "entry_ok w k (mgr k)" using inv m by (auto simp: defs_inv_def intro: defs_okD)
  have tab: "hash_table (mgr k) \<noteq> None"
    using inv m k by (cases m) (auto simp: defs_inv_def tables_ok_def tables_of_def)
  have "kind_of (content a) = k \<and> kind_of (content b) = k"
    using enumerates_deref ok h d by (fastforce simp: entry_ok_def)
  then have ka: "kind_of (content a) = k" and kb: "kind_of (content b) = k" by auto
  have "hash_content w (content a) = Some (def_hash a)" "hash_content w (content b) = Some (def_hash b)"
    using inv d k ka kb by (auto simp: defs_inv_def hashes_ok_def)
  moreover have e: "hash_items w (content a) = hash_items w (content b) \<and> equal_content (content b) (content a)"
    using equal_content_hashed [OF _ eq] k ka by auto
  ultimately have hv: "def_hash a = def_hash b" by (simp add: hash_content_def)
  have s: "same_for k = same_definition" using k by (auto simp: same_for_def always_hashed_def)
  have same: "same_for k a b" "same_for k b a" using eq e hv by (auto simp: s same_definition_def)
  obtain i j where ij: "i < length (chain (mgr k))" "j < length (chain (mgr k))" "h = chain (mgr k) ! i" "h' = chain (mgr k) ! j"
    using h by (auto simp: in_set_conv_nth)
  have rep: "no_repetition w k (mgr k)"
    using ok tab k by (auto simp: entry_ok_def always_hashed_def)
  have "\<not> i < j" "\<not> j < i"
    using rep ij d hv same unfolding no_repetition_def by metis+
  then show ?thesis using ij by simp
qed

section \<open>Strings stay\<close>

lemma of_char_u8_inj: "(of_char c :: u8) = of_char d \<longleftrightarrow> c = d"
proof
  assume "(of_char c :: u8) = of_char d"
  then have "(of_int (of_char c) :: u8) = of_int (of_char d)" by (simp only: of_int_of_char)
  then have "take_bit 8 (of_char c :: int) = take_bit 8 (of_char d)" by (simp add: word_of_int_eq_iff del: of_int_of_char)
  then have "(of_char c :: int) mod 256 = of_char d mod 256" by (simp add: take_bit_eq_mod)
  then show "c = d" by (simp add: of_char_mod_256)
qed simp

lemma string_hash_items: "hash_items w (String a) = hash_items w (String b) \<Longrightarrow> a = b"
proof -
  have inj: "map (of_char :: char \<Rightarrow> u8) x = map of_char y \<Longrightarrow> x = y" for x y
    by (rule map_injective) (auto simp: inj_def of_char_u8_inj)
  show "hash_items w (String a) = hash_items w (String b) \<Longrightarrow> a = b"
    using inj by (cases a; cases b) (auto simp: hash_items_def hash_string_def)
qed

definition string_at :: "defs \<Rightarrow> handle \<Rightarrow> string \<Rightarrow> bool" where
  "string_at w h s \<longleftrightarrow> h \<in> set (chain (local_manager w KString))
     \<and> (\<exists>d. deref w 0 h = Some d \<and> content d = String (StringDef s))"

lemma string_at_changed:
  assumes s: "string_at w h s" and ch: "changed w w'"
  shows "string_at w' h s"
proof -
  obtain d where d: "deref w 0 h = Some d" "content d = String (StringDef s)" using s by (auto simp: string_at_def)
  obtain d' where d': "deref w' 0 h = Some d'" "alike d d'" using ch d(1) unfolding changed_def kept_def by blast
  have k: "kind_of (content d') = KString" "\<And>w. hash_items w (content d') = hash_items w (content d)"
    using d'(2) d(2) by (auto simp: alike_def kind_of_def always_hashed_def)
  then obtain x where x: "content d' = String x" by (cases "content d'") (auto simp: kind_of_def)
  have "content d' = String (StringDef s)"
    using k(2) [of w] string_hash_items [of w x "StringDef s"] x d(2) by simp
  moreover have "get_manager w' LocalManager = get_manager w LocalManager" using ch by (simp add: changed_def)
  ultimately show ?thesis using s d'(1) by (simp add: string_at_def get_manager_def)
qed

lemma string_at_linked:
  assumes s: "string_at w h s" and m: "get_manager w m = Some mgr"
  shows "string_at (linked w m k mgr d e) h s"
proof -
  have "local_manager (linked w m k mgr d e) = (if m = LocalManager
      then mgr(k := e\<lparr>chain := chain (mgr k) @ [Suc (length (memory w 0))], counter := counter (mgr k) + 1\<rparr>) else local_manager w)"
    by (cases m) (simp_all add: linked_def set_manager_def)
  then show ?thesis
    using s m by (auto simp: string_at_def deref_linked deref_valid get_manager_def)
qed

interpretation string_stays: definition_invariant "\<lambda>w. (defs_inv w \<and> unified_manager w = None) \<and> string_at w h s" for h s
proof
  show "defs_ok w" if "(defs_inv w \<and> unified_manager w = None) \<and> string_at w h s" for w
    using that by (blast intro: measurement.I_ok)
  show "(defs_inv w' \<and> unified_manager w' = None) \<and> string_at w' h s"
    if "(defs_inv w \<and> unified_manager w = None) \<and> string_at w h s" "changed w w'" "same_handles w w'" for w w'
    using that measurement.I_changed [of w w'] string_at_changed by blast
  show "(defs_inv (linked w m (kind_of (content d)) mgr d e) \<and> unified_manager (linked w m (kind_of (content d)) mgr d e) = None)
      \<and> string_at (linked w m (kind_of (content d)) mgr d e) h s"
    if "(defs_inv w \<and> unified_manager w = None) \<and> string_at w h s" "get_manager w m = Some mgr" "hashed_definition w d"
      "fresh_entry w (kind_of (content d)) mgr d e" for w m mgr d e
    using that measurement.I_linked [of w m mgr d e] string_at_linked by blast
qed

lemma string_stays_history:
  assumes "def_history w w'" "defs_inv w" "unified_manager w = None" "string_at w h s"
  shows "string_at w' h s"
  using assms
proof (induction rule: def_history.induct)
  case (call w1 w2)
  have "defs_inv w1 \<and> unified_manager w1 = None" using def_history_keeps [OF call(1)] call by simp
  then show ?case
    using string_stays.def_call_keeps [OF call(2), of h s] measurement_tables [of w1] call by blast
qed simp

end
