(* ===== verification/Scorep_Definitions_Results.thy ===== *)
theory Scorep_Definitions_Results
  imports Scorep_Definitions_Interface
begin

text \<open>
  What the definition managers promise: a definition is added when there is no equal one, equal definitions have
  one handle, and the managers stay well formed through every sequence of calls of the adapters.
\<close>

lemma add_definition_found:
  assumes inv: "defs_inv w" and m: "get_manager w m = Some mgr" and k: "added_by_macro (kind_of c)"
    and v: "hash_content w c = Some v" and t: "kind_of c \<in> tables_of m"
  shows "(\<exists>h e. h \<in> set (chain (mgr (kind_of c))) \<and> deref w 0 h = Some e \<and> def_hash e = v
      \<and> equal_content (content e) c \<and> add_definition w m c = Some (h, False, w))
    \<or> (\<forall>h e. h \<in> set (chain (mgr (kind_of c))) \<and> deref w 0 h = Some e \<and> def_hash e = v \<longrightarrow> \<not> equal_content (content e) c)
      \<and> add_definition w m c = Some (Suc (length (memory w 0)), True,
          added w m (kind_of c) mgr ((init_header c)\<lparr>def_hash := v\<rparr>))"
proof -
  let ?k = "kind_of c" and ?d = "(init_header c)\<lparr>def_hash := v\<rparr>"
  let ?w = "w\<lparr>memory := (memory w)(0 := memory w 0 @ [?d])\<rparr>"
  have add: "add_definition w m c = add_to_entry w m ?k same_definition ?d"
    by (simp add: add_definition_def v)
  have sf: "same_for ?k = same_definition" and kr: "?k \<noteq> KSamplingSetRecorder"
    using k unfolding added_by_macro_def same_for_def by simp_all
  have ok: "entry_ok w ?k (mgr ?k)" using inv m by (auto simp: defs_inv_def intro: defs_okD)
  have bv: "\<exists>e. deref w 0 h = Some e" if "h \<in> set (bucket_of (mgr ?k) v)" for h
    using bucket_valid(2) [OF ok kr that] by blast
  have bin: "h \<in> set (bucket_of (mgr ?k) v)" if "h \<in> set (chain (mgr ?k))" "deref w 0 h = Some e" "def_hash e = v" for h e
  proof -
    have "hash_table (mgr ?k) \<noteq> None" using inv m t by (auto simp: defs_inv_def tables_ok_def)
    then have "buckets_ok w (mgr ?k)" using ok kr by (simp add: entry_ok_def)
    then show ?thesis using that by (auto simp: buckets_ok_def in_bucket_def)
  qed
  show ?thesis
  proof (cases "\<exists>h\<in>set (bucket_of (mgr ?k) v). \<exists>e. deref w 0 h = Some e \<and> same_definition e ?d")
    case False
    then have none: "\<forall>h\<in>set (bucket_of (mgr ?k) (def_hash ?d)). \<exists>e. deref w 0 h = Some e \<and> \<not> same_definition e ?d"
      using bv by fastforce
    then show ?thesis
      using add_to_entry_new [where same = same_definition, OF m none] False bin
      by (auto simp: add same_definition_def init_header_def)
  next
    case True
    obtain r where r: "search_chain ?w (\<lambda>e. same_definition e ?d) (bucket_of (mgr ?k) v) = Some r"
      using search_chain_total [of "bucket_of (mgr ?k) v" ?w] bv by (fastforce simp: deref_append deref_valid)
    have "r \<noteq> None"
    proof
      assume "r = None"
      then have "\<forall>h\<in>set (bucket_of (mgr ?k) v). \<exists>e. deref ?w 0 h = Some e \<and> \<not> same_definition e ?d"
        using r by (simp add: search_chain_None)
      moreover obtain h e where h: "h \<in> set (bucket_of (mgr ?k) v)" "deref w 0 h = Some e" "same_definition e ?d"
        using True by blast
      moreover have "deref ?w 0 h = Some e" using h(2) by (auto simp: deref_append deref_valid)
      ultimately show False by auto
    qed
    then have a: "add_definition w m c = Some (the r, False, w)"
      using r m by (auto simp: add add_to_entry_def definition_alloc_def)
    have "\<exists>mgr e. get_manager w m = Some mgr \<and> the r \<in> set (chain (mgr ?k)) \<and> deref w 0 (the r) = Some e \<and> same_definition e ?d"
      by (rule add_to_entry_linked [of w m ?k ?d "the r" False w]) (use inv a add sf kr in \<open>auto simp: defs_inv_def\<close>)
    then show ?thesis
      using a m by (auto simp: same_definition_def init_header_def)
  qed
qed

text \<open>
  C32. Adding a definition (strings, regions, groups, metrics, callpaths and all other kinds the macro adds) to a
  manager with a hash table for its kind finds an existing definition exactly when the manager holds one with the
  same hash value and equal content: then its handle is returned and nothing is changed. Otherwise the definition
  is stored under a new handle with the next sequence number, is put behind the others of its kind, and the
  entries of all other kinds stay as they were.
\<close>

theorem definition_added_once:
  assumes "defs_inv w" "get_manager w m = Some mgr" "added_by_macro (kind_of c)"
    "hash_content w c = Some v" "kind_of c \<in> tables_of m"
  shows "(\<exists>h e. h \<in> set (chain (mgr (kind_of c))) \<and> deref w 0 h = Some e \<and> def_hash e = v
      \<and> equal_content (content e) c \<and> add_definition w m c = Some (h, False, w))
    \<or> (\<forall>h e. h \<in> set (chain (mgr (kind_of c))) \<and> deref w 0 h = Some e \<and> def_hash e = v \<longrightarrow> \<not> equal_content (content e) c)
      \<and> (\<exists>h w' mgr' e. add_definition w m c = Some (h, True, w') \<and> deref w 0 h = None
        \<and> deref w' 0 h = Some e \<and> content e = c \<and> def_hash e = v \<and> sequence_number e = counter (mgr (kind_of c))
        \<and> get_manager w' m = Some mgr' \<and> chain (mgr' (kind_of c)) = chain (mgr (kind_of c)) @ [h]
        \<and> (\<forall>k. k \<noteq> kind_of c \<longrightarrow> mgr' k = mgr k))"
  using add_definition_found [OF assms]
proof (elim disjE conjE)
  let ?d = "(init_header c)\<lparr>def_hash := v\<rparr>"
  let ?n = "Suc (length (memory w 0))" and ?e = "push_bucket v (Suc (length (memory w 0))) (mgr (kind_of c))"
  let ?w = "linked w m (kind_of c) mgr ?d ?e"
  assume none: "\<forall>h e. h \<in> set (chain (mgr (kind_of c))) \<and> deref w 0 h = Some e \<and> def_hash e = v \<longrightarrow> \<not> equal_content (content e) c"
    and add: "add_definition w m c = Some (?n, True, linked w m (kind_of c) mgr ?d (push_bucket (def_hash ?d) ?n (mgr (kind_of c))))"
  have new: "deref w 0 ?n = None" "deref ?w 0 ?n = Some (?d\<lparr>sequence_number := counter (mgr (kind_of c))\<rparr>)"
    by (simp_all add: deref_linked) (simp add: deref_def arr_get_def)
  have "get_manager ?w m = Some (mgr(kind_of c := ?e\<lparr>chain := chain (mgr (kind_of c)) @ [?n], counter := counter (mgr (kind_of c)) + 1\<rparr>))"
    by (simp add: get_manager_linked)
  then show ?thesis
    using none add new by (intro disjI2 conjI exI [of _ ?n] exI [of _ ?w] exI) (auto simp: init_header_def)
qed blast

lemma new_string_total:
  assumes "defs_inv w" "get_manager w m = Some mgr"
  shows "\<exists>h w'. new_string w m s = Some (h, w')"
proof -
  let ?c = "String (StringDef s)"
  have h: "hash_content w ?c = Some (jenkins_hash (map of_char s) 0)"
    by (simp add: hash_content_def hash_items_def hash_string_def)
  have t: "kind_of ?c \<in> tables_of m" by (cases m) (simp_all add: tables_of_def kind_of_def always_hashed_def)
  have "\<exists>h fresh w'. add_definition w m ?c = Some (h, fresh, w')"
    using add_definition_found [OF assms _ h t, simplified added_by_macro_kind def_content.case] by blast
  then show ?thesis by (auto simp: new_string_def new_string_generator_def define_announced_def)
qed

definition empty_defs :: defs where
  "empty_defs = \<lparr>memory = (\<lambda>_. []), local_manager = (\<lambda>_. init_entry), unified_manager = None, announced = [],
     location_mapping = []\<rparr>"

lemma NewString_total: "defs_inv w \<Longrightarrow> \<exists>h w'. NewString w (Some s) = Some (h, w')"
  using new_string_total [of w LocalManager] by (simp add: NewString_def get_manager_def)

lemma initialize_total:
  assumes "memory w0 0 = []" "unified_manager w0 = None"
  shows "\<exists>w. Definitions_Initialize w0 = Some w"
proof -
  have "\<exists>h w. new_string (w0\<lparr>local_manager := InitializeDefinitionManager False\<rparr>) LocalManager [] = Some (h, w)"
    by (rule new_string_total [OF initial_defs_inv [OF assms]]) (simp add: get_manager_def)
  then show ?thesis by (auto simp: Definitions_Initialize_def)
qed

lemma empty_initialized: "\<exists>w. Definitions_Initialize empty_defs = Some w \<and> defs_inv w \<and> unified_manager w = None"
proof -
  have "memory empty_defs 0 = []" "unified_manager empty_defs = None" by (simp_all add: empty_defs_def)
  then show ?thesis using initialize_total initialized_defs_inv by blast
qed

theorem definition_added_once_witness:
  "\<exists>w mgr v. Definitions_Initialize empty_defs = Some w \<and> get_manager w LocalManager = Some mgr
     \<and> ((\<exists>h e. h \<in> set (chain (mgr KString)) \<and> deref w 0 h = Some e \<and> def_hash e = v
        \<and> equal_content (content e) (String (StringDef ''main'')) \<and> add_definition w LocalManager (String (StringDef ''main'')) = Some (h, False, w))
      \<or> (\<exists>h w'. add_definition w LocalManager (String (StringDef ''main'')) = Some (h, True, w')))"
proof -
  obtain w where w: "Definitions_Initialize empty_defs = Some w" "defs_inv w" using empty_initialized by blast
  let ?c = "String (StringDef ''main'') :: handle def_content"
  have k: "kind_of ?c = KString" by (simp add: kind_of_def)
  have m: "get_manager w LocalManager = Some (local_manager w)" by (simp add: get_manager_def)
  have "(\<exists>h e. h \<in> set (chain (local_manager w KString)) \<and> deref w 0 h = Some e \<and> def_hash e = jenkins_hash (map of_char ''main'') 0
        \<and> equal_content (content e) ?c \<and> add_definition w LocalManager ?c = Some (h, False, w))
      \<or> (\<exists>h w'. add_definition w LocalManager ?c = Some (h, True, w'))"
    using definition_added_once [OF w(2) m, of ?c "jenkins_hash (map of_char ''main'') 0"] unfolding k
    by (auto simp: added_by_macro_def hash_content_def hash_items_def hash_string_def tables_of_def always_hashed_def)
  then show ?thesis using w(1) m by blast
qed

text \<open>
  C4. After initialisation and any sequence of calls of the adapters (defining, naming, completing, adding
  properties and recorders), the entry of every kind is well formed: its chain has no handle twice, the \<open>i\<close>-th
  handle is a definition of that kind with sequence number \<open>i\<close>, the counter is the number of definitions, and
  the hash table, which exactly the always hashed kinds have, holds every definition in the bucket of its hash value
  and nothing else. The hash value of a hashed definition is that of its content.
\<close>

theorem definition_managers_wellformed:
  assumes "memory w0 0 = []" "unified_manager w0 = None" "Definitions_Initialize w0 = Some w" "def_history w w'"
  shows "enumerates w' k (local_manager w' k)
    \<and> (hash_table (local_manager w' k) \<noteq> None \<longleftrightarrow> k \<in> always_hashed)
    \<and> (k \<in> always_hashed \<longrightarrow> buckets_ok w' (local_manager w' k)
       \<and> (\<forall>h d. deref w' 0 h = Some d \<and> kind_of (content d) = k \<longrightarrow> hash_content w' (content d) = Some (def_hash d)))"
proof -
  have inv: "defs_inv w'"
    using def_history_keeps [OF assms(4) initialized_defs_inv [OF assms(1-3)]] by simp
  have m: "get_manager w' LocalManager = Some (local_manager w')" by (simp add: get_manager_def)
  have t: "hash_table (local_manager w' k) \<noteq> None \<longleftrightarrow> k \<in> always_hashed"
    using inv m by (auto simp: defs_inv_def tables_ok_def tables_of_def)
  have "entry_ok w' k (local_manager w' k)" using inv m by (auto simp: defs_inv_def intro: defs_okD)
  then show ?thesis
    using inv t by (auto simp: entry_ok_def defs_inv_def hashes_ok_def always_hashed_def)
qed

text \<open>
  C33. After initialisation and any sequence of calls of the adapters, two definitions of a hashed kind (strings,
  source files, regions, parameters, attributes, source code locations) with equal content are one definition.
\<close>

theorem equal_definitions_have_one_handle:
  assumes "memory w0 0 = []" "unified_manager w0 = None" "Definitions_Initialize w0 = Some w" "def_history w w'"
    and "k \<in> always_hashed" "h \<in> set (chain (local_manager w' k))" "h' \<in> set (chain (local_manager w' k))"
    and "deref w' 0 h = Some a" "deref w' 0 h' = Some b" "equal_content (content a) (content b)"
  shows "h = h'"
proof -
  have inv: "defs_inv w'"
    using def_history_keeps [OF assms(4) initialized_defs_inv [OF assms(1-3)]] by simp
  have m: "get_manager w' LocalManager = Some (local_manager w')" by (simp add: get_manager_def)
  show ?thesis by (rule equal_definitions_same_handle [OF inv m assms(5-10)])
qed

text \<open>A name is defined twice.\<close>

lemma name_twice:
  "\<exists>w h w1 h' w2. Definitions_Initialize empty_defs = Some w \<and> NewString w (Some ''main'') = Some (h, w1)
     \<and> NewString w1 (Some ''main'') = Some (h', w2) \<and> def_history w w2"
proof -
  obtain w where w: "Definitions_Initialize empty_defs = Some w" "defs_inv w" using empty_initialized by blast
  obtain h w1 where w1: "NewString w (Some ''main'') = Some (h, w1)" using NewString_total [OF w(2)] by blast
  have "defs_inv w1" using w1 w(2) by (rule managers.NewString_keeps)
  then obtain h' w2 where w2: "NewString w1 (Some ''main'') = Some (h', w2)" using NewString_total by blast
  have "def_history w w2"
    using def_history.call [OF def_history.call [OF def_history.start def_call.intros(1) [OF w1]] def_call.intros(1) [OF w2]] .
  then show ?thesis using w(1) w1 w2 by blast
qed

theorem definition_managers_wellformed_witness:
  "\<exists>w w'. Definitions_Initialize empty_defs = Some w \<and> def_history w w' \<and> enumerates w' KString (local_manager w' KString)"
proof -
  obtain w w' where w: "Definitions_Initialize empty_defs = Some w" "def_history w w'" using name_twice by blast
  have "memory empty_defs 0 = []" "unified_manager empty_defs = None" by (simp_all add: empty_defs_def)
  then show ?thesis using definition_managers_wellformed [OF _ _ w, of KString] w by blast
qed

lemma local_manager_linked: "local_manager (linked w LocalManager k mgr d e) =
    mgr(k := e\<lparr>chain := chain (mgr k) @ [Suc (length (memory w 0))], counter := counter (mgr k) + 1\<rparr>)"
  by (simp add: linked_def set_manager_def)

lemma new_string_result:
  assumes inv: "defs_inv w" and new: "NewString w (Some s) = Some (h, w')"
  shows "string_at w' h s"
proof -
  let ?c = "String (StringDef s) :: handle def_content"
  have k: "kind_of ?c = KString" by (simp add: kind_of_def)
  have m: "get_manager w LocalManager = Some (local_manager w)" by (simp add: get_manager_def)
  obtain fresh w1 where f: "add_definition w LocalManager ?c = Some (h, fresh, w1)" "w' = (if fresh then announce h KString w1 else w1)"
    using new by (auto simp: NewString_def new_string_def new_string_generator_def define_announced_def bind_Some_iff k)
  have eq: "content e = ?c" if ec: "equal_content (content e) ?c" for e
  proof -
    obtain x where x: "content e = String x" using ec by (cases "content e") (simp_all add: equal_content_def)
    then have "string_data x = s" using ec by (simp add: equal_content_def equal_string_def)
    then show ?thesis using x by (cases x) simp
  qed
  have "string_at w1 h s"
    using add_definition_found [OF inv m, of ?c "jenkins_hash (map of_char s) 0"] f(1) eq unfolding k
    by (auto simp: added_by_macro_def hash_content_def hash_items_def hash_string_def tables_of_def always_hashed_def
        deref_linked init_header_def string_at_def local_manager_linked)
  then show ?thesis using f(2) by (simp add: string_at_def announce_def)
qed

theorem equal_definitions_have_one_handle_witness:
  "\<exists>w h w1 h' w2. Definitions_Initialize empty_defs = Some w \<and> NewString w (Some ''main'') = Some (h, w1)
     \<and> NewString w1 (Some ''main'') = Some (h', w2) \<and> h = h'"
proof -
  obtain w where w: "Definitions_Initialize empty_defs = Some w" "defs_inv w" using empty_initialized by blast
  obtain h w1 where w1: "NewString w (Some ''main'') = Some (h, w1)" using NewString_total [OF w(2)] by blast
  have i1: "defs_inv w1" using w1 w(2) by (rule managers.NewString_keeps)
  then obtain h' w2 where w2: "NewString w1 (Some ''main'') = Some (h', w2)" using NewString_total by blast
  have hist: "def_history w w2"
    using def_history.call [OF def_history.call [OF def_history.start def_call.intros(1) [OF w1]] def_call.intros(1) [OF w2]] .
  have e: "memory empty_defs 0 = []" "unified_manager empty_defs = None" by (simp_all add: empty_defs_def)
  have u: "unified_manager w1 = None" "unified_manager w = None"
    using measurement.NewString_keeps [OF w1] initialized_defs_inv [OF e w(1)] by auto
  have "string_at w1 h ''main''" by (rule new_string_result [OF w(2) w1])
  then have a: "string_at w2 h ''main''" using string_stays.NewString_keeps [OF w2, of h "''main''"] i1 u by simp
  have b: "string_at w2 h' ''main''" by (rule new_string_result [OF i1 w2])
  obtain x y where "deref w2 0 h = Some x" "content x = String (StringDef ''main'')" "h \<in> set (chain (local_manager w2 KString))"
      "deref w2 0 h' = Some y" "content y = String (StringDef ''main'')" "h' \<in> set (chain (local_manager w2 KString))"
    using a b by (auto simp: string_at_def)
  then have "h = h'"
    by (intro equal_definitions_have_one_handle [OF e w(1) hist, of KString h h' x y])
      (simp_all add: always_hashed_def equal_content_def equal_string_def)
  then show ?thesis using w(1) w1 w2 by blast
qed

text \<open>
  C3. Strings are interned. After initialisation and any sequence of calls, let a string be defined, any further
  calls be made and a string be defined again: both requests get the same handle exactly when the texts are equal,
  and the first handle still gives the first text.
\<close>

theorem strings_are_interned:
  assumes "memory w0 0 = []" "unified_manager w0 = None" "Definitions_Initialize w0 = Some w" "def_history w w1"
    and "NewString w1 (Some s) = Some (h, w2)" "def_history w2 w3" "NewString w3 (Some s') = Some (h', w4)"
  shows "(h = h' \<longleftrightarrow> s = s') \<and> StringHandle_Get w4 0 h = Some s"
proof -
  have i1: "defs_inv w1 \<and> unified_manager w1 = None"
    using def_history_keeps [OF assms(4) initialized_defs_inv [OF assms(1-3)]] .
  have i2: "defs_inv w2 \<and> unified_manager w2 = None" using assms(5) i1 by (rule measurement.NewString_keeps)
  have i3: "defs_inv w3 \<and> unified_manager w3 = None" using def_history_keeps [OF assms(6) i2] .
  have i4: "defs_inv w4 \<and> unified_manager w4 = None" using assms(7) i3 by (rule measurement.NewString_keeps)
  have "string_at w2 h s" by (rule new_string_result [OF _ assms(5)]) (use i1 in simp)
  then have s3: "string_at w3 h s" using string_stays_history [OF assms(6)] i2 by simp
  have s4: "string_at w4 h s" using string_stays.NewString_keeps [OF assms(7), of h s] i3 s3 by simp
  have s4': "string_at w4 h' s'" by (rule new_string_result [OF _ assms(7)]) (use i3 in simp)
  obtain a b where ab: "deref w4 0 h = Some a" "content a = String (StringDef s)" "h \<in> set (chain (local_manager w4 KString))"
      "deref w4 0 h' = Some b" "content b = String (StringDef s')" "h' \<in> set (chain (local_manager w4 KString))"
    using s4 s4' by (auto simp: string_at_def)
  have m: "get_manager w4 LocalManager = Some (local_manager w4)" by (simp add: get_manager_def)
  have "h = h'" if "s = s'"
  proof (rule equal_definitions_same_handle [OF _ m _ ab(3,6,1,4)])
    show "equal_content (content a) (content b)"
      using that by (simp add: ab equal_content_def equal_string_def)
  qed (use i4 in \<open>simp_all add: always_hashed_def\<close>)
  then show ?thesis using ab by (auto simp: StringHandle_Get_def)
qed

theorem strings_are_interned_witness:
  "\<exists>w h w1 h' w2. Definitions_Initialize empty_defs = Some w \<and> NewString w (Some ''main'') = Some (h, w1)
     \<and> NewString w1 (Some ''Main'') = Some (h', w2) \<and> h \<noteq> h' \<and> StringHandle_Get w2 0 h = Some ''main''"
proof -
  obtain w where w: "Definitions_Initialize empty_defs = Some w" "defs_inv w" using empty_initialized by blast
  obtain h w1 where w1: "NewString w (Some ''main'') = Some (h, w1)" using NewString_total [OF w(2)] by blast
  have "defs_inv w1" using w1 w(2) by (rule managers.NewString_keeps)
  then obtain h' w2 where w2: "NewString w1 (Some ''Main'') = Some (h', w2)" using NewString_total by blast
  have e: "memory empty_defs 0 = []" "unified_manager empty_defs = None" by (simp_all add: empty_defs_def)
  show ?thesis
    using strings_are_interned [OF e w(1) def_history.start w1 def_history.start w2] w(1) w1 w2 by auto
qed

section \<open>Two surprises\<close>

text \<open>Members of a group given as unsigned 32-bit numbers are read as signed ones.\<close>

lemma group_from_32_sign_extended:
  "NewGroupFrom32 w t name [0x80000000] = NewGroup w t name [0xFFFFFFFF80000000]"
proof -
  have "map scast [0x80000000 :: u32] = [0xFFFFFFFF80000000 :: u64]" by simp
  then show ?thesis by (simp only: NewGroupFrom32_def NewGroup_def define_group_def sum.case)
qed

lemma rma_hash_kept:
  assumes "hash_content w (RmaWindow (RmaWindowDef n c i x f)) = Some v"
    and "\<And>h d. deref w 0 h = Some d \<Longrightarrow> \<exists>d'. deref w' 0 h = Some d' \<and> def_hash d' = def_hash d"
  shows "hash_content w' (RmaWindow (RmaWindowDef n' c i x' f')) = Some v"
  using assms(1) hash_items_from_kept [OF assms(2)]
  by (auto simp: hash_content_def hash_items_def hash_rma_window_def simp del: hash_items_from.simps)

lemma same_entry_unique:
  assumes inv: "defs_inv w" and m: "get_manager w m = Some mgr" and t: "k \<in> tables_of m" "k \<noteq> KSamplingSetRecorder"
    and h: "h \<in> set (chain (mgr k))" "deref w 0 h = Some a" "h' \<in> set (chain (mgr k))" "deref w 0 h' = Some b"
    and s: "same_for k a b" "same_for k b a" "def_hash a = def_hash b"
  shows "h = h'"
proof -
  have "entry_ok w k (mgr k)" "hash_table (mgr k) \<noteq> None"
    using inv m t by (auto simp: defs_inv_def tables_ok_def intro: defs_okD)
  then have rep: "no_repetition w k (mgr k)" using t(2) by (simp add: entry_ok_def)
  obtain i j where ij: "i < length (chain (mgr k))" "j < length (chain (mgr k))" "h = chain (mgr k) ! i" "h' = chain (mgr k) ! j"
    using h by (auto simp: in_set_conv_nth)
  then have "\<not> i < j" "\<not> j < i"
    using rep h s unfolding no_repetition_def by metis+
  then show ?thesis using ij by simp
qed

lemma add_to_entry_finds:
  assumes inv: "defs_inv w" and m: "get_manager w m = Some mgr" and t: "k \<in> tables_of m" "k \<noteq> KSamplingSetRecorder"
    and h: "h \<in> set (chain (mgr k))" "deref w 0 h = Some a" "def_hash a = def_hash d" "same_for k a d"
    and sym: "\<And>b. same_for k b d \<Longrightarrow> same_for k a b \<and> same_for k b a \<and> def_hash b = def_hash d"
    and add: "add_to_entry w m k (same_for k) d = Some (h', fresh, w')"
  shows "h' = h \<and> \<not> fresh \<and> w' = w"
proof (rule add_to_entry_linked [OF _ add t(2)])
  show "defs_ok w" using inv by (simp add: defs_inv_def)
next
  fix mgr' assume a: "get_manager w m = Some mgr'" "fresh_entry w k mgr' d (push_bucket (def_hash d) h' (mgr' k))"
    "h' = Suc (length (memory w 0))"
  have mm: "mgr' = mgr" using a m by simp
  have ok: "entry_ok w k (mgr k)" "hash_table (mgr k) \<noteq> None"
    using inv m t by (auto simp: defs_inv_def tables_ok_def intro: defs_okD)
  then have "h \<in> set (bucket_of (mgr k) (def_hash d))"
    using h t(2) by (auto simp: entry_ok_def buckets_ok_def in_bucket_def)
  then show ?thesis using a ok(2) t(2) h(2,4) unfolding mm fresh_entry_def by auto
next
  fix mgr' e assume a: "get_manager w m = Some mgr'" "\<not> fresh" "w' = w" "h' \<in> set (chain (mgr' k))"
    "deref w 0 h' = Some e" "same_for k e d"
  have "h = h'"
    by (rule same_entry_unique [OF inv m t h(1,2) _ a(5)]) (use a m h sym [OF a(6)] in auto)
  then show ?thesis using a by simp
qed

text \<open>
  C36. In the unified manager the name of an RMA window that the first process gives is replaced by the name of
  the next process that has the same window, even when that one is only the default name: every window enters the
  unified manager as one with a default name. (The comment of \<open>SCOREP_RmaWindowHandle_SetName\<close>
  says that the first name a user sets is taken.)
\<close>

theorem rma_default_name_wins:
  assumes inv: "defs_inv w" and new: "deref w 0 h = None"
    and first: "define_rma_window w UnifiedManager user_name c i fl = Some (h, w1)"
    and second: "define_rma_window w1 UnifiedManager default_name c i fl' = Some (h', w2)" and valid: "default_name \<noteq> 0"
  shows "h' = h \<and> (\<exists>d. deref w2 0 h = Some d \<and> content d = RmaWindow (RmaWindowDef default_name c i False fl))"
proof -
  let ?a = "RmaWindowDef user_name c i True fl" and ?b = "RmaWindowDef default_name c i True fl'"
  have sf: "same_for KRmaWindow = same_rma_window" by (simp add: same_for_def)
  have t: "KRmaWindow \<in> tables_of UnifiedManager" by (simp add: tables_of_def hashed_on_demand_def)
  obtain v fresh w1' where v: "hash_content w (RmaWindow ?a) = Some v"
      "add_to_entry w UnifiedManager KRmaWindow (same_for KRmaWindow) ((init_header (RmaWindow ?a))\<lparr>def_hash := v\<rparr>) = Some (h, fresh, w1')"
      "fresh \<Longrightarrow> w1 = w1'"
    using first by (auto simp: define_rma_window_def bind_Some_iff Let_def sf content_of_kind split: if_splits)
  obtain mgr where l: "get_manager w UnifiedManager = Some mgr" "h = Suc (length (memory w 0))"
      "w1 = added w UnifiedManager KRmaWindow mgr ((init_header (RmaWindow ?a))\<lparr>def_hash := v\<rparr>)"
    by (rule add_to_entry_linked [OF _ v(2)]) (use inv new v(3) in \<open>auto simp: defs_inv_def\<close>)
  have inv1: "defs_inv w1" using first inv by (rule managers.define_rma_window_keeps)
  obtain mgr1 a where m1: "get_manager w1 UnifiedManager = Some mgr1" "h \<in> set (chain (mgr1 KRmaWindow))"
      "deref w1 0 h = Some a" "content a = RmaWindow ?a" "def_hash a = v"
    unfolding l(3) by (auto simp: get_manager_linked deref_linked l(2) init_header_def)
  have hv: "hash_content w1 (RmaWindow ?b) = Some v"
    by (rule rma_hash_kept [OF v(1)]) (auto simp: l(3) deref_linked deref_valid)
  obtain fresh2 w2' where s: "add_to_entry w1 UnifiedManager KRmaWindow (same_for KRmaWindow)
        ((init_header (RmaWindow ?b))\<lparr>def_hash := v\<rparr>) = Some (h', fresh2, w2')"
      "\<not> fresh2 \<Longrightarrow> \<exists>d e. deref w2' 0 h' = Some d \<and> content d = RmaWindow e
         \<and> w2 = update_object w2' 0 h' (\<lambda>d. d\<lparr>content := RmaWindow (merge_rma_window e ?b)\<rparr>)"
    using second by (auto simp: define_rma_window_def bind_Some_iff Let_def sf hv content_of_kind split: if_splits)
  have f: "h' = h \<and> \<not> fresh2 \<and> w2' = w1"
    by (rule add_to_entry_finds [OF inv1 m1(1) t _ m1(2,3) _ _ _ s(1)])
      (use m1 in \<open>auto simp: sf same_rma_window_def init_header_def split: def_content.splits\<close>)
  then have "w2 = update_object w1 0 h (\<lambda>d. d\<lparr>content := RmaWindow (merge_rma_window ?a ?b)\<rparr>)"
    using s(2) m1(3,4) by auto
  then show ?thesis using f m1(3) valid by (simp add: deref_update [OF m1(3)] merge_rma_window_def)
qed

lemma add_to_entry_total:
  assumes inv: "defs_inv w" and m: "get_manager w m = Some mgr" and k: "k \<noteq> KSamplingSetRecorder"
  shows "\<exists>h fresh w'. add_to_entry w m k (same_for k) d = Some (h, fresh, w')"
proof -
  let ?w = "w\<lparr>memory := (memory w)(0 := memory w 0 @ [d])\<rparr>"
  have ok: "entry_ok w k (mgr k)" using inv m by (auto simp: defs_inv_def intro: defs_okD)
  then have "\<forall>h\<in>set (bucket_of (mgr k) (def_hash d)). \<exists>e. deref ?w 0 h = Some e"
    using bucket_valid(2) [OF ok k] by (fastforce simp: deref_append)
  then obtain r where "search_chain ?w (\<lambda>e. same_for k e d) (bucket_of (mgr k) (def_hash d)) = Some r"
    using search_chain_total by blast
  then show ?thesis
    using m by (auto simp: add_to_entry_def definition_alloc_def link_definition_def get_set_manager Let_def split: option.splits)
qed

lemma local_add_total: "defs_inv w \<Longrightarrow> k \<noteq> KSamplingSetRecorder \<Longrightarrow>
    \<exists>h fresh w'. add_to_entry w LocalManager k (same_for k) d = Some (h, fresh, w')"
  by (rule add_to_entry_total) (auto simp: get_manager_def)

lemma add_to_entry_result:
  assumes inv: "defs_inv w" and k: "k \<noteq> KSamplingSetRecorder" "kind_of (content d) = k"
    and add: "add_to_entry w m k (same_for k) d = Some (h, fresh, w')"
  shows "\<exists>e. deref w' 0 h = Some e \<and> kind_of (content e) = k"
  by (rule add_to_entry_linked [OF _ add k(1)]) (use inv k in \<open>auto simp: defs_inv_def deref_linked\<close>)

lemma NewGroup_total:
  assumes inv: "defs_inv w"
  shows "\<exists>h w'. NewGroup w t (Some s) ms = Some (h, w') \<and> deref w' 0 h \<noteq> None"
proof -
  obtain n w1 where n: "new_string w LocalManager s = Some (n, w1)" using new_string_total [OF inv, of LocalManager] by (force simp: get_manager_def)
  have inv1: "defs_inv w1" using n inv by (rule managers.new_string_keeps)
  have "NewString w (Some s) = Some (n, w1)" using n by (simp add: NewString_def)
  then obtain e where e: "deref w1 0 n = Some e" using new_string_result [OF inv] unfolding string_at_def by blast
  let ?c = "Group (GroupDef t n ms)"
  obtain v where v: "hash_content w1 ?c = Some v"
    using e by (simp add: hash_content_def hash_items_def hash_group_def pod32_def pod64_def)
  have sf: "same_for KGroup = same_definition" by (simp add: same_for_def)
  obtain h fresh w2 where a: "add_to_entry w1 LocalManager KGroup (same_for KGroup) ((init_header ?c)\<lparr>def_hash := v\<rparr>) = Some (h, fresh, w2)"
    using local_add_total [OF inv1] by fastforce
  have "\<exists>e. deref w2 0 h = Some e \<and> kind_of (content e) = KGroup"
    by (rule add_to_entry_result [OF inv1 _ _ a]) (simp_all add: init_header_def kind_of_def)
  then show ?thesis
    using n v a by (auto simp: NewGroup_def string_or_def define_group_def define_announced_def add_definition_def kind_of_def sf)
qed

lemma NewCommunicator_total:
  assumes inv: "defs_inv w" and g: "deref w 0 g \<noteq> None"
  shows "\<exists>h w'. NewCommunicator w g n p ke fl = Some (h, w') \<and> deref w' 0 h \<noteq> None"
proof -
  let ?c = "Communicator (CommunicatorDef g g n p ke fl)"
  obtain v where v: "hash_content w ?c = Some v"
    using g by (auto simp: hash_content_def hash_items_def hash_communicator_def pod32_def)
  have sf: "same_for KCommunicator = same_communicator" by (simp add: same_for_def)
  obtain h fresh w1 where a: "add_to_entry w LocalManager KCommunicator (same_for KCommunicator) ((init_header ?c)\<lparr>def_hash := v\<rparr>) = Some (h, fresh, w1)"
    using local_add_total [OF inv] by fastforce
  obtain e where e: "deref w1 0 h = Some e" "kind_of (content e) = KCommunicator"
    using add_to_entry_result [OF inv _ _ a] by (auto simp: init_header_def kind_of_def)
  then obtain x where x: "content e = Communicator x" by (cases "content e") (auto simp: kind_of_def)
  show ?thesis
    using v a e x by (cases fresh)
      (auto simp: NewCommunicator_def define_communicator_def Let_def sf deref_update)
qed

lemma unified_manager_created:
  assumes inv: "defs_inv w" and u: "unified_manager w = None"
  shows "defs_inv (w\<lparr>unified_manager := Some (InitializeDefinitionManager True)\<rparr>)" (is "defs_inv ?w")
proof -
  have d: "deref ?w pm h = deref w pm h" for pm h by (simp add: deref_def)
  have mgr: "get_manager ?w m = (if m = UnifiedManager then Some (InitializeDefinitionManager True) else get_manager w m)" for m
    by (cases m) (simp_all add: get_manager_def)
  have e: "InitializeDefinitionManager True k = (if k \<in> tables_of UnifiedManager then hashed_entry else init_entry)" for k
    by (auto simp: InitializeDefinitionManager_def tables_of_def)
  have h: "hashed_entry = init_entry\<lparr>hash_table := Some (\<lambda>_. []), hash_table_mask := 255\<rparr>"
    by (simp add: hashed_entry_def alloc_hash_table_def DEFAULT_HASH_TABLE_POWER_def init_entry_def)
  have same: "entry_ok ?w k en = entry_ok w k en" for k en
    by (simp add: entry_ok_def enumerates_def holds_definition_def buckets_ok_def in_bucket_def no_repetition_def d)
  have new: "entry_ok ?w k (InitializeDefinitionManager True k)" for k
    by (auto simp: entry_ok_def enumerates_def buckets_ok_def no_repetition_def bucket_of_def e h init_entry_def)
  have "defs_ok ?w"
    using inv new by (auto simp: defs_ok_def mgr same defs_inv_def split: if_splits)
  moreover have hi: "hash_items_from ?w xs v = Some r" if "hash_items_from w xs v = Some r" for xs v r
    using that by (rule hash_items_from_kept [rotated]) (auto simp: d)
  have "hashes_ok ?w"
    unfolding hashes_ok_def
  proof (intro allI impI, elim conjE)
    fix h a assume a: "deref ?w 0 h = Some a" "kind_of (content a) \<in> always_hashed"
    then have "hash_content w (content a) = Some (def_hash a)" using inv by (simp add: defs_inv_def hashes_ok_def d)
    then show "hash_content ?w (content a) = Some (def_hash a)"
      using hi hash_items_static [OF a(2), of ?w w] by (auto simp: hash_content_def bind_Some_iff)
  qed
  moreover have "tables_ok ?w"
    using inv by (auto simp: tables_ok_def mgr defs_inv_def e h init_entry_def split: if_splits)
  ultimately show ?thesis by (simp add: defs_inv_def)
qed

theorem rma_default_name_wins_witness:
  "\<exists>w w1 w2 h h' n n' c d. unified_manager w \<noteq> None \<and> define_rma_window w UnifiedManager n c 0 0 = Some (h, w1)
     \<and> define_rma_window w1 UnifiedManager n' c 0 0 = Some (h', w2) \<and> StringHandle_Get w 0 n = Some ''my window''
     \<and> StringHandle_Get w 0 n' = Some ''MPI_Win_create'' \<and> deref w2 0 h = Some d
     \<and> content d = RmaWindow (RmaWindowDef n' c 0 False 0)"
proof -
  obtain w0 where w0: "defs_inv w0" "unified_manager w0 = None" using empty_initialized by blast
  obtain g wa where a: "NewGroup w0 0 (Some ''world'') [0] = Some (g, wa)" "deref wa 0 g \<noteq> None"
    using NewGroup_total [OF w0(1)] by blast
  have ia: "defs_inv wa \<and> unified_manager wa = None" by (rule measurement.NewGroup_keeps [OF a(1)]) (use w0 in simp)
  obtain n wb where b: "NewString wa (Some ''my window'') = Some (n, wb)" using NewString_total ia by blast
  have ib: "defs_inv wb \<and> unified_manager wb = None" by (rule measurement.NewString_keeps [OF b ia])
  have sb: "string_at wb n ''my window''" by (rule new_string_result [OF _ b]) (use ia in simp)
  obtain n' wc where c: "NewString wb (Some ''MPI_Win_create'') = Some (n', wc)" using NewString_total ib by blast
  have ic: "defs_inv wc \<and> unified_manager wc = None" by (rule measurement.NewString_keeps [OF c ib])
  have sc: "string_at wc n' ''MPI_Win_create''" by (rule new_string_result [OF _ c]) (use ib in simp)
  have sc': "string_at wc n ''my window''" using string_stays.NewString_keeps [OF c] ib sb by blast
  have "deref wc 0 g \<noteq> None"
    using a(2) measurement.new_string_old [of wa LocalManager "''my window''" n wb g] ia
      measurement.new_string_old [of wb LocalManager "''MPI_Win_create''" n' wc g] ib b c
    by (auto simp: NewString_def)
  then obtain cm wd where d: "NewCommunicator wc g 0 0 0 0 = Some (cm, wd)" "deref wd 0 cm \<noteq> None"
    using NewCommunicator_total ic by blast
  have idd: "(defs_inv wd \<and> unified_manager wd = None) \<and> string_at wd n ''my window''"
    by (rule string_stays.NewCommunicator_keeps [OF d(1)]) (use ic sc' in simp)
  have sd: "string_at wd n' ''MPI_Win_create''"
    using string_stays.NewCommunicator_keeps [OF d(1), of n' "''MPI_Win_create''"] ic sc by simp
  let ?w = "wd\<lparr>unified_manager := Some (InitializeDefinitionManager True)\<rparr>"
  have inv: "defs_inv ?w" using unified_manager_created idd by simp
  have dd: "deref ?w pm x = deref wd pm x" for pm x by (simp add: deref_def)
  have m: "get_manager ?w UnifiedManager = Some (InitializeDefinitionManager True)" by (simp add: get_manager_def)
  let ?a = "RmaWindowDef n cm 0 True 0" and ?b = "RmaWindowDef n' cm 0 True 0"
  have sf: "same_for KRmaWindow = same_rma_window" by (simp add: same_for_def)
  obtain v where v: "hash_content ?w (RmaWindow ?a) = Some v"
    using d(2) by (auto simp: hash_content_def hash_items_def hash_rma_window_def pod32_def dd)
  have bk: "bucket_of (InitializeDefinitionManager True KRmaWindow) x = []" for x
    by (simp add: bucket_of_def InitializeDefinitionManager_def hashed_entry_def alloc_hash_table_def
        DEFAULT_HASH_TABLE_POWER_def init_entry_def)
  let ?w1 = "added ?w UnifiedManager KRmaWindow (InitializeDefinitionManager True) ((init_header (RmaWindow ?a))\<lparr>def_hash := v\<rparr>)"
  have "\<exists>h. define_rma_window ?w UnifiedManager n cm 0 0 = Some (h, ?w1) \<and> deref ?w 0 h = None"
    using add_to_entry_new [OF m, where k = KRmaWindow and same = same_rma_window] v bk
    by (auto simp: define_rma_window_def Let_def deref_def arr_get_def)
  then obtain h w1 where 1: "define_rma_window ?w UnifiedManager n cm 0 0 = Some (h, w1)" "deref ?w 0 h = None" "w1 = ?w1" by blast
  have inv1: "defs_inv w1" using 1(1) inv by (rule managers.define_rma_window_keeps)
  obtain mgr1 where m1: "get_manager w1 UnifiedManager = Some mgr1" by (simp add: 1(3) get_manager_linked)
  have keep: "\<exists>d'. deref w1 0 x = Some d' \<and> def_hash d' = def_hash y" if "deref ?w 0 x = Some y" for x y
    using that by (auto simp: 1(3) deref_linked deref_valid)
  have v2: "hash_content w1 (RmaWindow ?b) = Some v" by (rule rma_hash_kept [OF v keep])
  obtain h' fresh w2' where s2: "add_to_entry w1 UnifiedManager KRmaWindow (same_for KRmaWindow)
        ((init_header (RmaWindow ?b))\<lparr>def_hash := v\<rparr>) = Some (h', fresh, w2')"
    using add_to_entry_total [OF inv1 m1] by fastforce
  obtain e where "deref w2' 0 h' = Some e" "kind_of (content e) = KRmaWindow"
    using add_to_entry_result [OF inv1 _ _ s2] by (auto simp: init_header_def kind_of_def)
  moreover then obtain x where "content e = RmaWindow x" by (cases "content e") (auto simp: kind_of_def)
  ultimately obtain w2 where 2: "define_rma_window w1 UnifiedManager n' cm 0 0 = Some (h', w2)"
    using s2 v2 by (cases fresh) (auto simp: define_rma_window_def Let_def sf)
  have n': "n' \<noteq> 0" using sd by (auto simp: string_at_def deref_valid)
  have names: "StringHandle_Get ?w 0 n = Some ''my window''" "StringHandle_Get ?w 0 n' = Some ''MPI_Win_create''"
    using idd sd by (auto simp: string_at_def StringHandle_Get_def dd)
  have u: "unified_manager ?w \<noteq> None" by simp
  obtain d' where "deref w2 0 h = Some d'" "content d' = RmaWindow (RmaWindowDef n' cm 0 False 0)"
    using rma_default_name_wins [OF inv 1(2,1) 2 n'] by blast
  then show ?thesis using u 1(1) 2 names by (intro exI conjI)
qed

end
