(* ===== verification/Scorep_Profile_Process.thy ===== *)
theory Scorep_Profile_Process
  imports Scorep_Profile_Events Scorep_Definitions_Results
begin

text \<open>
  Steps of the post-processing of the profile, \<open>src/src/measurement/profiling\<close>: collapsed nodes become
  regions (\<open>scorep_profile_collapse.c\<close>), the threads are sorted (\<open>scorep_profile_expand.c\<close>),
  tasks, threads and kernels get a root of their own (\<open>scorep_profile_task_process.c\<close>), and every node gets
  the handle of its callpath (\<open>scorep_profile_callpath.c\<close>).

  The profile is the list of its root nodes; the definitions are those of \<open>Scorep_Definitions\<close>. The handle
  of a region or callpath is stored in a 64-bit or 32-bit member of a node. The parameter list that a node points
  to is read from \<open>parameter_memory\<close>.
\<close>

record profile_state =
  ps_definition :: profile_definition
  ps_roots :: "pnode list"
  ps_defs :: defs

type_synonym parameter_memory = "u64 \<Rightarrow> handle callpath_parameter list option"

definition type_set_region_handle :: "type_data \<Rightarrow> handle \<Rightarrow> type_data" where
  "type_set_region_handle data h = data\<lparr>td_handle := of_nat h\<rparr>"

definition type_get_region_handle :: "type_data \<Rightarrow> handle" where
  "type_get_region_handle data = unat (ucast (td_handle data) :: u32)"

definition zero_type_data :: type_data where
  "zero_type_data = \<lparr>td_handle = 0, td_value = 0\<rparr>"

section \<open>Collapsed nodes\<close>

definition SCOREP_PARADIGM_USER :: u32 where "SCOREP_PARADIGM_USER = 1"

definition substitute_collapse :: "handle \<Rightarrow> node_data \<Rightarrow> node_data" where
  "substitute_collapse region node =
     (if nd_type node = NODE_COLLAPSE
      then node\<lparr>nd_type := NODE_REGULAR_REGION, nd_data := type_set_region_handle zero_type_data region\<rparr>
      else node)"

text \<open>\<open>scorep_profile_for_all\<close> with a function that changes the data of the node only.\<close>

fun map_node :: "(node_data \<Rightarrow> node_data) \<Rightarrow> pnode \<Rightarrow> pnode" where
  "map_node f (PNode d cs) = PNode (f d) (map (map_node f) cs)"

definition process_collapse :: "profile_state \<Rightarrow> profile_state option" where
  "process_collapse p =
     (if \<not> pr_has_collapse_node (ps_definition p) then Some p
      else do {
        (region, w) \<leftarrow> NewRegion (ps_defs p) (Some ''COLLAPSE'') None 0 0 0 SCOREP_PARADIGM_USER 0;
        Some (p\<lparr>ps_defs := w, ps_roots := map (map_node (substitute_collapse region)) (ps_roots p)\<rparr>)
      })"

section \<open>Sorting the threads\<close>

definition root_index :: "pnode \<Rightarrow> nat" where
  "root_index root = unat (ucast (td_value (nd_data (pn_data root))) :: u32)"

definition is_thread_root :: "pnode \<Rightarrow> bool" where
  "is_thread_root root \<longleftrightarrow> nd_type (pn_data root) = NODE_THREAD_ROOT"

definition thread_count :: "pnode list \<Rightarrow> nat" where
  "thread_count roots = unat (of_nat (length (filter is_thread_root roots)) :: u32)"

text \<open>\<open>None\<close>: the locations are not numbered from 0 on, so they are not sorted.\<close>

fun fill_root_list :: "nat \<Rightarrow> pnode list \<Rightarrow> pnode option list \<Rightarrow> pnode option list option" where
  "fill_root_list n [] root_list = Some root_list"
| "fill_root_list n (root # roots) root_list =
     (if is_thread_root root
      then if n \<le> root_index root \<or> root_list ! root_index root \<noteq> None then None
           else fill_root_list n roots (root_list[root_index root := Some root])
      else fill_root_list n roots root_list)"

text \<open>The chain is rebuilt from the array, whose first item is read in any case.\<close>

definition rebuild_roots :: "pnode option list \<Rightarrow> pnode list option" where
  "rebuild_roots root_list = (if root_list = [] then None else those root_list)"

definition sort_threads :: "bool \<Rightarrow> pnode list \<Rightarrow> pnode list option" where
  "sort_threads alloc_ok roots =
     (let n = thread_count roots
      in if \<not> alloc_ok then Some roots
         else case fill_root_list n roots (replicate n None) of
             None \<Rightarrow> Some roots
           | Some root_list \<Rightarrow> rebuild_roots root_list)"

section \<open>Roots for tasks, threads and kernels\<close>

datatype thread_type = LOCATION_TYPE_CPU_THREAD | LOCATION_TYPE_GPU | LOCATION_TYPE_METRIC

text \<open>The number of dense metrics, the region of the program, the time when the measurement began, and the types of
  the locations by the thread root that belongs to them.\<close>

record process_env =
  env_metrics :: nat
  env_program_region :: handle
  env_begin_epoch :: u64
  env_location_type :: "node_data \<Rightarrow> thread_type"

text \<open>The static variables of \<open>scorep_profile_process_tasks\<close>.\<close>

record static_regions =
  threads_region :: handle
  kernels_region :: handle
  tasks_region :: handle

definition merge_inclusive :: "pnode \<Rightarrow> pnode \<Rightarrow> pnode" where
  "merge_inclusive destination source =
     PNode (merge_node_inclusive (pn_data destination) (pn_data source)) (pn_children destination)"

definition set_first_enter_time :: "pnode \<Rightarrow> u64 \<Rightarrow> pnode" where
  "set_first_enter_time node t = PNode ((pn_data node)\<lparr>nd_first_enter_time := t\<rparr>) (pn_children node)"

definition change_root_node ::
    "process_env \<Rightarrow> pnode option \<Rightarrow> handle \<Rightarrow> node_type \<Rightarrow> pnode \<Rightarrow> bool \<Rightarrow> pnode option" where
  "change_root_node env localRootNode rootRegion rootType node addInclusiveTime = do {
     (program_root, artificial_root, rest) \<leftarrow>
       (case localRootNode of
          None \<Rightarrow>
            Some (create_node (env_metrics env) rootType (type_set_region_handle zero_type_data (env_program_region env))
                    (env_begin_epoch env),
                  create_node (env_metrics env) rootType (type_set_region_handle zero_type_data rootRegion) UINT64_MAX, [])
        | Some program_root \<Rightarrow>
            (case pn_children program_root of
               [] \<Rightarrow> None
             | artificial_root # rest \<Rightarrow> Some (program_root, artificial_root, rest)));
     let program_root = (if addInclusiveTime then merge_inclusive program_root node else program_root);
     let artificial_root = merge_inclusive (add_child artificial_root node) node;
     let artificial_root =
       (if nd_first_enter_time (pn_data node) < nd_first_enter_time (pn_data artificial_root)
        then set_first_enter_time artificial_root (nd_first_enter_time (pn_data node)) else artificial_root);
     Some (PNode (pn_data program_root) (artificial_root # rest))
   }"

definition SCOREP_PARADIGM_PTHREAD :: u32 where "SCOREP_PARADIGM_PTHREAD = 9"
definition SCOREP_REGION_ARTIFICIAL :: u32 where "SCOREP_REGION_ARTIFICIAL = 36"

definition RegionHandle_GetParadigmType :: "defs \<Rightarrow> handle \<Rightarrow> u32 option" where
  "RegionHandle_GetParadigmType w h = do {
     d \<leftarrow> deref w 0 h;
     (case content d of Region r \<Rightarrow> Some (region_paradigm r) | _ \<Rightarrow> None)
   }"

text \<open>A region is registered when it is needed for the first time.\<close>

definition artificial_region :: "defs \<Rightarrow> handle \<Rightarrow> string \<Rightarrow> u32 \<Rightarrow> (handle \<times> defs) option" where
  "artificial_region w h name paradigm =
     (if h = 0 then NewRegion w (Some name) None 0 0 0 paradigm SCOREP_REGION_ARTIFICIAL else Some (h, w))"

record local_roots =
  tasks_root :: "pnode option"
  threads_root :: "pnode option"
  kernels_root :: "pnode option"

type_synonym task_process = "local_roots \<times> static_regions \<times> defs"

text \<open>One child of a thread root; the result says whether it stays there.\<close>

definition process_root_child ::
    "process_env \<Rightarrow> thread_type \<Rightarrow> task_process \<Rightarrow> pnode \<Rightarrow> (bool \<times> task_process) option" where
  "process_root_child env lt s node = (case s of (l, regions, w) \<Rightarrow>
     let handle = type_get_region_handle (nd_data (pn_data node))
     in if nd_type (pn_data node) = NODE_REGULAR_REGION \<and> handle \<noteq> env_program_region env
       then case lt of
           LOCATION_TYPE_CPU_THREAD \<Rightarrow> do {
             (h, w) \<leftarrow> artificial_region w (threads_region regions) ''THREADS'' SCOREP_PARADIGM_PTHREAD;
             root \<leftarrow> change_root_node env (threads_root l) h NODE_TASK_ROOT node True;
             Some (False, l\<lparr>threads_root := Some root\<rparr>, regions\<lparr>threads_region := h\<rparr>, w)
           }
         | LOCATION_TYPE_GPU \<Rightarrow> do {
             paradigm \<leftarrow> (if kernels_region regions = 0 then RegionHandle_GetParadigmType w handle else Some 0);
             (h, w) \<leftarrow> artificial_region w (kernels_region regions) ''KERNELS'' paradigm;
             root \<leftarrow> change_root_node env (kernels_root l) h NODE_TASK_ROOT node True;
             Some (False, l\<lparr>kernels_root := Some root\<rparr>, regions\<lparr>kernels_region := h\<rparr>, w)
           }
         | LOCATION_TYPE_METRIC \<Rightarrow> Some (True, s)
       else if nd_type (pn_data node) = NODE_TASK_ROOT
       then do {
         paradigm \<leftarrow> (if tasks_region regions = 0 then RegionHandle_GetParadigmType w handle else Some 0);
         (h, w) \<leftarrow> artificial_region w (tasks_region regions) ''TASKS'' paradigm;
         root \<leftarrow> change_root_node env (tasks_root l) h NODE_TASK_ROOT node False;
         Some (False, l\<lparr>tasks_root := Some root\<rparr>, regions\<lparr>tasks_region := h\<rparr>, w)
       }
       else Some (True, s))"

fun process_root_children ::
    "process_env \<Rightarrow> thread_type \<Rightarrow> task_process \<Rightarrow> pnode list \<Rightarrow> (pnode list \<times> task_process) option" where
  "process_root_children env lt s [] = Some ([], s)"
| "process_root_children env lt s (node # next) = do {
     (stays, s) \<leftarrow> process_root_child env lt s node;
     (kept, s) \<leftarrow> process_root_children env lt s next;
     Some (if stays then node # kept else kept, s)
   }"

definition add_root :: "pnode option \<Rightarrow> pnode list \<Rightarrow> pnode list" where
  "add_root root children = (case root of None \<Rightarrow> children | Some r \<Rightarrow> r # children)"

fun process_task_roots ::
    "process_env \<Rightarrow> static_regions \<times> defs \<Rightarrow> pnode list \<Rightarrow> (pnode list \<times> static_regions \<times> defs) option" where
  "process_task_roots env (regions, w) [] = Some ([], regions, w)"
| "process_task_roots env (regions, w) (PNode d cs # roots) = do {
     (kept, l, regions, w) \<leftarrow> process_root_children env (env_location_type env d)
       (\<lparr>tasks_root = None, threads_root = None, kernels_root = None\<rparr>, regions, w) cs;
     (roots, s) \<leftarrow> process_task_roots env (regions, w) roots;
     Some (PNode d (add_root (kernels_root l) (add_root (threads_root l) (add_root (tasks_root l) kept))) # roots, s)
   }"

definition process_tasks :: "process_env \<Rightarrow> static_regions \<Rightarrow> profile_state \<Rightarrow> (static_regions \<times> profile_state) option" where
  "process_tasks env regions p = do {
     (roots, regions, w) \<leftarrow> process_task_roots env (regions, ps_defs p) (ps_roots p);
     Some (regions, p\<lparr>ps_roots := roots, ps_defs := w\<rparr>)
   }"

section \<open>Callpaths\<close>

text \<open>An error stops the profiling, \<open>scorep_profile_on_error\<close>; writing a core file is left out.\<close>

type_synonym callpath_state = "profile_definition \<times> defs"

definition on_error :: "callpath_state \<Rightarrow> callpath_state" where
  "on_error s = (fst s\<lparr>pr_initialized := False\<rparr>, snd s)"

definition node_parameters :: "parameter_memory \<Rightarrow> node_data \<Rightarrow> handle callpath_parameter list option" where
  "node_parameters mem d = (if td_value (nd_data d) = 0 then Some [] else mem (td_value (nd_data d)))"

definition assign_callpath ::
    "parameter_memory \<Rightarrow> callpath_state \<Rightarrow> node_data option \<Rightarrow> node_data \<Rightarrow> (node_data \<times> callpath_state) option" where
  "assign_callpath mem s parent current =
     (if nd_callpath current \<noteq> 0 then Some (current, s)
      else
        let parent_path = (case parent of
              None \<Rightarrow> 0
            | Some p \<Rightarrow> if nd_type p = NODE_THREAD_ROOT then 0 else nd_callpath p)
        in case nd_type current of
          NODE_THREAD_ROOT \<Rightarrow> Some (current, s)
        | NODE_PARAMETER_STRING \<Rightarrow> Some (current, on_error s)
        | NODE_PARAMETER_INTEGER \<Rightarrow> Some (current, on_error s)
        | NODE_THREAD_START \<Rightarrow> Some (current, on_error s)
        | NODE_COLLAPSE \<Rightarrow> Some (current, on_error s)
        | _ \<Rightarrow> do {
            parameters \<leftarrow> node_parameters mem current;
            (h, w) \<leftarrow> NewCallpath (snd s) (unat parent_path) (type_get_region_handle (nd_data current)) parameters;
            Some (current\<lparr>nd_callpath := of_nat h\<rparr>, fst s, w)
          })"

text \<open>\<open>scorep_profile_for_all\<close> with \<open>assign_callpath\<close>: every node after its parent, in preorder.\<close>

fun assign_subtree :: "parameter_memory \<Rightarrow> callpath_state \<Rightarrow> node_data option \<Rightarrow> pnode \<Rightarrow> (pnode \<times> callpath_state) option"
and assign_children :: "parameter_memory \<Rightarrow> callpath_state \<Rightarrow> node_data option \<Rightarrow> pnode list \<Rightarrow> (pnode list \<times> callpath_state) option"
where
  "assign_subtree mem s parent (PNode d cs) = do {
     (d, s) \<leftarrow> assign_callpath mem s parent d;
     (cs, s) \<leftarrow> assign_children mem s (Some d) cs;
     Some (PNode d cs, s)
   }"
| "assign_children mem s parent [] = Some ([], s)"
| "assign_children mem s parent (c # cs) = do {
     (c, s) \<leftarrow> assign_subtree mem s parent c;
     (cs, s) \<leftarrow> assign_children mem s parent cs;
     Some (c # cs, s)
   }"

text \<open>The node of the master that matches a node is found or made, gets a callpath and is the place where the
  children are matched.\<close>

definition find_match ::
    "nat \<Rightarrow> parameter_memory \<Rightarrow> callpath_state \<Rightarrow> pnode \<Rightarrow> node_data \<Rightarrow> (pnode \<times> pnode list \<times> callpath_state) option" where
  "find_match nm mem s master current =
     (let (m, rest) = find_create_child nm (pn_children master) (nd_type current) (nd_data current) (nd_first_enter_time current)
      in if nd_callpath (pn_data m) = 0
         then do {
           (d, s) \<leftarrow> assign_callpath mem s (Some (pn_data master)) (pn_data m);
           Some (PNode d (pn_children m), rest, s)
         }
         else Some (m, rest, s))"

fun match_callpath :: "nat \<Rightarrow> parameter_memory \<Rightarrow> callpath_state \<Rightarrow> pnode \<Rightarrow> pnode \<Rightarrow> (pnode \<times> pnode \<times> callpath_state) option"
and match_callpaths :: "nat \<Rightarrow> parameter_memory \<Rightarrow> callpath_state \<Rightarrow> pnode \<Rightarrow> pnode list \<Rightarrow> (pnode \<times> pnode list \<times> callpath_state) option"
where
  "match_callpath nm mem s master (PNode current children) = do {
     (m, rest, s) \<leftarrow> find_match nm mem s master current;
     (m, children, s) \<leftarrow> match_callpaths nm mem s m children;
     Some (PNode (pn_data master) (m # rest), PNode (current\<lparr>nd_callpath := nd_callpath (pn_data m)\<rparr>) children, s)
   }"
| "match_callpaths nm mem s master [] = Some (master, [], s)"
| "match_callpaths nm mem s master (child # next) = do {
     (master, child, s) \<leftarrow> match_callpath nm mem s master child;
     (master, next, s) \<leftarrow> match_callpaths nm mem s master next;
     Some (master, child # next, s)
   }"

definition sort_tree :: "pnode list \<Rightarrow> pnode list" where
  "sort_tree roots = map (sort_subtree compare_first_enter_time) roots"

definition assign_callpath_to_master :: "parameter_memory \<Rightarrow> profile_state \<Rightarrow> profile_state option" where
  "assign_callpath_to_master mem p =
     (let p = p\<lparr>ps_roots := sort_tree (ps_roots p)\<rparr>
      in case ps_roots p of
          [] \<Rightarrow> Some p
        | master # threads \<Rightarrow> do {
            assertC (is_thread_root master);
            (if pn_children master = [] then Some p
             else do {
               (master, d, w) \<leftarrow> assign_subtree mem (ps_definition p, ps_defs p) None master;
               Some (p\<lparr>ps_roots := master # threads, ps_definition := d, ps_defs := w\<rparr>)
             })
          })"

fun match_threads :: "nat \<Rightarrow> parameter_memory \<Rightarrow> callpath_state \<Rightarrow> pnode \<Rightarrow> pnode list \<Rightarrow> (pnode \<times> pnode list \<times> callpath_state) option" where
  "match_threads nm mem s master [] = Some (master, [], s)"
| "match_threads nm mem s master (PNode d cs # threads) = do {
     (master, cs, s) \<leftarrow> match_callpaths nm mem s master cs;
     (master, threads, s) \<leftarrow> match_threads nm mem s master threads;
     Some (master, PNode d cs # threads, s)
   }"

definition assign_callpath_to_workers :: "nat \<Rightarrow> parameter_memory \<Rightarrow> profile_state \<Rightarrow> profile_state option" where
  "assign_callpath_to_workers nm mem p =
     (case ps_roots p of
        [] \<Rightarrow> Some p
      | master # threads \<Rightarrow> do {
          (master, threads, d, w) \<leftarrow> match_threads nm mem (ps_definition p, ps_defs p) master threads;
          Some (p\<lparr>ps_roots := master # threads, ps_definition := d, ps_defs := w\<rparr>)
        })"

end
