(* ===== verification/Scorep_Profile_Callpaths.thy ===== *)
theory Scorep_Profile_Callpaths
  imports Scorep_Profile_Process
begin

text \<open>
  The callpath handles that \<open>scorep_profile_callpath.c\<close> gives to the nodes identify the callpaths: in all
  threads two nodes have the same handle exactly when the paths to them are the same.
\<close>

section \<open>New callpaths\<close>

definition derefs_kept :: "defs \<Rightarrow> defs \<Rightarrow> bool" where
  "derefs_kept w w' \<longleftrightarrow> (\<forall>h d. deref w 0 h = Some d \<longrightarrow> deref w' 0 h = Some d)"

lemma derefs_kept_refl [simp]: "derefs_kept w w"
  by (simp add: derefs_kept_def)

lemma derefs_kept_trans: "derefs_kept u v \<Longrightarrow> derefs_kept v w \<Longrightarrow> derefs_kept u w"
  by (simp add: derefs_kept_def)

definition no_callpath_table :: "defs \<Rightarrow> bool" where
  "no_callpath_table w \<longleftrightarrow> hash_table (local_manager w KCallpath) = None"

definition callpath_at :: "defs \<Rightarrow> handle \<Rightarrow> handle \<Rightarrow> handle \<Rightarrow> handle callpath_parameter list \<Rightarrow> bool" where
  "callpath_at w h parent region ps \<longleftrightarrow> (\<exists>e. deref w 0 h = Some e \<and> content e = Callpath (CallpathDef parent region ps))"

lemma callpath_at_kept: "callpath_at w h p r ps \<Longrightarrow> derefs_kept w w' \<Longrightarrow> callpath_at w' h p r ps"
  by (auto simp: callpath_at_def derefs_kept_def)

lemma hash_items_from_more: "hash_items_from w xs v = Some r \<Longrightarrow> derefs_kept w w' \<Longrightarrow> hash_items_from w' xs v = Some r"
  by (induction w xs v rule: hash_items_from.induct) (auto simp: bind_Some_iff derefs_kept_def)

lemma hash_items_from_any: "hash_items_from w xs v \<noteq> None \<Longrightarrow> hash_items_from w xs v' \<noteq> None"
proof (induction xs arbitrary: v v')
  case (Cons x xs)
  then show ?case by (cases x) (auto simp: bind_eq_None_conv bind_Some_iff)
qed simp

lemma hash_callpath_parameters_kept:
  "hash_callpath_parameters w ps = Some xs \<Longrightarrow> derefs_kept w w' \<Longrightarrow> hash_callpath_parameters w' ps = Some xs"
proof (induction ps arbitrary: xs)
  case (Cons p ps)
  have "hash_callpath_parameter w p = Some x \<Longrightarrow> hash_callpath_parameter w' p = Some x" for x
    using Cons.prems(2)
    by (auto simp: hash_callpath_parameter_def get_parameter_type_def bind_Some_iff derefs_kept_def split: if_splits)
  then show ?case using Cons by (auto simp: bind_Some_iff)
qed simp

text \<open>The members of the definition of a callpath can be hashed.\<close>

definition hashable :: "defs \<Rightarrow> handle \<Rightarrow> handle callpath_parameter list \<Rightarrow> bool" where
  "hashable w region ps \<longleftrightarrow> hash_content w (Callpath (CallpathDef 0 region ps)) \<noteq> None"

lemma hashable_kept: "hashable w r ps \<Longrightarrow> derefs_kept w w' \<Longrightarrow> hashable w' r ps"
  by (auto simp: hashable_def hash_content_def hash_items_def initialize_callpath_def bind_Some_iff
      dest: hash_callpath_parameters_kept hash_items_from_more)

lemma hashable_parent:
  assumes "hashable w r ps" "p = 0 \<or> deref w 0 p \<noteq> None"
  shows "\<exists>v. hash_content w (Callpath (CallpathDef p r ps)) = Some v"
proof -
  obtain xs v where xs: "hash_callpath_parameters w ps = Some xs"
    "hash_items_from w (sub_if_valid r @ [pod32 (of_nat (length ps))] @ xs) 0 = Some v"
    using assms(1) by (auto simp: hashable_def hash_content_def hash_items_def initialize_callpath_def bind_Some_iff sub_if_valid_def [of 0])
  show ?thesis
  proof (cases "p = 0")
    case True
    then show ?thesis using assms(1) by (auto simp: hashable_def)
  next
    case False
    then obtain d where d: "deref w 0 p = Some d" using assms(2) by auto
    obtain v' where "hash_items_from w (sub_if_valid r @ [pod32 (of_nat (length ps))] @ xs) (jenkins_hashword [def_hash d] 0) = Some v'"
      using hash_items_from_any [of w _ 0] xs(2) by blast
    then show ?thesis using xs(1) d False
      by (simp add: hash_content_def hash_items_def initialize_callpath_def sub_if_valid_def [of p])
  qed
qed

lemma NewCallpath_result:
  assumes t: "no_callpath_table w" and h: "hashable w r ps" "p = 0 \<or> deref w 0 p \<noteq> None"
  shows "\<exists>w'. NewCallpath w p r ps = Some (Suc (length (memory w 0)), w') \<and> no_callpath_table w' \<and> derefs_kept w w' \<and>
    length (memory w' 0) = Suc (length (memory w 0)) \<and> callpath_at w' (Suc (length (memory w 0))) p r ps"
proof -
  let ?c = "Callpath (CallpathDef p r ps)" and ?n = "Suc (length (memory w 0))"
  obtain v where v: "hash_content w ?c = Some v" using hashable_parent [OF h] by blast
  let ?d = "(init_header ?c)\<lparr>def_hash := v\<rparr>"
  have m: "get_manager w LocalManager = Some (local_manager w)" by (simp add: get_manager_def)
  have k: "kind_of ?c = KCallpath" by (simp add: kind_of_def)
  have e: "bucket_of (local_manager w KCallpath) x = []" for x
    using t by (simp add: bucket_of_def no_callpath_table_def)
  let ?w = "added w LocalManager KCallpath (local_manager w) ?d"
  have "add_to_entry w LocalManager KCallpath same_definition ?d = Some (?n, True, ?w)"
    by (rule add_to_entry_new [OF m]) (simp add: e)
  then have "NewCallpath w p r ps = Some (?n, ?w)"
    by (simp add: NewCallpath_def define_callpath_def define_silent_def add_definition_def v k)
  moreover have "no_callpath_table ?w"
    using t by (simp add: no_callpath_table_def local_manager_linked)
  moreover have "derefs_kept w ?w" by (auto simp: derefs_kept_def deref_linked deref_valid)
  moreover have "length (memory ?w 0) = ?n" by (simp add: linked_def set_manager_def)
  moreover have "callpath_at ?w ?n p r ps" by (simp add: callpath_at_def deref_linked init_header_def)
  ultimately show ?thesis by blast
qed

section \<open>Labelled trees\<close>

definition callpath_type :: "node_type \<Rightarrow> bool" where
  "callpath_type t \<longleftrightarrow> t = NODE_REGULAR_REGION \<or> t = NODE_TASK_ROOT"

definition node_region :: "node_data \<Rightarrow> handle" where
  "node_region d = type_get_region_handle (nd_data d)"

text \<open>What a node needs to get a callpath, and that it has one.\<close>

definition ready_data :: "parameter_memory \<Rightarrow> defs \<Rightarrow> node_data \<Rightarrow> bool" where
  "ready_data mem w d \<longleftrightarrow> callpath_type (nd_type d) \<and> (\<exists>ps. node_parameters mem d = Some ps \<and> hashable w (node_region d) ps)"

fun ready :: "parameter_memory \<Rightarrow> defs \<Rightarrow> pnode \<Rightarrow> bool" where
  "ready mem w (PNode d cs) \<longleftrightarrow> ready_data mem w d \<and> nd_callpath d = 0 \<and> (\<forall>c \<in> set cs. ready mem w c)"

definition labelled_data :: "parameter_memory \<Rightarrow> defs \<Rightarrow> u32 \<Rightarrow> node_data \<Rightarrow> bool" where
  "labelled_data mem w p d \<longleftrightarrow> callpath_type (nd_type d) \<and> nd_callpath d \<noteq> 0 \<and>
     (\<exists>ps. node_parameters mem d = Some ps \<and> callpath_at w (unat (nd_callpath d)) (unat p) (node_region d) ps)"

fun labelled :: "parameter_memory \<Rightarrow> defs \<Rightarrow> u32 \<Rightarrow> pnode \<Rightarrow> bool" where
  "labelled mem w p (PNode d cs) \<longleftrightarrow> labelled_data mem w p d \<and> (\<forall>c \<in> set cs. labelled mem w (nd_callpath d) c)"

fun handles :: "pnode \<Rightarrow> u32 list" where
  "handles (PNode d cs) = nd_callpath d # concat (map handles cs)"

fun nodes :: "pnode \<Rightarrow> nat" where
  "nodes (PNode d cs) = Suc (sum_list (map nodes cs))"

definition clear_callpaths :: "pnode \<Rightarrow> pnode" where
  "clear_callpaths = map_node (\<lambda>d. d\<lparr>nd_callpath := 0\<rparr>)"

fun node_callpaths :: "node_key list \<Rightarrow> pnode \<Rightarrow> (node_key list \<times> u32) list" where
  "node_callpaths path (PNode d cs) =
     (path @ [node_key d], nd_callpath d) # concat (map (node_callpaths (path @ [node_key d])) cs)"

lemma ready_data_kept: "ready_data mem w d \<Longrightarrow> derefs_kept w w' \<Longrightarrow> ready_data mem w' d"
  using hashable_kept by (auto simp: ready_data_def)

lemma ready_kept: "ready mem w n \<Longrightarrow> derefs_kept w w' \<Longrightarrow> ready mem w' n"
  by (induction n) (auto intro: ready_data_kept)

lemma labelled_data_kept: "labelled_data mem w p d \<Longrightarrow> derefs_kept w w' \<Longrightarrow> labelled_data mem w' p d"
  using callpath_at_kept by (auto simp: labelled_data_def)

lemma labelled_kept: "labelled mem w p n \<Longrightarrow> derefs_kept w w' \<Longrightarrow> labelled mem w' p n"
  by (induction n arbitrary: p) (auto intro: labelled_data_kept)

lemma callpath_at_valid: "callpath_at w h p r ps \<Longrightarrow> deref w 0 h \<noteq> None \<and> h \<le> length (memory w 0)"
  by (auto simp: callpath_at_def deref_valid)

lemma key_callpath [simp]: "node_key (d\<lparr>nd_callpath := h\<rparr>) = node_key d"
  by (cases "nd_type d") (simp_all add: node_key_def)

lemma key_clear [simp]: "key_of (clear_callpaths n) = key_of n"
  by (cases n) (simp add: clear_callpaths_def)

lemma wf_clear: "wf_node (clear_callpaths n) = wf_node n"
  unfolding clear_callpaths_def
proof (induction n)
  case (PNode d cs)
  let ?f = "map_node (\<lambda>d. d\<lparr>nd_callpath := 0\<rparr>)"
  have k: "map (\<lambda>c. key_of (?f c)) cs = map key_of cs"
    using key_clear unfolding clear_callpaths_def by (intro map_cong) simp_all
  have "(\<forall>c \<in> set cs. wf_node (?f c)) = (\<forall>c \<in> set cs. wf_node c)" using PNode by simp
  then show ?case by (simp only: map_node.simps wf_node.simps list.set_map ball_simps map_map comp_def k)
qed

lemma map_fst_callpaths:
  "concat (map (\<lambda>c. map fst (node_callpaths path c)) cs) = map fst (concat (map (node_callpaths path) cs))"
  by (simp add: map_concat comp_def)

lemma snd_callpaths: "map snd (node_callpaths path n) = handles n"
proof (induction n arbitrary: path)
  case (PNode d cs)
  have "map (\<lambda>c. map snd (node_callpaths (path @ [node_key d]) c)) cs = map handles cs"
    using PNode by simp
  then show ?case by (simp only: node_callpaths.simps handles.simps list.map snd_conv map_concat map_map comp_def)
qed

lemma paths_under: "(p, h) \<in> set (node_callpaths path n) \<Longrightarrow> \<exists>q. p = path @ key_of n # q"
proof (induction n arbitrary: path p h)
  case (PNode d cs)
  show ?case
  proof (cases "p = path @ [node_key d]")
    case False
    then obtain c where c: "c \<in> set cs" "(p, h) \<in> set (node_callpaths (path @ [node_key d]) c)"
      using PNode.prems by auto
    obtain q where "p = (path @ [node_key d]) @ key_of c # q" using PNode.IH [OF c] by blast
    then show ?thesis by simp
  qed simp
qed

text \<open>Siblings have different keys, so no path occurs twice.\<close>

lemma forest_paths_distinct:
  assumes "distinct (map key_of cs)" "\<And>c. c \<in> set cs \<Longrightarrow> distinct (map fst (node_callpaths path c))"
  shows "distinct (map fst (concat (map (node_callpaths path) cs)))"
  using assms
proof (induction cs)
  case (Cons c cs)
  have "p \<notin> set (map fst (concat (map (node_callpaths path) cs)))" if p: "p \<in> set (map fst (node_callpaths path c))" for p
  proof
    assume "p \<in> set (map fst (concat (map (node_callpaths path) cs)))"
    then obtain c' where c': "c' \<in> set cs" "p \<in> set (map fst (node_callpaths path c'))" by auto
    obtain h h' where "(p, h) \<in> set (node_callpaths path c)" "(p, h') \<in> set (node_callpaths path c')"
      using p c'(2) by auto
    then obtain q q' where "p = path @ key_of c # q" "p = path @ key_of c' # q'" using paths_under by blast
    then have "key_of c = key_of c'" by simp
    then show False using Cons.prems(1) c'(1) by auto
  qed
  moreover have "distinct (map fst (concat (map (node_callpaths path) cs)))" "distinct (map fst (node_callpaths path c))"
    using Cons by simp_all
  ultimately show ?case by auto
qed simp

lemma paths_distinct: "wf_node n \<Longrightarrow> distinct (map fst (node_callpaths path n))"
proof (induction n arbitrary: path)
  case (PNode d cs)
  let ?path = "path @ [node_key d]"
  have "distinct (map fst (concat (map (node_callpaths ?path) cs)))"
    by (rule forest_paths_distinct) (use PNode in auto)
  moreover have "?path \<notin> set (map fst (concat (map (node_callpaths ?path) cs)))"
  proof
    assume "?path \<in> set (map fst (concat (map (node_callpaths ?path) cs)))"
    then obtain c h where "(?path, h) \<in> set (node_callpaths ?path c)" by auto
    from paths_under [OF this] show False by simp
  qed
  ultimately show ?case by simp
qed

lemma wf_paths_distinct: "wf_children cs \<Longrightarrow> distinct (map fst (concat (map (node_callpaths path) cs)))"
  by (rule forest_paths_distinct) (auto simp: wf_children_def paths_distinct)

lemma snd_forest_callpaths: "map snd (concat (map (node_callpaths path) cs)) = concat (map handles cs)"
  by (simp add: map_concat comp_def snd_callpaths)

section \<open>Labelling a tree\<close>

definition defs_step :: "defs \<Rightarrow> defs \<Rightarrow> nat \<Rightarrow> bool" where
  "defs_step w w' n \<longleftrightarrow> no_callpath_table w' \<and> derefs_kept w w' \<and> length (memory w' 0) = length (memory w 0) + n"

lemma defs_step_trans: "defs_step u v m \<Longrightarrow> defs_step v w n \<Longrightarrow> defs_step u w (m + n)"
  by (auto simp: defs_step_def intro: derefs_kept_trans)

lemma defs_step_0: "no_callpath_table w \<Longrightarrow> defs_step w w 0"
  by (simp add: defs_step_def)

definition fresh_handles :: "defs \<Rightarrow> defs \<Rightarrow> u32 list \<Rightarrow> bool" where
  "fresh_handles w w' hs \<longleftrightarrow> distinct hs \<and> (\<forall>h \<in> set hs. length (memory w 0) < unat h \<and> unat h \<le> length (memory w' 0))"

lemma fresh_append:
  assumes "fresh_handles u v xs" "fresh_handles v w ys" "defs_step u v m" "defs_step v w n"
  shows "fresh_handles u w (xs @ ys)"
  using assms by (fastforce simp: fresh_handles_def defs_step_def)

definition parent_handle :: "node_data option \<Rightarrow> u32" where
  "parent_handle parent =
     (case parent of None \<Rightarrow> 0 | Some p \<Rightarrow> if nd_type p = NODE_THREAD_ROOT then 0 else nd_callpath p)"

definition valid_handle :: "defs \<Rightarrow> u32 \<Rightarrow> bool" where
  "valid_handle w h \<longleftrightarrow> h = 0 \<or> deref w 0 (unat h) \<noteq> None"

lemma valid_handle_kept: "valid_handle w h \<Longrightarrow> derefs_kept w w' \<Longrightarrow> valid_handle w' h"
  by (auto simp: valid_handle_def derefs_kept_def)

lemma labelled_valid: "labelled_data mem w p d \<Longrightarrow> valid_handle w (nd_callpath d) \<and> unat (nd_callpath d) \<le> length (memory w 0)"
  using callpath_at_valid by (fastforce simp: labelled_data_def valid_handle_def)

lemma labelled_parent: "labelled_data mem w p d \<Longrightarrow> parent_handle (Some d) = nd_callpath d"
  by (auto simp: labelled_data_def parent_handle_def callpath_type_def)

lemma assign_callpath_ready:
  assumes rd: "ready_data mem w d" "nd_callpath d = 0" and t: "no_callpath_table w"
    and p: "valid_handle w (parent_handle parent)" and len: "Suc (length (memory w 0)) < 2 ^ 32"
  shows "\<exists>w' h. assign_callpath mem (x, w) parent d = Some (d\<lparr>nd_callpath := h\<rparr>, x, w') \<and> defs_step w w' 1 \<and>
    fresh_handles w w' [h] \<and> labelled_data mem w' (parent_handle parent) (d\<lparr>nd_callpath := h\<rparr>)"
proof -
  obtain ps where ps: "node_parameters mem d = Some ps" "hashable w (node_region d) ps" "callpath_type (nd_type d)"
    using rd(1) by (auto simp: ready_data_def)
  have "unat (parent_handle parent) = 0 \<or> deref w 0 (unat (parent_handle parent)) \<noteq> None"
    using p by (auto simp: valid_handle_def)
  from NewCallpath_result [OF t ps(2) this] obtain w' where
    w': "NewCallpath w (unat (parent_handle parent)) (node_region d) ps = Some (Suc (length (memory w 0)), w')"
      "no_callpath_table w'" "derefs_kept w w'" "length (memory w' 0) = Suc (length (memory w 0))"
      "callpath_at w' (Suc (length (memory w 0))) (unat (parent_handle parent)) (node_region d) ps" by blast
  let ?h = "of_nat (Suc (length (memory w 0))) :: u32"
  have u: "unat ?h = Suc (length (memory w 0))" unfolding unat_of_nat using len by simp
  have nz: "?h \<noteq> 0" using u by (metis nat.distinct(1) unat_0)
  have "assign_callpath mem (x, w) parent d = Some (d\<lparr>nd_callpath := ?h\<rparr>, x, w')"
    using rd(2) ps(1,3) w'(1)
    by (auto simp: assign_callpath_def Let_def callpath_type_def parent_handle_def [symmetric] node_region_def)
  moreover have "labelled_data mem w' (parent_handle parent) (d\<lparr>nd_callpath := ?h\<rparr>)"
    using ps w'(5) u nz by (auto simp: labelled_data_def node_parameters_def node_region_def)
  moreover have "fresh_handles w w' [?h]" using u w'(4) by (simp add: fresh_handles_def)
  moreover have "defs_step w w' 1" using w' by (simp add: defs_step_def)
  ultimately show ?thesis by blast
qed

text \<open>\<open>assign_subtree\<close> gives every node of a tree a new handle.\<close>

definition assigned :: "parameter_memory \<Rightarrow> defs \<Rightarrow> u32 \<Rightarrow> pnode list \<Rightarrow> defs \<Rightarrow> pnode list \<Rightarrow> bool" where
  "assigned mem w p cs w' cs' \<longleftrightarrow> defs_step w w' (sum_list (map nodes cs)) \<and> (\<forall>c \<in> set cs'. labelled mem w' p c) \<and>
     fresh_handles w w' (concat (map handles cs')) \<and> map clear_callpaths cs' = cs"

lemma assigned_Cons:
  assumes a: "assigned mem w p [c] u [c']" and b: "assigned mem u p cs v cs'"
  shows "assigned mem w p (c # cs) v (c' # cs')"
proof -
  have "derefs_kept u v" using b by (simp add: assigned_def defs_step_def)
  then have "labelled mem v p c'" using a labelled_kept by (auto simp: assigned_def)
  moreover have "fresh_handles w v (handles c' @ concat (map handles cs'))"
    by (rule fresh_append [of w u _ v]) (use a b in \<open>auto simp: assigned_def\<close>)
  moreover have "defs_step w v (nodes c + sum_list (map nodes cs))"
    by (rule defs_step_trans [of w u]) (use a b in \<open>auto simp: assigned_def\<close>)
  ultimately show ?thesis using a b by (simp add: assigned_def)
qed

lemma assign_children_ready:
  assumes "\<And>c w. c \<in> set cs \<Longrightarrow> ready mem w c \<Longrightarrow> no_callpath_table w \<Longrightarrow> valid_handle w (parent_handle parent) \<Longrightarrow>
      length (memory w 0) + nodes c < 2 ^ 32 \<Longrightarrow>
      \<exists>c' w'. assign_subtree mem (x, w) parent c = Some (c', x, w') \<and> assigned mem w (parent_handle parent) [c] w' [c']"
    and "\<forall>c \<in> set cs. ready mem w c" "no_callpath_table w" "valid_handle w (parent_handle parent)"
    and "length (memory w 0) + sum_list (map nodes cs) < 2 ^ 32"
  shows "\<exists>cs' w'. assign_children mem (x, w) parent cs = Some (cs', x, w') \<and> assigned mem w (parent_handle parent) cs w' cs'"
  using assms
proof (induction cs arbitrary: w)
  case Nil
  then show ?case by (simp add: assigned_def defs_step_0 fresh_handles_def)
next
  case (Cons c cs)
  obtain c' u where u: "assign_subtree mem (x, w) parent c = Some (c', x, u)" "assigned mem w (parent_handle parent) [c] u [c']"
    using Cons.prems(1) [of c w] Cons.prems(2-5) by auto
  then have k: "derefs_kept w u" "no_callpath_table u" "length (memory u 0) = length (memory w 0) + nodes c"
    by (auto simp: assigned_def defs_step_def)
  have "\<exists>cs' v. assign_children mem (x, u) parent cs = Some (cs', x, v) \<and> assigned mem u (parent_handle parent) cs v cs'"
  proof (rule Cons.IH)
    show "\<exists>c' w'. assign_subtree mem (x, w) parent d = Some (c', x, w') \<and> assigned mem w (parent_handle parent) [d] w' [c']"
      if "d \<in> set cs" "ready mem w d" "no_callpath_table w" "valid_handle w (parent_handle parent)"
        "length (memory w 0) + nodes d < 2 ^ 32" for d w
      using Cons.prems(1) that by simp
  qed (use Cons.prems k ready_kept valid_handle_kept in auto)
  then show ?case using u assigned_Cons by fastforce
qed

lemma assign_subtree_ready:
  assumes "ready mem w n" "no_callpath_table w" "valid_handle w (parent_handle parent)" "length (memory w 0) + nodes n < 2 ^ 32"
  shows "\<exists>n' w'. assign_subtree mem (x, w) parent n = Some (n', x, w') \<and> assigned mem w (parent_handle parent) [n] w' [n']"
  using assms
proof (induction n arbitrary: w parent)
  case (PNode d cs)
  let ?p = "parent_handle parent"
  obtain u h where u: "assign_callpath mem (x, w) parent d = Some (d\<lparr>nd_callpath := h\<rparr>, x, u)" "defs_step w u 1"
    "fresh_handles w u [h]" "labelled_data mem u ?p (d\<lparr>nd_callpath := h\<rparr>)"
    using assign_callpath_ready [of mem w d parent x] PNode.prems by auto
  have k: "derefs_kept w u" "no_callpath_table u" "length (memory u 0) = Suc (length (memory w 0))"
    using u(2) by (auto simp: defs_step_def)
  let ?d = "d\<lparr>nd_callpath := h\<rparr>"
  have ph: "parent_handle (Some ?d) = h" using labelled_parent [OF u(4)] by simp
  have "\<exists>cs' v. assign_children mem (x, u) (Some ?d) cs = Some (cs', x, v) \<and> assigned mem u (parent_handle (Some ?d)) cs v cs'"
  proof (rule assign_children_ready)
    show "\<forall>c \<in> set cs. ready mem u c" using PNode.prems(1) k(1) ready_kept by auto
    show "valid_handle u (parent_handle (Some ?d))" using labelled_valid [OF u(4)] ph by simp
  qed (use PNode.IH PNode.prems k in auto)
  then obtain cs' v where v: "assign_children mem (x, u) (Some ?d) cs = Some (cs', x, v)" "assigned mem u h cs v cs'"
    unfolding ph by blast
  have kv: "derefs_kept u v" using v(2) by (simp add: assigned_def defs_step_def)
  have "labelled mem v ?p (PNode ?d cs')" using labelled_data_kept [OF u(4) kv] v(2) by (simp add: assigned_def)
  moreover have "fresh_handles w v ([h] @ concat (map handles cs'))"
    by (rule fresh_append [OF u(3) _ u(2)]) (use v(2) in \<open>auto simp: assigned_def\<close>)
  moreover have "defs_step w v (1 + sum_list (map nodes cs))"
    by (rule defs_step_trans [OF u(2)]) (use v(2) in \<open>simp add: assigned_def\<close>)
  moreover have "clear_callpaths (PNode ?d cs') = PNode d cs"
    using v(2) PNode.prems(1) by (simp add: assigned_def clear_callpaths_def)
  ultimately have "assigned mem w ?p [PNode d cs] v [PNode ?d cs']" by (simp add: assigned_def)
  then show ?case using u(1) v(1) by simp
qed

section \<open>Matching with the master\<close>

definition forest_handles :: "pnode list \<Rightarrow> u32 list" where
  "forest_handles cs = concat (map handles cs)"

definition callpaths_of :: "node_key list \<Rightarrow> pnode list \<Rightarrow> (node_key list \<times> u32) set" where
  "callpaths_of path cs = set (concat (map (node_callpaths path) cs))"

lemma callpaths_of_simps [simp]:
  "callpaths_of path [] = {}" "callpaths_of path (c # cs) = set (node_callpaths path c) \<union> callpaths_of path cs"
  by (simp_all add: callpaths_of_def)

lemma callpaths_of_node:
  "set (node_callpaths path (PNode d cs)) = insert (path @ [node_key d], nd_callpath d) (callpaths_of (path @ [node_key d]) cs)"
  by (simp add: callpaths_of_def)

definition good_forest :: "parameter_memory \<Rightarrow> defs \<Rightarrow> u32 \<Rightarrow> pnode list \<Rightarrow> bool" where
  "good_forest mem w p cs \<longleftrightarrow> wf_children cs \<and> (\<forall>c \<in> set cs. labelled mem w p c) \<and> distinct (forest_handles cs) \<and>
     (\<forall>h \<in> set (forest_handles cs). unat h \<le> length (memory w 0))"

definition good_master :: "parameter_memory \<Rightarrow> defs \<Rightarrow> pnode \<Rightarrow> bool" where
  "good_master mem w m \<longleftrightarrow> no_callpath_table w \<and> valid_handle w (parent_handle (Some (pn_data m))) \<and>
     good_forest mem w (parent_handle (Some (pn_data m))) (pn_children m)"

text \<open>The master after nodes were matched: the old nodes keep their handles and the handles of new ones are new.\<close>

definition matched :: "parameter_memory \<Rightarrow> defs \<Rightarrow> pnode \<Rightarrow> defs \<Rightarrow> pnode \<Rightarrow> nat \<Rightarrow> bool" where
  "matched mem w m w' m' n \<longleftrightarrow> pn_data m' = pn_data m \<and> good_master mem w' m' \<and> derefs_kept w w' \<and>
     length (memory w 0) \<le> length (memory w' 0) \<and> length (memory w' 0) \<le> length (memory w 0) + n \<and>
     set (forest_handles (pn_children m')) \<subseteq> set (forest_handles (pn_children m)) \<union> {h. length (memory w 0) < unat h} \<and>
     (\<forall>path. callpaths_of path (pn_children m) \<subseteq> callpaths_of path (pn_children m'))"

lemma matched_trans:
  assumes a: "matched mem w m u m1 k" and b: "matched mem u m1 v m2 n"
  shows "matched mem w m v m2 (k + n)"
proof -
  have "set (forest_handles (pn_children m2)) \<subseteq> set (forest_handles (pn_children m1)) \<union> {h. length (memory u 0) < unat h}"
    using b by (simp add: matched_def)
  also have "\<dots> \<subseteq> set (forest_handles (pn_children m)) \<union> {h. length (memory w 0) < unat h}"
    using a by (auto simp: matched_def)
  finally have h: "set (forest_handles (pn_children m2)) \<subseteq> set (forest_handles (pn_children m)) \<union> {h. length (memory w 0) < unat h}" .
  have "\<forall>path. callpaths_of path (pn_children m) \<subseteq> callpaths_of path (pn_children m2)"
    using a b by (meson matched_def subset_trans)
  then show ?thesis using a b h derefs_kept_trans by (auto simp: matched_def)
qed

lemma matched_refl: "good_master mem w m \<Longrightarrow> matched mem w m w m 0"
  by (auto simp: matched_def)

lemma find_create_cases:
  assumes "find_create_child nm cs type data ts = (c, rest)"
  shows "c = create_node nm type data ts \<and> rest = cs \<or> mset (c # rest) = mset cs"
proof (cases "unchain (\<lambda>child. nd_type (pn_data child) = type \<and> compare_type_data data (nd_data (pn_data child)) type) cs")
  case None
  then show ?thesis using assms by (simp add: find_create_child_def)
next
  case (Some t)
  then have "unchain (\<lambda>child. nd_type (pn_data child) = type \<and> compare_type_data data (nd_data (pn_data child)) type) cs = Some (c, rest)"
    using assms by (cases t) (simp add: find_create_child_def)
  from unchain_Some [OF this] show ?thesis by auto
qed

lemma type_key_node: "type_key (nd_type d) (nd_data d) = node_key d"
  by (cases "nd_type d") (simp_all add: type_key_def create_node_def node_key_def)

lemma forest_handles_mset: "mset cs = mset ds \<Longrightarrow> mset (forest_handles cs) = mset (forest_handles ds)"
  unfolding forest_handles_def mset_concat by (metis mset_map sum_mset_sum_list)

lemma good_forest_permuted:
  assumes "good_forest mem w p cs" "mset ds = mset cs" "wf_children ds"
  shows "good_forest mem w p ds" "set (forest_handles ds) = set (forest_handles cs)" "callpaths_of path ds = callpaths_of path cs"
proof -
  have s: "set ds = set cs" using assms(2) by (metis set_mset_mset)
  have m: "mset (forest_handles ds) = mset (forest_handles cs)" by (rule forest_handles_mset [OF assms(2)])
  then show h: "set (forest_handles ds) = set (forest_handles cs)" by (metis set_mset_mset)
  have "distinct (forest_handles ds)" using m assms(1) mset_eq_imp_distinct_iff by (auto simp: good_forest_def)
  then show "good_forest mem w p ds" using assms(1,3) s h by (simp add: good_forest_def)
  show "callpaths_of path ds = callpaths_of path cs" using s by (simp add: callpaths_of_def)
qed

lemma find_match_ready:
  assumes m: "good_master mem w M" and rd: "ready_data mem w d" and len: "Suc (length (memory w 0)) < 2 ^ 32"
  shows "\<exists>c rest w'. find_match nm mem (x, w) M d = Some (c, rest, x, w') \<and> key_of c = node_key d \<and>
    matched mem w M w' (PNode (pn_data M) (c # rest)) 1"
proof -
  let ?p = "parent_handle (Some (pn_data M))"
  have g: "good_forest mem w ?p (pn_children M)" "no_callpath_table w" "valid_handle w ?p"
    using m by (simp_all add: good_master_def)
  obtain c rest where fc: "find_create_child nm (pn_children M) (nd_type d) (nd_data d) (nd_first_enter_time d) = (c, rest)"
    by (cases "find_create_child nm (pn_children M) (nd_type d) (nd_data d) (nd_first_enter_time d)")
  have wf: "wf_children (pn_children M)" using g(1) by (simp add: good_forest_def)
  note sp = find_create_child_spec(1,2) [OF wf fc, unfolded type_key_node]
  show ?thesis
  proof (cases "mset (c # rest) = mset (pn_children M)")
    case True
    note gp = good_forest_permuted [OF g(1) True sp(2)]
    have "labelled mem w ?p c" using gp(1) by (simp add: good_forest_def)
    then have "nd_callpath (pn_data c) \<noteq> 0" by (cases c) (simp add: labelled_data_def)
    then have "find_match nm mem (x, w) M d = Some (c, rest, x, w)" by (simp add: find_match_def fc)
    moreover have "matched mem w M w (PNode (pn_data M) (c # rest)) 1"
      using gp g(2,3) unfolding matched_def good_master_def by (simp del: callpaths_of_simps)
    ultimately show ?thesis using sp(1) by blast
  next
    case False
    then have c: "c = create_node nm (nd_type d) (nd_data d) (nd_first_enter_time d)" "rest = pn_children M"
      using find_create_cases [OF fc] by simp_all
    have cd: "nd_callpath (pn_data c) = 0" "pn_children c = []" by (simp_all add: c create_node_def)
    have "ready_data mem w (pn_data c)"
      using rd by (auto simp: c create_node_def ready_data_def node_region_def node_parameters_def split: if_splits)
    from assign_callpath_ready [OF this cd(1) g(2,3) len] obtain w' h where
      w': "assign_callpath mem (x, w) (Some (pn_data M)) (pn_data c) = Some ((pn_data c)\<lparr>nd_callpath := h\<rparr>, x, w')"
        "defs_step w w' 1" "fresh_handles w w' [h]" "labelled_data mem w' ?p ((pn_data c)\<lparr>nd_callpath := h\<rparr>)" by blast
    let ?c = "PNode ((pn_data c)\<lparr>nd_callpath := h\<rparr>) []"
    have k: "derefs_kept w w'" "no_callpath_table w'" "length (memory w' 0) = Suc (length (memory w 0))"
      using w'(2) by (simp_all add: defs_step_def)
    have h: "length (memory w 0) < unat h" "unat h \<le> length (memory w' 0)" using w'(3) by (simp_all add: fresh_handles_def)
    have key: "key_of ?c = node_key d" using sp(1) by simp
    have "wf_children (?c # rest)" using sp key by (simp add: wf_children_def)
    moreover have "\<forall>n \<in> set (?c # rest). labelled mem w' ?p n"
      using w'(4) g(1) c(2) labelled_kept [OF _ k(1)] by (simp add: good_forest_def)
    moreover have fh: "forest_handles (?c # rest) = h # forest_handles (pn_children M)" by (simp add: forest_handles_def c(2))
    moreover have "distinct (h # forest_handles (pn_children M))" using g(1) h by (fastforce simp: good_forest_def)
    moreover have "\<forall>h' \<in> set (h # forest_handles (pn_children M)). unat h' \<le> length (memory w' 0)"
      using g(1) h k(3) by (fastforce simp: good_forest_def)
    ultimately have "good_forest mem w' ?p (?c # rest)" by (simp add: good_forest_def)
    then have "matched mem w M w' (PNode (pn_data M) (?c # rest)) 1"
      using k h g(3) fh valid_handle_kept c(2) by (auto simp: matched_def good_master_def)
    moreover have "find_match nm mem (x, w) M d = Some (?c, rest, x, w')"
      by (simp add: find_match_def fc cd w'(1))
    ultimately show ?thesis using key by blast
  qed
qed

text \<open>Children are matched below the match of their parent.\<close>

lemma good_below:
  assumes g: "good_master mem w (PNode d (c # rest))"
  shows "good_master mem w c" "distinct (nd_callpath (pn_data c) # forest_handles (pn_children c))"
    "set (handles c) \<inter> set (forest_handles rest) = {}"
proof -
  obtain dc cc where c: "c = PNode dc cc" by (cases c)
  let ?p = "parent_handle (Some d)"
  have g': "good_forest mem w ?p (c # rest)" "no_callpath_table w" using g by (simp_all add: good_master_def)
  have l: "labelled_data mem w ?p dc" "\<forall>n \<in> set cc. labelled mem w (nd_callpath dc) n"
    using g'(1) by (simp_all add: good_forest_def c)
  have "valid_handle w (nd_callpath dc)" using labelled_valid [OF l(1)] by simp
  then show "good_master mem w c"
    using g' l labelled_parent [OF l(1)]
    by (simp add: good_master_def good_forest_def c wf_children_def forest_handles_def)
  show "distinct (nd_callpath (pn_data c) # forest_handles (pn_children c))"
    "set (handles c) \<inter> set (forest_handles rest) = {}"
    using g'(1) by (simp_all add: good_forest_def forest_handles_def c)
qed

lemma matched_below:
  assumes g: "good_master mem w (PNode d (c # rest))" and m: "matched mem w c w' c' n"
  shows "matched mem w (PNode d (c # rest)) w' (PNode d (c' # rest)) n"
proof -
  let ?p = "parent_handle (Some d)"
  note b = good_below [OF g]
  obtain dc cc where c: "c = PNode dc cc" by (cases c)
  obtain cc' where c': "c' = PNode dc cc'" using m by (cases c') (simp add: matched_def c)
  have g': "good_forest mem w ?p (c # rest)" "valid_handle w ?p" using g by (simp_all add: good_master_def)
  have k: "derefs_kept w w'" "no_callpath_table w'" "length (memory w 0) \<le> length (memory w' 0)"
    using m by (simp_all add: matched_def good_master_def)
  have l: "labelled_data mem w ?p dc" using g'(1) by (simp add: good_forest_def c)
  have gc: "good_forest mem w' (nd_callpath dc) cc'"
    using m labelled_parent [OF l] by (simp add: matched_def good_master_def c c')
  have new: "set (forest_handles cc') \<subseteq> set (forest_handles cc) \<union> {h. length (memory w 0) < unat h}"
    using m by (simp add: matched_def c c')
  have old: "unat h \<le> length (memory w 0)" if "h \<in> set (forest_handles (c # rest))" for h
    using g'(1) that by (simp add: good_forest_def)
  have fh: "forest_handles (c' # rest) = nd_callpath dc # forest_handles cc' @ forest_handles rest"
    "forest_handles (c # rest) = nd_callpath dc # forest_handles cc @ forest_handles rest"
    by (simp_all add: forest_handles_def c c')
  have "nd_callpath dc \<notin> set (forest_handles cc')" using new b(2) old [of "nd_callpath dc"] fh(2) by (auto simp: c)
  moreover have "set (forest_handles cc') \<inter> set (forest_handles rest) = {}"
  proof -
    have "set (forest_handles cc) \<inter> set (forest_handles rest) = {}" using b(3) by (auto simp: c forest_handles_def)
    then show ?thesis using new old fh(2) by fastforce
  qed
  moreover have "nd_callpath dc \<notin> set (forest_handles rest)" using b(3) by (simp add: c)
  ultimately have dist: "distinct (forest_handles (c' # rest))"
    using gc g'(1) by (simp add: fh good_forest_def)
  have "good_forest mem w' ?p (c' # rest)"
  proof -
    have "wf_children (c' # rest)" using g'(1) gc by (simp add: good_forest_def wf_children_def c c')
    moreover have "labelled mem w' ?p c'" using labelled_data_kept [OF l k(1)] gc by (simp add: good_forest_def c')
    moreover have "\<forall>n \<in> set rest. labelled mem w' ?p n" using g'(1) labelled_kept [OF _ k(1)] by (simp add: good_forest_def)
    moreover have "unat h \<le> length (memory w' 0)" if "h \<in> set (forest_handles (c' # rest))" for h
    proof (cases "h \<in> set (forest_handles cc')")
      case True
      then show ?thesis using gc by (simp add: good_forest_def)
    next
      case False
      then have "h \<in> set (forest_handles (c # rest))" using that fh by auto
      then show ?thesis using old k(3) le_trans by blast
    qed
    ultimately show ?thesis using dist by (simp add: good_forest_def)
  qed
  moreover have "set (forest_handles (c' # rest)) \<subseteq> set (forest_handles (c # rest)) \<union> {h. length (memory w 0) < unat h}"
    using new fh by auto
  moreover have "callpaths_of path (c # rest) \<subseteq> callpaths_of path (c' # rest)" for path
    using m by (auto simp: c c' callpaths_of_node matched_def simp del: node_callpaths.simps)
  ultimately show ?thesis
    using m k valid_handle_kept [OF g'(2) k(1)] by (simp add: matched_def good_master_def)
qed

definition matches_forest ::
    "parameter_memory \<Rightarrow> defs \<Rightarrow> pnode \<Rightarrow> pnode list \<Rightarrow> defs \<Rightarrow> pnode \<Rightarrow> pnode list \<Rightarrow> bool" where
  "matches_forest mem w M cs w' M' cs' \<longleftrightarrow> matched mem w M w' M' (sum_list (map nodes cs)) \<and> map clear_callpaths cs' = cs \<and>
     (\<forall>path. callpaths_of path cs' \<subseteq> callpaths_of path (pn_children M'))"

lemma match_callpaths_ready:
  assumes "\<And>c w M. c \<in> set cs \<Longrightarrow> ready mem w c \<Longrightarrow> good_master mem w M \<Longrightarrow> length (memory w 0) + nodes c < 2 ^ 32 \<Longrightarrow>
      \<exists>M' c' w'. match_callpath nm mem (x, w) M c = Some (M', c', x, w') \<and> matches_forest mem w M [c] w' M' [c']"
    and "\<forall>c \<in> set cs. ready mem w c" "good_master mem w M" "length (memory w 0) + sum_list (map nodes cs) < 2 ^ 32"
  shows "\<exists>M' cs' w'. match_callpaths nm mem (x, w) M cs = Some (M', cs', x, w') \<and> matches_forest mem w M cs w' M' cs'"
  using assms
proof (induction cs arbitrary: w M)
  case Nil
  then show ?case by (simp add: matches_forest_def matched_refl)
next
  case (Cons c cs)
  obtain M1 c' u where u: "match_callpath nm mem (x, w) M c = Some (M1, c', x, u)" "matches_forest mem w M [c] u M1 [c']"
    using Cons.prems(1) [of c w M] Cons.prems(2-4) by auto
  then have k: "derefs_kept w u" "good_master mem u M1" "length (memory u 0) \<le> length (memory w 0) + nodes c"
    by (simp_all add: matches_forest_def matched_def)
  have "\<exists>M' cs' v. match_callpaths nm mem (x, u) M1 cs = Some (M', cs', x, v) \<and> matches_forest mem u M1 cs v M' cs'"
  proof (rule Cons.IH)
    show "\<exists>M' c' w'. match_callpath nm mem (x, w) M d = Some (M', c', x, w') \<and> matches_forest mem w M [d] w' M' [c']"
      if "d \<in> set cs" "ready mem w d" "good_master mem w M" "length (memory w 0) + nodes d < 2 ^ 32" for d w M
      using Cons.prems(1) that by simp
  qed (use Cons.prems k ready_kept in auto)
  then obtain M' cs' v where v: "match_callpaths nm mem (x, u) M1 cs = Some (M', cs', x, v)" "matches_forest mem u M1 cs v M' cs'"
    by blast
  have "matched mem w M v M' (nodes c + sum_list (map nodes cs))"
    using matched_trans [of mem w M u M1 "nodes c" v M'] u(2) v(2) by (simp add: matches_forest_def)
  moreover have "callpaths_of path (pn_children M1) \<subseteq> callpaths_of path (pn_children M')" for path
    using v(2) by (simp add: matches_forest_def matched_def)
  ultimately have "matches_forest mem w M (c # cs) v M' (c' # cs')"
    using u(2) v(2) by (fastforce simp: matches_forest_def)
  then show ?case using u(1) v(1) by simp
qed

lemma match_callpath_ready:
  assumes "ready mem w n" "good_master mem w M" "length (memory w 0) + nodes n < 2 ^ 32"
  shows "\<exists>M' n' w'. match_callpath nm mem (x, w) M n = Some (M', n', x, w') \<and> matches_forest mem w M [n] w' M' [n']"
  using assms
proof (induction n arbitrary: w M)
  case (PNode d cs)
  obtain c rest u where u: "find_match nm mem (x, w) M d = Some (c, rest, x, u)" "key_of c = node_key d"
    "matched mem w M u (PNode (pn_data M) (c # rest)) 1"
    using find_match_ready [of mem w M d nm x] PNode.prems by auto
  have g: "good_master mem u (PNode (pn_data M) (c # rest))" and k: "derefs_kept w u" "length (memory u 0) \<le> length (memory w 0) + 1"
    using u(3) by (simp_all add: matched_def)
  have "\<exists>c' cs' v. match_callpaths nm mem (x, u) c cs = Some (c', cs', x, v) \<and> matches_forest mem u c cs v c' cs'"
  proof (rule match_callpaths_ready)
    show "\<forall>n \<in> set cs. ready mem u n" using PNode.prems(1) ready_kept k(1) by auto
  qed (use PNode.IH PNode.prems k good_below(1) [OF g] in auto)
  then obtain c' cs' v where v: "match_callpaths nm mem (x, u) c cs = Some (c', cs', x, v)" "matches_forest mem u c cs v c' cs'"
    by blast
  let ?M = "PNode (pn_data M) (c' # rest)" and ?n = "PNode (d\<lparr>nd_callpath := nd_callpath (pn_data c')\<rparr>) cs'"
  have mv: "matched mem u c v c' (sum_list (map nodes cs))" using v(2) by (simp add: matches_forest_def)
  have "matched mem w M v ?M (1 + sum_list (map nodes cs))"
    by (rule matched_trans [OF u(3) matched_below [OF g mv]])
  moreover have "clear_callpaths ?n = PNode d cs"
    using v(2) PNode.prems(1) by (simp add: matches_forest_def clear_callpaths_def)
  moreover have "set (node_callpaths path ?n) \<subseteq> callpaths_of path (c' # rest)" for path
  proof -
    obtain cc' where c': "c' = PNode (pn_data c') cc'" by (cases c') simp
    have "key_of c' = node_key d" using u(2) mv by (simp add: matched_def)
    moreover have "callpaths_of (path @ [node_key d]) cs' \<subseteq> callpaths_of (path @ [node_key d]) cc'"
      using v(2) c' by (metis matches_forest_def pnode.sel(2))
    ultimately have "set (node_callpaths path ?n) \<subseteq> set (node_callpaths path (PNode (pn_data c') cc'))"
      by (auto simp: callpaths_of_node simp del: node_callpaths.simps)
    then show ?thesis using c' by auto
  qed
  ultimately have "matches_forest mem w M [PNode d cs] v ?M [?n]" by (simp add: matches_forest_def)
  then show ?case using u(1) v(1) by simp
qed

section \<open>All threads\<close>

lemma match_threads_ready:
  assumes "\<forall>t \<in> set threads. \<forall>c \<in> set (pn_children t). ready mem w c" "good_master mem w M"
    "length (memory w 0) + sum_list (map nodes threads) < 2 ^ 32"
  shows "\<exists>M' threads' w'. match_threads nm mem (x, w) M threads = Some (M', threads', x, w') \<and> good_master mem w' M' \<and>
     pn_data M' = pn_data M \<and> map (\<lambda>t. map clear_callpaths (pn_children t)) threads' = map pn_children threads \<and>
     map pn_data threads' = map pn_data threads \<and>
     (\<forall>path. callpaths_of path (pn_children M) \<subseteq> callpaths_of path (pn_children M')) \<and>
     (\<forall>path. \<forall>t \<in> set threads'. callpaths_of path (pn_children t) \<subseteq> callpaths_of path (pn_children M'))"
  using assms
proof (induction threads arbitrary: w M)
  case Nil
  then show ?case by simp
next
  case (Cons t threads)
  obtain d cs where t: "t = PNode d cs" by (cases t)
  have "\<exists>M1 cs' u. match_callpaths nm mem (x, w) M cs = Some (M1, cs', x, u) \<and> matches_forest mem w M cs u M1 cs'"
    by (rule match_callpaths_ready [OF match_callpath_ready]) (use Cons.prems t in auto)
  then obtain M1 cs' u where u: "match_callpaths nm mem (x, w) M cs = Some (M1, cs', x, u)" "matches_forest mem w M cs u M1 cs'"
    by blast
  then have k: "derefs_kept w u" "good_master mem u M1" "length (memory u 0) \<le> length (memory w 0) + sum_list (map nodes cs)"
    "pn_data M1 = pn_data M" and up: "\<And>path. callpaths_of path (pn_children M) \<subseteq> callpaths_of path (pn_children M1)"
    "\<And>path. callpaths_of path cs' \<subseteq> callpaths_of path (pn_children M1)"
    by (simp_all add: matches_forest_def matched_def)
  have rd: "\<forall>t \<in> set threads. \<forall>c \<in> set (pn_children t). ready mem u c"
    using Cons.prems(1) by (auto intro: ready_kept [OF _ k(1)])
  have len: "length (memory u 0) + sum_list (map nodes threads) < 2 ^ 32" using Cons.prems(3) k(3) t by simp
  obtain M' threads' v where v: "match_threads nm mem (x, u) M1 threads = Some (M', threads', x, v)" "good_master mem v M'"
      "pn_data M' = pn_data M1" "map (\<lambda>t. map clear_callpaths (pn_children t)) threads' = map pn_children threads"
      "map pn_data threads' = map pn_data threads"
      "\<forall>path. callpaths_of path (pn_children M1) \<subseteq> callpaths_of path (pn_children M')"
      "\<forall>path. \<forall>t \<in> set threads'. callpaths_of path (pn_children t) \<subseteq> callpaths_of path (pn_children M')"
    using Cons.IH [OF rd k(2) len] by blast
  have "match_threads nm mem (x, w) M (t # threads) = Some (M', PNode d cs' # threads', x, v)" using u(1) v(1) t by simp
  moreover have "callpaths_of path (pn_children M) \<subseteq> callpaths_of path (pn_children M')" for path using up(1) v(6) by blast
  moreover have "callpaths_of path cs' \<subseteq> callpaths_of path (pn_children M')" for path using up(2) v(6) by blast
  moreover have "map clear_callpaths cs' = cs" using u(2) by (simp add: matches_forest_def)
  ultimately show ?case using v k(4) t by (intro exI [of _ M'] exI [of _ "PNode d cs' # threads'"] exI [of _ v]) simp
qed

lemma sort_subtree_data [simp]: "pn_data (sort_subtree f n) = pn_data n"
  by (cases n) (simp add: sort_subtree.simps)

lemma sort_subtree_keeps:
  "ready mem w (sort_subtree f n) = ready mem w n \<and> wf_node (sort_subtree f n) = wf_node n \<and> nodes (sort_subtree f n) = nodes n"
proof (induction f n rule: sort_subtree.induct)
  case (1 f d cs)
  let ?s = "sort_node_list f cs"
  have k: "mset (map key_of ?s) = mset (map key_of cs)" by (simp add: mset_map)
  have "distinct (map key_of ?s) = distinct (map key_of cs)" by (rule mset_eq_imp_distinct_iff [OF k])
  moreover have "map (\<lambda>n. key_of (sort_subtree f n)) ?s = map key_of ?s" by simp
  moreover have "sum_list (map nodes ?s) = sum_list (map nodes cs)"
    by (metis mset_map mset_sort_node_list sum_mset_sum_list)
  moreover have "(\<Sum>n\<leftarrow>?s. nodes (sort_subtree f n)) = sum_list (map nodes ?s)"
    using 1 by (intro arg_cong [where f = sum_list] map_cong) simp_all
  ultimately show ?case using 1 by (simp add: sort_subtree.simps comp_def)
qed

lemma sorted_roots:
  assumes "\<forall>t \<in> set roots. \<forall>c \<in> set (pn_children t). ready mem w c"
  shows "\<forall>t \<in> set (sort_tree roots). \<forall>c \<in> set (pn_children t). ready mem w c"
    "sum_list (map nodes (sort_tree roots)) = sum_list (map nodes roots)"
proof -
  have "\<forall>c \<in> set (pn_children (sort_subtree f t)). ready mem w c" if "t \<in> set roots" for t f
    using assms that sort_subtree_keeps by (cases t) (auto simp: sort_subtree.simps)
  then show "\<forall>t \<in> set (sort_tree roots). \<forall>c \<in> set (pn_children t). ready mem w c" by (auto simp: sort_tree_def)
  show "sum_list (map nodes (sort_tree roots)) = sum_list (map nodes roots)"
    by (simp add: sort_tree_def comp_def sort_subtree_keeps)
qed

text \<open>The definition that the handle of a node leads to.\<close>

definition key_region :: "node_key \<Rightarrow> handle" where
  "key_region k = unat (ucast (fst (snd k)) :: u32)"

definition names_path :: "defs \<Rightarrow> (node_key list \<times> u32) set \<Rightarrow> handle \<Rightarrow> nat \<Rightarrow> node_key list \<Rightarrow> u32 \<Rightarrow> bool" where
  "names_path w P root n path h \<longleftrightarrow> (\<exists>parent ps. callpath_at w (unat h) parent (key_region (last path)) ps \<and>
     (if length path = Suc n then parent = root else \<exists>g. (butlast path, g) \<in> P \<and> parent = unat g))"

lemma key_region_node: "callpath_type (nd_type d) \<Longrightarrow> key_region (node_key d) = node_region d"
  by (auto simp: callpath_type_def key_region_def node_key_def node_region_def type_get_region_handle_def)

lemma names_path_mono: "names_path w P root n path h \<Longrightarrow> P \<subseteq> Q \<Longrightarrow> names_path w Q root n path h"
  unfolding names_path_def by (meson subsetD)

lemma labelled_names:
  assumes "labelled mem w p n" "(a, h) \<in> set (node_callpaths path n)"
  shows "names_path w (set (node_callpaths path n)) (unat p) (length path) a h"
  using assms
proof (induction n arbitrary: p path)
  case (PNode d cs)
  let ?k = "path @ [node_key d]"
  have l: "labelled_data mem w p d" using PNode.prems(1) by simp
  show ?case
  proof (cases "(a, h) = (?k, nd_callpath d)")
    case True
    then show ?thesis using l key_region_node [of d] by (auto simp: names_path_def labelled_data_def)
  next
    case False
    then obtain c where c: "c \<in> set cs" "(a, h) \<in> set (node_callpaths ?k c)" using PNode.prems(2) by auto
    have sub: "set (node_callpaths ?k c) \<subseteq> set (node_callpaths path (PNode d cs))" using c(1) by auto
    have "names_path w (set (node_callpaths ?k c)) (unat (nd_callpath d)) (length ?k) a h"
      by (rule PNode.IH [OF c(1) _ c(2)]) (use PNode.prems(1) c(1) in simp)
    then have np: "names_path w (set (node_callpaths path (PNode d cs))) (unat (nd_callpath d)) (length ?k) a h"
      using sub by (rule names_path_mono)
    obtain q where q: "a = ?k @ key_of c # q" using paths_under [OF c(2)] by blast
    have "(?k, nd_callpath d) \<in> set (node_callpaths path (PNode d cs))" by simp
    moreover have "butlast a = ?k" if "length a = Suc (length ?k)" using that q by (simp add: butlast_append)
    ultimately show ?thesis using np q unfolding names_path_def by (auto split: if_splits)
  qed
qed

text \<open>Equal handles and equal paths.\<close>

lemma forest_identified:
  assumes "good_forest mem w p cs" "(a, g) \<in> callpaths_of path cs" "(b, h) \<in> callpaths_of path cs"
  shows "g = h \<longleftrightarrow> a = b"
proof -
  let ?l = "concat (map (node_callpaths path) cs)"
  have d: "distinct (map fst ?l)" "distinct (map snd ?l)"
    using assms(1) wf_paths_distinct by (simp_all add: good_forest_def snd_forest_callpaths forest_handles_def)
  have "(a, g) \<in> set ?l" "(b, h) \<in> set ?l" using assms(2,3) by (simp_all add: callpaths_of_def)
  moreover have "inj_on fst (set ?l)" "inj_on snd (set ?l)" using d by (simp_all add: distinct_map)
  ultimately show ?thesis
    using inj_onD [of fst "set ?l" "(a, g)" "(b, h)"] inj_onD [of snd "set ?l" "(a, g)" "(b, h)"] by auto
qed

lemma defs_inv_no_callpath_table: "defs_inv w \<Longrightarrow> no_callpath_table w"
proof -
  assume "defs_inv w"
  moreover have "get_manager w LocalManager = Some (local_manager w)" by (simp add: get_manager_def)
  ultimately have "hash_table (local_manager w KCallpath) \<noteq> None \<longleftrightarrow> KCallpath \<in> tables_of LocalManager"
    unfolding defs_inv_def tables_ok_def by blast
  then show ?thesis by (simp add: no_callpath_table_def tables_of_def always_hashed_def)
qed

lemma assigned_good:
  assumes "assigned mem w p cs u cs'" "wf_children cs"
  shows "good_forest mem u p cs'"
proof -
  have c: "map clear_callpaths cs' = cs" using assms(1) by (simp add: assigned_def)
  have "map key_of cs' = map key_of cs" by (simp add: c [symmetric])
  moreover have "\<forall>n \<in> set cs'. wf_node n" using assms(2) wf_clear by (auto simp: c [symmetric] wf_children_def)
  ultimately show ?thesis using assms by (simp add: good_forest_def assigned_def fresh_handles_def forest_handles_def wf_children_def)
qed

lemma good_master_names:
  assumes "good_master mem w m" "is_thread_root m" "(a, h) \<in> callpaths_of [] (pn_children m)"
  shows "names_path w (callpaths_of [] (pn_children m)) 0 0 a h"
proof -
  obtain c where c: "c \<in> set (pn_children m)" "(a, h) \<in> set (node_callpaths [] c)" using assms(3) by (auto simp: callpaths_of_def)
  have "labelled mem w 0 c"
    using assms(1,2) c(1) by (simp add: good_master_def good_forest_def parent_handle_def is_thread_root_def)
  from labelled_names [OF this c(2)] have "names_path w (set (node_callpaths [] c)) 0 0 a h" by simp
  then show ?thesis by (rule names_path_mono) (use c(1) in \<open>auto simp: callpaths_of_def\<close>)
qed


text \<open>The witness: two threads that called the same region, the second one also from within itself.\<close>

lemma initialized_memory: "\<exists>w. Definitions_Initialize empty_defs = Some w \<and> defs_inv w \<and> length (memory w 0) = 1"
proof -
  let ?w = "empty_defs\<lparr>local_manager := InitializeDefinitionManager False\<rparr>"
  let ?c = "String (StringDef []) :: handle def_content"
  obtain w where w: "Definitions_Initialize empty_defs = Some w" "defs_inv w" using empty_initialized by blast
  obtain v where v: "hash_content ?w ?c = Some v" by (simp add: hash_content_def hash_items_def hash_string_def)
  have m: "get_manager ?w LocalManager = Some (InitializeDefinitionManager False)" by (simp add: get_manager_def)
  have e: "bucket_of (InitializeDefinitionManager False KString) x = []" for x
    by (simp add: bucket_of_def InitializeDefinitionManager_def hashed_entry_def alloc_hash_table_def DEFAULT_HASH_TABLE_POWER_def init_entry_def always_hashed_def assertC_def)
  have "add_definition ?w LocalManager ?c = Some (1, True, added ?w LocalManager KString (InitializeDefinitionManager False) ((init_header ?c)\<lparr>def_hash := v\<rparr>))"
    using add_to_entry_new [OF m, of KString "(init_header ?c)\<lparr>def_hash := v\<rparr>" same_definition] v e
    by (simp add: add_definition_def kind_of_def empty_defs_def)
  then have "length (memory w 0) = 1"
    using w(1) by (auto simp: Definitions_Initialize_def new_string_def new_string_generator_def define_announced_def bind_Some_iff
        announce_def linked_def set_manager_def empty_defs_def)
  then show ?thesis using w by blast
qed

definition called :: "pnode list \<Rightarrow> pnode" where
  "called cs = PNode (pn_data (create_node 0 NODE_REGULAR_REGION \<lparr>td_handle = 1, td_value = 0\<rparr> 5)) cs"

definition thread_of :: "u64 \<Rightarrow> pnode list \<Rightarrow> pnode" where
  "thread_of i cs = PNode (pn_data (create_node 0 NODE_THREAD_ROOT \<lparr>td_handle = 0, td_value = i\<rparr> 0)) cs"


end
