(* ===== verification/Scorep_Profile_Roots.thy ===== *)
theory Scorep_Profile_Roots
  imports Scorep_Profile_Process
begin

text \<open>
  What the steps of the post-processing do to the roots of the profile: collapsed nodes disappear, the threads are
  sorted by their number, and the roots that tasks, threads and kernels get have all the nodes that were moved.
\<close>

section \<open>Collapsed nodes\<close>

fun node_types :: "pnode \<Rightarrow> node_type set" where
  "node_types (PNode d cs) = insert (nd_type d) (\<Union>c \<in> set cs. node_types c)"

lemma no_collapse_left: "NODE_COLLAPSE \<notin> node_types (map_node (substitute_collapse region) n)"
  by (induction n) (auto simp: substitute_collapse_def)

lemma map_node_shape: "length (preorder (map_node f n)) = length (preorder n)"
proof (induction n)
  case (PNode d cs)
  have "(\<Sum>c\<leftarrow>cs. length (preorder (map_node f c))) = (\<Sum>c\<leftarrow>cs. length (preorder c))"
    using PNode by (intro arg_cong [where f = sum_list] map_cong) simp_all
  then show ?case by (simp add: length_concat comp_def)
qed

section \<open>Sorting the threads\<close>

definition numbered :: "pnode list \<Rightarrow> bool" where
  "numbered roots \<longleftrightarrow> distinct (map root_index roots) \<and> (\<forall>r \<in> set roots. root_index r < length roots)"

definition with_index :: "pnode list \<Rightarrow> nat \<Rightarrow> pnode option" where
  "with_index roots i = find (\<lambda>r. root_index r = i) roots"

lemma with_index_append: "with_index (xs @ [r]) i = (case with_index xs i of None \<Rightarrow> if root_index r = i then Some r else None | Some x \<Rightarrow> Some x)"
  by (induction xs) (simp_all add: with_index_def)

lemma with_index_None: "with_index xs i = None \<longleftrightarrow> i \<notin> root_index ` set xs"
  by (auto simp: with_index_def find_None_iff)

lemma with_index_Some: "with_index xs i = Some r \<Longrightarrow> r \<in> set xs \<and> root_index r = i"
  by (auto simp: with_index_def find_Some_iff in_set_conv_nth)

lemma fill_root_list_result:
  assumes "\<forall>r \<in> set roots. is_thread_root r" "distinct (map root_index ds)" "root_list = map (with_index ds) [0..<n]"
  shows "fill_root_list n roots root_list =
    (if distinct (map root_index (ds @ roots)) \<and> (\<forall>r \<in> set roots. root_index r < n)
     then Some (map (with_index (ds @ roots)) [0..<n]) else None)"
  using assms
proof (induction roots arbitrary: ds root_list)
  case (Cons r roots)
  show ?case
  proof (cases "root_index r < n \<and> root_index r \<notin> root_index ` set ds")
    case True
    have "root_list ! root_index r = with_index ds (root_index r)" using True Cons.prems(3) by simp
    then have "fill_root_list n (r # roots) root_list = fill_root_list n roots (root_list[root_index r := Some r])"
      using True Cons.prems(1) with_index_None by (simp add: with_index_None)
    also have "root_list[root_index r := Some r] = map (with_index (ds @ [r])) [0..<n]"
    proof (rule nth_equalityI)
      fix i assume "i < length (root_list[root_index r := Some r])"
      then have i: "i < n" using Cons.prems(3) by simp
      show "root_list[root_index r := Some r] ! i = map (with_index (ds @ [r])) [0..<n] ! i"
      proof (cases "i = root_index r")
        case True
        then have "with_index ds i = None" using \<open>root_index r < n \<and> root_index r \<notin> root_index ` set ds\<close> by (simp add: with_index_None)
        then show ?thesis using True i Cons.prems(3) by (simp add: with_index_append)
      next
        case False
        then show ?thesis using i Cons.prems(3) by (simp add: with_index_append split: option.split)
      qed
    qed (simp add: Cons.prems(3))
    also have "fill_root_list n roots (map (with_index (ds @ [r])) [0..<n]) =
      (if distinct (map root_index ((ds @ [r]) @ roots)) \<and> (\<forall>r \<in> set roots. root_index r < n)
       then Some (map (with_index ((ds @ [r]) @ roots)) [0..<n]) else None)"
      by (rule Cons.IH) (use Cons.prems True in auto)
    finally show ?thesis using True by simp
  next
    case False
    have "fill_root_list n (r # roots) root_list = None"
    proof (cases "root_index r < n")
      case True
      then have "root_list ! root_index r \<noteq> None" using False Cons.prems(3) by (simp add: with_index_None)
      then show ?thesis using Cons.prems(1) by simp
    qed (use Cons.prems(1) in simp)
    then show ?thesis using False by auto
  qed
qed simp

lemma those_some: "(\<And>x. x \<in> set xs \<Longrightarrow> f x = Some (g x)) \<Longrightarrow> those (map f xs) = Some (map g xs)"
  by (induction xs) simp_all

lemma numbered_sorted:
  assumes "numbered roots"
  shows "those (map (with_index roots) [0..<length roots]) = Some (sort_key root_index roots)"
proof -
  let ?n = "length roots" and ?g = "\<lambda>i. the (with_index roots i)"
  have d: "distinct (map root_index roots)" and l: "root_index ` set roots \<subseteq> {..<?n}" using assms by (auto simp: numbered_def)
  have "card (root_index ` set roots) = ?n" using distinct_card [OF d] by simp
  then have s: "root_index ` set roots = {..<?n}" using l by (intro card_subset_eq) simp_all
  have some: "with_index roots i = Some (?g i)" if "i < ?n" for i
    using with_index_None [of roots i] s that by auto
  have g: "?g i \<in> set roots \<and> root_index (?g i) = i" if "i < ?n" for i
    using with_index_Some [OF some [OF that]] .
  let ?r = "map ?g [0..<?n]"
  have idx: "map root_index ?r = [0..<?n]" using g by (intro nth_equalityI) simp_all
  then have dr: "distinct ?r" using distinct_map by (metis distinct_upt)
  have "set ?r = set roots"
  proof (rule card_subset_eq)
    show "set ?r \<subseteq> set roots" using g by auto
    show "card (set ?r) = card (set roots)"
      using distinct_card [OF dr] distinct_card [of roots] d by (simp add: distinct_map)
  qed simp
  then have "mset roots = mset ?r" using dr d by (metis distinct_map set_eq_iff_mset_eq_distinct)
  moreover have "inj_on root_index (set roots)" using d by (simp add: distinct_map)
  moreover have "sorted (map root_index ?r)" unfolding idx by simp
  ultimately have "sort_key root_index roots = ?r" by (rule sort_key_inj_key_eq)
  moreover have "those (map (with_index roots) [0..<?n]) = Some ?r" by (rule those_some, rule some) simp
  ultimately show ?thesis by simp
qed

text \<open>
  Sorting the threads: when the locations of the threads are numbered from 0 to their number less one, in any order, the
  roots are sorted by these numbers; otherwise, or when the array cannot be allocated, their order stays. Without
  any thread the first item of an empty array is read.
\<close>

theorem threads_sorted_by_number:
  assumes "\<forall>r \<in> set roots. is_thread_root r" "length roots < 2 ^ 32"
  shows "sort_threads alloc_ok roots =
    (if \<not> alloc_ok then Some roots else if roots = [] then None
     else Some (if numbered roots then sort_key root_index roots else roots))"
proof -
  have "filter is_thread_root roots = roots" using assms(1) by simp
  then have n: "thread_count roots = length roots"
    using assms(2) unfolding thread_count_def unat_of_nat by simp
  have r: "replicate (length roots) None = map (with_index []) [0..<length roots]"
    by (intro nth_equalityI) (simp_all add: with_index_def)
  have "fill_root_list (length roots) roots (replicate (length roots) None) =
    (if numbered roots then Some (map (with_index roots) [0..<length roots]) else None)"
    by (subst fill_root_list_result [where ds = "[]"]) (use assms(1) r in \<open>auto simp: numbered_def\<close>)
  then show ?thesis
    using numbered_sorted [of roots] by (auto simp: sort_threads_def n Let_def rebuild_roots_def numbered_def)
qed

theorem threads_sorted_by_number_witness:
  "sort_threads True (map (\<lambda>i. PNode (pn_data (create_node 0 NODE_THREAD_ROOT \<lparr>td_handle = 0, td_value = i\<rparr> 0)) []) [2, 0, 1]) =
    Some (map (\<lambda>i. PNode (pn_data (create_node 0 NODE_THREAD_ROOT \<lparr>td_handle = 0, td_value = i\<rparr> 0)) []) [0, 1, 2])"
  by (subst threads_sorted_by_number)
    (simp_all add: is_thread_root_def create_node_def numbered_def root_index_def)

section \<open>Roots for tasks, threads and kernels\<close>

datatype new_root = TasksRoot | ThreadsRoot | KernelsRoot

text \<open>Where a child of a thread root belongs.\<close>

definition belongs_to :: "process_env \<Rightarrow> thread_type \<Rightarrow> pnode \<Rightarrow> new_root option" where
  "belongs_to env lt n =
     (if nd_type (pn_data n) = NODE_REGULAR_REGION \<and> type_get_region_handle (nd_data (pn_data n)) \<noteq> env_program_region env
      then (case lt of LOCATION_TYPE_CPU_THREAD \<Rightarrow> Some ThreadsRoot | LOCATION_TYPE_GPU \<Rightarrow> Some KernelsRoot | _ \<Rightarrow> None)
      else if nd_type (pn_data n) = NODE_TASK_ROOT then Some TasksRoot else None)"

fun local_root :: "local_roots \<Rightarrow> new_root \<Rightarrow> pnode option" where
  "local_root l TasksRoot = tasks_root l"
| "local_root l ThreadsRoot = threads_root l"
| "local_root l KernelsRoot = kernels_root l"

text \<open>The nodes below the artificial region of a new root.\<close>

definition gathered :: "pnode option \<Rightarrow> pnode list" where
  "gathered r = (case r of None \<Rightarrow> [] | Some n \<Rightarrow> pn_children (hd (pn_children n)))"

lemma change_root_node_gathers:
  "change_root_node env l h t n b = Some r \<Longrightarrow> gathered (Some r) = n # gathered l"
  by (auto simp: change_root_node_def bind_Some_iff gathered_def merge_inclusive_def add_child_def set_first_enter_time_def
      create_node_def Let_def split: option.splits list.splits if_splits)

lemma process_root_child_gathers:
  assumes "process_root_child env lt (l, s) n = Some (stays, l', s')"
  shows "stays = (belongs_to env lt n = None) \<and>
    (\<forall>k. gathered (local_root l' k) = (if belongs_to env lt n = Some k then [n] else []) @ gathered (local_root l k))"
proof (intro conjI allI)
  show "stays = (belongs_to env lt n = None)"
    using assms by (auto simp: process_root_child_def belongs_to_def Let_def bind_Some_iff split: if_splits thread_type.splits prod.splits)
  fix k
  show "gathered (local_root l' k) = (if belongs_to env lt n = Some k then [n] else []) @ gathered (local_root l k)"
    using assms
    by (cases k) (auto simp: process_root_child_def belongs_to_def Let_def bind_Some_iff
        dest!: change_root_node_gathers split: if_splits thread_type.splits prod.splits)
qed

lemma task_roots_keep_nodes:
  assumes "process_root_children env lt (l, s) cs = Some (left, l', s')"
  shows "left = filter (\<lambda>n. belongs_to env lt n = None) cs \<and>
    (\<forall>k. gathered (local_root l' k) = rev (filter (\<lambda>n. belongs_to env lt n = Some k) cs) @ gathered (local_root l k))"
  using assms
proof (induction cs arbitrary: l s left)
  case (Cons n cs)
  obtain stays l1 s1 where c: "process_root_child env lt (l, s) n = Some (stays, l1, s1)"
    using Cons.prems by (auto simp: bind_Some_iff)
  obtain left1 where k: "process_root_children env lt (l1, s1) cs = Some (left1, l', s')" "left = (if stays then n # left1 else left1)"
    using Cons.prems c by (auto simp: bind_Some_iff)
  show ?case using process_root_child_gathers [OF c] Cons.IH [OF k(1)] k(2) by auto
qed simp

end
