(* ===== verification/Scorep_Selective.thy ===== *)
theory Scorep_Selective
  imports Scorep_Vector Scorep_IO Scorep_Text
begin

text \<open>
  Selective recording of user regions: the configuration file
  (\<open>src/src/adapters/user/scorep_selective_parser.c\<close>), the switching of recording at the enters
  and exits of a region (\<open>scorep_selective_region.c\<close>) and the recording switch itself
  (\<open>src/src/measurement/SCOREP_RuntimeManagement.c\<close>).

  The entries of the region list are pointers to regions; each region has one pointer, so the list
  of regions by value, updated in place, has the same behaviour. After the configuration file has
  been read no region changes, so a user region holds a copy of its selection. \<open>mem\<close> tells which
  memory requests of a call succeed. The events that the recording switch sends to the substrates
  are not modelled.
\<close>

section \<open>Selected regions\<close>

record interval =
  iv_first :: u64
  iv_last :: u64

record selected_region =
  region_name :: string
  intervals :: "interval vector"

datatype request =
  Malloc_Interval | Malloc_Region | Dup_Name | Create_Intervals | Reserve_Intervals
| Grow_Intervals | Grow_Regions

definition int8_of :: "int \<Rightarrow> int" where
  "int8_of x = sint (word_of_int x :: 8 word)"

definition compare_intervals :: "u64 \<Rightarrow> interval \<Rightarrow> int" where
  "compare_intervals val item = int8_of (uint (val - iv_first item))"

definition compare_regions :: "string \<Rightarrow> selected_region \<Rightarrow> int" where
  "compare_regions val item = int8_of (strcmp val (region_name item))"

text \<open>A null pointer from \<open>malloc\<close> is written through.\<close>

definition add_interval ::
    "(request \<Rightarrow> bool) \<Rightarrow> selected_region \<Rightarrow> u64 \<Rightarrow> u64 \<Rightarrow> selected_region option" where
  "add_interval mem region from until = do {
     assertC (mem Malloc_Interval);
     (pos, found) \<leftarrow> Vector_LowerBound compare_intervals from (intervals region);
     (done, ivs) \<leftarrow> Vector_Insert (mem Grow_Intervals) (intervals region) pos \<lparr>iv_first = from, iv_last = until\<rparr>;
     Some (region\<lparr>intervals := ivs\<rparr>)
   }"

datatype selective_error = SEL_SUCCESS | SEL_MEM_ALLOC_FAILED | SEL_FILE_INTERACTION

text \<open>The numbers of the file are of type \<open>int\<close>; \<open>add_interval\<close> takes \<open>uint64_t\<close>.\<close>

definition insert_new_region ::
    "(request \<Rightarrow> bool) \<Rightarrow> selected_region vector \<Rightarrow> string \<Rightarrow> int \<Rightarrow> int \<Rightarrow> nat
     \<Rightarrow> (selective_error \<times> selected_region vector) option" where
  "insert_new_region mem regions region from until index =
     (if \<not> mem Malloc_Region then Some (SEL_MEM_ALLOC_FAILED, regions)
      else case (CStr_dup (\<lambda>_. mem Dup_Name) (Some region),
                 Vector_CreateSize (mem Create_Intervals) (mem Reserve_Intervals) 1) of
        (Some name, Some ivs) \<Rightarrow> do {
          let new_region = \<lparr>region_name = name, intervals = ivs\<rparr>;
          (inserted, regions) \<leftarrow> Vector_Insert (mem Grow_Regions) regions index new_region;
          new_region \<leftarrow> add_interval mem new_region (word_of_int from) (word_of_int until);
          regions \<leftarrow> (if inserted then Vector_Set regions index new_region else Some regions);
          Some (SEL_SUCCESS, regions)
        }
      | _ \<Rightarrow> Some (SEL_MEM_ALLOC_FAILED, regions))"

definition add_region ::
    "(request \<Rightarrow> bool) \<Rightarrow> selected_region vector \<Rightarrow> string \<Rightarrow> int \<Rightarrow> int \<Rightarrow> selected_region vector option" where
  "add_region mem regions name from until = do {
     found \<leftarrow> Vector_Find compare_regions name regions;
     case found of
       Some index \<Rightarrow> do {
         region \<leftarrow> Vector_At regions index;
         region \<leftarrow> add_interval mem region (word_of_int from) (word_of_int until);
         Vector_Set regions index region
       }
     | None \<Rightarrow> do {
         (index, found) \<leftarrow> Vector_UpperBound compare_regions name regions;
         (err, regions) \<leftarrow> insert_new_region mem regions name from until
                             (if found then index else Vector_Size regions);
         Some regions
       }
   }"

definition selective_get_region :: "selected_region vector \<Rightarrow> string \<Rightarrow> selected_region option option" where
  "selective_get_region regions name = do {
     found \<leftarrow> Vector_Find compare_regions name regions;
     case found of
       Some index \<Rightarrow> do { region \<leftarrow> Vector_At regions index; Some (Some region) }
     | None \<Rightarrow> Some None
   }"

section \<open>The configuration file\<close>

text \<open>\<open>sscanf\<close> with \<open>%d\<close>, for strings of digits and colons: without a digit the variable keeps its
  value; a number that is no \<open>int\<close> is undefined behaviour.\<close>

definition sscanf_int :: "string \<Rightarrow> int \<Rightarrow> int option" where
  "sscanf_int s old =
     (let ds = takeWhile is_digit s
      in if ds = [] then Some old
         else if digits_value ds < 2 ^ 31 then Some (digits_value ds) else None)"

text \<open>The numbers of an interval; \<open>Some None\<close> is an invalid interval, which is ignored.\<close>

definition parse_interval :: "string \<Rightarrow> (int \<times> int) option option" where
  "parse_interval interval =
     (if length (takeWhile (\<lambda>c. is_digit c \<or> c = CHR '':'') interval) < length interval then Some None
      else let pos = length (takeWhile (\<lambda>c. c \<noteq> CHR '':'') interval)
           in if pos \<ge> length interval
              then do { start \<leftarrow> sscanf_int interval 0; Some (Some (start, start)) }
              else do {
                start \<leftarrow> sscanf_int (take pos interval) 0;
                until \<leftarrow> sscanf_int (drop (pos + 1) interval) (- 1);
                Some (Some (start, until))
              })"

text \<open>The list of regions, with the number of calls of \<open>add\<close>; \<open>mem\<close> answers per call.\<close>

definition add_entry ::
    "(nat \<Rightarrow> request \<Rightarrow> bool) \<Rightarrow> nat \<times> selected_region vector \<Rightarrow> string \<Rightarrow> int \<Rightarrow> int
     \<Rightarrow> (nat \<times> selected_region vector) option" where
  "add_entry mem st name from until = do {
     regions \<leftarrow> add_region (mem (fst st)) (snd st) name from until;
     Some (fst st + 1, regions)
   }"

abbreviation BLANKS :: string where "BLANKS \<equiv> [CHR 0x20, CHR 0x09, NEWLINE]"

function parse_intervals ::
    "(nat \<Rightarrow> request \<Rightarrow> bool) \<Rightarrow> nat \<times> selected_region vector \<Rightarrow> string \<Rightarrow> string option \<Rightarrow> string
     \<Rightarrow> (nat \<times> selected_region vector) option" where
  "parse_intervals mem st name None rest = Some st"
| "parse_intervals mem st name (Some interval) rest = do {
     numbers \<leftarrow> parse_interval interval;
     st \<leftarrow> (case numbers of None \<Rightarrow> Some st | Some (start, until) \<Rightarrow> add_entry mem st name start until);
     let tok = strtok (BLANKS @ '','') rest;
     parse_intervals mem st name (fst tok) (snd tok)
   }"
  by pat_completeness auto
termination
proof (relation "measure (\<lambda>(mem, st, name, interval, rest). length rest + (if interval = None then 0 else 1))")
  show "((mem, st', name, fst tok, snd tok), mem, st, name, Some interval, rest)
      \<in> measure (\<lambda>(mem, st, name, interval, rest). length rest + (if interval = None then 0 else 1))"
    if "tok = strtok (BLANKS @ '','') rest" for mem st' name tok st interval rest
    using that strtok_shrinks [of "BLANKS @ '',''" rest "the (fst tok)" "snd tok"]
    by (cases tok; cases "fst tok") (auto simp: strtok_def Let_def split: if_splits)
qed simp

definition parse_line ::
    "(nat \<Rightarrow> request \<Rightarrow> bool) \<Rightarrow> nat \<times> selected_region vector \<Rightarrow> string \<Rightarrow> (nat \<times> selected_region vector) option" where
  "parse_line mem st buffer =
     (let (region_name, rest) = strtok BLANKS buffer; (interval, rest) = strtok (BLANKS @ '','') rest
      in case region_name of
           None \<Rightarrow> Some st
         | Some name \<Rightarrow>
             if interval = None then add_entry mem st name 0 (- 1)
             else parse_intervals mem st name interval rest)"

function parse_file ::
    "(nat \<Rightarrow> bool) \<Rightarrow> (nat \<Rightarrow> request \<Rightarrow> bool) \<Rightarrow> string option \<times> nat \<Rightarrow> stream \<Rightarrow> nat \<times> selected_region vector
     \<Rightarrow> (selective_error \<times> nat \<times> selected_region vector) option" where
  "parse_file lmem mem buffer file st =
     (if st_eof file then Some (SEL_SUCCESS, st)
      else let (err, buffer', file') = IO_GetLine lmem buffer file
           in if err \<noteq> IO_SUCCESS \<and> err \<noteq> IO_END_OF_BUFFER
              then Some (if err = IO_MEM_ALLOC_FAILED then SEL_MEM_ALLOC_FAILED else SEL_FILE_INTERACTION, st)
              else do {
                st \<leftarrow> parse_line mem st (the (fst buffer'));
                parse_file lmem mem buffer' file' st
              })"
  by pat_completeness auto
termination
  by (relation "measure (\<lambda>(lmem, mem, buffer, file, st). left_to_read file)")
     (auto dest!: sym [of _ "IO_GetLine _ _ _"] intro: IO_GetLine_reads)

declare parse_file.simps [simp del]

text \<open>\<open>file\<close> is the opened configuration file, if one is configured and can be opened. The result
  is the list of regions and whether recording is on by default.\<close>

definition selective_init ::
    "(nat \<Rightarrow> bool) \<Rightarrow> (nat \<Rightarrow> request \<Rightarrow> bool) \<Rightarrow> bool \<Rightarrow> bool \<Rightarrow> stream option
     \<Rightarrow> (selected_region vector option \<times> bool) option" where
  "selective_init lmem mem calloc_ok realloc_ok file =
     (case Vector_CreateSize calloc_ok realloc_ok 4 of
        None \<Rightarrow> Some (None, True)
      | Some regions \<Rightarrow>
          (case file of
             None \<Rightarrow> Some (Some regions, True)
           | Some file \<Rightarrow> do {
               (err, n, regions) \<leftarrow> parse_file lmem mem (None, 0) file (0, regions);
               Some (Some regions, err \<noteq> SEL_SUCCESS)
             }))"

section \<open>Switching of recording\<close>

record recording =
  recording_enabled :: bool
  in_parallel :: bool

definition EnableRecording :: "recording \<Rightarrow> recording" where
  "EnableRecording rec = (if \<not> in_parallel rec then rec\<lparr>recording_enabled := True\<rparr> else rec)"

definition DisableRecording :: "recording \<Rightarrow> recording" where
  "DisableRecording rec = (if \<not> in_parallel rec then rec\<lparr>recording_enabled := False\<rparr> else rec)"

definition RecordingEnabled :: "recording \<Rightarrow> bool" where
  "RecordingEnabled rec = recording_enabled rec"

record user_region =
  selection :: "selected_region option"
  current_interval_index :: nat
  current_interval :: interval
  enters :: u64
  exits :: u64
  has_enabled :: bool

definition user_create_region ::
    "bool \<Rightarrow> selected_region vector \<Rightarrow> string \<Rightarrow> user_region option option" where
  "user_create_region memory_ok regions name =
     (if \<not> memory_ok then Some None
      else do {
        sel \<leftarrow> selective_get_region regions name;
        interval \<leftarrow> (case sel of None \<Rightarrow> Some \<lparr>iv_first = 0, iv_last = 0\<rparr>
                      | Some r \<Rightarrow> Vector_At (intervals r) 0);
        Some (Some \<lparr>selection = sel, current_interval_index = 0, current_interval = interval,
          enters = 0, exits = 0, has_enabled = False\<rparr>)
      })"

definition selective_check_enter :: "user_region \<Rightarrow> recording \<Rightarrow> bool \<times> user_region \<times> recording" where
  "selective_check_enter region rec =
     (if selection region = None then (RecordingEnabled rec, region, rec)
      else if has_enabled region
      then (True, region\<lparr>enters := enters region + 1, exits := exits region + 1\<rparr>, rec)
      else if RecordingEnabled rec then (True, region\<lparr>enters := enters region + 1\<rparr>, rec)
      else if enters region \<ge> iv_first (current_interval region) \<and> enters region \<le> iv_last (current_interval region)
      then let rec = EnableRecording rec
           in if RecordingEnabled rec
              then (True, region\<lparr>enters := enters region + 1, exits := 1, has_enabled := True\<rparr>, rec)
              else (False, region, rec)
      else (False, region\<lparr>enters := enters region + 1\<rparr>, rec))"

text \<open>The search for the next interval.\<close>

function next_interval :: "user_region \<Rightarrow> user_region option" where
  "next_interval region =
     (if iv_last (current_interval region) < enters region then do {
        sel \<leftarrow> selection region;
        if current_interval_index region < Vector_Size (intervals sel) - 1 then do {
          let index = current_interval_index region + 1;
          interval \<leftarrow> Vector_At (intervals sel) index;
          next_interval (region\<lparr>current_interval_index := index, current_interval := interval\<rparr>)
        }
        else Some (region\<lparr>selection := None\<rparr>)
      }
      else Some region)"
  by pat_completeness auto
termination
  by (relation "measure (\<lambda>region. Vector_Size (intervals (the (selection region))) - current_interval_index region)") auto

declare next_interval.simps [simp del]

definition selective_check_exit :: "user_region \<Rightarrow> recording \<Rightarrow> (bool \<times> user_region \<times> recording) option" where
  "selective_check_exit region rec =
     (if has_enabled region then do {
        let region = region\<lparr>exits := exits region - 1\<rparr>;
        if exits region \<le> 0 then do {
          let rec = DisableRecording rec;
          let region = region\<lparr>has_enabled := False\<rparr>;
          region \<leftarrow> next_interval region;
          Some (True, region, rec)
        } else Some (True, region, rec)
      } else Some (RecordingEnabled rec, region, rec))"

section \<open>The order of the intervals\<close>

lemma int8_of_small: "- 128 \<le> x \<Longrightarrow> x < 128 \<Longrightarrow> int8_of x = x"
  unfolding int8_of_def by (subst signed_of_int) (simp add: signed_take_bit_int_eq_self)

lemma int8_of_wrap: "128 \<le> x \<Longrightarrow> x < 256 \<Longrightarrow> int8_of x = x - 256"
proof -
  assume "128 \<le> x" "x < 256"
  have "(x - 256) mod 2 ^ 8 = x mod (2 ^ 8 :: int)" using minus_mod_self2 [of x "256 :: int"] by simp
  then have "(word_of_int (x - 256) :: 8 word) = word_of_int x" by (simp add: word_of_int_eq_iff take_bit_eq_mod)
  then have "int8_of x = int8_of (x - 256)" by (simp only: int8_of_def)
  also have "\<dots> = x - 256" using \<open>128 \<le> x\<close> \<open>x < 256\<close> by (intro int8_of_small) simp_all
  finally show ?thesis .
qed

definition near :: "u64 \<Rightarrow> interval \<Rightarrow> bool" where
  "near val item \<longleftrightarrow> \<bar>uint val - uint (iv_first item)\<bar> < 128"

lemma int8_of_diff: "int8_of (uint (a - b :: u64)) = int8_of (uint a - uint b)"
proof -
  have "uint (a - b) = (uint a - uint b) mod 2 ^ 64" by (simp add: uint_word_ariths)
  moreover have "(word_of_int (x mod 2 ^ 64) :: 8 word) = word_of_int x" for x
    by (simp add: word_of_int_eq_iff take_bit_eq_mod mod_mod_cancel)
  ultimately show ?thesis by (simp only: int8_of_def)
qed

lemma compare_intervals_near: "near val item \<Longrightarrow> compare_intervals val item = uint val - uint (iv_first item)"
  unfolding compare_intervals_def int8_of_diff near_def by (rule int8_of_small) auto

definition iv_before :: "interval \<Rightarrow> interval \<Rightarrow> bool" where
  "iv_before x y \<longleftrightarrow> iv_first x \<le> iv_first y"

interpretation interval_search: ordered_search compare_intervals iv_before near
  by unfold_locales (auto simp: compare_intervals_near iv_before_def word_le_def)

lemma add_interval_sorted:
  assumes "vec_ok (intervals r)" "sorted_wrt iv_before (contents (intervals r))"
    and "\<forall>x \<in> set (contents (intervals r)). near from x" "\<forall>q. mem q" "vec_capacity (intervals r) < 2 ^ 59"
  shows "\<exists>ivs pre post. add_interval mem r from until = Some (r\<lparr>intervals := ivs\<rparr>) \<and> vec_ok ivs
    \<and> contents (intervals r) = pre @ post \<and> contents ivs = pre @ \<lparr>iv_first = from, iv_last = until\<rparr> # post
    \<and> sorted_wrt iv_before (contents ivs)"
proof -
  let ?v = "intervals r" and ?x = "\<lparr>iv_first = from, iv_last = until\<rparr>"
  obtain p b where p: "Vector_LowerBound compare_intervals from ?v = Some (p, b)" "p \<le> vec_size ?v"
    "\<forall>i<p. compare_intervals from (contents ?v ! i) > 0"
    "\<forall>i. p \<le> i \<and> i < vec_size ?v \<longrightarrow> \<not> compare_intervals from (contents ?v ! i) > 0"
    using interval_search.lower_bound [OF assms(1-3)] by blast
  obtain ivs where ivs: "Vector_Insert True ?v p ?x = Some (True, ivs)" "vec_ok ivs"
    "contents ivs = take p (contents ?v) @ ?x # drop p (contents ?v)"
    using Vector_Insert_refines [OF assms(1,5) p(2), of True ?x] by auto
  have len: "length (contents ?v) = vec_size ?v" by (rule length_contents [OF assms(1)])
  have nr: "near from (contents ?v ! i)" if "i < vec_size ?v" for i using assms(3) that len by simp
  have "iv_before y ?x" if "y \<in> set (take p (contents ?v))" for y
  proof -
    obtain i where "i < p" "y = contents ?v ! i" using \<open>y \<in> _\<close> len by (auto simp: in_set_conv_nth)
    then show ?thesis using p(2,3) nr [of i] by (auto simp: iv_before_def word_le_def compare_intervals_near)
  qed
  moreover have "iv_before ?x y" if "y \<in> set (drop p (contents ?v))" for y
  proof -
    obtain i where i: "i < length (contents ?v) - p" "y = contents ?v ! (p + i)"
      using \<open>y \<in> _\<close> by (auto simp: in_set_conv_nth)
    then have "\<not> compare_intervals from y > 0" "near from y" using p(4) nr [of "p + i"] len by auto
    then show ?thesis by (auto simp: iv_before_def word_le_def compare_intervals_near)
  qed
  moreover have "sorted_wrt iv_before (take p (contents ?v) @ drop p (contents ?v))" using assms(2) by simp
  ultimately have "sorted_wrt iv_before (contents ivs)"
    unfolding ivs(3) sorted_wrt_append by simp
  then show ?thesis using p(1) ivs assms(4)
    by (intro exI [of _ ivs] exI [of _ "take p (contents ?v)"] exI [of _ "drop p (contents ?v)"])
       (simp add: add_interval_def)
qed

section \<open>The list of regions\<close>

lemma int8_of_0: "\<bar>x\<bar> < 256 \<Longrightarrow> int8_of x = 0 \<longleftrightarrow> x = 0"
proof -
  assume "\<bar>x\<bar> < 256"
  have "int8_of x = 0 \<longleftrightarrow> (word_of_int x :: 8 word) = 0" by (simp add: int8_of_def signed_eq_0_iff)
  also have "\<dots> \<longleftrightarrow> 256 dvd x" by (simp add: word_of_int_eq_0_iff)
  finally show ?thesis using \<open>\<bar>x\<bar> < 256\<close> by (auto dest: zdvd_imp_le [of 256 "\<bar>x\<bar>"])
qed

lemma strcmp_bound: "\<bar>strcmp s t\<bar> < 256"
proof (induction s t rule: strcmp.induct)
  case (4 c cs d ds)
  have "(of_char c :: int) < 256" "(of_char d :: int) < 256" "0 \<le> (of_char c :: int)" "0 \<le> (of_char d :: int)"
    using of_char_of [where ?'a = int] by (simp_all add: of_char_def horner_sum_bit_eq_take_bit)
  then show ?case using 4 by auto
qed (simp_all add: of_char_def horner_sum_bit_eq_take_bit)

lemma compare_regions_0:
  "NUL \<notin> set name \<Longrightarrow> NUL \<notin> set (region_name r) \<Longrightarrow> compare_regions name r = 0 \<longleftrightarrow> region_name r = name"
  using int8_of_0 [OF strcmp_bound] by (auto simp: compare_regions_def strcmp_0)

lemma bisect_total:
  "vec_ok v \<Longrightarrow> left + n \<le> vec_size v \<Longrightarrow> \<exists>p \<le> vec_size v. bisect R v left n = Some p"
proof (induction n arbitrary: left rule: less_induct)
  case (less n)
  show ?case
  proof (cases "n = 0")
    case False
    then have "left + n div 2 < vec_size v" using less.prems(2) by linarith
    note c = cell_contents [OF less.prems(1) this]
    have "\<exists>p \<le> vec_size v. bisect R v (left + (n div 2 + 1)) (n - (n div 2 + 1)) = Some p"
      "\<exists>p \<le> vec_size v. bisect R v left (n div 2) = Some p"
      using less.IH less.prems False by auto
    then show ?thesis using False c by (subst bisect.simps) (auto simp: Let_def)
  qed (use less.prems in \<open>simp add: bisect.simps\<close>)
qed

lemma upper_bound_unmatched:
  assumes "vec_ok v" "\<forall>x \<in> set (contents v). cmp val x \<noteq> 0"
  shows "\<exists>p. Vector_UpperBound cmp val v = Some (p, False)"
proof -
  obtain p where p: "bisect (\<lambda>item. \<not> cmp val item < 0) v 0 (vec_size v) = Some p" "p \<le> vec_size v"
    using bisect_total [OF assms(1), of 0 "vec_size v"] by auto
  show ?thesis
  proof (cases p)
    case (Suc k)
    then have "k < vec_size v" using p(2) by simp
    then show ?thesis
      using p(1) Suc cell_contents [OF assms(1), of k] assms(2) length_contents [OF assms(1)]
      by (simp add: Vector_UpperBound_def)
  qed (use p in \<open>simp add: Vector_UpperBound_def\<close>)
qed

lemma Vector_CreateSize_ok: "Vector_CreateSize True True n = Some v \<Longrightarrow> n < 2 ^ 60 \<Longrightarrow> vec_ok v \<and> contents v = []"
  using Vector_Reserve_ok [of "\<lparr>vec_items = [], vec_capacity = 0, vec_size = 0\<rparr>" n True]
  by (auto simp: Vector_CreateSize_def Vector_Create_def vec_ok_def contents_def split: prod.splits bool.splits)

lemma insert_new_region_ok:
  assumes "vec_ok regions" "vec_capacity regions < 2 ^ 59" "\<forall>q. mem q"
  shows "\<exists>regions' r. insert_new_region mem regions name from until (vec_size regions) = Some (SEL_SUCCESS, regions')
    \<and> vec_ok regions' \<and> contents regions' = contents regions @ [r] \<and> region_name r = name \<and> vec_ok (intervals r)
    \<and> contents (intervals r) = [\<lparr>iv_first = word_of_int from, iv_last = word_of_int until\<rparr>]"
proof -
  obtain ivs :: "interval vector" where ivs: "Vector_CreateSize True True 1 = Some ivs" "vec_capacity ivs = 1"
    by (simp add: Vector_CreateSize_def Vector_Create_def Vector_Reserve_def)
  have ivs_ok: "vec_ok ivs" "contents ivs = []" using Vector_CreateSize_ok [OF ivs(1)] by simp_all
  let ?r = "\<lparr>region_name = name, intervals = ivs\<rparr>"
  obtain v where v: "Vector_Insert True regions (vec_size regions) ?r = Some (True, v)" "vec_ok v"
    "contents v = contents regions @ [?r]"
    using Vector_Insert_refines [OF assms(1,2) order_refl, of True ?r] length_contents [OF assms(1)] by auto
  obtain w where w: "add_interval mem ?r (word_of_int from) (word_of_int until) = Some (?r\<lparr>intervals := w\<rparr>)"
    "vec_ok w" "contents w = [\<lparr>iv_first = word_of_int from, iv_last = word_of_int until\<rparr>]"
    using add_interval_sorted [of ?r "word_of_int from" mem "word_of_int until"] ivs_ok ivs(2) assms(3) by auto
  have len: "vec_size v = Suc (length (contents regions))" using length_contents [OF v(2)] v(3) by simp
  then obtain v' where "Vector_Set v (vec_size regions) (?r\<lparr>intervals := w\<rparr>) = Some v'" "vec_ok v'"
    "contents v' = (contents v)[vec_size regions := ?r\<lparr>intervals := w\<rparr>]"
    using Vector_Set_refines [OF v(2), of "vec_size regions"] length_contents [OF assms(1)] by auto
  then show ?thesis using v w ivs(1) assms(3) length_contents [OF assms(1)]
    by (auto simp: insert_new_region_def CStr_dup_def Let_def list_update_append)
qed

section \<open>Which visits are recorded\<close>

text \<open>\<open>n\<close> visits of a region outside of other regions, with the answers of the enters.\<close>

fun visits :: "nat \<Rightarrow> user_region \<Rightarrow> recording \<Rightarrow> (bool list \<times> user_region \<times> recording) option" where
  "visits 0 region rec = Some ([], region, rec)"
| "visits (Suc n) region rec = do {
     let (recorded, region, rec) = selective_check_enter region rec;
     (answer, region, rec) \<leftarrow> selective_check_exit region rec;
     (rs, region, rec) \<leftarrow> visits n region rec;
     Some (recorded # rs, region, rec)
   }"

definition selects :: "interval \<Rightarrow> u64 \<Rightarrow> bool" where
  "selects iv i \<longleftrightarrow> iv_first iv \<le> i \<and> i \<le> iv_last iv"

text \<open>Before visit \<open>i\<close>: the current interval ends at or behind it, those before it have ended.\<close>

definition at_visit :: "interval list \<Rightarrow> u64 \<Rightarrow> user_region \<Rightarrow> bool" where
  "at_visit ivs i region \<longleftrightarrow> \<not> has_enabled region \<and>
     (case selection region of
        None \<Rightarrow> \<forall>iv \<in> set ivs. iv_last iv < i
      | Some sel \<Rightarrow> vec_ok (intervals sel) \<and> contents (intervals sel) = ivs \<and> enters region = i
          \<and> current_interval_index region < length ivs \<and> current_interval region = ivs ! current_interval_index region
          \<and> i \<le> iv_last (current_interval region)
          \<and> (\<forall>k < current_interval_index region. iv_last (ivs ! k) < i))"

lemma next_interval_spec:
  assumes "selection region = Some sel" "vec_ok (intervals sel)" "contents (intervals sel) = ivs"
    "current_interval_index region < length ivs" "current_interval region = ivs ! current_interval_index region"
    "\<forall>k < current_interval_index region. iv_last (ivs ! k) < enters region" "\<not> has_enabled region"
  shows "\<exists>region'. next_interval region = Some region' \<and> at_visit ivs (enters region) region'"
  using assms
proof (induction region rule: next_interval.induct)
  case (1 region)
  have len: "Vector_Size (intervals sel) = length ivs"
    using length_contents [OF "1.prems"(2)] "1.prems"(3) by (simp add: Vector_Size_def)
  show ?case
  proof (cases "iv_last (current_interval region) < enters region")
    case False
    then show ?thesis using "1.prems" by (subst next_interval.simps) (auto simp: at_visit_def)
  next
    case True
    let ?j = "current_interval_index region"
    have ended: "\<forall>k < Suc ?j. iv_last (ivs ! k) < enters region"
      using True "1.prems"(5,6) by (auto simp: less_Suc_eq)
    show ?thesis
    proof (cases "?j < Vector_Size (intervals sel) - 1")
      case last: False
      then have "Suc ?j = length ivs" using "1.prems"(4) len by simp
      then have "\<forall>iv \<in> set ivs. iv_last iv < enters region" using ended by (auto simp: in_set_conv_nth)
      then show ?thesis using True last "1.prems" by (subst next_interval.simps) (auto simp: at_visit_def)
    next
      case more: True
      then have j: "Suc ?j < length ivs" using len by simp
      let ?r = "region\<lparr>current_interval_index := ?j + 1, current_interval := ivs ! (?j + 1)\<rparr>"
      have at: "Vector_At (intervals sel) (?j + 1) = Some (ivs ! (?j + 1))"
        using cell_contents [OF "1.prems"(2)] j len "1.prems"(3) by (simp add: Vector_At_def Vector_Size_def)
      have "next_interval region = next_interval ?r"
        using True more at "1.prems"(1) by (subst next_interval.simps) (simp add: Let_def)
      moreover have "\<exists>region'. next_interval ?r = Some region' \<and> at_visit ivs (enters ?r) region'"
        by (rule "1.IH" [OF True "1.prems"(1) more refl at]) (use "1.prems" ended j in \<open>auto\<close>)
      ultimately show ?thesis by simp
    qed
  qed
qed

lemma visit_step:
  assumes "at_visit ivs i region" "sorted_wrt iv_before ivs" "\<forall>iv \<in> set ivs. iv_first iv \<le> iv_last iv"
    "i < i + 1" "\<not> recording_enabled rec" "\<not> in_parallel rec"
  shows "\<exists>region' answer. (let (recorded, region, rec) = selective_check_enter region rec
      in map_option (\<lambda>x. (recorded, x)) (selective_check_exit region rec))
    = Some (\<exists>iv \<in> set ivs. selects iv i, answer, region', rec) \<and> at_visit ivs (i + 1) region'"
proof (cases "selection region")
  case None
  then have "\<not> (\<exists>iv \<in> set ivs. selects iv i)" using assms(1) by (auto simp: at_visit_def selects_def)
  moreover have "\<forall>iv \<in> set ivs. iv_last iv < i + 1" using None assms(1,4) by (auto simp: at_visit_def)
  ultimately show ?thesis using None assms
    by (auto simp: at_visit_def selective_check_enter_def selective_check_exit_def RecordingEnabled_def)
next
  case (Some sel)
  let ?j = "current_interval_index region"
  have a: "vec_ok (intervals sel)" "contents (intervals sel) = ivs" "enters region = i" "?j < length ivs"
    "current_interval region = ivs ! ?j" "i \<le> iv_last (ivs ! ?j)" "\<forall>k < ?j. iv_last (ivs ! k) < i"
    "\<not> has_enabled region"
    using assms(1) Some by (auto simp: at_visit_def)
  have sel: "(\<exists>iv \<in> set ivs. selects iv i) \<longleftrightarrow> iv_first (ivs ! ?j) \<le> i"
  proof
    assume "\<exists>iv \<in> set ivs. selects iv i"
    then obtain k where k: "k < length ivs" "selects (ivs ! k) i" by (auto simp: in_set_conv_nth)
    have "?j \<le> k" using a(7) k(2) by (meson leD not_le selects_def)
    then have "iv_first (ivs ! ?j) \<le> iv_first (ivs ! k)"
      using sorted_wrt_nth_less [OF assms(2), of ?j k] k(1) by (cases "?j = k") (auto simp: iv_before_def)
    then show "iv_first (ivs ! ?j) \<le> i" using k(2) by (auto simp: selects_def)
  qed (use a(4,6) in \<open>auto simp: selects_def\<close>)
  have later: "\<forall>k < ?j. iv_last (ivs ! k) < i + 1" using a(7) assms(4) by auto
  show ?thesis
  proof (cases "iv_first (ivs ! ?j) \<le> i")
    case True
    let ?r = "region\<lparr>enters := i + 1, exits := 0, has_enabled := False\<rparr>"
    obtain region' where r: "next_interval ?r = Some region'" "at_visit ivs (enters ?r) region'"
      using next_interval_spec [of ?r sel ivs] Some a later by auto
    have "selective_check_enter region rec = (True, region\<lparr>enters := i + 1, exits := 1, has_enabled := True\<rparr>,
        rec\<lparr>recording_enabled := True\<rparr>)"
      using Some a True assms(5,6) by (simp add: selective_check_enter_def RecordingEnabled_def EnableRecording_def)
    moreover have "rec\<lparr>recording_enabled := False\<rparr> = rec" using assms(5) by (cases rec) simp
    ultimately show ?thesis using r sel True assms(6)
      by (simp add: selective_check_exit_def DisableRecording_def Let_def) blast
  next
    case False
    have "i + 1 \<le> iv_last (ivs ! ?j)"
    proof -
      have "i < iv_last (ivs ! ?j)" using False assms(3) a(4) nth_mem by fastforce
      then show ?thesis by (rule inc_le)
    qed
    then have "at_visit ivs (i + 1) (region\<lparr>enters := i + 1\<rparr>)"
      using Some a later by (simp add: at_visit_def)
    moreover have "selective_check_enter region rec = (False, region\<lparr>enters := i + 1\<rparr>, rec)"
      using Some a False assms(5) by (simp add: selective_check_enter_def RecordingEnabled_def)
    ultimately show ?thesis using sel False a(8) assms(5)
      by (simp add: selective_check_exit_def RecordingEnabled_def) blast
  qed
qed


lemma visits_at:
  assumes "at_visit ivs (of_nat i) region" "sorted_wrt iv_before ivs" "\<forall>iv \<in> set ivs. iv_first iv \<le> iv_last iv"
    "i + n < 2 ^ 64" "\<not> recording_enabled rec" "\<not> in_parallel rec"
  shows "\<exists>region'. visits n region rec
    = Some (map (\<lambda>k. \<exists>iv \<in> set ivs. selects iv (of_nat k)) [i..<i + n], region', rec)
    \<and> at_visit ivs (of_nat (i + n)) region'"
  using assms(1,4)
proof (induction n arbitrary: i region)
  case (Suc n)
  have "(of_nat i :: u64) < of_nat i + 1"
    using Suc.prems(2) by (simp add: word_less_nat_alt unat_of_nat unat_word_ariths flip: of_nat_Suc)
  from visit_step [OF Suc.prems(1) assms(2,3) this assms(5,6)]
  obtain r1 rec1 b answer region' where
    s: "selective_check_enter region rec = (b, r1, rec1)" "selective_check_exit r1 rec1 = Some (answer, region', rec)"
      "b = (\<exists>iv \<in> set ivs. selects iv (of_nat i))" "at_visit ivs (of_nat (Suc i)) region'"
    by (cases "selective_check_enter region rec") (auto simp: add.commute)
  obtain region'' where "visits n region' rec
      = Some (map (\<lambda>k. \<exists>iv \<in> set ivs. selects iv (of_nat k)) [Suc i..<Suc i + n], region'', rec)"
    "at_visit ivs (of_nat (Suc i + n)) region''"
    using Suc.IH [OF s(4)] Suc.prems(2) by auto
  then show ?case using s(1-3) by (simp add: upt_conv_Cons del: upt_Suc)
qed simp

section \<open>Properties\<close>


definition sample_region :: selected_region where
  "sample_region = \<lparr>region_name = ''solve'', intervals =
     \<lparr>vec_items = [Some \<lparr>iv_first = 1, iv_last = 2\<rparr>, Some \<lparr>iv_first = 4, iv_last = 4\<rparr>], vec_capacity = 2, vec_size = 2\<rparr>\<rparr>"

definition sample_regions :: "selected_region vector" where
  "sample_regions = \<lparr>vec_items = [Some sample_region, None], vec_capacity = 2, vec_size = 1\<rparr>"


text \<open>A region that is not at its current interval stays unrecorded.\<close>

lemma visits_unselected:
  assumes "selection region \<noteq> None" "\<not> has_enabled region" "\<not> recording_enabled rec"
    "\<forall>k < n. \<not> selects (current_interval region) (enters region + of_nat k)"
  shows "visits n region rec = Some (replicate n False, region\<lparr>enters := enters region + of_nat n\<rparr>, rec)"
  using assms
proof (induction n arbitrary: region)
  case (Suc n)
  let ?r = "region\<lparr>enters := enters region + 1\<rparr>"
  have "\<not> selects (current_interval region) (enters region)" using Suc.prems(4) by force
  then have "selective_check_enter region rec = (False, ?r, rec)"
    using Suc.prems(1-3) by (auto simp: selective_check_enter_def RecordingEnabled_def selects_def)
  moreover have "selective_check_exit ?r rec = Some (False, ?r, rec)"
    using Suc.prems(2,3) by (simp add: selective_check_exit_def RecordingEnabled_def)
  moreover have "visits n ?r rec = Some (replicate n False, ?r\<lparr>enters := enters ?r + of_nat n\<rparr>, rec)"
  proof (rule Suc.IH)
    show "\<forall>k < n. \<not> selects (current_interval ?r) (enters ?r + of_nat k)"
      using Suc.prems(4) by (force simp: add.assoc dest: spec [of _ "Suc _"])
  qed (use Suc.prems in auto)
  ultimately show ?case by (simp add: add.assoc)
qed simp

text \<open>
  Intervals whose starts are 128 to 255 apart are stored in the wrong order, because the
  difference is returned as \<open>int8_t\<close>; a region that selects visit \<open>a\<close> and then visit \<open>b\<close> is not
  recorded in any visit up to \<open>a\<close>.
\<close>

theorem selective_far_intervals_lost:
  assumes "vec_ok (intervals r)" "contents (intervals r) = [\<lparr>iv_first = a, iv_last = a\<rparr>]"
    and "vec_capacity (intervals r) < 2 ^ 59" "\<forall>q. mem q" "uint a + 128 \<le> uint b" "uint b < uint a + 256"
    and "\<not> recording_enabled rec"
  shows "\<exists>ivs. add_interval mem r b b = Some (r\<lparr>intervals := ivs\<rparr>)
    \<and> contents ivs = [\<lparr>iv_first = b, iv_last = b\<rparr>, \<lparr>iv_first = a, iv_last = a\<rparr>]
    \<and> (\<forall>e. visits (unat a + 1) \<lparr>selection = Some (r\<lparr>intervals := ivs\<rparr>), current_interval_index = 0,
            current_interval = contents ivs ! 0, enters = 0, exits = e, has_enabled = False\<rparr> rec
          = Some (replicate (unat a + 1) False, \<lparr>selection = Some (r\<lparr>intervals := ivs\<rparr>), current_interval_index = 0,
              current_interval = contents ivs ! 0, enters = a + 1, exits = e, has_enabled = False\<rparr>, rec))"
proof -
  let ?v = "intervals r" and ?b = "\<lparr>iv_first = b, iv_last = b\<rparr>"
  have sz: "vec_size ?v = 1" using length_contents [OF assms(1)] assms(2) by simp
  have c: "cell ?v 0 = Some \<lparr>iv_first = a, iv_last = a\<rparr>" using cell_contents [OF assms(1), of 0] sz assms(2) by simp
  have cmp: "compare_intervals b \<lparr>iv_first = a, iv_last = a\<rparr> = uint b - uint a - 256"
    using int8_of_wrap [of "uint b - uint a"] assms(5,6) by (simp add: compare_intervals_def int8_of_diff)
  have "Vector_LowerBound compare_intervals b ?v = Some (0, False)"
    using assms(5,6) by (simp add: Vector_LowerBound_def sz bisect.simps c cmp)
  moreover obtain ivs where ivs: "Vector_Insert True ?v 0 ?b = Some (True, ivs)" "contents ivs = [?b, \<lparr>iv_first = a, iv_last = a\<rparr>]"
    using Vector_Insert_refines [OF assms(1,3), of 0 True ?b] assms(2) by auto
  ultimately have add: "add_interval mem r b b = Some (r\<lparr>intervals := ivs\<rparr>)"
    using assms(4) by (simp add: add_interval_def)
  have "\<not> selects ?b (0 + of_nat k)" if "k < unat a + 1" for k
  proof -
    have "k < 2 ^ 64" using that unsigned_less [of a, where ?'a = nat] by simp
    then have "unat (of_nat k :: u64) = k" by (simp add: unat_of_nat)
    moreover have "unat a < unat b" using assms(5) by (simp add: word_less_def flip: word_less_nat_alt)
    ultimately show ?thesis using that by (simp add: selects_def word_le_nat_alt)
  qed
  then have "visits (unat a + 1) \<lparr>selection = Some (r\<lparr>intervals := ivs\<rparr>), current_interval_index = 0,
            current_interval = contents ivs ! 0, enters = 0, exits = e, has_enabled = False\<rparr> rec
          = Some (replicate (unat a + 1) False, \<lparr>selection = Some (r\<lparr>intervals := ivs\<rparr>), current_interval_index = 0,
              current_interval = contents ivs ! 0, enters = a + 1, exits = e, has_enabled = False\<rparr>, rec)" for e
    by (subst visits_unselected) (use assms(7) ivs(2) in \<open>auto simp: add.commute\<close>)
  then show ?thesis using add ivs(2) by blast
qed

theorem selective_far_intervals_lost_witness:
  "\<exists>ivs. add_interval (\<lambda>_. True) \<lparr>region_name = ''r'', intervals =
        \<lparr>vec_items = [Some \<lparr>iv_first = 0, iv_last = 0\<rparr>], vec_capacity = 1, vec_size = 1\<rparr>\<rparr> 200 200
      = Some \<lparr>region_name = ''r'', intervals = ivs\<rparr>
    \<and> contents ivs = [\<lparr>iv_first = 200, iv_last = 200\<rparr>, \<lparr>iv_first = 0, iv_last = 0\<rparr>]"
  using selective_far_intervals_lost [of "\<lparr>region_name = ''r'', intervals =
        \<lparr>vec_items = [Some \<lparr>iv_first = 0, iv_last = 0\<rparr>], vec_capacity = 1, vec_size = 1\<rparr>\<rparr>" 0 "\<lambda>_. True" 200
        "\<lparr>recording_enabled = False, in_parallel = False\<rparr>"]
  by (auto simp: vec_ok_def contents_def)

text \<open>
  When a region passes the end of its current interval while recording is already on, because a
  region around it has enabled it, the region does not go on to its next interval: with recording off
  again, no later visit is recorded, whatever its selection says.
\<close>

theorem selective_stale_interval:
  assumes "selection region = Some sel" "\<not> has_enabled region" "recording_enabled rec" "\<not> in_parallel rec"
    and "iv_last (current_interval region) \<le> enters region" "unat (enters region) + 1 + n < 2 ^ 64"
  shows "\<exists>region' region''. visits 1 region rec = Some ([True], region', rec) \<and> selection region' = Some sel
    \<and> visits n region' (DisableRecording rec) = Some (replicate n False, region'', DisableRecording rec)"
proof -
  let ?r = "region\<lparr>enters := enters region + 1\<rparr>"
  have v: "visits 1 region rec = Some ([True], ?r, rec)"
    using assms(1-3) by (simp add: selective_check_enter_def selective_check_exit_def RecordingEnabled_def)
  have "\<not> selects (current_interval ?r) (enters ?r + of_nat k)" if "k < n" for k
  proof -
    have "unat (enters ?r + of_nat k) = unat (enters region) + 1 + k"
      using assms(6) that by (simp add: unat_word_ariths unat_of_nat)
    then have "iv_last (current_interval region) < enters ?r + of_nat k"
      using assms(5) by (simp add: word_less_nat_alt word_le_nat_alt)
    then show ?thesis by (simp add: selects_def not_le)
  qed
  then have "visits n ?r (DisableRecording rec)
      = Some (replicate n False, ?r\<lparr>enters := enters ?r + of_nat n\<rparr>, DisableRecording rec)"
    by (intro visits_unselected) (use assms in \<open>auto simp: DisableRecording_def\<close>)
  then show ?thesis using v assms(1) by auto
qed

theorem selective_stale_interval_witness:
  "\<exists>region' region''. visits 1 \<lparr>selection = Some sample_region, current_interval_index = 0,
        current_interval = \<lparr>iv_first = 1, iv_last = 2\<rparr>, enters = 2, exits = 0, has_enabled = False\<rparr>
      \<lparr>recording_enabled = True, in_parallel = False\<rparr> = Some ([True], region', \<lparr>recording_enabled = True, in_parallel = False\<rparr>)
    \<and> visits 3 region' \<lparr>recording_enabled = False, in_parallel = False\<rparr>
      = Some ([False, False, False], region'', \<lparr>recording_enabled = False, in_parallel = False\<rparr>)"
  using selective_stale_interval [of "\<lparr>selection = Some sample_region, current_interval_index = 0,
        current_interval = \<lparr>iv_first = 1, iv_last = 2\<rparr>, enters = 2, exits = 0, has_enabled = False\<rparr>" sample_region
      "\<lparr>recording_enabled = True, in_parallel = False\<rparr>" 3]
  by (auto simp: DisableRecording_def numeral_3_eq_3 simp del: visits.simps)

text \<open>
  Adding an interval for a region that is not in the list appends the region, with this interval;
  for a known region the interval goes to its first entry. The list is in the order in which the
  regions are first named, not sorted by name.
\<close>

theorem selective_add_region:
  assumes "vec_ok regions" "vec_capacity regions < 2 ^ 59" "\<forall>q. mem q"
    and "NUL \<notin> set name" "\<forall>r \<in> set (contents regions). NUL \<notin> set (region_name r)"
  shows "(name \<notin> region_name ` set (contents regions) \<longrightarrow>
      (\<exists>regions' r. add_region mem regions name from until = Some regions' \<and> vec_ok regions'
        \<and> contents regions' = contents regions @ [r] \<and> region_name r = name \<and> vec_ok (intervals r)
        \<and> contents (intervals r) = [\<lparr>iv_first = word_of_int from, iv_last = word_of_int until\<rparr>]))
    \<and> (\<forall>i r. i < length (contents regions) \<longrightarrow> region_name (contents regions ! i) = name
      \<longrightarrow> (\<forall>j < i. region_name (contents regions ! j) \<noteq> name)
      \<longrightarrow> add_interval mem (contents regions ! i) (word_of_int from) (word_of_int until) = Some r
      \<longrightarrow> (\<exists>regions'. add_region mem regions name from until = Some regions' \<and> vec_ok regions'
           \<and> contents regions' = (contents regions)[i := r]))"
proof -
  have eq: "compare_regions name r = 0 \<longleftrightarrow> region_name r = name" if "r \<in> set (contents regions)" for r
    using compare_regions_0 assms(4,5) that by blast
  have len: "length (contents regions) = vec_size regions" by (rule length_contents [OF assms(1)])
  obtain found where f: "find_from compare_regions name regions 0 = Some found"
    and ff: "case found of None \<Rightarrow> \<forall>x \<in> set (drop 0 (contents regions)). compare_regions name x \<noteq> 0
       | Some k \<Rightarrow> 0 \<le> k \<and> k < vec_size regions \<and> compare_regions name (contents regions ! k) = 0
           \<and> (\<forall>j. 0 \<le> j \<and> j < k \<longrightarrow> compare_regions name (contents regions ! j) \<noteq> 0)"
    using find_from_first [OF assms(1), of 0 compare_regions name] by blast
  show ?thesis
  proof (cases found)
    case None
    then have none: "\<forall>x \<in> set (contents regions). compare_regions name x \<noteq> 0" using ff by simp
    obtain p where "Vector_UpperBound compare_regions name regions = Some (p, False)"
      using upper_bound_unmatched [of regions compare_regions name] assms(1) none by blast
    then have "add_region mem regions name from until
        = map_option snd (insert_new_region mem regions name from until (vec_size regions))"
      using f None
      by (cases "insert_new_region mem regions name from until (vec_size regions)")
         (auto simp: add_region_def Vector_Find_def Vector_Size_def)
    moreover obtain regions' r where
      "insert_new_region mem regions name from until (vec_size regions) = Some (SEL_SUCCESS, regions')"
      "vec_ok regions'" "contents regions' = contents regions @ [r]" "region_name r = name" "vec_ok (intervals r)"
      "contents (intervals r) = [\<lparr>iv_first = word_of_int from, iv_last = word_of_int until\<rparr>]"
      using insert_new_region_ok [OF assms(1-3)] by blast
    moreover have "\<not> (i < length (contents regions) \<and> region_name (contents regions ! i) = name)" for i
      using none eq nth_mem by blast
    ultimately show ?thesis by auto
  next
    case (Some k)
    then have k: "k < vec_size regions" "region_name (contents regions ! k) = name"
      "\<forall>j < k. region_name (contents regions ! j) \<noteq> name"
      using ff eq len by auto
    have at: "Vector_At regions k = Some (contents regions ! k)"
      using cell_contents [OF assms(1) k(1)] k(1) by (simp add: Vector_At_def)
    have "\<exists>regions'. add_region mem regions name from until = Some regions' \<and> vec_ok regions'
        \<and> contents regions' = (contents regions)[k := r]"
      if "add_interval mem (contents regions ! k) (word_of_int from) (word_of_int until) = Some r" for r
      using that f Some at Vector_Set_refines [OF assms(1) k(1), of r] by (auto simp: add_region_def Vector_Find_def)
    moreover have "i = k" if "region_name (contents regions ! i) = name" "\<forall>j < i. region_name (contents regions ! j) \<noteq> name" for i
      using that k(2,3) by (metis linorder_neqE_nat)
    moreover have "name \<in> region_name ` set (contents regions)" using k(1,2) len by (metis image_eqI nth_mem)
    ultimately show ?thesis by blast
  qed
qed

theorem selective_add_region_witness:
  "\<exists>regions' r. add_region (\<lambda>_. True) sample_regions ''a'' 0 (- 1) = Some regions'
    \<and> contents regions' = [sample_region, r] \<and> region_name r = ''a''
    \<and> contents (intervals r) = [\<lparr>iv_first = 0, iv_last = - 1\<rparr>]"
proof -
  have "vec_ok sample_regions" "contents sample_regions = [sample_region]" "vec_capacity sample_regions < 2 ^ 59"
    by (simp_all add: sample_regions_def vec_ok_def contents_def)
  moreover have "region_name sample_region = ''solve''" by (simp add: sample_region_def)
  ultimately show ?thesis
    using selective_add_region [of sample_regions "\<lambda>_. True" "''a''" 0 "- 1"] by auto
qed

end
