(* ===== verification/Scorep_Filter.thy ===== *)
theory Scorep_Filter
  imports Scorep_IO
begin

text \<open>
  Filter rules and the matching of files and functions,
  \<open>src/src/utils/filter/scorep_filter_matching.c\<close>, with the matching interface of
  \<open>scorep_filter_parser.c\<close>.

  A rule list is the list of its rules; the tail pointer makes adding an append. \<open>fnmatch\<close> is the
  function of the system, given as a parameter: 0 is a match, 1 (\<open>FNM_NOMATCH\<close>) is none, any other
  value an error. A pattern is \<open>None\<close> when its duplication failed; matching it is undefined.
\<close>

section \<open>Rules\<close>

record filter_rule =
  pattern :: "string option"
  is_mangled :: bool
  is_exclude :: bool

datatype filter_error =
  FILTER_SUCCESS | FILTER_INVALID_ARGUMENT | FILTER_MEM_ALLOC_FAILED | FILTER_PROCESSED_WITH_FAULTS
| FILTER_PARSE_SYNTAX | FILTER_FILE_CAN_NOT_OPEN | FILTER_FILE_INTERACTION

text \<open>\<open>mem\<close> tells whether \<open>calloc\<close> and the duplication of the pattern succeed.\<close>

definition filter_add_rule ::
    "bool \<times> bool \<Rightarrow> filter_rule list \<Rightarrow> string option \<Rightarrow> bool \<Rightarrow> bool \<Rightarrow> filter_error \<times> filter_rule list" where
  "filter_add_rule mem rules rule exclude mangled =
     (case rule of
        None \<Rightarrow> (FILTER_INVALID_ARGUMENT, rules)
      | Some r \<Rightarrow>
          if r = [] then (FILTER_INVALID_ARGUMENT, rules)
          else if \<not> fst mem then (FILTER_MEM_ALLOC_FAILED, rules)
          else (FILTER_SUCCESS, rules @ [\<lparr>pattern = CStr_dup (\<lambda>_. snd mem) rule, is_mangled = mangled,
             is_exclude = exclude\<rparr>]))"

section \<open>Matching\<close>

definition match_result :: "int \<Rightarrow> bool \<times> filter_error" where
  "match_result error_value =
     (if error_value = 0 then (True, FILTER_SUCCESS)
      else if error_value \<noteq> 1 then (False, FILTER_PROCESSED_WITH_FAULTS)
      else (False, FILTER_SUCCESS))"

definition filter_match_file_rule ::
    "(string \<Rightarrow> string \<Rightarrow> int) \<Rightarrow> string \<Rightarrow> filter_rule \<Rightarrow> (bool \<times> filter_error) option" where
  "filter_match_file_rule fnmatch with_path rule = do {
     p \<leftarrow> pattern rule;
     Some (match_result (fnmatch p with_path))
   }"

definition filter_match_function_rule ::
    "(string \<Rightarrow> string \<Rightarrow> int) \<Rightarrow> string \<Rightarrow> string option \<Rightarrow> filter_rule \<Rightarrow> (bool \<times> filter_error) option" where
  "filter_match_function_rule fnmatch functionName mangledName rule = do {
     p \<leftarrow> pattern rule;
     Some (match_result
       (if is_mangled rule \<and> mangledName \<noteq> None then fnmatch p (the mangledName) else fnmatch p functionName))
   }"

text \<open>The loop of \<open>scorep_filter_match_file\<close> and \<open>scorep_filter_match_function\<close>.\<close>

fun match_rules :: "(filter_rule \<Rightarrow> (bool \<times> filter_error) option) \<Rightarrow> filter_rule list \<Rightarrow> bool \<Rightarrow> filter_error
    \<Rightarrow> (bool \<times> filter_error) option" where
  "match_rules match_rule [] excluded err = Some (excluded, err)"
| "match_rules match_rule (rule # rules) excluded err =
     (if \<not> excluded \<and> is_exclude rule then do {
        (matched, err) \<leftarrow> match_rule rule;
        if err \<noteq> FILTER_SUCCESS then Some (False, err) else match_rules match_rule rules matched err
      }
      else if excluded \<and> \<not> is_exclude rule then do {
        (matched, err) \<leftarrow> match_rule rule;
        if err \<noteq> FILTER_SUCCESS then Some (False, err) else match_rules match_rule rules (\<not> matched) err
      }
      else match_rules match_rule rules excluded err)"

definition filter_match_file ::
    "(string \<Rightarrow> string \<Rightarrow> int) \<Rightarrow> filter_rule list \<Rightarrow> string option \<Rightarrow> (bool \<times> filter_error) option" where
  "filter_match_file fnmatch fileRules fileName =
     (case fileName of
        None \<Rightarrow> Some (False, FILTER_SUCCESS)
      | Some name \<Rightarrow> match_rules (filter_match_file_rule fnmatch name) fileRules False FILTER_SUCCESS)"

definition filter_match_function ::
    "(string \<Rightarrow> string \<Rightarrow> int) \<Rightarrow> filter_rule list \<Rightarrow> string option \<Rightarrow> string option
     \<Rightarrow> (bool \<times> filter_error) option" where
  "filter_match_function fnmatch functionRules functionName mangledName =
     (case functionName of
        None \<Rightarrow> Some (False, FILTER_SUCCESS)
      | Some name \<Rightarrow>
          match_rules (filter_match_function_rule fnmatch name mangledName) functionRules False FILTER_SUCCESS)"

text \<open>The loop of \<open>scorep_filter_include_function\<close>; every rule is matched.\<close>

fun include_rules :: "(filter_rule \<Rightarrow> (bool \<times> filter_error) option) \<Rightarrow> filter_rule list \<Rightarrow> bool \<Rightarrow> bool
    \<Rightarrow> filter_error \<Rightarrow> (bool \<times> filter_error) option" where
  "include_rules match_rule [] excluded explicitly_included err = Some (\<not> excluded \<and> explicitly_included, err)"
| "include_rules match_rule (rule # rules) excluded explicitly_included err = do {
     (matched, err) \<leftarrow> match_rule rule;
     let explicitly_included =
       (if matched then (if is_exclude rule then False
                         else if pattern rule \<noteq> Some ''*'' then True else explicitly_included)
        else explicitly_included);
     if \<not> excluded \<and> is_exclude rule then
       (if err \<noteq> FILTER_SUCCESS then Some (True, err)
        else include_rules match_rule rules matched explicitly_included err)
     else if excluded \<and> \<not> is_exclude rule then
       (if err \<noteq> FILTER_SUCCESS then Some (True, err)
        else include_rules match_rule rules (\<not> matched) explicitly_included err)
     else include_rules match_rule rules excluded explicitly_included err
   }"

definition filter_include_function ::
    "(string \<Rightarrow> string \<Rightarrow> int) \<Rightarrow> filter_rule list \<Rightarrow> string option \<Rightarrow> string option
     \<Rightarrow> (bool \<times> filter_error) option" where
  "filter_include_function fnmatch functionRules functionName mangledName =
     (case functionName of
        None \<Rightarrow> Some (True, FILTER_SUCCESS)
      | Some name \<Rightarrow>
          include_rules (filter_match_function_rule fnmatch name mangledName) functionRules False False FILTER_SUCCESS)"

text \<open>What the callbacks of the two \<open>ForAll\<close> functions get, in order.\<close>

definition ForAllRules :: "filter_rule list \<Rightarrow> (string option \<times> bool \<times> bool) list" where
  "ForAllRules rules = map (\<lambda>r. (pattern r, is_exclude r, is_mangled r)) rules"

section \<open>The filter\<close>

record 'r scorep_filter =
  file_rules :: "'r list"
  function_rules :: "'r list"

type_synonym flt = "filter_rule scorep_filter"

definition Filter_New :: "bool \<Rightarrow> flt option" where
  "Filter_New calloc_ok = (if calloc_ok then Some \<lparr>file_rules = [], function_rules = []\<rparr> else None)"

text \<open>The result is the error code and what is stored through \<open>result\<close>; the pointer is not null.\<close>

definition Filter_MatchFile ::
    "(string \<Rightarrow> string \<Rightarrow> int) \<Rightarrow> flt option \<Rightarrow> string option \<Rightarrow> (filter_error \<times> bool option) option" where
  "Filter_MatchFile fnmatch flt fileName =
     (case flt of
        None \<Rightarrow> Some (FILTER_INVALID_ARGUMENT, None)
      | Some f \<Rightarrow> do { (r, err) \<leftarrow> filter_match_file fnmatch (file_rules f) fileName; Some (err, Some r) })"

definition Filter_MatchFunction ::
    "(string \<Rightarrow> string \<Rightarrow> int) \<Rightarrow> flt option \<Rightarrow> string option \<Rightarrow> string option
     \<Rightarrow> (filter_error \<times> bool option) option" where
  "Filter_MatchFunction fnmatch flt functionName mangledName =
     (case flt of
        None \<Rightarrow> Some (FILTER_INVALID_ARGUMENT, None)
      | Some f \<Rightarrow> do {
          (r, err) \<leftarrow> filter_match_function fnmatch (function_rules f) functionName mangledName;
          Some (err, Some r)
        })"

definition Filter_IncludeFunction ::
    "(string \<Rightarrow> string \<Rightarrow> int) \<Rightarrow> flt option \<Rightarrow> string option \<Rightarrow> string option
     \<Rightarrow> (filter_error \<times> bool option) option" where
  "Filter_IncludeFunction fnmatch flt functionName mangledName =
     (case flt of
        None \<Rightarrow> Some (FILTER_INVALID_ARGUMENT, None)
      | Some f \<Rightarrow> do {
          (r, err) \<leftarrow> filter_include_function fnmatch (function_rules f) functionName mangledName;
          Some (err, Some r)
        })"

definition Filter_Match ::
    "(string \<Rightarrow> string \<Rightarrow> int) \<Rightarrow> flt option \<Rightarrow> string option \<Rightarrow> string option \<Rightarrow> string option
     \<Rightarrow> (filter_error \<times> bool option) option" where
  "Filter_Match fnmatch flt fileName functionName mangledName =
     (case flt of
        None \<Rightarrow> Some (FILTER_INVALID_ARGUMENT, None)
      | Some f \<Rightarrow> do {
          (r, err) \<leftarrow> filter_match_file fnmatch (file_rules f) fileName;
          if r then Some (err, Some True)
          else do {
            (r, err) \<leftarrow> filter_match_function fnmatch (function_rules f) functionName mangledName;
            Some (err, Some r)
          }
        })"

section \<open>The last matching rule decides\<close>

text \<open>The verdict of a rule list, with the last rule that matches.\<close>

definition last_match :: "(filter_rule \<Rightarrow> bool) \<Rightarrow> filter_rule list \<Rightarrow> filter_rule option" where
  "last_match m rules = find m (rev rules)"

lemma last_match_simps [simp]:
  "last_match m [] = None"
  "last_match m (rules @ [rule]) = (if m rule then Some rule else last_match m rules)"
  by (simp_all add: last_match_def)

lemma last_match_Cons:
  "last_match m (rule # rules) = (case last_match m rules of None \<Rightarrow> if m rule then Some rule else None | Some r \<Rightarrow> Some r)"
proof (induction rules rule: rev_induct)
  case (snoc r rules)
  have "rule # rules @ [r] = (rule # rules) @ [r]" by simp
  then show ?case using snoc by (simp only: last_match_simps) auto
qed (simp add: last_match_def)

lemma match_rules_last:
  assumes "\<forall>r \<in> set rules. match_rule r = Some (m r, FILTER_SUCCESS)"
  shows "match_rules match_rule rules excluded FILTER_SUCCESS
    = Some (case last_match m rules of None \<Rightarrow> excluded | Some r \<Rightarrow> is_exclude r, FILTER_SUCCESS)"
  using assms
proof (induction rules arbitrary: excluded)
  case (Cons rule rules)
  then show ?case by (cases "last_match m rules") (auto simp: last_match_Cons)
qed simp

text \<open>Rules whose patterns exist and on which \<open>fnmatch\<close> reports no error.\<close>

definition rules_fine :: "(string \<Rightarrow> string \<Rightarrow> int) \<Rightarrow> filter_rule list \<Rightarrow> string set \<Rightarrow> bool" where
  "rules_fine fnmatch rules names \<longleftrightarrow>
     (\<forall>r \<in> set rules. \<exists>p. pattern r = Some p \<and> (\<forall>n \<in> names. fnmatch p n = 0 \<or> fnmatch p n = 1))"

text \<open>The name a function rule looks at.\<close>

definition rule_name :: "string \<Rightarrow> string option \<Rightarrow> filter_rule \<Rightarrow> string" where
  "rule_name name mangled rule = (if is_mangled rule \<and> mangled \<noteq> None then the mangled else name)"

definition rule_matches :: "(string \<Rightarrow> string \<Rightarrow> int) \<Rightarrow> string \<Rightarrow> string option \<Rightarrow> filter_rule \<Rightarrow> bool" where
  "rule_matches fnmatch name mangled rule \<longleftrightarrow> fnmatch (the (pattern rule)) (rule_name name mangled rule) = 0"

lemma function_rule_fine:
  assumes "rules_fine fnmatch rules (insert name (set_option mangled))" "r \<in> set rules"
  shows "filter_match_function_rule fnmatch name mangled r = Some (rule_matches fnmatch name mangled r, FILTER_SUCCESS)"
proof -
  obtain p where p: "pattern r = Some p"
    "\<forall>n \<in> insert name (set_option mangled). fnmatch p n = 0 \<or> fnmatch p n = 1"
    using assms unfolding rules_fine_def by blast
  moreover have "rule_name name mangled r \<in> insert name (set_option mangled)" by (auto simp: rule_name_def)
  ultimately have "fnmatch p (rule_name name mangled r) = 0 \<or> fnmatch p (rule_name name mangled r) = 1" by blast
  then show ?thesis using p(1)
    by (auto simp: filter_match_function_rule_def match_result_def rule_matches_def rule_name_def)
qed

lemma file_rule_fine:
  assumes "rules_fine fnmatch rules {name}" "r \<in> set rules"
  shows "filter_match_file_rule fnmatch name r = Some (fnmatch (the (pattern r)) name = 0, FILTER_SUCCESS)"
  using assms by (force simp: rules_fine_def filter_match_file_rule_def match_result_def)

text \<open>\<open>explicitly\<close> is decided by the last match that is an exclude rule or no plain star.\<close>

definition counts :: "filter_rule \<Rightarrow> bool" where
  "counts r \<longleftrightarrow> is_exclude r \<or> pattern r \<noteq> Some ''*''"

lemma include_rules_last:
  assumes "\<forall>r \<in> set rules. match_rule r = Some (m r, FILTER_SUCCESS)"
  shows "include_rules match_rule rules excluded explicit FILTER_SUCCESS
    = Some (\<not> (case last_match m rules of None \<Rightarrow> excluded | Some r \<Rightarrow> is_exclude r)
        \<and> (case last_match (\<lambda>r. m r \<and> counts r) rules of None \<Rightarrow> explicit | Some r \<Rightarrow> \<not> is_exclude r), FILTER_SUCCESS)"
  using assms
proof (induction rules arbitrary: excluded explicit)
  case (Cons rule rules)
  then show ?case
    by (cases "last_match m rules"; cases "last_match (\<lambda>r. m r \<and> counts r) rules")
       (auto simp: last_match_Cons counts_def Let_def)
qed simp

section \<open>Properties\<close>

text \<open>
  C37. Without matching errors, a function is filtered exactly when the last rule that matches it is an
  exclude rule; a mangled rule looks at the mangled name if there is one. The same holds for files.
\<close>

theorem filter_last_match_decides:
  assumes "rules_fine fnmatch (function_rules f) (insert name (set_option mangled))"
    and "rules_fine fnmatch (file_rules f) {file}"
  shows "Filter_MatchFunction fnmatch (Some f) (Some name) mangled
      = Some (FILTER_SUCCESS, Some (case last_match (rule_matches fnmatch name mangled) (function_rules f) of
          None \<Rightarrow> False | Some r \<Rightarrow> is_exclude r))
    \<and> Filter_MatchFile fnmatch (Some f) (Some file)
      = Some (FILTER_SUCCESS, Some (case last_match (\<lambda>r. fnmatch (the (pattern r)) file = 0) (file_rules f) of
          None \<Rightarrow> False | Some r \<Rightarrow> is_exclude r))"
proof -
  have "\<forall>r \<in> set (function_rules f). filter_match_function_rule fnmatch name mangled r
      = Some (rule_matches fnmatch name mangled r, FILTER_SUCCESS)"
    using function_rule_fine [OF assms(1)] by blast
  from match_rules_last [OF this, of False]
  have 1: "filter_match_function fnmatch (function_rules f) (Some name) mangled
      = Some (case last_match (rule_matches fnmatch name mangled) (function_rules f) of
          None \<Rightarrow> False | Some r \<Rightarrow> is_exclude r, FILTER_SUCCESS)"
    by (simp add: filter_match_function_def)
  have "\<forall>r \<in> set (file_rules f). filter_match_file_rule fnmatch file r
      = Some (fnmatch (the (pattern r)) file = 0, FILTER_SUCCESS)"
    using file_rule_fine [OF assms(2)] by blast
  from match_rules_last [OF this, of False]
  have 2: "filter_match_file fnmatch (file_rules f) (Some file)
      = Some (case last_match (\<lambda>r. fnmatch (the (pattern r)) file = 0) (file_rules f) of
          None \<Rightarrow> False | Some r \<Rightarrow> is_exclude r, FILTER_SUCCESS)"
    by (simp add: filter_match_file_def)
  show ?thesis by (simp add: Filter_MatchFunction_def Filter_MatchFile_def 1 2)
qed

text \<open>Matching of literal patterns and the star.\<close>

definition literal_match :: "string \<Rightarrow> string \<Rightarrow> int" where
  "literal_match p s = (if p = ''*'' \<or> p = s then 0 else if p = ''['' then 2 else 1)"

definition star_except :: flt where
  "star_except = \<lparr>file_rules = [\<lparr>pattern = Some ''['', is_mangled = False, is_exclude = True\<rparr>],
     function_rules = [\<lparr>pattern = Some ''*'', is_mangled = False, is_exclude = True\<rparr>,
       \<lparr>pattern = Some ''main'', is_mangled = False, is_exclude = False\<rparr>]\<rparr>"

theorem filter_last_match_decides_witness:
  "Filter_MatchFunction literal_match (Some (star_except\<lparr>file_rules := []\<rparr>)) (Some ''main'') None
    = Some (FILTER_SUCCESS, Some False)"
proof -
  let ?f = "star_except\<lparr>file_rules := []\<rparr>"
  have "rules_fine literal_match (function_rules ?f) (insert ''main'' (set_option None))"
    by (simp add: rules_fine_def star_except_def literal_match_def)
  moreover have "rules_fine literal_match (file_rules ?f) {''x''}"
    by (simp add: rules_fine_def)
  ultimately show ?thesis
    using filter_last_match_decides [of literal_match ?f "''main''" None "''x''"]
    by (simp add: star_except_def last_match_def rule_matches_def rule_name_def literal_match_def)
qed

text \<open>
  A function is reported as explicitly included exactly when its last matching rule includes it
  and, plain stars of include rules left aside, the last matching rule is an include rule.
\<close>

theorem filter_explicit_include:
  assumes "rules_fine fnmatch (function_rules f) (insert name (set_option mangled))"
  shows "Filter_IncludeFunction fnmatch (Some f) (Some name) mangled
    = Some (FILTER_SUCCESS, Some
        (let m = rule_matches fnmatch name mangled
         in \<not> (case last_match m (function_rules f) of None \<Rightarrow> False | Some r \<Rightarrow> is_exclude r)
           \<and> (case last_match (\<lambda>r. m r \<and> counts r) (function_rules f) of None \<Rightarrow> False | Some r \<Rightarrow> \<not> is_exclude r)))"
proof -
  have "\<forall>r \<in> set (function_rules f). filter_match_function_rule fnmatch name mangled r
      = Some (rule_matches fnmatch name mangled r, FILTER_SUCCESS)"
    using function_rule_fine [OF assms] by blast
  from include_rules_last [OF this, of False False] show ?thesis
    by (simp add: Filter_IncludeFunction_def filter_include_function_def Let_def)
qed

theorem filter_explicit_include_witness:
  "Filter_IncludeFunction literal_match (Some star_except) (Some ''main'') None = Some (FILTER_SUCCESS, Some True)"
proof -
  have "rules_fine literal_match (function_rules star_except) (insert ''main'' (set_option None))"
    by (simp add: rules_fine_def star_except_def literal_match_def)
  from filter_explicit_include [OF this] show ?thesis
    by (simp add: star_except_def last_match_def rule_matches_def rule_name_def literal_match_def counts_def)
qed

text \<open>
  \<open>SCOREP_Filter_Match\<close> loses an error of the file rules: the code that is returned is the one
  of the function rules, while \<open>SCOREP_Filter_MatchFile\<close> reports the error.
\<close>

theorem filter_match_loses_error:
  assumes "Filter_MatchFile fnmatch (Some f) (Some file) = Some (FILTER_PROCESSED_WITH_FAULTS, r)"
    and "rules_fine fnmatch (function_rules f) (insert name (set_option mangled))"
  shows "r = Some False
    \<and> (\<exists>b. Filter_Match fnmatch (Some f) (Some file) (Some name) mangled = Some (FILTER_SUCCESS, Some b))"
proof -
  have 1: "match_rules mr rules ex FILTER_SUCCESS = Some (b, FILTER_PROCESSED_WITH_FAULTS) \<Longrightarrow> \<not> b"
    for mr rules ex b
  proof (induction rules arbitrary: ex)
    case (Cons rule rules)
    then show ?case by (auto split: if_splits bind_splits prod.splits)
  qed simp
  obtain b where b: "filter_match_file fnmatch (file_rules f) (Some file) = Some (b, FILTER_PROCESSED_WITH_FAULTS)"
    "r = Some b"
    using assms(1) by (auto simp: Filter_MatchFile_def split: bind_splits prod.splits)
  have nb: "\<not> b" using 1 b(1) by (simp add: filter_match_file_def)
  have "\<forall>r \<in> set (function_rules f). filter_match_function_rule fnmatch name mangled r
      = Some (rule_matches fnmatch name mangled r, FILTER_SUCCESS)"
    using function_rule_fine [OF assms(2)] by blast
  from match_rules_last [OF this, of False] show ?thesis
    using b nb by (simp add: Filter_Match_def filter_match_function_def)
qed

theorem filter_match_loses_error_witness:
  "\<exists>b. Filter_Match literal_match (Some star_except) (Some ''a.c'') (Some ''main'') None = Some (FILTER_SUCCESS, Some b)"
proof -
  have "Filter_MatchFile literal_match (Some star_except) (Some ''a.c'') = Some (FILTER_PROCESSED_WITH_FAULTS, Some False)"
    by (simp add: Filter_MatchFile_def star_except_def filter_match_file_def filter_match_file_rule_def
        literal_match_def match_result_def)
  moreover have "rules_fine literal_match (function_rules star_except) (insert ''main'' (set_option None))"
    by (simp add: rules_fine_def star_except_def literal_match_def)
  ultimately show ?thesis using filter_match_loses_error by blast
qed

end
