(* ===== verification/Scorep_Filter_Parser.thy ===== *)
theory Scorep_Filter_Parser
  imports Scorep_Filter
begin

text \<open>
  The parser of filter files, \<open>src/src/utils/filter/scorep_filter_parser.c\<close>: the mode of the
  parser, the processing of a token, and the loops that cut comments and split lines.

  The line buffer is cut in place by terminators; a token is the part between two of them. The
  parser counts the rules it asks memory for; \<open>mem\<close> answers for each of them.
\<close>

section \<open>Processing tokens\<close>

definition PARSE_START :: int where "PARSE_START = 0"
definition PARSE_FILES :: int where "PARSE_FILES = 1"
definition PARSE_FILES_EXCLUDE :: int where "PARSE_FILES_EXCLUDE = 2"
definition PARSE_FILES_INCLUDE :: int where "PARSE_FILES_INCLUDE = 3"
definition PARSE_REGIONS :: int where "PARSE_REGIONS = 4"
definition PARSE_REGIONS_EXCLUDE :: int where "PARSE_REGIONS_EXCLUDE = 5"
definition PARSE_REGIONS_INCLUDE :: int where "PARSE_REGIONS_INCLUDE = 6"
definition PARSE_BASE :: int where "PARSE_BASE = 7"
definition PARSE_MANGLED :: int where "PARSE_MANGLED = 8"

lemmas parse_modes = PARSE_START_def PARSE_FILES_def PARSE_FILES_EXCLUDE_def PARSE_FILES_INCLUDE_def
  PARSE_REGIONS_def PARSE_REGIONS_EXCLUDE_def PARSE_REGIONS_INCLUDE_def PARSE_BASE_def PARSE_MANGLED_def

definition MODE_IS_MANGLED :: "int \<Rightarrow> bool" where
  "MODE_IS_MANGLED mode \<longleftrightarrow> mode AND PARSE_MANGLED \<noteq> 0"

definition MODE_BASE :: "int \<Rightarrow> int" where
  "MODE_BASE mode = mode AND PARSE_BASE"

record parse_state =
  ps_filter :: flt
  ps_mode :: int
  ps_rules :: nat

definition add_file_rule :: "(nat \<Rightarrow> bool \<times> bool) \<Rightarrow> parse_state \<Rightarrow> string \<Rightarrow> bool \<Rightarrow> parse_state" where
  "add_file_rule mem st token exclude =
     (let f = ps_filter st
      in st\<lparr>ps_filter := f\<lparr>file_rules := snd (filter_add_rule (mem (ps_rules st)) (file_rules f) (Some token) exclude False)\<rparr>,
            ps_rules := ps_rules st + 1\<rparr>)"

definition add_function_rule :: "(nat \<Rightarrow> bool \<times> bool) \<Rightarrow> parse_state \<Rightarrow> string \<Rightarrow> bool \<Rightarrow> parse_state" where
  "add_function_rule mem st token exclude =
     (let f = ps_filter st
      in st\<lparr>ps_filter := f\<lparr>function_rules := snd (filter_add_rule (mem (ps_rules st)) (function_rules f) (Some token)
              exclude (MODE_IS_MANGLED (ps_mode st)))\<rparr>,
            ps_rules := ps_rules st + 1\<rparr>)"

definition process_token :: "(nat \<Rightarrow> bool \<times> bool) \<Rightarrow> parse_state \<Rightarrow> string \<Rightarrow> filter_error \<times> parse_state" where
  "process_token mem st token =
     (let mode = ps_mode st; base = MODE_BASE mode
      in if token = [] then (FILTER_SUCCESS, st)
      else if token = ''SCOREP_FILE_NAMES_BEGIN'' then
        (if mode = PARSE_START then (FILTER_SUCCESS, st\<lparr>ps_mode := PARSE_FILES\<rparr>) else (FILTER_PARSE_SYNTAX, st))
      else if token = ''SCOREP_FILE_NAMES_END'' then
        (if mode \<ge> PARSE_FILES \<and> mode \<le> PARSE_FILES_INCLUDE then (FILTER_SUCCESS, st\<lparr>ps_mode := PARSE_START\<rparr>)
         else (FILTER_PARSE_SYNTAX, st))
      else if token = ''SCOREP_REGION_NAMES_BEGIN'' then
        (if mode = PARSE_START then (FILTER_SUCCESS, st\<lparr>ps_mode := PARSE_REGIONS\<rparr>) else (FILTER_PARSE_SYNTAX, st))
      else if token = ''SCOREP_REGION_NAMES_END'' then
        (if base \<ge> PARSE_REGIONS \<and> base \<le> PARSE_REGIONS_INCLUDE then (FILTER_SUCCESS, st\<lparr>ps_mode := PARSE_START\<rparr>)
         else (FILTER_PARSE_SYNTAX, st))
      else if token = ''EXCLUDE'' then
        (if base \<in> {PARSE_FILES, PARSE_FILES_EXCLUDE, PARSE_FILES_INCLUDE}
         then (FILTER_SUCCESS, st\<lparr>ps_mode := PARSE_FILES_EXCLUDE\<rparr>)
         else if base \<in> {PARSE_REGIONS, PARSE_REGIONS_EXCLUDE, PARSE_REGIONS_INCLUDE}
         then (FILTER_SUCCESS, st\<lparr>ps_mode := PARSE_REGIONS_EXCLUDE\<rparr>)
         else (FILTER_PARSE_SYNTAX, st))
      else if token = ''INCLUDE'' then
        (if base \<in> {PARSE_FILES, PARSE_FILES_EXCLUDE, PARSE_FILES_INCLUDE}
         then (FILTER_SUCCESS, st\<lparr>ps_mode := PARSE_FILES_INCLUDE\<rparr>)
         else if base \<in> {PARSE_REGIONS, PARSE_REGIONS_EXCLUDE, PARSE_REGIONS_INCLUDE}
         then (FILTER_SUCCESS, st\<lparr>ps_mode := PARSE_REGIONS_INCLUDE\<rparr>)
         else (FILTER_PARSE_SYNTAX, st))
      else if token = ''MANGLED'' then
        (if base \<in> {PARSE_REGIONS_EXCLUDE, PARSE_REGIONS_INCLUDE}
         then (FILTER_SUCCESS, st\<lparr>ps_mode := mode OR PARSE_MANGLED\<rparr>) else (FILTER_PARSE_SYNTAX, st))
      else if token = ''DEMANGLED'' then
        (if base \<in> {PARSE_REGIONS_EXCLUDE, PARSE_REGIONS_INCLUDE}
         then (FILTER_SUCCESS, st\<lparr>ps_mode := mode AND NOT PARSE_MANGLED\<rparr>) else (FILTER_PARSE_SYNTAX, st))
      else if base = PARSE_FILES_EXCLUDE then (FILTER_SUCCESS, add_file_rule mem st token True)
      else if base = PARSE_FILES_INCLUDE then (FILTER_SUCCESS, add_file_rule mem st token False)
      else if base = PARSE_REGIONS_EXCLUDE then (FILTER_SUCCESS, add_function_rule mem st token True)
      else if base = PARSE_REGIONS_INCLUDE then (FILTER_SUCCESS, add_function_rule mem st token False)
      else (FILTER_PARSE_SYNTAX, st))"

section \<open>Splitting a line\<close>

abbreviation BACKSLASH :: char where "BACKSLASH \<equiv> CHR 0x5C"

definition WHITE :: "char set" where
  "WHITE = {CHR 0x20, CHR 0x09, CHR 0x0A, CHR 0x0D}"

text \<open>The position \<open>pos\<close> is at the start or behind a character other than a backslash.\<close>

definition unescaped :: "string \<Rightarrow> nat \<Rightarrow> bool" where
  "unescaped buffer pos \<longleftrightarrow> pos = 0 \<or> buffer ! (pos - 1) \<noteq> BACKSLASH"

function cut_comment :: "string \<Rightarrow> nat \<Rightarrow> string" where
  "cut_comment buffer pos =
     (let pos = pos + length (takeWhile (\<lambda>c. c \<noteq> CHR ''#'') (drop pos buffer));
          buffer = (if pos < length buffer \<and> unescaped buffer pos then take pos buffer else buffer);
          pos = pos + 1
      in if pos < length buffer then cut_comment buffer pos else buffer)"
  by pat_completeness auto
termination
  by (relation "measure (\<lambda>(buffer, pos). length buffer - pos)") (auto split: if_splits)

declare cut_comment.simps [simp del]

function token_loop :: "(nat \<Rightarrow> bool \<times> bool) \<Rightarrow> parse_state \<Rightarrow> string \<Rightarrow> nat \<Rightarrow> nat \<Rightarrow> filter_error \<times> parse_state" where
  "token_loop mem st buffer pos token_start =
     (if pos < length buffer then
        let pos = pos + length (takeWhile (\<lambda>c. c \<notin> WHITE) (drop pos buffer))
        in if pos \<le> length buffer \<and> unescaped buffer pos then
             let (err, st) = process_token mem st (drop token_start (take pos buffer))
             in if err \<noteq> FILTER_SUCCESS then (err, st) else token_loop mem st buffer (pos + 1) (pos + 1)
           else token_loop mem st buffer (pos + 1) token_start
      else (FILTER_SUCCESS, st))"
  by pat_completeness auto
termination
  by (relation "measure (\<lambda>(mem, st, buffer, pos, token_start). length buffer - pos)") auto

declare token_loop.simps [simp del]

definition parse_filter_line :: "(nat \<Rightarrow> bool \<times> bool) \<Rightarrow> parse_state \<Rightarrow> string \<Rightarrow> filter_error \<times> parse_state" where
  "parse_filter_line mem st buffer =
     (if length buffer = 0 then (FILTER_SUCCESS, st)
      else let buffer = cut_comment buffer 0
           in if length buffer \<ge> 2 \<and> buffer ! (length buffer - 2) = BACKSLASH then (FILTER_PARSE_SYNTAX, st)
              else token_loop mem st buffer 0 0)"

section \<open>The file\<close>

function parse_filter_file ::
    "(nat \<Rightarrow> bool) \<Rightarrow> (nat \<Rightarrow> bool \<times> bool) \<Rightarrow> string option \<times> nat \<Rightarrow> stream \<Rightarrow> parse_state \<Rightarrow> filter_error \<times> parse_state" where
  "parse_filter_file lmem mem buffer file st =
     (if st_eof file then (FILTER_SUCCESS, st)
      else let (err, buffer', file') = IO_GetLine lmem buffer file
           in if err \<noteq> IO_SUCCESS \<and> err \<noteq> IO_END_OF_BUFFER
              then (if err = IO_MEM_ALLOC_FAILED then FILTER_MEM_ALLOC_FAILED else FILTER_FILE_INTERACTION, st)
              else let (err, st) = parse_filter_line mem st (the (fst buffer'))
                   in if err \<noteq> FILTER_SUCCESS then (err, st) else parse_filter_file lmem mem buffer' file' st)"
  by pat_completeness auto
termination
  by (relation "measure (\<lambda>(lmem, mem, buffer, file, st). left_to_read file)")
     (auto dest!: sym [of _ "IO_GetLine _ _ _"] intro: IO_GetLine_reads)

declare parse_filter_file.simps [simp del]

text \<open>\<open>file\<close> is null for a null name, \<open>Some None\<close> when it cannot be opened.\<close>

definition Filter_ParseFile ::
    "(nat \<Rightarrow> bool) \<Rightarrow> (nat \<Rightarrow> bool \<times> bool) \<Rightarrow> flt option \<Rightarrow> stream option option \<Rightarrow> filter_error \<times> flt option" where
  "Filter_ParseFile lmem mem flt file =
     (case (flt, file) of
        (Some f, Some (Some file)) \<Rightarrow>
          let (err, st) = parse_filter_file lmem mem (None, 0) file \<lparr>ps_filter = f, ps_mode = PARSE_START, ps_rules = 0\<rparr>
          in (err, Some (ps_filter st))
      | (Some f, Some None) \<Rightarrow> (FILTER_FILE_CAN_NOT_OPEN, flt)
      | _ \<Rightarrow> (FILTER_INVALID_ARGUMENT, flt))"

section \<open>The tokens of a text\<close>

fun process_tokens :: "(nat \<Rightarrow> bool \<times> bool) \<Rightarrow> parse_state \<Rightarrow> string list \<Rightarrow> filter_error \<times> parse_state" where
  "process_tokens mem st [] = (FILTER_SUCCESS, st)"
| "process_tokens mem st (t # ts) =
     (let (err, st) = process_token mem st t
      in if err \<noteq> FILTER_SUCCESS then (err, st) else process_tokens mem st ts)"

lemma process_tokens_append:
  "process_tokens mem st (xs @ ys) =
     (let (err, st) = process_tokens mem st xs in if err \<noteq> FILTER_SUCCESS then (err, st) else process_tokens mem st ys)"
  by (induction xs arbitrary: st) (auto simp: Let_def split: prod.splits)

function segments :: "string \<Rightarrow> string list" where
  "segments [] = []"
| "segments (c # cs) =
     takeWhile (\<lambda>c. c \<notin> WHITE) (c # cs) # segments (drop 1 (dropWhile (\<lambda>c. c \<notin> WHITE) (c # cs)))"
  by pat_completeness auto
termination
proof (relation "measure length")
  show "(drop 1 (dropWhile (\<lambda>c. c \<notin> WHITE) (c # cs)), c # cs) \<in> measure length" for c cs
    using length_dropWhile_le [of "\<lambda>c. c \<notin> WHITE" "c # cs"] by (cases "dropWhile (\<lambda>c. c \<notin> WHITE) (c # cs)") auto
qed simp

declare segments.simps(2) [simp del]

definition plain_text :: "string \<Rightarrow> bool" where
  "plain_text s \<longleftrightarrow> NUL \<notin> set s \<and> NEWLINE \<notin> set s \<and> CHR ''#'' \<notin> set s \<and> BACKSLASH \<notin> set s"

lemma token_loop_segments:
  "BACKSLASH \<notin> set b \<Longrightarrow> pos \<le> length b \<Longrightarrow> token_loop mem st b pos pos = process_tokens mem st (segments (drop pos b))"
proof (induction "length b - pos" arbitrary: pos st rule: less_induct)
  case less
  show ?case
  proof (cases "pos < length b")
    case False
    then show ?thesis using less.prems by (subst token_loop.simps) simp
  next
    case True
    let ?w = "\<lambda>c. c \<notin> WHITE"
    let ?d = "drop pos b"
    define q where "q = pos + length (takeWhile ?w ?d)"
    obtain c cs where d: "?d = c # cs" using True by (cases ?d) auto
    have ql: "q \<le> length b" using length_takeWhile_le [of ?w ?d] True by (simp add: q_def)
    have tok: "drop pos (take q b) = takeWhile ?w ?d"
      by (simp add: q_def drop_take takeWhile_eq_take [symmetric])
    have rest: "drop (q + 1) b = drop 1 (dropWhile ?w ?d)"
      by (simp add: q_def dropWhile_eq_drop add.commute)
    have un: "unescaped b q"
    proof (cases q)
      case (Suc k)
      then have "b ! k \<in> set b" using ql by simp
      then show ?thesis using less.prems(1) Suc by (auto simp: unescaped_def)
    qed (simp add: unescaped_def)
    obtain err st' where p: "process_token mem st (takeWhile ?w ?d) = (err, st')"
      by (cases "process_token mem st (takeWhile ?w ?d)") auto
    have seg: "segments ?d = takeWhile ?w ?d # segments (drop (q + 1) b)"
      unfolding rest by (simp only: d segments.simps(2))
    have "token_loop mem st b pos pos = (if err \<noteq> FILTER_SUCCESS then (err, st') else token_loop mem st' b (q + 1) (q + 1))"
      by (subst token_loop.simps) (simp only: True if_True Let_def q_def [symmetric] ql un tok p prod.case simp_thms)
    also have "token_loop mem st' b (q + 1) (q + 1) = process_tokens mem st' (segments (drop (q + 1) b))"
    proof (cases "q + 1 \<le> length b")
      case True
      then show ?thesis using less.hyps [of "q + 1" st'] less.prems(1) \<open>pos < length b\<close> by (simp add: q_def)
    next
      case False
      then show ?thesis by (subst token_loop.simps) simp
    qed
    finally show ?thesis using p by (simp only: seg process_tokens.simps Let_def prod.case)
  qed
qed

lemma cut_comment_none: "CHR ''#'' \<notin> set b \<Longrightarrow> cut_comment b 0 = b"
proof -
  assume h: "CHR ''#'' \<notin> set b"
  then have tw: "takeWhile (\<lambda>c. c \<noteq> CHR ''#'') b = b" by (auto simp: takeWhile_eq_all_conv)
  show ?thesis by (subst cut_comment.simps) (simp add: Let_def tw)
qed

lemma parse_line_plain:
  assumes "CHR ''#'' \<notin> set b" "BACKSLASH \<notin> set b"
  shows "parse_filter_line mem st b = process_tokens mem st (segments b)"
proof (cases "b = []")
  case False
  have "b ! (length b - 2) \<noteq> BACKSLASH" using assms(2) nth_mem [of "length b - 2" b] False by fastforce
  then show ?thesis using False token_loop_segments [OF assms(2), of 0]
    by (simp add: parse_filter_line_def cut_comment_none [OF assms(1)])
qed (simp add: parse_filter_line_def)

definition text_of :: "string list \<Rightarrow> string" where
  "text_of ls = concat (map (\<lambda>l. l @ [NEWLINE]) ls)"

definition stream_of :: "string \<Rightarrow> stream" where
  "stream_of s = \<lparr>st_rest = s, st_eof = False, st_error = False\<rparr>"

lemma parse_file_lines:
  assumes "\<And>n. lmem n" "\<forall>l \<in> set ls. plain_text l \<and> length l < 1022" "fst buf = None \<or> snd buf = 0 \<or> snd buf = 1024"
  shows "parse_filter_file lmem mem buf (stream_of (text_of ls)) st
    = process_tokens mem st (concat (map (\<lambda>l. segments (l @ [NEWLINE])) ls))"
  using assms(2,3)
proof (induction ls arbitrary: buf st)
  case Nil
  have n: "(if fst buf = None \<or> snd buf = 0 then 1024 else snd buf) = 1024" using Nil.prems(2) by auto
  have g: "fgets 1024 (stream_of []) = (None, (stream_of [])\<lparr>st_eof := True\<rparr>)"
    by (simp add: fgets_def stream_of_def line_prefix_take)
  have "IO_GetLine lmem buf (stream_of []) = (IO_END_OF_BUFFER, (Some [], 1024), (stream_of [])\<lparr>st_eof := True\<rparr>)"
    using IO_GetLine_fgets [of lmem, OF assms(1) n [symmetric], of "stream_of []"] g by simp
  then show ?case
    by (subst parse_filter_file.simps, simp add: text_of_def parse_filter_line_def)
       (subst parse_filter_file.simps, simp add: stream_of_def)
next
  case (Cons l ls)
  let ?t = "text_of (l # ls)"
  have t: "?t = l @ NEWLINE # text_of ls" by (simp add: text_of_def)
  have pl: "plain_text l" "length l < 1022" using Cons.prems(1) by simp_all
  have nul: "NUL \<notin> set ?t" using Cons.prems(1) by (auto simp: text_of_def plain_text_def)
  have line: "line ?t = l @ [NEWLINE]" using pl(1) unfolding t by (intro line_newline) (simp add: plain_text_def)
  have n: "1024 = (if fst buf = None \<or> snd buf = 0 then 1024 else snd buf)" using Cons.prems(2) by auto
  have "after_line (stream_of ?t) = stream_of (text_of ls)"
    using line by (simp add: after_line_def stream_of_def t)
  then have g: "IO_GetLine lmem buf (stream_of ?t) = (IO_SUCCESS, (Some (l @ [NEWLINE]), 1024), stream_of (text_of ls))"
    using IO_GetLine_short [of lmem "stream_of ?t" 1024 buf] assms(1) nul n pl(2) line
    by (simp add: stream_of_def t)
  have p: "parse_filter_line mem st (l @ [NEWLINE]) = process_tokens mem st (segments (l @ [NEWLINE]))"
    using pl(1) by (intro parse_line_plain) (auto simp: plain_text_def)
  have eof: "\<not> st_eof (stream_of ?t)" by (simp add: stream_of_def)
  obtain err st' where e: "process_tokens mem st (segments (l @ [NEWLINE])) = (err, st')"
    by (cases "process_tokens mem st (segments (l @ [NEWLINE]))") auto
  have "parse_filter_file lmem mem buf (stream_of ?t) st
      = (if err \<noteq> FILTER_SUCCESS then (err, st')
         else parse_filter_file lmem mem (Some (l @ [NEWLINE]), 1024) (stream_of (text_of ls)) st')"
    by (subst parse_filter_file.simps) (simp add: g p e eof Let_def)
  also have "parse_filter_file lmem mem (Some (l @ [NEWLINE]), 1024) (stream_of (text_of ls)) st'
      = process_tokens mem st' (concat (map (\<lambda>l. segments (l @ [NEWLINE])) ls))"
    using Cons.IH [of "(Some (l @ [NEWLINE]), 1024)" st'] Cons.prems(1) by simp
  finally show ?case by (simp add: process_tokens_append e)
qed

section \<open>Writing a filter as a file\<close>

fun unwords :: "string list \<Rightarrow> string" where
  "unwords [] = []"
| "unwords [t] = t"
| "unwords (t # ts) = t @ CHR 0x20 # unwords ts"

definition rule_words :: "filter_rule \<Rightarrow> string list" where
  "rule_words r = [if is_exclude r then ''EXCLUDE'' else ''INCLUDE'']
     @ (if is_mangled r then [''MANGLED''] else []) @ [the (pattern r)]"

definition filter_words :: "flt \<Rightarrow> string list list" where
  "filter_words f =
     [[''SCOREP_FILE_NAMES_BEGIN'']] @ map rule_words (file_rules f) @ [[''SCOREP_FILE_NAMES_END'']]
     @ [[''SCOREP_REGION_NAMES_BEGIN'']] @ map rule_words (function_rules f) @ [[''SCOREP_REGION_NAMES_END'']]"

definition print_filter :: "flt \<Rightarrow> string" where
  "print_filter f = text_of (map unwords (filter_words f))"

definition key_words :: "string set" where
  "key_words = {''SCOREP_FILE_NAMES_BEGIN'', ''SCOREP_FILE_NAMES_END'', ''SCOREP_REGION_NAMES_BEGIN'',
     ''SCOREP_REGION_NAMES_END'', ''EXCLUDE'', ''INCLUDE'', ''MANGLED'', ''DEMANGLED''}"

text \<open>A pattern without white space, escapes, comment signs and keywords.\<close>

definition simple_rule :: "filter_rule \<Rightarrow> bool" where
  "simple_rule r \<longleftrightarrow> (\<exists>p. pattern r = Some p \<and> p \<noteq> [] \<and> p \<notin> key_words \<and> length p < 1000
     \<and> plain_text p \<and> set p \<inter> WHITE = {})"

lemma segments_word:
  "t \<noteq> [] \<Longrightarrow> set t \<inter> WHITE = {} \<Longrightarrow> c \<in> WHITE \<Longrightarrow> segments (t @ c # r) = t # segments r"
proof -
  assume t: "t \<noteq> []" "set t \<inter> WHITE = {}" and c: "c \<in> WHITE"
  have "takeWhile (\<lambda>c. c \<notin> WHITE) (t @ c # r) = t" "dropWhile (\<lambda>c. c \<notin> WHITE) (t @ c # r) = c # r"
    using t(2) c by (auto simp: takeWhile_append dropWhile_append)
  then show ?thesis using t(1) by (cases t) (simp_all add: segments.simps(2))
qed

lemma segments_unwords:
  "\<forall>t \<in> set ts. t \<noteq> [] \<and> set t \<inter> WHITE = {} \<Longrightarrow> ts \<noteq> [] \<Longrightarrow> segments (unwords ts @ [NEWLINE]) = ts"
proof (induction ts rule: unwords.induct)
  case (2 t)
  then show ?case using segments_word [of t NEWLINE "[]"] by (simp add: WHITE_def)
next
  case (3 t u ts)
  then show ?case using segments_word [of t "CHR 0x20" "unwords (u # ts) @ [NEWLINE]"] by (simp add: WHITE_def)
qed simp

text \<open>The mode inside a block.\<close>

definition in_files :: "int \<Rightarrow> bool" where
  "in_files m \<longleftrightarrow> m \<in> {PARSE_FILES, PARSE_FILES_EXCLUDE, PARSE_FILES_INCLUDE}"

definition in_regions :: "int \<Rightarrow> bool" where
  "in_regions m \<longleftrightarrow> m \<in> {PARSE_REGIONS, PARSE_REGIONS_EXCLUDE, PARSE_REGIONS_INCLUDE, 13, 14}"

lemma add_rule_ok:
  "p \<noteq> [] \<Longrightarrow>
     filter_add_rule (True, True) rules (Some p) ex mg
     = (FILTER_SUCCESS, rules @ [\<lparr>pattern = Some p, is_mangled = mg, is_exclude = ex\<rparr>])"
  by (simp add: filter_add_rule_def CStr_dup_def)

lemma process_switch:
  "in_files (ps_mode st) \<Longrightarrow> process_token mem st (if ex then ''EXCLUDE'' else ''INCLUDE'')
    = (FILTER_SUCCESS, st\<lparr>ps_mode := if ex then PARSE_FILES_EXCLUDE else PARSE_FILES_INCLUDE\<rparr>)"
  "in_regions (ps_mode st) \<Longrightarrow> process_token mem st (if ex then ''EXCLUDE'' else ''INCLUDE'')
    = (FILTER_SUCCESS, st\<lparr>ps_mode := if ex then PARSE_REGIONS_EXCLUDE else PARSE_REGIONS_INCLUDE\<rparr>)"
  by (auto simp: process_token_def Let_def in_files_def in_regions_def parse_modes MODE_BASE_def)

lemma process_mangled:
  "ps_mode st = (if ex then PARSE_REGIONS_EXCLUDE else PARSE_REGIONS_INCLUDE) \<Longrightarrow>
    process_token mem st ''MANGLED'' = (FILTER_SUCCESS, st\<lparr>ps_mode := if ex then 13 else 14\<rparr>)"
  by (cases ex) (simp_all add: process_token_def Let_def parse_modes MODE_BASE_def)

lemma process_file_pattern:
  assumes "p \<noteq> []" "p \<notin> key_words" "mem (ps_rules st) = (True, True)"
    "ps_mode st = (if ex then PARSE_FILES_EXCLUDE else PARSE_FILES_INCLUDE)"
  shows "process_token mem st p = (FILTER_SUCCESS,
    st\<lparr>ps_filter := (ps_filter st)\<lparr>file_rules := file_rules (ps_filter st)
         @ [\<lparr>pattern = Some p, is_mangled = False, is_exclude = ex\<rparr>]\<rparr>, ps_rules := ps_rules st + 1\<rparr>)"
  using assms add_rule_ok [OF assms(1)]
  by (cases ex) (simp_all add: process_token_def Let_def key_words_def parse_modes MODE_BASE_def add_file_rule_def)

lemma process_function_pattern:
  assumes "p \<noteq> []" "p \<notin> key_words" "mem (ps_rules st) = (True, True)"
    "ps_mode st = (if mg then if ex then 13 else 14 else if ex then PARSE_REGIONS_EXCLUDE else PARSE_REGIONS_INCLUDE)"
  shows "process_token mem st p = (FILTER_SUCCESS,
    st\<lparr>ps_filter := (ps_filter st)\<lparr>function_rules := function_rules (ps_filter st)
         @ [\<lparr>pattern = Some p, is_mangled = mg, is_exclude = ex\<rparr>]\<rparr>, ps_rules := ps_rules st + 1\<rparr>)"
  using assms add_rule_ok [OF assms(1)]
  by (cases ex; cases mg)
     (simp_all add: process_token_def Let_def key_words_def parse_modes MODE_BASE_def add_function_rule_def MODE_IS_MANGLED_def)

lemma process_function_rule:
  assumes "simple_rule r" "\<forall>n. mem n = (True, True)" "in_regions (ps_mode st)"
  shows "\<exists>m. in_regions m \<and> process_tokens mem st (rule_words r) = (FILTER_SUCCESS,
    st\<lparr>ps_filter := (ps_filter st)\<lparr>function_rules := function_rules (ps_filter st) @ [r]\<rparr>,
       ps_mode := m, ps_rules := ps_rules st + 1\<rparr>)"
proof -
  obtain p where p: "pattern r = Some p" "p \<noteq> []" "p \<notin> key_words" using assms(1) by (auto simp: simple_rule_def)
  have r: "\<lparr>pattern = Some p, is_mangled = is_mangled r, is_exclude = is_exclude r\<rparr> = r"
    using p(1) by (cases r) simp
  show ?thesis
  proof (cases "is_mangled r")
    case True
    then show ?thesis using p r process_switch(2) [OF assms(3), of mem "is_exclude r"]
      by (intro exI [of _ "if is_exclude r then 13 else 14"])
         (simp add: rule_words_def process_mangled [where ex = "is_exclude r"]
           process_function_pattern [where ex = "is_exclude r" and mg = True] assms(2) in_regions_def)
  next
    case False
    then show ?thesis using p r process_switch(2) [OF assms(3), of mem "is_exclude r"]
      by (intro exI [of _ "if is_exclude r then PARSE_REGIONS_EXCLUDE else PARSE_REGIONS_INCLUDE"])
         (simp add: rule_words_def process_function_pattern [where ex = "is_exclude r" and mg = False] assms(2)
           in_regions_def)
  qed
qed

lemma process_file_rule:
  assumes "simple_rule r" "\<not> is_mangled r" "\<forall>n. mem n = (True, True)" "in_files (ps_mode st)"
  shows "\<exists>m. in_files m \<and> process_tokens mem st (rule_words r) = (FILTER_SUCCESS,
    st\<lparr>ps_filter := (ps_filter st)\<lparr>file_rules := file_rules (ps_filter st) @ [r]\<rparr>,
       ps_mode := m, ps_rules := ps_rules st + 1\<rparr>)"
proof -
  obtain p where p: "pattern r = Some p" "p \<noteq> []" "p \<notin> key_words" using assms(1) by (auto simp: simple_rule_def)
  have r: "\<lparr>pattern = Some p, is_mangled = False, is_exclude = is_exclude r\<rparr> = r"
    using p(1) assms(2) by (cases r) simp
  then show ?thesis using p assms(2) process_switch(1) [OF assms(4), of mem "is_exclude r"]
    by (intro exI [of _ "if is_exclude r then PARSE_FILES_EXCLUDE else PARSE_FILES_INCLUDE"])
       (simp add: rule_words_def process_file_pattern [where ex = "is_exclude r"] assms(3) in_files_def)
qed

lemma process_function_rules:
  assumes "\<forall>r \<in> set rs. simple_rule r" "\<forall>n. mem n = (True, True)" "in_regions (ps_mode st)"
  shows "\<exists>m k. in_regions m \<and> process_tokens mem st (concat (map rule_words rs)) = (FILTER_SUCCESS,
    st\<lparr>ps_filter := (ps_filter st)\<lparr>function_rules := function_rules (ps_filter st) @ rs\<rparr>, ps_mode := m, ps_rules := k\<rparr>)"
  using assms(1,3)
proof (induction rs arbitrary: st)
  case Nil
  then show ?case by (intro exI [of _ "ps_mode st"] exI [of _ "ps_rules st"]) simp
next
  case (Cons r rs)
  obtain m where m: "in_regions m" "process_tokens mem st (rule_words r) = (FILTER_SUCCESS,
    st\<lparr>ps_filter := (ps_filter st)\<lparr>function_rules := function_rules (ps_filter st) @ [r]\<rparr>,
       ps_mode := m, ps_rules := ps_rules st + 1\<rparr>)"
    using process_function_rule [of r mem st] Cons.prems assms(2) by auto
  show ?case using Cons.IH [of "st\<lparr>ps_filter := (ps_filter st)\<lparr>function_rules := function_rules (ps_filter st) @ [r]\<rparr>,
       ps_mode := m, ps_rules := ps_rules st + 1\<rparr>"] Cons.prems(1) m by (auto simp: process_tokens_append)
qed

lemma process_file_rules:
  assumes "\<forall>r \<in> set rs. simple_rule r \<and> \<not> is_mangled r" "\<forall>n. mem n = (True, True)" "in_files (ps_mode st)"
  shows "\<exists>m k. in_files m \<and> process_tokens mem st (concat (map rule_words rs)) = (FILTER_SUCCESS,
    st\<lparr>ps_filter := (ps_filter st)\<lparr>file_rules := file_rules (ps_filter st) @ rs\<rparr>, ps_mode := m, ps_rules := k\<rparr>)"
  using assms(1,3)
proof (induction rs arbitrary: st)
  case Nil
  then show ?case by (intro exI [of _ "ps_mode st"] exI [of _ "ps_rules st"]) simp
next
  case (Cons r rs)
  obtain m where m: "in_files m" "process_tokens mem st (rule_words r) = (FILTER_SUCCESS,
    st\<lparr>ps_filter := (ps_filter st)\<lparr>file_rules := file_rules (ps_filter st) @ [r]\<rparr>,
       ps_mode := m, ps_rules := ps_rules st + 1\<rparr>)"
    using process_file_rule [of r mem st] Cons.prems assms(2) by auto
  show ?case using Cons.IH [of "st\<lparr>ps_filter := (ps_filter st)\<lparr>file_rules := file_rules (ps_filter st) @ [r]\<rparr>,
       ps_mode := m, ps_rules := ps_rules st + 1\<rparr>"] Cons.prems(1) m by (auto simp: process_tokens_append)
qed

lemma process_filter:
  assumes "\<forall>r \<in> set (file_rules f). simple_rule r \<and> \<not> is_mangled r" "\<forall>r \<in> set (function_rules f). simple_rule r"
    "\<forall>n. mem n = (True, True)" "ps_mode st = PARSE_START"
  shows "\<exists>k. process_tokens mem st (concat (filter_words f)) = (FILTER_SUCCESS,
    \<lparr>ps_filter = \<lparr>file_rules = file_rules (ps_filter st) @ file_rules f,
       function_rules = function_rules (ps_filter st) @ function_rules f\<rparr>, ps_mode = PARSE_START, ps_rules = k\<rparr>)"
proof -
  let ?s1 = "st\<lparr>ps_mode := PARSE_FILES\<rparr>"
  have 1: "process_tokens mem st [''SCOREP_FILE_NAMES_BEGIN''] = (FILTER_SUCCESS, ?s1)"
    using assms(4) by (simp add: process_token_def)
  obtain m k where 2: "in_files m" "process_tokens mem ?s1 (concat (map rule_words (file_rules f))) = (FILTER_SUCCESS,
      ?s1\<lparr>ps_filter := (ps_filter st)\<lparr>file_rules := file_rules (ps_filter st) @ file_rules f\<rparr>, ps_mode := m, ps_rules := k\<rparr>)"
    using process_file_rules [OF assms(1,3), of ?s1] by (auto simp: in_files_def)
  let ?f = "(ps_filter st)\<lparr>file_rules := file_rules (ps_filter st) @ file_rules f\<rparr>"
  let ?s2 = "st\<lparr>ps_filter := ?f, ps_mode := m, ps_rules := k\<rparr>" and ?s3 = "st\<lparr>ps_filter := ?f, ps_mode := PARSE_REGIONS, ps_rules := k\<rparr>"
  have 3: "process_tokens mem ?s2 [''SCOREP_FILE_NAMES_END'', ''SCOREP_REGION_NAMES_BEGIN''] = (FILTER_SUCCESS, ?s3)"
    using 2(1) by (auto simp: process_token_def in_files_def parse_modes Let_def)
  obtain m' k' where 4: "in_regions m'" "process_tokens mem ?s3 (concat (map rule_words (function_rules f))) = (FILTER_SUCCESS,
      ?s3\<lparr>ps_filter := ?f\<lparr>function_rules := function_rules (ps_filter st) @ function_rules f\<rparr>, ps_mode := m', ps_rules := k'\<rparr>)"
    using process_function_rules [OF assms(2,3), of ?s3] by (auto simp: in_regions_def)
  let ?s4 = "st\<lparr>ps_filter := ?f\<lparr>function_rules := function_rules (ps_filter st) @ function_rules f\<rparr>, ps_mode := m', ps_rules := k'\<rparr>"
  have 5: "process_tokens mem ?s4 [''SCOREP_REGION_NAMES_END''] = (FILTER_SUCCESS, ?s4\<lparr>ps_mode := PARSE_START\<rparr>)"
    using 4(1) by (auto simp: process_token_def in_regions_def parse_modes Let_def MODE_BASE_def)
  have w: "concat (filter_words f) = [''SCOREP_FILE_NAMES_BEGIN''] @ concat (map rule_words (file_rules f))
      @ [''SCOREP_FILE_NAMES_END'', ''SCOREP_REGION_NAMES_BEGIN''] @ concat (map rule_words (function_rules f))
      @ [''SCOREP_REGION_NAMES_END'']"
    by (simp add: filter_words_def)
  have "process_tokens mem st (concat (filter_words f)) = (FILTER_SUCCESS, ?s4\<lparr>ps_mode := PARSE_START\<rparr>)"
    using 1 2(2) 3 4(2) 5 unfolding w process_tokens_append by (simp del: process_tokens.simps)
  then show ?thesis by (intro exI [of _ k']) (cases st, cases "ps_filter st", simp)
qed

lemma set_unwords: "set (unwords ts) \<subseteq> insert CHR 0x20 (\<Union>t \<in> set ts. set t)"
  by (induction ts rule: unwords.induct) auto

lemma plain_unwords: "\<forall>t \<in> set ts. plain_text t \<Longrightarrow> plain_text (unwords ts)"
  using set_unwords [of ts] unfolding plain_text_def by fastforce

definition word_ok :: "string \<Rightarrow> bool" where
  "word_ok t \<longleftrightarrow> t \<noteq> [] \<and> set t \<inter> WHITE = {} \<and> plain_text t"

lemma word_ok_keywords: "t \<in> key_words \<Longrightarrow> word_ok t"
  unfolding key_words_def by (auto simp: word_ok_def WHITE_def plain_text_def)

lemma rule_words_ok:
  assumes "simple_rule r"
  shows "\<forall>t \<in> set (rule_words r). word_ok t" "length (unwords (rule_words r)) < 1022" "rule_words r \<noteq> []"
proof -
  obtain p where p: "pattern r = Some p" "p \<noteq> []" "plain_text p" "set p \<inter> WHITE = {}" "length p < 1000"
    using assms by (auto simp: simple_rule_def)
  then have "word_ok p" by (simp add: word_ok_def)
  moreover have "word_ok ''EXCLUDE''" "word_ok ''INCLUDE''" "word_ok ''MANGLED''"
    by (auto intro: word_ok_keywords simp: key_words_def)
  ultimately show "\<forall>t \<in> set (rule_words r). word_ok t" using p(1) by (auto simp: rule_words_def)
  show "length (unwords (rule_words r)) < 1022" using p(1,5) by (auto simp: rule_words_def)
qed (simp add: rule_words_def)

lemma filter_words_ok:
  assumes "\<forall>r \<in> set (file_rules f) \<union> set (function_rules f). simple_rule r" "ws \<in> set (filter_words f)"
  shows "(\<forall>t \<in> set ws. word_ok t) \<and> length (unwords ws) < 1022 \<and> ws \<noteq> []"
proof -
  have "word_ok ''SCOREP_FILE_NAMES_BEGIN''" "word_ok ''SCOREP_FILE_NAMES_END''"
    "word_ok ''SCOREP_REGION_NAMES_BEGIN''" "word_ok ''SCOREP_REGION_NAMES_END''"
    by (auto intro: word_ok_keywords simp: key_words_def)
  then show ?thesis using assms rule_words_ok by (auto simp: filter_words_def)
qed

section \<open>Properties\<close>

text \<open>
  C36. A filter that is written to a file, one rule in a line, is read back by \<open>SCOREP_Filter_ParseFile\<close>:
  its rules are appended in order to those the filter already has. Patterns are free of white space,
  backslashes, comment signs and keywords, and shorter than the line buffer.
\<close>

theorem filter_roundtrip:
  assumes "\<forall>n. lmem n" "\<forall>n. mem n = (True, True)"
    and "\<forall>r \<in> set (file_rules f) \<union> set (function_rules f). simple_rule r" "\<forall>r \<in> set (file_rules f). \<not> is_mangled r"
  shows "Filter_ParseFile lmem mem (Some g) (Some (Some (stream_of (print_filter f))))
    = (FILTER_SUCCESS, Some \<lparr>file_rules = file_rules g @ file_rules f, function_rules = function_rules g @ function_rules f\<rparr>)"
proof -
  let ?st = "\<lparr>ps_filter = g, ps_mode = PARSE_START, ps_rules = 0\<rparr>"
  have lines: "\<forall>l \<in> set (map unwords (filter_words f)). plain_text l \<and> length l < 1022"
    using filter_words_ok [OF assms(3)] plain_unwords by (auto simp: word_ok_def)
  have seg: "segments (unwords ws @ [NEWLINE]) = ws" if "ws \<in> set (filter_words f)" for ws
    using filter_words_ok [OF assms(3) that] by (intro segments_unwords) (auto simp: word_ok_def)
  have "parse_filter_file lmem mem (None, 0) (stream_of (print_filter f)) ?st
      = process_tokens mem ?st (concat (map (\<lambda>l. segments (l @ [NEWLINE])) (map unwords (filter_words f))))"
    unfolding print_filter_def using parse_file_lines [OF _ lines] assms(1) by simp
  also have "map (\<lambda>l. segments (l @ [NEWLINE])) (map unwords (filter_words f)) = filter_words f"
    using seg by (simp add: map_idI)
  finally have 1: "parse_filter_file lmem mem (None, 0) (stream_of (print_filter f)) ?st
      = process_tokens mem ?st (concat (filter_words f))" .
  have "\<forall>r \<in> set (file_rules f). simple_rule r \<and> \<not> is_mangled r" "\<forall>r \<in> set (function_rules f). simple_rule r"
    using assms(3,4) by simp_all
  from process_filter [OF this assms(2), of ?st] 1 show ?thesis by (auto simp: Filter_ParseFile_def)
qed

definition sample_filter :: flt where
  "sample_filter = \<lparr>file_rules = [\<lparr>pattern = Some ''*.h'', is_mangled = False, is_exclude = True\<rparr>],
     function_rules = [\<lparr>pattern = Some ''*'', is_mangled = False, is_exclude = True\<rparr>,
       \<lparr>pattern = Some ''_Z3foov'', is_mangled = True, is_exclude = False\<rparr>]\<rparr>"

theorem filter_roundtrip_witness:
  "Filter_ParseFile (\<lambda>_. True) (\<lambda>_. (True, True)) (Some \<lparr>file_rules = [], function_rules = []\<rparr>)
      (Some (Some (stream_of (print_filter sample_filter)))) = (FILTER_SUCCESS, Some sample_filter)"
proof -
  have "\<forall>r \<in> set (file_rules sample_filter) \<union> set (function_rules sample_filter). simple_rule r"
    by (auto simp: sample_filter_def simple_rule_def key_words_def plain_text_def WHITE_def)
  from filter_roundtrip [OF _ _ this, of "\<lambda>_. True" "\<lambda>_. (True, True)" "\<lparr>file_rules = [], function_rules = []\<rparr>"]
  show ?thesis by (simp add: sample_filter_def)
qed

text \<open>
  A line that ends in a backslash and one more character is rejected as an escaped line break, even
  when the last character is no line break: the last line of a file without a newline, such as
  \<open>foo\*\<close>, and a line whose comment follows an escaped character.
\<close>

theorem filter_escape_rejected:
  assumes "CHR ''#'' \<notin> set s" "c \<noteq> CHR ''#''"
  shows "parse_filter_line mem st (s @ [BACKSLASH, c]) = (FILTER_PARSE_SYNTAX, st)
    \<and> (c \<noteq> BACKSLASH \<longrightarrow> parse_filter_line mem st (s @ [BACKSLASH, c] @ CHR ''#'' # r) = (FILTER_PARSE_SYNTAX, st))"
proof -
  let ?b = "s @ [BACKSLASH, c]"
  have nb: "CHR ''#'' \<notin> set ?b" using assms by auto
  have n2: "?b ! (length ?b - 2) = BACKSLASH" by (simp add: nth_append)
  have tw: "takeWhile (\<lambda>c. c \<noteq> CHR ''#'') (?b @ CHR ''#'' # r) = ?b" using nb by (auto simp: takeWhile_append)
  have "cut_comment (?b @ CHR ''#'' # r) 0 = ?b" if "c \<noteq> BACKSLASH"
  proof -
    have "unescaped (?b @ CHR ''#'' # r) (length ?b)" using that by (simp add: unescaped_def nth_append)
    then show ?thesis using tw by (subst cut_comment.simps) (simp add: Let_def)
  qed
  then show ?thesis using cut_comment_none [OF nb] n2 by (auto simp: parse_filter_line_def)
qed

theorem filter_escape_rejected_witness:
  "fst (parse_filter_line (\<lambda>_. (True, True)) \<lparr>ps_filter = sample_filter, ps_mode = PARSE_REGIONS_EXCLUDE, ps_rules = 0\<rparr>
      (''foo'' @ [BACKSLASH, CHR ''*''])) = FILTER_PARSE_SYNTAX"
  using filter_escape_rejected [of "''foo''" "CHR ''*''" "\<lambda>_. (True, True)"
      "\<lparr>ps_filter = sample_filter, ps_mode = PARSE_REGIONS_EXCLUDE, ps_rules = 0\<rparr>" "[]"] by simp

end
