(* ===== verification/Scorep_AllocMetric.thy ===== *)
theory Scorep_AllocMetric
  imports Scorep_Prelude "HOL-Library.Tree" "HOL-Library.Multiset"
begin

text \<open>
  Tracking of memory allocations, \<open>src/src/utils/alloc_metric/SCOREP_AllocMetric.c\<close>: the splay
  tree of the allocations, keyed by address, and the handling of allocations, reallocations, frees
  and leaks.

  Every operation holds the mutex of the metric from its start to its end, so operations are run one
  after the other. An acquired allocation is out of the tree and owned by the caller until it is
  handed back. Calls of the substrates and the counter of the metric location are recorded as
  events; the data the substrates keep with an allocation is opaque to this code and left out.
\<close>

section \<open>Data\<close>

record alloc_item =
  address :: u64
  alloc_size :: u64

record alloc_metric =
  allocations :: "alloc_item tree"
  free_items :: nat
  total_allocated :: u64
  process_allocated :: u64

datatype alloc_event =
  TriggerCounter u64
| TrackAlloc u64 u64 u64 u64
| TrackRealloc u64 u64 u64 u64 u64 u64
| TrackFree u64 u64 u64 u64
| LeakedMemory u64 u64

section \<open>Splaying\<close>

text \<open>The loop hooks nodes to the right end of a left tree and to the left end of a right tree: a
  node with its left subtree, or with its right subtree, in the order of the linking.\<close>

type_synonym lefts = "(alloc_item tree \<times> alloc_item) list"
type_synonym rights = "(alloc_item \<times> alloc_item tree) list"

function splay_loop :: "u64 \<Rightarrow> lefts \<Rightarrow> rights \<Rightarrow> alloc_item tree \<Rightarrow> lefts \<times> rights \<times> alloc_item tree" where
  "splay_loop key ls rs Leaf = (ls, rs, Leaf)"
| "splay_loop key ls rs (Node l a r) =
     (if key < address a then
        (case l of
           Leaf \<Rightarrow> (ls, rs, Node l a r)
         | Node ll b lr \<Rightarrow>
             if key < address b then
               (if ll = Leaf then (ls, rs, Node ll b (Node lr a r))
                else splay_loop key ls (rs @ [(b, Node lr a r)]) ll)
             else splay_loop key ls (rs @ [(a, r)]) l)
      else if key > address a then
        (case r of
           Leaf \<Rightarrow> (ls, rs, Node l a r)
         | Node rl b rr \<Rightarrow>
             if key > address b then
               (if rr = Leaf then (ls, rs, Node (Node l a rl) b rr)
                else splay_loop key (ls @ [(Node l a rl, b)]) rs rr)
             else splay_loop key (ls @ [(l, a)]) rs r)
      else (ls, rs, Node l a r))"
  by pat_completeness auto
termination by (relation "measure (\<lambda>(key, ls, rs, root). size root)") auto

declare splay_loop.simps [simp del]

definition hook_left :: "lefts \<Rightarrow> alloc_item tree \<Rightarrow> alloc_item tree" where
  "hook_left ls t = foldr (\<lambda>(l, a) t. Node l a t) ls t"

definition hook_right :: "rights \<Rightarrow> alloc_item tree \<Rightarrow> alloc_item tree" where
  "hook_right rs t = foldr (\<lambda>(a, r) t. Node t a r) rs t"

definition splay :: "alloc_item tree \<Rightarrow> u64 \<Rightarrow> alloc_item tree" where
  "splay root key =
     (case splay_loop key [] [] root of
        (ls, rs, Leaf) \<Rightarrow> Leaf
      | (ls, rs, Node l a r) \<Rightarrow> Node (hook_left ls l) a (hook_right rs r))"

section \<open>The tree of allocations\<close>

text \<open>\<open>left\<close> and \<open>right\<close> are the subtrees the item has from before.\<close>

definition insert_memory_allocation :: "alloc_metric \<Rightarrow> alloc_item \<Rightarrow> alloc_metric" where
  "insert_memory_allocation m a =
     m\<lparr>allocations :=
        (if allocations m = Leaf then Node Leaf a Leaf
         else case splay (allocations m) (address a) of
           Leaf \<Rightarrow> Node Leaf a Leaf
         | Node l b r \<Rightarrow>
             if address a < address b then Node l a (Node Leaf b r)
             else if address a > address b then Node (Node l b Leaf) a r
             else Node Leaf a Leaf)\<rparr>"

definition add_memory_allocation :: "bool \<Rightarrow> alloc_metric \<Rightarrow> u64 \<Rightarrow> u64 \<Rightarrow> (alloc_item \<times> alloc_metric) option" where
  "add_memory_allocation memory_ok m addr sz = do {
     m \<leftarrow> (if free_items m > 0 then Some (m\<lparr>free_items := free_items m - 1\<rparr>)
          else do { assertC memory_ok; Some m });
     let new_item = \<lparr>address = addr, alloc_size = sz\<rparr>;
     Some (new_item, insert_memory_allocation m new_item)
   }"

definition find_memory_allocation :: "alloc_metric \<Rightarrow> u64 \<Rightarrow> alloc_item option \<times> alloc_metric" where
  "find_memory_allocation m addr =
     (if allocations m = Leaf then (None, m)
      else let t = splay (allocations m) addr; m = m\<lparr>allocations := t\<rparr>
           in (case t of Leaf \<Rightarrow> (None, m) | Node l a r \<Rightarrow> (if addr = address a then Some a else None, m)))"

definition remove_memory_allocation :: "alloc_metric \<Rightarrow> alloc_item \<Rightarrow> alloc_metric" where
  "remove_memory_allocation m a =
     (case allocations m of
        Leaf \<Rightarrow> m
      | Node l b r \<Rightarrow>
          if b \<noteq> a then m
          else m\<lparr>allocations :=
            (if l = Leaf then r
             else case splay l (address a) of Leaf \<Rightarrow> r | Node ll c lr \<Rightarrow> Node ll c r)\<rparr>)"

definition free_memory_allocation :: "alloc_metric \<Rightarrow> alloc_item \<Rightarrow> alloc_metric" where
  "free_memory_allocation m a = m\<lparr>free_items := free_items m + 1\<rparr>"

definition delete_memory_allocation :: "alloc_metric \<Rightarrow> alloc_item \<Rightarrow> alloc_metric" where
  "delete_memory_allocation m a = free_memory_allocation (remove_memory_allocation m a) a"

section \<open>Operations\<close>

definition AllocMetric_AcquireAlloc :: "alloc_metric \<Rightarrow> u64 \<Rightarrow> (alloc_item option \<times> alloc_metric) option" where
  "AllocMetric_AcquireAlloc m addr = do {
     assertC (addr \<noteq> 0);
     let (allocation, m) = find_memory_allocation m addr;
     Some (allocation, (case allocation of None \<Rightarrow> m | Some a \<Rightarrow> remove_memory_allocation m a))
   }"

definition AllocMetric_AddrExists :: "alloc_metric \<Rightarrow> u64 \<Rightarrow> bool \<times> alloc_metric" where
  "AllocMetric_AddrExists m addr =
     (let (allocation, m) = find_memory_allocation m addr in (allocation \<noteq> None, m))"

definition AllocMetric_HandleAlloc ::
    "bool \<Rightarrow> alloc_metric \<Rightarrow> u64 \<Rightarrow> u64 \<Rightarrow> (alloc_event list \<times> alloc_metric) option" where
  "AllocMetric_HandleAlloc memory_ok m resultAddr sz = do {
     let m = m\<lparr>process_allocated := process_allocated m + sz\<rparr>;
     let saved = process_allocated m;
     let m = m\<lparr>total_allocated := total_allocated m + sz\<rparr>;
     (allocation, m) \<leftarrow> add_memory_allocation memory_ok m resultAddr sz;
     Some ([TriggerCounter (total_allocated m), TrackAlloc resultAddr sz (total_allocated m) saved], m)
   }"

text \<open>The result is the events, the previous size and the metric.\<close>

definition AllocMetric_HandleRealloc ::
    "bool \<Rightarrow> alloc_metric \<Rightarrow> u64 \<Rightarrow> u64 \<Rightarrow> alloc_item option \<Rightarrow> (alloc_event list \<times> u64 \<times> alloc_metric) option" where
  "AllocMetric_HandleRealloc memory_ok m resultAddr sz prevAllocation =
     (case prevAllocation of
        Some a \<Rightarrow>
          if address a = resultAddr then
            (let m = m\<lparr>process_allocated := process_allocated m + (sz - alloc_size a)\<rparr>;
                 saved = process_allocated m;
                 m = m\<lparr>total_allocated := total_allocated m + (sz - alloc_size a)\<rparr>;
                 total = total_allocated m
             in Some ([TrackRealloc (address a) (alloc_size a) resultAddr sz total saved, TriggerCounter total],
                  alloc_size a, insert_memory_allocation m (a\<lparr>alloc_size := sz\<rparr>)))
          else
            (let saved = process_allocated m + sz;
                 m = m\<lparr>process_allocated := saved - alloc_size a\<rparr>;
                 total = total_allocated m + sz;
                 m = m\<lparr>total_allocated := total - alloc_size a\<rparr>
             in Some ([TrackRealloc (address a) (alloc_size a) resultAddr sz total saved, TriggerCounter total],
                  alloc_size a, insert_memory_allocation m (a\<lparr>address := resultAddr, alloc_size := sz\<rparr>)))
      | None \<Rightarrow> do {
          let m = m\<lparr>process_allocated := process_allocated m + sz\<rparr>;
          let saved = process_allocated m;
          let m = m\<lparr>total_allocated := total_allocated m + sz\<rparr>;
          let total = total_allocated m;
          (allocation, m) \<leftarrow> add_memory_allocation memory_ok m resultAddr sz;
          Some ([TrackAlloc resultAddr sz total saved, TriggerCounter total], 0, m)
        })"

text \<open>The result is the events, the size and the metric.\<close>

definition AllocMetric_HandleFree :: "alloc_metric \<Rightarrow> alloc_item option \<Rightarrow> alloc_event list \<times> u64 \<times> alloc_metric" where
  "AllocMetric_HandleFree m allocation =
     (case allocation of
        None \<Rightarrow> ([], 0, m)
      | Some a \<Rightarrow>
          let m = m\<lparr>process_allocated := process_allocated m - alloc_size a\<rparr>;
              saved = process_allocated m;
              m = m\<lparr>total_allocated := total_allocated m - alloc_size a\<rparr>;
              m = free_memory_allocation m a
          in ([TriggerCounter (total_allocated m), TrackFree (address a) (alloc_size a) (total_allocated m) saved],
              alloc_size a, m))"

section \<open>What splaying keeps\<close>

abbreviation items :: "alloc_metric \<Rightarrow> alloc_item list" where
  "items m \<equiv> inorder (allocations m)"

definition lefts_items :: "lefts \<Rightarrow> alloc_item list" where
  "lefts_items ls = concat (map (\<lambda>(l, a). inorder l @ [a]) ls)"

definition rights_items :: "rights \<Rightarrow> alloc_item list" where
  "rights_items rs = concat (map (\<lambda>(a, r). a # inorder r) (rev rs))"

lemma lefts_items_simps [simp]: "lefts_items [] = []" "lefts_items (ls @ [(l, a)]) = lefts_items ls @ inorder l @ [a]"
  by (simp_all add: lefts_items_def)

lemma rights_items_simps [simp]: "rights_items [] = []" "rights_items (rs @ [(a, r)]) = a # inorder r @ rights_items rs"
  by (simp_all add: rights_items_def)

lemma inorder_hook_left: "inorder (hook_left ls t) = lefts_items ls @ inorder t"
  by (induction ls) (auto simp: hook_left_def lefts_items_def)

lemma inorder_hook_right: "inorder (hook_right rs t) = inorder t @ rights_items rs"
proof (induction rs arbitrary: t rule: rev_induct)
  case (snoc x rs)
  then show ?case by (cases x) (simp add: hook_right_def)
qed (simp add: hook_right_def)

text \<open>The passes of the loop.\<close>

lemma splay_loop_cases:
  fixes key ls rs l a r
  defines "loop \<equiv> splay_loop key ls rs (Node l a r)"
  obtains
    (found) "address a = key" "loop = (ls, rs, Node l a r)"
  | (least) "key < address a" "l = Leaf" "loop = (ls, rs, Node l a r)"
  | (rotate_least) b lr where "key < address a" "l = Node Leaf b lr" "key < address b"
      "loop = (ls, rs, Node Leaf b (Node lr a r))"
  | (zigzig) ll b lr where "key < address a" "l = Node ll b lr" "key < address b" "ll \<noteq> Leaf"
      "loop = splay_loop key ls (rs @ [(b, Node lr a r)]) ll"
  | (zig) ll b lr where "key < address a" "l = Node ll b lr" "\<not> key < address b"
      "loop = splay_loop key ls (rs @ [(a, r)]) l"
  | (greatest) "key > address a" "r = Leaf" "loop = (ls, rs, Node l a r)"
  | (rotate_greatest) b rl where "key > address a" "r = Node rl b Leaf" "key > address b"
      "loop = (ls, rs, Node (Node l a rl) b Leaf)"
  | (zagzag) rl b rr where "key > address a" "r = Node rl b rr" "key > address b" "rr \<noteq> Leaf"
      "loop = splay_loop key (ls @ [(Node l a rl, b)]) rs rr"
  | (zag) rl b rr where "key > address a" "r = Node rl b rr" "\<not> key > address b"
      "loop = splay_loop key (ls @ [(l, a)]) rs r"
proof -
  consider "key = address a" | "key < address a" | "key > address a" by fastforce
  then show thesis
  proof cases
    case 1
    then show thesis using found by (simp add: loop_def splay_loop.simps)
  next
    case 2
    show thesis
    proof (cases l)
      case Leaf
      then show thesis using 2 least by (simp add: loop_def splay_loop.simps)
    next
      case (Node ll b lr)
      then have "loop = (if key < address b then
          (if ll = Leaf then (ls, rs, Node ll b (Node lr a r)) else splay_loop key ls (rs @ [(b, Node lr a r)]) ll)
        else splay_loop key ls (rs @ [(a, r)]) l)"
        unfolding loop_def using 2 by (subst splay_loop.simps) simp
      then show thesis using 2 Node rotate_least [of b lr] zigzig [of ll b lr] zig [of ll b lr]
        by (auto split: if_splits)
    qed
  next
    case 3
    then have n: "\<not> key < address a" by simp
    show thesis
    proof (cases r)
      case Leaf
      then show thesis using 3 n greatest by (simp add: loop_def splay_loop.simps)
    next
      case (Node rl b rr)
      then have "loop = (if key > address b then
          (if rr = Leaf then (ls, rs, Node (Node l a rl) b rr) else splay_loop key (ls @ [(Node l a rl, b)]) rs rr)
        else splay_loop key (ls @ [(l, a)]) rs r)"
        unfolding loop_def using 3 n by (subst splay_loop.simps) simp
      then show thesis using 3 Node rotate_greatest [where b = b and rl = rl] zagzag [where b = b and rl = rl and rr = rr]
            zag [where b = b and rl = rl and rr = rr]
        by (auto split: if_splits)
    qed
  qed
qed


lemma splay_loop_inorder:
  "splay_loop key ls rs t = (ls', rs', t') \<Longrightarrow>
     lefts_items ls' @ inorder t' @ rights_items rs' = lefts_items ls @ inorder t @ rights_items rs
     \<and> (t \<noteq> Leaf \<longrightarrow> t' \<noteq> Leaf)"
proof (induction "size t" arbitrary: t ls rs rule: less_induct)
  case less
  show ?case
  proof (cases t)
    case Leaf
    then show ?thesis using less.prems by (simp add: splay_loop.simps)
  next
    case (Node l a r)
    show ?thesis
      by (rule splay_loop_cases [of a key ls rs l r]; use less.prems less.hyps Node in \<open>force\<close>)
  qed
qed

definition below :: "u64 \<Rightarrow> alloc_item list \<Rightarrow> bool" where
  "below key xs \<longleftrightarrow> (\<forall>x \<in> set xs. address x < key)"

definition beyond :: "u64 \<Rightarrow> alloc_item list \<Rightarrow> bool" where
  "beyond key xs \<longleftrightarrow> (\<forall>x \<in> set xs. key < address x)"

abbreviation ordered :: "alloc_item list \<Rightarrow> bool" where
  "ordered xs \<equiv> sorted_wrt (\<lambda>x y. address x < address y) xs"

lemma below_simps [simp]: "below k []" "below k (x # xs) \<longleftrightarrow> address x < k \<and> below k xs"
  "below k (xs @ ys) \<longleftrightarrow> below k xs \<and> below k ys"
  by (auto simp: below_def)

lemma beyond_simps [simp]: "beyond k []" "beyond k (x # xs) \<longleftrightarrow> k < address x \<and> beyond k xs"
  "beyond k (xs @ ys) \<longleftrightarrow> beyond k xs \<and> beyond k ys"
  by (auto simp: beyond_def)

lemma below_trans: "\<forall>x \<in> set xs. address x < address a \<Longrightarrow> address a < k \<Longrightarrow> below k xs"
  by (auto simp: below_def)

lemma beyond_trans: "\<forall>x \<in> set xs. address a < address x \<Longrightarrow> k < address a \<Longrightarrow> beyond k xs"
  by (auto simp: beyond_def)

lemma splay_loop_bounds:
  "splay_loop key ls rs t = (ls', rs', t') \<Longrightarrow> ordered (inorder t) \<Longrightarrow> below key (lefts_items ls) \<Longrightarrow>
     beyond key (rights_items rs) \<Longrightarrow>
     below key (lefts_items ls') \<and> beyond key (rights_items rs')
     \<and> (case t' of Leaf \<Rightarrow> True | Node l a r \<Rightarrow> (key < address a \<longrightarrow> l = Leaf) \<and> (key > address a \<longrightarrow> r = Leaf))"
proof (induction "size t" arbitrary: t ls rs rule: less_induct)
  case less
  show ?case
  proof (cases t)
    case Leaf
    then show ?thesis using less.prems by (simp add: splay_loop.simps)
  next
    case (Node l a r)
    have o: "ordered (inorder l)" "ordered (inorder r)" "\<forall>x \<in> set (inorder l). address x < address a"
      "\<forall>x \<in> set (inorder r). address a < address x"
      using less.prems(2) Node by (auto simp: sorted_wrt_append simp del: set_inorder)
    show ?thesis
    proof (rule splay_loop_cases [of a key ls rs l r])
      fix ll b lr
      assume h: "key < address a" "l = Node ll b lr" "key < address b" "ll \<noteq> Leaf"
        "splay_loop key ls rs (Node l a r) = splay_loop key ls (rs @ [(b, Node lr a r)]) ll"
      have "ordered (inorder ll)" "\<forall>x \<in> set (inorder lr). address b < address x"
        using o(1) h(2) by (auto simp: sorted_wrt_append simp del: set_inorder)
      then show ?thesis
        using less.hyps [of ll ls "rs @ [(b, Node lr a r)]"] less.prems h Node beyond_trans [OF _ h(3)]
          beyond_trans [OF o(4) h(1)] by simp
    next
      fix rl b rr
      assume h: "address a < key" "r = Node rl b rr" "address b < key" "rr \<noteq> Leaf"
        "splay_loop key ls rs (Node l a r) = splay_loop key (ls @ [(Node l a rl, b)]) rs rr"
      have "ordered (inorder rr)" "\<forall>x \<in> set (inorder rl). address x < address b"
        using o(2) h(2) by (auto simp: sorted_wrt_append simp del: set_inorder)
      then show ?thesis
        using less.hyps [of rr "ls @ [(Node l a rl, b)]" rs] less.prems h Node below_trans [OF _ h(3)]
          below_trans [OF o(3) h(1)] by simp
    next
      fix ll b lr
      assume h: "key < address a" "l = Node ll b lr" "\<not> key < address b"
        "splay_loop key ls rs (Node l a r) = splay_loop key ls (rs @ [(a, r)]) l"
      then show ?thesis
        using less.hyps [of l ls "rs @ [(a, r)]"] less.prems Node o(1) beyond_trans [OF o(4) h(1)] by simp
    next
      fix rl b rr
      assume h: "address a < key" "r = Node rl b rr" "\<not> address b < key"
        "splay_loop key ls rs (Node l a r) = splay_loop key (ls @ [(l, a)]) rs r"
      then show ?thesis
        using less.hyps [of r "ls @ [(l, a)]" rs] less.prems Node o(2) below_trans [OF o(3) h(1)] by simp
    qed (use less.prems Node in auto)
  qed
qed

lemma inorder_splay: "inorder (splay t key) = inorder t"
proof (cases "splay_loop key [] [] t")
  case (fields ls rs t')
  note i = splay_loop_inorder [OF this]
  show ?thesis
  proof (cases t')
    case Leaf
    then have "t = Leaf" using i by blast
    then show ?thesis by (simp add: splay_def splay_loop.simps)
  next
    case (Node l a r)
    then show ?thesis using fields i by (simp add: splay_def inorder_hook_left inorder_hook_right)
  qed
qed

lemma splay_Leaf: "splay t key = Leaf \<longleftrightarrow> t = Leaf"
proof -
  have "inorder (splay t key) = [] \<longleftrightarrow> inorder t = []" by (simp add: inorder_splay)
  then show ?thesis by (cases "splay t key"; cases t) auto
qed

lemma splay_root:
  assumes "ordered (inorder t)" "splay t key = Node l a r"
  shows "key < address a \<Longrightarrow> below key (inorder l)" "key > address a \<Longrightarrow> beyond key (inorder r)"
    "x \<in> set (inorder t) \<Longrightarrow> address x = key \<Longrightarrow> x = a"
proof -
  obtain ls rs t' where s: "splay_loop key [] [] t = (ls, rs, t')" by (cases "splay_loop key [] [] t") auto
  then obtain l0 r0 where t': "t' = Node l0 a r0" "l = hook_left ls l0" "r = hook_right rs r0"
    using assms(2) by (cases t') (auto simp: splay_def)
  note b = splay_loop_bounds [OF s assms(1)]
  show lo: "key < address a \<Longrightarrow> below key (inorder l)" and hi: "key > address a \<Longrightarrow> beyond key (inorder r)"
    using b t' by (auto simp: inorder_hook_left inorder_hook_right)
  have i: "inorder t = inorder l @ a # inorder r" using inorder_splay [of t key] assms(2) by simp
  show "x = a" if "x \<in> set (inorder t)" "address x = key"
  proof -
    have "\<forall>x \<in> set (inorder l). address x < address a" "\<forall>x \<in> set (inorder r). address a < address x"
      using assms(1) unfolding i by (auto simp: sorted_wrt_append simp del: set_inorder)
    moreover have "x \<in> set (inorder l) \<or> x = a \<or> x \<in> set (inorder r)"
      using that(1) unfolding i by (auto simp del: set_inorder)
    ultimately show ?thesis
      using that(2) lo hi unfolding below_def beyond_def by (metis less_asym less_irrefl linorder_neqE)
  qed
qed

section \<open>The operations on the tree\<close>

definition entries :: "alloc_item list \<Rightarrow> u64 \<rightharpoonup> u64" where
  "entries xs = map_of (map (\<lambda>a. (address a, alloc_size a)) xs)"

definition known :: "alloc_metric \<Rightarrow> u64 \<rightharpoonup> u64" where
  "known m = entries (items m)"

lemma dom_entries: "dom (entries xs) = address ` set xs"
  by (simp add: entries_def dom_map_of_conv_image_fst image_image)

lemma entries_add: "below (address a) xs \<Longrightarrow> entries (xs @ a # ys) = (entries (xs @ ys))(address a \<mapsto> alloc_size a)"
  by (induction xs) (auto simp: entries_def fun_eq_iff)

lemma entries_skip: "below k xs \<Longrightarrow> beyond k ys \<Longrightarrow> k \<notin> dom (entries (xs @ ys))"
  by (auto simp: dom_entries below_def beyond_def)

lemma entries_remove:
  assumes "ordered (xs @ a # ys)"
  shows "entries (xs @ ys) = (entries (xs @ a # ys))(address a := None)"
proof -
  have b: "below (address a) xs" "beyond (address a) ys"
    using assms by (auto simp: sorted_wrt_append below_def beyond_def)
  have "entries (xs @ ys) (address a) = None" using entries_skip [OF b] by (simp add: domIff)
  then show ?thesis by (simp add: entries_add [OF b(1)] fun_upd_idem)
qed

lemma entries_mem: "ordered xs \<Longrightarrow> a \<in> set xs \<Longrightarrow> entries xs (address a) = Some (alloc_size a)"
proof -
  assume o: "ordered xs" and "a \<in> set xs"
  then obtain ys zs where x: "xs = ys @ a # zs" by (meson split_list)
  then have "below (address a) ys" using o by (auto simp: sorted_wrt_append below_def)
  then show ?thesis unfolding x by (simp add: entries_add)
qed

lemma found_items:
  assumes "ordered (items m)" "find_memory_allocation m addr = (res, m')"
  shows "items m' = items m" "m'\<lparr>allocations := t\<rparr> = m\<lparr>allocations := t\<rparr>"
    "case res of None \<Rightarrow> addr \<notin> dom (known m)
       | Some a \<Rightarrow> address a = addr \<and> (\<exists>l r. allocations m' = Node l a r)"
proof -
  show *: "items m' = items m" "m'\<lparr>allocations := t\<rparr> = m\<lparr>allocations := t\<rparr>"
    using assms(2) inorder_splay [of "allocations m" addr]
    by (auto simp: find_memory_allocation_def Let_def split: tree.splits if_splits)
  show "case res of None \<Rightarrow> addr \<notin> dom (known m)
       | Some a \<Rightarrow> address a = addr \<and> (\<exists>l r. allocations m' = Node l a r)"
  proof (cases "splay (allocations m) addr")
    case Leaf
    then show ?thesis using assms(2)
      by (auto simp: find_memory_allocation_def splay_Leaf known_def entries_def)
  next
    case (Node l a r)
    then have n: "allocations m \<noteq> Leaf" by (auto simp: splay_def splay_loop.simps)
    show ?thesis
    proof (cases "addr = address a")
      case True
      then show ?thesis using assms(2) n Node by (auto simp: find_memory_allocation_def)
    next
      case False
      then have "addr \<notin> address ` set (items m)" using splay_root(3) [OF assms(1) Node] by blast
      then show ?thesis using assms(2) n Node False
        by (auto simp: find_memory_allocation_def known_def dom_entries simp del: set_inorder)
    qed
  qed
qed

lemma insert_new_items:
  assumes "ordered (items m)" "address a \<notin> dom (known m)"
  obtains xs ys where "items m = xs @ ys" "items (insert_memory_allocation m a) = xs @ a # ys"
    "below (address a) xs" "beyond (address a) ys"
proof (cases "allocations m")
  case Leaf
  then show ?thesis using that [of "[]" "[]"] by (simp add: insert_memory_allocation_def)
next
  case (Node l0 b0 r0)
  then obtain l b r where s: "splay (allocations m) (address a) = Node l b r"
    using splay_Leaf [of "allocations m" "address a"] by (cases "splay (allocations m) (address a)") auto
  have i: "items m = inorder l @ b # inorder r" using inorder_splay [of "allocations m" "address a"] s by simp
  then have ne: "address a \<noteq> address b" using assms(2) by (auto simp: known_def dom_entries simp del: set_inorder)
  have o: "beyond (address b) (inorder r)" "below (address b) (inorder l)"
    using assms(1) i by (auto simp: sorted_wrt_append below_def beyond_def simp del: set_inorder)
  show ?thesis
  proof (cases "address a < address b")
    case True
    then have "beyond (address a) (inorder r)" using o(1) by (auto simp: beyond_def simp del: set_inorder)
    then show ?thesis
      using that [of "inorder l" "b # inorder r"] i s Node splay_root(1) [OF assms(1) s True] True
      by (simp add: insert_memory_allocation_def)
  next
    case False
    then have gt: "address b < address a" using ne by simp
    then have "below (address a) (inorder l)" using o(2) by (auto simp: below_def simp del: set_inorder)
    then show ?thesis
      using that [of "inorder l @ [b]" "inorder r"] i s Node splay_root(2) [OF assms(1) s gt] gt False
      by (simp add: insert_memory_allocation_def)
  qed
qed

lemma insert_other_fields:
  "m'\<lparr>allocations := t\<rparr> = m\<lparr>allocations := t\<rparr>" if "m' = insert_memory_allocation m a"
  using that by (simp add: insert_memory_allocation_def)

lemma remove_root_items:
  assumes "ordered (items m)" "allocations m = Node l a r"
  shows "items (remove_memory_allocation m a) = inorder l @ inorder r"
proof (cases "splay l (address a)")
  case Leaf
  then show ?thesis using assms(2) by (simp add: remove_memory_allocation_def splay_Leaf)
next
  case (Node ll c lr)
  then have n: "l \<noteq> Leaf" by (auto simp: splay_def splay_loop.simps)
  have i: "inorder l = inorder ll @ c # inorder lr" using inorder_splay [of l "address a"] Node by simp
  have o: "ordered (inorder l)" "\<forall>x \<in> set (inorder l). address x < address a"
    using assms by (auto simp: sorted_wrt_append simp del: set_inorder)
  then have "beyond (address a) (inorder lr)" using splay_root(2) [OF o(1) Node] i by simp
  moreover have "below (address a) (inorder lr)" using o(2) i by (simp add: below_def)
  ultimately have "inorder lr = []" by (cases "inorder lr") auto
  then show ?thesis using assms(2) n Node i by (simp add: remove_memory_allocation_def)
qed

section \<open>The report of leaks\<close>

lemma size_splay: "size (splay t key) = size t"
  using arg_cong [OF inorder_splay [of t key], of length] by simp

lemma size_remove_root: "allocations m = Node l a r \<Longrightarrow> size (allocations (delete_memory_allocation m a)) < size (allocations m)"
  using size_splay [of l "address a"]
  by (auto simp: delete_memory_allocation_def free_memory_allocation_def remove_memory_allocation_def split: tree.splits)

function AllocMetric_ReportLeaked :: "alloc_metric \<Rightarrow> alloc_event list \<times> alloc_metric" where
  "AllocMetric_ReportLeaked m =
     (case allocations m of
        Leaf \<Rightarrow> ([], m)
      | Node l node r \<Rightarrow>
          let (events, m) = AllocMetric_ReportLeaked (delete_memory_allocation m node)
          in (LeakedMemory (address node) (alloc_size node) # events, m))"
  by pat_completeness auto
termination
proof (relation "measure (\<lambda>m. size (allocations m))")
  fix m :: alloc_metric and l a r
  assume "allocations m = Node l a r"
  then show "(delete_memory_allocation m a, m) \<in> measure (\<lambda>m. size (allocations m))"
    using size_remove_root [of m l a r] by simp
qed simp

declare AllocMetric_ReportLeaked.simps [simp del]

lemma items_delete [simp]: "items (delete_memory_allocation m a) = items (remove_memory_allocation m a)"
  "free_items (delete_memory_allocation m a) = Suc (free_items m)"
  by (simp_all add: delete_memory_allocation_def free_memory_allocation_def remove_memory_allocation_def split: tree.splits)

definition leak_of :: "alloc_item \<Rightarrow> alloc_event" where
  "leak_of a = LeakedMemory (address a) (alloc_size a)"

lemma report_leaked:
  "ordered (items m) \<Longrightarrow> AllocMetric_ReportLeaked m = (events, m') \<Longrightarrow>
     mset events = image_mset leak_of (mset (items m)) \<and> allocations m' = Leaf
     \<and> free_items m' = free_items m + length (items m)"
proof (induction m arbitrary: events m' rule: AllocMetric_ReportLeaked.induct)
  case (1 m)
  show ?case
  proof (cases "allocations m")
    case Leaf
    then show ?thesis using 1(3) by (auto simp: AllocMetric_ReportLeaked.simps)
  next
    case (Node l a r)
    let ?d = "delete_memory_allocation m a"
    obtain es m'' where rec: "AllocMetric_ReportLeaked ?d = (es, m'')" by (cases "AllocMetric_ReportLeaked ?d")
    then have e: "events = leak_of a # es" "m' = m''"
      using 1(3) Node by (auto simp: AllocMetric_ReportLeaked.simps [of m] leak_of_def)
    have i: "items ?d = inorder l @ inorder r" using remove_root_items [OF 1(2) Node] by simp
    moreover have "ordered (inorder l @ inorder r)"
      using 1(2) Node by (auto simp: sorted_wrt_append simp del: set_inorder)
    ultimately show ?thesis using 1(1) [OF Node, of es m''] rec e Node by (auto simp del: items_delete(1))
  qed
qed

section \<open>Runs of a client\<close>

text \<open>
  A client that wraps an allocator reports an allocation once it is done; before a reallocation or a
  free it acquires the allocation of the address, and hands it over afterwards.
\<close>

datatype alloc_op = Alloc u64 u64 | Realloc u64 u64 u64 | Free u64

fun alloc_step :: "alloc_metric \<Rightarrow> alloc_op \<Rightarrow> alloc_metric option" where
  "alloc_step m (Alloc p sz) = map_option snd (AllocMetric_HandleAlloc True m p sz)"
| "alloc_step m (Realloc p q sz) = do {
     (a, m) \<leftarrow> AllocMetric_AcquireAlloc m p;
     (events, prev_size, m) \<leftarrow> AllocMetric_HandleRealloc True m q sz a;
     Some m
   }"
| "alloc_step m (Free p) = do {
     (a, m) \<leftarrow> AllocMetric_AcquireAlloc m p;
     let (events, sz, m) = AllocMetric_HandleFree m a;
     Some m
   }"

fun alloc_run :: "alloc_metric \<Rightarrow> alloc_op list \<Rightarrow> alloc_metric option" where
  "alloc_run m [] = Some m"
| "alloc_run m (op # ops) = do { m \<leftarrow> alloc_step m op; alloc_run m ops }"

text \<open>What the sequence means for the program's heap, and which sequences an allocator that never
  hands out an address in use can give.\<close>

fun heap_step :: "(u64 \<rightharpoonup> u64) \<Rightarrow> alloc_op \<Rightarrow> (u64 \<rightharpoonup> u64)" where
  "heap_step H (Alloc p sz) = H(p \<mapsto> sz)"
| "heap_step H (Realloc p q sz) = H(p := None, q \<mapsto> sz)"
| "heap_step H (Free p) = H(p := None)"

fun heap_allows :: "(u64 \<rightharpoonup> u64) \<Rightarrow> alloc_op \<Rightarrow> bool" where
  "heap_allows H (Alloc p sz) \<longleftrightarrow> H p = None"
| "heap_allows H (Realloc p q sz) \<longleftrightarrow> p \<noteq> 0 \<and> (q = p \<or> H q = None)"
| "heap_allows H (Free p) \<longleftrightarrow> p \<noteq> 0"

fun heap_allows_run :: "(u64 \<rightharpoonup> u64) \<Rightarrow> alloc_op list \<Rightarrow> bool" where
  "heap_allows_run H [] \<longleftrightarrow> True"
| "heap_allows_run H (op # ops) \<longleftrightarrow> heap_allows H op \<and> heap_allows_run (heap_step H op) ops"

definition total_of :: "alloc_metric \<Rightarrow> u64" where
  "total_of m = (\<Sum>a\<leftarrow>items m. alloc_size a)"

definition alloc_inv :: "alloc_metric \<Rightarrow> bool" where
  "alloc_inv m \<longleftrightarrow> ordered (items m) \<and> total_allocated m = total_of m \<and> process_allocated m = total_of m"

lemma insert_new:
  assumes "ordered (items m)" "address a \<notin> dom (known m)"
  shows "ordered (items (insert_memory_allocation m a))"
    "known (insert_memory_allocation m a) = (known m)(address a \<mapsto> alloc_size a)"
    "total_of (insert_memory_allocation m a) = total_of m + alloc_size a"
proof -
  obtain xs ys where i: "items m = xs @ ys" "items (insert_memory_allocation m a) = xs @ a # ys"
    "below (address a) xs" "beyond (address a) ys" using insert_new_items [OF assms] .
  show "ordered (items (insert_memory_allocation m a))"
    using assms(1) i by (auto simp: sorted_wrt_append below_def beyond_def)
  show "known (insert_memory_allocation m a) = (known m)(address a \<mapsto> alloc_size a)"
    using i by (simp add: known_def entries_add)
  show "total_of (insert_memory_allocation m a) = total_of m + alloc_size a"
    using i by (simp add: total_of_def)
qed

lemma AcquireAlloc_items:
  assumes "ordered (items m)" "AllocMetric_AcquireAlloc m p = Some (res, m')"
  shows "ordered (items m')" "known m' = (known m)(p := None)"
    "m'\<lparr>allocations := t\<rparr> = m\<lparr>allocations := t\<rparr>"
    "case res of None \<Rightarrow> known m p = None \<and> total_of m' = total_of m
       | Some a \<Rightarrow> address a = p \<and> known m p = Some (alloc_size a) \<and> total_of m = total_of m' + alloc_size a"
proof -
  obtain m1 where f: "find_memory_allocation m p = (res, m1)"
    and m': "m' = (case res of None \<Rightarrow> m1 | Some a \<Rightarrow> remove_memory_allocation m1 a)"
    using assms(2) by (auto simp: AllocMetric_AcquireAlloc_def split: prod.splits if_splits)
  note fi = found_items [OF assms(1) f]
  have "ordered (items m') \<and> known m' = (known m)(p := None) \<and> m'\<lparr>allocations := t\<rparr> = m\<lparr>allocations := t\<rparr> \<and>
    (case res of None \<Rightarrow> known m p = None \<and> total_of m' = total_of m
       | Some a \<Rightarrow> address a = p \<and> known m p = Some (alloc_size a) \<and> total_of m = total_of m' + alloc_size a)"
  proof (cases res)
    case None
    then show ?thesis using fi m' assms(1) by (auto simp: known_def total_of_def fun_eq_iff)
  next
    case (Some a)
    then obtain l r where r: "address a = p" "allocations m1 = Node l a r" using fi(3) by auto
    then have i: "items m = inorder l @ a # inorder r" using fi(1) by simp
    then have im: "items m' = inorder l @ inorder r"
      using remove_root_items [of m1, OF _ r(2)] fi(1) assms(1) m' Some by simp
    have o: "ordered (inorder l @ a # inorder r)" using assms(1) i by simp
    then have "ordered (inorder l @ inorder r)" by (auto simp: sorted_wrt_append simp del: set_inorder)
    moreover have "known m p = Some (alloc_size a)"
      using entries_mem [OF o, of a] i r by (simp add: known_def)
    moreover have "m'\<lparr>allocations := t\<rparr> = m\<lparr>allocations := t\<rparr>"
      using fi(2) m' Some by (simp add: remove_memory_allocation_def split: tree.splits)
    ultimately show ?thesis
      using Some im i r entries_remove [OF o] by (simp add: known_def total_of_def)
  qed
  then show "ordered (items m')" "known m' = (known m)(p := None)" "m'\<lparr>allocations := t\<rparr> = m\<lparr>allocations := t\<rparr>"
    "case res of None \<Rightarrow> known m p = None \<and> total_of m' = total_of m
       | Some a \<Rightarrow> address a = p \<and> known m p = Some (alloc_size a) \<and> total_of m = total_of m' + alloc_size a"
    by blast+
qed


lemma other_fields [simp]:
  "known (m\<lparr>total_allocated := t\<rparr>) = known m" "known (m\<lparr>process_allocated := t\<rparr>) = known m"
  "known (m\<lparr>free_items := k\<rparr>) = known m" "total_of (m\<lparr>total_allocated := t\<rparr>) = total_of m"
  "total_of (m\<lparr>process_allocated := t\<rparr>) = total_of m" "total_of (m\<lparr>free_items := k\<rparr>) = total_of m"
  by (simp_all add: known_def total_of_def)

lemma insert_fields [simp]:
  "total_allocated (insert_memory_allocation m a) = total_allocated m"
  "process_allocated (insert_memory_allocation m a) = process_allocated m"
  by (simp_all add: insert_memory_allocation_def)

lemma insert_inv:
  assumes "ordered (items m)" "known m (address a) = None" "total_allocated m = total_of m + alloc_size a"
    "process_allocated m = total_of m + alloc_size a"
  shows "alloc_inv (insert_memory_allocation m a)
    \<and> known (insert_memory_allocation m a) = (known m)(address a \<mapsto> alloc_size a)"
  using insert_new [OF assms(1)] assms by (auto simp: alloc_inv_def domIff)

lemma HandleAlloc_returns: "\<exists>r. AllocMetric_HandleAlloc True m p sz = Some r"
  by (cases "free_items m > 0") (simp_all add: AllocMetric_HandleAlloc_def add_memory_allocation_def Let_def)

lemma HandleAlloc_inv:
  assumes "alloc_inv m" "known m p = None"
  shows "\<exists>events m'. AllocMetric_HandleAlloc True m p sz = Some (events, m') \<and> alloc_inv m'
    \<and> known m' = (known m)(p \<mapsto> sz)"
proof (cases "free_items m > 0")
  case True
  then show ?thesis
    using assms insert_inv [of "m\<lparr>process_allocated := process_allocated m + sz,
      total_allocated := total_allocated m + sz, free_items := free_items m - 1\<rparr>" "\<lparr>address = p, alloc_size = sz\<rparr>"]
    by (simp add: AllocMetric_HandleAlloc_def add_memory_allocation_def alloc_inv_def Let_def)
next
  case False
  then show ?thesis
    using assms insert_inv [of "m\<lparr>process_allocated := process_allocated m + sz,
      total_allocated := total_allocated m + sz\<rparr>" "\<lparr>address = p, alloc_size = sz\<rparr>"]
    by (simp add: AllocMetric_HandleAlloc_def add_memory_allocation_def alloc_inv_def Let_def)
qed

lemma HandleRealloc_inv:
  assumes "ordered (items m)" "known m q = None"
    "case a of None \<Rightarrow> alloc_inv m | Some a \<Rightarrow> total_allocated m = total_of m + alloc_size a
       \<and> process_allocated m = total_of m + alloc_size a"
  shows "\<exists>events prev m'. AllocMetric_HandleRealloc True m q sz a = Some (events, prev, m') \<and> alloc_inv m'
    \<and> known m' = (known m)(q \<mapsto> sz)"
proof (cases a)
  case None
  then have "AllocMetric_HandleRealloc True m q sz a =
      map_option (\<lambda>(events, m'). (rev events, 0, m')) (AllocMetric_HandleAlloc True m q sz)"
    by (simp add: AllocMetric_HandleRealloc_def AllocMetric_HandleAlloc_def add_memory_allocation_def Let_def)
  then show ?thesis using HandleAlloc_inv [of m q sz] assms None by auto
next
  case (Some b)
  show ?thesis
  proof (cases "address b = q")
    case True
    then show ?thesis
      using assms Some insert_inv [of "m\<lparr>process_allocated := process_allocated m + (sz - alloc_size b),
        total_allocated := total_allocated m + (sz - alloc_size b)\<rparr>" "b\<lparr>alloc_size := sz\<rparr>"]
      by (simp add: AllocMetric_HandleRealloc_def Let_def)
  next
    case False
    then show ?thesis
      using assms Some insert_inv [of "m\<lparr>process_allocated := process_allocated m + sz - alloc_size b,
        total_allocated := total_allocated m + sz - alloc_size b\<rparr>" "b\<lparr>address := q, alloc_size := sz\<rparr>"]
      by (simp add: AllocMetric_HandleRealloc_def Let_def)
  qed
qed

lemma AcquireAlloc_some: "p \<noteq> 0 \<Longrightarrow> \<exists>a m'. AllocMetric_AcquireAlloc m p = Some (a, m')"
  by (simp add: AllocMetric_AcquireAlloc_def split: prod.splits)

lemma AcquireAlloc_inv:
  assumes "alloc_inv m" "p \<noteq> 0"
  obtains a m' where "AllocMetric_AcquireAlloc m p = Some (a, m')" "ordered (items m')"
    "known m' = (known m)(p := None)"
    "case a of None \<Rightarrow> alloc_inv m' | Some a \<Rightarrow> total_allocated m' = total_of m' + alloc_size a
       \<and> process_allocated m' = total_of m' + alloc_size a"
proof -
  obtain a m' where r: "AllocMetric_AcquireAlloc m p = Some (a, m')" using AcquireAlloc_some [OF assms(2)] by blast
  have o: "ordered (items m)" using assms(1) by (simp add: alloc_inv_def)
  note f = AcquireAlloc_items [OF o r]
  have t: "total_allocated m' = total_allocated m" "process_allocated m' = process_allocated m"
    using arg_cong [OF f(3) [of Leaf], of total_allocated] arg_cong [OF f(3) [of Leaf], of process_allocated] by simp_all
  show thesis
  proof (rule that [OF r f(1) f(2)], cases a)
    case None
    then show "case a of None \<Rightarrow> alloc_inv m' | Some a \<Rightarrow> total_allocated m' = total_of m' + alloc_size a
       \<and> process_allocated m' = total_of m' + alloc_size a"
      using f(1,4) t assms(1) by (simp add: alloc_inv_def)
  next
    case (Some b)
    then show "case a of None \<Rightarrow> alloc_inv m' | Some a \<Rightarrow> total_allocated m' = total_of m' + alloc_size a
       \<and> process_allocated m' = total_of m' + alloc_size a"
      using f(4) t assms(1) by (simp add: alloc_inv_def)
  qed
qed

lemma alloc_step_inv:
  assumes "alloc_inv m" "heap_allows (known m) op"
  shows "\<exists>m'. alloc_step m op = Some m' \<and> alloc_inv m' \<and> known m' = heap_step (known m) op"
proof (cases op)
  case (Alloc p sz)
  then show ?thesis using HandleAlloc_inv [of m p sz] assms by auto
next
  case (Realloc p q sz)
  then have p: "p \<noteq> 0" "q = p \<or> known m q = None" using assms(2) by auto
  obtain a m' where a: "AllocMetric_AcquireAlloc m p = Some (a, m')" "ordered (items m')"
    "known m' = (known m)(p := None)"
    "case a of None \<Rightarrow> alloc_inv m' | Some a \<Rightarrow> total_allocated m' = total_of m' + alloc_size a
       \<and> process_allocated m' = total_of m' + alloc_size a" using AcquireAlloc_inv [OF assms(1) p(1)] .
  have "known m' q = None" using a(3) p(2) by auto
  then show ?thesis using HandleRealloc_inv [OF a(2) _ a(4), of q sz] a(1,3) Realloc by auto
next
  case (Free p)
  then have p: "p \<noteq> 0" using assms(2) by simp
  obtain a m' where a: "AllocMetric_AcquireAlloc m p = Some (a, m')" "ordered (items m')"
    "known m' = (known m)(p := None)"
    "case a of None \<Rightarrow> alloc_inv m' | Some a \<Rightarrow> total_allocated m' = total_of m' + alloc_size a
       \<and> process_allocated m' = total_of m' + alloc_size a" using AcquireAlloc_inv [OF assms(1) p] .
  then show ?thesis using Free
    by (cases a) (auto simp: AllocMetric_HandleFree_def free_memory_allocation_def Let_def alloc_inv_def)
qed

lemma total_of_known: "ordered (items m) \<Longrightarrow> total_of m = (\<Sum>p \<in> dom (known m). the (known m p))"
proof -
  assume o: "ordered (items m)"
  have d: "distinct xs \<and> inj_on address (set xs)" if "ordered xs" for xs
  proof -
    have "distinct (map address xs)" using that by (induction xs) fastforce+
    then show ?thesis by (simp add: distinct_map)
  qed
  have "(\<Sum>p \<in> dom (known m). the (known m p)) = (\<Sum>a \<in> set (items m). the (known m (address a)))"
    unfolding known_def dom_entries using d [OF o] by (simp add: sum.reindex del: set_inorder)
  also have "\<dots> = (\<Sum>a \<in> set (items m). alloc_size a)"
    by (rule sum.cong) (simp_all add: known_def entries_mem [OF o] del: set_inorder)
  finally show ?thesis using d [OF o] by (simp add: total_of_def sum_list_distinct_conv_sum_set del: set_inorder)
qed

lemma alloc_run_inv:
  "alloc_inv m \<Longrightarrow> heap_allows_run (known m) ops \<Longrightarrow>
     \<exists>m'. alloc_run m ops = Some m' \<and> alloc_inv m' \<and> known m' = fold (\<lambda>op H. heap_step H op) ops (known m)"
proof (induction ops arbitrary: m)
  case (Cons op ops)
  then obtain m' where "alloc_step m op = Some m'" "alloc_inv m'" "known m' = heap_step (known m) op"
    using alloc_step_inv [of m op] by auto
  then show ?case using Cons.IH [of m'] Cons.prems by simp
qed simp

definition empty_metric :: alloc_metric where
  "empty_metric = \<lparr>allocations = Leaf, free_items = 0, total_allocated = 0, process_allocated = 0\<rparr>"

lemma empty_metric [simp]: "alloc_inv empty_metric" "known empty_metric = Map.empty"
  by (simp_all add: empty_metric_def alloc_inv_def total_of_def known_def entries_def)

section \<open>Properties\<close>

text \<open>
  C6. After every sequence of allocations, reallocations and frees, known or unknown, that an allocator
  without overlapping addresses can give, the metric tracks exactly the allocations in use with their
  sizes, in a tree ordered by address, and its total is the sum of these sizes modulo 2^64.
\<close>

theorem alloc_metric_tracks:
  assumes "heap_allows_run Map.empty ops"
  shows "\<exists>m. alloc_run empty_metric ops = Some m
    \<and> known m = fold (\<lambda>op H. heap_step H op) ops Map.empty
    \<and> sorted_wrt (\<lambda>a b. address a < address b) (inorder (allocations m))
    \<and> total_allocated m = (\<Sum>p \<in> dom (known m). the (known m p))"
proof -
  obtain m where "alloc_run empty_metric ops = Some m" "alloc_inv m"
    "known m = fold (\<lambda>op H. heap_step H op) ops Map.empty"
    using alloc_run_inv [of empty_metric ops] assms by auto
  then show ?thesis using total_of_known [of m] by (auto simp: alloc_inv_def)
qed

theorem alloc_metric_tracks_witness:
  "\<exists>m. alloc_run empty_metric [Alloc 16 100, Alloc 32 7, Realloc 16 48 50, Free 32, Free 64] = Some m
    \<and> known m = [48 \<mapsto> 50] \<and> total_allocated m = 50"
proof -
  have "heap_allows_run Map.empty [Alloc 16 100, Alloc 32 7, Realloc 16 48 50, Free 32, Free 64]" by simp
  from alloc_metric_tracks [OF this] obtain m where m:
    "alloc_run empty_metric [Alloc 16 100, Alloc 32 7, Realloc 16 48 50, Free 32, Free 64] = Some m"
    "known m = fold (\<lambda>op H. heap_step H op) [Alloc 16 100, Alloc 32 7, Realloc 16 48 50, Free 32, Free 64] Map.empty"
    "total_allocated m = (\<Sum>p \<in> dom (known m). the (known m p))" by blast
  then have "known m = [48 \<mapsto> 50]" by (simp add: fun_eq_iff)
  then show ?thesis using m by (intro exI [of _ m]) simp
qed

text \<open>
  C38. The report of leaks ends, reports every allocation of the tree exactly once with its address and
  size, leaves the tree empty and puts every item on the free list.
\<close>

theorem leaks_reported_once:
  assumes "alloc_run empty_metric ops = Some m" "heap_allows_run Map.empty ops"
    "AllocMetric_ReportLeaked m = (events, m')"
  shows "mset events = image_mset (\<lambda>a. LeakedMemory (address a) (alloc_size a)) (mset (inorder (allocations m)))
    \<and> allocations m' = Leaf \<and> free_items m' = free_items m + length (inorder (allocations m))"
proof -
  have "alloc_inv m" using alloc_run_inv [of empty_metric ops] assms(1,2) by auto
  then have "ordered (items m)" by (simp add: alloc_inv_def)
  from report_leaked [OF this assms(3)] show ?thesis by (simp add: leak_of_def [abs_def])
qed

theorem leaks_reported_once_witness:
  "\<exists>m events m'. alloc_run empty_metric [Alloc 16 100, Alloc 32 7] = Some m
    \<and> AllocMetric_ReportLeaked m = (events, m')
    \<and> mset events = {# LeakedMemory 16 100, LeakedMemory 32 7 #} \<and> allocations m' = Leaf"
proof -
  have h: "heap_allows_run Map.empty [Alloc 16 100, Alloc 32 7]" by simp
  obtain m where m: "alloc_run empty_metric [Alloc 16 100, Alloc 32 7] = Some m"
    "inorder (allocations m) = [\<lparr>address = 16, alloc_size = 100\<rparr>, \<lparr>address = 32, alloc_size = 7\<rparr>]"
    using that by (simp add: empty_metric_def AllocMetric_HandleAlloc_def add_memory_allocation_def
        insert_memory_allocation_def splay_def splay_loop.simps hook_left_def hook_right_def Let_def)
  obtain events m' where r: "AllocMetric_ReportLeaked m = (events, m')" by fastforce
  show ?thesis using leaks_reported_once [OF m(1) h r] m r by auto
qed

text \<open>
  An allocation reported at an address that is already tracked (its free was missed) throws the
  whole tree away: afterwards the new allocation is the only one tracked, whatever else was in use, while the
  total still counts everything.
\<close>

theorem alloc_of_known_address_loses_others:
  assumes "sorted_wrt (\<lambda>a b. address a < address b) (inorder (allocations m))" "p \<in> dom (known m)"
    "AllocMetric_HandleAlloc ok m p sz = Some (events, m')"
  shows "known m' = [p \<mapsto> sz] \<and> total_allocated m' = total_allocated m + sz"
proof -
  let ?a = "\<lparr>address = p, alloc_size = sz\<rparr>"
  obtain m1 where m1: "m' = insert_memory_allocation m1 ?a" "allocations m1 = allocations m"
    "total_allocated m1 = total_allocated m + sz"
    using assms(3) by (auto simp: AllocMetric_HandleAlloc_def add_memory_allocation_def Let_def split: if_splits)
  have ne: "allocations m \<noteq> Leaf" using assms(2) by (auto simp: known_def entries_def)
  then obtain l b r where s: "splay (allocations m) p = Node l b r"
    using splay_Leaf [of "allocations m" p] by (cases "splay (allocations m) p") auto
  obtain x where "x \<in> set (items m)" "address x = p"
    using assms(2) by (auto simp: known_def dom_entries simp del: set_inorder)
  then have "address b = p" using splay_root(3) [OF assms(1) s] by blast
  then have "items m' = [?a]" using m1 s ne by (simp add: insert_memory_allocation_def)
  then have "known m' = [p \<mapsto> sz]" by (simp add: known_def entries_def)
  moreover have "total_allocated m' = total_allocated m + sz" using m1 by simp
  ultimately show ?thesis by (rule conjI)
qed

theorem alloc_of_known_address_loses_others_witness:
  "\<exists>m events m'. alloc_run empty_metric [Alloc 16 100, Alloc 32 7] = Some m
    \<and> AllocMetric_HandleAlloc True m 16 5 = Some (events, m')
    \<and> known m' = [16 \<mapsto> 5] \<and> total_allocated m' = 112"
proof -
  have "heap_allows_run Map.empty [Alloc 16 100, Alloc 32 7]" by simp
  then obtain m where m: "alloc_run empty_metric [Alloc 16 100, Alloc 32 7] = Some m" "alloc_inv m"
    "known m = fold (\<lambda>op H. heap_step H op) [Alloc 16 100, Alloc 32 7] Map.empty"
    using alloc_run_inv [of empty_metric "[Alloc 16 100, Alloc 32 7]"] by auto
  then have k: "known m = [16 \<mapsto> 100, 32 \<mapsto> 7]" and o: "ordered (items m)" by (simp_all add: alloc_inv_def)
  then have "total_allocated m = (\<Sum>p \<in> {16, 32}. the (known m p))"
    using m(2) total_of_known [OF o] by (simp add: alloc_inv_def insert_commute)
  then have t: "total_allocated m = 107" using k by simp
  obtain r where r: "AllocMetric_HandleAlloc True m 16 5 = Some r" using HandleAlloc_returns by blast
  obtain events m' where e: "AllocMetric_HandleAlloc True m 16 5 = Some (events, m')" using r by (cases r) auto
  have "known m' = [16 \<mapsto> 5] \<and> total_allocated m' = total_allocated m + 5"
    by (rule alloc_of_known_address_loses_others [OF o _ e]) (simp add: k)
  then show ?thesis using m(1) e t by simp
qed

end
