(* ===== verification/Scorep_Unify.thy ===== *)
theory Scorep_Unify
  imports Scorep_Definitions_New
begin

text \<open>
  Unification: the definitions of a manager are copied, without duplicates, to the unified manager, and
  mappings from their sequence numbers to those of the unified definitions are made; \<open>scorep_unify.c\<close>
  and the \<open>scorep_definitions_unify_\<dots>\<close> functions. The source is the local manager, whose definitions
  live in page manager 0, or the unified manager of another process, whose pages were received into page
  manager 1.
\<close>

section \<open>Unifying one definition\<close>

definition get_unified :: "defs \<Rightarrow> nat \<Rightarrow> handle \<Rightarrow> handle option" where
  "get_unified w pm h = do { d \<leftarrow> deref w pm h; Some (unified d) }"

definition get_unified_if_valid :: "defs \<Rightarrow> nat \<Rightarrow> handle \<Rightarrow> handle option" where
  "get_unified_if_valid w pm h =
     (if h = 0 then Some 0 else do { u \<leftarrow> get_unified w pm h; assertC (u \<noteq> 0); Some u })"

definition set_unified :: "defs \<Rightarrow> nat \<Rightarrow> handle \<Rightarrow> handle \<Rightarrow> defs" where
  "set_unified w pm h u = update_object w pm h (\<lambda>d. d\<lparr>unified := u\<rparr>)"

definition unify_string :: "defs \<Rightarrow> nat \<Rightarrow> handle \<Rightarrow> 'h string_def \<Rightarrow> defs option" where
  "unify_string w pm h d = do {
     (u, w) \<leftarrow> new_string w UnifiedManager (string_data d);
     Some (set_unified w pm h u)
   }"

definition unify_source_file :: "defs \<Rightarrow> nat \<Rightarrow> handle \<Rightarrow> handle source_file_def \<Rightarrow> defs option" where
  "unify_source_file w pm h d = do {
     n \<leftarrow> get_unified w pm (source_name d);
     (u, w) \<leftarrow> define_source_file w UnifiedManager n;
     Some (set_unified w pm h u)
   }"

definition unify_parameter :: "defs \<Rightarrow> nat \<Rightarrow> handle \<Rightarrow> handle parameter_def \<Rightarrow> defs option" where
  "unify_parameter w pm h d = do {
     n \<leftarrow> get_unified w pm (parameter_name d);
     (u, w) \<leftarrow> define_parameter w UnifiedManager n (parameter_type d);
     Some (set_unified w pm h u)
   }"

definition unify_attribute :: "defs \<Rightarrow> nat \<Rightarrow> handle \<Rightarrow> handle attribute_def \<Rightarrow> defs option" where
  "unify_attribute w pm h d = do {
     n \<leftarrow> get_unified w pm (attribute_name d);
     ds \<leftarrow> get_unified w pm (attribute_description d);
     (u, w) \<leftarrow> define_attribute w UnifiedManager n ds (attribute_type d);
     Some (set_unified w pm h u)
   }"

definition unify_source_code_location :: "defs \<Rightarrow> nat \<Rightarrow> handle \<Rightarrow> handle source_code_location_def \<Rightarrow> defs option" where
  "unify_source_code_location w pm h d = do {
     f \<leftarrow> get_unified w pm (scl_file d);
     (u, w) \<leftarrow> define_source_code_location w UnifiedManager f (scl_line d);
     Some (set_unified w pm h u)
   }"

definition unify_system_tree_node :: "defs \<Rightarrow> nat \<Rightarrow> handle \<Rightarrow> bool \<Rightarrow> handle system_tree_node_def \<Rightarrow> defs option" where
  "unify_system_tree_node w pm h children d =
     (if \<not> children then Some w
      else do {
        p \<leftarrow> get_unified_if_valid w pm (node_parent d);
        n \<leftarrow> get_unified w pm (node_name d);
        c \<leftarrow> get_unified w pm (node_class d);
        (u, w) \<leftarrow> define_system_tree_node w UnifiedManager p (node_domains d) n c;
        Some (set_unified w pm h u)
      })"

definition unify_system_tree_node_property :: "defs \<Rightarrow> nat \<Rightarrow> handle \<Rightarrow> handle node_property_def \<Rightarrow> defs option" where
  "unify_system_tree_node_property w pm h d = do {
     node \<leftarrow> deref w pm (np_node d);
     if \<not> has_children node then Some w
     else do {
       n \<leftarrow> get_unified w pm (np_name d);
       v \<leftarrow> get_unified w pm (np_value d);
       (u, w) \<leftarrow> add_system_tree_node_property w UnifiedManager (unified node) n v;
       Some w
     }
   }"

definition unify_location_group :: "defs \<Rightarrow> nat \<Rightarrow> handle \<Rightarrow> bool \<Rightarrow> handle location_group_def \<Rightarrow> defs option" where
  "unify_location_group w pm h children d =
     (if \<not> children then Some w
      else do {
        p \<leftarrow> get_unified_if_valid w pm (group_tree_parent d);
        c \<leftarrow> get_unified_if_valid w pm (creating_group d);
        n \<leftarrow> get_unified w pm (group_name d);
        (u, w) \<leftarrow> define_location_group w UnifiedManager n p (location_group_type d) c;
        Some (set_unified w pm h u)
      })"

definition unify_location :: "defs \<Rightarrow> nat \<Rightarrow> handle \<Rightarrow> handle location_def \<Rightarrow> defs option" where
  "unify_location w pm h d = do {
     p \<leftarrow> get_unified_if_valid w pm (location_group d);
     n \<leftarrow> get_unified w pm (location_name d);
     (u, w) \<leftarrow> define_location w UnifiedManager (global_location_id d) n (location_type d) (location_paradigm d) p
       (number_of_events d);
     Some (set_unified w pm h u)
   }"

definition unify_location_property :: "defs \<Rightarrow> nat \<Rightarrow> handle \<Rightarrow> handle location_property_def \<Rightarrow> defs option" where
  "unify_location_property w pm h d = do {
     l \<leftarrow> get_unified w pm (lp_location d);
     n \<leftarrow> get_unified w pm (lp_name d);
     v \<leftarrow> get_unified w pm (lp_value d);
     (u, w) \<leftarrow> define_location_property w UnifiedManager l n v;
     Some (set_unified w pm h u)
   }"

definition unify_region :: "defs \<Rightarrow> nat \<Rightarrow> handle \<Rightarrow> handle region_def \<Rightarrow> defs option" where
  "unify_region w pm h d = do {
     f \<leftarrow> get_unified_if_valid w pm (region_file d);
     g \<leftarrow> get_unified_if_valid w pm (region_group d);
     n \<leftarrow> get_unified w pm (region_name d);
     c \<leftarrow> get_unified w pm (region_canonical_name d);
     ds \<leftarrow> get_unified w pm (region_description d);
     (u, w) \<leftarrow> define_region w UnifiedManager n c ds f (begin_line d) (end_line d) (region_paradigm d) (region_type d) g;
     Some (set_unified w pm h u)
   }"

definition unify_group :: "defs \<Rightarrow> nat \<Rightarrow> handle \<Rightarrow> handle group_def \<Rightarrow> defs option" where
  "unify_group w pm h d = do {
     n \<leftarrow> get_unified w pm (group_label d);
     (u, w) \<leftarrow> define_group w UnifiedManager (group_type d) (Inl (group_members d)) n;
     Some (set_unified w pm h u)
   }"

definition unify_communicator :: "defs \<Rightarrow> nat \<Rightarrow> handle \<Rightarrow> handle communicator_def \<Rightarrow> defs option" where
  "unify_communicator w pm h d = do {
     n \<leftarrow> get_unified_if_valid w pm (communicator_name d);
     p \<leftarrow> get_unified_if_valid w pm (communicator_parent d);
     a \<leftarrow> get_unified w pm (group_a d);
     b \<leftarrow> get_unified w pm (group_b d);
     (u, w) \<leftarrow> define_communicator w UnifiedManager a b n p (unify_key d) (communicator_flags d);
     Some (set_unified w pm h u)
   }"

definition unify_rma_window :: "defs \<Rightarrow> nat \<Rightarrow> handle \<Rightarrow> handle rma_window_def \<Rightarrow> defs option" where
  "unify_rma_window w pm h d = do {
     n \<leftarrow> get_unified_if_valid w pm (window_name d);
     c \<leftarrow> get_unified w pm (window_communicator d);
     (u, w) \<leftarrow> define_rma_window w UnifiedManager n c (creation_id d) (window_flags d);
     Some (set_unified w pm h u)
   }"

definition unify_metric :: "defs \<Rightarrow> nat \<Rightarrow> handle \<Rightarrow> handle metric_def \<Rightarrow> defs option" where
  "unify_metric w pm h d = do {
     p \<leftarrow> get_unified_if_valid w pm (metric_parent d);
     n \<leftarrow> get_unified w pm (metric_name d);
     ds \<leftarrow> get_unified w pm (metric_description d);
     un \<leftarrow> get_unified w pm (metric_unit d);
     (u, w) \<leftarrow> define_metric w UnifiedManager n ds (source_type d) (metric_mode d) (value_type d) (metric_base d)
       (metric_exponent d) un (profiling_type d) p;
     Some (set_unified w pm h u)
   }"

fun get_all_unified :: "defs \<Rightarrow> nat \<Rightarrow> handle list \<Rightarrow> handle list option" where
  "get_all_unified w pm [] = Some []"
| "get_all_unified w pm (h # hs) = do {
     u \<leftarrow> get_unified w pm h;
     us \<leftarrow> get_all_unified w pm hs;
     Some (u # us)
   }"

definition SCOPE_LOCATION_GROUP :: u32 where "SCOPE_LOCATION_GROUP = 1"
definition SCOPE_SYSTEM_TREE_NODE :: u32 where "SCOPE_SYSTEM_TREE_NODE = 2"

definition unify_sampling_set :: "defs \<Rightarrow> nat \<Rightarrow> handle \<Rightarrow> handle sampling_set_def \<Rightarrow> defs option" where
  "unify_sampling_set w pm h d = (case d of
     ScopedSamplingSetDef s r t sc \<Rightarrow> do {
       assertC (s \<noteq> 0 \<and> r \<noteq> 0 \<and> sc \<noteq> 0);
       scope \<leftarrow> deref w pm sc;
       if (t = SCOPE_LOCATION_GROUP \<or> t = SCOPE_SYSTEM_TREE_NODE) \<and> \<not> has_children scope then Some w
       else do {
         s \<leftarrow> get_unified w pm s;
         r \<leftarrow> get_unified w pm r;
         (u, w) \<leftarrow> define_scoped_sampling_set w UnifiedManager s r t (unified scope);
         Some (set_unified w pm h u)
       }
     }
   | SamplingSetDef ms occ cls \<Rightarrow> do {
       ms \<leftarrow> get_all_unified w pm ms;
       (u, w) \<leftarrow> define_sampling_set w UnifiedManager ms occ cls;
       Some (set_unified w pm h u)
     })"

definition unify_sampling_set_recorder :: "defs \<Rightarrow> nat \<Rightarrow> handle \<Rightarrow> handle recorder_def \<Rightarrow> defs option" where
  "unify_sampling_set_recorder w pm h d = do {
     s \<leftarrow> get_unified w pm (recorder_set d);
     r \<leftarrow> get_unified w pm (recorder_location d);
     sampling_set_add_recorder w UnifiedManager s r
   }"

fun unify_callpath_parameters :: "defs \<Rightarrow> nat \<Rightarrow> handle callpath_parameter list \<Rightarrow> handle callpath_parameter list option" where
  "unify_callpath_parameters w pm [] = Some []"
| "unify_callpath_parameters w pm (CallpathParameter ph val # ps) = do {
     p \<leftarrow> deref w pm ph;
     assertC (unified p \<noteq> 0);
     t \<leftarrow> get_parameter_type w pm ph;
     val \<leftarrow> (if t = PARAMETER_STRING
       then (case val of
           StringValue s \<Rightarrow> do { s \<leftarrow> get_unified w pm s; assertC (s \<noteq> 0); Some (StringValue s) }
         | IntegerValue _ \<Rightarrow> None)
       else (case val of IntegerValue i \<Rightarrow> Some (IntegerValue i) | StringValue _ \<Rightarrow> None));
     ps \<leftarrow> unify_callpath_parameters w pm ps;
     Some (CallpathParameter (unified p) val # ps)
   }"

definition unify_callpath :: "defs \<Rightarrow> nat \<Rightarrow> handle \<Rightarrow> handle callpath_def \<Rightarrow> defs option" where
  "unify_callpath w pm h d = do {
     p \<leftarrow> get_unified_if_valid w pm (callpath_parent d);
     r \<leftarrow> get_unified_if_valid w pm (callpath_region d);
     ps \<leftarrow> unify_callpath_parameters w pm (callpath_parameters d);
     (u, w) \<leftarrow> define_callpath w UnifiedManager p r ps;
     Some (set_unified w pm h u)
   }"

definition unify_property :: "defs \<Rightarrow> nat \<Rightarrow> handle \<Rightarrow> 'h property_def \<Rightarrow> defs option" where
  "unify_property w pm h d = do {
     (u, w) \<leftarrow> define_property w UnifiedManager (property d) (condition d) (initial_value d) (invalidated d);
     Some (set_unified w pm h u)
   }"

fun unify_dimensions :: "defs \<Rightarrow> nat \<Rightarrow> handle dimension list \<Rightarrow> handle dimension list option" where
  "unify_dimensions w pm [] = Some []"
| "unify_dimensions w pm (Dimension n p name # ds) = do {
     name \<leftarrow> get_unified w pm name;
     ds \<leftarrow> unify_dimensions w pm ds;
     Some (Dimension n p name # ds)
   }"

definition unify_cartesian_topology :: "defs \<Rightarrow> nat \<Rightarrow> handle \<Rightarrow> handle topology_def \<Rightarrow> defs option" where
  "unify_cartesian_topology w pm h d = do {
     dims \<leftarrow> unify_dimensions w pm (dimensions d);
     c \<leftarrow> get_unified w pm (topology_communicator d);
     n \<leftarrow> get_unified w pm (topology_name d);
     (u, w) \<leftarrow> define_topology w UnifiedManager c (topology_type d) dims n;
     Some (set_unified w pm h u)
   }"

definition unify_cartesian_coords :: "defs \<Rightarrow> nat \<Rightarrow> handle \<Rightarrow> handle coords_def \<Rightarrow> defs option" where
  "unify_cartesian_coords w pm h d = do {
     t \<leftarrow> get_unified w pm (coords_topology d);
     (u, w) \<leftarrow> define_coords w UnifiedManager t (coords_rank d) (coords_thread d) (coords d);
     Some (set_unified w pm h u)
   }"

definition unify_calling_context :: "defs \<Rightarrow> nat \<Rightarrow> handle \<Rightarrow> handle calling_context_def \<Rightarrow> defs option" where
  "unify_calling_context w pm h d = do {
     f \<leftarrow> get_unified_if_valid w pm (cc_file d);
     s \<leftarrow> get_unified_if_valid w pm (cc_scl d);
     p \<leftarrow> get_unified_if_valid w pm (cc_parent d);
     r \<leftarrow> get_unified w pm (cc_region d);
     (u, w) \<leftarrow> define_calling_context w UnifiedManager (ip d) (ip_offset d) f r s p;
     Some (set_unified w pm h u)
   }"

definition unify_interrupt_generator :: "defs \<Rightarrow> nat \<Rightarrow> handle \<Rightarrow> handle interrupt_generator_def \<Rightarrow> defs option" where
  "unify_interrupt_generator w pm h d = do {
     n \<leftarrow> get_unified w pm (ig_name d);
     (u, w) \<leftarrow> define_interrupt_generator w UnifiedManager n (ig_mode d) (ig_base d) (ig_exponent d) (ig_period d);
     Some (set_unified w pm h u)
   }"

definition unify_io_file :: "defs \<Rightarrow> nat \<Rightarrow> handle \<Rightarrow> handle io_file_def \<Rightarrow> defs option" where
  "unify_io_file w pm h d = do {
     n \<leftarrow> get_unified_if_valid w pm (io_file_name d);
     s \<leftarrow> get_unified_if_valid w pm (io_scope d);
     (u, w) \<leftarrow> define_io_file w UnifiedManager n s;
     Some (set_unified w pm h u)
   }"

definition unify_io_file_property :: "defs \<Rightarrow> nat \<Rightarrow> handle \<Rightarrow> handle io_file_property_def \<Rightarrow> defs option" where
  "unify_io_file_property w pm h d = do {
     f \<leftarrow> get_unified w pm (ifp_file d);
     n \<leftarrow> get_unified w pm (ifp_name d);
     v \<leftarrow> get_unified w pm (ifp_value d);
     (u, w) \<leftarrow> add_io_file_property w UnifiedManager f n v;
     Some w
   }"

definition unify_io_handle :: "defs \<Rightarrow> nat \<Rightarrow> handle \<Rightarrow> handle io_handle_def \<Rightarrow> defs option" where
  "unify_io_handle w pm h d =
     (if \<not> is_completed d then Some (set_unified w pm h 0)
      else do {
        n \<leftarrow> get_unified_if_valid w pm (ioh_name d);
        f \<leftarrow> get_unified_if_valid w pm (ioh_file d);
        s \<leftarrow> get_unified_if_valid w pm (ioh_scope d);
        p \<leftarrow> get_unified_if_valid w pm (ioh_parent d);
        (u, w) \<leftarrow> define_io_handle w UnifiedManager n f (ioh_paradigm d) (ioh_flags d) s p (ioh_unify_key d)
          (ioh_access_mode d) (ioh_status_flags d) (is_completed d);
        Some (set_unified w pm h u)
      })"

definition unify_definition :: "defs \<Rightarrow> nat \<Rightarrow> handle \<Rightarrow> defs option" where
  "unify_definition w pm h = do {
     d \<leftarrow> deref w pm h;
     case content d of
       String x \<Rightarrow> unify_string w pm h x
     | SystemTreeNode x \<Rightarrow> unify_system_tree_node w pm h (has_children d) x
     | SystemTreeNodeProperty x \<Rightarrow> unify_system_tree_node_property w pm h x
     | LocationGroup x \<Rightarrow> unify_location_group w pm h (has_children d) x
     | Location x \<Rightarrow> unify_location w pm h x
     | LocationProperty x \<Rightarrow> unify_location_property w pm h x
     | SourceFile x \<Rightarrow> unify_source_file w pm h x
     | Region x \<Rightarrow> unify_region w pm h x
     | Group x \<Rightarrow> unify_group w pm h x
     | InterimCommunicator _ \<Rightarrow> None
     | Communicator x \<Rightarrow> unify_communicator w pm h x
     | RmaWindow x \<Rightarrow> unify_rma_window w pm h x
     | Metric x \<Rightarrow> unify_metric w pm h x
     | SamplingSet x \<Rightarrow> unify_sampling_set w pm h x
     | SamplingSetRecorder x \<Rightarrow> unify_sampling_set_recorder w pm h x
     | Parameter x \<Rightarrow> unify_parameter w pm h x
     | Callpath x \<Rightarrow> unify_callpath w pm h x
     | Property x \<Rightarrow> unify_property w pm h x
     | Attribute x \<Rightarrow> unify_attribute w pm h x
     | CartesianTopology x \<Rightarrow> unify_cartesian_topology w pm h x
     | CartesianCoords x \<Rightarrow> unify_cartesian_coords w pm h x
     | SourceCodeLocation x \<Rightarrow> unify_source_code_location w pm h x
     | CallingContext x \<Rightarrow> unify_calling_context w pm h x
     | InterruptGenerator x \<Rightarrow> unify_interrupt_generator w pm h x
     | IoFile x \<Rightarrow> unify_io_file w pm h x
     | IoFileProperty x \<Rightarrow> unify_io_file_property w pm h x
     | IoHandle x \<Rightarrow> unify_io_handle w pm h x
   }"

section \<open>Copying a manager\<close>

fun unify_chain :: "defs \<Rightarrow> nat \<Rightarrow> handle list \<Rightarrow> defs option" where
  "unify_chain w pm [] = Some w"
| "unify_chain w pm (h # hs) = do { w \<leftarrow> unify_definition w pm h; unify_chain w pm hs }"

fun unify_kinds :: "defs \<Rightarrow> manager \<Rightarrow> nat \<Rightarrow> def_kind list \<Rightarrow> defs option" where
  "unify_kinds w src pm [] = Some w"
| "unify_kinds w src pm (k # ks) = do { w \<leftarrow> unify_chain w pm (chain (src k)); unify_kinds w src pm ks }"

definition unify_order :: "def_kind list" where
  "unify_order = [KString, KSystemTreeNode, KSystemTreeNodeProperty, KLocationGroup, KLocation, KLocationProperty,
     KSourceFile, KRegion, KGroup, KCommunicator, KRmaWindow, KMetric, KSamplingSet, KSamplingSetRecorder, KParameter,
     KCallpath, KProperty, KAttribute, KCartesianTopology, KCartesianCoords, KSourceCodeLocation, KCallingContext,
     KInterruptGenerator, KIoFile, KIoFileProperty, KIoHandle]"

definition CopyDefinitionsToUnified :: "defs \<Rightarrow> manager \<Rightarrow> nat \<Rightarrow> defs option" where
  "CopyDefinitionsToUnified w src pm = unify_kinds w src pm unify_order"

definition mapped_kinds :: "def_kind list" where
  "mapped_kinds = [KString, KRegion, KGroup, KCommunicator, KRmaWindow, KMetric, KSamplingSet, KParameter, KCallpath,
     KAttribute, KSourceCodeLocation, KCallingContext, KInterruptGenerator, KCartesianTopology, KIoFile, KIoHandle,
     KLocationGroup]"

definition CreateDefinitionMappings :: "manager \<Rightarrow> manager" where
  "CreateDefinitionMappings mgr = (\<lambda>k. if k \<in> set mapped_kinds then alloc_mapping (mgr k) else mgr k)"

fun assign_mapping :: "defs \<Rightarrow> nat \<Rightarrow> handle list \<Rightarrow> u32 list \<Rightarrow> u32 list option" where
  "assign_mapping w pm [] mp = Some mp"
| "assign_mapping w pm (h # hs) mp = do {
     d \<leftarrow> deref w pm h;
     if unified d = 0 then assign_mapping w pm hs mp
     else do {
       u \<leftarrow> deref w 0 (unified d);
       mp \<leftarrow> arr_set mp (unat (sequence_number d)) (sequence_number u);
       assign_mapping w pm hs mp
     }
   }"

fun assign_mappings :: "defs \<Rightarrow> nat \<Rightarrow> def_kind list \<Rightarrow> manager \<Rightarrow> manager option" where
  "assign_mappings w pm [] mgr = Some mgr"
| "assign_mappings w pm (k # ks) mgr = do {
     mp \<leftarrow> (if counter (mgr k) > 0 then assign_mapping w pm (chain (mgr k)) (mapping (mgr k)) else Some (mapping (mgr k)));
     assign_mappings w pm ks (mgr(k := (mgr k)\<lparr>mapping := mp\<rparr>))
   }"

definition AssignDefinitionMappingsFromUnified :: "defs \<Rightarrow> nat \<Rightarrow> manager \<Rightarrow> manager option" where
  "AssignDefinitionMappingsFromUnified w pm mgr = assign_mappings w pm mapped_kinds mgr"

definition DestroyDefinitionMappings :: "manager \<Rightarrow> manager" where
  "DestroyDefinitionMappings mgr =
     (\<lambda>k. if k \<in> set mapped_kinds \<or> k = KInterimCommunicator then free_mapping (mgr k) else mgr k)"

definition Unify_CreateUnifiedDefinitionManager :: "defs \<Rightarrow> defs option" where
  "Unify_CreateUnifiedDefinitionManager w = do {
     assertC (unified_manager w = None);
     Some (w\<lparr>unified_manager := Some (InitializeDefinitionManager True)\<rparr>)
   }"

text \<open>Locations are mapped to their global ids.\<close>

fun assign_location_ids :: "defs \<Rightarrow> handle list \<Rightarrow> u64 list \<Rightarrow> u64 list option" where
  "assign_location_ids w [] mp = Some mp"
| "assign_location_ids w (h # hs) mp = do {
     d \<leftarrow> deref w 0 h;
     i \<leftarrow> (case content d of Location l \<Rightarrow> Some (global_location_id l) | _ \<Rightarrow> None);
     mp \<leftarrow> arr_set mp (unat (sequence_number d)) i;
     assign_location_ids w hs mp
   }"

definition Unify_Locally :: "defs \<Rightarrow> defs option" where
  "Unify_Locally w = do {
     w \<leftarrow> CopyDefinitionsToUnified w (local_manager w) 0;
     mgr \<leftarrow> AssignDefinitionMappingsFromUnified w 0 (CreateDefinitionMappings (local_manager w));
     let w = w\<lparr>local_manager := mgr\<rparr>;
     ids \<leftarrow> assign_location_ids w (chain (mgr KLocation)) (replicate (unat (counter (mgr KLocation))) 0);
     Some (w\<lparr>local_manager := mgr(KInterimCommunicator := alloc_mapping (mgr KInterimCommunicator)),
       location_mapping := ids\<rparr>)
   }"

end
