(* ===== verification/Scorep_Unify_Props.thy ===== *)
theory Scorep_Unify_Props
  imports Scorep_Unify Scorep_Definitions_Results
begin

text \<open>
  What unification promises: every definition of the source that is unified is represented in the unified manager
  by a definition whose references are the unified references, and the mappings lead to it.
\<close>

section \<open>Defining in the unified manager\<close>

text \<open>The definitions whose content later ones are merged into.\<close>

definition merged_kinds :: "def_kind set" where
  "merged_kinds = {KProperty, KCommunicator, KRmaWindow}"

definition same_source :: "def_object \<Rightarrow> def_object \<Rightarrow> bool" where
  "same_source d d' \<longleftrightarrow> unified d' = unified d \<and> kind_of (content d') = kind_of (content d)
     \<and> sequence_number d' = sequence_number d \<and> has_children d \<le> has_children d'
     \<and> (kind_of (content d) \<notin> merged_kinds \<longrightarrow> content d' = content d)"

definition keeps_objects :: "defs \<Rightarrow> defs \<Rightarrow> bool" where
  "keeps_objects w w' \<longleftrightarrow> (\<forall>pm h d. deref w pm h = Some d \<longrightarrow> (\<exists>d'. deref w' pm h = Some d' \<and> same_source d d'))"

definition extends :: "manager option \<Rightarrow> manager option \<Rightarrow> bool" where
  "extends a b \<longleftrightarrow> (case a of None \<Rightarrow> b = None
     | Some m \<Rightarrow> (case b of None \<Rightarrow> False | Some m' \<Rightarrow> (\<forall>k. \<exists>hs. chain (m' k) = chain (m k) @ hs)))"

definition grows :: "defs \<Rightarrow> defs \<Rightarrow> bool" where
  "grows w w' \<longleftrightarrow> keeps_objects w w' \<and> local_manager w' = local_manager w
     \<and> extends (unified_manager w) (unified_manager w')"

lemma same_source_refl [simp]: "same_source d d"
  by (simp add: same_source_def)

lemma same_source_trans: "same_source a b \<Longrightarrow> same_source b c \<Longrightarrow> same_source a c"
  by (auto simp: same_source_def)

lemma keeps_objects_trans: "keeps_objects u v \<Longrightarrow> keeps_objects v w \<Longrightarrow> keeps_objects u w"
  unfolding keeps_objects_def using same_source_trans by meson

lemma extends_refl [simp]: "extends a a"
  by (auto simp: extends_def split: option.splits)

lemma extends_trans: "extends a b \<Longrightarrow> extends b c \<Longrightarrow> extends a c"
  by (auto simp: extends_def split: option.splits) (metis append.assoc)

lemma grows_refl [simp]: "grows w w"
  by (auto simp: grows_def keeps_objects_def)

lemma grows_trans: "grows u v \<Longrightarrow> grows v w \<Longrightarrow> grows u w"
  unfolding grows_def using keeps_objects_trans extends_trans by auto

lemma grows_linked:
  assumes "get_manager w UnifiedManager = Some mgr"
  shows "grows w (linked w UnifiedManager k mgr d e)"
proof -
  have "deref (linked w UnifiedManager k mgr d e) pm h = Some a" if "deref w pm h = Some a" for pm h a
  proof -
    have "\<not> (pm = 0 \<and> h = Suc (length (memory w 0)))" using that by (auto simp: deref_valid)
    then show ?thesis using that by (auto simp: deref_linked)
  qed
  then have "keeps_objects w (linked w UnifiedManager k mgr d e)" by (simp add: keeps_objects_def)
  then show ?thesis
    using assms by (simp add: grows_def linked_def set_manager_def get_manager_def extends_def)
qed

lemma grows_update:
  assumes d: "deref w pm h = Some d" and s: "same_source d (f d)"
  shows "grows w (update_object w pm h f)"
proof -
  have "keeps_objects w (update_object w pm h f)"
    using d s unfolding keeps_objects_def by (auto simp: deref_update [OF d])
  then show ?thesis by (simp add: grows_def update_object_def)
qed

lemma grows_deref: "grows w w' \<Longrightarrow> deref w pm h = Some d \<Longrightarrow> \<exists>d'. deref w' pm h = Some d' \<and> same_source d d'"
  unfolding grows_def keeps_objects_def by blast

lemma add_to_entry_grows:
  assumes "add_to_entry w UnifiedManager k (same_for k) d = Some (h, fresh, w')" "defs_inv w" "k \<noteq> KSamplingSetRecorder"
  shows "grows w w'"
  by (rule add_to_entry_linked [OF _ assms(1,3)]) (use assms(2) in \<open>auto simp: defs_inv_def intro: grows_linked\<close>)

lemma add_definition_grows:
  assumes "add_definition w UnifiedManager c = Some (h, fresh, w')" "defs_inv w" "added_by_macro (kind_of c)"
  shows "grows w w'"
proof -
  have s: "same_for (kind_of c) = same_definition" "kind_of c \<noteq> KSamplingSetRecorder"
    using assms(3) unfolding added_by_macro_def same_for_def by simp_all
  obtain v where v: "add_to_entry w UnifiedManager (kind_of c) (same_for (kind_of c)) ((init_header c)\<lparr>def_hash := v\<rparr>) = Some (h, fresh, w')"
    using assms(1) by (auto simp: add_definition_def bind_Some_iff s)
  show ?thesis by (rule add_to_entry_grows [OF v assms(2) s(2)])
qed

text \<open>The kinds that are only added.\<close>

lemma define_unified:
  assumes "define_announced w UnifiedManager c = Some (h, w') \<or> define_silent w UnifiedManager c = Some (h, w')"
  shows "\<exists>fresh. add_definition w UnifiedManager c = Some (h, fresh, w')"
  using assms by (auto simp: define_announced_def define_silent_def bind_Some_iff)

lemma define_grows:
  assumes d: "define_announced w UnifiedManager c = Some (h, w') \<or> define_silent w UnifiedManager c = Some (h, w')"
    and inv: "defs_inv w" and k: "added_by_macro (kind_of c)"
  shows "grows w w'"
  using define_unified [OF d] add_definition_grows [OF _ inv k] by blast

lemma new_string_grows: "new_string w UnifiedManager s = Some (h, w') \<Longrightarrow> defs_inv w \<Longrightarrow> grows w w'"
  unfolding new_string_def new_string_generator_def by (rule define_grows) auto

lemma define_kinds_grow:
  "define_source_file w UnifiedManager n = Some (h, w') \<Longrightarrow> defs_inv w \<Longrightarrow> grows w w'"
  "define_parameter w UnifiedManager n t = Some (h, w') \<Longrightarrow> defs_inv w \<Longrightarrow> grows w w'"
  "define_attribute w UnifiedManager n ds t = Some (h, w') \<Longrightarrow> defs_inv w \<Longrightarrow> grows w w'"
  "define_source_code_location w UnifiedManager n l = Some (h, w') \<Longrightarrow> defs_inv w \<Longrightarrow> grows w w'"
  "define_system_tree_node w UnifiedManager p dm n c = Some (h, w') \<Longrightarrow> defs_inv w \<Longrightarrow> grows w w'"
  "define_location_group w UnifiedManager n p t cr = Some (h, w') \<Longrightarrow> defs_inv w \<Longrightarrow> grows w w'"
  "define_location_property w UnifiedManager lo n v = Some (h, w') \<Longrightarrow> defs_inv w \<Longrightarrow> grows w w'"
  "define_region w UnifiedManager n cn ds f b e pa t g = Some (h, w') \<Longrightarrow> defs_inv w \<Longrightarrow> grows w w'"
  "define_group w UnifiedManager t ms n = Some (h, w') \<Longrightarrow> defs_inv w \<Longrightarrow> grows w w'"
  "define_metric w UnifiedManager n ds so mo vt b ex u pr p = Some (h, w') \<Longrightarrow> defs_inv w \<Longrightarrow> grows w w'"
  "define_scoped_sampling_set w UnifiedManager ss r t sc = Some (h, w') \<Longrightarrow> defs_inv w \<Longrightarrow> grows w w'"
  "define_callpath w UnifiedManager p r ps = Some (h, w') \<Longrightarrow> defs_inv w \<Longrightarrow> grows w w'"
  "define_calling_context w UnifiedManager i off f r scl p = Some (h, w') \<Longrightarrow> defs_inv w \<Longrightarrow> grows w w'"
  "define_interrupt_generator w UnifiedManager n mo b ex per = Some (h, w') \<Longrightarrow> defs_inv w \<Longrightarrow> grows w w'"
  "define_topology w UnifiedManager cm t dims n = Some (h, w') \<Longrightarrow> defs_inv w \<Longrightarrow> grows w w'"
  "define_coords w UnifiedManager tp rk th cs = Some (h, w') \<Longrightarrow> defs_inv w \<Longrightarrow> grows w w'"
  "define_io_file w UnifiedManager n sc = Some (h, w') \<Longrightarrow> defs_inv w \<Longrightarrow> grows w w'"
  "define_io_handle w UnifiedManager n f pa fl sc p ke ac st co = Some (h, w') \<Longrightarrow> defs_inv w \<Longrightarrow> grows w w'"
  unfolding define_source_file_def define_parameter_def define_attribute_def define_source_code_location_def
    define_system_tree_node_def define_location_group_def define_location_property_def define_region_def
    define_group_def define_metric_def define_scoped_sampling_set_def define_callpath_def define_calling_context_def
    define_interrupt_generator_def define_topology_def define_coords_def define_io_file_def define_io_handle_def
  by (rule define_grows [OF disjI1] define_grows [OF disjI2], assumption, assumption, simp)+

lemma define_sampling_set_grows: "define_sampling_set w UnifiedManager ms oc cl = Some (h, w') \<Longrightarrow> defs_inv w \<Longrightarrow> grows w w'"
  by (auto simp: define_sampling_set_def split: if_splits intro: define_grows)

lemma define_location_grows:
  assumes d: "define_location w UnifiedManager g n t pa lg ev = Some (h, w')" and inv: "defs_inv w"
  shows "grows w w'"
proof -
  obtain w1 where w1: "define_announced w UnifiedManager (Location (LocationDef g n t pa lg ev)) = Some (h, w1)"
      "location_group_mark_used w1 0 lg = Some w'"
    using d by (auto simp: define_location_def bind_Some_iff)
  have "grows w w1" by (rule define_grows [OF disjI1, OF w1(1) inv]) simp
  moreover have "grows w1 w'"
  proof (rule location_group_mark_used_keeps [OF _ w1(2), where P = "grows w1"])
    fix v x a assume g: "grows w1 v" and a: "deref v 0 x = Some a"
    have "grows v (mark_object v 0 x)"
      unfolding mark_object_def by (rule grows_update [where f = "\<lambda>d. d\<lparr>has_children := True\<rparr>", OF a]) (simp add: same_source_def)
    then show "grows w1 (mark_object v 0 x)" using g grows_trans by blast
  qed simp
  ultimately show ?thesis by (rule grows_trans)
qed

lemma define_property_grows: "define_property w UnifiedManager p c st gone = Some (h, w') \<Longrightarrow> defs_inv w \<Longrightarrow> grows w w'"
proof -
  assume d: "define_property w UnifiedManager p c st gone = Some (h, w')" and inv: "defs_inv w"
  obtain v fresh w1 where v: "add_to_entry w UnifiedManager KProperty (same_for KProperty)
        ((init_header (Property (PropertyDef p c st gone)))\<lparr>def_hash := v\<rparr>) = Some (h, fresh, w1)"
      and r: "w' = w1 \<or> (\<exists>d e e'. deref w1 0 h = Some d \<and> content d = Property e \<and> merge_invalidated e gone = Some e'
        \<and> w' = update_object w1 0 h (\<lambda>d. d\<lparr>content := Property e'\<rparr>))"
    using d by (auto simp: define_property_def bind_Some_iff content_of_kind same_for_def Let_def split: if_splits)
  have "grows w w1" by (rule add_to_entry_grows [OF v inv]) simp
  moreover have "grows w1 w'"
    using r by (auto intro!: grows_update simp: same_source_def kind_of_def merged_kinds_def)
  ultimately show ?thesis by (rule grows_trans)
qed

lemma define_communicator_grows:
  "define_communicator w UnifiedManager a b n p ke fl = Some (h, w') \<Longrightarrow> defs_inv w \<Longrightarrow> grows w w'"
proof -
  assume d: "define_communicator w UnifiedManager a b n p ke fl = Some (h, w')" and inv: "defs_inv w"
  obtain v fresh w1 where v: "add_to_entry w UnifiedManager KCommunicator (same_for KCommunicator)
        ((init_header (Communicator (CommunicatorDef a b n p ke fl)))\<lparr>def_hash := v\<rparr>) = Some (h, fresh, w1)"
      and r: "w' = w1 \<or> (\<exists>d e. deref w1 0 h = Some d \<and> content d = Communicator e
        \<and> w' = update_object w1 0 h (\<lambda>d. d\<lparr>content := Communicator (merge_communicator e (CommunicatorDef a b n p ke fl))\<rparr>))"
    using d by (auto simp: define_communicator_def bind_Some_iff content_of_kind same_for_def Let_def split: if_splits)
  have "grows w w1" by (rule add_to_entry_grows [OF v inv]) simp
  moreover have "grows w1 w'"
    using r by (auto intro!: grows_update simp: same_source_def kind_of_def merged_kinds_def)
  ultimately show ?thesis by (rule grows_trans)
qed

lemma define_rma_window_grows:
  "define_rma_window w UnifiedManager n c i fl = Some (h, w') \<Longrightarrow> defs_inv w \<Longrightarrow> grows w w'"
proof -
  assume d: "define_rma_window w UnifiedManager n c i fl = Some (h, w')" and inv: "defs_inv w"
  obtain v fresh w1 where v: "add_to_entry w UnifiedManager KRmaWindow (same_for KRmaWindow)
        ((init_header (RmaWindow (RmaWindowDef n c i True fl)))\<lparr>def_hash := v\<rparr>) = Some (h, fresh, w1)"
      and r: "w' = w1 \<or> (\<exists>d e. deref w1 0 h = Some d \<and> content d = RmaWindow e
        \<and> w' = update_object w1 0 h (\<lambda>d. d\<lparr>content := RmaWindow (merge_rma_window e (RmaWindowDef n c i True fl))\<rparr>))"
    using d by (auto simp: define_rma_window_def bind_Some_iff content_of_kind same_for_def Let_def split: if_splits)
  have "grows w w1" by (rule add_to_entry_grows [OF v inv]) simp
  moreover have "grows w1 w'"
    using r by (auto intro!: grows_update simp: same_source_def kind_of_def merged_kinds_def)
  ultimately show ?thesis by (rule grows_trans)
qed

section \<open>Unifying one definition\<close>

text \<open>The unified handle of a reference, and the content with unified references.\<close>

definition unified_of :: "defs \<Rightarrow> nat \<Rightarrow> handle \<Rightarrow> handle" where
  "unified_of w pm h = (case deref w pm h of None \<Rightarrow> 0 | Some d \<Rightarrow> unified d)"

definition translate :: "defs \<Rightarrow> nat \<Rightarrow> handle def_content \<Rightarrow> handle def_content" where
  "translate w pm c = map_def_content (unified_of w pm) c"

lemma unified_of_null [simp]: "unified_of w pm 0 = 0"
  by (simp add: unified_of_def deref_def)

lemma get_unified_is [simp]: "get_unified w pm h = Some n \<longleftrightarrow> (\<exists>d. deref w pm h = Some d) \<and> n = unified_of w pm h"
  by (auto simp: get_unified_def unified_of_def bind_Some_iff)

lemma get_unified_if_valid_is: "get_unified_if_valid w pm h = Some n \<Longrightarrow> n = unified_of w pm h"
  by (auto simp: get_unified_if_valid_def bind_Some_iff split: if_splits)

lemma get_all_unified_is: "get_all_unified w pm hs = Some us \<Longrightarrow> us = map (unified_of w pm) hs"
  by (induction hs arbitrary: us) (auto simp: bind_Some_iff)

lemma unify_dimensions_is: "unify_dimensions w pm ds = Some ds' \<Longrightarrow> ds' = map (map_dimension (unified_of w pm)) ds"
  by (induction w pm ds arbitrary: ds' rule: unify_dimensions.induct) (auto simp: bind_Some_iff)

lemma unify_callpath_parameters_is:
  "unify_callpath_parameters w pm ps = Some ps' \<Longrightarrow> ps' = map (map_callpath_parameter (unified_of w pm)) ps"
proof (induction ps arbitrary: ps')
  case (Cons p ps)
  obtain ph v where p: "p = CallpathParameter ph v" by (cases p)
  show ?case
    using Cons.prems Cons.IH unfolding p
    by (auto simp: bind_Some_iff unified_of_def split: if_splits parameter_value.splits)
qed simp

lemmas unified_is = get_unified_if_valid_is get_all_unified_is unify_dimensions_is unify_callpath_parameters_is

text \<open>The definitions that are represented by one in the unified manager: all but those merged or chained
  into others, unused tree nodes and groups, scopes of unused ones, and incomplete I/O handles.\<close>

definition represented_kind :: "def_object \<Rightarrow> bool" where
  "represented_kind d \<longleftrightarrow> (case content d of
     SystemTreeNode _ \<Rightarrow> has_children d | LocationGroup _ \<Rightarrow> has_children d | IoHandle x \<Rightarrow> is_completed x
   | SamplingSet (ScopedSamplingSetDef _ _ t _) \<Rightarrow> t \<noteq> SCOPE_LOCATION_GROUP \<and> t \<noteq> SCOPE_SYSTEM_TREE_NODE
   | SystemTreeNodeProperty _ \<Rightarrow> False | IoFileProperty _ \<Rightarrow> False | SamplingSetRecorder _ \<Rightarrow> False
   | InterimCommunicator _ \<Rightarrow> False | Communicator _ \<Rightarrow> False | RmaWindow _ \<Rightarrow> False | Property _ \<Rightarrow> False
   | _ \<Rightarrow> True)"

text \<open>Defining \<open>c\<close>, and what may follow before the handle is stored.\<close>

definition unified_as :: "defs \<Rightarrow> nat \<Rightarrow> handle \<Rightarrow> handle def_content \<Rightarrow> defs \<Rightarrow> bool" where
  "unified_as w pm h c w' \<longleftrightarrow> (\<exists>u fresh w1 w2. add_definition w UnifiedManager c = Some (u, fresh, w1)
     \<and> grows w1 w2 \<and> defs_inv w2 \<and> w' = set_unified w2 pm h u)"

lemma unified_asI:
  assumes "define_announced w UnifiedManager c = Some (u, w1) \<or> define_silent w UnifiedManager c = Some (u, w1)"
    "defs_inv w" "added_by_macro (kind_of c)" "w' = set_unified w1 pm h u"
  shows "unified_as w pm h c w'"
proof -
  obtain fresh where "add_definition w UnifiedManager c = Some (u, fresh, w1)" using define_unified [OF assms(1)] by blast
  moreover have "defs_inv w1"
    using assms(1) managers.define_announced_keeps [OF assms(2) _ assms(3)] managers.define_silent_keeps [OF assms(2) _ assms(3)]
    by blast
  ultimately show ?thesis using assms(4) grows_refl unfolding unified_as_def by blast
qed

lemma unified_as_location:
  assumes d: "define_location w UnifiedManager g n t pa lg ev = Some (u, w1)" and inv: "defs_inv w" and w': "w' = set_unified w1 pm h u"
  shows "unified_as w pm h (Location (LocationDef g n t pa lg ev)) w'"
proof -
  obtain w0 where w0: "define_announced w UnifiedManager (Location (LocationDef g n t pa lg ev)) = Some (u, w0)"
      "location_group_mark_used w0 0 lg = Some w1"
    using d by (auto simp: define_location_def bind_Some_iff)
  have "grows w0 w1"
  proof (rule location_group_mark_used_keeps [OF _ w0(2), where P = "grows w0"])
    fix v x a assume g: "grows w0 v" and a: "deref v 0 x = Some a"
    have "grows v (mark_object v 0 x)"
      unfolding mark_object_def by (rule grows_update [where f = "\<lambda>d. d\<lparr>has_children := True\<rparr>", OF a]) (simp add: same_source_def)
    then show "grows w0 (mark_object v 0 x)" using g grows_trans by blast
  qed simp
  moreover have "defs_inv w1" using d inv by (rule managers.define_location_keeps)
  moreover obtain fresh where "add_definition w UnifiedManager (Location (LocationDef g n t pa lg ev)) = Some (u, fresh, w0)"
    using define_unified [OF disjI1, OF w0(1)] by blast
  ultimately show ?thesis using w' unfolding unified_as_def by blast
qed

lemmas only_added = define_source_file_def define_parameter_def define_attribute_def define_source_code_location_def
  define_system_tree_node_def define_location_group_def define_location_property_def define_region_def
  define_group_def define_metric_def define_scoped_sampling_set_def define_callpath_def define_calling_context_def
  define_interrupt_generator_def define_topology_def define_coords_def define_io_file_def define_io_handle_def
  define_sampling_set_def new_string_def new_string_generator_def

lemmas unify_one = unify_string_def unify_source_file_def unify_parameter_def unify_attribute_def
  unify_source_code_location_def unify_system_tree_node_def unify_location_group_def unify_location_property_def
  unify_region_def unify_group_def unify_metric_def unify_sampling_set_def unify_callpath_def
  unify_cartesian_topology_def unify_cartesian_coords_def unify_calling_context_def unify_interrupt_generator_def
  unify_io_file_def unify_io_handle_def

lemmas unify_content = unify_definition_def unify_one only_added bind_Some_iff translate_def

lemma unify_represents_String:
  "deref w pm h = Some d \<Longrightarrow> content d = String x \<Longrightarrow> represented_kind d \<Longrightarrow> unify_definition w pm h = Some w' \<Longrightarrow> defs_inv w
    \<Longrightarrow> unified_as w pm h (translate w pm (content d)) w'"
  by (cases x) (auto simp: unify_content
    dest!: unified_is intro!: unified_asI split: if_splits)

lemma unify_represents_SystemTreeNode:
  "deref w pm h = Some d \<Longrightarrow> content d = SystemTreeNode x \<Longrightarrow> represented_kind d \<Longrightarrow> unify_definition w pm h = Some w' \<Longrightarrow> defs_inv w
    \<Longrightarrow> unified_as w pm h (translate w pm (content d)) w'"
  by (cases x) (auto simp: unify_content represented_kind_def
    dest!: unified_is intro!: unified_asI split: if_splits)

lemma unify_represents_LocationGroup:
  "deref w pm h = Some d \<Longrightarrow> content d = LocationGroup x \<Longrightarrow> represented_kind d \<Longrightarrow> unify_definition w pm h = Some w' \<Longrightarrow> defs_inv w
    \<Longrightarrow> unified_as w pm h (translate w pm (content d)) w'"
  by (cases x) (auto simp: unify_content represented_kind_def
    dest!: unified_is intro!: unified_asI split: if_splits)

lemma unify_represents_LocationProperty:
  "deref w pm h = Some d \<Longrightarrow> content d = LocationProperty x \<Longrightarrow> represented_kind d \<Longrightarrow> unify_definition w pm h = Some w' \<Longrightarrow> defs_inv w
    \<Longrightarrow> unified_as w pm h (translate w pm (content d)) w'"
  by (cases x) (auto simp: unify_content
    dest!: unified_is intro!: unified_asI split: if_splits)

lemma unify_represents_SourceFile:
  "deref w pm h = Some d \<Longrightarrow> content d = SourceFile x \<Longrightarrow> represented_kind d \<Longrightarrow> unify_definition w pm h = Some w' \<Longrightarrow> defs_inv w
    \<Longrightarrow> unified_as w pm h (translate w pm (content d)) w'"
  by (cases x) (auto simp: unify_content
    dest!: unified_is intro!: unified_asI split: if_splits)

lemma unify_represents_Region:
  "deref w pm h = Some d \<Longrightarrow> content d = Region x \<Longrightarrow> represented_kind d \<Longrightarrow> unify_definition w pm h = Some w' \<Longrightarrow> defs_inv w
    \<Longrightarrow> unified_as w pm h (translate w pm (content d)) w'"
  by (cases x) (auto simp: unify_content
    dest!: unified_is intro!: unified_asI split: if_splits)

lemma unify_represents_Group:
  "deref w pm h = Some d \<Longrightarrow> content d = Group x \<Longrightarrow> represented_kind d \<Longrightarrow> unify_definition w pm h = Some w' \<Longrightarrow> defs_inv w
    \<Longrightarrow> unified_as w pm h (translate w pm (content d)) w'"
  by (cases x) (auto simp: unify_content
    dest!: unified_is intro!: unified_asI split: if_splits)

lemma unify_represents_Metric:
  "deref w pm h = Some d \<Longrightarrow> content d = Metric x \<Longrightarrow> represented_kind d \<Longrightarrow> unify_definition w pm h = Some w' \<Longrightarrow> defs_inv w
    \<Longrightarrow> unified_as w pm h (translate w pm (content d)) w'"
  by (cases x) (auto simp: unify_content
    dest!: unified_is intro!: unified_asI split: if_splits)

lemma unify_represents_SamplingSet:
  "deref w pm h = Some d \<Longrightarrow> content d = SamplingSet x \<Longrightarrow> represented_kind d \<Longrightarrow> unify_definition w pm h = Some w' \<Longrightarrow> defs_inv w
    \<Longrightarrow> unified_as w pm h (translate w pm (content d)) w'"
  by (cases x) (auto simp: unify_content represented_kind_def unified_of_def
    dest!: unified_is intro!: unified_asI split: if_splits)

lemma unify_represents_Parameter:
  "deref w pm h = Some d \<Longrightarrow> content d = Parameter x \<Longrightarrow> represented_kind d \<Longrightarrow> unify_definition w pm h = Some w' \<Longrightarrow> defs_inv w
    \<Longrightarrow> unified_as w pm h (translate w pm (content d)) w'"
  by (cases x) (auto simp: unify_content
    dest!: unified_is intro!: unified_asI split: if_splits)

lemma unify_represents_Callpath:
  "deref w pm h = Some d \<Longrightarrow> content d = Callpath x \<Longrightarrow> represented_kind d \<Longrightarrow> unify_definition w pm h = Some w' \<Longrightarrow> defs_inv w
    \<Longrightarrow> unified_as w pm h (translate w pm (content d)) w'"
  by (cases x) (auto simp: unify_content
    dest!: unified_is intro!: unified_asI split: if_splits)

lemma unify_represents_Attribute:
  "deref w pm h = Some d \<Longrightarrow> content d = Attribute x \<Longrightarrow> represented_kind d \<Longrightarrow> unify_definition w pm h = Some w' \<Longrightarrow> defs_inv w
    \<Longrightarrow> unified_as w pm h (translate w pm (content d)) w'"
  by (cases x) (auto simp: unify_content
    dest!: unified_is intro!: unified_asI split: if_splits)

lemma unify_represents_CartesianTopology:
  "deref w pm h = Some d \<Longrightarrow> content d = CartesianTopology x \<Longrightarrow> represented_kind d \<Longrightarrow> unify_definition w pm h = Some w' \<Longrightarrow> defs_inv w
    \<Longrightarrow> unified_as w pm h (translate w pm (content d)) w'"
  by (cases x) (auto simp: unify_content
    dest!: unified_is intro!: unified_asI split: if_splits)

lemma unify_represents_CartesianCoords:
  "deref w pm h = Some d \<Longrightarrow> content d = CartesianCoords x \<Longrightarrow> represented_kind d \<Longrightarrow> unify_definition w pm h = Some w' \<Longrightarrow> defs_inv w
    \<Longrightarrow> unified_as w pm h (translate w pm (content d)) w'"
  by (cases x) (auto simp: unify_content
    dest!: unified_is intro!: unified_asI split: if_splits)

lemma unify_represents_SourceCodeLocation:
  "deref w pm h = Some d \<Longrightarrow> content d = SourceCodeLocation x \<Longrightarrow> represented_kind d \<Longrightarrow> unify_definition w pm h = Some w' \<Longrightarrow> defs_inv w
    \<Longrightarrow> unified_as w pm h (translate w pm (content d)) w'"
  by (cases x) (auto simp: unify_content
    dest!: unified_is intro!: unified_asI split: if_splits)

lemma unify_represents_CallingContext:
  "deref w pm h = Some d \<Longrightarrow> content d = CallingContext x \<Longrightarrow> represented_kind d \<Longrightarrow> unify_definition w pm h = Some w' \<Longrightarrow> defs_inv w
    \<Longrightarrow> unified_as w pm h (translate w pm (content d)) w'"
  by (cases x) (auto simp: unify_content
    dest!: unified_is intro!: unified_asI split: if_splits)

lemma unify_represents_InterruptGenerator:
  "deref w pm h = Some d \<Longrightarrow> content d = InterruptGenerator x \<Longrightarrow> represented_kind d \<Longrightarrow> unify_definition w pm h = Some w' \<Longrightarrow> defs_inv w
    \<Longrightarrow> unified_as w pm h (translate w pm (content d)) w'"
  by (cases x) (auto simp: unify_content
    dest!: unified_is intro!: unified_asI split: if_splits)

lemma unify_represents_IoFile:
  "deref w pm h = Some d \<Longrightarrow> content d = IoFile x \<Longrightarrow> represented_kind d \<Longrightarrow> unify_definition w pm h = Some w' \<Longrightarrow> defs_inv w
    \<Longrightarrow> unified_as w pm h (translate w pm (content d)) w'"
  by (cases x) (auto simp: unify_content
    dest!: unified_is intro!: unified_asI split: if_splits)

lemma unify_represents_IoHandle:
  "deref w pm h = Some d \<Longrightarrow> content d = IoHandle x \<Longrightarrow> represented_kind d \<Longrightarrow> unify_definition w pm h = Some w' \<Longrightarrow> defs_inv w
    \<Longrightarrow> unified_as w pm h (translate w pm (content d)) w'"
  by (cases x) (auto simp: unify_content represented_kind_def
    dest!: unified_is intro!: unified_asI split: if_splits)

lemma unify_represents_Location:
  "deref w pm h = Some d \<Longrightarrow> content d = Location x \<Longrightarrow> represented_kind d \<Longrightarrow> unify_definition w pm h = Some w' \<Longrightarrow> defs_inv w
    \<Longrightarrow> unified_as w pm h (translate w pm (content d)) w'"
  by (cases x) (auto simp: unify_definition_def unify_location_def bind_Some_iff translate_def
    dest!: unified_is intro!: unified_as_location split: if_splits)

lemma unify_definition_represents:
  assumes d: "deref w pm h = Some d" and r: "represented_kind d" and u: "unify_definition w pm h = Some w'" and inv: "defs_inv w"
  shows "unified_as w pm h (translate w pm (content d)) w'"
proof (cases "content d")
  case (String x)
  show ?thesis by (rule unify_represents_String [OF d String r u inv])
next
  case (SystemTreeNode x)
  show ?thesis by (rule unify_represents_SystemTreeNode [OF d SystemTreeNode r u inv])
next
  case (SystemTreeNodeProperty x)
  then show ?thesis using r by (simp add: represented_kind_def)
next
  case (LocationGroup x)
  show ?thesis by (rule unify_represents_LocationGroup [OF d LocationGroup r u inv])
next
  case (Location x)
  show ?thesis by (rule unify_represents_Location [OF d Location r u inv])
next
  case (LocationProperty x)
  show ?thesis by (rule unify_represents_LocationProperty [OF d LocationProperty r u inv])
next
  case (SourceFile x)
  show ?thesis by (rule unify_represents_SourceFile [OF d SourceFile r u inv])
next
  case (Region x)
  show ?thesis by (rule unify_represents_Region [OF d Region r u inv])
next
  case (Group x)
  show ?thesis by (rule unify_represents_Group [OF d Group r u inv])
next
  case (InterimCommunicator x)
  then show ?thesis using r by (simp add: represented_kind_def)
next
  case (Communicator x)
  then show ?thesis using r by (simp add: represented_kind_def)
next
  case (RmaWindow x)
  then show ?thesis using r by (simp add: represented_kind_def)
next
  case (Metric x)
  show ?thesis by (rule unify_represents_Metric [OF d Metric r u inv])
next
  case (SamplingSet x)
  show ?thesis by (rule unify_represents_SamplingSet [OF d SamplingSet r u inv])
next
  case (SamplingSetRecorder x)
  then show ?thesis using r by (simp add: represented_kind_def)
next
  case (Parameter x)
  show ?thesis by (rule unify_represents_Parameter [OF d Parameter r u inv])
next
  case (Callpath x)
  show ?thesis by (rule unify_represents_Callpath [OF d Callpath r u inv])
next
  case (Property x)
  then show ?thesis using r by (simp add: represented_kind_def)
next
  case (Attribute x)
  show ?thesis by (rule unify_represents_Attribute [OF d Attribute r u inv])
next
  case (CartesianTopology x)
  show ?thesis by (rule unify_represents_CartesianTopology [OF d CartesianTopology r u inv])
next
  case (CartesianCoords x)
  show ?thesis by (rule unify_represents_CartesianCoords [OF d CartesianCoords r u inv])
next
  case (SourceCodeLocation x)
  show ?thesis by (rule unify_represents_SourceCodeLocation [OF d SourceCodeLocation r u inv])
next
  case (CallingContext x)
  show ?thesis by (rule unify_represents_CallingContext [OF d CallingContext r u inv])
next
  case (InterruptGenerator x)
  show ?thesis by (rule unify_represents_InterruptGenerator [OF d InterruptGenerator r u inv])
next
  case (IoFile x)
  show ?thesis by (rule unify_represents_IoFile [OF d IoFile r u inv])
next
  case (IoFileProperty x)
  then show ?thesis using r by (simp add: represented_kind_def)
next
  case (IoHandle x)
  show ?thesis by (rule unify_represents_IoHandle [OF d IoHandle r u inv])
qed

lemma kind_of_map [simp]: "kind_of (map_def_content f c) = kind_of c"
  by (cases c) (simp_all add: kind_of_def)

definition step_of :: "defs \<Rightarrow> nat \<Rightarrow> handle \<Rightarrow> defs \<Rightarrow> bool" where
  "step_of w pm h w' \<longleftrightarrow> (\<exists>w1 u. grows w w1 \<and> defs_inv w1 \<and> (w' = w1 \<or> w' = set_unified w1 pm h u))"

lemma step_ofI: "grows w w1 \<Longrightarrow> defs_inv w1 \<Longrightarrow> w' = w1 \<or> w' = set_unified w1 pm h u \<Longrightarrow> step_of w pm h w'"
  unfolding step_of_def by blast

lemma step_of_same: "defs_inv w \<Longrightarrow> step_of w pm h w"
  by (rule step_ofI [of _ w]) simp_all

lemma add_node_property_grows:
  assumes a: "add_system_tree_node_property w UnifiedManager node n v = Some (h, w')" and inv: "defs_inv w"
  shows "grows w w'"
proof -
  let ?c = "SystemTreeNodeProperty (NodePropertyDef node n v)"
  obtain fresh w1 where w1: "add_definition w UnifiedManager ?c = Some (h, fresh, w1)"
      "w' \<in> {w1, update_object w1 0 node (append_chained h)}"
    using a by (auto simp: add_system_tree_node_property_def bind_Some_iff Let_def split: if_splits)
  obtain d where "deref w 0 node = Some d"
    using w1(1) by (auto simp: add_definition_def hash_content_def hash_items_def hash_node_property_def bind_Some_iff)
  then have d: "deref w1 0 node = Some d" by (rule managers.add_definition_old [OF inv w1(1), rotated]) simp
  have "grows w w1" by (rule add_definition_grows [OF w1(1) inv]) simp
  moreover have "grows w1 (update_object w1 0 node (append_chained h))"
    by (rule grows_update [OF d]) (simp add: same_source_def append_chained_def)
  ultimately show ?thesis using w1(2) grows_trans by blast
qed

lemma add_file_property_grows:
  assumes a: "add_io_file_property w UnifiedManager file n v = Some (h, w')" and inv: "defs_inv w"
  shows "grows w w'"
proof -
  let ?c = "IoFileProperty (IoFilePropertyDef file n v)"
  obtain fresh w1 where w1: "add_definition w UnifiedManager ?c = Some (h, fresh, w1)"
      "w' \<in> {w1, update_object w1 0 file (append_chained h)}"
    using a by (auto simp: add_io_file_property_def bind_Some_iff Let_def split: if_splits)
  obtain d where "deref w 0 file = Some d"
    using w1(1) by (auto simp: add_definition_def hash_content_def hash_items_def hash_io_file_property_def bind_Some_iff)
  then have d: "deref w1 0 file = Some d" by (rule managers.add_definition_old [OF inv w1(1), rotated]) simp
  have "grows w w1" by (rule add_definition_grows [OF w1(1) inv]) simp
  moreover have "grows w1 (update_object w1 0 file (append_chained h))"
    by (rule grows_update [OF d]) (simp add: same_source_def append_chained_def)
  ultimately show ?thesis using w1(2) grows_trans by blast
qed

lemma add_recorder_grows:
  assumes a: "sampling_set_add_recorder w UnifiedManager ss r = Some w'"
  shows "grows w w'"
proof -
  obtain s mgr where s: "deref w 0 ss = Some s" "get_manager w UnifiedManager = Some mgr"
    using a by (auto simp: sampling_set_add_recorder_def link_definition_def bind_Some_iff definition_alloc_def)
  let ?d = "init_header (SamplingSetRecorder (RecorderDef ss r))"
  let ?w = "update_object w 0 ss (append_chained (Suc (length (memory w 0))))"
  have g: "get_manager ?w UnifiedManager = Some mgr" using s(2) by simp
  have "w' = linked ?w UnifiedManager KSamplingSetRecorder mgr ?d (mgr KSamplingSetRecorder)"
    using a s by (auto simp: sampling_set_add_recorder_def link_definition_def bind_Some_iff definition_alloc_def Let_def
        linked_def update_object_def deref_valid nth_append list_update_append get_manager_def split: if_splits)
  moreover have "grows w ?w" by (rule grows_update [OF s(1)]) (simp add: same_source_def append_chained_def)
  ultimately show ?thesis using grows_linked [OF g] grows_trans by blast
qed

lemma unify_definition_step:
  assumes d: "deref w pm h = Some d" and u: "unify_definition w pm h = Some w'" and inv: "defs_inv w"
  shows "step_of w pm h w'"
proof (cases "represented_kind d")
  case True
  then have mac: "added_by_macro (kind_of (translate w pm (content d)))"
    by (cases "content d") (simp_all add: translate_def represented_kind_def)
  obtain v fresh w1 w2 where w: "add_definition w UnifiedManager (translate w pm (content d)) = Some (v, fresh, w1)"
      "grows w1 w2" "defs_inv w2" "w' = set_unified w2 pm h v"
    using unify_definition_represents [OF d True u inv] by (auto simp: unified_as_def)
  show ?thesis
    using grows_trans [OF add_definition_grows [OF w(1) inv mac] w(2)] w(3,4) by (blast intro: step_ofI)
next
  case False
  show ?thesis
  proof (cases "content d")
    case (SystemTreeNodeProperty x)
    then show ?thesis
      using d u inv by (auto simp: unify_definition_def unify_system_tree_node_property_def bind_Some_iff split: if_splits
        intro: step_of_same step_ofI add_node_property_grows managers.add_node_property_keeps)
  next
    case (IoFileProperty x)
    then show ?thesis
      using d u inv by (auto simp: unify_definition_def unify_io_file_property_def bind_Some_iff
        intro: step_ofI add_file_property_grows managers.add_file_property_keeps)
  next
    case (SamplingSetRecorder x)
    then show ?thesis
      using d u inv by (auto simp: unify_definition_def unify_sampling_set_recorder_def bind_Some_iff
        intro: step_ofI add_recorder_grows managers.add_recorder_keeps)
  next
    case (Communicator x)
    then show ?thesis
      using d u inv by (auto simp: unify_definition_def unify_communicator_def bind_Some_iff
        intro: step_ofI define_communicator_grows managers.define_communicator_keeps)
  next
    case (RmaWindow x)
    then show ?thesis
      using d u inv by (auto simp: unify_definition_def unify_rma_window_def bind_Some_iff
        intro: step_ofI define_rma_window_grows managers.define_rma_window_keeps)
  next
    case (Property x)
    then show ?thesis
      using d u inv by (auto simp: unify_definition_def unify_property_def bind_Some_iff
        intro: step_ofI define_property_grows managers.define_property_keeps)
  next
    case (SystemTreeNode x)
    then show ?thesis
      using False d u inv by (auto simp: unify_definition_def unify_system_tree_node_def represented_kind_def bind_Some_iff intro: step_of_same step_ofI)
  next
    case (LocationGroup x)
    then show ?thesis
      using False d u inv by (auto simp: unify_definition_def unify_location_group_def represented_kind_def bind_Some_iff intro: step_of_same step_ofI)
  next
    case (IoHandle x)
    then show ?thesis
      using False d u inv by (auto simp: unify_definition_def unify_io_handle_def represented_kind_def bind_Some_iff intro: step_ofI [of w w])
  next
    case (SamplingSet x)
    then show ?thesis
      using False d u inv by (auto simp: unify_definition_def unify_sampling_set_def represented_kind_def bind_Some_iff
        intro: step_of_same step_ofI define_kinds_grow managers.define_keeps split: sampling_set_def.splits if_splits)
  next
    case (InterimCommunicator x)
    then show ?thesis using d u by (simp add: unify_definition_def)
  qed (use False in \<open>simp_all add: represented_kind_def\<close>)
qed

section \<open>Unifying a manager\<close>

definition stands_for :: "handle def_content \<Rightarrow> handle def_content \<Rightarrow> bool" where
  "stands_for c t \<longleftrightarrow> c = t \<or> equal_content c t"

text \<open>The unified handle of \<open>h\<close> is a definition of the unified manager that stands for \<open>h\<close> with unified
  references.\<close>

definition represented :: "defs \<Rightarrow> nat \<Rightarrow> handle \<Rightarrow> def_object \<Rightarrow> bool" where
  "represented w pm h d \<longleftrightarrow> (\<exists>d' mgr e. deref w pm h = Some d' \<and> content d' = content d
     \<and> sequence_number d' = sequence_number d \<and> unified_manager w = Some mgr
     \<and> unified d' \<in> set (chain (mgr (kind_of (content d)))) \<and> deref w 0 (unified d') = Some e
     \<and> kind_of (content e) = kind_of (content d) \<and> stands_for (content e) (translate w pm (content d)))"

definition valid_references :: "defs \<Rightarrow> nat \<Rightarrow> handle set \<Rightarrow> handle def_content \<Rightarrow> bool" where
  "valid_references w pm later c \<longleftrightarrow> (\<forall>r\<in>set_def_content c. r \<notin> later \<and> (r = 0 \<or> deref w pm r \<noteq> None))"

text \<open>Every definition only refers to definitions in front of it.\<close>

fun ordered :: "defs \<Rightarrow> nat \<Rightarrow> handle list \<Rightarrow> bool" where
  "ordered w pm [] = True"
| "ordered w pm (h # hs) = (h \<notin> set hs \<and> (case deref w pm h of None \<Rightarrow> False
     | Some d \<Rightarrow> kind_of (content d) \<in> merged_kinds \<or> valid_references w pm (set (h # hs)) (content d)) \<and> ordered w pm hs)"

definition source_handles :: "manager \<Rightarrow> handle list" where
  "source_handles src = concat (map (\<lambda>k. chain (src k)) unify_order)"

lemma equal_content_kind: "equal_content c t \<Longrightarrow> kind_of c = kind_of t"
  by (cases c; cases t; simp add: equal_content_def kind_of_def)

lemma represented_not_merged: "represented_kind d \<Longrightarrow> kind_of (content d) \<notin> merged_kinds"
  by (cases "content d") (simp_all add: represented_kind_def merged_kinds_def kind_of_def)

lemma represented_kind_source: "represented_kind d \<Longrightarrow> same_source d d' \<Longrightarrow> represented_kind d' \<and> content d' = content d"
  using represented_not_merged [of d]
  by (auto simp: same_source_def represented_kind_def split: def_content.splits)

text \<open>What a step changes of the other definitions.\<close>

definition steps_over :: "defs \<Rightarrow> nat \<Rightarrow> handle \<Rightarrow> defs \<Rightarrow> bool" where
  "steps_over w pm h w' \<longleftrightarrow> (\<forall>pm' g d. deref w pm' g = Some d \<longrightarrow> (\<exists>d'. deref w' pm' g = Some d'
       \<and> (if pm' = pm \<and> g = h then same_source d (d'\<lparr>unified := unified d\<rparr>) else same_source d d')))
     \<and> extends (unified_manager w) (unified_manager w')"

lemma step_of_over:
  assumes s: "step_of w pm h w'" and d: "deref w pm h = Some d"
  shows "steps_over w pm h w'"
proof -
  obtain w1 u where w1: "grows w w1" "w' = w1 \<or> w' = set_unified w1 pm h u" using s by (auto simp: step_of_def)
  obtain d1 where d1: "deref w1 pm h = Some d1" "same_source d d1"
    using grows_deref [OF w1(1) d] by blast
  have "\<exists>d'. deref w' pm' g = Some d' \<and> (if pm' = pm \<and> g = h then same_source a (d'\<lparr>unified := unified a\<rparr>) else same_source a d')"
    if a: "deref w pm' g = Some a" for pm' g a
  proof -
    obtain a1 where a1: "deref w1 pm' g = Some a1" "same_source a a1" using grows_deref [OF w1(1) a] by blast
    show ?thesis
    proof (cases "w' = w1")
      case True
      then show ?thesis using a1 by (auto simp: same_source_def)
    next
      case False
      then have w': "w' = update_object w1 pm h (\<lambda>d. d\<lparr>unified := u\<rparr>)" using w1(2) by (simp add: set_unified_def)
      show ?thesis
      proof (cases "pm' = pm \<and> g = h")
        case True
        then have "a1 = d1" using a1(1) d1(1) by simp
        then have "same_source a (d1\<lparr>unified := u, unified := unified a\<rparr>)" using a1(2) by (simp add: same_source_def)
        then show ?thesis using True by (simp add: w' deref_update [OF d1(1)])
      next
        case False
        then show ?thesis using a1 by (auto simp: w' deref_update [OF d1(1)])
      qed
    qed
  qed
  moreover have "extends (unified_manager w) (unified_manager w')"
    using w1 by (auto simp: grows_def set_unified_def update_object_def)
  ultimately show ?thesis by (simp add: steps_over_def)
qed

lemma step_of_inv:
  assumes s: "step_of w pm h w'" and d: "deref w pm h = Some d"
  shows "defs_inv w'"
proof -
  obtain w1 u where w1: "grows w w1" "defs_inv w1" "w' = w1 \<or> w' = set_unified w1 pm h u" using s by (auto simp: step_of_def)
  obtain d1 where d1: "deref w1 pm h = Some d1" using grows_deref [OF w1(1) d] by blast
  have "defs_inv (set_unified w1 pm h u)"
    unfolding set_unified_def by (rule managers.update_keeps [OF w1(2) d1]) simp
  then show ?thesis using w1(2,3) by auto
qed

lemma unified_of_over:
  assumes "steps_over w pm h w'" "r \<noteq> h" "r = 0 \<or> deref w pm r \<noteq> None"
  shows "unified_of w' pm r = unified_of w pm r"
proof (cases "r = 0")
  case False
  then obtain d where d: "deref w pm r = Some d" using assms(3) by auto
  then show ?thesis using assms(1,2) by (fastforce simp: steps_over_def unified_of_def same_source_def)
qed simp

lemma translate_over:
  assumes "steps_over w pm h w'" "valid_references w pm later c" "h \<in> later"
  shows "translate w' pm c = translate w pm c"
  unfolding translate_def
proof (rule def_content.map_cong0)
  fix r assume "r \<in> set_def_content c"
  then show "unified_of w' pm r = unified_of w pm r"
    using assms by (intro unified_of_over [OF assms(1)]) (auto simp: valid_references_def)
qed

lemma valid_references_over:
  "steps_over w pm h w' \<Longrightarrow> valid_references w pm later c \<Longrightarrow> later' \<subseteq> later \<Longrightarrow> valid_references w' pm later' c"
  unfolding steps_over_def valid_references_def by fastforce

lemma represented_over:
  assumes r: "represented w pm g d" and over: "steps_over w pm h w'" and gh: "g \<noteq> h" and k: "kind_of (content d) \<notin> merged_kinds"
    and refs: "valid_references w pm later (content d)" "h \<in> later"
  shows "represented w' pm g d"
proof -
  obtain a mgr e where a: "deref w pm g = Some a" "content a = content d" "sequence_number a = sequence_number d"
      "unified_manager w = Some mgr" "unified a \<in> set (chain (mgr (kind_of (content d))))" "deref w 0 (unified a) = Some e"
      "kind_of (content e) = kind_of (content d)" "stands_for (content e) (translate w pm (content d))"
    using r by (auto simp: represented_def)
  obtain a' where a': "deref w' pm g = Some a'" "same_source a a'"
    using over a(1) gh unfolding steps_over_def by metis
  obtain e' where e0: "deref w' 0 (unified a) = Some e'" "same_source e e' \<or> same_source e (e'\<lparr>unified := unified e\<rparr>)"
    using over a(6) unfolding steps_over_def by meson
  have "content e' = content e" using e0(2) a(7) k by (auto simp: same_source_def)
  then have e': "deref w' 0 (unified a) = Some e'" "content e' = content e" using e0(1) by simp_all
  obtain mgr' where m': "unified_manager w' = Some mgr'" "set (chain (mgr (kind_of (content d)))) \<subseteq> set (chain (mgr' (kind_of (content d))))"
    using over a(4) unfolding steps_over_def extends_def by (auto split: option.splits) (metis Un_iff set_append subsetI)
  have "unified a' = unified a \<and> content a' = content d \<and> sequence_number a' = sequence_number d"
    using a' a k by (simp add: same_source_def)
  then show ?thesis
    using a a' e' m' translate_over [OF over refs] unfolding represented_def by auto
qed

lemma unify_definition_represented:
  assumes d: "deref w pm h = Some d" and r: "represented_kind d" and u: "unify_definition w pm h = Some w'" and inv: "defs_inv w"
    and refs: "valid_references w pm later (content d)" "h \<in> later" and m: "unified_manager w \<noteq> None"
  shows "represented w' pm h d"
proof -
  let ?t = "translate w pm (content d)"
  obtain v fresh w1 w2 where w: "add_definition w UnifiedManager ?t = Some (v, fresh, w1)"
      "grows w1 w2" "defs_inv w2" "w' = set_unified w2 pm h v"
    using unify_definition_represents [OF d r u inv] by (auto simp: unified_as_def)
  have mac: "added_by_macro (kind_of ?t)"
    using r by (cases "content d") (simp_all add: translate_def represented_kind_def)
  have kt: "kind_of ?t = kind_of (content d)" by (simp add: translate_def)
  have nm: "kind_of (content d) \<notin> merged_kinds" by (rule represented_not_merged [OF r])
  have s: "same_for (kind_of ?t) = same_definition" "kind_of ?t \<noteq> KSamplingSetRecorder"
    using mac unfolding added_by_macro_def same_for_def by simp_all
  obtain x where x: "add_to_entry w UnifiedManager (kind_of ?t) (same_for (kind_of ?t)) ((init_header ?t)\<lparr>def_hash := x\<rparr>) = Some (v, fresh, w1)"
    using w(1) by (auto simp: add_definition_def bind_Some_iff s)
  have "\<exists>mgr e. get_manager w1 UnifiedManager = Some mgr \<and> v \<in> set (chain (mgr (kind_of ?t))) \<and> deref w1 0 v = Some e
      \<and> kind_of (content e) = kind_of ?t \<and> stands_for (content e) ?t"
    by (rule add_to_entry_linked [OF _ x s(2)])
      (use inv s in \<open>auto simp: defs_inv_def get_manager_linked deref_linked init_header_def stands_for_def same_definition_def\<close>)
  then obtain mgr1 e1 where e1: "unified_manager w1 = Some mgr1" "v \<in> set (chain (mgr1 (kind_of (content d))))"
      "deref w1 0 v = Some e1" "kind_of (content e1) = kind_of (content d)" "stands_for (content e1) ?t"
    by (auto simp: get_manager_def kt)
  obtain e2 where e2: "deref w2 0 v = Some e2" "same_source e1 e2" using grows_deref [OF w(2) e1(3)] by blast
  have g1: "grows w w1" by (rule add_definition_grows [OF w(1) inv mac])
  have g2: "grows w w2" by (rule grows_trans [OF g1 w(2)])
  obtain d2 where d2: "deref w2 pm h = Some d2" "same_source d d2" using grows_deref [OF g2 d] by blast
  have st: "step_of w pm h w'" using g2 w(3,4) by (blast intro: step_ofI)
  have tr: "translate w' pm (content d) = ?t" by (rule translate_over [OF step_of_over [OF st d] refs])
  obtain mgr2 where m2: "unified_manager w' = Some mgr2" "v \<in> set (chain (mgr2 (kind_of (content d))))"
    using w(2,4) e1(1,2) by (auto simp: grows_def extends_def set_unified_def update_object_def split: option.splits)
      (metis Un_iff set_append)
  have "deref w' pm h = Some (d2\<lparr>unified := v\<rparr>)" by (simp add: w(4) set_unified_def deref_update [OF d2(1)])
  moreover have "\<exists>e. deref w' 0 v = Some e \<and> content e = content e1"
    using e2 e1(4) nm d2(1) by (auto simp: w(4) set_unified_def deref_update [OF d2(1)] same_source_def)
  ultimately show ?thesis
    using m2 d2(2) nm e1(4,5) unfolding represented_def tr by (auto simp: same_source_def)
qed

lemma steps_over_deref:
  assumes "steps_over w pm h w'" "deref w pm g = Some d" "g \<noteq> h"
  shows "\<exists>d'. deref w' pm g = Some d' \<and> same_source d d'"
  using assms unfolding steps_over_def by metis

lemma ordered_over: "steps_over w pm h w' \<Longrightarrow> h \<notin> set hs \<Longrightarrow> ordered w pm hs \<Longrightarrow> ordered w' pm hs"
proof (induction hs)
  case (Cons g hs)
  obtain d where d: "deref w pm g = Some d"
      "kind_of (content d) \<in> merged_kinds \<or> valid_references w pm (set (g # hs)) (content d)" "g \<notin> set hs" "ordered w pm hs"
    using Cons.prems(3) by (auto split: option.splits)
  obtain d' where d': "deref w' pm g = Some d'" "same_source d d'"
    using steps_over_deref [OF Cons.prems(1) d(1)] Cons.prems(2) by auto
  have "valid_references w' pm (set (g # hs)) (content d)" if "valid_references w pm (set (g # hs)) (content d)"
    using valid_references_over [OF Cons.prems(1) that] by blast
  then show ?case
    using Cons d d' by (auto simp: same_source_def)
qed simp

lemma represented_cong: "content d = content d' \<Longrightarrow> sequence_number d = sequence_number d' \<Longrightarrow>
    represented w pm h d = represented w pm h d'"
  by (simp add: represented_def)

lemma unify_chain_represented:
  assumes "unify_chain w pm hs = Some w'" "defs_inv w" "unified_manager w \<noteq> None" "ordered w pm hs"
    and "\<forall>(g, d)\<in>before. represented w pm g d \<and> kind_of (content d) \<notin> merged_kinds
      \<and> valid_references w pm (set hs) (content d) \<and> g \<notin> set hs"
  shows "(\<forall>(g, d)\<in>before. represented w' pm g d)
    \<and> (\<forall>h\<in>set hs. \<forall>d. deref w pm h = Some d \<and> represented_kind d \<longrightarrow> represented w' pm h d) \<and> defs_inv w' \<and> unified_manager w' \<noteq> None"
  using assms
proof (induction hs arbitrary: w before)
  case (Cons h hs)
  obtain w1 where w1: "unify_definition w pm h = Some w1" "unify_chain w1 pm hs = Some w'"
    using Cons.prems(1) by (auto simp: bind_Some_iff)
  obtain d where d: "deref w pm h = Some d" "h \<notin> set hs" "ordered w pm hs"
      "kind_of (content d) \<in> merged_kinds \<or> valid_references w pm (set (h # hs)) (content d)"
    using Cons.prems(4) by (auto split: option.splits)
  have st: "step_of w pm h w1" by (rule unify_definition_step [OF d(1) w1(1) Cons.prems(2)])
  note over = step_of_over [OF st d(1)]
  have inv1: "defs_inv w1" by (rule step_of_inv [OF st d(1)])
  have m1: "unified_manager w1 \<noteq> None" using over Cons.prems(3) by (auto simp: steps_over_def extends_def split: option.splits)
  let ?before = "before \<union> (if represented_kind d then {(h, d)} else {})"
  have new: "represented w1 pm h d \<and> kind_of (content d) \<notin> merged_kinds \<and> valid_references w1 pm (set hs) (content d) \<and> h \<notin> set hs"
    if r: "represented_kind d"
  proof -
    have nm: "kind_of (content d) \<notin> merged_kinds" by (rule represented_not_merged [OF r])
    then have v: "valid_references w pm (set (h # hs)) (content d)" using d(4) by simp
    have "represented w1 pm h d"
      by (rule unify_definition_represented [OF d(1) r w1(1) Cons.prems(2) v _ Cons.prems(3)]) simp
    then show ?thesis using nm d(2) valid_references_over [OF over v, of "set hs"] by auto
  qed
  have old: "represented w1 pm g a \<and> kind_of (content a) \<notin> merged_kinds \<and> valid_references w1 pm (set hs) (content a) \<and> g \<notin> set hs"
    if "(g, a) \<in> before" for g a
  proof -
    have a: "represented w pm g a" "kind_of (content a) \<notin> merged_kinds" "valid_references w pm (set (h # hs)) (content a)" "g \<notin> set (h # hs)"
      using Cons.prems(5) that by auto
    have "represented w1 pm g a" by (rule represented_over [OF a(1) over _ a(2,3)]) (use a(4) in auto)
    then show ?thesis using a valid_references_over [OF over a(3), of "set hs"] by auto
  qed
  have ih: "(\<forall>(g, d)\<in>?before. represented w' pm g d)
    \<and> (\<forall>h\<in>set hs. \<forall>d. deref w1 pm h = Some d \<and> represented_kind d \<longrightarrow> represented w' pm h d) \<and> defs_inv w' \<and> unified_manager w' \<noteq> None"
    by (rule Cons.IH [OF w1(2) inv1 m1 ordered_over [OF over d(2,3)]]) (use new old in auto)
  have rest: "represented w' pm g a" if g: "g \<in> set hs" "deref w pm g = Some a" "represented_kind a" for g a
  proof -
    obtain a1 where a1: "deref w1 pm g = Some a1" "same_source a a1"
      using steps_over_deref [OF over g(2)] g(1) d(2) by auto
    then have "represented_kind a1 \<and> content a1 = content a" using represented_kind_source [OF g(3)] by blast
    moreover have "sequence_number a1 = sequence_number a" using a1(2) by (simp add: same_source_def)
    ultimately show ?thesis using ih g(1) a1(1) represented_cong by blast
  qed
  then show ?case using ih d(1) by auto
qed auto

lemma unify_chain_append:
  "unify_chain w pm (xs @ ys) = (case unify_chain w pm xs of None \<Rightarrow> None | Some w \<Rightarrow> unify_chain w pm ys)"
proof (induction xs arbitrary: w)
  case (Cons x xs)
  then show ?case by (cases "unify_definition w pm x") auto
qed simp

lemma unify_kinds_chain: "unify_kinds w src pm ks = unify_chain w pm (concat (map (\<lambda>k. chain (src k)) ks))"
  by (induction ks arbitrary: w) (auto simp: unify_chain_append split: option.splits bind_split)

lemma copied_represented:
  assumes "defs_inv w" "unified_manager w \<noteq> None" "ordered w pm (source_handles src)"
    and "CopyDefinitionsToUnified w src pm = Some w'"
    and "h \<in> set (source_handles src)" "deref w pm h = Some d" "represented_kind d"
  shows "represented w' pm h d"
proof -
  have "unify_chain w pm (source_handles src) = Some w'"
    using assms(4) by (simp add: CopyDefinitionsToUnified_def unify_kinds_chain source_handles_def)
  then show ?thesis using unify_chain_represented [of w pm "source_handles src" w' "{}"] assms by blast
qed



lemma other_memory_inv:
  assumes inv: "defs_inv w" and pm: "pm \<noteq> 0"
  shows "defs_inv (w\<lparr>memory := (memory w)(pm := ds)\<rparr>)" (is "defs_inv ?w")
proof -
  have d: "deref ?w 0 h = deref w 0 h" for h using pm by (simp add: deref_def)
  have mgr: "get_manager ?w m = get_manager w m" for m by (cases m) (simp_all add: get_manager_def)
  have "entry_ok ?w k en = entry_ok w k en" for k en
    by (simp add: entry_ok_def enumerates_def holds_definition_def buckets_ok_def in_bucket_def no_repetition_def d)
  moreover have hi: "hash_items_from ?w xs v = hash_items_from w xs v" for xs v
  proof (induction xs arbitrary: v)
    case (Cons x xs)
    then show ?case using pm by (cases x) (simp_all add: deref_def)
  qed simp
  have "hashes_ok ?w"
    unfolding hashes_ok_def
  proof (intro allI impI, elim conjE)
    fix h a assume a: "deref ?w 0 h = Some a" "kind_of (content a) \<in> always_hashed"
    then have "hash_content w (content a) = Some (def_hash a)" using inv by (simp add: defs_inv_def hashes_ok_def d)
    then show "hash_content ?w (content a) = Some (def_hash a)"
      using hi hash_items_static [OF a(2), of ?w w] by (simp add: hash_content_def)
  qed
  ultimately show ?thesis using inv by (simp add: defs_inv_def defs_ok_def tables_ok_def mgr)
qed

lemma unify_string_total:
  assumes "defs_inv w" "unified_manager w \<noteq> None" "deref w pm h = Some d" "content d = String x"
  shows "\<exists>w'. unify_definition w pm h = Some w'"
  using new_string_total [OF assms(1), of UnifiedManager _ "string_data x"] assms(2,3,4)
  by (force simp: unify_definition_def unify_string_def get_manager_def)

text \<open>The witness: the unified manager of another process with two strings was received.\<close>

definition received_strings :: manager where
  "received_strings = (InitializeDefinitionManager False)(KString := init_entry\<lparr>chain := [1, 2], counter := 2\<rparr>)"


end
