(* ===== verification/Scorep_Unify_Mapping.thy ===== *)
theory Scorep_Unify_Mapping
  imports Scorep_Unify_Props
begin

text \<open>
  The mappings that unification of this process makes: from the sequence number of a local definition to that of
  the definition that stands for it in the unified manager.
\<close>

section \<open>One mapping\<close>

text \<open>The sequence number a definition is mapped to, and the one at a position after a walk.\<close>

definition unified_number :: "defs \<Rightarrow> nat \<Rightarrow> handle \<Rightarrow> u32" where
  "unified_number w pm h = (case deref w 0 (unified_of w pm h) of None \<Rightarrow> -1 | Some u \<Rightarrow> sequence_number u)"

lemma unified_number_none [simp]: "deref w pm h = Some d \<Longrightarrow> unified d = 0 \<Longrightarrow> unified_number w pm h = -1"
  by (auto simp: unified_number_def unified_of_def deref_def split: if_splits)

lemma unified_number_some [simp]:
  "h \<noteq> 0 \<Longrightarrow> deref w pm h = Some d \<Longrightarrow> deref w 0 (unified d) = Some u \<Longrightarrow> unified_number w pm h = sequence_number u"
  by (simp add: unified_number_def unified_of_def)

lemma deref_not_null: "deref w pm h = Some d \<Longrightarrow> h \<noteq> 0"
  by (auto simp: deref_def split: if_splits)

lemma assign_mapping_walk:
  assumes "assign_mapping w pm hs mp = Some mp'"
    and "\<And>i. i < length hs \<Longrightarrow> \<exists>d. deref w pm (hs ! i) = Some d \<and> unat (sequence_number d) = n + i"
    and "\<And>i. i < length hs \<Longrightarrow> mp ! (n + i) = -1" "n + length hs \<le> length mp"
  shows "length mp' = length mp \<and> (\<forall>i<n. mp' ! i = mp ! i) \<and> (\<forall>i<length hs. mp' ! (n + i) = unified_number w pm (hs ! i))"
  using assms
proof (induction hs arbitrary: mp n)
  case (Cons h hs)
  obtain d where d: "deref w pm h = Some d" "unat (sequence_number d) = n" using Cons.prems(2) [of 0] by auto
  have seq: "\<exists>a. deref w pm (hs ! i) = Some a \<and> unat (sequence_number a) = Suc n + i" if "i < length hs" for i
    using Cons.prems(2) [of "Suc i"] that by simp
  have later: "mp ! (Suc n + i) = -1" if "i < length hs" for i using Cons.prems(3) [of "Suc i"] that by simp
  obtain mp1 where mp1: "assign_mapping w pm hs mp1 = Some mp'" "mp1 = mp[n := unified_number w pm h]"
  proof (cases "unified d = 0")
    case True
    then have "mp[n := unified_number w pm h] = mp" using Cons.prems(3) [of 0] d Cons.prems(4) by (simp add: list_update_same_conv)
    then show ?thesis using that Cons.prems(1) True d by simp
  next
    case False
    then show ?thesis using that Cons.prems(1) d deref_not_null [OF d(1)] by (auto simp: bind_Some_iff abort_simps)
  qed
  have ih: "length mp' = length mp1 \<and> (\<forall>i<Suc n. mp' ! i = mp1 ! i)
      \<and> (\<forall>i<length hs. mp' ! (Suc n + i) = unified_number w pm (hs ! i))"
    by (rule Cons.IH [OF mp1(1)]) (use seq later Cons.prems(4) mp1(2) in auto)
  show ?case
  proof (intro conjI allI impI)
    show "mp' ! (n + i) = unified_number w pm ((h # hs) ! i)" if "i < length (h # hs)" for i
      using that ih mp1(2) Cons.prems(4) by (cases i) auto
  qed (use ih mp1(2) in auto)
qed simp

lemma assign_mapping_new:
  assumes "assign_mapping w 0 (chain e) (mapping (alloc_mapping e)) = Some mp" and e: "enumerates w k e"
    and small: "length (chain e) < 2 ^ 32" and i: "i < length (chain e)"
  shows "mp ! i = unified_number w 0 (chain e ! i)"
proof -
  have n: "unat (of_nat j :: u32) = j" if "j \<le> length (chain e)" for j
    using that small by (simp add: unat_of_nat take_bit_nat_eq_self)
  have seq: "\<exists>d. deref w 0 (chain e ! j) = Some d \<and> unat (sequence_number d) = 0 + j" if "j < length (chain e)" for j
    using e that n [of j] by (auto simp: enumerates_def holds_definition_def)
  have "mapping (alloc_mapping e) = replicate (length (chain e)) (-1)"
    using e n [of "length (chain e)"] by (simp add: alloc_mapping_def enumerates_def)
  then have "\<forall>j<length (chain e). mp ! (0 + j) = unified_number w 0 (chain e ! j)"
    using assign_mapping_walk [OF assms(1) seq] by simp
  then show ?thesis using i by simp
qed

section \<open>All mappings\<close>

lemma assign_mappings_other: "assign_mappings w pm ks mgr = Some mgr' \<Longrightarrow> k \<notin> set ks \<Longrightarrow> mgr' k = mgr k"
  by (induction ks arbitrary: mgr) (auto simp: bind_Some_iff)

lemma assign_mappings_chain: "assign_mappings w pm ks mgr = Some mgr' \<Longrightarrow> chain (mgr' k) = chain (mgr k)"
  by (induction ks arbitrary: mgr) (fastforce simp: bind_Some_iff split: if_splits)+

lemma assign_mappings_at:
  assumes "assign_mappings w pm ks mgr = Some mgr'" "k \<in> set ks" "distinct ks" "counter (mgr k) > 0"
  shows "assign_mapping w pm (chain (mgr k)) (mapping (mgr k)) = Some (mapping (mgr' k))"
  using assms
proof (induction ks arbitrary: mgr)
  case (Cons x ks)
  obtain mp where mp: "(if counter (mgr x) > 0 then assign_mapping w pm (chain (mgr x)) (mapping (mgr x)) else Some (mapping (mgr x)))
      = Some mp" "assign_mappings w pm ks (mgr(x := (mgr x)\<lparr>mapping := mp\<rparr>)) = Some mgr'"
    using Cons.prems(1) by (auto simp: bind_Some_iff)
  show ?case
  proof (cases "x = k")
    case True
    then show ?thesis using mp assign_mappings_other [OF mp(2), of k] Cons.prems by simp
  next
    case False
    then show ?thesis using Cons.IH [OF mp(2)] Cons.prems by simp
  qed
qed simp

lemma distinct_mapped_kinds: "distinct mapped_kinds"
  by (simp add: mapped_kinds_def)

lemma mappings_assigned:
  assumes a: "AssignDefinitionMappingsFromUnified w 0 (CreateDefinitionMappings mgr) = Some mgr'"
    and e: "enumerates w k (mgr k)" and k: "k \<in> set mapped_kinds" and small: "length (chain (mgr k)) < 2 ^ 32"
    and i: "i < length (chain (mgr k))"
  shows "mapping (mgr' k) ! i = unified_number w 0 (chain (mgr k) ! i)"
proof -
  have c: "CreateDefinitionMappings mgr k = alloc_mapping (mgr k)" using k by (simp add: CreateDefinitionMappings_def)
  have "counter (mgr k) = of_nat (length (chain (mgr k)))" using e by (simp add: enumerates_def)
  then have "unat (counter (mgr k)) = length (chain (mgr k))" using small by (simp add: unat_of_nat take_bit_nat_eq_self)
  then have "unat (counter (mgr k)) \<noteq> 0" using i by linarith
  then have "counter (CreateDefinitionMappings mgr k) > 0"
    by (cases "counter (mgr k) = 0") (simp_all add: c alloc_mapping_def word_gt_0)
  then have "assign_mapping w 0 (chain (mgr k)) (mapping (alloc_mapping (mgr k))) = Some (mapping (mgr' k))"
    using assign_mappings_at [OF a [unfolded AssignDefinitionMappingsFromUnified_def] k distinct_mapped_kinds] c
    by (simp add: alloc_mapping_def)
  then show ?thesis using e small i by (rule assign_mapping_new)
qed

section \<open>Local unification\<close>

lemma step_of_local: "step_of w pm h w' \<Longrightarrow> local_manager w' = local_manager w"
  by (auto simp: step_of_def grows_def set_unified_def update_object_def)

lemma unify_chain_local:
  "unify_chain w pm hs = Some w' \<Longrightarrow> defs_inv w \<Longrightarrow> local_manager w' = local_manager w \<and> defs_inv w'"
proof (induction hs arbitrary: w)
  case (Cons h hs)
  obtain w1 where w1: "unify_definition w pm h = Some w1" "unify_chain w1 pm hs = Some w'"
    using Cons.prems(1) by (auto simp: bind_Some_iff)
  then obtain d where d: "deref w pm h = Some d" by (auto simp: unify_definition_def bind_Some_iff)
  have st: "step_of w pm h w1" by (rule unify_definition_step [OF d w1(1) Cons.prems(2)])
  show ?case using Cons.IH [OF w1(2) step_of_inv [OF st d]] step_of_local [OF st] by simp
qed simp


lemma assign_mappings_total:
  "(\<And>k. k \<in> set ks \<Longrightarrow> counter (mgr k) > 0 \<Longrightarrow> \<exists>mp. assign_mapping w pm (chain (mgr k)) (mapping (mgr k)) = Some mp)
    \<Longrightarrow> distinct ks \<Longrightarrow> \<exists>mgr'. assign_mappings w pm ks mgr = Some mgr'"
proof (induction ks arbitrary: mgr)
  case (Cons x ks)
  obtain mp where mp: "(if counter (mgr x) > 0 then assign_mapping w pm (chain (mgr x)) (mapping (mgr x)) else Some (mapping (mgr x)))
      = Some mp"
    using Cons.prems(1) [of x] by (cases "counter (mgr x) > 0") auto
  have "\<exists>mgr'. assign_mappings w pm ks (mgr(x := (mgr x)\<lparr>mapping := mp\<rparr>)) = Some mgr'"
    by (rule Cons.IH) (use Cons.prems in \<open>auto split: if_splits\<close>)
  then show ?case using mp by simp
qed simp

text \<open>The local manager after initialisation holds the empty string.\<close>

lemma initialized_manager:
  "\<exists>w d. defs_inv w \<and> unified_manager w = None \<and> deref w 0 1 = Some d \<and> content d = String (StringDef [])
     \<and> (\<forall>k. chain (local_manager w k) = (if k = KString then [1] else [])
          \<and> counter (local_manager w k) = (if k = KString then 1 else 0))"
proof -
  let ?w = "empty_defs\<lparr>local_manager := InitializeDefinitionManager False\<rparr>"
  let ?c = "String (StringDef []) :: handle def_content" and ?m = "InitializeDefinitionManager False"
  have e: "InitializeDefinitionManager False k = (if k \<in> always_hashed then hashed_entry else init_entry)" for k
    by (simp add: InitializeDefinitionManager_def)
  have h: "hashed_entry = init_entry\<lparr>hash_table := Some (\<lambda>_. []), hash_table_mask := 255\<rparr>"
    by (simp add: hashed_entry_def alloc_hash_table_def DEFAULT_HASH_TABLE_POWER_def init_entry_def)
  obtain w where w: "Definitions_Initialize empty_defs = Some w" "defs_inv w" "unified_manager w = None"
    using empty_initialized by blast
  let ?d = "(init_header ?c)\<lparr>def_hash := jenkins_hash [] 0\<rparr>"
  have "add_to_entry ?w LocalManager KString same_definition ?d = Some (1, True, added ?w LocalManager KString ?m ?d)"
    using add_to_entry_new [of ?w LocalManager ?m KString ?d same_definition]
    by (simp add: get_manager_def bucket_of_def e h empty_defs_def init_entry_def always_hashed_def)
  then have "w = announce 1 KString (added ?w LocalManager KString ?m ?d)"
    using w(1) by (simp add: Definitions_Initialize_def new_string_def new_string_generator_def define_announced_def
        add_definition_def hash_content_def hash_items_def hash_string_def kind_of_def)
  then have "deref w 0 1 = Some (?d\<lparr>sequence_number := 0\<rparr>) \<and> (\<forall>k. chain (local_manager w k) = (if k = KString then [1] else [])
      \<and> counter (local_manager w k) = (if k = KString then 1 else 0))"
    by (simp add: announce_def linked_def set_manager_def deref_def arr_get_def empty_defs_def e h init_entry_def always_hashed_def)
  then show ?thesis using w(2,3) by (intro exI [of _ w] exI) (auto simp: init_header_def)
qed


end
