(* ===== verification/Scorep_Unify_Finish.thy ===== *)
theory Scorep_Unify_Finish
  imports Scorep_Unify Scorep_Hashtab Scorep_Definitions_Results
begin

text \<open>
  The steps of \<open>SCOREP_Unify\<close> around the unification of the definitions, \<open>src/src/measurement/scorep_unify.c\<close>:
  references to interim communicators are replaced by the final ones before, missing names are filled in and the
  groups of regions are made on rank 0 after it. The groups are collected in a hash table whose keys are the
  name of the group and the paradigm.
\<close>

section \<open>Interim communicators\<close>

definition interim_reference :: "handle def_content \<Rightarrow> handle" where
  "interim_reference c = (case c of
     RmaWindow d \<Rightarrow> window_communicator d | CartesianTopology d \<Rightarrow> topology_communicator d | IoHandle d \<Rightarrow> ioh_scope d | _ \<Rightarrow> 0)"

definition with_communicator :: "handle \<Rightarrow> handle def_content \<Rightarrow> handle def_content" where
  "with_communicator u c = (case c of
     RmaWindow (RmaWindowDef n _ i df f) \<Rightarrow> RmaWindow (RmaWindowDef n u i df f)
   | CartesianTopology (TopologyDef n _ t ds) \<Rightarrow> CartesianTopology (TopologyDef n u t ds)
   | IoHandle (IoHandleDef n f p fl _ pa k a s cp) \<Rightarrow> IoHandle (IoHandleDef n f p fl u pa k a s cp)
   | _ \<Rightarrow> c)"

fun resolve_chain :: "defs \<Rightarrow> handle list \<Rightarrow> defs option" where
  "resolve_chain w [] = Some w"
| "resolve_chain w (h # hs) = do {
     d \<leftarrow> deref w 0 h;
     (if interim_reference (content d) = 0 then resolve_chain w hs
      else do {
        c \<leftarrow> deref w 0 (interim_reference (content d));
        assertC (unified c \<noteq> 0);
        let new = with_communicator (unified c) (content d);
        v \<leftarrow> hash_content w new;
        resolve_chain (update_object w 0 h (\<lambda>d. d\<lparr>content := new, def_hash := v\<rparr>)) hs
      })
   }"

definition resolve_kind :: "defs \<Rightarrow> def_kind \<Rightarrow> defs option" where
  "resolve_kind w k = do {
     assertC (hash_table (local_manager w k) = None);
     resolve_chain w (chain (local_manager w k))
   }"

definition resolve_interim_definitions :: "defs \<Rightarrow> defs option" where
  "resolve_interim_definitions w = do {
     w \<leftarrow> resolve_kind w KRmaWindow;
     w \<leftarrow> resolve_kind w KCartesianTopology;
     resolve_kind w KIoHandle
   }"

text \<open>\<open>scorep_unify_helper_create_interim_comm_mapping\<close>, from \<open>scorep_unify_helpers.c\<close>.\<close>

fun interim_comm_mapping :: "defs \<Rightarrow> u32 list \<Rightarrow> handle list \<Rightarrow> u32 list \<Rightarrow> u32 list option" where
  "interim_comm_mapping w comm_mapping [] mp = Some mp"
| "interim_comm_mapping w comm_mapping (h # hs) mp = do {
     d \<leftarrow> deref w 0 h;
     assertC (unified d \<noteq> 0);
     u \<leftarrow> deref w 0 (unified d);
     x \<leftarrow> arr_get comm_mapping (unat (sequence_number u));
     mp \<leftarrow> arr_set mp (unat (sequence_number d)) x;
     interim_comm_mapping w comm_mapping hs mp
   }"

definition create_interim_comm_mapping :: "defs \<Rightarrow> defs option" where
  "create_interim_comm_mapping w = do {
     let e = local_manager w KInterimCommunicator;
     mp \<leftarrow> interim_comm_mapping w (mapping (local_manager w KCommunicator)) (chain e) (mapping e);
     Some (w\<lparr>local_manager := (local_manager w)(KInterimCommunicator := e\<lparr>mapping := mp\<rparr>)\<rparr>)
   }"

section \<open>Missing names\<close>

definition name_if_missing :: "handle \<Rightarrow> handle def_content \<Rightarrow> handle def_content" where
  "name_if_missing e c = (case c of
     Group (GroupDef t n ms) \<Rightarrow> if n \<noteq> 0 then c else Group (GroupDef t e ms)
   | Communicator (CommunicatorDef a b n p k f) \<Rightarrow> if n \<noteq> 0 then c else Communicator (CommunicatorDef a b e p k f)
   | RmaWindow (RmaWindowDef n cm i df f) \<Rightarrow> if n \<noteq> 0 then c else RmaWindow (RmaWindowDef e cm i df f)
   | _ \<Rightarrow> c)"

fun name_chain :: "handle \<Rightarrow> defs \<Rightarrow> handle list \<Rightarrow> defs option" where
  "name_chain e w [] = Some w"
| "name_chain e w (h # hs) = do {
     d \<leftarrow> deref w 0 h;
     name_chain e (update_object w 0 h (\<lambda>d. d\<lparr>content := name_if_missing e (content d)\<rparr>)) hs
   }"

definition assign_empty_string_to_names :: "handle \<Rightarrow> defs \<Rightarrow> defs option" where
  "assign_empty_string_to_names e w = do {
     m \<leftarrow> unified_manager w;
     w \<leftarrow> name_chain e w (chain (m KGroup));
     w \<leftarrow> name_chain e w (chain (m KCommunicator));
     name_chain e w (chain (m KRmaWindow))
   }"

section \<open>Region groups\<close>

type_synonym region_group_key = "string \<times> u32"

definition hash_region_group_key :: "region_group_key \<Rightarrow> u64" where
  "hash_region_group_key k =
     ucast (jenkins_hash (le_bytes 4 (unat (snd k))) (jenkins_hash (map of_char (c_str (fst k))) 0))"

definition compare_region_group_key :: "region_group_key \<Rightarrow> region_group_key \<Rightarrow> int" where
  "compare_region_group_key a b =
     (let result = strcmp (c_str (fst a)) (c_str (fst b))
      in if result \<noteq> 0 then result else if snd a = snd b then 0 else 1)"

text \<open>A region has a handle of 32 bits, so the 32-bit counters of a group cannot wrap; they are natural numbers here.\<close>

record region_group =
  group_key :: region_group_key
  number_of_regions :: nat
  current_pos :: nat
  region_handles :: "handle list"

type_synonym group_table = "(region_group_key, nat) hashtab"

text \<open>The key of the group that a region wants to be in, if any.\<close>

definition wanted_group :: "defs \<Rightarrow> handle \<Rightarrow> region_group_key option option" where
  "wanted_group w h = do {
     d \<leftarrow> deref w 0 h;
     (case content d of
        Region r \<Rightarrow>
          (if region_group r = 0 then Some None
           else do {
             s \<leftarrow> deref w 0 (region_group r);
             (case content s of String x \<Rightarrow> Some (Some (string_data x, region_paradigm r)) | _ \<Rightarrow> None)
           })
      | _ \<Rightarrow> None)
   }"

text \<open>The values of the table point to the groups; a new one is behind all others.\<close>

fun count_regions :: "defs \<Rightarrow> handle list \<Rightarrow> region_group list \<Rightarrow> group_table \<Rightarrow> (region_group list \<times> group_table) option" where
  "count_regions w [] gs t = Some (gs, t)"
| "count_regions w (h # hs) gs t = do {
     k \<leftarrow> wanted_group w h;
     (case k of
        None \<Rightarrow> count_regions w hs gs t
      | Some key \<Rightarrow> do {
          (entry, hash_hint) \<leftarrow> Hashtab_Find t key;
          (g, gs, t) \<leftarrow> (case entry of
             Some item \<Rightarrow> Some (item_value item, gs, t)
           | None \<Rightarrow> do {
               (e, t) \<leftarrow> Hashtab_Insert True t key (length gs) (Some hash_hint);
               Some (length gs,
                     gs @ [\<lparr>group_key = key, number_of_regions = 0, current_pos = 0, region_handles = []\<rparr>], t)
             });
          x \<leftarrow> arr_get gs g;
          count_regions w hs (gs[g := x\<lparr>number_of_regions := Suc (number_of_regions x)\<rparr>]) t
        })
   }"

fun alloc_arrays :: "(region_group_key, nat) listitem list \<Rightarrow> region_group list \<Rightarrow> region_group list option" where
  "alloc_arrays [] gs = Some gs"
| "alloc_arrays (item # items) gs = do {
     x \<leftarrow> arr_get gs (item_value item);
     alloc_arrays items (gs[item_value item := x\<lparr>region_handles := replicate (number_of_regions x) 0\<rparr>])
   }"

fun fill_groups :: "defs \<Rightarrow> handle list \<Rightarrow> group_table \<Rightarrow> region_group list \<Rightarrow> region_group list option" where
  "fill_groups w [] t gs = Some gs"
| "fill_groups w (h # hs) t gs = do {
     k \<leftarrow> wanted_group w h;
     (case k of
        None \<Rightarrow> fill_groups w hs t gs
      | Some key \<Rightarrow> do {
          (entry, hash_hint) \<leftarrow> Hashtab_Find t key;
          item \<leftarrow> entry;
          x \<leftarrow> arr_get gs (item_value item);
          hd \<leftarrow> arr_set (region_handles x) (current_pos x) h;
          fill_groups w hs t (gs[item_value item := x\<lparr>region_handles := hd, current_pos := Suc (current_pos x)\<rparr>])
        })
   }"

definition SCOREP_GROUP_REGIONS :: u32 where "SCOREP_GROUP_REGIONS = 2"

fun define_groups :: "(region_group_key, nat) listitem list \<Rightarrow> region_group list \<Rightarrow> defs \<Rightarrow> defs option" where
  "define_groups [] gs w = Some w"
| "define_groups (item # items) gs w = do {
     x \<leftarrow> arr_get gs (item_value item);
     (h, w) \<leftarrow> NewUnifiedGroupFrom32 w SCOREP_GROUP_REGIONS (Some (fst (group_key x)))
       (map of_nat (take (number_of_regions x) (region_handles x)));
     define_groups items gs w
   }"

definition create_region_groups :: "defs \<Rightarrow> defs option" where
  "create_region_groups w = do {
     m \<leftarrow> unified_manager w;
     t \<leftarrow> Hashtab_CreateSize True 8 hash_region_group_key compare_region_group_key;
     t \<leftarrow> t;
     (gs, t) \<leftarrow> count_regions w (chain (m KRegion)) [] t;
     items \<leftarrow> Hashtab_Foreach t;
     gs \<leftarrow> alloc_arrays items gs;
     gs \<leftarrow> fill_groups w (chain (m KRegion)) t gs;
     define_groups items gs w
   }"

section \<open>The whole\<close>

text \<open>What the subsystems do before and after, and the unification with the other processes, are parameters.\<close>

definition SCOREP_Unify ::
    "(defs \<Rightarrow> defs option) \<Rightarrow> (defs \<Rightarrow> defs option) \<Rightarrow> (defs \<Rightarrow> defs option) \<Rightarrow> bool \<Rightarrow> nat \<Rightarrow> defs \<Rightarrow> defs option" where
  "SCOREP_Unify pre_unify unify_mpp post_unify is_mpp rank w = do {
     w \<leftarrow> Unify_CreateUnifiedDefinitionManager w;
     (empty_string, w) \<leftarrow> new_string w UnifiedManager [];
     w \<leftarrow> pre_unify w;
     w \<leftarrow> resolve_interim_definitions w;
     w \<leftarrow> Unify_Locally w;
     w \<leftarrow> (if is_mpp then unify_mpp w else Some w);
     w \<leftarrow> create_interim_comm_mapping w;
     w \<leftarrow> post_unify w;
     (if rank = 0
      then do {
        w \<leftarrow> assign_empty_string_to_names empty_string w;
        create_region_groups w
      }
      else Some w)
   }"

section \<open>The table of groups\<close>

lemma compare_0: "compare_region_group_key a b = 0 \<longleftrightarrow> c_str (fst a) = c_str (fst b) \<and> snd a = snd b"
  by (simp add: compare_region_group_key_def Let_def strcmp_0)

interpretation group_tables: hash_key hash_region_group_key compare_region_group_key
  by unfold_locales (auto simp: compare_0 hash_region_group_key_def)

definition plain_key :: "region_group_key \<Rightarrow> bool" where
  "plain_key k \<longleftrightarrow> CHR 0x00 \<notin> set (fst k)"

lemma plain_c_str: "plain_key k \<Longrightarrow> c_str (fst k) = fst k"
  by (auto simp: plain_key_def c_str_def takeWhile_eq_all_conv)

lemma compare_plain: "plain_key a \<Longrightarrow> plain_key b \<Longrightarrow> compare_region_group_key a b = 0 \<longleftrightarrow> a = b"
  by (auto simp: compare_0 plain_c_str prod_eq_iff)

text \<open>The table leads from every key of a group to the position of the group.\<close>

definition groups_ok :: "region_group list \<Rightarrow> group_table \<Rightarrow> bool" where
  "groups_ok gs t \<longleftrightarrow> tab_inv hash_region_group_key compare_region_group_key t \<and> size_ok t \<and> length (items_of t) = length gs \<and>
     (\<forall>item \<in> set (items_of t). item_value item < length gs \<and> group_key (gs ! item_value item) = item_key item) \<and>
     distinct (map group_key gs) \<and> (\<forall>g \<in> set gs. plain_key (group_key g))"

text \<open>Operations that keep the keys keep this.\<close>

lemma groups_ok_update:
  assumes "groups_ok gs t" "map group_key gs' = map group_key gs"
  shows "groups_ok gs' t"
proof -
  have "length gs' = length gs" using assms(2) by (rule map_eq_imp_length_eq)
  moreover from this have "group_key (gs' ! i) = group_key (gs ! i)" if "i < length gs" for i
    using that arg_cong [OF assms(2), of "\<lambda>xs. xs ! i"] by simp
  moreover have "(\<forall>g \<in> set gs'. plain_key (group_key g)) = (\<forall>k \<in> set (map group_key gs'). plain_key k)" by simp
  ultimately show ?thesis using assms unfolding groups_ok_def by auto
qed

lemma item_keys:
  assumes "groups_ok gs t"
  shows "distinct (map item_value (items_of t))" "set (map item_value (items_of t)) = {..<length gs}"
    "distinct (map item_key (items_of t))" "set (map item_key (items_of t)) = group_key ` set gs"
proof -
  let ?is = "items_of t"
  have ok: "length ?is = length gs" "\<And>item. item \<in> set ?is \<Longrightarrow> item_value item < length gs \<and> group_key (gs ! item_value item) = item_key item"
    "sorted_wrt (\<lambda>a b. compare_region_group_key (item_key a) (item_key b) \<noteq> 0) ?is" "\<And>g. g \<in> set gs \<Longrightarrow> plain_key (group_key g)"
    using assms by (auto simp: groups_ok_def tab_inv_def)
  show d: "distinct (map item_key ?is)"
    unfolding distinct_conv_nth
  proof (intro allI impI)
    have ne: "item_key (?is ! i) \<noteq> item_key (?is ! j)" if "i < j" "j < length ?is" for i j
    proof -
      have "compare_region_group_key (item_key (?is ! i)) (item_key (?is ! j)) \<noteq> 0"
        using ok(3) that by (simp add: sorted_wrt_iff_nth_less)
      then show ?thesis by (auto simp: compare_0)
    qed
    fix i j assume "i < length (map item_key ?is)" "j < length (map item_key ?is)" "i \<noteq> j"
    then show "map item_key ?is ! i \<noteq> map item_key ?is ! j" using ne [of i j] ne [of j i] by (cases "i < j") auto
  qed
  have k: "map item_key ?is = map (\<lambda>i. group_key (gs ! i)) (map item_value ?is)" using ok(2) by simp
  have "distinct (map (\<lambda>i. group_key (gs ! i)) (map item_value ?is))" using d unfolding k .
  then show dv: "distinct (map item_value ?is)" by (simp only: distinct_map)
  have "card (set (map item_value ?is)) = length gs" using distinct_card [OF dv] ok(1) by simp
  moreover have sub: "set (map item_value ?is) \<subseteq> {..<length gs}" using ok(2) by auto
  ultimately show sv: "set (map item_value ?is) = {..<length gs}" by (intro card_subset_eq) auto
  have "set (map item_key ?is) = (\<lambda>i. group_key (gs ! i)) ` {..<length gs}" unfolding k set_map sv [unfolded set_map] ..
  then show "set (map item_key ?is) = group_key ` set gs" by (auto simp: set_conv_nth image_iff)
qed

lemma find_group:
  assumes ok: "groups_ok gs t" and k: "plain_key k"
  shows "\<exists>e. Hashtab_Find t k = Some (e, hash_region_group_key k) \<and> (case e of None \<Rightarrow> k \<notin> group_key ` set gs
    | Some item \<Rightarrow> item_value item < length gs \<and> group_key (gs ! item_value item) = k)"
proof -
  have inv: "tab_ok t" "hash_fn t = hash_region_group_key" "kcmp_fn t = compare_region_group_key"
    and it: "\<And>item. item \<in> set (items_of t) \<Longrightarrow> item_value item < length gs \<and> group_key (gs ! item_value item) = item_key item"
    and plain: "\<And>g. g \<in> set gs \<Longrightarrow> plain_key (group_key g)"
    using ok by (auto simp: groups_ok_def tab_inv_def)
  have cmp: "compare_region_group_key k (item_key item) = 0 \<longleftrightarrow> item_key item = k" if "item \<in> set (items_of t)" for item
  proof -
    have "plain_key (item_key item)" using it [OF that] plain [of "gs ! item_value item"] nth_mem by metis
    then show ?thesis using compare_plain [OF k] by auto
  qed
  let ?e = "find (\<lambda>item. compare_region_group_key k (item_key item) = 0) (items_of t)"
  have "case ?e of None \<Rightarrow> k \<notin> group_key ` set gs
    | Some item \<Rightarrow> item_value item < length gs \<and> group_key (gs ! item_value item) = k"
  proof (cases ?e)
    case None
    then have "k \<notin> set (map item_key (items_of t))" using cmp by (auto simp: find_None_iff)
    then show ?thesis using None item_keys(4) [OF ok] by simp
  next
    case (Some item)
    then have "item \<in> set (items_of t)" "compare_region_group_key k (item_key item) = 0"
      by (auto simp: find_Some_iff in_set_conv_nth)
    then show ?thesis using Some cmp it by simp
  qed
  then show ?thesis using group_tables.find_items [OF inv, of k] by blast
qed

lemma insert_group:
  assumes ok: "groups_ok gs t" and k: "plain_key k" "k \<notin> group_key ` set gs" and g: "group_key g = k" and len: "Suc (length gs) < 2 ^ 64"
  shows "\<exists>e t'. Hashtab_Insert True t k (length gs) (Some (hash_region_group_key k)) = Some (e, t') \<and> groups_ok (gs @ [g]) t'"
proof -
  have inv: "tab_inv hash_region_group_key compare_region_group_key t" using ok by (simp add: groups_ok_def)
  obtain e where e: "Hashtab_Find t k = Some (e, hash_region_group_key k)" "case e of None \<Rightarrow> k \<notin> group_key ` set gs
    | Some item \<Rightarrow> item_value item < length gs \<and> group_key (gs ! item_value item) = k"
    using find_group [OF ok k(1)] by blast
  have "e = None"
  proof (cases e)
    case (Some item)
    then have "k \<in> group_key ` set gs" using e(2) by (auto intro: rev_image_eqI [OF nth_mem])
    then show ?thesis using k(2) by simp
  qed
  then have "hashtab_lookup t k = None" using e(1) by (simp add: hashtab_lookup_def)
  then obtain item t' where t': "Hashtab_Insert True t k (length gs) (Some (hash_region_group_key k)) = Some (Some item, t')"
    "tab_inv hash_region_group_key compare_region_group_key t'" "tab_items t' = tab_items t + 1"
    "mset (items_of t') = add_mset item (mset (items_of t))"
    using group_tables.insert_result [OF inv, of "Some (hash_region_group_key k)" k "length gs"] by auto
  have item: "item_key item = k" "item_value item = length gs"
    using t'(1) by (auto simp: Hashtab_Insert_def Let_def bind_Some_iff)
  have set: "set (items_of t') = insert item (set (items_of t))" using t'(4) by (metis set_mset_add_mset_insert set_mset_mset)
  have size: "length (items_of t') = Suc (length (items_of t))" using arg_cong [OF t'(4), of size] by simp
  have "groups_ok (gs @ [g]) t'"
    using ok t'(2,3) k g len unfolding groups_ok_def set size
    by (auto simp: item nth_append size_ok_def size)
  with t'(1) show ?thesis by blast
qed


section \<open>Counting and filling\<close>

definition in_group :: "defs \<Rightarrow> region_group_key \<Rightarrow> handle \<Rightarrow> bool" where
  "in_group w k h \<longleftrightarrow> wanted_group w h = Some (Some k)"

definition readable :: "defs \<Rightarrow> handle list \<Rightarrow> bool" where
  "readable w hs \<longleftrightarrow> (\<forall>h \<in> set hs. \<exists>k. wanted_group w h = Some k \<and> (\<forall>key. k = Some key \<longrightarrow> plain_key key))"

definition counted :: "defs \<Rightarrow> handle list \<Rightarrow> region_group list \<Rightarrow> bool" where
  "counted w hs gs \<longleftrightarrow> (\<forall>g \<in> set gs. number_of_regions g = length (filter (in_group w (group_key g)) hs) \<and> current_pos g = 0) \<and>
     group_key ` set gs = {k. \<exists>h \<in> set hs. in_group w k h}"

lemma in_group_unique: "in_group w a h \<Longrightarrow> in_group w b h \<Longrightarrow> a = b"
  by (simp add: in_group_def)

lemma key_position:
  assumes "distinct (map group_key gs)" "i < length gs" "j < length gs" "group_key (gs ! i) = group_key (gs ! j)"
  shows "i = j"
  using assms by (simp add: distinct_conv_nth) metis

lemma counted_more:
  assumes c: "counted w hs gs" and d: "distinct (map group_key gs)" and g: "g < length gs" "in_group w (group_key (gs ! g)) h"
  shows "counted w (hs @ [h]) (gs[g := (gs ! g)\<lparr>number_of_regions := Suc (number_of_regions (gs ! g))\<rparr>])" (is "counted _ _ ?gs")
proof -
  have key: "map group_key ?gs = map group_key gs" using g by (simp add: map_update list_update_same_conv)
  have other: "in_group w (group_key (gs ! i)) h \<longleftrightarrow> i = g" if "i < length gs" for i
    using key_position [OF d that g(1)] in_group_unique [OF _ g(2)] g(2) by blast
  have "number_of_regions (?gs ! i) = length (filter (in_group w (group_key (?gs ! i))) (hs @ [h])) \<and> current_pos (?gs ! i) = 0"
    if "i < length ?gs" for i
  proof -
    have i: "i < length gs" using that by simp
    have "number_of_regions (gs ! i) = length (filter (in_group w (group_key (gs ! i))) hs) \<and> current_pos (gs ! i) = 0"
      using c nth_mem [OF i] unfolding counted_def by blast
    then show ?thesis using i other [OF i] g(1) by (cases "i = g") auto
  qed
  moreover have "group_key ` set ?gs = {k. \<exists>h' \<in> set (hs @ [h]). in_group w k h'}"
  proof -
    have "group_key ` set ?gs = group_key ` set gs" using arg_cong [OF key, of set] by simp
    moreover have "in_group w k h \<Longrightarrow> k \<in> group_key ` set gs" for k
      using g by (auto simp: in_group_def intro: rev_image_eqI [OF nth_mem])
    ultimately show ?thesis using c by (auto simp: counted_def)
  qed
  ultimately show ?thesis unfolding counted_def by (auto simp: in_set_conv_nth)
qed

lemma count_regions_result:
  assumes "readable w hs" "groups_ok gs t" "counted w done_hs gs" "length gs + length hs < 2 ^ 64"
  shows "\<exists>gs' t'. count_regions w hs gs t = Some (gs', t') \<and> groups_ok gs' t' \<and> counted w (done_hs @ hs) gs'"
  using assms
proof (induction hs arbitrary: gs t done_hs)
  case (Cons h hs)
  have rd: "readable w hs" using Cons.prems(1) by (simp add: readable_def)
  obtain k where k: "wanted_group w h = Some k" "\<And>key. k = Some key \<Longrightarrow> plain_key key"
    using Cons.prems(1) by (auto simp: readable_def)
  show ?case
  proof (cases k)
    case None
    then have "counted w (done_hs @ [h]) gs" using Cons.prems(3) k by (auto simp: counted_def in_group_def)
    then show ?thesis using Cons.IH [OF rd Cons.prems(2), of "done_hs @ [h]"] Cons.prems(4) k None by simp
  next
    case (Some key)
    have ing: "in_group w key h" using k(1) Some by (simp add: in_group_def)
    obtain e where e: "Hashtab_Find t key = Some (e, hash_region_group_key key)" "case e of None \<Rightarrow> key \<notin> group_key ` set gs
      | Some item \<Rightarrow> item_value item < length gs \<and> group_key (gs ! item_value item) = key"
      using find_group [OF Cons.prems(2) k(2) [OF Some]] by blast
    have "\<exists>g gs1 t1. (case e of Some item \<Rightarrow> Some (item_value item, gs, t)
           | None \<Rightarrow> do {
               (e, t) \<leftarrow> Hashtab_Insert True t key (length gs) (Some (hash_region_group_key key));
               Some (length gs, gs @ [\<lparr>group_key = key, number_of_regions = 0, current_pos = 0, region_handles = []\<rparr>], t)
             }) = Some (g, gs1, t1) \<and> groups_ok gs1 t1 \<and> g < length gs1 \<and> group_key (gs1 ! g) = key \<and>
        counted w (done_hs @ [h]) (gs1[g := (gs1 ! g)\<lparr>number_of_regions := Suc (number_of_regions (gs1 ! g))\<rparr>]) \<and>
        length gs1 \<le> Suc (length gs)"
    proof (cases e)
      case None
      let ?g = "\<lparr>group_key = key, number_of_regions = 0, current_pos = 0, region_handles = []\<rparr>"
      have new: "key \<notin> group_key ` set gs" using e(2) None by simp
      obtain e' t1 where t1: "Hashtab_Insert True t key (length gs) (Some (hash_region_group_key key)) = Some (e', t1)"
        "groups_ok (gs @ [?g]) t1"
        using insert_group [OF Cons.prems(2) k(2) [OF Some] new, of ?g] Cons.prems(4) by auto
      have nog: "filter (in_group w key) done_hs = []"
        using Cons.prems(3) new by (auto simp: counted_def filter_empty_conv)
      have "counted w (done_hs @ [h]) ((gs @ [?g])[length gs := ?g\<lparr>number_of_regions := 1\<rparr>])"
      proof -
        have oth: "\<not> in_group w (group_key x) h" if "x \<in> set gs" for x
          using that new ing by (auto simp: in_group_def)
        then show ?thesis using Cons.prems(3) ing nog by (auto simp: counted_def in_group_def)
      qed
      then show ?thesis using None t1 by (intro exI [of _ "length gs"] exI [of _ "gs @ [?g]"] exI [of _ t1]) simp
    next
      case (Some item)
      have "distinct (map group_key gs)" using Cons.prems(2) by (simp add: groups_ok_def)
      then show ?thesis using Some e(2) counted_more [OF Cons.prems(3), of "item_value item" h] ing Cons.prems(2) by auto
    qed
    then obtain g gs1 t1 where g: "(case e of Some item \<Rightarrow> Some (item_value item, gs, t)
           | None \<Rightarrow> do {
               (e, t) \<leftarrow> Hashtab_Insert True t key (length gs) (Some (hash_region_group_key key));
               Some (length gs, gs @ [\<lparr>group_key = key, number_of_regions = 0, current_pos = 0, region_handles = []\<rparr>], t)
             }) = Some (g, gs1, t1)" "groups_ok gs1 t1" "g < length gs1" "group_key (gs1 ! g) = key"
        "counted w (done_hs @ [h]) (gs1[g := (gs1 ! g)\<lparr>number_of_regions := Suc (number_of_regions (gs1 ! g))\<rparr>])"
        "length gs1 \<le> Suc (length gs)" by blast
    let ?gs = "gs1[g := (gs1 ! g)\<lparr>number_of_regions := Suc (number_of_regions (gs1 ! g))\<rparr>]"
    have ok1: "groups_ok ?gs t1" by (rule groups_ok_update [OF g(2)]) (use g(3) in \<open>simp add: map_update list_update_same_conv\<close>)
    have room: "length ?gs + length hs < 2 ^ 64" using g(6) Cons.prems(4) by simp
    obtain gs' t' where "count_regions w hs ?gs t1 = Some (gs', t')" "groups_ok gs' t'" "counted w ((done_hs @ [h]) @ hs) gs'"
      using Cons.IH [OF rd ok1 g(5) room] by blast
    then show ?thesis using k(1) Some e(1) g(1,3) by simp
  qed
qed simp


lemma alloc_arrays_result:
  assumes "distinct (map item_value items)" "\<forall>item \<in> set items. item_value item < length gs"
  shows "\<exists>gs'. alloc_arrays items gs = Some gs' \<and> length gs' = length gs \<and>
    (\<forall>i < length gs. gs' ! i = (if i \<in> item_value ` set items then (gs ! i)\<lparr>region_handles := replicate (number_of_regions (gs ! i)) 0\<rparr> else gs ! i))"
  using assms
proof (induction items arbitrary: gs)
  case (Cons item items)
  let ?g = "item_value item"
  let ?gs = "gs[?g := (gs ! ?g)\<lparr>region_handles := replicate (number_of_regions (gs ! ?g)) 0\<rparr>]"
  obtain gs' where gs': "alloc_arrays items ?gs = Some gs'" "length gs' = length ?gs"
    "\<forall>i < length ?gs. gs' ! i = (if i \<in> item_value ` set items then (?gs ! i)\<lparr>region_handles := replicate (number_of_regions (?gs ! i)) 0\<rparr> else ?gs ! i)"
    using Cons.IH [of ?gs] Cons.prems by auto
  then have "\<forall>i < length gs. gs' ! i = (if i \<in> item_value ` set (item # items) then (gs ! i)\<lparr>region_handles := replicate (number_of_regions (gs ! i)) 0\<rparr> else gs ! i)"
    using Cons.prems by (auto simp: nth_list_update)
  then show ?case using gs' Cons.prems by simp
qed simp

definition filled :: "defs \<Rightarrow> handle list \<Rightarrow> handle list \<Rightarrow> region_group list \<Rightarrow> bool" where
  "filled w done_hs all_hs gs \<longleftrightarrow> (\<forall>g \<in> set gs. number_of_regions g = length (filter (in_group w (group_key g)) all_hs) \<and>
     current_pos g = length (filter (in_group w (group_key g)) done_hs) \<and>
     region_handles g = filter (in_group w (group_key g)) done_hs @ replicate (number_of_regions g - current_pos g) 0)"

lemma fill_groups_result:
  assumes "readable w hs" "groups_ok gs t" "filled w done_hs (done_hs @ hs) gs" "\<forall>k. (\<exists>h \<in> set hs. in_group w k h) \<longrightarrow> k \<in> group_key ` set gs"
  shows "\<exists>gs'. fill_groups w hs t gs = Some gs' \<and> map group_key gs' = map group_key gs \<and> filled w (done_hs @ hs) (done_hs @ hs) gs'"
  using assms
proof (induction hs arbitrary: gs done_hs)
  case (Cons h hs)
  have rd: "readable w hs" using Cons.prems(1) by (simp add: readable_def)
  have keys: "\<forall>k. (\<exists>h \<in> set hs. in_group w k h) \<longrightarrow> k \<in> group_key ` set gs" using Cons.prems(4) by auto
  obtain k where k: "wanted_group w h = Some k" "\<And>key. k = Some key \<Longrightarrow> plain_key key"
    using Cons.prems(1) by (auto simp: readable_def)
  show ?case
  proof (cases k)
    case None
    then have "filled w (done_hs @ [h]) ((done_hs @ [h]) @ hs) gs" using Cons.prems(3) k by (simp add: filled_def in_group_def)
    then show ?thesis using Cons.IH [OF rd Cons.prems(2) _ keys, of "done_hs @ [h]"] k None by simp
  next
    case (Some key)
    have ing: "in_group w key h" using k(1) Some by (simp add: in_group_def)
    obtain e where e: "Hashtab_Find t key = Some (e, hash_region_group_key key)" "case e of None \<Rightarrow> key \<notin> group_key ` set gs
      | Some item \<Rightarrow> item_value item < length gs \<and> group_key (gs ! item_value item) = key"
      using find_group [OF Cons.prems(2) k(2) [OF Some]] by blast
    have "key \<in> group_key ` set gs" using Cons.prems(4) ing by (meson list.set_intros(1))
    then obtain item where item: "e = Some item" "item_value item < length gs" "group_key (gs ! item_value item) = key"
      using e(2) by (cases e) auto
    let ?g = "item_value item" and ?x = "gs ! item_value item"
    have x: "number_of_regions ?x = length (filter (in_group w key) (done_hs @ h # hs))"
      "current_pos ?x = length (filter (in_group w key) done_hs)"
      "region_handles ?x = filter (in_group w key) done_hs @ replicate (number_of_regions ?x - current_pos ?x) 0"
      using Cons.prems(3) nth_mem [OF item(2)] item(3) unfolding filled_def by auto
    let ?new = "?x\<lparr>region_handles := (region_handles ?x)[current_pos ?x := h], current_pos := Suc (current_pos ?x)\<rparr>"
    have room: "current_pos ?x < length (region_handles ?x)" using x ing by simp
    have new: "region_handles ?new = filter (in_group w key) (done_hs @ [h]) @ replicate (number_of_regions ?new - current_pos ?new) 0"
      using x ing by simp
    have other: "in_group w (group_key (gs ! i)) h \<longleftrightarrow> i = ?g" if "i < length gs" for i
    proof -
      have "distinct (map group_key gs)" using Cons.prems(2) by (simp add: groups_ok_def)
      then show ?thesis using key_position [OF _ that item(2)] item(3) ing in_group_unique [OF _ ing] by metis
    qed
    have map: "map group_key (gs[?g := ?new]) = map group_key gs" using item by (simp add: map_update list_update_same_conv)
    have ok: "groups_ok (gs[?g := ?new]) t" by (rule groups_ok_update [OF Cons.prems(2) map])
    have "filled w (done_hs @ [h]) ((done_hs @ [h]) @ hs) (gs[?g := ?new])"
      unfolding filled_def
    proof
      fix y assume "y \<in> set (gs[?g := ?new])"
      then obtain i where i: "i < length gs" "y = gs[?g := ?new] ! i" by (auto simp: in_set_conv_nth)
      show "number_of_regions y = length (filter (in_group w (group_key y)) ((done_hs @ [h]) @ hs)) \<and>
        current_pos y = length (filter (in_group w (group_key y)) (done_hs @ [h])) \<and>
        region_handles y = filter (in_group w (group_key y)) (done_hs @ [h]) @ replicate (number_of_regions y - current_pos y) 0"
      proof (cases "i = ?g")
        case True
        then have "y = ?new" using i by simp
        then show ?thesis using x(1,2) new ing item(3) by simp
      next
        case False
        then have "y = gs ! i" "\<not> in_group w (group_key y) h" using i other [of i] by simp_all
        then show ?thesis using Cons.prems(3) i(1) by (simp add: filled_def)
      qed
    qed
    moreover have "\<forall>k. (\<exists>h \<in> set hs. in_group w k h) \<longrightarrow> k \<in> group_key ` set (gs[?g := ?new])"
      using keys arg_cong [OF map, of set] by simp
    ultimately obtain gs' where "fill_groups w hs t (gs[?g := ?new]) = Some gs'" "map group_key gs' = map group_key gs"
        "filled w ((done_hs @ [h]) @ hs) ((done_hs @ [h]) @ hs) gs'"
      using Cons.IH [OF rd ok] map by metis
    then show ?thesis using k(1) Some e(1) item room by simp
  qed
qed (auto simp: filled_def)

text \<open>Making the groups from their keys and members.\<close>

fun define_lists :: "(region_group_key \<times> handle list) list \<Rightarrow> defs \<Rightarrow> defs option" where
  "define_lists [] w = Some w"
| "define_lists ((k, hs) # gs) w = do {
     (h, w) \<leftarrow> NewUnifiedGroupFrom32 w SCOREP_GROUP_REGIONS (Some (fst k)) (map of_nat hs);
     define_lists gs w
   }"

lemma define_groups_lists:
  assumes "\<forall>item \<in> set items. item_value item < length gs \<and> group_key (gs ! item_value item) = item_key item \<and>
      take (number_of_regions (gs ! item_value item)) (region_handles (gs ! item_value item)) = f (item_key item)"
  shows "define_groups items gs w = define_lists (map (\<lambda>item. (item_key item, f (item_key item))) items) w"
  using assms
proof (induction items arbitrary: w)
  case (Cons item items)
  have ih: "define_groups items gs = define_lists (map (\<lambda>item. (item_key item, f (item_key item))) items)"
    using Cons by (intro ext) simp
  show ?case using Cons.prems by (simp add: ih)
qed simp

text \<open>
  C25. Region groups: for every group name and paradigm that some unified region wants to be grouped under, rank 0 asks for
  exactly one group, whose members are all regions that want to be in it, in the order of their definition, and
  for no other group; collecting them in the hash table never fails.
\<close>

theorem region_groups_collected:
  assumes "unified_manager w = Some m" and "readable w (chain (m KRegion))" and "length (chain (m KRegion)) < 2 ^ 64"
  shows "\<exists>ks. distinct ks \<and> set ks = {k. \<exists>h \<in> set (chain (m KRegion)). wanted_group w h = Some (Some k)} \<and>
    create_region_groups w = define_lists (map (\<lambda>k. (k, filter (\<lambda>h. wanted_group w h = Some (Some k)) (chain (m KRegion)))) ks) w"
proof -
  let ?hs = "chain (m KRegion)"
  obtain t where t: "Hashtab_CreateSize True 8 hash_region_group_key compare_region_group_key = Some (Some (t :: group_table))"
    by (simp add: Hashtab_CreateSize_def)
  note T = created_table [OF t]
  have ok0: "groups_ok [] t" using T by (simp add: groups_ok_def size_ok_def)
  obtain gs t' where c: "count_regions w ?hs [] t = Some (gs, t')" "groups_ok gs t'" "counted w ?hs gs"
    using count_regions_result [OF assms(2) ok0, of "[]"] assms(3) by (auto simp: counted_def)
  let ?is = "items_of t'"
  note K = item_keys [OF c(2)]
  have fe: "Hashtab_Foreach t' = Some ?is" using c(2) Hashtab_Foreach_items by (auto simp: groups_ok_def tab_inv_def)
  have it: "\<And>item. item \<in> set ?is \<Longrightarrow> item_value item < length gs \<and> group_key (gs ! item_value item) = item_key item"
    using c(2) by (simp add: groups_ok_def)
  obtain gs1 where a: "alloc_arrays ?is gs = Some gs1" "length gs1 = length gs"
    "\<And>i. i < length gs \<Longrightarrow> gs1 ! i = (gs ! i)\<lparr>region_handles := replicate (number_of_regions (gs ! i)) 0\<rparr>"
    using alloc_arrays_result [OF K(1), of gs] it K(2) by auto
  have map1: "map group_key gs1 = map group_key gs" using a(2,3) by (intro nth_equalityI) simp_all
  have f0: "filled w [] ([] @ ?hs) gs1"
    unfolding filled_def
  proof
    fix g assume "g \<in> set gs1"
    then obtain i where "i < length gs" "g = gs1 ! i" using a(2) by (auto simp: in_set_conv_nth)
    then show "number_of_regions g = length (filter (in_group w (group_key g)) ([] @ ?hs)) \<and>
     current_pos g = length (filter (in_group w (group_key g)) []) \<and>
     region_handles g = filter (in_group w (group_key g)) [] @ replicate (number_of_regions g - current_pos g) 0"
      using a(3) c(3) by (simp add: counted_def)
  qed
  have keys: "group_key ` set gs1 = {k. \<exists>h \<in> set ?hs. in_group w k h}"
    using arg_cong [OF map1, of set] c(3) by (simp add: counted_def)
  obtain gs2 where b: "fill_groups w ?hs t' gs1 = Some gs2" "map group_key gs2 = map group_key gs1" "filled w ?hs ?hs gs2"
    using fill_groups_result [OF assms(2) groups_ok_update [OF c(2) map1] f0] keys by auto
  have len2: "length gs2 = length gs" using map_eq_imp_length_eq [OF b(2)] a(2) by simp
  let ?f = "\<lambda>k. filter (in_group w k) ?hs"
  have "\<forall>item \<in> set ?is. item_value item < length gs2 \<and> group_key (gs2 ! item_value item) = item_key item \<and>
      take (number_of_regions (gs2 ! item_value item)) (region_handles (gs2 ! item_value item)) = ?f (item_key item)"
  proof
    fix item assume i: "item \<in> set ?is"
    then have l: "item_value item < length gs2" using it len2 by simp
    have "map group_key gs2 ! item_value item = map group_key gs ! item_value item" using b(2) map1 by simp
    then have kk: "group_key (gs2 ! item_value item) = item_key item" using it [OF i] l len2 by simp
    show "item_value item < length gs2 \<and> group_key (gs2 ! item_value item) = item_key item \<and>
      take (number_of_regions (gs2 ! item_value item)) (region_handles (gs2 ! item_value item)) = ?f (item_key item)"
      using b(3) nth_mem [OF l] kk l unfolding filled_def by auto
  qed
  then have "define_groups ?is gs2 w = define_lists (map (\<lambda>item. (item_key item, ?f (item_key item))) ?is) w"
    by (rule define_groups_lists)
  then have "create_region_groups w = define_lists (map (\<lambda>k. (k, ?f k)) (map item_key ?is)) w"
    using assms(1) t c(1) fe a(1) b(1) by (simp add: create_region_groups_def comp_def)
  moreover have "set (map item_key ?is) = {k. \<exists>h \<in> set ?hs. in_group w k h}"
    using K(4) c(3) by (simp add: counted_def)
  ultimately show ?thesis using K(3) unfolding in_group_def by blast
qed

text \<open>The witness: three regions, of which the first and the last want to be in the group \<open>solver\<close>.\<close>

definition grouped_region :: "handle \<Rightarrow> def_object" where
  "grouped_region g = init_header (Region (RegionDef 1 1 1 0 0 0 7 0 g))"

definition grouped_manager :: manager where
  "grouped_manager = (InitializeDefinitionManager True)(KRegion := init_entry\<lparr>chain := [2, 3, 4], counter := 3\<rparr>)"

definition grouped_world :: defs where
  "grouped_world = \<lparr>memory = (\<lambda>pm. if pm = 0 then [init_header (String (StringDef ''solver'')),
       grouped_region 1, grouped_region 0, grouped_region 1] else []),
     local_manager = InitializeDefinitionManager True, unified_manager = Some grouped_manager, announced = [], location_mapping = []\<rparr>"

lemma grouped_regions:
  "chain (grouped_manager KRegion) = [2, 3, 4]"
  "wanted_group grouped_world 2 = Some (Some (''solver'', 7))"
  "wanted_group grouped_world 3 = Some None"
  "wanted_group grouped_world 4 = Some (Some (''solver'', 7))"
  by (simp_all add: grouped_manager_def wanted_group_def grouped_world_def grouped_region_def deref_def arr_get_def init_header_def)

theorem region_groups_collected_witness:
  "create_region_groups grouped_world = define_lists [((''solver'', 7), [2, 4])] grouped_world"
proof -
  have m: "unified_manager grouped_world = Some grouped_manager" by (simp add: grouped_world_def)
  have r: "readable grouped_world (chain (grouped_manager KRegion))"
    by (simp add: readable_def grouped_regions plain_key_def)
  obtain ks where ks: "distinct ks" "set ks = {k. \<exists>h \<in> set (chain (grouped_manager KRegion)). wanted_group grouped_world h = Some (Some k)}"
    "create_region_groups grouped_world = define_lists (map (\<lambda>k. (k, filter (\<lambda>h. wanted_group grouped_world h = Some (Some k))
       (chain (grouped_manager KRegion)))) ks) grouped_world"
    using region_groups_collected [OF m r] by (auto simp: grouped_regions)
  have "set ks = {(''solver'', 7)}" unfolding ks(2) by (auto simp: grouped_regions)
  then have "ks = [(''solver'', 7)]" using ks(1) by (cases ks; cases "tl ks") auto
  then show ?thesis using ks(3) by (simp add: grouped_regions)
qed

end
