(* ===== verification/Scorep_Comm_Partners.thy ===== *)
theory Scorep_Comm_Partners
  imports Scorep_Prelude
begin

text \<open>
  The tree of the processes along which definitions are unified: \<open>npot\<close> and
  \<open>calculate_comm_partners\<close> of \<open>src/src/measurement/paradigm/scorep_unify_mpp_ipc.c\<close>. The tree is embedded
  in a hypercube over the ranks; a rank has the parent in which its lowest bit is cleared.
\<close>

section \<open>The code\<close>

definition npot_u32 :: "u32 \<Rightarrow> u32" where
  "npot_u32 v =
     (let v = v - 1;
          v = v OR drop_bit 1 v;
          v = v OR drop_bit 2 v;
          v = v OR drop_bit 4 v;
          v = v OR drop_bit 8 v;
          v = v OR drop_bit 16 v
      in v + 1)"

text \<open>
  The first loop: \<open>d\<close> runs over the powers of two, given by their exponents, and is zero behind the last one. The
  result is the parent, the number of children and the last \<open>d\<close>.
\<close>

fun count_loop :: "u32 \<Rightarrow> u32 \<Rightarrow> u32 \<Rightarrow> nat list \<Rightarrow> nat \<Rightarrow> u32 \<times> nat \<times> u32" where
  "count_loop size_pot sz me [] n = (me, n, 0)"
| "count_loop size_pot sz me (k # ks) n =
     (let d = 2 ^ k in
      if d > size_pot then (me, n, d)
      else if me AND d \<noteq> 0 then (me XOR d, n, d)
      else count_loop size_pot sz me ks (if (me XOR d) < sz then n + 1 else n))"

text \<open>The second loop fills the array from its end.\<close>

lemma halved: "d \<noteq> 0 \<Longrightarrow> unat (drop_bit (Suc 0) d) < unat (d :: u32)"
  by (simp add: drop_bit_Suc unat_div unat_gt_0)

function fill_loop :: "u32 \<Rightarrow> u32 \<Rightarrow> u32 \<Rightarrow> nat \<Rightarrow> u32 option list \<Rightarrow> u32 option list option" where
  "fill_loop sz me d child cs =
     (if d = 0 then Some cs
      else if (me XOR d) < sz
      then do {
        assertC (child > 0);
        cs \<leftarrow> arr_set cs (child - 1) (Some (me XOR d));
        fill_loop sz me (drop_bit 1 d) (child - 1) cs
      }
      else fill_loop sz me (drop_bit 1 d) child cs)"
  by pat_completeness auto
termination by (relation "measure (\<lambda>(sz, me, d, child, cs). unat d)") (auto intro: halved)

declare fill_loop.simps [simp del]

definition calculate_comm_partners :: "u32 \<Rightarrow> u32 \<Rightarrow> (u32 \<times> u32 option list) option" where
  "calculate_comm_partners sz me = do {
     let (parent, n, d) = count_loop (npot_u32 sz) sz me [0..<32] 0;
     cs \<leftarrow> fill_loop sz me (drop_bit 1 d) n (replicate n None);
     Some (parent, cs)
   }"

section \<open>The next power of two\<close>

lemma bit_smear:
  "bit (v OR drop_bit k v) n \<longleftrightarrow> bit v n \<or> bit (v :: u32) (n + k)"
  by (simp add: bit_or_iff bit_drop_bit_eq add.commute)

lemma npot_bit:
  "bit (npot_u32 v - 1) n \<longleftrightarrow> (\<exists>m \<ge> n. bit (v - 1) m)"
proof -
  have "bit (npot_u32 v - 1) n \<longleftrightarrow> (\<exists>j \<in> {0..<32}. bit (v - 1) (n + j))"
    unfolding npot_u32_def Let_def add_diff_cancel_right' bit_smear
    by (simp add: atLeastLessThan_upt upt_conv_Cons numeral_eq_Suc add.assoc)
  also have "\<dots> \<longleftrightarrow> (\<exists>m \<ge> n. bit (v - 1) m)"
  proof
    assume "\<exists>m \<ge> n. bit (v - 1) m"
    then obtain m where m: "m \<ge> n" "bit (v - 1) m" by blast
    then have "m < 32" using bit_imp_le_length by force
    then show "\<exists>j \<in> {0..<32}. bit (v - 1) (n + j)" using m by (intro bexI [of _ "m - n"]) auto
  qed (meson le_add1)
  finally show ?thesis .
qed


lemma bit_unat: "bit (unat (w :: u32)) n = bit w n"
  by (simp add: bit_unsigned_iff)

lemma bit_unat_high:
  assumes "2 ^ k \<le> unat w" "unat w < 2 ^ Suc k"
  shows "bit (w :: u32) k"
proof -
  have "unat w div 2 ^ k = 1" using assms by (intro div_nat_eqI) auto
  then show ?thesis unfolding bit_unat [symmetric] bit_iff_odd by simp
qed

text \<open>\<open>npot\<close> is the smallest power of two that is not less, as long as it fits.\<close>

lemma npot_power:
  assumes "0 < unat v" "unat v \<le> 2 ^ K" "K = 0 \<or> 2 ^ (K - 1) < unat v" "K < 32"
  shows "npot_u32 v = 2 ^ K"
proof -
  have u: "unat (v - 1) = unat v - 1" using assms(1) by (simp add: unat_minus_one unat_gt_0)
  have lt: "unat (v - 1) < 2 ^ K" using u assms(1,2) by linarith
  have high: "m < K" if "bit (v - 1) m" for m
  proof (rule ccontr)
    assume "\<not> m < K"
    then have "(2 :: nat) ^ K \<le> 2 ^ m" by simp
    moreover have "2 ^ m \<le> unat (v - 1)" using that by (metis bit_unat bit_iff_odd div_less even_zero not_le)
    ultimately show False using lt by linarith
  qed
  have top: "bit (v - 1) (K - 1)" if "K \<noteq> 0"
    by (rule bit_unat_high) (use that assms(3) u lt in auto)
  have "npot_u32 v - 1 = mask K"
  proof (rule bit_word_eqI)
    fix n assume "n < LENGTH(32)"
    have "(\<exists>m \<ge> n. bit (v - 1) m) \<longleftrightarrow> n < K"
    proof
      assume "n < K"
      then have "n \<le> K - 1" "K \<noteq> 0" by auto
      then show "\<exists>m \<ge> n. bit (v - 1) m" using top by blast
    qed (use high in \<open>meson le_less_trans\<close>)
    then show "bit (npot_u32 v - 1) n = bit (mask K :: u32) n"
      using assms(4) by (simp only: npot_bit bit_mask_iff) auto
  qed
  then show ?thesis by (simp add: mask_eq_exp_minus_1)
qed

lemma least_power: "0 < n \<Longrightarrow> n \<le> 2 ^ B \<Longrightarrow> \<exists>K \<le> B. n \<le> 2 ^ K \<and> (K = 0 \<or> 2 ^ (K - 1) < (n :: nat))"
proof (induction B)
  case (Suc B)
  show ?case
  proof (cases "n \<le> 2 ^ B")
    case True
    then show ?thesis using Suc by (meson le_SucI)
  next
    case False
    then show ?thesis using Suc.prems by (intro exI [of _ "Suc B"]) simp
  qed
qed simp

section \<open>Edges of the hypercube\<close>

text \<open>A rank above is below another when it has one more bit, lower than all others.\<close>

definition edge :: "nat \<Rightarrow> nat \<Rightarrow> bool" where
  "edge p c \<longleftrightarrow> (\<exists>k. 2 ^ Suc k dvd p \<and> c = p + 2 ^ k)"

lemma edge_less: "edge p c \<Longrightarrow> p < c"
  by (auto simp: edge_def)

lemma lowest_bit: "c > 0 \<Longrightarrow> \<exists>k. 2 ^ k dvd c \<and> \<not> 2 ^ Suc k dvd (c :: nat)"
proof (induction c rule: less_induct)
  case (less c)
  show ?case
  proof (cases "even c")
    case True
    then obtain b where b: "c = 2 * b" by blast
    then obtain k where "2 ^ k dvd b" "\<not> 2 ^ Suc k dvd b" using less.IH [of b] less.prems by auto
    then show ?thesis by (intro exI [of _ "Suc k"]) (simp add: b)
  qed (auto intro: exI [of _ 0])
qed

lemma edge_exponent:
  assumes "2 ^ Suc k dvd (p :: nat)" "c = p + 2 ^ k"
  shows "2 ^ k dvd c" "\<not> 2 ^ Suc k dvd c"
proof -
  have "2 ^ k dvd p" using assms(1) by (metis dvd_trans le_imp_power_dvd lessI less_imp_le)
  then show "2 ^ k dvd c" by (simp add: assms(2))
  show "\<not> 2 ^ Suc k dvd c"
  proof
    assume "2 ^ Suc k dvd c"
    then have "2 ^ Suc k dvd (2 :: nat) ^ k" using assms by (metis dvd_add_right_iff)
    then show False by (auto dest: dvd_imp_le)
  qed
qed

lemma exponent_unique:
  assumes "2 ^ k dvd (c :: nat)" "\<not> 2 ^ Suc k dvd c" "2 ^ l dvd c" "\<not> 2 ^ Suc l dvd c"
  shows "k = l"
proof -
  have "\<not> k < l" "\<not> l < k" using assms by (metis Suc_leI dvd_trans le_imp_power_dvd)+
  then show ?thesis by simp
qed

lemma edge_unique: "edge p c \<Longrightarrow> edge q c \<Longrightarrow> p = q"
  unfolding edge_def using edge_exponent exponent_unique by (metis add_right_cancel)

lemma edge_parent:
  assumes "2 ^ k dvd (c :: nat)" "\<not> 2 ^ Suc k dvd c"
  shows "edge (c - 2 ^ k) c"
proof -
  obtain b where b: "c = 2 ^ k * b" using assms(1) by blast
  then have "odd b" using assms(2) by auto
  then obtain a where "b = 2 * a + 1" by (rule oddE)
  then have "c - 2 ^ k = 2 ^ Suc k * a" using b by (simp add: algebra_simps)
  moreover have "2 ^ k \<le> c" using assms(1,2) by (intro dvd_imp_le) (auto intro: Nat.gr0I)
  ultimately show ?thesis unfolding edge_def by (intro exI [of _ k]) simp
qed


section \<open>The loops\<close>

lemma unat_of_small: "n < 2 ^ 32 \<Longrightarrow> unat (of_nat n :: u32) = n"
  by (simp add: unat_of_nat)

lemma unat_power_u32: "k < 32 \<Longrightarrow> unat (2 ^ k :: u32) = 2 ^ k"
proof -
  assume "k < 32"
  then have "(2 :: nat) ^ k < 2 ^ 32" by (intro power_strict_increasing) simp_all
  then have "unat (of_nat (2 ^ k) :: u32) = 2 ^ k" by (rule unat_of_small)
  then show ?thesis by simp
qed

lemma power_less: "j < 32 \<Longrightarrow> k < 32 \<Longrightarrow> (2 :: u32) ^ j < 2 ^ k \<longleftrightarrow> j < k"
  by (simp add: word_less_nat_alt unat_power_u32)

lemma and_power: "k < 32 \<Longrightarrow> (me AND 2 ^ k \<noteq> (0 :: u32)) \<longleftrightarrow> bit me k"
proof -
  assume k: "k < 32"
  have "bit me k" if "me AND 2 ^ k \<noteq> 0"
    using word_nonzero_bit [OF that] by (auto simp: bit_and_iff bit_shifted_one)
  moreover have "me AND 2 ^ k \<noteq> 0" if "bit me k"
  proof
    assume "me AND 2 ^ k = 0"
    then have "\<not> bit (me AND 2 ^ k) k" by simp
    then show False using that k by (simp add: bit_and_iff bit_shifted_one)
  qed
  ultimately show ?thesis by blast
qed

lemma drop_power: "Suc k < 32 \<Longrightarrow> drop_bit 1 (2 ^ Suc k :: u32) = 2 ^ k"
  by (rule word_eq_by_bits) (auto simp: bit_drop_bit_eq bit_shifted_one simp del: power_Suc)

lemma count_loop_result:
  assumes "K < 31" "E \<le> Suc K" "k \<le> E" "\<And>j. j < E \<Longrightarrow> \<not> bit me j" "E = Suc K \<or> bit me E"
  shows "count_loop (2 ^ K) sz me [k..<32] n =
    (if E = Suc K then me else me XOR 2 ^ E, n + length (filter (\<lambda>j. (me XOR 2 ^ j) < sz) [k..<E]), 2 ^ E)"
  using assms(3)
proof (induction "E - k" arbitrary: k n)
  case 0
  then have "k = E" by simp
  moreover have "[E..<32] = E # [Suc E..<32]" using assms(1,2) by (simp add: upt_rec)
  moreover have "(2 :: u32) ^ E > 2 ^ K \<longleftrightarrow> E = Suc K" using assms(1,2) by (simp add: power_less) linarith
  ultimately show ?case using assms(1,2,5) by (auto simp: and_power Let_def simp del: upt_Suc)
next
  case (Suc x)
  then have k: "k < E" by simp
  have "[k..<32] = k # [Suc k..<32]" "[k..<E] = k # [Suc k..<E]" using k assms(1,2) by (simp_all add: upt_rec)
  moreover have "\<not> (2 :: u32) ^ k > 2 ^ K" using k assms(1,2) by (simp add: power_less)
  moreover have "me AND 2 ^ k = 0" using assms(4) [OF k] and_power [of k me] k assms(1,2) by simp
  ultimately show ?case using Suc k by (simp add: Let_def del: upt_Suc)
qed

lemma fill_loop_result:
  assumes "E < 32" "length (filter (\<lambda>j. (me XOR 2 ^ j) < sz) [0..<E]) \<le> length cs"
  shows "fill_loop sz me (drop_bit 1 (2 ^ E)) (length (filter (\<lambda>j. (me XOR 2 ^ j) < sz) [0..<E])) cs =
    Some (map (\<lambda>j. Some (me XOR 2 ^ j)) (filter (\<lambda>j. (me XOR 2 ^ j) < sz) [0..<E])
       @ drop (length (filter (\<lambda>j. (me XOR 2 ^ j) < sz) [0..<E])) cs)"
  using assms
proof (induction E arbitrary: cs)
  case 0
  then show ?case by (simp add: fill_loop.simps drop_bit_Suc)
next
  case (Suc E)
  let ?P = "\<lambda>j. (me XOR 2 ^ j) < sz"
  have d: "drop_bit 1 (2 ^ Suc E) = (2 :: u32) ^ E" using Suc.prems(1) by (intro drop_power) simp
  have "unat ((2 :: u32) ^ E) \<noteq> 0" using unat_power_u32 [of E] Suc.prems(1) by simp
  then have nz: "(2 :: u32) ^ E \<noteq> 0" by (metis unat_0)
  show ?case
  proof (cases "?P E")
    case True
    let ?n = "length (filter ?P [0..<E])"
    have n: "?n < length cs" using True Suc.prems(2) by simp
    have "drop ?n (cs[?n := Some (me XOR 2 ^ E)]) = Some (me XOR 2 ^ E) # drop (Suc ?n) cs"
      using n by (simp add: Cons_nth_drop_Suc [symmetric])
    then show ?thesis
      using True n nz Suc.IH [of "cs[?n := Some (me XOR 2 ^ E)]"] Suc.prems(1)
      by (subst d, subst fill_loop.simps) simp
  next
    case False
    then show ?thesis using nz Suc.IH [of cs] Suc.prems by (subst d, subst fill_loop.simps) simp
  qed
qed

text \<open>The exponent at which the first loop ends: the lowest bit of the rank, or the one behind the size for rank zero.\<close>

lemma comm_partners:
  assumes "K < 31" "npot_u32 sz = 2 ^ K" "E \<le> Suc K" "\<And>j. j < E \<Longrightarrow> \<not> bit me j" "E = Suc K \<or> bit me E"
  shows "calculate_comm_partners sz me =
    Some (if E = Suc K then me else me XOR 2 ^ E, map (\<lambda>j. Some (me XOR 2 ^ j)) (filter (\<lambda>j. (me XOR 2 ^ j) < sz) [0..<E]))"
  unfolding calculate_comm_partners_def assms(2)
  using count_loop_result [OF assms(1,3) _ assms(4,5), of 0 sz 0]
    fill_loop_result [of E me sz "replicate (length (filter (\<lambda>j. (me XOR 2 ^ j) < sz) [0..<E])) None"] assms(1,3)
  by simp

section \<open>Ranks as numbers\<close>

lemma low_bits_dvd: "(\<forall>j < k. \<not> bit n j) \<longleftrightarrow> 2 ^ k dvd (n :: nat)"
proof -
  have "2 ^ k dvd n \<longleftrightarrow> take_bit k n = 0" by (simp add: take_bit_eq_mod dvd_eq_mod_eq_0)
  also have "\<dots> \<longleftrightarrow> (\<forall>j < k. \<not> bit n j)" by (auto simp: bit_eq_iff bit_take_bit_iff)
  finally show ?thesis by simp
qed

lemma set_bit_dvd: "2 ^ k dvd (n :: nat) \<Longrightarrow> bit n k \<longleftrightarrow> \<not> 2 ^ Suc k dvd n"
  using low_bits_dvd [of k n] low_bits_dvd [of "Suc k" n] by (auto simp: less_Suc_eq)

lemma xor_clear:
  assumes "\<not> bit (me :: u32) k" "unat me + 2 ^ k < 2 ^ 32" "k < 32"
  shows "unat (me XOR 2 ^ k) = unat me + 2 ^ k"
proof -
  have "me AND 2 ^ k = 0" using assms(1,3) and_power [of k me] by blast
  then have "me XOR 2 ^ k = me + 2 ^ k" by (simp add: disjunctive_add_eq_xor)
  moreover have "unat (me + 2 ^ k) = unat me + unat ((2 :: u32) ^ k)"
    using assms unat_power_u32 [of k] by (subst unat_add_lem [symmetric]) simp
  ultimately show ?thesis using assms(3) by (simp add: unat_power_u32)
qed

lemma xor_set:
  assumes "bit (me :: u32) k"
  shows "unat (me XOR 2 ^ k) = unat me - 2 ^ k"
proof -
  have k: "k < 32" using bit_imp_le_length [OF assms] by simp
  have "NOT me AND 2 ^ k = (0 :: u32)"
    by (rule word_eq_by_bits) (use assms in \<open>auto simp: bit_and_iff bit_not_iff bit_shifted_one\<close>)
  then have "me XOR 2 ^ k = me - 2 ^ k" using disjunctive_diff_eq_xor disjunctive_diff_eq_and_not by metis
  moreover have "2 ^ k \<le> me"
  proof -
    have "2 ^ k \<le> unat me" using assms by (metis bit_unat bit_iff_odd div_less even_zero not_le)
    then show ?thesis using k by (simp add: word_le_nat_alt unat_power_u32)
  qed
  ultimately show ?thesis using k by (simp add: unat_sub unat_power_u32)
qed

definition comm_parent :: "nat \<Rightarrow> nat \<Rightarrow> nat" where
  "comm_parent n m = (case calculate_comm_partners (of_nat n) (of_nat m) of None \<Rightarrow> m | Some (p, cs) \<Rightarrow> unat p)"

definition comm_children :: "nat \<Rightarrow> nat \<Rightarrow> nat list" where
  "comm_children n m = (case calculate_comm_partners (of_nat n) (of_nat m) of None \<Rightarrow> [] | Some (p, cs) \<Rightarrow> map (\<lambda>c. unat (the c)) cs)"

lemma edges_above:
  assumes "2 ^ E dvd m" "m < n" "n \<le> 2 ^ 30" "E \<le> 31" "m = 0 \<and> n \<le> 2 ^ (E - 1) \<and> 0 < E \<or> \<not> 2 ^ Suc E dvd m"
  shows "edge m c \<and> c < n \<longleftrightarrow> (\<exists>j < E. c = m + 2 ^ j \<and> m + 2 ^ j < n)"
proof
  assume c: "edge m c \<and> c < n"
  then obtain k where k: "2 ^ Suc k dvd m" "c = m + 2 ^ k" by (auto simp: edge_def)
  have "k < E"
  proof (rule ccontr)
    assume "\<not> k < E"
    then have "(2 :: nat) ^ Suc E dvd 2 ^ Suc k" "(2 :: nat) ^ (E - 1) \<le> 2 ^ k"
      by (intro le_imp_power_dvd power_increasing; simp)+
    moreover from this(1) have "2 ^ Suc E dvd m" using k(1) by (rule dvd_trans)
    ultimately show False using assms(5) k(2) c by linarith
  qed
  then show "\<exists>j < E. c = m + 2 ^ j \<and> m + 2 ^ j < n" using k c by blast
next
  assume "\<exists>j < E. c = m + 2 ^ j \<and> m + 2 ^ j < n"
  then obtain j where j: "j < E" "c = m + 2 ^ j" "c < n" by blast
  then have "(2 :: nat) ^ Suc j dvd 2 ^ E" by (intro le_imp_power_dvd) simp
  then have "2 ^ Suc j dvd m" using assms(1) by (rule dvd_trans)
  then show "edge m c \<and> c < n" using j unfolding edge_def by blast
qed

text \<open>What a rank gets: its parent and its children in ascending order.\<close>

lemma comm_partners_edges:
  assumes "m < n" "n \<le> 2 ^ 30"
  shows "calculate_comm_partners (of_nat n) (of_nat m) =
      Some (of_nat (comm_parent n m), map (\<lambda>c. Some (of_nat c)) (comm_children n m)) \<and>
    (if m = 0 then comm_parent n m = 0 else edge (comm_parent n m) m) \<and>
    sorted_wrt (<) (comm_children n m) \<and> (\<forall>c. c \<in> set (comm_children n m) \<longleftrightarrow> edge m c \<and> c < n)"
proof -
  let ?me = "of_nat m :: u32" and ?sz = "of_nat n :: u32"
  have n32: "n < 2 ^ 32" "m < 2 ^ 32" using assms by simp_all
  have um: "unat ?me = m" and un: "unat ?sz = n" using n32 by (simp_all add: unat_of_small)
  have bits: "bit ?me j \<longleftrightarrow> bit m j" for j using bit_unat [of ?me j] um by simp
  obtain K where K: "K \<le> 30" "n \<le> 2 ^ K" "K = 0 \<or> 2 ^ (K - 1) < n" using least_power [of n 30] assms by auto
  have pot: "npot_u32 ?sz = 2 ^ K" by (rule npot_power) (use K assms un in auto)
  define E where "E = (if m = 0 then Suc K else (SOME k. 2 ^ k dvd m \<and> \<not> 2 ^ Suc k dvd m))"
  have E: "2 ^ E dvd m \<and> (m = 0 \<and> E = Suc K \<or> m > 0 \<and> \<not> 2 ^ Suc E dvd m)"
    using lowest_bit [of m] someI_ex [of "\<lambda>k. 2 ^ k dvd m \<and> \<not> 2 ^ Suc k dvd m"] by (cases "m = 0") (auto simp: E_def)
  have EK: "E < K" if "m > 0"
  proof -
    have "2 ^ E \<le> m" using that E by (intro dvd_imp_le) auto
    then have "(2 :: nat) ^ E < 2 ^ K" using assms(1) K(2) by linarith
    then show ?thesis by simp
  qed
  have low: "\<not> bit ?me j" if "j < E" for j using that E low_bits_dvd [of E m] bits by blast
  let ?P = "\<lambda>j. (?me XOR 2 ^ j) < ?sz"
  have e31: "E \<le> 31" using E EK K(1) by fastforce
  have res: "calculate_comm_partners ?sz ?me =
    Some (if E = Suc K then ?me else ?me XOR 2 ^ E, map (\<lambda>j. Some (?me XOR 2 ^ j)) (filter ?P [0..<E]))"
  proof (rule comm_partners [OF _ pot])
    show "E \<le> Suc K" using E EK by force
    show "E = Suc K \<or> bit ?me E" using E bits set_bit_dvd [of E m] by auto
  qed (use K low in auto)
  have x: "unat (?me XOR 2 ^ j) = m + 2 ^ j" if "j < E" for j
  proof -
    have "(2 :: nat) ^ j \<le> 2 ^ 30" using that e31 by (intro power_increasing) auto
    then show ?thesis using xor_clear [of ?me j] low [OF that] um that e31 assms by simp
  qed
  have P: "?P j \<longleftrightarrow> m + 2 ^ j < n" if "j < E" for j using x [OF that] by (simp add: word_less_nat_alt un)
  have par: "unat (if E = Suc K then ?me else ?me XOR 2 ^ E) = (if m = 0 then 0 else m - 2 ^ E)"
    using E EK um xor_set [of ?me E] bits [of E] set_bit_dvd [of E m] by (cases "m = 0") auto
  have parent: "comm_parent n m = (if m = 0 then 0 else m - 2 ^ E)" by (simp only: comm_parent_def res option.case prod.case par)
  have children: "comm_children n m = map (\<lambda>j. m + 2 ^ j) (filter (\<lambda>j. m + 2 ^ j < n) [0..<E])"
  proof -
    have "filter ?P [0..<E] = filter (\<lambda>j. m + 2 ^ j < n) [0..<E]" by (rule filter_cong) (auto simp: P)
    then show ?thesis by (simp add: comm_children_def res x)
  qed
  have "m = 0 \<and> n \<le> 2 ^ (E - 1) \<and> 0 < E \<or> \<not> 2 ^ Suc E dvd m" using E K(2) by auto
  then have "c \<in> set (comm_children n m) \<longleftrightarrow> edge m c \<and> c < n" for c
    unfolding children using edges_above [of E m n c] E assms e31 by auto
  moreover have "sorted_wrt (<) (comm_children n m)"
    unfolding children sorted_wrt_map by (rule sorted_wrt_filter) (simp add: sorted_wrt_iff_nth_less)
  moreover have "if m = 0 then comm_parent n m = 0 else edge (comm_parent n m) m"
    unfolding parent using E edge_parent [of E m] by auto
  moreover have "calculate_comm_partners ?sz ?me =
      Some (of_nat (comm_parent n m), map (\<lambda>c. Some (of_nat c)) (comm_children n m))"
    unfolding comm_parent_def comm_children_def res by (simp add: comp_def)
  ultimately show ?thesis by blast
qed

text \<open>
  C27. The processes are arranged in a tree: for up to 2^30 processes, every rank computes a parent and a completely filled list of
  children in ascending order; a rank is in the list of another exactly when that is the parent it computes itself,
  the parent has a lower rank, and only rank 0 is its own parent.
\<close>

theorem comm_partners_tree:
  assumes "n \<le> 2 ^ 30" and "m < n"
  shows "\<exists>p cs. calculate_comm_partners (of_nat n) (of_nat m) = Some (of_nat p, map (\<lambda>c. Some (of_nat c)) cs) \<and>
    p \<le> m \<and> (p = m \<longleftrightarrow> m = 0) \<and> sorted_wrt (<) cs \<and>
    (\<forall>c. c \<in> set cs \<longleftrightarrow> c < n \<and> c \<noteq> m \<and> map_option fst (calculate_comm_partners (of_nat n) (of_nat c)) = Some (of_nat m))"
proof -
  note P = comm_partners_edges [OF assms(2,1)]
  have c: "edge m c \<longleftrightarrow> c \<noteq> m \<and> map_option fst (calculate_comm_partners (of_nat n) (of_nat c)) = Some (of_nat m)" if "c < n" for c
  proof -
    note Q = comm_partners_edges [OF that assms(1)]
    have "comm_parent n c < 2 ^ 32" using Q edge_less [of "comm_parent n c" c] that assms(1) by (cases "c = 0") auto
    moreover have "m < 2 ^ 32" using assms by simp
    ultimately have "(of_nat (comm_parent n c) :: u32) = of_nat m \<longleftrightarrow> comm_parent n c = m"
      by (metis unat_of_small)
    moreover have "edge m c \<longleftrightarrow> c \<noteq> m \<and> comm_parent n c = m"
      using Q edge_unique [of m c "comm_parent n c"] edge_less [of m c] by (cases "c = 0") auto
    ultimately show ?thesis using Q by simp
  qed
  show ?thesis
  proof (intro exI conjI allI)
    show "comm_parent n m \<le> m" "comm_parent n m = m \<longleftrightarrow> m = 0"
      using P edge_less [of "comm_parent n m" m] by (cases "m = 0"; simp)+
    show "c' \<in> set (comm_children n m) \<longleftrightarrow> c' < n \<and> c' \<noteq> m \<and> map_option fst (calculate_comm_partners (of_nat n) (of_nat c')) = Some (of_nat m)" for c'
      using P c [of c'] by (cases "c' < n") auto
  qed (use P in auto)
qed

lemma comm_partners_tree_witness:
  "\<exists>p cs. calculate_comm_partners 6 2 = Some (of_nat p, map (\<lambda>c. Some (of_nat c)) cs) \<and> p \<le> 2"
  using comm_partners_tree [of 6 2] by auto

lemma comm_partners_example: "calculate_comm_partners 7 4 = Some (0, [Some 5, Some 6])"
  by code_simp

text \<open>With more than 2^30 processes the loop over the powers ends with zero, and the list of children is never written.\<close>

lemma comm_partners_unwritten:
  "calculate_comm_partners (2 ^ 30 + 1) 0 = Some (0, replicate 31 None)"
  by code_simp

end
