(* ===== verification/Scorep_Unify_Mpp.thy ===== *)
theory Scorep_Unify_Mpp
  imports Scorep_Unify Scorep_Comm_Partners "HOL-Library.Sublist"
begin

text \<open>
  The unification of the definitions of all processes, \<open>src/src/measurement/paradigm/scorep_unify_mpp_ipc.c\<close>: definitions
  go up the tree of the processes, mappings come down.

  The state of a process is its definitions, the managers it received from its children and what is left of its sequence of
  exchanges. An exchange is all messages of one call of a send function and the receive function of the other
  process, in the same order on both sides: sending blocks until the other process receives. Pages are sent with
  their ids, so the handles of the sender stay valid for the memory of received pages (page manager 1).
\<close>

section \<open>The functions of one process\<close>

type_synonym mappings = "def_kind \<Rightarrow> u32 list"

definition receive_and_unify_remote_definitions :: "manager \<Rightarrow> def_object list \<Rightarrow> defs \<Rightarrow> (manager \<times> defs) option" where
  "receive_and_unify_remote_definitions remote pages w = do {
     let w = w\<lparr>memory := (memory w)(1 := pages)\<rparr>;
     w \<leftarrow> CopyDefinitionsToUnified w remote 1;
     remote \<leftarrow> AssignDefinitionMappingsFromUnified w 1 (CreateDefinitionMappings remote);
     Some (remote, w\<lparr>memory := (memory w)(1 := [])\<rparr>)
   }"

definition send_local_unified_definitions_to_parent :: "defs \<Rightarrow> (manager \<times> def_object list \<times> defs) option" where
  "send_local_unified_definitions_to_parent w = do {
     m \<leftarrow> unified_manager w;
     Some (m, memory w 0, w\<lparr>unified_manager := Some (CreateDefinitionMappings m)\<rparr>)
   }"

text \<open>The number of elements received is the counter.\<close>

definition receive_mappings :: "mappings \<Rightarrow> defs \<Rightarrow> defs option" where
  "receive_mappings msg w = do {
     m \<leftarrow> unified_manager w;
     assertC (list_all (\<lambda>k. length (msg k) = unat (counter (m k))) mapped_kinds);
     Some (w\<lparr>unified_manager := Some (\<lambda>k. if k \<in> set mapped_kinds \<and> counter (m k) > 0 then (m k)\<lparr>mapping := msg k\<rparr> else m k)\<rparr>)
   }"

fun apply_mapping :: "u32 list \<Rightarrow> u32 list \<Rightarrow> u32 list option" where
  "apply_mapping unified_mapping [] = Some []"
| "apply_mapping unified_mapping (i # is) = do {
     x \<leftarrow> arr_get unified_mapping (unat i);
     xs \<leftarrow> apply_mapping unified_mapping is;
     Some (x # xs)
   }"

fun apply_mapping_if_valid :: "u32 list \<Rightarrow> u32 list \<Rightarrow> u32 list option" where
  "apply_mapping_if_valid unified_mapping [] = Some []"
| "apply_mapping_if_valid unified_mapping (i # is) = do {
     x \<leftarrow> (if i \<noteq> -1 then arr_get unified_mapping (unat i) else Some i);
     xs \<leftarrow> apply_mapping_if_valid unified_mapping is;
     Some (x # xs)
   }"

fun apply_kinds :: "(u32 list \<Rightarrow> u32 list \<Rightarrow> u32 list option) \<Rightarrow> manager \<Rightarrow> def_kind list \<Rightarrow> manager \<Rightarrow> manager option" where
  "apply_kinds f m [] mgr = Some mgr"
| "apply_kinds f m (k # ks) mgr = do {
     mp \<leftarrow> (if counter (mgr k) > 0 \<and> mapping (m k) \<noteq> [] then f (mapping (m k)) (mapping (mgr k)) else Some (mapping (mgr k)));
     apply_kinds f m ks (mgr(k := (mgr k)\<lparr>mapping := mp\<rparr>))
   }"

definition apply_and_send_mappings :: "defs \<Rightarrow> manager \<Rightarrow> (mappings \<times> manager) option" where
  "apply_and_send_mappings w remote = do {
     m \<leftarrow> unified_manager w;
     remote \<leftarrow> apply_kinds apply_mapping m mapped_kinds remote;
     Some (\<lambda>k. if counter (remote k) > 0 then mapping (remote k) else [], remote)
   }"

definition apply_mappings_to_local_manager :: "defs \<Rightarrow> defs option" where
  "apply_mappings_to_local_manager w = do {
     m \<leftarrow> unified_manager w;
     mgr \<leftarrow> apply_kinds apply_mapping_if_valid m mapped_kinds (local_manager w);
     Some (w\<lparr>local_manager := mgr\<rparr>)
   }"

section \<open>The exchanges of a process\<close>

datatype exchange = ReceiveDefinitions nat | SendDefinitions nat | ReceiveMappings nat | SendMappings nat

definition exchanges :: "nat \<Rightarrow> nat \<Rightarrow> nat list \<Rightarrow> exchange list" where
  "exchanges me parent children = map ReceiveDefinitions children @
     (if parent \<noteq> me then [SendDefinitions parent, ReceiveMappings parent] else []) @
     map SendMappings (rev children)"

definition unify_mpp_hierarchical :: "nat \<Rightarrow> nat \<Rightarrow> exchange list option" where
  "unify_mpp_hierarchical n me = do {
     (parent, children) \<leftarrow> calculate_comm_partners (of_nat n) (of_nat me);
     children \<leftarrow> those children;
     Some (exchanges me (unat parent) (map unat children))
   }"

section \<open>All processes\<close>

record process =
  definitions :: defs
  remote_managers :: "nat \<Rightarrow> manager option"
  program :: "exchange list"

fun matching :: "nat \<Rightarrow> exchange list \<Rightarrow> nat \<Rightarrow> exchange list \<Rightarrow> bool" where
  "matching i (SendDefinitions j' # as) j (ReceiveDefinitions i' # bs) = (i' = i \<and> j' = j)"
| "matching i (SendMappings j' # as) j (ReceiveMappings i' # bs) = (i' = i \<and> j' = j)"
| "matching i as j bs = False"

definition exchange_definitions :: "process \<Rightarrow> nat \<Rightarrow> process \<Rightarrow> (process \<times> process) option" where
  "exchange_definitions a i b = do {
     (m, pages, w) \<leftarrow> send_local_unified_definitions_to_parent (definitions a);
     (remote, w') \<leftarrow> receive_and_unify_remote_definitions m pages (definitions b);
     Some (a\<lparr>definitions := w, program := tl (program a)\<rparr>,
           b\<lparr>definitions := w', remote_managers := (remote_managers b)(i \<mapsto> remote), program := tl (program b)\<rparr>)
   }"

definition exchange_mappings :: "process \<Rightarrow> nat \<Rightarrow> process \<Rightarrow> (process \<times> process) option" where
  "exchange_mappings a j b = do {
     remote \<leftarrow> remote_managers a j;
     (msg, remote) \<leftarrow> apply_and_send_mappings (definitions a) remote;
     w \<leftarrow> receive_mappings msg (definitions b);
     Some (a\<lparr>remote_managers := (remote_managers a)(j \<mapsto> remote), program := tl (program a)\<rparr>,
           b\<lparr>definitions := w, program := tl (program b)\<rparr>)
   }"

definition communicate :: "nat \<Rightarrow> nat \<Rightarrow> (nat \<Rightarrow> process) \<Rightarrow> (nat \<Rightarrow> process) option" where
  "communicate i j st = do {
     (a, b) \<leftarrow> (case hd (program (st i)) of
        SendDefinitions _ \<Rightarrow> exchange_definitions (st i) i (st j)
      | _ \<Rightarrow> exchange_mappings (st i) j (st j));
     Some (st(i := a, j := b))
   }"

definition start_processes :: "nat \<Rightarrow> (nat \<Rightarrow> defs) \<Rightarrow> nat \<Rightarrow> process" where
  "start_processes n ws r =
     \<lparr>definitions = ws r, remote_managers = (\<lambda>_. None), program = the (unify_mpp_hierarchical n r)\<rparr>"

text \<open>The states that are reached by some number of exchanges.\<close>

inductive mpp_run :: "nat \<Rightarrow> (nat \<Rightarrow> defs) \<Rightarrow> nat \<Rightarrow> (nat \<Rightarrow> process) \<Rightarrow> bool" for n ws where
  start: "mpp_run n ws 0 (start_processes n ws)"
| step: "mpp_run n ws k st \<Longrightarrow> i < n \<Longrightarrow> j < n \<Longrightarrow> matching i (program (st i)) j (program (st j)) \<Longrightarrow>
    communicate i j st = Some st' \<Longrightarrow> mpp_run n ws (Suc k) st'"

section \<open>Exchanges along a tree\<close>

text \<open>What the exchanges need of the partners: a tree with the root 0, for a number of processes.\<close>

definition tree_laws :: "nat \<Rightarrow> (nat \<Rightarrow> nat) \<Rightarrow> (nat \<Rightarrow> nat list) \<Rightarrow> bool" where
  "tree_laws n parent children \<longleftrightarrow> parent 0 = 0 \<and>
     (\<forall>m. 0 < m \<and> m < n \<longrightarrow> parent m < m) \<and> (\<forall>m < n. distinct (children m)) \<and>
     (\<forall>m < n. \<forall>c. c \<in> set (children m) \<longleftrightarrow> 0 < c \<and> c < n \<and> parent c = m)"

text \<open>What holds between the exchanges left on the two sides of an edge.\<close>

definition in_step :: "nat \<Rightarrow> (nat \<Rightarrow> nat) \<Rightarrow> (nat \<Rightarrow> nat list) \<Rightarrow> (nat \<Rightarrow> exchange list) \<Rightarrow> bool" where
  "in_step n parent children prog \<longleftrightarrow>
     (\<forall>m < n. suffix (prog m) (exchanges m (parent m) (children m))) \<and>
     (\<forall>c. 0 < c \<and> c < n \<longrightarrow>
        (ReceiveDefinitions c \<in> set (prog (parent c)) \<longleftrightarrow> SendDefinitions (parent c) \<in> set (prog c)) \<and>
        (SendMappings c \<in> set (prog (parent c)) \<longleftrightarrow> ReceiveMappings (parent c) \<in> set (prog c)))"

lemma suffix_map: "suffix ps (map f xs) \<Longrightarrow> \<exists>ys. ps = map f ys \<and> set ys \<subseteq> set xs"
  unfolding suffix_def by (metis append_eq_map_conv set_append sup_ge2)

text \<open>The rest of a program from some exchange on.\<close>

lemma exchanges_from:
  assumes "suffix ps (exchanges m p cs)"
  shows "(\<exists>c ds mid. ps = map ReceiveDefinitions (c # ds) @ mid @ map SendMappings (rev cs) \<and>
      mid = (if p \<noteq> m then [SendDefinitions p, ReceiveMappings p] else [])) \<or>
    (p \<noteq> m \<and> ps = SendDefinitions p # ReceiveMappings p # map SendMappings (rev cs)) \<or>
    (p \<noteq> m \<and> ps = ReceiveMappings p # map SendMappings (rev cs)) \<or>
    ps = [] \<or> (\<exists>d ds. ps = SendMappings d # map SendMappings ds)"
proof -
  let ?mid = "if p \<noteq> m then [SendDefinitions p, ReceiveMappings p] else []"
  have sm: "map SendMappings (rev cs) = [] \<or> (\<exists>d ds. map SendMappings (rev cs) = SendMappings d # map SendMappings ds)"
    by (cases "rev cs") auto
  consider "suffix ps (map SendMappings (rev cs))"
    | ys where "ps = ys @ map SendMappings (rev cs)" "suffix ys ?mid"
    | ys where "ps = ys @ ?mid @ map SendMappings (rev cs)" "suffix ys (map ReceiveDefinitions cs)"
    using assms unfolding exchanges_def suffix_append by auto
  then show ?thesis
  proof cases
    case 1
    then obtain ds where "ps = map SendMappings ds" using suffix_map by blast
    then show ?thesis by (cases ds) auto
  next
    case 2
    then have "p \<noteq> m \<and> ys = [SendDefinitions p, ReceiveMappings p] \<or> p \<noteq> m \<and> ys = [ReceiveMappings p] \<or> ys = []"
      by (auto simp: suffix_Cons split: if_splits)
    then show ?thesis using 2(1) sm by (elim disjE) simp_all
  next
    case 3
    then obtain ds where "ys = map ReceiveDefinitions ds" using suffix_map by blast
    then show ?thesis using 3(1) sm by (cases ds; cases "p = m") (simp_all, blast+)
  qed
qed

locale comm_tree =
  fixes valid :: "nat \<Rightarrow> bool" and parent :: "nat \<Rightarrow> nat \<Rightarrow> nat" and children :: "nat \<Rightarrow> nat \<Rightarrow> nat list"
  assumes tree: "valid n \<Longrightarrow> tree_laws n (parent n) (children n)"
begin

abbreviation "prog0 n m \<equiv> exchanges m (parent n m) (children n m)"

lemma laws:
  assumes "valid n"
  shows "parent n 0 = 0" "0 < m \<Longrightarrow> m < n \<Longrightarrow> parent n m < m" "m < n \<Longrightarrow> distinct (children n m)"
    "m < n \<Longrightarrow> c \<in> set (children n m) \<longleftrightarrow> 0 < c \<and> c < n \<and> parent n c = m"
  using tree [OF assms] unfolding tree_laws_def by auto

lemma distinct_exchanges: "valid n \<Longrightarrow> m < n \<Longrightarrow> distinct (prog0 n m)"
  using laws(3) [of n m] by (auto simp: exchanges_def distinct_map inj_on_def)

lemma start_in_step:
  assumes "valid n"
  shows "in_step n (parent n) (children n) (prog0 n)"
  unfolding in_step_def
proof (intro conjI allI impI)
  fix c assume c: "0 < c \<and> c < n"
  then have p: "parent n c < c" "parent n c < n" using laws(2) [OF assms, of c] by auto
  then show "ReceiveDefinitions c \<in> set (prog0 n (parent n c)) \<longleftrightarrow> SendDefinitions (parent n c) \<in> set (prog0 n c)"
    "SendMappings c \<in> set (prog0 n (parent n c)) \<longleftrightarrow> ReceiveMappings (parent n c) \<in> set (prog0 n c)"
    using c laws(4) [OF assms, of "parent n c" c] by (auto simp: exchanges_def)
qed simp

text \<open>An exchange takes the heads of both sides.\<close>

lemma exchange_in_step:
  assumes v: "valid n" and inv: "in_step n (parent n) (children n) prog" and ij: "i < n" "j < n"
    and m: "matching i (prog i) j (prog j)"
  shows "in_step n (parent n) (children n) (prog(i := tl (prog i), j := tl (prog j)))" (is "in_step _ _ _ ?prog") and "i \<noteq> j"
proof -
  have heads: "\<exists>as bs. (prog i = SendDefinitions j # as \<and> prog j = ReceiveDefinitions i # bs \<or>
      prog i = SendMappings j # as \<and> prog j = ReceiveMappings i # bs)"
    using m by (cases "(i, prog i, j, prog j)" rule: matching.cases) auto
  then show ne: "i \<noteq> j" by auto
  have suf: "suffix (prog m) (prog0 n m)" if "m < n" for m using inv that by (simp add: in_step_def)
  have dist: "distinct (prog m)" if "m < n" for m
    using suf [OF that] distinct_exchanges [OF v that] by (auto simp: suffix_def)
  have edge: "0 < j \<and> parent n j = i" if "SendMappings j \<in> set (prog i)"
  proof -
    have "SendMappings j \<in> set (prog0 n i)" using set_mono_suffix [OF suf [OF ij(1)]] that by blast
    then show ?thesis using laws(4) [OF v ij(1), of j] by (auto simp: exchanges_def split: if_splits)
  qed
  have edge': "0 < i \<and> parent n i = j" if "ReceiveDefinitions i \<in> set (prog j)"
  proof -
    have "ReceiveDefinitions i \<in> set (prog0 n j)" using set_mono_suffix [OF suf [OF ij(2)]] that by blast
    then show ?thesis using laws(4) [OF v ij(2), of i] by (auto simp: exchanges_def split: if_splits)
  qed
  have tails: "x \<in> set (?prog m) \<longleftrightarrow> x \<in> set (prog m) \<and> (m = i \<longrightarrow> x \<noteq> hd (prog i)) \<and> (m = j \<longrightarrow> x \<noteq> hd (prog j))" for m x
    using heads dist [OF ij(1)] dist [OF ij(2)] ne by (cases "m = i"; cases "m = j") auto
  show "in_step n (parent n) (children n) ?prog"
    unfolding in_step_def
  proof (intro conjI allI impI)
    show "suffix (?prog m) (prog0 n m)" if "m < n" for m
    proof -
      have "suffix (?prog m) (prog m)" using suffix_tl by (cases "m = j"; cases "m = i") simp_all
      then show ?thesis using suf [OF that] by (rule suffix_order.trans)
    qed
    fix c assume c: "0 < c \<and> c < n"
    then have p: "parent n c \<noteq> c" using laws(2) [OF v, of c] by auto
    have old: "ReceiveDefinitions c \<in> set (prog (parent n c)) \<longleftrightarrow> SendDefinitions (parent n c) \<in> set (prog c)"
        "SendMappings c \<in> set (prog (parent n c)) \<longleftrightarrow> ReceiveMappings (parent n c) \<in> set (prog c)"
      using inv c by (auto simp: in_step_def)
    have "(hd (prog i) = SendDefinitions j \<and> hd (prog j) = ReceiveDefinitions i \<and> parent n i = j) \<or>
        (hd (prog i) = SendMappings j \<and> hd (prog j) = ReceiveMappings i \<and> parent n j = i)"
      using heads edge edge' by auto
    then show "ReceiveDefinitions c \<in> set (?prog (parent n c)) \<longleftrightarrow> SendDefinitions (parent n c) \<in> set (?prog c)"
      "SendMappings c \<in> set (?prog (parent n c)) \<longleftrightarrow> ReceiveMappings (parent n c) \<in> set (?prog c)"
      unfolding tails using old by (elim disjE; force)+
  qed
qed


lemma next_exchange:
  assumes "valid n" "in_step n (parent n) (children n) prog" "m < n"
  shows "prog m = [] \<or> (\<exists>c as. prog m = ReceiveDefinitions c # as) \<or> (\<exists>as. prog m = SendDefinitions (parent n m) # as \<and> 0 < m) \<or>
     (\<exists>as. prog m = ReceiveMappings (parent n m) # as \<and> 0 < m) \<or> (\<exists>c as. prog m = SendMappings c # as)"
    and "ReceiveDefinitions c \<in> set (prog m) \<Longrightarrow> \<exists>c as. prog m = ReceiveDefinitions c # as"
    and "SendDefinitions q \<in> set (prog m) \<Longrightarrow> (\<exists>c as. prog m = ReceiveDefinitions c # as) \<or> (\<exists>as. prog m = SendDefinitions q # as)"
    and "ReceiveMappings q \<in> set (prog m) \<Longrightarrow> (\<exists>c as. prog m = ReceiveDefinitions c # as) \<or> (\<exists>q as. prog m = SendDefinitions q # as)
       \<or> (\<exists>as. prog m = ReceiveMappings q # as)"
    and "prog m = ReceiveDefinitions c # as \<or> prog m = SendMappings c # as \<Longrightarrow> 0 < c \<and> c < n \<and> parent n c = m"
proof -
  have suf: "suffix (prog m) (prog0 n m)" using assms(2,3) by (simp add: in_step_def)
  have "parent n m \<noteq> m \<Longrightarrow> 0 < m" using laws(1) [OF assms(1)] by (cases m) auto
  then show "prog m = [] \<or> (\<exists>c as. prog m = ReceiveDefinitions c # as) \<or> (\<exists>as. prog m = SendDefinitions (parent n m) # as \<and> 0 < m) \<or>
     (\<exists>as. prog m = ReceiveMappings (parent n m) # as \<and> 0 < m) \<or> (\<exists>c as. prog m = SendMappings c # as)"
    using exchanges_from [OF suf] by auto
  show "ReceiveDefinitions c \<in> set (prog m) \<Longrightarrow> \<exists>c as. prog m = ReceiveDefinitions c # as"
    "SendDefinitions q \<in> set (prog m) \<Longrightarrow> (\<exists>c as. prog m = ReceiveDefinitions c # as) \<or> (\<exists>as. prog m = SendDefinitions q # as)"
    "ReceiveMappings q \<in> set (prog m) \<Longrightarrow> (\<exists>c as. prog m = ReceiveDefinitions c # as) \<or> (\<exists>q as. prog m = SendDefinitions q # as)
       \<or> (\<exists>as. prog m = ReceiveMappings q # as)"
    using exchanges_from [OF suf] by auto
  assume h: "prog m = ReceiveDefinitions c # as \<or> prog m = SendMappings c # as"
  then have "ReceiveDefinitions c \<in> set (prog0 n m) \<or> SendMappings c \<in> set (prog0 n m)"
    using set_mono_suffix [OF suf] by auto
  then have "c \<in> set (children n m)" by (auto simp: exchanges_def split: if_splits)
  then show "0 < c \<and> c < n \<and> parent n c = m" using laws(4) [OF assms(1,3)] by simp
qed

lemma ready_going_up:
  assumes v: "valid n" and inv: "in_step n (parent n) (children n) prog"
  shows "m < n \<Longrightarrow> prog m = ReceiveDefinitions c # as \<Longrightarrow> \<exists>i < n. \<exists>j < n. matching i (prog i) j (prog j)"
proof (induction "n - m" arbitrary: m c as rule: less_induct)
  case less
  have c: "0 < c" "c < n" "parent n c = m" using next_exchange(5) [OF v inv less.prems(1)] less.prems(2) by blast+
  then have "SendDefinitions m \<in> set (prog c)" using inv less.prems(2) by (auto simp: in_step_def)
  then consider d bs where "prog c = ReceiveDefinitions d # bs" | bs where "prog c = SendDefinitions m # bs"
    using next_exchange(3) [OF v inv c(2)] by blast
  then show ?case
  proof cases
    case 1
    have "m < c" using laws(2) [OF v c(1,2)] c(3) by simp
    then show ?thesis using less.hyps [OF _ c(2) 1] less.prems(1) by auto
  next
    case 2
    then have "matching c (prog c) m (prog m)" using less.prems(2) by simp
    then show ?thesis using c(2) less.prems(1) by blast
  qed
qed

lemma ready_at_send:
  assumes v: "valid n" and inv: "in_step n (parent n) (children n) prog" and m: "m < n" "prog m = SendDefinitions q # as"
  shows "\<exists>i < n. \<exists>j < n. matching i (prog i) j (prog j)"
proof -
  have q: "q = parent n m" "0 < m" using next_exchange(1) [OF v inv m(1)] m(2) by auto
  then have p: "parent n m < n" using laws(2) [OF v, of m] m(1) by simp
  have "ReceiveDefinitions m \<in> set (prog (parent n m))" using inv m q by (auto simp: in_step_def)
  then show ?thesis using next_exchange(2) [OF v inv p] ready_going_up [OF v inv p] by blast
qed

lemma ready_at_mapping:
  assumes v: "valid n" and inv: "in_step n (parent n) (children n) prog" and m: "m < n" "prog m = SendMappings c # as"
  shows "\<exists>i < n. \<exists>j < n. matching i (prog i) j (prog j)"
proof -
  have c: "0 < c" "c < n" "parent n c = m" using next_exchange(5) [OF v inv m(1)] m(2) by blast+
  then have "ReceiveMappings m \<in> set (prog c)" using inv m by (auto simp: in_step_def)
  then consider d bs where "prog c = ReceiveDefinitions d # bs" | q bs where "prog c = SendDefinitions q # bs"
    | bs where "prog c = ReceiveMappings m # bs"
    using next_exchange(4) [OF v inv c(2)] by blast
  then show ?thesis
  proof cases
    case 1
    then show ?thesis by (rule ready_going_up [OF v inv c(2)])
  next
    case 2
    then show ?thesis by (rule ready_at_send [OF v inv c(2)])
  next
    case 3
    then have "matching m (prog m) c (prog c)" using m(2) by simp
    then show ?thesis using c(2) m(1) by blast
  qed
qed

lemma ready_going_down:
  assumes v: "valid n" and inv: "in_step n (parent n) (children n) prog"
  shows "m < n \<Longrightarrow> prog m = ReceiveMappings q # as \<Longrightarrow> \<exists>i < n. \<exists>j < n. matching i (prog i) j (prog j)"
proof (induction m arbitrary: q as rule: less_induct)
  case (less m)
  have q: "q = parent n m" "0 < m" using next_exchange(1) [OF v inv less.prems(1)] less.prems(2) by auto
  then have p: "parent n m < m" "parent n m < n" using laws(2) [OF v, of m] less.prems(1) by simp_all
  have "SendMappings m \<in> set (prog (parent n m))" using inv less.prems q by (auto simp: in_step_def)
  then show ?case
    using next_exchange(1) [OF v inv p(2)] ready_going_up [OF v inv p(2)] ready_at_send [OF v inv p(2)]
      ready_at_mapping [OF v inv p(2)] less.IH [OF p] by fastforce
qed

text \<open>Some two sides are ready, as long as one is not at its end.\<close>

lemma some_ready:
  assumes v: "valid n" and inv: "in_step n (parent n) (children n) prog" and m: "m < n" "prog m \<noteq> []"
  shows "\<exists>i < n. \<exists>j < n. matching i (prog i) j (prog j)"
  using next_exchange(1) [OF v inv m(1)] m(2) ready_going_up [OF v inv m(1)] ready_at_send [OF v inv m(1)]
    ready_going_down [OF v inv m(1)] ready_at_mapping [OF v inv m(1)] by blast

lemma number_of_exchanges:
  assumes v: "valid n" and n: "0 < n"
  shows "(\<Sum>m < n. length (prog0 n m)) = 4 * (n - 1)"
proof -
  have ch: "length (children n m) = card {c \<in> {1..<n}. parent n c = m}" if "m < n" for m
  proof -
    have "set (children n m) = {c \<in> {1..<n}. parent n c = m}"
      unfolding set_eq_iff mem_Collect_eq atLeastLessThan_iff laws(4) [OF v that] One_nat_def Suc_le_eq by blast
    then show ?thesis using distinct_card [OF laws(3) [OF v that]] by simp
  qed
  have "(\<Sum>m < n. length (children n m)) = (\<Sum>m < n. \<Sum>c \<in> {c \<in> {1..<n}. parent n c = m}. 1)"
    by (rule sum.cong) (simp_all add: ch)
  also have "\<dots> = (\<Sum>c \<in> {1..<n}. 1)"
  proof (rule sum.group)
    show "parent n ` {1..<n} \<subseteq> {..<n}"
    proof (rule image_subsetI)
      fix c assume "c \<in> {1..<n}"
      then show "parent n c \<in> {..<n}" using laws(2) [OF v, of c] by simp
    qed
  qed simp_all
  finally have c: "(\<Sum>m < n. length (children n m)) = n - 1" by simp
  have len: "length (prog0 n m) = 2 * length (children n m) + (if m = 0 then 0 else 2)" if "m < n" for m
    using laws(1) [OF v] laws(2) [OF v, of m] that by (cases "m = 0") (auto simp: exchanges_def)
  have "(\<Sum>m < n. length (prog0 n m)) = 2 * (n - 1) + (\<Sum>m < n. if m = 0 then 0 else 2)"
    by (subst sum.cong [OF refl len]) (simp_all add: sum.distrib c flip: sum_distrib_left)
  also have "(\<Sum>m < n. if m = 0 then 0 else 2) = 2 * (n - 1)"
    using n by (cases n) (simp_all add: sum.lessThan_Suc_shift del: sum.lessThan_Suc)
  finally show ?thesis by simp
qed

end

section \<open>The partners of the code form such a tree\<close>

lemma partners_tree:
  assumes "0 < n \<and> n \<le> 2 ^ 30"
  shows "tree_laws n (comm_parent n) (comm_children n)"
proof -
  have P: "(if m = 0 then comm_parent n m = 0 else edge (comm_parent n m) m)" "sorted_wrt (<) (comm_children n m)"
    "\<And>c. c \<in> set (comm_children n m) \<longleftrightarrow> edge m c \<and> c < n" if "m < n" for m
    using comm_partners_edges [OF that] assms by blast+
  show ?thesis
    unfolding tree_laws_def
  proof (intro conjI allI impI)
    show "comm_parent n 0 = 0" using P(1) [of 0] assms by simp
    show "comm_parent n m < m" if "0 < m \<and> m < n" for m using P(1) [of m] that edge_less by auto
    show "distinct (comm_children n m)" if "m < n" for m using P(2) [OF that] by (simp add: strict_sorted_iff)
    show "c \<in> set (comm_children n m) \<longleftrightarrow> 0 < c \<and> c < n \<and> comm_parent n c = m" if "m < n" for m c
      using P(3) [OF that, of c] P(1) [of c] edge_less [of m c] edge_unique [of m c "comm_parent n c"] by (cases "c < n") auto
  qed
qed

interpretation hypercube: comm_tree "\<lambda>n. 0 < n \<and> n \<le> 2 ^ 30" comm_parent comm_children
  by unfold_locales (rule partners_tree)

lemma unify_program:
  assumes "m < n" "n \<le> 2 ^ 30"
  shows "unify_mpp_hierarchical n m = Some (exchanges m (comm_parent n m) (comm_children n m))"
proof -
  note P = comm_partners_edges [OF assms]
  have small: "c < 2 ^ 32" if "c < n" for c using that assms(2) by simp
  have "comm_parent n m < n" using P edge_less [of "comm_parent n m" m] assms(1) by (cases "m = 0") auto
  then have p: "unat (of_nat (comm_parent n m) :: u32) = comm_parent n m" by (intro unat_of_small small)
  have those: "those (map (\<lambda>c. Some (f c)) xs) = Some (map f xs)" for f :: "nat \<Rightarrow> u32" and xs by (induction xs) auto
  have "map (\<lambda>c. unat (of_nat c :: u32)) (comm_children n m) = comm_children n m"
    using P small by (intro map_idI unat_of_small) blast
  then show ?thesis using P p by (simp add: unify_mpp_hierarchical_def those comp_def)
qed

lemma communicate_program:
  assumes "communicate i j st = Some st'" "i \<noteq> j"
  shows "(\<lambda>m. program (st' m)) = (\<lambda>m. program (st m))(i := tl (program (st i)), j := tl (program (st j)))"
  using assms
proof -
  obtain a b where ab: "(case hd (program (st i)) of SendDefinitions _ \<Rightarrow> exchange_definitions (st i) i (st j)
      | _ \<Rightarrow> exchange_mappings (st i) j (st j)) = Some (a, b)" and st': "st' = st(i := a, j := b)"
    using assms(1) by (auto simp: communicate_def bind_Some_iff)
  have "program a = tl (program (st i)) \<and> program b = tl (program (st j))"
    using ab by (auto simp: exchange_definitions_def exchange_mappings_def bind_Some_iff split: exchange.splits)
  then show ?thesis using assms(2) by (simp add: st' fun_eq_iff)
qed

lemma run_in_step:
  assumes "mpp_run n ws k st" "0 < n" "n \<le> 2 ^ 30"
  shows "in_step n (comm_parent n) (comm_children n) (\<lambda>m. program (st m)) \<and> (\<Sum>m < n. length (program (st m))) + 2 * k = 4 * (n - 1)"
  using assms(1)
proof (induction rule: mpp_run.induct)
  case start
  have p: "program (start_processes n ws m) = exchanges m (comm_parent n m) (comm_children n m)" if "m < n" for m
    using unify_program [OF that assms(3)] by (simp add: start_processes_def)
  have "in_step n (comm_parent n) (comm_children n) (\<lambda>m. exchanges m (comm_parent n m) (comm_children n m))"
    using hypercube.start_in_step assms by blast
  moreover have "comm_parent n c < n" if "c < n" "0 < c" for c using hypercube.laws(2) [of n c] that assms by simp
  ultimately have "in_step n (comm_parent n) (comm_children n) (\<lambda>m. program (start_processes n ws m))"
    using p unfolding in_step_def by simp
  then show ?case using hypercube.number_of_exchanges [of n] assms p by simp
next
  case (step k st i j st')
  let ?p = "\<lambda>m. program (st m)"
  have v: "0 < n \<and> n \<le> 2 ^ 30" using assms by simp
  note E = hypercube.exchange_in_step [OF v _ step.hyps(2,3), of ?p]
  have ne: "i \<noteq> j" and inv: "in_step n (comm_parent n) (comm_children n) (?p(i := tl (?p i), j := tl (?p j)))"
    using E step by auto
  note P = communicate_program [OF step.hyps(5) ne]
  have nonempty: "?p i \<noteq> []" "?p j \<noteq> []" using step.hyps(4) by (cases "(i, ?p i, j, ?p j)" rule: matching.cases; simp)+
  have "(\<Sum>m < n. length ((?p(i := tl (?p i), j := tl (?p j))) m)) + 2 = (\<Sum>m < n. length (?p m))"
  proof -
    let ?q = "?p(i := tl (?p i), j := tl (?p j))"
    have split: "(\<Sum>m < n. length (f m)) = length (f i) + (length (f j) + (\<Sum>m \<in> {..<n} - {i} - {j}. length (f m)))" for f :: "nat \<Rightarrow> exchange list"
      using step.hyps(2,3) ne by (simp add: sum.remove [of "{..<n}" i] sum.remove [of "{..<n} - {i}" j])
    have "(\<Sum>m \<in> {..<n} - {i} - {j}. length (?q m)) = (\<Sum>m \<in> {..<n} - {i} - {j}. length (?p m))" by (rule sum.cong) auto
    then show ?thesis using nonempty ne unfolding split [of ?q] split [of ?p] by (cases "?p i"; cases "?p j") auto
  qed
  then have "(\<Sum>m < n. length (program (st' m))) + 2 = (\<Sum>m < n. length (?p m))" using fun_cong [OF P] by simp
  then show ?case using inv step.IH unfolding P by simp
qed

text \<open>
  C21. The unification of all processes cannot deadlock, and it ends: as long as it is not finished, some process is about to
  send what another one is about to receive from it, whatever exchanges were made before; the processes are finished
  exactly after twice the number of processes less one exchanges.
\<close>

theorem mpp_unification_progress:
  assumes "0 < n" and "n \<le> 2 ^ 30" and "mpp_run n ws k st"
  shows "(k < 2 * (n - 1) \<longrightarrow> (\<exists>i < n. \<exists>j < n. matching i (program (st i)) j (program (st j)))) \<and>
    k \<le> 2 * (n - 1) \<and> (k = 2 * (n - 1) \<longleftrightarrow> (\<forall>m < n. program (st m) = []))"
proof -
  have inv: "in_step n (comm_parent n) (comm_children n) (\<lambda>m. program (st m))"
    and sum: "(\<Sum>m < n. length (program (st m))) + 2 * k = 4 * (n - 1)" using run_in_step [OF assms(3,1,2)] by auto
  have zero: "(\<Sum>m < n. length (program (st m))) = 0 \<longleftrightarrow> (\<forall>m < n. program (st m) = [])" by auto
  have "\<exists>i < n. \<exists>j < n. matching i (program (st i)) j (program (st j))" if k: "k < 2 * (n - 1)"
  proof -
    have "(\<Sum>m < n. length (program (st m))) \<noteq> 0" using sum k by linarith
    then obtain m where "m < n" "program (st m) \<noteq> []" using zero by metis
    then show ?thesis using hypercube.some_ready [OF _ inv] assms(1,2) by blast
  qed
  moreover have "k \<le> 2 * (n - 1)" "k = 2 * (n - 1) \<longleftrightarrow> (\<Sum>m < n. length (program (st m))) = 0" using sum by linarith+
  ultimately show ?thesis unfolding zero by blast
qed


lemma mpp_unification_progress_witness:
  "\<forall>ws. \<exists>i < 5. \<exists>j < 5. matching i (program (start_processes 5 ws i)) j (program (start_processes 5 ws j))"
proof
  fix ws
  show "\<exists>i < 5. \<exists>j < 5. matching i (program (start_processes 5 ws i)) j (program (start_processes 5 ws j))"
    using mpp_unification_progress [OF _ _ mpp_run.start [of 5 ws]] by simp
qed

end
