(* ===== verification/Scorep_Unify_Mpp_Props.thy ===== *)
theory Scorep_Unify_Mpp_Props
  imports Scorep_Unify_Mpp
begin

text \<open>
  The mappings after the unification of all processes: what each process gets from its parent is its parent's mapping
  applied to the numbers that the parent assigned, so that the identifiers of a process lead to the definitions of rank 0.
\<close>

section \<open>Applying mappings\<close>

definition through :: "u32 list \<Rightarrow> u32 list \<Rightarrow> u32 list" where
  "through um mp = (if um = [] then mp else map (\<lambda>i. um ! unat i) mp)"

lemma apply_mapping_Some: "apply_mapping um mp = Some r \<longleftrightarrow> (\<forall>i \<in> set mp. unat i < length um) \<and> r = map (\<lambda>i. um ! unat i) mp"
  by (induction mp arbitrary: r) (auto simp: bind_Some_iff arr_get_Some)

lemma apply_mapping_if_valid_Some:
  "apply_mapping_if_valid um mp = Some r \<longleftrightarrow>
     (\<forall>i \<in> set mp. i \<noteq> -1 \<longrightarrow> unat i < length um) \<and> r = map (\<lambda>i. if i = -1 then i else um ! unat i) mp"
  by (induction mp arbitrary: r) (auto simp: bind_Some_iff arr_get_Some)

lemma apply_kinds_other: "apply_kinds f m ks mgr = Some mgr' \<Longrightarrow> k \<notin> set ks \<Longrightarrow> mgr' k = mgr k"
  by (induction ks arbitrary: mgr) (auto simp: bind_Some_iff)

lemma apply_kinds_counter: "apply_kinds f m ks mgr = Some mgr' \<Longrightarrow> counter (mgr' k) = counter (mgr k)"
proof (induction ks arbitrary: mgr)
  case (Cons x ks)
  then obtain mp where "apply_kinds f m ks (mgr(x := (mgr x)\<lparr>mapping := mp\<rparr>)) = Some mgr'" by (auto simp: bind_Some_iff)
  then show ?case using Cons.IH by fastforce
qed simp

lemma apply_kinds_mapping:
  "apply_kinds f m ks mgr = Some mgr' \<Longrightarrow> distinct ks \<Longrightarrow> k \<in> set ks \<Longrightarrow>
   (if counter (mgr k) > 0 \<and> mapping (m k) \<noteq> [] then f (mapping (m k)) (mapping (mgr k)) = Some (mapping (mgr' k))
    else mapping (mgr' k) = mapping (mgr k))"
proof (induction ks arbitrary: mgr)
  case (Cons x ks)
  then obtain mp where mp: "(if counter (mgr x) > 0 \<and> mapping (m x) \<noteq> [] then f (mapping (m x)) (mapping (mgr x)) else Some (mapping (mgr x))) = Some mp"
    and rest: "apply_kinds f m ks (mgr(x := (mgr x)\<lparr>mapping := mp\<rparr>)) = Some mgr'" by (auto simp: bind_Some_iff)
  show ?case
  proof (cases "k = x")
    case True
    then have "mgr' k = (mgr x)\<lparr>mapping := mp\<rparr>" using apply_kinds_other [OF rest, of k] Cons.prems(2) by simp
    then show ?thesis using mp True by (auto split: if_splits)
  next
    case False
    then show ?thesis using Cons.IH [OF rest] Cons.prems by auto
  qed
qed simp

lemma mapped_kinds_distinct: "distinct mapped_kinds"
  by (simp add: mapped_kinds_def)

section \<open>What is left of a program\<close>

lemma later_exchanges:
  assumes "suffix ps (exchanges m p cs)" "ps \<noteq> []"
  shows "(\<exists>c. hd ps = ReceiveDefinitions c) \<Longrightarrow> p \<noteq> m \<Longrightarrow> SendDefinitions p \<in> set ps \<and> ReceiveMappings p \<in> set ps"
    and "(\<exists>q. hd ps = SendDefinitions q) \<Longrightarrow> ReceiveMappings p \<in> set ps"
    and "\<not> (\<exists>q. hd ps = SendMappings q) \<Longrightarrow> c \<in> set cs \<Longrightarrow> SendMappings c \<in> set ps"
  using exchanges_from [OF assms(1)] assms(2) by (auto split: if_splits)

section \<open>The invariant of the mappings\<close>

definition same_definitions :: "manager \<Rightarrow> manager \<Rightarrow> bool" where
  "same_definitions m m' \<longleftrightarrow> (\<forall>k. chain (m k) = chain (m' k) \<and> counter (m k) = counter (m' k))"

text \<open>The numbers \<open>A c k\<close> that the parent assigned to the definitions of kind \<open>k\<close> it received from \<open>c\<close>.\<close>

definition assigned :: "nat \<Rightarrow> (nat \<Rightarrow> process) \<Rightarrow> (nat \<Rightarrow> mappings) \<Rightarrow> nat \<Rightarrow> bool" where
  "assigned n st A c \<longleftrightarrow> (\<exists>m um w w' remote. unified_manager (definitions (st c)) = Some um \<and> same_definitions m um \<and>
     receive_and_unify_remote_definitions m (memory (definitions (st c)) 0) w = Some (remote, w') \<and> A c = (\<lambda>k. mapping (remote k)) \<and>
     (SendMappings c \<in> set (program (st (comm_parent n c))) \<longrightarrow> remote_managers (st (comm_parent n c)) c = Some remote))"

definition passed_down :: "nat \<Rightarrow> (nat \<Rightarrow> process) \<Rightarrow> (nat \<Rightarrow> mappings) \<Rightarrow> nat \<Rightarrow> bool" where
  "passed_down n st A c \<longleftrightarrow> (\<exists>um up. unified_manager (definitions (st c)) = Some um \<and>
     unified_manager (definitions (st (comm_parent n c))) = Some up \<and>
     (\<forall>k \<in> set mapped_kinds. counter (um k) > 0 \<longrightarrow> mapping (um k) = through (mapping (up k)) (A c k)))"

definition mappings_ok :: "nat \<Rightarrow> (nat \<Rightarrow> process) \<Rightarrow> (nat \<Rightarrow> mappings) \<Rightarrow> bool" where
  "mappings_ok n st A \<longleftrightarrow> (\<forall>c. 0 < c \<and> c < n \<longrightarrow>
     (ReceiveDefinitions c \<notin> set (program (st (comm_parent n c))) \<longrightarrow> assigned n st A c) \<and>
     (ReceiveMappings (comm_parent n c) \<notin> set (program (st c)) \<longrightarrow> passed_down n st A c))"

text \<open>The remote manager keeps the counters.\<close>

lemma remote_counter:
  assumes "receive_and_unify_remote_definitions m pages w = Some (remote, w')"
  shows "counter (remote k) = counter (m k)"
proof -
  have "counter (mgr' k) = counter (mgr k)" if "assign_mappings w pm ks mgr = Some mgr'" for w pm ks mgr mgr'
    using that
  proof (induction ks arbitrary: mgr)
    case (Cons x ks)
    then obtain mp where "assign_mappings w pm ks (mgr(x := (mgr x)\<lparr>mapping := mp\<rparr>)) = Some mgr'" by (auto simp: bind_Some_iff)
    then show ?case using Cons.IH by fastforce
  qed simp
  then show ?thesis using assms
    by (auto simp: receive_and_unify_remote_definitions_def AssignDefinitionMappingsFromUnified_def CreateDefinitionMappings_def
        alloc_mapping_def bind_Some_iff Let_def)
qed

lemma sent_mappings:
  assumes a: "apply_and_send_mappings w remote = Some (msg, remote')" and u: "unified_manager w = Some up"
    and r: "receive_mappings msg w1 = Some w1'" and um: "unified_manager w1 = Some um"
    and c: "\<And>k. counter (remote k) = counter (um k)"
  shows "\<exists>um'. unified_manager w1' = Some um' \<and> same_definitions um um' \<and> memory w1' = memory w1 \<and>
    (\<forall>k \<in> set mapped_kinds. counter (um' k) > 0 \<longrightarrow> mapping (um' k) = through (mapping (up k)) (mapping (remote k)))"
proof -
  have ap: "apply_kinds apply_mapping up mapped_kinds remote = Some remote'"
    and msg: "msg = (\<lambda>k. if counter (remote' k) > 0 then mapping (remote' k) else [])"
    using a u by (auto simp: apply_and_send_mappings_def bind_Some_iff)
  let ?um = "\<lambda>k. if k \<in> set mapped_kinds \<and> counter (um k) > 0 then (um k)\<lparr>mapping := msg k\<rparr> else um k"
  have w1': "w1' = w1\<lparr>unified_manager := Some ?um\<rparr>" using r um by (auto simp: receive_mappings_def bind_Some_iff split: if_splits)
  have "mapping (remote' k) = through (mapping (up k)) (mapping (remote k))" if "k \<in> set mapped_kinds" "counter (um k) > 0" for k
    using apply_kinds_mapping [OF ap mapped_kinds_distinct that(1)] that(2) c [of k]
    by (auto simp: through_def apply_mapping_Some split: if_splits)
  then have "\<forall>k \<in> set mapped_kinds. counter (?um k) > 0 \<longrightarrow> mapping (?um k) = through (mapping (up k)) (mapping (remote k))"
    using apply_kinds_counter [OF ap] c by (simp add: msg)
  then show ?thesis by (intro exI [of _ ?um]) (simp add: w1' same_definitions_def)
qed

lemma same_definitions_trans: "same_definitions a b \<Longrightarrow> same_definitions b c \<Longrightarrow> same_definitions a c"
  by (simp add: same_definitions_def)


section \<open>Each exchange keeps it\<close>

text \<open>What in-step programs say of a process whose next exchange is known.\<close>

lemma in_step_next:
  assumes v: "0 < n \<and> n \<le> 2 ^ 30" and inv: "in_step n (comm_parent n) (comm_children n) prog" and m: "m < n" "prog m = e # es"
  shows "(\<exists>c. e = ReceiveDefinitions c) \<Longrightarrow> 0 < m \<Longrightarrow>
      SendDefinitions (comm_parent n m) \<in> set (prog m) \<and> ReceiveMappings (comm_parent n m) \<in> set (prog m)"
    and "(\<exists>q. e = SendDefinitions q) \<Longrightarrow> ReceiveMappings (comm_parent n m) \<in> set (prog m)"
    and "\<not> (\<exists>q. e = SendMappings q) \<Longrightarrow> 0 < c \<Longrightarrow> c < n \<Longrightarrow> comm_parent n c = m \<Longrightarrow>
      SendMappings c \<in> set (prog m) \<and> ReceiveMappings m \<in> set (prog c)"
proof -
  have suf: "suffix (prog m) (exchanges m (comm_parent n m) (comm_children n m))" using inv m(1) by (simp add: in_step_def)
  have ne: "prog m \<noteq> []" "hd (prog m) = e" using m(2) by simp_all
  have p: "0 < m \<Longrightarrow> comm_parent n m \<noteq> m" using hypercube.laws(2) [OF v, of m] m(1) by auto
  show "(\<exists>c. e = ReceiveDefinitions c) \<Longrightarrow> 0 < m \<Longrightarrow>
      SendDefinitions (comm_parent n m) \<in> set (prog m) \<and> ReceiveMappings (comm_parent n m) \<in> set (prog m)"
    using later_exchanges(1) [OF suf ne(1)] p ne(2) by blast
  show "(\<exists>q. e = SendDefinitions q) \<Longrightarrow> ReceiveMappings (comm_parent n m) \<in> set (prog m)"
    using later_exchanges(2) [OF suf ne(1)] ne(2) by blast
  assume c: "\<not> (\<exists>q. e = SendMappings q)" "0 < c" "c < n" "comm_parent n c = m"
  then have "c \<in> set (comm_children n m)" using hypercube.laws(4) [OF v m(1)] by blast
  then have "SendMappings c \<in> set (prog m)" using later_exchanges(3) [OF suf ne(1), of c] c(1) ne(2) by blast
  then show "SendMappings c \<in> set (prog m) \<and> ReceiveMappings m \<in> set (prog c)" using inv c by (auto simp: in_step_def)
qed

text \<open>The exchange concerns the edge between its two processes; all other edges keep what they have.\<close>

lemma assigned_cong:
  assumes "assigned n st A c" "definitions (st' c) = definitions (st c)" "A' c = A c"
    and "SendMappings c \<in> set (program (st' (comm_parent n c))) \<Longrightarrow> SendMappings c \<in> set (program (st (comm_parent n c))) \<and>
      remote_managers (st' (comm_parent n c)) c = remote_managers (st (comm_parent n c)) c"
  shows "assigned n st' A' c"
  using assms unfolding assigned_def by metis

lemma passed_down_cong:
  assumes "passed_down n st A c" "definitions (st' c) = definitions (st c)"
    "definitions (st' (comm_parent n c)) = definitions (st (comm_parent n c))" "A' c = A c"
  shows "passed_down n st' A' c"
  using assms unfolding passed_down_def by metis

lemma definitions_step:
  assumes v: "0 < n \<and> n \<le> 2 ^ 30" and inv: "in_step n (comm_parent n) (comm_children n) (\<lambda>m. program (st m))"
    and ij: "i < n" "j < n" "i \<noteq> j" and ok: "mappings_ok n st A"
    and heads: "program (st i) = SendDefinitions j # as" "program (st j) = ReceiveDefinitions i # bs"
    and ex: "exchange_definitions (st i) i (st j) = Some (a, b)"
  shows "\<exists>A. mappings_ok n (st(i := a, j := b)) A"
proof -
  let ?st = "st(i := a, j := b)"
  obtain m pages w remote w' where s: "send_local_unified_definitions_to_parent (definitions (st i)) = Some (m, pages, w)"
    and r: "receive_and_unify_remote_definitions m pages (definitions (st j)) = Some (remote, w')"
    and a: "a = (st i)\<lparr>definitions := w, program := as\<rparr>"
    and b: "b = (st j)\<lparr>definitions := w', remote_managers := (remote_managers (st j))(i \<mapsto> remote), program := bs\<rparr>"
    using ex heads by (auto simp: exchange_definitions_def bind_Some_iff)
  have up: "unified_manager w = Some (CreateDefinitionMappings m)" "pages = memory w 0"
    using s by (auto simp: send_local_unified_definitions_to_parent_def bind_Some_iff)
  have pi: "comm_parent n i = j" "0 < i" using hypercube.next_exchange(5) [OF v inv ij(2), of i bs] heads(2) by auto
  let ?A = "A(i := (\<lambda>k. mapping (remote k)))"
  have prog: "set (program (?st m)) \<subseteq> set (program (st m))" "m \<noteq> i \<Longrightarrow> m \<noteq> j \<Longrightarrow> ?st m = st m" for m
    using heads ij(3) by (auto simp: a b)
  have prog_i: "program (?st i) = as" "program (?st j) = bs" using ij(3) by (simp_all add: a b)
  have mem: "e \<in> set (program (?st m)) \<longleftrightarrow> e \<in> set (program (st m))" if "e \<noteq> SendDefinitions j" "e \<noteq> ReceiveDefinitions i" for e m
    using heads ij(3) that by (cases "m = i"; cases "m = j") (auto simp: a b)
  have "mappings_ok n ?st ?A"
    unfolding mappings_ok_def
  proof (intro allI impI conjI)
    fix c assume c: "0 < c \<and> c < n"
    let ?p = "comm_parent n c"
    show "assigned n ?st ?A c" if "ReceiveDefinitions c \<notin> set (program (?st ?p))"
    proof (cases "c = i")
      case True
      have "same_definitions m (CreateDefinitionMappings m)"
        by (simp add: same_definitions_def CreateDefinitionMappings_def alloc_mapping_def)
      then show ?thesis using True up r ij(3) pi(1) unfolding assigned_def by (auto simp: a b)
    next
      case False
      then have old: "ReceiveDefinitions c \<notin> set (program (st ?p))" using that mem [of "ReceiveDefinitions c" ?p] by simp
      have "c \<noteq> j"
      proof
        assume "c = j"
        then have "SendDefinitions ?p \<in> set (program (st c))" using in_step_next(1) [OF v inv ij(2) heads(2)] c by simp
        then show False using old inv c by (simp add: in_step_def)
      qed
      have "assigned n st A c" using ok old c by (simp add: mappings_ok_def)
      then show ?thesis
        by (rule assigned_cong) (use False \<open>c \<noteq> j\<close> mem [of "SendMappings c" ?p] ij(3) in \<open>auto simp: a b\<close>)
    qed
    assume "ReceiveMappings ?p \<notin> set (program (?st c))"
    then have old: "ReceiveMappings ?p \<notin> set (program (st c))" using mem [of "ReceiveMappings ?p" c] by simp
    have "c \<noteq> i" using in_step_next(2) [OF v inv ij(1) heads(1)] old by auto
    moreover have "c \<noteq> j" using in_step_next(1) [OF v inv ij(2) heads(2)] old c by auto
    moreover have "?p \<noteq> i" using in_step_next(3) [OF v inv ij(1) heads(1), of c] old c by auto
    moreover have "?p \<noteq> j" using in_step_next(3) [OF v inv ij(2) heads(2), of c] old c by auto
    moreover have "passed_down n st A c" using ok old c by (simp add: mappings_ok_def)
    ultimately have "?st c = st c" "?st ?p = st ?p" "?A c = A c" "passed_down n st A c" by simp_all
    then show "passed_down n ?st ?A c" using passed_down_cong by metis
  qed
  then show ?thesis by blast
qed

lemma mappings_step:
  assumes v: "0 < n \<and> n \<le> 2 ^ 30" and inv: "in_step n (comm_parent n) (comm_children n) (\<lambda>m. program (st m))"
    and ij: "i < n" "j < n" "i \<noteq> j" and ok: "mappings_ok n st A"
    and heads: "program (st i) = SendMappings j # as" "program (st j) = ReceiveMappings i # bs"
    and ex: "exchange_mappings (st i) j (st j) = Some (a, b)"
  shows "mappings_ok n (st(i := a, j := b)) A"
proof -
  let ?st = "st(i := a, j := b)"
  obtain remote msg remote' w where r: "remote_managers (st i) j = Some remote"
    and s: "apply_and_send_mappings (definitions (st i)) remote = Some (msg, remote')"
    and rc: "receive_mappings msg (definitions (st j)) = Some w"
    and a: "a = (st i)\<lparr>remote_managers := (remote_managers (st i))(j \<mapsto> remote'), program := as\<rparr>"
    and b: "b = (st j)\<lparr>definitions := w, program := bs\<rparr>"
    using ex heads by (auto simp: exchange_mappings_def bind_Some_iff)
  have pj: "comm_parent n j = i" "0 < j" using hypercube.next_exchange(5) [OF v inv ij(1), of j as] heads(1) by auto
  have mem: "e \<in> set (program (?st m)) \<longleftrightarrow> e \<in> set (program (st m))" if "e \<noteq> SendMappings j" "e \<noteq> ReceiveMappings i" for e m
    using heads ij(3) that by (cases "m = i"; cases "m = j") (auto simp: a b)
  have "ReceiveDefinitions j \<notin> set (program (st i))" using hypercube.next_exchange(2) [OF v inv ij(1), of j] heads(1) by auto
  then have "assigned n st A j" using ok pj ij(2) by (simp add: mappings_ok_def)
  then obtain m um w1 w2 where um: "unified_manager (definitions (st j)) = Some um" "same_definitions m um"
    and rec: "receive_and_unify_remote_definitions m (memory (definitions (st j)) 0) w1 = Some (remote, w2)"
    and A: "A j = (\<lambda>k. mapping (remote k))"
    using r heads(1) by (auto simp: assigned_def pj)
  obtain up where up: "unified_manager (definitions (st i)) = Some up"
    using s by (auto simp: apply_and_send_mappings_def bind_Some_iff)
  have cnt: "counter (remote k) = counter (um k)" for k
    using remote_counter [OF rec] um(2) by (simp add: same_definitions_def)
  obtain um' where um': "unified_manager w = Some um'" "same_definitions um um'" "memory w = memory (definitions (st j))"
      "\<forall>k \<in> set mapped_kinds. counter (um' k) > 0 \<longrightarrow> mapping (um' k) = through (mapping (up k)) (mapping (remote k))"
    using sent_mappings [OF s up rc um(1) cnt] by blast
  show ?thesis
    unfolding mappings_ok_def
  proof (intro allI impI conjI)
    fix c assume c: "0 < c \<and> c < n"
    let ?p = "comm_parent n c"
    show "assigned n ?st A c" if "ReceiveDefinitions c \<notin> set (program (?st ?p))"
    proof (cases "c = j")
      case True
      have "SendMappings j \<notin> set as"
      proof -
        have "suffix (program (st i)) (exchanges i (comm_parent n i) (comm_children n i))" using inv ij(1) by (simp add: in_step_def)
        then have "distinct (program (st i))" using hypercube.distinct_exchanges [OF v ij(1)] by (auto simp: suffix_def)
        then show ?thesis using heads(1) by simp
      qed
      then show ?thesis
        unfolding True assigned_def
        using um' same_definitions_trans [OF um(2) um'(2)] rec A pj ij(3) by (auto simp: a b)
    next
      case False
      then have "assigned n st A c" using ok that mem [of "ReceiveDefinitions c" ?p] c by (simp add: mappings_ok_def)
      then show ?thesis
        by (rule assigned_cong) (use False mem [of "SendMappings c" ?p] ij(3) in \<open>auto simp: a b\<close>)
    qed
    assume new: "ReceiveMappings ?p \<notin> set (program (?st c))"
    show "passed_down n ?st A c"
    proof (cases "c = j")
      case True
      then show ?thesis unfolding passed_down_def using um' up A pj ij(3) by (auto simp: a b)
    next
      case False
      have old: "ReceiveMappings ?p \<notin> set (program (st c))"
        using new False heads ij(3) by (cases "c = i") (auto simp: a b)
      then have "?p \<noteq> j" using in_step_next(3) [OF v inv ij(2) heads(2), of c] c by auto
      then have p: "definitions (?st ?p) = definitions (st ?p)" by (cases "?p = i") (simp_all add: a)
      have d: "definitions (?st c) = definitions (st c)" using False by (cases "c = i") (simp_all add: a)
      have "passed_down n st A c" using ok old c by (simp add: mappings_ok_def)
      then show ?thesis using passed_down_cong [OF _ d p] by blast
    qed
  qed
qed

lemma run_mappings:
  assumes "mpp_run n ws k st" "0 < n" "n \<le> 2 ^ 30"
  shows "\<exists>A. mappings_ok n st A"
  using assms(1)
proof (induction rule: mpp_run.induct)
  case start
  have v: "0 < n \<and> n \<le> 2 ^ 30" using assms by simp
  have inv: "in_step n (comm_parent n) (comm_children n) (\<lambda>m. program (start_processes n ws m))"
    using run_in_step [OF mpp_run.start assms(2,3)] by blast
  have "ReceiveMappings (comm_parent n c) \<in> set (program (start_processes n ws c)) \<and>
      ReceiveDefinitions c \<in> set (program (start_processes n ws (comm_parent n c)))" if c: "0 < c \<and> c < n" for c
  proof -
    have p: "comm_parent n c < c" using hypercube.laws(2) [OF v, of c] c by simp
    have "program (start_processes n ws c) = exchanges c (comm_parent n c) (comm_children n c)"
      using unify_program [of c n] c assms(3) by (simp add: start_processes_def)
    then have "SendDefinitions (comm_parent n c) \<in> set (program (start_processes n ws c))"
      "ReceiveMappings (comm_parent n c) \<in> set (program (start_processes n ws c))"
      using p by (simp_all add: exchanges_def)
    then show ?thesis using inv c by (simp add: in_step_def)
  qed
  then show ?case unfolding mappings_ok_def by blast
next
  case (step k st i j st')
  then obtain A where A: "mappings_ok n st A" by blast
  have v: "0 < n \<and> n \<le> 2 ^ 30" using assms by simp
  have inv: "in_step n (comm_parent n) (comm_children n) (\<lambda>m. program (st m))" using run_in_step [OF step.hyps(1) assms(2,3)] by blast
  have ne: "i \<noteq> j" by (rule hypercube.exchange_in_step(2) [OF v inv step.hyps(2-4)])
  obtain a b where ab: "(case hd (program (st i)) of SendDefinitions _ \<Rightarrow> exchange_definitions (st i) i (st j)
      | _ \<Rightarrow> exchange_mappings (st i) j (st j)) = Some (a, b)" and st': "st' = st(i := a, j := b)"
    using step.hyps(5) by (auto simp: communicate_def bind_Some_iff)
  consider as bs where "program (st i) = SendDefinitions j # as" "program (st j) = ReceiveDefinitions i # bs"
    | as bs where "program (st i) = SendMappings j # as" "program (st j) = ReceiveMappings i # bs"
    using step.hyps(4) by (cases "(i, program (st i), j, program (st j))" rule: matching.cases) auto
  then show ?case
  proof cases
    case 1
    have "exchange_definitions (st i) i (st j) = Some (a, b)" using ab 1(1) by simp
    then show ?thesis unfolding st' by (rule definitions_step [OF v inv step.hyps(2,3) ne A 1])
  next
    case 2
    have "exchange_mappings (st i) j (st j) = Some (a, b)" using ab 2(1) by simp
    then show ?thesis unfolding st' using mappings_step [OF v inv step.hyps(2,3) ne A 2] by blast
  qed
qed



section \<open>Two processes\<close>

definition example_world :: defs where
  "example_world = \<lparr>memory = (\<lambda>pm. []), local_manager = (\<lambda>k. init_entry), unified_manager = Some (\<lambda>k. init_entry),
     announced = [], location_mapping = []\<rparr>"

lemma two_programs: "unify_mpp_hierarchical 2 0 = Some [ReceiveDefinitions 1, SendMappings 1]"
  "unify_mpp_hierarchical 2 1 = Some [SendDefinitions 0, ReceiveMappings 0]"
  "unify_mpp_hierarchical 2 (Suc 0) = Some [SendDefinitions 0, ReceiveMappings 0]"
  by code_simp+

lemma empty_kinds:
  "\<forall>k. chain (m k) = [] \<Longrightarrow> unify_kinds w m pm ks = Some w"
  "\<forall>k. counter (mgr k) = 0 \<Longrightarrow> mgr' = mgr \<Longrightarrow> assign_mappings w pm ks mgr = Some mgr'"
  "\<forall>k. counter (mgr k) = 0 \<Longrightarrow> mgr' = mgr \<Longrightarrow> apply_kinds f m ks mgr = Some mgr'"
proof -
  show "\<forall>k. chain (m k) = [] \<Longrightarrow> unify_kinds w m pm ks = Some w" by (induction ks) auto
  have same: "mgr(k := (mgr k)\<lparr>mapping := mapping (mgr k)\<rparr>) = mgr" for mgr :: manager and k by simp
  show "\<forall>k. counter (mgr k) = 0 \<Longrightarrow> mgr' = mgr \<Longrightarrow> assign_mappings w pm ks mgr = Some mgr'"
    "\<forall>k. counter (mgr k) = 0 \<Longrightarrow> mgr' = mgr \<Longrightarrow> apply_kinds f m ks mgr = Some mgr'"
    by (induction ks) (simp_all add: same)
qed

lemma two_processes: "\<exists>st. mpp_run 2 (\<lambda>r. example_world) 2 st"
proof -
  let ?s = "start_processes 2 (\<lambda>r. example_world)"
  let ?u = "\<lambda>k. init_entry"
  have cm: "CreateDefinitionMappings ?u = ?u"
    by (simp add: CreateDefinitionMappings_def alloc_mapping_def init_entry_def fun_eq_iff)
  have cnt: "\<forall>k. counter (init_entry) = 0" "\<forall>k. chain init_entry = []" by (simp_all add: init_entry_def)
  let ?a = "(?s 1)\<lparr>program := [ReceiveMappings 0]\<rparr>"
  let ?b = "(?s 0)\<lparr>remote_managers := [1 \<mapsto> ?u], program := [SendMappings 1]\<rparr>"
  let ?s1 = "?s(1 := ?a, 0 := ?b)"
  have m0: "(\<lambda>pm. [])(Suc 0 := []) = (\<lambda>pm :: nat. [] :: def_object list)" by auto
  have "exchange_definitions (?s 1) 1 (?s 0) = Some (?a, ?b)"
    using cnt by (simp add: exchange_definitions_def send_local_unified_definitions_to_parent_def receive_and_unify_remote_definitions_def
        start_processes_def two_programs example_world_def cm m0 CopyDefinitionsToUnified_def AssignDefinitionMappingsFromUnified_def empty_kinds)
  then have c1: "communicate 1 0 ?s = Some ?s1" by (simp add: communicate_def start_processes_def two_programs)
  have r1: "mpp_run 2 (\<lambda>r. example_world) (Suc 0) ?s1"
    by (rule mpp_run.step [OF mpp_run.start _ _ _ c1]) (simp_all add: start_processes_def two_programs)
  let ?w = "example_world\<lparr>unified_manager := Some ?u\<rparr>"
  have w: "?w = example_world" by (simp add: example_world_def)
  have "\<exists>a b. exchange_mappings (?s1 0) 1 (?s1 1) = Some (a, b)"
    using cnt by (simp add: exchange_mappings_def apply_and_send_mappings_def receive_mappings_def start_processes_def
        example_world_def empty_kinds list_all_iff)
  then obtain a b where "exchange_mappings (?s1 0) 1 (?s1 1) = Some (a, b)" by blast
  then have "communicate 0 1 ?s1 = Some (?s1(0 := a, 1 := b))" by (simp add: communicate_def)
  then have "mpp_run 2 (\<lambda>r. example_world) (Suc (Suc 0)) (?s1(0 := a, 1 := b))"
    by (intro mpp_run.step [OF r1, of 0 1]) simp_all
  then show ?thesis by (auto simp: numeral_2_eq_2)
qed


end
