(* ===== verification/Scorep_Task.thy ===== *)
theory Scorep_Task
  imports Scorep_Definitions_Manager
begin

text \<open>
  The tasks of the locations and their stacks of entered regions, \<open>src/src/measurement/SCOREP_Task.c\<close>,
  and the enter and exit of a region in \<open>SCOREP_Events.c\<close>, which push and pop it.

  A stack is a linked list of frames with room for 30 regions. Frames and tasks are recycled: a location keeps
  lists of free ones, and a task that runs on several locations takes its frames from one and gives them back to
  another. So the model keeps the memory: \<open>frames\<close> and \<open>tasks\<close> hold everything
  allocated so far and a pointer is an index. A cell of a new frame and the parent hash of a new task are
  \<open>None\<close> until they are written; reading \<open>None\<close> has no result, so what returns reads no memory
  that was not written before. Allocating memory of a location stops the process when there is none
  left, so it is a new cell here. The calls to the substrates are recorded as events. Regions are entered and exited
  as without unwinding.
\<close>

section \<open>Data\<close>

definition SCOREP_TASK_STACK_SIZE :: nat where
  "SCOREP_TASK_STACK_SIZE = 30"

definition SCOREP_FILTERED_REGION :: handle where
  "SCOREP_FILTERED_REGION = 2 ^ 32 - 1"

record task_stack_frame =
  regions :: "handle option list"
  frame_prev :: "nat option"

record task =
  current_frame :: "nat option"
  current_index :: nat
  thread_id :: u32
  generation_number :: u32
  parent_hash_value :: "u32 option"
  task_next :: "nat option"
  substrate_data :: "nat list"

record location_task_data =
  current_task :: "nat option"
  recycled_tasks :: "nat option"
  implicit_task :: "nat option"
  recycled_frames :: "nat option"

datatype task_event =
  CoreTaskCreate nat nat | CoreTaskComplete nat nat | EnterRegion nat handle | ExitRegion nat handle

record task_state =
  frames :: "task_stack_frame list"
  tasks :: "task list"
  subsystem_data :: "nat \<Rightarrow> location_task_data option"
  n_substrates :: nat
  task_events :: "task_event list"

section \<open>Frames and tasks from the free lists\<close>

definition set_data :: "nat \<Rightarrow> location_task_data \<Rightarrow> task_state \<Rightarrow> task_state" where
  "set_data l d s = s\<lparr>subsystem_data := (subsystem_data s)(l \<mapsto> d)\<rparr>"

definition set_task :: "nat \<Rightarrow> task \<Rightarrow> task_state \<Rightarrow> task_state" where
  "set_task t x s = s\<lparr>tasks := (tasks s)[t := x]\<rparr>"

definition task_event :: "task_event \<Rightarrow> task_state \<Rightarrow> task_state" where
  "task_event e s = s\<lparr>task_events := task_events s @ [e]\<rparr>"

definition recycle_stack_frame :: "nat \<Rightarrow> nat \<Rightarrow> task_state \<Rightarrow> task_state option" where
  "recycle_stack_frame l p s = do {
     d \<leftarrow> subsystem_data s l;
     f \<leftarrow> arr_get (frames s) p;
     Some (set_data l (d\<lparr>recycled_frames := Some p\<rparr>)
             (s\<lparr>frames := (frames s)[p := f\<lparr>frame_prev := recycled_frames d\<rparr>]\<rparr>))
   }"

definition recycle_task :: "nat \<Rightarrow> nat \<Rightarrow> task_state \<Rightarrow> task_state option" where
  "recycle_task l t s = do {
     d \<leftarrow> subsystem_data s l;
     x \<leftarrow> arr_get (tasks s) t;
     Some (set_data l (d\<lparr>recycled_tasks := Some t\<rparr>) (set_task t (x\<lparr>task_next := recycled_tasks d\<rparr>) s))
   }"

definition alloc_new_stack_frame :: "nat \<Rightarrow> task_state \<Rightarrow> (nat \<times> task_state) option" where
  "alloc_new_stack_frame l s = do {
     d \<leftarrow> subsystem_data s l;
     (case recycled_frames d of
        Some p \<Rightarrow> do {
          f \<leftarrow> arr_get (frames s) p;
          Some (p, set_data l (d\<lparr>recycled_frames := frame_prev f\<rparr>) s)
        }
      | None \<Rightarrow>
          Some (length (frames s),
                s\<lparr>frames := frames s @ [\<lparr>regions = replicate SCOREP_TASK_STACK_SIZE None, frame_prev = None\<rparr>]\<rparr>))
   }"

section \<open>The stack of a task\<close>

definition task_pop_stack :: "nat \<Rightarrow> nat \<Rightarrow> task_state \<Rightarrow> task_state option" where
  "task_pop_stack l t s = do {
     x \<leftarrow> arr_get (tasks s) t;
     assertC (current_frame x \<noteq> None);
     (if current_index x = 0
      then do {
        let old_frame = the (current_frame x);
        f \<leftarrow> arr_get (frames s) old_frame;
        recycle_stack_frame l old_frame
          (set_task t (x\<lparr>current_frame := frame_prev f, current_index := SCOREP_TASK_STACK_SIZE - 1\<rparr>) s)
      }
      else Some (set_task t (x\<lparr>current_index := current_index x - 1\<rparr>) s))
   }"

definition SCOREP_Task_GetTopRegion :: "nat \<Rightarrow> task_state \<Rightarrow> handle option" where
  "SCOREP_Task_GetTopRegion t s = do {
     x \<leftarrow> arr_get (tasks s) t;
     (case current_frame x of
        None \<Rightarrow> Some 0
      | Some p \<Rightarrow> do {
          f \<leftarrow> arr_get (frames s) p;
          r \<leftarrow> arr_get (regions f) (current_index x);
          r
        })
   }"

definition SCOREP_Task_GetCurrentTask :: "nat \<Rightarrow> task_state \<Rightarrow> nat option option" where
  "SCOREP_Task_GetCurrentTask l s = map_option current_task (subsystem_data s l)"

definition put_region :: "nat \<Rightarrow> nat \<Rightarrow> handle \<Rightarrow> task_state \<Rightarrow> task_state option" where
  "put_region p i r s = do {
     f \<leftarrow> arr_get (frames s) p;
     rs \<leftarrow> arr_set (regions f) i (Some r);
     Some (s\<lparr>frames := (frames s)[p := f\<lparr>regions := rs\<rparr>]\<rparr>)
   }"

definition SCOREP_Task_Enter :: "nat \<Rightarrow> handle \<Rightarrow> task_state \<Rightarrow> task_state option" where
  "SCOREP_Task_Enter l r s = do {
     d \<leftarrow> subsystem_data s l;
     t \<leftarrow> current_task d;
     x \<leftarrow> arr_get (tasks s) t;
     (if current_index x < SCOREP_TASK_STACK_SIZE - 1
      then do {
        p \<leftarrow> current_frame x;
        put_region p (Suc (current_index x)) r (set_task t (x\<lparr>current_index := Suc (current_index x)\<rparr>) s)
      }
      else do {
        (p, s) \<leftarrow> alloc_new_stack_frame l s;
        f \<leftarrow> arr_get (frames s) p;
        let s = s\<lparr>frames := (frames s)[p := f\<lparr>frame_prev := current_frame x\<rparr>]\<rparr>;
        put_region p 0 r (set_task t (x\<lparr>current_frame := Some p, current_index := 0\<rparr>) s)
      })
   }"

definition SCOREP_Task_Exit :: "nat \<Rightarrow> task_state \<Rightarrow> task_state option" where
  "SCOREP_Task_Exit l s = do {
     d \<leftarrow> subsystem_data s l;
     t \<leftarrow> current_task d;
     task_pop_stack l t s
   }"

definition enter_region :: "nat \<Rightarrow> handle \<Rightarrow> task_state \<Rightarrow> task_state option" where
  "enter_region l r s = do {
     s \<leftarrow> SCOREP_Task_Enter l r s;
     Some (task_event (EnterRegion l r) s)
   }"

definition exit_region :: "nat \<Rightarrow> handle \<Rightarrow> task_state \<Rightarrow> task_state option" where
  "exit_region l r s = SCOREP_Task_Exit l (task_event (ExitRegion l r) s)"

partial_function (option) exit_regions :: "nat \<Rightarrow> nat \<Rightarrow> task_state \<Rightarrow> task_state option" where
  "exit_regions l t s = do {
     x \<leftarrow> arr_get (tasks s) t;
     (if current_frame x = None then Some s
      else do {
        r \<leftarrow> SCOREP_Task_GetTopRegion t s;
        s \<leftarrow> (if r \<noteq> SCOREP_FILTERED_REGION then exit_region l r s else task_pop_stack l t s);
        exit_regions l t s
      })
   }"

definition SCOREP_Task_ExitAllRegions :: "nat \<Rightarrow> nat \<Rightarrow> nat \<Rightarrow> task_state \<Rightarrow> task_state option" where
  "SCOREP_Task_ExitAllRegions cpu l t s = do {
     assertC (l = cpu);
     exit_regions l t s
   }"

definition SCOREP_Location_Task_ExitAllRegions :: "bool \<Rightarrow> nat \<Rightarrow> nat \<Rightarrow> nat \<Rightarrow> task_state \<Rightarrow> task_state option" where
  "SCOREP_Location_Task_ExitAllRegions within cpu l t s = do {
     assertC (\<not> (within \<and> l \<noteq> cpu));
     exit_regions l t s
   }"

partial_function (option) clear_loop :: "nat \<Rightarrow> nat \<Rightarrow> task_state \<Rightarrow> task_state option" where
  "clear_loop l t s = do {
     x \<leftarrow> arr_get (tasks s) t;
     (case current_frame x of
        None \<Rightarrow> Some s
      | Some old_frame \<Rightarrow> do {
          f \<leftarrow> arr_get (frames s) old_frame;
          s \<leftarrow> recycle_stack_frame l old_frame (set_task t (x\<lparr>current_frame := frame_prev f\<rparr>) s);
          clear_loop l t s
        })
   }"

definition SCOREP_Task_ClearStack :: "nat \<Rightarrow> nat \<Rightarrow> task_state \<Rightarrow> task_state option" where
  "SCOREP_Task_ClearStack l t s = do {
     s \<leftarrow> clear_loop l t s;
     x \<leftarrow> arr_get (tasks s) t;
     Some (set_task t (x\<lparr>current_index := SCOREP_TASK_STACK_SIZE - 1\<rparr>) s)
   }"

definition SCOREP_Task_ClearCurrent :: "nat \<Rightarrow> task_state \<Rightarrow> task_state option" where
  "SCOREP_Task_ClearCurrent l s = do {
     t \<leftarrow> SCOREP_Task_GetCurrentTask l s;
     t \<leftarrow> t;
     SCOREP_Task_ClearStack l t s
   }"

section \<open>The hash value of a stack\<close>

fun hash_regions :: "defs \<Rightarrow> handle option list \<Rightarrow> u32 \<Rightarrow> u32 option" where
  "hash_regions w [] v = Some v"
| "hash_regions w (r # rs) v = do {
     h \<leftarrow> r;
     d \<leftarrow> deref w 0 h;
     hash_regions w rs (jenkins_hash (le_bytes 4 (unat (def_hash d))) v)
   }"

partial_function (option) stack_frame_aggregation ::
    "defs \<Rightarrow> task_state \<Rightarrow> nat option \<Rightarrow> nat \<Rightarrow> nat \<Rightarrow> u32 option" where
  "stack_frame_aggregation w s p n t =
     (case p of
        None \<Rightarrow> do { x \<leftarrow> arr_get (tasks s) t; parent_hash_value x }
      | Some p \<Rightarrow> do {
          f \<leftarrow> arr_get (frames s) p;
          v \<leftarrow> stack_frame_aggregation w s (frame_prev f) (SCOREP_TASK_STACK_SIZE - 1) t;
          assertC (n < length (regions f));
          hash_regions w (take (Suc n) (regions f)) v
        })"

definition SCOREP_Task_GetRegionStackHash :: "defs \<Rightarrow> nat \<Rightarrow> task_state \<Rightarrow> u32 option" where
  "SCOREP_Task_GetRegionStackHash w t s = do {
     x \<leftarrow> arr_get (tasks s) t;
     (if current_frame x = None then Some 0
      else stack_frame_aggregation w s (current_frame x) (current_index x) t)
   }"

section \<open>Tasks\<close>

definition scorep_task_create :: "defs \<Rightarrow> nat \<Rightarrow> u32 \<Rightarrow> u32 \<Rightarrow> task_state \<Rightarrow> (nat \<times> task_state) option" where
  "scorep_task_create w l threadId generationNumber s = do {
     d \<leftarrow> subsystem_data s l;
     (t, s) \<leftarrow> (case recycled_tasks d of
        Some t \<Rightarrow> do {
          x \<leftarrow> arr_get (tasks s) t;
          Some (t, set_data l (d\<lparr>recycled_tasks := task_next x\<rparr>) s)
        }
      | None \<Rightarrow>
          Some (length (tasks s),
                s\<lparr>tasks := tasks s @ [\<lparr>current_frame = None, current_index = 0, thread_id = 0, generation_number = 0,
                     parent_hash_value = None, task_next = None, substrate_data = []\<rparr>]\<rparr>));
     x \<leftarrow> arr_get (tasks s) t;
     let x = x\<lparr>current_frame := None, current_index := SCOREP_TASK_STACK_SIZE - 1, thread_id := threadId,
               generation_number := generationNumber\<rparr>;
     let s = set_task t x s;
     v \<leftarrow> (case current_task d of
        Some c \<Rightarrow> map_option Some (SCOREP_Task_GetRegionStackHash w c s)
      | None \<Rightarrow> Some (parent_hash_value x));
     let x = x\<lparr>parent_hash_value := v, substrate_data := replicate (n_substrates s) 0\<rparr>;
     Some (t, task_event (CoreTaskCreate l t) (set_task t x s))
   }"

definition scorep_task_complete :: "nat \<Rightarrow> nat \<Rightarrow> task_state \<Rightarrow> task_state option" where
  "scorep_task_complete l t s = recycle_task l t (task_event (CoreTaskComplete l t) s)"

definition scorep_task_switch :: "nat \<Rightarrow> nat \<Rightarrow> task_state \<Rightarrow> task_state option" where
  "scorep_task_switch l t s = do {
     d \<leftarrow> subsystem_data s l;
     Some (set_data l (d\<lparr>current_task := Some t\<rparr>) s)
   }"

definition task_subsystem_init_location :: "defs \<Rightarrow> nat \<Rightarrow> u32 \<Rightarrow> u32 \<Rightarrow> task_state \<Rightarrow> task_state option" where
  "task_subsystem_init_location w l location_id last_fork_hash s = do {
     let s = set_data l \<lparr>current_task = None, recycled_tasks = None, implicit_task = None, recycled_frames = None\<rparr> s;
     (t, s) \<leftarrow> scorep_task_create w l location_id 0 s;
     d \<leftarrow> subsystem_data s l;
     x \<leftarrow> arr_get (tasks s) t;
     let s = set_data l (d\<lparr>current_task := Some t, implicit_task := Some t\<rparr>) s;
     Some (set_task t (x\<lparr>parent_hash_value := Some last_fork_hash\<rparr>) s)
   }"

definition task_subsystem_finalize_location :: "nat \<Rightarrow> task_state \<Rightarrow> task_state option" where
  "task_subsystem_finalize_location l s = do {
     d \<leftarrow> subsystem_data s l;
     t \<leftarrow> current_task d;
     scorep_task_complete l t s
   }"

definition SCOREP_Task_GetThreadId :: "nat \<Rightarrow> task_state \<Rightarrow> u32 option" where
  "SCOREP_Task_GetThreadId t s = map_option thread_id (arr_get (tasks s) t)"

definition SCOREP_Task_GetGenerationNumber :: "nat \<Rightarrow> task_state \<Rightarrow> u32 option" where
  "SCOREP_Task_GetGenerationNumber t s = map_option generation_number (arr_get (tasks s) t)"

definition SCOREP_Task_GetSubstrateData :: "nat \<Rightarrow> nat \<Rightarrow> task_state \<Rightarrow> nat option" where
  "SCOREP_Task_GetSubstrateData t i s = do {
     x \<leftarrow> arr_get (tasks s) t;
     arr_get (substrate_data x) i
   }"

definition SCOREP_Task_SetSubstrateData :: "nat \<Rightarrow> nat \<Rightarrow> nat \<Rightarrow> task_state \<Rightarrow> task_state option" where
  "SCOREP_Task_SetSubstrateData t i v s = do {
     x \<leftarrow> arr_get (tasks s) t;
     ds \<leftarrow> arr_set (substrate_data x) i v;
     Some (set_task t (x\<lparr>substrate_data := ds\<rparr>) s)
   }"

end
