(* ===== verification/Scorep_Task_Props.thy ===== *)
theory Scorep_Task_Props
  imports Scorep_Task
begin

text \<open>
  The stacks of the tasks refine lists of regions: whatever frames and tasks are recycled, a task has the regions that were
  entered and not left on it, and the hash value of a stack is that of the list.
\<close>

section \<open>Tasks without memory\<close>

record list_task =
  region_list :: "handle list"
  thread_of :: u32
  generation_of :: u32
  parent_hash_of :: u32

record list_tasks =
  live :: "nat \<Rightarrow> list_task option"
  running :: "nat \<Rightarrow> nat option"
  happened :: "task_event list"

datatype task_call =
  InitLocation defs nat u32 u32 | FinalizeLocation nat | TaskCreate defs nat u32 u32 | TaskComplete nat nat
| TaskSwitch nat nat | TaskEnter nat handle | TaskExit nat | RegionEnter nat handle | RegionExit nat handle
| ExitAllRegions nat nat | ClearStack nat nat

definition list_hash :: "defs \<Rightarrow> list_task \<Rightarrow> u32 option" where
  "list_hash w x = (if region_list x = [] then Some 0
     else hash_regions w (map Some (rev (region_list x))) (parent_hash_of x))"

definition on_list :: "nat \<Rightarrow> (handle list \<Rightarrow> handle list option) \<Rightarrow> task_event list \<Rightarrow> list_tasks \<Rightarrow> list_tasks option" where
  "on_list t f es a = do {
     x \<leftarrow> live a t;
     rs \<leftarrow> f (region_list x);
     Some (a\<lparr>live := (live a)(t \<mapsto> x\<lparr>region_list := rs\<rparr>), happened := happened a @ es\<rparr>)
   }"

definition list_complete :: "nat \<Rightarrow> nat \<Rightarrow> list_tasks \<Rightarrow> list_tasks option" where
  "list_complete l t a = do {
     assertC (running a l \<noteq> None \<and> live a t \<noteq> None);
     Some (a\<lparr>live := (live a)(t := None), happened := happened a @ [CoreTaskComplete l t]\<rparr>)
   }"

fun pop_list :: "handle list \<Rightarrow> handle list option" where
  "pop_list [] = None"
| "pop_list (r # rs) = Some rs"

fun list_call :: "task_call \<Rightarrow> nat \<Rightarrow> list_tasks \<Rightarrow> list_tasks option" where
  "list_call (InitLocation w l i h) r a = do {
     assertC (running a l = None);
     Some (a\<lparr>live := (live a)(r \<mapsto> \<lparr>region_list = [], thread_of = i, generation_of = 0, parent_hash_of = h\<rparr>),
             running := (running a)(l \<mapsto> r), happened := happened a @ [CoreTaskCreate l r]\<rparr>)
   }"
| "list_call (FinalizeLocation l) r a = do { t \<leftarrow> running a l; list_complete l t a }"
| "list_call (TaskCreate w l i g) r a = do {
     c \<leftarrow> running a l;
     x \<leftarrow> live a c;
     v \<leftarrow> list_hash w x;
     Some (a\<lparr>live := (live a)(r \<mapsto> \<lparr>region_list = [], thread_of = i, generation_of = g, parent_hash_of = v\<rparr>),
             happened := happened a @ [CoreTaskCreate l r]\<rparr>)
   }"
| "list_call (TaskComplete l t) r a = list_complete l t a"
| "list_call (TaskSwitch l t) r a = do {
     assertC (running a l \<noteq> None \<and> live a t \<noteq> None);
     Some (a\<lparr>running := (running a)(l \<mapsto> t)\<rparr>)
   }"
| "list_call (TaskEnter l h) r a = do { t \<leftarrow> running a l; on_list t (\<lambda>rs. Some (h # rs)) [] a }"
| "list_call (TaskExit l) r a = do { t \<leftarrow> running a l; on_list t pop_list [] a }"
| "list_call (RegionEnter l h) r a = do { t \<leftarrow> running a l; on_list t (\<lambda>rs. Some (h # rs)) [EnterRegion l h] a }"
| "list_call (RegionExit l h) r a = do { t \<leftarrow> running a l; on_list t pop_list [ExitRegion l h] a }"
| "list_call (ExitAllRegions l t) r a = do {
     assertC (running a l = Some t);
     x \<leftarrow> live a t;
     on_list t (\<lambda>rs. Some []) (map (ExitRegion l) (filter (\<lambda>h. h \<noteq> SCOREP_FILTERED_REGION) (region_list x))) a
   }"
| "list_call (ClearStack l t) r a = do {
     assertC (running a l \<noteq> None);
     on_list t (\<lambda>rs. Some []) [] a
   }"

text \<open>A call on the memory; a call that makes a task returns its handle.\<close>

fun run_call :: "task_call \<Rightarrow> task_state \<Rightarrow> (nat \<times> task_state) option" where
  "run_call (InitLocation w l i h) s = do {
     s \<leftarrow> task_subsystem_init_location w l i h s;
     t \<leftarrow> SCOREP_Task_GetCurrentTask l s;
     t \<leftarrow> t;
     Some (t, s)
   }"
| "run_call (FinalizeLocation l) s = map_option (Pair 0) (task_subsystem_finalize_location l s)"
| "run_call (TaskCreate w l i g) s = scorep_task_create w l i g s"
| "run_call (TaskComplete l t) s = map_option (Pair 0) (scorep_task_complete l t s)"
| "run_call (TaskSwitch l t) s = map_option (Pair 0) (scorep_task_switch l t s)"
| "run_call (TaskEnter l h) s = map_option (Pair 0) (SCOREP_Task_Enter l h s)"
| "run_call (TaskExit l) s = map_option (Pair 0) (SCOREP_Task_Exit l s)"
| "run_call (RegionEnter l h) s = map_option (Pair 0) (enter_region l h s)"
| "run_call (RegionExit l h) s = map_option (Pair 0) (exit_region l h s)"
| "run_call (ExitAllRegions l t) s = map_option (Pair 0) (SCOREP_Task_ExitAllRegions l l t s)"
| "run_call (ClearStack l t) s = map_option (Pair 0) (SCOREP_Task_ClearStack l t s)"

fun makes_task :: "task_call \<Rightarrow> bool" where
  "makes_task (InitLocation w l i h) = True"
| "makes_task (TaskCreate w l i g) = True"
| "makes_task c = False"

definition no_tasks :: "nat \<Rightarrow> task_state" where
  "no_tasks n = \<lparr>frames = [], tasks = [], subsystem_data = (\<lambda>l. None), n_substrates = n, task_events = []\<rparr>"

definition no_lists :: list_tasks where
  "no_lists = \<lparr>live = (\<lambda>t. None), running = (\<lambda>l. None), happened = []\<rparr>"

inductive task_history :: "nat \<Rightarrow> task_state \<Rightarrow> list_tasks \<Rightarrow> bool" for n where
  start: "task_history n (no_tasks n) no_lists"
| call: "task_history n s a \<Longrightarrow> run_call c s = Some (r, s') \<Longrightarrow> list_call c r a = Some a' \<Longrightarrow> task_history n s' a'"

section \<open>Linked frames\<close>

fun linked_from :: "(nat \<Rightarrow> nat option) \<Rightarrow> nat option \<Rightarrow> nat list \<Rightarrow> bool" where
  "linked_from nxt q [] = (q = None)"
| "linked_from nxt q (p # ps) = (q = Some p \<and> linked_from nxt (nxt p) ps)"

lemma linked_cong: "(\<And>p. p \<in> set ps \<Longrightarrow> nxt p = nxt' p) \<Longrightarrow> linked_from nxt q ps = linked_from nxt' q ps"
  by (induction ps arbitrary: q) auto

lemma linked_unique: "linked_from nxt q ps \<Longrightarrow> linked_from nxt q qs \<Longrightarrow> ps = qs"
proof (induction ps arbitrary: q qs)
  case Nil
  then show ?case by (cases qs) auto
next
  case (Cons p ps)
  then show ?case by (cases qs) auto
qed

lemma linked_append: "linked_from nxt q (ps @ p # qs) \<Longrightarrow> linked_from nxt (Some p) (p # qs)"
  by (induction ps arbitrary: q) auto

lemma linked_distinct: "linked_from nxt q ps \<Longrightarrow> distinct ps"
proof (induction ps arbitrary: q)
  case (Cons p ps)
  have "p \<notin> set ps"
  proof
    assume "p \<in> set ps"
    then obtain us vs where ps: "ps = us @ p # vs" by (meson split_list)
    have "linked_from nxt (Some p) (p # vs)"
      using Cons.prems linked_append [of nxt q "p # us" p vs] by (simp add: ps)
    moreover have "linked_from nxt (Some p) (p # ps)" using Cons.prems by simp
    ultimately show False by (auto dest: linked_unique simp: ps)
  qed
  with Cons show ?case by auto
qed simp

lemma linked_None [simp]: "linked_from nxt None ps \<longleftrightarrow> ps = []"
  by (cases ps) auto

lemma linked_Some: "linked_from nxt (Some p) ps \<longleftrightarrow> (\<exists>qs. ps = p # qs \<and> linked_from nxt (nxt p) qs)"
  by (cases ps) auto

abbreviation "frame_link fs \<equiv> (\<lambda>p. frame_prev (fs ! p))"

fun frame_regions :: "task_stack_frame list \<Rightarrow> nat list \<Rightarrow> nat \<Rightarrow> handle option list" where
  "frame_regions fs [] k = []"
| "frame_regions fs (p # ps) k = rev (take (Suc k) (regions (fs ! p))) @ frame_regions fs ps 29"

lemma frame_regions_cong:
  "(\<And>p. p \<in> set ps \<Longrightarrow> regions (fs ! p) = regions (gs ! p)) \<Longrightarrow> frame_regions fs ps k = frame_regions gs ps k"
  by (induction ps arbitrary: k) auto

text \<open>The frames that a task owns and the regions on them, the top first.\<close>

definition holds_regions :: "task_stack_frame list \<Rightarrow> nat option \<Rightarrow> nat \<Rightarrow> nat list \<Rightarrow> handle list \<Rightarrow> bool" where
  "holds_regions fs q k ps rs \<longleftrightarrow> linked_from (frame_link fs) q ps \<and> k < 30 \<and> (ps = [] \<longrightarrow> k = 29) \<and>
     frame_regions fs ps k = map Some rs"

lemma holds_regions_cong:
  assumes "\<And>p. p \<in> set ps \<Longrightarrow> fs ! p = gs ! p"
  shows "holds_regions fs q k ps rs = holds_regions gs q k ps rs"
  unfolding holds_regions_def using assms linked_cong [of ps "frame_link fs" "frame_link gs"] frame_regions_cong [of ps fs gs]
  by simp

text \<open>Every frame has one owner at most: a task (\<open>Inl\<close>) or the free list of a location (\<open>Inr\<close>).\<close>

definition frames_owned :: "task_stack_frame list \<Rightarrow> (nat + nat \<Rightarrow> nat list) \<Rightarrow> bool" where
  "frames_owned fs own \<longleftrightarrow> (\<forall>p < length fs. length (regions (fs ! p)) = 30) \<and> (\<forall>x. \<forall>p \<in> set (own x). p < length fs) \<and>
     (\<forall>x y p. p \<in> set (own x) \<longrightarrow> p \<in> set (own y) \<longrightarrow> x = y)"

definition task_ok :: "task_state \<Rightarrow> (nat + nat \<Rightarrow> nat list) \<Rightarrow> nat \<Rightarrow> list_task \<Rightarrow> bool" where
  "task_ok s own t x \<longleftrightarrow> t < length (tasks s) \<and>
     holds_regions (frames s) (current_frame (tasks s ! t)) (current_index (tasks s ! t)) (own (Inl t)) (region_list x) \<and>
     thread_id (tasks s ! t) = thread_of x \<and> generation_number (tasks s ! t) = generation_of x \<and>
     parent_hash_value (tasks s ! t) = Some (parent_hash_of x)"

definition location_ok :: "task_state \<Rightarrow> list_tasks \<Rightarrow> (nat + nat \<Rightarrow> nat list) \<Rightarrow> (nat \<Rightarrow> nat list) \<Rightarrow> nat \<Rightarrow> location_task_data \<Rightarrow> bool" where
  "location_ok s a own lt l d \<longleftrightarrow> current_task d = running a l \<and> linked_from (frame_link (frames s)) (recycled_frames d) (own (Inr l)) \<and>
     linked_from (\<lambda>t. task_next (tasks s ! t)) (recycled_tasks d) (lt l)"

definition tasks_rep :: "task_state \<Rightarrow> list_tasks \<Rightarrow> (nat + nat \<Rightarrow> nat list) \<Rightarrow> (nat \<Rightarrow> nat list) \<Rightarrow> bool" where
  "tasks_rep s a own lt \<longleftrightarrow> frames_owned (frames s) own \<and> (\<forall>t x. live a t = Some x \<longrightarrow> task_ok s own t x) \<and>
     (\<forall>l. (subsystem_data s l = None) = (running a l = None)) \<and>
     (\<forall>l d. subsystem_data s l = Some d \<longrightarrow> location_ok s a own lt l d) \<and>
     (\<forall>l. \<forall>t \<in> set (lt l). subsystem_data s l \<noteq> None \<longrightarrow> t < length (tasks s) \<and> live a t = None) \<and>
     (\<forall>l l' t. subsystem_data s l \<noteq> None \<longrightarrow> subsystem_data s l' \<noteq> None \<longrightarrow> t \<in> set (lt l) \<longrightarrow> t \<in> set (lt l') \<longrightarrow> l = l') \<and>
     task_events s = happened a"


section \<open>Changing the stack of one task\<close>

lemma frames_ownedI:
  assumes "\<And>p. p < length fs \<Longrightarrow> length (regions (fs ! p)) = 30" "\<And>x p. p \<in> set (own x) \<Longrightarrow> p < length fs"
    "\<And>x y p. p \<in> set (own x) \<Longrightarrow> p \<in> set (own y) \<Longrightarrow> x = y"
  shows "frames_owned fs own"
  unfolding frames_owned_def using assms by blast

lemma tasks_repI:
  assumes "frames_owned (frames s) own" "\<And>t x. live a t = Some x \<Longrightarrow> task_ok s own t x"
    "\<And>l. (subsystem_data s l = None) = (running a l = None)"
    "\<And>l d. subsystem_data s l = Some d \<Longrightarrow> location_ok s a own lt l d"
    "\<And>l d t. subsystem_data s l = Some d \<Longrightarrow> t \<in> set (lt l) \<Longrightarrow> t < length (tasks s) \<and> live a t = None"
    "\<And>l l' t. subsystem_data s l \<noteq> None \<Longrightarrow> subsystem_data s l' \<noteq> None \<Longrightarrow> t \<in> set (lt l) \<Longrightarrow> t \<in> set (lt l') \<Longrightarrow> l = l'"
    "task_events s = happened a"
  shows "tasks_rep s a own lt"
  unfolding tasks_rep_def
proof (intro conjI allI impI ballI)
  fix l t assume "t \<in> set (lt l)" "subsystem_data s l \<noteq> None"
  then show "t < length (tasks s)" "live a t = None" using assms(5) by blast+
next
  fix l l' t assume "subsystem_data s l \<noteq> None" "subsystem_data s l' \<noteq> None" "t \<in> set (lt l)" "t \<in> set (lt l')"
  then show "l = l'" by (rule assms(6))
qed (fact assms | erule assms)+

lemma frames_ownedD:
  assumes "frames_owned fs own"
  shows "p < length fs \<Longrightarrow> length (regions (fs ! p)) = 30"
    and "p \<in> set (own x) \<Longrightarrow> p < length fs"
    and "p \<in> set (own x) \<Longrightarrow> p \<in> set (own y) \<Longrightarrow> x = y"
  using assms unfolding frames_owned_def by blast+

lemma tasks_repD:
  assumes "tasks_rep s a own lt"
  shows "frames_owned (frames s) own"
    and "live a t = Some x \<Longrightarrow> task_ok s own t x"
    and "(subsystem_data s l = None) = (running a l = None)"
    and "subsystem_data s l = Some d \<Longrightarrow> location_ok s a own lt l d"
    and "subsystem_data s l = Some d \<Longrightarrow> t \<in> set (lt l) \<Longrightarrow> t < length (tasks s) \<and> live a t = None"
    and "subsystem_data s l \<noteq> None \<Longrightarrow> subsystem_data s l' \<noteq> None \<Longrightarrow> t \<in> set (lt l) \<Longrightarrow> t \<in> set (lt l') \<Longrightarrow> l = l'"
    and "task_events s = happened a"
  using assms unfolding tasks_rep_def by blast+

lemma task_ok_cong:
  assumes "task_ok s own t x" "tasks s' ! t = tasks s ! t" "length (tasks s') = length (tasks s)"
    "own' (Inl t) = own (Inl t)" "\<And>p. p \<in> set (own (Inl t)) \<Longrightarrow> frames s' ! p = frames s ! p"
  shows "task_ok s' own' t x"
  using assms holds_regions_cong [of "own (Inl t)" "frames s'" "frames s"] unfolding task_ok_def by simp

lemma change_stack:
  assumes rep: "tasks_rep s a own lt" and x: "live a t = Some x" and d: "subsystem_data s l = Some d"
    and owned: "frames_owned fs own'"
    and other: "\<And>y. y \<noteq> Inl t \<Longrightarrow> y \<noteq> Inr l \<Longrightarrow> own' y = own y"
    and kept: "\<And>y p. y \<noteq> Inl t \<Longrightarrow> y \<noteq> Inr l \<Longrightarrow> p \<in> set (own y) \<Longrightarrow> fs ! p = frames s ! p"
    and free: "linked_from (frame_link fs) q (own' (Inr l))"
    and stk: "holds_regions fs cf ci (own' (Inl t)) rs"
  shows "tasks_rep (s\<lparr>frames := fs, tasks := (tasks s)[t := (tasks s ! t)\<lparr>current_frame := cf, current_index := ci\<rparr>],
             subsystem_data := (subsystem_data s)(l \<mapsto> d\<lparr>recycled_frames := q\<rparr>)\<rparr>)
           (a\<lparr>live := (live a)(t \<mapsto> x\<lparr>region_list := rs\<rparr>)\<rparr>) own' lt" (is "tasks_rep ?s ?a _ _")
proof -
  note R = tasks_repD [OF rep]
  have t: "t < length (tasks s)" and tx: "task_ok s own t x" using R(2) [OF x] by (auto simp: task_ok_def)
  have nxt: "task_next ((tasks s)[t := (tasks s ! t)\<lparr>current_frame := cf, current_index := ci\<rparr>] ! u) = task_next (tasks s ! u)" for u
    using t by (cases "u = t") auto
  have 1: "task_ok ?s own' u y" if "live ?a u = Some y" for u y
  proof (cases "u = t")
    case True
    then show ?thesis using that tx stk t by (auto simp: task_ok_def)
  next
    case False
    show ?thesis
      by (rule task_ok_cong [OF R(2)]) (use that False in \<open>auto simp: other intro!: kept [of "Inl u"]\<close>)
  qed
  have 2: "location_ok ?s ?a own' lt m e" if "subsystem_data ?s m = Some e" for m e
  proof (cases "m = l")
    case True
    then show ?thesis using that R(4) [OF d] free by (auto simp: location_ok_def nxt)
  next
    case False
    then have e: "subsystem_data s m = Some e" using that by simp
    have "linked_from (frame_link fs) (recycled_frames e) (own (Inr m)) = linked_from (frame_link (frames s)) (recycled_frames e) (own (Inr m))"
      by (rule linked_cong) (use False in \<open>auto intro!: arg_cong [where f = frame_prev] kept [of "Inr m"]\<close>)
    with R(4) [OF e] False show ?thesis using nxt by (simp add: location_ok_def other)
  qed
  have 3: "(subsystem_data ?s m = None) = (running ?a m = None)" for m using R(3) [of m] d R(3) [of l] by auto
  have 4: "u < length (tasks ?s) \<and> live ?a u = None" if "subsystem_data ?s m = Some e" "u \<in> set (lt m)" for m u e
  proof -
    have "\<exists>e. subsystem_data s m = Some e" using that(1) d by (cases "m = l") auto
    then have "u < length (tasks s) \<and> live a u = None" using R(5) that(2) by blast
    then show ?thesis using x by auto
  qed
  have 5: "m = m'" if "subsystem_data ?s m \<noteq> None" "subsystem_data ?s m' \<noteq> None" "u \<in> set (lt m)" "u \<in> set (lt m')" for m m' u
  proof (rule R(6) [OF _ _ that(3,4)])
    show "subsystem_data s m \<noteq> None" using that(1) d by (cases "m = l") auto
    show "subsystem_data s m' \<noteq> None" using that(2) d by (cases "m' = l") auto
  qed
  show ?thesis
  proof (rule tasks_repI)
    show "m = m'" if "subsystem_data ?s m \<noteq> None" "subsystem_data ?s m' \<noteq> None" "u \<in> set (lt m)" "u \<in> set (lt m')" for m m' u
      using that by (rule 5)
  qed (use owned R(7) in simp, fact 1, fact 3, fact 2, fact 4, use R(7) in simp)
qed

lemma frames_owned_update:
  assumes "frames_owned fs own" "length (regions f) = 30"
    "\<And>y q. q \<in> set (own' y) \<Longrightarrow> q < length fs" "\<And>x y q. q \<in> set (own' x) \<Longrightarrow> q \<in> set (own' y) \<Longrightarrow> x = y"
  shows "frames_owned (fs[p := f]) own'"
proof -
  have "length (regions (fs[p := f] ! q)) = 30" if "q < length fs" for q
    using that assms(1,2) by (cases "q = p") (auto simp: frames_owned_def)
  then show ?thesis
    by (intro frames_ownedI) (simp, simp only: length_list_update, erule assms(3), erule (1) assms(4))
qed

lemma live_task:
  assumes "tasks_rep s a own lt" "live a t = Some x"
  shows "t < length (tasks s)"
    "holds_regions (frames s) (current_frame (tasks s ! t)) (current_index (tasks s ! t)) (own (Inl t)) (region_list x)"
  using tasks_repD(2) [OF assms] by (simp_all add: task_ok_def)

lemma drop_frame:
  assumes rep: "tasks_rep s a own lt" and x: "live a t = Some x" and d: "subsystem_data s l = Some d"
    and p: "current_frame (tasks s ! t) = Some p"
  shows "\<exists>own'. tasks_rep (s\<lparr>frames := (frames s)[p := (frames s ! p)\<lparr>frame_prev := recycled_frames d\<rparr>],
             tasks := (tasks s)[t := (tasks s ! t)\<lparr>current_frame := frame_prev (frames s ! p), current_index := 29\<rparr>],
             subsystem_data := (subsystem_data s)(l \<mapsto> d\<lparr>recycled_frames := Some p\<rparr>)\<rparr>)
           (a\<lparr>live := (live a)(t \<mapsto> x\<lparr>region_list := drop (Suc (current_index (tasks s ! t))) (region_list x)\<rparr>)\<rparr>) own' lt \<and>
         own (Inl t) = p # own' (Inl t)"
proof -
  note R = tasks_repD [OF rep]
  note F = frames_ownedD [OF R(1)]
  let ?fs = "frames s" and ?k = "current_index (tasks s ! t)"
  let ?gs = "?fs[p := (?fs ! p)\<lparr>frame_prev := recycled_frames d\<rparr>]"
  have h: "holds_regions ?fs (Some p) ?k (own (Inl t)) (region_list x)" using live_task(2) [OF rep x] p by simp
  then obtain ps where ps: "own (Inl t) = p # ps" and lk: "linked_from (frame_link ?fs) (frame_prev (?fs ! p)) ps" and k: "?k < 30"
    and rs: "frame_regions ?fs (p # ps) ?k = map Some (region_list x)"
    unfolding holds_regions_def linked_Some by auto
  have dist: "p \<notin> set ps" using h ps linked_distinct unfolding holds_regions_def by fastforce
  have pl: "p < length ?fs" using F(2) [of p "Inl t"] ps by simp
  have p30: "length (regions (?fs ! p)) = 30" using F(1) [OF pl] .
  have free: "linked_from (frame_link ?fs) (recycled_frames d) (own (Inr l))" using R(4) [OF d] by (simp add: location_ok_def)
  have pf: "p \<notin> set (own (Inr l))" using F(3) [of p "Inl t" "Inr l"] ps by auto
  let ?own = "own(Inl t := ps, Inr l := p # own (Inr l))"
  have keep: "q \<noteq> p \<Longrightarrow> ?gs ! q = ?fs ! q" for q by simp
  have gs_regions: "regions (?gs ! q) = regions (?fs ! q)" for q
    using pl by (cases "q = p") simp_all
  have "drop (Suc ?k) (map Some (region_list x)) = frame_regions ?fs ps 29"
    unfolding rs [symmetric] using k p30 by simp
  then have rs': "frame_regions ?fs ps 29 = map Some (drop (Suc ?k) (region_list x))" by (simp add: drop_map)
  have owned: "frames_owned ?gs ?own"
  proof (rule frames_owned_update [OF R(1)])
    show "length (regions ((?fs ! p)\<lparr>frame_prev := recycled_frames d\<rparr>)) = 30" using p30 by simp
    show "q < length ?fs" if "q \<in> set (?own y)" for y q
      using that F(2) [of q y] F(2) [of q "Inl t"] F(2) [of q "Inr l"] pl ps by (auto split: if_splits)
    have sub: "q \<in> set (own y)" if "q \<in> set (?own y)" "q \<noteq> p" for q y
      using that by (cases "y = Inl t"; cases "y = Inr l") (simp_all add: ps)
    have own_p: "y = Inr l" if "p \<in> set (?own y)" for y
    proof (rule ccontr)
      assume ne: "y \<noteq> Inr l"
      then have "p \<in> set (own y)" "y \<noteq> Inl t" using that dist by (auto split: if_splits)
      then show False using F(3) [of p "Inl t" y] by (simp add: ps)
    qed
    show "y = z" if "q \<in> set (?own y)" "q \<in> set (?own z)" for y z q
    proof (cases "q = p")
      case True
      then show ?thesis using own_p that by blast
    next
      case False
      then show ?thesis using F(3) sub that by blast
    qed
  qed
  have stk: "holds_regions ?gs (frame_prev (?fs ! p)) 29 (?own (Inl t)) (drop (Suc ?k) (region_list x))"
  proof -
    have "linked_from (frame_link ?gs) (frame_prev (?fs ! p)) ps"
      using lk dist keep by (subst linked_cong [of ps "frame_link ?gs" "frame_link ?fs"]) metis+
    moreover have "frame_regions ?gs ps 29 = frame_regions ?fs ps 29" by (rule frame_regions_cong) (rule gs_regions)
    ultimately show ?thesis using rs' by (simp add: holds_regions_def)
  qed
  have free': "linked_from (frame_link ?gs) (Some p) (?own (Inr l))"
    using free pf pl keep linked_cong [of "own (Inr l)" "frame_link ?gs" "frame_link ?fs"] by fastforce
  have "tasks_rep (s\<lparr>frames := ?gs,
             tasks := (tasks s)[t := (tasks s ! t)\<lparr>current_frame := frame_prev (?fs ! p), current_index := 29\<rparr>],
             subsystem_data := (subsystem_data s)(l \<mapsto> d\<lparr>recycled_frames := Some p\<rparr>)\<rparr>)
           (a\<lparr>live := (live a)(t \<mapsto> x\<lparr>region_list := drop (Suc ?k) (region_list x)\<rparr>)\<rparr>) ?own lt"
  proof (rule change_stack [OF rep x d owned _ _ free' stk])
    fix y assume y: "y \<noteq> Inl t" "y \<noteq> Inr l"
    then show "?own y = own y" by simp
    fix q assume "q \<in> set (own y)"
    then have "q \<noteq> p" using F(3) [of p "Inl t" y] ps y by auto
    then show "?gs ! q = ?fs ! q" by simp
  qed
  moreover have "own (Inl t) = p # ?own (Inl t)" using ps by simp
  ultimately show ?thesis by blast
qed


section \<open>Each operation on the stack of a task\<close>

lemma task_state_commute:
  "s\<lparr>tasks := xs, frames := fs\<rparr> = s\<lparr>frames := fs, tasks := xs\<rparr>"
  "s\<lparr>subsystem_data := sd, tasks := xs\<rparr> = s\<lparr>tasks := xs, subsystem_data := sd\<rparr>"
  "s\<lparr>subsystem_data := sd, frames := fs\<rparr> = s\<lparr>frames := fs, subsystem_data := sd\<rparr>"
  by simp_all

lemma list_tasks_commute: "a\<lparr>happened := es, live := lv\<rparr> = a\<lparr>live := lv, happened := es\<rparr>"
  by simp

lemma same_frame: "current_frame x = Some p \<Longrightarrow> x\<lparr>current_frame := Some p, current_index := k\<rparr> = x\<lparr>current_index := k\<rparr>"
  by (cases x) simp

lemmas task_defs = set_task_def set_data_def SCOREP_TASK_STACK_SIZE_def task_state_commute

lemma same_data: "subsystem_data s l = Some d \<Longrightarrow> (subsystem_data s)(l \<mapsto> d) = subsystem_data s"
  by (simp add: fun_upd_idem)

lemma frame_regions_Nil: "frame_regions fs ps k = [] \<Longrightarrow> (\<And>p. p \<in> set ps \<Longrightarrow> length (regions (fs ! p)) = 30) \<Longrightarrow> ps = []"
  by (cases ps) fastforce+

lemma holds_regions_empty:
  assumes own: "frames_owned fs own" and h: "holds_regions fs q k (own z) rs"
  shows "q = None \<longleftrightarrow> rs = []"
proof -
  note F = frames_ownedD [OF own]
  have "own z = [] \<longleftrightarrow> rs = []"
  proof
    assume "rs = []"
    then have "frame_regions fs (own z) k = []" using h by (simp add: holds_regions_def)
    then show "own z = []" by (rule frame_regions_Nil) (use F(1,2) in blast)
  qed (use h in \<open>simp add: holds_regions_def\<close>)
  moreover have "q = None \<longleftrightarrow> own z = []"
    using h by (cases "own z") (auto simp: holds_regions_def)
  ultimately show ?thesis by simp
qed

lemma empty_stack:
  assumes rep: "tasks_rep s a own lt" and x: "live a t = Some x"
  shows "current_frame (tasks s ! t) = None \<longleftrightarrow> region_list x = []"
  using holds_regions_empty [OF tasks_repD(1) [OF rep] live_task(2) [OF rep x]] .

lemma top_frame:
  assumes rep: "tasks_rep s a own lt" and x: "live a t = Some x" and p: "current_frame (tasks s ! t) = Some p"
  obtains r rs where "region_list x = r # rs" "p < length (frames s)" "length (regions (frames s ! p)) = 30"
    "current_index (tasks s ! t) < 30" "regions (frames s ! p) ! current_index (tasks s ! t) = Some r"
    "own (Inl t) = p # tl (own (Inl t))"
proof -
  note F = frames_ownedD [OF tasks_repD(1) [OF rep]]
  let ?k = "current_index (tasks s ! t)"
  have h: "holds_regions (frames s) (Some p) ?k (own (Inl t)) (region_list x)" using live_task(2) [OF rep x] p by simp
  then obtain ps where ps: "own (Inl t) = p # ps" by (auto simp: holds_regions_def linked_Some)
  have pl: "p < length (frames s)" using F(2) [of p "Inl t"] ps by simp
  have l30: "length (regions (frames s ! p)) = 30" using F(1) [OF pl] .
  have k: "?k < 30" using h by (simp add: holds_regions_def)
  obtain r rs where r: "region_list x = r # rs" using empty_stack [OF rep x] p by (cases "region_list x") auto
  have "map Some (r # rs) = rev (take (Suc ?k) (regions (frames s ! p))) @ frame_regions (frames s) ps 29"
    using h ps r by (simp add: holds_regions_def)
  then have "regions (frames s ! p) ! ?k = Some r"
    using k l30 by (simp add: take_Suc_conv_app_nth)
  then show ?thesis using that r pl l30 k ps by simp
qed

lemma pop_stack:
  assumes rep: "tasks_rep s a own lt" and x: "live a t = Some x" and d: "subsystem_data s l = Some d"
    and rs: "region_list x = r # rs"
  shows "\<exists>s' own'. task_pop_stack l t s = Some s' \<and> tasks_rep s' (a\<lparr>live := (live a)(t \<mapsto> x\<lparr>region_list := rs\<rparr>)\<rparr>) own' lt"
proof -
  let ?k = "current_index (tasks s ! t)"
  have t: "t < length (tasks s)" using live_task(1) [OF rep x] .
  obtain p where p: "current_frame (tasks s ! t) = Some p" using empty_stack [OF rep x] rs by auto
  obtain r' rs' where top: "p < length (frames s)" "length (regions (frames s ! p)) = 30" "?k < 30" "own (Inl t) = p # tl (own (Inl t))"
    by (rule top_frame [OF rep x p]) auto
  show ?thesis
  proof (cases "?k = 0")
    case True
    obtain own' where "tasks_rep (s\<lparr>frames := (frames s)[p := (frames s ! p)\<lparr>frame_prev := recycled_frames d\<rparr>],
             tasks := (tasks s)[t := (tasks s ! t)\<lparr>current_frame := frame_prev (frames s ! p), current_index := 29\<rparr>],
             subsystem_data := (subsystem_data s)(l \<mapsto> d\<lparr>recycled_frames := Some p\<rparr>)\<rparr>)
           (a\<lparr>live := (live a)(t \<mapsto> x\<lparr>region_list := drop (Suc ?k) (region_list x)\<rparr>)\<rparr>) own' lt"
      using drop_frame [OF rep x d p] by blast
    then show ?thesis using True t p d top rs
      by (auto simp: task_pop_stack_def recycle_stack_frame_def task_defs)
  next
    case False
    have h: "holds_regions (frames s) (Some p) ?k (own (Inl t)) (r # rs)" using live_task(2) [OF rep x] p rs by simp
    have h': "holds_regions (frames s) (Some p) (?k - 1) (own (Inl t)) rs"
      using h False top by (cases "own (Inl t)") (auto simp: holds_regions_def take_Suc_conv_app_nth)
    have free: "linked_from (frame_link (frames s)) (recycled_frames d) (own (Inr l))"
      using tasks_repD(4) [OF rep d] by (simp add: location_ok_def)
    have "tasks_rep (s\<lparr>frames := frames s,
             tasks := (tasks s)[t := (tasks s ! t)\<lparr>current_frame := Some p, current_index := ?k - 1\<rparr>],
             subsystem_data := (subsystem_data s)(l \<mapsto> d\<lparr>recycled_frames := recycled_frames d\<rparr>)\<rparr>)
           (a\<lparr>live := (live a)(t \<mapsto> x\<lparr>region_list := rs\<rparr>)\<rparr>) own lt"
      by (rule change_stack [OF rep x d tasks_repD(1) [OF rep] _ _ free h']) auto
    then show ?thesis using False t p d
      by (auto simp: task_pop_stack_def set_task_def same_data same_frame [OF p])
  qed
qed


lemma put_at:
  assumes "p < length (frames s)" "i < length (regions (frames s ! p))"
  shows "put_region p i r s = Some (s\<lparr>frames := (frames s)[p := (frames s ! p)\<lparr>regions := (regions (frames s ! p))[i := Some r]\<rparr>]\<rparr>)"
  using assms by (simp add: put_region_def)

lemma push_in_frame:
  assumes rep: "tasks_rep s a own lt" and x: "live a t = Some x" and d: "subsystem_data s l = Some d"
    and run: "current_task d = Some t" and k: "current_index (tasks s ! t) < 29"
  shows "\<exists>s'. SCOREP_Task_Enter l r s = Some s' \<and>
    tasks_rep s' (a\<lparr>live := (live a)(t \<mapsto> x\<lparr>region_list := r # region_list x\<rparr>)\<rparr>) own lt"
proof -
  note R = tasks_repD [OF rep]
  note F = frames_ownedD [OF R(1)]
  let ?k = "current_index (tasks s ! t)"
  have t: "t < length (tasks s)" and h: "holds_regions (frames s) (current_frame (tasks s ! t)) ?k (own (Inl t)) (region_list x)"
    using live_task [OF rep x] .
  obtain p ps where ps: "own (Inl t) = p # ps" and p: "current_frame (tasks s ! t) = Some p"
    using h k by (cases "own (Inl t)") (auto simp: holds_regions_def)
  have pl: "p < length (frames s)" using F(2) [of p "Inl t"] ps by simp
  have l30: "length (regions (frames s ! p)) = 30" using F(1) [OF pl] .
  have dist: "p \<notin> set ps" using h ps linked_distinct unfolding holds_regions_def by fastforce
  let ?fs = "frames s" and ?g = "(frames s ! p)\<lparr>regions := (regions (frames s ! p))[Suc ?k := Some r]\<rparr>"
  have link: "frame_link (?fs[p := ?g]) q = frame_link ?fs q" for q using pl by (cases "q = p") auto
  have "frame_regions (?fs[p := ?g]) ps 29 = frame_regions ?fs ps 29"
    by (rule frame_regions_cong) (use dist in \<open>metis nth_list_update_neq\<close>)
  moreover have "take (Suc (Suc ?k)) ((regions (?fs ! p))[Suc ?k := Some r]) = take (Suc ?k) (regions (?fs ! p)) @ [Some r]"
    using k l30 by (simp add: take_Suc_conv_app_nth [of "Suc ?k"])
  ultimately have stk: "holds_regions (?fs[p := ?g]) (Some p) (Suc ?k) (own (Inl t)) (r # region_list x)"
    using h ps p k pl by (simp add: holds_regions_def link)
  have free: "linked_from (frame_link (?fs[p := ?g])) (recycled_frames d) (own (Inr l))"
    using R(4) [OF d] by (simp add: location_ok_def link)
  have "tasks_rep (s\<lparr>frames := ?fs[p := ?g],
             tasks := (tasks s)[t := (tasks s ! t)\<lparr>current_frame := Some p, current_index := Suc ?k\<rparr>],
             subsystem_data := (subsystem_data s)(l \<mapsto> d\<lparr>recycled_frames := recycled_frames d\<rparr>)\<rparr>)
           (a\<lparr>live := (live a)(t \<mapsto> x\<lparr>region_list := r # region_list x\<rparr>)\<rparr>) own lt"
  proof (rule change_stack [OF rep x d _ _ _ free stk])
    show "frames_owned (?fs[p := ?g]) own"
      by (rule frames_owned_update [OF R(1)]) (use l30 F in auto)
    fix y q assume "y \<noteq> Inl t" "q \<in> set (own y)"
    then have "q \<noteq> p" using F(3) [of p "Inl t" y] ps by auto
    then show "?fs[p := ?g] ! q = ?fs ! q" by simp
  qed simp
  then show ?thesis using k t p d run pl l30
    by (auto simp: SCOREP_Task_Enter_def task_defs same_data put_at same_frame [OF p])
qed

text \<open>A frame that nothing points to becomes the top frame.\<close>

lemma push_frame:
  assumes rep: "tasks_rep s a own lt" and x: "live a t = Some x" and d: "subsystem_data s l = Some d"
    and k: "current_index (tasks s ! t) = 29"
    and fs: "\<And>q. q < length (frames s) \<Longrightarrow> q \<noteq> p \<Longrightarrow> fs ! q = frames s ! q" "length (frames s) \<le> length fs"
      "\<And>q. q < length fs \<Longrightarrow> length (regions (fs ! q)) = 30"
    and p: "p < length fs" "frame_prev (fs ! p) = current_frame (tasks s ! t)" "regions (fs ! p) ! 0 = Some r"
    and free: "linked_from (frame_link (frames s)) q free" "set free \<subseteq> set (own (Inr l))" "p \<notin> set free"
    and new: "\<And>y. p \<in> set (own y) \<Longrightarrow> y = Inr l"
  shows "\<exists>own'. tasks_rep (s\<lparr>frames := fs, tasks := (tasks s)[t := (tasks s ! t)\<lparr>current_frame := Some p, current_index := 0\<rparr>],
             subsystem_data := (subsystem_data s)(l \<mapsto> d\<lparr>recycled_frames := q\<rparr>)\<rparr>)
           (a\<lparr>live := (live a)(t \<mapsto> x\<lparr>region_list := r # region_list x\<rparr>)\<rparr>) own' lt"
proof -
  note R = tasks_repD [OF rep]
  note F = frames_ownedD [OF R(1)]
  have h: "holds_regions (frames s) (current_frame (tasks s ! t)) 29 (own (Inl t)) (region_list x)"
    using live_task(2) [OF rep x] k by simp
  let ?own = "own(Inl t := p # own (Inl t), Inr l := free)"
  have pt: "p \<notin> set (own (Inl t))" using new [of "Inl t"] by auto
  have same: "fs ! u = frames s ! u" if "u \<in> set (own y)" "u \<noteq> p" for u y using fs(1) F(2) that by blast
  have stk: "holds_regions fs (Some p) 0 (?own (Inl t)) (r # region_list x)"
  proof -
    have "linked_from (frame_link fs) (current_frame (tasks s ! t)) (own (Inl t)) = linked_from (frame_link (frames s)) (current_frame (tasks s ! t)) (own (Inl t))"
      by (rule linked_cong) (use same pt in metis)
    moreover have "frame_regions fs (own (Inl t)) 29 = frame_regions (frames s) (own (Inl t)) 29"
      by (rule frame_regions_cong) (use same pt in metis)
    moreover have "take (Suc 0) (regions (fs ! p)) = [Some r]"
      using fs(3) [OF p(1)] p(3) by (cases "regions (fs ! p)") auto
    ultimately show ?thesis using h p by (simp add: holds_regions_def)
  qed
  have free': "linked_from (frame_link fs) q (?own (Inr l))"
  proof -
    have "linked_from (frame_link fs) q free = linked_from (frame_link (frames s)) q free"
      by (rule linked_cong) (use same free in \<open>metis subsetD\<close>)
    then show ?thesis using free(1) by simp
  qed
  have sub: "u \<in> set (own y)" if "u \<in> set (?own y)" "u \<noteq> p" for u y using that free(2) by (auto split: if_splits)
  have own_p: "y = Inl t" if "p \<in> set (?own y)" for y using that new [of y] free(3) by (auto split: if_splits)
  have owned: "frames_owned fs ?own"
    unfolding frames_owned_def
  proof (intro conjI allI impI ballI)
    show "length (regions (fs ! u)) = 30" if "u < length fs" for u using fs(3) that .
    show "u < length fs" if "u \<in> set (?own y)" for u y
      using that sub [OF that] F(2) [of u y] fs(2) p(1) by (cases "u = p") auto
    show "y = z" if "u \<in> set (?own y)" "u \<in> set (?own z)" for y z u
    proof (cases "u = p")
      case True
      then show ?thesis using own_p that by blast
    next
      case False
      then show ?thesis using F(3) sub that by blast
    qed
  qed
  have "tasks_rep (s\<lparr>frames := fs, tasks := (tasks s)[t := (tasks s ! t)\<lparr>current_frame := Some p, current_index := 0\<rparr>],
             subsystem_data := (subsystem_data s)(l \<mapsto> d\<lparr>recycled_frames := q\<rparr>)\<rparr>)
           (a\<lparr>live := (live a)(t \<mapsto> x\<lparr>region_list := r # region_list x\<rparr>)\<rparr>) ?own lt"
  proof (rule change_stack [OF rep x d owned _ _ free' stk])
    fix y assume y: "y \<noteq> Inl t" "y \<noteq> Inr l"
    then show "?own y = own y" by simp
    fix u assume u: "u \<in> set (own y)"
    then have "u \<noteq> p" using new y by blast
    then show "fs ! u = frames s ! u" using same u by blast
  qed
  then show ?thesis by blast
qed


lemma running_data:
  assumes "tasks_rep s a own lt" "running a l = Some t"
  obtains d where "subsystem_data s l = Some d" "current_task d = Some t"
proof -
  obtain d where d: "subsystem_data s l = Some d" using tasks_repD(3) [OF assms(1), of l] assms(2) by auto
  moreover have "current_task d = Some t" using tasks_repD(4) [OF assms(1) d] assms(2) by (simp add: location_ok_def)
  ultimately show ?thesis using that by blast
qed

lemma push_stack:
  assumes rep: "tasks_rep s a own lt" and x: "live a t = Some x" and run: "running a l = Some t"
  shows "\<exists>s' own'. SCOREP_Task_Enter l r s = Some s' \<and>
    tasks_rep s' (a\<lparr>live := (live a)(t \<mapsto> x\<lparr>region_list := r # region_list x\<rparr>)\<rparr>) own' lt"
proof -
  obtain d where d: "subsystem_data s l = Some d" and td: "current_task d = Some t" by (rule running_data [OF rep run])
  note R = tasks_repD [OF rep]
  note F = frames_ownedD [OF R(1)]
  let ?k = "current_index (tasks s ! t)"
  have t: "t < length (tasks s)" and h: "holds_regions (frames s) (current_frame (tasks s ! t)) ?k (own (Inl t)) (region_list x)"
    using live_task [OF rep x] .
  have free: "linked_from (frame_link (frames s)) (recycled_frames d) (own (Inr l))"
    using R(4) [OF d] by (simp add: location_ok_def)
  show ?thesis
  proof (cases "?k < 29")
    case True
    then show ?thesis using push_in_frame [OF rep x d td] by blast
  next
    case False
    then have k: "?k = 29" using h by (simp add: holds_regions_def)
    show ?thesis
    proof (cases "recycled_frames d")
      case None
      let ?p = "length (frames s)" and ?f = "\<lparr>regions = (replicate 30 None)[0 := Some r], frame_prev = current_frame (tasks s ! t)\<rparr>"
      have "SCOREP_Task_Enter l r s = Some (s\<lparr>frames := frames s @ [?f],
          tasks := (tasks s)[t := (tasks s ! t)\<lparr>current_frame := Some ?p, current_index := 0\<rparr>],
          subsystem_data := (subsystem_data s)(l \<mapsto> d\<lparr>recycled_frames := None\<rparr>)\<rparr>)"
      proof -
        have dd: "d\<lparr>recycled_frames := None\<rparr> = d" using None by (cases d) simp
        show ?thesis
          unfolding dd using None k t d td
          by (simp add: SCOREP_Task_Enter_def alloc_new_stack_frame_def put_region_def task_defs same_data)
      qed
      moreover have "\<exists>own'. tasks_rep (s\<lparr>frames := frames s @ [?f],
          tasks := (tasks s)[t := (tasks s ! t)\<lparr>current_frame := Some ?p, current_index := 0\<rparr>],
          subsystem_data := (subsystem_data s)(l \<mapsto> d\<lparr>recycled_frames := None\<rparr>)\<rparr>)
          (a\<lparr>live := (live a)(t \<mapsto> x\<lparr>region_list := r # region_list x\<rparr>)\<rparr>) own' lt"
      proof (rule push_frame [OF rep x d k, where free = "[]"])
        show "length (regions ((frames s @ [?f]) ! q)) = 30" if "q < length (frames s @ [?f])" for q
          using that F(1) [of q] by (cases "q = ?p") (auto simp: nth_append)
        show "y = Inr l" if "?p \<in> set (own y)" for y using F(2) [OF that] by simp
      qed (auto simp: nth_append)
      ultimately show ?thesis by blast
    next
      case (Some p)
      then obtain fr where fr: "own (Inr l) = p # fr" and lk: "linked_from (frame_link (frames s)) (frame_prev (frames s ! p)) fr"
        using free by (auto simp: linked_Some)
      have pl: "p < length (frames s)" using F(2) [of p "Inr l"] fr by simp
      have l30: "length (regions (frames s ! p)) = 30" using F(1) [OF pl] .
      have pf: "p \<notin> set fr" using linked_distinct [OF free] fr by simp
      let ?f = "(frames s ! p)\<lparr>frame_prev := current_frame (tasks s ! t), regions := (regions (frames s ! p))[0 := Some r]\<rparr>"
      have "SCOREP_Task_Enter l r s = Some (s\<lparr>frames := (frames s)[p := ?f],
          tasks := (tasks s)[t := (tasks s ! t)\<lparr>current_frame := Some p, current_index := 0\<rparr>],
          subsystem_data := (subsystem_data s)(l \<mapsto> d\<lparr>recycled_frames := frame_prev (frames s ! p)\<rparr>)\<rparr>)"
        using Some k t d td pl l30
        by (simp add: SCOREP_Task_Enter_def alloc_new_stack_frame_def put_region_def task_defs)
      moreover have "\<exists>own'. tasks_rep (s\<lparr>frames := (frames s)[p := ?f],
          tasks := (tasks s)[t := (tasks s ! t)\<lparr>current_frame := Some p, current_index := 0\<rparr>],
          subsystem_data := (subsystem_data s)(l \<mapsto> d\<lparr>recycled_frames := frame_prev (frames s ! p)\<rparr>)\<rparr>)
          (a\<lparr>live := (live a)(t \<mapsto> x\<lparr>region_list := r # region_list x\<rparr>)\<rparr>) own' lt"
      proof (rule push_frame [OF rep x d k, where free = fr])
        show "length (regions ((frames s)[p := ?f] ! q)) = 30" if "q < length ((frames s)[p := ?f])" for q
          using that F(1) [of q] l30 by (cases "q = p") auto
        show "y = Inr l" if "p \<in> set (own y)" for y using F(3) [of p y "Inr l"] that fr by simp
      qed (use pl l30 lk pf fr in auto)
      ultimately show ?thesis by blast
    qed
  qed
qed

lemma rep_event:
  "tasks_rep s a own lt \<Longrightarrow> tasks_rep (task_event e s) (a\<lparr>happened := happened a @ [e]\<rparr>) own lt"
  unfolding tasks_rep_def task_ok_def location_ok_def task_event_def
  by (simp del: not_None_eq split_paired_All)

lemma rep_top:
  assumes rep: "tasks_rep s a own lt" and x: "live a t = Some x"
  shows "SCOREP_Task_GetTopRegion t s = Some (case region_list x of [] \<Rightarrow> 0 | r # rs \<Rightarrow> r)"
proof (cases "current_frame (tasks s ! t)")
  case None
  then show ?thesis using empty_stack [OF rep x] live_task(1) [OF rep x] by (simp add: SCOREP_Task_GetTopRegion_def)
next
  case (Some p)
  show ?thesis
    by (rule top_frame [OF rep x Some])
      (use Some live_task(1) [OF rep x] in \<open>simp add: SCOREP_Task_GetTopRegion_def\<close>)
qed

lemma exit_running:
  assumes rep: "tasks_rep s a own lt" and x: "live a t = Some x" and run: "running a l = Some t" and rs: "region_list x = r # rs"
  shows "\<exists>s' own'. exit_region l h s = Some s' \<and> tasks_rep s' (a\<lparr>live := (live a)(t \<mapsto> x\<lparr>region_list := rs\<rparr>),
           happened := happened a @ [ExitRegion l h]\<rparr>) own' lt"
proof -
  let ?s = "task_event (ExitRegion l h) s" and ?a = "a\<lparr>happened := happened a @ [ExitRegion l h]\<rparr>"
  have rep': "tasks_rep ?s ?a own lt" using rep by (rule rep_event)
  obtain d where d: "subsystem_data ?s l = Some d" "current_task d = Some t"
    by (rule running_data [OF rep']) (use run in simp)
  obtain s' own' where "task_pop_stack l t ?s = Some s'"
    "tasks_rep s' (?a\<lparr>live := (live ?a)(t \<mapsto> x\<lparr>region_list := rs\<rparr>)\<rparr>) own' lt"
    using pop_stack [OF rep', of t, OF _ d(1) rs] x by auto
  then show ?thesis using d by (auto simp: exit_region_def SCOREP_Task_Exit_def list_tasks_commute)
qed

lemma exit_all:
  assumes "tasks_rep s a own lt" "live a t = Some x" "running a l = Some t"
  shows "\<exists>s' own'. exit_regions l t s = Some s' \<and> tasks_rep s' (a\<lparr>live := (live a)(t \<mapsto> x\<lparr>region_list := []\<rparr>),
     happened := happened a @ map (ExitRegion l) (filter (\<lambda>h. h \<noteq> SCOREP_FILTERED_REGION) (region_list x))\<rparr>) own' lt"
  using assms
proof (induction "region_list x" arbitrary: s a own x)
  case Nil
  then have "exit_regions l t s = Some s"
    using empty_stack [OF Nil.prems(1,2)] live_task(1) [OF Nil.prems(1,2)] by (simp add: exit_regions.simps [of l t s])
  moreover have "x\<lparr>region_list := []\<rparr> = x" using Nil.hyps by (cases x) simp
  then have "a\<lparr>live := (live a)(t \<mapsto> x\<lparr>region_list := []\<rparr>), happened := happened a @ []\<rparr> = a"
    using Nil.prems(2) by (cases a) (simp add: fun_upd_idem)
  ultimately show ?case using Nil.prems(1) Nil.hyps by (metis filter.simps(1) list.simps(8))
next
  case (Cons r rs)
  note rep = Cons.prems(1) and x = Cons.prems(2)
  obtain d where d: "subsystem_data s l = Some d" "current_task d = Some t" by (rule running_data [OF rep Cons.prems(3)])
  have top: "SCOREP_Task_GetTopRegion t s = Some r" using rep_top [OF rep x] Cons.hyps(2) by (cases "region_list x") auto
  have ne: "current_frame (tasks s ! t) \<noteq> None" using empty_stack [OF rep x] Cons.hyps(2) by auto
  let ?es = "if r \<noteq> SCOREP_FILTERED_REGION then [ExitRegion l r] else []"
  let ?x = "x\<lparr>region_list := rs\<rparr>"
  let ?a = "a\<lparr>live := (live a)(t \<mapsto> ?x), happened := happened a @ ?es\<rparr>"
  obtain s1 own1 where s1: "(if r \<noteq> SCOREP_FILTERED_REGION then exit_region l r s else task_pop_stack l t s) = Some s1"
    and rep1: "tasks_rep s1 ?a own1 lt"
    using exit_running [OF rep x Cons.prems(3) Cons.hyps(2) [symmetric], of r] pop_stack [OF rep x d(1) Cons.hyps(2) [symmetric]]
    by (cases "r = SCOREP_FILTERED_REGION") auto
  obtain s' own' where "exit_regions l t s1 = Some s'" and rep': "tasks_rep s' (?a\<lparr>live := (live ?a)(t \<mapsto> ?x\<lparr>region_list := []\<rparr>),
     happened := happened ?a @ map (ExitRegion l) (filter (\<lambda>h. h \<noteq> SCOREP_FILTERED_REGION) (region_list ?x))\<rparr>) own' lt"
    using Cons.hyps(1) [of ?x s1 ?a own1] rep1 Cons.prems(3) by auto
  then have "exit_regions l t s = Some s'"
    using s1 top ne live_task(1) [OF rep x] by (subst exit_regions.simps) auto
  moreover have "?a\<lparr>live := (live ?a)(t \<mapsto> ?x\<lparr>region_list := []\<rparr>),
     happened := happened ?a @ map (ExitRegion l) (filter (\<lambda>h. h \<noteq> SCOREP_FILTERED_REGION) (region_list ?x))\<rparr>
     = a\<lparr>live := (live a)(t \<mapsto> x\<lparr>region_list := []\<rparr>),
     happened := happened a @ map (ExitRegion l) (filter (\<lambda>h. h \<noteq> SCOREP_FILTERED_REGION) (region_list x))\<rparr>"
    by (simp add: Cons.hyps(2) [symmetric])
  ultimately show ?case using rep' by auto
qed


definition with_index :: "nat \<Rightarrow> nat \<Rightarrow> task_state \<Rightarrow> task_state" where
  "with_index t k s = set_task t ((tasks s ! t)\<lparr>current_index := k\<rparr>) s"

text \<open>While the stack is cleared the index is stale; it is the one of some stack.\<close>

lemma clear_frames:
  assumes "tasks_rep (with_index t k s) a own lt" "live a t = Some x" "running a l = Some m" "own (Inl t) = ps" "t < length (tasks s)"
  shows "\<exists>s' own'. clear_loop l t s = Some s' \<and> t < length (tasks s') \<and>
     tasks_rep (with_index t 29 s') (a\<lparr>live := (live a)(t \<mapsto> x\<lparr>region_list := []\<rparr>)\<rparr>) own' lt"
  using assms
proof (induction ps arbitrary: s a own x k)
  case Nil
  note rep = Nil.prems(1) and x = Nil.prems(2) and t = Nil.prems(5)
  have h: "holds_regions (frames s) (current_frame (tasks s ! t)) k [] (region_list x)"
    using live_task(2) [OF rep x] t Nil.prems(4) by (simp add: with_index_def set_task_def)
  then have "k = 29" "current_frame (tasks s ! t) = None" "region_list x = []" by (simp_all add: holds_regions_def)
  moreover from this have "x\<lparr>region_list := []\<rparr> = x" by (cases x) simp
  then have "a\<lparr>live := (live a)(t \<mapsto> x\<lparr>region_list := []\<rparr>)\<rparr> = a" using x by (cases a) (simp add: fun_upd_idem)
  moreover from calculation t have "clear_loop l t s = Some s" by (simp add: clear_loop.simps [of l t s])
  ultimately show ?case using rep t by metis
next
  case (Cons p ps)
  note rep = Cons.prems(1) and x = Cons.prems(2) and t = Cons.prems(5)
  let ?s = "with_index t k s"
  have cf: "current_frame (tasks ?s ! t) = current_frame (tasks s ! t)" and fr: "frames ?s = frames s"
    and sd: "subsystem_data ?s = subsystem_data s"
    using t by (simp_all add: with_index_def set_task_def)
  obtain d where d: "subsystem_data ?s l = Some d" by (rule running_data [OF rep Cons.prems(3)])
  have p: "current_frame (tasks ?s ! t) = Some p"
    using live_task(2) [OF rep x] Cons.prems(4) by (simp add: holds_regions_def)
  have pl: "p < length (frames s)"
    using frames_ownedD(2) [OF tasks_repD(1) [OF rep], of p "Inl t"] Cons.prems(4) by (simp add: fr)
  let ?x = "x\<lparr>region_list := drop (Suc (current_index (tasks ?s ! t))) (region_list x)\<rparr>"
  let ?a = "a\<lparr>live := (live a)(t \<mapsto> ?x)\<rparr>"
  obtain own1 where rep1: "tasks_rep (?s\<lparr>frames := (frames ?s)[p := (frames ?s ! p)\<lparr>frame_prev := recycled_frames d\<rparr>],
             tasks := (tasks ?s)[t := (tasks ?s ! t)\<lparr>current_frame := frame_prev (frames ?s ! p), current_index := 29\<rparr>],
             subsystem_data := (subsystem_data ?s)(l \<mapsto> d\<lparr>recycled_frames := Some p\<rparr>)\<rparr>) ?a own1 lt"
    and own1: "own (Inl t) = p # own1 (Inl t)"
    using drop_frame [OF rep x d p] by blast
  let ?s1 = "s\<lparr>frames := (frames s)[p := (frames s ! p)\<lparr>frame_prev := recycled_frames d\<rparr>],
             tasks := (tasks s)[t := (tasks s ! t)\<lparr>current_frame := frame_prev (frames s ! p)\<rparr>],
             subsystem_data := (subsystem_data s)(l \<mapsto> d\<lparr>recycled_frames := Some p\<rparr>)\<rparr>"
  have rep2: "tasks_rep (with_index t 29 ?s1) ?a own1 lt"
    using rep1 t by (simp add: with_index_def set_task_def task_state_commute)
  have step: "clear_loop l t s = clear_loop l t ?s1"
    using t p pl d by (subst clear_loop.simps) (simp add: cf sd recycle_stack_frame_def task_defs)
  have "\<exists>s' own'. clear_loop l t ?s1 = Some s' \<and> t < length (tasks s') \<and>
     tasks_rep (with_index t 29 s') (?a\<lparr>live := (live ?a)(t \<mapsto> ?x\<lparr>region_list := []\<rparr>)\<rparr>) own' lt"
    by (rule Cons.IH [OF rep2]) (use Cons.prems(3,4) own1 t in simp_all)
  moreover have "?a\<lparr>live := (live ?a)(t \<mapsto> ?x\<lparr>region_list := []\<rparr>)\<rparr> = a\<lparr>live := (live a)(t \<mapsto> x\<lparr>region_list := []\<rparr>)\<rparr>"
    by simp
  ultimately show ?case unfolding step by metis
qed

lemma clear_stack:
  assumes rep: "tasks_rep s a own lt" and x: "live a t = Some x" and run: "running a l = Some m"
  shows "\<exists>s' own'. SCOREP_Task_ClearStack l t s = Some s' \<and>
     tasks_rep s' (a\<lparr>live := (live a)(t \<mapsto> x\<lparr>region_list := []\<rparr>)\<rparr>) own' lt"
proof -
  have "with_index t (current_index (tasks s ! t)) s = s" by (simp add: with_index_def set_task_def)
  then obtain s' own' where s': "clear_loop l t s = Some s'" "t < length (tasks s')"
     and rep': "tasks_rep (with_index t 29 s') (a\<lparr>live := (live a)(t \<mapsto> x\<lparr>region_list := []\<rparr>)\<rparr>) own' lt"
    using clear_frames [of t "current_index (tasks s ! t)" s a own lt x l m] rep x run live_task(1) [OF rep x] by auto
  have "SCOREP_Task_ClearStack l t s = Some (with_index t 29 s')"
    using s' by (simp add: SCOREP_Task_ClearStack_def with_index_def SCOREP_TASK_STACK_SIZE_def)
  with rep' show ?thesis by blast
qed

section \<open>The hash value\<close>

lemma hash_regions_append: "hash_regions w (xs @ ys) v = hash_regions w xs v \<bind> hash_regions w ys"
  by (induction xs arbitrary: v) (auto split: option.splits bind_splits)

lemma aggregate_frames:
  assumes "linked_from (frame_link (frames s)) q ps" "\<And>p. p \<in> set ps \<Longrightarrow> p < length (frames s) \<and> length (regions (frames s ! p)) = 30"
    "n < 30" "t < length (tasks s)" "parent_hash_value (tasks s ! t) = Some v"
  shows "stack_frame_aggregation w s q n t = hash_regions w (rev (frame_regions (frames s) ps n)) v"
  using assms
proof (induction ps arbitrary: q n)
  case Nil
  then show ?case by (simp add: stack_frame_aggregation.simps)
next
  case (Cons p ps)
  have "stack_frame_aggregation w s (frame_prev (frames s ! p)) 29 t = hash_regions w (rev (frame_regions (frames s) ps 29)) v"
    by (rule Cons.IH) (use Cons.prems in auto)
  then show ?case using Cons.prems
    by (subst stack_frame_aggregation.simps) (simp add: hash_regions_append SCOREP_TASK_STACK_SIZE_def)
qed

lemma task_hash:
  assumes own: "frames_owned (frames s) own" and tx: "task_ok s own t x"
  shows "SCOREP_Task_GetRegionStackHash w t s = list_hash w x"
proof -
  note F = frames_ownedD [OF own]
  have none: "current_frame (tasks s ! t) = None \<longleftrightarrow> region_list x = []"
    using tx holds_regions_empty [OF own, of _ _ "Inl t"] by (auto simp: task_ok_def)
  have "stack_frame_aggregation w s (current_frame (tasks s ! t)) (current_index (tasks s ! t)) t =
      hash_regions w (rev (frame_regions (frames s) (own (Inl t)) (current_index (tasks s ! t)))) (parent_hash_of x)"
    by (rule aggregate_frames) (use tx F in \<open>auto simp: task_ok_def holds_regions_def\<close>)
  then show ?thesis using tx none
    by (auto simp: SCOREP_Task_GetRegionStackHash_def list_hash_def task_ok_def holds_regions_def rev_map)
qed

section \<open>Tasks come and go\<close>

lemma rep_add:
  assumes rep: "tasks_rep s a own lt" and new: "live a t = None"
    and ts: "t < length ts" "length (tasks s) \<le> length ts" "\<And>u. u < length (tasks s) \<Longrightarrow> u \<noteq> t \<Longrightarrow> ts ! u = tasks s ! u"
    and y: "current_frame (ts ! t) = None" "current_index (ts ! t) = 29" "region_list y = []" "thread_id (ts ! t) = thread_of y"
      "generation_number (ts ! t) = generation_of y" "parent_hash_value (ts ! t) = Some (parent_hash_of y)"
    and d: "current_task d = Some c" "linked_from (frame_link (frames s)) (recycled_frames d) fr" "set fr \<subseteq> set (own (Inr l))"
      "linked_from (\<lambda>t. task_next (tasks s ! t)) (recycled_tasks d) tk" "t \<notin> set tk"
      "tk = [] \<or> subsystem_data s l \<noteq> None \<and> set tk \<subseteq> set (lt l)"
    and free: "\<And>m. subsystem_data s m \<noteq> None \<Longrightarrow> t \<in> set (lt m) \<Longrightarrow> m = l"
  shows "tasks_rep (s\<lparr>tasks := ts, subsystem_data := (subsystem_data s)(l \<mapsto> d), task_events := task_events s @ es\<rparr>)
     (a\<lparr>live := (live a)(t \<mapsto> y), running := (running a)(l \<mapsto> c), happened := happened a @ es\<rparr>)
     (own(Inl t := [], Inr l := fr)) (lt(l := tk))" (is "tasks_rep ?s ?a ?own ?lt")
proof -
  note R = tasks_repD [OF rep]
  note F = frames_ownedD [OF R(1)]
  have sub: "u \<in> set (own z)" if "u \<in> set (?own z)" for u z using that d(3) by (auto split: if_splits)
  have tk: "u < length (tasks s) \<and> live a u = None" if "u \<in> set tk" for u using d(6) that R(5) by (metis empty_iff list.set(1) not_None_eq subsetD)
  show ?thesis
  proof (rule tasks_repI)
    show "frames_owned (frames ?s) ?own"
    proof (rule frames_ownedI)
      show "length (regions (frames ?s ! p)) = 30" if "p < length (frames ?s)" for p using that F(1) by simp
      show "p < length (frames ?s)" if "p \<in> set (?own z)" for z p using F(2) [OF sub [OF that]] by simp
      show "z = z'" if "p \<in> set (?own z)" "p \<in> set (?own z')" for z z' p using F(3) sub that by blast
    qed
    show "task_ok ?s ?own u x" if "live ?a u = Some x" for u x
    proof (cases "u = t")
      case True
      then show ?thesis using that ts y by (simp add: task_ok_def holds_regions_def)
    next
      case False
      then have "task_ok s own u x" using that R(2) by simp
      then show ?thesis using False ts by (auto simp: task_ok_def)
    qed
    show "(subsystem_data ?s m = None) = (running ?a m = None)" for m using R(3) [of m] by simp
    show "location_ok ?s ?a ?own ?lt m e" if "subsystem_data ?s m = Some e" for m e
    proof (cases "m = l")
      case True
      have "linked_from (\<lambda>u. task_next (ts ! u)) (recycled_tasks d) tk = linked_from (\<lambda>u. task_next (tasks s ! u)) (recycled_tasks d) tk"
        by (rule linked_cong) (use tk ts d(5) in metis)
      with True that d show ?thesis by (auto simp: location_ok_def)
    next
      case False
      then have e: "subsystem_data s m = Some e" using that by simp
      have "linked_from (\<lambda>u. task_next (ts ! u)) (recycled_tasks e) (lt m) = linked_from (\<lambda>u. task_next (tasks s ! u)) (recycled_tasks e) (lt m)"
        by (rule linked_cong) (use R(5) [OF e] ts free [of m] e False in \<open>metis option.distinct(1)\<close>)
      with R(4) [OF e] False show ?thesis by (simp add: location_ok_def)
    qed
    show "u < length (tasks ?s) \<and> live ?a u = None" if "subsystem_data ?s m = Some e" "u \<in> set (?lt m)" for m e u
    proof (cases "m = l")
      case True
      then show ?thesis using that tk [of u] d(5) ts(2) by auto
    next
      case False
      then have e: "subsystem_data s m = Some e" "u \<in> set (lt m)" using that by simp_all
      then have "u \<noteq> t" using free [of m] False by auto
      then show ?thesis using R(5) [OF e] ts(2) by simp
    qed
    show "m = m'" if "subsystem_data ?s m \<noteq> None" "subsystem_data ?s m' \<noteq> None" "u \<in> set (?lt m)" "u \<in> set (?lt m')" for m m' u
    proof (rule ccontr)
      assume ne: "m \<noteq> m'"
      have "subsystem_data s n \<noteq> None \<and> u \<in> set (lt n)" if "subsystem_data ?s n \<noteq> None" "u \<in> set (?lt n)" for n
        using that d(6) by (cases "n = l") auto
      then show False using R(6) that ne by blast
    qed
    show "task_events ?s = happened ?a" using R(7) by simp
  qed
qed

lemma rep_create:
  assumes rep: "tasks_rep s a own lt" and run: "running a l = Some c" and x: "live a c = Some x" and v: "list_hash w x = Some v"
  shows "\<exists>t s' own' lt'. scorep_task_create w l i g s = Some (t, s') \<and> live a t = None \<and>
    tasks_rep s' (a\<lparr>live := (live a)(t \<mapsto> \<lparr>region_list = [], thread_of = i, generation_of = g, parent_hash_of = v\<rparr>),
             happened := happened a @ [CoreTaskCreate l t]\<rparr>) own' lt'"
proof -
  note R = tasks_repD [OF rep]
  obtain d where d: "subsystem_data s l = Some d" and td: "current_task d = Some c" by (rule running_data [OF rep run])
  have dok: "linked_from (frame_link (frames s)) (recycled_frames d) (own (Inr l))"
    "linked_from (\<lambda>t. task_next (tasks s ! t)) (recycled_tasks d) (lt l)" using R(4) [OF d] by (simp_all add: location_ok_def)
  have a: "(running a)(l \<mapsto> c) = running a" using run by (rule fun_upd_idem)
  have c: "c < length (tasks s)" using live_task(1) [OF rep x] .
  have hash: "SCOREP_Task_GetRegionStackHash w c s' = Some v"
    if "frames s' = frames s" "c < length (tasks s')" "tasks s' ! c = tasks s ! c" for s'
    using task_hash [of s' own c x w] R(1) R(2) [OF x] v that by (simp add: task_ok_def)
  let ?y = "\<lparr>region_list = [], thread_of = i, generation_of = g, parent_hash_of = v\<rparr>"
  show ?thesis
  proof (cases "recycled_tasks d")
    case None
    let ?t = "length (tasks s)"
    let ?x = "\<lparr>current_frame = None, current_index = 29, thread_id = i, generation_number = g, parent_hash_value = Some v,
      task_next = None, substrate_data = replicate (n_substrates s) 0\<rparr>"
    have "scorep_task_create w l i g s = Some (?t, s\<lparr>tasks := tasks s @ [?x], task_events := task_events s @ [CoreTaskCreate l ?t]\<rparr>)"
      using None d td c by (simp add: scorep_task_create_def hash nth_append task_defs task_event_def)
    moreover have new: "live a ?t = None" using live_task(1) [OF rep, of ?t] by (cases "live a ?t") auto
    moreover have "tasks_rep (s\<lparr>tasks := tasks s @ [?x], subsystem_data := (subsystem_data s)(l \<mapsto> d),
         task_events := task_events s @ [CoreTaskCreate l ?t]\<rparr>)
       (a\<lparr>live := (live a)(?t \<mapsto> ?y), running := (running a)(l \<mapsto> c), happened := happened a @ [CoreTaskCreate l ?t]\<rparr>)
       (own(Inl ?t := [], Inr l := own (Inr l))) (lt(l := lt l))"
    proof (rule rep_add [OF rep new])
      show "?t \<notin> set (lt l)" using R(5) [OF d] by blast
      show "m = l" if "subsystem_data s m \<noteq> None" "?t \<in> set (lt m)" for m using R(5) that by blast
    qed (use td d dok in \<open>auto simp: nth_append\<close>)
    ultimately show ?thesis unfolding a same_data [OF d] by auto
  next
    case (Some t)
    then obtain tk where tk: "lt l = t # tk" "linked_from (\<lambda>t. task_next (tasks s ! t)) (task_next (tasks s ! t)) tk"
      using dok(2) by (auto simp: linked_Some)
    have t: "t < length (tasks s)" and new: "live a t = None" using R(5) [OF d, of t] tk(1) by simp_all
    have ct: "c \<noteq> t" using new x by auto
    let ?x = "(tasks s ! t)\<lparr>current_frame := None, current_index := 29, thread_id := i, generation_number := g,
      parent_hash_value := Some v, substrate_data := replicate (n_substrates s) 0\<rparr>"
    let ?d = "d\<lparr>recycled_tasks := task_next (tasks s ! t)\<rparr>"
    have "scorep_task_create w l i g s = Some (t, s\<lparr>tasks := (tasks s)[t := ?x],
        subsystem_data := (subsystem_data s)(l \<mapsto> ?d), task_events := task_events s @ [CoreTaskCreate l t]\<rparr>)"
      using Some d td c t ct by (simp add: scorep_task_create_def hash task_defs task_event_def)
    moreover have "tasks_rep (s\<lparr>tasks := (tasks s)[t := ?x], subsystem_data := (subsystem_data s)(l \<mapsto> ?d),
         task_events := task_events s @ [CoreTaskCreate l t]\<rparr>)
       (a\<lparr>live := (live a)(t \<mapsto> ?y), running := (running a)(l \<mapsto> c), happened := happened a @ [CoreTaskCreate l t]\<rparr>)
       (own(Inl t := [], Inr l := own (Inr l))) (lt(l := tk))"
    proof (rule rep_add [OF rep new])
      show "t \<notin> set tk" using linked_distinct [OF dok(2)] tk(1) by simp
      show "m = l" if "subsystem_data s m \<noteq> None" "t \<in> set (lt m)" for m
        by (rule R(6) [of m l t]) (use that d tk in auto)
      show "tk = [] \<or> subsystem_data s l \<noteq> None \<and> set tk \<subseteq> set (lt l)" using d tk by auto
    qed (use td d dok tk t in auto)
    ultimately show ?thesis using new unfolding a by auto
  qed
qed

lemma rep_init:
  assumes rep: "tasks_rep s a own lt" and run: "running a l = None"
  shows "\<exists>t s' own' lt'. run_call (InitLocation w l i h) s = Some (t, s') \<and> live a t = None \<and>
    tasks_rep s' (a\<lparr>live := (live a)(t \<mapsto> \<lparr>region_list = [], thread_of = i, generation_of = 0, parent_hash_of = h\<rparr>),
             running := (running a)(l \<mapsto> t), happened := happened a @ [CoreTaskCreate l t]\<rparr>) own' lt'"
proof -
  note R = tasks_repD [OF rep]
  let ?t = "length (tasks s)"
  let ?x = "\<lparr>current_frame = None, current_index = 29, thread_id = i, generation_number = 0, parent_hash_value = Some h,
      task_next = None, substrate_data = replicate (n_substrates s) 0\<rparr>"
  let ?d = "\<lparr>current_task = Some ?t, recycled_tasks = None, implicit_task = Some ?t, recycled_frames = None\<rparr>"
  let ?y = "\<lparr>region_list = [], thread_of = i, generation_of = 0, parent_hash_of = h\<rparr>"
  have "run_call (InitLocation w l i h) s = Some (?t, s\<lparr>tasks := tasks s @ [?x], subsystem_data := (subsystem_data s)(l \<mapsto> ?d),
         task_events := task_events s @ [CoreTaskCreate l ?t]\<rparr>)"
    by (simp add: task_subsystem_init_location_def scorep_task_create_def task_defs task_event_def
        SCOREP_Task_GetCurrentTask_def nth_append)
  moreover have new: "live a ?t = None" using live_task(1) [OF rep, of ?t] by (cases "live a ?t") auto
  moreover have "tasks_rep (s\<lparr>tasks := tasks s @ [?x], subsystem_data := (subsystem_data s)(l \<mapsto> ?d),
         task_events := task_events s @ [CoreTaskCreate l ?t]\<rparr>)
       (a\<lparr>live := (live a)(?t \<mapsto> ?y), running := (running a)(l \<mapsto> ?t), happened := happened a @ [CoreTaskCreate l ?t]\<rparr>)
       (own(Inl ?t := [], Inr l := [])) (lt(l := []))"
  proof (rule rep_add [OF rep new])
    show "m = l" if "subsystem_data s m \<noteq> None" "?t \<in> set (lt m)" for m using R(5) that by blast
  qed (auto simp: nth_append)
  ultimately show ?thesis by blast
qed

lemma rep_complete:
  assumes rep: "tasks_rep s a own lt" and run: "running a l \<noteq> None" and x: "live a t = Some x"
  shows "\<exists>s' lt'. scorep_task_complete l t s = Some s' \<and>
    tasks_rep s' (a\<lparr>live := (live a)(t := None), happened := happened a @ [CoreTaskComplete l t]\<rparr>) own lt'"
proof -
  note R = tasks_repD [OF rep]
  obtain c where c: "running a l = Some c" using run by auto
  obtain d where d: "subsystem_data s l = Some d" and td: "current_task d = Some c" by (rule running_data [OF rep c])
  have t: "t < length (tasks s)" using live_task(1) [OF rep x] .
  let ?ts = "(tasks s)[t := (tasks s ! t)\<lparr>task_next := recycled_tasks d\<rparr>]"
  let ?s = "s\<lparr>tasks := ?ts, subsystem_data := (subsystem_data s)(l \<mapsto> d\<lparr>recycled_tasks := Some t\<rparr>),
    task_events := task_events s @ [CoreTaskComplete l t]\<rparr>"
  let ?a = "a\<lparr>live := (live a)(t := None), happened := happened a @ [CoreTaskComplete l t]\<rparr>"
  let ?lt = "lt(l := t # lt l)"
  have step: "scorep_task_complete l t s = Some ?s"
    using t d by (simp add: scorep_task_complete_def recycle_task_def task_defs task_event_def)
  have nt: "t \<notin> set (lt m)" if "subsystem_data s m = Some e" for m e using R(5) [OF that] x by auto
  have lk: "linked_from (\<lambda>u. task_next (?ts ! u)) q (lt m) = linked_from (\<lambda>u. task_next (tasks s ! u)) q (lt m)"
    if "subsystem_data s m = Some e" for m e q
    by (rule linked_cong) (use nt [OF that] in \<open>metis nth_list_update_neq\<close>)
  have "tasks_rep ?s ?a own ?lt"
  proof (rule tasks_repI)
    show "frames_owned (frames ?s) own" using R(1) by simp
    show "task_ok ?s own u z" if "live ?a u = Some z" for u z
      using that R(2) [of u z] by (cases "u = t") (auto simp: task_ok_def)
    show "(subsystem_data ?s m = None) = (running ?a m = None)" for m using R(3) [of m] run by simp
    show "location_ok ?s ?a own ?lt m e" if "subsystem_data ?s m = Some e" for m e
    proof (cases "m = l")
      case True
      then show ?thesis using that R(4) [OF d] lk [OF d] t by (auto simp: location_ok_def)
    next
      case False
      then show ?thesis using that R(4) [of m e] lk [of m e] by (simp add: location_ok_def)
    qed
    show "u < length (tasks ?s) \<and> live ?a u = None" if "subsystem_data ?s m = Some e" "u \<in> set (?lt m)" for m e u
      using that t R(5) [OF d, of u] R(5) [of m e u] by (auto split: if_splits)
    show "m = m'" if "subsystem_data ?s m \<noteq> None" "subsystem_data ?s m' \<noteq> None" "u \<in> set (?lt m)" "u \<in> set (?lt m')" for m m' u
    proof (rule ccontr)
      assume ne: "m \<noteq> m'"
      have n: "subsystem_data s n \<noteq> None \<and> (u \<in> set (lt n) \<or> n = l \<and> u = t)" if "subsystem_data ?s n \<noteq> None" "u \<in> set (?lt n)" for n
        using that d by (auto split: if_splits)
      show False using n [OF that(1,3)] n [OF that(2,4)] R(6) [of m m' u] nt ne by blast
    qed
    show "task_events ?s = happened ?a" using R(7) by simp
  qed
  with step show ?thesis by blast
qed

lemma rep_switch:
  assumes rep: "tasks_rep s a own lt" and run: "running a l \<noteq> None"
  shows "\<exists>s'. scorep_task_switch l t s = Some s' \<and> tasks_rep s' (a\<lparr>running := (running a)(l \<mapsto> t)\<rparr>) own lt"
proof -
  note R = tasks_repD [OF rep]
  obtain d where d: "subsystem_data s l = Some d" using R(3) [of l] run by auto
  let ?s = "set_data l (d\<lparr>current_task := Some t\<rparr>) s"
  have "tasks_rep ?s (a\<lparr>running := (running a)(l \<mapsto> t)\<rparr>) own lt"
  proof (rule tasks_repI)
    show "location_ok ?s (a\<lparr>running := (running a)(l \<mapsto> t)\<rparr>) own lt m e" if "subsystem_data ?s m = Some e" for m e
      using that R(4) [OF d] R(4) [of m e] by (cases "m = l") (auto simp: location_ok_def set_data_def)
    show "m = m'" if "subsystem_data ?s m \<noteq> None" "subsystem_data ?s m' \<noteq> None" "u \<in> set (lt m)" "u \<in> set (lt m')" for m m' u
      by (rule R(6) [of m m' u]) (use that d in \<open>auto simp: set_data_def split: if_splits\<close>)
    show "u < length (tasks ?s) \<and> live (a\<lparr>running := (running a)(l \<mapsto> t)\<rparr>) u = None"
      if "subsystem_data ?s m = Some e" "u \<in> set (lt m)" for m e u
      using that R(5) [of m _ u] d by (cases "m = l") (auto simp: set_data_def)
  qed (use R in \<open>auto simp: set_data_def task_ok_def\<close>)
  then show ?thesis using d by (simp add: scorep_task_switch_def)
qed


section \<open>Every sequence of calls\<close>

lemma on_list_Some:
  "on_list t f es a = Some a' \<longleftrightarrow> (\<exists>x rs. live a t = Some x \<and> f (region_list x) = Some rs \<and>
     a' = a\<lparr>live := (live a)(t \<mapsto> x\<lparr>region_list := rs\<rparr>), happened := happened a @ es\<rparr>)"
  by (auto simp: on_list_def bind_Some_iff)

lemma pop_list_Some: "pop_list rs = Some rs' \<longleftrightarrow> (\<exists>r. rs = r # rs')"
  by (cases rs) auto

lemma same_happened: "a\<lparr>live := lv, happened := happened a @ []\<rparr> = a\<lparr>live := lv\<rparr>"
  by simp

lemma call_step:
  assumes rep: "tasks_rep s a own lt" and c: "list_call c q a = Some b"
  shows "\<exists>r s' a' own' lt'. run_call c s = Some (r, s') \<and> list_call c r a = Some a' \<and> (makes_task c \<longrightarrow> live a r = None) \<and>
    tasks_rep s' a' own' lt'"
  using c
proof (cases c)
  case (InitLocation w l i h)
  then have "running a l = None" using c by (simp split: if_splits)
  then show ?thesis unfolding InitLocation using rep_init [OF rep, of l w i h] by force
next
  case (FinalizeLocation l)
  then obtain t x where t: "running a l = Some t" "live a t = Some x" using c by (auto simp: list_complete_def abort_simps split: if_splits)
  obtain d where d: "subsystem_data s l = Some d" "current_task d = Some t" by (rule running_data [OF rep t(1)])
  show ?thesis unfolding FinalizeLocation
    using rep_complete [OF rep, of l t x] t d by (fastforce simp: task_subsystem_finalize_location_def list_complete_def)
next
  case (TaskCreate w l i g)
  then obtain t x v where t: "running a l = Some t" "live a t = Some x" "list_hash w x = Some v" using c by (auto simp: abort_simps split: if_splits)
  then show ?thesis unfolding TaskCreate using rep_create [OF rep t, of i g] by fastforce
next
  case (TaskComplete l t)
  then obtain x where "running a l \<noteq> None" "live a t = Some x" using c by (auto simp: list_complete_def abort_simps split: if_splits)
  then show ?thesis unfolding TaskComplete using rep_complete [OF rep, of l t x] by (fastforce simp: list_complete_def)
next
  case (TaskSwitch l t)
  then have "running a l \<noteq> None" "live a t \<noteq> None" using c by (auto simp: abort_simps split: if_splits)
  then show ?thesis unfolding TaskSwitch using rep_switch [OF rep, of l t] by fastforce
next
  case (TaskEnter l h)
  then obtain t x where t: "running a l = Some t" "live a t = Some x" using c by (auto simp: on_list_Some abort_simps split: if_splits)
  then show ?thesis unfolding TaskEnter using push_stack [OF rep t(2,1), of h] by (fastforce simp: on_list_def)
next
  case (TaskExit l)
  then obtain t x r rs where t: "running a l = Some t" "live a t = Some x" "region_list x = r # rs"
    using c by (auto simp: on_list_Some pop_list_Some abort_simps split: if_splits)
  obtain d where d: "subsystem_data s l = Some d" "current_task d = Some t" by (rule running_data [OF rep t(1)])
  show ?thesis unfolding TaskExit
    using pop_stack [OF rep t(2) d(1) t(3)] t d by (fastforce simp: on_list_def SCOREP_Task_Exit_def)
next
  case (RegionEnter l h)
  then obtain t x where t: "running a l = Some t" "live a t = Some x" using c by (auto simp: on_list_Some abort_simps split: if_splits)
  obtain s' own' where s': "SCOREP_Task_Enter l h s = Some s'"
    and rep': "tasks_rep s' (a\<lparr>live := (live a)(t \<mapsto> x\<lparr>region_list := h # region_list x\<rparr>)\<rparr>) own' lt"
    using push_stack [OF rep t(2,1), of h] by blast
  show ?thesis unfolding RegionEnter using rep_event [OF rep', of "EnterRegion l h"] s' t
    by (auto simp: enter_region_def on_list_def)
next
  case (RegionExit l h)
  then obtain t x r rs where t: "running a l = Some t" "live a t = Some x" "region_list x = r # rs"
    using c by (auto simp: on_list_Some pop_list_Some abort_simps split: if_splits)
  then show ?thesis unfolding RegionExit
    using exit_running [OF rep t(2,1,3), of h] by (fastforce simp: on_list_def)
next
  case (ExitAllRegions l t)
  then obtain x where t: "running a l = Some t" "live a t = Some x" using c by (auto simp: on_list_Some abort_simps split: if_splits)
  then show ?thesis unfolding ExitAllRegions
    using exit_all [OF rep t(2,1)] by (fastforce simp: on_list_def SCOREP_Task_ExitAllRegions_def)
next
  case (ClearStack l t)
  then obtain m x where t: "running a l = Some m" "live a t = Some x" using c by (auto simp: on_list_Some abort_simps split: if_splits)
  then show ?thesis unfolding ClearStack
    using clear_stack [OF rep t(2,1)] by (fastforce simp: on_list_def)
qed

lemma history_rep: "task_history n s a \<Longrightarrow> \<exists>own lt. tasks_rep s a own lt"
proof (induction rule: task_history.induct)
  case start
  have "tasks_rep (no_tasks n) no_lists (\<lambda>x. []) (\<lambda>l. [])"
    by (simp add: tasks_rep_def no_tasks_def no_lists_def frames_owned_def)
  then show ?case by blast
next
  case (call s a c r s' a')
  then obtain own lt where rep: "tasks_rep s a own lt" by blast
  from call_step [OF rep call.hyps(3)] call.hyps(2,3) show ?case by auto
qed

text \<open>
  C20. The region stacks refine lists. Take any sequence of calls that initialises locations, creates, switches,
  completes and migrates tasks, enters and leaves regions, leaves all regions of a task or clears its stack.
  Every further call that makes sense for the tasks and lists (it concerns live tasks and does not leave a region of
  an empty list) returns, whatever frames and tasks were recycled before: no null pointer is followed,
  nothing is read that was not written, no loop runs for ever. It has the effect on the lists that the
  call is meant to have, with the exit events in the order of the stack, and a new task is none of the
  live ones.
\<close>

theorem region_stacks_refine_lists:
  assumes "task_history n s a" and "list_call c q a \<noteq> None"
  shows "\<exists>r s' a'. run_call c s = Some (r, s') \<and> list_call c r a = Some a' \<and> (makes_task c \<longrightarrow> live a r = None) \<and>
    task_history n s' a' \<and> task_events s' = happened a'"
proof -
  obtain own lt where rep: "tasks_rep s a own lt" using history_rep [OF assms(1)] by blast
  from call_step [OF rep] assms(2) obtain r s' a' own' lt' where s': "run_call c s = Some (r, s')" "list_call c r a = Some a'"
    "makes_task c \<longrightarrow> live a r = None" and rep': "tasks_rep s' a' own' lt'" by blast
  moreover have "task_history n s' a'" using task_history.call [OF assms(1) s'(1,2)] .
  ultimately show ?thesis using tasks_repD(7) [OF rep'] by blast
qed

text \<open>
  C26. What is read from a task is what its list has, after any sequence of calls: the top region (or the invalid region),
  the thread and generation it was created with, and the hash value of the region stack, which depends on the regions
  and on the hash value at the creation of the task only, not on frames, locations or handles of tasks.
\<close>

theorem region_stack_observed:
  assumes "task_history n s a" and "live a t = Some x"
  shows "SCOREP_Task_GetTopRegion t s = Some (case region_list x of [] \<Rightarrow> 0 | r # rs \<Rightarrow> r) \<and>
    SCOREP_Task_GetRegionStackHash w t s = list_hash w x \<and>
    SCOREP_Task_GetThreadId t s = Some (thread_of x) \<and> SCOREP_Task_GetGenerationNumber t s = Some (generation_of x)"
proof -
  obtain own lt where rep: "tasks_rep s a own lt" using history_rep [OF assms(1)] by blast
  have ok: "task_ok s own t x" using tasks_repD(2) [OF rep assms(2)] .
  show ?thesis
    using rep_top [OF rep assms(2)] task_hash [OF tasks_repD(1) [OF rep] ok, of w] ok
    by (simp add: SCOREP_Task_GetThreadId_def SCOREP_Task_GetGenerationNumber_def task_ok_def)
qed

lemma hash_regions_filtered:
  assumes "Some SCOREP_FILTERED_REGION \<in> set rs" and "length (memory w 0) < 2 ^ 32 - 1"
  shows "hash_regions w rs v = None"
  using assms(1)
proof (induction rs arbitrary: v)
  case (Cons r rs)
  have "deref w 0 SCOREP_FILTERED_REGION = None"
    using assms(2) by (simp add: deref_def arr_get_def SCOREP_FILTERED_REGION_def)
  then show ?case using Cons by (cases r) (auto split: bind_splits)
qed simp



section \<open>An example\<close>

text \<open>One location with a region, a task that begins, enters a filtered region and is switched back, on explicit memory.\<close>

definition example_defs :: defs where
  "example_defs = \<lparr>memory = (\<lambda>pm. []), local_manager = (\<lambda>k. \<lparr>chain = [], hash_table = None, hash_table_mask = 0, counter = 0, mapping = []\<rparr>),
     unified_manager = None, announced = [], location_mapping = []\<rparr>"

fun run_calls :: "task_call list \<Rightarrow> task_state \<Rightarrow> list_tasks \<Rightarrow> (task_state \<times> list_tasks) option" where
  "run_calls [] s a = Some (s, a)"
| "run_calls (c # cs) s a = do {
     (r, s) \<leftarrow> run_call c s;
     a \<leftarrow> list_call c r a;
     run_calls cs s a
   }"

lemma run_calls_history:
  "task_history n s a \<Longrightarrow> run_calls cs s a = Some (s', a') \<Longrightarrow> task_history n s' a'"
proof (induction cs arbitrary: s a)
  case (Cons c cs)
  then obtain r s1 a1 where "run_call c s = Some (r, s1)" "list_call c r a = Some a1" "run_calls cs s1 a1 = Some (s', a')"
    by (auto simp: bind_Some_iff)
  then show ?case using Cons.IH task_history.call Cons.prems(1) by blast
qed simp

abbreviation "example_task_calls \<equiv> [InitLocation example_defs 0 0 7, TaskCreate example_defs 0 3 4, TaskSwitch 0 1,
  TaskEnter 0 SCOREP_FILTERED_REGION]"

definition example_tasks :: task_state where
  "example_tasks = fst (the (run_calls example_task_calls (no_tasks 1) no_lists))"

definition example_lists :: list_tasks where
  "example_lists = snd (the (run_calls example_task_calls (no_tasks 1) no_lists))"

lemmas task_ops = task_subsystem_init_location_def scorep_task_create_def task_defs task_event_def
  SCOREP_Task_GetCurrentTask_def scorep_task_switch_def SCOREP_Task_Enter_def alloc_new_stack_frame_def put_region_def
  SCOREP_Task_GetRegionStackHash_def no_tasks_def no_lists_def list_hash_def on_list_def

lemma example_task_calls_run: "\<exists>s a. run_calls example_task_calls (no_tasks 1) no_lists = Some (s, a)"
  by (simp add: task_ops)

lemma example_history: "task_history 1 example_tasks example_lists"
proof -
  obtain s a where run: "run_calls example_task_calls (no_tasks 1) no_lists = Some (s, a)" using example_task_calls_run by blast
  have "task_history 1 s a" by (rule run_calls_history [OF task_history.start run])
  then show ?thesis unfolding example_tasks_def example_lists_def run by simp
qed

lemma example_task: "live example_lists 1 = Some \<lparr>region_list = [SCOREP_FILTERED_REGION], thread_of = 3, generation_of = 4, parent_hash_of = 0\<rparr>"
  "running example_lists 0 = Some 1"
  by (simp_all add: example_lists_def task_ops)

lemma region_stacks_refine_lists_witness:
  "list_call (TaskExit 0) 0 example_lists \<noteq> None \<and> (\<exists>r s' a'. run_call (TaskExit 0) example_tasks = Some (r, s') \<and>
     list_call (TaskExit 0) r example_lists = Some a' \<and> (makes_task (TaskExit 0) \<longrightarrow> live example_lists r = None) \<and>
     task_history 1 s' a' \<and> task_events s' = happened a')"
proof -
  have "list_call (TaskExit 0) 0 example_lists \<noteq> None" using example_task by (simp add: on_list_def)
  with region_stacks_refine_lists [OF example_history this] show ?thesis by blast
qed

lemma region_stack_observed_witness:
  "SCOREP_Task_GetTopRegion 1 example_tasks = Some SCOREP_FILTERED_REGION \<and> SCOREP_Task_GetThreadId 1 example_tasks = Some 3"
  using region_stack_observed [OF example_history example_task(1)] by simp


end
