(* ===== verification/Scorep_Config_Values.thy ===== *)
theory Scorep_Config_Values
  imports Scorep_Text Scorep_IO
begin

text \<open>
  The values of configuration variables: parsing them from text and printing them,
  \<open>src/src/measurement/SCOREP_Config.c\<close>. A variable reference that a parser writes is returned along with
  the success flag: several parsers write it before they fail. \<open>mem\<close> tells whether an allocation succeeds.
  The text of error messages is not modelled.
\<close>

section \<open>Types\<close>

datatype config_type =
  CONFIG_STRING | CONFIG_PATH | CONFIG_BOOL | CONFIG_NUMBER | CONFIG_SIZE | CONFIG_BITSET | CONFIG_OPTIONSET
| INVALID_CONFIG_TYPE

text \<open>What a variable reference points to: a string (none after a failed duplication), a flag or a number.\<close>

datatype config_value = VString "string option" | VBool bool | VNumber u64

record set_entry =
  se_name :: string
  se_value :: u64
  se_description :: string

text \<open>The context of a variable: none, the accepted values of a set or option, or the target name of a path.\<close>

datatype config_context = NoContext | AcceptedValues "set_entry list" | TargetName string

section \<open>Comparing names\<close>

fun equal_icase_stringn :: "string \<Rightarrow> string \<Rightarrow> nat \<Rightarrow> bool" where
  "equal_icase_stringn str1 str2 0 = True"
| "equal_icase_stringn str1 str2 (Suc n) =
     (if toupper (str1 ! n) \<noteq> toupper (str2 ! n) then False else equal_icase_stringn str1 str2 n)"

definition equal_icase_string :: "string \<Rightarrow> string \<Rightarrow> bool" where
  "equal_icase_string str1 str2 \<longleftrightarrow>
     (if length str1 = length str2 then equal_icase_stringn str1 str2 (length str1) else False)"

function string_in_alias_list :: "string \<Rightarrow> string \<Rightarrow> bool" where
  "string_in_alias_list val aliases =
     (let n = length (takeWhile (\<lambda>c. c \<noteq> CHR ''/'') aliases); next = drop n aliases
      in if length val = n \<and> equal_icase_stringn val aliases n then True
         else if next = [] then False
         else string_in_alias_list val (tl next))"
  by pat_completeness auto
termination
  by (relation "measure (length o snd)") auto

declare string_in_alias_list.simps [simp del]

section \<open>Parsing\<close>

text \<open>\<open>strtol\<close> at base ten: the number, saturated at the limits of \<open>long\<close>, and the text behind it; no
  number when nothing was consumed.\<close>

definition strtol :: "string \<Rightarrow> (int \<times> string) option" where
  "strtol s =
     (let t = dropWhile isspace s;
          (neg, t) = (case t of c # cs \<Rightarrow> if c = CHR ''-'' then (True, cs) else if c = CHR ''+'' then (False, cs) else (False, t)
                      | [] \<Rightarrow> (False, t));
          ds = takeWhile is_digit t; n = digits_value ds
      in if ds = [] then None
         else Some (if neg then max (- (2 ^ 63)) (- n) else min (2 ^ 63 - 1) n, dropWhile is_digit t))"

definition parse_bool :: "string \<Rightarrow> bool \<times> bool" where
  "parse_bool val =
     (if equal_icase_string val ''true'' \<or> equal_icase_string val ''yes'' \<or> equal_icase_string val ''on'' then (True, True)
      else case strtol val of
          Some (number, rest) \<Rightarrow> if rest = [] then (True, number \<noteq> 0) else (True, False)
        | None \<Rightarrow> (True, False))"

datatype parse_error = ERANGE | EINVAL

text \<open>The loop over the digits; it fails when the number gets smaller.\<close>

fun parse_digits :: "string \<Rightarrow> u64 \<Rightarrow> (u64 \<times> string) option" where
  "parse_digits [] number = Some (number, [])"
| "parse_digits (c # cs) number =
     (if is_digit c then
        (let new_number = 10 * number + (of_char c - 48)
         in if new_number < number then None else parse_digits cs new_number)
      else Some (number, c # cs))"

definition parse_uint64 :: "string \<Rightarrow> parse_error + (u64 \<times> string)" where
  "parse_uint64 numberString =
     (let s = dropWhile isspace numberString
      in case parse_digits s 0 of
           None \<Rightarrow> Inl ERANGE
         | Some (number, rest) \<Rightarrow> if rest = s then Inl EINVAL else Inr (number, rest))"

definition parse_number :: "string \<Rightarrow> u64 \<Rightarrow> bool \<times> u64" where
  "parse_number val old =
     (case parse_uint64 val of
        Inl _ \<Rightarrow> (False, old)
      | Inr (number, rest) \<Rightarrow> (dropWhile isspace rest = [], number))"

text \<open>The scale factor of the suffix: each letter multiplies by 1024 and falls through to the next smaller one.\<close>

definition scale_factor :: "char \<Rightarrow> u64 option" where
  "scale_factor c =
     (let c = toupper c
      in if c = CHR ''E'' then Some (1024 * 1024 * 1024 * 1024 * 1024 * 1024)
         else if c = CHR ''P'' then Some (1024 * 1024 * 1024 * 1024 * 1024)
         else if c = CHR ''T'' then Some (1024 * 1024 * 1024 * 1024)
         else if c = CHR ''G'' then Some (1024 * 1024 * 1024)
         else if c = CHR ''M'' then Some (1024 * 1024)
         else if c = CHR ''K'' then Some 1024
         else None)"

text \<open>The suffix: its factor, whether it was a byte suffix, and the text behind it.\<close>

definition size_suffix :: "string \<Rightarrow> (u64 \<times> bool \<times> string) option" where
  "size_suffix s = (case s of
     [] \<Rightarrow> Some (1, False, [])
   | c # cs \<Rightarrow> (case scale_factor c of
       Some f \<Rightarrow> Some (f, False, cs)
     | None \<Rightarrow> if toupper c = CHR ''B'' then Some (1, True, cs) else None))"

definition parse_size :: "string \<Rightarrow> u64 \<Rightarrow> bool \<times> u64" where
  "parse_size val old =
     (case parse_uint64 val of
        Inl _ \<Rightarrow> (False, old)
      | Inr (number, rest) \<Rightarrow>
          (case size_suffix (dropWhile isspace rest) of
             None \<Rightarrow> (False, number)
           | Some (factor, has_byte_suffix, rest) \<Rightarrow>
               (let rest = (if \<not> has_byte_suffix \<and> rest \<noteq> [] \<and> toupper (hd rest) = CHR ''B'' then tl rest else rest)
                in if dropWhile isspace rest \<noteq> [] then (False, number)
                   else if number * factor < number then (False, number)
                   else (True, number * factor))))"

definition parse_string :: "bool \<Rightarrow> string \<Rightarrow> bool \<times> string option" where
  "parse_string mem val = (let s = CStr_dup (\<lambda>_. mem) (Some val) in (s \<noteq> None, s))"

definition trim_string :: "string \<Rightarrow> string" where
  "trim_string str = rev (dropWhile isspace (rev (dropWhile isspace str)))"

definition DELIMITERS :: string where "DELIMITERS = '' ,:;''"

text \<open>An entry of a set: the accepted value it names is added, or removed after a tilde.\<close>

definition apply_entry :: "set_entry list \<Rightarrow> string \<Rightarrow> u64 \<Rightarrow> u64 option" where
  "apply_entry acceptedValues entry bits =
     (let (invert, entry) = (case entry of c # cs \<Rightarrow> if c = CHR ''~'' then (True, cs) else (False, entry) | [] \<Rightarrow> (False, entry))
      in case find (\<lambda>a. string_in_alias_list entry (se_name a)) acceptedValues of
           None \<Rightarrow> None
         | Some a \<Rightarrow> Some (if invert then bits AND NOT (se_value a) else bits OR se_value a))"

text \<open>The loop over the tokens. As long as no token was more than white space, \<open>strtok\<close> is called with the
  buffer again: \<open>restart\<close> is the string in it, which ends where \<open>strtok\<close> put a null character. Otherwise
  \<open>rest\<close> is where \<open>strtok\<close> goes on.\<close>

partial_function (option) bitset_loop ::
    "set_entry list \<Rightarrow> string option \<Rightarrow> string \<Rightarrow> u64 \<Rightarrow> (bool \<times> u64) option" where
  "bitset_loop acceptedValues restart rest bits =
     (let s = (case restart of Some buffer \<Rightarrow> buffer | None \<Rightarrow> rest)
      in case strtok DELIMITERS s of
           (None, _) \<Rightarrow> Some (True, bits)
         | (Some token, rest) \<Rightarrow>
             (if trim_string token = [] then
                bitset_loop acceptedValues
                  (map_option (\<lambda>buffer. takeWhile (\<lambda>c. c \<in> set DELIMITERS) buffer @ token) restart) rest bits
              else (case apply_entry acceptedValues (trim_string token) bits of
                 None \<Rightarrow> Some (False, bits)
               | Some bits \<Rightarrow> bitset_loop acceptedValues None rest bits)))"

definition parse_bitset :: "bool \<Rightarrow> string \<Rightarrow> set_entry list \<Rightarrow> (bool \<times> u64) option" where
  "parse_bitset mem val acceptedValues =
     (if equal_icase_string val ''none'' \<or> equal_icase_string val ''no'' then Some (True, 0)
      else if \<not> mem then Some (False, 0)
      else bitset_loop acceptedValues (Some val) [] 0)"

definition parse_optionset :: "bool \<Rightarrow> string \<Rightarrow> set_entry list \<Rightarrow> bool \<times> u64" where
  "parse_optionset mem val acceptedValues =
     (if \<not> mem then (False, 0)
      else let val = trim_string val
           in if length val = 0 then (True, 0)
              else case find (\<lambda>a. string_in_alias_list val (se_name a)) acceptedValues of
                     None \<Rightarrow> (False, 0)
                   | Some a \<Rightarrow> (True, se_value a))"

text \<open>The reference must be to a value of the type of the variable; sets and options need accepted values.\<close>

definition parse_value ::
    "bool \<Rightarrow> string \<Rightarrow> config_type \<Rightarrow> config_value \<Rightarrow> config_context \<Rightarrow> (bool \<times> config_value) option" where
  "parse_value mem val type ref ctx =
     (case type of
        CONFIG_BOOL \<Rightarrow> (case ref of VBool _ \<Rightarrow> Some (map_prod id VBool (parse_bool val)) | _ \<Rightarrow> None)
      | CONFIG_NUMBER \<Rightarrow> (case ref of VNumber old \<Rightarrow> Some (map_prod id VNumber (parse_number val old)) | _ \<Rightarrow> None)
      | CONFIG_SIZE \<Rightarrow> (case ref of VNumber old \<Rightarrow> Some (map_prod id VNumber (parse_size val old)) | _ \<Rightarrow> None)
      | CONFIG_BITSET \<Rightarrow> (case (ref, ctx) of
            (VNumber _, AcceptedValues vs) \<Rightarrow> map_option (map_prod id VNumber) (parse_bitset mem val vs)
          | _ \<Rightarrow> None)
      | CONFIG_OPTIONSET \<Rightarrow> (case (ref, ctx) of
            (VNumber _, AcceptedValues vs) \<Rightarrow> Some (map_prod id VNumber (parse_optionset mem val vs))
          | _ \<Rightarrow> None)
      | INVALID_CONFIG_TYPE \<Rightarrow> Some (False, ref)
      | _ \<Rightarrow> (case ref of VString _ \<Rightarrow> Some (map_prod id VString (parse_string mem val)) | _ \<Rightarrow> None))"

section \<open>Printing\<close>

definition quoted_length :: "string \<Rightarrow> nat" where
  "quoted_length str = length str + 2 + sum_list (map (\<lambda>c. if c \<in> {CHR 0x27, CHR ''!''} then 3 else 0) str)"

definition quoted_char :: "char \<Rightarrow> string" where
  "quoted_char c = (if c \<in> {CHR 0x27, CHR ''!''} then [CHR 0x27, CHR 0x5C, c, CHR 0x27] else [c])"

text \<open>The buffer of the quoted string is cleared by \<open>calloc\<close> and has one character more for the end.\<close>

definition single_quote_stringn :: "bool \<Rightarrow> string \<Rightarrow> nat \<Rightarrow> string option option" where
  "single_quote_stringn mem str n =
     (if \<not> mem then Some None
      else do {
        let quoted = [CHR 0x27] @ concat (map quoted_char (take n str)) @ [CHR 0x27];
        assertC (length quoted + 1 \<le> quoted_length (take n str) + 1);
        Some (Some quoted)
      })"

definition first_alias :: "string \<Rightarrow> string" where
  "first_alias name = takeWhile (\<lambda>c. c \<noteq> CHR ''/'') name"

fun dump_set_members :: "(nat \<Rightarrow> bool) \<Rightarrow> u64 \<Rightarrow> set_entry list \<Rightarrow> string \<Rightarrow> string option" where
  "dump_set_members mem bitmask [] sep = Some []"
| "dump_set_members mem bitmask (a # as) sep =
     (if bitmask AND se_value a = se_value a then do {
        quoted \<leftarrow> single_quote_stringn (mem (length as)) (se_name a) (length (first_alias (se_name a)));
        case quoted of
          None \<Rightarrow> Some []
        | Some q \<Rightarrow> do { out \<leftarrow> dump_set_members mem (bitmask AND NOT (se_value a)) as '',''; Some (sep @ q @ out) }
      } else dump_set_members mem bitmask as sep)"

definition NEWLINE_TEXT :: string where "NEWLINE_TEXT = [CHR 0x0A]"

definition dump_bitset :: "(nat \<Rightarrow> bool) \<Rightarrow> string \<Rightarrow> u64 \<Rightarrow> set_entry list \<Rightarrow> string option" where
  "dump_bitset mem name bitmask acceptedValues = do {
     out \<leftarrow> dump_set_members mem bitmask acceptedValues [];
     Some (name @ ''='' @ out @ NEWLINE_TEXT)
   }"

definition dump_optionset :: "(nat \<Rightarrow> bool) \<Rightarrow> string \<Rightarrow> u64 \<Rightarrow> set_entry list \<Rightarrow> string option" where
  "dump_optionset mem name option acceptedValues = do {
     out \<leftarrow> (case find (\<lambda>a. option = se_value a) acceptedValues of
        None \<Rightarrow> Some []
      | Some a \<Rightarrow> do {
          quoted \<leftarrow> single_quote_stringn (mem 0) (se_name a) (length (first_alias (se_name a)));
          Some (case quoted of None \<Rightarrow> [] | Some q \<Rightarrow> q)
        });
     Some (name @ ''='' @ out @ NEWLINE_TEXT)
   }"

text \<open>The letters left of \<open>" KMGTPE"\<close>; the first one is the suffix.\<close>

fun scale_down :: "u64 \<Rightarrow> string \<Rightarrow> u64 \<times> string" where
  "scale_down v (c # d # cs) = (if v mod 1024 = 0 then scale_down (v div 1024) (d # cs) else (v, c # d # cs))"
| "scale_down v units = (v, units)"

definition dump_size :: "string \<Rightarrow> u64 \<Rightarrow> string" where
  "dump_size name v =
     (let (v, units) = scale_down v '' KMGTPE''
      in name @ ''='' @ decimal (unat v) @ (if hd units = CHR '' '' then [] else [hd units]) @ NEWLINE_TEXT)"

definition dump_value ::
    "(nat \<Rightarrow> bool) \<Rightarrow> string \<Rightarrow> config_type \<Rightarrow> config_value \<Rightarrow> config_context \<Rightarrow> string option" where
  "dump_value mem name type ref ctx =
     (case type of
        CONFIG_BOOL \<Rightarrow> (case ref of
            VBool b \<Rightarrow> Some (name @ ''='' @ (if b then ''true'' else ''false'') @ NEWLINE_TEXT) | _ \<Rightarrow> None)
      | CONFIG_NUMBER \<Rightarrow> (case ref of VNumber n \<Rightarrow> Some (name @ ''='' @ decimal (unat n) @ NEWLINE_TEXT) | _ \<Rightarrow> None)
      | CONFIG_SIZE \<Rightarrow> (case ref of VNumber n \<Rightarrow> Some (dump_size name n) | _ \<Rightarrow> None)
      | CONFIG_BITSET \<Rightarrow> (case (ref, ctx) of (VNumber n, AcceptedValues vs) \<Rightarrow> dump_bitset mem name n vs | _ \<Rightarrow> None)
      | CONFIG_OPTIONSET \<Rightarrow> (case (ref, ctx) of (VNumber n, AcceptedValues vs) \<Rightarrow> dump_optionset mem name n vs | _ \<Rightarrow> None)
      | INVALID_CONFIG_TYPE \<Rightarrow> Some []
      | _ \<Rightarrow> (case ref of
            VString (Some s) \<Rightarrow> do {
              quoted \<leftarrow> single_quote_stringn (mem 0) s (length s);
              Some (case quoted of None \<Rightarrow> [] | Some q \<Rightarrow> name @ ''='' @ q @ NEWLINE_TEXT)
            }
          | _ \<Rightarrow> None))"

end
