(* ===== verification/Scorep_Config.thy ===== *)
theory Scorep_Config
  imports Scorep_Config_Values Scorep_Hashtab
begin

text \<open>
  The configuration variables of the measurement system, \<open>src/src/measurement/SCOREP_Config.c\<close>: the name
  spaces and their variables, setting them from defaults, from the environment and by name, and writing them out.

  Pointers to name spaces and to variables are positions in the lists that keep the order of registration. What a
  variable reference points to is in \<open>store\<close>. Running out of memory ends the process. A failed
  \<open>UTILS_BUG_ON\<close> is \<open>None\<close>, and so is the use of a name space that was freed.
\<close>

section \<open>State\<close>

record config_variable =
  cv_name :: string
  cv_type :: config_type
  cv_reference :: "nat option"
  cv_context :: config_context
  cv_default :: "string option"
  cv_short_help :: "string option"
  cv_long_help :: "string option"

record registered_variable =
  var_data :: config_variable
  env_var_name :: string
  is_evaluated :: bool
  is_changed :: bool

record name_space =
  ns_name :: string
  ns_table :: "(string, nat) hashtab"
  ns_variables :: "registered_variable list"

record config =
  name_spaces :: "(string, nat) hashtab option"
  spaces :: "name_space list"
  spaces_freed :: bool
  store :: "nat \<Rightarrow> config_value"
  force_conditional_registrations :: bool

datatype config_result = CONFIG_SUCCESS | CONFIG_INDEX_OUT_OF_BOUNDS | CONFIG_EINVAL | CONFIG_INVALID_VALUE

section \<open>Names\<close>

definition ENV_NAME_LEN_MAX :: nat where "ENV_NAME_LEN_MAX = 90"
definition ENV_NAME_SUB_LEN_MAX :: nat where "ENV_NAME_SUB_LEN_MAX = 41"

definition string_to_lower :: "string \<Rightarrow> string" where
  "string_to_lower s = map (\<lambda>c. if isalpha c then tolower c else c) s"

definition string_to_upper :: "string \<Rightarrow> string" where
  "string_to_upper s = map (\<lambda>c. if isalpha c then toupper c else c) s"

definition hash_name_space :: "string \<Rightarrow> u64" where "hash_name_space name = HashString name"

definition strcasecmp :: "string \<Rightarrow> string \<Rightarrow> int" where
  "strcasecmp a b = strcmp (map tolower a) (map tolower b)"

definition compare_name_space :: "string \<Rightarrow> string \<Rightarrow> int" where
  "compare_name_space key stored = (if length key = length stored then strcasecmp key stored else 1)"

definition hash_variable :: "string \<Rightarrow> u64" where "hash_variable name = HashString name"

definition compare_variable :: "string \<Rightarrow> string \<Rightarrow> int" where
  "compare_variable key stored = strcasecmp key stored"

fun check_name_rest :: "bool \<Rightarrow> string \<Rightarrow> unit option" where
  "check_name_rest allow_underscore [] = Some ()"
| "check_name_rest allow_underscore (c # cs) = do {
     let allow_underscore = (allow_underscore \<and> cs \<noteq> []);
     assertC (isalnum c \<or> (allow_underscore \<and> c = CHR ''_''));
     check_name_rest allow_underscore cs
   }"

definition check_name :: "string \<Rightarrow> bool \<Rightarrow> unit option" where
  "check_name name isNameSpace =
     (if isNameSpace \<and> name = [] then Some ()
      else case name of
        [] \<Rightarrow> None
      | c # cs \<Rightarrow> do { assertC (isalpha c); check_name_rest (\<not> isNameSpace) cs })"

definition check_bitset :: "set_entry list \<Rightarrow> unit option" where
  "check_bitset acceptedValues =
     assertC (\<forall>a\<in>set acceptedValues. se_value a \<noteq> 0
       \<and> \<not> equal_icase_string (se_name a) ''no'' \<and> \<not> equal_icase_string (se_name a) ''none'')"

text \<open>The name of the environment variable, written into a buffer of fixed length.\<close>

definition env_name :: "string \<Rightarrow> string \<Rightarrow> string option" where
  "env_name nameSpace variable = do {
     let s = ''SCOREP_'' @ take ENV_NAME_SUB_LEN_MAX nameSpace @ (if length nameSpace \<noteq> 0 then ''_'' else [])
       @ take ENV_NAME_SUB_LEN_MAX variable;
     assertC (length s < ENV_NAME_LEN_MAX + 1);
     Some (string_to_upper s)
   }"

section \<open>Finding and creating\<close>

definition ConfigInit :: "config \<Rightarrow> config option" where
  "ConfigInit cfg = do {
     assertC (name_spaces cfg = None);
     tab \<leftarrow> Hashtab_CreateSize True 32 hash_name_space compare_name_space;
     case tab of None \<Rightarrow> None | Some tab \<Rightarrow> Some (cfg\<lparr>name_spaces := Some tab\<rparr>)
   }"

text \<open>The list of the name spaces is not reset: its head and its tail point into freed memory afterwards.\<close>

definition ConfigFini :: "config \<Rightarrow> config option" where
  "ConfigFini cfg = do {
     assertC (name_spaces cfg \<noteq> None);
     assertC (\<not> spaces_freed cfg);
     Some (cfg\<lparr>name_spaces := None, spaces_freed := (spaces cfg \<noteq> [])\<rparr>)
   }"

definition get_name_space :: "config \<Rightarrow> string \<Rightarrow> bool \<Rightarrow> (nat option \<times> config) option" where
  "get_name_space cfg name create = do {
     tab \<leftarrow> name_spaces cfg;
     (entry, hashHint) \<leftarrow> Hashtab_Find tab name;
     case entry of
       Some item \<Rightarrow> Some (Some (item_value item), cfg)
     | None \<Rightarrow>
         if \<not> create then Some (None, cfg)
         else do {
           let name_buffer = string_to_lower name;
           variables \<leftarrow> Hashtab_CreateSize True 32 hash_variable compare_variable;
           variables \<leftarrow> variables;
           let i = length (spaces cfg);
           (item, tab) \<leftarrow> Hashtab_Insert True tab name_buffer i (Some hashHint);
           assertC (\<not> spaces_freed cfg);
           Some (Some i, cfg\<lparr>name_spaces := Some tab,
             spaces := spaces cfg @ [\<lparr>ns_name = name_buffer, ns_table = variables, ns_variables = []\<rparr>]\<rparr>)
         }
   }"

definition blank_variable :: "string \<Rightarrow> string \<Rightarrow> registered_variable" where
  "blank_variable name env = \<lparr>var_data = \<lparr>cv_name = name, cv_type = CONFIG_STRING, cv_reference = None,
     cv_context = NoContext, cv_default = None, cv_short_help = None, cv_long_help = None\<rparr>,
     env_var_name = env, is_evaluated = False, is_changed = False\<rparr>"

definition get_variable :: "name_space \<Rightarrow> string \<Rightarrow> bool \<Rightarrow> (nat option \<times> name_space) option" where
  "get_variable nameSpace name create = do {
     (entry, hashHint) \<leftarrow> Hashtab_Find (ns_table nameSpace) name;
     if (entry = None) = (\<not> create) then Some (None, nameSpace)
     else (case entry of
         Some item \<Rightarrow> Some (Some (item_value item), nameSpace)
       | None \<Rightarrow> do {
           let name_buffer = string_to_lower name;
           env \<leftarrow> env_name (ns_name nameSpace) name_buffer;
           let i = length (ns_variables nameSpace);
           (item, tab) \<leftarrow> Hashtab_Insert True (ns_table nameSpace) name_buffer i (Some hashHint);
           Some (Some i, nameSpace\<lparr>ns_table := tab,
             ns_variables := ns_variables nameSpace @ [blank_variable name_buffer env]\<rparr>)
         })
   }"

section \<open>Registering\<close>

definition parse_into :: "config \<Rightarrow> string \<Rightarrow> config_variable \<Rightarrow> (bool \<times> config) option" where
  "parse_into cfg val data = do {
     ref \<leftarrow> cv_reference data;
     (ok, v) \<leftarrow> parse_value True val (cv_type data) (store cfg ref) (cv_context data);
     Some (ok, cfg\<lparr>store := (store cfg)(ref := v)\<rparr>)
   }"

definition no_control_characters :: "string \<Rightarrow> bool" where
  "no_control_characters s \<longleftrightarrow> (\<forall>c\<in>set s. c \<notin> {CHR 0x0A, CHR 0x0D, CHR 0x0B, CHR 0x09})"

text \<open>Registering a variable that exists gets no variable, which is then written to.\<close>

definition register_variable :: "config \<Rightarrow> nat \<Rightarrow> config_variable \<Rightarrow> config option" where
  "register_variable cfg i v = do {
     assertC (cv_reference v \<noteq> None);
     defaultValue \<leftarrow> cv_default v;
     shortHelp \<leftarrow> cv_short_help v;
     assertC (no_control_characters shortHelp);
     assertC (cv_long_help v \<noteq> None);
     assertC (length (cv_name v) \<noteq> 1);
     assertC (length (cv_name v) \<le> ENV_NAME_SUB_LEN_MAX);
     check_name (cv_name v) False;
     name_space \<leftarrow> arr_get (spaces cfg) i;
     (variable, name_space) \<leftarrow> get_variable name_space (cv_name v) True;
     j \<leftarrow> variable;
     let data = v\<lparr>cv_name := string_to_lower (cv_name v)\<rparr>;
     var \<leftarrow> arr_get (ns_variables name_space) j;
     let name_space = name_space\<lparr>ns_variables := (ns_variables name_space)[j := var\<lparr>var_data := data\<rparr>]\<rparr>;
     let cfg = cfg\<lparr>spaces := (spaces cfg)[i := name_space]\<rparr>;
     (if cv_type v = CONFIG_BITSET
      then (case cv_context v of AcceptedValues vs \<Rightarrow> check_bitset vs | _ \<Rightarrow> None) else Some ());
     (ok, cfg) \<leftarrow> parse_into cfg defaultValue data;
     assertC ok;
     Some cfg
   }"

fun register_variables :: "config \<Rightarrow> nat \<Rightarrow> config_variable list \<Rightarrow> config option" where
  "register_variables cfg i [] = Some cfg"
| "register_variables cfg i (v # vs) = do { cfg \<leftarrow> register_variable cfg i v; register_variables cfg i vs }"

definition ConfigRegister :: "config \<Rightarrow> string \<Rightarrow> config_variable list \<Rightarrow> config option" where
  "ConfigRegister cfg nameSpaceName variables = do {
     assertC (name_spaces cfg \<noteq> None);
     assertC (length nameSpaceName \<le> ENV_NAME_SUB_LEN_MAX);
     check_name nameSpaceName True;
     (i, cfg) \<leftarrow> get_name_space cfg nameSpaceName True;
     i \<leftarrow> i;
     register_variables cfg i variables
   }"

definition ConfigRegisterCond :: "config \<Rightarrow> string \<Rightarrow> config_variable list \<Rightarrow> bool \<Rightarrow> config option" where
  "ConfigRegisterCond cfg nameSpaceName variables isAvailable =
     (if isAvailable \<or> force_conditional_registrations cfg then ConfigRegister cfg nameSpaceName variables else Some cfg)"

definition ConfigForceConditionalRegister :: "config \<Rightarrow> config" where
  "ConfigForceConditionalRegister cfg = cfg\<lparr>force_conditional_registrations := True\<rparr>"

section \<open>Setting\<close>

text \<open>The variables of a name space that were not evaluated before get the value of their environment variable.\<close>

fun apply_variables ::
    "(string \<Rightarrow> string option) \<Rightarrow> (nat \<Rightarrow> config_value) \<Rightarrow> registered_variable list
     \<Rightarrow> (config_result \<times> (nat \<Rightarrow> config_value) \<times> registered_variable list) option" where
  "apply_variables getenv st [] = Some (CONFIG_SUCCESS, st, [])"
| "apply_variables getenv st (v # vs) =
     (if is_evaluated v then do {
        (r, st, vs) \<leftarrow> apply_variables getenv st vs;
        Some (r, st, v # vs)
      } else (case getenv (env_var_name v) of
          None \<Rightarrow> do {
            (r, st, vs) \<leftarrow> apply_variables getenv st vs;
            Some (r, st, v\<lparr>is_evaluated := True\<rparr> # vs)
          }
        | Some val \<Rightarrow> do {
            ref \<leftarrow> cv_reference (var_data v);
            (ok, x) \<leftarrow> parse_value True val (cv_type (var_data v)) (st ref) (cv_context (var_data v));
            let st = st(ref := x);
            let v = v\<lparr>is_evaluated := True, is_changed := True\<rparr>;
            if \<not> ok then Some (CONFIG_EINVAL, st, v # vs)
            else do {
              (r, st, vs) \<leftarrow> apply_variables getenv st vs;
              Some (r, st, v # vs)
            }
          }))"

fun apply_spaces ::
    "(string \<Rightarrow> string option) \<Rightarrow> (nat \<Rightarrow> config_value) \<Rightarrow> name_space list
     \<Rightarrow> (config_result \<times> (nat \<Rightarrow> config_value) \<times> name_space list) option" where
  "apply_spaces getenv st [] = Some (CONFIG_SUCCESS, st, [])"
| "apply_spaces getenv st (n # ns) = do {
     (r, st, vs) \<leftarrow> apply_variables getenv st (ns_variables n);
     let n = n\<lparr>ns_variables := vs\<rparr>;
     if r \<noteq> CONFIG_SUCCESS then Some (r, st, n # ns)
     else do {
       (r, st, ns) \<leftarrow> apply_spaces getenv st ns;
       Some (r, st, n # ns)
     }
   }"

definition ConfigApplyEnv :: "config \<Rightarrow> (string \<Rightarrow> string option) \<Rightarrow> (config_result \<times> config) option" where
  "ConfigApplyEnv cfg getenv = do {
     assertC (name_spaces cfg \<noteq> None);
     assertC (\<not> spaces_freed cfg);
     (r, st, ns) \<leftarrow> apply_spaces getenv (store cfg) (spaces cfg);
     Some (r, cfg\<lparr>store := st, spaces := ns\<rparr>)
   }"

text \<open>The data of a variable, if the name space and the variable exist.\<close>

definition ConfigSetValue :: "config \<Rightarrow> string \<Rightarrow> string \<Rightarrow> string \<Rightarrow> (config_result \<times> config) option" where
  "ConfigSetValue cfg nameSpaceName variableName variableValue = do {
     (i, cfg) \<leftarrow> get_name_space cfg nameSpaceName False;
     case i of
       None \<Rightarrow> Some (CONFIG_INDEX_OUT_OF_BOUNDS, cfg)
     | Some i \<Rightarrow> do {
         name_space \<leftarrow> arr_get (spaces cfg) i;
         (j, name_space) \<leftarrow> get_variable name_space variableName False;
         case j of
           None \<Rightarrow> Some (CONFIG_INDEX_OUT_OF_BOUNDS, cfg)
         | Some j \<Rightarrow> do {
             v \<leftarrow> arr_get (ns_variables name_space) j;
             (ok, cfg) \<leftarrow> parse_into cfg variableValue (var_data v);
             Some (if ok then CONFIG_SUCCESS else CONFIG_INVALID_VALUE, cfg)
           }
       }
   }"

text \<open>For an unknown name space an error is reported, and then the null pointer is used.\<close>

definition ConfigGetData :: "config \<Rightarrow> string \<Rightarrow> string \<Rightarrow> config_variable option option" where
  "ConfigGetData cfg nameSpaceName variableName = do {
     (i, cfg) \<leftarrow> get_name_space cfg nameSpaceName False;
     i \<leftarrow> i;
     name_space \<leftarrow> arr_get (spaces cfg) i;
     (j, name_space) \<leftarrow> get_variable name_space variableName False;
     case j of
       None \<Rightarrow> Some None
     | Some j \<Rightarrow> do { v \<leftarrow> arr_get (ns_variables name_space) j; Some (Some (var_data v)) }
   }"

section \<open>Writing\<close>

fun dump_variables :: "(nat \<Rightarrow> config_value) \<Rightarrow> bool \<Rightarrow> bool \<Rightarrow> registered_variable list \<Rightarrow> string option" where
  "dump_variables st allVariables withValue [] = Some []"
| "dump_variables st allVariables withValue (v # vs) = do {
     out \<leftarrow> (if is_changed v \<or> allVariables then do {
         let buffer = (if allVariables then env_var_name v else ''    '' @ env_var_name v);
         assertC (length buffer < 200);
         if withValue then do {
           ref \<leftarrow> cv_reference (var_data v);
           dump_value (\<lambda>_. True) buffer (cv_type (var_data v)) (st ref) (cv_context (var_data v))
         } else Some (buffer @ NEWLINE_TEXT)
       } else Some []);
     rest \<leftarrow> dump_variables st allVariables withValue vs;
     Some (out @ rest)
   }"

fun dump_spaces :: "(nat \<Rightarrow> config_value) \<Rightarrow> bool \<Rightarrow> bool \<Rightarrow> name_space list \<Rightarrow> string option" where
  "dump_spaces st allVariables withValue [] = Some []"
| "dump_spaces st allVariables withValue (n # ns) = do {
     out \<leftarrow> dump_variables st allVariables withValue (ns_variables n);
     rest \<leftarrow> dump_spaces st allVariables withValue ns;
     Some (out @ rest)
   }"

definition config_dump :: "config \<Rightarrow> bool \<Rightarrow> bool \<Rightarrow> string option" where
  "config_dump cfg allVariables withValue = do {
     assertC (\<not> spaces_freed cfg);
     dump_spaces (store cfg) allVariables withValue (spaces cfg)
   }"

definition ConfigDump :: "config \<Rightarrow> string option" where
  "ConfigDump cfg = config_dump cfg True True"

definition ConfigDumpChangedVars :: "config \<Rightarrow> string option" where
  "ConfigDumpChangedVars cfg = config_dump cfg False False"

end
