(* ===== verification/Scorep_Config_Props.thy ===== *)
theory Scorep_Config_Props
  imports Scorep_Config_Values
begin

text \<open>
  Configuration values: what the parsers accept, when they return, and that what is written into the
  configuration file is read back.
\<close>

section \<open>Names\<close>

lemma equal_icase_stringn_take:
  "n \<le> length a \<Longrightarrow> n \<le> length b \<Longrightarrow> equal_icase_stringn a b n \<longleftrightarrow> map toupper (take n a) = map toupper (take n b)"
  by (induction n) (auto simp: take_Suc_conv_app_nth)

lemma equal_icase_string_iff: "equal_icase_string a b \<longleftrightarrow> map toupper a = map toupper b"
proof (cases "length a = length b")
  case True
  then show ?thesis by (simp add: equal_icase_string_def equal_icase_stringn_take)
next
  case False
  then have "map toupper a \<noteq> map toupper b" using map_eq_imp_length_eq by blast
  then show ?thesis using False by (simp add: equal_icase_string_def)
qed

text \<open>The names between the slashes.\<close>

function alias_names :: "string \<Rightarrow> string list" where
  "alias_names aliases =
     takeWhile (\<lambda>c. c \<noteq> CHR ''/'') aliases
     # (let next = dropWhile (\<lambda>c. c \<noteq> CHR ''/'') aliases in if next = [] then [] else alias_names (tl next))"
  by pat_completeness auto
termination
proof (relation "measure length", goal_cases)
  case (2 aliases x)
  then have "length x \<le> length aliases" "x \<noteq> []" by (auto simp: length_dropWhile_le)
  then show ?case by (cases x) auto
qed simp

declare alias_names.simps [simp del]

lemma string_in_alias_list_iff:
  "string_in_alias_list val aliases \<longleftrightarrow> (\<exists>a\<in>set (alias_names aliases). map toupper val = map toupper a)"
proof (induction val aliases rule: string_in_alias_list.induct)
  case (1 val aliases)
  let ?n = "length (takeWhile (\<lambda>c. c \<noteq> CHR ''/'') aliases)"
  have d: "drop ?n aliases = dropWhile (\<lambda>c. c \<noteq> CHR ''/'') aliases" by (rule dropWhile_eq_drop [symmetric])
  have t: "take ?n aliases = takeWhile (\<lambda>c. c \<noteq> CHR ''/'') aliases" by (rule takeWhile_eq_take [symmetric])
  have "length val = ?n \<and> equal_icase_stringn val aliases ?n
      \<longleftrightarrow> map toupper val = map toupper (takeWhile (\<lambda>c. c \<noteq> CHR ''/'') aliases)"
    using equal_icase_stringn_take [of ?n val aliases] t length_takeWhile_le
    by (metis length_map order_refl take_all)
  then show ?case
    using 1 by (subst string_in_alias_list.simps, subst alias_names.simps) (auto simp: Let_def d)
qed

lemma first_alias_in: "first_alias name \<in> set (alias_names name)"
  by (subst alias_names.simps) (simp add: first_alias_def)

section \<open>Numbers\<close>

definition digits_from :: "nat \<Rightarrow> string \<Rightarrow> nat" where
  "digits_from n ds = foldl (\<lambda>n c. 10 * n + (of_char c - 48)) n ds"

lemma digits_from_simps [simp]:
  "digits_from n [] = n" "digits_from n (c # cs) = digits_from (10 * n + (of_char c - 48)) cs"
  by (simp_all add: digits_from_def)

lemma digits_from_mono: "n \<le> digits_from n ds"
proof (induction ds arbitrary: n)
  case (Cons c ds)
  have "n \<le> 10 * n + (of_char c - 48)" by simp
  then show ?case using Cons [of "10 * n + (of_char c - 48)"] by simp
qed simp

lemma digits_from_value: "\<forall>c\<in>set ds. is_digit c \<Longrightarrow> int (digits_from n ds) = foldl (\<lambda>n c. 10 * n + (of_char c - 48)) (int n) ds"
proof (induction ds arbitrary: n)
  case (Cons c ds)
  have "int (10 * n + (of_char c - 48)) = 10 * int n + (of_char c - 48)"
    using Cons.prems by (simp add: is_digit_def of_nat_diff of_nat_of_char)
  then show ?case using Cons by simp
qed simp

lemma word_of_char: "48 \<le> (of_char c :: nat) \<Longrightarrow> (of_char c - 48 :: u64) = of_nat (of_char c - 48)"
  by (simp add: of_nat_diff of_nat_of_char)

lemma parse_digits_ok:
  assumes "\<forall>c\<in>set ds. is_digit c" "rest = [] \<or> \<not> is_digit (hd rest)" "digits_from n ds < 2 ^ 64"
  shows "parse_digits (ds @ rest) (of_nat n) = Some (of_nat (digits_from n ds), rest)"
  using assms
proof (induction ds arbitrary: n)
  case Nil
  then show ?case by (cases rest) auto
next
  case (Cons c ds)
  let ?m = "10 * n + (of_char c - 48)"
  have d: "is_digit c" using Cons.prems(1) by simp
  have m: "(10 * of_nat n + (of_char c - 48) :: u64) = of_nat ?m" using d by (simp add: is_digit_def word_of_char of_nat_diff)
  have "?m < 2 ^ 64" using Cons.prems(3) digits_from_mono [of ?m ds] by simp
  then have "\<not> (of_nat ?m :: u64) < of_nat n"
    by (simp only: word_less_nat_alt unat_of_nat take_bit_nat_eq_self) (simp add: take_bit_nat_eq_self)
  then show ?case using Cons.IH [of ?m] Cons.prems d by (simp add: m del: of_nat_add of_nat_mult)
qed

lemma isspace_not_digit: "isspace c \<Longrightarrow> \<not> is_digit c"
  by (auto simp: isspace_def is_digit_def)

lemma parse_uint64_ok:
  assumes "\<forall>c\<in>set ws. isspace c" "ds \<noteq> []" "\<forall>c\<in>set ds. is_digit c" "rest = [] \<or> \<not> is_digit (hd rest)"
    and "digits_from 0 ds < 2 ^ 64"
  shows "parse_uint64 (ws @ ds @ rest) = Inr (of_nat (digits_from 0 ds), rest)"
proof -
  have "\<not> isspace (hd (ds @ rest))" using assms(2,3) isspace_not_digit by (cases ds) auto
  then have "dropWhile isspace (ws @ ds @ rest) = ds @ rest"
    using assms(1,2) by (cases ds) (simp_all add: dropWhile_append3 dropWhile_append2)
  then show ?thesis using parse_digits_ok [OF assms(3,4,5)] assms(2) by (simp add: parse_uint64_def)
qed

section \<open>Printed sizes\<close>

lemma scale_down_exact:
  "scale_down v us = (v', us') \<Longrightarrow> us \<noteq> [] \<Longrightarrow>
   \<exists>n < length us. us' = drop n us \<and> unat v = unat v' * 1024 ^ n"
proof (induction v us arbitrary: v' us' rule: scale_down.induct)
  case (1 v c d cs)
  show ?case
  proof (cases "v mod 1024 = 0")
    case False
    then show ?thesis using 1(2) by (intro exI [of _ 0]) auto
  next
    case True
    then obtain n where n: "n < length (d # cs)" "us' = drop n (d # cs)" "unat (v div 1024) = unat v' * 1024 ^ n"
      using 1 by auto
    then have "unat v mod 1024 = 0" using arg_cong [OF True, of unat] by (simp add: unat_mod_distrib)
    then have "unat v = unat (v div 1024) * 1024"
      using div_mult_mod_eq [of "unat v" 1024] by (simp add: unat_div_distrib)
    then show ?thesis using n by (intro exI [of _ "Suc n"]) auto
  qed
qed auto


definition SUFFIXES :: string where "SUFFIXES = '' KMGTPE''"

definition suffix_text :: "nat \<Rightarrow> string" where
  "suffix_text k = (if k = 0 then [] else [SUFFIXES ! k])"

lemma dump_size_text:
  "\<exists>k n. k < 7 \<and> unat v = n * 1024 ^ k \<and> dump_size name v = name @ ''='' @ decimal n @ suffix_text k @ NEWLINE_TEXT"
proof -
  obtain v' us where d: "scale_down v SUFFIXES = (v', us)" by fastforce
  have "SUFFIXES \<noteq> []" "length SUFFIXES = 7" by (simp_all add: SUFFIXES_def)
  then obtain k where k: "k < 7" "us = drop k SUFFIXES" "unat v = unat v' * 1024 ^ k"
    using scale_down_exact [OF d] by auto
  then have "k \<in> {0, 1, 2, 3, 4, 5, 6}" by auto
  then have "(if hd us = CHR '' '' then [] else [hd us]) = suffix_text k"
    using k(2) by (auto simp: suffix_text_def SUFFIXES_def numeral_eq_Suc)
  then have "dump_size name v = name @ ''='' @ decimal (unat v') @ suffix_text k @ NEWLINE_TEXT"
    using d by (simp add: dump_size_def SUFFIXES_def)
  then show ?thesis using k by blast
qed

lemma digits_from_decimal: "digits_from 0 (decimal n) = n"
proof -
  have "int (digits_from 0 (decimal n)) = digits_value (decimal n)"
    using digits_from_value [of "decimal n" 0] decimal_digits [of n] by (auto simp: digits_value_def)
  then show ?thesis by (simp add: digits_value_decimal)
qed

lemma parse_uint64_decimal:
  "n < 2 ^ 64 \<Longrightarrow> rest = [] \<or> \<not> is_digit (hd rest) \<Longrightarrow> parse_uint64 (decimal n @ rest) = Inr (of_nat n, rest)"
  using parse_uint64_ok [of "[]" "decimal n" rest] decimal_digits [of n] by (auto simp: digits_from_decimal)

lemma suffix_cases:
  "k < 7 \<Longrightarrow> k = 0 \<or> k = 1 \<or> k = 2 \<or> k = 3 \<or> k = 4 \<or> k = 5 \<or> k = (6 :: nat)" by auto

lemma size_suffix_text:
  "k < 7 \<Longrightarrow> dropWhile isspace (suffix_text k) = suffix_text k \<and> size_suffix (suffix_text k) = Some (1024 ^ k, False, [])
    \<and> (suffix_text k = [] \<or> \<not> is_digit (hd (suffix_text k)))"
  by (drule suffix_cases)
    (auto simp: suffix_text_def SUFFIXES_def size_suffix_def scale_factor_def toupper_def isspace_def is_digit_def)

lemma parse_dumped_size:
  assumes k: "k < 7" and v: "unat v = n * 1024 ^ k"
  shows "parse_size (decimal n @ suffix_text k) old = (True, v)"
proof -
  have "n * 1 \<le> n * 1024 ^ k" by (rule mult_le_mono2) simp
  then have le: "n \<le> unat v" using v by simp
  moreover have "unat v < 2 ^ 64" using unsigned_less [of v, where 'a = nat] by simp
  ultimately have n: "n < 2 ^ 64" "n \<le> unat v" by linarith+
  have "(of_nat (n * 1024 ^ k) :: u64) = v" by (simp only: flip: v) simp
  then have p: "of_nat n * 1024 ^ k = v" by simp
  have "\<not> v < of_nat n" using n by (simp add: word_less_nat_alt unat_of_nat take_bit_nat_eq_self)
  then show ?thesis
    using size_suffix_text [OF k] parse_uint64_decimal [OF n(1), of "suffix_text k"] p by (simp add: parse_size_def)
qed

section \<open>Quoted strings\<close>

text \<open>How a shell reads a word: between single quotes every character stands for itself, outside of them a
  backslash stands for the next character.\<close>

fun sh_unquote :: "bool \<Rightarrow> string \<Rightarrow> string option" where
  "sh_unquote quoted [] = (if quoted then None else Some [])"
| "sh_unquote True (c # cs) = (if c = CHR 0x27 then sh_unquote False cs else map_option (Cons c) (sh_unquote True cs))"
| "sh_unquote False (c # cs) =
     (if c = CHR 0x27 then sh_unquote True cs
      else if c = CHR 0x5C then (case cs of [] \<Rightarrow> None | d # ds \<Rightarrow> map_option (Cons d) (sh_unquote False ds))
      else map_option (Cons c) (sh_unquote False cs))"

lemma sh_unquote_quoted:
  "sh_unquote True (concat (map quoted_char s) @ CHR 0x27 # rest) = map_option (append s) (sh_unquote False rest)"
proof (induction s)
  case (Cons c s)
  then show ?case by (auto simp: quoted_char_def option.map_comp comp_def)
qed (simp add: option.map_ident)

lemma quoted_length_exact: "length (concat (map quoted_char s)) + 2 = quoted_length s"
  by (induction s) (auto simp: quoted_length_def quoted_char_def)

definition quoted :: "string \<Rightarrow> string" where
  "quoted s = CHR 0x27 # concat (map quoted_char s) @ [CHR 0x27]"

lemma single_quote_stringn_quoted: "single_quote_stringn True s n = Some (Some (quoted (take n s)))"
  using quoted_length_exact [of "take n s"] by (simp add: single_quote_stringn_def quoted_def)

lemma sh_unquote_append: "sh_unquote False (quoted s @ rest) = map_option (append s) (sh_unquote False rest)"
  using sh_unquote_quoted [of s rest] by (simp add: quoted_def)

section \<open>Sets\<close>

text \<open>The tokens of a text, and the entries applied in order until one is not accepted.\<close>

function tokens :: "string \<Rightarrow> string list" where
  "tokens s = (case strtok DELIMITERS s of (None, rest) \<Rightarrow> [] | (Some token, rest) \<Rightarrow> token # tokens rest)"
  by pat_completeness auto
termination
  by (relation "measure length") (auto dest: strtok_shrinks [OF sym])

declare tokens.simps [simp del]

fun apply_entries :: "set_entry list \<Rightarrow> string list \<Rightarrow> u64 \<Rightarrow> bool \<times> u64" where
  "apply_entries vs [] bits = (True, bits)"
| "apply_entries vs (e # es) bits =
     (case apply_entry vs e bits of None \<Rightarrow> (False, bits) | Some bits \<Rightarrow> apply_entries vs es bits)"

definition entries :: "string \<Rightarrow> string list" where
  "entries s = filter (\<lambda>e. e \<noteq> []) (map trim_string (tokens s))"

lemma entries_simps:
  "strtok DELIMITERS s = (None, rest) \<Longrightarrow> entries s = []"
  "strtok DELIMITERS s = (Some t, rest) \<Longrightarrow> trim_string t = [] \<Longrightarrow> entries s = entries rest"
  "strtok DELIMITERS s = (Some t, rest) \<Longrightarrow> trim_string t \<noteq> [] \<Longrightarrow> entries s = trim_string t # entries rest"
  by (simp_all add: entries_def tokens.simps [of s])

lemma bitset_loop_continues: "bitset_loop vs None rest bits = Some (apply_entries vs (entries rest) bits)"
proof (induction rest arbitrary: bits rule: tokens.induct)
  case (1 s)
  obtain t rest where st: "strtok DELIMITERS s = (t, rest)" by fastforce
  show ?case
  proof (cases t)
    case None
    then show ?thesis using st by (subst bitset_loop.simps) (simp add: entries_simps)
  next
    case (Some t)
    have "bitset_loop vs None rest b = Some (apply_entries vs (entries rest) b)" for b
      by (rule 1) (use st Some in auto)
    then show ?thesis using st Some
      by (subst bitset_loop.simps) (auto simp: entries_simps split: option.splits)
  qed
qed

definition blank_start :: "string \<Rightarrow> bool" where
  "blank_start s \<longleftrightarrow> (case strtok DELIMITERS s of (Some t, _) \<Rightarrow> trim_string t = [] | _ \<Rightarrow> False)"

lemma bitset_loop_starts:
  "\<not> blank_start s \<Longrightarrow> bitset_loop vs (Some s) rest bits = Some (apply_entries vs (entries s) bits)"
  by (subst bitset_loop.simps)
    (auto simp: blank_start_def entries_simps bitset_loop_continues split: prod.splits option.splits)

lemma blank_start_again:
  assumes "strtok DELIMITERS s = (Some t, rest)" "trim_string t = []"
  shows "blank_start (takeWhile (\<lambda>c. c \<in> set DELIMITERS) s @ t)"
proof -
  let ?d = "\<lambda>c. c \<in> set DELIMITERS"
  have t: "t = takeWhile (Not \<circ> ?d) (dropWhile ?d s)" "dropWhile ?d s \<noteq> []"
    using assms(1) by (auto simp: strtok_def Let_def comp_def split: if_splits)
  then obtain c cs where c: "dropWhile ?d s = c # cs" "\<not> ?d c" by (metis hd_dropWhile list.collapse)
  then have tc: "t = c # takeWhile (Not \<circ> ?d) cs" using t(1) by simp
  have all: "\<forall>x\<in>set t. \<not> ?d x" using t(1) by (auto dest: set_takeWhileD)
  have "dropWhile ?d (takeWhile ?d s @ t) = dropWhile ?d t"
    by (rule dropWhile_append2) (auto dest: set_takeWhileD)
  then have "dropWhile ?d (takeWhile ?d s @ t) = t" using tc c(2) by simp
  moreover have "takeWhile (\<lambda>c. c \<notin> set DELIMITERS) t = t" "dropWhile (\<lambda>c. c \<notin> set DELIMITERS) t = []"
    using all by (auto simp: takeWhile_eq_all_conv)
  ultimately have "strtok DELIMITERS (takeWhile ?d s @ t) = (Some t, [])"
    using tc by (simp add: strtok_def)
  then show ?thesis using assms(2) by (simp add: blank_start_def)
qed

lemma bitset_loop_blank:
  assumes "bitset_loop vs restart rest bits = Some r"
  shows "\<forall>s. restart = Some s \<longrightarrow> \<not> blank_start s"
proof (rule bitset_loop.raw_induct [of "\<lambda>vs restart rest bits r. \<forall>s. restart = Some s \<longrightarrow> \<not> blank_start s", OF _ assms])
  fix loop vs restart rest bits r
  assume 1: "\<And>vs restart rest bits r. loop vs restart rest bits = Some r \<Longrightarrow> \<forall>s. restart = Some s \<longrightarrow> \<not> blank_start s"
    "(let s = (case restart of Some buffer \<Rightarrow> buffer | None \<Rightarrow> rest)
      in case strtok DELIMITERS s of
           (None, _) \<Rightarrow> Some (True, bits)
         | (Some token, rest) \<Rightarrow>
             (if trim_string token = [] then
                loop vs (map_option (\<lambda>buffer. takeWhile (\<lambda>c. c \<in> set DELIMITERS) buffer @ token) restart) rest bits
              else (case apply_entry vs (trim_string token) bits of
                 None \<Rightarrow> Some (False, bits)
               | Some bits \<Rightarrow> loop vs None rest bits))) = Some r"
  show "\<forall>s. restart = Some s \<longrightarrow> \<not> blank_start s"
  proof (intro allI impI notI)
    fix s assume s: "restart = Some s" "blank_start s"
    obtain t rest' where t: "strtok DELIMITERS s = (Some t, rest')" "trim_string t = []"
      using s(2) by (auto simp: blank_start_def split: prod.splits option.splits)
    then have "loop vs (Some (takeWhile (\<lambda>c. c \<in> set DELIMITERS) s @ t)) rest' bits = Some r"
      using 1(2) s(1) by simp
    then show False using 1(1) blank_start_again [OF t] by blast
  qed
qed

lemma bitset_loop_hangs: "blank_start s \<Longrightarrow> bitset_loop vs (Some s) rest bits = None"
  using bitset_loop_blank [of vs "Some s" rest bits] by (cases "bitset_loop vs (Some s) rest bits") auto

fun sep_join :: "string \<Rightarrow> string list \<Rightarrow> string" where
  "sep_join sep [] = []"
| "sep_join sep (t # ts) = sep @ t @ sep_join '','' ts"

text \<open>The entries that a set is printed as, and the bits that no entry stands for.\<close>

fun members_of :: "u64 \<Rightarrow> set_entry list \<Rightarrow> set_entry list" where
  "members_of bits [] = []"
| "members_of bits (a # as) =
     (if bits AND se_value a = se_value a then a # members_of (bits AND NOT (se_value a)) as else members_of bits as)"

fun leftover :: "u64 \<Rightarrow> set_entry list \<Rightarrow> u64" where
  "leftover bits [] = bits"
| "leftover bits (a # as) = leftover (if bits AND se_value a = se_value a then bits AND NOT (se_value a) else bits) as"

abbreviation (input) entry_name :: "set_entry \<Rightarrow> string" where
  "entry_name a \<equiv> first_alias (se_name a)"

lemma first_alias_take: "take (length (first_alias name)) name = first_alias name"
  by (simp add: first_alias_def takeWhile_eq_take [symmetric])

lemma dump_set_members_join:
  "dump_set_members (\<lambda>_. True) bits vs sep = Some (sep_join sep (map (\<lambda>a. quoted (entry_name a)) (members_of bits vs)))"
proof (induction vs arbitrary: bits sep)
  case (Cons a vs)
  have "single_quote_stringn True (se_name a) (length (entry_name a)) = Some (Some (quoted (entry_name a)))"
    by (simp only: single_quote_stringn_quoted first_alias_take)
  then show ?case by (simp add: Cons)
qed simp

lemma sh_unquote_join:
  "sep = [] \<or> sep = '','' \<Longrightarrow> sh_unquote False (sep_join sep (map quoted ns)) = Some (sep_join sep ns)"
proof (induction ns arbitrary: sep)
  case (Cons n ns)
  then show ?case by (auto simp: sh_unquote_append)
qed simp

definition plain_name :: "string \<Rightarrow> bool" where
  "plain_name n \<longleftrightarrow> n \<noteq> [] \<and> hd n \<noteq> CHR ''~'' \<and> (\<forall>c\<in>set n. c \<notin> set DELIMITERS \<and> \<not> isspace c)"

lemma plain_name_trim: "plain_name n \<Longrightarrow> trim_string n = n"
proof -
  assume "plain_name n"
  then have n: "\<forall>c\<in>set n. \<not> isspace c" by (simp add: plain_name_def)
  then have "dropWhile isspace n = n" by (cases n) auto
  moreover have "dropWhile isspace (rev n) = rev n" using n by (cases n rule: rev_cases) auto
  ultimately show ?thesis by (simp add: trim_string_def)
qed

lemma strtok_join:
  assumes n: "plain_name n" and sep: "sep = [] \<or> sep = '',''"
  shows "strtok DELIMITERS (sep_join sep (n # ns)) = (Some n, sep_join [] ns)"
proof -
  let ?d = "\<lambda>c. c \<in> set DELIMITERS"
  have all: "\<forall>c\<in>set n. \<not> ?d c" and ne: "n \<noteq> []" using n by (auto simp: plain_name_def)
  have "dropWhile ?d (sep @ n @ sep_join '','' ns) = dropWhile ?d (n @ sep_join '','' ns)"
    using sep by (auto simp: DELIMITERS_def)
  then have d: "dropWhile ?d (sep @ n @ sep_join '','' ns) = n @ sep_join '','' ns"
    using all ne by (cases n) auto
  have comma: "?d (CHR '','')" by (simp add: DELIMITERS_def)
  have t: "takeWhile (\<lambda>c. \<not> ?d c) (n @ sep_join '','' ns) = n"
    using all comma by (cases ns) (simp_all add: takeWhile_append2)
  have "dropWhile (\<lambda>c. \<not> ?d c) (n @ sep_join '','' ns) = sep_join '','' ns"
    using all comma by (cases ns) (simp_all add: dropWhile_append2)
  moreover have "drop 1 (sep_join '','' ns) = sep_join [] ns" by (cases ns) simp_all
  ultimately have "drop 1 (dropWhile (\<lambda>c. \<not> ?d c) (n @ sep_join '','' ns)) = sep_join [] ns" by simp
  then show ?thesis using d t ne by (simp add: strtok_def)
qed

lemma entries_join: "\<forall>n\<in>set ns. plain_name n \<Longrightarrow> sep = [] \<or> sep = '','' \<Longrightarrow> entries (sep_join sep ns) = ns"
proof (induction ns arbitrary: sep)
  case Nil
  then show ?case by (simp add: entries_def tokens.simps [of "[]"] strtok_def)
next
  case (Cons n ns)
  have n: "plain_name n" using Cons.prems(1) by simp
  then have "trim_string n = n" "n \<noteq> []" by (simp_all add: plain_name_trim plain_name_def)
  then have "entries (sep_join sep (n # ns)) = n # entries (sep_join [] ns)"
    using entries_simps(3) [OF strtok_join [OF n Cons.prems(2)]] by simp
  then show ?case using Cons.IH [of "[]"] Cons.prems(1) by simp
qed

lemma blank_start_join: "\<forall>n\<in>set ns. plain_name n \<Longrightarrow> \<not> blank_start (sep_join [] ns)"
proof (cases ns)
  case Nil
  then show ?thesis by (simp add: blank_start_def strtok_def)
next
  case (Cons n ms)
  moreover assume "\<forall>n\<in>set ns. plain_name n"
  ultimately have n: "plain_name n" by simp
  then have "trim_string n \<noteq> []" using plain_name_trim [OF n] by (simp add: plain_name_def)
  then show ?thesis using strtok_join [OF n, of "[]" ms] Cons by (simp add: blank_start_def del: sep_join.simps)
qed

definition no_set :: "string \<Rightarrow> bool" where
  "no_set s \<longleftrightarrow> equal_icase_string s ''none'' \<or> equal_icase_string s ''no''"

lemma no_set_join: "\<forall>n\<in>set ns. \<not> no_set n \<Longrightarrow> \<not> no_set (sep_join [] ns)"
proof (cases ns rule: list.exhaust [case_names Nil Cons])
  case Nil
  then show ?thesis by (simp add: no_set_def equal_icase_string_iff)
next
  case (Cons n ms)
  assume all: "\<forall>n\<in>set ns. \<not> no_set n"
  show ?thesis
  proof (cases ms)
    case Nil
    then show ?thesis using Cons all by simp
  next
    case ms: (Cons m ms')
    have "toupper (CHR '','') \<in> set (map toupper (sep_join [] ns))" using Cons ms by simp
    moreover have "toupper (CHR '','') \<notin> set (map toupper ''none'')" "toupper (CHR '','') \<notin> set (map toupper ''no'')"
      by code_simp+
    ultimately show ?thesis unfolding no_set_def equal_icase_string_iff by metis
  qed
qed

text \<open>Every entry is found under its first name.\<close>

definition readable :: "set_entry list \<Rightarrow> bool" where
  "readable vs \<longleftrightarrow> (\<forall>a\<in>set vs. plain_name (entry_name a) \<and> \<not> no_set (entry_name a)
     \<and> find (\<lambda>b. string_in_alias_list (entry_name a) (se_name b)) vs = Some a)"

lemma apply_entry_name:
  assumes "readable vs" "a \<in> set vs"
  shows "apply_entry vs (entry_name a) bits = Some (bits OR se_value a)"
proof -
  have "plain_name (entry_name a)" "find (\<lambda>b. string_in_alias_list (entry_name a) (se_name b)) vs = Some a"
    using assms by (auto simp: readable_def)
  moreover from this(1) obtain c cs where "entry_name a = c # cs" "c \<noteq> CHR ''~''"
    by (cases "entry_name a") (auto simp: plain_name_def)
  ultimately show ?thesis by (simp add: apply_entry_def)
qed

lemma apply_entries_names:
  "readable vs \<Longrightarrow> set as \<subseteq> set vs \<Longrightarrow>
   apply_entries vs (map (\<lambda>a. entry_name a) as) bits = (True, fold (\<lambda>a b. b OR se_value a) as bits)"
  by (induction as arbitrary: bits) (simp_all add: apply_entry_name)

lemma split_bits: "b AND v = v \<Longrightarrow> v OR (b AND NOT v) = (b :: u64)"
  by (metis (no_types) and.commute bit.conj_disj_distrib2 bit.disj_cancel_right and.right_neutral or.commute)

lemma fold_or_acc: "fold (\<lambda>a b. b OR se_value a) as (x OR y) = x OR fold (\<lambda>a b. b OR se_value a) as (y :: u64)"
  by (induction as arbitrary: y) (simp_all add: or.assoc)

lemma members_bits: "fold (\<lambda>a b. b OR se_value a) (members_of bits vs) 0 OR leftover bits vs = bits"
proof (induction vs arbitrary: bits)
  case (Cons a vs)
  show ?case
  proof (cases "bits AND se_value a = se_value a")
    case True
    let ?b = "bits AND NOT (se_value a)"
    have "fold (\<lambda>a b. b OR se_value a) (members_of ?b vs) (se_value a)
        = se_value a OR fold (\<lambda>a b. b OR se_value a) (members_of ?b vs) 0"
      using fold_or_acc [of "members_of ?b vs" "se_value a" 0] by simp
    then show ?thesis using True Cons.IH [of ?b] split_bits [OF True] by (simp add: or.assoc)
  qed (simp add: Cons)
qed simp

lemma members_subset: "set (members_of bits vs) \<subseteq> set vs"
  by (induction vs arbitrary: bits) auto

lemma parse_bitset_result:
  "parse_bitset True val vs =
     (if no_set val then Some (True, 0) else if blank_start val then None else Some (apply_entries vs (entries val) 0))"
  by (simp add: parse_bitset_def no_set_def bitset_loop_hangs bitset_loop_starts)

lemma parse_dumped_set:
  assumes r: "readable vs" and l: "leftover bits vs = 0"
  shows "parse_bitset True (sep_join [] (map (\<lambda>a. entry_name a) (members_of bits vs))) vs = Some (True, bits)"
proof -
  let ?ms = "members_of bits vs"
  have sub: "set ?ms \<subseteq> set vs" by (rule members_subset)
  then have p: "\<forall>n\<in>set (map (\<lambda>a. entry_name a) ?ms). plain_name n" "\<forall>n\<in>set (map (\<lambda>a. entry_name a) ?ms). \<not> no_set n"
    using r by (auto simp: readable_def)
  have "fold (\<lambda>a b. b OR se_value a) ?ms 0 = bits" using members_bits [of bits vs] l by simp
  then show ?thesis
    using no_set_join [OF p(2)] blank_start_join [OF p(1)] entries_join [OF p(1), of "[]"] apply_entries_names [OF r sub, of 0]
    by (simp add: parse_bitset_result)
qed

section \<open>What is written is read back\<close>

lemma sh_unquote_plain: "CHR 0x27 \<notin> set s \<Longrightarrow> CHR 0x5C \<notin> set s \<Longrightarrow> sh_unquote False s = Some s"
  by (induction s) auto

lemma decimal_plain: "sh_unquote False (decimal n) = Some (decimal n)"
  using decimal_digits [of n] by (intro sh_unquote_plain) (auto simp: is_digit_def)

lemma suffix_plain: "k < 7 \<Longrightarrow> sh_unquote False (decimal n @ suffix_text k) = Some (decimal n @ suffix_text k)"
  using decimal_digits [of n]
  by (intro sh_unquote_plain) (auto simp: is_digit_def suffix_text_def SUFFIXES_def dest!: suffix_cases)

text \<open>A value of the type of the variable; a set that the accepted values cover, an option that is one of them.\<close>

definition reads_back :: "config_type \<Rightarrow> config_value \<Rightarrow> config_context \<Rightarrow> bool" where
  "reads_back type ref ctx \<longleftrightarrow>
     (case type of
        CONFIG_BOOL \<Rightarrow> (case ref of VBool _ \<Rightarrow> True | _ \<Rightarrow> False)
      | CONFIG_NUMBER \<Rightarrow> (case ref of VNumber _ \<Rightarrow> True | _ \<Rightarrow> False)
      | CONFIG_SIZE \<Rightarrow> (case ref of VNumber _ \<Rightarrow> True | _ \<Rightarrow> False)
      | CONFIG_BITSET \<Rightarrow> (case (ref, ctx) of (VNumber n, AcceptedValues vs) \<Rightarrow> readable vs \<and> leftover n vs = 0 | _ \<Rightarrow> False)
      | CONFIG_OPTIONSET \<Rightarrow> (case (ref, ctx) of
          (VNumber n, AcceptedValues vs) \<Rightarrow> readable vs \<and> n \<in> set (map se_value vs) | _ \<Rightarrow> False)
      | INVALID_CONFIG_TYPE \<Rightarrow> False
      | _ \<Rightarrow> (case ref of VString s \<Rightarrow> s \<noteq> None | _ \<Rightarrow> False))"

definition same_kind :: "config_value \<Rightarrow> config_value \<Rightarrow> bool" where
  "same_kind old ref \<longleftrightarrow> (case (old, ref) of
     (VString _, VString _) \<Rightarrow> True | (VBool _, VBool _) \<Rightarrow> True | (VNumber _, VNumber _) \<Rightarrow> True | _ \<Rightarrow> False)"

lemma string_read_back:
  "\<exists>text plain. dump_value (\<lambda>_. True) name CONFIG_STRING (VString (Some s)) ctx = Some (name @ ''='' @ text @ NEWLINE_TEXT)
     \<and> sh_unquote False text = Some plain \<and> parse_string True plain = (True, Some s)"
  using sh_unquote_append [of s "[]"]
  by (auto simp: dump_value_def single_quote_stringn_quoted parse_string_def CStr_dup_def)

lemma number_read_back: "parse_number (decimal (unat n)) old = (True, n)"
  using parse_uint64_decimal [of "unat n" "[]"] unsigned_less [of n, where 'a = nat] by (simp add: parse_number_def)

lemma option_read_back:
  assumes r: "readable vs" and n: "n \<in> set (map se_value vs)"
  shows "\<exists>text plain. dump_optionset (\<lambda>_. True) name n vs = Some (name @ ''='' @ text @ NEWLINE_TEXT)
     \<and> sh_unquote False text = Some plain \<and> parse_optionset True plain vs = (True, n)"
proof -
  obtain a where a: "find (\<lambda>a. n = se_value a) vs = Some a"
    using n by (cases "find (\<lambda>a. n = se_value a) vs") (auto simp: find_None_iff)
  then have m: "a \<in> set vs" "n = se_value a" by (auto simp: find_Some_iff)
  then have p: "plain_name (entry_name a)" "find (\<lambda>b. string_in_alias_list (entry_name a) (se_name b)) vs = Some a"
    using r by (auto simp: readable_def)
  then have "parse_optionset True (entry_name a) vs = (True, n)"
    using m(2) plain_name_trim [OF p(1)] by (simp add: parse_optionset_def plain_name_def)
  moreover have "single_quote_stringn True (se_name a) (length (entry_name a)) = Some (Some (quoted (entry_name a)))"
    by (simp only: single_quote_stringn_quoted first_alias_take)
  ultimately show ?thesis
    using sh_unquote_append [of "entry_name a" "[]"] a by (auto simp: dump_optionset_def)
qed

lemma set_read_back:
  assumes "readable vs" "leftover n vs = 0"
  shows "\<exists>text plain. dump_bitset (\<lambda>_. True) name n vs = Some (name @ ''='' @ text @ NEWLINE_TEXT)
     \<and> sh_unquote False text = Some plain \<and> parse_bitset True plain vs = Some (True, n)"
  using parse_dumped_set [OF assms] sh_unquote_join [of "[]" "map (\<lambda>a. entry_name a) (members_of n vs)"]
  by (auto simp: dump_bitset_def dump_set_members_join comp_def)

lemma size_read_back:
  "\<exists>text plain. dump_size name n = name @ ''='' @ text @ NEWLINE_TEXT
     \<and> sh_unquote False text = Some plain \<and> parse_size plain old = (True, n)"
proof -
  obtain k m where km: "k < 7" "unat n = m * 1024 ^ k" "dump_size name n = name @ ''='' @ decimal m @ suffix_text k @ NEWLINE_TEXT"
    using dump_size_text by blast
  then show ?thesis using parse_dumped_size [OF km(1,2)] suffix_plain [OF km(1), of m] by fastforce
qed

text \<open>
  C29. The value of a configuration variable that is written to the configuration file is read back: the line is the
  name, an equals sign and a text, and what a shell makes of the text is parsed, without an error, to the value that
  was written. This holds for strings and paths with any characters, flags, numbers, sizes with their suffixes,
  sets that the accepted values cover and options that are one of them, if every accepted value is found under its
  first name.
\<close>

theorem config_value_roundtrip:
  assumes "reads_back type ref ctx" "same_kind old ref"
  shows "\<exists>text plain. dump_value (\<lambda>_. True) name type ref ctx = Some (name @ ''='' @ text @ NEWLINE_TEXT)
     \<and> sh_unquote False text = Some plain \<and> parse_value True plain type old ctx = Some (True, ref)"
proof (cases type)
  case CONFIG_STRING
  with assms show ?thesis using string_read_back [of name]
    by (fastforce simp: reads_back_def same_kind_def parse_value_def split: config_value.splits)
next
  case CONFIG_PATH
  have "dump_value m name CONFIG_PATH ref ctx = dump_value m name CONFIG_STRING ref ctx"
    "parse_value True t CONFIG_PATH old ctx = parse_value True t CONFIG_STRING old ctx" for m t
    by (simp_all add: dump_value_def parse_value_def)
  with CONFIG_PATH assms show ?thesis using string_read_back [of name]
    by (fastforce simp: reads_back_def same_kind_def parse_value_def split: config_value.splits)
next
  case CONFIG_BOOL
  have "parse_bool ''true'' = (True, True)" "parse_bool ''false'' = (True, False)" by code_simp+
  with CONFIG_BOOL assms show ?thesis
    by (auto simp: reads_back_def same_kind_def parse_value_def dump_value_def sh_unquote_plain split: config_value.splits)
next
  case CONFIG_NUMBER
  with assms show ?thesis
    by (auto simp: reads_back_def same_kind_def parse_value_def dump_value_def number_read_back decimal_plain
        split: config_value.splits)
next
  case CONFIG_SIZE
  with assms obtain n m where "ref = VNumber n" "old = VNumber m"
    by (auto simp: reads_back_def same_kind_def split: config_value.splits)
  with CONFIG_SIZE show ?thesis using size_read_back [of name n m] by (auto simp: parse_value_def dump_value_def)
next
  case CONFIG_BITSET
  with assms show ?thesis using set_read_back [of _ _ name]
    by (fastforce simp: reads_back_def same_kind_def parse_value_def dump_value_def
        split: config_value.splits config_context.splits)
next
  case CONFIG_OPTIONSET
  with assms show ?thesis using option_read_back [of _ _ name]
    by (fastforce simp: reads_back_def same_kind_def parse_value_def dump_value_def
        split: config_value.splits config_context.splits)
next
  case INVALID_CONFIG_TYPE
  with assms show ?thesis by (simp add: reads_back_def)
qed

definition metric_sets :: "set_entry list" where
  "metric_sets = [\<lparr>se_name = ''default/true'', se_value = 3, se_description = []\<rparr>,
     \<lparr>se_name = ''enter'', se_value = 4, se_description = []\<rparr>]"

theorem config_value_roundtrip_witness:
  "\<exists>text plain. dump_value (\<lambda>_. True) ''SCOREP_SET'' CONFIG_BITSET (VNumber 7) (AcceptedValues metric_sets)
       = Some (''SCOREP_SET='' @ text @ NEWLINE_TEXT)
     \<and> sh_unquote False text = Some plain
     \<and> parse_value True plain CONFIG_BITSET (VNumber 1) (AcceptedValues metric_sets) = Some (True, VNumber 7)"
proof -
  have "readable metric_sets \<and> leftover 7 metric_sets = 0" by code_simp
  then have "reads_back CONFIG_BITSET (VNumber 7) (AcceptedValues metric_sets)" by (simp add: reads_back_def)
  from config_value_roundtrip [OF this, of "VNumber 1" "''SCOREP_SET''"] show ?thesis by (simp add: same_kind_def)
qed

text \<open>
  C31. Parsing a set of values returns the entries applied in order, up to the first one that is not accepted, except
  when the text starts with a token of white space only, for instance a tab: then the parser asks for the first
  token of the buffer again and again and never returns.
\<close>

theorem parse_bitset_returns:
  "parse_bitset True val vs =
     (if no_set val then Some (True, 0) else if blank_start val then None else Some (apply_entries vs (entries val) 0))
   \<and> parse_bitset True [CHR 0x09] vs = None"
proof -
  have "\<not> no_set [CHR 0x09] \<and> blank_start [CHR 0x09]" by code_simp
  then show ?thesis by (simp add: parse_bitset_result)
qed

text \<open>
  C40. A number between white space is parsed to its value if it fits into 64 bits. Larger ones are not always
  noticed: the parser only fails when a further digit makes the number smaller, so 30000000000000000000 is taken
  for 11553255926290448384, and the size 17E, which is 17 times 2^60, for 2^60.
\<close>

theorem numbers_parsed:
  assumes "\<forall>c\<in>set (ws @ ws'). isspace c" "ds \<noteq> []" "\<forall>c\<in>set ds. is_digit c" "digits_value ds < 2 ^ 64"
  shows "parse_number (ws @ ds @ ws') old = (True, of_int (digits_value ds))
    \<and> parse_number ''30000000000000000000'' old = (True, 11553255926290448384)
    \<and> parse_size ''17E'' old = (True, 2 ^ 60)"
proof (intro conjI)
  have v: "int (digits_from 0 ds) = digits_value ds" using digits_from_value [OF assms(3), of 0] by (simp add: digits_value_def)
  have r: "ws' = [] \<or> \<not> is_digit (hd ws')" using assms(1) isspace_not_digit by (cases ws') auto
  have "parse_uint64 (ws @ ds @ ws') = Inr (of_nat (digits_from 0 ds), ws')"
    by (rule parse_uint64_ok) (use assms r v in auto)
  moreover have "of_int (digits_value ds) = (of_nat (digits_from 0 ds) :: u64)" by (simp flip: v)
  moreover have "dropWhile isspace ws' = []" using assms(1) by simp
  ultimately show "parse_number (ws @ ds @ ws') old = (True, of_int (digits_value ds))" by (simp add: parse_number_def)
  show "parse_number ''30000000000000000000'' old = (True, 11553255926290448384)" by code_simp
  show "parse_size ''17E'' old = (True, 2 ^ 60)" by code_simp
qed

theorem numbers_parsed_witness: "parse_number '' 1200 '' 0 = (True, 1200)"
  using numbers_parsed [of "'' ''" "'' ''" "''1200''" 0] by (simp add: isspace_def is_digit_def digits_value_def)

end
