(* ===== verification/Scorep_Config_Registry.thy ===== *)
theory Scorep_Config_Registry
  imports Scorep_Config Scorep_Config_Props
begin

text \<open>
  The registry of the configuration variables: the names of the environment variables, and that registered
  variables are found and set.
\<close>

section \<open>Names of environment variables\<close>

lemma check_name_rest_chars:
  "check_name_rest b s = Some () \<Longrightarrow> (\<forall>c\<in>set s. isalnum c \<or> (b \<and> c = CHR ''_''))"
proof (induction s arbitrary: b)
  case (Cons c cs)
  then have "isalnum c \<or> b \<and> c = CHR ''_''" "check_name_rest (b \<and> cs \<noteq> []) cs = Some ()"
    by (auto simp: Let_def split: if_splits)
  then show ?case using Cons.IH [of "b \<and> cs \<noteq> []"] by auto
qed simp

lemma check_name_chars:
  "check_name s ns = Some () \<Longrightarrow> c \<in> set s \<Longrightarrow> isalnum c \<or> (\<not> ns \<and> c = CHR ''_'')"
  by (auto simp: check_name_def isalnum_def split: if_splits list.splits dest!: check_name_rest_chars)

lemma underscore_not_alnum: "\<not> isalnum (CHR ''_'')"
  by (simp add: isalnum_def isalpha_def is_digit_def)

lemma upper_alnum: "isalnum c \<Longrightarrow> (if isalpha c then toupper c else c) \<noteq> CHR ''_''"
  unfolding char_eq_iff_nat by (auto simp: isalnum_def isalpha_def is_digit_def of_char_toupper)

lemma upper_inject: "(if isalpha c then toupper c else c) = toupper c"
  by (auto simp: isalpha_def toupper_def)

lemma string_to_upper_map: "string_to_upper s = map toupper s"
  by (simp add: string_to_upper_def upper_inject)

lemma string_to_lower_map: "string_to_lower s = map tolower s"
proof -
  have "(if isalpha c then tolower c else c) = tolower c" for c
    by (auto simp: isalpha_def tolower_def)
  then show ?thesis by (simp add: string_to_lower_def)
qed

lemma split_at_underscore:
  assumes "a @ CHR ''_'' # b = a' @ CHR ''_'' # b'" "CHR ''_'' \<notin> set a" "CHR ''_'' \<notin> set a'"
  shows "a = a' \<and> b = b'"
proof -
  have "takeWhile (\<lambda>c. c \<noteq> CHR ''_'') (a @ CHR ''_'' # b) = a" "takeWhile (\<lambda>c. c \<noteq> CHR ''_'') (a' @ CHR ''_'' # b') = a'"
    using assms(2,3) by (auto simp: takeWhile_append2 intro!: takeWhile_append2 [THEN trans])
  then show ?thesis using assms(1) by auto
qed

text \<open>
  The name of the environment variable of every variable with valid names fits into its buffer. Two variables of
  named name spaces have the same environment variable only if their name spaces and their names are equal up to
  case; without a name space this fails: a variable \<open>a_b\<close> has that of the variable \<open>b\<close> of \<open>a\<close>.
\<close>

theorem env_names_distinct:
  assumes "check_name n True = Some ()" "check_name v False = Some ()" "length n \<le> 41" "length v \<le> 41"
    and "check_name n' True = Some ()" "check_name v' False = Some ()" "length n' \<le> 41" "length v' \<le> 41"
    and "n \<noteq> []" "n' \<noteq> []"
  shows "\<exists>e e'. env_name n v = Some e \<and> env_name n' v' = Some e' \<and> length e \<le> 90
    \<and> (e = e' \<longleftrightarrow> string_to_lower n = string_to_lower n' \<and> string_to_lower v = string_to_lower v')
    \<and> env_name [] ''a_b'' = env_name ''a'' ''b''"
proof -
  have e: "env_name n v = Some (''SCOREP_'' @ map toupper n @ ''_'' @ map toupper v)"
    "env_name n' v' = Some (''SCOREP_'' @ map toupper n' @ ''_'' @ map toupper v')"
    using assms(3,4,7-10)
    by (simp_all add: env_name_def ENV_NAME_SUB_LEN_MAX_def ENV_NAME_LEN_MAX_def string_to_upper_map toupper_def)
  have u: "CHR ''_'' \<notin> set (map toupper n)" "CHR ''_'' \<notin> set (map toupper n')"
    using check_name_chars [OF assms(1)] check_name_chars [OF assms(5)] upper_alnum by (force simp: upper_inject)+
  have same: "map toupper s = map toupper t \<longleftrightarrow> map tolower s = map tolower t" for s t
    by (simp only: map_equality_iff toupper_eq_iff)
  moreover have "env_name [] ''a_b'' = env_name ''a'' ''b''" by code_simp
  ultimately show ?thesis
    using e assms(3,4) split_at_underscore [OF _ u, of "map toupper v" "map toupper v'"]
    by (simp add: string_to_lower_map) metis
qed

theorem env_names_distinct_witness:
  "\<exists>e e'. env_name ''memory'' ''page_size'' = Some e \<and> env_name ''Memory'' ''total_memory'' = Some e' \<and> e \<noteq> e'"
proof -
  have c: "check_name ''memory'' True = Some ()" "check_name ''page_size'' False = Some ()" "check_name ''Memory'' True = Some ()"
    "check_name ''total_memory'' False = Some ()" "string_to_lower ''page_size'' \<noteq> string_to_lower ''total_memory''" by code_simp+
  show ?thesis using env_names_distinct [OF c(1,2) _ _ c(3,4)] c(5) by auto
qed

section \<open>Tables of names\<close>

definition lower_name :: "string \<Rightarrow> bool" where
  "lower_name s \<longleftrightarrow> string_to_lower s = s \<and> CHR 0x00 \<notin> set s"

definition position :: "string list \<Rightarrow> string \<Rightarrow> nat option" where
  "position names k = find (\<lambda>i. names ! i = k) [0..<length names]"

lemma position_None: "position names k = None \<longleftrightarrow> k \<notin> set names"
  by (auto simp: position_def find_None_iff in_set_conv_nth)

lemma position_Some: "position names k = Some i \<Longrightarrow> i < length names \<and> names ! i = k"
  by (auto simp: position_def find_Some_iff)

lemma find_snoc: "find p (xs @ [x]) = (case find p xs of Some y \<Rightarrow> Some y | None \<Rightarrow> if p x then Some x else None)"
  by (induction xs) simp_all

lemma position_append:
  "position (names @ [n]) k = (case position names k of Some i \<Rightarrow> Some i | None \<Rightarrow> if k = n then Some (length names) else None)"
proof -
  have "find (\<lambda>i. (names @ [n]) ! i = k) [0..<length names] = find (\<lambda>i. names ! i = k) [0..<length names]"
    by (rule find_cong) (auto simp: nth_append)
  then show ?thesis by (auto simp: position_def find_snoc split: option.splits)
qed

text \<open>The table with the comparison replaced by the exact one.\<close>

definition exact :: "(string, nat) hashtab \<Rightarrow> (string, nat) hashtab" where
  "exact t = t\<lparr>kcmp_fn := CompareStrings\<rparr>"

definition named :: "(string, nat) hashtab \<Rightarrow> string list \<Rightarrow> bool" where
  "named t names \<longleftrightarrow> tab_inv HashString CompareStrings (exact t)
     \<and> (\<forall>k l. lower_name k \<and> lower_name l \<longrightarrow> (kcmp_fn t k l = 0 \<longleftrightarrow> k = l))
     \<and> (\<forall>item\<in>set (items_of t). lower_name (item_key item))
     \<and> (\<forall>k. lower_name k \<longrightarrow> hashtab_lookup (exact t) k = position names k)"

lemma exact_exact [simp]: "exact (exact t) = exact t" "items_of (exact t) = items_of t"
  by (simp_all add: exact_def items_of_def)

lemma CompareStrings_lower: "lower_name k \<Longrightarrow> lower_name l \<Longrightarrow> CompareStrings k l = 0 \<longleftrightarrow> k = l"
proof -
  have "c_str s = s" if "lower_name s" for s using that by (auto simp: c_str_def takeWhile_eq_all_conv lower_name_def)
  then show "lower_name k \<Longrightarrow> lower_name l \<Longrightarrow> ?thesis" by (simp add: CompareStrings_0)
qed

lemma Hashtab_Find_exact:
  assumes n: "named t names" and k: "lower_name k"
  shows "Hashtab_Find t k = Hashtab_Find (exact t) k"
proof -
  have ok: "tab_ok (exact t)" "hash_fn t = HashString" using n by (auto simp: named_def tab_inv_def exact_def)
  let ?i = "unat (HashString k) mod tabsize t"
  have i: "?i < length (table t)" using tab_okD(2) [OF ok(1)] by (simp add: exact_def)
  have "item_matches t k (HashString k) item = item_matches (exact t) k (HashString k) item" if "item \<in> set (table t ! ?i)" for item
  proof -
    have "lower_name (item_key item)" using n that i by (auto simp: named_def items_of_def)
    then show ?thesis using n k by (auto simp: item_matches_def named_def exact_def CompareStrings_lower)
  qed
  then have "find (item_matches t k (HashString k)) (table t ! ?i) = find (item_matches (exact t) k (HashString k)) (table t ! ?i)"
    by (intro find_cong) auto
  then show ?thesis using ok(2) i by (simp add: Hashtab_Find_def exact_def)
qed

lemma find_named:
  assumes n: "named t names" and k: "lower_name k"
  shows "\<exists>entry. Hashtab_Find t k = Some (entry, HashString k) \<and> map_option item_value entry = position names k"
proof -
  have inv: "tab_inv HashString CompareStrings (exact t)" using n by (simp add: named_def)
  have f: "Hashtab_Find t k = Some (find (\<lambda>item. CompareStrings k (item_key item) = 0) (items_of t), HashString k)"
    unfolding Hashtab_Find_exact [OF n k] using string_table.find_items [of "exact t" k] inv by (simp add: tab_inv_def)
  have "hashtab_lookup (exact t) k = position names k" using n k by (simp add: named_def)
  then show ?thesis using f string_table.lookup_items [OF inv, of k] by simp
qed

lemma create_named:
  assumes "Hashtab_CreateSize True m HashString cmp = Some (Some t)"
    and "\<And>k l. lower_name k \<Longrightarrow> lower_name l \<Longrightarrow> cmp k l = 0 \<longleftrightarrow> k = l"
  shows "named t []"
proof -
  have t: "0 < m" "t = \<lparr>table = replicate m [], tabsize = m, tab_items = 0, hash_fn = HashString, kcmp_fn = cmp\<rparr>"
    using assms(1) by (auto simp: Hashtab_CreateSize_def split: if_splits)
  then have c: "Hashtab_CreateSize True m HashString CompareStrings = Some (Some (exact t))"
    by (simp add: Hashtab_CreateSize_def exact_def)
  show ?thesis
    using created_table(1,2) [OF c] string_table.lookup_items [OF created_table(1) [OF c]] t assms(2)
    by (simp add: named_def position_def)
qed

lemma insert_named:
  assumes n: "named t names" and k: "lower_name k" "k \<notin> set names"
  shows "\<exists>item t'. Hashtab_Insert True t k (length names) (Some (HashString k)) = Some (Some item, t') \<and> named t' (names @ [k])"
proof -
  have inv: "tab_inv HashString CompareStrings (exact t)" using n by (simp add: named_def)
  have none: "hashtab_lookup (exact t) k = None" using n k by (simp add: named_def position_None)
  obtain t1 where t1: "Hashtab_Insert True (exact t) k (length names) (Some (HashString k)) = Some (Some \<lparr>item_key = k, item_value = length names, hash_value = HashString k\<rparr>, t1)"
      "tab_inv HashString CompareStrings t1"
      "\<And>k'. hashtab_lookup t1 k' = (if CompareStrings k' k = 0 then Some (length names) else hashtab_lookup (exact t) k')"
    using string_table.insert_result [OF inv, of "Some (HashString k)" k "length names"] none
    by (fastforce simp: Hashtab_Insert_def bind_Some_iff Let_def)
  let ?t = "t1\<lparr>kcmp_fn := kcmp_fn t\<rparr>"
  have ins: "Hashtab_Insert True t k (length names) (Some (HashString k)) = Some (Some \<lparr>item_key = k, item_value = length names, hash_value = HashString k\<rparr>, ?t)"
    "kcmp_fn t1 = CompareStrings" "set (items_of t1) \<subseteq> insert \<lparr>item_key = k, item_value = length names, hash_value = HashString k\<rparr> (set (items_of t))"
    using t1(1) by (auto simp: Hashtab_Insert_def bind_Some_iff Let_def exact_def items_of_def abort_simps
        dest!: set_update_subset_insert [THEN subsetD])
  have e: "exact ?t = t1" using ins(2) by (simp add: exact_def)
  have pos: "position names k = None" using k(2) by (simp add: position_None)
  have "named ?t (names @ [k])"
    unfolding named_def e position_append
    using n k t1(2,3) ins(3) CompareStrings_lower pos
    by (auto simp: named_def items_of_def split: option.splits)
  then show ?thesis using ins(1) by blast
qed


lemma compare_lower:
  "lower_name k \<Longrightarrow> lower_name l \<Longrightarrow> compare_variable k l = 0 \<longleftrightarrow> k = l"
  "lower_name k \<Longrightarrow> lower_name l \<Longrightarrow> compare_name_space k l = 0 \<longleftrightarrow> k = l"
proof -
  have m: "map tolower s = s" if "lower_name s" for s using that by (simp add: lower_name_def string_to_lower_map)
  have "strcasecmp k l = 0 \<longleftrightarrow> k = l" if "lower_name k" "lower_name l" for k l
    using m [OF that(1)] m [OF that(2)] that by (simp add: strcasecmp_def strcmp_0 lower_name_def)
  then show "lower_name k \<Longrightarrow> lower_name l \<Longrightarrow> compare_variable k l = 0 \<longleftrightarrow> k = l"
    "lower_name k \<Longrightarrow> lower_name l \<Longrightarrow> compare_name_space k l = 0 \<longleftrightarrow> k = l"
    by (auto simp: compare_variable_def compare_name_space_def)
qed

section \<open>The registry as a map\<close>

abbreviation (input) variable_names :: "registered_variable list \<Rightarrow> string list" where
  "variable_names vs \<equiv> map (\<lambda>v. cv_name (var_data v)) vs"

definition space_ok :: "name_space \<Rightarrow> bool" where
  "space_ok n \<longleftrightarrow> named (ns_table n) (variable_names (ns_variables n))"

definition config_ok :: "config \<Rightarrow> bool" where
  "config_ok cfg \<longleftrightarrow> (case name_spaces cfg of None \<Rightarrow> False | Some tab \<Rightarrow> named tab (map ns_name (spaces cfg)))
     \<and> \<not> spaces_freed cfg \<and> (\<forall>n\<in>set (spaces cfg). space_ok n)"

definition space_lookup :: "name_space \<Rightarrow> string \<Rightarrow> registered_variable option" where
  "space_lookup n x = map_option (\<lambda>j. ns_variables n ! j) (position (variable_names (ns_variables n)) x)"

definition config_lookup :: "config \<Rightarrow> string \<Rightarrow> string \<Rightarrow> config_variable option" where
  "config_lookup cfg n x = (case position (map ns_name (spaces cfg)) n of
     None \<Rightarrow> None
   | Some i \<Rightarrow> map_option var_data (space_lookup (spaces cfg ! i) x))"

lemma get_name_space_named:
  assumes "config_ok cfg" "lower_name n"
  shows "get_name_space cfg n False = Some (position (map ns_name (spaces cfg)) n, cfg)"
    "position (map ns_name (spaces cfg)) n = Some i \<Longrightarrow> get_name_space cfg n True = Some (Some i, cfg)"
proof -
  obtain tab where tab: "name_spaces cfg = Some tab" "named tab (map ns_name (spaces cfg))"
    using assms(1) by (auto simp: config_ok_def split: option.splits)
  obtain entry where e: "Hashtab_Find tab n = Some (entry, HashString n)" "map_option item_value entry = position (map ns_name (spaces cfg)) n"
    using find_named [OF tab(2) assms(2)] by blast
  show "get_name_space cfg n False = Some (position (map ns_name (spaces cfg)) n, cfg)"
    "position (map ns_name (spaces cfg)) n = Some i \<Longrightarrow> get_name_space cfg n True = Some (Some i, cfg)"
    using tab e by (auto simp: get_name_space_def split: option.splits)
qed

lemma get_variable_named:
  assumes "space_ok n" "lower_name x"
  shows "get_variable n x False = Some (position (variable_names (ns_variables n)) x, n)"
proof -
  obtain entry where e: "Hashtab_Find (ns_table n) x = Some (entry, HashString x)"
      "map_option item_value entry = position (variable_names (ns_variables n)) x"
    using find_named assms by (fastforce simp: space_ok_def)
  then show ?thesis by (cases entry) (auto simp: get_variable_def)
qed

lemma lookup_found:
  assumes ok: "config_ok cfg" and l: "config_lookup cfg n x = Some d"
  obtains i j where "position (map ns_name (spaces cfg)) n = Some i" "i < length (spaces cfg)" "space_ok (spaces cfg ! i)"
    "position (variable_names (ns_variables (spaces cfg ! i))) x = Some j" "j < length (ns_variables (spaces cfg ! i))"
    "var_data (ns_variables (spaces cfg ! i) ! j) = d"
proof -
  obtain i where i: "position (map ns_name (spaces cfg)) n = Some i" "map_option var_data (space_lookup (spaces cfg ! i) x) = Some d"
    using l by (auto simp: config_lookup_def split: option.splits)
  then obtain j where j: "position (variable_names (ns_variables (spaces cfg ! i))) x = Some j" "var_data (ns_variables (spaces cfg ! i) ! j) = d"
    by (auto simp: space_lookup_def)
  have "i < length (spaces cfg)" using position_Some [OF i(1)] by simp
  then show thesis using that i j ok position_Some [OF j(1)] by (auto simp: config_ok_def)
qed

lemma found_is_set:
  assumes ok: "config_ok cfg" and n: "lower_name n" "lower_name x" and l: "config_lookup cfg n x = Some d"
  shows "ConfigGetData cfg n x = Some (Some d)"
    "ConfigSetValue cfg n x val = do { (ok, cfg) \<leftarrow> parse_into cfg val d;
        Some (if ok then CONFIG_SUCCESS else CONFIG_INVALID_VALUE, cfg) }"
  by (rule lookup_found [OF ok l];
      simp add: ConfigGetData_def ConfigSetValue_def get_name_space_named [OF ok n(1)] get_variable_named [OF _ n(2)])+

section \<open>Registering\<close>

lemma get_variable_creates:
  assumes ok: "space_ok n" and x: "lower_name x" and g: "get_variable n x True = Some (Some j, n')"
  shows "j = length (ns_variables n) \<and> x \<notin> set (variable_names (ns_variables n))
    \<and> (\<exists>env. ns_variables n' = ns_variables n @ [blank_variable x env]) \<and> ns_name n' = ns_name n
    \<and> named (ns_table n') (variable_names (ns_variables n) @ [x])"
proof -
  have nm: "named (ns_table n) (variable_names (ns_variables n))" using ok by (simp add: space_ok_def)
  obtain entry where e: "Hashtab_Find (ns_table n) x = Some (entry, HashString x)"
      "map_option item_value entry = position (variable_names (ns_variables n)) x"
    using find_named [OF nm x] by blast
  have entry: "entry = None" using g e(1) by (cases entry) (auto simp: get_variable_def)
  then have new: "x \<notin> set (variable_names (ns_variables n))" using e(2) position_None [of "variable_names (ns_variables n)" x] by simp
  have lx: "string_to_lower x = x" using x by (simp add: lower_name_def)
  obtain item t' where i: "Hashtab_Insert True (ns_table n) x (length (ns_variables n)) (Some (HashString x)) = Some (Some item, t')"
      "named t' (variable_names (ns_variables n) @ [x])"
    using insert_named [OF nm x new] by auto
  show ?thesis using g e(1) entry i new lx by (auto simp: get_variable_def bind_Some_iff Let_def)
qed

lemma register_variable_ok:
  assumes ok: "config_ok cfg" and n: "position (map ns_name (spaces cfg)) ns = Some i" and x: "lower_name (cv_name v)"
    and r: "register_variable cfg i v = Some cfg'"
  shows "config_ok cfg' \<and> map ns_name (spaces cfg') = map ns_name (spaces cfg)
    \<and> config_lookup cfg ns (cv_name v) = None
    \<and> (\<forall>m y. config_lookup cfg' m y = (if m = ns \<and> y = cv_name v then Some v else config_lookup cfg m y))"
proof -
  have lx: "string_to_lower (cv_name v) = cv_name v" using x by (simp add: lower_name_def)
  obtain space space' j var val cfg1 where g: "arr_get (spaces cfg) i = Some space"
      "get_variable space (cv_name v) True = Some (Some j, space')" "arr_get (ns_variables space') j = Some var"
      "parse_into (cfg\<lparr>spaces := (spaces cfg)[i := space'\<lparr>ns_variables := (ns_variables space')[j := var\<lparr>var_data := v\<rparr>]\<rparr>]\<rparr>) val v = Some (True, cfg')"
    using r lx by (auto simp: register_variable_def bind_Some_iff Let_def abort_simps split: if_splits)
  have i: "i < length (spaces cfg)" "ns_name (spaces cfg ! i) = ns" "space = spaces cfg ! i"
    using position_Some [OF n] g(1) by (auto simp: abort_simps)
  have sok: "space_ok space" using ok i by (auto simp: config_ok_def)
  note c = get_variable_creates [OF sok x g(2)]
  obtain env where env: "ns_variables space' = ns_variables space @ [blank_variable (cv_name v) env]" using c by blast
  let ?vs = "ns_variables space @ [var\<lparr>var_data := v\<rparr>]"
  let ?space = "space'\<lparr>ns_variables := ?vs\<rparr>"
  have u: "(ns_variables space')[j := var\<lparr>var_data := v\<rparr>] = ?vs" using c env by simp
  have s': "spaces cfg' = (spaces cfg)[i := ?space]" "name_spaces cfg' = name_spaces cfg" "spaces_freed cfg' = spaces_freed cfg"
    using g(4) u by (auto simp: parse_into_def bind_Some_iff)
  have names: "map ns_name (spaces cfg') = map ns_name (spaces cfg)"
    using s'(1) c i by (simp add: map_update list_update_same_conv)
  have "space_ok ?space" using c by (simp add: space_ok_def)
  then have ok': "config_ok cfg'"
    unfolding config_ok_def names using ok s' i(1)
    by (auto simp: config_ok_def dest!: set_update_subset_insert [THEN subsetD])
  have sl: "space_lookup ?space y = (if y = cv_name v then Some (var\<lparr>var_data := v\<rparr>) else space_lookup space y)" for y
  proof -
    have none: "position (variable_names (ns_variables space)) (cv_name v) = None" using c by (simp add: position_None)
    show ?thesis
    proof (cases "y = cv_name v")
      case True
      then show ?thesis using none by (simp add: space_lookup_def position_append)
    next
      case False
      then show ?thesis
        by (auto simp: space_lookup_def position_append nth_append dest: position_Some split: option.splits)
    qed
  qed
  have "config_lookup cfg' m y = (if m = ns \<and> y = cv_name v then Some v else config_lookup cfg m y)" for m y
  proof (cases "m = ns")
    case True
    then show ?thesis using n names s'(1) i sl by (simp add: config_lookup_def)
  next
    case False
    then have "k \<noteq> i" if "position (map ns_name (spaces cfg)) m = Some k" for k using position_Some [OF that] i(2) by auto
    then show ?thesis using False names s'(1) by (auto simp: config_lookup_def split: option.splits)
  qed
  moreover have "config_lookup cfg ns (cv_name v) = None"
    using n i c by (simp add: config_lookup_def space_lookup_def position_None)
  ultimately show ?thesis using ok' names by blast
qed

lemma register_variables_ok:
  "config_ok cfg \<Longrightarrow> position (map ns_name (spaces cfg)) ns = Some i \<Longrightarrow> \<forall>v\<in>set vs. lower_name (cv_name v)
   \<Longrightarrow> register_variables cfg i vs = Some cfg' \<Longrightarrow>
   config_ok cfg' \<and> (\<forall>v\<in>set vs. config_lookup cfg ns (cv_name v) = None)
    \<and> (\<forall>m y. config_lookup cfg' m y = (if m = ns \<and> y \<in> cv_name ` set vs then find (\<lambda>v. cv_name v = y) vs else config_lookup cfg m y))"
proof (induction vs arbitrary: cfg)
  case (Cons v vs)
  obtain cfg1 where c1: "register_variable cfg i v = Some cfg1" "register_variables cfg1 i vs = Some cfg'"
    using Cons.prems(4) by (auto simp: bind_Some_iff)
  note s = register_variable_ok [OF Cons.prems(1,2) _ c1(1)]
  have "lower_name (cv_name v)" using Cons.prems(3) by simp
  note s = s [OF this]
  have ih: "config_ok cfg' \<and> (\<forall>v\<in>set vs. config_lookup cfg1 ns (cv_name v) = None)
    \<and> (\<forall>m y. config_lookup cfg' m y = (if m = ns \<and> y \<in> cv_name ` set vs then find (\<lambda>v. cv_name v = y) vs else config_lookup cfg1 m y))"
    by (rule Cons.IH) (use s Cons.prems c1(2) in auto)
  have "cv_name v \<notin> cv_name ` set vs" using ih s by force
  moreover have "\<forall>u\<in>set vs. config_lookup cfg ns (cv_name u) = None" using ih s by (metis option.distinct(1))
  ultimately show ?case using ih s by auto
qed simp

lemma get_name_space_creates:
  assumes ok: "config_ok cfg" and n: "lower_name n" and new: "position (map ns_name (spaces cfg)) n = None"
  shows "\<exists>i cfg'. get_name_space cfg n True = Some (Some i, cfg') \<and> config_ok cfg'
    \<and> position (map ns_name (spaces cfg')) n = Some i \<and> (\<forall>m y. config_lookup cfg' m y = config_lookup cfg m y)
    \<and> store cfg' = store cfg"
proof -
  obtain tab where tab: "name_spaces cfg = Some tab" "named tab (map ns_name (spaces cfg))"
    using ok by (auto simp: config_ok_def split: option.splits)
  obtain entry where e: "Hashtab_Find tab n = Some (entry, HashString n)" "map_option item_value entry = None"
    using find_named [OF tab(2) n] new by auto
  obtain t0 :: "(string, nat) hashtab" where t0: "Hashtab_CreateSize True 32 hash_variable compare_variable = Some (Some t0)"
    by (simp add: Hashtab_CreateSize_def)
  have h: "hash_variable = HashString" by (intro ext) (simp add: hash_variable_def)
  have nt: "named t0 []" by (rule create_named [OF t0 [unfolded h]]) (rule compare_lower(1))
  have nn: "n \<notin> set (map ns_name (spaces cfg))" using new position_None [of "map ns_name (spaces cfg)" n] by simp
  obtain item t' where i: "Hashtab_Insert True tab n (length (spaces cfg)) (Some (HashString n)) = Some (Some item, t')"
      "named t' (map ns_name (spaces cfg) @ [n])"
    using insert_named [OF tab(2) n nn] by auto
  have ln: "string_to_lower n = n" using n by (simp add: lower_name_def)
  let ?space = "\<lparr>ns_name = n, ns_table = t0, ns_variables = []\<rparr>"
  obtain j cfg' where c: "j = length (spaces cfg)" "cfg' = cfg\<lparr>name_spaces := Some t', spaces := spaces cfg @ [?space]\<rparr>"
    by blast
  have g: "get_name_space cfg n True = Some (Some j, cfg')"
    using tab(1) e t0 i(1) ln ok c by (auto simp: get_name_space_def Let_def config_ok_def)
  have "space_ok ?space" using nt by (simp add: space_ok_def)
  then have "config_ok cfg'" using ok c(2) i(2) by (auto simp: config_ok_def)
  moreover have "position (map ns_name (spaces cfg')) n = Some j" using c new by (simp add: position_append)
  moreover have "config_lookup cfg' m y = config_lookup cfg m y" for m y
    using c(2) position_Some [of "map ns_name (spaces cfg)" m]
    by (auto simp: config_lookup_def position_append space_lookup_def nth_append position_def [of "[]"] split: option.splits)
  moreover have "store cfg' = store cfg" using c(2) by simp
  ultimately show ?thesis using g by blast
qed


definition empty_config :: config where
  "empty_config = \<lparr>name_spaces = None, spaces = [], spaces_freed = False, store = (\<lambda>_. VNumber 0),
     force_conditional_registrations = False\<rparr>"

lemma initialized_config_ok: "\<exists>cfg. ConfigInit empty_config = Some cfg \<and> config_ok cfg \<and> config_lookup cfg m y = None"
proof -
  obtain t0 :: "(string, nat) hashtab" where t0: "Hashtab_CreateSize True 32 hash_name_space compare_name_space = Some (Some t0)"
    by (simp add: Hashtab_CreateSize_def)
  have h: "hash_name_space = HashString" by (intro ext) (simp add: hash_name_space_def)
  have "named t0 []" by (rule create_named [OF t0 [unfolded h]]) (rule compare_lower(2))
  then show ?thesis using t0
    by (auto simp: ConfigInit_def empty_config_def config_ok_def config_lookup_def position_def)
qed

definition page_size_variable :: config_variable where
  "page_size_variable = \<lparr>cv_name = ''page_size'', cv_type = CONFIG_SIZE, cv_reference = Some 1, cv_context = NoContext,
     cv_default = Some ''8k'', cv_short_help = Some ''Memory page size in bytes'', cv_long_help = Some []\<rparr>"

lemma env_name_total: "\<exists>e. env_name n v = Some e"
  by (auto simp: env_name_def ENV_NAME_SUB_LEN_MAX_def ENV_NAME_LEN_MAX_def min_def)

lemma get_variable_total:
  assumes ok: "space_ok n" and x: "lower_name x" and new: "x \<notin> set (variable_names (ns_variables n))"
  shows "\<exists>n'. get_variable n x True = Some (Some (length (ns_variables n)), n')"
proof -
  have nm: "named (ns_table n) (variable_names (ns_variables n))" using ok by (simp add: space_ok_def)
  obtain entry where e: "Hashtab_Find (ns_table n) x = Some (entry, HashString x)"
      "map_option item_value entry = position (variable_names (ns_variables n)) x"
    using find_named [OF nm x] by blast
  then have "entry = None" using new position_None [of "variable_names (ns_variables n)" x] by simp
  moreover have lx: "string_to_lower x = x" using x by (simp add: lower_name_def)
  ultimately show ?thesis
    using e insert_named [OF nm x new] env_name_total [of "ns_name n" x] by (auto simp: get_variable_def Let_def)
qed


text \<open>
  Names of name spaces are compared without regard to case, but hashed as they are written. After registering
  variables in a name space whose name is not in lower case, it is not found under its own lower case name,
  although the two names are equal to the comparison.
\<close>

theorem mixed_case_not_found:
  "\<exists>cfg cfg'. ConfigInit empty_config = Some cfg \<and> ConfigRegister cfg ''Ab'' [] = Some cfg'
     \<and> map ns_name (spaces cfg') = [''ab''] \<and> compare_name_space ''ab'' ''Ab'' = 0
     \<and> ConfigSetValue cfg' ''ab'' x v = Some (CONFIG_INDEX_OUT_OF_BOUNDS, cfg')"
proof -
  have h: "HashString ''Ab'' \<noteq> HashString ''ab''" by code_simp
  have l: "string_to_lower ''Ab'' = ''ab''" "check_name ''Ab'' True = Some ()" "compare_name_space ''ab'' ''Ab'' = 0" by code_simp+
  let ?t = "\<lparr>table = replicate 32 [], tabsize = 32, tab_items = 0, hash_fn = hash_name_space, kcmp_fn = compare_name_space\<rparr>
      :: (string, nat) hashtab"
  let ?v = "\<lparr>table = replicate 32 [], tabsize = 32, tab_items = 0, hash_fn = hash_variable, kcmp_fn = compare_variable\<rparr>
      :: (string, nat) hashtab"
  let ?i = "unat (HashString ''Ab'') mod 32"
  let ?item = "\<lparr>item_key = ''ab'', item_value = 0, hash_value = HashString ''Ab''\<rparr> :: (string, nat) listitem"
  let ?t' = "?t\<lparr>table := (replicate 32 [])[?i := [?item]], tab_items := 1\<rparr>"
  let ?cfg = "empty_config\<lparr>name_spaces := Some ?t\<rparr>"
  let ?cfg' = "empty_config\<lparr>name_spaces := Some ?t', spaces := [\<lparr>ns_name = ''ab'', ns_table = ?v, ns_variables = []\<rparr>]\<rparr>"
  have i: "ConfigInit empty_config = Some ?cfg" by (simp add: ConfigInit_def empty_config_def Hashtab_CreateSize_def)
  have "Hashtab_Find ?t ''Ab'' = Some (None, HashString ''Ab'')" by (simp add: Hashtab_Find_def hash_name_space_def)
  moreover have "Hashtab_Insert True ?t ''ab'' 0 (Some (HashString ''Ab'')) = Some (Some ?item, ?t')"
    by (simp add: Hashtab_Insert_def Let_def)
  ultimately have "get_name_space ?cfg ''Ab'' True = Some (Some 0, ?cfg')"
    by (simp add: get_name_space_def l(1) Hashtab_CreateSize_def empty_config_def Let_def)
  then have r: "ConfigRegister ?cfg ''Ab'' [] = Some ?cfg'"
    by (simp add: ConfigRegister_def l(2) ENV_NAME_SUB_LEN_MAX_def)
  have "find (item_matches ?t' ''ab'' (HashString ''ab'')) ((replicate 32 [])[?i := [?item]] ! (unat (HashString ''ab'') mod 32)) = None"
    using h by (auto simp: item_matches_def nth_list_update find_None_iff)
  then have "Hashtab_Find ?t' ''ab'' = Some (None, HashString ''ab'')"
    by (simp add: Hashtab_Find_def hash_name_space_def Let_def)
  then have "ConfigSetValue ?cfg' ''ab'' x v = Some (CONFIG_INDEX_OUT_OF_BOUNDS, ?cfg')"
    by (simp add: ConfigSetValue_def get_name_space_def Let_def)
  then show ?thesis using i r l(3) by (intro exI [of _ ?cfg] exI [of _ ?cfg']) simp
qed

section \<open>The environment\<close>

lemma apply_variables_evaluated:
  "apply_variables getenv st vs = Some (CONFIG_SUCCESS, st', vs') \<Longrightarrow> \<forall>v\<in>set vs'. is_evaluated v"
proof (induction vs arbitrary: st st' vs')
  case (Cons v vs)
  then show ?case by (cases "is_evaluated v"; cases "getenv (env_var_name v)") (auto simp: bind_Some_iff Let_def split: if_splits)
qed simp

lemma apply_variables_nothing: "\<forall>v\<in>set vs. is_evaluated v \<Longrightarrow> apply_variables getenv st vs = Some (CONFIG_SUCCESS, st, vs)"
  by (induction vs) auto

lemma apply_spaces_evaluated:
  "apply_spaces getenv st ns = Some (CONFIG_SUCCESS, st', ns') \<Longrightarrow> \<forall>n\<in>set ns'. \<forall>v\<in>set (ns_variables n). is_evaluated v"
proof (induction ns arbitrary: st st' ns')
  case (Cons n ns)
  then obtain st1 vs ns1 where "apply_variables getenv st (ns_variables n) = Some (CONFIG_SUCCESS, st1, vs)"
      "apply_spaces getenv st1 ns = Some (CONFIG_SUCCESS, st', ns1)" "ns' = n\<lparr>ns_variables := vs\<rparr> # ns1"
    by (auto simp: bind_Some_iff Let_def split: if_splits)
  then show ?case using apply_variables_evaluated Cons.IH by fastforce
qed simp

lemma apply_spaces_nothing:
  "\<forall>n\<in>set ns. \<forall>v\<in>set (ns_variables n). is_evaluated v \<Longrightarrow> apply_spaces getenv st ns = Some (CONFIG_SUCCESS, st, ns)"
  by (induction ns) (auto simp: apply_variables_nothing)

text \<open>
  The environment is applied to every variable once: after it was applied without an error, applying it again,
  with whatever values, changes nothing, so a value that was set by name in between is kept.
\<close>

theorem environment_applied_once:
  assumes "ConfigApplyEnv cfg getenv = Some (CONFIG_SUCCESS, cfg1)"
    and "spaces cfg2 = spaces cfg1" "name_spaces cfg2 = name_spaces cfg1" "spaces_freed cfg2 = spaces_freed cfg1"
  shows "ConfigApplyEnv cfg2 getenv' = Some (CONFIG_SUCCESS, cfg2)"
proof -
  have s: "name_spaces cfg \<noteq> None" "\<not> spaces_freed cfg" "\<exists>st. apply_spaces getenv (store cfg) (spaces cfg) = Some (CONFIG_SUCCESS, st, spaces cfg1)"
    "name_spaces cfg1 = name_spaces cfg" "spaces_freed cfg1 = spaces_freed cfg"
    using assms(1) by (auto simp: ConfigApplyEnv_def bind_Some_iff split: if_splits)
  then have "apply_spaces getenv' (store cfg2) (spaces cfg2) = Some (CONFIG_SUCCESS, store cfg2, spaces cfg2)"
    using assms(2) by (auto intro!: apply_spaces_nothing dest: apply_spaces_evaluated)
  then show ?thesis using s assms(3,4) by (simp add: ConfigApplyEnv_def)
qed

theorem environment_applied_once_witness:
  "\<exists>cfg cfg1. ConfigApplyEnv cfg (\<lambda>_. Some ''1M'') = Some (CONFIG_SUCCESS, cfg1)
     \<and> store cfg1 1 = VNumber 1048576 \<and> ConfigApplyEnv cfg1 (\<lambda>_. Some ''2M'') = Some (CONFIG_SUCCESS, cfg1)"
proof -
  let ?v = "\<lparr>var_data = page_size_variable, env_var_name = ''SCOREP_PAGE_SIZE'', is_evaluated = False, is_changed = False\<rparr>"
  let ?t = "\<lparr>table = [], tabsize = 0, tab_items = 0, hash_fn = HashString, kcmp_fn = CompareStrings\<rparr>"
  let ?cfg = "empty_config\<lparr>name_spaces := Some ?t, spaces := [\<lparr>ns_name = [], ns_table = ?t, ns_variables = [?v]\<rparr>]\<rparr>"
  have "parse_size ''1M'' 0 = (True, 1048576)" by code_simp
  then obtain cfg1 where c: "ConfigApplyEnv ?cfg (\<lambda>_. Some ''1M'') = Some (CONFIG_SUCCESS, cfg1)" "store cfg1 1 = VNumber 1048576"
    by (simp add: ConfigApplyEnv_def empty_config_def page_size_variable_def parse_value_def Let_def)
  then show ?thesis using environment_applied_once [OF c(1), of cfg1 "\<lambda>_. Some ''2M''"] by blast
qed

end
