(* ===== verification/Scorep_Lifecycle.thy ===== *)
theory Scorep_Lifecycle
  imports Scorep_Prelude
begin

text \<open>
  The life cycle of the measurement, \<open>src/src/measurement/SCOREP_RuntimeManagement.c\<close>, with the loops over the
  subsystems (\<open>scorep_subsystem_management.c\<close>) and the status of the process (\<open>scorep_status.c\<close>).

  The state is what these files keep in static variables, and the log of the calls they make: a callback of the
  subsystem with a number, or a function of another component. A step has two results: \<open>Inr\<close> is the state when it
  returns, \<open>Inl\<close> the state when it ends the process (\<open>_Exit\<close>, a failed assertion, \<open>UTILS_FATAL\<close>). What the
  other components do is not visible here, apart from the results that the code looks at, which are fields
  of the environment. Timings and verbose output are left out.
\<close>

section \<open>State\<close>

datatype sync_mode = MODE_BEGIN | MODE_BEGIN_MPP | MODE_END

datatype cpu_phase = PHASE_MGMT | PHASE_EVENTS | PHASE_PAUSE

datatype hook =
  subsystem_register | subsystem_init | subsystem_begin | subsystem_init_mpp | subsystem_synchronize sync_mode
| subsystem_end | subsystem_init_location | subsystem_trigger_overdue_events | subsystem_activate_cpu_location cpu_phase
| subsystem_deactivate_cpu_location cpu_phase | subsystem_finalize_location | subsystem_pre_unify | subsystem_post_unify
| subsystem_finalize | subsystem_deregister | subsystem_dump_manifest

datatype component_call =
  InitErrorCallback | ConfigInit | RegisterCoreVariables | Profile_Register | Tracing_Register | Filtering_Register
| Timer_Register | ConfigApplyEnv | Timer_Initialize | BuildSystemTree
| Status_Initialize | Memory_Initialize | Paradigms_Initialize | Substrates_EarlyInitialize | DefsInitialize
| DefineSystemTree | FreeSystemTree | DefineMeasurementRegions | DefineMeasurementAttributes | Filtering_Initialize
| Thread_Initialize | ActivateInitLocations | Addr2line_Initialize | BeginEpoch | ProgramBegin
| Ipc_Init | CreateExperimentDir | SynchronizeClocks | Ipc_Barrier | Ipc_Finalize
| SubstratesEnableRecording | EnableRecordingEvent | SubstratesDisableRecording | DisableRecordingEvent
| TaskExitAllRegions | ExitCallback nat | EndEpoch | LocationExitAllRegions | ProgramEnd | GetClockResolution
| Filtering_Finalize | FinalizeDefinitions | FinalizeLocationGroup | Unify | WriteData | Addr2line_Finalize
| DefinitionsFinalize | FinalizeLocations | LocationFinalize | ConfigFini | RenameExperimentDir | Status_Finalize
| Thread_Finalize | Memory_Finalize

datatype action = Hook hook nat | Call component_call

datatype measurement_phase = PHASE_PRE | PHASE_WITHIN | PHASE_POST

record process_status =
  mpp_rank :: int
  mpp_rank_is_set :: bool
  mpp_is_initialized :: bool
  mpp_is_finalized :: bool
  mpp_comm_world_size :: int
  is_process_master_on_node :: bool
  is_profiling_enabled :: bool
  is_tracing_enabled :: bool
  otf2_has_flushed :: bool

record runtime =
  rt_initialized :: bool
  rt_finalized :: bool
  rt_config_initialized :: bool
  rt_variables_initialized :: bool
  rt_phase :: measurement_phase
  rt_recording_enabled :: bool
  rt_recording_by_default :: bool
  rt_default_changes_allowed :: bool
  rt_aborted :: bool
  rt_exit_callbacks :: "nat list"
  rt_exit_handlers :: nat
  rt_in_measurement :: int
  rt_status :: process_status
  rt_log :: "action list"

text \<open>The subsystems of the process with the callbacks they have, and what calls of other components return.\<close>

record runtime_env =
  env_subsystems :: nat
  env_has_hook :: "hook \<Rightarrow> nat \<Rightarrow> bool"
  env_hook_ok :: "hook \<Rightarrow> nat \<Rightarrow> bool"
  env_is_mpp :: bool
  env_register_ok :: bool
  env_config_ok :: bool
  env_profiling :: bool
  env_tracing :: bool
  env_ipc_size :: int
  env_ipc_rank :: int
  env_node_ids :: "u32 list"

type_synonym step = "runtime \<Rightarrow> runtime + runtime"

fun run_steps :: "step list \<Rightarrow> step" where
  "run_steps [] rt = Inr rt"
| "run_steps (f # fs) rt = (case f rt of Inl rt \<Rightarrow> Inl rt | Inr rt \<Rightarrow> run_steps fs rt)"

definition log_action :: "action \<Rightarrow> runtime \<Rightarrow> runtime" where
  "log_action a rt = rt\<lparr>rt_log := rt_log rt @ [a]\<rparr>"

definition call_component :: "component_call \<Rightarrow> step" where
  "call_component c rt = Inr (log_action (Call c) rt)"

definition update :: "(runtime \<Rightarrow> runtime) \<Rightarrow> step" where
  "update f rt = Inr (f rt)"

definition check :: "(runtime \<Rightarrow> bool) \<Rightarrow> step" where
  "check P rt = (if P rt then Inr rt else Inl rt)"

section \<open>Subsystems\<close>

text \<open>A callback that reports an error ends the process.\<close>

definition call_hook :: "runtime_env \<Rightarrow> hook \<Rightarrow> nat \<Rightarrow> step" where
  "call_hook env hook i rt =
     (if \<not> env_has_hook env hook i then Inr rt
      else if env_hook_ok env hook i then Inr (log_action (Hook hook i) rt)
      else Inl (log_action (Hook hook i) rt))"

definition call_void_hook :: "runtime_env \<Rightarrow> hook \<Rightarrow> nat \<Rightarrow> step" where
  "call_void_hook env hook i rt = Inr (if env_has_hook env hook i then log_action (Hook hook i) rt else rt)"

definition forward :: "runtime_env \<Rightarrow> hook \<Rightarrow> step" where
  "forward env hook = run_steps (map (call_hook env hook) [0..<env_subsystems env])"

definition backward :: "runtime_env \<Rightarrow> hook \<Rightarrow> step" where
  "backward env hook = run_steps (map (call_void_hook env hook) (rev [0..<env_subsystems env]))"

definition subsystems_register :: "runtime_env \<Rightarrow> step" where "subsystems_register env = forward env subsystem_register"
definition subsystems_initialize :: "runtime_env \<Rightarrow> step" where "subsystems_initialize env = forward env subsystem_init"
definition subsystems_begin :: "runtime_env \<Rightarrow> step" where "subsystems_begin env = forward env subsystem_begin"
definition subsystems_initialize_mpp :: "runtime_env \<Rightarrow> step" where "subsystems_initialize_mpp env = forward env subsystem_init_mpp"

definition subsystems_synchronize :: "runtime_env \<Rightarrow> sync_mode \<Rightarrow> step" where
  "subsystems_synchronize env mode =
     run_steps (map (call_void_hook env (subsystem_synchronize mode)) [0..<env_subsystems env])"

definition subsystems_end :: "runtime_env \<Rightarrow> step" where "subsystems_end env = backward env subsystem_end"

definition subsystems_activate_cpu_location :: "runtime_env \<Rightarrow> cpu_phase \<Rightarrow> step" where
  "subsystems_activate_cpu_location env phase = forward env (subsystem_activate_cpu_location phase)"

definition subsystems_deactivate_cpu_location :: "runtime_env \<Rightarrow> cpu_phase \<Rightarrow> step" where
  "subsystems_deactivate_cpu_location env phase = backward env (subsystem_deactivate_cpu_location phase)"

definition subsystems_initialize_location :: "runtime_env \<Rightarrow> step" where
  "subsystems_initialize_location env = forward env subsystem_init_location"

definition subsystems_trigger_overdue_events :: "runtime_env \<Rightarrow> step" where
  "subsystems_trigger_overdue_events env = forward env subsystem_trigger_overdue_events"

definition subsystems_finalize_location :: "runtime_env \<Rightarrow> step" where
  "subsystems_finalize_location env = backward env subsystem_finalize_location"

definition subsystems_pre_unify :: "runtime_env \<Rightarrow> step" where "subsystems_pre_unify env = forward env subsystem_pre_unify"
definition subsystems_post_unify :: "runtime_env \<Rightarrow> step" where "subsystems_post_unify env = forward env subsystem_post_unify"
definition subsystems_finalize :: "runtime_env \<Rightarrow> step" where "subsystems_finalize env = backward env subsystem_finalize"
definition subsystems_deregister :: "runtime_env \<Rightarrow> step" where "subsystems_deregister env = backward env subsystem_deregister"
definition subsystems_dump_manifest :: "runtime_env \<Rightarrow> step" where "subsystems_dump_manifest env = backward env subsystem_dump_manifest"

section \<open>Status\<close>

definition set_status :: "(process_status \<Rightarrow> process_status) \<Rightarrow> runtime \<Rightarrow> runtime" where
  "set_status f rt = rt\<lparr>rt_status := f (rt_status rt)\<rparr>"

definition Status_Initialize_step :: "runtime_env \<Rightarrow> step" where
  "Status_Initialize_step env = run_steps [
     call_component Status_Initialize,
     update (set_status (\<lambda>s. s\<lparr>is_profiling_enabled := env_profiling env, is_tracing_enabled := env_tracing env\<rparr>))]"

text \<open>No process with a lower rank has the node of this process.\<close>

fun node_master :: "u32 list \<Rightarrow> u32 \<Rightarrow> nat \<Rightarrow> bool" where
  "node_master recvbuf node_id 0 = True"
| "node_master recvbuf node_id (Suc i) = (if recvbuf ! i = node_id then False else node_master recvbuf node_id i)"

definition Status_OnMppInit :: "runtime_env \<Rightarrow> step" where
  "Status_OnMppInit env = run_steps [
     check (\<lambda>rt. \<not> mpp_is_initialized (rt_status rt) \<and> \<not> mpp_is_finalized (rt_status rt)),
     update (set_status (\<lambda>s. s\<lparr>mpp_is_initialized := True\<rparr>)),
     call_component Ipc_Init,
     check (\<lambda>rt. mpp_comm_world_size (rt_status rt) = 0),
     update (set_status (\<lambda>s. s\<lparr>mpp_comm_world_size := env_ipc_size env\<rparr>)),
     check (\<lambda>rt. mpp_comm_world_size (rt_status rt) > 0 \<and> \<not> mpp_rank_is_set (rt_status rt)),
     update (set_status (\<lambda>s. s\<lparr>mpp_rank := env_ipc_rank env\<rparr>)),
     check (\<lambda>rt. mpp_rank (rt_status rt) \<ge> 0 \<and> mpp_rank (rt_status rt) < mpp_comm_world_size (rt_status rt)),
     update (set_status (\<lambda>s. s\<lparr>mpp_rank_is_set := True,
       is_process_master_on_node :=
         node_master (env_node_ids env) (env_node_ids env ! nat (mpp_rank s)) (nat (mpp_rank s))\<rparr>))]"

definition Status_OnMppFinalize :: step where
  "Status_OnMppFinalize = run_steps [
     call_component Ipc_Finalize,
     check (\<lambda>rt. mpp_is_initialized (rt_status rt) \<and> \<not> mpp_is_finalized (rt_status rt)),
     update (set_status (\<lambda>s. s\<lparr>mpp_is_finalized := True\<rparr>))]"

definition Status_GetRank :: "runtime \<Rightarrow> int option" where
  "Status_GetRank rt = (if mpp_rank_is_set (rt_status rt) then Some (mpp_rank (rt_status rt)) else None)"

definition Status_GetSize :: "runtime \<Rightarrow> int option" where
  "Status_GetSize rt = (if mpp_is_initialized (rt_status rt) then Some (mpp_comm_world_size (rt_status rt)) else None)"

definition Status_IsMppFinalized :: "runtime_env \<Rightarrow> runtime \<Rightarrow> bool" where
  "Status_IsMppFinalized env rt = (if env_is_mpp env then mpp_is_finalized (rt_status rt) else True)"

definition Status_IsProcessMasterOnNode :: "runtime \<Rightarrow> bool option" where
  "Status_IsProcessMasterOnNode rt =
     (if mpp_is_initialized (rt_status rt) then Some (is_process_master_on_node (rt_status rt)) else None)"

definition Status_OnOtf2Flush :: step where
  "Status_OnOtf2Flush = update (set_status (\<lambda>s. s\<lparr>otf2_has_flushed := True\<rparr>))"

section \<open>Runtime management\<close>

definition initial_status :: process_status where
  "initial_status = \<lparr>mpp_rank = 2 ^ 31 - 1, mpp_rank_is_set = False, mpp_is_initialized = False, mpp_is_finalized = False,
     mpp_comm_world_size = 0, is_process_master_on_node = False, is_profiling_enabled = True, is_tracing_enabled = True,
     otf2_has_flushed = False\<rparr>"

definition initial_runtime :: runtime where
  "initial_runtime = \<lparr>rt_initialized = False, rt_finalized = False, rt_config_initialized = False,
     rt_variables_initialized = False, rt_phase = PHASE_PRE,
     rt_recording_enabled = True, rt_recording_by_default = True, rt_default_changes_allowed = True, rt_aborted = False,
     rt_exit_callbacks = [], rt_exit_handlers = 0, rt_in_measurement = 0, rt_status = initial_status, rt_log = []\<rparr>"

definition IsInitialized :: "runtime \<Rightarrow> bool" where
  "IsInitialized rt \<longleftrightarrow> rt_initialized rt \<and> \<not> rt_finalized rt"

definition IN_MEASUREMENT_INCREMENT :: step where
  "IN_MEASUREMENT_INCREMENT = update (\<lambda>rt. rt\<lparr>rt_in_measurement := rt_in_measurement rt + 1\<rparr>)"

definition IN_MEASUREMENT_DECREMENT :: step where
  "IN_MEASUREMENT_DECREMENT = update (\<lambda>rt. rt\<lparr>rt_in_measurement := rt_in_measurement rt - 1\<rparr>)"

definition RegisterAllConfigVariables :: "runtime_env \<Rightarrow> step" where
  "RegisterAllConfigVariables env rt =
     (if rt_variables_initialized rt then Inr rt
      else run_steps [
        update (\<lambda>rt. rt\<lparr>rt_variables_initialized := True\<rparr>),
        call_component RegisterCoreVariables,
        check (\<lambda>rt. env_register_ok env),
        call_component Profile_Register,
        call_component Tracing_Register,
        call_component Filtering_Register,
        call_component Timer_Register,
        subsystems_register env] rt)"

definition InitConfigVariables :: "runtime_env \<Rightarrow> bool \<Rightarrow> step" where
  "InitConfigVariables env in_signal = run_steps [
     check (\<lambda>rt. \<not> in_signal),
     \<lambda>rt. if rt_config_initialized rt then Inr rt
       else run_steps [
         update (\<lambda>rt. rt\<lparr>rt_config_initialized := True\<rparr>),
         call_component ConfigInit,
         RegisterAllConfigVariables env,
         call_component ConfigApplyEnv,
         check (\<lambda>rt. env_config_ok env)] rt]"

definition EnableRecording_step :: "bool \<Rightarrow> step" where
  "EnableRecording_step in_parallel =
     (if in_parallel then Inr
      else run_steps [
        call_component SubstratesEnableRecording,
        update (\<lambda>rt. rt\<lparr>rt_recording_enabled := True\<rparr>),
        call_component EnableRecordingEvent])"

definition DisableRecording_step :: "bool \<Rightarrow> step" where
  "DisableRecording_step in_parallel =
     (if in_parallel then Inr
      else run_steps [
        call_component DisableRecordingEvent,
        call_component SubstratesDisableRecording,
        update (\<lambda>rt. rt\<lparr>rt_recording_enabled := False\<rparr>)])"

definition SetDefaultRecordingMode :: "bool \<Rightarrow> step" where
  "SetDefaultRecordingMode enabled = run_steps [
     check rt_default_changes_allowed,
     update (\<lambda>rt. rt\<lparr>rt_recording_by_default := enabled\<rparr>)]"

definition SetAbortFlag :: step where
  "SetAbortFlag = update (\<lambda>rt. rt\<lparr>rt_aborted := True\<rparr>)"

definition RegisterExitHandler :: step where
  "RegisterExitHandler = update (\<lambda>rt. rt\<lparr>rt_exit_handlers := Suc (rt_exit_handlers rt)\<rparr>)"

definition max_exit_callbacks :: nat where "max_exit_callbacks = 1"

definition RegisterExitCallback :: "nat \<Rightarrow> step" where
  "RegisterExitCallback exitCallback = run_steps [
     check (\<lambda>rt. length (rt_exit_callbacks rt) < max_exit_callbacks),
     update (\<lambda>rt. rt\<lparr>rt_exit_callbacks := rt_exit_callbacks rt @ [exitCallback]\<rparr>)]"

definition trigger_exit_callbacks :: step where
  "trigger_exit_callbacks = run_steps [
     check (\<lambda>rt. length (rt_exit_callbacks rt) \<le> max_exit_callbacks),
     \<lambda>rt. run_steps (map (\<lambda>c. call_component (ExitCallback c)) (rev (rt_exit_callbacks rt))) rt]"

definition synchronize :: "runtime_env \<Rightarrow> sync_mode \<Rightarrow> step" where
  "synchronize env syncMode = run_steps [subsystems_synchronize env syncMode, call_component SynchronizeClocks]"

definition init_mpp :: "runtime_env \<Rightarrow> sync_mode \<Rightarrow> step" where
  "init_mpp env syncMode = run_steps [
     Status_OnMppInit env,
     call_component CreateExperimentDir,
     subsystems_initialize_mpp env,
     synchronize env syncMode]"

definition begin_epoch :: step where
  "begin_epoch = run_steps [call_component BeginEpoch, call_component ProgramBegin]"

definition end_epoch :: step where
  "end_epoch = run_steps [call_component EndEpoch, call_component LocationExitAllRegions, call_component ProgramEnd]"

definition initialization_sanity_checks :: step where
  "initialization_sanity_checks = check (\<lambda>rt. \<not> rt_finalized rt)"

definition InitMeasurementWithArgs :: "runtime_env \<Rightarrow> bool \<Rightarrow> bool \<Rightarrow> step" where
  "InitMeasurementWithArgs env in_signal in_parallel = run_steps [
     IN_MEASUREMENT_INCREMENT,
     call_component InitErrorCallback,
     check (\<lambda>rt. \<not> in_signal),
     \<lambda>rt. if rt_initialized rt then IN_MEASUREMENT_DECREMENT rt
       else run_steps [
         update (\<lambda>rt. rt\<lparr>rt_initialized := True\<rparr>),
         initialization_sanity_checks,
         InitConfigVariables env in_signal,
         call_component Timer_Initialize,
         call_component BuildSystemTree,
         Status_Initialize_step env,
         call_component Memory_Initialize,
         call_component Paradigms_Initialize,
         call_component Substrates_EarlyInitialize,
         call_component DefsInitialize,
         call_component DefineSystemTree,
         call_component FreeSystemTree,
         call_component DefineMeasurementRegions,
         call_component DefineMeasurementAttributes,
         call_component Filtering_Initialize,
         call_component Thread_Initialize,
         subsystems_initialize env,
         call_component ActivateInitLocations,
         call_component Addr2line_Initialize,
         begin_epoch,
         subsystems_begin env,
         subsystems_activate_cpu_location env PHASE_EVENTS,
         update (\<lambda>rt. rt\<lparr>rt_default_changes_allowed := False\<rparr>),
         \<lambda>rt. if \<not> rt_recording_by_default rt then DisableRecording_step in_parallel rt else Inr rt,
         update (\<lambda>rt. rt\<lparr>rt_phase := PHASE_WITHIN\<rparr>),
         \<lambda>rt. if \<not> env_is_mpp env then run_steps [RegisterExitHandler, init_mpp env MODE_BEGIN] rt else Inr rt,
         IN_MEASUREMENT_DECREMENT] rt]"

definition InitMppMeasurement :: "runtime_env \<Rightarrow> step" where
  "InitMppMeasurement env = run_steps [
     check (\<lambda>rt. \<not> otf2_has_flushed (rt_status rt)),
     init_mpp env MODE_BEGIN_MPP,
     RegisterExitHandler,
     call_component Ipc_Barrier]"

definition FinalizeMppMeasurement :: step where
  "FinalizeMppMeasurement = Status_OnMppFinalize"

text \<open>\<open>SCOREP_Unify\<close> lets the subsystems do their part before and after the unification; its own steps are one entry.\<close>

definition unify_step :: "runtime_env \<Rightarrow> step" where
  "unify_step env = run_steps [subsystems_pre_unify env, call_component Unify, subsystems_post_unify env]"

definition scorep_finalize :: "runtime_env \<Rightarrow> bool \<Rightarrow> bool \<Rightarrow> step" where
  "scorep_finalize env in_signal in_parallel = run_steps [
     IN_MEASUREMENT_INCREMENT,
     check (\<lambda>rt. \<not> in_signal),
     \<lambda>rt. if \<not> rt_initialized rt \<or> rt_finalized rt \<or> rt_aborted rt then IN_MEASUREMENT_DECREMENT rt
       else run_steps [
         update (\<lambda>rt. rt\<lparr>rt_finalized := True\<rparr>),
         synchronize env MODE_END,
         update (\<lambda>rt. rt\<lparr>rt_phase := PHASE_POST\<rparr>),
         call_component TaskExitAllRegions,
         trigger_exit_callbacks,
         \<lambda>rt. if \<not> rt_recording_by_default rt then EnableRecording_step in_parallel rt else Inr rt,
         subsystems_deactivate_cpu_location env PHASE_EVENTS,
         subsystems_end env,
         end_epoch,
         call_component GetClockResolution,
         subsystems_deactivate_cpu_location env PHASE_MGMT,
         \<lambda>rt. if env_is_mpp env \<and> \<not> mpp_is_initialized (rt_status rt) then IN_MEASUREMENT_DECREMENT rt
           else run_steps [
             call_component Filtering_Finalize,
             call_component FinalizeDefinitions,
             call_component FinalizeLocationGroup,
             unify_step env,
             call_component WriteData,
             call_component Addr2line_Finalize,
             call_component DefinitionsFinalize,
             call_component FinalizeLocations,
             subsystems_finalize env,
             call_component LocationFinalize,
             call_component ConfigFini,
             call_component RenameExperimentDir,
             call_component Status_Finalize,
             subsystems_deregister env,
             call_component Thread_Finalize,
             call_component Memory_Finalize,
             IN_MEASUREMENT_DECREMENT] rt] rt]"

section \<open>What a process can do\<close>

text \<open>The calls of the program, the adapters and \<open>atexit\<close>; each can happen in a signal handler or in parallel.\<close>

datatype lifecycle_call =
  CallInitMeasurement bool bool | CallInitConfigVariables bool | CallInitMpp | CallFinalizeMpp | CallFinalize bool bool
| CallEnableRecording bool | CallDisableRecording bool | CallSetDefaultRecordingMode bool | CallSetAbortFlag
| CallRegisterExitHandler | CallRegisterExitCallback nat | CallOtf2Flush

fun lifecycle_step :: "runtime_env \<Rightarrow> lifecycle_call \<Rightarrow> step" where
  "lifecycle_step env (CallInitMeasurement in_signal in_parallel) = InitMeasurementWithArgs env in_signal in_parallel"
| "lifecycle_step env (CallInitConfigVariables in_signal) = InitConfigVariables env in_signal"
| "lifecycle_step env CallInitMpp = InitMppMeasurement env"
| "lifecycle_step env CallFinalizeMpp = FinalizeMppMeasurement"
| "lifecycle_step env (CallFinalize in_signal in_parallel) = scorep_finalize env in_signal in_parallel"
| "lifecycle_step env (CallEnableRecording in_parallel) = EnableRecording_step in_parallel"
| "lifecycle_step env (CallDisableRecording in_parallel) = DisableRecording_step in_parallel"
| "lifecycle_step env (CallSetDefaultRecordingMode enabled) = SetDefaultRecordingMode enabled"
| "lifecycle_step env CallSetAbortFlag = SetAbortFlag"
| "lifecycle_step env CallRegisterExitHandler = RegisterExitHandler"
| "lifecycle_step env (CallRegisterExitCallback c) = RegisterExitCallback c"
| "lifecycle_step env CallOtf2Flush = Status_OnOtf2Flush"

text \<open>The states of a running process, and those in which a call ended it.\<close>

inductive running :: "runtime_env \<Rightarrow> runtime \<Rightarrow> bool" for env where
  start: "running env initial_runtime"
| returned: "running env rt \<Longrightarrow> lifecycle_step env c rt = Inr rt' \<Longrightarrow> running env rt'"

inductive ended :: "runtime_env \<Rightarrow> runtime \<Rightarrow> bool" for env where
  "running env rt \<Longrightarrow> lifecycle_step env c rt = Inl rt' \<Longrightarrow> ended env rt'"

inductive_cases ended_elim: "ended env rt"

end
