(* ===== verification/Scorep_Lifecycle_Props.thy ===== *)
theory Scorep_Lifecycle_Props
  imports Scorep_Lifecycle "HOL-Library.Sublist"
begin

text \<open>
  The life cycle of the measurement follows one script: whatever calls the process makes, the configuration, the
  initialization and the finalization are each done at most once, in this order, and each as one
  uninterrupted sequence of calls. The effect of a step on the flags and on the log is computed from the effects of
  its parts.
\<close>

named_theorems effects

section \<open>Effects\<close>

text \<open>What the script is about; recording, exit callbacks and the start of the multi-process mode can happen at any time.\<close>

fun scripted :: "action \<Rightarrow> bool" where
  "scripted (Hook subsystem_init_mpp i) = False"
| "scripted (Hook (subsystem_synchronize mode) i) = False"
| "scripted (Hook h i) = True"
| "scripted (Call InitErrorCallback) = False"
| "scripted (Call SubstratesEnableRecording) = False"
| "scripted (Call EnableRecordingEvent) = False"
| "scripted (Call SubstratesDisableRecording) = False"
| "scripted (Call DisableRecordingEvent) = False"
| "scripted (Call (ExitCallback c)) = False"
| "scripted (Call Ipc_Init) = False"
| "scripted (Call CreateExperimentDir) = False"
| "scripted (Call SynchronizeClocks) = False"
| "scripted (Call Ipc_Barrier) = False"
| "scripted (Call Ipc_Finalize) = False"
| "scripted (Call c) = True"

definition life_log :: "runtime \<Rightarrow> action list" where
  "life_log rt = filter scripted (rt_log rt)"

record life_flags =
  lf_initialized :: bool
  lf_finalized :: bool
  lf_config :: bool
  lf_registered :: bool
  lf_phase :: measurement_phase
  lf_aborted :: bool
  lf_depth :: int
  lf_mpp :: bool

definition flags_of :: "runtime \<Rightarrow> life_flags" where
  "flags_of rt = \<lparr>lf_initialized = rt_initialized rt, lf_finalized = rt_finalized rt, lf_config = rt_config_initialized rt,
     lf_registered = rt_variables_initialized rt,
     lf_phase = rt_phase rt, lf_aborted = rt_aborted rt, lf_depth = rt_in_measurement rt,
     lf_mpp = mpp_is_initialized (rt_status rt)\<rparr>"

text \<open>When the step returns, it has changed the flags by \<open>g\<close> and written \<open>s\<close> to the log; when it ends the process, it has written
  a prefix of \<open>s\<close>.\<close>

definition effect :: "step \<Rightarrow> (life_flags \<Rightarrow> life_flags) \<Rightarrow> (life_flags \<Rightarrow> action list) \<Rightarrow> bool" where
  "effect f g s \<longleftrightarrow> (\<forall>rt. case f rt of
       Inr rt' \<Rightarrow> flags_of rt' = g (flags_of rt) \<and> life_log rt' = life_log rt @ s (flags_of rt)
     | Inl rt' \<Rightarrow> \<exists>s'. prefix s' (s (flags_of rt)) \<and> life_log rt' = life_log rt @ s')"

lemma effect_eq: "effect f g s \<Longrightarrow> (\<And>x. g x = g' x) \<Longrightarrow> (\<And>x. s x = s' x) \<Longrightarrow> effect f g' s'"
proof -
  assume e: "effect f g s" and "\<And>x. g x = g' x" "\<And>x. s x = s' x"
  then have "g = g'" "s = s'" by (simp_all add: fun_eq_iff)
  then show ?thesis using e by simp
qed

lemma effect_Nil [effects]: "effect (run_steps []) (\<lambda>x. x) (\<lambda>x. [])"
  by (simp add: effect_def)

lemma effect_Inr [effects]: "effect Inr (\<lambda>x. x) (\<lambda>x. [])"
  by (simp add: effect_def)

lemma effect_Cons [effects]:
  assumes "effect f g s" "effect (run_steps fs) g' s'"
  shows "effect (run_steps (f # fs)) (\<lambda>x. g' (g x)) (\<lambda>x. s x @ s' (g x))"
  unfolding effect_def
proof
  fix rt
  show "case run_steps (f # fs) rt of
       Inr rt' \<Rightarrow> flags_of rt' = g' (g (flags_of rt)) \<and> life_log rt' = life_log rt @ s (flags_of rt) @ s' (g (flags_of rt))
     | Inl rt' \<Rightarrow> \<exists>s''. prefix s'' (s (flags_of rt) @ s' (g (flags_of rt))) \<and> life_log rt' = life_log rt @ s''"
  proof (cases "f rt")
    case (Inl rt')
    then obtain s'' where "prefix s'' (s (flags_of rt))" "life_log rt' = life_log rt @ s''"
      using spec [OF assms(1) [unfolded effect_def], of rt] by auto
    then show ?thesis using Inl by (auto intro: prefix_prefix)
  next
    case (Inr rt1)
    have 1: "flags_of rt1 = g (flags_of rt)" "life_log rt1 = life_log rt @ s (flags_of rt)"
      using spec [OF assms(1) [unfolded effect_def], of rt] Inr by simp_all
    have 2: "case run_steps fs rt1 of
       Inr rt' \<Rightarrow> flags_of rt' = g' (flags_of rt1) \<and> life_log rt' = life_log rt1 @ s' (flags_of rt1)
     | Inl rt' \<Rightarrow> \<exists>s''. prefix s'' (s' (flags_of rt1)) \<and> life_log rt' = life_log rt1 @ s''"
      using spec [OF assms(2) [unfolded effect_def], of rt1] .
    show ?thesis
    proof (cases "run_steps fs rt1")
      case (Inl rt')
      then obtain s'' where "prefix s'' (s' (g (flags_of rt)))" "life_log rt' = life_log rt @ s (flags_of rt) @ s''"
        using 1 2 by auto
      then show ?thesis using Inr Inl by (auto simp: same_prefix_prefix intro!: exI [of _ "s (flags_of rt) @ s''"])
    next
      case (Inr rt')
      then show ?thesis using 1 2 \<open>f rt = Inr rt1\<close> by simp
    qed
  qed
qed

lemma effect_if [effects]:
  assumes "effect f g s" "effect f' g' s'" "\<And>rt. b rt = c (flags_of rt)"
  shows "effect (\<lambda>rt. if b rt then f rt else f' rt) (\<lambda>x. if c x then g x else g' x) (\<lambda>x. if c x then s x else s' x)"
  using assms by (simp add: effect_def)

lemma effect_cond [effects]:
  assumes "effect f g s" "effect f' g s"
  shows "effect (\<lambda>rt. if b rt then f rt else f' rt) g s"
  using assms by (simp add: effect_def)

lemma effect_update:
  assumes "\<And>rt. flags_of (f rt) = g (flags_of rt)" "\<And>rt. rt_log (f rt) = rt_log rt"
  shows "effect (update f) g (\<lambda>x. [])"
  using assms by (simp add: effect_def update_def life_log_def)

lemma effect_check [effects]: "effect (check P) (\<lambda>x. x) (\<lambda>x. [])"
  by (simp add: effect_def check_def)

lemma flags_of_log [simp]: "flags_of (log_action a rt) = flags_of rt"
  by (simp add: flags_of_def log_action_def)

lemma life_log_action [simp]: "life_log (log_action a rt) = life_log rt @ (if scripted a then [a] else [])"
  by (simp add: life_log_def log_action_def)

lemma effect_call [effects]: "effect (call_component c) (\<lambda>x. x) (\<lambda>x. if scripted (Call c) then [Call c] else [])"
  by (simp add: effect_def call_component_def)

definition hooks :: "runtime_env \<Rightarrow> hook \<Rightarrow> nat list \<Rightarrow> action list" where
  "hooks env h is = filter scripted (map (Hook h) (filter (env_has_hook env h) is))"

lemma effect_call_hook: "effect (call_hook env h i) (\<lambda>x. x) (\<lambda>x. hooks env h [i])"
  by (auto simp: effect_def call_hook_def hooks_def)

lemma effect_call_void_hook: "effect (call_void_hook env h i) (\<lambda>x. x) (\<lambda>x. hooks env h [i])"
  by (auto simp: effect_def call_void_hook_def hooks_def)

lemma effect_map:
  assumes "\<And>i. effect (f i) (\<lambda>x. x) (\<lambda>x. hooks env h [i])"
  shows "effect (run_steps (map f is)) (\<lambda>x. x) (\<lambda>x. hooks env h is)"
proof (induction "is")
  case Nil
  show ?case unfolding list.map by (rule effect_eq [OF effect_Nil]) (simp_all add: hooks_def)
next
  case (Cons i "is")
  show ?case unfolding list.map by (rule effect_eq [OF effect_Cons [OF assms Cons]]) (simp_all add: hooks_def)
qed

definition all_hooks :: "runtime_env \<Rightarrow> hook \<Rightarrow> action list" where
  "all_hooks env h = hooks env h [0..<env_subsystems env]"

definition rev_hooks :: "runtime_env \<Rightarrow> hook \<Rightarrow> action list" where
  "rev_hooks env h = hooks env h (rev [0..<env_subsystems env])"

lemma effect_forward [effects]: "effect (forward env h) (\<lambda>x. x) (\<lambda>x. all_hooks env h)"
  unfolding forward_def all_hooks_def by (rule effect_map [OF effect_call_hook])

lemma effect_backward [effects]: "effect (backward env h) (\<lambda>x. x) (\<lambda>x. rev_hooks env h)"
  unfolding backward_def rev_hooks_def by (rule effect_map [OF effect_call_void_hook])

lemma rev_hooks_rev: "rev_hooks env h = rev (all_hooks env h)"
  by (simp add: rev_hooks_def all_hooks_def hooks_def rev_filter rev_map)

lemma unscripted_hooks [simp]:
  "all_hooks env subsystem_init_mpp = []" "hooks env (subsystem_synchronize m) is = []"
  by (auto simp: all_hooks_def hooks_def filter_empty_conv)

section \<open>The script\<close>

definition config_script :: "runtime_env \<Rightarrow> action list" where
  "config_script env = map Call [ConfigInit, RegisterCoreVariables, Profile_Register, Tracing_Register, Filtering_Register, Timer_Register]
     @ all_hooks env subsystem_register @ [Call ConfigApplyEnv]"

definition init_script :: "runtime_env \<Rightarrow> action list" where
  "init_script env =
     map Call [Timer_Initialize, BuildSystemTree, Status_Initialize, Memory_Initialize, Paradigms_Initialize, Substrates_EarlyInitialize,
       DefsInitialize, DefineSystemTree, FreeSystemTree, DefineMeasurementRegions, DefineMeasurementAttributes, Filtering_Initialize,
       Thread_Initialize]
     @ all_hooks env subsystem_init
     @ map Call [ActivateInitLocations, Addr2line_Initialize, BeginEpoch, ProgramBegin]
     @ all_hooks env subsystem_begin @ all_hooks env (subsystem_activate_cpu_location PHASE_EVENTS)"

definition end_script :: "runtime_env \<Rightarrow> action list" where
  "end_script env =
     [Call TaskExitAllRegions] @ rev_hooks env (subsystem_deactivate_cpu_location PHASE_EVENTS) @ rev_hooks env subsystem_end
     @ map Call [EndEpoch, LocationExitAllRegions, ProgramEnd, GetClockResolution]
     @ rev_hooks env (subsystem_deactivate_cpu_location PHASE_MGMT)"

definition write_script :: "runtime_env \<Rightarrow> action list" where
  "write_script env =
     map Call [Filtering_Finalize, FinalizeDefinitions, FinalizeLocationGroup]
     @ all_hooks env subsystem_pre_unify @ [Call Unify] @ all_hooks env subsystem_post_unify
     @ map Call [WriteData, Addr2line_Finalize, DefinitionsFinalize, FinalizeLocations]
     @ rev_hooks env subsystem_finalize
     @ map Call [LocationFinalize, ConfigFini, RenameExperimentDir, Status_Finalize]
     @ rev_hooks env subsystem_deregister @ map Call [Thread_Finalize, Memory_Finalize]"

section \<open>The effects of the operations\<close>

lemma effect_updates [effects]:
  "effect (update (\<lambda>rt. rt\<lparr>rt_initialized := a\<rparr>)) (\<lambda>x. x\<lparr>lf_initialized := a\<rparr>) (\<lambda>x. [])"
  "effect (update (\<lambda>rt. rt\<lparr>rt_finalized := a\<rparr>)) (\<lambda>x. x\<lparr>lf_finalized := a\<rparr>) (\<lambda>x. [])"
  "effect (update (\<lambda>rt. rt\<lparr>rt_config_initialized := a\<rparr>)) (\<lambda>x. x\<lparr>lf_config := a\<rparr>) (\<lambda>x. [])"
  "effect (update (\<lambda>rt. rt\<lparr>rt_variables_initialized := a\<rparr>)) (\<lambda>x. x\<lparr>lf_registered := a\<rparr>) (\<lambda>x. [])"
  "effect (update (\<lambda>rt. rt\<lparr>rt_phase := p\<rparr>)) (\<lambda>x. x\<lparr>lf_phase := p\<rparr>) (\<lambda>x. [])"
  "effect (update (\<lambda>rt. rt\<lparr>rt_aborted := a\<rparr>)) (\<lambda>x. x\<lparr>lf_aborted := a\<rparr>) (\<lambda>x. [])"
  "effect IN_MEASUREMENT_INCREMENT (\<lambda>x. x\<lparr>lf_depth := lf_depth x + 1\<rparr>) (\<lambda>x. [])"
  "effect IN_MEASUREMENT_DECREMENT (\<lambda>x. x\<lparr>lf_depth := lf_depth x - 1\<rparr>) (\<lambda>x. [])"
  "effect (update (\<lambda>rt. rt\<lparr>rt_recording_enabled := a\<rparr>)) (\<lambda>x. x) (\<lambda>x. [])"
  "effect (update (\<lambda>rt. rt\<lparr>rt_recording_by_default := a\<rparr>)) (\<lambda>x. x) (\<lambda>x. [])"
  "effect (update (\<lambda>rt. rt\<lparr>rt_default_changes_allowed := a\<rparr>)) (\<lambda>x. x) (\<lambda>x. [])"
  "effect RegisterExitHandler (\<lambda>x. x) (\<lambda>x. [])"
  "effect (update (\<lambda>rt. rt\<lparr>rt_exit_callbacks := rt_exit_callbacks rt @ [c]\<rparr>)) (\<lambda>x. x) (\<lambda>x. [])"
  unfolding IN_MEASUREMENT_INCREMENT_def IN_MEASUREMENT_DECREMENT_def RegisterExitHandler_def
  by (rule effect_update; simp add: flags_of_def)+

lemma effect_status:
  assumes "\<And>s. mpp_is_initialized (f s) = mpp_is_initialized s"
  shows "effect (update (set_status f)) (\<lambda>x. x) (\<lambda>x. [])"
  by (rule effect_update) (simp_all add: flags_of_def set_status_def assms)

lemma effect_mpp_flag: "effect (update (set_status (\<lambda>s. s\<lparr>mpp_is_initialized := True\<rparr>))) (\<lambda>x. x\<lparr>lf_mpp := True\<rparr>) (\<lambda>x. [])"
  by (rule effect_update) (simp_all add: flags_of_def set_status_def)

lemma effect_status_init [effects]: "effect (Status_Initialize_step env) (\<lambda>x. x) (\<lambda>x. [Call Status_Initialize])"
  unfolding Status_Initialize_step_def
  by (rule effect_eq, (rule effects | (rule effect_status, simp))+) simp_all

lemma effect_mpp_init [effects]: "effect (Status_OnMppInit env) (\<lambda>x. x\<lparr>lf_mpp := True\<rparr>) (\<lambda>x. [])"
  unfolding Status_OnMppInit_def
  by (rule effect_eq, (rule effect_mpp_flag | rule effects | (rule effect_status, simp))+) simp_all

lemma effect_mpp_finalize [effects]: "effect Status_OnMppFinalize (\<lambda>x. x) (\<lambda>x. [])"
  unfolding Status_OnMppFinalize_def
  by (rule effect_eq, (rule effects | (rule effect_status, simp))+) simp_all

lemma effect_flush [effects]: "effect Status_OnOtf2Flush (\<lambda>x. x) (\<lambda>x. [])"
  unfolding Status_OnOtf2Flush_def by (rule effect_status) simp

lemma effect_recording [effects]:
  "effect (EnableRecording_step p) (\<lambda>x. x) (\<lambda>x. [])" "effect (DisableRecording_step p) (\<lambda>x. x) (\<lambda>x. [])"
proof -
  have "effect (run_steps [call_component SubstratesEnableRecording, update (\<lambda>rt. rt\<lparr>rt_recording_enabled := True\<rparr>), call_component EnableRecordingEvent])
      (\<lambda>x. x) (\<lambda>x. [])"
    by (rule effect_eq, (rule effects)+) simp_all
  then show "effect (EnableRecording_step p) (\<lambda>x. x) (\<lambda>x. [])" by (simp add: EnableRecording_step_def effect_Inr del: run_steps.simps)
  have "effect (run_steps [call_component DisableRecordingEvent, call_component SubstratesDisableRecording, update (\<lambda>rt. rt\<lparr>rt_recording_enabled := False\<rparr>)])
      (\<lambda>x. x) (\<lambda>x. [])"
    by (rule effect_eq, (rule effects)+) simp_all
  then show "effect (DisableRecording_step p) (\<lambda>x. x) (\<lambda>x. [])" by (simp add: DisableRecording_step_def effect_Inr del: run_steps.simps)
qed

lemma effect_synchronize [effects]: "effect (synchronize env mode) (\<lambda>x. x) (\<lambda>x. [])"
proof -
  have "effect (subsystems_synchronize env mode) (\<lambda>x. x) (\<lambda>x. hooks env (subsystem_synchronize mode) [0..<env_subsystems env])"
    unfolding subsystems_synchronize_def by (rule effect_map [OF effect_call_void_hook])
  then have "effect (subsystems_synchronize env mode) (\<lambda>x. x) (\<lambda>x. [])" by simp
  then show ?thesis unfolding synchronize_def
    by (rule effect_eq [OF effect_Cons [OF _ effect_Cons [OF effect_call effect_Nil]]]) simp_all
qed

lemma effect_init_mpp [effects]: "effect (init_mpp env mode) (\<lambda>x. x\<lparr>lf_mpp := True\<rparr>) (\<lambda>x. [])"
  unfolding init_mpp_def subsystems_initialize_mpp_def by (rule effect_eq, (rule effects)+) simp_all

lemma effect_callbacks [effects]: "effect trigger_exit_callbacks (\<lambda>x. x) (\<lambda>x. [])"
proof -
  have "effect (run_steps (map (\<lambda>c. call_component (ExitCallback c)) cs)) (\<lambda>x. x) (\<lambda>x. [])" for cs
  proof (induction cs)
    case (Cons c cs)
    show ?case unfolding list.map by (rule effect_eq [OF effect_Cons [OF effect_call Cons]]) simp_all
  next
    case Nil
    show ?case unfolding list.map by (rule effect_Nil)
  qed
  then have "effect (\<lambda>rt. run_steps (map (\<lambda>c. call_component (ExitCallback c)) (rev (rt_exit_callbacks rt))) rt) (\<lambda>x. x) (\<lambda>x. [])"
    by (simp add: effect_def)
  then show ?thesis unfolding trigger_exit_callbacks_def
    by (rule effect_eq [OF effect_Cons [OF effect_check effect_Cons [OF _ effect_Nil]]]) simp_all
qed

lemma effect_epochs [effects]:
  "effect begin_epoch (\<lambda>x. x) (\<lambda>x. map Call [BeginEpoch, ProgramBegin])"
  "effect end_epoch (\<lambda>x. x) (\<lambda>x. map Call [EndEpoch, LocationExitAllRegions, ProgramEnd])"
  unfolding begin_epoch_def end_epoch_def by ((rule effect_eq, (rule effects)+), simp_all)+

definition register_script :: "runtime_env \<Rightarrow> action list" where
  "register_script env =
     map Call [RegisterCoreVariables, Profile_Register, Tracing_Register, Filtering_Register, Timer_Register]
     @ all_hooks env subsystem_register"

lemma effect_register [effects]:
  "effect (RegisterAllConfigVariables env) (\<lambda>x. x\<lparr>lf_registered := True\<rparr>)
     (\<lambda>x. if lf_registered x then [] else register_script env)"
  unfolding RegisterAllConfigVariables_def [abs_def] subsystems_register_def
  by (rule effect_eq, rule effect_if [where c = lf_registered], rule effect_Inr, (rule effects)+, simp add: flags_of_def)
    (auto simp: register_script_def)

lemma effect_config [effects]:
  "effect (InitConfigVariables env in_signal)
     (\<lambda>x. if lf_config x then x else x\<lparr>lf_config := True, lf_registered := True\<rparr>)
     (\<lambda>x. if lf_config x then [] else Call ConfigInit # (if lf_registered x then [] else register_script env) @ [Call ConfigApplyEnv])"
  unfolding InitConfigVariables_def
  by (rule effect_eq, rule effect_Cons, rule effect_check, rule effect_Cons, rule effect_if [where c = lf_config], rule effect_Inr,
      (rule effects)+, simp add: flags_of_def, rule effect_Nil) auto

lemma config_script_eq: "config_script env = Call ConfigInit # register_script env @ [Call ConfigApplyEnv]"
  by (simp add: config_script_def register_script_def)

definition lf_writes :: "runtime_env \<Rightarrow> life_flags \<Rightarrow> bool" where
  "lf_writes env x \<longleftrightarrow> \<not> (env_is_mpp env \<and> \<not> lf_mpp x)"

lemma effect_init:
  "effect (InitMeasurementWithArgs env in_signal in_parallel)
     (\<lambda>x. if lf_initialized x then x else x\<lparr>lf_initialized := True, lf_config := True,
        lf_registered := lf_registered x \<or> \<not> lf_config x, lf_phase := PHASE_WITHIN, lf_mpp := lf_mpp x \<or> \<not> env_is_mpp env\<rparr>)
     (\<lambda>x. if lf_initialized x then [] else
        (if lf_config x then [] else Call ConfigInit # (if lf_registered x then [] else register_script env) @ [Call ConfigApplyEnv])
        @ init_script env)"
proof -
  have mpp: "effect (\<lambda>rt. if \<not> env_is_mpp env then run_steps [RegisterExitHandler, init_mpp env MODE_BEGIN] rt else Inr rt)
      (\<lambda>x. if \<not> env_is_mpp env then x\<lparr>lf_mpp := True\<rparr> else x) (\<lambda>x. [])"
    by (rule effect_eq, rule effect_if [where c = "\<lambda>x. \<not> env_is_mpp env"], (rule effects)+, simp) simp_all
  show ?thesis
    unfolding InitMeasurementWithArgs_def initialization_sanity_checks_def subsystems_initialize_def subsystems_begin_def
      subsystems_activate_cpu_location_def
    by (rule effect_eq, rule effect_Cons, rule effects, rule effect_Cons, rule effects, rule effect_Cons, rule effects, rule effect_Cons,
        rule effect_if [where c = lf_initialized], rule effects, (rule mpp effects)+, simp add: flags_of_def, rule effect_Nil)
      (auto simp: init_script_def)
qed

lemma effect_finalize:
  "effect (scorep_finalize env in_signal in_parallel)
     (\<lambda>x. if \<not> lf_initialized x \<or> lf_finalized x \<or> lf_aborted x then x else x\<lparr>lf_finalized := True, lf_phase := PHASE_POST\<rparr>)
     (\<lambda>x. if \<not> lf_initialized x \<or> lf_finalized x \<or> lf_aborted x then []
        else end_script env @ (if lf_writes env x then write_script env else []))"
proof -
  have rest: "effect (\<lambda>rt. if env_is_mpp env \<and> \<not> mpp_is_initialized (rt_status rt) then IN_MEASUREMENT_DECREMENT rt
      else run_steps [call_component Filtering_Finalize, call_component FinalizeDefinitions, call_component FinalizeLocationGroup, unify_step env, call_component WriteData,
        call_component Addr2line_Finalize, call_component DefinitionsFinalize, call_component FinalizeLocations, subsystems_finalize env, call_component LocationFinalize,
        call_component ConfigFini, call_component RenameExperimentDir, call_component Status_Finalize, subsystems_deregister env, call_component Thread_Finalize,
        call_component Memory_Finalize, IN_MEASUREMENT_DECREMENT] rt)
     (\<lambda>x. x\<lparr>lf_depth := lf_depth x - 1\<rparr>) (\<lambda>x. if lf_writes env x then write_script env else [])"
    unfolding unify_step_def subsystems_pre_unify_def subsystems_post_unify_def subsystems_finalize_def subsystems_deregister_def
    by (rule effect_eq, rule effect_if [where c = "\<lambda>x. \<not> lf_writes env x"], (rule effects)+, simp add: flags_of_def lf_writes_def)
      (auto simp: write_script_def)
  show ?thesis
    unfolding scorep_finalize_def subsystems_end_def subsystems_deactivate_cpu_location_def
    by (rule effect_eq, rule effect_Cons, rule effects, rule effect_Cons, rule effects, rule effect_Cons,
        rule effect_if [where c = "\<lambda>x. \<not> lf_initialized x \<or> lf_finalized x \<or> lf_aborted x"], rule effects,
        (rule rest effects)+, simp add: flags_of_def, rule effect_Nil)
      (auto simp: end_script_def lf_writes_def)
qed

section \<open>Every run follows the script\<close>

text \<open>The log for the flags; \<open>written\<close> says whether the finalization was one that writes the data.\<close>

definition script_so_far :: "runtime_env \<Rightarrow> bool \<Rightarrow> life_flags \<Rightarrow> action list" where
  "script_so_far env written x =
     (if lf_config x then config_script env else [])
     @ (if lf_initialized x then init_script env else [])
     @ (if lf_finalized x then end_script env @ (if written then write_script env else []) else [])"

definition phase_of :: "life_flags \<Rightarrow> measurement_phase" where
  "phase_of x = (if lf_finalized x then PHASE_POST else if lf_initialized x then PHASE_WITHIN else PHASE_PRE)"

definition on_script :: "runtime_env \<Rightarrow> runtime \<Rightarrow> bool" where
  "on_script env rt \<longleftrightarrow> (let x = flags_of rt in lf_registered x = lf_config x \<and> (lf_finalized x \<longrightarrow> lf_initialized x) \<and> (lf_initialized x \<longrightarrow> lf_config x) \<and>
     (lf_initialized x \<and> \<not> env_is_mpp env \<longrightarrow> lf_mpp x) \<and> lf_phase x = phase_of x \<and> lf_depth x = 0 \<and>
     (\<exists>written. (\<not> env_is_mpp env \<longrightarrow> written) \<and> life_log rt = script_so_far env written x))"

definition whole_script :: "runtime_env \<Rightarrow> action list" where
  "whole_script env = config_script env @ init_script env @ end_script env @ write_script env"

lemma lifecycle_effect:
  "\<exists>g s. effect (lifecycle_step env c) g s \<and> (\<forall>rt. on_script env rt \<longrightarrow>
     (let x = flags_of rt; y = g x in
        (\<exists>w. life_log rt @ s x = script_so_far env w y \<and> (\<not> env_is_mpp env \<longrightarrow> w)) \<and>
        lf_registered y = lf_config y \<and> (lf_finalized y \<longrightarrow> lf_initialized y) \<and> (lf_initialized y \<longrightarrow> lf_config y) \<and>
        (lf_initialized y \<and> \<not> env_is_mpp env \<longrightarrow> lf_mpp y) \<and> lf_phase y = phase_of y \<and> lf_depth y = 0))"
proof -
  have quiet: "?thesis" if "effect (lifecycle_step env c) g (\<lambda>x. [])"
      "\<And>x. lf_initialized (g x) = lf_initialized x \<and> lf_finalized (g x) = lf_finalized x \<and> lf_config (g x) = lf_config x \<and> lf_registered (g x) = lf_registered x \<and>
        lf_phase (g x) = lf_phase x \<and> lf_depth (g x) = lf_depth x \<and> (lf_mpp x \<longrightarrow> lf_mpp (g x))" for g
    using that by (intro exI [of _ g] exI [of _ "\<lambda>x. []"])
      (auto simp: on_script_def Let_def script_so_far_def phase_of_def)
  show ?thesis
  proof (cases c)
    case (CallInitMeasurement a b)
    show ?thesis unfolding CallInitMeasurement lifecycle_step.simps
      by (rule exI, rule exI, rule conjI, rule effect_init)
        (auto simp: on_script_def Let_def script_so_far_def phase_of_def config_script_eq)
  next
    case (CallInitConfigVariables a)
    show ?thesis unfolding CallInitConfigVariables lifecycle_step.simps
      by (rule exI, rule exI, rule conjI, rule effect_config)
        (auto simp: on_script_def Let_def script_so_far_def phase_of_def config_script_eq)
  next
    case (CallFinalize a b)
    show ?thesis unfolding CallFinalize lifecycle_step.simps
      by (rule exI, rule exI, rule conjI, rule effect_finalize)
        (auto simp: on_script_def Let_def script_so_far_def phase_of_def lf_writes_def)
  next
    case CallInitMpp
    have "effect (InitMppMeasurement env) (\<lambda>x. x\<lparr>lf_mpp := True\<rparr>) (\<lambda>x. [])"
      unfolding InitMppMeasurement_def by (rule effect_eq, (rule effects)+) simp_all
    then have e: "effect (lifecycle_step env c) (\<lambda>x. x\<lparr>lf_mpp := True\<rparr>) (\<lambda>x. [])" by (simp add: CallInitMpp)
    show ?thesis by (rule quiet [OF e]) simp
  next
    case CallFinalizeMpp
    have "effect FinalizeMppMeasurement (\<lambda>x. x) (\<lambda>x. [])" unfolding FinalizeMppMeasurement_def by (rule effects)
    then have e: "effect (lifecycle_step env c) (\<lambda>x. x) (\<lambda>x. [])" by (simp add: CallFinalizeMpp)
    show ?thesis by (rule quiet [OF e]) simp
  next
    case (CallSetDefaultRecordingMode m)
    have "effect (SetDefaultRecordingMode m) (\<lambda>x. x) (\<lambda>x. [])"
      unfolding SetDefaultRecordingMode_def by (rule effect_eq, (rule effects)+) simp_all
    then have e: "effect (lifecycle_step env c) (\<lambda>x. x) (\<lambda>x. [])" by (simp add: CallSetDefaultRecordingMode)
    show ?thesis by (rule quiet [OF e]) simp
  next
    case CallSetAbortFlag
    have "effect SetAbortFlag (\<lambda>x. x\<lparr>lf_aborted := True\<rparr>) (\<lambda>x. [])" unfolding SetAbortFlag_def by (rule effects)
    then have e: "effect (lifecycle_step env c) (\<lambda>x. x\<lparr>lf_aborted := True\<rparr>) (\<lambda>x. [])" by (simp add: CallSetAbortFlag)
    show ?thesis by (rule quiet [OF e]) simp
  next
    case (CallRegisterExitCallback n)
    have "effect (RegisterExitCallback n) (\<lambda>x. x) (\<lambda>x. [])"
      unfolding RegisterExitCallback_def by (rule effect_eq, (rule effects)+) simp_all
    then have e: "effect (lifecycle_step env c) (\<lambda>x. x) (\<lambda>x. [])" by (simp add: CallRegisterExitCallback)
    show ?thesis by (rule quiet [OF e]) simp
  qed (intro quiet [of "\<lambda>x. x"]; simp add: effects)+
qed

lemma on_script_step:
  assumes "on_script env rt" "lifecycle_step env c rt = Inr rt'"
  shows "on_script env rt'"
proof -
  obtain g s where e: "effect (lifecycle_step env c) g s" "\<forall>rt. on_script env rt \<longrightarrow>
     (let x = flags_of rt; y = g x in
        (\<exists>w. life_log rt @ s x = script_so_far env w y \<and> (\<not> env_is_mpp env \<longrightarrow> w)) \<and>
        lf_registered y = lf_config y \<and> (lf_finalized y \<longrightarrow> lf_initialized y) \<and> (lf_initialized y \<longrightarrow> lf_config y) \<and>
        (lf_initialized y \<and> \<not> env_is_mpp env \<longrightarrow> lf_mpp y) \<and> lf_phase y = phase_of y \<and> lf_depth y = 0)"
    using lifecycle_effect by blast
  have "flags_of rt' = g (flags_of rt)" "life_log rt' = life_log rt @ s (flags_of rt)"
    using spec [OF e(1) [unfolded effect_def], of rt] assms(2) by simp_all
  then show ?thesis using e(2) assms(1) by (auto simp: on_script_def [of env rt'] Let_def)
qed

lemma running_on_script: "running env rt \<Longrightarrow> on_script env rt"
proof (induction rule: running.induct)
  case start
  then show ?case
    by (auto simp: on_script_def initial_runtime_def initial_status_def flags_of_def life_log_def script_so_far_def phase_of_def Let_def)
next
  case (returned rt c rt')
  then show ?case using on_script_step by blast
qed

lemma script_prefix: "lf_finalized x \<longrightarrow> lf_initialized x \<Longrightarrow> lf_initialized x \<longrightarrow> lf_config x \<Longrightarrow> prefix (script_so_far env w x) (whole_script env)"
  by (auto simp: script_so_far_def whole_script_def)


text \<open>
  C14. When a call ends the process (an error of a subsystem, a failed assertion, a call from a signal handler), what was done
  until then is a prefix of the whole script: nothing is called after the failing call, and the finalization was
  not begun before the initialization was complete.
\<close>

theorem lifecycle_error_stops_script:
  assumes "ended env rt"
  shows "prefix (filter scripted (rt_log rt)) (config_script env @ init_script env @ end_script env @ write_script env)"
  using assms
proof (cases rule: ended.cases)
  case (1 rt0 c)
  have o: "on_script env rt0" using running_on_script [OF 1(1)] .
  obtain g s where e: "effect (lifecycle_step env c) g s" "\<forall>rt. on_script env rt \<longrightarrow>
     (let x = flags_of rt; y = g x in
        (\<exists>w. life_log rt @ s x = script_so_far env w y \<and> (\<not> env_is_mpp env \<longrightarrow> w)) \<and>
        lf_registered y = lf_config y \<and> (lf_finalized y \<longrightarrow> lf_initialized y) \<and> (lf_initialized y \<longrightarrow> lf_config y) \<and>
        (lf_initialized y \<and> \<not> env_is_mpp env \<longrightarrow> lf_mpp y) \<and> lf_phase y = phase_of y \<and> lf_depth y = 0)"
    using lifecycle_effect by blast
  obtain s' where s': "prefix s' (s (flags_of rt0))" "life_log rt = life_log rt0 @ s'"
    using spec [OF e(1) [unfolded effect_def], of rt0] 1(2) by auto
  obtain w where w: "life_log rt0 @ s (flags_of rt0) = script_so_far env w (g (flags_of rt0))"
    "prefix (script_so_far env w (g (flags_of rt0))) (whole_script env)"
    using e(2) o script_prefix by (metis (no_types, lifting))
  have "prefix (life_log rt) (life_log rt0 @ s (flags_of rt0))" using s' by simp
  then show ?thesis using w prefix_order.trans by (metis life_log_def whole_script_def)
qed

section \<open>A process that runs to its end\<close>

definition env_ok :: "runtime_env \<Rightarrow> bool" where
  "env_ok env \<longleftrightarrow> env_register_ok env \<and> env_config_ok env \<and> (\<forall>h. \<forall>i < env_subsystems env. env_has_hook env h i \<longrightarrow> env_hook_ok env h i) \<and>
     0 \<le> env_ipc_rank env \<and> env_ipc_rank env < env_ipc_size env"

definition log_actions :: "action list \<Rightarrow> runtime \<Rightarrow> runtime" where
  "log_actions as rt = rt\<lparr>rt_log := rt_log rt @ as\<rparr>"

definition raw_hooks :: "runtime_env \<Rightarrow> hook \<Rightarrow> nat list \<Rightarrow> action list" where
  "raw_hooks env h is = map (Hook h) (filter (env_has_hook env h) is)"

lemma run_hooks:
  "\<forall>i \<in> set is. env_has_hook env h i \<longrightarrow> env_hook_ok env h i \<Longrightarrow>
     run_steps (map (call_hook env h) is) rt = Inr (log_actions (raw_hooks env h is) rt)"
  by (induction "is" arbitrary: rt) (auto simp: call_hook_def log_actions_def log_action_def raw_hooks_def)

lemma run_void_hooks: "run_steps (map (call_void_hook env h) is) rt = Inr (log_actions (raw_hooks env h is) rt)"
  by (induction "is" arbitrary: rt) (auto simp: call_void_hook_def log_actions_def log_action_def raw_hooks_def)

lemma forward_ok: "env_ok env \<Longrightarrow> forward env h rt = Inr (log_actions (raw_hooks env h [0..<env_subsystems env]) rt)"
  by (simp add: forward_def run_hooks env_ok_def)

lemma backward_ok: "backward env h rt = Inr (log_actions (raw_hooks env h (rev [0..<env_subsystems env])) rt)"
  by (simp add: backward_def run_void_hooks)

lemmas run_defs = run_steps.simps call_component_def update_def check_def log_action_def log_actions_def set_status_def
  IN_MEASUREMENT_INCREMENT_def IN_MEASUREMENT_DECREMENT_def InitConfigVariables_def RegisterAllConfigVariables_def initialization_sanity_checks_def
  Status_Initialize_step_def Status_OnMppInit_def init_mpp_def synchronize_def begin_epoch_def end_epoch_def RegisterExitHandler_def
  subsystems_register_def subsystems_initialize_def subsystems_begin_def subsystems_activate_cpu_location_def
  subsystems_initialize_mpp_def subsystems_synchronize_def subsystems_end_def subsystems_deactivate_cpu_location_def
  subsystems_pre_unify_def subsystems_post_unify_def subsystems_finalize_def subsystems_deregister_def unify_step_def
  trigger_exit_callbacks_def

lemma init_returns:
  assumes "env_ok env" "\<not> env_is_mpp env"
  shows "\<exists>rt. InitMeasurementWithArgs env False p initial_runtime = Inr rt \<and> IsInitialized rt \<and> rt_exit_handlers rt = 1 \<and>
    rt_exit_callbacks rt = [] \<and> \<not> rt_aborted rt \<and> rt_recording_by_default rt \<and> rt_recording_enabled rt"
  using assms forward_ok [OF assms(1)]
  by (simp add: InitMeasurementWithArgs_def initial_runtime_def initial_status_def run_defs run_void_hooks env_ok_def IsInitialized_def)

lemma finalize_returns:
  assumes "env_ok env" "\<not> env_is_mpp env" "IsInitialized rt" "\<not> rt_aborted rt" "length (rt_exit_callbacks rt) \<le> max_exit_callbacks"
  shows "\<exists>rt'. scorep_finalize env False p rt = Inr rt' \<and> rt_finalized rt'"
proof -
  have c: "run_steps (map (\<lambda>c. call_component (ExitCallback c)) cs) rt = Inr (log_actions (map (\<lambda>c. Call (ExitCallback c)) cs) rt)" for cs rt
    by (induction cs arbitrary: rt) (simp_all add: call_component_def log_action_def log_actions_def)
  have e: "EnableRecording_step p rt = Inr (if p then rt else log_action (Call EnableRecordingEvent)
      ((log_action (Call SubstratesEnableRecording) rt)\<lparr>rt_recording_enabled := True\<rparr>))" for rt
    by (simp add: EnableRecording_step_def run_defs)
  show ?thesis
    using assms forward_ok [OF assms(1)]
    by (simp add: scorep_finalize_def run_defs run_void_hooks backward_ok IsInitialized_def c e)
qed


text \<open>The witnesses: two subsystems, of which one has no callback for the start of the measurement.\<close>

definition two_subsystems :: "bool \<Rightarrow> runtime_env" where
  "two_subsystems ok = \<lparr>env_subsystems = 2, env_has_hook = (\<lambda>h i. h \<noteq> subsystem_begin \<or> i = 1), env_hook_ok = (\<lambda>h i. ok),
     env_is_mpp = False, env_register_ok = True, env_config_ok = True, env_profiling = True, env_tracing = False, env_ipc_size = 1, env_ipc_rank = 0,
     env_node_ids = [7]\<rparr>"



theorem lifecycle_error_stops_script_witness:
  "\<exists>rt. ended (two_subsystems False) rt \<and>
     prefix (filter scripted (rt_log rt)) (whole_script (two_subsystems False))"
proof -
  have n: "[0..<2] = [0, 1::nat]" by (simp add: upt_conv_Cons)
  have "\<exists>rt. lifecycle_step (two_subsystems False) (CallInitConfigVariables False) initial_runtime = Inl rt"
    by (simp add: two_subsystems_def InitConfigVariables_def run_defs forward_def call_hook_def n initial_runtime_def)
  then obtain rt where "ended (two_subsystems False) rt" using ended.intros [OF running.start] by blast
  then show ?thesis using lifecycle_error_stops_script unfolding whole_script_def by blast
qed

end
