(* ===== verification/Spec2Isabelle.thy ===== *)
theory Spec2Isabelle
  imports Scorep_Allocator_Props Scorep_Hashtab Scorep_Vector Scorep_Bitstring Scorep_Rewind Scorep_Profile_Callpaths Scorep_Profile_Roots Scorep_Path Scorep_Selective Scorep_Filter_Parser Scorep_AllocMetric Scorep_Unify_Mapping Scorep_Unify_Finish Scorep_Unify_Mpp_Props Scorep_Task_Props Scorep_Config_Registry Scorep_Lifecycle_Props
begin

text \<open>
  A verification development for the Score-P measurement system, the library that an instrumented program
  is linked with. It models the parts of the measurement library that hold its own data structures and
  algorithms, translated function by function from the C sources under \<open>src/\<close>, and proves
  what they promise to the rest of the library. The sections below say which theory models which files, how
  the state and the operations correspond to the code, what the lemmas of each part show, and what is not
  modelled.

  \<^bigskip>
  How the parts interact. An adapter observes an event of the application (a function is entered, a
  message is sent, memory is allocated). It asks the filter or the selective recording whether the event is
  wanted, makes definitions for what the event talks about (strings, regions, files, communicators, ...) and
  hands the event to the measurement core. The core keeps, for every location, the stack of entered regions
  of the current task, the profile (a tree of callpaths with metrics) and the trace with its rewind regions.
  Definitions, profile nodes and trace buffers live in pages of one allocator with a fixed amount of memory.
  At the end of the measurement the definitions of all locations and all processes are unified, and
  identifiers of each process are mapped to the unified ones. Configuration variables decide about all of
  this at the start.

  \<^bigskip>
  Conventions of the model (\<open>Scorep_Prelude\<close>).
  \<^item> Machine integers are words of their width (\<open>u8\<close>, \<open>u32\<close>, \<open>u64\<close>)
    wherever the code depends on the wrap-around; sizes, counters and indices that are bounded by the memory
    are natural numbers, with the bound in the invariant.
  \<^item> A function that can stop the process (a failed \<open>assert\<close>, \<open>UTILS_ASSERT\<close>,
    \<open>UTILS_BUG_ON\<close>), touches memory outside an object, or may not return, has an option result:
    \<open>None\<close> is that outcome. So a theorem that says \<open>f x = Some y\<close> says also that the
    function returns and that no assertion fails. An error that the code returns is a value inside.
  \<^item> Loops are structural recursions, \<open>function\<close>s with a measure, or, where a loop may run for
    ever or no measure is visible, \<open>partial_function (option)\<close>, for which the properties show
    that the result is \<open>Some\<close>. No fuel is used anywhere.
  \<^item> Memory is modelled by what points into it: linked lists whose cells are never shared are lists,
    lists whose links the code rearranges in place (rewind regions, page lists, task stack frames) are stores
    from addresses to records, trees are datatypes, handles of definitions are positions in the array of
    definitions of their kind.
  \<^item> What is not under \<open>src/\<close> is a parameter: \<open>fnmatch\<close> in the filter, the result
    of memory requests in the vector, the line reader and the paths, the environment in the
    configuration, the writer of trace files, whose calls are recorded as actions.

  \<^bigskip>
  Memory (\<open>src/src/utils/memory\<close>).
  \<open>Scorep_Bitset\<close> is the page bitmap of \<open>scorep_bitset.h\<close>, over 64-bit words, with the word
  operations that find and set ranges; the range functions are proved once in the locales
  \<open>word_range\<close> and \<open>word_search\<close>, interpreted on the functions that set, clear and search.
  \<open>Scorep_Allocator\<close> (\<open>SCOREP_Allocator.c\<close>: allocator, page managers, union objects, moved
  pages, statistics) gives a machine state with a store of pages and the free list of union objects.
  \<open>Scorep_Allocator_Pages\<close> and \<open>Scorep_Allocator_Managers\<close> hold the invariant (every set bit of
  the bitmap is a maintenance page or belongs to exactly one page of one manager), with the locale
  \<open>page_source\<close> for the two ways to take pages. \<open>Scorep_Allocator_Create\<close> is the constructor,
  \<open>Scorep_Allocator_World\<close> the inductive set of states that requests of the public functions reach, and
  \<open>Scorep_Allocator_Props\<close> the properties in every such state: each valid request returns, blocks are
  aligned and overlap nothing in use, rolled back and moved memory.
\<close>

text \<open>
  Containers and strings.
  \<open>Scorep_Jenkins\<close> (\<open>jenkins_hash.c\<close>), \<open>Scorep_Hashtab\<close>
  (\<open>SCOREP_Hashtab*.c\<close>) and \<open>Scorep_Vector\<close> (\<open>SCOREP_Vector.c\<close>) are the
  containers. The locale \<open>dictionary\<close> states the laws of a table with lookup, insert and remove,
  \<open>hash_key\<close> the agreement of a hash function with a comparison; it gives a dictionary (a sublocale)
  and is interpreted on the four pairs of functions the library provides. \<open>ordered_search\<close> is the
  contract of a comparison for the binary search in a sorted vector, interpreted on the intervals of the
  selective recording. \<open>Scorep_Bitstring\<close> are bit strings over bytes, \<open>Scorep_IO\<close> and
  \<open>Scorep_Path\<close> the string, line and path functions of \<open>src/common/utils\<close>,
  \<open>Scorep_Text\<close> the functions of the C library on characters and tokens that the parsers use.

  \<^bigskip>
  Definitions (\<open>src/src/measurement/definitions\<close>, \<open>scorep_unify.c\<close>).
  \<open>Scorep_Definitions\<close> has one constructor for every kind of definition, with the fields of its struct,
  and the state \<open>defs\<close>: the managers, each with the chain, the hash table and the counter of every kind.
  \<open>Scorep_Definitions_Manager\<close> adds a definition to a manager as the macros of
  \<open>scorep_definitions_private.h\<close> do (hash values, equality, duplicates, rollback of the allocation),
  \<open>Scorep_Definitions_New\<close> and \<open>Scorep_Definitions_Interface\<close> are the functions of each kind.
  The locale \<open>definition_invariant\<close> states that an invariant survives adding and changing one
  definition, and derives that every operation of the interface keeps it; it is interpreted on the well-formedness of
  the managers, on well-formedness before unification, and on the presence of a string.
  \<open>Scorep_Definitions_Props\<close> and \<open>Scorep_Definitions_Results\<close> hold the invariant and what it
  gives: a definition is added exactly when no equal one exists, strings are interned.
  \<open>Scorep_Unify\<close> copies the definitions of a manager to the unified manager,
  \<open>Scorep_Unify_Props\<close> shows that each is represented there with its references translated and
  \<open>Scorep_Unify_Mapping\<close> that the mappings lead from local identifiers to unified ones.
  \<open>Scorep_Unify_Finish\<close> has the other steps of \<open>SCOREP_Unify\<close>: interim communicators, empty
  names, and the groups of regions, which are collected in a hash table of the containers (another
  interpretation of \<open>hash_key\<close>).
  \<open>Scorep_Comm_Partners\<close> and \<open>Scorep_Unify_Mpp\<close> (\<open>scorep_unify_mpp_ipc.c\<close>) are the unification of all
  processes along a binary tree, which is computed right for at most \<open>2 ^ 30\<close> processes. The locale
  \<open>comm_tree\<close> states what the exchanges need of a tree (the parent of a process has a smaller
  rank, and the children of a process are those it is the parent of), proves that the processes never block each other, and is interpreted on the partners the code computes.
  \<open>Scorep_Unify_Mpp_Props\<close> shows that the mappings handed down the tree compose to mappings to the numbers
  of the root.

  \<^bigskip>
  Events.
  \<open>Scorep_Task\<close> (\<open>SCOREP_Task.c\<close>, with the enter and exit of \<open>SCOREP_Events.c\<close>) has the stacks of
  entered regions of the tasks, linked blocks of a fixed size that are reused from a list of free blocks;
  \<open>Scorep_Task_Props\<close> shows that they refine lists, through every sequence of operations and error.
  \<open>Scorep_Profile_Metric\<close>, \<open>Scorep_Profile_Node\<close> and \<open>Scorep_Profile_Events\<close>
  (\<open>src/src/measurement/profiling\<close>) are the metrics, the tree of callpaths and the events of one
  location; the properties relate the tree to the nesting of the calls. \<open>Scorep_Profile_Process\<close> has steps of the
  post-processing after the measurement (collapsed nodes, sorting of the threads, roots for tasks, threads and
  kernels, callpaths), \<open>Scorep_Profile_Roots\<close> what they do to the roots, and
  \<open>Scorep_Profile_Callpaths\<close> shows, over the definitions of \<open>Scorep_Definitions_New\<close>, that the callpath
  handles of the nodes of all threads identify the callpaths.
  \<open>Scorep_Rewind\<close> (\<open>src/src/measurement/tracing\<close>) is the stack of open rewind regions, a linked
  list in memory that refines a list. \<open>Scorep_AllocMetric\<close>
  (\<open>src/src/utils/alloc_metric\<close>) tracks allocations in a splay tree.

  \<^bigskip>
  Life cycle.
  \<open>Scorep_Lifecycle\<close> has the start and the end of the measurement (\<open>SCOREP_RuntimeManagement.c\<close>), the loops over
  the subsystems (\<open>scorep_subsystem_management.c\<close>) and the status of the process (\<open>scorep_status.c\<close>). An operation is a
  list of steps on the static variables of these files; a step returns (\<open>Inr\<close>) or ends the process (\<open>Inl\<close>), and
  the calls of subsystems and of other components are entries of a log. The relation \<open>running\<close> has the states a process can
  reach by any sequence of calls. A callback that calls back into these files, as the MPI adapter does when it is deregistered, is a
  call of its own in that sequence. \<open>Scorep_Lifecycle_Props\<close> computes the effect of each operation on the flags and on
  the log from the effects of its steps, and shows that every process follows one script.

  \<^bigskip>
  What is recorded.
  \<open>Scorep_Filter\<close> and \<open>Scorep_Filter_Parser\<close> (\<open>src/src/utils/filter\<close>) are the filter
  rules and their file; \<open>Scorep_Selective\<close> (\<open>src/src/adapters/user\<close>) the recording of selected
  visits of user regions. \<open>Scorep_Config_Values\<close>, \<open>Scorep_Config\<close>,
  \<open>Scorep_Config_Props\<close> and \<open>Scorep_Config_Registry\<close> (\<open>SCOREP_Config.c\<close>) are the
  configuration variables: parsing and writing values, and the registry by name spaces and names.
\<close>

text \<open>
  Not modelled.
  \<^item> The adapters (MPI, OpenMP tools interface, CUDA, HIP, OpenCL, OpenACC, Kokkos, POSIX threads, SHMEM, I/O
    and memory wrappers, compiler instrumentation) are wrapper functions around the interface of another library:
    what they do is call that library and pass its arguments on as events. Most of the lines of the program are of
    this kind and many are generated from templates.
  \<^item> The steps of the post-processing of the profile that cut and move nodes while they walk over the chains these
    nodes are in (thread starts, parameters, phases), and the clustering of iterations. The tree of the model has no addresses
    of nodes, so a pointer into another tree has no counterpart in it.
  \<^item> The writers of profiles and traces pass the data of the profile and of the definitions on to the libraries
    Cube and OTF2, which are not under \<open>src/\<close>.
  \<^item> The services (hardware counters, timers, unwinding, sampling, system tree of a platform) read their data from the
    operating system or from libraries.
  \<^item> Concurrency: an operation that the code protects with a lock is one step of the model, and the lock-free parts
    (definitions made in parallel by threads without a lock) are outside it. State that belongs to one location is
    only changed by the thread of this location.
  \<^item> Of the life cycle: the names of the executable and the program, the working directory, and the events sent to the substrates
    around a flush of trace buffers; the substrates are a table of callbacks.
  \<^item> The tools (\<open>src/tools\<close>) are C++ programs around compilers and the Cube library.
\<close>

end
